(* ===== verification/Prelude.thy ===== *)
theory Prelude
  imports Main "HOL-Library.Word"
begin

text \<open>
  Shared vocabulary of the development: the machine integers of the C++ sources, the faults an
  operation can end in, little-endian and big-endian readings of byte sequences, arrays that
  are written in place, and the generic lemmas the component theories rest on.
\<close>

unbundle bit_operations_syntax

type_synonym u8 = "8 word"
type_synonym u16 = "16 word"
type_synonym u32 = "32 word"
type_synonym u64 = "64 word"
type_synonym bytes = "u8 list"

named_theorems arr_simps "reading and writing fixed-size arrays"
named_theorems le_simps "values of little-endian byte sequences"

section \<open>Faults and results\<close>

text \<open>
  What the C++ code does besides returning: an \<open>assert\<close> that fails (a debug build stops there),
  a call of \<open>exit(1)\<close>, a read or write outside of an array, which C++ leaves undefined, a
  loop that never ends, a signed computation that overflows or a shift by the width or more, a division by zero, memory that is freed
  twice, and a use of freed memory.
\<close>

datatype fault = AssertFailure | ProcessExit | OutOfBounds | Diverges | Overflow | DivisionByZero | DoubleFree | UseAfterFree

type_synonym 'a result = "fault + 'a"

abbreviation Ok :: "'a \<Rightarrow> 'a result" where
  "Ok x \<equiv> Inr x"

abbreviation Fault :: "fault \<Rightarrow> 'a result" where
  "Fault e \<equiv> Inl e"

definition bind_result :: "'a result \<Rightarrow> ('a \<Rightarrow> 'b result) \<Rightarrow> 'b result" where
  "bind_result r f = (case r of Inl e \<Rightarrow> Inl e | Inr x \<Rightarrow> f x)"

lemma bind_result_simps [simp]:
  "bind_result (Inl e) f = Inl e"
  "bind_result (Inr x) f = f x"
  by (simp_all add: bind_result_def)

lemma bind_result_eq_Inr:
  "bind_result r f = Inr y \<longleftrightarrow> (\<exists>x. r = Inr x \<and> f x = Inr y)"
  by (cases r) simp_all

text \<open>The two ways the code is built: \<open>NDEBUG\<close> (a release build) drops every \<open>assert\<close>.\<close>

datatype build = Debug | Release

definition c_assert :: "build \<Rightarrow> bool \<Rightarrow> unit result" where
  "c_assert b c = (if c \<or> b = Release then Ok () else Fault AssertFailure)"

lemma c_assert_simps [simp]:
  "c_assert b True = Inr ()"
  "c_assert Release c = Inr ()"
  "c_assert Debug False = Inl AssertFailure"
  by (simp_all add: c_assert_def)

text \<open>Stateful operations that may fault, in sequence.\<close>

definition bind_state :: "('s \<Rightarrow> ('a \<times> 's) result) \<Rightarrow> ('a \<Rightarrow> 's \<Rightarrow> ('b \<times> 's) result) \<Rightarrow> 's \<Rightarrow> ('b \<times> 's) result" where
  "bind_state m f s = bind_result (m s) (\<lambda>(x, s'). f x s')"

definition return_state :: "'a \<Rightarrow> 's \<Rightarrow> ('a \<times> 's) result" where
  "return_state x s = Ok (x, s)"

lemma bind_state_Ok: "m s = Ok (x, s') \<Longrightarrow> bind_state m f s = f x s'"
  by (simp add: bind_state_def)

lemma bind_state_eq_Ok:
  "bind_state m f s = Ok r \<longleftrightarrow> (\<exists>x s'. m s = Ok (x, s') \<and> f x s' = Ok r)"
  by (auto simp: bind_state_def bind_result_eq_Inr)

text \<open>The decimal digits \<open>printf\<close> writes for a non-negative number.\<close>

fun decimal :: "nat \<Rightarrow> bytes" where
  "decimal n = (if n < 10 then [word_of_nat (48 + n)] else decimal (n div 10) @ [word_of_nat (48 + n mod 10)])"

declare decimal.simps [simp del]

section \<open>Arrays\<close>

text \<open>
  \<open>splice a i xs\<close> is \<open>memcpy(&a[i], xs, |xs|)\<close>: the bytes of \<open>a\<close> from \<open>i\<close> on are overwritten.
\<close>

definition splice :: "'a list \<Rightarrow> nat \<Rightarrow> 'a list \<Rightarrow> 'a list" where
  "splice a i xs = take i a @ xs @ drop (i + length xs) a"

lemma length_splice [simp]: "i + length xs \<le> length a \<Longrightarrow> length (splice a i xs) = length a"
  by (simp add: splice_def)

lemma take_splice [arr_simps]:
  "i + length xs \<le> length a \<Longrightarrow> take (i + length xs) (splice a i xs) = take i a @ xs"
  by (simp add: splice_def)

lemma splice_Nil [simp]: "splice a i [] = a"
  by (simp add: splice_def)

lemma take_list_update_same [arr_simps]: "n \<le> i \<Longrightarrow> take n (xs[i := v]) = take n xs"
  by simp

lemma take_Suc_nth [arr_simps]: "i < length xs \<Longrightarrow> take (Suc i) xs = take i xs @ [xs ! i]"
  by (simp add: take_Suc_conv_app_nth)

lemma take_Suc_update [arr_simps]:
  "i < length xs \<Longrightarrow> take (Suc i) (xs[i := v]) = take i xs @ [v]"
  by (simp add: take_Suc_conv_app_nth)

section \<open>Byte sequences as numbers\<close>

text \<open>\<open>le_nat\<close> reads a byte sequence with its least significant byte first.\<close>

fun le_nat :: "bytes \<Rightarrow> nat" where
  "le_nat [] = 0"
| "le_nat (b # bs) = unat b + 256 * le_nat bs"

lemma unat_u8_less [simp]: "unat (b :: u8) < 256"
  using unsigned_less [of b] by simp

lemma unat_u8_le [simp]: "unat (b :: u8) \<le> 255"
  using unat_u8_less [of b] by linarith

lemma le_nat_append [le_simps]: "le_nat (xs @ ys) = le_nat xs + 256 ^ length xs * le_nat ys"
  by (induction xs) (simp_all add: algebra_simps)

lemma le_nat_less: "le_nat bs < 256 ^ length bs"
proof (induction bs)
  case (Cons b bs)
  have "unat b + 256 * le_nat bs < 256 + 256 * le_nat bs" by simp
  also have "\<dots> = 256 * Suc (le_nat bs)" by simp
  also have "\<dots> \<le> 256 * 256 ^ length bs" using Cons.IH by (intro mult_le_mono) simp_all
  finally show ?case by simp
qed simp

lemma le_nat_replicate_0 [simp]: "le_nat (replicate n 0) = 0"
  by (induction n) simp_all

lemma le_nat_inj:
  "length xs = length ys \<Longrightarrow> le_nat xs = le_nat ys \<Longrightarrow> xs = ys"
proof (induction xs ys rule: list_induct2)
  case (Cons x xs y ys)
  have "unat x = le_nat (x # xs) mod 256" "unat y = le_nat (y # ys) mod 256"
    "le_nat xs = le_nat (x # xs) div 256" "le_nat ys = le_nat (y # ys) div 256"
    by simp_all
  with Cons show ?case by (metis word_unat_eq_iff)
qed simp

text \<open>The \<open>n\<close> low bytes of a number, least significant first.\<close>

fun to_le :: "nat \<Rightarrow> nat \<Rightarrow> bytes" where
  "to_le 0 v = []"
| "to_le (Suc n) v = word_of_nat v # to_le n (v div 256)"

lemma length_to_le [simp]: "length (to_le n v) = n"
  by (induction n arbitrary: v) simp_all

lemma unat_word_of_nat_u8 [simp]: "unat (word_of_nat v :: u8) = v mod 256"
  by (simp add: unat_of_nat)

lemma le_nat_to_le [le_simps]: "le_nat (to_le n v) = v mod 256 ^ n"
proof (induction n arbitrary: v)
  case (Suc n)
  then show ?case by (simp add: mod_mult2_eq)
qed simp

lemma to_le_le_nat [le_simps]: "n = length bs \<Longrightarrow> to_le n (le_nat bs) = bs"
  by (rule le_nat_inj) (simp_all add: le_nat_to_le le_nat_less)

text \<open>A little-endian load of a \<open>w\<close>-bit integer, as \<open>*(const uintN_t *)p\<close> on the target machine.\<close>

fun load_le :: "bytes \<Rightarrow> 'w::len word" where
  "load_le [] = 0"
| "load_le (b # bs) = ucast b + 256 * load_le bs"

lemma load_le_nat: "load_le bs = word_of_nat (le_nat bs)"
  by (induction bs) simp_all

lemma unat_load_le:
  "(256::nat) ^ length bs \<le> 2 ^ LENGTH('w::len) \<Longrightarrow> unat (load_le bs :: 'w word) = le_nat bs"
  using le_nat_less [of bs] by (simp add: load_le_nat unat_of_nat)

definition store32 :: "u32 \<Rightarrow> bytes" where
  "store32 w = [ucast w, ucast (drop_bit 8 w), ucast (drop_bit 16 w), ucast (drop_bit 24 w)]"

definition store64 :: "u64 \<Rightarrow> bytes" where
  "store64 w = [ucast w, ucast (drop_bit 8 w), ucast (drop_bit 16 w), ucast (drop_bit 24 w),
     ucast (drop_bit 32 w), ucast (drop_bit 40 w), ucast (drop_bit 48 w), ucast (drop_bit 56 w)]"

lemma ucast_drop_bit_u8:
  "(ucast (drop_bit n w) :: u8) = word_of_nat (unat (w :: 'w::len word) div 2 ^ n)"
  by (simp add: word_unat_eq_iff unsigned_ucast_eq take_bit_eq_mod unat_drop_bit_eq
      drop_bit_eq_div [where 'a = nat])

lemmas ucast_u8 = ucast_drop_bit_u8 [of 0, simplified]

lemma to_le_4: "to_le 4 v = [word_of_nat v, word_of_nat (v div 256), word_of_nat (v div 65536),
    word_of_nat (v div 16777216)]"
proof -
  have four: "(4 :: nat) = Suc (Suc (Suc (Suc 0)))" by simp
  show ?thesis unfolding four by (simp add: div_mult2_eq [symmetric])
qed

lemma to_le_add: "to_le (m + n) v = to_le m v @ to_le n (v div 256 ^ m)"
  by (induction m arbitrary: v) (simp_all add: div_mult2_eq)

lemma to_le_8: "to_le 8 v = to_le 4 v @ to_le 4 (v div 4294967296)"
  using to_le_add [of 4 4 v] by simp

lemma store32_to_le: "store32 w = to_le 4 (unat w)"
  by (simp add: store32_def ucast_drop_bit_u8 ucast_u8 to_le_4)

lemma store64_to_le: "store64 w = to_le 8 (unat w)"
  by (simp add: store64_def ucast_drop_bit_u8 ucast_u8 to_le_8 to_le_4 div_mult2_eq [symmetric])

lemma length_store32 [simp]: "length (store32 w) = 4"
  by (simp add: store32_def)

lemma length_store64 [simp]: "length (store64 w) = 8"
  by (simp add: store64_def)

lemma length_concat_store32: "length (concat (map (\<lambda>i. store32 (f i)) xs)) = 4 * length xs"
  by (induction xs) simp_all

lemma load_store32 [simp]: "load_le (store32 w) = w"
proof -
  have "unat w < 2 ^ 32" using unsigned_less [of w] by simp
  then show ?thesis by (simp add: load_le_nat store32_to_le le_nat_to_le)
qed

lemma load_store64 [simp]: "load_le (store64 w) = w"
proof -
  have "unat w < 2 ^ 64" using unsigned_less [of w] by simp
  then show ?thesis by (simp add: load_le_nat store64_to_le le_nat_to_le)
qed

lemma store32_load: "length bs = 4 \<Longrightarrow> store32 (load_le bs) = bs"
  by (simp add: store32_to_le unat_load_le to_le_le_nat)

lemma store64_load: "length bs = 8 \<Longrightarrow> store64 (load_le bs) = bs"
  by (simp add: store64_to_le unat_load_le to_le_le_nat)

lemma bit_mult_256: "bit (256 * w) n \<longleftrightarrow> 8 \<le> n \<and> n < LENGTH('w) \<and> bit (w :: 'w::len word) (n - 8)"
proof -
  have "256 * w = push_bit 8 w" by (simp add: push_bit_eq_mult mult.commute)
  then show ?thesis by (auto simp: bit_simps)
qed

lemma load_le_Cons_or: "load_le (b # bs) = (ucast b OR 256 * load_le bs :: 'w::len word)"
proof -
  have "ucast b AND 256 * load_le bs = (0 :: 'w word)"
    by (rule bit_word_eqI) (auto simp: bit_and_iff bit_mult_256 bit_ucast_iff dest: bit_imp_le_length)
  then show ?thesis by (simp add: disjunctive_add_eq_or)
qed

lemma bit_load_le_Cons:
  "bit (load_le (b # bs) :: 'w::len word) n \<longleftrightarrow>
     n < LENGTH('w) \<and> (if n < 8 then bit b n else bit (load_le bs :: 'w word) (n - 8))"
  by (auto simp: load_le_Cons_or bit_or_iff bit_mult_256 bit_ucast_iff simp del: load_le.simps dest: bit_imp_le_length)

lemma bit_load_le:
  "bit (load_le bs :: 'w::len word) n \<longleftrightarrow>
     n < LENGTH('w) \<and> n div 8 < length bs \<and> bit (bs ! (n div 8)) (n mod 8)"
proof (induction bs arbitrary: n)
  case (Cons b bs)
  have *: "(n - 8) div 8 = n div 8 - 1" "(n - 8) mod 8 = n mod 8" "\<not> n div 8 = 0" if "\<not> n < 8"
    using that by (auto simp: div_if [of n] mod_if [of n])
  show ?case
    by (cases "n < 8") (auto simp: bit_load_le_Cons Cons.IH * nth_Cons' simp del: load_le.simps)
qed simp

lemma ucast_load_le:
  "LENGTH('v) = 8 * n \<Longrightarrow> LENGTH('v) \<le> LENGTH('w) \<Longrightarrow>
     (ucast (load_le bs :: 'w::len word) :: 'v::len word) = load_le (take n bs)"
  by (rule bit_word_eqI) (auto simp: bit_ucast_iff bit_load_le)

lemma drop_bit_load_le:
  "drop_bit (8 * n) (load_le bs :: 'w::len word) = load_le (drop n bs)"
  if "8 * length bs \<le> LENGTH('w)"
proof (rule bit_word_eqI)
  fix i assume "i < LENGTH('w)"
  moreover have "(8 * n + i) div 8 = n + i div 8" "(8 * n + i) mod 8 = i mod 8" by simp_all
  moreover have "8 * n + i < LENGTH('w)" if "i div 8 < length bs - n"
    using that \<open>8 * length bs \<le> LENGTH('w)\<close> by simp
  ultimately show "bit (drop_bit (8 * n) (load_le bs :: 'w word)) i = bit (load_le (drop n bs) :: 'w word) i"
    by (auto simp: bit_drop_bit_eq bit_load_le)
qed

lemma load_le_append_or:
  "length xs = n \<Longrightarrow> (load_le (xs @ ys) :: 'w::len word) = load_le xs OR push_bit (8 * n) (load_le ys)"
proof (rule bit_word_eqI)
  fix i assume n: "length xs = n" and i: "i < LENGTH('w)"
  show "bit (load_le (xs @ ys) :: 'w word) i = bit (load_le xs OR push_bit (8 * n) (load_le ys) :: 'w word) i"
  proof (cases "8 * n \<le> i")
    case True
    then obtain j where "i = 8 * n + j" by (auto simp: le_iff_add)
    with n i show ?thesis by (auto simp: bit_simps bit_load_le nth_append)
  next
    case False
    then have "i div 8 < n" by linarith
    with False n i show ?thesis by (auto simp: bit_simps bit_load_le nth_append)
  qed
qed

declare load_le.simps(2) [simp del]

text \<open>Cutting a byte sequence into 32-bit little-endian words, as a cast to \<open>uint32_t *\<close> does.\<close>

fun words_le :: "bytes \<Rightarrow> u32 list" where
  "words_le (a # b # c # d # bs) = load_le [a, b, c, d] # words_le bs"
| "words_le _ = []"

lemma length_words_le: "length (words_le bs) = length bs div 4"
  by (induction bs rule: words_le.induct) simp_all

lemma words_le_append: "4 dvd length xs \<Longrightarrow> words_le (xs @ ys) = words_le xs @ words_le ys"
proof (induction xs rule: words_le.induct)
  case (1 a b c d bs)
  then have "4 dvd length bs" by (simp add: dvd_def) presburger
  with 1 show ?case by simp
qed (auto dest: dvd_imp_le)

section \<open>Cutting a message into blocks\<close>

text \<open>
  \<open>chunks n xs\<close> are the whole blocks of \<open>n\<close> bytes of \<open>xs\<close>; an incomplete last block is left out.
  \<open>absorb f s xs\<close> folds a block function over the whole 64-byte blocks of a message.
\<close>

function chunks :: "nat \<Rightarrow> 'a list \<Rightarrow> 'a list list" where
  "chunks n xs = (if n = 0 \<or> length xs < n then [] else take n xs # chunks n (drop n xs))"
  by pat_completeness auto
termination
  by (relation "measure (\<lambda>(n, xs). length xs)") auto

declare chunks.simps [simp del]

lemma chunks_short [simp]: "length xs < n \<Longrightarrow> chunks n xs = []"
  by (simp add: chunks.simps [of n xs])

lemma chunks_Cons: "0 < n \<Longrightarrow> length b = n \<Longrightarrow> chunks n (b @ xs) = b # chunks n xs"
  by (simp add: chunks.simps [of n "b @ xs"])

lemma chunks_append: "n dvd length xs \<Longrightarrow> chunks n (xs @ ys) = chunks n xs @ chunks n ys"
proof (induction n xs rule: chunks.induct)
  case (1 n xs)
  show ?case
  proof (cases "n = 0 \<or> length xs < n")
    case True
    with 1 have "xs = [] \<or> n = 0" by (auto dest: dvd_imp_le)
    then show ?thesis by (auto simp: chunks.simps [of 0] chunks.simps [of n "[]"])
  next
    case False
    then have "n dvd length (drop n xs)" using 1 by (simp add: dvd_diff_nat)
    with 1 False have "chunks n (drop n xs @ ys) = chunks n (drop n xs) @ chunks n ys" by simp
    moreover from False have "chunks n (xs @ ys) = take n xs # chunks n (drop n xs @ ys)"
      by (subst chunks.simps) auto
    ultimately show ?thesis using False by (simp add: chunks.simps [of n xs])
  qed
qed

definition absorb :: "('s \<Rightarrow> bytes \<Rightarrow> 's) \<Rightarrow> 's \<Rightarrow> bytes \<Rightarrow> 's" where
  "absorb f s xs = foldl f s (chunks 64 xs)"

text \<open>
  The contract of a block hash: the block function keeps the invariant of the chaining value.
  What its clients use is proved here once: absorbing a message in pieces cut at block
  boundaries, and the invariant of the result.
\<close>

locale block_hash =
  fixes compress :: "'s \<Rightarrow> bytes \<Rightarrow> 's"
    and inv :: "'s \<Rightarrow> bool"
  assumes inv_compress: "inv s \<Longrightarrow> length b = 64 \<Longrightarrow> inv (compress s b)"
begin

lemma absorb_short: "length xs < 64 \<Longrightarrow> absorb compress s xs = s"
  by (simp add: absorb_def)

lemma absorb_append:
  "64 dvd length xs \<Longrightarrow> absorb compress s (xs @ ys) = absorb compress (absorb compress s xs) ys"
  by (simp add: absorb_def chunks_append)

lemma absorb_block:
  "length b = 64 \<Longrightarrow> absorb compress s (b @ ys) = absorb compress (compress s b) ys"
  by (simp add: absorb_def chunks_Cons)

lemma absorb_partial:
  "length xs mod 64 + length ys < 64 \<Longrightarrow> absorb compress s (xs @ ys) = absorb compress s xs"
proof -
  assume small: "length xs mod 64 + length ys < 64"
  let ?k = "length xs - length xs mod 64"
  have k: "64 dvd length (take ?k xs)" by (simp add: minus_mod_eq_mult_div)
  have "length (drop ?k xs @ ys) < 64" using small by simp
  then have "absorb compress s (take ?k xs @ (drop ?k xs @ ys)) = absorb compress s (take ?k xs)"
    by (simp only: absorb_append [OF k] absorb_short)
  moreover have "absorb compress s (take ?k xs @ drop ?k xs) = absorb compress s (take ?k xs)"
    using small by (simp only: absorb_append [OF k]) (simp add: absorb_short)
  ultimately show ?thesis by (simp only: append_assoc [symmetric] append_take_drop_id)
qed

lemma absorb_last:
  assumes "64 dvd length xs" "length b = 64"
  shows "absorb compress s (xs @ b) = compress (absorb compress s xs) b"
  using assms absorb_block [of b _ "[]"] by (simp add: absorb_append absorb_short)

lemma inv_absorb: "inv s \<Longrightarrow> inv (absorb compress s xs)"
  unfolding absorb_def
proof (induction "64::nat" xs arbitrary: s rule: chunks.induct)
  case (1 xs)
  then show ?case
    by (subst chunks.simps) (auto simp: inv_compress)
qed

end

text \<open>
  Padding of both hashes: the zero bytes that bring message, marker byte and 8-byte length to a
  whole number of blocks.
\<close>

definition pad_zeros :: "nat \<Rightarrow> nat" where
  "pad_zeros n = (119 - n mod 64) mod 64"

section \<open>Numbers of a fixed width\<close>

lemma unat_word_of_nat_small: "n < 2 ^ LENGTH('w) \<Longrightarrow> unat (word_of_nat n :: 'w::len word) = n"
  by (simp add: unat_of_nat)

lemma unat_word32_of_nat: "n < 4294967296 \<Longrightarrow> unat (word_of_nat n :: u32) = n"
  by (simp add: unat_of_nat)

lemma fold_invariant_simple:
  "P s \<Longrightarrow> (\<And>x s. P s \<Longrightarrow> P (f x s)) \<Longrightarrow> P (fold f xs s)"
  by (induction xs arbitrary: s) simp_all

lemma find_append: "find P (xs @ ys) = (case find P xs of Some x \<Rightarrow> Some x | None \<Rightarrow> find P ys)"
  by (induction xs) simp_all

end
