(* ===== verification/SHA256.thy ===== *)
theory SHA256
  imports Prelude
begin

text \<open>
  The hash of src/src/SHA256.cpp. The context \<open>sha256_ctx_t\<close> is a record, each macro and
  function is one definition of the same name, and the unrolled \<open>DO_ROUND\<close>s of
  \<open>SHA256Guts\<close> are a fold over the round number. The code is the little-endian build without
  \<open>RUNTIME_ENDIAN\<close>. A pointer argument is the list of the bytes it points to; \<open>burnStack\<close>, which
  overwrites dead stack memory, has no effect on the state and is left out.

  The reference is the text of FIPS 180-4 (\<open>sha256_spec\<close>): padding the whole message,
  cutting it into blocks and compressing them one after the other. The lemmas show that the
  context always represents the message absorbed so far, however it was cut into calls of
  \<open>sha256_update\<close>, and that \<open>computeSHA256\<close> is the reference hash.
\<close>

section \<open>The code\<close>

record sha256_ctx =
  totalLength :: u64
  hash :: "u32 list"
  bufferLength :: u32
  buffer :: bytes

definition ROTL :: "u32 \<Rightarrow> nat \<Rightarrow> u32" where
  "ROTL x n = push_bit n x OR drop_bit (32 - n) x"

definition ROTR :: "u32 \<Rightarrow> nat \<Rightarrow> u32" where
  "ROTR x n = drop_bit n x OR push_bit (32 - n) x"

definition Ch :: "u32 \<Rightarrow> u32 \<Rightarrow> u32 \<Rightarrow> u32" where
  "Ch x y z = z XOR (x AND (y XOR z))"

definition Maj :: "u32 \<Rightarrow> u32 \<Rightarrow> u32 \<Rightarrow> u32" where
  "Maj x y z = (x AND (y OR z)) OR (y AND z)"

definition SIGMA0 :: "u32 \<Rightarrow> u32" where
  "SIGMA0 x = ROTR x 2 XOR ROTR x 13 XOR ROTR x 22"

definition SIGMA1 :: "u32 \<Rightarrow> u32" where
  "SIGMA1 x = ROTR x 6 XOR ROTR x 11 XOR ROTR x 25"

definition sigma0 :: "u32 \<Rightarrow> u32" where
  "sigma0 x = ROTR x 7 XOR ROTR x 18 XOR drop_bit 3 x"

definition sigma1 :: "u32 \<Rightarrow> u32" where
  "sigma1 x = ROTR x 17 XOR ROTR x 19 XOR drop_bit 10 x"

definition K :: "u32 list" where
  "K = concat
  [[0x428a2f98, 0x71374491, 0xb5c0fbcf, 0xe9b5dba5, 0x3956c25b, 0x59f111f1, 0x923f82a4, 0xab1c5ed5],
   [0xd807aa98, 0x12835b01, 0x243185be, 0x550c7dc3, 0x72be5d74, 0x80deb1fe, 0x9bdc06a7, 0xc19bf174],
   [0xe49b69c1, 0xefbe4786, 0x0fc19dc6, 0x240ca1cc, 0x2de92c6f, 0x4a7484aa, 0x5cb0a9dc, 0x76f988da],
   [0x983e5152, 0xa831c66d, 0xb00327c8, 0xbf597fc7, 0xc6e00bf3, 0xd5a79147, 0x06ca6351, 0x14292967],
   [0x27b70a85, 0x2e1b2138, 0x4d2c6dfc, 0x53380d13, 0x650a7354, 0x766a0abb, 0x81c2c92e, 0x92722c85],
   [0xa2bfe8a1, 0xa81a664b, 0xc24b8b70, 0xc76c51a3, 0xd192e819, 0xd6990624, 0xf40e3585, 0x106aa070],
   [0x19a4c116, 0x1e376c08, 0x2748774c, 0x34b0bcb5, 0x391c0cb3, 0x4ed8aa4a, 0x5b9cca4f, 0x682e6ff3],
   [0x748f82ee, 0x78a5636f, 0x84c87814, 0x8cc70208, 0x90befffa, 0xa4506ceb, 0xbef9a3f7, 0xc67178f2]]"

type_synonym regs = "u32 \<times> u32 \<times> u32 \<times> u32 \<times> u32 \<times> u32 \<times> u32 \<times> u32"

fun DO_ROUND :: "u32 \<Rightarrow> u32 \<Rightarrow> regs \<Rightarrow> regs" where
  "DO_ROUND Kp W (a, b, c, d, e, f, g, h) =
     (let t1 = h + SIGMA1 e + Ch e f g + Kp + W;
          t2 = SIGMA0 a + Maj a b c
      in (t1 + t2, a, b, c, d + t1, e, f, g))"

definition BYTESWAP :: "u32 \<Rightarrow> u32" where
  "BYTESWAP x = (ROTR x 8 AND 0xff00ff00) OR (ROTL x 8 AND 0x00ff00ff)"

definition byteswap64 :: "u64 \<Rightarrow> u64" where
  "byteswap64 x =
     (let a = ucast (drop_bit 32 x) :: u32;
          b = ucast x :: u32
      in push_bit 32 (ucast (BYTESWAP b)) OR ucast (BYTESWAP a))"

definition padding :: bytes where
  "padding = 0x80 # replicate 63 0"

definition sha256_init :: "sha256_ctx \<Rightarrow> sha256_ctx" where
  "sha256_init sc = sc\<lparr>
     totalLength := 0,
     hash := [0x6a09e667, 0xbb67ae85, 0x3c6ef372, 0xa54ff53a,
              0x510e527f, 0x9b05688c, 0x1f83d9ab, 0x5be0cd19],
     bufferLength := 0\<rparr>"

text \<open>
  The message schedule: after the 16 input words, each step appends one word computed from the
  pointers \<open>W2\<close>, \<open>W7\<close>, \<open>W15\<close> and \<open>W16\<close>, which start at 14, 9, 1 and 0 and advance by one.
\<close>

definition expand_step :: "nat \<Rightarrow> u32 list \<Rightarrow> u32 list" where
  "expand_step i buf =
     buf @ [sigma1 (buf ! (14 + i)) + buf ! (9 + i) + sigma0 (buf ! (1 + i)) + buf ! i]"

definition expand :: "u32 list \<Rightarrow> u32 list" where
  "expand cbuf = fold expand_step [0..<48] (map BYTESWAP cbuf)"

definition SHA256Guts :: "sha256_ctx \<Rightarrow> u32 list \<Rightarrow> sha256_ctx" where
  "SHA256Guts sc cbuf =
     (let W = expand cbuf;
          s = (hash sc ! 0, hash sc ! 1, hash sc ! 2, hash sc ! 3,
               hash sc ! 4, hash sc ! 5, hash sc ! 6, hash sc ! 7);
          (a, b, c, d, e, f, g, h) = fold (\<lambda>i. DO_ROUND (K ! i) (W ! i)) [0..<64] s
      in sc\<lparr>hash := [hash sc ! 0 + a, hash sc ! 1 + b, hash sc ! 2 + c, hash sc ! 3 + d,
                      hash sc ! 4 + e, hash sc ! 5 + f, hash sc ! 6 + g, hash sc ! 7 + h]\<rparr>)"

text \<open>The three parts of \<open>sha256_update\<close>: filling the buffer, whole blocks, and the rest.\<close>

definition update_fill :: "sha256_ctx \<Rightarrow> bytes \<Rightarrow> u32 \<Rightarrow> sha256_ctx \<times> bytes \<times> u32" where
  "update_fill sc data len =
     (if bufferLength sc \<noteq> 0 then
        let bufferBytesLeft = 64 - bufferLength sc;
            bytesToCopy = (if bufferBytesLeft > len then len else bufferBytesLeft);
            sc = sc\<lparr>buffer := splice (buffer sc) (unat (bufferLength sc))
                                (take (unat bytesToCopy) data),
                    totalLength := totalLength sc + ucast bytesToCopy * 8,
                    bufferLength := bufferLength sc + bytesToCopy\<rparr>;
            data = drop (unat bytesToCopy) data;
            len = len - bytesToCopy
        in if bufferLength sc = 64
           then ((SHA256Guts sc (words_le (buffer sc)))\<lparr>bufferLength := 0\<rparr>, data, len)
           else (sc, data, len)
      else (sc, data, len))"

function update_blocks :: "sha256_ctx \<Rightarrow> bytes \<Rightarrow> u32 \<Rightarrow> sha256_ctx \<times> bytes \<times> u32" where
  "update_blocks sc data len =
     (if len > 63 then
        update_blocks
          (SHA256Guts (sc\<lparr>totalLength := totalLength sc + 512\<rparr>) (words_le (take 64 data)))
          (drop 64 data) (len - 64)
      else (sc, data, len))"
  by pat_completeness auto
termination
  by (relation "measure (\<lambda>(sc, data, len). unat len)") (auto simp: unat_sub word_less_nat_alt word_le_nat_alt)

declare update_blocks.simps [simp del]

definition update_rest :: "sha256_ctx \<Rightarrow> bytes \<Rightarrow> u32 \<Rightarrow> sha256_ctx" where
  "update_rest sc data len =
     (if len \<noteq> 0 then
        sc\<lparr>buffer := splice (buffer sc) (unat (bufferLength sc)) (take (unat len) data),
           totalLength := totalLength sc + ucast len * 8,
           bufferLength := bufferLength sc + len\<rparr>
      else sc)"

definition sha256_update :: "sha256_ctx \<Rightarrow> bytes \<Rightarrow> u32 \<Rightarrow> sha256_ctx" where
  "sha256_update sc data len =
     (let (sc, data, len) = update_fill sc data len;
          (sc, data, len) = update_blocks sc data len
      in update_rest sc data len)"

definition sha256_finalize :: "sha256_ctx \<Rightarrow> sha256_ctx \<times> bytes" where
  "sha256_finalize sc =
     (let bytesToPad = 120 - bufferLength sc;
          bytesToPad = (if bytesToPad > 64 then bytesToPad - 64 else bytesToPad);
          lengthPad = byteswap64 (totalLength sc);
          sc = sha256_update sc padding bytesToPad;
          sc = sha256_update sc (store64 lengthPad) 8
      in (sc, concat (map (\<lambda>i. store32 (BYTESWAP (hash sc ! i))) [0..<8])))"

text \<open>
  \<open>computeSHA256_on\<close> is \<open>computeSHA256\<close> run on a stack frame whose context held \<open>garbage\<close>:
  \<open>sha256_init\<close> leaves the buffer as it finds it.
\<close>

definition computeSHA256_on :: "sha256_ctx \<Rightarrow> bytes \<Rightarrow> u32 \<Rightarrow> bytes" where
  "computeSHA256_on garbage input sz =
     (let sc = sha256_init garbage;
          sc = sha256_update sc input sz
      in snd (sha256_finalize sc))"

definition computeSHA256 :: "bytes \<Rightarrow> u32 \<Rightarrow> bytes" where
  "computeSHA256 input sz =
     computeSHA256_on \<lparr>totalLength = 0, hash = replicate 8 0, bufferLength = 0,
                       buffer = replicate 64 0\<rparr> input sz"


section \<open>Byte order and the Boolean functions\<close>

lemma BYTESWAP_load: "BYTESWAP (load_le [a, b, c, d]) = load_le [d, c, b, a]"
proof (rule bit_word_eqI)
  fix n assume "n < LENGTH(32)"
  then have "n = 31 \<or> n = 30 \<or> n = 29 \<or> n = 28 \<or> n = 27 \<or> n = 26 \<or> n = 25 \<or> n = 24
    \<or> n = 23 \<or> n = 22 \<or> n = 21 \<or> n = 20 \<or> n = 19 \<or> n = 18 \<or> n = 17 \<or> n = 16
    \<or> n = 15 \<or> n = 14 \<or> n = 13 \<or> n = 12 \<or> n = 11 \<or> n = 10 \<or> n = 9 \<or> n = 8
    \<or> n = 7 \<or> n = 6 \<or> n = 5 \<or> n = 4 \<or> n = 3 \<or> n = 2 \<or> n = 1 \<or> n = 0"
    by (simp; presburger)
  then show "bit (BYTESWAP (load_le [a, b, c, d])) n = bit (load_le [d, c, b, a] :: 32 word) n"
    unfolding BYTESWAP_def ROTL_def ROTR_def
    by (elim disjE; hypsubst; simp add: bit_simps bit_load_le_Cons)
qed

lemma byteswap64_load:
  "byteswap64 (load_le [a, b, c, d, e, f, g, h]) = load_le [h, g, f, e, d, c, b, a]"
proof -
  let ?x = "load_le [a, b, c, d, e, f, g, h] :: u64"
  have lo: "(ucast ?x :: u32) = load_le [a, b, c, d]"
    by (subst ucast_load_le [where n = 4]) simp_all
  have "drop_bit 32 ?x = load_le [e, f, g, h]"
    using drop_bit_load_le [of "[a, b, c, d, e, f, g, h]" 4, where 'w = 64] by (simp)
  then have hi: "(ucast (drop_bit 32 ?x) :: u32) = load_le [e, f, g, h]"
    by (simp only:) (subst ucast_load_le [where n = 4]; simp)
  have up: "(ucast (load_le bs :: u32) :: u64) = load_le bs" if "length bs = 4" for bs
    using that by (intro bit_word_eqI) (auto simp: bit_ucast_iff bit_load_le)
  have "byteswap64 ?x = push_bit 32 (load_le [d, c, b, a]) OR load_le [h, g, f, e]"
    by (simp add: byteswap64_def lo hi BYTESWAP_load up)
  also have "\<dots> = load_le ([h, g, f, e] @ [d, c, b, a])"
    by (subst load_le_append_or [where n = 4]) (simp_all add: or.commute)
  finally show ?thesis by (simp)
qed

lemma Ch_fips: "Ch x y z = (x AND y) XOR (NOT x AND z)"
  by (rule bit_word_eqI) (auto simp: Ch_def bit_simps)

lemma Maj_fips: "Maj x y z = (x AND y) XOR (x AND z) XOR (y AND z)"
  by (rule bit_word_eqI) (auto simp: Maj_def bit_simps)


section \<open>The reference: FIPS 180-4\<close>

text \<open>Big-endian words, the padded message, the schedule \<open>W\<close>, the rounds and the block function.\<close>

fun words_be :: "bytes \<Rightarrow> u32 list" where
  "words_be (a # b # c # d # bs) = load_le [d, c, b, a] # words_be bs"
| "words_be _ = []"

definition bytes_be64 :: "u64 \<Rightarrow> bytes" where
  "bytes_be64 w = rev (store64 w)"

definition bytes_be32 :: "u32 \<Rightarrow> bytes" where
  "bytes_be32 w = rev (store32 w)"

definition sha256_pad :: "bytes \<Rightarrow> bytes" where
  "sha256_pad msg =
     msg @ [0x80] @ replicate (pad_zeros (length msg)) 0 @ bytes_be64 (word_of_nat (8 * length msg))"

fun W_spec :: "u32 list \<Rightarrow> nat \<Rightarrow> u32" where
  "W_spec M t =
     (if t < 16 then M ! t
      else sigma1 (W_spec M (t - 2)) + W_spec M (t - 7) + sigma0 (W_spec M (t - 15)) + W_spec M (t - 16))"

declare W_spec.simps [simp del]

definition round_spec :: "u32 \<Rightarrow> u32 \<Rightarrow> regs \<Rightarrow> regs" where
  "round_spec k w r =
     (case r of (a, b, c, d, e, f, g, h) \<Rightarrow>
        let T1 = h + SIGMA1 e + ((e AND f) XOR (NOT e AND g)) + k + w;
            T2 = SIGMA0 a + ((a AND b) XOR (a AND c) XOR (b AND c))
        in (T1 + T2, a, b, c, d + T1, e, f, g))"

definition compress_spec :: "u32 list \<Rightarrow> bytes \<Rightarrow> u32 list" where
  "compress_spec H block =
     (case fold (\<lambda>t. round_spec (K ! t) (W_spec (words_be block) t)) [0..<64]
             (H ! 0, H ! 1, H ! 2, H ! 3, H ! 4, H ! 5, H ! 6, H ! 7) of
        (a, b, c, d, e, f, g, h) \<Rightarrow>
          [H ! 0 + a, H ! 1 + b, H ! 2 + c, H ! 3 + d, H ! 4 + e, H ! 5 + f, H ! 6 + g, H ! 7 + h])"

definition H0 :: "u32 list" where
  "H0 = [0x6a09e667, 0xbb67ae85, 0x3c6ef372, 0xa54ff53a,
         0x510e527f, 0x9b05688c, 0x1f83d9ab, 0x5be0cd19]"

definition sha256_spec :: "bytes \<Rightarrow> bytes" where
  "sha256_spec msg = concat (map bytes_be32 (absorb compress_spec H0 (sha256_pad msg)))"

lemma length_sha_compress: "length (compress_spec H b) = 8"
  by (simp add: compress_spec_def split: prod.splits)

interpretation sha: block_hash compress_spec "\<lambda>H. length H = 8"
  by unfold_locales (simp add: length_sha_compress)

section \<open>The block function of the code\<close>

lemma DO_ROUND_spec: "DO_ROUND k w r = round_spec k w r"
  by (cases "(k, w, r)" rule: DO_ROUND.cases) (simp add: round_spec_def Ch_fips Maj_fips Let_def)

lemma BYTESWAP_words: "map BYTESWAP (words_le bs) = words_be bs"
  by (induction bs rule: words_le.induct) (simp_all add: BYTESWAP_load)

lemma expand_steps:
  "length M = 16 \<Longrightarrow> fold expand_step [0..<n] M = map (W_spec M) [0..<16 + n]"
proof (induction n)
  case 0
  then show ?case by (intro nth_equalityI) (simp_all add: W_spec.simps)
next
  case (Suc n)
  have idx: "14 + n = 16 + n - 2" "9 + n = 16 + n - 7" "1 + n = 16 + n - 15" "n = 16 + n - 16"
    by simp_all
  have "fold expand_step [0..<Suc n] M = expand_step n (map (W_spec M) [0..<16 + n])"
    using Suc by simp
  also have "\<dots> = map (W_spec M) [0..<16 + n] @ [W_spec M (16 + n)]"
    by (subst W_spec.simps) (simp add: expand_step_def)
  finally show ?case
    by (simp only: add_Suc_right upt_Suc_append [OF le0] map_append list.map)
qed

lemma expand_W_spec:
  "length cbuf = 16 \<Longrightarrow> t < 64 \<Longrightarrow> expand cbuf ! t = W_spec (map BYTESWAP cbuf) t"
  by (simp add: expand_def expand_steps)

lemma fold_cong_upt:
  "(\<And>t s. t < n \<Longrightarrow> f t s = g t s) \<Longrightarrow> fold f [0..<n] s = fold g [0..<n] s"
  by (intro List.fold_cong) auto

lemma SHA256Guts_spec:
  assumes "length block = 64"
  shows "SHA256Guts sc (words_le block) = sc\<lparr>hash := compress_spec (hash sc) block\<rparr>"
proof -
  have len: "length (words_le block) = 16" using assms by (simp add: length_words_le)
  have "fold (\<lambda>i. DO_ROUND (K ! i) (expand (words_le block) ! i)) [0..<64] s =
        fold (\<lambda>t. round_spec (K ! t) (W_spec (words_be block) t)) [0..<64] s" for s
    by (intro fold_cong_upt) (simp add: DO_ROUND_spec expand_W_spec len BYTESWAP_words)
  then show ?thesis
    by (simp add: SHA256Guts_def compress_spec_def Let_def split: prod.splits)
qed


section \<open>The context represents the message absorbed so far\<close>

definition sha_repr :: "sha256_ctx \<Rightarrow> bytes \<Rightarrow> bool" where
  "sha_repr sc msg \<longleftrightarrow>
     length (buffer sc) = 64 \<and>
     unat (bufferLength sc) = length msg mod 64 \<and>
     totalLength sc = word_of_nat (8 * length msg) \<and>
     take (length msg mod 64) (buffer sc) = drop (length msg - length msg mod 64) msg \<and>
     hash sc = absorb compress_spec H0 msg"

lemma sha_repr_init: "length (buffer sc) = 64 \<Longrightarrow> sha_repr (sha256_init sc) []"
  by (simp add: sha_repr_def sha256_init_def H0_def sha.absorb_short)

text \<open>Appending bytes that do not fill the buffer, and appending the bytes that fill it.\<close>

lemma sha_repr_partial:
  assumes r: "sha_repr sc msg" and k: "length msg mod 64 + unat k < 64" and l: "length xs = unat k"
  shows "sha_repr (sc\<lparr>buffer := splice (buffer sc) (unat (bufferLength sc)) xs,
                      totalLength := totalLength sc + ucast k * 8,
                      bufferLength := bufferLength sc + k\<rparr>) (msg @ xs)"
proof -
  from r have b: "length (buffer sc) = 64" "unat (bufferLength sc) = length msg mod 64"
    "take (length msg mod 64) (buffer sc) = drop (length msg - length msg mod 64) msg"
    by (simp_all add: sha_repr_def)
  have m: "(length msg + unat k) mod 64 = length msg mod 64 + unat k"
    using k by (metis mod_add_left_eq mod_less)
  have "unat (bufferLength sc + k) = length msg mod 64 + unat k"
    using b k by (simp add: unat_word_ariths)
  moreover have "(word_of_nat (8 * length msg) + ucast k * 8 :: u64) = word_of_nat (8 * length (msg @ xs))"
    by (simp add: l algebra_simps)
  moreover have "take (length msg mod 64 + unat k) (splice (buffer sc) (length msg mod 64) xs)
      = drop (length msg - length msg mod 64) (msg @ xs)"
    using b k l take_splice [of "length msg mod 64" xs "buffer sc"] by simp
  moreover have "length msg + unat k - (length msg mod 64 + unat k) = length msg - length msg mod 64"
    by simp
  ultimately show ?thesis
    using r k l b m by (simp add: sha_repr_def sha.absorb_partial)
qed

lemma sha_repr_block:
  assumes r: "sha_repr sc msg" and l: "length msg mod 64 + length xs = 64"
    and c: "length (buffer sc') = 64" "hash sc' = hash sc"
      "totalLength sc' = word_of_nat (8 * length (msg @ xs))"
  shows "sha_repr ((SHA256Guts sc' (words_le (drop (length msg - length msg mod 64) msg @ xs)))
           \<lparr>bufferLength := 0\<rparr>) (msg @ xs)"
proof -
  let ?k = "length msg - length msg mod 64"
  have k: "64 dvd length (take ?k msg)" by (simp add: minus_mod_eq_mult_div)
  have b: "length (drop ?k msg @ xs) = 64" using l by simp
  have "absorb compress_spec H0 (take ?k msg @ drop ?k msg) = absorb compress_spec H0 (take ?k msg)"
    using l by (simp only: sha.absorb_append [OF k]) (simp add: sha.absorb_short)
  then have h: "hash sc = absorb compress_spec H0 (take ?k msg)"
    using r by (simp add: sha_repr_def)
  have "absorb compress_spec H0 (take ?k msg @ (drop ?k msg @ xs))
      = compress_spec (absorb compress_spec H0 (take ?k msg)) (drop ?k msg @ xs)"
    by (rule sha.absorb_last [OF k b])
  then have "absorb compress_spec H0 (msg @ xs) = compress_spec (hash sc) (drop ?k msg @ xs)"
    by (simp only: append_assoc [symmetric] append_take_drop_id h)
  moreover have "(length msg + length xs) mod 64 = 0"
    using l by (metis mod_add_left_eq mod_self)
  ultimately show ?thesis
    using c by (simp add: sha_repr_def SHA256Guts_spec [OF b])
qed


lemma unat_of_minus: "b \<le> a \<Longrightarrow> unat (a - b) = unat a - unat (b :: u32)"
  by (rule unat_sub)

lemma update_fill_repr:
  assumes r: "sha_repr sc msg" and l: "unat len \<le> length data"
    and u: "update_fill sc data len = (sc', data', len')"
  obtains k where "k \<le> unat len" "unat len' = unat len - k" "data' = drop k data"
    "sha_repr sc' (msg @ take k data)" "unat len' = 0 \<or> bufferLength sc' = 0"
proof (cases "bufferLength sc = 0")
  case True
  with u have "sc' = sc" "data' = data" "len' = len" by (simp_all add: update_fill_def)
  with r True show ?thesis by (intro that [of 0]) simp_all
next
  case False
  let ?n = "if 64 - bufferLength sc > len then len else 64 - bufferLength sc"
  let ?sc = "sc\<lparr>buffer := splice (buffer sc) (unat (bufferLength sc)) (take (unat ?n) data),
    totalLength := totalLength sc + ucast ?n * 8, bufferLength := bufferLength sc + ?n\<rparr>"
  from r have bl: "unat (bufferLength sc) = length msg mod 64" by (simp add: sha_repr_def)
  then have bl64: "unat (bufferLength sc) < 64" by simp
  then have "bufferLength sc \<le> 64" unfolding word_le_nat_alt by simp
  then have sub: "unat (64 - bufferLength sc) = 64 - unat (bufferLength sc)"
    by (simp only: unat_of_minus) simp
  have nle: "?n \<le> len" by (simp add: not_less)
  then have n: "unat ?n \<le> unat len" "unat (len - ?n) = unat len - unat ?n"
    by (simp_all only: word_le_nat_alt unat_of_minus)
  show ?thesis
  proof (cases "length msg mod 64 + unat ?n < 64")
    case True
    then have neq: "bufferLength sc + ?n \<noteq> 64"
      using bl by (simp add: word_unat_eq_iff unat_word_ariths)
    from True bl bl64 sub have len: "?n = len" by (auto simp: word_less_nat_alt split: if_splits)
    have "sha_repr ?sc (msg @ take (unat ?n) data)"
      using r True n(1) l by (intro sha_repr_partial) auto
    moreover have "sc' = ?sc" "data' = drop (unat ?n) data" "len' = len - ?n"
      using u False neq by (simp_all add: update_fill_def Let_def)
    ultimately show ?thesis using n len by (intro that [of "unat ?n"]) simp_all
  next
    case full: False
    then have full: "length msg mod 64 + unat ?n = 64"
      using bl bl64 sub by (auto simp: word_less_nat_alt split: if_splits)
    then have eq: "bufferLength sc + ?n = 64"
      using bl by (simp add: word_unat_eq_iff unat_word_ariths)
    have buf: "buffer ?sc = drop (length msg - length msg mod 64) msg @ take (unat ?n) data"
      using r full n(1) l bl by (simp add: sha_repr_def splice_def)
    have "sha_repr ((SHA256Guts ?sc (words_le (buffer ?sc)))\<lparr>bufferLength := 0\<rparr>) (msg @ take (unat ?n) data)"
      unfolding buf
    proof (rule sha_repr_block [OF r])
      show "length msg mod 64 + length (take (unat ?n) data) = 64" using full n(1) l by simp
      then show "length (buffer ?sc) = 64" unfolding buf by simp
      show "totalLength ?sc = word_of_nat (8 * length (msg @ take (unat ?n) data))"
        using r n(1) l by (simp add: sha_repr_def algebra_simps)
    qed simp
    moreover have "sc' = (SHA256Guts ?sc (words_le (buffer ?sc)))\<lparr>bufferLength := 0\<rparr>"
      "data' = drop (unat ?n) data" "len' = len - ?n"
      using u False eq by (simp_all add: update_fill_def Let_def)
    ultimately show ?thesis using n by (intro that [of "unat ?n"]) simp_all
  qed
qed


lemma update_blocks_repr:
  "sha_repr sc msg \<Longrightarrow> unat len \<le> length data \<Longrightarrow> bufferLength sc = 0 \<Longrightarrow>
   update_blocks sc data len = (sc', data', len') \<Longrightarrow>
   \<exists>k \<le> unat len. unat len' = unat len - k \<and> unat len' < 64 \<and> data' = drop k data \<and>
     sha_repr sc' (msg @ take k data) \<and> bufferLength sc' = 0"
proof (induction sc data len arbitrary: msg rule: update_blocks.induct)
  case (1 sc data len)
  show ?case
  proof (cases "len > 63")
    case False
    then have "unat len < 64" by (simp add: word_less_nat_alt)
    with 1 False show ?thesis
      by (intro exI [of _ 0]) (simp add: update_blocks.simps [of sc data len])
  next
    case True
    then have len: "64 \<le> unat len" by (simp add: word_less_nat_alt)
    then have sub: "unat (len - 64) = unat len - 64" by (simp add: unat_of_minus word_le_nat_alt)
    let ?sc = "sc\<lparr>totalLength := totalLength sc + 512\<rparr>"
    let ?sc1 = "SHA256Guts ?sc (words_le (take 64 data))"
    have m: "length msg mod 64 = 0" using 1(2,4) by (simp add: sha_repr_def)
    have sc1: "?sc1\<lparr>bufferLength := 0\<rparr> = ?sc1"
      using 1(3,4) len by (simp add: SHA256Guts_spec)
    have "sha_repr (?sc1\<lparr>bufferLength := 0\<rparr>) (msg @ take 64 data)"
      using sha_repr_block [OF 1(2), of "take 64 data" ?sc] m len 1(2,3)
      by (simp add: sha_repr_def algebra_simps)
    then have "sha_repr ?sc1 (msg @ take 64 data)" unfolding sc1 .
    moreover have "update_blocks ?sc1 (drop 64 data) (len - 64) = (sc', data', len')"
      using 1(5) True by (simp add: update_blocks.simps [of sc data len])
    moreover have "bufferLength ?sc1 = 0" using 1(3,4) len by (simp add: SHA256Guts_spec)
    moreover have "unat (len - 64) \<le> length (drop 64 data)" using 1(3) sub len by simp
    ultimately have "\<exists>k \<le> unat (len - 64). unat len' = unat (len - 64) - k \<and> unat len' < 64 \<and>
      data' = drop k (drop 64 data) \<and> sha_repr sc' ((msg @ take 64 data) @ take k (drop 64 data)) \<and>
      bufferLength sc' = 0"
      by (intro 1(1) [OF True])
    then obtain k where "k \<le> unat (len - 64)" "unat len' = unat (len - 64) - k" "unat len' < 64"
      "data' = drop k (drop 64 data)" "sha_repr sc' ((msg @ take 64 data) @ take k (drop 64 data))"
      "bufferLength sc' = 0"
      by blast
    then show ?thesis
      using sub len by (intro exI [of _ "64 + k"]) (simp add: take_add add.commute [of k 64])
  qed
qed

lemma update_rest_repr:
  assumes "sha_repr sc msg" "length msg mod 64 + unat len < 64" "unat len \<le> length data"
  shows "sha_repr (update_rest sc data len) (msg @ take (unat len) data)"
  using assms sha_repr_partial [OF assms(1,2), of "take (unat len) data"]
  by (simp add: update_rest_def)

text \<open>Absorbing: the one fact about \<open>sha256_update\<close> that the rest uses.\<close>

lemma sha256_update_repr:
  assumes r: "sha_repr sc msg" and l: "unat len \<le> length data"
  shows "sha_repr (sha256_update sc data len) (msg @ take (unat len) data)"
proof -
  obtain sc1 data1 len1 where u1: "update_fill sc data len = (sc1, data1, len1)"
    by (cases "update_fill sc data len")
  from update_fill_repr [OF r l u1] obtain k1 where k1: "k1 \<le> unat len" "unat len1 = unat len - k1"
    "data1 = drop k1 data" "sha_repr sc1 (msg @ take k1 data)" "unat len1 = 0 \<or> bufferLength sc1 = 0" .
  obtain sc2 data2 len2 where u2: "update_blocks sc1 data1 len1 = (sc2, data2, len2)"
    by (cases "update_blocks sc1 data1 len1")
  show ?thesis
  proof (cases "bufferLength sc1 = 0")
    case True
    have "unat len1 \<le> length data1" using k1(2,3) l by simp
    from update_blocks_repr [OF k1(4) this True u2] obtain k2 where k2: "k2 \<le> unat len1"
      "unat len2 = unat len1 - k2" "unat len2 < 64" "data2 = drop k2 data1"
      "sha_repr sc2 ((msg @ take k1 data) @ take k2 data1)" "bufferLength sc2 = 0"
      by blast
    have "sha_repr (update_rest sc2 data2 len2)
        (((msg @ take k1 data) @ take k2 data1) @ take (unat len2) data2)"
      using k2 k1 l by (intro update_rest_repr) (auto simp: sha_repr_def)
    moreover have "take k1 data @ take k2 data1 @ take (unat len2) data2 = take (unat len) data"
    proof -
      have "unat len = k1 + (k2 + unat len2)" using k1(1,2) k2(1,2) by simp
      then show ?thesis by (simp add: take_add k1(3) k2(4) add.commute)
    qed
    ultimately show ?thesis by (simp add: sha256_update_def u1 u2)
  next
    case False
    with k1 have "len1 = 0" "k1 = unat len" by (auto simp: unat_eq_zero)
    then show ?thesis using k1(4) by (simp add: sha256_update_def u1 update_blocks.simps update_rest_def)
  qed
qed

section \<open>The digest\<close>

lemma byteswap64_store: "store64 (byteswap64 w) = bytes_be64 w"
proof -
  have *: "length bs = 8 \<Longrightarrow> store64 (byteswap64 (load_le bs)) = rev bs" for bs
    by (auto simp: numeral_eq_Suc length_Suc_conv byteswap64_load store64_load)
  show ?thesis using * [of "store64 w"] by (simp add: bytes_be64_def)
qed

lemma BYTESWAP_store: "store32 (BYTESWAP w) = bytes_be32 w"
proof -
  have *: "length bs = 4 \<Longrightarrow> store32 (BYTESWAP (load_le bs)) = rev bs" for bs
    by (auto simp: numeral_eq_Suc length_Suc_conv BYTESWAP_load store32_load)
  show ?thesis using * [of "store32 w"] by (simp add: bytes_be32_def)
qed

lemma take_padding: "0 < n \<Longrightarrow> n \<le> 64 \<Longrightarrow> take n padding = 0x80 # replicate (n - 1) 0"
  by (cases n) (simp_all add: padding_def)

lemma sha256_finalize_spec:
  assumes r: "sha_repr sc msg"
  shows "snd (sha256_finalize sc) = sha256_spec msg"
proof -
  let ?p = "120 - bufferLength sc"
  let ?bytes = "if ?p > 64 then ?p - 64 else ?p"
  from r have bl: "unat (bufferLength sc) = length msg mod 64" by (simp add: sha_repr_def)
  then have bl64: "unat (bufferLength sc) < 64" by simp
  then have "bufferLength sc \<le> 120" unfolding word_le_nat_alt by simp
  then have p: "unat ?p = 120 - length msg mod 64" by (simp only: unat_of_minus bl) simp
  have b: "unat ?bytes = 1 + pad_zeros (length msg)"
  proof (cases "length msg mod 64 < 56")
    case True
    then have "64 < unat ?p" using p by simp
    then have "?p > 64" "64 \<le> ?p" unfolding word_less_nat_alt word_le_nat_alt by simp_all
    then have "unat ?bytes = unat ?p - 64" by (simp only: unat_of_minus if_True) simp
    also have "\<dots> = 1 + (119 - length msg mod 64 - 64)" using p True by simp
    also have "119 - length msg mod 64 - 64 = pad_zeros (length msg)"
      using True by (simp add: pad_zeros_def le_mod_geq)
    finally show ?thesis .
  next
    case False
    then have "unat ?p \<le> 64" using p by simp
    then have "\<not> ?p > 64" unfolding word_less_nat_alt by simp
    then have "unat ?bytes = 1 + (119 - length msg mod 64)" using p False by simp
    also have "119 - length msg mod 64 = pad_zeros (length msg)"
      using False by (simp add: pad_zeros_def)
    finally show ?thesis .
  qed
  let ?pad = "[0x80] @ replicate (pad_zeros (length msg)) 0"
  let ?len = "bytes_be64 (word_of_nat (8 * length msg))"
  have "pad_zeros (length msg) < 64" by (simp add: pad_zeros_def)
  then have t: "take (unat ?bytes) padding = ?pad" "unat ?bytes \<le> length padding"
    by (simp_all add: b take_padding) (simp add: padding_def)
  have "sha_repr (sha256_update sc padding ?bytes) (msg @ ?pad)"
    using sha256_update_repr [OF r t(2)] by (simp only: t(1))
  then have "sha_repr (sha256_update (sha256_update sc padding ?bytes) ?len 8) ((msg @ ?pad) @ take (unat (8 :: u32)) ?len)"
    by (rule sha256_update_repr) (simp add: bytes_be64_def)
  then have h: "hash (sha256_update (sha256_update sc padding ?bytes) ?len 8)
      = absorb compress_spec H0 (sha256_pad msg)"
    by (simp add: sha_repr_def sha256_pad_def bytes_be64_def)
  have tl: "store64 (byteswap64 (totalLength sc)) = ?len"
    using r by (simp add: byteswap64_store sha_repr_def)
  have "length (absorb compress_spec H0 (sha256_pad msg)) = 8"
    by (rule sha.inv_absorb) (simp add: H0_def)
  then have "map ((!) (absorb compress_spec H0 (sha256_pad msg))) [0..<8] = absorb compress_spec H0 (sha256_pad msg)"
    by (metis map_nth)
  then show ?thesis
    unfolding sha256_finalize_def sha256_spec_def Let_def tl h snd_conv BYTESWAP_store
    by (metis (no_types, lifting) map_map comp_apply map_cong)
qed


text \<open>
  C32: \<open>computeSHA256\<close> computes the FIPS 180-4 hash of the \<open>sz\<close> bytes at its input, for every
  message length a \<open>uint32_t\<close> can hold and whatever the uninitialised context on its stack
  contained: the incremental code (buffering, padding through \<open>sha256_update\<close>, byte swaps, in-place
  schedule) equals padding the whole message, cutting it into blocks and compressing them.
\<close>

theorem computeSHA256_correct:
  assumes "unat sz \<le> length input" and "length (buffer garbage) = 64"
  shows "computeSHA256_on garbage input sz = sha256_spec (take (unat sz) input)"
proof -
  have "sha_repr (sha256_update (sha256_init garbage) input sz) ([] @ take (unat sz) input)"
    by (rule sha256_update_repr [OF sha_repr_init [OF assms(2)] assms(1)])
  then show ?thesis by (simp add: computeSHA256_on_def sha256_finalize_spec)
qed

theorem computeSHA256_correct_witness:
  "computeSHA256_on \<lparr>totalLength = 7, hash = [], bufferLength = 9, buffer = replicate 64 0xAA\<rparr>
     (replicate 70 0x61) 65 = sha256_spec (replicate 65 0x61)"
  by (subst computeSHA256_correct) simp_all

text \<open>The same fact for the function the other components call, and the length of a digest.\<close>

lemma computeSHA256_eq:
  "unat sz \<le> length input \<Longrightarrow> computeSHA256 input sz = sha256_spec (take (unat sz) input)"
  unfolding computeSHA256_def computeSHA256_on_def
  using sha256_update_repr [OF sha_repr_init, of _ sz input] by (simp add: sha256_finalize_spec)

lemma length_concat_bytes_be32: "length (concat (map bytes_be32 ws)) = 4 * length ws"
  by (induction ws) (simp_all add: bytes_be32_def)

lemma length_sha256_spec [simp]: "length (sha256_spec msg) = 32"
  using sha.inv_absorb [of H0 "sha256_pad msg"]
  by (simp add: sha256_spec_def length_concat_bytes_be32 H0_def)

lemma length_computeSHA256 [simp]: "length (computeSHA256 input sz) = 32"
  by (simp add: computeSHA256_def computeSHA256_on_def sha256_finalize_def Let_def length_concat_store32)

text \<open>
  Hashing is incremental. Feeding a message to \<open>sha256_update\<close> in any number of pieces of any
  sizes (empty ones, pieces that end inside a block, pieces of several blocks) and finalizing
  gives the hash of the concatenation: no cut loses, repeats or reorders a byte.
\<close>

theorem sha256_update_pieces:
  assumes "\<forall>p \<in> set pieces. length p < 2 ^ 32" and "length (buffer garbage) = 64"
  shows "snd (sha256_finalize
           (foldl (\<lambda>sc p. sha256_update sc p (word_of_nat (length p))) (sha256_init garbage) pieces))
         = sha256_spec (concat pieces)"
proof -
  have "sha_repr sc msg \<Longrightarrow>
     sha_repr (foldl (\<lambda>sc p. sha256_update sc p (word_of_nat (length p))) sc pieces) (msg @ concat pieces)"
    for sc msg
    using assms(1)
  proof (induction pieces arbitrary: sc msg)
    case (Cons p ps)
    have "unat (word_of_nat (length p) :: u32) = length p"
      using Cons.prems by (simp add: unat_word32_of_nat)
    then have "sha_repr (sha256_update sc p (word_of_nat (length p))) (msg @ p)"
      using sha256_update_repr [OF Cons.prems(1), of "word_of_nat (length p)" p] by simp
    from Cons.IH [OF this] Cons.prems show ?case by simp
  qed simp
  from this [OF sha_repr_init [OF assms(2)]] show ?thesis by (simp add: sha256_finalize_spec)
qed

theorem sha256_update_pieces_witness:
  "snd (sha256_finalize
      (foldl (\<lambda>sc p. sha256_update sc p (word_of_nat (length p)))
        (sha256_init \<lparr>totalLength = 0, hash = [], bufferLength = 0, buffer = replicate 64 0\<rparr>)
        [replicate 3 0x61, [], replicate 130 0x62])) = sha256_spec (replicate 3 0x61 @ replicate 130 0x62)"
  using sha256_update_pieces [of "[replicate 3 0x61, [], replicate 130 0x62]"
      "\<lparr>totalLength = 0, hash = [], bufferLength = 0, buffer = replicate 64 0\<rparr>"] by simp

end
