(* ===== verification/RIPEMD160.thy ===== *)
theory RIPEMD160
  imports Prelude
begin

text \<open>
  The hash of src/src/RIPEMD160.cpp. The five registers of each line are numbered in the order
  \<open>aa\<close>, \<open>bb\<close>, \<open>cc\<close>, \<open>dd\<close>, \<open>ee\<close> (and \<open>aaa\<close> to \<open>eee\<close>); each of the ten operation macros is a
  constructor of \<open>op_macro\<close>, and the 160 unrolled macro calls of \<open>compress\<close> are two lists, one entry
  per source line: the macro, its register arguments, the index into \<open>X\<close> and the rotation.

  The reference (\<open>ripemd160_spec\<close>) is the published definition of RIPEMD-160 (Dobbertin,
  Bosselaers, Preneel 1996): the permutations \<open>rho\<close> and \<open>pi\<close> that order the message words, the
  table of shifts per round and message word, and a step that moves the five chaining variables.
\<close>

section \<open>The code\<close>

definition ROL :: "u32 \<Rightarrow> nat \<Rightarrow> u32" where
  "ROL x n = push_bit n x OR drop_bit (32 - n) x"

definition BYTES_TO_DWORD :: "bytes \<Rightarrow> u32" where
  "BYTES_TO_DWORD strptr =
     push_bit 24 (ucast (strptr ! 3)) OR push_bit 16 (ucast (strptr ! 2)) OR
     push_bit 8 (ucast (strptr ! 1)) OR ucast (strptr ! 0)"

definition F :: "u32 \<Rightarrow> u32 \<Rightarrow> u32 \<Rightarrow> u32" where
  "F x y z = x XOR y XOR z"

definition G :: "u32 \<Rightarrow> u32 \<Rightarrow> u32 \<Rightarrow> u32" where
  "G x y z = (x AND y) OR (NOT x AND z)"

definition H :: "u32 \<Rightarrow> u32 \<Rightarrow> u32 \<Rightarrow> u32" where
  "H x y z = (x OR NOT y) XOR z"

definition I :: "u32 \<Rightarrow> u32 \<Rightarrow> u32 \<Rightarrow> u32" where
  "I x y z = (x AND z) OR (y AND NOT z)"

definition J :: "u32 \<Rightarrow> u32 \<Rightarrow> u32 \<Rightarrow> u32" where
  "J x y z = x XOR (y OR NOT z)"

datatype op_macro = FF | GG | HH | II | JJ | FFF | GGG | HHH | III | JJJ

fun macro_fun :: "op_macro \<Rightarrow> u32 \<Rightarrow> u32 \<Rightarrow> u32 \<Rightarrow> u32" where
  "macro_fun FF = F"  | "macro_fun GG = G"  | "macro_fun HH = H"
| "macro_fun II = I"  | "macro_fun JJ = J"
| "macro_fun FFF = F" | "macro_fun GGG = G" | "macro_fun HHH = H"
| "macro_fun III = I" | "macro_fun JJJ = J"

fun macro_const :: "op_macro \<Rightarrow> u32" where
  "macro_const FF = 0"           | "macro_const GG = 0x5a827999"
| "macro_const HH = 0x6ed9eba1"  | "macro_const II = 0x8f1bbcdc"
| "macro_const JJ = 0xa953fd4e"  | "macro_const FFF = 0"
| "macro_const GGG = 0x7a6d76e9" | "macro_const HHH = 0x6d703ef3"
| "macro_const III = 0x5c4dd124" | "macro_const JJJ = 0x50a28be6"

type_synonym macro_call = "op_macro \<times> (nat \<times> nat \<times> nat \<times> nat \<times> nat) \<times> nat \<times> nat"

text \<open>One call: three assignments, to register \<open>a\<close> twice and to register \<open>c\<close>.\<close>

fun run_macro :: "u32 list \<Rightarrow> macro_call \<Rightarrow> u32 list \<Rightarrow> u32 list" where
  "run_macro X (m, (a, b, c, d, e), x, s) v =
     (let v = v[a := v ! a + (macro_fun m (v ! b) (v ! c) (v ! d) + X ! x + macro_const m)];
          v = v[a := ROL (v ! a) s + v ! e]
      in v[c := ROL (v ! c) 10])"

definition MDinit :: "u32 list" where
  "MDinit = [0x67452301, 0xefcdab89, 0x98badcfe, 0x10325476, 0xc3d2e1f0]"

definition rounds :: "macro_call list" where
  "rounds =
  [(FF, (0, 1, 2, 3, 4), 0, 11), (FF, (4, 0, 1, 2, 3), 1, 14), (FF, (3, 4, 0, 1, 2), 2, 15), (FF, (2, 3, 4, 0, 1), 3, 12),
   (FF, (1, 2, 3, 4, 0), 4, 5), (FF, (0, 1, 2, 3, 4), 5, 8), (FF, (4, 0, 1, 2, 3), 6, 7), (FF, (3, 4, 0, 1, 2), 7, 9),
   (FF, (2, 3, 4, 0, 1), 8, 11), (FF, (1, 2, 3, 4, 0), 9, 13), (FF, (0, 1, 2, 3, 4), 10, 14), (FF, (4, 0, 1, 2, 3), 11, 15),
   (FF, (3, 4, 0, 1, 2), 12, 6), (FF, (2, 3, 4, 0, 1), 13, 7), (FF, (1, 2, 3, 4, 0), 14, 9), (FF, (0, 1, 2, 3, 4), 15, 8),
   (GG, (4, 0, 1, 2, 3), 7, 7), (GG, (3, 4, 0, 1, 2), 4, 6), (GG, (2, 3, 4, 0, 1), 13, 8), (GG, (1, 2, 3, 4, 0), 1, 13),
   (GG, (0, 1, 2, 3, 4), 10, 11), (GG, (4, 0, 1, 2, 3), 6, 9), (GG, (3, 4, 0, 1, 2), 15, 7), (GG, (2, 3, 4, 0, 1), 3, 15),
   (GG, (1, 2, 3, 4, 0), 12, 7), (GG, (0, 1, 2, 3, 4), 0, 12), (GG, (4, 0, 1, 2, 3), 9, 15), (GG, (3, 4, 0, 1, 2), 5, 9),
   (GG, (2, 3, 4, 0, 1), 2, 11), (GG, (1, 2, 3, 4, 0), 14, 7), (GG, (0, 1, 2, 3, 4), 11, 13), (GG, (4, 0, 1, 2, 3), 8, 12),
   (HH, (3, 4, 0, 1, 2), 3, 11), (HH, (2, 3, 4, 0, 1), 10, 13), (HH, (1, 2, 3, 4, 0), 14, 6), (HH, (0, 1, 2, 3, 4), 4, 7),
   (HH, (4, 0, 1, 2, 3), 9, 14), (HH, (3, 4, 0, 1, 2), 15, 9), (HH, (2, 3, 4, 0, 1), 8, 13), (HH, (1, 2, 3, 4, 0), 1, 15),
   (HH, (0, 1, 2, 3, 4), 2, 14), (HH, (4, 0, 1, 2, 3), 7, 8), (HH, (3, 4, 0, 1, 2), 0, 13), (HH, (2, 3, 4, 0, 1), 6, 6),
   (HH, (1, 2, 3, 4, 0), 13, 5), (HH, (0, 1, 2, 3, 4), 11, 12), (HH, (4, 0, 1, 2, 3), 5, 7), (HH, (3, 4, 0, 1, 2), 12, 5),
   (II, (2, 3, 4, 0, 1), 1, 11), (II, (1, 2, 3, 4, 0), 9, 12), (II, (0, 1, 2, 3, 4), 11, 14), (II, (4, 0, 1, 2, 3), 10, 15),
   (II, (3, 4, 0, 1, 2), 0, 14), (II, (2, 3, 4, 0, 1), 8, 15), (II, (1, 2, 3, 4, 0), 12, 9), (II, (0, 1, 2, 3, 4), 4, 8),
   (II, (4, 0, 1, 2, 3), 13, 9), (II, (3, 4, 0, 1, 2), 3, 14), (II, (2, 3, 4, 0, 1), 7, 5), (II, (1, 2, 3, 4, 0), 15, 6),
   (II, (0, 1, 2, 3, 4), 14, 8), (II, (4, 0, 1, 2, 3), 5, 6), (II, (3, 4, 0, 1, 2), 6, 5), (II, (2, 3, 4, 0, 1), 2, 12),
   (JJ, (1, 2, 3, 4, 0), 4, 9), (JJ, (0, 1, 2, 3, 4), 0, 15), (JJ, (4, 0, 1, 2, 3), 5, 5), (JJ, (3, 4, 0, 1, 2), 9, 11),
   (JJ, (2, 3, 4, 0, 1), 7, 6), (JJ, (1, 2, 3, 4, 0), 12, 8), (JJ, (0, 1, 2, 3, 4), 2, 13), (JJ, (4, 0, 1, 2, 3), 10, 12),
   (JJ, (3, 4, 0, 1, 2), 14, 5), (JJ, (2, 3, 4, 0, 1), 1, 12), (JJ, (1, 2, 3, 4, 0), 3, 13), (JJ, (0, 1, 2, 3, 4), 8, 14),
   (JJ, (4, 0, 1, 2, 3), 11, 11), (JJ, (3, 4, 0, 1, 2), 6, 8), (JJ, (2, 3, 4, 0, 1), 15, 5), (JJ, (1, 2, 3, 4, 0), 13, 6)]"

definition parallel_rounds :: "macro_call list" where
  "parallel_rounds =
  [(JJJ, (0, 1, 2, 3, 4), 5, 8), (JJJ, (4, 0, 1, 2, 3), 14, 9), (JJJ, (3, 4, 0, 1, 2), 7, 9), (JJJ, (2, 3, 4, 0, 1), 0, 11),
   (JJJ, (1, 2, 3, 4, 0), 9, 13), (JJJ, (0, 1, 2, 3, 4), 2, 15), (JJJ, (4, 0, 1, 2, 3), 11, 15), (JJJ, (3, 4, 0, 1, 2), 4, 5),
   (JJJ, (2, 3, 4, 0, 1), 13, 7), (JJJ, (1, 2, 3, 4, 0), 6, 7), (JJJ, (0, 1, 2, 3, 4), 15, 8), (JJJ, (4, 0, 1, 2, 3), 8, 11),
   (JJJ, (3, 4, 0, 1, 2), 1, 14), (JJJ, (2, 3, 4, 0, 1), 10, 14), (JJJ, (1, 2, 3, 4, 0), 3, 12), (JJJ, (0, 1, 2, 3, 4), 12, 6),
   (III, (4, 0, 1, 2, 3), 6, 9), (III, (3, 4, 0, 1, 2), 11, 13), (III, (2, 3, 4, 0, 1), 3, 15), (III, (1, 2, 3, 4, 0), 7, 7),
   (III, (0, 1, 2, 3, 4), 0, 12), (III, (4, 0, 1, 2, 3), 13, 8), (III, (3, 4, 0, 1, 2), 5, 9), (III, (2, 3, 4, 0, 1), 10, 11),
   (III, (1, 2, 3, 4, 0), 14, 7), (III, (0, 1, 2, 3, 4), 15, 7), (III, (4, 0, 1, 2, 3), 8, 12), (III, (3, 4, 0, 1, 2), 12, 7),
   (III, (2, 3, 4, 0, 1), 4, 6), (III, (1, 2, 3, 4, 0), 9, 15), (III, (0, 1, 2, 3, 4), 1, 13), (III, (4, 0, 1, 2, 3), 2, 11),
   (HHH, (3, 4, 0, 1, 2), 15, 9), (HHH, (2, 3, 4, 0, 1), 5, 7), (HHH, (1, 2, 3, 4, 0), 1, 15), (HHH, (0, 1, 2, 3, 4), 3, 11),
   (HHH, (4, 0, 1, 2, 3), 7, 8), (HHH, (3, 4, 0, 1, 2), 14, 6), (HHH, (2, 3, 4, 0, 1), 6, 6), (HHH, (1, 2, 3, 4, 0), 9, 14),
   (HHH, (0, 1, 2, 3, 4), 11, 12), (HHH, (4, 0, 1, 2, 3), 8, 13), (HHH, (3, 4, 0, 1, 2), 12, 5), (HHH, (2, 3, 4, 0, 1), 2, 14),
   (HHH, (1, 2, 3, 4, 0), 10, 13), (HHH, (0, 1, 2, 3, 4), 0, 13), (HHH, (4, 0, 1, 2, 3), 4, 7), (HHH, (3, 4, 0, 1, 2), 13, 5),
   (GGG, (2, 3, 4, 0, 1), 8, 15), (GGG, (1, 2, 3, 4, 0), 6, 5), (GGG, (0, 1, 2, 3, 4), 4, 8), (GGG, (4, 0, 1, 2, 3), 1, 11),
   (GGG, (3, 4, 0, 1, 2), 3, 14), (GGG, (2, 3, 4, 0, 1), 11, 14), (GGG, (1, 2, 3, 4, 0), 15, 6), (GGG, (0, 1, 2, 3, 4), 0, 14),
   (GGG, (4, 0, 1, 2, 3), 5, 6), (GGG, (3, 4, 0, 1, 2), 12, 9), (GGG, (2, 3, 4, 0, 1), 2, 12), (GGG, (1, 2, 3, 4, 0), 13, 9),
   (GGG, (0, 1, 2, 3, 4), 9, 12), (GGG, (4, 0, 1, 2, 3), 7, 5), (GGG, (3, 4, 0, 1, 2), 10, 15), (GGG, (2, 3, 4, 0, 1), 14, 8),
   (FFF, (1, 2, 3, 4, 0), 12, 8), (FFF, (0, 1, 2, 3, 4), 15, 5), (FFF, (4, 0, 1, 2, 3), 10, 12), (FFF, (3, 4, 0, 1, 2), 4, 9),
   (FFF, (2, 3, 4, 0, 1), 1, 12), (FFF, (1, 2, 3, 4, 0), 5, 5), (FFF, (0, 1, 2, 3, 4), 8, 14), (FFF, (4, 0, 1, 2, 3), 7, 6),
   (FFF, (3, 4, 0, 1, 2), 6, 8), (FFF, (2, 3, 4, 0, 1), 2, 13), (FFF, (1, 2, 3, 4, 0), 13, 6), (FFF, (0, 1, 2, 3, 4), 14, 5),
   (FFF, (4, 0, 1, 2, 3), 0, 15), (FFF, (3, 4, 0, 1, 2), 3, 13), (FFF, (2, 3, 4, 0, 1), 9, 11), (FFF, (1, 2, 3, 4, 0), 11, 11)]"

definition compress :: "u32 list \<Rightarrow> u32 list \<Rightarrow> u32 list" where
  "compress MDbuf X =
     (let l = fold (run_macro X) rounds MDbuf;
          r = fold (run_macro X) parallel_rounds MDbuf;
          ddd = r ! 3 + (l ! 2 + MDbuf ! 1)
      in [ddd,
          MDbuf ! 2 + l ! 3 + r ! 4,
          MDbuf ! 3 + l ! 4 + r ! 0,
          MDbuf ! 4 + l ! 0 + r ! 1,
          MDbuf ! 0 + l ! 1 + r ! 2])"

text \<open>\<open>xor_byte\<close> is the body of the loop of \<open>MDfinish\<close> that puts byte \<open>i\<close> into word \<open>i >> 2\<close>.\<close>

definition xor_byte :: "nat \<Rightarrow> u8 \<Rightarrow> u32 list \<Rightarrow> u32 list" where
  "xor_byte i b X = X[i div 4 := X ! (i div 4) XOR push_bit (8 * (i mod 4)) (ucast b)]"

definition MDfinish :: "u32 list \<Rightarrow> bytes \<Rightarrow> u32 \<Rightarrow> u32 \<Rightarrow> u32 list" where
  "MDfinish MDbuf strptr lswlen mswlen =
     (let X = replicate 16 0;
          X = fold (\<lambda>i. xor_byte i (strptr ! i)) [0..<unat (lswlen AND 63)] X;
          j = unat (drop_bit 2 lswlen AND 15);
          X = X[j := X ! j XOR push_bit (8 * unat (lswlen AND 3) + 7) 1];
          (MDbuf, X) = (if lswlen AND 63 > 55 then (compress MDbuf X, replicate 16 0) else (MDbuf, X));
          X = X[14 := push_bit 3 lswlen];
          X = X[15 := drop_bit 29 lswlen OR push_bit 3 mswlen]
      in compress MDbuf X)"

text \<open>The sixteen words of a block, and the loop over the whole blocks.\<close>

definition load_block :: "bytes \<Rightarrow> u32 list" where
  "load_block message = map (\<lambda>i. BYTES_TO_DWORD (drop (4 * i) message)) [0..<16]"

function process_blocks :: "u32 list \<Rightarrow> bytes \<Rightarrow> u32 \<Rightarrow> u32 list \<times> bytes" where
  "process_blocks MDbuf message nbytes =
     (if nbytes > 63
      then process_blocks (compress MDbuf (load_block message)) (drop 64 message) (nbytes - 64)
      else (MDbuf, message))"
  by pat_completeness auto
termination
  by (relation "measure (\<lambda>(MDbuf, message, nbytes). unat nbytes)")
     (auto simp: unat_sub word_less_nat_alt word_le_nat_alt)

declare process_blocks.simps [simp del]

definition computeRIPEMD160 :: "bytes \<Rightarrow> u32 \<Rightarrow> bytes" where
  "computeRIPEMD160 message len =
     (let (MDbuf, rest) = process_blocks MDinit message len;
          MDbuf = MDfinish MDbuf rest len 0
      in concat (map (\<lambda>i. [ucast (MDbuf ! i), ucast (drop_bit 8 (MDbuf ! i)),
                            ucast (drop_bit 16 (MDbuf ! i)), ucast (drop_bit 24 (MDbuf ! i))]) [0..<5]))"

section \<open>The reference\<close>

definition rho :: "nat \<Rightarrow> nat" where
  "rho i = [7, 4, 13, 1, 10, 6, 15, 3, 12, 0, 9, 5, 2, 14, 11, 8] ! i"

definition pi :: "nat \<Rightarrow> nat" where
  "pi i = (9 * i + 5) mod 16"

definition word_l :: "nat \<Rightarrow> nat" where
  "word_l j = (rho ^^ (j div 16)) (j mod 16)"

definition word_r :: "nat \<Rightarrow> nat" where
  "word_r j = (rho ^^ (j div 16)) (pi (j mod 16))"

definition shifts :: "nat list list" where
  "shifts =
  [[11, 14, 15, 12, 5, 8, 7, 9, 11, 13, 14, 15, 6, 7, 9, 8],
   [12, 13, 11, 15, 6, 9, 9, 7, 12, 15, 11, 13, 7, 8, 7, 7],
   [13, 15, 14, 11, 7, 7, 6, 8, 13, 14, 13, 12, 5, 5, 6, 9],
   [14, 11, 12, 14, 8, 6, 5, 5, 15, 12, 15, 14, 9, 9, 8, 6],
   [15, 12, 13, 13, 9, 5, 8, 6, 14, 11, 12, 11, 8, 6, 5, 5]]"

definition f_spec :: "nat \<Rightarrow> u32 \<Rightarrow> u32 \<Rightarrow> u32 \<Rightarrow> u32" where
  "f_spec j x y z =
     (if j < 16 then x XOR y XOR z
      else if j < 32 then (x AND y) OR (NOT x AND z)
      else if j < 48 then (x OR NOT y) XOR z
      else if j < 64 then (x AND z) OR (y AND NOT z)
      else x XOR (y OR NOT z))"

definition K_l :: "nat \<Rightarrow> u32" where
  "K_l j = [0, 0x5a827999, 0x6ed9eba1, 0x8f1bbcdc, 0xa953fd4e] ! (j div 16)"

definition K_r :: "nat \<Rightarrow> u32" where
  "K_r j = [0x50a28be6, 0x5c4dd124, 0x6d703ef3, 0x7a6d76e9, 0] ! (j div 16)"

type_synonym chain = "u32 \<times> u32 \<times> u32 \<times> u32 \<times> u32"

definition step_spec :: "(u32 \<Rightarrow> u32 \<Rightarrow> u32 \<Rightarrow> u32) \<Rightarrow> u32 \<Rightarrow> u32 \<Rightarrow> nat \<Rightarrow> chain \<Rightarrow> chain" where
  "step_spec f k x s ch =
     (case ch of (A, B, C, D, E) \<Rightarrow> (E, ROL (A + f B C D + x + k) s + E, B, ROL C 10, D))"

definition step_l :: "u32 list \<Rightarrow> nat \<Rightarrow> chain \<Rightarrow> chain" where
  "step_l X j = step_spec (f_spec j) (K_l j) (X ! word_l j) (shifts ! (j div 16) ! word_l j)"

definition step_r :: "u32 list \<Rightarrow> nat \<Rightarrow> chain \<Rightarrow> chain" where
  "step_r X j = step_spec (f_spec (79 - j)) (K_r j) (X ! word_r j) (shifts ! (j div 16) ! word_r j)"

definition compress_spec :: "u32 list \<Rightarrow> bytes \<Rightarrow> u32 list" where
  "compress_spec h block =
     (let X = words_le block;
          ch = (h ! 0, h ! 1, h ! 2, h ! 3, h ! 4)
      in case fold (step_l X) [0..<80] ch of (A, B, C, D, E) \<Rightarrow>
         case fold (step_r X) [0..<80] ch of (A', B', C', D', E') \<Rightarrow>
           [h ! 1 + C + D', h ! 2 + D + E', h ! 3 + E + A', h ! 4 + A + B', h ! 0 + B + C'])"

definition ripemd160_pad :: "bytes \<Rightarrow> bytes" where
  "ripemd160_pad msg =
     msg @ [0x80] @ replicate (pad_zeros (length msg)) 0 @ store64 (word_of_nat (8 * length msg))"

definition ripemd160_spec :: "bytes \<Rightarrow> bytes" where
  "ripemd160_spec msg =
     concat (map store32 (absorb compress_spec
       [0x67452301, 0xefcdab89, 0x98badcfe, 0x10325476, 0xc3d2e1f0] (ripemd160_pad msg)))"

section \<open>The unrolled rounds against the tables\<close>

definition regs_at :: "nat \<Rightarrow> nat \<times> nat \<times> nat \<times> nat \<times> nat" where
  "regs_at j = (4 * j mod 5, (4 * j + 1) mod 5, (4 * j + 2) mod 5, (4 * j + 3) mod 5, (4 * j + 4) mod 5)"

definition macro_l :: "nat \<Rightarrow> op_macro" where
  "macro_l j = [FF, GG, HH, II, JJ] ! (j div 16)"

definition macro_r :: "nat \<Rightarrow> op_macro" where
  "macro_r j = [JJJ, III, HHH, GGG, FFF] ! (j div 16)"

lemma rounds_table:
  "rounds = map (\<lambda>j. (macro_l j, regs_at j, word_l j, shifts ! (j div 16) ! word_l j)) [0..<80]"
  by code_simp

lemma parallel_rounds_table:
  "parallel_rounds = map (\<lambda>j. (macro_r j, regs_at j, word_r j, shifts ! (j div 16) ! word_r j)) [0..<80]"
  by code_simp

text \<open>The register file \<open>v\<close> holds the chaining variables, rotated by the number of steps done.\<close>

definition rotated :: "nat \<Rightarrow> u32 list \<Rightarrow> chain \<Rightarrow> bool" where
  "rotated j v ch \<longleftrightarrow> length v = 5 \<and>
     ch = (v ! (4 * j mod 5), v ! ((4 * j + 1) mod 5), v ! ((4 * j + 2) mod 5),
           v ! ((4 * j + 3) mod 5), v ! ((4 * j + 4) mod 5))"

lemma less_5_cases: "(n::nat) < 5 \<Longrightarrow> n = 0 \<or> n = 1 \<or> n = 2 \<or> n = 3 \<or> n = 4"
  by arith

lemma mod5_shift: "4 * Suc j mod 5 = (4 * j mod 5 + 4) mod 5" "(4 * Suc j + k) mod 5 = (4 * j mod 5 + (4 + k)) mod 5"
  "(4 * j + k) mod 5 = (4 * j mod 5 + k) mod 5"
proof -
  show *: "(4 * Suc j + k) mod 5 = (4 * j mod 5 + (4 + k)) mod 5" for k
    using mod_add_left_eq [of "4 * j" 5 "4 + k"] by (simp add: ac_simps)
  show "4 * Suc j mod 5 = (4 * j mod 5 + 4) mod 5" using * [of 0] by simp
  show "(4 * j + k) mod 5 = (4 * j mod 5 + k) mod 5" by (simp only: mod_add_left_eq)
qed

lemma run_macro_rotated:
  assumes "rotated j v ch"
  shows "rotated (Suc j) (run_macro X (m, regs_at j, x, s) v)
           (step_spec (macro_fun m) (macro_const m) (X ! x) s ch)"
proof -
  define r where "r = 4 * j mod 5"
  have "r < 5" by (simp add: r_def)
  have "length v = Suc (Suc (Suc (Suc (Suc 0))))" using assms by (simp add: rotated_def)
  then obtain a b c d e where v: "v = [a, b, c, d, e]"
    by (auto simp: length_Suc_conv)
  show ?thesis
    using assms less_5_cases [OF \<open>r < 5\<close>]
    unfolding rotated_def regs_at_def mod5_shift(1,2) mod5_shift(3) [of j 1] mod5_shift(3) [of j 2]
      mod5_shift(3) [of j 3] mod5_shift(3) [of j 4] r_def [symmetric] v step_spec_def
    by (elim disjE; hypsubst_thin) (simp_all add: add.assoc Let_def step_spec_def)
qed

lemma fold_rotated:
  assumes "\<And>j c. j < n \<Longrightarrow> g j c = step_spec (macro_fun (m j)) (macro_const (m j)) (X ! x j) (s j) c"
    and "rotated 0 v ch"
  shows "rotated n (fold (run_macro X) (map (\<lambda>j. (m j, regs_at j, x j, s j)) [0..<n]) v) (fold g [0..<n] ch)"
  using assms(1)
proof (induction n)
  case 0
  then show ?case using assms(2) by simp
next
  case (Suc n)
  from run_macro_rotated [OF Suc.IH] Suc.prems show ?case by simp
qed

lemma rotated_80: "rotated 80 v (A, B, C, D, E) \<Longrightarrow> v = [A, B, C, D, E]"
proof -
  assume r: "rotated 80 v (A, B, C, D, E)"
  then have "length v = Suc (Suc (Suc (Suc (Suc 0))))" by (simp add: rotated_def)
  then obtain a b c d e where v: "v = [a, b, c, d, e]" by (auto simp: length_Suc_conv)
  from r show ?thesis by (simp add: rotated_def v)
qed

lemma less_80_div: "j < 80 \<Longrightarrow> j div 16 = 0 \<or> j div 16 = 1 \<or> j div 16 = 2 \<or> j div 16 = 3 \<or> j div 16 = (4::nat)"
  by linarith

lemma f_spec_div:
  "f_spec j = (if j div 16 = 0 then F else if j div 16 = 1 then G else if j div 16 = 2 then H
               else if j div 16 = 3 then I else J)"
  by (intro ext) (auto simp: f_spec_def F_def G_def H_def I_def J_def)

lemma macro_l_spec: "j < 80 \<Longrightarrow> macro_fun (macro_l j) = f_spec j \<and> macro_const (macro_l j) = K_l j"
  by (drule less_80_div) (elim disjE; simp add: macro_l_def K_l_def f_spec_div)

lemma macro_r_spec: "j < 80 \<Longrightarrow> macro_fun (macro_r j) = f_spec (79 - j) \<and> macro_const (macro_r j) = K_r j"
proof -
  assume "j < 80"
  then have "(79 - j) div 16 = 4 - j div 16" by linarith
  with less_80_div [OF \<open>j < 80\<close>] show ?thesis
    by (elim disjE) (simp_all add: macro_r_def K_r_def f_spec_div)
qed

lemma compress_correct:
  assumes "length block = 64" and "length MDbuf = 5"
  shows "compress MDbuf (words_le block) = compress_spec MDbuf block"
proof -
  let ?X = "words_le block" and ?ch = "(MDbuf ! 0, MDbuf ! 1, MDbuf ! 2, MDbuf ! 3, MDbuf ! 4)"
  have init: "rotated 0 MDbuf ?ch" using assms by (simp add: rotated_def numeral_2_eq_2)
  obtain A B C D E where l: "fold (step_l ?X) [0..<80] ?ch = (A, B, C, D, E)" by (metis prod_cases5)
  obtain A' B' C' D' E' where r: "fold (step_r ?X) [0..<80] ?ch = (A', B', C', D', E')" by (metis prod_cases5)
  have "rotated 80 (fold (run_macro ?X) rounds MDbuf) (A, B, C, D, E)"
    unfolding l [symmetric] rounds_table
    by (rule fold_rotated [OF _ init]) (simp add: step_l_def macro_l_spec)
  moreover have "rotated 80 (fold (run_macro ?X) parallel_rounds MDbuf) (A', B', C', D', E')"
    unfolding r [symmetric] parallel_rounds_table
    by (rule fold_rotated [OF _ init]) (simp add: step_r_def macro_r_spec)
  ultimately show ?thesis
    by (auto simp: compress_def compress_spec_def l r Let_def add.commute add.left_commute
        simp del: One_nat_def dest!: rotated_80)
qed

section \<open>Filling the message words\<close>

lemma load_le_4:
  "(load_le [a, b, c, d] :: u32) =
     push_bit 24 (ucast d) OR push_bit 16 (ucast c) OR push_bit 8 (ucast b) OR ucast a"
proof -
  have "256 * w = push_bit 8 w" for w :: u32 by (simp add: push_bit_eq_mult)
  then show ?thesis by (simp only: load_le_Cons_or load_le.simps(1)) (simp add: push_bit_or ac_simps)
qed

lemma BYTES_TO_DWORD_load: "4 \<le> length p \<Longrightarrow> BYTES_TO_DWORD p = load_le (take 4 p)"
  by (cases p rule: words_le.cases) (simp_all add: BYTES_TO_DWORD_def load_le_4)

lemma words_le_nth: "i < length bs div 4 \<Longrightarrow> words_le bs ! i = load_le (take 4 (drop (4 * i) bs))"
proof (induction bs arbitrary: i rule: words_le.induct)
  case (1 a b c d bs)
  then show ?case
  proof (cases i)
    case (Suc j)
    then have "drop (4 * i) (a # b # c # d # bs) = drop (4 * j) bs" by (simp add: eval_nat_numeral)
    with 1 Suc show ?thesis by simp
  qed simp
qed simp_all

lemma load_block_words: "64 \<le> length p \<Longrightarrow> load_block p = words_le (take 64 p)"
  by (rule nth_equalityI)
     (simp_all add: load_block_def length_words_le words_le_nth BYTES_TO_DWORD_load drop_take min_def)

lemma bit_words_le:
  "k < length bs div 4 \<Longrightarrow> bit (words_le bs ! k) n \<longleftrightarrow> n < 32 \<and> bit (bs ! (4 * k + n div 8)) (n mod 8)"
  by (auto simp: words_le_nth bit_load_le)

lemma xor_byte_words:
  assumes l: "length bs = 64" and i: "i < 64" and z: "bs ! i = 0"
  shows "xor_byte i b (words_le bs) = words_le (bs[i := b])"
proof (rule nth_equalityI)
  fix k assume "k < length (xor_byte i b (words_le bs))"
  then have k: "k < 16" using l by (simp add: xor_byte_def length_words_le)
  show "xor_byte i b (words_le bs) ! k = words_le (bs[i := b]) ! k"
  proof (rule bit_word_eqI)
    fix n assume "n < LENGTH(32)"
    then have n: "n < 32" by simp
    then have idx: "4 * k + n div 8 < 64" using k by linarith
    have pos: "4 * k + n div 8 = i \<longleftrightarrow> k = i div 4 \<and> n div 8 = i mod 4" proof -
      have "n div 8 < 4" using n by simp
      then show ?thesis by auto
    qed
    have "8 * (i mod 4) \<le> n \<and> n - 8 * (i mod 4) < 8 \<longleftrightarrow> n div 8 = i mod 4" by linarith
    moreover have "n div 8 = i mod 4 \<Longrightarrow> n - 8 * (i mod 4) = n mod 8"
      by (metis minus_mult_div_eq_mod)
    ultimately have "bit (push_bit (8 * (i mod 4)) (ucast b) :: u32) n \<longleftrightarrow> n div 8 = i mod 4 \<and> bit b (n mod 8)"
      using n by (auto simp: bit_simps dest: bit_imp_le_length)
    then show "bit (xor_byte i b (words_le bs) ! k) n = bit (words_le (bs[i := b]) ! k) n"
      using k n l i z idx pos
      by (auto simp: xor_byte_def nth_list_update bit_words_le bit_xor_iff length_words_le)
  qed
qed (simp add: l xor_byte_def length_words_le)

lemma fold_xor_byte:
  "n \<le> 64 \<Longrightarrow> n \<le> length bs \<Longrightarrow>
     fold (\<lambda>i. xor_byte i (bs ! i)) [0..<n] (replicate 16 0) = words_le (take n bs @ replicate (64 - n) 0)"
proof (induction n)
  case 0
  have "words_le (replicate 64 0) = replicate 16 0" by code_simp
  then show ?case by simp
next
  case (Suc n)
  have "64 - n = Suc (64 - Suc n)" using Suc.prems by simp
  then have "xor_byte n (bs ! n) (words_le (take n bs @ replicate (64 - n) 0))
      = words_le (take (Suc n) bs @ replicate (64 - Suc n) 0)"
    using Suc.prems by (subst xor_byte_words) (simp_all add: nth_append list_update_append take_Suc_conv_app_nth)
  with Suc show ?case by simp
qed

lemma ucast_drop_bit_low:
  "n + 8 \<le> 32 \<Longrightarrow> (ucast (drop_bit n (ucast (w :: u64) :: u32)) :: u8) = ucast (drop_bit n w)"
  by (rule bit_word_eqI) (auto simp: bit_simps)

lemma words_le_store64: "words_le (store64 w) = [ucast w, ucast (drop_bit 32 w)]"
proof -
  have "words_le (store64 w) = words_le (store32 (ucast w)) @ words_le (store32 (ucast (drop_bit 32 w)))"
    using ucast_drop_bit_low [of 0 w] ucast_drop_bit_low [of 0 "drop_bit 32 w"]
    by (simp add: store64_def store32_def ucast_drop_bit_low)
  also have "\<dots> = [load_le (store32 (ucast w)), load_le (store32 (ucast (drop_bit 32 w)))]"
    by (simp add: store32_def)
  finally show ?thesis by simp
qed


section \<open>Padding\<close>

lemma length_rmd_compress: "length (compress_spec h b) = 5"
  by (simp add: compress_spec_def Let_def split: prod.splits)

interpretation rmd: block_hash compress_spec "\<lambda>h. length h = 5"
  by unfold_locales (simp add: length_rmd_compress)

lemma unat_and_mask:
  "unat (w AND 63 :: u32) = unat w mod 64" "unat (w AND 15 :: u32) = unat w mod 16"
  "unat (w AND 3 :: u32) = unat w mod 4"
proof -
  have m: "(63 :: u32) = mask 6" "(15 :: u32) = mask 4" "(3 :: u32) = mask 2" by (simp_all add: mask_eq_exp_minus_1)
  show "unat (w AND 63) = unat w mod 64" "unat (w AND 15) = unat w mod 16" "unat (w AND 3) = unat w mod 4"
    unfolding m take_bit_eq_mask [symmetric] unsigned_take_bit_eq by (simp_all add: take_bit_eq_mod)
qed

lemma length_words: "push_bit 3 l = ucast (push_bit 3 (ucast (l :: u32)) :: u64)"
  "drop_bit 29 l = ucast (drop_bit 32 (push_bit 3 (ucast l) :: u64))"
  by (rule bit_word_eqI; auto simp: bit_simps)+

lemma words_le_set_length:
  assumes "length b = 64"
  shows "(words_le b)[14 := push_bit 3 l, 15 := drop_bit 29 l] =
         words_le (take 56 b @ store64 (word_of_nat (8 * unat l)))"
proof -
  have w: "8 * (ucast l :: u64) = push_bit 3 (ucast l)"
    by (simp add: push_bit_eq_mult)
  have "words_le b = words_le (take 56 b @ drop 56 b)" by simp
  also have "\<dots> = words_le (take 56 b) @ words_le (drop 56 b)"
    using assms by (intro words_le_append) simp
  finally have b: "words_le b = words_le (take 56 b) @ words_le (drop 56 b)" .
  have "length (words_le (drop 56 b)) = Suc (Suc 0)" using assms by (simp add: length_words_le)
  then obtain x y where xy: "words_le (drop 56 b) = [x, y]" by (auto simp: length_Suc_conv)
  have "length (words_le (take 56 b)) = 14" using assms by (simp add: length_words_le)
  then show ?thesis
    using assms by (simp add: b xy w words_le_append words_le_store64 length_words list_update_append)
qed

lemma take_append_le: "n \<le> length xs \<Longrightarrow> take n (xs @ ys) = take n xs"
  by simp

text \<open>The last one or two blocks: the remaining bytes, the marker, zeros and the length in bits.\<close>

definition tail_blocks :: "bytes \<Rightarrow> nat \<Rightarrow> bytes" where
  "tail_blocks rest len = rest @ [0x80] @ replicate (pad_zeros len) 0 @ store64 (word_of_nat (8 * len))"

lemma MDfinish_correct:
  assumes n: "n = unat l mod 64" and r: "n \<le> length rest" and h: "length h = 5"
  shows "MDfinish h rest l 0 = absorb compress_spec h (tail_blocks (take n rest) (unat l))"
proof -
  let ?b = "take n rest @ 0x80 # replicate (63 - n) 0"
  have n64: "n < 64" using n by simp
  have sz: "64 - n = Suc (63 - n)" using n64 by simp
  have b: "length ?b = 64" using r n64 by simp
  have X1: "fold (\<lambda>i. xor_byte i (rest ! i)) [0..<unat (l AND 63)] (replicate 16 0)
      = words_le (take n rest @ replicate (64 - n) 0)"
    unfolding unat_and_mask n [symmetric] using n64 r by (intro fold_xor_byte) simp_all
  have j: "unat (drop_bit 2 l AND 15) = n div 4"
  proof -
    have "unat (drop_bit 2 l AND 15) = unat l div 4 mod 16"
      unfolding unat_and_mask by (simp add: unat_drop_bit_eq drop_bit_eq_div [where 'a = nat])
    also have "\<dots> = n div 4" unfolding n using mod_mult2_eq [of "unat l" 4 16] by simp
    finally show ?thesis .
  qed
  have "push_bit (8 * unat (l AND 3) + 7) (1 :: u32) = push_bit (8 * (n mod 4)) (ucast (0x80 :: u8))"
  proof -
    have "unat (l AND 3) = n mod 4" unfolding unat_and_mask n by (simp add: mod_mod_cancel)
    moreover have "ucast (0x80 :: u8) = push_bit 7 (1 :: u32)" by (simp add: push_bit_eq_mult)
    ultimately show ?thesis by (simp add: push_bit_eq_mult power_add mult.commute)
  qed
  then have X2: "(words_le (take n rest @ replicate (64 - n) 0))
      [n div 4 := words_le (take n rest @ replicate (64 - n) 0) ! (n div 4)
         XOR push_bit (8 * unat (l AND 3) + 7) 1] = words_le ?b"
    using xor_byte_words [of "take n rest @ replicate (64 - n) 0" n "0x80"] n64 r
    by (simp add: xor_byte_def sz nth_append list_update_append)
  have gt: "l AND 63 > 55 \<longleftrightarrow> n > 55"
    using unat_and_mask(1) [of l] n by (simp add: word_less_nat_alt)
  have len: "X[14 := push_bit 3 l, 15 := drop_bit 29 l OR push_bit 3 0] = X[14 := push_bit 3 l, 15 := drop_bit 29 l]"
    for X by simp
  have Z: "replicate 16 0 = words_le (replicate 64 0)" by code_simp
  show ?thesis
  proof (cases "n > 55")
    case True
    let ?c = "replicate 56 0 @ store64 (word_of_nat (8 * unat l))"
    have "MDfinish h rest l 0 = compress (compress h (words_le ?b)) (words_le ?c)"
      unfolding MDfinish_def Let_def X1 j X2 gt if_P [OF True] prod.case len
      unfolding Z by (subst words_le_set_length) (simp_all add: min_def)
    also have "\<dots> = compress_spec (compress_spec h ?b) ?c"
      using b h by (simp add: compress_correct length_rmd_compress)
    also have "\<dots> = absorb compress_spec h (?b @ ?c)"
      using b by (simp only: rmd.absorb_block) (simp add: rmd.absorb_last [of "[]", simplified] rmd.absorb_short)
    also have "?b @ ?c = tail_blocks (take n rest) (unat l)"
    proof -
      have "pad_zeros (unat l) = (63 - n) + 56" using True n64 by (simp add: pad_zeros_def n [symmetric])
      then show ?thesis by (simp add: tail_blocks_def replicate_add)
    qed
    finally show ?thesis .
  next
    case False
    let ?c = "take 56 ?b @ store64 (word_of_nat (8 * unat l))"
    have "MDfinish h rest l 0 = compress h (words_le ?c)"
      unfolding MDfinish_def Let_def X1 j X2 gt if_not_P [OF False] prod.case len
      by (subst words_le_set_length [OF b]) (rule refl)
    also have "\<dots> = compress_spec h ?c" using b h by (intro compress_correct) simp_all
    also have "\<dots> = absorb compress_spec h ?c"
      using b rmd.absorb_last [of "[]" ?c h] by (simp add: rmd.absorb_short)
    also have "?c = tail_blocks (take n rest) (unat l)"
    proof -
      have "pad_zeros (unat l) = 55 - n" using False by (simp add: pad_zeros_def n [symmetric] le_mod_geq)
      then show ?thesis using False r by (simp add: tail_blocks_def min_def take_Cons' Suc_diff_le)
    qed
    finally show ?thesis .
  qed
qed

section \<open>The digest\<close>

lemma process_blocks_absorb:
  "process_blocks h msg l = (h', rest) \<Longrightarrow> unat l \<le> length msg \<Longrightarrow> length h = 5 \<Longrightarrow>
     h' = absorb compress_spec h (take (unat l) msg) \<and> rest = drop (unat l - unat l mod 64) msg"
proof (induction h msg l rule: process_blocks.induct)
  case (1 h msg l)
  show ?case
  proof (cases "l > 63")
    case False
    then have "unat l < 64" by (simp add: word_less_nat_alt)
    with 1 False show ?thesis by (auto simp: process_blocks.simps [of h msg l] rmd.absorb_short)
  next
    case True
    then have l: "64 \<le> unat l" by (simp add: word_less_nat_alt)
    then have sub: "unat (l - 64) = unat l - 64" by (simp add: unat_sub word_le_nat_alt)
    let ?b = "take 64 msg"
    have b: "length ?b = 64" "load_block msg = words_le ?b"
      using l 1(3) by (simp_all add: load_block_words)
    have c: "compress h (load_block msg) = compress_spec h ?b"
      using b 1(4) by (simp add: compress_correct)
    have "process_blocks (compress_spec h ?b) (drop 64 msg) (l - 64) = (h', rest)"
      using 1(2) True by (simp add: process_blocks.simps [of h msg l] c)
    then have ih: "h' = absorb compress_spec (compress_spec h ?b) (take (unat l - 64) (drop 64 msg))"
      "rest = drop (unat l - 64 - (unat l - 64) mod 64) (drop 64 msg)"
      using 1(1) [OF True] 1(3) l by (simp_all add: c sub length_rmd_compress)
    have "take (unat l) msg = ?b @ take (unat l - 64) (drop 64 msg)"
      using l by (metis le_add_diff_inverse take_add)
    moreover have "64 + (unat l - 64 - (unat l - 64) mod 64) = unat l - unat l mod 64"
      using l by (simp add: le_mod_geq mod_le_divisor algebra_simps) 
    ultimately show ?thesis using ih b by (simp add: rmd.absorb_block add.commute)
  qed
qed

lemma hashcode_store: "[ucast w, ucast (drop_bit 8 w), ucast (drop_bit 16 w), ucast (drop_bit 24 w)] = store32 w"
  by (simp add: store32_def)

lemma computeRIPEMD160_eq:
  assumes "unat l \<le> length message"
  shows "computeRIPEMD160 message l = ripemd160_spec (take (unat l) message)"
proof -
  let ?msg = "take (unat l) message" and ?n = "unat l mod 64"
  let ?k = "unat l - ?n"
  have len: "length ?msg = unat l" using assms by simp
  have init: "length MDinit = 5" by (simp add: MDinit_def)
  obtain h rest where p: "process_blocks MDinit message l = (h, rest)" by fastforce
  from process_blocks_absorb [OF p assms init] have h: "h = absorb compress_spec MDinit ?msg"
    and rest: "rest = drop ?k message" by simp_all
  have h5: "length h = 5" unfolding h by (rule rmd.inv_absorb) (rule init)
  have k: "64 dvd length (take ?k ?msg)" using len by (simp add: minus_mod_eq_mult_div)
  have tail: "take ?n rest = drop ?k ?msg"
    unfolding rest by (simp add: drop_take)
  have "h = absorb compress_spec MDinit (take ?k ?msg @ drop ?k ?msg)" by (simp only: append_take_drop_id h)
  also have "\<dots> = absorb compress_spec MDinit (take ?k ?msg)"
    using len by (simp only: rmd.absorb_append [OF k]) (simp add: rmd.absorb_short)
  finally have h': "h = absorb compress_spec MDinit (take ?k ?msg)" .
  have "MDfinish h rest l 0 = absorb compress_spec h (tail_blocks (drop ?k ?msg) (unat l))"
    unfolding tail [symmetric] using assms by (intro MDfinish_correct [OF refl _ h5]) (simp add: rest)
  also have "\<dots> = absorb compress_spec MDinit (take ?k ?msg @ tail_blocks (drop ?k ?msg) (unat l))"
    unfolding h' by (simp only: rmd.absorb_append [OF k])
  also have "take ?k ?msg @ tail_blocks (drop ?k ?msg) (unat l) = ripemd160_pad ?msg"
    by (simp only: tail_blocks_def ripemd160_pad_def append_assoc [symmetric] append_take_drop_id len)
  finally have f: "MDfinish h rest l 0 = absorb compress_spec MDinit (ripemd160_pad ?msg)" .
  have "length (MDfinish h rest l 0) = 5" unfolding f by (rule rmd.inv_absorb) (rule init)
  then have "map ((!) (MDfinish h rest l 0)) [0..<5] = MDfinish h rest l 0" by (metis map_nth)
  then have "map (\<lambda>i. store32 (MDfinish h rest l 0 ! i)) [0..<5] = map store32 (MDfinish h rest l 0)"
    by (metis (no_types, lifting) map_map comp_apply map_cong)
  then show ?thesis
    unfolding computeRIPEMD160_def p Let_def prod.case hashcode_store ripemd160_spec_def f
      MDinit_def [symmetric] by simp
qed

text \<open>
  C33: \<open>computeRIPEMD160\<close> computes RIPEMD-160 of the bytes at its input, for every length: the 160
  unrolled macro calls (with their register arguments rotated by hand), the byte-wise filling of
  the message words and the one- or two-block ending agree with the published definition.
\<close>

theorem computeRIPEMD160_correct:
  assumes "unat l \<le> length message"
  shows "computeRIPEMD160 message l = ripemd160_spec (take (unat l) message)"
  using assms by (rule computeRIPEMD160_eq)

theorem computeRIPEMD160_correct_witness:
  "computeRIPEMD160 (replicate 130 0x61) 120 = ripemd160_spec (replicate 120 0x61)"
  by (subst computeRIPEMD160_correct) simp_all

lemma length_computeRIPEMD160 [simp]: "length (computeRIPEMD160 message l) = 20"
  by (simp add: computeRIPEMD160_def Let_def hashcode_store length_concat_store32 split: prod.splits)

lemma length_ripemd160_spec [simp]: "length (ripemd160_spec msg) = 20"
  using rmd.inv_absorb [of "[0x67452301, 0xefcdab89, 0x98badcfe, 0x10325476, 0xc3d2e1f0]" "ripemd160_pad msg"]
  by (simp add: ripemd160_spec_def length_concat_store32)

end
