(* ===== verification/BigNumber.thy ===== *)
theory BigNumber
  imports Prelude
begin

text \<open>
  The big integers of src/src/Base58.cpp: a buffer of \<open>MAX_BIG_NUMBER\<close> bytes, least significant
  byte first, and the number of bytes in use. Every routine is one definition; its loops are
  folds or recursions over the byte index. A \<open>for\<close> loop whose 8-bit counter is compared with a
  length above 255 never stops (\<open>Diverges\<close>); below that the counter does not wrap and is a \<open>nat\<close>.

  The specification is arithmetic on the value \<open>bn_val\<close>: comparison, addition, subtraction,
  multiplication, division and remainder by 58, powers, normalisation.
\<close>

section \<open>The code\<close>

definition MAX_BIG_NUMBER :: nat where
  "MAX_BIG_NUMBER = 256"

record big_number =
  bn_data :: bytes
  bn_length :: nat

definition BigNumber :: "build \<Rightarrow> bytes option \<Rightarrow> nat \<Rightarrow> big_number result" where
  "BigNumber bld sourceData len =
     bind_result (c_assert bld (len < MAX_BIG_NUMBER)) (\<lambda>_.
       case sourceData of
         None \<Rightarrow> Ok \<lparr>bn_data = replicate MAX_BIG_NUMBER 0, bn_length = len\<rparr>
       | Some src \<Rightarrow>
           if len \<le> length src \<and> len \<le> MAX_BIG_NUMBER
           then Ok \<lparr>bn_data = splice (replicate MAX_BIG_NUMBER 0) 0 (take len src), bn_length = len\<rparr>
           else Fault OutOfBounds)"

datatype comparison = CB_COMPARE_MORE_THAN | CB_COMPARE_EQUAL | CB_COMPARE_LESS_THAN

definition BigNumberCompareTo58 :: "big_number \<Rightarrow> comparison" where
  "BigNumberCompareTo58 a =
     (if bn_length a > 1 then CB_COMPARE_MORE_THAN
      else if bn_data a ! 0 > 58 then CB_COMPARE_MORE_THAN
      else if bn_data a ! 0 < 58 then CB_COMPARE_LESS_THAN
      else CB_COMPARE_EQUAL)"

fun compare_bytes :: "bytes \<Rightarrow> bytes \<Rightarrow> nat \<Rightarrow> comparison" where
  "compare_bytes a b 0 = CB_COMPARE_EQUAL"
| "compare_bytes a b (Suc x) =
     (if a ! x < b ! x then CB_COMPARE_LESS_THAN
      else if a ! x > b ! x then CB_COMPARE_MORE_THAN
      else compare_bytes a b x)"

definition BigNumberCompareToBigInt :: "big_number \<Rightarrow> big_number \<Rightarrow> comparison" where
  "BigNumberCompareToBigInt a b =
     (if bn_length a > bn_length b then CB_COMPARE_MORE_THAN
      else if bn_length a < bn_length b then CB_COMPARE_LESS_THAN
      else compare_bytes (bn_data a) (bn_data b) (bn_length a))"

text \<open>
  Addition: bytewise with a carry bit, then the carry runs up the rest of \<open>a\<close>. The counter is a
  \<open>uint8_t\<close>; \<open>add_fuel\<close> bounds its steps, and is enough for every number shorter than the buffer.
\<close>

definition add_fuel :: nat where
  "add_fuel = 514"

definition add_byte :: "bytes \<Rightarrow> nat \<Rightarrow> bool \<times> bytes \<Rightarrow> bool \<times> bytes" where
  "add_byte b x s =
     (case s of (overflow, a) \<Rightarrow>
        let v = a ! x + (b ! x + of_bool overflow)
        in (unat v < unat (b ! x) + of_bool overflow, a[x := v]))"

fun add_carry :: "nat \<Rightarrow> nat \<Rightarrow> u8 \<Rightarrow> bool \<Rightarrow> bytes \<Rightarrow> (bool \<times> bytes) option" where
  "add_carry 0 len x overflow a = None"
| "add_carry (Suc n) len x overflow a =
     (if overflow \<and> unat x < len
      then let v = a ! unat x + 1 in add_carry n len (x + 1) (v = 0) (a[unat x := v])
      else Some (overflow, a))"

definition BigNumberEqualsAdditionByBigInt :: "build \<Rightarrow> big_number \<Rightarrow> big_number \<Rightarrow> big_number result" where
  "BigNumberEqualsAdditionByBigInt bld a b =
     (let a = (if bn_length a < bn_length b
               then a\<lparr>bn_data := splice (bn_data a) (bn_length a)
                                   (replicate (bn_length b - bn_length a) 0),
                      bn_length := bn_length b\<rparr>
               else a)
      in if bn_length b > 255 then Fault Diverges
         else
           let (overflow, d) = fold (add_byte (bn_data b)) [0..<bn_length b] (False, bn_data a)
           in case add_carry add_fuel (bn_length a) (word_of_nat (bn_length b)) overflow d of
                None \<Rightarrow> Fault Diverges
              | Some (overflow, d) \<Rightarrow>
                  let a = a\<lparr>bn_data := d\<rparr>
                  in if overflow
                     then bind_result (c_assert bld (Suc (bn_length a) < MAX_BIG_NUMBER)) (\<lambda>_.
                            if bn_length a < MAX_BIG_NUMBER
                            then Ok (a\<lparr>bn_data := (bn_data a)[bn_length a := 1],
                                       bn_length := Suc (bn_length a)\<rparr>)
                            else Fault OutOfBounds)
                     else Ok a)"

text \<open>Base-256 long division by 58, from the most significant byte down.\<close>

fun div58_loop :: "bytes \<Rightarrow> nat \<Rightarrow> u16 \<Rightarrow> bytes \<Rightarrow> bytes" where
  "div58_loop a 0 temp ans = ans"
| "div58_loop a (Suc x) temp ans =
     (let temp = push_bit 8 temp OR ucast (a ! x);
          q = ucast (temp div 58) :: u8
      in div58_loop a x (temp - ucast q * 58) (ans[x := q]))"

definition BigNumberEqualsDivisionBy58 :: "big_number \<Rightarrow> bytes \<Rightarrow> big_number result" where
  "BigNumberEqualsDivisionBy58 a ans =
     (if bn_length a = 1 \<and> bn_data a ! 0 = 0 then Ok a
      else if bn_length a = 0 \<or> length ans < bn_length a then Fault OutOfBounds
      else
        let ans = div58_loop (bn_data a) (bn_length a) 0 ans;
            len = (if ans ! (bn_length a - 1) = 0 then bn_length a - 1 else bn_length a)
        in Ok (a\<lparr>bn_data := splice (bn_data a) 0 (take len ans), bn_length := len\<rparr>))"

definition mul_byte :: "u8 \<Rightarrow> nat \<Rightarrow> u16 \<times> bytes \<Rightarrow> u16 \<times> bytes" where
  "mul_byte b x s =
     (case s of (carry, a) \<Rightarrow>
        let carry = carry + ucast (a ! x) * ucast b
        in (drop_bit 8 carry, a[x := ucast carry]))"

definition BigNumberEqualsMultiplicationByUInt8 :: "build \<Rightarrow> big_number \<Rightarrow> u8 \<Rightarrow> big_number result" where
  "BigNumberEqualsMultiplicationByUInt8 bld a b =
     (if b = 0 then Ok (a\<lparr>bn_data := (bn_data a)[0 := 0], bn_length := 1\<rparr>)
      else if bn_length a = 1 \<and> bn_data a ! 0 = 0 then Ok a
      else if bn_length a > 255 then Fault Diverges
      else
        let (carry, d) = fold (mul_byte b) [0..<bn_length a] (0, bn_data a);
            a = a\<lparr>bn_data := d\<rparr>
        in if carry \<noteq> 0
           then bind_result (c_assert bld (Suc (bn_length a) < MAX_BIG_NUMBER)) (\<lambda>_.
                  Ok (a\<lparr>bn_data := (bn_data a)[bn_length a := ucast carry],
                        bn_length := Suc (bn_length a)\<rparr>))
           else Ok a)"

fun normal_length :: "bytes \<Rightarrow> nat \<Rightarrow> nat" where
  "normal_length d 0 = 0"
| "normal_length d (Suc n) = (if n > 0 \<and> d ! n = 0 then normal_length d n else Suc n)"

definition BigNumberNormalise :: "big_number \<Rightarrow> big_number" where
  "BigNumberNormalise a = a\<lparr>bn_length := normal_length (bn_data a) (bn_length a)\<rparr>"

definition sub_byte :: "bytes \<Rightarrow> nat \<Rightarrow> bool \<times> bytes \<Rightarrow> bool \<times> bytes" where
  "sub_byte b x s =
     (case s of (carry, a) \<Rightarrow>
        let tmp = of_bool carry + ucast (b ! x) :: u16
        in (ucast (a ! x) < tmp, a[x := a ! x - ucast tmp]))"

definition BigNumberEqualsSubtractionByBigInt :: "big_number \<Rightarrow> big_number \<Rightarrow> big_number result" where
  "BigNumberEqualsSubtractionByBigInt a b =
     (if bn_length b > 255 then Fault Diverges
      else
        let (carry, d) = fold (sub_byte (bn_data b)) [0..<bn_length b] (False, bn_data a);
            d = (if carry then d[bn_length b := d ! bn_length b - 1] else d)
        in Ok (BigNumberNormalise (a\<lparr>bn_data := d\<rparr>)))"

text \<open>
  Subtraction of a byte: the borrow runs up while a byte is too small. The counter is a
  \<open>uint8_t\<close> that wraps after 255; \<open>sub8_fuel\<close> iterations are enough for every run (shown below).
\<close>

definition sub8_fuel :: nat where
  "sub8_fuel = 258"

fun sub8_loop :: "nat \<Rightarrow> u8 \<Rightarrow> u8 \<Rightarrow> bytes \<Rightarrow> bytes option" where
  "sub8_loop 0 carry x d = None"
| "sub8_loop (Suc n) carry x d =
     (if d ! unat x < carry
      then sub8_loop n 1 (x + 1) (d[unat x := 255 - carry + d ! unat x + 1])
      else Some (d[unat x := d ! unat x - carry]))"

definition BigNumberEqualsSubtractionByUInt8 :: "big_number \<Rightarrow> u8 \<Rightarrow> big_number result" where
  "BigNumberEqualsSubtractionByUInt8 a b =
     (case sub8_loop sub8_fuel b 0 (bn_data a) of
        None \<Rightarrow> Fault Diverges
      | Some d \<Rightarrow> Ok (BigNumberNormalise (a\<lparr>bn_data := d\<rparr>)))"

fun pow_loop :: "build \<Rightarrow> nat \<Rightarrow> u8 \<Rightarrow> big_number \<Rightarrow> big_number result" where
  "pow_loop bld 0 a bi = Ok bi"
| "pow_loop bld (Suc n) a bi =
     bind_result (BigNumberEqualsMultiplicationByUInt8 bld bi a) (pow_loop bld n a)"

definition BigNumberFromPowUInt8 :: "build \<Rightarrow> big_number \<Rightarrow> u8 \<Rightarrow> u8 \<Rightarrow> big_number result" where
  "BigNumberFromPowUInt8 bld bi a b =
     pow_loop bld (unat b) a (bi\<lparr>bn_data := (bn_data bi)[0 := 1], bn_length := 1\<rparr>)"

fun mod58_loop :: "bytes \<Rightarrow> nat \<Rightarrow> u16 \<Rightarrow> u16" where
  "mod58_loop d 0 r = r"
| "mod58_loop d (Suc x) r =
     mod58_loop d x (((r * (256 mod 58)) mod 58 + ucast (d ! x) mod 58) mod 58)"

definition BigNumberModuloWith58 :: "big_number \<Rightarrow> u8 result" where
  "BigNumberModuloWith58 a =
     (if bn_length a = 0 then Fault OutOfBounds
      else Ok (ucast (mod58_loop (bn_data a) (bn_length a) 0)))"

section \<open>Values\<close>

definition bn_val :: "big_number \<Rightarrow> nat" where
  "bn_val a = le_nat (take (bn_length a) (bn_data a))"

definition bn_wf :: "big_number \<Rightarrow> bool" where
  "bn_wf a \<longleftrightarrow> length (bn_data a) = MAX_BIG_NUMBER \<and> bn_length a < MAX_BIG_NUMBER"

section \<open>Loops on little-endian digits\<close>

lemma le_nat_update:
  "x < length xs \<Longrightarrow> le_nat (xs[x := v]) + 256 ^ x * unat (xs ! x) = le_nat xs + 256 ^ x * unat v"
proof (induction xs arbitrary: x)
  case (Cons y ys)
  show ?case
  proof (cases x)
    case (Suc n)
    with Cons.prems have "le_nat (ys[n := v]) + 256 ^ n * unat (ys ! n) = le_nat ys + 256 ^ n * unat v"
      by (intro Cons.IH) simp
    then have "256 * (le_nat (ys[n := v]) + 256 ^ n * unat (ys ! n)) = 256 * (le_nat ys + 256 ^ n * unat v)"
      by simp
    then show ?thesis by (simp add: Suc algebra_simps)
  qed simp
qed simp

lemma le_nat_take_Suc: "x < length xs \<Longrightarrow> le_nat (take (Suc x) xs) = le_nat (take x xs) + 256 ^ x * unat (xs ! x)"
  by (simp add: take_Suc_conv_app_nth le_nat_append)

lemma le_nat_drop_nth: "x < length xs \<Longrightarrow> le_nat (drop x xs) = unat (xs ! x) + 256 * le_nat (drop (Suc x) xs)"
  by (simp add: Cons_nth_drop_Suc [symmetric])

lemma le_nat_take_drop: "le_nat xs = le_nat (take n xs) + 256 ^ n * le_nat (drop n xs)" if "n \<le> length xs"
  using le_nat_append [of "take n xs" "drop n xs"] that by simp

lemma unat_ucast_16 [simp]: "unat (ucast (x :: u8) :: u16) = unat x"
proof -
  have "unat x < 65536" using unat_u8_less [of x] by linarith
  then show ?thesis by (simp add: unsigned_ucast_eq take_bit_eq_mod)
qed

lemma unat_split_8: "unat (ucast w :: u8) + 256 * unat (drop_bit 8 w) = unat w" for w :: u16
  by (simp add: unsigned_ucast_eq take_bit_eq_mod drop_bit_eq_div unat_div)

lemma drop_Suc_tl: "drop (Suc n) xs = tl (drop n xs)"
  by (simp add: drop_Suc tl_drop)

lemma drop_update_Suc: "drop (Suc n) (xs[n := v]) = drop (Suc n) xs"
  by simp

lemma unat_plus_bit: "unat (x + (y + of_bool c) :: u8) = (unat x + unat y + of_bool c) mod 256"
  by (simp add: unat_word_ariths mod_simps ac_simps)

lemma carry_byte:
  fixes x y v c :: nat
  assumes "v = (x + y + c) mod 256" "x < 256" "y < 256" "c \<le> 1"
  shows "v + 256 * of_bool (v < y + c) = x + y + c"
proof (cases "x + y + c < 256")
  case False
  then have "(x + y + c) mod 256 = x + y + c - 256"
    using assms(2-4) by (simp add: mod_if)
  moreover have "x + y + c - 256 < y + c" using False assms(2) by linarith
  ultimately show ?thesis using False assms(1) by simp
qed (use assms in simp)

lemma inc_byte: "unat (v + 1 :: u8) + 256 * of_bool (v + 1 = 0) = unat v + 1"
proof (cases "unat v = 255")
  case False
  then have "unat v < 255" using unat_u8_less [of v] by linarith
  then show ?thesis by (simp add: unat_word_ariths word_unat_eq_iff)
qed (simp add: unat_word_ariths word_unat_eq_iff)

section \<open>Addition\<close>

lemma add_bytes:
  assumes "n \<le> length a" 
  shows "case fold (add_byte b) [0..<n] (False, a) of (c, d) \<Rightarrow>
     length d = length a \<and> drop n d = drop n a \<and>
     le_nat (take n d) + 256 ^ n * of_bool c = le_nat (take n a) + le_nat (map ((!) b) [0..<n])"
  using assms
proof (induction n)
  case (Suc n)
  obtain c d where f: "fold (add_byte b) [0..<n] (False, a) = (c, d)" by fastforce
  with Suc have ih: "length d = length a" "drop n d = drop n a"
    "le_nat (take n d) + 256 ^ n * of_bool c = le_nat (take n a) + le_nat (map ((!) b) [0..<n])" by auto
  have dn: "d ! n = a ! n" using ih(2) Suc.prems ih(1)
    by (metis Suc_le_eq hd_drop_conv_nth)
  let ?v = "d ! n + (b ! n + of_bool c)" let ?s = "unat (d ! n) + unat (b ! n) + of_bool c"
  let ?c = "unat ?v < unat (b ! n) + of_bool c"
  have s: "unat ?v + 256 * of_bool ?c = ?s"
    by (rule carry_byte [OF unat_plus_bit unat_u8_less unat_u8_less]) simp
  have "le_nat (take (Suc n) (d[n := ?v])) + 256 ^ Suc n * of_bool ?c
      = le_nat (take n d) + 256 ^ n * (unat ?v + 256 * of_bool ?c)"
    using Suc.prems ih(1) by (simp add: take_Suc_update le_nat_append algebra_simps)
  also have "\<dots> = (le_nat (take n d) + 256 ^ n * of_bool c) + 256 ^ n * (unat (d ! n) + unat (b ! n))"
    unfolding s by (simp add: algebra_simps)
  also have "\<dots> = le_nat (take (Suc n) a) + le_nat (map ((!) b) [0..<Suc n])"
    using Suc.prems unfolding ih(3) dn by (simp add: le_nat_take_Suc le_nat_append algebra_simps)
  finally have "le_nat (take (Suc n) (d[n := ?v])) + 256 ^ Suc n * of_bool ?c =
    le_nat (take (Suc n) a) + le_nat (map ((!) b) [0..<Suc n])" .
  moreover have "drop (Suc n) (d[n := ?v]) = drop (Suc n) a"
    using arg_cong [OF ih(2), of tl] by (simp add: drop_update_Suc flip: drop_Suc_tl)
  moreover have "fold (add_byte b) [0..<Suc n] (False, a) = (?c, d[n := ?v])"
    by (simp add: f add_byte_def [of b n] Let_def)
  ultimately show ?case using ih(1) by simp
qed simp

lemma add_carry_correct:
  assumes "len < 256" "len \<le> length a" "unat x \<le> len" "len < n + unat x"
  shows "\<exists>c' d. add_carry n len x c a = Some (c', d) \<and> length d = length a \<and>
     le_nat (take len d) + 256 ^ len * of_bool c' = le_nat (take len a) + 256 ^ unat x * of_bool c"
  using assms(2-4)
proof (induction n arbitrary: x c a)
  case (Suc n)
  show ?case
  proof (cases "c \<and> unat x < len")
    case False
    with Suc.prems show ?thesis by auto
  next
    case True
    let ?v = "a ! unat x + 1"
    have x: "unat (x + 1) = Suc (unat x)" using True assms(1) by (simp add: unat_word_ariths)
    from Suc.IH [of "a[unat x := ?v]" "x + 1" "?v = 0"] Suc.prems True x
    obtain c' d where ih: "add_carry n len (x + 1) (?v = 0) (a[unat x := ?v]) = Some (c', d)"
        "length d = length a" "le_nat (take len d) + 256 ^ len * of_bool c'
        = le_nat (take len (a[unat x := ?v])) + 256 ^ Suc (unat x) * of_bool (?v = 0)" by auto
    have v: "unat ?v + 256 * of_bool (?v = 0) = unat (a ! unat x) + 1"
      by (rule inc_byte)
    have "le_nat ((take len a)[unat x := ?v]) + 256 ^ unat x * unat (take len a ! unat x) = le_nat (take len a) + 256 ^ unat x * unat ?v"
      using True Suc.prems by (intro le_nat_update) simp
    then have "le_nat (take len (a[unat x := ?v])) + 256 ^ unat x * unat (a ! unat x) = le_nat (take len a) + 256 ^ unat x * unat ?v"
      using True by (simp add: take_update_swap)
    then have "le_nat (take len (a[unat x := ?v])) + 256 ^ unat x * (unat (a ! unat x) + 1) + 256 ^ Suc (unat x) * of_bool (?v = 0)
       = le_nat (take len a) + 256 ^ unat x * (unat ?v + 256 * of_bool (?v = 0)) + 256 ^ unat x"
      by (simp only: algebra_simps power_Suc)
    then have "le_nat (take len (a[unat x := ?v])) + 256 ^ Suc (unat x) * of_bool (?v = 0) = le_nat (take len a) + 256 ^ unat x"
      unfolding v by simp
    with ih True show ?thesis by (auto simp: Let_def)
  qed
qed simp

section \<open>Multiplication by a byte\<close>

lemma mul_bytes:
  assumes "n \<le> length a"
  shows "case fold (mul_byte b) [0..<n] (0, a) of (c, d) \<Rightarrow>
     length d = length a \<and> drop n d = drop n a \<and> unat c < 256 \<and>
     le_nat (take n d) + 256 ^ n * unat c = le_nat (take n a) * unat b"
  using assms
proof (induction n)
  case (Suc n)
  obtain c d where f: "fold (mul_byte b) [0..<n] (0, a) = (c, d)" by fastforce
  with Suc have ih: "length d = length a" "drop n d = drop n a" "unat c < 256"
    "le_nat (take n d) + 256 ^ n * unat c = le_nat (take n a) * unat b" by auto
  have dn: "d ! n = a ! n" using ih(2) Suc.prems ih(1)
    by (metis Suc_le_eq hd_drop_conv_nth)
  let ?v = "c + ucast (d ! n) * ucast b"
  have "unat (d ! n) * unat b \<le> 255 * 255"
    by (intro mult_le_mono unat_u8_le)
  then have v: "unat ?v = unat c + unat (a ! n) * unat b" and v': "unat ?v < 256 * 256"
    using ih(3) unfolding dn by (simp_all add: unat_word_ariths)
  have "le_nat (take (Suc n) (d[n := ucast ?v])) + 256 ^ Suc n * unat (drop_bit 8 ?v)
      = le_nat (take n d) + 256 ^ n * (unat (ucast ?v :: u8) + 256 * unat (drop_bit 8 ?v))"
    using Suc.prems ih(1) by (simp add: take_Suc_update le_nat_append algebra_simps)
  also have "\<dots> = (le_nat (take n d) + 256 ^ n * unat c) + 256 ^ n * (unat (a ! n) * unat b)"
    unfolding unat_split_8 v by (simp add: algebra_simps)
  also have "\<dots> = le_nat (take (Suc n) a) * unat b"
    using Suc.prems unfolding ih(4) by (simp add: le_nat_take_Suc algebra_simps)
  finally have "le_nat (take (Suc n) (d[n := ucast ?v])) + 256 ^ Suc n * unat (drop_bit 8 ?v)
      = le_nat (take (Suc n) a) * unat b" .
  moreover have "drop (Suc n) (d[n := ucast ?v]) = drop (Suc n) a"
    using arg_cong [OF ih(2), of tl] by (simp add: drop_update_Suc flip: drop_Suc_tl)
  moreover have "unat (drop_bit 8 ?v) < 256"
    using v' by (simp add: drop_bit_eq_div unat_div)
  moreover have "fold (mul_byte b) [0..<Suc n] (0, a) = (drop_bit 8 ?v, d[n := ucast ?v])"
    by (simp add: f mul_byte_def [of b n] Let_def)
  ultimately show ?case using ih(1) by simp
qed simp

section \<open>Division and remainder\<close>

lemma div58_step:
  fixes t :: u16 and v :: u8
  assumes "unat t < 58"
  defines "u \<equiv> push_bit 8 t OR ucast v"
  shows "unat u = 256 * unat t + unat v" "unat (ucast (u div 58) :: u8) = unat u div 58"
    "unat (u - ucast (ucast (u div 58) :: u8) * 58) = unat u mod 58"
proof -
  have "u = push_bit 8 t + ucast v"
    unfolding u_def by (rule disjunctive_add [symmetric]) (auto simp: bit_simps dest: bit_imp_le_length)
  moreover have "unat (push_bit 8 t) = 256 * unat t"
    using assms(1) by (simp add: push_bit_eq_mult unat_word_ariths)
  moreover have "256 * unat t + unat v < 65536"
    using assms(1) unat_u8_less [of v] by linarith
  then have "256 * unat t + unat v < 2 ^ LENGTH(16)" by simp
  ultimately show u: "unat u = 256 * unat t + unat v"
    by (simp only: unat_word_ariths(1) unat_ucast_16 mod_less)
  have lt: "unat u div 58 < 256" using assms(1) unat_u8_less [of v] unfolding u by linarith
  show q: "unat (ucast (u div 58) :: u8) = unat u div 58"
    using lt by (simp add: unat_div take_bit_nat_eq_self_iff unsigned_ucast_eq)
  have "unat (ucast (ucast (u div 58) :: u8) * 58 :: u16) = unat u div 58 * 58"
    using lt unfolding unat_word_ariths by (simp add: q)
  then have le: "ucast (ucast (u div 58) :: u8) * 58 \<le> u" and
      eq: "unat (ucast (ucast (u div 58) :: u8) * 58 :: u16) = unat u div 58 * 58"
    unfolding word_le_nat_alt by simp_all
  show "unat (u - ucast (ucast (u div 58) :: u8) * 58) = unat u mod 58"
    unfolding unat_sub [OF le] eq by (rule minus_div_mult_eq_mod)
qed

lemma div58_loop_correct:
  assumes "unat t < 58" "x \<le> length a" "x \<le> length ans"
  shows "length (div58_loop a x t ans) = length ans \<and> drop x (div58_loop a x t ans) = drop x ans \<and>
    le_nat (take x (div58_loop a x t ans)) = (256 ^ x * unat t + le_nat (take x a)) div 58"
  using assms
proof (induction x arbitrary: t ans)
  case (Suc n)
  let ?u = "push_bit 8 t OR ucast (a ! n) :: u16"
  let ?q = "ucast (?u div 58) :: u8"
  let ?r = "div58_loop a n (?u - ucast ?q * 58) (ans[n := ?q])"
  note st = div58_step [OF Suc.prems(1), of "a ! n"]
  from Suc.IH [of "?u - ucast ?q * 58" "ans[n := ?q]"] Suc.prems st(3)
  have ih: "length ?r = length ans" "drop n ?r = drop n (ans[n := ?q])"
    "le_nat (take n ?r) = (256 ^ n * (unat ?u mod 58) + le_nat (take n a)) div 58" by simp_all
  have rn: "?r ! n = ?q" using arg_cong [OF ih(2), of hd] Suc.prems ih(1)
    by (simp add: hd_drop_conv_nth)
  have "256 ^ Suc n * unat t + le_nat (take (Suc n) a) = 256 ^ n * unat ?u + le_nat (take n a)"
    using Suc.prems unfolding st(1) by (simp add: le_nat_take_Suc algebra_simps)
  also have "\<dots> = 256 ^ n * (unat ?u div 58 * 58 + unat ?u mod 58) + le_nat (take n a)"
    by (simp only: div_mult_mod_eq)
  also have "\<dots> = (256 ^ n * (unat ?u mod 58) + le_nat (take n a)) + 58 * (256 ^ n * (unat ?u div 58))"
    by (simp only: algebra_simps)
  finally have "(256 ^ Suc n * unat t + le_nat (take (Suc n) a)) div 58 =
      le_nat (take n ?r) + 256 ^ n * (unat ?u div 58)"
    unfolding ih(3) by simp
  moreover have "le_nat (take (Suc n) ?r) = le_nat (take n ?r) + 256 ^ n * (unat ?u div 58)"
    using Suc.prems ih(1) rn st(2) by (simp add: le_nat_take_Suc)
  moreover have "drop (Suc n) ?r = drop (Suc n) ans"
    using arg_cong [OF ih(2), of tl] by (simp add: drop_update_Suc flip: drop_Suc_tl)
  ultimately show ?case using ih(1) by (simp add: Let_def)
qed simp

lemma mod58_loop_correct:
  assumes "unat r < 58" "x \<le> length d"
  shows "unat (mod58_loop d x r) = (256 ^ x * unat r + le_nat (take x d)) mod 58"
  using assms
proof (induction x arbitrary: r)
  case (Suc n)
  let ?r = "((r * (256 mod 58)) mod 58 + ucast (d ! n) mod 58) mod 58 :: u16"
  have "unat (r * (256 mod 58)) = unat r * 24"
    using Suc.prems(1) by (simp add: unat_word_ariths)
  then have "unat (r * (256 mod 58) mod 58) = (unat r * 24) mod 58"
    by (simp add: unat_mod)
  moreover have "unat (ucast (d ! n) mod 58 :: u16) = unat (d ! n) mod 58"
    by (simp add: unat_mod)
  ultimately have "unat ?r = ((unat r * 24) mod 58 + unat (d ! n) mod 58) mod 58"
    by (simp add: unat_mod unat_word_ariths)
  also have "\<dots> = (256 * unat r + unat (d ! n)) mod 58"
  proof -
    have "256 * unat r + unat (d ! n) = unat r * 24 + unat (d ! n) + 58 * (4 * unat r)" by simp
    then show ?thesis by (simp only: mod_mult_self2 mod_add_eq)
  qed
  finally have r: "unat ?r = (256 * unat r + unat (d ! n)) mod 58" .
  then have "unat ?r < 58" by simp
  from Suc.IH [OF this] Suc.prems
  have "unat (mod58_loop d (Suc n) r) = (256 ^ n * unat ?r + le_nat (take n d)) mod 58"
    by (simp del: mod58_loop.simps add: mod58_loop.simps(2))
  also have "\<dots> = (256 ^ n * (256 * unat r + unat (d ! n)) + le_nat (take n d)) mod 58"
    unfolding r by (metis mod_add_left_eq mod_mult_right_eq)
  also have "256 ^ n * (256 * unat r + unat (d ! n)) + le_nat (take n d)
     = 256 ^ Suc n * unat r + le_nat (take (Suc n) d)"
    using Suc.prems by (simp add: le_nat_take_Suc algebra_simps)
  finally show ?case .
qed simp

section \<open>Normalisation\<close>

lemma normal_length_le: "normal_length d n \<le> n"
  by (induction n) auto

lemma normal_length_pos: "n > 0 \<Longrightarrow> normal_length d n > 0"
  by (induction n) auto

lemma le_nat_normal: "n \<le> length d \<Longrightarrow> le_nat (take (normal_length d n) d) = le_nat (take n d)"
  by (induction n) (auto simp: le_nat_take_Suc)

lemma normal_length_top: "normal_length d n > 1 \<Longrightarrow> d ! (normal_length d n - 1) \<noteq> 0"
  by (induction n) (auto split: if_splits)


section \<open>The operations on values\<close>

definition bn_normal :: "big_number \<Rightarrow> bool" where
  "bn_normal a \<longleftrightarrow> bn_length a \<le> 1 \<or> 256 ^ (bn_length a - 1) \<le> bn_val a"

definition bn_limit :: nat where
  "bn_limit = 256 ^ 255"

lemma bn_val_less: "bn_wf a \<Longrightarrow> bn_val a < 256 ^ bn_length a"
  using le_nat_less [of "take (bn_length a) (bn_data a)"]
  by (simp add: bn_val_def bn_wf_def MAX_BIG_NUMBER_def)

lemma length_less_256: "256 ^ m \<le> v \<Longrightarrow> v < bn_limit \<Longrightarrow> m < 255" for v :: nat
  using power_less_imp_less_exp [of "256 :: nat" m 255] unfolding bn_limit_def by linarith

lemma bn_val_push:
  assumes "length d = 256" "m < 256"
  shows "le_nat (take (Suc m) (d[m := v])) = le_nat (take m d) + 256 ^ m * unat v"
  using assms by (simp add: take_Suc_update le_nat_append)

lemma BigNumberEqualsAdditionByBigInt_spec:
  assumes a: "bn_wf a" and b: "bn_wf b" and small: "bn_val a + bn_val b < bn_limit"
  defines "m \<equiv> max (bn_length a) (bn_length b)"
  shows "\<exists>r. BigNumberEqualsAdditionByBigInt bld a b = Ok r \<and> bn_wf r \<and>
    bn_val r = bn_val a + bn_val b \<and>
    (bn_length r = m \<or> bn_length r = Suc m \<and> 256 ^ m \<le> bn_val r)"
proof -
  let ?lb = "bn_length b"
  define d0 where "d0 = (if bn_length a < ?lb
     then splice (bn_data a) (bn_length a) (replicate (?lb - bn_length a) 0) else bn_data a)"
  have l: "length (bn_data b) = 256" "?lb < 256" "m < 256"
    using a b by (simp_all add: bn_wf_def m_def MAX_BIG_NUMBER_def)
  have d0: "length d0 = 256" "le_nat (take m d0) = bn_val a"
    using a b by (auto simp: d0_def m_def bn_wf_def MAX_BIG_NUMBER_def bn_val_def splice_def
        le_nat_append max_def)
  obtain c d where f: "fold (add_byte (bn_data b)) [0..<?lb] (False, d0) = (c, d)" by fastforce
  have "map ((!) (bn_data b)) [0..<?lb] = take ?lb (bn_data b)"
    using l by (intro nth_equalityI) auto
  with add_bytes [of ?lb d0 "bn_data b"] f l d0(1)
  have d: "length d = 256" "drop ?lb d = drop ?lb d0"
    "le_nat (take ?lb d) + 256 ^ ?lb * of_bool c = le_nat (take ?lb d0) + bn_val b"
    by (auto simp: bn_val_def)
  have "\<exists>c' d'. add_carry add_fuel m (word_of_nat ?lb) c d = Some (c', d') \<and> length d' = length d \<and>
     le_nat (take m d') + 256 ^ m * of_bool c' = le_nat (take m d) + 256 ^ unat (word_of_nat ?lb :: u8) * of_bool c"
    by (rule add_carry_correct) (use l d m_def in \<open>auto simp: add_fuel_def\<close>)
  then obtain c' d' where cd: "add_carry add_fuel m (word_of_nat ?lb) c d = Some (c', d')"
    "length d' = 256" "le_nat (take m d') + 256 ^ m * of_bool c' = le_nat (take m d) + 256 ^ ?lb * of_bool c"
    using l d by auto
  have split: "le_nat (take m xs) = le_nat (take ?lb xs) + 256 ^ ?lb * le_nat (drop ?lb (take m xs))"
    if "length xs = 256" for xs
    using le_nat_take_drop [of ?lb "take m xs"] that l by (simp add: m_def min_def)
  have "le_nat (take m d) + 256 ^ ?lb * of_bool c = bn_val a + bn_val b"
    using split [OF d(1)] split [OF d0(1)] d d0 by (simp add: drop_take)
  with cd have v: "le_nat (take m d') + 256 ^ m * of_bool c' = bn_val a + bn_val b" by simp
  have body: "BigNumberEqualsAdditionByBigInt bld a b =
    (let r = a\<lparr>bn_data := d', bn_length := m\<rparr> in
     if c' then bind_result (c_assert bld (Suc m < MAX_BIG_NUMBER)) (\<lambda>_.
         if m < MAX_BIG_NUMBER then Ok (r\<lparr>bn_data := d'[m := 1], bn_length := Suc m\<rparr>)
         else Fault OutOfBounds) else Ok r)"
    using f cd(1) l
    by (auto simp: BigNumberEqualsAdditionByBigInt_def Let_def d0_def m_def max_def split: if_splits)
  show ?thesis
  proof (cases c')
    case True
    have "m < 255" by (rule length_less_256 [OF _ small]) (use v True in simp)
    then show ?thesis using True body v cd(2) l small
      by (simp add: bn_wf_def bn_val_def MAX_BIG_NUMBER_def bn_val_push)
  next
    case False
    then show ?thesis using body v cd(2) l
      by (simp add: bn_wf_def bn_val_def MAX_BIG_NUMBER_def)
  qed
qed


lemma BigNumberEqualsMultiplicationByUInt8_spec:
  assumes a: "bn_wf a" "0 < bn_length a" and small: "bn_val a * unat b < bn_limit"
  shows "\<exists>r. BigNumberEqualsMultiplicationByUInt8 bld a b = Ok r \<and> bn_wf r \<and> 0 < bn_length r \<and>
    bn_val r = bn_val a * unat b \<and> (bn_normal a \<longrightarrow> bn_normal r)"
proof -
  let ?m = "bn_length a"
  have l: "length (bn_data a) = 256" "?m < 256" "bn_data a \<noteq> []"
    using a by (auto simp: bn_wf_def MAX_BIG_NUMBER_def)
  consider "b = 0" | "b \<noteq> 0" "?m = 1" "bn_data a ! 0 = 0" | "b \<noteq> 0" "\<not> (?m = 1 \<and> bn_data a ! 0 = 0)"
    by blast
  then show ?thesis
  proof cases
    case 1
    then show ?thesis using l
      by (cases "bn_data a") (auto simp: BigNumberEqualsMultiplicationByUInt8_def bn_wf_def bn_val_def
          bn_normal_def MAX_BIG_NUMBER_def)
  next
    case 2
    then show ?thesis using l
      by (cases "bn_data a") (auto simp: BigNumberEqualsMultiplicationByUInt8_def bn_wf_def bn_val_def
          bn_normal_def MAX_BIG_NUMBER_def)
  next
    case 3
    obtain c d where f: "fold (mul_byte b) [0..<?m] (0, bn_data a) = (c, d)" by fastforce
    from mul_bytes [of ?m "bn_data a" b] f l
    have d: "length d = 256" "unat c < 256"
      "le_nat (take ?m d) + 256 ^ ?m * unat c = bn_val a * unat b" by (auto simp: bn_val_def)
    have uc: "unat (ucast c :: u8) = unat c"
      using d(2) by (simp add: unsigned_ucast_eq take_bit_eq_mod)
    have body: "BigNumberEqualsMultiplicationByUInt8 bld a b =
      (if c \<noteq> 0 then bind_result (c_assert bld (Suc ?m < MAX_BIG_NUMBER))
         (\<lambda>_. Ok (a\<lparr>bn_data := d[?m := ucast c], bn_length := Suc ?m\<rparr>))
       else Ok (a\<lparr>bn_data := d\<rparr>))"
      using f l 3 by (auto simp: BigNumberEqualsMultiplicationByUInt8_def)
    have b1: "1 \<le> unat b" using 3(1) by (simp add: Suc_le_eq unat_gt_0)
    show ?thesis
    proof (cases "c = 0")
      case True
      have "bn_normal a \<Longrightarrow> bn_normal (a\<lparr>bn_data := d\<rparr>)"
      proof -
        have "bn_val (a\<lparr>bn_data := d\<rparr>) = bn_val a * unat b" using d(3) True by (simp add: bn_val_def)
        moreover have "bn_val a \<le> bn_val a * unat b" using b1 by simp
        moreover assume "bn_normal a"
        ultimately show ?thesis unfolding bn_normal_def by (auto intro: order_trans)
      qed
      then show ?thesis using body d True a by (simp add: bn_wf_def bn_val_def MAX_BIG_NUMBER_def)
    next
      case False
      then have "1 \<le> unat c" by (simp add: Suc_le_eq unat_gt_0)
      then have "256 ^ ?m * 1 \<le> 256 ^ ?m * unat c" by (rule mult_le_mono2)
      then have ge: "256 ^ ?m \<le> bn_val a * unat b" using d(3) by linarith
      then have "?m < 255" by (rule length_less_256 [OF _ small])
      then show ?thesis using body False d l ge
        by (simp add: bn_wf_def bn_val_def bn_normal_def MAX_BIG_NUMBER_def bn_val_push uc)
    qed
  qed
qed

lemma BigNumberNormalise_spec:
  assumes "bn_wf a" "0 < bn_length a"
  shows "bn_wf (BigNumberNormalise a)" "bn_val (BigNumberNormalise a) = bn_val a"
    "0 < bn_length (BigNumberNormalise a)" "bn_normal (BigNumberNormalise a)"
proof -
  let ?n = "normal_length (bn_data a) (bn_length a)"
  have l: "length (bn_data a) = 256" "bn_length a < 256" "?n \<le> bn_length a"
    using assms by (simp_all add: bn_wf_def MAX_BIG_NUMBER_def normal_length_le)
  show "bn_wf (BigNumberNormalise a)" "bn_val (BigNumberNormalise a) = bn_val a"
    "0 < bn_length (BigNumberNormalise a)"
    using l assms by (simp_all add: BigNumberNormalise_def bn_wf_def bn_val_def le_nat_normal
        normal_length_pos MAX_BIG_NUMBER_def)
  show "bn_normal (BigNumberNormalise a)"
  proof (cases "?n > 1")
    case True
    then obtain k where k: "?n = Suc k" by (cases ?n) auto
    have "bn_data a ! k \<noteq> 0" using normal_length_top [OF True] k by simp
    then have "1 \<le> unat (bn_data a ! k)" by (simp add: Suc_le_eq unat_gt_0)
    then have "256 ^ k * 1 \<le> 256 ^ k * unat (bn_data a ! k)" by (rule mult_le_mono2)
    moreover have "k < length (bn_data a)" using l k by linarith
    ultimately have "256 ^ k \<le> le_nat (take (Suc k) (bn_data a))"
      unfolding le_nat_take_Suc [OF \<open>k < length (bn_data a)\<close>] by linarith
    then show ?thesis by (simp add: bn_normal_def BigNumberNormalise_def bn_val_def k)
  qed (simp add: bn_normal_def BigNumberNormalise_def)
qed

lemma sub8_loop_correct:
  assumes "len < 256" "length d = 256" "unat x < len" "len \<le> n + unat x"
    "unat carry \<le> le_nat (drop (unat x) (take len d))"
  shows "\<exists>d'. sub8_loop n carry x d = Some d' \<and> length d' = 256 \<and>
    le_nat (take len d') + 256 ^ unat x * unat carry = le_nat (take len d)"
  using assms
proof (induction n arbitrary: carry x d)
  case (Suc n)
  let ?x = "unat x"
  have upd: "le_nat (take len (d[?x := v])) + 256 ^ ?x * unat (d ! ?x) = le_nat (take len d) + 256 ^ ?x * unat v" for v
    using le_nat_update [of ?x "take len d" v] Suc.prems by (simp add: take_update_swap)
  show ?case
  proof (cases "d ! ?x < carry")
    case False
    then have "unat (d ! ?x - carry) + unat carry = unat (d ! ?x)"
      by (simp add: unat_sub not_less word_le_nat_alt)
    then have "256 ^ ?x * unat (d ! ?x) = 256 ^ ?x * unat (d ! ?x - carry) + 256 ^ ?x * unat carry"
      by (metis distrib_left)
    with upd [of "d ! ?x - carry"] show ?thesis using False Suc.prems by simp
  next
    case True
    let ?v = "255 - carry + d ! ?x + 1"
    have "unat carry < 256" "unat (d ! ?x) < unat carry"
      using True unat_u8_less [of carry] by (simp_all add: word_less_nat_alt)
    moreover have "?v = (255 + 1) + (d ! ?x - carry)"
      by (simp only: diff_conv_add_uminus ac_simps)
    moreover have "(255 :: u8) + 1 = 0" by simp
    ultimately have v: "unat ?v + unat carry = 256 + unat (d ! ?x)"
      by (simp only: add_0) (use \<open>unat carry < 256\<close> in \<open>simp add: unat_sub_if' del: unat_u8_less\<close>)
    have dr: "le_nat (drop ?x (take len d)) = unat (d ! ?x) + 256 * le_nat (drop (Suc ?x) (take len d))"
      using le_nat_drop_nth [of ?x "take len d"] Suc.prems by simp
    have hi: "1 \<le> le_nat (drop (Suc ?x) (take len d))"
      using dr Suc.prems(5) \<open>unat (d ! ?x) < unat carry\<close> by (cases "le_nat (drop (Suc ?x) (take len d))") auto
    then have "Suc ?x < len" by (cases "Suc ?x < len") auto
    then have x: "unat (x + 1) = Suc ?x" using Suc.prems(1) by (simp add: unat_word_ariths)
    have "unat (1 :: u8) \<le> le_nat (drop (unat (x + 1)) (take len (d[?x := ?v])))"
      unfolding x drop_take using hi by (simp add: drop_take)
    from Suc.IH [OF Suc.prems(1) _ _ _ this] Suc.prems x \<open>Suc ?x < len\<close>
    obtain d' where d': "sub8_loop n 1 (x + 1) (d[?x := ?v]) = Some d'" "length d' = 256"
      "le_nat (take len d') + 256 ^ Suc ?x = le_nat (take len (d[?x := ?v]))" by auto
    have "256 ^ ?x * unat ?v + 256 ^ ?x * unat carry = 256 ^ Suc ?x + 256 ^ ?x * unat (d ! ?x)"
      using arg_cong [OF v, of "(*) (256 ^ ?x)"] by (simp add: distrib_left)
    then show ?thesis using d' upd [of ?v] True by simp
  qed
qed simp

lemma BigNumberEqualsSubtractionByUInt8_spec:
  assumes "bn_wf a" "0 < bn_length a" "unat b \<le> bn_val a"
  shows "\<exists>r. BigNumberEqualsSubtractionByUInt8 a b = Ok r \<and> bn_wf r \<and> 0 < bn_length r \<and>
    bn_val r = bn_val a - unat b \<and> bn_normal r"
proof -
  obtain d' where d': "sub8_loop sub8_fuel b 0 (bn_data a) = Some d'" "length d' = 256"
    "le_nat (take (bn_length a) d') + unat b = bn_val a"
    using sub8_loop_correct [of "bn_length a" "bn_data a" 0 sub8_fuel b] assms
    by (auto simp: bn_wf_def MAX_BIG_NUMBER_def sub8_fuel_def bn_val_def)
  let ?r = "a\<lparr>bn_data := d'\<rparr>"
  have "bn_wf ?r" "0 < bn_length ?r" "bn_val ?r = bn_val a - unat b"
    using d' assms by (simp_all add: bn_wf_def bn_val_def MAX_BIG_NUMBER_def)
  with BigNumberNormalise_spec [of ?r] d' show ?thesis
    by (simp add: BigNumberEqualsSubtractionByUInt8_def)
qed


lemma BigNumberEqualsDivisionBy58_spec:
  assumes "bn_wf a" "0 < bn_length a" "bn_normal a" "58 \<le> bn_val a" "bn_length a \<le> length ans"
  shows "\<exists>r. BigNumberEqualsDivisionBy58 a ans = Ok r \<and> bn_wf r \<and> 0 < bn_length r \<and>
    bn_val r = bn_val a div 58 \<and> bn_normal r"
proof -
  let ?d = "bn_data a" and ?m = "bn_length a"
  define q where "q = div58_loop ?d ?m 0 ans"
  have l: "length ?d = 256" "?m < 256" using assms by (simp_all add: bn_wf_def MAX_BIG_NUMBER_def)
  have q: "length q = length ans" "le_nat (take ?m q) = bn_val a div 58"
    using div58_loop_correct [of 0 ?m ?d ans] l assms by (simp_all add: q_def bn_val_def)
  obtain k where k: "?m = Suc k" using assms(2) by (cases ?m) auto
  have nz: "\<not> (?m = 1 \<and> ?d ! 0 = 0)"
    using assms(4) l by (cases ?d) (auto simp: bn_val_def)
  define len where "len = (if q ! k = 0 then k else Suc k)"
  have body: "BigNumberEqualsDivisionBy58 a ans =
      Ok (a\<lparr>bn_data := splice ?d 0 (take len q), bn_length := len\<rparr>)"
    using nz assms k by (auto simp: BigNumberEqualsDivisionBy58_def Let_def q_def len_def)
  have kq: "k < length q" using q(1) assms(5) k by simp
  have top: "le_nat (take (Suc k) q) = le_nat (take k q) + 256 ^ k * unat (q ! k)"
    by (rule le_nat_take_Suc [OF kq])
  have v: "le_nat (take len q) = bn_val a div 58"
    using q(2) top by (auto simp: len_def k)
  have pos: "0 < bn_val a div 58" using assms(4) by simp
  then have "0 < len" using v by (cases len) auto
  then have len: "0 < len" "len \<le> Suc k" "len \<le> 256" using l k by (auto simp: len_def)
  let ?r = "a\<lparr>bn_data := splice ?d 0 (take len q), bn_length := len\<rparr>"
  have rv: "bn_val ?r = bn_val a div 58"
    using v len kq l by (simp add: bn_val_def splice_def min_def)
  have "bn_normal ?r"
  proof (cases "q ! k = 0")
    case True
    then have lk: "len = k" by (simp add: len_def)
    show ?thesis
    proof (cases k)
      case (Suc j)
      have "256 ^ Suc j \<le> bn_val a" using assms(3) k Suc by (auto simp: bn_normal_def)
      then have "256 ^ Suc j div 58 \<le> bn_val a div 58" by (rule div_le_mono)
      moreover have "256 ^ j \<le> 256 ^ Suc j div (58 :: nat)" by (simp add: less_eq_div_iff_mult_less_eq)
      ultimately show ?thesis using rv lk Suc by (simp add: bn_normal_def)
    qed (simp add: bn_normal_def lk)
  next
    case False
    then have "1 \<le> unat (q ! k)" by (simp add: Suc_le_eq unat_gt_0)
    then have "256 ^ k * 1 \<le> 256 ^ k * unat (q ! k)" by (rule mult_le_mono2)
    then have "256 ^ k \<le> bn_val a div 58" using top q(2) unfolding k by linarith
    then show ?thesis using rv False by (simp add: bn_normal_def len_def)
  qed
  moreover have "bn_wf ?r" using assms l len kq k
    by (simp add: bn_wf_def MAX_BIG_NUMBER_def length_splice)
  ultimately show ?thesis using body rv len by simp
qed

lemma BigNumberModuloWith58_spec:
  assumes "bn_wf a" "0 < bn_length a"
  shows "\<exists>m. BigNumberModuloWith58 a = Ok m \<and> unat m = bn_val a mod 58"
proof -
  let ?r = "mod58_loop (bn_data a) (bn_length a) 0"
  have "unat ?r = bn_val a mod 58"
    using mod58_loop_correct [of 0 "bn_length a" "bn_data a"] assms
    by (simp add: bn_wf_def MAX_BIG_NUMBER_def bn_val_def)
  moreover have "bn_val a mod 58 < 256" by (rule less_trans [OF mod_less_divisor]) simp_all
  ultimately have "unat (ucast ?r :: u8) = bn_val a mod 58"
    by (simp add: unsigned_ucast_eq take_bit_eq_mod)
  then show ?thesis using assms by (simp add: BigNumberModuloWith58_def)
qed

lemma BigNumberCompareTo58_spec:
  assumes "bn_wf a" "0 < bn_length a" "bn_normal a"
  shows "BigNumberCompareTo58 a = CB_COMPARE_LESS_THAN \<longleftrightarrow> bn_val a < 58"
proof (cases "bn_length a > 1")
  case True
  then have "256 ^ 1 \<le> (256 :: nat) ^ (bn_length a - 1)" by (intro power_increasing) auto
  with True assms show ?thesis by (auto simp: BigNumberCompareTo58_def bn_normal_def)
next
  case False
  then have "bn_length a = 1" using assms(2) by simp
  then have "bn_val a = unat (bn_data a ! 0)"
    using assms(1) by (cases "bn_data a") (auto simp: bn_val_def bn_wf_def MAX_BIG_NUMBER_def)
  with False show ?thesis by (auto simp: BigNumberCompareTo58_def word_less_nat_alt)
qed


lemma BigNumber_spec:
  assumes "length src < 256"
  shows "\<exists>a. BigNumber bld (Some src) (length src) = Ok a \<and> bn_wf a \<and> bn_length a = length src \<and>
    bn_val a = le_nat src \<and> take (length src) (bn_data a) = src"
  using assms by (simp add: BigNumber_def bn_wf_def bn_val_def MAX_BIG_NUMBER_def splice_def)

lemma pow_loop_spec:
  assumes "bn_wf a" "0 < bn_length a" "bn_normal a" "bn_val a * unat b ^ n < bn_limit"
  shows "\<exists>r. pow_loop bld n b a = Ok r \<and> bn_wf r \<and> 0 < bn_length r \<and> bn_normal r \<and>
    bn_val r = bn_val a * unat b ^ n"
  using assms
proof (induction n arbitrary: a)
  case (Suc n)
  have "bn_val a * unat b < bn_limit"
  proof (cases "unat b = 0")
    case False
    then have "1 \<le> unat b ^ n" by (simp add: Suc_le_eq)
    then have "bn_val a * unat b * 1 \<le> bn_val a * unat b * unat b ^ n" by (rule mult_le_mono2)
    then have "bn_val a * unat b \<le> bn_val a * unat b ^ Suc n"
      by (simp only: power_Suc mult.assoc [symmetric] mult_1_right)
    with Suc.prems(4) show ?thesis by linarith
  qed (simp add: bn_limit_def)
  from BigNumberEqualsMultiplicationByUInt8_spec [OF Suc.prems(1,2) this, of bld] Suc.prems(3)
  obtain r where r: "BigNumberEqualsMultiplicationByUInt8 bld a b = Ok r" "bn_wf r" "0 < bn_length r"
    "bn_val r = bn_val a * unat b" "bn_normal r" by auto
  from Suc.IH [OF r(2,3,5)] Suc.prems(4) r(1,4) show ?case by (simp add: ac_simps)
qed simp

lemma BigNumberFromPowUInt8_spec:
  assumes "bn_wf bi" "unat a ^ unat b < bn_limit"
  shows "\<exists>r. BigNumberFromPowUInt8 bld bi a b = Ok r \<and> bn_wf r \<and> 0 < bn_length r \<and> bn_normal r \<and>
    bn_val r = unat a ^ unat b"
proof -
  let ?one = "bi\<lparr>bn_data := (bn_data bi)[0 := 1], bn_length := 1\<rparr>"
  have "bn_wf ?one" "bn_val ?one = 1" "bn_normal ?one" using assms(1)
    by (cases "bn_data bi"; simp add: bn_wf_def bn_val_def bn_normal_def MAX_BIG_NUMBER_def)+
  from pow_loop_spec [OF this(1) _ this(3), of a "unat b" bld] this(2) assms(2) show ?thesis
    by (simp add: BigNumberFromPowUInt8_def)
qed

lemma compare_bytes_spec:
  assumes "n \<le> length a" "n \<le> length b"
  shows "compare_bytes a b n =
    (if le_nat (take n a) < le_nat (take n b) then CB_COMPARE_LESS_THAN
     else if le_nat (take n a) = le_nat (take n b) then CB_COMPARE_EQUAL
     else CB_COMPARE_MORE_THAN)"
  using assms
proof (induction n)
  case (Suc n)
  let ?A = "le_nat (take n a)" and ?B = "le_nat (take n b)"
  have lt: "?A < 256 ^ n" "?B < 256 ^ n"
    using le_nat_less [of "take n a"] le_nat_less [of "take n b"] Suc.prems by simp_all
  have sep: "x + 256 ^ n * u < y + 256 ^ n * v" if "u < v" "x < 256 ^ n" for x y u v :: nat
  proof -
    have "256 ^ n * Suc u \<le> 256 ^ n * v" using that(1) by (intro mult_le_mono2) simp
    then show ?thesis using that(2) by simp
  qed
  consider "a ! n < b ! n" | "b ! n < a ! n" | "a ! n = b ! n" by fastforce
  then show ?case
  proof cases
    case 1
    with sep [OF _ lt(1), of "unat (a ! n)" "unat (b ! n)" ?B] Suc.prems show ?thesis
      by (simp add: le_nat_take_Suc word_less_nat_alt)
  next
    case 2
    with sep [OF _ lt(2), of "unat (b ! n)" "unat (a ! n)" ?A] Suc.prems show ?thesis
      by (simp add: le_nat_take_Suc word_less_nat_alt)
  next
    case 3
    with Suc show ?thesis by (simp add: le_nat_take_Suc)
  qed
qed simp

lemma bn_length_less_val:
  assumes "bn_wf a" "bn_wf b" "bn_normal b" "bn_length a < bn_length b" "0 < bn_length a"
  shows "bn_val a < bn_val b"
proof -
  have "(256 :: nat) ^ bn_length a \<le> 256 ^ (bn_length b - 1)" using assms(4) by (intro power_increasing) auto
  with bn_val_less [OF assms(1)] have "bn_val a < 256 ^ (bn_length b - 1)" by linarith
  with assms(3-5) show ?thesis by (auto simp: bn_normal_def)
qed

lemma BigNumberCompareToBigInt_spec:
  assumes "bn_wf a" "0 < bn_length a" "bn_normal a" "bn_wf b" "0 < bn_length b" "bn_normal b"
  shows "BigNumberCompareToBigInt a b =
    (if bn_val a < bn_val b then CB_COMPARE_LESS_THAN
     else if bn_val a = bn_val b then CB_COMPARE_EQUAL else CB_COMPARE_MORE_THAN)"
proof -
  consider "bn_length a < bn_length b" | "bn_length b < bn_length a" | "bn_length a = bn_length b" by linarith
  then show ?thesis
  proof cases
    case 1 with bn_length_less_val [OF assms(1,4,6) 1 assms(2)] show ?thesis
      by (simp add: BigNumberCompareToBigInt_def)
  next
    case 2 with bn_length_less_val [OF assms(4,1,3) 2 assms(5)] show ?thesis
      by (simp add: BigNumberCompareToBigInt_def)
  next
    case 3 with assms(1,4) show ?thesis
      by (simp add: BigNumberCompareToBigInt_def compare_bytes_spec bn_val_def bn_wf_def)
  qed
qed

lemma borrow_byte:
  fixes t :: u16 and x y :: u8
  assumes "unat t = unat y + of_bool c"
  shows "unat (x - ucast t) + (unat y + of_bool c) = unat x + 256 * of_bool (ucast x < t)"
proof (cases "unat t = 256")
  case True
  then have "ucast t = (0 :: u8)"
    by (simp add: word_unat_eq_iff unsigned_ucast_eq take_bit_eq_mod)
  moreover have "unat (ucast x :: u16) < unat t" using True unat_u8_less [of x] by simp
  ultimately show ?thesis using True assms by (simp add: word_less_nat_alt)
next
  case False
  have "of_bool c \<le> (1 :: nat)" by simp
  then have lt: "unat t < 256" using False assms unat_u8_less [of y] by linarith
  then have u: "unat (ucast t :: u8) = unat t"
    by (simp add: unsigned_ucast_eq take_bit_eq_mod)
  show ?thesis unfolding assms [symmetric] word_less_nat_alt unat_ucast_16 unat_sub_if' u
    using lt by simp
qed

lemma sub_bytes:
  assumes "n \<le> length a" "n \<le> length b"
  shows "case fold (sub_byte b) [0..<n] (False, a) of (c, d) \<Rightarrow>
     length d = length a \<and> drop n d = drop n a \<and>
     le_nat (take n d) + le_nat (take n b) = le_nat (take n a) + 256 ^ n * of_bool c"
  using assms
proof (induction n)
  case (Suc n)
  obtain c d where f: "fold (sub_byte b) [0..<n] (False, a) = (c, d)" by fastforce
  with Suc have ih: "length d = length a" "drop n d = drop n a"
    "le_nat (take n d) + le_nat (take n b) = le_nat (take n a) + 256 ^ n * of_bool c" by auto
  have dn: "d ! n = a ! n" using ih(2) Suc.prems ih(1)
    by (metis Suc_le_eq hd_drop_conv_nth)
  let ?t = "of_bool c + ucast (b ! n) :: u16"
  let ?v = "d ! n - ucast ?t" let ?c = "ucast (d ! n) < ?t"
  have t: "unat ?t = unat (b ! n) + of_bool c"
  proof -
    have "of_bool c \<le> (1 :: nat)" by simp
    then have "unat (b ! n) + of_bool c < 65536" using unat_u8_le [of "b ! n"] by linarith
    then show ?thesis by (cases c) (simp_all add: unat_word_ariths)
  qed
  have s: "unat ?v + (unat (b ! n) + of_bool c) = unat (a ! n) + 256 * of_bool ?c"
    unfolding dn by (rule borrow_byte [OF t])
  have "le_nat (take (Suc n) (d[n := ?v])) + le_nat (take (Suc n) b)
      = (le_nat (take n d) + le_nat (take n b)) + 256 ^ n * (unat ?v + unat (b ! n))"
    using Suc.prems ih(1) by (simp add: take_Suc_update le_nat_append le_nat_take_Suc algebra_simps)
  also have "\<dots> = le_nat (take n a) + 256 ^ n * (unat ?v + (unat (b ! n) + of_bool c))"
    unfolding ih(3) by (simp add: algebra_simps)
  also have "\<dots> = le_nat (take (Suc n) a) + 256 ^ Suc n * of_bool ?c"
    using Suc.prems unfolding s by (simp add: le_nat_take_Suc algebra_simps)
  finally have "le_nat (take (Suc n) (d[n := ?v])) + le_nat (take (Suc n) b) =
    le_nat (take (Suc n) a) + 256 ^ Suc n * of_bool ?c" .
  moreover have "drop (Suc n) (d[n := ?v]) = drop (Suc n) a"
    using arg_cong [OF ih(2), of tl] by (simp add: drop_update_Suc flip: drop_Suc_tl)
  moreover have "fold (sub_byte b) [0..<Suc n] (False, a) = (?c, d[n := ?v])"
    by (simp add: f sub_byte_def [of b n] Let_def)
  ultimately show ?case using ih(1) by simp
qed simp


lemma dec_byte: "unat (v - 1 :: u8) + 1 = unat v + 256 * of_bool (v = 0)"
  using borrow_byte [of 1 0 True v] by (simp add: word_less_nat_alt word_unat_eq_iff)

text \<open>
  Subtraction of a big number, exactly. For \<open>b \<le> a\<close> the result is normalised and is
  \<open>a - b\<close>, except when the bytes of \<open>b\<close>'s length borrow and the byte above them is zero: the code
  takes the borrow from that one byte only, which wraps to 255, and the result is too big by
  \<open>256 ^ (length b + 1)\<close>.
\<close>

theorem BigNumberEqualsSubtractionByBigInt_exact:
  assumes "bn_wf a" "bn_wf b" "0 < bn_length a" "bn_length b \<le> bn_length a" "bn_val b \<le> bn_val a"
  shows "\<exists>r. BigNumberEqualsSubtractionByBigInt a b = Ok r \<and> bn_wf r \<and> bn_normal r \<and> bn_val r + bn_val b =
    bn_val a + (if le_nat (take (bn_length b) (bn_data a)) < bn_val b \<and> bn_data a ! bn_length b = 0
                then 256 ^ Suc (bn_length b) else 0)"
proof -
  let ?A = "bn_data a" and ?m = "bn_length a" and ?n = "bn_length b"
  have l: "length ?A = 256" "?m < 256" "length (bn_data b) = 256" "?n < 256"
    using assms by (simp_all add: bn_wf_def MAX_BIG_NUMBER_def)
  obtain c d where f: "fold (sub_byte (bn_data b)) [0..<?n] (False, ?A) = (c, d)" by fastforce
  with sub_bytes [of ?n ?A "bn_data b"] l
  have d: "length d = 256" "drop ?n d = drop ?n ?A"
    "le_nat (take ?n d) + bn_val b = le_nat (take ?n ?A) + 256 ^ ?n * of_bool c" by (auto simp: bn_val_def)
  have bounds: "le_nat (take ?n d) < 256 ^ ?n" "le_nat (take ?n ?A) < 256 ^ ?n"
    using le_nat_less [of "take ?n d"] le_nat_less [of "take ?n ?A"] l d by (simp_all add: min_def)
  have c: "c \<longleftrightarrow> le_nat (take ?n ?A) < bn_val b" using d(3) bounds by (cases c) simp_all
  have split: "le_nat (take ?m xs) = le_nat (take ?n xs) + 256 ^ ?n * le_nat (take (?m - ?n) (drop ?n xs))"
    if "length xs = 256" for xs
    using le_nat_take_drop [of ?n "take ?m xs"] that l assms(4) by (simp add: min_def drop_take)
  have dv: "le_nat (take ?m d) + bn_val b = bn_val a + 256 ^ ?n * of_bool c"
    using split [OF d(1)] split [OF l(1)] d by (simp add: bn_val_def)
  define d' where "d' = (if c then d[?n := d ! ?n - 1] else d)"
  have r: "BigNumberEqualsSubtractionByBigInt a b = Ok (BigNumberNormalise (a\<lparr>bn_data := d'\<rparr>))"
    using f l by (simp add: BigNumberEqualsSubtractionByBigInt_def d'_def)
  have d'v: "le_nat (take ?m d') + bn_val b = bn_val a + (if c \<and> ?A ! ?n = 0 then 256 ^ Suc ?n else 0)"
  proof (cases c)
    case True
    have "?n < ?m" using True c assms(4,5) by (cases "?n = ?m") (auto simp: bn_val_def)
    have top: "d ! ?n = ?A ! ?n" using arg_cong [OF d(2), of hd] d(1) l by (simp add: hd_drop_conv_nth)
    have "le_nat ((take ?m d)[?n := d ! ?n - 1]) + 256 ^ ?n * unat (take ?m d ! ?n) = le_nat (take ?m d) + 256 ^ ?n * unat (d ! ?n - 1)"
      using \<open>?n < ?m\<close> d(1) l by (intro le_nat_update) simp
    then have "le_nat (take ?m d') + 256 ^ ?n * (unat (d ! ?n)) = le_nat (take ?m d) + 256 ^ ?n * unat (d ! ?n - 1)"
      using True \<open>?n < ?m\<close> by (simp add: d'_def take_update_swap)
    moreover have "256 ^ ?n * (unat (d ! ?n - 1) + 1) = 256 ^ ?n * (unat (d ! ?n) + 256 * of_bool (d ! ?n = 0))"
      by (simp only: dec_byte)
    ultimately have "le_nat (take ?m d') + 256 ^ ?n = le_nat (take ?m d) + 256 ^ ?n * (256 * of_bool (d ! ?n = 0))"
      by (simp only: distrib_left mult_1_right)
    with dv True top show ?thesis by auto
  qed (use dv d'_def in simp)
  let ?r = "a\<lparr>bn_data := d'\<rparr>"
  have "bn_wf ?r" "0 < bn_length ?r" using assms d(1)
    by (simp_all add: bn_wf_def MAX_BIG_NUMBER_def d'_def)
  from BigNumberNormalise_spec [OF this] r d'v show ?thesis by (simp add: bn_val_def c)
qed

theorem BigNumberEqualsSubtractionByBigInt_witness:
  "\<exists>r. BigNumberEqualsSubtractionByBigInt \<lparr>bn_data = [0, 0, 1] @ replicate 253 0, bn_length = 3\<rparr>
        \<lparr>bn_data = 1 # replicate 255 0, bn_length = 1\<rparr> = Ok r \<and> bn_val r = 65535 + 65536"
proof -
  let ?a = "\<lparr>bn_data = [0, 0, 1] @ replicate 253 0, bn_length = 3\<rparr> :: big_number"
  let ?b = "\<lparr>bn_data = 1 # replicate 255 0, bn_length = 1\<rparr> :: big_number"
  have "bn_wf ?a" "bn_wf ?b" "bn_val ?a = 65536" "bn_val ?b = 1"
    by (simp_all add: bn_wf_def bn_val_def MAX_BIG_NUMBER_def)
  with BigNumberEqualsSubtractionByBigInt_exact [of ?a ?b] show ?thesis by auto
qed

section \<open>The contract of the encoder\<close>

text \<open>
  What CBEncodeBase58 needs of its numbers: a comparison with 58 that is right on normalised
  numbers and never stops early, and a step that yields the remainder by 58 and a normalised
  quotient. \<open>extract_digits\<close> repeats the step until the comparison says less; \<open>base58_source\<close> gives its result.
\<close>

fun extract_digits :: "('n \<Rightarrow> bool) \<Rightarrow> ('n \<Rightarrow> (u8 \<times> 'n) result) \<Rightarrow> nat \<Rightarrow> 'n \<Rightarrow> (u8 list \<times> 'n) result" where
  "extract_digits lt step 0 n = Fault Diverges"
| "extract_digits lt step (Suc k) n =
     (if lt n then Ok ([], n)
      else bind_result (step n) (\<lambda>(m, n'). bind_result (extract_digits lt step k n') (\<lambda>(ms, n''). Ok (m # ms, n''))))"

fun digits58 :: "nat \<Rightarrow> nat list" where
  "digits58 n = (if n < 58 then [n] else n mod 58 # digits58 (n div 58))"

declare digits58.simps [simp del]

locale base58_source =
  fixes ok normal :: "'n \<Rightarrow> bool" and val :: "'n \<Rightarrow> nat" and lt :: "'n \<Rightarrow> bool"
    and step :: "'n \<Rightarrow> (u8 \<times> 'n) result"
  assumes less_val: "ok n \<Longrightarrow> lt n \<Longrightarrow> val n < 58"
    and val_less: "ok n \<Longrightarrow> normal n \<Longrightarrow> val n < 58 \<Longrightarrow> lt n"
    and step_big: "ok n \<Longrightarrow> 58 \<le> val n \<Longrightarrow> \<exists>m n'. step n = Ok (m, n') \<and> unat m = val n mod 58 \<and>
      ok n' \<and> normal n' \<and> val n' = val n div 58"
begin

lemma extract_normal:
  assumes "ok n" "normal n \<or> 58 \<le> val n" "val n < 58 ^ Suc k"
  shows "\<exists>ms n'. extract_digits lt step (Suc k) n = Ok (ms, n') \<and> ok n' \<and> lt n' \<and>
    map unat ms @ [val n'] = digits58 (val n)"
  using assms
proof (induction k arbitrary: n)
  case 0
  then show ?case using val_less by (simp add: digits58.simps)
next
  case (Suc k)
  show ?case
  proof (cases "val n < 58")
    case True
    with Suc.prems val_less show ?thesis by (auto simp: digits58.simps)
  next
    case False
    with step_big [of n] Suc.prems(1) obtain m n' where st: "step n = Ok (m, n')"
      "unat m = val n mod 58" "ok n'" "normal n'" "val n' = val n div 58" by auto
    have "val n div 58 < 58 ^ Suc k"
      using Suc.prems(3) by (simp add: less_mult_imp_div_less mult.commute)
    with Suc.IH [of n'] st obtain ms n'' where
      "extract_digits lt step (Suc k) n' = Ok (ms, n'')" "ok n''" "lt n''"
      "map unat ms @ [val n''] = digits58 (val n div 58)" by auto
    moreover have "\<not> lt n" using less_val Suc.prems(1) False by auto
    ultimately show ?thesis using st False
      by (simp add: digits58.simps [of "val n"] del: extract_digits.simps(2)) (simp add: extract_digits.simps(2) [of _ _ "Suc k"] del: extract_digits.simps(2))
  qed
qed

end

definition next_digit :: "big_number \<Rightarrow> (u8 \<times> big_number) result" where
  "next_digit bi =
     bind_result (BigNumberModuloWith58 bi) (\<lambda>m.
     bind_result (BigNumberEqualsSubtractionByUInt8 bi m) (\<lambda>bi.
     bind_result (BigNumberEqualsDivisionBy58 bi (replicate MAX_BIG_NUMBER 0)) (\<lambda>bi. Ok (m, bi))))"

definition less58 :: "big_number \<Rightarrow> bool" where
  "less58 bi \<longleftrightarrow> BigNumberCompareTo58 bi = CB_COMPARE_LESS_THAN"

definition bn_ok :: "big_number \<Rightarrow> bool" where
  "bn_ok bi \<longleftrightarrow> bn_wf bi \<and> 0 < bn_length bi"

lemma next_digit_spec:
  assumes "bn_ok n" "58 \<le> bn_val n"
  shows "\<exists>m n'. next_digit n = Ok (m, n') \<and> unat m = bn_val n mod 58 \<and> bn_ok n' \<and> bn_normal n' \<and>
    bn_val n' = bn_val n div 58"
proof -
  have wf: "bn_wf n" "0 < bn_length n" using assms(1) by (simp_all add: bn_ok_def)
  obtain m where m: "BigNumberModuloWith58 n = Ok m" "unat m = bn_val n mod 58"
    using BigNumberModuloWith58_spec [OF wf] by blast
  then have "unat m \<le> bn_val n" by simp
  from BigNumberEqualsSubtractionByUInt8_spec [OF wf this] obtain s where
    s: "BigNumberEqualsSubtractionByUInt8 n m = Ok s" "bn_wf s" "0 < bn_length s"
      "bn_val s = bn_val n - bn_val n mod 58" "bn_normal s" using m by auto
  have "58 \<le> bn_val s" "bn_val s div 58 = bn_val n div 58"
    unfolding s(4) minus_mod_eq_mult_div using assms(2) by simp_all
  moreover have "bn_length s \<le> length (replicate MAX_BIG_NUMBER (0 :: u8))"
    using s(2) by (simp add: bn_wf_def)
  ultimately show ?thesis
    using BigNumberEqualsDivisionBy58_spec [OF s(2,3,5)] m s(1) by (fastforce simp: next_digit_def bn_ok_def)
qed

interpretation bn58: base58_source bn_ok bn_normal bn_val less58 next_digit
proof
  show "less58 n \<Longrightarrow> bn_val n < 58" if "bn_ok n" for n
    using that by (cases "bn_data n")
      (auto simp: less58_def BigNumberCompareTo58_def bn_ok_def bn_val_def bn_wf_def word_less_nat_alt
         MAX_BIG_NUMBER_def take_Cons' split: if_splits)
  show "less58 n" if "bn_ok n" "bn_normal n" "bn_val n < 58" for n
    using BigNumberCompareTo58_spec [of n] that by (simp add: less58_def bn_ok_def)
qed (rule next_digit_spec)

end
