(* ===== verification/Base58.thy ===== *)
theory Base58
  imports BigNumber
begin

text \<open>
  The Base58 coder of src/src/Base58.cpp. Strings are the bytes before their terminating NUL;
  an output buffer is the list of the bytes the caller owns, a write outside it is the fault
  \<open>OutOfBounds\<close>, and the functions return the buffer after the call. \<open>char\<close> is signed.

  The reference is positional notation: \<open>digits58\<close> and \<open>value58\<close>.
\<close>

section \<open>The code\<close>

definition cstr :: "string \<Rightarrow> bytes" where
  "cstr s = map of_char s"

definition base58Characters :: bytes where
  "base58Characters = cstr ''123456789ABCDEFGHJKLMNPQRSTUVWXYZabcdefghijkmnopqrstuvwxyz'' @ [0]"

text \<open>The digit of a character: \<open>alphaIndex\<close>, an 8-bit value, for any byte but '1' (49).\<close>

definition alphaIndex :: "u8 \<Rightarrow> u8" where
  "alphaIndex c =
     (if c <s 58 then c - 49
      else if c <s 73 then c - 56
      else if c <s 79 then c - 57
      else if c <s 91 then c - 58
      else if c <s 108 then c - 64
      else c - 65)"

definition decode_char :: "build \<Rightarrow> bytes \<Rightarrow> nat \<Rightarrow> big_number \<times> big_number \<Rightarrow> (big_number \<times> big_number) result" where
  "decode_char bld s x st =
     (case st of (bi, bi2) \<Rightarrow>
        if s ! x \<noteq> 49
        then bind_result (BigNumberFromPowUInt8 bld bi2 58 (word_of_nat (length s - 1 - x))) (\<lambda>bi2.
             bind_result (BigNumberEqualsMultiplicationByUInt8 bld bi2 (alphaIndex (s ! x))) (\<lambda>bi2.
             bind_result (BigNumberEqualsAdditionByBigInt bld bi bi2) (\<lambda>bi. Ok (bi, bi2))))
        else Ok (bi, bi2))"

text \<open>The characters from the last one down: \<open>decode_chars bld s x\<close> handles those below \<open>x\<close>.\<close>

fun decode_chars :: "build \<Rightarrow> bytes \<Rightarrow> nat \<Rightarrow> big_number \<times> big_number \<Rightarrow> (big_number \<times> big_number) result" where
  "decode_chars bld s 0 st = Ok st"
| "decode_chars bld s (Suc x) st = bind_result (decode_char bld s x st) (decode_chars bld s x)"

text \<open>The leading '1's become zero bytes; the count runs in a \<open>uint8_t\<close> and wraps on a longer run.\<close>

definition append_zeros :: "build \<Rightarrow> bytes \<Rightarrow> big_number \<Rightarrow> big_number result" where
  "append_zeros bld s bi =
     (let zeros = length (takeWhile ((=) 49) s)
      in if zeros \<ge> 256 then Fault Diverges
         else if zeros > 0
         then let len = bn_length bi + zeros
              in bind_result (c_assert bld (len < MAX_BIG_NUMBER)) (\<lambda>_.
                   if len \<le> MAX_BIG_NUMBER
                   then Ok (bi\<lparr>bn_data := splice (bn_data bi) (len - zeros) (replicate zeros 0), bn_length := len\<rparr>)
                   else Fault OutOfBounds)
         else Ok bi)"

definition CBDecodeBase58 :: "build \<Rightarrow> big_number \<Rightarrow> bytes \<Rightarrow> big_number result" where
  "CBDecodeBase58 bld bi s =
     bind_result (BigNumber bld None 1) (\<lambda>bi2.
       if s = [] then Fault OutOfBounds
       else bind_result (decode_chars bld s (length s) (bi, bi2)) (\<lambda>(bi, bi2). append_zeros bld s bi))"

definition put :: "bytes \<Rightarrow> nat \<Rightarrow> u8 \<Rightarrow> bytes result" where
  "put out x c = (if x < length out then Ok (out[x := c]) else Fault OutOfBounds)"

fun zero_loop :: "bytes \<Rightarrow> nat \<Rightarrow> nat \<Rightarrow> bytes \<Rightarrow> (nat \<times> bytes) result" where
  "zero_loop d y x out =
     (if d ! y = 0
      then bind_result (put out x 49) (\<lambda>out.
             case y of 0 \<Rightarrow> Ok (x + 1, out) | Suc y' \<Rightarrow> zero_loop d y' (x + 1) out)
      else Ok (x, out))"

text \<open>
  The digit loop. It returns whether it ran to its end, and the position, number and buffer
  reached; each round has one unit of fuel.
\<close>

fun encode_loop :: "nat \<Rightarrow> nat \<Rightarrow> nat \<Rightarrow> big_number \<Rightarrow> bytes \<Rightarrow> (bool \<times> nat \<times> big_number \<times> bytes) result" where
  "encode_loop 0 maxStrLen x bi out = Fault Diverges"
| "encode_loop (Suc n) maxStrLen x bi out =
     (if BigNumberCompareTo58 bi = CB_COMPARE_LESS_THAN then Ok (True, x, bi, out)
      else bind_result (BigNumberModuloWith58 bi) (\<lambda>m.
             if bn_length bi < x + 3 \<and> x + 3 > maxStrLen then Ok (False, x, bi, out)
             else bind_result (put out x (base58Characters ! unat m)) (\<lambda>out.
                  bind_result (BigNumberEqualsSubtractionByUInt8 bi m) (\<lambda>bi.
                  bind_result (BigNumberEqualsDivisionBy58 bi (replicate MAX_BIG_NUMBER 0)) (\<lambda>bi.
                    encode_loop n maxStrLen (x + 1) bi out)))))"

definition reverse_digits :: "nat \<Rightarrow> nat \<Rightarrow> bytes \<Rightarrow> bytes" where
  "reverse_digits zeros x out =
     fold (\<lambda>y out. out[y + zeros := out ! (x - y - 1), x - y - 1 := out ! (y + zeros)])
       [0..<(x - zeros) div 2] out"

definition encode_fuel :: nat where
  "encode_fuel = 400"

definition CBEncodeBase58 :: "big_number \<Rightarrow> bytes \<Rightarrow> nat \<Rightarrow> (bool \<times> bytes) result" where
  "CBEncodeBase58 bi out maxStrLen =
     (if maxStrLen < bn_length bi then Ok (False, out)
      else if bn_length bi = 0 then Fault OutOfBounds
      else
        bind_result (zero_loop (bn_data bi) (bn_length bi - 1) 0 out) (\<lambda>(zeros, out).
        bind_result (encode_loop encode_fuel maxStrLen zeros bi out) (\<lambda>(completed, x, bi, out).
          if \<not> completed then Ok (False, out)
          else
            bind_result (put out x (base58Characters ! unat (bn_data bi ! (bn_length bi - 1)))) (\<lambda>out.
            bind_result (put (reverse_digits zeros (x + 1) out) (x + 1) 0) (\<lambda>out. Ok (True, out))))))"

text \<open>\<open>encodeBase58\<close>: the byte-reversed copy is 25 bytes whatever \<open>length\<close> says.\<close>

definition encodeBase58 :: "build \<Rightarrow> bytes \<Rightarrow> nat \<Rightarrow> bool \<Rightarrow> bytes \<Rightarrow> nat \<Rightarrow> (bool \<times> bytes) result" where
  "encodeBase58 bld bigNumber len isBigEndian out maxStrLen =
     (if len > 25 \<or> len > length bigNumber \<or> (isBigEndian \<and> len < 25) then Fault OutOfBounds
      else
        let hash = (if isBigEndian then rev (take len bigNumber) else take len bigNumber)
        in bind_result (BigNumber bld (Some hash) len) (\<lambda>bytes. CBEncodeBase58 bytes out maxStrLen))"

definition decodeBase58 :: "build \<Rightarrow> bytes \<Rightarrow> bytes \<Rightarrow> nat \<Rightarrow> bool \<Rightarrow> (nat \<times> bytes) result" where
  "decodeBase58 bld s out maxOutputLength isBigEndian =
     bind_result (BigNumber bld None 0) (\<lambda>bn.
     bind_result (CBDecodeBase58 bld bn s) (\<lambda>bn.
       if bn_length bn \<le> maxOutputLength
       then let d = take (bn_length bn) (bn_data bn)
            in if bn_length bn \<le> length out
               then Ok (bn_length bn, splice out 0 (if isBigEndian then rev d else d))
               else Fault OutOfBounds
       else Ok (0, out)))"

section \<open>The encoder\<close>

lemma put_Ok [simp]: "x < length out \<Longrightarrow> put out x c = Ok (out[x := c])"
  by (simp add: put_def)

lemma splice_Cons: "x < length out \<Longrightarrow> splice (out[x := c]) (Suc x) cs = splice out x (c # cs)"
  by (simp add: splice_def take_Suc_update)

definition top_zeros :: "bytes \<Rightarrow> nat" where
  "top_zeros bs = length (takeWhile ((=) 0) (rev bs))"

lemma top_zeros_le: "top_zeros bs \<le> length bs"
  by (metis top_zeros_def length_rev length_takeWhile_le)

lemma zero_loop_spec:
  assumes "y < length d" "x + top_zeros (take (Suc y) d) \<le> length out"
  shows "zero_loop d y x out = Ok (x + top_zeros (take (Suc y) d),
    splice out x (replicate (top_zeros (take (Suc y) d)) 49))"
  using assms
proof (induction y arbitrary: x out)
  case 0
  then show ?case
    by (cases d) (auto simp: top_zeros_def splice_Cons [symmetric] Let_def)
next
  case (Suc y)
  have tz: "top_zeros (take (Suc (Suc y)) d) = (if d ! Suc y = 0 then Suc (top_zeros (take (Suc y) d)) else 0)"
    using Suc.prems(1) by (simp add: top_zeros_def take_Suc_conv_app_nth [of "Suc y"])
  show ?case
  proof (cases "d ! Suc y = 0")
    case True
    with Suc.prems tz have "Suc x + top_zeros (take (Suc y) d) \<le> length (out[x := 49])" "x < length out" by auto
    with Suc.IH [of "Suc x" "out[x := 49]"] Suc.prems(1) True show ?thesis
      by (simp add: tz splice_Cons del: take_Suc)
  qed (simp add: tz)
qed

lemma encode_loop_extract:
  assumes "extract_digits less58 next_digit n bi = Ok (ms, bi')" "x + length ms + 2 \<le> maxStrLen"
    "x + length ms \<le> length out"
  shows "encode_loop n maxStrLen x bi out =
    Ok (True, x + length ms, bi', splice out x (map (\<lambda>m. base58Characters ! unat m) ms))"
  using assms
proof (induction n arbitrary: x bi ms out)
  case (Suc n)
  show ?case
  proof (cases "less58 bi")
    case True
    with Suc.prems show ?thesis by (simp add: less58_def)
  next
    case False
    with Suc.prems(1) obtain m b ms' where st: "next_digit bi = Ok (m, b)"
      "extract_digits less58 next_digit n b = Ok (ms', bi')" "ms = m # ms'"
      by (auto simp: bind_result_eq_Inr)
    then obtain s where ops: "BigNumberModuloWith58 bi = Ok m"
      "BigNumberEqualsSubtractionByUInt8 bi m = Ok s"
      "BigNumberEqualsDivisionBy58 s (replicate MAX_BIG_NUMBER 0) = Ok b"
      by (auto simp: next_digit_def bind_result_eq_Inr)
    have "x < length out" "\<not> x + 3 > maxStrLen" using Suc.prems st(3) by simp_all
    with Suc.IH [OF st(2), of "Suc x" "out[x := base58Characters ! unat m]"] Suc.prems st(3) ops False
    show ?thesis by (simp add: less58_def splice_Cons)
  qed
qed simp

lemma swap_fold:
  assumes "k \<le> n div 2" "z + n \<le> length out"
  defines "f \<equiv> fold (\<lambda>y out. out[y + z := out ! (z + n - y - 1), z + n - y - 1 := out ! (y + z)]) [0..<k] out"
  shows "length f = length out \<and> (\<forall>i < length out.
     f ! i = (if z \<le> i \<and> i < z + k \<or> z + n - k \<le> i \<and> i < z + n then out ! (2 * z + n - 1 - i) else out ! i))"
  using assms(1) unfolding f_def
proof (induction k)
  case (Suc k)
  let ?g = "fold (\<lambda>y out. out[y + z := out ! (z + n - y - 1), z + n - y - 1 := out ! (y + z)]) [0..<k] out"
  have ih: "length ?g = length out"
    "\<And>i. i < length out \<Longrightarrow> ?g ! i = (if z \<le> i \<and> i < z + k \<or> z + n - k \<le> i \<and> i < z + n then out ! (2 * z + n - 1 - i) else out ! i)"
    using Suc by auto
  have k: "2 * k + 2 \<le> n" using Suc.prems by simp
  have g1: "?g ! (z + n - k - 1) = out ! (z + n - k - 1)" "?g ! (k + z) = out ! (k + z)"
    using ih(2) [of "z + n - k - 1"] ih(2) [of "k + z"] k assms(2) by auto
  show ?case
  proof (intro conjI allI impI)
    fix i assume i: "i < length out"
    have e1: "2 * z + n - 1 - (k + z) = z + n - k - 1" "2 * z + n - 1 - (z + n - k - 1) = k + z" using k by auto
    consider "i = k + z" | "i = z + n - k - 1" | "i \<noteq> k + z" "i \<noteq> z + n - k - 1" by blast
    then show "fold (\<lambda>y out. out[y + z := out ! (z + n - y - 1), z + n - y - 1 := out ! (y + z)]) [0..<Suc k] out ! i =
      (if z \<le> i \<and> i < z + Suc k \<or> z + n - Suc k \<le> i \<and> i < z + n then out ! (2 * z + n - 1 - i) else out ! i)"
    proof cases
      case 1 then show ?thesis using k i ih(1) g1 e1 assms(2) by (simp add: nth_list_update)
    next
      case 2 then show ?thesis using k i ih(1) g1 e1 assms(2) by (simp add: nth_list_update add.commute)
    next
      case 3
      then have "(z \<le> i \<and> i < z + Suc k \<or> z + n - Suc k \<le> i \<and> i < z + n) =
        (z \<le> i \<and> i < z + k \<or> z + n - k \<le> i \<and> i < z + n)" using k by auto
      with 3 show ?thesis using i ih by (simp add: nth_list_update)
    qed
  qed (use ih(1) in simp)
qed auto

lemma reverse_digits_spec:
  assumes "z + n \<le> length out"
  shows "reverse_digits z (z + n) out = splice out z (rev (take n (drop z out)))"
proof (rule nth_equalityI)
  note sw = swap_fold [OF order_refl assms]
  show "length (reverse_digits z (z + n) out) = length (splice out z (rev (take n (drop z out))))"
    using sw assms by (simp add: reverse_digits_def length_splice)
  fix i assume "i < length (reverse_digits z (z + n) out)"
  then have i: "i < length out" using sw by (simp add: reverse_digits_def)
  have a: "reverse_digits z (z + n) out ! i = (if z \<le> i \<and> i < z + n then out ! (2 * z + n - 1 - i) else out ! i)"
  proof (cases "2 * (n div 2) = n")
    case True
    with sw i show ?thesis by (auto simp: reverse_digits_def)
  next
    case False
    then have "2 * (n div 2) + 1 = n" by linarith
    then have "\<not> i < z + n div 2 \<Longrightarrow> \<not> z + n - n div 2 \<le> i \<Longrightarrow> 2 * z + n - 1 - i = i" by linarith
    then show ?thesis using sw i by (auto simp: reverse_digits_def)
  qed
  show "reverse_digits z (z + n) out ! i = splice out z (rev (take n (drop z out))) ! i"
    unfolding a using assms i
    by (auto simp: splice_def nth_append rev_nth min_def intro!: arg_cong [of _ _ "(!) out"])
qed

definition text58 :: "bytes \<Rightarrow> bytes" where
  "text58 d = replicate (top_zeros d) 49 @ map ((!) base58Characters) (rev (digits58 (le_nat d)))"

lemma bn_val_fuel: "bn_wf bi \<Longrightarrow> bn_val bi < 58 ^ Suc 399"
proof -
  assume wf: "bn_wf bi"
  then have "bn_val bi < 256 ^ bn_length bi" by (rule bn_val_less)
  also have "\<dots> \<le> 256 ^ (2 * 128)" using wf by (intro power_increasing) (auto simp: bn_wf_def MAX_BIG_NUMBER_def)
  also have "\<dots> = (256\<^sup>2) ^ 128" by (rule power_mult)
  also have "\<dots> \<le> (58 ^ 3) ^ 128" by (rule power_mono) simp_all
  also have "\<dots> = 58 ^ (3 * 128)" by (rule power_mult [symmetric])
  also have "\<dots> < (58 :: nat) ^ Suc 399" by (rule power_strict_increasing) simp_all
  finally show ?thesis .
qed

lemma less58_byte:
  assumes "bn_ok bi" "less58 bi"
  shows "unat (bn_data bi ! (bn_length bi - 1)) = bn_val bi"
proof -
  have "bn_length bi = 1" using assms
    by (cases "bn_length bi > 1") (auto simp: less58_def BigNumberCompareTo58_def bn_ok_def)
  then show ?thesis using assms(1)
    by (cases "bn_data bi") (auto simp: bn_val_def bn_ok_def bn_wf_def MAX_BIG_NUMBER_def)
qed

lemma CBEncodeBase58_spec:
  assumes ok: "bn_ok bi" and big: "bn_normal bi \<or> 58 \<le> bn_val bi" and len: "bn_length bi \<le> maxStrLen"
  defines "d \<equiv> take (bn_length bi) (bn_data bi)"
  assumes room: "length (text58 d) < maxStrLen" "maxStrLen \<le> length out"
  shows "CBEncodeBase58 bi out maxStrLen = Ok (True, splice out 0 (text58 d @ [0]))"
proof -
  let ?a = "(!) base58Characters" and ?z = "top_zeros d"
  obtain m where m: "bn_length bi = Suc m" "m < length (bn_data bi)"
    using ok by (cases "bn_length bi") (auto simp: bn_ok_def bn_wf_def)
  obtain ms b where ex: "extract_digits less58 next_digit (Suc 399) bi = Ok (ms, b)" "bn_ok b" "less58 b"
    "map unat ms @ [bn_val b] = digits58 (bn_val bi)"
    using bn58.extract_normal [OF ok big bn_val_fuel] ok by (auto simp: bn_ok_def)
  define ds where "ds = digits58 (bn_val bi)"
  have ds: "length ds = Suc (length ms)" "map ?a ds = map (\<lambda>m. ?a (unat m)) ms @ [?a (bn_val b)]"
    using arg_cong [OF ex(4), of length] arg_cong [OF ex(4), of "map ?a"] by (simp_all add: ds_def comp_def)
  have v: "le_nat d = bn_val bi" by (simp add: d_def bn_val_def)
  have n: "length (text58 d) = ?z + length ds" by (simp add: text58_def v ds_def)
  have z: "?z \<le> bn_length bi" using top_zeros_le [of d] by (simp add: d_def)
  have 1: "zero_loop (bn_data bi) (bn_length bi - 1) 0 out = Ok (?z, splice out 0 (replicate ?z 49))"
    using zero_loop_spec [OF m(2), of 0 out] z len room(2) by (simp add: m(1) d_def)
  let ?o1 = "replicate ?z 49 @ drop ?z out"
  have o1: "splice out 0 (replicate ?z 49) = ?o1" by (simp add: splice_def)
  let ?o2 = "replicate ?z 49 @ map (\<lambda>m. ?a (unat m)) ms @ drop (?z + length ms) out"
  have 2: "encode_loop encode_fuel maxStrLen ?z bi ?o1 = Ok (True, ?z + length ms, b, ?o2)"
    using encode_loop_extract [OF ex(1), of ?z maxStrLen ?o1] n ds(1) room
    by (simp add: encode_fuel_def splice_def add.commute)
  let ?o3 = "replicate ?z 49 @ map ?a ds @ drop (?z + length ds) out"
  have 3: "put ?o2 (?z + length ms) (base58Characters ! unat (bn_data b ! (bn_length b - 1))) = Ok ?o3"
    using n room ds unfolding less58_byte [OF ex(2,3)]
    by (simp add: list_update_append Cons_nth_drop_Suc [symmetric])
  let ?o4 = "replicate ?z 49 @ rev (map ?a ds) @ drop (?z + length ds) out"
  have 4: "reverse_digits ?z (?z + length ms + 1) ?o3 = ?o4"
    using ds(1) reverse_digits_spec [of ?z "length ds" ?o3] n room by (simp add: splice_def)
  have 5: "put ?o4 (?z + length ms + 1) 0 = Ok (splice out 0 (text58 d @ [0]))"
    using n room ds(1) by (simp add: list_update_append splice_def text58_def v ds_def [symmetric]
        Cons_nth_drop_Suc [symmetric] rev_map)
  have "\<not> maxStrLen < bn_length bi" "bn_length bi \<noteq> 0" using m len by simp_all
  then show ?thesis
    unfolding CBEncodeBase58_def 1 o1 by (simp only: if_False bind_result_simps prod.case 2 3 4 5 simp_thms)
qed
section \<open>The decoder\<close>

definition digit58 :: "u8 \<Rightarrow> nat" where
  "digit58 c = (if c = 49 then 0 else unat (alphaIndex c))"

fun value58 :: "bytes \<Rightarrow> nat" where
  "value58 [] = 0"
| "value58 (c # cs) = digit58 c * 58 ^ length cs + value58 cs"

lemma digit58_le: "digit58 c \<le> 255"
  using unat_u8_le [of "alphaIndex c"] by (simp add: digit58_def)

lemma value58_bound: "value58 s + 5 \<le> 5 * 58 ^ length s"
proof (induction s)
  case (Cons c cs)
  have "digit58 c * 58 ^ length cs \<le> 255 * 58 ^ length cs" by (intro mult_le_mono1 digit58_le)
  then show ?case using Cons.IH unfolding value58.simps length_Cons power_Suc by linarith
qed simp

lemma value58_bytes: "value58 s < 256 ^ length s"
proof (induction s)
  case (Cons c cs)
  have "digit58 c * 58 ^ length cs \<le> 255 * 256 ^ length cs"
    by (intro mult_le_mono digit58_le power_mono) simp_all
  with Cons.IH show ?case by simp
qed simp

lemma pow58_limit: "n \<le> 255 \<Longrightarrow> 5 * 58 ^ n < bn_limit"
proof -
  assume n: "n \<le> 255"
  have "5 * 58 ^ n \<le> (58 :: nat) ^ Suc n" by simp
  also have "\<dots> \<le> 58 ^ (4 * 64)" using n by (intro power_increasing) simp_all
  also have "\<dots> = (58 ^ 4) ^ 64" by (rule power_mult)
  also have "\<dots> \<le> (256 ^ 3) ^ 64" by (rule power_mono) simp_all
  also have "\<dots> = 256 ^ (3 * 64)" by (rule power_mult [symmetric])
  also have "\<dots> < bn_limit" unfolding bn_limit_def by (rule power_strict_increasing) simp_all
  finally show ?thesis .
qed

lemma value58_ones: "\<forall>c \<in> set s. c = 49 \<Longrightarrow> value58 (s @ t) = value58 t"
  by (induction s) (auto simp: digit58_def)

lemma value58_dropWhile: "value58 (dropWhile ((=) 49) s) = value58 s"
proof -
  have "\<forall>c \<in> set (takeWhile ((=) 49) s). c = 49" by (auto dest: set_takeWhileD)
  from value58_ones [OF this, of "dropWhile ((=) 49) s"] show ?thesis by simp
qed

definition decode_inv :: "bytes \<Rightarrow> big_number \<Rightarrow> big_number \<Rightarrow> bool" where
  "decode_inv t bi bi2 \<longleftrightarrow> bn_wf bi \<and> bn_wf bi2 \<and> bn_normal bi \<and> bn_val bi = value58 t \<and>
     (bn_length bi = 0 \<longleftrightarrow> (\<forall>c \<in> set t. c = 49))"

lemma decode_char_spec:
  assumes inv: "decode_inv (drop (Suc x) s) bi bi2" and x: "x < length s" "length s \<le> 255"
  shows "\<exists>st. decode_char bld s x (bi, bi2) = Ok st \<and> decode_inv (drop x s) (fst st) (snd st)"
proof -
  have dr: "drop x s = s ! x # drop (Suc x) s" using x(1) by (simp add: Cons_nth_drop_Suc)
  show ?thesis
  proof (cases "s ! x = 49")
    case True
    then show ?thesis using inv by (simp add: decode_char_def decode_inv_def dr digit58_def)
  next
    case False
    let ?k = "length s - 1 - x" let ?e = "word_of_nat ?k :: u8"
    have k: "?k \<le> 254" "length (drop (Suc x) s) = ?k" using x by simp_all
    have e: "unat ?e = ?k" by (rule unat_word_of_nat_small) (use k(1) in simp)
    have lim: "58 ^ ?k < bn_limit" "5 * 58 ^ Suc ?k < bn_limit"
      using pow58_limit [of ?k] pow58_limit [of "Suc ?k"] k by linarith+
    have wf2: "bn_wf bi2" using inv by (simp add: decode_inv_def)
    have "unat (58 :: u8) ^ unat ?e < bn_limit" unfolding e using lim(1) by simp
    from BigNumberFromPowUInt8_spec [OF wf2 this, of bld] obtain p where p:
      "BigNumberFromPowUInt8 bld bi2 58 ?e = Ok p" "bn_wf p" "0 < bn_length p" "bn_normal p" "bn_val p = 58 ^ ?k"
      unfolding e by auto
    have "bn_val p * unat (alphaIndex (s ! x)) \<le> 58 ^ ?k * 255"
      unfolding p(5) by (intro mult_le_mono2 unat_u8_le)
    also have "\<dots> \<le> 5 * 58 ^ Suc ?k" by simp
    finally have "bn_val p * unat (alphaIndex (s ! x)) < bn_limit" using lim(2) by linarith
    from BigNumberEqualsMultiplicationByUInt8_spec [OF p(2,3) this, of bld] p(4,5) False obtain q where q:
      "BigNumberEqualsMultiplicationByUInt8 bld p (alphaIndex (s ! x)) = Ok q" "bn_wf q" "0 < bn_length q"
      "bn_normal q" "bn_val q = digit58 (s ! x) * 58 ^ ?k" by (auto simp: digit58_def)
    have vdr: "value58 (drop x s) = bn_val bi + bn_val q"
      using inv k(2) by (simp add: dr decode_inv_def q(5))
    have "length (drop x s) \<le> 255" using x by simp
    with value58_bound [of "drop x s"] pow58_limit have "bn_val bi + bn_val q < bn_limit"
      unfolding vdr by (meson add_leD1 le_less_trans)
    from BigNumberEqualsAdditionByBigInt_spec [OF _ q(2) this, of bld] inv obtain r where r:
      "BigNumberEqualsAdditionByBigInt bld bi q = Ok r" "bn_wf r" "bn_val r = bn_val bi + bn_val q"
      "bn_length r = max (bn_length bi) (bn_length q) \<or>
       bn_length r = Suc (max (bn_length bi) (bn_length q)) \<and> 256 ^ max (bn_length bi) (bn_length q) \<le> bn_val r"
      by (auto simp: decode_inv_def)
    have "bn_normal r"
    proof (cases "bn_length r = max (bn_length bi) (bn_length q)")
      case True
      have "bn_normal bi" using inv by (simp add: decode_inv_def)
      with True q(4) r(3) show ?thesis by (auto simp: bn_normal_def max_def split: if_splits)
    qed (use r(4) in \<open>auto simp: bn_normal_def\<close>)
    moreover have "0 < bn_length r" using r(4) q(3) by auto
    ultimately show ?thesis using p(1) q(1,2) r(1-3) False vdr
      by (simp add: decode_char_def decode_inv_def dr)
  qed
qed

lemma decode_chars_spec:
  assumes "decode_inv (drop x s) (fst st) (snd st)" "x \<le> length s" "length s \<le> 255"
  shows "\<exists>st'. decode_chars bld s x st = Ok st' \<and> decode_inv s (fst st') (snd st')"
  using assms
proof (induction x arbitrary: st)
  case (Suc x)
  then obtain st1 where "decode_char bld s x st = Ok st1" "decode_inv (drop x s) (fst st1) (snd st1)"
    using decode_char_spec [of x s "fst st" "snd st" bld] by auto
  with Suc show ?case by auto
qed auto

lemma CBDecodeBase58_spec:
  assumes s: "s \<noteq> []" "length s \<le> 255" and bi: "bn_wf bi" "bn_length bi = 0"
  defines "z \<equiv> length (takeWhile ((=) 49) s)"
  shows "\<exists>r n. CBDecodeBase58 bld bi s = Ok r \<and> bn_length r = n + z \<and> n + z \<le> length s \<and>
    length (bn_data r) = 256 \<and>
    take (n + z) (bn_data r) = take n (bn_data r) @ replicate z 0 \<and>
    le_nat (take n (bn_data r)) = value58 s \<and> (n \<le> 1 \<or> 256 ^ (n - 1) \<le> value58 s) \<and>
    (n = 0 \<longleftrightarrow> (\<forall>c \<in> set s. c = 49))"
proof -
  have "BigNumber bld None 1 = Ok \<lparr>bn_data = replicate 256 0, bn_length = 1\<rparr>"
    by (simp add: BigNumber_def MAX_BIG_NUMBER_def)
  moreover have "decode_inv (drop (length s) s) bi \<lparr>bn_data = replicate 256 0, bn_length = 1\<rparr>"
    using bi by (simp add: decode_inv_def bn_wf_def MAX_BIG_NUMBER_def bn_normal_def bn_val_def)
  from decode_chars_spec [where st = "(_, _)", simplified, OF this order_refl s(2), of bld] obtain b b2 where
    b: "decode_chars bld s (length s) (bi, \<lparr>bn_data = replicate 256 0, bn_length = 1\<rparr>) = Ok (b, b2)"
      "decode_inv s b b2" by auto
  ultimately have r: "CBDecodeBase58 bld bi s = append_zeros bld s b"
    using s(1) by (simp add: CBDecodeBase58_def)
  let ?n = "bn_length b"
  have inv: "bn_wf b" "bn_normal b" "bn_val b = value58 s" "?n = 0 \<longleftrightarrow> (\<forall>c \<in> set s. c = 49)"
    using b(2) by (simp_all add: decode_inv_def)
  have nz: "?n + z \<le> length s"
  proof (cases "?n = 0")
    case True
    then show ?thesis by (simp add: z_def length_takeWhile_le)
  next
    case False
    let ?t = "dropWhile ((=) 49) s"
    have zt: "z + length ?t = length s" unfolding z_def
      by (metis length_append takeWhile_dropWhile_id)
    have "?t \<noteq> []" using inv(4) False by (auto simp: dropWhile_eq_Nil_conv)
    then have "0 < length ?t" by simp
    moreover have "?n \<le> length ?t" if "1 < ?n"
    proof -
      have "256 ^ (?n - 1) < (256 :: nat) ^ length ?t"
        using inv(2,3) that value58_bytes [of ?t] unfolding value58_dropWhile bn_normal_def by linarith
      then have "?n - 1 < length ?t" by (rule power_less_imp_less_exp [rotated]) simp
      then show ?thesis by simp
    qed
    ultimately have "?n \<le> length ?t" by (cases "1 < ?n") linarith+
    with zt show ?thesis by simp
  qed
  have d: "length (bn_data b) = 256" "?n < 256" using inv(1) by (simp_all add: bn_wf_def MAX_BIG_NUMBER_def)
  let ?r = "if z > 0 then b\<lparr>bn_data := splice (bn_data b) ?n (replicate z 0), bn_length := ?n + z\<rparr> else b"
  have "append_zeros bld s b = Ok ?r"
    using nz s(2) d by (simp add: append_zeros_def Let_def z_def [symmetric] MAX_BIG_NUMBER_def)
  then show ?thesis using r nz d s(2) inv
    by (intro exI [of _ ?r] exI [of _ ?n]) (auto simp: splice_def bn_val_def bn_normal_def)
qed
section \<open>Encoding a 25-byte address\<close>

definition base58_text :: "bytes \<Rightarrow> bytes" where
  "base58_text bs =
     replicate (length (takeWhile ((=) 0) bs)) 49 @
     map ((!) base58Characters) (rev (digits58 (le_nat (rev bs))))"

lemma base58_text_rev: "base58_text bs = text58 (rev bs)"
  by (simp add: base58_text_def text58_def top_zeros_def)

lemma length_digits58: "v < 58 ^ Suc n \<Longrightarrow> length (digits58 v) \<le> Suc n"
proof (induction n arbitrary: v)
  case (Suc n)
  then have "v div 58 < 58 ^ Suc n" by (simp add: less_mult_imp_div_less mult.commute)
  from Suc.IH [OF this] show ?case by (simp add: digits58.simps [of v])
qed (simp add: digits58.simps)

lemma dropWhile_zeros: "le_nat (rev bs) = le_nat (rev (dropWhile ((=) 0) bs))"
  by (induction bs) (auto simp: le_nat_append)

lemma length_base58_text:
  assumes "length bs = 25"
  shows "length (base58_text bs) \<le> 35"
proof -
  let ?t = "dropWhile ((=) 0) bs" and ?z = "length (takeWhile ((=) 0) bs)"
  let ?m = "length ?t"
  have zm: "?z + ?m = 25" using assms by (metis length_append takeWhile_dropWhile_id)
  have "le_nat (rev bs) < 256 ^ ?m"
    using le_nat_less [of "rev ?t"] dropWhile_zeros [of bs] by simp
  also have "\<dots> \<le> (58 * 5) ^ ?m" by (intro power_mono) simp_all
  also have "\<dots> = 58 ^ ?m * 5 ^ ?m" by (rule power_mult_distrib)
  also have "\<dots> \<le> 58 ^ ?m * 5 ^ 25" using zm by (intro mult_le_mono2 power_increasing) simp_all
  also have "\<dots> \<le> 58 ^ ?m * 58 ^ 10" by (intro mult_le_mono2) simp
  also have "\<dots> = 58 ^ (?m + 10)" by (rule power_add [symmetric])
  finally have "length (digits58 (le_nat (rev bs))) \<le> ?m + 10"
    using length_digits58 [of _ "?m + 9"] by (simp add: add.commute)
  with zm show ?thesis by (simp add: base58_text_def)
qed

lemma encodeBase58_text:
  assumes "length addr = 25" "58 \<le> le_nat (rev addr)" "36 \<le> maxStrLen" "maxStrLen \<le> length out"
  shows "encodeBase58 bld addr 25 True out maxStrLen = Ok (True, splice out 0 (base58_text addr @ [0]))"
proof -
  obtain a where a: "BigNumber bld (Some (rev addr)) 25 = Ok a" "bn_ok a" "bn_length a = 25"
    "bn_val a = le_nat (rev addr)" "take 25 (bn_data a) = rev addr"
    using BigNumber_spec [of "rev addr" bld] assms(1) by (auto simp: bn_ok_def)
  have "CBEncodeBase58 a out maxStrLen = Ok (True, splice out 0 (text58 (rev addr) @ [0]))"
    using CBEncodeBase58_spec [of a maxStrLen out] a assms length_base58_text [OF assms(1)]
    by (simp add: base58_text_rev)
  with a(1) assms(1) show ?thesis by (simp add: encodeBase58_def base58_text_rev)
qed

text \<open>
  C39: for a 25-byte big-endian address whose value is at least 58, \<open>encodeBase58\<close> writes the Base58 text:
  one '1' for each leading zero byte, then the base-58 digits of the number from the most significant one,
  then NUL; 36 bytes of room are enough, and nothing after the NUL is touched.
\<close>

theorem encodeBase58_correct:
  assumes "length addr = 25" "58 \<le> le_nat (rev addr)" "36 \<le> maxStrLen" "maxStrLen \<le> length out"
  shows "encodeBase58 bld addr 25 True out maxStrLen = Ok (True, splice out 0 (base58_text addr @ [0]))"
  using assms by (rule encodeBase58_text)

theorem encodeBase58_correct_witness:
  "encodeBase58 Debug (replicate 24 0 @ [200]) 25 True (replicate 36 7) 36
     = Ok (True, cstr ''1111111111111111111111114T'' @ [0] @ replicate 9 7)"
proof -
  let ?a = "replicate 24 0 @ [200] :: bytes"
  have "le_nat (rev ?a) = 200" by (simp add: le_nat_append)
  moreover have "takeWhile ((=) 0) ?a = replicate 24 0" by (simp add: takeWhile_append)
  moreover have "digits58 200 = [26, 3]" by (simp add: digits58.simps)
  ultimately have "base58_text ?a = replicate 24 49 @ [base58Characters ! 3, base58Characters ! 26]"
    by (simp add: base58_text_def)
  also have "\<dots> = cstr ''1111111111111111111111114T''" by code_simp
  finally have "base58_text ?a = cstr ''1111111111111111111111114T''" .
  with encodeBase58_correct [of "replicate 24 0 @ [200]" 36 "replicate 36 7" Debug] show ?thesis
    by (simp add: splice_def cstr_def le_nat_append)
qed

section \<open>Decoding\<close>

lemma base58Characters_bytes:
  "base58Characters = [49, 50, 51, 52, 53, 54, 55, 56, 57, 65, 66, 67, 68, 69, 70, 71, 72, 74, 75, 76,
     77, 78, 80, 81, 82, 83, 84, 85, 86, 87, 88, 89, 90, 97, 98, 99, 100, 101, 102, 103, 104, 105, 106,
     107, 109, 110, 111, 112, 113, 114, 115, 116, 117, 118, 119, 120, 121, 122, 0]"
  by (simp add: base58Characters_def cstr_def)

lemma digit58_alphabet: "map digit58 (butlast base58Characters) = [0..<58]"
  unfolding base58Characters_bytes digit58_def alphaIndex_def word_sless_alt by (simp add: upt_conv_Cons)

lemma digit58_nth: "d < 58 \<Longrightarrow> digit58 (base58Characters ! d) = d"
proof -
  have "length base58Characters = 59" by (simp add: base58Characters_bytes)
  then show "d < 58 \<Longrightarrow> ?thesis"
    using arg_cong [OF digit58_alphabet, of "\<lambda>xs. xs ! d"] by (simp add: nth_butlast)
qed

lemma alphaIndex_alphabet: "d < 58 \<Longrightarrow> digit58 (base58Characters ! d) = d \<and> (base58Characters ! d = 49 \<longleftrightarrow> d = 0)"
  using digit58_nth [of d] by (auto simp: digit58_def base58Characters_bytes)

lemma value58_map:
  "\<forall>d \<in> set ds. d < 58 \<Longrightarrow> value58 (map ((!) base58Characters) (rev ds)) = foldr (\<lambda>d v. d + 58 * v) ds 0"
proof (induction ds)
  case (Cons d ds)
  have *: "value58 (xs @ [x]) = 58 * value58 xs + digit58 x" for xs x
    by (induction xs) simp_all
  show ?case using Cons by (simp add: * alphaIndex_alphabet)
qed simp

lemma digits58_less: "d \<in> set (digits58 v) \<Longrightarrow> d < 58"
proof (induction v rule: digits58.induct)
  case (1 v)
  then show ?case by (cases "v < 58") (auto simp: digits58.simps [of v])
qed

lemma foldr_digits58: "foldr (\<lambda>d v. d + 58 * v) (digits58 v) 0 = v"
proof (induction v rule: digits58.induct)
  case (1 v)
  then show ?case by (cases "v < 58") (simp_all add: digits58.simps [of v])
qed

lemma last_digits58: "0 < v \<Longrightarrow> digits58 v \<noteq> [] \<and> 0 < last (digits58 v)"
proof (induction v rule: digits58.induct)
  case (1 v)
  then show ?case by (cases "v < 58") (auto simp: digits58.simps [of v])
qed

lemma value58_digits: "value58 (map ((!) base58Characters) (rev (digits58 v))) = v"
  using value58_map [of "digits58 v"] digits58_less [of _ v] by (simp add: foldr_digits58)

lemma decodeBase58_text:
  assumes "length addr = 25" "58 \<le> le_nat (rev addr)" "25 \<le> maxOutputLength" "25 \<le> length out"
  shows "decodeBase58 bld (base58_text addr) out maxOutputLength True = Ok (25, splice out 0 addr)"
proof -
  let ?s = "base58_text addr" and ?v = "le_nat (rev addr)"
  define z where "z = length (takeWhile ((=) 0) addr)"
  define t where "t = dropWhile ((=) 0) addr"
  let ?ds = "map ((!) base58Characters) (rev (digits58 ?v))"
  have s: "?s = replicate z 49 @ ?ds" by (simp add: base58_text_def z_def)
  obtain c cs where c: "?ds = c # cs" "c \<noteq> 49"
  proof -
    obtain ys y where y: "digits58 ?v = ys @ [y]" using last_digits58 [of ?v] assms(2)
      by (cases "digits58 ?v" rule: rev_cases) auto
    have "0 < y" "y < 58" using last_digits58 [of ?v] digits58_less [of y ?v] assms(2) y by auto
    then have "base58Characters ! y \<noteq> 49" using alphaIndex_alphabet by blast
    with y show ?thesis by (intro that) simp_all
  qed
  have tw: "length (takeWhile ((=) 49) ?s) = z" unfolding s c(1) using c(2) by (induction z) auto
  have vs: "value58 ?s = ?v"
    unfolding s using value58_ones [of "replicate z 49" ?ds] by (simp add: value58_digits)
  have zt: "addr = replicate z 0 @ t" "z + length t = 25"
  proof -
    have "takeWhile ((=) 0) addr = replicate z 0"
      unfolding z_def by (rule replicate_eqI) (auto dest: set_takeWhileD)
    then show "addr = replicate z 0 @ t" unfolding t_def by (metis takeWhile_dropWhile_id)
    then show "z + length t = 25" using assms(1) by (metis length_append length_replicate)
  qed
  have tv: "le_nat (rev t) = ?v" unfolding t_def by (rule dropWhile_zeros [symmetric])
  have "t \<noteq> []" using tv assms(2) by auto
  then obtain b bs where t: "t = b # bs" by (cases t) auto
  have "b \<noteq> 0" using hd_dropWhile [of "(=) 0" addr] \<open>t \<noteq> []\<close> t by (auto simp: t_def)
  then have "1 \<le> unat b" by (simp add: Suc_le_eq unat_gt_0)
  then have "256 ^ length bs * 1 \<le> 256 ^ length bs * unat b" by (rule mult_le_mono2)
  moreover have "?v = le_nat (rev bs) + 256 ^ length bs * unat b"
    unfolding tv [symmetric] t by (simp add: le_nat_append)
  ultimately have "256 ^ length bs \<le> ?v" by linarith
  then have lo: "256 ^ (length t - 1) \<le> ?v" unfolding t by simp
  have hi: "?v < 256 ^ length t" using le_nat_less [of "rev t"] tv by simp
  have sl: "?s \<noteq> []" "length ?s \<le> 255" using length_base58_text [OF assms(1)] c(1) s by auto
  let ?bn = "\<lparr>bn_data = replicate 256 0, bn_length = 0\<rparr> :: big_number"
  have "bn_wf ?bn" "bn_length ?bn = 0" by (simp_all add: bn_wf_def MAX_BIG_NUMBER_def)
  from CBDecodeBase58_spec [OF sl this, of bld, unfolded tw vs] obtain r n where
    r: "CBDecodeBase58 bld ?bn ?s = Ok r" "bn_length r = n + z" "length (bn_data r) = 256" "n + z \<le> length ?s"
      "take (n + z) (bn_data r) = take n (bn_data r) @ replicate z 0"
      "le_nat (take n (bn_data r)) = ?v" "n \<le> 1 \<or> 256 ^ (n - 1) \<le> ?v" "n = 0 \<longleftrightarrow> (\<forall>c \<in> set ?s. c = 49)" by auto
  have "n \<noteq> 0" using r(8) s c by auto
  have nt: "n = length t"
  proof (rule antisym)
    have "256 ^ (n - 1) < (256 :: nat) ^ length t \<or> n \<le> 1" using r(7) hi by linarith
    then have "n - 1 < length t \<or> n \<le> 1" using power_less_imp_less_exp by fastforce
    then show "n \<le> length t" using t by auto
    have "?v < 256 ^ n" using le_nat_less [of "take n (bn_data r)"] r(3,4,6) sl(2) by (simp add: min_def split: if_splits)
    then have "256 ^ (length t - 1) < (256 :: nat) ^ n" using lo by linarith
    then have "length t - 1 < n" by (rule power_less_imp_less_exp [rotated]) simp
    then show "length t \<le> n" by simp
  qed
  have "take n (bn_data r) = rev t"
    using le_nat_inj [of "take n (bn_data r)" "rev t"] r(3,4,6) sl(2) tv nt by simp
  then have "rev (take (n + z) (bn_data r)) = addr" using r(5) zt(1) by simp
  then show ?thesis using r(1,2,3) nt zt(2) assms(3,4)
    by (simp add: decodeBase58_def BigNumber_def MAX_BIG_NUMBER_def add.commute)
qed

lemma base58Characters_nonzero: "d < 58 \<Longrightarrow> base58Characters ! d \<noteq> 0"
proof -
  assume d: "d < 58"
  have "digit58 0 = 207" by (simp add: digit58_def alphaIndex_def word_sless_alt)
  then show ?thesis using digit58_nth [OF d] d by auto
qed

lemma text_nonzero: "0 \<notin> set (base58_text bs)"
  using digits58_less base58Characters_nonzero by (auto simp: base58_text_def)

text \<open>
  C40: decoding undoes encoding. Whatever 25-byte address of value at least 58 is encoded, and
  whatever the output arrays held, the C string that \<open>encodeBase58\<close> leaves in its buffer is decoded
  by \<open>decodeBase58\<close> to the same 25 bytes, leading zero bytes included.
\<close>

theorem decodeBase58_encode:
  assumes "length addr = 25" "58 \<le> le_nat (rev addr)" "36 \<le> maxStrLen" "maxStrLen \<le> length out" "length out2 = 25"
  shows "\<exists>buf. encodeBase58 bld addr 25 True out maxStrLen = Ok (True, buf) \<and>
    decodeBase58 bld (takeWhile ((\<noteq>) 0) buf) out2 25 True = Ok (25, addr)"
proof -
  have "takeWhile ((\<noteq>) 0) (splice out 0 (base58_text addr @ [0])) = base58_text addr"
    using text_nonzero [of addr] by (auto simp: splice_def takeWhile_append)
  moreover have "splice out2 0 addr = addr" using assms(1,5) by (simp add: splice_def)
  ultimately show ?thesis
    using encodeBase58_text [OF assms(1-4)] decodeBase58_text [OF assms(1,2), of 25 out2] assms(5) by simp
qed

theorem decodeBase58_encode_witness:
  "\<exists>buf. encodeBase58 Release (5 # replicate 24 1) 25 True (replicate 40 0) 36 = Ok (True, buf) \<and>
     decodeBase58 Release (takeWhile ((\<noteq>) 0) buf) (replicate 25 7) 25 True = Ok (25, 5 # replicate 24 1)"
  by (rule decodeBase58_encode) (simp_all add: le_nat_append)

definition canonical :: "u8 \<Rightarrow> u8" where
  "canonical c = (if c = of_char (CHR ''I'') then of_char (CHR ''H'')
     else if c = of_char (CHR ''O'') then of_char (CHR ''N'')
     else if c = of_char (CHR ''l'') then of_char (CHR ''k'') else c)"

lemma canonical_digit: "alphaIndex (canonical c) = alphaIndex c" "canonical c = 49 \<longleftrightarrow> c = 49"
  by (simp_all add: canonical_def alphaIndex_def word_sless_alt)

lemma decode_chars_canonical:
  "x \<le> length s \<Longrightarrow> decode_chars bld (map canonical s) x st = decode_chars bld s x st"
proof (induction x arbitrary: st)
  case (Suc x)
  then have "decode_char bld (map canonical s) x = decode_char bld s x"
    by (intro ext) (auto simp: decode_char_def canonical_digit split: prod.splits)
  moreover have "decode_chars bld (map canonical s) x = decode_chars bld s x"
    using Suc by (intro ext) simp
  ultimately show ?case by simp
qed simp

text \<open>
  The decoder takes any string. 'I', 'O' and 'l', which are not in the alphabet, decode exactly like
  'H', 'N' and 'k': replacing them anywhere in a string never changes what \<open>decodeBase58\<close> returns, so
  two different strings stand for one address and no string is reported as malformed.
\<close>

theorem decodeBase58_aliases:
  "decodeBase58 bld (map canonical s) out maxOutputLength isBigEndian = decodeBase58 bld s out maxOutputLength isBigEndian"
proof -
  have "takeWhile ((=) 49) (map canonical s) = map canonical (takeWhile ((=) 49) s)"
    by (induction s) (auto simp: canonical_digit eq_commute [of 49])
  then have "append_zeros bld (map canonical s) = append_zeros bld s" by (intro ext) (simp add: append_zeros_def)
  moreover have "decode_chars bld (map canonical s) (length (map canonical s)) = decode_chars bld s (length s)"
    by (intro ext) (simp add: decode_chars_canonical)
  ultimately show ?thesis unfolding decodeBase58_def CBDecodeBase58_def by (simp only: map_is_Nil_conv)
qed
section \<open>Memory safety and termination of the encoder\<close>

lemma bn_length_mono:
  assumes "bn_wf n'" "bn_normal n'" "bn_wf n" "0 < bn_length n" "bn_val n' \<le> bn_val n"
  shows "bn_length n' \<le> bn_length n"
  using bn_length_less_val [of n n'] assms by (meson leI leD)

lemma next_digit_total:
  assumes "bn_ok n"
  shows "\<exists>m s n'. BigNumberModuloWith58 n = Ok m \<and> BigNumberEqualsSubtractionByUInt8 n m = Ok s \<and>
    BigNumberEqualsDivisionBy58 s (replicate MAX_BIG_NUMBER 0) = Ok n' \<and>
    bn_ok n' \<and> bn_normal n' \<and> bn_val n' = bn_val n div 58 \<and> bn_length n' \<le> bn_length n"
proof -
  have wf: "bn_wf n" "0 < bn_length n" using assms(1) by (simp_all add: bn_ok_def)
  obtain m where m: "BigNumberModuloWith58 n = Ok m" "unat m = bn_val n mod 58"
    using BigNumberModuloWith58_spec [OF wf] by blast
  then have "unat m \<le> bn_val n" by simp
  from BigNumberEqualsSubtractionByUInt8_spec [OF wf this] obtain s where
    s: "BigNumberEqualsSubtractionByUInt8 n m = Ok s" "bn_wf s" "0 < bn_length s"
      "bn_val s = bn_val n - bn_val n mod 58" "bn_normal s" using m by auto
  show ?thesis
  proof (cases "bn_val n < 58")
    case True
    then have z: "bn_val s = 0" using s(4) by simp
    then have "bn_length s = 1" using s(3,5) by (auto simp: bn_normal_def)
    moreover from this have "bn_data s ! 0 = 0" using z s(2)
      by (cases "bn_data s") (auto simp: bn_val_def bn_wf_def MAX_BIG_NUMBER_def unat_eq_0)
    ultimately have "BigNumberEqualsDivisionBy58 s (replicate MAX_BIG_NUMBER 0) = Ok s"
      by (simp add: BigNumberEqualsDivisionBy58_def)
    with m(1) s True z wf show ?thesis
      using \<open>bn_length s = 1\<close> by (auto simp: bn_ok_def)
  next
    case False
    then have "58 \<le> bn_val s" unfolding s(4) minus_mod_eq_mult_div by simp
    moreover have "bn_length s \<le> length (replicate MAX_BIG_NUMBER (0 :: u8))"
      using s(2) by (simp add: bn_wf_def)
    ultimately obtain r where r: "BigNumberEqualsDivisionBy58 s (replicate MAX_BIG_NUMBER 0) = Ok r"
      "bn_wf r" "0 < bn_length r" "bn_val r = bn_val s div 58" "bn_normal r"
      using BigNumberEqualsDivisionBy58_spec [OF s(2,3,5)] by blast
    moreover have "bn_val s div 58 = bn_val n div 58" unfolding s(4) minus_mod_eq_mult_div by simp
    ultimately show ?thesis using m(1) s(1) bn_length_mono [OF r(2,5) wf] by (simp add: bn_ok_def)
  qed
qed

definition outside_kept :: "nat \<Rightarrow> bytes \<Rightarrow> bytes \<Rightarrow> bool" where
  "outside_kept n out out' \<longleftrightarrow> length out' = length out \<and> drop n out' = drop n out"

lemma outside_kept_update: "outside_kept n out out' \<Longrightarrow> x < n \<Longrightarrow> outside_kept n out (out'[x := c])"
  by (simp add: outside_kept_def)

lemma outside_kept_splice: "x + length ys \<le> n \<Longrightarrow> n \<le> length out' \<Longrightarrow> outside_kept n out out' \<Longrightarrow>
  outside_kept n out (splice out' x ys)"
  by (auto simp: outside_kept_def splice_def)

lemma encode_step:
  assumes "bn_ok bi" "\<not> less58 bi" "bn_length bi \<le> maxStrLen"
    "outside_kept maxStrLen out0 out" "maxStrLen \<le> length out0"
  shows "encode_loop (Suc n) maxStrLen x bi out = Ok (False, x, bi, out) \<or>
    (\<exists>bi' out'. encode_loop (Suc n) maxStrLen x bi out = encode_loop n maxStrLen (x + 1) bi' out' \<and>
       bn_ok bi' \<and> bn_normal bi' \<and> bn_val bi' = bn_val bi div 58 \<and> bn_length bi' \<le> maxStrLen \<and>
       outside_kept maxStrLen out0 out' \<and> x + 3 \<le> maxStrLen)"
proof -
  obtain m s b where ops: "BigNumberModuloWith58 bi = Ok m"
    "BigNumberEqualsSubtractionByUInt8 bi m = Ok s"
    "BigNumberEqualsDivisionBy58 s (replicate MAX_BIG_NUMBER 0) = Ok b"
    "bn_ok b" "bn_normal b" "bn_val b = bn_val bi div 58" "bn_length b \<le> bn_length bi"
    using next_digit_total [OF assms(1)] by blast
  show ?thesis
  proof (cases "bn_length bi < x + 3 \<and> x + 3 > maxStrLen")
    case True
    then show ?thesis using ops(1) assms(2) by (simp add: less58_def)
  next
    case False
    then have x: "x + 3 \<le> maxStrLen" using assms(3) by linarith
    then have "x < length out" using assms(4,5) by (simp add: outside_kept_def)
    with False ops assms(2) have "encode_loop (Suc n) maxStrLen x bi out =
       encode_loop n maxStrLen (x + 1) b (out[x := base58Characters ! unat m])"
      by (auto simp: less58_def)
    moreover have "outside_kept maxStrLen out0 (out[x := base58Characters ! unat m])"
      using assms(4) x by (simp add: outside_kept_update)
    ultimately show ?thesis using ops(4-7) assms(3) x by (meson le_trans)
  qed
qed

definition loop_result :: "nat \<Rightarrow> bytes \<Rightarrow> nat \<Rightarrow> big_number \<Rightarrow> (bool \<times> nat \<times> big_number \<times> bytes) result \<Rightarrow> bool" where
  "loop_result maxStrLen out0 x bi r \<longleftrightarrow> (\<exists>c x' bi' out'. r = Ok (c, x', bi', out') \<and>
     outside_kept maxStrLen out0 out' \<and> x \<le> x' \<and>
     (c \<longrightarrow> bn_ok bi' \<and> less58 bi' \<and> (bi' = bi \<and> x' = x \<or> x' + 2 \<le> maxStrLen)))"

lemma loop_result_next: "loop_result maxStrLen out0 (x + 1) b r \<Longrightarrow> x + 3 \<le> maxStrLen \<Longrightarrow> loop_result maxStrLen out0 x bi r"
  unfolding loop_result_def by fastforce

lemma encode_loop_safe:
  assumes "bn_ok bi" "bn_normal bi" "bn_val bi < 58 ^ Suc n" "bn_length bi \<le> maxStrLen"
    "outside_kept maxStrLen out0 out" "maxStrLen \<le> length out0"
  shows "loop_result maxStrLen out0 x bi (encode_loop (Suc n) maxStrLen x bi out)"
  using assms
proof (induction n arbitrary: x bi out)
  case 0
  then have "less58 bi" using BigNumberCompareTo58_spec by (simp add: less58_def bn_ok_def)
  with 0 show ?case by (auto simp: loop_result_def less58_def)
next
  case (Suc n)
  show ?case
  proof (cases "less58 bi")
    case True
    with Suc.prems show ?thesis by (auto simp: loop_result_def less58_def)
  next
    case False
    from encode_step [OF Suc.prems(1) False Suc.prems(4-6), of "Suc n" x] show ?thesis
    proof (elim disjE exE conjE)
      assume "encode_loop (Suc (Suc n)) maxStrLen x bi out = Ok (False, x, bi, out)"
      then show ?thesis using Suc.prems(5) by (auto simp: loop_result_def)
    next
      fix bi' out'
      assume st: "encode_loop (Suc (Suc n)) maxStrLen x bi out = encode_loop (Suc n) maxStrLen (x + 1) bi' out'"
        "bn_ok bi'" "bn_normal bi'" "bn_val bi' = bn_val bi div 58" "bn_length bi' \<le> maxStrLen"
        "outside_kept maxStrLen out0 out'" "x + 3 \<le> maxStrLen"
      have "bn_val bi' < 58 ^ Suc n"
        using Suc.prems(3) by (simp add: st(4) less_mult_imp_div_less mult.commute)
      from loop_result_next [OF Suc.IH [OF st(2,3) this st(5,6) Suc.prems(6)] st(7)] show ?thesis
        unfolding st(1) .
    qed
  qed
qed

lemma encode_loop_safe_any:
  assumes "bn_ok bi" "bn_val bi < 58 ^ Suc (Suc n)" "bn_length bi \<le> maxStrLen"
    "outside_kept maxStrLen out0 out" "maxStrLen \<le> length out0"
  shows "loop_result maxStrLen out0 x bi (encode_loop (Suc (Suc n)) maxStrLen x bi out)"
proof (cases "less58 bi")
  case True
  with assms show ?thesis by (auto simp: loop_result_def less58_def)
next
  case False
  from encode_step [OF assms(1) False assms(3-5), of "Suc n" x] show ?thesis
  proof (elim disjE exE conjE)
    assume "encode_loop (Suc (Suc n)) maxStrLen x bi out = Ok (False, x, bi, out)"
    then show ?thesis using assms(4) by (auto simp: loop_result_def)
  next
    fix bi' out'
    assume st: "encode_loop (Suc (Suc n)) maxStrLen x bi out = encode_loop (Suc n) maxStrLen (x + 1) bi' out'"
      "bn_ok bi'" "bn_normal bi'" "bn_val bi' = bn_val bi div 58" "bn_length bi' \<le> maxStrLen"
      "outside_kept maxStrLen out0 out'" "x + 3 \<le> maxStrLen"
    have "bn_val bi' < 58 ^ Suc n"
      using assms(2) by (simp add: st(4) less_mult_imp_div_less mult.commute)
    from loop_result_next [OF encode_loop_safe [OF st(2,3) this st(5,6) assms(5)] st(7)] show ?thesis
      unfolding st(1) .
  qed
qed

text \<open>
  \<open>CBEncodeBase58\<close> is memory safe and always returns. For every number it is given and every buffer of
  at least \<open>maxStrLen\<close> bytes, with \<open>maxStrLen\<close> at least 3, it returns true or false, writes only the first
  \<open>maxStrLen\<close> bytes, and never runs out of fuel; the value may be anything, zero included.
\<close>

theorem CBEncodeBase58_safe:
  assumes "bn_ok bi" "3 \<le> maxStrLen" "maxStrLen \<le> length out"
  shows "\<exists>r out'. CBEncodeBase58 bi out maxStrLen = Ok (r, out') \<and> length out' = length out \<and>
    drop maxStrLen out' = drop maxStrLen out"
proof (cases "maxStrLen < bn_length bi")
  case False
  let ?d = "take (bn_length bi) (bn_data bi)"
  let ?z = "top_zeros ?d"
  obtain m where m: "bn_length bi = Suc m" "m < length (bn_data bi)"
    using assms(1) by (cases "bn_length bi") (auto simp: bn_ok_def bn_wf_def)
  have z: "?z \<le> bn_length bi" using top_zeros_le [of ?d] by simp
  have ne: "bn_length bi \<noteq> 0" using m(1) by simp
  let ?o1 = "splice out 0 (replicate ?z 49)"
  have 1: "zero_loop (bn_data bi) (bn_length bi - 1) 0 out = Ok (?z, ?o1)"
    using zero_loop_spec [OF m(2), of 0 out] z False assms(3) by (simp add: m(1))
  have "outside_kept maxStrLen out ?o1"
    using z False assms(3) by (intro outside_kept_splice) (simp_all add: outside_kept_def)
  moreover have fuel: "Suc (Suc 398) = encode_fuel" "Suc (Suc 398) = Suc 399" by (simp_all add: encode_fuel_def)
  moreover have "bn_val bi < 58 ^ Suc 399" using bn_val_fuel assms(1) by (simp only: bn_ok_def)
  ultimately have "loop_result maxStrLen out ?z bi (encode_loop encode_fuel maxStrLen ?z bi ?o1)"
    using encode_loop_safe_any [OF assms(1), of 398 maxStrLen out ?o1 ?z] False assms(3)
    by (simp only: not_less)
  then obtain c x bi' o2 where 2: "encode_loop encode_fuel maxStrLen ?z bi ?o1 = Ok (c, x, bi', o2)"
    "outside_kept maxStrLen out o2" "?z \<le> x" "c \<longrightarrow> bn_ok bi' \<and> less58 bi' \<and> (bi' = bi \<and> x = ?z \<or> x + 2 \<le> maxStrLen)"
    by (auto simp: loop_result_def)
  show ?thesis
  proof (cases c)
    case True
    have "less58 bi \<Longrightarrow> bn_length bi = 1" using assms(1)
      by (cases "bn_length bi > 1") (auto simp: less58_def BigNumberCompareTo58_def bn_ok_def)
    with True 2(4) z assms(2) have "x + 2 \<le> maxStrLen" by auto
    let ?c = "base58Characters ! unat (bn_data bi' ! (bn_length bi' - 1))"
    have 3: "put o2 x ?c = Ok (o2[x := ?c])" using \<open>x + 2 \<le> maxStrLen\<close> assms(3) 2(2)
      by (simp add: outside_kept_def)
    let ?o4 = "reverse_digits ?z (x + 1) (o2[x := ?c])"
    have "?o4 = splice (o2[x := ?c]) ?z (rev (take (x + 1 - ?z) (drop ?z (o2[x := ?c]))))"
      using reverse_digits_spec [of ?z "x + 1 - ?z" "o2[x := ?c]"] 2(2,3) \<open>x + 2 \<le> maxStrLen\<close> assms(3)
      by (simp add: outside_kept_def)
    also have "outside_kept maxStrLen out \<dots>" using 2(2,3) \<open>x + 2 \<le> maxStrLen\<close> assms(3)
      by (intro outside_kept_splice outside_kept_update) (auto simp: outside_kept_def)
    finally have 4: "outside_kept maxStrLen out ?o4" .
    then have 5: "put ?o4 (x + 1) 0 = Ok (?o4[x + 1 := 0])" "outside_kept maxStrLen out (?o4[x + 1 := 0])"
      using \<open>x + 2 \<le> maxStrLen\<close> assms(3) by (auto simp: outside_kept_def)
    have "CBEncodeBase58 bi out maxStrLen = Ok (True, ?o4[x + 1 := 0])"
      using True False ne unfolding CBEncodeBase58_def 1
      by (simp only: 2(1) bind_result_simps prod.case if_False simp_thms 3 5(1))
    with 5(2) show ?thesis by (auto simp: outside_kept_def)
  next
    case False': False
    have "CBEncodeBase58 bi out maxStrLen = Ok (False, o2)"
      using False False' ne unfolding CBEncodeBase58_def 1 by (simp add: 2(1))
    with 2(2) show ?thesis by (auto simp: outside_kept_def)
  qed
qed (auto simp: CBEncodeBase58_def)

theorem CBEncodeBase58_safe_witness:
  "\<exists>r out'. CBEncodeBase58 \<lparr>bn_data = 7 # replicate 255 0, bn_length = 2\<rparr> [0, 0, 0, 9] 3 = Ok (r, out') \<and>
     length out' = length [0, 0, 0, 9 :: u8] \<and> drop 3 out' = [9]"
  using CBEncodeBase58_safe [of "\<lparr>bn_data = 7 # replicate 255 0, bn_length = 2\<rparr>" 3 "[0, 0, 0, 9]"]
  by (simp add: bn_ok_def bn_wf_def MAX_BIG_NUMBER_def)
section \<open>Small values, and all addresses\<close>

lemma CBEncodeBase58_small:
  assumes ok: "bn_ok bi" and len: "1 < bn_length bi" "bn_length bi \<le> maxStrLen" and small: "bn_val bi < 58"
  defines "d \<equiv> take (bn_length bi) (bn_data bi)"
  assumes room: "top_zeros d + 3 \<le> maxStrLen" "maxStrLen \<le> length out"
  shows "CBEncodeBase58 bi out maxStrLen =
    Ok (True, splice out 0 (replicate (top_zeros d + 1) 49 @ [base58Characters ! bn_val bi, 0]))"
proof -
  let ?z = "top_zeros d" and ?c = "base58Characters ! bn_val bi"
  obtain m where m: "bn_length bi = Suc m" "m < length (bn_data bi)"
    using ok by (cases "bn_length bi") (auto simp: bn_ok_def bn_wf_def)
  have z: "?z \<le> bn_length bi" using top_zeros_le [of d] by (simp add: d_def)
  let ?o1 = "replicate ?z 49 @ drop ?z out"
  have 1: "zero_loop (bn_data bi) (bn_length bi - 1) 0 out = Ok (?z, ?o1)"
    using zero_loop_spec [OF m(2), of 0 out] z len room(2) by (simp add: m(1) d_def splice_def)
  obtain k s b where ops: "BigNumberModuloWith58 bi = Ok k"
    "BigNumberEqualsSubtractionByUInt8 bi k = Ok s"
    "BigNumberEqualsDivisionBy58 s (replicate MAX_BIG_NUMBER 0) = Ok b"
    "bn_ok b" "bn_normal b" "bn_val b = bn_val bi div 58"
    using next_digit_total [OF ok] by blast
  have k: "unat k = bn_val bi" using BigNumberModuloWith58_spec [of bi] ops(1) ok small by (auto simp: bn_ok_def)
  have b: "less58 b" "unat (bn_data b ! (bn_length b - 1)) = 0"
  proof -
    show "less58 b" using BigNumberCompareTo58_spec [of b] ops(4-6) small by (simp add: less58_def bn_ok_def)
    from less58_byte [OF ops(4) this] ops(6) small show "unat (bn_data b ! (bn_length b - 1)) = 0" by simp
  qed
  let ?o2 = "replicate ?z 49 @ [?c] @ drop (?z + 1) out"
  have o2: "put ?o1 ?z ?c = Ok ?o2" using room by (simp add: list_update_append Cons_nth_drop_Suc [symmetric])
  have "\<not> less58 bi" using len(1) by (simp add: less58_def BigNumberCompareTo58_def)
  then have 2: "encode_loop (Suc (Suc n)) maxStrLen ?z bi ?o1 = Ok (True, ?z + 1, b, ?o2)" for n
    using ops(1-3) b(1) o2 room by (simp add: less58_def k)
  have fuel: "encode_fuel = Suc (Suc 398)" by (simp add: encode_fuel_def)
  let ?o3 = "replicate ?z 49 @ [?c, 49] @ drop (?z + 2) out"
  have 3: "put ?o2 (?z + 1) (base58Characters ! unat (bn_data b ! (bn_length b - 1))) = Ok ?o3"
    using room unfolding b(2)
    by (simp add: list_update_append base58Characters_bytes Cons_nth_drop_Suc [symmetric])
  have 4: "reverse_digits ?z (?z + 1 + 1) ?o3 = replicate ?z 49 @ [49, ?c] @ drop (?z + 2) out"
    using reverse_digits_spec [of ?z 2 ?o3] room by (simp add: splice_def)
  have 5: "put (replicate ?z 49 @ [49, ?c] @ drop (?z + 2) out) (?z + 1 + 1) 0 =
      Ok (splice out 0 (replicate (?z + 1) 49 @ [?c, 0]))"
    using room by (simp add: list_update_append splice_def Cons_nth_drop_Suc [symmetric] replicate_app_Cons_same)
  have ne: "bn_length bi \<noteq> 0" "\<not> maxStrLen < bn_length bi" using m(1) len by simp_all
  then show ?thesis unfolding CBEncodeBase58_def 1 fuel
    by (simp only: 2 bind_result_simps prod.case if_False simp_thms 3 4 5)
qed

text \<open>The text of any 25-byte number: below 58 it has one '1' too many.\<close>

definition address_text :: "bytes \<Rightarrow> bytes" where
  "address_text bs = (if 58 \<le> le_nat (rev bs) then base58_text bs
     else replicate (length (takeWhile ((=) 0) bs) + 1) 49 @ [base58Characters ! le_nat (rev bs)])"

lemma address_text_length: "length bs = 25 \<Longrightarrow> length (address_text bs) \<le> 35"
  using length_base58_text [of bs] length_takeWhile_le [of "(=) 0" bs] by (simp add: address_text_def)

lemma address_text_nonzero: "0 \<notin> set (address_text bs)"
  using text_nonzero [of bs] base58Characters_nonzero [of "le_nat (rev bs)"]
  by (auto simp: address_text_def)

lemma encodeBase58_any:
  assumes "length addr = 25" "36 \<le> maxStrLen" "maxStrLen \<le> length out"
  shows "encodeBase58 bld addr 25 True out maxStrLen = Ok (True, splice out 0 (address_text addr @ [0]))"
proof (cases "58 \<le> le_nat (rev addr)")
  case True
  with encodeBase58_text [OF assms(1) True assms(2,3)] show ?thesis by (simp add: address_text_def)
next
  case False
  obtain a where a: "BigNumber bld (Some (rev addr)) 25 = Ok a" "bn_ok a" "bn_length a = 25"
    "bn_val a = le_nat (rev addr)" "take 25 (bn_data a) = rev addr"
    using BigNumber_spec [of "rev addr" bld] assms(1) by (auto simp: bn_ok_def)
  have z: "top_zeros (rev addr) \<le> 25" using top_zeros_le [of "rev addr"] assms(1) by simp
  have "CBEncodeBase58 a out maxStrLen =
      Ok (True, splice out 0 (replicate (top_zeros (rev addr) + 1) 49 @ [base58Characters ! bn_val a, 0]))"
    using CBEncodeBase58_small [of a maxStrLen out] a assms z False by simp
  then show ?thesis using a False assms(1)
    by (simp add: encodeBase58_def address_text_def top_zeros_def)
qed

text \<open>
  For a 25-byte number below 58 the encoder writes a text that is not its Base58 text: one '1' for each
  leading zero byte, one more, and the digit. The 25 zero bytes of an output whose
  key is not accepted are printed as 27 times '1'.
\<close>

theorem encodeBase58_small:
  assumes "length addr = 25" "le_nat (rev addr) < 58" "36 \<le> maxStrLen" "maxStrLen \<le> length out"
  shows "encodeBase58 bld addr 25 True out maxStrLen =
    Ok (True, splice out 0 (replicate (length (takeWhile ((=) 0) addr) + 1) 49 @
       [base58Characters ! le_nat (rev addr), 0]))"
  using encodeBase58_any [OF assms(1,3,4), of bld] assms(2) by (simp add: address_text_def)

theorem encodeBase58_small_witness:
  "encodeBase58 Debug (replicate 25 0) 25 True (replicate 36 7) 36 =
     Ok (True, replicate 27 49 @ [0] @ replicate 8 7)"
  using encodeBase58_small [of "replicate 25 0" 36 "replicate 36 7" Debug]
  by (simp add: splice_def base58Characters_bytes replicate_app_Cons_same flip: replicate_Suc)
end
