(* ===== verification/BitcoinAddress.thy ===== *)
theory BitcoinAddress
  imports SHA256 RIPEMD160 Base58
begin

text \<open>
  Bitcoin addresses, src/src/BitcoinAddress.cpp: a 25-byte address is a version byte, the
  RIPEMD-160 of the SHA-256 of a public key, and four checksum bytes; its text is Base58. The
  array parameters have the sizes the prototypes give (65, 33, 25, 20); the output arrays are
  returned. The reference is \<open>address_spec\<close>, over the FIPS and RIPEMD references.
\<close>

section \<open>The code\<close>

text \<open>The four stores of the checksum bytes, which every function below ends with.\<close>

definition store_checksum :: "bytes \<Rightarrow> bytes \<Rightarrow> bytes" where
  "store_checksum output hash1 =
     output[21 := hash1 ! 0, 22 := hash1 ! 1, 23 := hash1 ! 2, 24 := hash1 ! 3]"

definition bitcoinPublicKeyToAddress :: "bytes \<Rightarrow> bytes \<Rightarrow> bool \<times> bytes" where
  "bitcoinPublicKeyToAddress input output =
     (if input ! 0 = 0x04 then
        let hash1 = computeSHA256 input 65;
            output = output[0 := 0];
            output = splice output 1 (computeRIPEMD160 hash1 32);
            hash1 = computeSHA256 output 21;
            hash1 = computeSHA256 hash1 32
        in (True, store_checksum output hash1)
      else (False, output))"

definition bitcoinCompressedPublicKeyToAddress :: "bytes \<Rightarrow> bytes \<Rightarrow> bool \<times> bytes" where
  "bitcoinCompressedPublicKeyToAddress input output =
     (if input ! 0 = 0x02 \<or> input ! 0 = 0x03 then
        let hash1 = computeSHA256 input 33;
            output = output[0 := 0];
            output = splice output 1 (computeRIPEMD160 hash1 32);
            hash1 = computeSHA256 output 21;
            hash1 = computeSHA256 hash1 32
        in (True, store_checksum output hash1)
      else (False, output))"

text \<open>The Ascii functions; \<open>hash2\<close> is the uninitialised 25-byte array on the stack.\<close>

definition bitcoinPublicKeyToAscii :: "build \<Rightarrow> bytes \<Rightarrow> bytes \<Rightarrow> bytes \<Rightarrow> nat \<Rightarrow> (bool \<times> bytes) result" where
  "bitcoinPublicKeyToAscii bld hash2 input output maxOutputLen =
     bind_result (put output 0 0) (\<lambda>output.
       case bitcoinPublicKeyToAddress input hash2 of
         (True, hash2) \<Rightarrow> encodeBase58 bld hash2 25 True output maxOutputLen
       | (False, hash2) \<Rightarrow> Ok (False, output))"

definition bitcoinCompressedPublicKeyToAscii :: "build \<Rightarrow> bytes \<Rightarrow> bytes \<Rightarrow> bytes \<Rightarrow> nat \<Rightarrow> (bool \<times> bytes) result" where
  "bitcoinCompressedPublicKeyToAscii bld hash2 input output maxOutputLen =
     bind_result (put output 0 0) (\<lambda>output.
       case bitcoinCompressedPublicKeyToAddress input hash2 of
         (True, hash2) \<Rightarrow> encodeBase58 bld hash2 25 True output maxOutputLen
       | (False, hash2) \<Rightarrow> Ok (False, output))"

definition bitcoinAsciiToAddress :: "build \<Rightarrow> bytes \<Rightarrow> bytes \<Rightarrow> (bool \<times> bytes) result" where
  "bitcoinAsciiToAddress bld input output =
     bind_result (decodeBase58 bld input output 25 True) (\<lambda>(len, output).
       if len = 25 then
         let checksum = computeSHA256 output 21;
             checksum = computeSHA256 checksum 32
         in Ok (output ! 21 = checksum ! 0 \<or> output ! 22 = checksum ! 1 \<or>
                output ! 23 = checksum ! 2 \<or> output ! 24 = checksum ! 3, output)
       else Ok (False, output))"

definition bitcoinRIPEMD160ToAddress :: "bytes \<Rightarrow> bytes \<Rightarrow> bytes" where
  "bitcoinRIPEMD160ToAddress ripeMD160 output =
     (let output = output[0 := 0];
          output = splice output 1 (take 20 ripeMD160);
          hash1 = computeSHA256 output 21;
          hash1 = computeSHA256 hash1 32
      in store_checksum output hash1)"

definition bitcoinRIPEMD160ToScriptAddress :: "bytes \<Rightarrow> bytes \<Rightarrow> bytes" where
  "bitcoinRIPEMD160ToScriptAddress ripeMD160 output =
     (let output = output[0 := 5];
          output = splice output 1 (take 20 ripeMD160);
          hash1 = computeSHA256 output 21;
          hash1 = computeSHA256 hash1 32
      in store_checksum output hash1)"

definition bitcoinAddressToAscii :: "build \<Rightarrow> bytes \<Rightarrow> bytes \<Rightarrow> nat \<Rightarrow> (bool \<times> bytes) result" where
  "bitcoinAddressToAscii bld address output maxOutputLen =
     encodeBase58 bld address 25 True output maxOutputLen"

section \<open>The reference\<close>

definition checksum_spec :: "bytes \<Rightarrow> bytes" where
  "checksum_spec payload = take 4 (sha256_spec (sha256_spec payload))"

definition address_spec :: "u8 \<Rightarrow> bytes \<Rightarrow> bytes" where
  "address_spec version h = version # h @ checksum_spec (version # h)"

lemma length_checksum_spec [simp]: "length (checksum_spec p) = 4"
  by (simp add: checksum_spec_def)

lemma sha256d: "length p = 21 \<Longrightarrow> computeSHA256 (computeSHA256 (p @ rest) 21) 32 = sha256_spec (sha256_spec p)"
  by (simp add: computeSHA256_eq)

lemma store_checksum_spec:
  assumes "length p = 21" "length t = 4"
  shows "store_checksum (p @ t) (computeSHA256 (computeSHA256 (p @ t) 21) 32) = p @ checksum_spec p"
proof -
  obtain a b c d where t: "t = [a, b, c, d]"
    using assms(2) by (auto simp: length_Suc_conv numeral_eq_Suc)
  let ?h = "sha256_spec (sha256_spec p)"
  have "take 4 ?h = [?h ! 0, ?h ! 1, ?h ! 2, ?h ! 3]"
    by (intro nth_equalityI) (auto simp: less_Suc_eq numeral_eq_Suc)
  then show ?thesis using assms(1)
    by (simp add: sha256d store_checksum_def checksum_spec_def t list_update_append)
qed

lemma payload_splice:
  assumes "length h = 20" "length out = 25"
  shows "splice (out[0 := v]) 1 h = (v # h) @ drop 21 out"
  using assms by (cases out) (simp_all add: splice_def)

lemma address_functions:
  assumes "length output = 25" "length key = 65" "length ckey = 33" "length h = 20"
  shows "bitcoinPublicKeyToAddress key output =
      (if key ! 0 = 4 then (True, address_spec 0 (ripemd160_spec (sha256_spec key))) else (False, output)) \<and>
    bitcoinCompressedPublicKeyToAddress ckey output =
      (if ckey ! 0 \<in> {2, 3} then (True, address_spec 0 (ripemd160_spec (sha256_spec ckey))) else (False, output)) \<and>
    bitcoinRIPEMD160ToAddress h output = address_spec 0 h \<and>
    bitcoinRIPEMD160ToScriptAddress h output = address_spec 5 h"
proof -
  have fin: "store_checksum (splice (output[0 := v]) 1 g)
      (computeSHA256 (computeSHA256 (splice (output[0 := v]) 1 g) 21) 32) = address_spec v g"
    if "length g = 20" for v g
    unfolding payload_splice [OF that assms(1)] using that assms(1)
    by (subst store_checksum_spec) (simp_all add: address_spec_def)
  have hash: "computeRIPEMD160 (computeSHA256 k (word_of_nat n)) 32 = ripemd160_spec (sha256_spec k)"
    if "length k = n" "n < 100" for k n
    using that by (simp add: computeSHA256_eq computeRIPEMD160_eq unat_word_of_nat_small)
  show ?thesis
    using hash [OF assms(2)] hash [OF assms(3)] fin [OF length_computeRIPEMD160] fin [OF assms(4)] assms(4)
    by (auto simp: bitcoinPublicKeyToAddress_def bitcoinCompressedPublicKeyToAddress_def Let_def
        bitcoinRIPEMD160ToAddress_def bitcoinRIPEMD160ToScriptAddress_def)
qed


text \<open>
  C37: the four functions that make an address compute version byte, hash and the first four bytes of
  the double SHA-256 of both, whatever the output array held; the public-key ones hash the key with
  SHA-256 then RIPEMD-160 and refuse a wrong prefix byte, leaving the array alone.
\<close>

theorem address_functions_correct:
  assumes "length output = 25" "length key = 65" "length ckey = 33" "length h = 20"
  shows "bitcoinPublicKeyToAddress key output =
      (if key ! 0 = 4 then (True, address_spec 0 (ripemd160_spec (sha256_spec key))) else (False, output)) \<and>
    bitcoinCompressedPublicKeyToAddress ckey output =
      (if ckey ! 0 \<in> {2, 3} then (True, address_spec 0 (ripemd160_spec (sha256_spec ckey))) else (False, output)) \<and>
    bitcoinRIPEMD160ToAddress h output = address_spec 0 h \<and>
    bitcoinRIPEMD160ToScriptAddress h output = address_spec 5 h"
  using assms by (rule address_functions)

theorem address_functions_correct_witness:
  "bitcoinPublicKeyToAddress (4 # replicate 64 7) (replicate 25 9)
     = (True, address_spec 0 (ripemd160_spec (sha256_spec (4 # replicate 64 7))))"
  using address_functions_correct [of "replicate 25 9" "4 # replicate 64 7" "replicate 33 0" "replicate 20 0"]
  by simp

section \<open>Text to address\<close>

lemma big_enough: "b \<in> set h \<Longrightarrow> b \<noteq> 0 \<Longrightarrow> length t = 4 \<Longrightarrow> 58 \<le> le_nat (rev (h @ t))"
proof -
  assume b: "b \<in> set h" "b \<noteq> 0" and t: "length t = 4"
  have "le_nat xs = 0 \<Longrightarrow> x \<in> set xs \<Longrightarrow> x = 0" for xs :: bytes and x
    by (induction xs) (auto simp: unat_eq_0)
  then have "le_nat (rev h) \<noteq> 0" using b by (metis set_rev)
  then have "1 \<le> le_nat (rev h)" by simp
  moreover have "le_nat (rev (h @ t)) = le_nat (rev t) + 4294967296 * le_nat (rev h)"
    using t by (simp add: le_nat_append)
  ultimately show ?thesis by linarith
qed

lemma bitcoinAsciiToAddress_text:
  assumes "length payload = 21" "length cs = 4" "\<exists>b \<in> set payload. b \<noteq> 0" "length output = 25"
  shows "bitcoinAsciiToAddress bld (base58_text (payload @ cs)) output =
    Ok (\<exists>i < 4. cs ! i = checksum_spec payload ! i, payload @ cs)"
proof -
  let ?h = "sha256_spec (sha256_spec payload)"
  have d: "decodeBase58 bld (base58_text (payload @ cs)) output 25 True = Ok (25, splice output 0 (payload @ cs))"
    using decodeBase58_text [of "payload @ cs" 25 "output" bld] big_enough [of _ payload cs] assms by auto
  have sp: "splice output 0 (payload @ cs) = payload @ cs"
    using assms by (simp add: splice_def)
  have n: "(payload @ cs) ! 21 = cs ! 0" "(payload @ cs) ! 22 = cs ! 1" "(payload @ cs) ! 23 = cs ! 2"
    "(payload @ cs) ! 24 = cs ! 3" using assms(1) by (simp_all add: nth_append)
  have "(i :: nat) < 4 \<longleftrightarrow> i = 0 \<or> i = 1 \<or> i = 2 \<or> i = 3" for i by linarith
  then have c: "(\<exists>i < 4. cs ! i = checksum_spec payload ! i) \<longleftrightarrow>
    cs ! 0 = ?h ! 0 \<or> cs ! 1 = ?h ! 1 \<or> cs ! 2 = ?h ! 2 \<or> cs ! 3 = ?h ! 3"
    unfolding checksum_spec_def by (metis nth_take)
  show ?thesis
    unfolding bitcoinAsciiToAddress_def d bind_result_simps prod.case sp Let_def sha256d [OF assms(1)] n c by simp
qed

text \<open>
  C38: what \<open>bitcoinAsciiToAddress\<close> accepts. On the Base58 text of 25 bytes it returns those bytes, and
  it answers true exactly when at least one of the four checksum bytes is right: the comparisons are
  joined with \<open>||\<close>, so an address with up to three wrong checksum bytes is accepted.
\<close>

theorem bitcoinAsciiToAddress_exact:
  assumes "length payload = 21" "length cs = 4" "\<exists>b \<in> set payload. b \<noteq> 0" "length output = 25"
  shows "bitcoinAsciiToAddress bld (base58_text (payload @ cs)) output =
    Ok (\<exists>i < 4. cs ! i = checksum_spec payload ! i, payload @ cs)"
  using assms by (rule bitcoinAsciiToAddress_text)

theorem bitcoinAsciiToAddress_exact_witness:
  "bitcoinAsciiToAddress Debug
     (base58_text ((0 # replicate 20 1) @ [checksum_spec (0 # replicate 20 1) ! 0, 0, 0, 0])) (replicate 25 0)
   = Ok (True, (0 # replicate 20 1) @ [checksum_spec (0 # replicate 20 1) ! 0, 0, 0, 0])"
proof -
  let ?p = "0 # replicate 20 1 :: bytes"
  let ?cs = "[checksum_spec ?p ! 0, 0, 0, 0]"
  have "\<exists>i < 4. ?cs ! i = checksum_spec ?p ! i" by (intro exI [of _ 0]) simp
  with bitcoinAsciiToAddress_exact [of ?p ?cs "replicate 25 0" Debug] show ?thesis by simp
qed

text \<open>
  From hash to text and back. For a public-key hash with a nonzero byte and for every script
  hash, the address made from the hash is written as text by \<open>bitcoinAddressToAscii\<close>, and
  \<open>bitcoinAsciiToAddress\<close> accepts that text and returns the address.
\<close>

theorem address_text_roundtrip:
  assumes "length h = 20" "length out = 25" "36 \<le> maxOutputLen" "maxOutputLen \<le> length buf" "length out2 = 25"
    and "addr = bitcoinRIPEMD160ToScriptAddress h out \<or>
         addr = bitcoinRIPEMD160ToAddress h out \<and> (\<exists>b \<in> set h. b \<noteq> 0)"
  shows "\<exists>s. bitcoinAddressToAscii bld addr buf maxOutputLen = Ok (True, s) \<and>
    bitcoinAsciiToAddress bld (takeWhile ((\<noteq>) 0) s) out2 = Ok (True, addr)"
proof -
  obtain v where a: "addr = (v # h) @ checksum_spec (v # h)" and nz: "\<exists>b \<in> set (v # h). b \<noteq> 0"
    using assms(6) address_functions [OF assms(2), of "replicate 65 0" "replicate 33 0" h] assms(1)
    by (auto simp: address_spec_def)
  have l: "length (v # h) = 21" "length addr = 25" using assms(1) a by simp_all
  have big: "58 \<le> le_nat (rev addr)" unfolding a using nz by (blast intro: big_enough length_checksum_spec)
  have "\<exists>i < 4. checksum_spec (v # h) ! i = checksum_spec (v # h) ! i" by (intro exI [of _ 0]) simp
  moreover have "takeWhile ((\<noteq>) 0) (splice buf 0 (base58_text addr @ [0])) = base58_text addr"
    using text_nonzero [of addr] by (auto simp: splice_def takeWhile_append)
  ultimately show ?thesis
    using encodeBase58_text [OF l(2) big assms(3,4)] bitcoinAsciiToAddress_text [OF l(1) length_checksum_spec nz assms(5)]
    by (simp add: bitcoinAddressToAscii_def a)
qed

theorem address_text_roundtrip_witness:
  "\<exists>s. bitcoinAddressToAscii Release (bitcoinRIPEMD160ToScriptAddress (replicate 20 0) (replicate 25 1)) (replicate 40 0) 40
      = Ok (True, s) \<and>
     bitcoinAsciiToAddress Release (takeWhile ((\<noteq>) 0) s) (replicate 25 0)
      = Ok (True, bitcoinRIPEMD160ToScriptAddress (replicate 20 0) (replicate 25 1))"
  by (rule address_text_roundtrip [where h = "replicate 20 0" and out = "replicate 25 1"]) simp_all

end
