(* ===== verification/BlockReader.thy ===== *)
theory BlockReader
  imports BitcoinAddress
begin

text \<open>
  The block parser: class \<open>BlockImpl\<close> of src/src/BlockChain.cpp, with the classes of
  src/include/BlockChain.h it fills. A pointer into the block is its offset from \<open>mBlockData\<close>,
  whose bytes are all the memory that may be read from there; the pool arrays \<open>mInputs\<close> and
  \<open>mOutputs\<close> are filled in order, so each transaction holds the list of its own slice. The globals of the file
  and what it logs are the record \<open>globals\<close>; memory that is read without having been written is
  an argument, the record \<open>stack_memory\<close>.
\<close>

section \<open>Data\<close>

definition MAX_BLOCK_SIZE :: nat where "MAX_BLOCK_SIZE = 1024 * 1024 * 32"
definition MAX_BLOCK_TRANSACTION :: u32 where "MAX_BLOCK_TRANSACTION = 32768"
definition MAX_BLOCK_INPUTS :: u32 where "MAX_BLOCK_INPUTS = 32768"
definition MAX_BLOCK_OUTPUTS :: u32 where "MAX_BLOCK_OUTPUTS = 32768"
definition MAX_REASONABLE_SCRIPT_LENGTH :: u32 where "MAX_REASONABLE_SCRIPT_LENGTH = 1024 * 32"
definition MAX_REASONABLE_INPUTS :: u32 where "MAX_REASONABLE_INPUTS = 32678"
definition MAX_REASONABLE_OUTPUTS :: u32 where "MAX_REASONABLE_OUTPUTS = 32768"
definition MAX_MULTISIG :: nat where "MAX_MULTISIG = 5"

text \<open>The opcodes the parser looks at.\<close>

definition OP_0 :: u8 where "OP_0 = 0x00"
definition OP_1 :: u8 where "OP_1 = 0x51"
definition OP_2 :: u8 where "OP_2 = 0x52"
definition OP_3 :: u8 where "OP_3 = 0x53"
definition OP_4 :: u8 where "OP_4 = 0x54"
definition OP_5 :: u8 where "OP_5 = 0x55"
definition OP_RETURN :: u8 where "OP_RETURN = 0x6a"
definition OP_DUP :: u8 where "OP_DUP = 0x76"
definition OP_EQUAL :: u8 where "OP_EQUAL = 0x87"
definition OP_EQUALVERIFY :: u8 where "OP_EQUALVERIFY = 0x88"
definition OP_HASH160 :: u8 where "OP_HASH160 = 0xa9"
definition OP_CHECKSIG :: u8 where "OP_CHECKSIG = 0xac"
definition OP_CHECKMULTISIG :: u8 where "OP_CHECKMULTISIG = 0xae"

lemmas opcodes = OP_0_def OP_1_def OP_2_def OP_3_def OP_4_def OP_5_def OP_RETURN_def OP_DUP_def
  OP_EQUAL_def OP_EQUALVERIFY_def OP_HASH160_def OP_CHECKSIG_def OP_CHECKMULTISIG_def

lemmas limits = MAX_BLOCK_SIZE_def MAX_BLOCK_TRANSACTION_def MAX_BLOCK_INPUTS_def MAX_BLOCK_OUTPUTS_def
  MAX_REASONABLE_SCRIPT_LENGTH_def MAX_REASONABLE_INPUTS_def MAX_REASONABLE_OUTPUTS_def MAX_MULTISIG_def

datatype KeyType =
  KT_UNKNOWN | KT_UNCOMPRESSED_PUBLIC_KEY | KT_COMPRESSED_PUBLIC_KEY | KT_RIPEMD160
| KT_TRUNCATED_COMPRESSED_KEY | KT_MULTISIG | KT_STEALTH | KT_SCRIPT_HASH | KT_ZERO_LENGTH | KT_LAST

text \<open>A \<open>publicKey\<close> pointer points into the block or at one of the two placeholder keys.\<close>

datatype keyref = InBlock nat | ZeroKey | DummyKey

record block_input =
  transactionHash :: nat
  transactionIndex :: u32
  responseScriptLength :: u32
  responseScript :: "nat option"
  sequenceNumber :: u32

record block_output =
  output_value :: u64
  challengeScriptLength :: u32
  challengeScript :: "nat option"
  signatureCount :: u32
  keyType :: KeyType
  keyTypeName :: string
  multiSigFormat :: u32
  publicKey :: "keyref option list"
  addresses :: "bytes list"
  multisig :: bytes
  asciiAddress :: bytes

definition BlockOutput :: block_output where
  "BlockOutput = \<lparr>output_value = 0, challengeScriptLength = 0, challengeScript = None, signatureCount = 1,
     keyType = KT_UNKNOWN, keyTypeName = ''UNKNOWN'', multiSigFormat = 0,
     publicKey = replicate MAX_MULTISIG None, addresses = replicate MAX_MULTISIG (replicate 25 0),
     multisig = replicate 25 0, asciiAddress = []\<rparr>"

record block_transaction =
  transactionVersionNumber :: u32
  inputCount :: u32
  inputs :: "block_input list"
  outputCount :: u32
  outputs :: "block_output list"
  lockTime :: u32
  computedTransactionHash :: bytes
  transactionLength :: u32
  tx_fileIndex :: u32
  tx_fileOffset :: u32
  tx_transactionIndex :: u32

record block_impl =
  mBlockData :: bytes
  mBlockRead :: nat
  mBlockEnd :: nat
  blockLength :: u32
  blockFormatVersion :: u32
  previousBlockHash :: nat
  merkleRoot :: nat
  timeStamp :: u32
  bits :: u32
  nonce :: u32
  transactionCount :: u32
  transactions :: "block_transaction list"
  computedBlockHash :: bytes
  blockIndex :: u32
  totalInputCount :: u32
  totalOutputCount :: u32
  fileIndex :: u32
  fileOffset :: u32
  blockReward :: u64
  nextBlockHash :: "bytes option"
  warning :: bool

datatype log_event =
  LogLargeInputScript u32 u32
| LogLargeOutputScript u32 u32
| LogUnusualExpectedScript u32 u32 u32
| LogMultisigWarning u32 u32 u32
| LogUnusualScript u32 u32 u32
| LogNoPublicKey u32 bytes
| LogZeroLengthScript u32
| LogUndecodedKey u32 u32 u32 u32
| LogUnusualVersion u32 u32
| LogTransactionHash bytes
| LogMissingHeader
| LogSkipped u32
| LogBadNextFile
| LogOpened u32
| LogOpenFailed u32
| LogHeadersTotal u32
| LogBlocksFound u32 u32
| LogGathering u32
| LogDuplicateTransaction bytes
| LogUnknownTransaction bytes

record globals =
  gBlockTime :: u32
  gBlockIndex :: u32
  gTransactionIndex :: u32
  gOutputIndex :: u32
  gIsWarning :: bool
  gReportTransactionHash :: bool
  gZeroByte :: bytes
  gDummyKey :: bytes
  logged :: "log_event list"

record stack_memory =
  stack_key32 :: u8
  stack_temp :: bytes

type_synonym reader_state = "block_impl \<times> globals"
type_synonym 'a reader = "reader_state \<Rightarrow> ('a \<times> reader_state) result"

section \<open>Reading\<close>

definition logMessage :: "log_event \<Rightarrow> globals \<Rightarrow> globals" where
  "logMessage e g = g\<lparr>logged := logged g @ [e]\<rparr>"

definition check :: "build \<Rightarrow> bool \<Rightarrow> unit reader" where
  "check bld c s = bind_result (c_assert bld c) (\<lambda>_. Ok ((), s))"

definition exit_if :: "bool \<Rightarrow> unit reader" where
  "exit_if c s = (if c then Fault ProcessExit else Ok ((), s))"

definition modify :: "(reader_state \<Rightarrow> reader_state) \<Rightarrow> unit reader" where
  "modify f s = Ok ((), f s)"

text \<open>\<open>read_bytes n\<close> is the body the fixed-size reads share: the assert, the load, the advance.\<close>

definition read_bytes :: "build \<Rightarrow> nat \<Rightarrow> bytes reader" where
  "read_bytes bld n s =
     (case s of (b, g) \<Rightarrow>
        bind_result (c_assert bld (mBlockRead b + n \<le> mBlockEnd b)) (\<lambda>_.
          if mBlockRead b + n \<le> length (mBlockData b)
          then Ok (take n (drop (mBlockRead b) (mBlockData b)), b\<lparr>mBlockRead := mBlockRead b + n\<rparr>, g)
          else Fault OutOfBounds))"

definition readU8 :: "build \<Rightarrow> u8 reader" where
  "readU8 bld = bind_state (read_bytes bld 1) (\<lambda>bs. return_state (load_le bs))"

definition readU16 :: "build \<Rightarrow> u16 reader" where
  "readU16 bld = bind_state (read_bytes bld 2) (\<lambda>bs. return_state (load_le bs))"

definition readU32 :: "build \<Rightarrow> u32 reader" where
  "readU32 bld = bind_state (read_bytes bld 4) (\<lambda>bs. return_state (load_le bs))"

definition readU64 :: "build \<Rightarrow> u64 reader" where
  "readU64 bld = bind_state (read_bytes bld 8) (\<lambda>bs. return_state (load_le bs))"

definition readHash :: "build \<Rightarrow> nat reader" where
  "readHash bld s =
     (case s of (b, g) \<Rightarrow>
        bind_result (c_assert bld (mBlockRead b + 32 \<le> mBlockEnd b)) (\<lambda>_.
          Ok (mBlockRead b, b\<lparr>mBlockRead := mBlockRead b + 32\<rparr>, g)))"

definition readVariableLengthInteger :: "build \<Rightarrow> u32 reader" where
  "readVariableLengthInteger bld =
     bind_state (readU8 bld) (\<lambda>v.
       if v < 0xFD then return_state (ucast v)
       else bind_state (readU16 bld) (\<lambda>v.
         if v < 0xFFFF then return_state (ucast v)
         else bind_state (readU32 bld) (\<lambda>v.
           if v < 0xFFFFFFFF then return_state v
           else bind_state (check bld False) (\<lambda>_.
             bind_state (readU64 bld) (\<lambda>v. return_state (ucast v))))))"

definition getReadBufferAdvance :: "build \<Rightarrow> u32 \<Rightarrow> nat reader" where
  "getReadBufferAdvance bld readLength s =
     (case s of (b, g) \<Rightarrow>
        let b' = b\<lparr>mBlockRead := mBlockRead b + unat readLength\<rparr>
        in bind_result (c_assert bld (mBlockRead b' \<le> mBlockEnd b')) (\<lambda>_. Ok (mBlockRead b, b', g)))"

text \<open>A script pointer: null for length zero, otherwise the place the read pointer had.\<close>

definition read_script :: "build \<Rightarrow> u32 \<Rightarrow> nat option reader" where
  "read_script bld len =
     (if len \<noteq> 0 then bind_state (getReadBufferAdvance bld len) (\<lambda>p. return_state (Some p))
      else return_state None)"

definition readInput :: "build \<Rightarrow> block_input reader" where
  "readInput bld =
     bind_state (readHash bld) (\<lambda>hash.
     bind_state (readU32 bld) (\<lambda>index.
     bind_state (readVariableLengthInteger bld) (\<lambda>len.
     bind_state (check bld (len < MAX_REASONABLE_SCRIPT_LENGTH)) (\<lambda>_.
     bind_state (modify (\<lambda>(b, g). (b, if len \<ge> 8192 then logMessage (LogLargeInputScript (gBlockIndex g) len) g else g))) (\<lambda>_.
       if len < MAX_REASONABLE_SCRIPT_LENGTH
       then bind_state (read_script bld len) (\<lambda>script.
            bind_state (readU32 bld) (\<lambda>seqno.
              return_state \<lparr>transactionHash = hash, transactionIndex = index, responseScriptLength = len,
                            responseScript = script, sequenceNumber = seqno\<rparr>))
       else (\<lambda>_. Fault ProcessExit))))))"

section \<open>Output scripts\<close>

text \<open>
  The keys of a multi-signature script: at most \<open>n\<close> more, from \<open>scanBegin\<close> on. Offsets are into the
  script, which starts at \<open>p\<close> in the block.
\<close>

fun multisig_scan :: "nat \<Rightarrow> bytes \<Rightarrow> nat \<Rightarrow> nat \<Rightarrow> nat \<Rightarrow> nat \<Rightarrow> block_output \<Rightarrow> block_output" where
  "multisig_scan 0 script p scanBegin scanEnd keyIndex out = out"
| "multisig_scan (Suc n) script p scanBegin scanEnd keyIndex out =
     (if scanBegin < scanEnd then
        if script ! scanBegin = 0x21 then
          multisig_scan n script p (scanBegin + 1 + 0x21) scanEnd (keyIndex + 1)
            (out\<lparr>keyType := KT_MULTISIG,
                 publicKey := (publicKey out)[keyIndex := Some (InBlock (p + scanBegin + 1))],
                 multiSigFormat := multiSigFormat out OR push_bit keyIndex 1\<rparr>)
        else if script ! scanBegin = 0x41 then
          multisig_scan n script p (scanBegin + 1 + 0x41) scanEnd (keyIndex + 1)
            (out\<lparr>keyType := KT_MULTISIG,
                 publicKey := (publicKey out)[keyIndex := Some (InBlock (p + scanBegin + 1))]\<rparr>)
        else out
      else out)"

definition set_key :: "KeyType \<Rightarrow> nat \<Rightarrow> block_output \<Rightarrow> block_output" where
  "set_key t p out = out\<lparr>publicKey := (publicKey out)[0 := Some (InBlock p)], keyType := t\<rparr>"

definition warn :: "(u32 \<Rightarrow> u32 \<Rightarrow> u32 \<Rightarrow> log_event) \<Rightarrow> globals \<Rightarrow> globals" where
  "warn e g = (logMessage (e (gBlockIndex g) (gTransactionIndex g) (gOutputIndex g)) g)\<lparr>gIsWarning := True\<rparr>"

definition is_p2pkh_at :: "bytes \<Rightarrow> nat \<Rightarrow> bool" where
  "is_p2pkh_at script i \<longleftrightarrow>
     script ! i = OP_DUP \<and> script ! (i + 1) = OP_HASH160 \<and> script ! (i + 2) = 20 \<and>
     script ! (i + 23) = OP_EQUALVERIFY \<and> script ! (i + 24) = OP_CHECKSIG"

definition multisig_output :: "bytes \<Rightarrow> nat \<Rightarrow> block_output \<Rightarrow> globals \<Rightarrow> block_output \<times> globals" where
  "multisig_output script p out g =
     (let scanEnd = length script - 2;
          expectedPrefix = (script ! 0 \<in> {OP_0, OP_1, OP_2, OP_3, OP_4, OP_5});
          expectedPostfix = (script ! scanEnd \<in> {OP_1, OP_2, OP_3, OP_4, OP_5});
          out = (if expectedPrefix \<and> expectedPostfix then multisig_scan 5 script p 1 scanEnd 0 out else out)
      in (out, if publicKey out ! 0 = None then warn LogMultisigWarning g else g))"

definition classify_script :: "bytes \<Rightarrow> nat \<Rightarrow> block_output \<Rightarrow> globals \<Rightarrow> block_output \<times> globals" where
  "classify_script script p out g =
     (let len = length script;
          lastInstruction = script ! (len - 1);
          out = (if len = 67 \<and> script ! 0 = 65 \<and> script ! 66 = OP_CHECKSIG
                 then set_key KT_UNCOMPRESSED_PUBLIC_KEY (p + 1) out else out);
          (out, g) =
            (if len = 40 \<and> script ! 0 = OP_RETURN then (set_key KT_STEALTH (p + 1) out, g)
             else if len = 66 \<and> script ! 65 = OP_CHECKSIG then (set_key KT_UNCOMPRESSED_PUBLIC_KEY p out, g)
             else if len = 35 \<and> script ! 34 = OP_CHECKSIG then (set_key KT_COMPRESSED_PUBLIC_KEY (p + 1) out, g)
             else if len = 33 \<and> script ! 0 = 0x20 then (set_key KT_TRUNCATED_COMPRESSED_KEY (p + 1) out, g)
             else if len = 23 \<and> script ! 0 = OP_HASH160 \<and> script ! 1 = 20 \<and> script ! 22 = OP_EQUAL
             then (set_key KT_SCRIPT_HASH (p + 2) out, g)
             else if len \<ge> 25 \<and> script ! 0 = OP_DUP \<and> script ! 1 = OP_HASH160 \<and> script ! 2 = 20
             then (set_key KT_RIPEMD160 (p + 3) out, g)
             else if len = 5 \<and> script ! 0 = OP_DUP \<and> script ! 1 = OP_HASH160 \<and> script ! 2 = OP_0 \<and>
               script ! 3 = OP_EQUALVERIFY \<and> script ! 4 = OP_CHECKSIG
             then (out, warn LogUnusualExpectedScript g)
             else if lastInstruction = OP_CHECKMULTISIG \<and> len > 25 then multisig_output script p out g
             else (case find (is_p2pkh_at script) [0..<len - 25] of
                     Some i \<Rightarrow> (set_key KT_RIPEMD160 (p + i + 3) out, warn LogUnusualScript g)
                   | None \<Rightarrow> (out, g)))
      in (out, if publicKey out ! 0 = None then logMessage (LogNoPublicKey (word_of_nat len) script) g else g))"

text \<open>The bytes a \<open>publicKey\<close> pointer points to.\<close>

definition deref :: "reader_state \<Rightarrow> keyref \<Rightarrow> nat \<Rightarrow> bytes result" where
  "deref s r n =
     (let (m, p) = (case r of InBlock p \<Rightarrow> (mBlockData (fst s), p) | ZeroKey \<Rightarrow> (gZeroByte (snd s), 1)
                    | DummyKey \<Rightarrow> (gDummyKey (snd s), 1))
      in if p + n \<le> length m then Ok (take n (drop p m)) else Fault OutOfBounds)"

text \<open>The address of a key: the makers look at its first byte and read the rest only if they like it.\<close>

definition public_key_address :: "reader_state \<Rightarrow> keyref \<Rightarrow> bytes \<Rightarrow> bytes result" where
  "public_key_address s r addr =
     bind_result (deref s r 1) (\<lambda>k.
       if fst (bitcoinPublicKeyToAddress k addr)
       then bind_result (deref s r 65) (\<lambda>k. Ok (snd (bitcoinPublicKeyToAddress k addr)))
       else Ok addr)"

definition compressed_key_address :: "reader_state \<Rightarrow> keyref \<Rightarrow> bytes \<Rightarrow> bytes result" where
  "compressed_key_address s r addr =
     bind_result (deref s r 1) (\<lambda>k.
       if fst (bitcoinCompressedPublicKeyToAddress k addr)
       then bind_result (deref s r 33) (\<lambda>k. Ok (snd (bitcoinCompressedPublicKeyToAddress k addr)))
       else Ok addr)"

fun multisig_addresses :: "reader_state \<Rightarrow> u32 \<Rightarrow> nat \<Rightarrow> keyref option list \<Rightarrow> bytes list \<Rightarrow> bytes list result" where
  "multisig_addresses s fmt i (Some key # keys) addrs =
     bind_result (if bit fmt i then compressed_key_address s key (addrs ! i)
                  else public_key_address s key (addrs ! i))
       (\<lambda>a. multisig_addresses s fmt (i + 1) keys (addrs[i := a]))"
| "multisig_addresses s fmt i keys addrs = Ok addrs"

definition output_addresses :: "stack_memory \<Rightarrow> reader_state \<Rightarrow> block_output \<Rightarrow> bytes list result" where
  "output_addresses stk s out =
     (let addrs = addresses out;
          first = (\<lambda>r. bind_result r (\<lambda>a. Ok (addrs[0 := a])))
      in case publicKey out ! 0 of
           None \<Rightarrow> Ok addrs
         | Some key \<Rightarrow>
             (case keyType out of
                KT_RIPEMD160 \<Rightarrow> first (bind_result (deref s key 20) (\<lambda>k. Ok (bitcoinRIPEMD160ToAddress k (addrs ! 0))))
              | KT_SCRIPT_HASH \<Rightarrow> first (bind_result (deref s key 20) (\<lambda>k. Ok (bitcoinRIPEMD160ToScriptAddress k (addrs ! 0))))
              | KT_STEALTH \<Rightarrow> first (bind_result (deref s key 20) (\<lambda>k. Ok (bitcoinRIPEMD160ToAddress k (addrs ! 0))))
              | KT_UNCOMPRESSED_PUBLIC_KEY \<Rightarrow> first (public_key_address s key (addrs ! 0))
              | KT_COMPRESSED_PUBLIC_KEY \<Rightarrow> first (compressed_key_address s key (addrs ! 0))
              | KT_TRUNCATED_COMPRESSED_KEY \<Rightarrow>
                  first (bind_result (deref s key 32) (\<lambda>k.
                    let local_key = splice (2 # replicate 31 0 @ [stack_key32 stk]) 0 k
                    in Ok (snd (bitcoinCompressedPublicKeyToAddress local_key (addrs ! 0)))))
              | KT_MULTISIG \<Rightarrow> multisig_addresses s (multiSigFormat out) 0 (publicKey out) addrs
              | _ \<Rightarrow> Ok addrs))"

fun getKeyType :: "KeyType \<Rightarrow> string" where
  "getKeyType KT_RIPEMD160 = ''RIPEMD160''"
| "getKeyType KT_UNCOMPRESSED_PUBLIC_KEY = ''UNCOMPRESSED_PUBLIC_KEY''"
| "getKeyType KT_COMPRESSED_PUBLIC_KEY = ''COMPRESSED_PUBLIC_KEY''"
| "getKeyType KT_TRUNCATED_COMPRESSED_KEY = ''TRUNCATED_COMPRESSED_KEY''"
| "getKeyType KT_MULTISIG = ''MULTISIG''"
| "getKeyType KT_STEALTH = ''STEALTH''"
| "getKeyType KT_ZERO_LENGTH = ''ZERO_LENGTH''"
| "getKeyType KT_SCRIPT_HASH = ''SCRIPT_HASH''"
| "getKeyType KT_UNKNOWN = ''UNKNOWN''"
| "getKeyType KT_LAST = ''UNKNOWN''"

text \<open>
  The text of an output: a tag for three key types, then the addresses of its keys separated by
  colons. \<open>temp\<close> is the local buffer, which keeps its content from one key to the next.
\<close>

fun ascii_keys :: "build \<Rightarrow> nat \<Rightarrow> keyref option list \<Rightarrow> bytes list \<Rightarrow> bytes \<Rightarrow> bytes \<Rightarrow> bytes result" where
  "ascii_keys bld i (Some k # keys) addrs temp txt =
     bind_result (bitcoinAddressToAscii bld (addrs ! i) temp 256) (\<lambda>(_, temp).
       ascii_keys bld (i + 1) keys addrs temp
         (txt @ (if i \<noteq> 0 then cstr '':'' else []) @ takeWhile ((\<noteq>) 0) temp))"
| "ascii_keys bld i keys addrs temp txt = Ok txt"

definition getAsciiAddress :: "build \<Rightarrow> stack_memory \<Rightarrow> block_output \<Rightarrow> block_output result" where
  "getAsciiAddress bld stk out =
     (let tag = (case keyType out of
                   KT_MULTISIG \<Rightarrow> cstr ''MultiSig['' @ decimal (unat (signatureCount out)) @ cstr '']''
                 | KT_STEALTH \<Rightarrow> cstr ''*STEALTH*''
                 | KT_SCRIPT_HASH \<Rightarrow> cstr ''*SCRIPT_HASH*''
                 | _ \<Rightarrow> [])
      in bind_result (ascii_keys bld 0 (publicKey out) (addresses out) (stack_temp stk) tag) (\<lambda>txt.
           if length txt < 512 then
             Ok (out\<lparr>asciiAddress := txt,
                     multisig := (if keyType out = KT_MULTISIG
                       then bitcoinRIPEMD160ToAddress (computeRIPEMD160 (concat (addresses out)) (25 * 5)) (multisig out)
                       else multisig out)\<rparr>)
           else Fault OutOfBounds))"

text \<open>
  \<open>readOutput\<close> reads the value and the script; \<open>decode_output\<close> is the rest of it: classification of the
  script, a placeholder key when none was found, addresses and text.
\<close>

definition decode_output :: "build \<Rightarrow> stack_memory \<Rightarrow> u64 \<Rightarrow> u32 \<Rightarrow> nat option \<Rightarrow> block_output reader" where
  "decode_output bld stk v len ptr s =
     (case s of (b, g) \<Rightarrow>
       let out = BlockOutput\<lparr>output_value := v, challengeScriptLength := len, challengeScript := ptr\<rparr>
       in bind_result
            (case ptr of
               Some p \<Rightarrow>
                 if p + unat len \<le> length (mBlockData b)
                 then Ok (classify_script (take (unat len) (drop p (mBlockData b))) p out g)
                 else Fault OutOfBounds
             | None \<Rightarrow> Ok (out, (logMessage (LogZeroLengthScript (gBlockIndex g)) g)\<lparr>gReportTransactionHash := True\<rparr>))
            (\<lambda>(out, g).
          let (out, g) =
                (if publicKey out ! 0 = None
                 then (out\<lparr>publicKey := (publicKey out)[0 := Some (if len = 0 then ZeroKey else DummyKey)],
                           keyType := KT_RIPEMD160\<rparr>,
                       (logMessage (LogUndecodedKey (gBlockIndex g) (gTransactionIndex g) (gOutputIndex g) len) g)
                         \<lparr>gReportTransactionHash := True, gIsWarning := True\<rparr>)
                 else (out, g))
          in bind_result (output_addresses stk (b, g) out) (\<lambda>addrs.
             bind_result (getAsciiAddress bld stk (out\<lparr>addresses := addrs, keyTypeName := getKeyType (keyType out)\<rparr>)) (\<lambda>out.
               Ok (out, b, if gReportTransactionHash g then g\<lparr>gIsWarning := True\<rparr> else g)))))"

definition readOutput :: "build \<Rightarrow> stack_memory \<Rightarrow> block_output reader" where
  "readOutput bld stk =
     bind_state (readU64 bld) (\<lambda>v.
     bind_state (modify (\<lambda>(b, g). (b\<lparr>blockReward := blockReward b + v\<rparr>, g))) (\<lambda>_.
     bind_state (readVariableLengthInteger bld) (\<lambda>len.
     bind_state (check bld (len < MAX_REASONABLE_SCRIPT_LENGTH)) (\<lambda>_.
     bind_state (modify (\<lambda>(b, g). (b, if len \<ge> 8192 then logMessage (LogLargeOutputScript (gBlockIndex g) len) g else g))) (\<lambda>_.
     bind_state (exit_if (\<not> len \<ge> 8192 \<and> len > MAX_REASONABLE_SCRIPT_LENGTH)) (\<lambda>_.
     bind_state (read_script bld len) (decode_output bld stk v len)))))))"

section \<open>Transactions and blocks\<close>

fun readInputs :: "build \<Rightarrow> nat \<Rightarrow> block_input list reader" where
  "readInputs bld 0 = return_state []"
| "readInputs bld (Suc n) =
     bind_state (readInput bld) (\<lambda>i. bind_state (readInputs bld n) (\<lambda>is. return_state (i # is)))"

fun readOutputs :: "build \<Rightarrow> stack_memory \<Rightarrow> nat \<Rightarrow> nat \<Rightarrow> block_output list reader" where
  "readOutputs bld stk i 0 = return_state []"
| "readOutputs bld stk i (Suc n) =
     bind_state (modify (\<lambda>(b, g). (b, g\<lparr>gOutputIndex := word_of_nat i\<rparr>))) (\<lambda>_.
     bind_state (readOutput bld stk) (\<lambda>out.
     bind_state (readOutputs bld stk (i + 1) n) (\<lambda>outs. return_state (out # outs))))"

text \<open>The end of a transaction: length, place in the file, double SHA-256 of its bytes, the report.\<close>

definition finish_transaction :: "nat \<Rightarrow> u32 \<Rightarrow> block_transaction \<Rightarrow> block_transaction reader" where
  "finish_transaction transactionBegin index t s =
     (case s of (b, g) \<Rightarrow>
        let len = word_of_nat (mBlockRead b - transactionBegin) :: u32;
            h = computeSHA256 (drop transactionBegin (mBlockData b)) len;
            h = computeSHA256 h 32;
            t = t\<lparr>transactionLength := len, tx_fileIndex := fileIndex b,
                  tx_fileOffset := fileOffset b + word_of_nat transactionBegin,
                  tx_transactionIndex := index, computedTransactionHash := h\<rparr>
        in Ok (t, b, if gReportTransactionHash g
                     then (logMessage (LogTransactionHash h) g)\<lparr>gReportTransactionHash := False\<rparr> else g))"

text \<open>
  \<open>readTransaction\<close> works on the pool entry \<open>t\<close> and returns whether it succeeded, the entry, and the next
  transaction index. A transaction without inputs is a failure, found before its outputs are read.
\<close>

definition readTransaction :: "build \<Rightarrow> stack_memory \<Rightarrow> block_transaction \<Rightarrow> u32 \<Rightarrow> u32 \<Rightarrow> (bool \<times> block_transaction \<times> u32) reader" where
  "readTransaction bld stk t index tindex =
     bind_state (\<lambda>s. Ok (mBlockRead (fst s), s)) (\<lambda>transactionBegin.
     bind_state (readU32 bld) (\<lambda>v.
     bind_state (modify (\<lambda>(b, g). (b, if v = 1 \<or> v = 2 then g
         else logMessage (LogUnusualVersion v tindex) (g\<lparr>gIsWarning := True\<rparr>)))) (\<lambda>_.
     bind_state (readVariableLengthInteger bld) (\<lambda>n.
     bind_state (check bld (n < MAX_REASONABLE_INPUTS)) (\<lambda>_.
     bind_state (exit_if (n \<ge> MAX_REASONABLE_INPUTS)) (\<lambda>_.
     bind_state (modify (\<lambda>(b, g). (b\<lparr>totalInputCount := totalInputCount b + n\<rparr>, g))) (\<lambda>_.
     bind_state (\<lambda>s. Ok (totalInputCount (fst s), s)) (\<lambda>total.
     bind_state (check bld (total < MAX_BLOCK_INPUTS)) (\<lambda>_.
     bind_state (exit_if (total \<ge> MAX_BLOCK_INPUTS)) (\<lambda>_.
     bind_state (readInputs bld (unat n)) (\<lambda>is.
       let t = t\<lparr>transactionVersionNumber := v, inputCount := n, inputs := is\<rparr>
       in if is = [] then return_state (False, t, index)
          else
            bind_state (readVariableLengthInteger bld) (\<lambda>m.
            bind_state (check bld (m < MAX_REASONABLE_OUTPUTS)) (\<lambda>_.
            bind_state (exit_if (m > MAX_REASONABLE_OUTPUTS)) (\<lambda>_.
            bind_state (modify (\<lambda>(b, g). (b\<lparr>totalOutputCount := totalOutputCount b + m\<rparr>, g))) (\<lambda>_.
            bind_state (\<lambda>s. Ok (totalOutputCount (fst s), s)) (\<lambda>total.
            bind_state (check bld (total < MAX_BLOCK_OUTPUTS)) (\<lambda>_.
            bind_state (exit_if (total \<ge> MAX_BLOCK_OUTPUTS)) (\<lambda>_.
            bind_state (readOutputs bld stk 0 (unat m)) (\<lambda>outs.
            bind_state (readU32 bld) (\<lambda>lock.
            bind_state (finish_transaction transactionBegin index
                (t\<lparr>outputCount := m, outputs := outs, lockTime := lock\<rparr>)) (\<lambda>t.
              return_state (True, t, index + 1))))))))))))))))))))))"

text \<open>The loop over the transactions of a block; it stops at the first failure, keeping that entry.\<close>

fun readTransactions :: "build \<Rightarrow> stack_memory \<Rightarrow> block_transaction list \<Rightarrow> u32 \<Rightarrow> nat \<Rightarrow> nat \<Rightarrow>
    (bool \<times> block_transaction list \<times> u32) reader" where
  "readTransactions bld stk pool index i 0 = return_state (True, pool, index)"
| "readTransactions bld stk pool index i (Suc n) =
     bind_state (modify (\<lambda>(b, g). (b, g\<lparr>gTransactionIndex := word_of_nat i\<rparr>))) (\<lambda>_.
     bind_state (readTransaction bld stk (pool ! i) index (word_of_nat i)) (\<lambda>(ok, t, index).
       if ok then readTransactions bld stk (pool[i := t]) index (i + 1) n
       else return_state (False, pool[i := t], index)))"

definition processBlockData :: "build \<Rightarrow> stack_memory \<Rightarrow> bytes \<Rightarrow> u32 \<Rightarrow> u32 \<Rightarrow> (bool \<times> u32) reader" where
  "processBlockData bld stk blockData len index =
     bind_state (modify (\<lambda>(b, g). (b\<lparr>mBlockData := blockData, mBlockRead := 0, mBlockEnd := unat len\<rparr>, g))) (\<lambda>_.
     bind_state (readU32 bld) (\<lambda>v.
     bind_state (readHash bld) (\<lambda>prev.
     bind_state (readHash bld) (\<lambda>merkle.
     bind_state (readU32 bld) (\<lambda>time.
     bind_state (readU32 bld) (\<lambda>bts.
     bind_state (readU32 bld) (\<lambda>nonc.
     bind_state (modify (\<lambda>(b, g). (b\<lparr>blockFormatVersion := v, previousBlockHash := prev, merkleRoot := merkle,
         timeStamp := time, bits := bts, nonce := nonc\<rparr>, g\<lparr>gBlockTime := time\<rparr>))) (\<lambda>_.
     bind_state (readVariableLengthInteger bld) (\<lambda>n.
     bind_state (modify (\<lambda>(b, g). (b\<lparr>transactionCount := n\<rparr>, g))) (\<lambda>_.
     bind_state (check bld (n < MAX_BLOCK_TRANSACTION)) (\<lambda>_.
     bind_state (exit_if (n \<ge> MAX_BLOCK_TRANSACTION)) (\<lambda>_.
     bind_state (\<lambda>s. Ok (transactions (fst s), s)) (\<lambda>pool.
     bind_state (readTransactions bld stk pool index 0 (unat n)) (\<lambda>(ok, pool, index).
     bind_state (modify (\<lambda>(b, g). (b\<lparr>transactions := pool\<rparr>, g))) (\<lambda>_.
       return_state (ok, index))))))))))))))))"

definition processTransactionData :: "build \<Rightarrow> stack_memory \<Rightarrow> bytes \<Rightarrow> u32 \<Rightarrow> block_transaction reader" where
  "processTransactionData bld stk transactionData len =
     bind_state (modify (\<lambda>(b, g). (b\<lparr>mBlockData := transactionData, mBlockRead := 0, mBlockEnd := unat len\<rparr>, g))) (\<lambda>_.
     bind_state (\<lambda>s. Ok (transactions (fst s) ! 0, s)) (\<lambda>t.
     bind_state (readTransaction bld stk t 0 0) (\<lambda>(ok, t, _).
     bind_state (exit_if (\<not> ok)) (\<lambda>_.
     bind_state (modify (\<lambda>(b, g). (b\<lparr>transactions := (transactions b)[0 := t]\<rparr>, g))) (\<lambda>_.
       return_state t)))))"

section \<open>What the primitive reads do\<close>

text \<open>\<open>adv n b\<close>: the cursor \<open>n\<close> bytes further. \<open>upcoming b xs\<close>: the next bytes of the block are \<open>xs\<close>.\<close>

definition adv :: "nat \<Rightarrow> block_impl \<Rightarrow> block_impl" where
  "adv n b = b\<lparr>mBlockRead := mBlockRead b + n\<rparr>"

definition upcoming :: "block_impl \<Rightarrow> bytes \<Rightarrow> bool" where
  "upcoming b xs \<longleftrightarrow> mBlockRead b + length xs \<le> mBlockEnd b \<and> mBlockEnd b \<le> length (mBlockData b) \<and>
     take (length xs) (drop (mBlockRead b) (mBlockData b)) = xs"

text \<open>A block object positioned at the start of the bytes \<open>d\<close>, and globals before anything was logged.\<close>

definition block_on :: "bytes \<Rightarrow> block_impl" where
  "block_on d = \<lparr>mBlockData = d, mBlockRead = 0, mBlockEnd = length d, blockLength = word_of_nat (length d),
     blockFormatVersion = 0, previousBlockHash = 0, merkleRoot = 0, timeStamp = 0, bits = 0, nonce = 0,
     transactionCount = 0, transactions = [], computedBlockHash = [], blockIndex = 0, totalInputCount = 0,
     totalOutputCount = 0, fileIndex = 0, fileOffset = 0, blockReward = 0, nextBlockHash = None, warning = False\<rparr>"

definition no_globals :: globals where
  "no_globals = \<lparr>gBlockTime = 0, gBlockIndex = 0, gTransactionIndex = 0, gOutputIndex = 0, gIsWarning = False,
     gReportTransactionHash = False, gZeroByte = replicate 25 0, gDummyKey = replicate 25 0, logged = []\<rparr>"

lemma upcoming_block_on [simp]: "upcoming (block_on d) d"
  by (simp add: upcoming_def block_on_def)

named_theorems reader "evaluation of the reader on known bytes"

lemma adv_simps [simp]:
  "mBlockRead (adv n b) = mBlockRead b + n" "mBlockEnd (adv n b) = mBlockEnd b"
  "mBlockData (adv n b) = mBlockData b" "adv m (adv n b) = adv (n + m) b" "adv 0 b = b"
  by (simp_all add: adv_def ac_simps)

lemma upcoming_append:
  assumes "upcoming b (xs @ ys)"
  shows "upcoming b xs" "upcoming (adv (length xs) b) ys"
proof -
  let ?d = "drop (mBlockRead b) (mBlockData b)"
  have *: "take (length xs + length ys) ?d = xs @ ys" using assms by (simp add: upcoming_def)
  have "take (length xs) ?d = take (length xs) (take (length xs + length ys) ?d)" by simp
  also have "\<dots> = xs" unfolding * by simp
  finally show "upcoming b xs" using assms by (simp add: upcoming_def)
  have "take (length ys) (drop (length xs) ?d) = drop (length xs) (take (length xs + length ys) ?d)"
    by (simp add: drop_take)
  also have "\<dots> = ys" unfolding * by simp
  finally show "upcoming (adv (length xs) b) ys"
    using assms by (simp add: upcoming_def add.commute)
qed

lemma upcoming_state [simp]:
  "upcoming (b\<lparr>blockReward := x\<rparr>) xs = upcoming b xs" "upcoming (b\<lparr>totalInputCount := y\<rparr>) xs = upcoming b xs"
  "upcoming (b\<lparr>totalOutputCount := y\<rparr>) xs = upcoming b xs"
  by (simp_all add: upcoming_def)

lemma adv_state [simp]:
  "mBlockRead (b\<lparr>blockReward := x\<rparr>) = mBlockRead b"
  "adv n (b\<lparr>blockReward := x\<rparr>) = (adv n b)\<lparr>blockReward := x\<rparr>"
  "adv n (b\<lparr>totalInputCount := y\<rparr>) = (adv n b)\<lparr>totalInputCount := y\<rparr>"
  "adv n (b\<lparr>totalOutputCount := y\<rparr>) = (adv n b)\<lparr>totalOutputCount := y\<rparr>"
  "blockReward (adv n b) = blockReward b" "totalInputCount (adv n b) = totalInputCount b"
  "totalOutputCount (adv n b) = totalOutputCount b" "fileIndex (adv n b) = fileIndex b"
  "fileOffset (adv n b) = fileOffset b"
  by (simp_all add: adv_def)

text \<open>A reader \<open>m\<close> consumes \<open>xs\<close> and yields \<open>v\<close>, changing nothing but the cursor.\<close>

definition consumes :: "'a reader \<Rightarrow> bytes \<Rightarrow> 'a \<Rightarrow> bool" where
  "consumes m xs v \<longleftrightarrow> (\<forall>b g. upcoming b xs \<longrightarrow> m (b, g) = Ok (v, adv (length xs) b, g))"

lemma consumesD: "consumes m xs v \<Longrightarrow> upcoming b xs \<Longrightarrow> m (b, g) = Ok (v, adv (length xs) b, g)"
  by (simp add: consumes_def)

lemma consumes_bind:
  assumes "consumes m xs v" "consumes (f v) ys w"
  shows "consumes (bind_state m f) (xs @ ys) w"
  unfolding consumes_def
proof (intro allI impI)
  fix b g assume up: "upcoming b (xs @ ys)"
  from consumesD [OF assms(1) upcoming_append(1) [OF up]] consumesD [OF assms(2) upcoming_append(2) [OF up]]
  show "bind_state m f (b, g) = Ok (w, adv (length (xs @ ys)) b, g)"
    by (simp add: bind_state_def)
qed

lemma consumes_return: "consumes (return_state v) [] v"
  by (simp add: consumes_def return_state_def)

lemma consumes_map: "consumes m xs v \<Longrightarrow> consumes (bind_state m (\<lambda>v. return_state (f v))) xs (f v)"
  using consumes_bind [of m xs v "\<lambda>v. return_state (f v)" "[]" "f v"] by (simp add: consumes_return)

lemma consumes_read_bytes: "consumes (read_bytes bld (length xs)) xs xs"
  by (auto simp: consumes_def read_bytes_def upcoming_def adv_def)

lemma consumes_reads:
  "length xs = 1 \<Longrightarrow> consumes (readU8 bld) xs (load_le xs)"
  "length xs = 2 \<Longrightarrow> consumes (readU16 bld) xs (load_le xs)"
  "length xs = 4 \<Longrightarrow> consumes (readU32 bld) xs (load_le xs)"
  "length xs = 8 \<Longrightarrow> consumes (readU64 bld) xs (load_le xs)"
  using consumes_map [OF consumes_read_bytes [of bld xs], of load_le]
    consumes_map [OF consumes_read_bytes [of bld xs], of load_le]
    consumes_map [OF consumes_read_bytes [of bld xs], of load_le]
    consumes_map [OF consumes_read_bytes [of bld xs], of load_le]
  by (simp_all add: readU8_def readU16_def readU32_def readU64_def)

lemma consumes_u8: "consumes (readU8 bld) [x] x"
  using consumes_reads(1) [of "[x]" bld] by (simp add: load_le.simps)

definition store16 :: "u16 \<Rightarrow> bytes" where
  "store16 w = to_le 2 (unat w)"

lemma length_store16 [simp]: "length (store16 w) = 2"
  by (simp add: store16_def)

lemma load_store16 [simp]: "load_le (store16 w) = w"
proof -
  have "unat w < 2 ^ 16" using unsigned_less [of w] by simp
  then show ?thesis by (simp add: load_le_nat store16_def le_nat_to_le)
qed

lemma consumes_u16: "consumes (readU16 bld) (store16 w) w"
  using consumes_reads(2) [of "store16 w" bld] by simp

lemma consumes_u32: "consumes (readU32 bld) (store32 w) w"
  using consumes_reads(3) [of "store32 w" bld] by simp

lemma consumes_u64: "consumes (readU64 bld) (store64 w) w"
  using consumes_reads(4) [of "store64 w" bld] by simp

text \<open>The wire format of the lengths the code can read: one byte, or the marker and two bytes.\<close>

definition varint :: "nat \<Rightarrow> bytes" where
  "varint n = (if n < 0xFD then [word_of_nat n] else 0xFD # store16 (word_of_nat n))"

lemma consumes_varint:
  assumes "n < 0xFFFF"
  shows "consumes (readVariableLengthInteger bld) (varint n) (word_of_nat n)"
proof (cases "n < 0xFD")
  case True
  let ?v = "word_of_nat n :: u8"
  have v: "?v < 0xFD" "ucast ?v = (word_of_nat n :: u32)"
    using True by (simp_all add: word_less_nat_alt word_unat_eq_iff unat_of_nat unsigned_ucast_eq take_bit_eq_mod)
  have "consumes (readVariableLengthInteger bld) ([?v] @ []) (ucast ?v)"
    unfolding readVariableLengthInteger_def using v(1)
    by (intro consumes_bind [OF consumes_u8]) (simp add: consumes_return)
  with True v(2) show ?thesis by (simp add: varint_def)
next
  case False
  let ?v = "word_of_nat n :: u16"
  have v: "?v < 0xFFFF" "ucast ?v = (word_of_nat n :: u32)"
    using assms by (simp_all add: word_less_nat_alt word_unat_eq_iff unat_of_nat unsigned_ucast_eq take_bit_eq_mod)
  have "consumes (readVariableLengthInteger bld) ([0xFD] @ store16 ?v @ []) (ucast ?v)"
    unfolding readVariableLengthInteger_def using v(1)
    by (intro consumes_bind [OF consumes_u8]) (simp del: append_Nil2, intro consumes_bind [OF consumes_u16], simp add: consumes_return)
  with False v(2) show ?thesis by (simp add: varint_def)
qed

text \<open>
  What \<open>readVariableLengthInteger\<close> makes of a prefix byte of at least 0xFD. It ignores which prefix it
  is and always looks at the next two bytes: any prefix with a 16-bit value below 0xFFFF yields that
  value and consumes three bytes, so a 32-bit (0xFE) or 64-bit (0xFF) encoding is read as its low half
  and the rest is left in the stream; four bytes follow only after 0xFFFF, eight only after 0xFFFFFFFF, where
  the debug build stops.
\<close>

theorem readVariableLengthInteger_prefixes:
  assumes "0xFD \<le> (p :: u8)" "upcoming b ([p] @ store16 w @ store32 x @ store64 y)"
  shows "readVariableLengthInteger bld (b, g) =
    (if w \<noteq> 0xFFFF then Ok (ucast w, adv 3 b, g)
     else if x \<noteq> 0xFFFFFFFF then Ok (x, adv 7 b, g)
     else if bld = Debug then Fault AssertFailure
     else Ok (ucast y, adv 15 b, g))"
proof -
  note up1 = upcoming_append [OF assms(2)]
  note up2 = upcoming_append [OF up1(2)]
  note up3 = upcoming_append [OF up2(2)]
  note reads = consumesD [OF consumes_u8 up1(1)] consumesD [OF consumes_u16 up2(1)]
    consumesD [OF consumes_u32 up3(1)] consumesD [OF consumes_u64 up3(2)]
  have "unat w < 2 ^ 16" "unat x < 2 ^ 32" using unsigned_less [of w] unsigned_less [of x] by simp_all
  then have "\<not> p < 0xFD" "w < 0xFFFF \<longleftrightarrow> w \<noteq> 0xFFFF" "x < 0xFFFFFFFF \<longleftrightarrow> x \<noteq> 0xFFFFFFFF"
    using assms(1) by (auto simp: word_less_nat_alt word_le_nat_alt word_unat_eq_iff)
  with reads show ?thesis
    by (cases bld) (simp_all add: readVariableLengthInteger_def bind_state_def return_state_def check_def numeral_3_eq_3)
qed

theorem readVariableLengthInteger_prefixes_witness:
  "readVariableLengthInteger Debug (block_on ([0xFE] @ store16 0 @ store32 1 @ store64 7), no_globals)
     = Ok (0, adv 3 (block_on ([0xFE] @ store16 0 @ store32 1 @ store64 7)), no_globals)"
  using readVariableLengthInteger_prefixes [where p = "0xFE" and w = 0 and x = 1 and y = 7 and bld = Debug
      and g = no_globals and b = "block_on ([0xFE] @ store16 0 @ store32 1 @ store64 7)"]
  by simp
section \<open>Standard outputs\<close>

datatype std_script = P2PKH bytes | P2SH bytes | P2PKC bytes | P2PKU bytes

fun script_bytes :: "std_script \<Rightarrow> bytes" where
  "script_bytes (P2PKH h) = [OP_DUP, OP_HASH160, 20] @ h @ [OP_EQUALVERIFY, OP_CHECKSIG]"
| "script_bytes (P2SH h) = [OP_HASH160, 20] @ h @ [OP_EQUAL]"
| "script_bytes (P2PKC k) = [33] @ k @ [OP_CHECKSIG]"
| "script_bytes (P2PKU k) = [65] @ k @ [OP_CHECKSIG]"

fun std_type :: "std_script \<Rightarrow> KeyType" where
  "std_type (P2PKH h) = KT_RIPEMD160"
| "std_type (P2SH h) = KT_SCRIPT_HASH"
| "std_type (P2PKC k) = KT_COMPRESSED_PUBLIC_KEY"
| "std_type (P2PKU k) = KT_UNCOMPRESSED_PUBLIC_KEY"

fun std_off :: "std_script \<Rightarrow> nat" where
  "std_off (P2PKH h) = 3"
| "std_off (P2SH h) = 2"
| "std_off (P2PKC k) = 1"
| "std_off (P2PKU k) = 1"

fun std_key :: "std_script \<Rightarrow> bytes" where
  "std_key (P2PKH h) = h"
| "std_key (P2SH h) = h"
| "std_key (P2PKC k) = k"
| "std_key (P2PKU k) = k"

fun std_address :: "std_script \<Rightarrow> bytes" where
  "std_address (P2PKH h) = address_spec 0 h"
| "std_address (P2SH h) = address_spec 5 h"
| "std_address (P2PKC k) = (if k ! 0 \<in> {2, 3} then address_spec 0 (ripemd160_spec (sha256_spec k)) else replicate 25 0)"
| "std_address (P2PKU k) = (if k ! 0 = 4 then address_spec 0 (ripemd160_spec (sha256_spec k)) else replicate 25 0)"

fun std_ok :: "std_script \<Rightarrow> bool" where
  "std_ok (P2PKH h) \<longleftrightarrow> length h = 20"
| "std_ok (P2SH h) \<longleftrightarrow> length h = 20"
| "std_ok (P2PKC k) \<longleftrightarrow> length k = 33"
| "std_ok (P2PKU k) \<longleftrightarrow> length k = 65 \<and> (\<forall>i < 42. \<not> is_p2pkh_at (script_bytes (P2PKU k)) i)"

lemma length_script_bytes:
  "std_ok s \<Longrightarrow> length (script_bytes s) = length (std_key s) + (case s of P2PKH _ \<Rightarrow> 5 | P2SH _ \<Rightarrow> 3 | _ \<Rightarrow> 2)"
  by (cases s) auto

lemma length_std_address: "std_ok s \<Longrightarrow> length (std_address s) = 25"
  by (cases s) (auto simp: address_spec_def)

lemma classify_std:
  assumes "std_ok s" "length (publicKey out) = 5"
  shows "classify_script (script_bytes s) p out g = (set_key (std_type s) (p + std_off s) out, g)"
proof (cases s)
  case (P2PKU k)
  have "find (is_p2pkh_at (script_bytes s)) [0..<42] = None"
    using assms(1) unfolding find_None_iff by (auto simp: P2PKU)
  with assms P2PKU show ?thesis
    by (simp add: classify_script_def Let_def nth_append set_key_def opcodes)
next
  case (P2PKC k)
  with assms show ?thesis by (simp add: classify_script_def Let_def nth_append set_key_def opcodes)
next
  case (P2PKH h)
  with assms show ?thesis by (simp add: classify_script_def Let_def nth_append set_key_def opcodes)
next
  case (P2SH h)
  with assms show ?thesis by (simp add: classify_script_def Let_def nth_append set_key_def opcodes)
qed

lemma upcoming_part:
  assumes "upcoming b xs" "i + n \<le> length xs"
  shows "take n (drop (mBlockRead b + i) (mBlockData b)) = take n (drop i xs)"
    "mBlockRead b + i + n \<le> length (mBlockData b)"
proof -
  let ?d = "drop (mBlockRead b) (mBlockData b)"
  have "take n (drop i (take (length xs) ?d)) = take n (drop i ?d)"
    using assms(2) by (simp add: drop_take min_def)
  then show "take n (drop (mBlockRead b + i) (mBlockData b)) = take n (drop i xs)"
    using assms(1) by (simp add: upcoming_def add.commute)
  show "mBlockRead b + i + n \<le> length (mBlockData b)" using assms by (simp add: upcoming_def)
qed

lemma bitcoinAddressToAscii_any:
  assumes "length addr = 25" "length temp = 256"
  shows "\<exists>t. bitcoinAddressToAscii bld addr temp 256 = Ok (True, t) \<and> takeWhile ((\<noteq>) 0) t = address_text addr \<and>
    length t = 256"
proof -
  let ?t = "splice temp 0 (address_text addr @ [0])"
  have "takeWhile ((\<noteq>) 0) ?t = address_text addr"
    using address_text_nonzero [of addr] by (auto simp: splice_def takeWhile_append)
  moreover have "length ?t = 256" using address_text_length [OF assms(1)] assms(2) by simp
  ultimately show ?thesis
    using encodeBase58_any [of addr 256 temp bld] assms by (simp add: bitcoinAddressToAscii_def)
qed

text \<open>The address part of an output with one key, at offset \<open>i\<close> of the script.\<close>

lemma output_addresses_std:
  assumes "std_ok s" "upcoming b (script_bytes s)" "length (addresses out) = 5" "addresses out ! 0 = replicate 25 0"
    "publicKey out ! 0 = Some (InBlock (mBlockRead b + std_off s))" "keyType out = std_type s" "mBlockData b' = mBlockData b"
  shows "output_addresses stk (b', g) out = Ok ((addresses out)[0 := std_address s])"
proof -
  let ?k = "InBlock (mBlockRead b + std_off s)"
  have d: "deref (b', g) ?k n = Ok (take n (std_key s))" if "n \<le> length (std_key s)" for n
  proof -
    have "std_off s + n \<le> length (script_bytes s)" "take n (drop (std_off s) (script_bytes s)) = take n (std_key s)"
      using assms(1) that by (cases s; simp add: numeral_eq_Suc)+
    then show ?thesis using upcoming_part [OF assms(2), of "std_off s" n] assms(7) by (simp add: deref_def add.assoc)
  qed
  have mk: "bitcoinRIPEMD160ToAddress h (replicate 25 0) = address_spec 0 h"
    "bitcoinRIPEMD160ToScriptAddress h (replicate 25 0) = address_spec 5 h" if "length h = 20" for h
    using address_functions [of "replicate 25 0" "replicate 65 0" "replicate 33 0" h] that by simp_all
  have pk: "bitcoinPublicKeyToAddress key (replicate 25 0) =
      (if key ! 0 = 4 then (True, address_spec 0 (ripemd160_spec (sha256_spec key))) else (False, replicate 25 0))"
    if "length key = 65" for key
    using address_functions [of "replicate 25 0" key "replicate 33 0" "replicate 20 0"] that by simp
  have ck: "bitcoinCompressedPublicKeyToAddress key (replicate 25 0) =
      (if key ! 0 \<in> {2, 3} then (True, address_spec 0 (ripemd160_spec (sha256_spec key))) else (False, replicate 25 0))"
    if "length key = 33" for key
    using address_functions [of "replicate 25 0" "replicate 65 0" key "replicate 20 0"] that by simp
  have first: "fst (bitcoinPublicKeyToAddress (take 1 key) addr) = (key ! 0 = 4)"
    "fst (bitcoinCompressedPublicKeyToAddress (take 1 key) addr) = (key ! 0 \<in> {2, 3})" if "key \<noteq> []" for key addr
    using that by (simp_all add: bitcoinPublicKeyToAddress_def bitcoinCompressedPublicKeyToAddress_def Let_def)
  show ?thesis
  proof (cases s)
    case (P2PKH h)
    with assms d [of 20] mk show ?thesis by (simp add: output_addresses_def Let_def)
  next
    case (P2SH h)
    with assms d [of 20] mk show ?thesis by (simp add: output_addresses_def Let_def)
  next
    case (P2PKC k)
    then have "length k = 33" "k \<noteq> []" using assms(1) by auto
    with P2PKC assms d [of 1] d [of 33] ck first(2) show ?thesis
      by (auto simp: output_addresses_def Let_def compressed_key_address_def list_update_same_conv)
  next
    case (P2PKU k)
    then have "length k = 65" "k \<noteq> []" using assms(1) by auto
    with P2PKU assms d [of 1] d [of 65] pk first(1) show ?thesis
      by (auto simp: output_addresses_def Let_def public_key_address_def list_update_same_conv)
  qed
qed

definition std_output :: "nat \<Rightarrow> u64 \<Rightarrow> std_script \<Rightarrow> block_output" where
  "std_output p v s = BlockOutput\<lparr>output_value := v, challengeScriptLength := word_of_nat (length (script_bytes s)),
     challengeScript := Some p, keyType := std_type s, keyTypeName := getKeyType (std_type s),
     publicKey := Some (InBlock (p + std_off s)) # replicate 4 None,
     addresses := std_address s # replicate 4 (replicate 25 0),
     asciiAddress := (if std_type s = KT_SCRIPT_HASH then cstr ''*SCRIPT_HASH*'' else []) @ address_text (std_address s)\<rparr>"

lemma decode_output_std:
  assumes "std_ok s" "upcoming b (script_bytes s)" "length (stack_temp stk) = 256" "mBlockData b' = mBlockData b"
  shows "decode_output bld stk v (word_of_nat (length (script_bytes s))) (Some (mBlockRead b)) (b', g) =
    Ok (std_output (mBlockRead b) v s, b', if gReportTransactionHash g then g\<lparr>gIsWarning := True\<rparr> else g)"
proof -
  let ?p = "mBlockRead b" and ?scr = "script_bytes s"
  have len: "length ?scr < 100" "?scr \<noteq> []" using assms(1) by (cases s; simp)+
  then have u: "unat (word_of_nat (length ?scr) :: u32) = length ?scr" by (intro unat_word_of_nat_small) simp
  have mem: "take (length ?scr) (drop ?p (mBlockData b')) = ?scr" "?p + length ?scr \<le> length (mBlockData b')"
    using assms(2,4) by (simp_all add: upcoming_def)
  define out0 where "out0 = BlockOutput\<lparr>output_value := v, challengeScriptLength := word_of_nat (length ?scr), challengeScript := Some ?p\<rparr>"
  define out where "out = set_key (std_type s) (?p + std_off s) out0"
  have cls: "classify_script ?scr ?p out0 g = (out, g)"
    unfolding out_def by (rule classify_std [OF assms(1)]) (simp add: out0_def BlockOutput_def MAX_MULTISIG_def)
  have o: "publicKey out = Some (InBlock (?p + std_off s)) # replicate 4 None" "keyType out = std_type s"
    "addresses out = replicate 5 (replicate 25 0)"
    by (simp_all add: out_def set_key_def out0_def BlockOutput_def MAX_MULTISIG_def numeral_eq_Suc)
  have addrs: "output_addresses stk (b', g) out = Ok (std_address s # replicate 4 (replicate 25 0))"
    using output_addresses_std [OF assms(1,2) _ _ _ o(2) assms(4), of stk g] o by (simp add: numeral_eq_Suc)
  obtain t where t: "bitcoinAddressToAscii bld (std_address s) (stack_temp stk) 256 = Ok (True, t)"
    "takeWhile ((\<noteq>) 0) t = address_text (std_address s)"
    using bitcoinAddressToAscii_any [OF length_std_address [OF assms(1)] assms(3)] by blast
  have "length (address_text (std_address s)) \<le> 35"
    by (rule address_text_length [OF length_std_address [OF assms(1)]])
  then have ascii: "getAsciiAddress bld stk (out\<lparr>addresses := std_address s # replicate 4 (replicate 25 0),
      keyTypeName := getKeyType (keyType out)\<rparr>) = Ok (std_output ?p v s)"
    using t o by (cases s) (simp_all add: getAsciiAddress_def ascii_keys.simps out_def out0_def set_key_def std_output_def
        BlockOutput_def MAX_MULTISIG_def cstr_def numeral_eq_Suc)
  show ?thesis
    using cls o addrs ascii len(2) by (simp add: decode_output_def u mem out0_def [symmetric])
qed

definition ser_output :: "u64 \<times> std_script \<Rightarrow> bytes" where
  "ser_output o' = store64 (fst o') @ varint (length (script_bytes (snd o'))) @ script_bytes (snd o')"

lemma readOutput_std:
  assumes "std_ok s" "length (stack_temp stk) = 256"
    and "upcoming b (store64 v @ varint (length (script_bytes s)) @ script_bytes s)"
  shows "readOutput bld stk (b, g) = Ok (std_output (mBlockRead b + 9) v s,
    (adv (9 + length (script_bytes s)) b)\<lparr>blockReward := blockReward b + v\<rparr>,
    if gReportTransactionHash g then g\<lparr>gIsWarning := True\<rparr> else g)"
proof -
  let ?scr = "script_bytes s" let ?n = "word_of_nat (length ?scr) :: u32"
  let ?b = "\<lambda>k. (adv k b)\<lparr>blockReward := blockReward b + v\<rparr>"
  have len: "length ?scr < 100" "?scr \<noteq> []" using assms(1) by (cases s; simp)+
  have v1: "length (varint (length ?scr)) = 1" using len by (simp add: varint_def)
  have n: "unat ?n = length ?scr" using len by (intro unat_word_of_nat_small) simp
  then have nz: "?n \<noteq> 0" using len(2) by (metis length_0_conv unat_0)
  have lim: "?n < MAX_REASONABLE_SCRIPT_LENGTH" "\<not> 8192 \<le> ?n" "\<not> MAX_REASONABLE_SCRIPT_LENGTH < ?n"
    using len n by (simp_all add: limits word_less_nat_alt word_le_nat_alt)
  note up1 = upcoming_append [OF assms(3)]
  note up2 = upcoming_append [OF up1(2), unfolded v1, simplified]
  have r1: "readU64 bld (b, g) = Ok (v, adv 8 b, g)" using consumesD [OF consumes_u64 up1(1)] by simp
  have "upcoming (?b 8) (varint (length ?scr))" using up2(1) by simp
  from consumesD [OF consumes_varint this, of bld g]
  have r2: "readVariableLengthInteger bld (?b 8, g) = Ok (?n, ?b 9, g)" using len(1) v1 by simp
  have r3: "read_script bld ?n (?b 9, g) = Ok (Some (mBlockRead b + 9), ?b (9 + length ?scr), g)"
    using up2(2) nz n by (simp add: read_script_def getReadBufferAdvance_def bind_state_def return_state_def
        upcoming_def adv_def)
  have "decode_output bld stk v ?n (Some (mBlockRead (adv 9 b))) (?b (9 + length ?scr), g) =
      Ok (std_output (mBlockRead (adv 9 b)) v s, ?b (9 + length ?scr), if gReportTransactionHash g then g\<lparr>gIsWarning := True\<rparr> else g)"
    using up2(2) by (intro decode_output_std [OF assms(1) _ assms(2)]) simp_all
  then show ?thesis
    using r1 r2 r3 lim by (simp add: readOutput_def bind_state_def check_def modify_def exit_if_def)
qed

text \<open>
  C17: standard outputs. On the wire form of a pay-to-key-hash, pay-to-script-hash or pay-to-key
  output, \<open>readOutput\<close> returns the value, the script's place and length, the right key type, the
  address of the reference (\<open>address_spec\<close>; all zero for a key with a wrong prefix byte) and its text,
  adds the value to the block reward, moves past exactly these bytes and reports nothing.
\<close>

theorem readOutput_standard:
  assumes "std_ok s" "length (stack_temp stk) = 256"
    and "upcoming b (store64 v @ varint (length (script_bytes s)) @ script_bytes s)"
  shows "readOutput bld stk (b, g) = Ok (std_output (mBlockRead b + 9) v s,
    (adv (9 + length (script_bytes s)) b)\<lparr>blockReward := blockReward b + v\<rparr>,
    if gReportTransactionHash g then g\<lparr>gIsWarning := True\<rparr> else g)"
  using assms by (rule readOutput_std)

theorem readOutput_standard_witness:
  "readOutput Release \<lparr>stack_key32 = 7, stack_temp = replicate 256 1\<rparr>
     (block_on (store64 5000 @ varint 25 @ script_bytes (P2PKH (replicate 20 9))), no_globals)
   = Ok (std_output 9 5000 (P2PKH (replicate 20 9)),
      (adv 34 (block_on (store64 5000 @ varint 25 @ script_bytes (P2PKH (replicate 20 9)))))
        \<lparr>blockReward := 5000\<rparr>, no_globals)"
  using readOutput_standard [of "P2PKH (replicate 20 9)" "\<lparr>stack_key32 = 7, stack_temp = replicate 256 1\<rparr>"
      "block_on (store64 5000 @ varint 25 @ script_bytes (P2PKH (replicate 20 9)))" 5000 Release no_globals]
  by (simp add: block_on_def no_globals_def upcoming_def)

section \<open>Whole transactions\<close>

record wire_input =
  wi_hash :: bytes
  wi_index :: u32
  wi_script :: bytes
  wi_sequence :: u32

definition ser_input :: "wire_input \<Rightarrow> bytes" where
  "ser_input i = wi_hash i @ store32 (wi_index i) @ varint (length (wi_script i)) @ wi_script i @ store32 (wi_sequence i)"

definition wi_ok :: "wire_input \<Rightarrow> bool" where
  "wi_ok i \<longleftrightarrow> length (wi_hash i) = 32 \<and> length (wi_script i) < 8192"

definition input_at :: "nat \<Rightarrow> wire_input \<Rightarrow> block_input" where
  "input_at p i = \<lparr>transactionHash = p, transactionIndex = wi_index i,
     responseScriptLength = word_of_nat (length (wi_script i)),
     responseScript = (if wi_script i = [] then None else Some (p + 36 + length (varint (length (wi_script i))))),
     sequenceNumber = wi_sequence i\<rparr>"

fun inputs_at :: "nat \<Rightarrow> wire_input list \<Rightarrow> block_input list" where
  "inputs_at p [] = []"
| "inputs_at p (i # is) = input_at p i # inputs_at (p + length (ser_input i)) is"

fun outputs_at :: "nat \<Rightarrow> (u64 \<times> std_script) list \<Rightarrow> block_output list" where
  "outputs_at p [] = []"
| "outputs_at p (x # xs) = std_output (p + 9) (fst x) (snd x) # outputs_at (p + length (ser_output x)) xs"

lemma length_inputs_at [simp]: "length (inputs_at p is) = length is"
  by (induction "is" arbitrary: p) simp_all

lemma readHash_upcoming: "upcoming b xs \<Longrightarrow> length xs = 32 \<Longrightarrow> readHash bld (b, g) = Ok (mBlockRead b, adv 32 b, g)"
  by (simp add: readHash_def upcoming_def adv_def)

lemma read_script_upcoming:
  assumes "upcoming b xs" "length xs < 2 ^ 32"
  shows "read_script bld (word_of_nat (length xs)) (b, g) =
    Ok (if xs = [] then None else Some (mBlockRead b), adv (length xs) b, g)"
proof (cases "xs = []")
  case True
  then show ?thesis by (simp add: read_script_def return_state_def)
next
  case False
  have n: "unat (word_of_nat (length xs) :: u32) = length xs" using assms(2) by (intro unat_word_of_nat_small) simp
  then have "(word_of_nat (length xs) :: u32) \<noteq> 0" using False by (metis length_0_conv unat_0)
  then show ?thesis using False assms(1) n
    by (simp add: read_script_def getReadBufferAdvance_def bind_state_def return_state_def upcoming_def adv_def)
qed

lemma readInput_wire:
  assumes "wi_ok i" "upcoming b (ser_input i)"
  shows "readInput bld (b, g) = Ok (input_at (mBlockRead b) i, adv (length (ser_input i)) b, g)"
proof -
  let ?scr = "wi_script i" let ?n = "word_of_nat (length ?scr) :: u32" let ?v = "length (varint (length ?scr))"
  have ok: "length (wi_hash i) = 32" "length ?scr < 8192" using assms(1) by (simp_all add: wi_ok_def)
  have n: "unat ?n = length ?scr" using ok(2) by (intro unat_word_of_nat_small) simp
  have lim: "?n < MAX_REASONABLE_SCRIPT_LENGTH" "\<not> 8192 \<le> ?n"
    using ok n by (simp_all add: limits word_less_nat_alt word_le_nat_alt)
  note up1 = upcoming_append [OF assms(2) [unfolded ser_input_def]]
  note up2 = upcoming_append [OF up1(2), unfolded ok(1)]
  note up3 = upcoming_append [OF up2(2)]
  note up4 = upcoming_append [OF up3(2)]
  have "readVariableLengthInteger bld (adv 36 b, g) = Ok (?n, adv (36 + ?v) b, g)"
    using consumesD [OF consumes_varint up3(1)] ok(2) by simp
  moreover have "read_script bld ?n (adv (36 + ?v) b, g) =
      Ok (if ?scr = [] then None else Some (mBlockRead b + 36 + ?v), adv (36 + ?v + length ?scr) b, g)"
    using read_script_upcoming [OF up4(1)] ok(2) by simp
  moreover have "readU32 bld (adv (36 + ?v + length ?scr) b, g) = Ok (wi_sequence i, adv (length (ser_input i)) b, g)"
    using consumesD [OF consumes_u32 up4(2)] ok(1) by (simp add: ser_input_def add.assoc)
  ultimately show ?thesis
    using readHash_upcoming [OF up1(1) ok(1)] consumesD [OF consumes_u32 up2(1)] lim
    by (simp add: readInput_def bind_state_def return_state_def check_def modify_def input_at_def)
qed

lemma readInputs_wire:
  assumes "\<forall>i \<in> set is. wi_ok i" "upcoming b (concat (map ser_input is))"
  shows "readInputs bld (length is) (b, g) =
    Ok (inputs_at (mBlockRead b) is, adv (length (concat (map ser_input is))) b, g)"
  using assms
proof (induction "is" arbitrary: b)
  case (Cons i "is")
  note up = upcoming_append [OF Cons.prems(2) [simplified]]
  show ?case using readInput_wire [OF _ up(1)] Cons.IH [OF _ up(2)] Cons.prems(1)
    by (simp add: bind_state_def return_state_def)
qed (simp add: return_state_def)

lemma readOutputs_wire:
  assumes "\<forall>x \<in> set xs. std_ok (snd x)" "length (stack_temp stk) = 256" "upcoming b (concat (map ser_output xs))"
    "\<not> gReportTransactionHash g"
  shows "readOutputs bld stk k (length xs) (b, g) =
    Ok (outputs_at (mBlockRead b) xs,
      (adv (length (concat (map ser_output xs))) b)\<lparr>blockReward := blockReward b + sum_list (map fst xs)\<rparr>,
      if xs = [] then g else g\<lparr>gOutputIndex := word_of_nat (k + length xs - 1)\<rparr>)"
  using assms(1,3,4)
proof (induction xs arbitrary: b g k)
  case (Cons x xs)
  note up = upcoming_append [OF Cons.prems(2) [simplified]]
  let ?g = "g\<lparr>gOutputIndex := word_of_nat k\<rparr>"
  let ?b = "(adv (length (ser_output x)) b)\<lparr>blockReward := blockReward b + fst x\<rparr>"
  have ok: "std_ok (snd x)" using Cons.prems(1) by simp
  have "length (varint (length (script_bytes (snd x)))) = 1"
    using ok by (cases "snd x") (simp_all add: varint_def)
  then have len: "length (ser_output x) = 9 + length (script_bytes (snd x))" by (simp add: ser_output_def)
  have r: "readOutput bld stk (b, ?g) = Ok (std_output (mBlockRead b + 9) (fst x) (snd x), ?b, ?g)"
    using readOutput_std [OF ok assms(2) up(1) [unfolded ser_output_def], of bld ?g] Cons.prems(3) len by simp
  from Cons.IH [of ?b ?g "Suc k"] Cons.prems(1,3) up(2) r show ?case
    by (simp add: bind_state_def return_state_def modify_def add.assoc)
qed (simp add: return_state_def)

record wire_tx =
  wt_version :: u32
  wt_inputs :: "wire_input list"
  wt_outputs :: "(u64 \<times> std_script) list"
  wt_lock :: u32

definition ser_tx :: "wire_tx \<Rightarrow> bytes" where
  "ser_tx tx = store32 (wt_version tx) @ varint (length (wt_inputs tx)) @ concat (map ser_input (wt_inputs tx)) @
     varint (length (wt_outputs tx)) @ concat (map ser_output (wt_outputs tx)) @ store32 (wt_lock tx)"

definition wt_ok :: "wire_tx \<Rightarrow> bool" where
  "wt_ok tx \<longleftrightarrow> wt_version tx \<in> {1, 2} \<and> wt_inputs tx \<noteq> [] \<and> length (wt_inputs tx) < 32678 \<and>
     length (wt_outputs tx) < 32768 \<and> (\<forall>i \<in> set (wt_inputs tx). wi_ok i) \<and>
     (\<forall>x \<in> set (wt_outputs tx). std_ok (snd x)) \<and> length (ser_tx tx) < 2 ^ 32"

text \<open>The entry \<open>readTransaction\<close> must produce for a transaction at \<open>p\<close> of a block that lies at \<open>b\<close>'s place.\<close>

definition tx_at :: "block_impl \<Rightarrow> nat \<Rightarrow> u32 \<Rightarrow> wire_tx \<Rightarrow> block_transaction" where
  "tx_at b p index tx =
     (let pin = p + 4 + length (varint (length (wt_inputs tx)));
          pout = pin + length (concat (map ser_input (wt_inputs tx))) + length (varint (length (wt_outputs tx)))
      in \<lparr>transactionVersionNumber = wt_version tx, inputCount = word_of_nat (length (wt_inputs tx)),
          inputs = inputs_at pin (wt_inputs tx), outputCount = word_of_nat (length (wt_outputs tx)),
          outputs = outputs_at pout (wt_outputs tx), lockTime = wt_lock tx,
          computedTransactionHash = sha256_spec (sha256_spec (ser_tx tx)),
          transactionLength = word_of_nat (length (ser_tx tx)), tx_fileIndex = fileIndex b,
          tx_fileOffset = fileOffset b + word_of_nat p, tx_transactionIndex = index\<rparr>)"

lemma finish_transaction_wire:
  assumes "upcoming b (ser_tx tx)" "length (ser_tx tx) < 2 ^ 32" "mBlockData b' = mBlockData b"
    "mBlockRead b' = mBlockRead b + length (ser_tx tx)" "\<not> gReportTransactionHash g"
    "fileIndex b' = fileIndex b" "fileOffset b' = fileOffset b"
  shows "finish_transaction (mBlockRead b) index t (b', g) =
    Ok (t\<lparr>transactionLength := word_of_nat (length (ser_tx tx)), tx_fileIndex := fileIndex b,
          tx_fileOffset := fileOffset b + word_of_nat (mBlockRead b), tx_transactionIndex := index,
          computedTransactionHash := sha256_spec (sha256_spec (ser_tx tx))\<rparr>, b', g)"
proof -
  let ?l = "word_of_nat (length (ser_tx tx)) :: u32"
  have l: "unat ?l = length (ser_tx tx)" using assms(2) by (intro unat_word_of_nat_small) simp
  have "computeSHA256 (drop (mBlockRead b) (mBlockData b)) ?l = sha256_spec (ser_tx tx)"
  proof (subst computeSHA256_eq)
    have "mBlockRead b + length (ser_tx tx) \<le> length (mBlockData b)"
      using assms(1) unfolding upcoming_def by linarith
    then show "unat ?l \<le> length (drop (mBlockRead b) (mBlockData b))" by (simp add: l)
  qed (use assms(1) in \<open>simp add: l upcoming_def\<close>)
  moreover have "computeSHA256 (sha256_spec m) 32 = sha256_spec (sha256_spec m)" for m
    by (subst computeSHA256_eq) simp_all
  ultimately show ?thesis using assms(3-7) by (simp add: finish_transaction_def Let_def)
qed

lemma readTransaction_wire:
  assumes tx: "wt_ok tx" and stk: "length (stack_temp stk) = 256" and up: "upcoming b (ser_tx tx)"
    and g: "\<not> gReportTransactionHash g"
    and lims: "unat (totalInputCount b) + length (wt_inputs tx) < 32768"
      "unat (totalOutputCount b) + length (wt_outputs tx) < 32768"
  shows "readTransaction bld stk t index tindex (b, g) = Ok ((True, tx_at b (mBlockRead b) index tx, index + 1),
    (adv (length (ser_tx tx)) b)
      \<lparr>totalInputCount := totalInputCount b + word_of_nat (length (wt_inputs tx)),
       totalOutputCount := totalOutputCount b + word_of_nat (length (wt_outputs tx)),
       blockReward := blockReward b + sum_list (map fst (wt_outputs tx))\<rparr>,
    if wt_outputs tx = [] then g else g\<lparr>gOutputIndex := word_of_nat (length (wt_outputs tx) - 1)\<rparr>)"
proof -
  let ?ins = "wt_inputs tx" and ?outs = "wt_outputs tx"
  let ?n = "word_of_nat (length ?ins) :: u32" and ?m = "word_of_nat (length ?outs) :: u32"
  let ?v = "length (varint (length ?ins))" and ?w = "length (varint (length ?outs))"
  let ?I = "length (concat (map ser_input ?ins))" and ?O = "length (concat (map ser_output ?outs))"
  have ok: "wt_version tx \<in> {1, 2}" "?ins \<noteq> []" "length ?ins < 32678" "length ?outs < 32768"
    "\<forall>i \<in> set ?ins. wi_ok i" "\<forall>x \<in> set ?outs. std_ok (snd x)" "length (ser_tx tx) < 2 ^ 32"
    using tx by (simp_all add: wt_ok_def)
  have n: "unat ?n = length ?ins" "unat ?m = length ?outs"
    using ok(3,4) by (intro unat_word_of_nat_small; simp)+
  have tot: "unat (totalInputCount b + ?n) = unat (totalInputCount b) + length ?ins"
    "unat (totalOutputCount b + ?m) = unat (totalOutputCount b) + length ?outs"
    using lims n by (simp_all add: unat_word_ariths)
  have lim: "?n < MAX_REASONABLE_INPUTS" "\<not> MAX_REASONABLE_INPUTS \<le> ?n" "totalInputCount b + ?n < MAX_BLOCK_INPUTS"
    "\<not> MAX_BLOCK_INPUTS \<le> totalInputCount b + ?n" "?m < MAX_REASONABLE_OUTPUTS" "\<not> MAX_REASONABLE_OUTPUTS < ?m"
    "totalOutputCount b + ?m < MAX_BLOCK_OUTPUTS" "\<not> MAX_BLOCK_OUTPUTS \<le> totalOutputCount b + ?m"
    using ok n tot lims by (simp_all add: limits word_less_nat_alt word_le_nat_alt)
  note up1 = upcoming_append [OF up [unfolded ser_tx_def]]
  note up2 = upcoming_append [OF up1(2), simplified]
  note up3 = upcoming_append [OF up2(2)]
  note up4 = upcoming_append [OF up3(2)]
  note up5 = upcoming_append [OF up4(2)]
  have r1: "readU32 bld (b, g) = Ok (wt_version tx, adv 4 b, g)" using consumesD [OF consumes_u32 up1(1)] by simp
  have r2: "readVariableLengthInteger bld (adv 4 b, g) = Ok (?n, adv (4 + ?v) b, g)"
    using consumesD [OF consumes_varint up2(1)] ok(3) by simp
  define b3 where "b3 = (adv (4 + ?v) b)\<lparr>totalInputCount := totalInputCount b + ?n\<rparr>"
  have "upcoming b3 (concat (map ser_input ?ins))" using up3(1) by (simp add: b3_def)
  from readInputs_wire [OF ok(5) this, of bld g]
  have r3: "readInputs bld (length ?ins) (b3, g) = Ok (inputs_at (mBlockRead b + (4 + ?v)) ?ins, adv ?I b3, g)"
    by (simp add: b3_def)
  have "upcoming (adv ?I b3) (varint (length ?outs))" using up4(1) by (simp add: b3_def)
  from consumesD [OF consumes_varint this, of bld g]
  have r4: "readVariableLengthInteger bld (adv ?I b3, g) = Ok (?m, adv (?I + ?w) b3, g)" using ok(4) by simp
  define b5 where "b5 = (adv (?I + ?w) b3)\<lparr>totalOutputCount := totalOutputCount b + ?m\<rparr>"
  have "upcoming b5 (concat (map ser_output ?outs))" using up5(1) by (simp add: b5_def b3_def add.assoc)
  from readOutputs_wire [OF ok(6) stk this g, of bld 0]
  obtain g' b6 where r5: "readOutputs bld stk 0 (length ?outs) (b5, g) = Ok (outputs_at (mBlockRead b5) ?outs, b6, g')"
    and b6: "b6 = (adv ?O b5)\<lparr>blockReward := blockReward b5 + sum_list (map fst ?outs)\<rparr>"
    and g': "g' = (if ?outs = [] then g else g\<lparr>gOutputIndex := word_of_nat (length ?outs - 1)\<rparr>)" by simp
  have "upcoming b6 (store32 (wt_lock tx))" using up5(2) by (simp add: b6 b5_def b3_def add.assoc)
  from consumesD [OF consumes_u32 this, of bld g'] have r6: "readU32 bld (b6, g') = Ok (wt_lock tx, adv 4 b6, g')" by simp
  have total: "length (ser_tx tx) = 4 + ?v + ?I + ?w + ?O + 4" by (simp add: ser_tx_def)
  have r7: "finish_transaction (mBlockRead b) index t' (adv 4 b6, g') =
    Ok (t'\<lparr>transactionLength := word_of_nat (length (ser_tx tx)), tx_fileIndex := fileIndex b,
          tx_fileOffset := fileOffset b + word_of_nat (mBlockRead b), tx_transactionIndex := index,
          computedTransactionHash := sha256_spec (sha256_spec (ser_tx tx))\<rparr>, adv 4 b6, g')" for t'
    by (rule finish_transaction_wire [OF up ok(7)]) (use g in \<open>simp_all add: g' b6 b5_def b3_def total\<close>)
  have ne: "inputs_at (mBlockRead b + (4 + ?v)) ?ins \<noteq> []" using ok(2) by (metis length_inputs_at length_0_conv)
  have ver: "wt_version tx = 1 \<or> wt_version tx = 2" using ok(1) by auto
  have b3': "(adv (4 + ?v) b)\<lparr>totalInputCount := totalInputCount (adv (4 + ?v) b) + ?n\<rparr> = b3" by (simp add: b3_def)
  have b5': "(adv (?I + ?w) b3)\<lparr>totalOutputCount := totalOutputCount (adv (?I + ?w) b3) + ?m\<rparr> = b5"
    by (simp add: b5_def b3_def)
  have t3: "totalInputCount b3 = totalInputCount b + ?n" "totalOutputCount b5 = totalOutputCount b + ?m"
    by (simp_all add: b3_def b5_def)
  have fin: "adv 4 b6 = (adv (length (ser_tx tx)) b)\<lparr>totalInputCount := totalInputCount b + ?n,
       totalOutputCount := totalOutputCount b + ?m, blockReward := blockReward b + sum_list (map fst ?outs)\<rparr>"
    by (simp add: b6 b5_def b3_def total adv_def)
  have p5: "mBlockRead b5 = mBlockRead b + 4 + ?v + ?I + ?w" by (simp add: b5_def b3_def)
  show ?thesis
    unfolding readTransaction_def bind_state_def check_def modify_def exit_if_def return_state_def
    using ver r1 r2 r3 r4 r5 r6 r7 ne lim n b3' b5' t3 fin g' p5
    by (simp add: tx_at_def Let_def add.assoc)
qed

text \<open>
  Reading a transaction. On the wire form of any transaction with standard outputs, at any
  place of any block and in both builds, \<open>readTransaction\<close> succeeds and returns the transaction:
  version, every input with its pointers, every output decoded, lock time, the double SHA-256 of
  exactly its bytes, its length and its place in the file. The cursor moves past exactly these bytes,
  the totals and the block reward grow by its inputs, outputs and output values, and nothing is reported.
\<close>

theorem readTransaction_roundtrip:
  assumes "wt_ok tx" "length (stack_temp stk) = 256" "upcoming b (ser_tx tx)" "\<not> gReportTransactionHash g"
    and "unat (totalInputCount b) + length (wt_inputs tx) < 32768"
    and "unat (totalOutputCount b) + length (wt_outputs tx) < 32768"
  shows "readTransaction bld stk t index tindex (b, g) = Ok ((True, tx_at b (mBlockRead b) index tx, index + 1),
    (adv (length (ser_tx tx)) b)
      \<lparr>totalInputCount := totalInputCount b + word_of_nat (length (wt_inputs tx)),
       totalOutputCount := totalOutputCount b + word_of_nat (length (wt_outputs tx)),
       blockReward := blockReward b + sum_list (map fst (wt_outputs tx))\<rparr>,
    if wt_outputs tx = [] then g else g\<lparr>gOutputIndex := word_of_nat (length (wt_outputs tx) - 1)\<rparr>)"
  using assms by (rule readTransaction_wire)

definition sample_tx :: wire_tx where
  "sample_tx = \<lparr>wt_version = 1,
     wt_inputs = [\<lparr>wi_hash = replicate 32 1, wi_index = 0, wi_script = [2, 3], wi_sequence = 5\<rparr>],
     wt_outputs = [(50, P2PKH (replicate 20 9)), (7, P2SH (replicate 20 8))], wt_lock = 0\<rparr>"

lemma sample_tx_ok: "wt_ok sample_tx"
  by (simp add: wt_ok_def sample_tx_def wi_ok_def ser_tx_def ser_input_def ser_output_def varint_def)

theorem readTransaction_roundtrip_witness:
  "fst (the (case readTransaction Debug \<lparr>stack_key32 = 7, stack_temp = replicate 256 1\<rparr>
      (tx_at (block_on []) 0 0 sample_tx) 3 0 (block_on (ser_tx sample_tx), no_globals) of Inl _ \<Rightarrow> None | Inr r \<Rightarrow> Some r))
   = (True, tx_at (block_on (ser_tx sample_tx)) 0 3 sample_tx, 4)"
  using readTransaction_roundtrip [OF sample_tx_ok, of "\<lparr>stack_key32 = 7, stack_temp = replicate 256 1\<rparr>"
      "block_on (ser_tx sample_tx)" no_globals Debug "tx_at (block_on []) 0 0 sample_tx" 3 0]
  by (simp add: block_on_def no_globals_def upcoming_def sample_tx_def)
section \<open>Whole blocks\<close>

fun txs_at :: "block_impl \<Rightarrow> nat \<Rightarrow> u32 \<Rightarrow> wire_tx list \<Rightarrow> block_transaction list" where
  "txs_at b p index [] = []"
| "txs_at b p index (t # ts) = tx_at b p index t # txs_at b (p + length (ser_tx t)) (index + 1) ts"

lemma length_txs_at [simp]: "length (txs_at b p index ts) = length ts"
  by (induction ts arbitrary: p index) simp_all

text \<open>\<open>same_file b b'\<close>: the same block at the same place of the same file; \<open>b'\<close> may be further along.\<close>

definition same_place :: "block_impl \<Rightarrow> block_impl \<Rightarrow> bool" where
  "same_place b b' \<longleftrightarrow> fileIndex b' = fileIndex b \<and> fileOffset b' = fileOffset b \<and> blockLength b' = blockLength b \<and>
     blockIndex b' = blockIndex b \<and> nextBlockHash b' = nextBlockHash b \<and> computedBlockHash b' = computedBlockHash b"

definition same_globals :: "globals \<Rightarrow> globals \<Rightarrow> bool" where
  "same_globals g g' \<longleftrightarrow> gIsWarning g' = gIsWarning g \<and> gReportTransactionHash g' = gReportTransactionHash g \<and>
     gZeroByte g' = gZeroByte g \<and> gDummyKey g' = gDummyKey g \<and> logged g' = logged g"

definition same_file :: "block_impl \<Rightarrow> block_impl \<Rightarrow> bool" where
  "same_file b b' \<longleftrightarrow> same_place b b' \<and> mBlockData b' = mBlockData b \<and> mBlockEnd b' = mBlockEnd b \<and>
     fileIndex b' = fileIndex b \<and> fileOffset b' = fileOffset b \<and> blockFormatVersion b' = blockFormatVersion b \<and>
     previousBlockHash b' = previousBlockHash b \<and> merkleRoot b' = merkleRoot b \<and> timeStamp b' = timeStamp b \<and>
     bits b' = bits b \<and> nonce b' = nonce b \<and> transactionCount b' = transactionCount b"

lemma tx_at_same_file: "same_file b b' \<Longrightarrow> tx_at b' p index t = tx_at b p index t"
  by (simp add: tx_at_def Let_def same_file_def)

lemma txs_at_same_file: "same_file b b' \<Longrightarrow> txs_at b' p index ts = txs_at b p index ts"
  by (induction ts arbitrary: p index) (simp_all add: tx_at_same_file)

lemma readTransactions_wire:
  assumes "\<forall>t \<in> set ts. wt_ok t" "length (stack_temp stk) = 256" "upcoming b (concat (map ser_tx ts))"
    "\<not> gReportTransactionHash g" "i + length ts \<le> length pool"
    "unat (totalInputCount b) + sum_list (map (\<lambda>t. length (wt_inputs t)) ts) < 32768"
    "unat (totalOutputCount b) + sum_list (map (\<lambda>t. length (wt_outputs t)) ts) < 32768"
  shows "\<exists>b' g'. readTransactions bld stk pool index i (length ts) (b, g) =
      Ok ((True, splice pool i (txs_at b (mBlockRead b) index ts), index + word_of_nat (length ts)), b', g') \<and>
    same_file b b' \<and> same_globals g g' \<and> mBlockRead b' = mBlockRead b + length (concat (map ser_tx ts)) \<and>
    blockReward b' = blockReward b + sum_list (map (\<lambda>t. sum_list (map fst (wt_outputs t))) ts)"
  using assms(1,3-)
proof (induction ts arbitrary: b g i index pool)
  case Nil
  then show ?case by (simp add: return_state_def same_file_def same_place_def same_globals_def)
next
  case (Cons t ts)
  note up = upcoming_append [OF Cons.prems(2) [simplified]]
  let ?g = "g\<lparr>gTransactionIndex := word_of_nat i\<rparr>"
  have t: "wt_ok t" using Cons.prems(1) by simp
  have n: "length (wt_inputs t) < 32678" "length (wt_outputs t) < 32768" using t by (simp_all add: wt_ok_def)
  define b1 where "b1 = (adv (length (ser_tx t)) b)
      \<lparr>totalInputCount := totalInputCount b + word_of_nat (length (wt_inputs t)),
       totalOutputCount := totalOutputCount b + word_of_nat (length (wt_outputs t)),
       blockReward := blockReward b + sum_list (map fst (wt_outputs t))\<rparr>"
  define g1 where "g1 = (if wt_outputs t = [] then ?g else ?g\<lparr>gOutputIndex := word_of_nat (length (wt_outputs t) - 1)\<rparr>)"
  have r: "readTransaction bld stk (pool ! i) index (word_of_nat i) (b, ?g) =
      Ok ((True, tx_at b (mBlockRead b) index t, index + 1), b1, g1)"
    unfolding b1_def g1_def using Cons.prems by (intro readTransaction_wire [OF t assms(2) up(1)]) simp_all
  have tot: "unat (totalInputCount b1) = unat (totalInputCount b) + length (wt_inputs t)"
    "unat (totalOutputCount b1) = unat (totalOutputCount b) + length (wt_outputs t)"
    using Cons.prems(5,6) n by (simp_all add: b1_def unat_word_ariths unat_of_nat)
  have b1: "same_file b b1" "mBlockRead b1 = mBlockRead b + length (ser_tx t)" "upcoming b1 (concat (map ser_tx ts))"
    "blockReward b1 = blockReward b + sum_list (map fst (wt_outputs t))"
    using up(2) by (simp_all add: b1_def same_file_def same_place_def upcoming_def adv_def)
  have "\<exists>b' g'. readTransactions bld stk (pool[i := tx_at b (mBlockRead b) index t]) (index + 1) (i + 1) (length ts) (b1, g1) =
      Ok ((True, splice (pool[i := tx_at b (mBlockRead b) index t]) (i + 1) (txs_at b1 (mBlockRead b1) (index + 1) ts),
        index + 1 + word_of_nat (length ts)), b', g') \<and>
    same_file b1 b' \<and> same_globals g1 g' \<and> mBlockRead b' = mBlockRead b1 + length (concat (map ser_tx ts)) \<and>
    blockReward b' = blockReward b1 + sum_list (map (\<lambda>t. sum_list (map fst (wt_outputs t))) ts)"
    using Cons.prems tot by (intro Cons.IH b1(3)) (auto simp: g1_def)
  then obtain b' g' where ih: "readTransactions bld stk (pool[i := tx_at b (mBlockRead b) index t]) (index + 1) (i + 1) (length ts) (b1, g1) =
      Ok ((True, splice (pool[i := tx_at b (mBlockRead b) index t]) (i + 1) (txs_at b1 (mBlockRead b1) (index + 1) ts),
        index + 1 + word_of_nat (length ts)), b', g')" "same_file b1 b'" "same_globals g1 g'"
      "mBlockRead b' = mBlockRead b1 + length (concat (map ser_tx ts))"
      "blockReward b' = blockReward b1 + sum_list (map (\<lambda>t. sum_list (map fst (wt_outputs t))) ts)" by blast
  have "i < length pool" using Cons.prems(4) by simp
  then have sp: "splice (pool[i := tx_at b (mBlockRead b) index t]) (i + 1) xs = splice pool i (tx_at b (mBlockRead b) index t # xs)" for xs
    using splice_Cons by fastforce
  have "same_file b b'" "same_globals g g'"
    using ih(2,3) b1(1) by (simp_all add: same_file_def same_place_def same_globals_def g1_def)
  with ih r sp b1 show ?case
    by (intro exI [of _ b'] exI [of _ g']) (simp add: bind_state_def modify_def txs_at_same_file [OF b1(1)] add.assoc)
qed

lemma upcoming_cong:
  "mBlockRead b' = mBlockRead b \<Longrightarrow> mBlockEnd b' = mBlockEnd b \<Longrightarrow> mBlockData b' = mBlockData b \<Longrightarrow>
    upcoming b xs = upcoming b' xs"
  by (simp add: upcoming_def)

record wire_block =
  wb_version :: u32
  wb_previous :: bytes
  wb_merkle :: bytes
  wb_time :: u32
  wb_bits :: u32
  wb_nonce :: u32
  wb_txs :: "wire_tx list"

definition ser_block :: "wire_block \<Rightarrow> bytes" where
  "ser_block w = store32 (wb_version w) @ wb_previous w @ wb_merkle w @ store32 (wb_time w) @
     store32 (wb_bits w) @ store32 (wb_nonce w) @ varint (length (wb_txs w)) @ concat (map ser_tx (wb_txs w))"

definition wb_ok :: "wire_block \<Rightarrow> bool" where
  "wb_ok w \<longleftrightarrow> length (wb_previous w) = 32 \<and> length (wb_merkle w) = 32 \<and> (\<forall>t \<in> set (wb_txs w). wt_ok t) \<and>
     length (wb_txs w) < 32768 \<and> sum_list (map (\<lambda>t. length (wt_inputs t)) (wb_txs w)) < 32768 \<and>
     sum_list (map (\<lambda>t. length (wt_outputs t)) (wb_txs w)) < 32768 \<and> length (ser_block w) < 2 ^ 32"

text \<open>What a block object holds after reading \<open>w\<close>; \<open>b\<close> is the object before, with the counters reset.\<close>

definition holds_block :: "block_impl \<Rightarrow> u32 \<Rightarrow> wire_block \<Rightarrow> block_impl \<Rightarrow> bool" where
  "holds_block b index w b' \<longleftrightarrow>
     blockFormatVersion b' = wb_version w \<and> timeStamp b' = wb_time w \<and> bits b' = wb_bits w \<and> nonce b' = wb_nonce w \<and>
     take 32 (drop (previousBlockHash b') (mBlockData b')) = wb_previous w \<and>
     take 32 (drop (merkleRoot b') (mBlockData b')) = wb_merkle w \<and>
     transactionCount b' = word_of_nat (length (wb_txs w)) \<and>
     take (length (wb_txs w)) (transactions b') =
       txs_at b (80 + length (varint (length (wb_txs w)))) index (wb_txs w) \<and>
     mBlockRead b' = length (ser_block w) \<and>
     blockReward b' = blockReward b + sum_list (map (\<lambda>t. sum_list (map fst (wt_outputs t))) (wb_txs w))"

lemma processBlockData_wire:
  assumes w: "wb_ok w" and stk: "length (stack_temp stk) = 256" and g: "\<not> gReportTransactionHash g"
    and b: "totalInputCount b = 0" "totalOutputCount b = 0" "length (wb_txs w) \<le> length (transactions b)"
  shows "\<exists>b' g'. processBlockData bld stk (ser_block w @ rest) (word_of_nat (length (ser_block w))) index (b, g) =
      Ok ((True, index + word_of_nat (length (wb_txs w))), b', g') \<and> holds_block b index w b' \<and>
    mBlockData b' = ser_block w @ rest \<and> same_place b b' \<and> same_globals g g' \<and> length (transactions b') = length (transactions b)"
proof -
  let ?n = "word_of_nat (length (wb_txs w)) :: u32" let ?v = "length (varint (length (wb_txs w)))"
  have ok: "length (wb_previous w) = 32" "length (wb_merkle w) = 32" "\<forall>t \<in> set (wb_txs w). wt_ok t"
    "length (wb_txs w) < 32768" "length (ser_block w) < 2 ^ 32" using w by (simp_all add: wb_ok_def)
  have n: "unat ?n = length (wb_txs w)" using ok(4) by (intro unat_word_of_nat_small) simp
  have lim: "?n < MAX_BLOCK_TRANSACTION" "\<not> MAX_BLOCK_TRANSACTION \<le> ?n"
    using ok(4) n by (simp_all add: limits word_less_nat_alt word_le_nat_alt)
  have l: "unat (word_of_nat (length (ser_block w)) :: u32) = length (ser_block w)"
    using ok(5) by (intro unat_word_of_nat_small) simp
  define b0 where "b0 = b\<lparr>mBlockData := ser_block w @ rest, mBlockRead := 0, mBlockEnd := length (ser_block w)\<rparr>"
  have up: "upcoming b0 (ser_block w)" by (simp add: upcoming_def b0_def)
  note up1 = upcoming_append [OF up [unfolded ser_block_def]]
  note up2 = upcoming_append [OF up1(2), unfolded ok(1), simplified]
  note up3 = upcoming_append [OF up2(2), unfolded ok(2), simplified]
  note up4 = upcoming_append [OF up3(2), simplified]
  note up5 = upcoming_append [OF up4(2), simplified]
  note up6 = upcoming_append [OF up5(2), simplified]
  note up7 = upcoming_append [OF up6(2)]
  have r: "readU32 bld (b0, g) = Ok (wb_version w, adv 4 b0, g)"
    "readHash bld (adv 4 b0, g) = Ok (4, adv 36 b0, g)" "readHash bld (adv 36 b0, g) = Ok (36, adv 68 b0, g)"
    "readU32 bld (adv 68 b0, g) = Ok (wb_time w, adv 72 b0, g)"
    "readU32 bld (adv 72 b0, g) = Ok (wb_bits w, adv 76 b0, g)"
    "readU32 bld (adv 76 b0, g) = Ok (wb_nonce w, adv 80 b0, g)"
    using consumesD [OF consumes_u32 up1(1)] readHash_upcoming [OF up2(1) ok(1)] readHash_upcoming [OF up3(1) ok(2)]
      consumesD [OF consumes_u32 up4(1)] consumesD [OF consumes_u32 up5(1)] consumesD [OF consumes_u32 up6(1)]
    by (simp_all add: b0_def)
  define b7 where "b7 = (adv 80 b0)\<lparr>blockFormatVersion := wb_version w, previousBlockHash := 4, merkleRoot := 36,
         timeStamp := wb_time w, bits := wb_bits w, nonce := wb_nonce w\<rparr>"
  let ?g = "g\<lparr>gBlockTime := wb_time w\<rparr>"
  have "upcoming b7 (varint (length (wb_txs w)))" using up7(1) by (simp add: b7_def upcoming_def)
  from consumesD [OF consumes_varint this, of bld ?g]
  have r7: "readVariableLengthInteger bld (b7, ?g) = Ok (?n, adv ?v b7, ?g)" using ok(4) by simp
  define b8 where "b8 = (adv ?v b7)\<lparr>transactionCount := ?n\<rparr>"
  have up8: "upcoming b8 (concat (map ser_tx (wb_txs w)))"
    by (rule upcoming_cong [THEN iffD1, OF _ _ _ up7(2)]) (simp_all add: b8_def b7_def b0_def)
  have b8: "totalInputCount b8 = 0" "totalOutputCount b8 = 0"
    "transactions b8 = transactions b" "mBlockRead b8 = 80 + ?v" "blockReward b8 = blockReward b"
    "fileIndex b8 = fileIndex b" "fileOffset b8 = fileOffset b" "mBlockData b8 = ser_block w @ rest"
    using b by (simp_all add: b8_def b7_def b0_def adv_def)
  from readTransactions_wire [OF ok(3) stk up8, of ?g 0 "transactions b" bld index] obtain b9 g9 where
    r8: "readTransactions bld stk (transactions b) index 0 (length (wb_txs w)) (b8, ?g) =
      Ok ((True, splice (transactions b) 0 (txs_at b8 (80 + ?v) index (wb_txs w)), index + ?n), b9, g9)"
    and b9: "same_file b8 b9" "same_globals ?g g9" "mBlockRead b9 = 80 + ?v + length (concat (map ser_tx (wb_txs w)))"
      "blockReward b9 = blockReward b + sum_list (map (\<lambda>t. sum_list (map fst (wt_outputs t))) (wb_txs w))"
    using g b(3) w b8(1,2,4,5) by (auto simp: wb_ok_def)
  have tx: "txs_at b8 p index ts = txs_at b p index ts" for p ts
    by (induction ts arbitrary: p index) (simp_all add: tx_at_def Let_def b8(6,7))
  let ?b' = "b9\<lparr>transactions := splice (transactions b) 0 (txs_at b8 (80 + ?v) index (wb_txs w))\<rparr>"
  have hd8: "blockFormatVersion b8 = wb_version w" "previousBlockHash b8 = 4" "merkleRoot b8 = 36"
    "timeStamp b8 = wb_time w" "bits b8 = wb_bits w" "nonce b8 = wb_nonce w" "transactionCount b8 = ?n"
    by (simp_all add: b8_def b7_def adv_def)
  have "holds_block b index w ?b'"
    using b9 b(3) ok(1,2) b8(8) tx hd8 unfolding holds_block_def
    by (simp add: same_file_def splice_def ser_block_def)
  moreover have "mBlockData ?b' = ser_block w @ rest \<and> same_place b ?b' \<and> same_globals g g9 \<and>
      length (transactions ?b') = length (transactions b)"
    using b9(1,2) b(3) by (simp add: same_file_def same_place_def same_globals_def b8_def b7_def b0_def adv_def)
  moreover have "processBlockData bld stk (ser_block w @ rest) (word_of_nat (length (ser_block w))) index (b, g) =
      Ok ((True, index + ?n), ?b', g9)"
    unfolding processBlockData_def bind_state_def check_def modify_def exit_if_def return_state_def
    using r r7 r8 lim n b8(3) by (simp add: l b0_def [symmetric] b7_def [symmetric] b8_def [symmetric])
  ultimately show ?thesis by blast
qed

text \<open>
  C1: reading a block. From a buffer that starts with the wire form of any block of standard
  transactions, \<open>processBlockData\<close> fills the block object with it: header fields, the hashes its pointers
  point to, and one pool entry per transaction, in order, numbered on from the running index; the
  cursor ends exactly at the end of the block, and the reward is the sum of all outputs.
\<close>

theorem processBlockData_roundtrip:
  assumes "wb_ok w" "length (stack_temp stk) = 256" "\<not> gReportTransactionHash g"
    and "totalInputCount b = 0" "totalOutputCount b = 0" "length (wb_txs w) \<le> length (transactions b)"
  shows "\<exists>b' g'. processBlockData bld stk (ser_block w @ rest) (word_of_nat (length (ser_block w))) index (b, g) =
      Ok ((True, index + word_of_nat (length (wb_txs w))), b', g') \<and> holds_block b index w b'"
  using processBlockData_wire [OF assms, of bld rest index] by blast

definition sample_block :: wire_block where
  "sample_block = \<lparr>wb_version = 1, wb_previous = replicate 32 5, wb_merkle = replicate 32 6, wb_time = 99,
     wb_bits = 3, wb_nonce = 4, wb_txs = [sample_tx, sample_tx]\<rparr>"

lemma length_ser_sample: "length (ser_tx sample_tx) = 119"
  by (simp add: sample_tx_def ser_tx_def ser_input_def ser_output_def varint_def)

lemma sample_block_ok: "wb_ok sample_block"
  using sample_tx_ok length_ser_sample
  by (simp add: wb_ok_def sample_block_def ser_block_def varint_def) (simp add: sample_tx_def)

theorem processBlockData_roundtrip_witness:
  "\<exists>b' g'. processBlockData Release \<lparr>stack_key32 = 7, stack_temp = replicate 256 1\<rparr>
      (ser_block sample_block @ [1, 2, 3]) (word_of_nat (length (ser_block sample_block))) 40
      ((block_on [])\<lparr>transactions := replicate 3 (tx_at (block_on []) 0 0 sample_tx)\<rparr>, no_globals)
    = Ok ((True, 42), b', g') \<and>
    holds_block ((block_on [])\<lparr>transactions := replicate 3 (tx_at (block_on []) 0 0 sample_tx)\<rparr>) 40 sample_block b'"
  using processBlockData_roundtrip [OF sample_block_ok, of "\<lparr>stack_key32 = 7, stack_temp = replicate 256 1\<rparr>" no_globals
      "(block_on [])\<lparr>transactions := replicate 3 (tx_at (block_on []) 0 0 sample_tx)\<rparr>" Release "[1, 2, 3]" 40]
  by (simp add: no_globals_def sample_block_def block_on_def)
end
