(* ===== verification/ReaderSafety.thy ===== *)
theory ReaderSafety
  imports BlockReader
begin

text \<open>
  Memory safety of the block parser of BlockReader in a debug build, as a Hoare-style triple \<open>safe\<close> that every
  operation is shown to satisfy, and what the parser makes of scripts that are not standard.
\<close>

section \<open>Memory safety of the debug build\<close>

text \<open>
  The invariant of the parser: the cursor is inside the block, 64 more bytes are allocated behind
  it, and the placeholder addresses are 25 bytes. A step that keeps it never moves the cursor back,
  and a step that does not return stops in an assert or in \<open>exit\<close>, never outside an array.
\<close>

definition cursor_ok :: "reader_state \<Rightarrow> bool" where
  "cursor_ok s \<longleftrightarrow> mBlockRead (fst s) \<le> mBlockEnd (fst s) \<and> mBlockEnd (fst s) + 64 \<le> length (mBlockData (fst s)) \<and>
     length (gZeroByte (snd s)) = 25 \<and> length (gDummyKey (snd s)) = 25"

definition moved :: "reader_state \<Rightarrow> reader_state \<Rightarrow> bool" where
  "moved s s' \<longleftrightarrow> mBlockData (fst s') = mBlockData (fst s) \<and> mBlockEnd (fst s') = mBlockEnd (fst s) \<and>
     mBlockRead (fst s) \<le> mBlockRead (fst s')"

definition safe :: "(reader_state \<Rightarrow> bool) \<Rightarrow> 'a reader \<Rightarrow> ('a \<Rightarrow> reader_state \<Rightarrow> bool) \<Rightarrow> bool" where
  "safe P m Q \<longleftrightarrow> (\<forall>s. cursor_ok s \<longrightarrow> P s \<longrightarrow>
     (case m s of Inl f \<Rightarrow> f = AssertFailure \<or> f = ProcessExit
      | Inr r \<Rightarrow> cursor_ok (snd r) \<and> moved s (snd r) \<and> Q (fst r) (snd r)))"

abbreviation any_state :: "reader_state \<Rightarrow> bool" where "any_state \<equiv> \<lambda>_. True"
abbreviation any_result :: "'a \<Rightarrow> reader_state \<Rightarrow> bool" where "any_result \<equiv> \<lambda>_ _. True"

named_theorems safes "the operations of the reader keep the invariant"

lemma moved_trans: "moved s s' \<Longrightarrow> moved s' s'' \<Longrightarrow> moved s s''"
  by (auto simp: moved_def)

lemma safe_bind:
  assumes "safe P m Q" "\<And>v. safe (Q v) (f v) R"
  shows "safe P (bind_state m f) R"
  unfolding safe_def
proof (intro allI impI)
  fix s assume s: "cursor_ok s" "P s"
  show "case bind_state m f s of Inl f \<Rightarrow> f = AssertFailure \<or> f = ProcessExit
      | Inr r \<Rightarrow> cursor_ok (snd r) \<and> moved s (snd r) \<and> R (fst r) (snd r)"
  proof (cases "m s")
    case (Inl e)
    then have "e = AssertFailure \<or> e = ProcessExit"
      using assms(1) [unfolded safe_def, rule_format, OF s] by simp
    with Inl show ?thesis by (simp add: bind_state_def)
  next
    case (Inr r)
    then have r: "cursor_ok (snd r)" "moved s (snd r)" "Q (fst r) (snd r)"
      using assms(1) [unfolded safe_def, rule_format, OF s] by simp_all
    obtain v s' where [simp]: "r = (v, s')" by (cases r)
    have f: "case f v s' of Inl f \<Rightarrow> f = AssertFailure \<or> f = ProcessExit
      | Inr r \<Rightarrow> cursor_ok (snd r) \<and> moved s' (snd r) \<and> R (fst r) (snd r)"
      using assms(2) [of v, unfolded safe_def, rule_format, of s'] r by simp
    show ?thesis
      by (cases "f v s'") (use f r moved_trans [of s s'] in \<open>auto simp: bind_state_def Inr\<close>)
  qed
qed

lemma safe_weaken: "safe P m Q \<Longrightarrow> (\<And>s. P' s \<Longrightarrow> P s) \<Longrightarrow> (\<And>v s. Q v s \<Longrightarrow> Q' v s) \<Longrightarrow> safe P' m Q'"
  unfolding safe_def by (fastforce split: sum.splits)

lemma safe_any: "safe any_state m Q \<Longrightarrow> safe P m Q"
  by (auto simp: safe_def)

lemma safe_if: "safe P m Q \<Longrightarrow> safe P n Q \<Longrightarrow> safe P (if c then m else n) Q"
  by simp

lemma safe_return [safes]: "safe any_state (return_state v) any_result"
  by (simp add: safe_def return_state_def moved_def)

lemma safe_check [safes]: "safe any_state (check bld c) any_result"
  by (cases "c \<or> bld = Release"; cases bld) (auto simp: safe_def check_def c_assert_def moved_def)

lemma safe_exit_if [safes]: "safe any_state (exit_if c) any_result"
  by (simp add: safe_def exit_if_def moved_def)

lemma safe_get [safes]: "safe any_state (\<lambda>s. Ok (h s, s)) any_result"
  by (simp add: safe_def moved_def)

lemma safe_modify:
  assumes "\<And>b g. mBlockData (fst (f (b, g))) = mBlockData b \<and> mBlockEnd (fst (f (b, g))) = mBlockEnd b \<and>
    mBlockRead (fst (f (b, g))) = mBlockRead b \<and> gZeroByte (snd (f (b, g))) = gZeroByte g \<and>
    gDummyKey (snd (f (b, g))) = gDummyKey g"
  shows "safe any_state (modify f) any_result"
  using assms by (auto simp: safe_def modify_def cursor_ok_def moved_def)

lemma safe_read_bytes: "safe any_state (read_bytes Debug n) any_result"
  by (auto simp: safe_def read_bytes_def c_assert_def cursor_ok_def moved_def)

lemma safe_reads [safes]:
  "safe any_state (readU8 Debug) any_result" "safe any_state (readU16 Debug) any_result"
  "safe any_state (readU32 Debug) any_result" "safe any_state (readU64 Debug) any_result"
  unfolding readU8_def readU16_def readU32_def readU64_def
  by (rule safe_bind [OF safe_read_bytes safe_return])+

lemma safe_readHash [safes]: "safe any_state (readHash Debug) any_result"
  by (auto simp: safe_def readHash_def c_assert_def cursor_ok_def moved_def)

lemma safe_varint [safes]: "safe any_state (readVariableLengthInteger Debug) any_result"
  unfolding readVariableLengthInteger_def
  apply (rule safe_bind [OF safe_reads(1)], rule safe_if [OF safe_return])
  apply (rule safe_bind [OF safe_reads(2)], rule safe_if [OF safe_return])
  apply (rule safe_bind [OF safe_reads(3)], rule safe_if [OF safe_return])
  by (rule safe_bind [OF safe_check], rule safe_bind [OF safe_reads(4)], rule safe_return)

lemma safe_advance: "safe any_state (getReadBufferAdvance Debug len) (\<lambda>p s. p + unat len \<le> mBlockEnd (fst s))"
  by (auto simp: safe_def getReadBufferAdvance_def c_assert_def cursor_ok_def moved_def Let_def)

lemma safe_read_script [safes]:
  "safe any_state (read_script Debug len) (\<lambda>ptr s. case ptr of None \<Rightarrow> True | Some p \<Rightarrow> p + unat len \<le> mBlockEnd (fst s))"
  unfolding read_script_def
  apply (rule safe_if)
   apply (rule safe_bind [OF safe_advance])
  by (simp_all add: safe_def return_state_def moved_def)

lemma safe_fault: "safe P (\<lambda>_. Fault ProcessExit) Q"
  by (simp add: safe_def)

lemma safe_readInput [safes]: "safe any_state (readInput Debug) any_result"
  unfolding readInput_def
  apply (rule safe_bind [OF safe_readHash], rule safe_bind [OF safe_reads(3)], rule safe_bind [OF safe_varint])
  apply (rule safe_bind [OF safe_check], rule safe_bind [OF safe_modify], simp add: logMessage_def)
  apply (rule safe_if [OF _ safe_fault])
  by (rule safe_bind [OF safe_read_script], rule safe_bind [OF safe_any [OF safe_reads(3)]], rule safe_return)

lemma safe_readInputs [safes]: "safe any_state (readInputs Debug n) any_result"
proof (induction n)
  case (Suc n)
  show ?case unfolding readInputs.simps
    by (rule safe_bind [OF safe_readInput], rule safe_bind [OF Suc], rule safe_return)
qed (simp add: safe_return)

text \<open>The placeholder keys stay as they are.\<close>

definition keeps :: "globals \<Rightarrow> globals \<Rightarrow> bool" where
  "keeps g g' \<longleftrightarrow> gZeroByte g' = gZeroByte g \<and> gDummyKey g' = gDummyKey g"

lemma keeps_simps [simp]:
  "keeps g g" "keeps g (logMessage e h) \<longleftrightarrow> keeps g h" "keeps g (h\<lparr>gIsWarning := w\<rparr>) \<longleftrightarrow> keeps g h"
  "keeps g (h\<lparr>gReportTransactionHash := w\<rparr>) \<longleftrightarrow> keeps g h" "keeps g (h\<lparr>gBlockTime := u\<rparr>) \<longleftrightarrow> keeps g h"
  "keeps g (h\<lparr>gOutputIndex := u\<rparr>) \<longleftrightarrow> keeps g h" "keeps (g\<lparr>gOutputIndex := u\<rparr>) h \<longleftrightarrow> keeps g h"
  "keeps g (h\<lparr>gTransactionIndex := u\<rparr>) \<longleftrightarrow> keeps g h" "keeps (g\<lparr>gTransactionIndex := u\<rparr>) h \<longleftrightarrow> keeps g h"
  "keeps g (if c then h else h') \<longleftrightarrow> (if c then keeps g h else keeps g h')"
  "keeps (logMessage e g) h \<longleftrightarrow> keeps g h" "keeps (g\<lparr>gIsWarning := w\<rparr>) h \<longleftrightarrow> keeps g h"
  "keeps (if c then g else g') h \<longleftrightarrow> (if c then keeps g h else keeps g' h)"
  by (simp_all add: keeps_def logMessage_def)

lemma keeps_trans: "keeps g h \<Longrightarrow> keeps h k \<Longrightarrow> keeps g k"
  by (simp add: keeps_def)

lemma cursor_ok_keeps: "cursor_ok (b, g) \<Longrightarrow> keeps g g' \<Longrightarrow> cursor_ok (b, g')"
  by (simp add: cursor_ok_def keeps_def)

text \<open>The keys a script can be decoded to, and the bytes each type needs.\<close>

fun key_size :: "KeyType \<Rightarrow> nat" where
  "key_size KT_UNCOMPRESSED_PUBLIC_KEY = 65"
| "key_size KT_COMPRESSED_PUBLIC_KEY = 33"
| "key_size KT_TRUNCATED_COMPRESSED_KEY = 32"
| "key_size KT_MULTISIG = 1"
| "key_size _ = 20"

definition keys_inside :: "nat \<Rightarrow> block_output \<Rightarrow> bool" where
  "keys_inside e out \<longleftrightarrow> length (publicKey out) = 5 \<and> addresses out = replicate 5 (replicate 25 0) \<and>
     length (multisig out) = 25 \<and> signatureCount out = 1 \<and>
     (\<forall>r. Some r \<in> set (publicKey out) \<longrightarrow> (\<exists>q. r = InBlock q \<and> q + key_size (keyType out) \<le> e))"

lemma keys_inside_set_key:
  "keys_inside e out \<Longrightarrow> (\<And>r. Some r \<notin> set (tl (publicKey out))) \<Longrightarrow> q + key_size t \<le> e \<Longrightarrow> keys_inside e (set_key t q out)"
  by (cases "publicKey out") (auto simp: keys_inside_def set_key_def)

lemma keys_inside_mono: "keys_inside e out \<Longrightarrow> e \<le> e' \<Longrightarrow> keys_inside e' out"
  by (fastforce simp: keys_inside_def)

lemma multisig_scan_inside:
  assumes "scanEnd + 2 \<le> length script" "keys_inside (p + length script) out" 
    "keyType out = KT_MULTISIG \<or> (\<forall>r. Some r \<notin> set (publicKey out))"
  shows "keys_inside (p + length script) (multisig_scan n script p scanBegin scanEnd k out)"
  using assms(2,3)
proof (induction n arbitrary: scanBegin k out)
  case (Suc n)
  have step: "keys_inside (p + length script) (out\<lparr>keyType := KT_MULTISIG,
      publicKey := (publicKey out)[k := Some (InBlock (p + scanBegin + 1))], multiSigFormat := m\<rparr>)"
    if "scanBegin < scanEnd" for m
    using Suc.prems assms(1) that by (auto simp: keys_inside_def dest!: set_update_subset_insert [THEN subsetD])
  from step [of "multiSigFormat out"] have step': "scanBegin < scanEnd \<Longrightarrow>
    keys_inside (p + length script) (out\<lparr>keyType := KT_MULTISIG,
      publicKey := (publicKey out)[k := Some (InBlock (p + scanBegin + 1))]\<rparr>)" by simp
  show ?case
  proof (cases "scanBegin < scanEnd")
    case True
    note kept = Suc.IH [OF step [OF True] disjI1, simplified] Suc.IH [OF step' [OF True] disjI1, simplified]
    show ?thesis using True kept Suc.prems(1) by (simp add: kept)
  qed (simp add: Suc.prems(1))
qed simp

lemma keys_inside_fresh: "keys_inside e (BlockOutput\<lparr>output_value := v, challengeScriptLength := l, challengeScript := c\<rparr>)"
  by (simp add: keys_inside_def BlockOutput_def MAX_MULTISIG_def numeral_eq_Suc)

lemma classify_script_inside:
  assumes "publicKey out = replicate 5 None" "keys_inside 0 out"
  shows "keys_inside (p + length script) (fst (classify_script script p out g)) \<and>
    gZeroByte (snd (classify_script script p out g)) = gZeroByte g \<and>
    gDummyKey (snd (classify_script script p out g)) = gDummyKey g"
proof -
  let ?e = "p + length script"
  define first where "first = (if length script = 67 \<and> script ! 0 = 65 \<and> script ! 66 = OP_CHECKSIG
                 then set_key KT_UNCOMPRESSED_PUBLIC_KEY (p + 1) out else out)"
  have tl: "Some r \<notin> set (tl (publicKey first))" for r
    using assms(1) by (simp add: first_def set_key_def numeral_eq_Suc)
  have in0: "keys_inside ?e first"
    using assms by (auto simp: first_def keys_inside_def set_key_def numeral_eq_Suc)
  have key: "keys_inside ?e (set_key t q first)" if "q + key_size t \<le> ?e" for t q
    using keys_inside_set_key [OF in0 tl that] .
  have multi: "keys_inside ?e (fst (multisig_output script p first g))"
    if "script ! (length script - 1) = OP_CHECKMULTISIG" "length script > 25"
  proof -
    have "publicKey first = replicate 5 None"
      using that(1) assms(1) by (auto simp: first_def opcodes)
    then show ?thesis
      using multisig_scan_inside [of "length script - 2" script p first 5 1 0] in0 that(2)
      by (simp add: multisig_output_def Let_def)
  qed
  have found: "find (is_p2pkh_at script) [0..<length script - 25] = Some i \<Longrightarrow> i + 25 < length script" for i
    by (auto simp: find_Some_iff)
  have keep: "gZeroByte (warn ev h) = gZeroByte h" "gDummyKey (warn ev h) = gDummyKey h"
    "gZeroByte (logMessage le h) = gZeroByte h" "gDummyKey (logMessage le h) = gDummyKey h" for ev le h
    by (simp_all add: warn_def logMessage_def)
  have keep2: "gZeroByte (snd (multisig_output script p first g)) = gZeroByte g"
    "gDummyKey (snd (multisig_output script p first g)) = gDummyKey g"
    by (simp_all add: multisig_output_def Let_def keep)
  define ok where "ok (r :: block_output \<times> globals) \<longleftrightarrow> keys_inside ?e (fst r) \<and> gZeroByte (snd r) = gZeroByte g \<and> gDummyKey (snd r) = gDummyKey g" for r
  have ok_if: "ok (if c then x else y)" if "c \<Longrightarrow> ok x" "\<not> c \<Longrightarrow> ok y" for c x y
    using that by simp
  have ok_key: "ok (set_key t q first, g)" if "q + key_size t \<le> ?e" for t q
    using key [OF that] by (simp add: ok_def)
  have ok_rest: "ok (case find (is_p2pkh_at script) [0..<length script - 25] of
      Some i \<Rightarrow> (set_key KT_RIPEMD160 (p + i + 3) first, warn LogUnusualScript g) | None \<Rightarrow> (first, g))"
    using found key [of _ KT_RIPEMD160] in0 by (auto simp: ok_def keep split: option.split)
  have ok_end: "ok (case r of (out, g) \<Rightarrow> (out, if publicKey out ! 0 = None then logMessage ev g else g))" if "ok r" for r ev
    using that by (auto simp: ok_def keep split: prod.split)
  have "ok (classify_script script p out g)"
    unfolding classify_script_def Let_def first_def [symmetric]
    by (intro ok_end ok_if ok_rest ok_key)
      (use in0 multi keep2 in \<open>simp_all add: ok_def keep\<close>)
  then show ?thesis by (simp add: ok_def)
qed

lemma deref_inside: "q + n \<le> length (mBlockData (fst s)) \<Longrightarrow> deref s (InBlock q) n = Ok (take n (drop q (mBlockData (fst s))))"
  by (simp add: deref_def)

lemma deref_placeholder:
  assumes "cursor_ok s" "r = ZeroKey \<or> r = DummyKey" "n \<le> 24"
  shows "\<exists>k. deref s r n = Ok k \<and> length k = n"
  using assms by (auto simp: deref_def cursor_ok_def)

lemma length_address_spec [simp]: "length (address_spec v h) = length h + 5"
  by (simp add: address_spec_def)

lemma key_addresses_inside:
  assumes "q + 1 + 64 \<le> length (mBlockData (fst s))" "length addr = 25"
  shows "\<exists>a. public_key_address s (InBlock q) addr = Ok a \<and> length a = 25"
    "\<exists>a. compressed_key_address s (InBlock q) addr = Ok a \<and> length a = 25"
proof -
  let ?k = "take 65 (drop q (mBlockData (fst s)))" and ?c = "take 33 (drop q (mBlockData (fst s)))"
  note maker = address_functions [OF assms(2), of ?k ?c "replicate 20 0", THEN conjunct1]
    address_functions [OF assms(2), of ?k ?c "replicate 20 0", THEN conjunct2, THEN conjunct1]
  show "\<exists>a. public_key_address s (InBlock q) addr = Ok a \<and> length a = 25"
    using assms maker(1) by (auto simp: public_key_address_def deref_inside)
  show "\<exists>a. compressed_key_address s (InBlock q) addr = Ok a \<and> length a = 25"
    using assms maker(2) by (auto simp: compressed_key_address_def deref_inside)
qed

lemma multisig_addresses_inside:
  assumes "\<And>r. Some r \<in> set keys \<Longrightarrow> \<exists>q. r = InBlock q \<and> q + 65 \<le> length (mBlockData (fst s))"
    "i + length keys \<le> length addrs" "\<And>a. a \<in> set addrs \<Longrightarrow> length a = 25"
  shows "\<exists>as. multisig_addresses s fmt i keys addrs = Ok as \<and> length as = length addrs \<and> (\<forall>a \<in> set as. length a = 25)"
  using assms
proof (induction keys arbitrary: i addrs)
  case (Cons key keys)
  show ?case
  proof (cases key)
    case (Some r)
    then obtain q where q: "r = InBlock q" "q + 1 + 64 \<le> length (mBlockData (fst s))"
      using Cons.prems(1) [of r] by auto
    have a: "length (addrs ! i) = 25" using Cons.prems(2,3) by simp
    obtain a where new: "(if bit fmt i then compressed_key_address s r (addrs ! i) else public_key_address s r (addrs ! i)) = Ok a"
      "length a = 25"
      using key_addresses_inside [OF q(2) a] q(1) by (metis (full_types))
    have "\<exists>as. multisig_addresses s fmt (i + 1) keys (addrs[i := a]) = Ok as \<and>
        length as = length (addrs[i := a]) \<and> (\<forall>a \<in> set as. length a = 25)"
    proof (rule Cons.IH)
      fix a' assume "a' \<in> set (addrs[i := a])"
      then show "length a' = 25" using new(2) Cons.prems(3) set_update_subset_insert [of addrs i a] by auto
    qed (use Cons.prems in auto)
    then show ?thesis using new(1) Some by simp
  qed (use Cons.prems in auto)
qed auto

lemma output_addresses_inside:
  assumes "cursor_ok s" "keys_inside (mBlockEnd (fst s)) out \<or>
      (keys_inside 0 (out\<lparr>publicKey := replicate 5 None\<rparr>) \<and> keyType out = KT_RIPEMD160 \<and>
       (publicKey out ! 0 = Some ZeroKey \<or> publicKey out ! 0 = Some DummyKey))"
  shows "\<exists>as. output_addresses stk s out = Ok as \<and> length as = 5 \<and> (\<forall>a \<in> set as. length a = 25)"
proof -
  have as: "addresses out = replicate 5 (replicate 25 0)" using assms(2) by (auto simp: keys_inside_def)
  have mk: "length (bitcoinRIPEMD160ToAddress h (replicate 25 0)) = 25"
      "length (bitcoinRIPEMD160ToScriptAddress h (replicate 25 0)) = 25" if "length h = 20" for h
    using address_functions [of "replicate 25 0" "replicate 65 0" "replicate 33 0" h] that by simp_all
  have ck: "length (snd (bitcoinCompressedPublicKeyToAddress c (replicate 25 0))) = 25" if "length c = 33" for c
    using address_functions [of "replicate 25 0" "replicate 65 0" c "replicate 20 0"] that by simp
  have upd: "length (as[0 := a]) = 5 \<and> (\<forall>a \<in> set (as[0 := a]). length a = 25)"
    if "as = replicate 5 (replicate 25 (0 :: u8))" "length a = 25" for as a
    using that by (simp add: numeral_eq_Suc)
  show ?thesis
  proof (cases "publicKey out ! 0")
    case None
    then show ?thesis by (simp add: output_addresses_def as)
  next
    case (Some r)
    have wrap: ?thesis if "output_addresses stk s out = bind_result (Ok a) (\<lambda>a. Ok ((addresses out)[0 := a]))"
      "length a = 25" for a
      using that upd [OF as] by simp
    from assms(2) show ?thesis
    proof
      assume out: "keys_inside (mBlockEnd (fst s)) out"
      then have "Some r \<in> set (publicKey out)" using Some by (metis keys_inside_def nth_mem zero_less_numeral)
      then obtain q where q: "r = InBlock q" "q + key_size (keyType out) \<le> mBlockEnd (fst s)"
        using out by (auto simp: keys_inside_def)
      have slack: "mBlockEnd (fst s) + 64 \<le> length (mBlockData (fst s))" using assms(1) by (simp add: cursor_ok_def)
      have d: "\<exists>k. deref s r n = Ok k \<and> length k = n" if "n \<le> key_size (keyType out)" for n
        using that q slack by (simp add: deref_inside)
      have pk: "1 \<le> key_size (keyType out) \<Longrightarrow> q + 1 + 64 \<le> length (mBlockData (fst s))" using q(2) slack by simp
      note keys = key_addresses_inside [OF pk, of "replicate 25 0"]
      show ?thesis
      proof (cases "keyType out")
        case KT_RIPEMD160
        with d [of 20] obtain k where "deref s r 20 = Ok k" "length k = 20" by auto
        with KT_RIPEMD160 mk(1) [of k] show ?thesis by (intro wrap) (simp_all add: output_addresses_def Some as)
      next
        case KT_SCRIPT_HASH
        with d [of 20] obtain k where "deref s r 20 = Ok k" "length k = 20" by auto
        with KT_SCRIPT_HASH mk(2) [of k] show ?thesis by (intro wrap) (simp_all add: output_addresses_def Some as)
      next
        case KT_STEALTH
        with d [of 20] obtain k where "deref s r 20 = Ok k" "length k = 20" by auto
        with KT_STEALTH mk(1) [of k] show ?thesis by (intro wrap) (simp_all add: output_addresses_def Some as)
      next
        case KT_UNCOMPRESSED_PUBLIC_KEY
        with keys(1) q(1) show ?thesis by (auto simp: output_addresses_def Some as numeral_eq_Suc)
      next
        case KT_COMPRESSED_PUBLIC_KEY
        with keys(2) q(1) show ?thesis by (auto simp: output_addresses_def Some as numeral_eq_Suc)
      next
        case KT_TRUNCATED_COMPRESSED_KEY
        with d [of 32] obtain k where k: "deref s r 32 = Ok k" "length k = 32" by auto
        with KT_TRUNCATED_COMPRESSED_KEY ck [of "splice (2 # replicate 31 0 @ [stack_key32 stk]) 0 k"] show ?thesis
          by (intro wrap) (simp_all add: output_addresses_def Some as Let_def)
      next
        case KT_MULTISIG
        have "\<exists>q. r = InBlock q \<and> q + 65 \<le> length (mBlockData (fst s))" if "Some r \<in> set (publicKey out)" for r
          using out that slack KT_MULTISIG by (fastforce simp: keys_inside_def)
        then show ?thesis
          using multisig_addresses_inside [of "publicKey out" s 0 "addresses out" "multiSigFormat out"] out KT_MULTISIG
          by (auto simp: output_addresses_def Some as keys_inside_def)
      qed (simp_all add: output_addresses_def Some as)
    next
      assume out: "keys_inside 0 (out\<lparr>publicKey := replicate 5 None\<rparr>) \<and> keyType out = KT_RIPEMD160 \<and>
        (publicKey out ! 0 = Some ZeroKey \<or> publicKey out ! 0 = Some DummyKey)"
      then obtain k where "deref s r 20 = Ok k" "length k = 20"
        using deref_placeholder [OF assms(1), of r 20] Some by auto
      with out mk(1) [of k] show ?thesis by (intro wrap) (simp_all add: output_addresses_def Some as)
    qed
  qed
qed

lemma ascii_keys_inside:
  assumes "i + length keys \<le> length addrs" "\<And>a. a \<in> set addrs \<Longrightarrow> length a = 25" "length temp = 256"
  shows "\<exists>t. ascii_keys bld i keys addrs temp start = Ok t \<and> length t \<le> length start + 36 * length keys"
  using assms
proof (induction keys arbitrary: i temp start)
  case (Cons key keys)
  show ?case
  proof (cases key)
    case (Some r)
    have a: "length (addrs ! i) = 25" using Cons.prems(1,2) by simp
    obtain t where t: "bitcoinAddressToAscii bld (addrs ! i) temp 256 = Ok (True, t)"
      "takeWhile ((\<noteq>) 0) t = address_text (addrs ! i)" "length t = 256"
      using bitcoinAddressToAscii_any [OF a Cons.prems(3)] by blast
    let ?start = "start @ (if i \<noteq> 0 then cstr '':'' else []) @ address_text (addrs ! i)"
    have "length ?start \<le> length start + 36" using address_text_length [OF a] by (cases "i = 0") (simp_all add: cstr_def)
    moreover obtain t' where "ascii_keys bld (i + 1) keys addrs t ?start = Ok t'" "length t' \<le> length ?start + 36 * length keys"
      using Cons.IH [of "i + 1" t ?start] Cons.prems(1,2) t(3) by auto
    ultimately show ?thesis using t(1,2) Some by simp
  qed (use Cons.prems in auto)
qed simp

lemma getAsciiAddress_inside:
  assumes "length (publicKey out) = 5" "length (addresses out) = 5" "\<forall>a \<in> set (addresses out). length a = 25"
    "signatureCount out = 1" "length (stack_temp stk) = 256"
  shows "\<exists>out'. getAsciiAddress bld stk out = Ok out'"
proof -
  have d: "decimal (Suc 0) = [49]" by (simp add: decimal.simps)
  define tag where "tag = (case keyType out of
                   KT_MULTISIG \<Rightarrow> cstr ''MultiSig['' @ decimal (unat (signatureCount out)) @ cstr '']''
                 | KT_STEALTH \<Rightarrow> cstr ''*STEALTH*''
                 | KT_SCRIPT_HASH \<Rightarrow> cstr ''*SCRIPT_HASH*''
                 | _ \<Rightarrow> [])"
  have "length tag \<le> 20" using assms(4) by (cases "keyType out") (simp_all add: tag_def d cstr_def)
  moreover obtain t where "ascii_keys bld 0 (publicKey out) (addresses out) (stack_temp stk) tag = Ok t"
    "length t \<le> length tag + 36 * 5"
    using ascii_keys_inside [of 0 "publicKey out" "addresses out" "stack_temp stk" bld tag] assms by auto
  ultimately show ?thesis by (simp add: getAsciiAddress_def Let_def tag_def [symmetric])
qed

definition key_inside :: "nat \<Rightarrow> block_output \<Rightarrow> keyref \<Rightarrow> bool" where
  "key_inside e out r \<longleftrightarrow>
     (case r of InBlock q \<Rightarrow> q + key_size (keyType out) \<le> e | _ \<Rightarrow> keyType out = KT_RIPEMD160)"

text \<open>
  The keys of a multi-signature script: their places \<open>qs\<close>, none after them. Key \<open>i\<close> has 33 bytes if the bit of the format says that it is
  compressed and 65 otherwise; the byte behind it is the push of the next key, so all keys but the last lie inside. The last one starts
  two bytes before the end at least, and so may run 63 bytes past it.
\<close>

definition multisig_size :: "u32 \<Rightarrow> nat \<Rightarrow> nat" where
  "multisig_size fmt i = (if bit fmt i then 33 else 65)"

definition keys_laid :: "nat \<Rightarrow> block_output \<Rightarrow> nat list \<Rightarrow> bool" where
  "keys_laid e out qs \<longleftrightarrow> length qs \<le> 5 \<and> publicKey out = map (\<lambda>q. Some (InBlock q)) qs @ replicate (5 - length qs) None \<and>
     (\<forall>i. Suc i < length qs \<longrightarrow> qs ! Suc i = qs ! i + multisig_size (multiSigFormat out) i + 1) \<and> (\<forall>q \<in> set qs. q + 2 \<le> e)"

lemma keys_laid_inside:
  "keys_laid e out qs \<Longrightarrow> Suc i < length qs \<Longrightarrow> qs ! i + multisig_size (multiSigFormat out) i < e"
  unfolding keys_laid_def by (metis Suc_eq_plus1 Suc_le_eq add_leD1 nth_mem)

text \<open>Every output has a key, of a type that is known, and a text of at most 511 characters.\<close>

definition output_decoded :: "nat \<Rightarrow> block_output \<Rightarrow> bool" where
  "output_decoded e out \<longleftrightarrow>
     length (publicKey out) = 5 \<and> publicKey out ! 0 \<noteq> None \<and> (\<forall>r. Some r \<in> set (publicKey out) \<longrightarrow> key_inside e out r) \<and>
     keyType out \<notin> {KT_UNKNOWN, KT_ZERO_LENGTH, KT_LAST} \<and> keyTypeName out = getKeyType (keyType out) \<and>
     length (addresses out) = 5 \<and> (\<forall>a \<in> set (addresses out). length a = 25) \<and> length (multisig out) = 25 \<and>
     signatureCount out = 1 \<and> length (asciiAddress out) < 512 \<and> (keyType out = KT_MULTISIG \<longrightarrow> (\<exists>qs. keys_laid e out qs))"

text \<open>What decoding keeps of an output, that a key comes with its type, and that without a first key there is none.\<close>

definition decodes :: "block_output \<Rightarrow> block_output \<Rightarrow> bool" where
  "decodes out out' \<longleftrightarrow> output_value out' = output_value out \<and> challengeScriptLength out' = challengeScriptLength out \<and>
     challengeScript out' = challengeScript out \<and> length (publicKey out') = 5 \<and>
     (publicKey out' ! 0 = None \<longrightarrow> publicKey out' = replicate 5 None) \<and>
     (publicKey out' ! 0 \<noteq> None \<longrightarrow> keyType out' \<notin> {KT_UNKNOWN, KT_ZERO_LENGTH, KT_LAST})"

lemma decodes_fresh: "publicKey out = replicate 5 None \<Longrightarrow> decodes out out"
  by (simp add: decodes_def)

lemma decodes_set_key: "decodes out out' \<Longrightarrow> t \<notin> {KT_UNKNOWN, KT_ZERO_LENGTH, KT_LAST} \<Longrightarrow> decodes out (set_key t q out')"
  by (simp add: decodes_def set_key_def)

lemma decodes_multisig_scan:
  "decodes out out' \<Longrightarrow> k \<noteq> 0 \<longrightarrow> publicKey out' ! 0 \<noteq> None \<Longrightarrow> decodes out (multisig_scan n script p i e k out')"
proof (induction n script p i e k out' rule: multisig_scan.induct)
  case (2 n script p i e k out')
  have upd: "decodes out (out'\<lparr>keyType := KT_MULTISIG, publicKey := (publicKey out')[k := Some r]\<rparr>) \<and>
      (publicKey out')[k := Some r] ! 0 \<noteq> None" for r
    using 2(3,4) by (cases "k = 0") (auto simp: decodes_def)
  then have "decodes out (out'\<lparr>keyType := KT_MULTISIG, publicKey := (publicKey out')[k := Some r], multiSigFormat := m\<rparr>)" for r m
    by (simp add: decodes_def)
  with upd 2 show ?case by simp
qed simp

lemma decodes_multisig: "decodes out out' \<Longrightarrow> decodes out (fst (multisig_output script p out' g))"
  by (simp add: multisig_output_def Let_def decodes_multisig_scan)

lemma decodes_classify: "publicKey out = replicate 5 None \<Longrightarrow> decodes out (fst (classify_script script p out g))"
proof -
  assume none: "publicKey out = replicate 5 None"
  have fin: "decodes out (fst (case r of (out, g) \<Rightarrow> (out, if publicKey out ! 0 = None then logMessage ev g else g)))"
    if "decodes out (fst r)" for r ev using that by (cases r) simp
  have pair: "decodes out (fst (if c then x else y))" if "c \<Longrightarrow> decodes out (fst x)" "\<not> c \<Longrightarrow> decodes out (fst y)" for c x y
    using that by simp
  have scan: "decodes out (fst (case r of Some i \<Rightarrow> (set_key KT_RIPEMD160 (p + i + 3) x, h) | None \<Rightarrow> (x, h')))"
    if "decodes out x" for r x h h'
    using that by (auto simp: decodes_set_key split: option.split)
  have first: "decodes out (if c then set_key KT_UNCOMPRESSED_PUBLIC_KEY q out else out)" for c q
    using decodes_fresh [OF none] by (simp add: decodes_set_key)
  show ?thesis unfolding classify_script_def Let_def
    by (intro fin pair scan first decodes_multisig) (simp_all add: decodes_set_key first decodes_fresh [OF none])
qed

lemma keys_laid_more:
  assumes "keys_laid e out qs" "length qs = k" "k < 5" "q + 2 \<le> e" "\<forall>i < k. bit m i = bit (multiSigFormat out) i"
    "qs \<noteq> [] \<Longrightarrow> q = last qs + multisig_size (multiSigFormat out) (k - 1) + 1"
  shows "keys_laid e (out\<lparr>keyType := t, publicKey := (publicKey out)[k := Some (InBlock q)], multiSigFormat := m\<rparr>) (qs @ [q])"
proof -
  have k: "5 - k = Suc (5 - Suc k)" using assms(3) by simp
  have pk: "publicKey out = map (\<lambda>q. Some (InBlock q)) qs @ replicate (5 - k) None" using assms(1,2) by (simp add: keys_laid_def)
  have keys: "(publicKey out)[k := Some (InBlock q)] = map (\<lambda>q. Some (InBlock q)) (qs @ [q]) @ replicate (5 - Suc k) None"
    using assms(2) by (simp add: pk list_update_append k)
  have next_key: "(qs @ [q]) ! Suc i = (qs @ [q]) ! i + multisig_size m i + 1" if "Suc i < Suc k" for i
  proof (cases "Suc i = k")
    case True
    then have ne: "qs \<noteq> []" using assms(2) by auto
    then have "last qs = qs ! i" using assms(2) by (simp add: last_conv_nth True [symmetric])
    then have "q = qs ! i + multisig_size (multiSigFormat out) i + 1" using assms(6) ne True by auto
    then show ?thesis using assms(2,5) True [symmetric] by (simp add: nth_append multisig_size_def)
  next
    case False
    then show ?thesis using assms(1,2,5) that by (auto simp: keys_laid_def nth_append multisig_size_def)
  qed
  show ?thesis using assms(1-4) keys next_key by (auto simp: keys_laid_def)
qed

lemma multisig_scan_laid:
  assumes "scanEnd + 2 \<le> length script"
  shows "keys_laid (p + length script) out qs \<Longrightarrow> length qs = k \<Longrightarrow> n + k = 5 \<Longrightarrow> \<forall>i \<ge> k. \<not> bit (multiSigFormat out) i \<Longrightarrow>
    (qs \<noteq> [] \<Longrightarrow> p + scanBegin = last qs + multisig_size (multiSigFormat out) (k - 1)) \<Longrightarrow>
    \<exists>qs'. keys_laid (p + length script) (multisig_scan n script p scanBegin scanEnd k out) qs'"
proof (induction n arbitrary: scanBegin k out qs)
  case (Suc n)
  let ?q = "p + scanBegin + 1" and ?f = "multiSigFormat out"
  let ?next = "\<lambda>m. out\<lparr>keyType := KT_MULTISIG, publicKey := (publicKey out)[k := Some (InBlock ?q)], multiSigFormat := m\<rparr>"
  have new: "keys_laid (p + length script) (?next m) (qs @ [?q])"
    if "scanBegin < scanEnd" "\<forall>i < k. bit m i = bit ?f i" for m
    by (rule keys_laid_more [OF Suc.prems(1,2)]) (use Suc.prems(3,5) assms that in auto)
  have plain: "out\<lparr>keyType := KT_MULTISIG, publicKey := (publicKey out)[k := Some (InBlock ?q)]\<rparr> = ?next ?f" by simp
  have bits: "bit (?f OR push_bit k 1) i \<longleftrightarrow> bit ?f i \<or> i = k" for i
    using Suc.prems(3) by (auto simp: bit_simps)
  show ?case
  proof (cases "scanBegin < scanEnd")
    case True
    have a: "\<exists>qs'. keys_laid (p + length script) (multisig_scan n script p (scanBegin + 1 + 0x21) scanEnd (k + 1) (?next (?f OR push_bit k 1))) qs'"
      by (rule Suc.IH [OF new [OF True]]) (use Suc.prems(2-4) bits in \<open>auto simp: multisig_size_def\<close>)
    have b: "\<exists>qs'. keys_laid (p + length script) (multisig_scan n script p (scanBegin + 1 + 0x41) scanEnd (k + 1) (?next ?f)) qs'"
      by (rule Suc.IH [OF new [OF True]]) (use Suc.prems(2-4) in \<open>auto simp: multisig_size_def\<close>)
    show ?thesis using a b Suc.prems(1) True by (auto simp: plain)
  qed (use Suc.prems(1) in auto)
qed auto

lemma classify_script_multisig:
  assumes "publicKey out = replicate 5 None" "keyType out \<noteq> KT_MULTISIG" "multiSigFormat out = 0"
  shows "keyType (fst (classify_script script p out g)) = KT_MULTISIG \<longrightarrow>
    (\<exists>qs. keys_laid (p + length script) (fst (classify_script script p out g)) qs)"
proof -
  define ok where "ok (r :: block_output \<times> globals) \<longleftrightarrow> (keyType (fst r) = KT_MULTISIG \<longrightarrow>
    (\<exists>qs. keys_laid (p + length script) (fst r) qs))" for r
  define first where "first = (if length script = 67 \<and> script ! 0 = 65 \<and> script ! 66 = OP_CHECKSIG
                 then set_key KT_UNCOMPRESSED_PUBLIC_KEY (p + 1) out else out)"
  have ok_key: "ok (set_key t q first, h)" if "t \<noteq> KT_MULTISIG" for t q h
    using that by (simp add: ok_def set_key_def)
  have ok_first: "ok (first, h)" for h using assms(2) by (simp add: ok_def first_def set_key_def)
  have multi: "ok (multisig_output script p first g)"
    if "script ! (length script - 1) = OP_CHECKMULTISIG" "length script > 25"
  proof -
    have f: "first = out" using that(1) by (auto simp: first_def opcodes)
    have "keys_laid (p + length script) out []" using assms(1) by (simp add: keys_laid_def)
    from multisig_scan_laid [where n = 5, OF _ this, of "length script - 2" 0 1] that(2) assms(3) assms(2)
    show ?thesis by (simp add: ok_def multisig_output_def Let_def f)
  qed
  have ok_if: "ok (if c then x else y)" if "c \<Longrightarrow> ok x" "\<not> c \<Longrightarrow> ok y" for c x y
    using that by simp
  have ok_rest: "ok (case find (is_p2pkh_at script) [0..<length script - 25] of
      Some i \<Rightarrow> (set_key KT_RIPEMD160 (p + i + 3) first, warn LogUnusualScript g) | None \<Rightarrow> (first, g))"
    by (simp add: ok_key ok_first split: option.split)
  have ok_end: "ok (case r of (out, g) \<Rightarrow> (out, if publicKey out ! 0 = None then logMessage ev g else g))" if "ok r" for r ev
    using that by (auto simp: ok_def split: prod.split)
  have "ok (classify_script script p out g)"
    unfolding classify_script_def Let_def first_def [symmetric]
    by (intro ok_end ok_if ok_rest ok_key ok_first multi) simp_all
  then show ?thesis by (simp add: ok_def)
qed

lemma getAsciiAddress_typed:
  assumes "length (publicKey out) = 5" "length (addresses out) = 5" "\<forall>a \<in> set (addresses out). length a = 25"
    "signatureCount out = 1" "length (stack_temp stk) = 256" "length (multisig out) = 25"
  shows "\<exists>t m. getAsciiAddress bld stk out = Ok (out\<lparr>asciiAddress := t, multisig := m\<rparr>) \<and> length t < 512 \<and> length m = 25"
proof -
  obtain out' where out': "getAsciiAddress bld stk out = Ok out'" using getAsciiAddress_inside [OF assms(1-5)] by blast
  have "length (bitcoinRIPEMD160ToAddress (computeRIPEMD160 (concat (addresses out)) (25 * 5)) (multisig out)) = 25"
    using address_functions [of "multisig out" "replicate 65 0" "replicate 33 0"] assms(6) by simp
  moreover define m where "m = (if keyType out = KT_MULTISIG
    then bitcoinRIPEMD160ToAddress (computeRIPEMD160 (concat (addresses out)) (25 * 5)) (multisig out) else multisig out)"
  ultimately have "length m = 25" using assms(6) by simp
  moreover obtain t where "out' = out\<lparr>asciiAddress := t, multisig := m\<rparr>" "length t < 512"
    using out' unfolding getAsciiAddress_def Let_def m_def [symmetric] by (auto simp: bind_result_eq_Inr split: if_splits)
  ultimately show ?thesis using out' by blast
qed

lemma decode_output_inside:
  assumes "length (stack_temp stk) = 256" "cursor_ok (b, g)" "case ptr of None \<Rightarrow> True | Some p \<Rightarrow> p + unat len \<le> mBlockEnd b"
  shows "\<exists>out g'. decode_output Debug stk v len ptr (b, g) = Ok (out, b, g') \<and> keeps g g' \<and>
    output_decoded (mBlockEnd b) out \<and> output_value out = v \<and> challengeScriptLength out = len \<and> challengeScript out = ptr"
proof -
  define fresh where "fresh = BlockOutput\<lparr>output_value := v, challengeScriptLength := len, challengeScript := ptr\<rparr>"
  have fresh: "keys_inside e fresh" "publicKey fresh = replicate 5 None" "keyType fresh \<noteq> KT_MULTISIG" "multiSigFormat fresh = 0" for e
    using keys_inside_fresh [where v = v and l = len and c = ptr] by (simp_all add: fresh_def BlockOutput_def MAX_MULTISIG_def)
  obtain out g1 where one: "(case ptr of
               Some p \<Rightarrow>
                 if p + unat len \<le> length (mBlockData b)
                 then Ok (classify_script (take (unat len) (drop p (mBlockData b))) p fresh g)
                 else Fault OutOfBounds
             | None \<Rightarrow> Ok (fresh, (logMessage (LogZeroLengthScript (gBlockIndex g)) g)\<lparr>gReportTransactionHash := True\<rparr>))
         = Ok (out, g1)" "keys_inside (mBlockEnd b) out" "keeps g g1" "decodes fresh out"
    "keyType out = KT_MULTISIG \<longrightarrow> (\<exists>qs. keys_laid (mBlockEnd b) out qs)"
  proof (cases ptr)
    case None
    with that [of fresh "(logMessage (LogZeroLengthScript (gBlockIndex g)) g)\<lparr>gReportTransactionHash := True\<rparr>"]
    show ?thesis using fresh by (simp add: decodes_fresh)
  next
    case (Some p)
    let ?c = "classify_script (take (unat len) (drop p (mBlockData b))) p fresh g"
    have len: "length (take (unat len) (drop p (mBlockData b))) = unat len" "p + unat len \<le> length (mBlockData b)"
      using assms(2,3) Some by (auto simp: cursor_ok_def)
    have "keys_inside (mBlockEnd b) (fst ?c)" "keeps g (snd ?c)"
      using classify_script_inside [OF fresh(2,1), of p "take (unat len) (drop p (mBlockData b))" g] assms(2,3) Some len(1)
      by (auto simp: keeps_def elim!: keys_inside_mono)
    moreover have "keyType (fst ?c) = KT_MULTISIG \<longrightarrow> (\<exists>qs. keys_laid (mBlockEnd b) (fst ?c) qs)"
      using classify_script_multisig [OF fresh(2-4), where script = "take (unat len) (drop p (mBlockData b))" and p = p and g = g]
        assms(3) Some len(1) by (auto simp: keys_laid_def intro: le_trans)
    ultimately show ?thesis using that [of "fst ?c" "snd ?c"] Some len fresh(2) by (simp add: decodes_classify)
  qed
  define out2 where "out2 = (if publicKey out ! 0 = None
                 then out\<lparr>publicKey := (publicKey out)[0 := Some (if len = 0 then ZeroKey else DummyKey)],
                           keyType := KT_RIPEMD160\<rparr> else out)"
  define g2 where "g2 = (if publicKey out ! 0 = None
                 then (logMessage (LogUndecodedKey (gBlockIndex g1) (gTransactionIndex g1) (gOutputIndex g1) len) g1)
                         \<lparr>gReportTransactionHash := True, gIsWarning := True\<rparr> else g1)"
  have two: "(if publicKey out ! 0 = None
                 then (out\<lparr>publicKey := (publicKey out)[0 := Some (if len = 0 then ZeroKey else DummyKey)],
                           keyType := KT_RIPEMD160\<rparr>,
                       (logMessage (LogUndecodedKey (gBlockIndex g1) (gTransactionIndex g1) (gOutputIndex g1) len) g1)
                         \<lparr>gReportTransactionHash := True, gIsWarning := True\<rparr>)
                 else (out, g1)) = (out2, g2)"
    by (simp add: out2_def g2_def)
  have k2: "keeps g g2" using one(3) by (simp add: g2_def)
  have g2: "cursor_ok (b, g2)" by (rule cursor_ok_keeps [OF assms(2) k2])
  have out2: "length (publicKey out2) = 5" "signatureCount out2 = 1" "length (multisig out2) = 25" "publicKey out2 ! 0 \<noteq> None"
    using one(2) by (simp_all add: out2_def keys_inside_def)
  have type2: "keyType out2 \<notin> {KT_UNKNOWN, KT_ZERO_LENGTH, KT_LAST}" "output_value out2 = v" "challengeScriptLength out2 = len"
    "challengeScript out2 = ptr"
    using one(4) by (auto simp: out2_def decodes_def fresh_def)
  have key2: "key_inside (mBlockEnd b) out2 r" if r: "Some r \<in> set (publicKey out2)" for r
  proof (cases "publicKey out ! 0 = None")
    case True
    then have "publicKey out2 = (replicate 5 None)[0 := Some (if len = 0 then ZeroKey else DummyKey)]" "keyType out2 = KT_RIPEMD160"
      using one(4) by (simp_all add: out2_def decodes_def)
    with r show ?thesis by (auto simp: key_inside_def numeral_eq_Suc split: if_splits)
  next
    case False
    with r one(2) show ?thesis by (auto simp: out2_def key_inside_def keys_inside_def)
  qed
  have laid2: "keyType out2 = KT_MULTISIG \<longrightarrow> (\<exists>qs. keys_laid (mBlockEnd b) out2 qs)"
    using one(5) by (simp add: out2_def)
  have "\<exists>as. output_addresses stk (b, g2) out2 = Ok as \<and> length as = 5 \<and> (\<forall>a \<in> set as. length a = 25)"
    by (rule output_addresses_inside [OF g2]) (use one(2) in \<open>auto simp: out2_def keys_inside_def\<close>)
  then obtain as where as: "output_addresses stk (b, g2) out2 = Ok as" "length as = 5" "\<forall>a \<in> set as. length a = 25"
    by blast
  let ?out2 = "out2\<lparr>addresses := as, keyTypeName := getKeyType (keyType out2)\<rparr>"
  obtain t m where out3: "getAsciiAddress Debug stk ?out2 = Ok (?out2\<lparr>asciiAddress := t, multisig := m\<rparr>)"
    "length t < 512" "length m = 25"
    using getAsciiAddress_typed [of ?out2 stk Debug] out2 as assms(1) by auto
  let ?g = "if gReportTransactionHash g2 then g2\<lparr>gIsWarning := True\<rparr> else g2"
  have "decode_output Debug stk v len ptr (b, g) = Ok (?out2\<lparr>asciiAddress := t, multisig := m\<rparr>, b, ?g)"
    unfolding decode_output_def Let_def fresh_def [symmetric]
    by (simp only: prod.case one(1) two as(1) out3 bind_result_simps)
  moreover have "keeps g ?g" using k2 by simp
  moreover have "output_decoded (mBlockEnd b) (?out2\<lparr>asciiAddress := t, multisig := m\<rparr>)"
    using out2 type2 key2 as out3 laid2 by (simp add: output_decoded_def key_inside_def keys_laid_def cong: keyref.case_cong)
  moreover have "output_value (?out2\<lparr>asciiAddress := t, multisig := m\<rparr>) = v"
    "challengeScriptLength (?out2\<lparr>asciiAddress := t, multisig := m\<rparr>) = len"
    "challengeScript (?out2\<lparr>asciiAddress := t, multisig := m\<rparr>) = ptr" using type2(2-4) by simp_all
  ultimately show ?thesis by blast
qed

lemma safe_decode_output:
  assumes "length (stack_temp stk) = 256"
  shows "safe (\<lambda>s. case ptr of None \<Rightarrow> True | Some p \<Rightarrow> p + unat len \<le> mBlockEnd (fst s))
    (decode_output Debug stk v len ptr) any_result"
  unfolding safe_def
proof (intro allI impI)
  fix s :: reader_state
  assume s: "cursor_ok s" "case ptr of None \<Rightarrow> True | Some p \<Rightarrow> p + unat len \<le> mBlockEnd (fst s)"
  obtain b g where [simp]: "s = (b, g)" by (cases s)
  have "case ptr of None \<Rightarrow> True | Some p \<Rightarrow> p + unat len \<le> mBlockEnd b" using s(2) by (cases ptr) simp_all
  then obtain out g' where "decode_output Debug stk v len ptr (b, g) = Ok (out, b, g')" "keeps g g'"
    using decode_output_inside [OF assms, where b = b and g = g and ptr = ptr and len = len and v = v] s(1) by auto
  then show "case decode_output Debug stk v len ptr s of Inl f \<Rightarrow> f = AssertFailure \<or> f = ProcessExit
      | Inr r \<Rightarrow> cursor_ok (snd r) \<and> moved s (snd r) \<and> any_result (fst r) (snd r)"
    using s(1) by (simp add: cursor_ok_keeps moved_def)
qed

lemma safe_readOutput:
  assumes "length (stack_temp stk) = 256"
  shows "safe any_state (readOutput Debug stk) any_result"
  unfolding readOutput_def
  apply (rule safe_bind [OF safe_reads(4)], rule safe_bind [OF safe_modify], simp, rule safe_bind [OF safe_varint])
  apply (rule safe_bind [OF safe_check], rule safe_bind [OF safe_modify], simp add: logMessage_def)
  by (rule safe_bind [OF safe_exit_if], rule safe_bind [OF safe_read_script], rule safe_decode_output [OF assms])

lemma safe_readOutputs:
  assumes "length (stack_temp stk) = 256"
  shows "safe any_state (readOutputs Debug stk i n) any_result"
proof (induction n arbitrary: i)
  case (Suc n)
  show ?case unfolding readOutputs.simps
    apply (rule safe_bind [OF safe_modify], simp, rule safe_bind [OF safe_readOutput [OF assms]])
    by (rule safe_bind [OF Suc], rule safe_return)
qed (simp add: safe_return)

lemma safe_finish: "safe any_state (finish_transaction p i t) any_result"
  by (auto simp: safe_def finish_transaction_def Let_def cursor_ok_def moved_def logMessage_def)

lemma safe_readTransaction:
  assumes "length (stack_temp stk) = 256"
  shows "safe any_state (readTransaction Debug stk t index tindex) any_result"
  unfolding readTransaction_def Let_def
  apply (rule safe_bind [OF safe_get], rule safe_bind [OF safe_reads(3)])
  apply (rule safe_bind [OF safe_modify], simp add: logMessage_def, rule safe_bind [OF safe_varint])
  apply (rule safe_bind [OF safe_check], rule safe_bind [OF safe_exit_if], rule safe_bind [OF safe_modify], simp)
  apply (rule safe_bind [OF safe_get], rule safe_bind [OF safe_check], rule safe_bind [OF safe_exit_if])
  apply (rule safe_bind [OF safe_readInputs], rule safe_if [OF safe_return], rule safe_bind [OF safe_varint])
  apply (rule safe_bind [OF safe_check], rule safe_bind [OF safe_exit_if], rule safe_bind [OF safe_modify], simp)
  apply (rule safe_bind [OF safe_get], rule safe_bind [OF safe_check], rule safe_bind [OF safe_exit_if])
  by (rule safe_bind [OF safe_readOutputs [OF assms]], rule safe_bind [OF safe_reads(3)],
      rule safe_bind [OF safe_finish], rule safe_return)

lemma safe_readTransactions:
  assumes "length (stack_temp stk) = 256"
  shows "safe any_state (readTransactions Debug stk pool index i n) any_result"
proof (induction n arbitrary: pool index i)
  case (Suc n)
  show ?case unfolding readTransactions.simps
    apply (rule safe_bind [OF safe_modify], simp, rule safe_bind [OF safe_readTransaction [OF assms]])
    by (simp add: Suc safe_return split: prod.split)
qed (simp add: safe_return)

lemma safe_start:
  assumes "unat len + 64 \<le> length d" "length (gZeroByte g) = 25" "length (gDummyKey g) = 25"
    "safe any_state m any_result"
    "bind_state (modify (\<lambda>(b, g). (b\<lparr>mBlockData := d, mBlockRead := 0, mBlockEnd := unat len\<rparr>, g))) (\<lambda>_. m) (b, g) = r"
  shows "r = Fault AssertFailure \<or> r = Fault ProcessExit \<or>
    (\<exists>v b' g'. r = Ok (v, b', g') \<and> mBlockData b' = d \<and> mBlockRead b' \<le> unat len)"
proof -
  let ?s = "(b\<lparr>mBlockData := d, mBlockRead := 0, mBlockEnd := unat len\<rparr>, g)"
  have "cursor_ok ?s" using assms(1-3) by (simp add: cursor_ok_def)
  moreover have "r = m ?s" using assms(5) by (simp add: bind_state_def modify_def)
  ultimately show ?thesis
    using assms(4) [unfolded safe_def, rule_format, of ?s]
    by (cases "m ?s") (auto simp: cursor_ok_def moved_def)
qed

text \<open>
  C2: memory safety of the block parser in a debug build. For any block of \<open>len\<close> bytes that is followed by 64
  more allocated bytes, whatever the bytes are, \<open>processBlockData\<close> returns with the cursor inside
  the block or stops in an assert or in \<open>exit\<close>; it never reads outside of the buffer or overruns the text or key arrays,
  and it never loops.
\<close>

theorem processBlockData_safe:
  assumes "unat len + 64 \<le> length blockData" "length (stack_temp stk) = 256"
    "length (gZeroByte g) = 25" "length (gDummyKey g) = 25"
  shows "processBlockData Debug stk blockData len index (b, g) = Fault AssertFailure \<or>
    processBlockData Debug stk blockData len index (b, g) = Fault ProcessExit \<or>
    (\<exists>r b' g'. processBlockData Debug stk blockData len index (b, g) = Ok (r, b', g') \<and>
       mBlockData b' = blockData \<and> mBlockRead b' \<le> unat len)"
  unfolding processBlockData_def
  apply (rule safe_start [OF assms(1,3,4) _ refl])
  apply (rule safe_bind [OF safe_reads(3)], rule safe_bind [OF safe_readHash], rule safe_bind [OF safe_readHash])
  apply (rule safe_bind [OF safe_reads(3)], rule safe_bind [OF safe_reads(3)], rule safe_bind [OF safe_reads(3)])
  apply (rule safe_bind [OF safe_modify], simp, rule safe_bind [OF safe_varint], rule safe_bind [OF safe_modify], simp)
  apply (rule safe_bind [OF safe_check], rule safe_bind [OF safe_exit_if], rule safe_bind [OF safe_get])
  apply (rule safe_bind [OF safe_readTransactions [OF assms(2)]])
  by (simp split: prod.split) (intro allI impI safe_bind [OF safe_modify] safe_return; simp)

theorem processBlockData_safe_witness:
  "processBlockData Debug \<lparr>stack_key32 = 0, stack_temp = replicate 256 0\<rparr> (replicate 100 7) 36 0 (block_on [], no_globals) = Fault AssertFailure \<or>
    processBlockData Debug \<lparr>stack_key32 = 0, stack_temp = replicate 256 0\<rparr> (replicate 100 7) 36 0 (block_on [], no_globals) = Fault ProcessExit \<or>
    (\<exists>r b' g'. processBlockData Debug \<lparr>stack_key32 = 0, stack_temp = replicate 256 0\<rparr> (replicate 100 7) 36 0 (block_on [], no_globals) = Ok (r, b', g') \<and>
       mBlockData b' = replicate 100 7 \<and> mBlockRead b' \<le> unat (36 :: u32))"
  by (rule processBlockData_safe) (simp_all add: no_globals_def)

section \<open>Unusual scripts\<close>

text \<open>
  The scan for a pay-to-public-key-hash pattern inside of a longer script stops one position early. After one
  leading byte the pattern is found when at least one more byte follows it, and missed, so
  that the output gets the placeholder key, when it ends the script.
\<close>

theorem embedded_pattern_scan:
  assumes "length h = 20" "publicKey out = replicate 5 None" "y \<noteq> OP_CHECKMULTISIG"
  shows "classify_script (x # script_bytes (P2PKH h)) p out g =
      (out, logMessage (LogNoPublicKey 26 (x # script_bytes (P2PKH h))) g) \<and>
    classify_script (x # script_bytes (P2PKH h) @ [y]) p out g =
      (set_key KT_RIPEMD160 (p + 4) out, warn LogUnusualScript g)"
proof -
  have up: "[0..<1] = [0 :: nat]" "[0..<2] = [0, 1 :: nat]" by (simp_all add: upt_rec)
  have "find (is_p2pkh_at (x # script_bytes (P2PKH h))) [0..<1] = None"
    by (simp add: up is_p2pkh_at_def opcodes)
  moreover have "find (is_p2pkh_at (x # script_bytes (P2PKH h) @ [y])) [0..<2] = Some 1"
    using assms(1) by (simp add: up is_p2pkh_at_def nth_append opcodes)
  ultimately show ?thesis
    using assms by (simp add: classify_script_def Let_def nth_append opcodes set_key_def add.commute [of 4 p])
qed

theorem embedded_pattern_scan_witness:
  "classify_script (7 # script_bytes (P2PKH (replicate 20 1))) 0 BlockOutput no_globals =
      (BlockOutput, logMessage (LogNoPublicKey 26 (7 # script_bytes (P2PKH (replicate 20 1)))) no_globals) \<and>
    classify_script (7 # script_bytes (P2PKH (replicate 20 1)) @ [9]) 0 BlockOutput no_globals =
      (set_key KT_RIPEMD160 (0 + 4) BlockOutput, warn LogUnusualScript no_globals)"
  by (rule embedded_pattern_scan) (simp_all add: BlockOutput_def MAX_MULTISIG_def opcodes)

text \<open>
  An output that holds a truncated compressed key (32 bytes after a push of 32) loses the prefix byte: the key
  that is hashed is the 32 bytes and then whatever the last byte of the uninitialised stack array was, and there is an
  address at all only if the key itself happens to start with 2 or 3.
\<close>

theorem truncated_key_address:
  assumes "length k = 32" "upcoming b (0x20 # k)" "publicKey out = replicate 5 None"
    "addresses out = replicate 5 (replicate 25 0)"
  shows "output_addresses stk (b, g) (fst (classify_script (0x20 # k) (mBlockRead b) out g)) =
    Ok ((addresses out)[0 := if k ! 0 = 2 \<or> k ! 0 = 3
        then address_spec 0 (ripemd160_spec (sha256_spec (k @ [stack_key32 stk]))) else replicate 25 0])"
proof -
  have c: "fst (classify_script (0x20 # k) (mBlockRead b) out g) = set_key KT_TRUNCATED_COMPRESSED_KEY (mBlockRead b + 1) out"
    using assms(1,3) by (simp add: classify_script_def Let_def opcodes)
  have d: "deref (b, g) (InBlock (mBlockRead b + 1)) 32 = Ok k"
    using upcoming_part [OF assms(2), of 1 32] assms(1) by (simp add: deref_def)
  have "splice (2 # replicate 31 0 @ [stack_key32 stk]) 0 k = k @ [stack_key32 stk]"
    using assms(1) by (simp add: splice_def numeral_eq_Suc)
  moreover have "snd (bitcoinCompressedPublicKeyToAddress (k @ [stack_key32 stk]) (replicate 25 0)) =
      (if k ! 0 = 2 \<or> k ! 0 = 3 then address_spec 0 (ripemd160_spec (sha256_spec (k @ [stack_key32 stk]))) else replicate 25 0)"
    using address_functions [of "replicate 25 0" "replicate 65 0" "k @ [stack_key32 stk]" "replicate 20 0"] assms(1)
    by (simp add: nth_append)
  ultimately show ?thesis
    using assms(3,4) unfolding c by (simp add: output_addresses_def Let_def set_key_def d [simplified])
qed

theorem truncated_key_address_witness:
  "output_addresses \<lparr>stack_key32 = 9, stack_temp = []\<rparr> (block_on (0x20 # replicate 32 2), no_globals)
     (fst (classify_script (0x20 # replicate 32 2) 0 BlockOutput no_globals)) =
    Ok ((replicate 5 (replicate 25 0))[0 := address_spec 0 (ripemd160_spec (sha256_spec (replicate 32 2 @ [9])))])"
  using truncated_key_address [of "replicate 32 2" "block_on (0x20 # replicate 32 2)" BlockOutput
      "\<lparr>stack_key32 = 9, stack_temp = []\<rparr>" no_globals]
  by (simp add: BlockOutput_def MAX_MULTISIG_def block_on_def upcoming_def)
end
