(* ===== verification/BlockTypes.thy ===== *)
theory BlockTypes
  imports ReaderSafety
begin

text \<open>
  What holds of every block that the parser accepts in a debug build, whatever its bytes: the counts are those of the lists, hashes,
  scripts and keys lie inside the block, but for the end of the last key of a multi-signature script, each transaction carries the place, the length and the hash of its own bytes, and the transactions follow each other without
  gaps. The rules of a partial weakest precondition \<open>yields\<close> are proved for each operation of the parser.
\<close>

section \<open>Results of the parser\<close>

definition yields :: "('s \<Rightarrow> ('a \<times> 's) result) \<Rightarrow> ('a \<Rightarrow> 's \<Rightarrow> bool) \<Rightarrow> 's \<Rightarrow> bool" where
  "yields m Q s \<longleftrightarrow> (\<forall>v s'. m s = Ok (v, s') \<longrightarrow> Q v s')"

named_theorems yields "results of the operations of the reader"

lemma yields_bind [yields]: "yields m (\<lambda>v. yields (f v) Q) s \<Longrightarrow> yields (bind_state m f) Q s"
  by (auto simp: yields_def bind_state_eq_Ok)

lemma yields_return [yields]: "Q v s \<Longrightarrow> yields (return_state v) Q s"
  by (simp add: yields_def return_state_def)

lemma yields_get [yields]: "Q (h s) s \<Longrightarrow> yields (\<lambda>s. Ok (h s, s)) Q s"
  by (simp add: yields_def)

lemma yields_modify [yields]: "Q () (f b g, h b g) \<Longrightarrow> yields (modify (\<lambda>(b, g). (f b g, h b g))) Q (b, g)"
  by (simp add: yields_def modify_def)

lemma yields_check [yields]: "(c \<Longrightarrow> Q () s) \<Longrightarrow> yields (check Debug c) Q s"
  by (cases c) (simp_all add: yields_def check_def)

lemma yields_exit_if [yields]: "(\<not> c \<Longrightarrow> Q () s) \<Longrightarrow> yields (exit_if c) Q s"
  by (cases c) (simp_all add: yields_def exit_if_def)

lemma yields_fault [yields]: "yields (\<lambda>_. Fault e) Q s"
  by (simp add: yields_def)

lemma yields_if [yields]: "(c \<Longrightarrow> yields m Q s) \<Longrightarrow> (\<not> c \<Longrightarrow> yields m' Q s) \<Longrightarrow> yields (if c then m else m') Q s"
  by simp

lemma yields_weaken: "yields m P s \<Longrightarrow> (\<And>v s'. P v s' \<Longrightarrow> Q v s') \<Longrightarrow> yields m Q s"
  by (simp add: yields_def)

text \<open>A read that moves the cursor \<open>n\<close> bytes on within the block.\<close>

definition ahead :: "block_impl \<Rightarrow> nat \<Rightarrow> bool" where
  "ahead b n \<longleftrightarrow> mBlockRead b + n \<le> mBlockEnd b"

lemma yields_read_bytes:
  assumes "ahead b n \<Longrightarrow> mBlockRead b + n \<le> length (mBlockData b) \<Longrightarrow> Q (take n (drop (mBlockRead b) (mBlockData b))) (adv n b, g)"
  shows "yields (read_bytes Debug n) Q (b, g)"
  using assms by (auto simp: yields_def read_bytes_def c_assert_def ahead_def adv_def)

lemma yields_readU8 [yields]: "(ahead b 1 \<Longrightarrow> Q (load_le (take 1 (drop (mBlockRead b) (mBlockData b)))) (adv 1 b, g)) \<Longrightarrow> yields (readU8 Debug) Q (b, g)"
  unfolding readU8_def by (intro yields_bind yields_read_bytes yields_return) simp

lemma yields_readU16 [yields]: "(ahead b 2 \<Longrightarrow> Q (load_le (take 2 (drop (mBlockRead b) (mBlockData b)))) (adv 2 b, g)) \<Longrightarrow> yields (readU16 Debug) Q (b, g)"
  unfolding readU16_def by (intro yields_bind yields_read_bytes yields_return) simp

lemma yields_readU32 [yields]: "(ahead b 4 \<Longrightarrow> Q (load_le (take 4 (drop (mBlockRead b) (mBlockData b)))) (adv 4 b, g)) \<Longrightarrow> yields (readU32 Debug) Q (b, g)"
  unfolding readU32_def by (intro yields_bind yields_read_bytes yields_return) simp

lemma yields_readU64 [yields]: "(ahead b 8 \<Longrightarrow> Q (load_le (take 8 (drop (mBlockRead b) (mBlockData b)))) (adv 8 b, g)) \<Longrightarrow> yields (readU64 Debug) Q (b, g)"
  unfolding readU64_def by (intro yields_bind yields_read_bytes yields_return) simp

lemma yields_readHash [yields]: "(ahead b 32 \<Longrightarrow> Q (mBlockRead b) (adv 32 b, g)) \<Longrightarrow> yields (readHash Debug) Q (b, g)"
  by (auto simp: yields_def readHash_def c_assert_def ahead_def adv_def)

lemma ahead_simps [simp]:
  "ahead (adv m b) n \<longleftrightarrow> ahead b (m + n)" "ahead (b\<lparr>blockReward := x\<rparr>) n \<longleftrightarrow> ahead b n"
  "ahead (b\<lparr>totalInputCount := y\<rparr>) n \<longleftrightarrow> ahead b n" "ahead (b\<lparr>totalOutputCount := y\<rparr>) n \<longleftrightarrow> ahead b n"
  by (simp_all add: ahead_def ac_simps)

lemma ahead_le: "ahead b n \<Longrightarrow> m \<le> n \<Longrightarrow> ahead b m"
  by (simp add: ahead_def)

text \<open>An integer of variable length takes at most seven bytes: the assert stops the longest form, of fifteen.\<close>

lemma yields_varint [yields]:
  assumes "\<And>v n. n \<le> 7 \<Longrightarrow> ahead b n \<Longrightarrow> Q v (adv n b, g)"
  shows "yields (readVariableLengthInteger Debug) Q (b, g)"
  unfolding readVariableLengthInteger_def
  by (intro yields) (use assms in auto)

lemma yields_read_script [yields]:
  assumes "\<And>ptr. ahead b (unat len) \<Longrightarrow> ptr = (if len = 0 then None else Some (mBlockRead b)) \<Longrightarrow> Q ptr (adv (unat len) b, g)"
    "mBlockRead b \<le> mBlockEnd b"
  shows "yields (read_script Debug len) Q (b, g)"
proof (cases "len = 0")
  case True
  then show ?thesis using assms(1) [of None] assms(2) by (simp add: yields_def read_script_def return_state_def ahead_def)
next
  case False
  have "yields (getReadBufferAdvance Debug len) (\<lambda>p. yields (return_state (Some p)) Q) (b, g)"
    using assms(1) False
    by (auto simp: yields_def getReadBufferAdvance_def c_assert_def ahead_def adv_def Let_def return_state_def)
  then show ?thesis using False yields_bind by (simp add: read_script_def)
qed

lemma cursor_ok_ahead: "cursor_ok (b, g) \<Longrightarrow> ahead b n \<Longrightarrow> cursor_ok (adv n b, g)"
  by (simp add: cursor_ok_def ahead_def)

lemma cursor_ok_totals [simp]:
  "cursor_ok (b\<lparr>blockReward := x\<rparr>, g) \<longleftrightarrow> cursor_ok (b, g)" "cursor_ok (b\<lparr>totalInputCount := y\<rparr>, g) \<longleftrightarrow> cursor_ok (b, g)"
  "cursor_ok (b\<lparr>totalOutputCount := y\<rparr>, g) \<longleftrightarrow> cursor_ok (b, g)"
  by (simp_all add: cursor_ok_def)

section \<open>Inputs\<close>

definition script_inside :: "nat \<Rightarrow> nat option \<Rightarrow> u32 \<Rightarrow> bool" where
  "script_inside e ptr len \<longleftrightarrow> len < MAX_REASONABLE_SCRIPT_LENGTH \<and>
     (case ptr of None \<Rightarrow> len = 0 | Some p \<Rightarrow> len \<noteq> 0 \<and> p + unat len \<le> e)"

definition input_typed :: "nat \<Rightarrow> block_input \<Rightarrow> bool" where
  "input_typed e i \<longleftrightarrow> transactionHash i + 32 \<le> e \<and> script_inside e (responseScript i) (responseScriptLength i)"

lemma yields_readInput [yields]:
  assumes "\<And>i n h. ahead b n \<Longrightarrow> input_typed (mBlockEnd b) i \<Longrightarrow> keeps g h \<Longrightarrow> Q i (adv n b, h)"
  shows "yields (readInput Debug) Q (b, g)"
  unfolding readInput_def
  by (intro yields)
    (auto simp: input_typed_def script_inside_def elim: ahead_le intro!: assms simp: ahead_def)

lemma yields_readInputs [yields]:
  assumes "\<And>is n h. ahead b n \<Longrightarrow> length is = k \<Longrightarrow> list_all (input_typed (mBlockEnd b)) is \<Longrightarrow> keeps g h \<Longrightarrow> Q is (adv n b, h)"
    "ahead b 0"
  shows "yields (readInputs Debug k) Q (b, g)"
  using assms
proof (induction k arbitrary: Q b g)
  case 0
  then show ?case using 0(1) [of 0 "[]" g] by (auto intro!: yields_return)
next
  case (Suc k)
  show ?case unfolding readInputs.simps
    by (intro yields Suc.IH) (auto intro!: Suc.prems(1) elim: ahead_le keeps_trans)
qed

section \<open>Outputs\<close>

definition output_typed :: "nat \<Rightarrow> block_output \<Rightarrow> bool" where
  "output_typed e out \<longleftrightarrow> script_inside e (challengeScript out) (challengeScriptLength out) \<and> output_decoded e out"

text \<open>The memory behind the block, which the keys of a script are read from, stays as it is.\<close>

lemma yields_readOutput [yields]:
  assumes "\<And>out n h. ahead b n \<Longrightarrow> output_typed (mBlockEnd b) out \<Longrightarrow> keeps g h \<Longrightarrow>
      Q out ((adv n b)\<lparr>blockReward := blockReward b + output_value out\<rparr>, h)"
    "length (stack_temp stk) = 256" "cursor_ok (b, g)"
  shows "yields (readOutput Debug stk) Q (b, g)"
proof -
  have decode: "yields (decode_output Debug stk v len ptr) Q ((adv n b)\<lparr>blockReward := blockReward b + v\<rparr>, h)"
    if k: "ahead b n" "script_inside (mBlockEnd b) ptr len" "keeps g h" for v len ptr n h
  proof -
    let ?b = "(adv n b)\<lparr>blockReward := blockReward b + v\<rparr>"
    have c: "cursor_ok (?b, h)" using cursor_ok_ahead [OF cursor_ok_keeps [OF assms(3) k(3)] k(1)] by simp
    obtain out h' where out: "decode_output Debug stk v len ptr (?b, h) = Ok (out, ?b, h')" "keeps h h'"
      "output_typed (mBlockEnd b) out" "output_value out = v"
      using decode_output_inside [OF assms(2) c, where ptr = ptr and len = len and v = v] k(2)
      by (auto simp: script_inside_def output_typed_def split: option.splits)
    then show ?thesis
      using assms(1) [OF k(1) out(3) keeps_trans [OF k(3) out(2)]] by (simp add: yields_def)
  qed
  show ?thesis unfolding readOutput_def
    by (intro yields; simp only: adv_simps adv_state ahead_simps; (intro decode)?)
      (auto simp: ahead_def script_inside_def)
qed

lemma yields_readOutputs [yields]:
  assumes "\<And>outs n h. ahead b n \<Longrightarrow> length outs = k \<Longrightarrow> list_all (output_typed (mBlockEnd b)) outs \<Longrightarrow> keeps g h \<Longrightarrow>
      Q outs ((adv n b)\<lparr>blockReward := blockReward b + sum_list (map output_value outs)\<rparr>, h)"
    "length (stack_temp stk) = 256" "cursor_ok (b, g)"
  shows "yields (readOutputs Debug stk i k) Q (b, g)"
  using assms(1,3)
proof (induction k arbitrary: Q b g i)
  case 0
  then show ?case using 0(1) [of 0 "[]" g] by (auto intro!: yields_return simp: ahead_def cursor_ok_def adv_def)
next
  case (Suc k)
  have c: "cursor_ok (adv n b, h)" if "ahead b n" "keeps g h" for n h
    using cursor_ok_ahead [OF cursor_ok_keeps [OF Suc.prems(2) that(2)] that(1)] .
  have step: "Q (out # outs) ((adv n b)\<lparr>blockReward := blockReward b + output_value out + sum_list (map output_value outs)\<rparr>, h)"
    if "ahead b n" "length outs = k" "output_typed (mBlockEnd b) out" "list_all (output_typed (mBlockEnd b)) outs"
      "keeps g h'" "keeps h' h" for n out outs h h'
    using Suc.prems(1) [of n "out # outs" h] that keeps_trans [of g h' h] by (simp add: add.assoc)
  have g': "cursor_ok (b, g\<lparr>gOutputIndex := w\<rparr>)" for w using Suc.prems(2) by (simp add: cursor_ok_def)
  show ?case unfolding readOutputs.simps
    by (intro yields Suc.IH assms(2) g') (auto simp: c intro: step)
qed

section \<open>Transactions\<close>

definition tx_typed :: "block_impl \<Rightarrow> nat \<Rightarrow> u32 \<Rightarrow> block_transaction \<Rightarrow> bool" where
  "tx_typed b p index t \<longleftrightarrow>
     p + unat (transactionLength t) \<le> mBlockEnd b \<and>
     computedTransactionHash t = sha256_spec (sha256_spec (take (unat (transactionLength t)) (drop p (mBlockData b)))) \<and>
     transactionVersionNumber t = load_le (take 4 (drop p (mBlockData b))) \<and>
     inputs t \<noteq> [] \<and> length (inputs t) = unat (inputCount t) \<and> list_all (input_typed (mBlockEnd b)) (inputs t) \<and>
     length (outputs t) = unat (outputCount t) \<and> list_all (output_typed (mBlockEnd b)) (outputs t) \<and>
     tx_fileIndex t = fileIndex b \<and> tx_fileOffset t = fileOffset b + word_of_nat p \<and> tx_transactionIndex t = index"

text \<open>What a transaction adds to the totals of its block.\<close>

definition add_totals :: "u32 \<Rightarrow> u32 \<Rightarrow> u64 \<Rightarrow> block_impl \<Rightarrow> block_impl" where
  "add_totals i k v b = b\<lparr>totalInputCount := totalInputCount b + i, totalOutputCount := totalOutputCount b + k,
     blockReward := blockReward b + v\<rparr>"

lemma add_totals_simps [simp]:
  "ahead (add_totals i k v b) n \<longleftrightarrow> ahead b n" "mBlockRead (add_totals i k v b) = mBlockRead b"
  "mBlockEnd (add_totals i k v b) = mBlockEnd b" "mBlockData (add_totals i k v b) = mBlockData b"
  "fileIndex (add_totals i k v b) = fileIndex b" "fileOffset (add_totals i k v b) = fileOffset b"
  "cursor_ok (add_totals i k v b, g) \<longleftrightarrow> cursor_ok (b, g)"
  by (simp_all add: add_totals_def)

definition tx_value :: "block_transaction \<Rightarrow> u64" where
  "tx_value t = sum_list (map output_value (outputs t))"

definition finished :: "block_impl \<Rightarrow> nat \<Rightarrow> u32 \<Rightarrow> block_transaction \<Rightarrow> block_transaction" where
  "finished b p index t =
     (let len = word_of_nat (mBlockRead b - p)
      in t\<lparr>transactionLength := len, tx_fileIndex := fileIndex b, tx_fileOffset := fileOffset b + word_of_nat p,
           tx_transactionIndex := index,
           computedTransactionHash := computeSHA256 (computeSHA256 (drop p (mBlockData b)) len) 32\<rparr>)"

lemma yields_finish [yields]:
  assumes "\<And>h. keeps g h \<Longrightarrow> Q (finished b p index t) (b, h)"
  shows "yields (finish_transaction p index t) Q (b, g)"
  using assms by (auto simp: yields_def finish_transaction_def finished_def Let_def keeps_def logMessage_def)

lemma yields_readTransaction [yields]:
  assumes "\<And>t n h. ahead b n \<Longrightarrow> unat (transactionLength t) = n \<Longrightarrow> tx_typed b (mBlockRead b) index t \<Longrightarrow> keeps g h \<Longrightarrow>
      Q (True, t, index + 1) (adv n (add_totals (inputCount t) (outputCount t) (tx_value t) b), h)"
    "\<And>t s. Q (False, t, index) s"
    "length (stack_temp stk) = 256" "cursor_ok (b, g)" "mBlockEnd b < 2 ^ 32"
  shows "yields (readTransaction Debug stk t index tindex) Q (b, g)"
proof -
  have totals: "(adv n b)\<lparr>totalInputCount := totalInputCount b + i, totalOutputCount := totalOutputCount b + k,
     blockReward := blockReward b + v\<rparr> = adv n (add_totals i k v b)" for n i k v
    by (simp add: add_totals_def)
  have final: "Q (True, finished (adv n (add_totals i k v b)) (mBlockRead b) index t', index + 1) (adv n (add_totals i k v b), h)"
    if n: "ahead b n" and t': "transactionVersionNumber t' = load_le (take 4 (drop (mBlockRead b) (mBlockData b)))"
      "inputs t' \<noteq> []" "length (inputs t') = unat (inputCount t')" "list_all (input_typed (mBlockEnd b)) (inputs t')"
      "length (outputs t') = unat (outputCount t')" "list_all (output_typed (mBlockEnd b)) (outputs t')"
      "i = inputCount t'" "k = outputCount t'" "v = tx_value t'" and h: "keeps g h" for n i k v t' h
  proof -
    let ?t = "finished (adv n (add_totals i k v b)) (mBlockRead b) index t'"
    have "n < 2 ^ 32" using n assms(5) by (simp add: ahead_def)
    then have len: "unat (word_of_nat n :: u32) = n" by (simp add: unat_word_of_nat_small)
    have "n \<le> length (drop (mBlockRead b) (mBlockData b))" using n assms(4) by (auto simp: ahead_def cursor_ok_def)
    then have "tx_typed b (mBlockRead b) index ?t" "unat (transactionLength ?t) = n" "tx_value ?t = v"
        "inputCount ?t = i" "outputCount ?t = k"
      using n t' len by (simp_all add: tx_typed_def finished_def Let_def ahead_def add_totals_def computeSHA256_eq tx_value_def)
    then show ?thesis using assms(1) [OF n _ _ h, of ?t] by simp
  qed
  have kept: "cursor_ok (adv n b, h)" if "ahead b n" "keeps g h" for n h
    using cursor_ok_ahead [OF cursor_ok_keeps [OF assms(4) that(2)] that(1)] .
  have counts: "totalOutputCount (b\<lparr>totalInputCount := y\<rparr>) = totalOutputCount b" "blockReward (b\<lparr>totalInputCount := y\<rparr>) = blockReward b"
    "blockReward (b\<lparr>totalOutputCount := y\<rparr>) = blockReward b" for b :: block_impl and y by simp_all
  show ?thesis
    unfolding readTransaction_def Let_def
    by (intro yields assms(2,3); simp only: adv_simps adv_state ahead_simps fst_conv counts totals add_0_right; (rule final)?)
      (auto simp: tx_value_def kept elim: keeps_trans split: if_splits)
qed

section \<open>Blocks\<close>

text \<open>Transactions that fill the bytes from \<open>p\<close> to \<open>q\<close>, numbered from \<open>index\<close> on.\<close>

fun txs_typed :: "block_impl \<Rightarrow> nat \<Rightarrow> u32 \<Rightarrow> block_transaction list \<Rightarrow> nat \<Rightarrow> bool" where
  "txs_typed b p index [] q \<longleftrightarrow> p = q"
| "txs_typed b p index (t # ts) q \<longleftrightarrow> tx_typed b p index t \<and> txs_typed b (p + unat (transactionLength t)) (index + 1) ts q"

definition same_text :: "block_impl \<Rightarrow> block_impl \<Rightarrow> bool" where
  "same_text b b' \<longleftrightarrow> mBlockData b' = mBlockData b \<and> mBlockEnd b' = mBlockEnd b \<and> fileIndex b' = fileIndex b \<and>
     fileOffset b' = fileOffset b"

lemma txs_typed_same_text: "same_text b b' \<Longrightarrow> txs_typed b' p index ts q \<longleftrightarrow> txs_typed b p index ts q"
  by (induction ts arbitrary: p index) (simp_all add: same_text_def tx_typed_def)

lemma same_text_totals: "same_text b (adv n (add_totals i k v b))"
  by (simp add: same_text_def)

lemma add_totals_again: "adv n (add_totals i k v (adv m (add_totals i' k' v' b))) = adv (m + n) (add_totals (i' + i) (k' + k) (v' + v) b)"
  by (simp add: add_totals_def adv_def ac_simps)

definition all_totals :: "block_transaction list \<Rightarrow> block_impl \<Rightarrow> block_impl" where
  "all_totals ts = add_totals (sum_list (map inputCount ts)) (sum_list (map outputCount ts)) (sum_list (map tx_value ts))"

lemma yields_readTransactions [yields]:
  assumes "\<And>ts n h. ahead b n \<Longrightarrow> length ts = k \<Longrightarrow> txs_typed b (mBlockRead b) index ts (mBlockRead b + n) \<Longrightarrow> keeps g h \<Longrightarrow>
      Q (True, take i pool @ ts @ drop (i + k) pool, index + word_of_nat k) (adv n (all_totals ts b), h)"
    "\<And>pool index s. Q (False, pool, index) s"
    "length (stack_temp stk) = 256" "cursor_ok (b, g)" "mBlockEnd b < 2 ^ 32" "i + k \<le> length pool"
  shows "yields (readTransactions Debug stk pool index i k) Q (b, g)"
  using assms(1,4,5,6,2)
proof (induction k arbitrary: Q b g i pool index)
  case 0
  have "ahead b 0" using 0(2) by (simp add: ahead_def cursor_ok_def)
  moreover have "adv 0 (all_totals [] b) = b" by (simp add: all_totals_def add_totals_def)
  ultimately show ?case using 0(1) [of 0 "[]" g] by (auto intro!: yields_return)
next
  case (Suc k)
  have c: "cursor_ok (b, g\<lparr>gTransactionIndex := w\<rparr>)" for w using Suc.prems(2) by (simp add: cursor_ok_def)
  have step: "yields (readTransactions Debug stk (pool[i := t]) (index + 1) (i + 1) k) Q
      (adv n (add_totals (inputCount t) (outputCount t) (tx_value t) b), h)"
    if t: "ahead b n" "unat (transactionLength t) = n" "tx_typed b (mBlockRead b) index t" and h: "keeps g h" for t n h
  proof (rule Suc.IH)
    let ?b = "adv n (add_totals (inputCount t) (outputCount t) (tx_value t) b)"
    show "cursor_ok (?b, h)" using cursor_ok_ahead [OF cursor_ok_keeps [OF Suc.prems(2) h], of n] t(1) by (simp add: cursor_ok_def ahead_def)
    show "mBlockEnd ?b < 2 ^ 32" "i + 1 + k \<le> length (pool[i := t])" using Suc.prems(3,4) by simp_all
    show "Q (False, pool, index) s" for pool index s by (rule Suc.prems(5))
    fix ts m h'
    assume m: "ahead ?b m" "length ts = k" "txs_typed ?b (mBlockRead ?b) (index + 1) ts (mBlockRead ?b + m)" "keeps h h'"
    have "take (i + 1) (pool[i := t]) @ ts @ drop (i + 1 + k) (pool[i := t]) = take i pool @ (t # ts) @ drop (i + Suc k) pool"
      using Suc.prems(4) by (simp add: take_Suc_update)
    moreover have "txs_typed b (mBlockRead b) index (t # ts) (mBlockRead b + (n + m))"
      using t(2,3) m(3) txs_typed_same_text [OF same_text_totals] by (simp add: ac_simps)
    moreover have "adv m (all_totals ts ?b) = adv (n + m) (all_totals (t # ts) b)"
      unfolding all_totals_def add_totals_again by simp
    ultimately show "Q (True, take (i + 1) (pool[i := t]) @ ts @ drop (i + 1 + k) (pool[i := t]), index + 1 + word_of_nat k)
        (adv m (all_totals ts ?b), h')"
      using Suc.prems(1) [of "n + m" "t # ts" h'] m(1,2) keeps_trans [OF h m(4)] by (simp add: ac_simps)
  qed
  show ?case unfolding readTransactions.simps
    by (intro yields assms(3) Suc.prems(3) c) (use step in \<open>auto intro!: yields_return Suc.prems(5)\<close>)
qed

text \<open>The block \<open>b'\<close> that was read over the object \<open>b\<close>, whose totals it goes on with.\<close>

definition block_typed :: "u32 \<Rightarrow> block_impl \<Rightarrow> block_impl \<Rightarrow> bool" where
  "block_typed index b b' \<longleftrightarrow>
     (let d = mBlockData b'; ts = take (unat (transactionCount b')) (transactions b')
      in blockFormatVersion b' = load_le (take 4 d) \<and> previousBlockHash b' = 4 \<and> merkleRoot b' = 36 \<and>
         timeStamp b' = load_le (take 4 (drop 68 d)) \<and> bits b' = load_le (take 4 (drop 72 d)) \<and>
         nonce b' = load_le (take 4 (drop 76 d)) \<and>
         length ts = unat (transactionCount b') \<and> transactionCount b' < MAX_BLOCK_TRANSACTION \<and>
         (\<exists>p. 80 \<le> p \<and> p \<le> 87 \<and> txs_typed b' p index ts (mBlockRead b')) \<and> mBlockRead b' \<le> mBlockEnd b' \<and>
         totalInputCount b' = totalInputCount b + sum_list (map inputCount ts) \<and>
         totalOutputCount b' = totalOutputCount b + sum_list (map outputCount ts) \<and>
         blockReward b' = blockReward b + sum_list (map tx_value ts))"

text \<open>
  C3: every block that a debug build accepts is well formed, whatever its bytes are, when 64 more bytes can be read behind it, the two
  placeholder keys and the local text buffer have their sizes, and the pool has room for the transactions of a block. (A release build
  has no asserts, so these bounds need not hold there.) The header fields are the bytes of the header, the counts are those of the
  lists, every script and hash lies inside the block, each output has a key whose type fits and an address text that fits its buffer.
  Keys lie inside the block with all the bytes of their type, but those of a multi-signature script: they follow each other without
  overlap, each with the size its format bit says, all but the last inside; the last starts two bytes before the end of the block at
  the latest and may run past it, at most 63 bytes. Each transaction carries its own place, length and double SHA-256, the transactions
  follow each other without a gap up to the cursor, and the totals and the reward grow by their sums.
\<close>

theorem processBlockData_typed:
  assumes "processBlockData Debug stk blockData len index (b, g) = Ok ((True, index'), b', g')"
    "unat len + 64 \<le> length blockData" "length (stack_temp stk) = 256" "length (gZeroByte g) = 25" "length (gDummyKey g) = 25"
    "unat MAX_BLOCK_TRANSACTION \<le> length (transactions b)"
  shows "block_typed index b b' \<and> index' = index + transactionCount b' \<and> mBlockData b' = blockData \<and> mBlockEnd b' = unat len"
proof -
  let ?Q = "\<lambda>r s. fst r \<longrightarrow> block_typed index b (fst s) \<and> snd r = index + transactionCount (fst s) \<and>
    mBlockData (fst s) = blockData \<and> mBlockEnd (fst s) = unat len"
  have e: "unat len < 2 ^ 32" using unsigned_less [of len, where ?'a = nat] by simp
  have final: "?Q (True, index + word_of_nat (unat v)) ((adv k (all_totals ts h))\<lparr>transactions := take 0 pool @ ts @ drop (0 + unat v) pool\<rparr>, s)"
    if "mBlockData h = blockData" "mBlockEnd h = unat len" "80 \<le> mBlockRead h" "mBlockRead h \<le> 87" "transactionCount h = v"
      "blockFormatVersion h = load_le (take 4 blockData)" "previousBlockHash h = 4" "merkleRoot h = 36"
      "timeStamp h = load_le (take 4 (drop 68 blockData))" "bits h = load_le (take 4 (drop 72 blockData))"
      "nonce h = load_le (take 4 (drop 76 blockData))" "v < MAX_BLOCK_TRANSACTION" "totalInputCount h = totalInputCount b"
      "totalOutputCount h = totalOutputCount b" "blockReward h = blockReward b"
      "ahead h k" "length ts = unat v" "txs_typed h (mBlockRead h) index ts (mBlockRead h + k)" for h v k ts pool s
  proof -
    let ?b = "(adv k (all_totals ts h))\<lparr>transactions := take 0 pool @ ts @ drop (0 + unat v) pool\<rparr>"
    have "same_text h ?b" by (simp add: same_text_def all_totals_def)
    then have "txs_typed ?b (mBlockRead h) index ts (mBlockRead h + k)" using that(18) txs_typed_same_text by blast
    moreover have "mBlockRead ?b = mBlockRead h + k" by (simp add: all_totals_def)
    ultimately have "\<exists>p. 80 \<le> p \<and> p \<le> 87 \<and> txs_typed ?b p index ts (mBlockRead ?b)" using that(3,4) by auto
    then show ?thesis using that by (simp add: block_typed_def Let_def all_totals_def add_totals_def ahead_def adv_def)
  qed
  have "yields (processBlockData Debug stk blockData len index) ?Q (b, g)"
    unfolding processBlockData_def
    apply (intro yields assms(3))
    subgoal
      apply (simp only: prod.case)
      apply (intro yields)
      apply (rule final)
      apply (simp_all add: ahead_def adv_def)
      done
    subgoal by (auto simp: yields_def bind_state_eq_Ok return_state_def modify_def)
    subgoal using assms by (auto simp: cursor_ok_def ahead_def)
    subgoal using e by simp
    subgoal using assms by (simp add: word_less_nat_alt adv_def)
    done
  then show ?thesis using assms(1) by (auto simp: yields_def)
qed

theorem processBlockData_typed_witness:
  "\<exists>b' g'. processBlockData Debug \<lparr>stack_key32 = 7, stack_temp = replicate 256 1\<rparr> (ser_block sample_block @ replicate 64 0)
      (word_of_nat (length (ser_block sample_block))) 40
      ((block_on [])\<lparr>transactions := replicate 32768 (tx_at (block_on []) 0 0 sample_tx)\<rparr>, no_globals) = Ok ((True, 42), b', g') \<and>
    block_typed 40 ((block_on [])\<lparr>transactions := replicate 32768 (tx_at (block_on []) 0 0 sample_tx)\<rparr>) b' \<and>
    (42 :: u32) = 40 + transactionCount b'"
proof -
  let ?b = "(block_on [])\<lparr>transactions := replicate 32768 (tx_at (block_on []) 0 0 sample_tx)\<rparr>"
  let ?stk = "\<lparr>stack_key32 = 7, stack_temp = replicate 256 1\<rparr>"
  let ?len = "word_of_nat (length (ser_block sample_block)) :: u32"
  obtain b' g' where r: "processBlockData Debug ?stk (ser_block sample_block @ replicate 64 0) ?len 40 (?b, no_globals) = Ok ((True, 42), b', g')"
    using processBlockData_wire [OF sample_block_ok, of ?stk no_globals ?b Debug "replicate 64 0" 40]
    by (auto simp: no_globals_def sample_block_def block_on_def)
  have "length (ser_block sample_block) < 2 ^ 32" using sample_block_ok by (simp add: wb_ok_def)
  then have "unat ?len = length (ser_block sample_block)" by (simp add: unat_word_of_nat_small)
  then have "block_typed 40 ?b b' \<and> (42 :: u32) = 40 + transactionCount b'"
    using processBlockData_typed [OF r] by (simp add: no_globals_def limits)
  then show ?thesis using r by blast
qed
end
