(* ===== verification/BlockScan.thy ===== *)
theory BlockScan
  imports BlockReader
begin

text \<open>
  The first half of class \<open>BlockChainImpl\<close> of src/src/BlockChain.cpp: the data files, the set of block headers,
  \<open>openBlock\<close>, \<open>readBlockHeader\<close> and \<open>scanBlockChain\<close>. A file is its bytes and the position of
  its stream; the directory with the files blk00000.dat, blk00001.dat, ... is the parameter \<open>disk\<close>. A hash is the record
  of four 64-bit words of the code; the two hash sets are lists without duplicates.
\<close>

section \<open>Hashes, headers, locations\<close>

definition MAGIC_ID :: u32 where "MAGIC_ID = 0xD9B4BEF9"

record hash256 =
  mWord0 :: u64
  mWord1 :: u64
  mWord2 :: u64
  mWord3 :: u64

record block_header = hash256 +
  mFileIndex :: u32
  mFileOffset :: u32
  mBlockLength :: u32
  mPreviousBlockHash :: bytes

record file_location = hash256 +
  fl_fileIndex :: u32
  fl_fileOffset :: u32
  fl_fileLength :: u32
  fl_transactionIndex :: u32

text \<open>\<open>Hash256\<close> reads four words from 32 bytes, \<open>hash_eq\<close> is the comparison, \<open>getHash\<close> the bucket of the hash sets.\<close>

definition Hash256 :: "bytes \<Rightarrow> hash256" where
  "Hash256 src = \<lparr>mWord0 = load_le (take 8 src), mWord1 = load_le (take 8 (drop 8 src)),
     mWord2 = load_le (take 8 (drop 16 src)), mWord3 = load_le (take 8 (drop 24 src))\<rparr>"

definition getHash :: "'a hash256_scheme \<Rightarrow> u32" where
  "getHash h = foldl (XOR) 0 [ucast (mWord0 h), ucast (drop_bit 32 (mWord0 h)), ucast (mWord1 h), ucast (drop_bit 32 (mWord1 h)),
     ucast (mWord2 h), ucast (drop_bit 32 (mWord2 h)), ucast (mWord3 h), ucast (drop_bit 32 (mWord3 h))]"

definition hash_eq :: "'a hash256_scheme \<Rightarrow> 'b hash256_scheme \<Rightarrow> bool" where
  "hash_eq h k \<longleftrightarrow> mWord0 h = mWord0 k \<and> mWord1 h = mWord1 k \<and> mWord2 h = mWord2 k \<and> mWord3 h = mWord3 k"

definition BlockHeader :: "hash256 \<Rightarrow> u32 \<Rightarrow> u32 \<Rightarrow> u32 \<Rightarrow> bytes \<Rightarrow> block_header" where
  "BlockHeader h fi off len prev = hash256.extend h (block_header.fields fi off len prev)"

definition FileLocation :: "hash256 \<Rightarrow> u32 \<Rightarrow> u32 \<Rightarrow> u32 \<Rightarrow> u32 \<Rightarrow> file_location" where
  "FileLocation h fi off len ti = hash256.extend h (file_location.fields fi off len ti)"

text \<open>A hash set: an element is found by bucket and comparison, and inserted only if no equal one is there.\<close>

definition set_find :: "'b hash256_scheme \<Rightarrow> 'a hash256_scheme list \<Rightarrow> 'a hash256_scheme option" where
  "set_find k S = find (\<lambda>h. getHash h = getHash k \<and> hash_eq h k) S"

definition set_insert :: "'a hash256_scheme \<Rightarrow> 'a hash256_scheme list \<Rightarrow> 'a hash256_scheme list" where
  "set_insert h S = (if set_find h S = None then S @ [h] else S)"

section \<open>Files\<close>

record data_file =
  file_data :: bytes
  file_pos :: nat

text \<open>
  \<open>fread(p, n, 1, f)\<close>: all \<open>n\<close> bytes or nothing; at the end of the file the stream is left there. \<open>fread(p, 1, n, f)\<close>
  reads what there is.
\<close>

definition fread :: "nat \<Rightarrow> data_file \<Rightarrow> bytes option \<times> data_file" where
  "fread n f =
     (if n = 0 then (None, f)
      else if file_pos f + n \<le> length (file_data f)
      then (Some (take n (drop (file_pos f) (file_data f))), f\<lparr>file_pos := file_pos f + n\<rparr>)
      else (None, f\<lparr>file_pos := max (file_pos f) (length (file_data f))\<rparr>))"

definition fread_some :: "nat \<Rightarrow> data_file \<Rightarrow> bytes \<times> data_file" where
  "fread_some n f =
     (let d = take n (drop (file_pos f) (file_data f)) in (d, f\<lparr>file_pos := file_pos f + length d\<rparr>))"

definition fseek :: "u32 \<Rightarrow> data_file \<Rightarrow> data_file" where
  "fseek p f = f\<lparr>file_pos := unat p\<rparr>"

definition ftell :: "data_file \<Rightarrow> u32" where
  "ftell f = word_of_nat (file_pos f)"

section \<open>The state of the block chain reader\<close>

datatype report_item =
  ReportBlock u32 u32
| ReportText bytes
| ReportNewline
| ReportEnd u32

record block_chain =
  mMaxBlocks :: u32
  mTotalTransactionCount :: u32
  mTotalInputCount :: u32
  mTotalOutputCount :: u32
  mSearchForText :: u32
  mScanCount :: u32
  mBlockDataBuffer :: bytes
  mBlockIndex :: u32
  mFileLength :: u32
  mBlockDataFiles :: "data_file list"
  mLastBlockHeader :: block_header
  mBlockHeaderSet :: "block_header list"
  mBlockCount :: u32
  mBlockChainHeaders :: "block_header list"
  mSingleReadBlock :: block_impl
  mSingleTransactionBlock :: block_impl
  mTransactionCount :: u32
  mTextReport :: "report_item list option"
  mTransactionBlockBuffer :: bytes
  mTransactionSet :: "file_location list"
  bc_globals :: globals

type_synonym disk = "u32 \<Rightarrow> bytes option"

definition log_bc :: "log_event \<Rightarrow> block_chain \<Rightarrow> block_chain" where
  "log_bc e s = s\<lparr>bc_globals := logMessage e (bc_globals s)\<rparr>"

definition current_file :: "block_chain \<Rightarrow> data_file" where
  "current_file s = mBlockDataFiles s ! unat (mBlockIndex s)"

definition set_file :: "nat \<Rightarrow> data_file \<Rightarrow> block_chain \<Rightarrow> block_chain" where
  "set_file i f s = s\<lparr>mBlockDataFiles := (mBlockDataFiles s)[i := f]\<rparr>"

text \<open>Reading from and seeking in the current file.\<close>

definition read_current :: "nat \<Rightarrow> block_chain \<Rightarrow> bytes option \<times> block_chain" where
  "read_current n s = (case fread n (current_file s) of (r, f) \<Rightarrow> (r, set_file (unat (mBlockIndex s)) f s))"

definition seek_current :: "u32 \<Rightarrow> block_chain \<Rightarrow> block_chain" where
  "seek_current p s = set_file (unat (mBlockIndex s)) (fseek p (current_file s)) s"

section \<open>Opening and scanning\<close>

definition openBlock :: "disk \<Rightarrow> block_chain \<Rightarrow> bool \<times> block_chain" where
  "openBlock disk s =
     (let i = word_of_nat (length (mBlockDataFiles s));
          s = s\<lparr>mBlockIndex := i\<rparr>
      in case disk i of
           Some d \<Rightarrow> (True, log_bc (LogOpened i) (s\<lparr>mFileLength := word_of_nat (length d),
               mBlockDataFiles := mBlockDataFiles s @ [\<lparr>file_data = d, file_pos = 0\<rparr>]\<rparr>))
         | None \<Rightarrow> (False, log_bc (LogOpenFailed i) s))"

text \<open>
  The constructor: \<open>u\<close> and \<open>v\<close> are what the two block objects hold before their constructors have set three members,
  \<open>buf\<close> and \<open>tbuf\<close> the uninitialised buffers, \<open>prev\<close> the uninitialised previous hash of the default header.
\<close>

definition block_init :: "block_impl \<Rightarrow> block_impl" where
  "block_init u = u\<lparr>transactionCount := 0, nextBlockHash := None\<rparr>"

definition gDummyKeyAscii :: bytes where "gDummyKeyAscii = cstr ''1BadkEyPaj5oW2Uw4nY5BkYbPRYyTyqs9A''"
definition gZeroByteAscii :: bytes where "gZeroByteAscii = cstr ''1zeroBTYRExUcufrTkwg27LsAvrhehtCJ''"

definition BlockChainImpl :: "build \<Rightarrow> disk \<Rightarrow> u32 \<Rightarrow> block_impl \<Rightarrow> block_impl \<Rightarrow> bytes \<Rightarrow> bytes \<Rightarrow> bytes \<Rightarrow> globals \<Rightarrow> block_chain result" where
  "BlockChainImpl bld disk maxBlocks u v buf tbuf prev g =
     bind_result (bitcoinAsciiToAddress bld gDummyKeyAscii (gDummyKey g)) (\<lambda>(_, dummy).
     bind_result (bitcoinAsciiToAddress bld gZeroByteAscii (gZeroByte g)) (\<lambda>(_, zero).
       Ok (snd (openBlock disk
         \<lparr>mMaxBlocks = maxBlocks, mTotalTransactionCount = 0, mTotalInputCount = 0, mTotalOutputCount = 0,
          mSearchForText = 0, mScanCount = 0, mBlockDataBuffer = buf, mBlockIndex = 0, mFileLength = 0,
          mBlockDataFiles = [], mLastBlockHeader = BlockHeader \<lparr>mWord0 = 0, mWord1 = 0, mWord2 = 0, mWord3 = 0\<rparr> 0 0 0 prev,
          mBlockHeaderSet = [], mBlockCount = 0, mBlockChainHeaders = [], mSingleReadBlock = block_init u,
          mSingleTransactionBlock = block_init v, mTransactionCount = 0, mTextReport = None,
          mTransactionBlockBuffer = tbuf, mTransactionSet = [], bc_globals = g\<lparr>gDummyKey := dummy, gZeroByte := zero\<rparr>\<rparr>))))"

text \<open>
  The scan for the next magic number over the zeroed buffer of \<open>MAX_BLOCK_SIZE\<close> bytes that holds the rest \<open>temp\<close> of
  the file: \<open>n\<close> positions from \<open>i\<close> on.
\<close>

definition temp_word :: "bytes \<Rightarrow> nat \<Rightarrow> u32" where
  "temp_word temp i = load_le (map (\<lambda>j. if j < length temp then temp ! j else 0) [i, i + 1, i + 2, i + 3])"

fun find_magic :: "bytes \<Rightarrow> nat \<Rightarrow> nat \<Rightarrow> nat option result" where
  "find_magic temp i 0 = Ok None"
| "find_magic temp i (Suc n) =
     (if i + 4 \<le> MAX_BLOCK_SIZE
      then if temp_word temp i = MAGIC_ID then Ok (Some i) else find_magic temp (i + 1) n
      else Fault OutOfBounds)"

definition scan_for_header :: "build \<Rightarrow> disk \<Rightarrow> u32 \<Rightarrow> block_chain \<Rightarrow> (bool \<times> block_chain) result" where
  "scan_for_header bld disk lastBlockRead s =
     (let s = log_bc LogMissingHeader (seek_current lastBlockRead s);
          (temp, f) = fread_some MAX_BLOCK_SIZE (current_file s);
          s = set_file (unat (mBlockIndex s)) f s
      in bind_result (find_magic temp 0 (length temp)) (\<lambda>found.
           case found of
             Some i \<Rightarrow>
               (let s = log_bc (LogSkipped (word_of_nat i)) s;
                    s = seek_current (lastBlockRead + word_of_nat i) s;
                    (m, s) = read_current 4 s
                in bind_result (c_assert bld (case m of Some b \<Rightarrow> load_le b = MAGIC_ID | None \<Rightarrow> False)) (\<lambda>_.
                     Ok (m \<noteq> None, s)))
           | None \<Rightarrow>
               (let (ok, s) = openBlock disk s
                in if ok then
                     let (m, s) = read_current 4 s
                     in case m of
                          Some b \<Rightarrow> if load_le b \<noteq> MAGIC_ID then Ok (False, log_bc LogBadNextFile s) else Ok (True, s)
                        | None \<Rightarrow> Ok (False, s)
                   else Ok (False, s))))"

text \<open>After the magic number: the length, the 80-byte header, its hash; then on to the end of the block.\<close>

definition read_header :: "build \<Rightarrow> block_chain \<Rightarrow> (bool \<times> block_chain) result" where
  "read_header bld s =
     (let index = mBlockIndex s;
          (l, s) = read_current 4 s;
          off = ftell (current_file s)
      in case l of
           None \<Rightarrow> Ok (False, s)
         | Some l \<Rightarrow>
             let len = load_le l
             in bind_result (c_assert bld (unat len < MAX_BLOCK_SIZE)) (\<lambda>_.
                  if unat len < MAX_BLOCK_SIZE then
                    let (p, s) = read_current 80 s
                    in case p of
                         None \<Rightarrow> Ok (False, s)
                       | Some prefix \<Rightarrow>
                           let blockHash = computeSHA256 prefix 80;
                               blockHash = computeSHA256 blockHash 32;
                               header = BlockHeader (Hash256 blockHash) index off len (take 32 (drop 4 prefix));
                               s = seek_current (ftell (current_file s) + (len - 80)) s
                           in Ok (True, s\<lparr>mLastBlockHeader := header,
                                          mBlockHeaderSet := set_insert header (mBlockHeaderSet s)\<rparr>)
                  else Ok (False, s)))"

definition readBlockHeader :: "build \<Rightarrow> disk \<Rightarrow> block_chain \<Rightarrow> (bool \<times> block_chain) result" where
  "readBlockHeader bld disk s =
     (if unat (mBlockIndex s) < length (mBlockDataFiles s) then
        let lastBlockRead = ftell (current_file s);
            (m, s) = read_current 4 s;
            (m, lastBlockRead, s) =
              (if m = None then
                 let (ok, s) = openBlock disk s
                 in if ok then let (m, s) = read_current 4 s in (m, ftell (current_file s), s)
                    else (None, lastBlockRead, s)
               else (m, lastBlockRead, s))
        in bind_result
             (case m of
                None \<Rightarrow> Ok (False, s)
              | Some b \<Rightarrow> if load_le b \<noteq> MAGIC_ID then scan_for_header bld disk lastBlockRead s else Ok (True, s))
             (\<lambda>(r, s). if r then read_header bld s else Ok (False, s))
      else Ok (False, s))"

text \<open>One step of the scan: whether it is complete, the number of the block just read, the state.\<close>

definition scanBlockChain :: "build \<Rightarrow> disk \<Rightarrow> u32 \<Rightarrow> block_chain \<Rightarrow> (bool \<times> u32 \<times> block_chain) result" where
  "scanBlockChain bld disk lastBlockRead s =
     bind_result (readBlockHeader bld disk s) (\<lambda>(ok, s).
       if ok \<and> mScanCount s < mMaxBlocks s
       then Ok (False, mScanCount s, s\<lparr>mScanCount := mScanCount s + 1\<rparr>)
       else Ok (True, lastBlockRead, s))"

section \<open>Hash sets\<close>

text \<open>
  The contract of a hash set: a lookup after an insertion finds what it found before, or else the new element if it has
  the key. The clients below only use what is proved here from it.
\<close>

locale hash_set =
  fixes lookup :: "'k \<Rightarrow> 's \<Rightarrow> 'v option" and add :: "'v \<Rightarrow> 's \<Rightarrow> 's" and none :: 's and key :: "'v \<Rightarrow> 'k"
  assumes lookup_none: "lookup k none = None"
    and lookup_add: "lookup k (add v s) = (case lookup k s of Some w \<Rightarrow> Some w | None \<Rightarrow> if key v = k then Some v else None)"
begin

lemma lookup_add_keeps: "lookup k s = Some w \<Longrightarrow> lookup k (add v s) = Some w"
  by (simp add: lookup_add)

lemma lookup_add_self: "lookup (key v) (add v s) \<noteq> None"
  by (simp add: lookup_add split: option.split)

lemma lookup_add_other: "key v \<noteq> k \<Longrightarrow> lookup k (add v s) = lookup k s"
  by (simp add: lookup_add split: option.split)

lemma lookup_fold:
  "lookup k (fold add vs s) = (case lookup k s of Some w \<Rightarrow> Some w | None \<Rightarrow> find (\<lambda>v. key v = k) vs)"
  by (induction vs arbitrary: s) (auto simp: lookup_add split: option.splits)

lemma lookup_all: "lookup k (fold add vs none) = find (\<lambda>v. key v = k) vs"
  by (simp add: lookup_fold lookup_none)

lemma add_present: "lookup (key v) s \<noteq> None \<Longrightarrow> lookup k (add v s) = lookup k s"
  by (auto simp: lookup_add split: option.splits)

end

lemma hash_eq_truncate: "hash_eq h k \<longleftrightarrow> hash256.truncate h = hash256.truncate k"
  by (simp add: hash_eq_def hash256.truncate_def)

lemma getHash_eq: "hash_eq h k \<Longrightarrow> getHash h = getHash k"
  by (simp add: hash_eq_def getHash_def)

lemma set_find_eq: "set_find k S = find (\<lambda>h. hash256.truncate h = hash256.truncate k) S"
  unfolding set_find_def using getHash_eq by (intro find_cong) (auto simp: hash_eq_truncate)

lemma truncate_truncate [simp]: "hash256.truncate (hash256.truncate h) = hash256.truncate h"
  by (simp add: hash256.truncate_def)

lemma truncate_hash256 [simp]: "hash256.truncate (h :: hash256) = h"
  by (simp add: hash256.truncate_def)

interpretation header_set: hash_set "set_find :: hash256 \<Rightarrow> block_header list \<Rightarrow> block_header option" set_insert "[]" hash256.truncate
  by unfold_locales (auto simp: set_find_eq set_insert_def find_append split: option.split)

interpretation location_set: hash_set "set_find :: hash256 \<Rightarrow> file_location list \<Rightarrow> file_location option" set_insert "[]" hash256.truncate
  by unfold_locales (auto simp: set_find_eq set_insert_def find_append split: option.split)

lemma set_find_SomeD: "set_find k S = Some h \<Longrightarrow> h \<in> set S \<and> hash256.truncate h = hash256.truncate k"
  by (auto simp: set_find_eq find_Some_iff)

lemma set_insert_distinct:
  "distinct (map hash256.truncate S) \<Longrightarrow> distinct (map hash256.truncate (set_insert h S))"
  by (auto simp: set_insert_def set_find_eq find_None_iff)

lemma set_set_insert: "set (set_insert h S) \<subseteq> insert h (set S)"
  by (auto simp: set_insert_def)

text \<open>Two 32-byte hashes are the same record exactly when they are the same bytes.\<close>

lemma Hash256_inj: "length a = 32 \<Longrightarrow> length b = 32 \<Longrightarrow> Hash256 a = Hash256 b \<longleftrightarrow> a = b"
proof
  assume len: "length a = 32" "length b = 32" and eq: "Hash256 a = Hash256 b"
  have part: "take 8 (drop i a) = take 8 (drop i b)"
    if "(load_le (take 8 (drop i a)) :: u64) = load_le (take 8 (drop i b))" "i + 8 \<le> 32" for i
  proof -
    have "store64 (load_le (take 8 (drop i x))) = take 8 (drop i x)" if "length x = 32" for x
      by (rule store64_load) (use that \<open>i + 8 \<le> 32\<close> in simp)
    from this [OF len(1)] this [OF len(2)] that(1) show ?thesis by metis
  qed
  have split: "x = take 8 x @ take 8 (drop 8 x) @ take 8 (drop 16 x) @ take 8 (drop 24 x)"
    if "length x = 32" for x :: bytes
  proof -
    have "x = take (8 + (8 + (8 + 8))) x" using that by simp
    then show ?thesis by (simp only: take_add drop_drop) simp
  qed
  show "a = b"
    using eq part [of 0] part [of 8] part [of 16] part [of 24] split [OF len(1)] split [OF len(2)]
    by (simp add: Hash256_def)
qed simp

section \<open>The search for a magic number\<close>

lemma find_magic_spec:
  "i + n + 3 \<le> MAX_BLOCK_SIZE \<Longrightarrow> find_magic temp i n = Ok (find (\<lambda>j. temp_word temp j = MAGIC_ID) [i..<i + n])"
proof (induction n arbitrary: i)
  case (Suc n)
  have "[i..<i + Suc n] = i # [i + 1..<i + 1 + n]" by (simp add: upt_rec)
  with Suc show ?case by simp
qed simp

lemma find_magic_none:
  "\<forall>j < m. temp_word temp (i + j) \<noteq> MAGIC_ID \<Longrightarrow> i + m + 3 \<le> MAX_BLOCK_SIZE \<Longrightarrow> m \<le> n \<Longrightarrow>
     find_magic temp i n = find_magic temp (i + m) (n - m)"
proof (induction m arbitrary: i n)
  case (Suc m)
  then obtain n' where n: "n = Suc n'" by (cases n) auto
  have "find_magic temp (i + 1) n' = find_magic temp (i + 1 + m) (n' - m)"
  proof (rule Suc.IH)
    show "\<forall>j<m. temp_word temp (i + 1 + j) \<noteq> MAGIC_ID" using Suc.prems(1) by (metis Suc_less_eq add.assoc plus_1_eq_Suc)
  qed (use Suc.prems n in auto)
  moreover have "temp_word temp i \<noteq> MAGIC_ID" using Suc.prems(1) [rule_format, of 0] by simp
  ultimately show ?case using Suc.prems(2) n by simp
qed simp

lemma find_magic_cases:
  "find_magic temp i n = Ok (Some j) \<Longrightarrow> i \<le> j \<and> j < i + n \<and> temp_word temp j = MAGIC_ID"
  by (induction n arbitrary: i) (auto split: if_splits, fastforce+)

text \<open>
  The resynchronising search reads past its buffer. When 32 megabytes could be read from the file and none of the first
  \<open>MAX_BLOCK_SIZE - 3\<close> positions holds a magic number, the next comparison reads four bytes of which the last is outside
  of the allocated buffer.
\<close>

theorem find_magic_overrun:
  assumes "length temp = MAX_BLOCK_SIZE" "\<forall>j < MAX_BLOCK_SIZE - 3. temp_word temp j \<noteq> MAGIC_ID"
  shows "find_magic temp 0 (length temp) = Fault OutOfBounds"
proof -
  have m: "3 < MAX_BLOCK_SIZE" by (simp add: MAX_BLOCK_SIZE_def)
  have "find_magic temp 0 (length temp) = find_magic temp (MAX_BLOCK_SIZE - 3) 3"
    using find_magic_none [of "MAX_BLOCK_SIZE - 3" temp 0 "length temp"] assms m by simp
  also have "\<dots> = Fault OutOfBounds" using m by (simp add: numeral_3_eq_3)
  finally show ?thesis .
qed

lemma temp_word_replicate_0: "temp_word (replicate n 0) j = 0"
  by (simp add: temp_word_def load_le.simps(2))

theorem find_magic_overrun_witness:
  "find_magic (replicate MAX_BLOCK_SIZE 0) 0 (length (replicate MAX_BLOCK_SIZE (0 :: u8))) = Fault OutOfBounds"
  by (rule find_magic_overrun) (simp_all add: temp_word_replicate_0 MAGIC_ID_def)

text \<open>A word that is the magic number consists of four bytes of the file, since none of its bytes is zero.\<close>

lemma magic_bytes: "store32 MAGIC_ID = [0xF9, 0xBE, 0xB4, 0xD9]"
  by (simp add: store32_def MAGIC_ID_def)

lemma load_magic: "length b = 4 \<Longrightarrow> load_le b = MAGIC_ID \<longleftrightarrow> b = [0xF9, 0xBE, 0xB4, 0xD9]"
  using store32_load [of b] magic_bytes load_store32 [of MAGIC_ID] by auto

lemma temp_word_magic:
  "temp_word temp i = MAGIC_ID \<longleftrightarrow> i + 4 \<le> length temp \<and> take 4 (drop i temp) = [0xF9, 0xBE, 0xB4, 0xD9]"
proof -
  let ?w = "map (\<lambda>j. if j < length temp then temp ! j else 0) [i, i + 1, i + 2, i + 3]"
  have l: "length ?w = 4" by simp
  have part: "take 4 (drop i temp) = [temp ! i, temp ! (i + 1), temp ! (i + 2), temp ! (i + 3)]" if "i + 4 \<le> length temp"
    using that by (intro nth_equalityI) (auto simp: less_Suc_eq numeral_eq_Suc)
  have "temp_word temp i = MAGIC_ID \<longleftrightarrow> ?w = [0xF9, 0xBE, 0xB4, 0xD9]"
    unfolding temp_word_def by (rule load_magic [OF l])
  also have "\<dots> \<longleftrightarrow> i + 4 \<le> length temp \<and> take 4 (drop i temp) = [0xF9, 0xBE, 0xB4, 0xD9]"
    using part by (cases "i + 4 \<le> length temp") auto
  finally show ?thesis .
qed
section \<open>The invariant of the scan\<close>

text \<open>
  \<open>fdata\<close> are the contents of the open files. A header is described by them if its location names a file and, in it, a
  magic number, the block length and the 80 bytes whose double hash and previous hash the header has.
\<close>

definition fdata :: "block_chain \<Rightarrow> bytes list" where
  "fdata s = map file_data (mBlockDataFiles s)"

definition described :: "bytes list \<Rightarrow> block_header \<Rightarrow> bool" where
  "described ds h \<longleftrightarrow> unat (mFileIndex h) < length ds \<and>
     (let d = ds ! unat (mFileIndex h); off = unat (mFileOffset h)
      in 8 \<le> off \<and> off + 80 \<le> length d \<and> take 4 (drop (off - 8) d) = store32 MAGIC_ID \<and>
         take 4 (drop (off - 4) d) = store32 (mBlockLength h) \<and> unat (mBlockLength h) < MAX_BLOCK_SIZE \<and>
         hash256.truncate h = Hash256 (sha256_spec (sha256_spec (take 80 (drop off d)))) \<and>
         mPreviousBlockHash h = take 32 (drop (off + 4) d))"

definition files_inv :: "disk \<Rightarrow> u32 \<Rightarrow> block_chain \<Rightarrow> bool" where
  "files_inv disk missing s \<longleftrightarrow> disk missing = None \<and> length (fdata s) \<le> unat missing \<and>
     (\<forall>i d. disk i = Some d \<longrightarrow> length d < 2 ^ 32) \<and>
     (\<forall>i < length (fdata s). disk (word_of_nat i) = Some (fdata s ! i))"

definition scan_inv :: "disk \<Rightarrow> u32 \<Rightarrow> block_chain \<Rightarrow> bool" where
  "scan_inv disk missing s \<longleftrightarrow> files_inv disk missing s \<and> (\<forall>h \<in> set (mBlockHeaderSet s). described (fdata s) h) \<and>
     distinct (map hash256.truncate (mBlockHeaderSet s)) \<and>
     (mScanCount s \<noteq> 0 \<longrightarrow> set_find (hash256.truncate (mLastBlockHeader s)) (mBlockHeaderSet s) \<noteq> None)"

text \<open>Steps that only touch the streams, the log and the list of open files.\<close>

definition file_step :: "block_chain \<Rightarrow> block_chain \<Rightarrow> bool" where
  "file_step s s' \<longleftrightarrow> (\<exists>more. fdata s' = fdata s @ more) \<and> mBlockHeaderSet s' = mBlockHeaderSet s \<and>
     mLastBlockHeader s' = mLastBlockHeader s \<and> mScanCount s' = mScanCount s \<and> mMaxBlocks s' = mMaxBlocks s"

lemma file_step_refl [simp]: "file_step s s"
  by (simp add: file_step_def)

lemma file_step_trans: "file_step s t \<Longrightarrow> file_step t u \<Longrightarrow> file_step s u"
  by (auto simp: file_step_def)

lemma described_more: "described ds h \<Longrightarrow> described (ds @ ds1) h"
  by (auto simp: described_def Let_def nth_append)

lemma fread_data [simp]: "file_data (snd (fread n f)) = file_data f"
  by (simp add: fread_def)

lemma fdata_set_file [simp]:
  "file_data f = file_data (mBlockDataFiles s ! i) \<Longrightarrow> fdata (set_file i f s) = fdata s"
  by (cases "i < length (mBlockDataFiles s)")
    (simp_all add: fdata_def set_file_def map_update list_update_same_conv list_update_beyond)

lemma log_bc_simps [simp]:
  "fdata (log_bc e s) = fdata s" "mBlockDataFiles (log_bc e s) = mBlockDataFiles s" "mBlockIndex (log_bc e s) = mBlockIndex s"
  "file_step t (log_bc e s) = file_step t s" "files_inv disk missing (log_bc e s) = files_inv disk missing s"
  "current_file (log_bc e s) = current_file s" "mBlockHeaderSet (log_bc e s) = mBlockHeaderSet s"
  "mScanCount (log_bc e s) = mScanCount s"
  by (simp_all add: log_bc_def fdata_def file_step_def files_inv_def current_file_def)

lemma files_inv_cong: "fdata s' = fdata s \<Longrightarrow> files_inv disk missing s' = files_inv disk missing s"
  by (simp add: files_inv_def)

lemma set_file_steps:
  assumes "file_data f = file_data (mBlockDataFiles s ! i)"
  shows "file_step t (set_file i f s) = file_step t s" "files_inv disk missing (set_file i f s) = files_inv disk missing s"
    "mBlockIndex (set_file i f s) = mBlockIndex s" "length (mBlockDataFiles (set_file i f s)) = length (mBlockDataFiles s)"
    "mBlockHeaderSet (set_file i f s) = mBlockHeaderSet s"
proof -
  note fd = fdata_set_file [OF assms]
  show "file_step t (set_file i f s) = file_step t s" using fd by (simp add: file_step_def set_file_def)
  show "files_inv disk missing (set_file i f s) = files_inv disk missing s" by (rule files_inv_cong [OF fd])
qed (simp_all add: set_file_def)

lemma read_current_steps:
  assumes "read_current n s = (r, s')"
  shows "fdata s' = fdata s" "mBlockIndex s' = mBlockIndex s" "length (mBlockDataFiles s') = length (mBlockDataFiles s)"
    "file_step t s' = file_step t s" "files_inv disk missing s' = files_inv disk missing s"
    "mBlockHeaderSet s' = mBlockHeaderSet s"
proof -
  have s': "s' = set_file (unat (mBlockIndex s)) (snd (fread n (current_file s))) s"
    using assms by (simp add: read_current_def split: prod.splits)
  have d: "file_data (snd (fread n (current_file s))) = file_data (mBlockDataFiles s ! unat (mBlockIndex s))"
    by (simp add: current_file_def)
  show "fdata s' = fdata s" "mBlockIndex s' = mBlockIndex s" "length (mBlockDataFiles s') = length (mBlockDataFiles s)"
    "file_step t s' = file_step t s" "files_inv disk missing s' = files_inv disk missing s"
    "mBlockHeaderSet s' = mBlockHeaderSet s"
    unfolding s' using set_file_steps [OF d] fdata_set_file [OF d] by simp_all
qed

lemma seek_current_steps:
  "fdata (seek_current p s) = fdata s" "mBlockIndex (seek_current p s) = mBlockIndex s"
  "length (mBlockDataFiles (seek_current p s)) = length (mBlockDataFiles s)"
  "file_step t (seek_current p s) = file_step t s" "files_inv disk missing (seek_current p s) = files_inv disk missing s"
  "mBlockHeaderSet (seek_current p s) = mBlockHeaderSet s"
  unfolding seek_current_def
  by (simp_all add: set_file_steps fseek_def current_file_def)

lemma openBlock_steps:
  assumes "openBlock disk s = (ok, s')" "files_inv disk missing s"
  shows "file_step s s'" "files_inv disk missing s'"
    "ok \<Longrightarrow> unat (mBlockIndex s') < length (mBlockDataFiles s') \<and> file_pos (current_file s') = 0"
proof -
  let ?i = "word_of_nat (length (fdata s)) :: u32"
  have "unat missing < 2 ^ 32" using unsigned_less [of missing] by simp
  then have "length (fdata s) < 2 ^ LENGTH(32)" using assms(2) by (simp add: files_inv_def)
  then have i: "unat ?i = length (fdata s)" by (rule unat_word_of_nat_small)
  have ne: "?i \<noteq> missing" if "disk ?i = Some d" for d using that assms(2) by (auto simp: files_inv_def)
  have lt: "length (fdata s) < unat missing" if "disk ?i = Some d" for d
    using ne [OF that] i assms(2) by (metis files_inv_def le_neq_implies_less word_unat_eq_iff)
  show "file_step s s'" "files_inv disk missing s'"
    "ok \<Longrightarrow> unat (mBlockIndex s') < length (mBlockDataFiles s') \<and> file_pos (current_file s') = 0"
    using assms lt i
    by (auto simp: openBlock_def Let_def fdata_def file_step_def files_inv_def log_bc_def current_file_def nth_append
        less_Suc_eq split: option.splits)
qed

text \<open>Where the cursor of the current file stands right after a magic number.\<close>

definition after_magic :: "block_chain \<Rightarrow> bool" where
  "after_magic s \<longleftrightarrow> unat (mBlockIndex s) < length (mBlockDataFiles s) \<and> 4 \<le> file_pos (current_file s) \<and>
     file_pos (current_file s) \<le> length (file_data (current_file s)) \<and>
     take 4 (drop (file_pos (current_file s) - 4) (file_data (current_file s))) = store32 MAGIC_ID"

lemma current_set_file [simp]:
  "unat (mBlockIndex s) < length (mBlockDataFiles s) \<Longrightarrow> current_file (set_file (unat (mBlockIndex s)) f s) = f"
  by (simp add: current_file_def set_file_def)

lemma read_current_file:
  assumes "read_current n s = (r, s')" "unat (mBlockIndex s) < length (mBlockDataFiles s)"
  shows "fread n (current_file s) = (r, current_file s')" "file_data (current_file s') = file_data (current_file s)"
  using assms fread_data [of n "current_file s"] by (auto simp: read_current_def simp del: fread_data split: prod.splits)

lemma read_magic:
  assumes "read_current 4 s = (Some b, s')" "unat (mBlockIndex s) < length (mBlockDataFiles s)" "load_le b = MAGIC_ID"
  shows "after_magic s'"
proof -
  note r = read_current_file [OF assms(1,2)] and steps = read_current_steps [OF assms(1)]
  have b: "b = take 4 (drop (file_pos (current_file s)) (file_data (current_file s)))"
    "file_pos (current_file s) + 4 \<le> length (file_data (current_file s))" "file_pos (current_file s') = file_pos (current_file s) + 4"
    using r(1) by (auto simp: fread_def split: if_splits dest!: sym [of _ "current_file s'"])
  then have "length b = 4" by simp
  then have "b = store32 MAGIC_ID" using assms(3) by (simp add: load_magic magic_bytes)
  then show ?thesis using b r(2) steps assms(2) by (simp add: after_magic_def)
qed

abbreviation has_file :: "block_chain \<Rightarrow> bool" where
  "has_file s \<equiv> unat (mBlockIndex s) < length (mBlockDataFiles s)"

lemma current_length:
  assumes "files_inv disk missing s" "has_file s"
  shows "length (file_data (current_file s)) < 2 ^ 32"
proof -
  have "unat (mBlockIndex s) < length (fdata s)" "file_data (current_file s) = fdata s ! unat (mBlockIndex s)"
    using assms(2) by (simp_all add: fdata_def current_file_def)
  with assms(1) show ?thesis by (metis files_inv_def)
qed

lemma unat_add_small: "unat (a :: u32) + n < 2 ^ 32 \<Longrightarrow> unat (a + word_of_nat n) = unat a + n"
  by (simp add: unat_word_ariths unat_of_nat)

lemma current_seek:
  "has_file s \<Longrightarrow> file_pos (current_file (seek_current p s)) = unat p"
  "has_file s \<Longrightarrow> file_data (current_file (seek_current p s)) = file_data (current_file s)"
  by (simp_all add: seek_current_def fseek_def)

text \<open>The magic number that the search has found is there when the code seeks to it and reads it again.\<close>

lemma found_again:
  assumes "find_magic temp 0 (length temp) = Ok (Some i)" "temp = take m (drop (unat lst) (file_data (current_file s)))"
    "has_file s" "unat lst + i < 2 ^ 32" "s1 = seek_current (lst + word_of_nat i) s"
  shows "fst (read_current 4 s1) = Some (store32 MAGIC_ID)"
proof -
  let ?d = "file_data (current_file s)"
  from find_magic_cases [OF assms(1)] have i: "i + 4 \<le> length temp" "take 4 (drop i temp) = store32 MAGIC_ID"
    by (simp_all add: temp_word_magic magic_bytes)
  have "take 4 (drop i temp) = take 4 (drop (unat lst + i) ?d)" "unat lst + i + 4 \<le> length ?d"
  proof -
    have len: "i + 4 \<le> m" "unat lst + i + 4 \<le> length ?d" using i(1) unfolding assms(2) by auto
    then show "unat lst + i + 4 \<le> length ?d" by simp
    show "take 4 (drop i temp) = take 4 (drop (unat lst + i) ?d)"
      using len(1) unfolding assms(2) by (simp add: drop_take min_def add.commute)
  qed
  then show ?thesis
    using i(2) assms(3) unat_add_small [OF assms(4)]
    by (simp add: assms(5) read_current_def fread_def seek_current_def fseek_def split: prod.split)
qed

lemma scan_for_header_steps:
  assumes "scan_for_header bld disk lst s = Ok (r, s')" "files_inv disk missing s" "has_file s"
    "unat lst \<le> length (file_data (current_file s))"
  shows "file_step s s'" "files_inv disk missing s'" "r \<Longrightarrow> after_magic s'"
proof -
  define s1 where "s1 = log_bc LogMissingHeader (seek_current lst s)"
  define temp where "temp = take MAX_BLOCK_SIZE (drop (unat lst) (file_data (current_file s)))"
  define f where "f = (current_file s1)\<lparr>file_pos := unat lst + length temp\<rparr>"
  define s2 where "s2 = set_file (unat (mBlockIndex s1)) f s1"
  have s1: "has_file s1" "file_data (current_file s1) = file_data (current_file s)" "file_step s s1" "files_inv disk missing s1"
    using assms(2,3) by (simp_all add: s1_def seek_current_steps current_seek)
  have fr: "fread_some MAX_BLOCK_SIZE (current_file s1) = (temp, f)"
    using assms(3) by (simp add: fread_some_def Let_def f_def temp_def s1_def current_seek)
  have fd: "file_data f = file_data (mBlockDataFiles s1 ! unat (mBlockIndex s1))" by (simp add: f_def current_file_def)
  have s2: "has_file s2" "file_data (current_file s2) = file_data (current_file s)" "file_step s s2" "files_inv disk missing s2"
    using s1 set_file_steps [OF fd] by (simp_all add: s2_def f_def)
  have res: "bind_result (find_magic temp 0 (length temp)) (\<lambda>found.
           case found of
             Some i \<Rightarrow>
               (let s = log_bc (LogSkipped (word_of_nat i)) s2;
                    s = seek_current (lst + word_of_nat i) s;
                    (m, s) = read_current 4 s
                in bind_result (c_assert bld (case m of Some b \<Rightarrow> load_le b = MAGIC_ID | None \<Rightarrow> False)) (\<lambda>_.
                     Ok (m \<noteq> None, s)))
           | None \<Rightarrow>
               (let (ok, s) = openBlock disk s2
                in if ok then
                     let (m, s) = read_current 4 s
                     in case m of
                          Some b \<Rightarrow> if load_le b \<noteq> MAGIC_ID then Ok (False, log_bc LogBadNextFile s) else Ok (True, s)
                        | None \<Rightarrow> Ok (False, s)
                   else Ok (False, s))) = Ok (r, s')"
    using assms(1) unfolding scan_for_header_def s1_def [symmetric] Let_def fr prod.case s2_def [symmetric] .
  then obtain found where found: "find_magic temp 0 (length temp) = Ok found"
    by (cases "find_magic temp 0 (length temp)") auto
  have "file_step s s' \<and> files_inv disk missing s' \<and> (r \<longrightarrow> after_magic s')"
  proof (cases found)
    case (Some i)
    define s3 where "s3 = seek_current (lst + word_of_nat i) (log_bc (LogSkipped (word_of_nat i)) s2)"
    obtain m s4 where s4: "read_current 4 s3 = (m, s4)" by (cases "read_current 4 s3")
    have s3: "has_file s3" "file_step s s3" "files_inv disk missing s3" using s2 by (simp_all add: s3_def seek_current_steps)
    have "i + 4 \<le> length temp" using find_magic_cases found Some temp_word_magic by blast
    then have "unat lst + i < length (file_data (current_file s))" by (auto simp: temp_def)
    then have "unat lst + i < 2 ^ 32" using current_length [OF assms(2,3)] by (rule less_trans)
    then have m: "m = Some (store32 MAGIC_ID)"
      using found_again [of temp i _ lst "log_bc (LogSkipped (word_of_nat i)) s2" s3] found Some s2 s4
      by (simp add: temp_def s3_def)
    have "after_magic s4" using read_magic [OF s4 [unfolded m] s3(1)] by simp
    moreover have "s' = s4" using res found Some by (simp add: s3_def [symmetric] s4 m Let_def)
    ultimately show ?thesis using read_current_steps [OF s4] s3 by simp
  next
    case None
    obtain ok s3 where s3: "openBlock disk s2 = (ok, s3)" by (cases "openBlock disk s2")
    note o = openBlock_steps [OF s3 s2(4)]
    obtain m s4 where s4: "read_current 4 s3 = (m, s4)" by (cases "read_current 4 s3")
    show ?thesis
    proof (cases "ok \<and> (\<exists>b. m = Some b \<and> load_le b = MAGIC_ID)")
      case True
      then obtain b where b: "m = Some b" "load_le b = MAGIC_ID" by blast
      have "after_magic s4" using read_magic [OF s4 [unfolded b(1)] _ b(2)] o(3) True by simp
      moreover have "s' = s4" using res found None True b by (simp add: s3 s4)
      ultimately show ?thesis using read_current_steps [OF s4] o file_step_trans [OF s2(3) o(1)] by simp
    next
      case False
      then have "\<not> r" "s' \<in> {s3, s4, log_bc LogBadNextFile s4}"
        using res found None by (auto simp: s3 s4 split: if_splits option.splits)
      then show ?thesis using read_current_steps [OF s4] o file_step_trans [OF s2(3) o(1)] by auto
    qed
  qed
  then show "file_step s s'" "files_inv disk missing s'" "r \<Longrightarrow> after_magic s'" by auto
qed

lemma read_currentE:
  assumes "read_current n s = (Some b, s')" "has_file s"
  shows "b = take n (drop (file_pos (current_file s)) (file_data (current_file s)))"
    "file_pos (current_file s) + n \<le> length (file_data (current_file s))" "0 < n"
    "current_file s' = (current_file s)\<lparr>file_pos := file_pos (current_file s) + n\<rparr>" "has_file s'"
  using read_current_file [OF assms] read_current_steps [OF assms(1)] assms(2)
  by (auto simp: fread_def split: if_splits)

lemma truncate_BlockHeader [simp]: "hash256.truncate (BlockHeader k fi off len prev) = k"
  by (simp add: BlockHeader_def hash256.defs)

lemma BlockHeader_simps [simp]:
  "mFileIndex (BlockHeader k fi off len prev) = fi" "mFileOffset (BlockHeader k fi off len prev) = off"
  "mBlockLength (BlockHeader k fi off len prev) = len" "mPreviousBlockHash (BlockHeader k fi off len prev) = prev"
  by (simp_all add: BlockHeader_def hash256.defs block_header.defs)

lemma double_sha: "length p = 80 \<Longrightarrow> computeSHA256 (computeSHA256 p 80) 32 = sha256_spec (sha256_spec p)"
  by (simp add: computeSHA256_eq)

lemma read_header_steps:
  assumes "read_header bld s = Ok (r, s')" "files_inv disk missing s" "after_magic s"
  shows "files_inv disk missing s'" "\<not> r \<Longrightarrow> file_step s s'"
    "r \<Longrightarrow> described (fdata s) (mLastBlockHeader s') \<and> fdata s' = fdata s \<and> mScanCount s' = mScanCount s \<and>
       mMaxBlocks s' = mMaxBlocks s \<and> mBlockHeaderSet s' = set_insert (mLastBlockHeader s') (mBlockHeaderSet s)"
proof -
  let ?p = "file_pos (current_file s)" and ?d = "file_data (current_file s)"
  have idx: "has_file s" and mag: "4 \<le> ?p" "take 4 (drop (?p - 4) ?d) = store32 MAGIC_ID"
    using assms(3) by (simp_all add: after_magic_def)
  obtain l s1 where s1: "read_current 4 s = (l, s1)" by (cases "read_current 4 s")
  obtain q s2 where s2: "read_current 80 s1 = (q, s2)" by (cases "read_current 80 s1")
  note st1 = read_current_steps [OF s1] and st2 = read_current_steps [OF s2]
  have both: "file_step s s1" "file_step s s2" "files_inv disk missing s1" "files_inv disk missing s2"
    using st1 st2 assms(2) by simp_all
  have "files_inv disk missing s' \<and> (\<not> r \<longrightarrow> file_step s s') \<and>
    (r \<longrightarrow> described (fdata s) (mLastBlockHeader s') \<and> fdata s' = fdata s \<and> mScanCount s' = mScanCount s \<and>
       mMaxBlocks s' = mMaxBlocks s \<and> mBlockHeaderSet s' = set_insert (mLastBlockHeader s') (mBlockHeaderSet s))"
  proof (cases "\<exists>lb pb. l = Some lb \<and> unat (load_le lb :: u32) < MAX_BLOCK_SIZE \<and> q = Some pb")
    case False
    then have "\<not> r \<and> (s' = s1 \<or> s' = s2)"
      using assms(1) s1 s2
      by (cases bld) (auto simp: read_header_def Let_def c_assert_def split: option.splits if_splits)
    with both show ?thesis by auto
  next
    case True
    then obtain lb pb where lb: "l = Some lb" "unat (load_le lb :: u32) < MAX_BLOCK_SIZE" "q = Some pb" by blast
    note e1 = read_currentE [OF s1 [unfolded lb(1)] idx]
    note e2 = read_currentE [OF s2 [unfolded lb(3)] e1(5)]
    define len :: u32 where "len = load_le lb"
    define off where "off = ftell (current_file s1)"
    define h where "h = BlockHeader (Hash256 (computeSHA256 (computeSHA256 pb 80) 32)) (mBlockIndex s) off len (take 32 (drop 4 pb))"
    define s3 where "s3 = seek_current (ftell (current_file s2) + (len - 80)) s2"
    have s': "r" "s' = s3\<lparr>mLastBlockHeader := h, mBlockHeaderSet := set_insert h (mBlockHeaderSet s3)\<rparr>"
      using assms(1) s1 s2 lb
      by (cases bld; simp add: read_header_def Let_def s3_def h_def off_def len_def)+
    have fd: "fdata s3 = fdata s" "file_step s s3" using st1(1,4) st2(1,4) by (simp_all add: s3_def seek_current_steps)
    have bound: "?p + 84 \<le> length ?d" using e2(2) e1(4) by simp
    have off: "unat off = ?p + 4"
    proof -
      have "off = word_of_nat (?p + 4)" using e1(4) by (simp add: off_def ftell_def)
      moreover have "unat (word_of_nat (?p + 4) :: u32) = ?p + 4"
        by (rule unat_word32_of_nat) (use bound current_length [OF assms(2) idx] in simp)
      ultimately show ?thesis by (simp only:)
    qed
    have d: "fdata s ! unat (mBlockIndex s) = ?d" "unat (mBlockIndex s) < length (fdata s)"
      using idx by (simp_all add: fdata_def current_file_def)
    have pb: "pb = take 80 (drop (?p + 4) ?d)" using e2(1) e1(4) by simp
    have "length lb = 4" "lb = take 4 (drop ?p ?d)" using e1(1) bound by simp_all
    then have lenb: "take 4 (drop ?p ?d) = store32 len" by (simp add: len_def store32_load)
    have prev: "take 32 (drop 4 pb) = take 32 (drop (?p + 8) ?d)" unfolding pb by (simp add: drop_take min_def add.commute)
    have "described (fdata s) h"
      using mag lenb lb(2) prev bound off d pb double_sha [of pb]
      by (simp add: described_def Let_def h_def len_def [symmetric] add.commute [of 8])
    then show ?thesis
      using s' fd both(4) assms(2) by (auto simp: fdata_def file_step_def files_inv_def)
  qed
  then show "files_inv disk missing s'" "\<not> r \<Longrightarrow> file_step s s'"
    "r \<Longrightarrow> described (fdata s) (mLastBlockHeader s') \<and> fdata s' = fdata s \<and> mScanCount s' = mScanCount s \<and>
       mMaxBlocks s' = mMaxBlocks s \<and> mBlockHeaderSet s' = set_insert (mLastBlockHeader s') (mBlockHeaderSet s)"
    by auto
qed

lemma readBlockHeader_steps:
  assumes "readBlockHeader bld disk s = Ok (r, s')" "files_inv disk missing s"
  shows "files_inv disk missing s'" "\<not> r \<Longrightarrow> file_step s s'"
    "r \<Longrightarrow> described (fdata s') (mLastBlockHeader s') \<and> (\<exists>ds. fdata s' = fdata s @ ds) \<and> mScanCount s' = mScanCount s \<and>
       mMaxBlocks s' = mMaxBlocks s \<and> mBlockHeaderSet s' = set_insert (mLastBlockHeader s') (mBlockHeaderSet s)"
proof -
  let ?goal = "files_inv disk missing s' \<and> (\<not> r \<longrightarrow> file_step s s') \<and>
    (r \<longrightarrow> described (fdata s') (mLastBlockHeader s') \<and> (\<exists>ds. fdata s' = fdata s @ ds) \<and> mScanCount s' = mScanCount s \<and>
       mMaxBlocks s' = mMaxBlocks s \<and> mBlockHeaderSet s' = set_insert (mLastBlockHeader s') (mBlockHeaderSet s))"
  have ?goal
  proof (cases "has_file s")
    case False
    with assms show ?thesis by (simp add: readBlockHeader_def)
  next
    case True
    \<comment> \<open>the state and the place from which a wrong magic number is searched\<close>
    obtain m s1 where s1: "read_current 4 s = (m, s1)" by (cases "read_current 4 s")
    note st1 = read_current_steps [OF s1]
    have inv1: "file_step s s1" "files_inv disk missing s1" using st1 assms(2) by simp_all
    obtain ok s2 where s2: "openBlock disk s1 = (ok, s2)" by (cases "openBlock disk s1")
    note st2 = openBlock_steps [OF s2 inv1(2)]
    obtain m' s3 where s3: "read_current 4 s2 = (m', s3)" by (cases "read_current 4 s2")
    note st3 = read_current_steps [OF s3]
    define start where "start = (if m = None then if ok then (m', ftell (current_file s3), s3) else (None, ftell (current_file s), s2)
      else (m, ftell (current_file s), s1))"
    obtain n lst s4 where s4: "start = (n, lst, s4)" by (cases start)
    have start: "file_step s s4" "files_inv disk missing s4"
      using s4 inv1 st2(1,2) st3 file_step_trans [OF inv1(1) st2(1)] by (auto simp: start_def split: if_splits)
    have found: "has_file s4 \<and> unat lst \<le> length (file_data (current_file s4)) \<and> (load_le b = MAGIC_ID \<longrightarrow> after_magic s4)"
      if b: "n = Some b" for b
    proof (cases m)
      case None
      then have m': "m' = Some b" "lst = ftell (current_file s3)" "s4 = s3" "ok" using s4 b by (auto simp: start_def split: if_splits)
      note e = read_currentE [OF s3 [unfolded m'(1)] st2(3) [OF m'(4), THEN conjunct1]]
      have "file_pos (current_file s3) = 4" using e(4) st2(3) [OF m'(4)] by simp
      then have "unat lst = 4" using m'(2) by (simp add: ftell_def)
      then show ?thesis using e m' st2(3) [OF m'(4)] read_magic [OF s3 [unfolded m'(1)]] by auto
    next
      case (Some b')
      then have m': "m = Some b" "lst = ftell (current_file s)" "s4 = s1" using s4 b by (auto simp: start_def)
      note e = read_currentE [OF s1 [unfolded m'(1)] True]
      have "unat lst \<le> file_pos (current_file s)"
        by (simp add: m'(2) ftell_def unat_of_nat)
      then show ?thesis using e m' read_magic [OF s1 [unfolded m'(1)] True] by auto
    qed
    have res: "bind_result (case n of None \<Rightarrow> Ok (False, s4)
        | Some b \<Rightarrow> if load_le b \<noteq> MAGIC_ID then scan_for_header bld disk lst s4 else Ok (True, s4))
        (\<lambda>(r, s). if r then read_header bld s else Ok (False, s)) = Ok (r, s')"
      using assms(1) True s4 unfolding readBlockHeader_def start_def by (auto simp: Let_def s1 s2 s3 split: if_splits)
    then obtain r5 s5 where s5: "(case n of None \<Rightarrow> Ok (False, s4)
        | Some b \<Rightarrow> if load_le b \<noteq> MAGIC_ID then scan_for_header bld disk lst s4 else Ok (True, s4)) = Ok (r5, s5)"
      "(if r5 then read_header bld s5 else Ok (False, s5)) = Ok (r, s')"
      by (auto simp: bind_result_eq_Inr)
    have five: "file_step s s5 \<and> files_inv disk missing s5 \<and> (r5 \<longrightarrow> after_magic s5)"
    proof (cases n)
      case None
      with s5(1) start show ?thesis by auto
    next
      case (Some b)
      show ?thesis
      proof (cases "load_le b = MAGIC_ID")
        case True
        with s5(1) start found [OF Some] Some show ?thesis by auto
      next
        case False
        then have "scan_for_header bld disk lst s4 = Ok (r5, s5)" using s5(1) Some by simp
        from scan_for_header_steps [OF this start(2)] found [OF Some] file_step_trans [OF start(1)]
        show ?thesis by blast
      qed
    qed
    show ?thesis
    proof (cases r5)
      case True
      then have "read_header bld s5 = Ok (r, s')" using s5(2) by simp
      note h = read_header_steps [OF this five [THEN conjunct2, THEN conjunct1]]
      have "after_magic s5" "file_step s s5" using five True by simp_all
      with h file_step_trans [of s s5 s'] show ?thesis by (cases r) (auto simp: file_step_def)
    next
      case False
      with s5(2) five show ?thesis by auto
    qed
  qed
  then show "files_inv disk missing s'" "\<not> r \<Longrightarrow> file_step s s'"
    "r \<Longrightarrow> described (fdata s') (mLastBlockHeader s') \<and> (\<exists>ds. fdata s' = fdata s @ ds) \<and> mScanCount s' = mScanCount s \<and>
       mMaxBlocks s' = mMaxBlocks s \<and> mBlockHeaderSet s' = set_insert (mLastBlockHeader s') (mBlockHeaderSet s)"
    by auto
qed

lemma scan_inv_step:
  assumes "scanBlockChain bld disk lst s = Ok (fin, lst', s')" "scan_inv disk missing s"
  shows "scan_inv disk missing s'" "fin \<longleftrightarrow> mScanCount s' = mScanCount s" "\<not> fin \<Longrightarrow> lst' = mScanCount s"
proof -
  obtain ok s1 where s1: "readBlockHeader bld disk s = Ok (ok, s1)"
    using assms(1) by (auto simp: scanBlockChain_def bind_result_eq_Inr)
  have fi: "files_inv disk missing s" using assms(2) by (simp add: scan_inv_def)
  note st = readBlockHeader_steps [OF s1 fi]
  have count: "mScanCount s1 = mScanCount s" using st(2,3) by (auto simp: file_step_def)
  have one: "x + 1 \<noteq> (x :: u32)" for x by simp
  have inv1: "scan_inv disk missing s1 \<and> (ok \<longrightarrow> set_find (hash256.truncate (mLastBlockHeader s1)) (mBlockHeaderSet s1) \<noteq> None)"
  proof (cases ok)
    case True
    from st(3) [OF True] obtain ds where ds: "fdata s1 = fdata s @ ds"
      "mBlockHeaderSet s1 = set_insert (mLastBlockHeader s1) (mBlockHeaderSet s)" "described (fdata s1) (mLastBlockHeader s1)"
      by blast
    have "described (fdata s1) h" if "h \<in> set (mBlockHeaderSet s1)" for h
      using that set_set_insert [of "mLastBlockHeader s1" "mBlockHeaderSet s"] ds assms(2) described_more
      by (auto simp: scan_inv_def)
    then show ?thesis
      using st(1) ds(2) assms(2) set_insert_distinct header_set.lookup_add_self by (auto simp: scan_inv_def)
  next
    case False
    from st(2) [OF False] st(1) assms(2) described_more show ?thesis by (auto simp: scan_inv_def file_step_def False)
  qed
  consider "ok \<and> mScanCount s1 < mMaxBlocks s1" | "\<not> (ok \<and> mScanCount s1 < mMaxBlocks s1)" by blast
  then have "scan_inv disk missing s' \<and> (fin \<longleftrightarrow> mScanCount s' = mScanCount s) \<and> (\<not> fin \<longrightarrow> lst' = mScanCount s)"
  proof cases
    case 1
    then have "s' = s1\<lparr>mScanCount := mScanCount s1 + 1\<rparr>" "\<not> fin" "lst' = mScanCount s1"
      using assms(1) s1 by (auto simp: scanBlockChain_def)
    then show ?thesis using inv1 1 count one [of "mScanCount s"] by (auto simp: scan_inv_def files_inv_def fdata_def)
  next
    case 2
    then have "s' = s1" "fin" using assms(1) s1 by (auto simp: scanBlockChain_def split: if_splits)
    then show ?thesis using inv1 count by simp
  qed
  then show "scan_inv disk missing s'" "fin \<longleftrightarrow> mScanCount s' = mScanCount s" "\<not> fin \<Longrightarrow> lst' = mScanCount s" by auto
qed

section \<open>The constructor\<close>

text \<open>The two placeholder addresses as bytes: 21 bytes and a checksum.\<close>

definition dummy_key :: bytes where
  "dummy_key = [0, 116, 13, 168, 127, 251, 156, 143, 37, 122, 192, 117, 1, 163, 170, 22, 90, 24, 34, 63, 43] @ [231, 180, 111, 161]"

definition zero_key :: bytes where
  "zero_key = [0, 10, 231, 80, 3, 113, 29, 135, 115, 3, 120, 126, 232, 223, 182, 17, 128, 220, 89, 125, 118] @ [158, 114, 195, 11]"

lemma placeholder_texts: "gDummyKeyAscii = base58_text dummy_key" "gZeroByteAscii = base58_text zero_key"
  by (simp_all add: gDummyKeyAscii_def gZeroByteAscii_def dummy_key_def zero_key_def base58_text_def cstr_def digits58.simps
      base58Characters_def)

lemma placeholder_keys:
  "length out = 25 \<Longrightarrow> \<exists>ok. bitcoinAsciiToAddress bld gDummyKeyAscii out = Ok (ok, dummy_key)"
  "length out = 25 \<Longrightarrow> \<exists>ok. bitcoinAsciiToAddress bld gZeroByteAscii out = Ok (ok, zero_key)"
  unfolding placeholder_texts dummy_key_def zero_key_def
  by (rule exI, rule bitcoinAsciiToAddress_text; simp)+


text \<open>The states that the constructor and any number of scan steps lead to.\<close>

inductive scanned :: "build \<Rightarrow> disk \<Rightarrow> block_chain \<Rightarrow> bool" for bld disk where
  start: "BlockChainImpl bld disk maxBlocks u v buf tbuf prev g = Ok s \<Longrightarrow> scanned bld disk s"
| step: "scanned bld disk s \<Longrightarrow> scanBlockChain bld disk lst s = Ok (fin, lst', s') \<Longrightarrow> scanned bld disk s'"

lemma BlockChainImpl_state:
  assumes "length (gDummyKey g) = 25" "length (gZeroByte g) = 25"
  shows "BlockChainImpl bld disk maxBlocks u v buf tbuf prev g = Ok (snd (openBlock disk
         \<lparr>mMaxBlocks = maxBlocks, mTotalTransactionCount = 0, mTotalInputCount = 0, mTotalOutputCount = 0,
          mSearchForText = 0, mScanCount = 0, mBlockDataBuffer = buf, mBlockIndex = 0, mFileLength = 0,
          mBlockDataFiles = [], mLastBlockHeader = BlockHeader \<lparr>mWord0 = 0, mWord1 = 0, mWord2 = 0, mWord3 = 0\<rparr> 0 0 0 prev,
          mBlockHeaderSet = [], mBlockCount = 0, mBlockChainHeaders = [], mSingleReadBlock = block_init u,
          mSingleTransactionBlock = block_init v, mTransactionCount = 0, mTextReport = None,
          mTransactionBlockBuffer = tbuf, mTransactionSet = [],
          bc_globals = g\<lparr>gDummyKey := dummy_key, gZeroByte := zero_key\<rparr>\<rparr>))"
  using placeholder_keys(1) [OF assms(1), of bld] placeholder_keys(2) [OF assms(2), of bld]
  by (auto simp: BlockChainImpl_def)

lemma BlockChainImpl_inv:
  assumes "BlockChainImpl bld disk maxBlocks u v buf tbuf prev g = Ok s" "disk missing = None"
    "\<forall>i d. disk i = Some d \<longrightarrow> length d < 2 ^ 32"
  shows "scan_inv disk missing s"
proof -
  obtain s0 where s0: "s = snd (openBlock disk s0)" "mBlockDataFiles s0 = []" "mBlockHeaderSet s0 = []" "mScanCount s0 = 0"
    using assms(1) by (auto simp: BlockChainImpl_def bind_result_eq_Inr)
  have "files_inv disk missing s0" using assms(2,3) s0(2) by (simp add: files_inv_def fdata_def)
  moreover obtain ok where "openBlock disk s0 = (ok, s)" using s0(1) by (cases "openBlock disk s0") simp
  ultimately show ?thesis
    using openBlock_steps [of disk s0 ok s missing] s0 by (auto simp: scan_inv_def file_step_def)
qed

text \<open>
  C5: the invariant of the scan. However often \<open>scanBlockChain\<close> has been called, over any contents of the data
  files (each below four gigabytes), the open files are blk00000.dat, blk00001.dat, ... in order, the header set has
  no two headers with the same hash, the last header is found in it as soon as a block was counted, and each header in it
  describes a block that is on disk: at its file and offset, behind a magic number and the length, stand the 80 bytes
  whose double SHA-256 and previous hash it holds. A call that is not the last one counts one block.
\<close>

theorem scanBlockChain_invariant:
  assumes "scanned bld disk s" "disk missing = None" "\<forall>i d. disk i = Some d \<longrightarrow> length d < 2 ^ 32"
  shows "scan_inv disk missing s \<and> (\<forall>lst fin lst' s'. scanBlockChain bld disk lst s = Ok (fin, lst', s') \<longrightarrow>
    scan_inv disk missing s' \<and> (if fin then mScanCount s' = mScanCount s else mScanCount s' = mScanCount s + 1 \<and> lst' = mScanCount s))"
proof -
  have inv: "scan_inv disk missing s"
    using assms(1)
  proof induction
    case (start maxBlocks u v buf tbuf prev g s)
    then show ?case using assms(2,3) by (rule BlockChainImpl_inv)
  next
    case (step s lst fin lst' s')
    then show ?case using scan_inv_step(1) by blast
  qed
  have "mScanCount s' = mScanCount s + 1" if r: "scanBlockChain bld disk lst s = Ok (False, lst', s')" for lst lst' s'
  proof -
    obtain ok s1 where s1: "readBlockHeader bld disk s = Ok (ok, s1)"
      using r by (auto simp: scanBlockChain_def bind_result_eq_Inr)
    have "files_inv disk missing s" using inv by (simp add: scan_inv_def)
    from readBlockHeader_steps(2,3) [OF s1 this] have "mScanCount s1 = mScanCount s" by (auto simp: file_step_def)
    then show ?thesis using r s1 by (auto simp: scanBlockChain_def split: if_splits)
  qed
  with inv scan_inv_step [OF _ inv] show ?thesis by (auto split: if_splits)
qed

definition empty_chain :: block_chain where
  "empty_chain = (case BlockChainImpl Debug (\<lambda>_. None) 10 (block_on []) (block_on []) [] [] [] no_globals of Inr s \<Rightarrow> s)"

lemma empty_chain: "BlockChainImpl Debug (\<lambda>_. None) 10 (block_on []) (block_on []) [] [] [] no_globals = Ok empty_chain"
  by (simp add: empty_chain_def BlockChainImpl_state no_globals_def)

text \<open>A disk with one file that holds one block of 80 bytes, and the scan step that reads it.\<close>

definition one_block :: disk where
  "one_block i = (if i = 0 then Some (store32 MAGIC_ID @ store32 80 @ replicate 80 0) else None)"

definition one_block_start :: block_chain where
  "one_block_start = (case BlockChainImpl Debug one_block 10 (block_on []) (block_on []) [] [] [] no_globals of Inr s \<Rightarrow> s)"

lemma one_block_start: "BlockChainImpl Debug one_block 10 (block_on []) (block_on []) [] [] [] no_globals = Ok one_block_start"
  by (simp add: one_block_start_def BlockChainImpl_state no_globals_def)

lemma one_block_state: "mBlockIndex one_block_start = 0 \<and> mScanCount one_block_start = 0 \<and>
    mMaxBlocks one_block_start = 10 \<and> mBlockHeaderSet one_block_start = [] \<and>
    mBlockDataFiles one_block_start = [\<lparr>file_data = store32 MAGIC_ID @ store32 80 @ replicate 80 0, file_pos = 0\<rparr>]"
  by (simp add: one_block_start_def BlockChainImpl_state no_globals_def openBlock_def one_block_def log_bc_def current_file_def)

lemma one_block_step:
  "\<exists>s' h. scanBlockChain Debug one_block 0 one_block_start = Ok (False, 0, s') \<and> mScanCount s' = 1 \<and> mBlockHeaderSet s' = [h] \<and>
     mLastBlockHeader s' = h \<and> mFileIndex h = 0 \<and> mFileOffset h = 8 \<and> mBlockLength h = 80 \<and>
     hash256.truncate h = Hash256 (sha256_spec (sha256_spec (replicate 80 0)))"
  by (simp add: one_block_state scanBlockChain_def readBlockHeader_def read_header_def read_current_def fread_def set_file_def
      current_file_def Let_def ftell_def bind_result_def seek_current_def fseek_def MAX_BLOCK_SIZE_def double_sha
      set_insert_def set_find_def)

theorem scanBlockChain_invariant_witness:
  "\<exists>s' h. scan_inv one_block 1 one_block_start \<and> scanBlockChain Debug one_block 0 one_block_start = Ok (False, 0, s') \<and>
     scan_inv one_block 1 s' \<and> mScanCount s' = mScanCount one_block_start + 1 \<and> mBlockHeaderSet s' = [h] \<and>
     mFileOffset h = 8 \<and> mBlockLength h = 80"
proof -
  have "one_block 1 = None" "\<forall>i d. one_block i = Some d \<longrightarrow> length d < 2 ^ 32" by (auto simp: one_block_def)
  from scanBlockChain_invariant [OF scanned.start [OF one_block_start] this] one_block_step
  show ?thesis by fastforce
qed
end
