(* ===== verification/ScanFiles.thy ===== *)
theory ScanFiles
  imports BlockScan
begin

text \<open>
  What the scan of src/src/BlockChain.cpp finds in well-formed data files: a file is a sequence of
  frames, each a gap without a magic number, the magic number, the length and the block. Every block of
  every file gets its header, in order, with its place on disk.
\<close>

section \<open>Frames\<close>

definition frame :: "bytes \<times> bytes \<Rightarrow> bytes" where
  "frame x = fst x @ store32 MAGIC_ID @ store32 (word_of_nat (length (snd x))) @ snd x"

definition frame_ok :: "bytes \<times> bytes \<Rightarrow> bool" where
  "frame_ok x \<longleftrightarrow> 80 \<le> length (snd x) \<and> length (snd x) < MAX_BLOCK_SIZE \<and> length (fst x) + 4 \<le> MAX_BLOCK_SIZE \<and>
     (\<forall>j < length (fst x). take 4 (drop j (fst x @ store32 MAGIC_ID)) \<noteq> store32 MAGIC_ID)"

text \<open>The header of a block that stands, with its gap, at position \<open>p\<close> of file \<open>fi\<close>.\<close>

definition header_at :: "u32 \<Rightarrow> nat \<Rightarrow> bytes \<times> bytes \<Rightarrow> block_header" where
  "header_at fi p x = BlockHeader (Hash256 (sha256_spec (sha256_spec (take 80 (snd x))))) fi
     (word_of_nat (p + length (fst x) + 8)) (word_of_nat (length (snd x))) (take 32 (drop 4 (snd x)))"

text \<open>The state after a successful read: the cursor at \<open>p\<close>, the header \<open>h\<close> added.\<close>

definition lands :: "block_chain \<Rightarrow> block_chain \<Rightarrow> nat \<Rightarrow> block_header \<Rightarrow> bool" where
  "lands s s' p h \<longleftrightarrow> mBlockIndex s' = mBlockIndex s \<and> length (mBlockDataFiles s') = length (mBlockDataFiles s) \<and>
     current_file s' = (current_file s)\<lparr>file_pos := p\<rparr> \<and> mLastBlockHeader s' = h \<and>
     mBlockHeaderSet s' = set_insert h (mBlockHeaderSet s) \<and> mScanCount s' = mScanCount s \<and> mMaxBlocks s' = mMaxBlocks s"

text \<open>Only the position of the current file and the log have changed.\<close>

definition moved_to :: "block_chain \<Rightarrow> block_chain \<Rightarrow> nat \<Rightarrow> bool" where
  "moved_to s s' p \<longleftrightarrow> mBlockIndex s' = mBlockIndex s \<and> length (mBlockDataFiles s') = length (mBlockDataFiles s) \<and>
     current_file s' = (current_file s)\<lparr>file_pos := p\<rparr> \<and> mLastBlockHeader s' = mLastBlockHeader s \<and>
     mBlockHeaderSet s' = mBlockHeaderSet s \<and> mScanCount s' = mScanCount s \<and> mMaxBlocks s' = mMaxBlocks s"

lemma moved_to_lands: "moved_to s s1 q \<Longrightarrow> lands s1 s' p h \<Longrightarrow> lands s s' p h"
  by (simp add: moved_to_def lands_def)

lemma moved_lands:
  "moved_to s t p \<Longrightarrow> lands s (t\<lparr>mLastBlockHeader := h, mBlockHeaderSet := set_insert h (mBlockHeaderSet t)\<rparr>) p h"
  by (auto simp: lands_def moved_to_def current_file_def)

lemma moved_to_trans: "moved_to s s1 q \<Longrightarrow> moved_to s1 s2 p \<Longrightarrow> moved_to s s2 p"
  by (simp add: moved_to_def)

lemma moved_to_log [simp]: "moved_to s (log_bc e s1) p = moved_to s s1 p"
  by (simp add: moved_to_def log_bc_def current_file_def)

lemma moved_to_set_file: "has_file s \<Longrightarrow> file_data f = file_data (current_file s) \<Longrightarrow>
    moved_to s (set_file (unat (mBlockIndex s)) f s) (file_pos f)"
  by (simp add: moved_to_def current_file_def set_file_def)

lemma moved_to_seek: "has_file s \<Longrightarrow> moved_to s (seek_current p s) (unat p)"
  using moved_to_set_file [of s "fseek p (current_file s)"] by (simp add: seek_current_def fseek_def)

lemma drop_append_length: "drop p d = xs @ ys \<Longrightarrow> length xs = n \<Longrightarrow> drop (p + n) d = ys"
  by (metis add.commute append_eq_conv_conj drop_drop)

lemma length_from_drop: "drop p d = xs @ ys \<Longrightarrow> xs \<noteq> [] \<Longrightarrow> p + length xs \<le> length d"
proof -
  assume d: "drop p d = xs @ ys" "xs \<noteq> []"
  then have "length d - p = length xs + length ys" by (metis length_append length_drop)
  moreover have "p < length d" using d by (metis append_is_Nil_conv drop_all not_le)
  ultimately show ?thesis by simp
qed

lemma read_known:
  assumes "has_file s" "drop (file_pos (current_file s)) (file_data (current_file s)) = xs @ ys" "length xs = n" "0 < n"
  shows "\<exists>s'. read_current n s = (Some xs, s') \<and> moved_to s s' (file_pos (current_file s) + n)"
proof -
  let ?f = "current_file s"
  have "file_pos ?f + n \<le> length (file_data ?f)" using length_from_drop [OF assms(2)] assms(3,4) by auto
  then have "fread n ?f = (Some xs, ?f\<lparr>file_pos := file_pos ?f + n\<rparr>)" using assms(2-4) by (simp add: fread_def)
  then show ?thesis
    using moved_to_set_file [OF assms(1), of "?f\<lparr>file_pos := file_pos ?f + n\<rparr>"] by (simp add: read_current_def)
qed

lemma moved_to_keeps:
  assumes "moved_to s s' p"
  shows "has_file s \<Longrightarrow> has_file s'" "file_pos (current_file s') = p" "file_data (current_file s') = file_data (current_file s)"
    "mBlockIndex s' = mBlockIndex s"
  using assms by (simp_all add: moved_to_def)

lemma read_header_frame:
  assumes "has_file s" "drop (file_pos (current_file s)) (file_data (current_file s)) = store32 (word_of_nat (length b)) @ b @ ys"
    "80 \<le> length b" "length b < MAX_BLOCK_SIZE" "length (file_data (current_file s)) < 2 ^ 32"
  shows "\<exists>s'. read_header bld s = Ok (True, s') \<and> lands s s' (file_pos (current_file s) + 4 + length b)
    (BlockHeader (Hash256 (sha256_spec (sha256_spec (take 80 b)))) (mBlockIndex s) (word_of_nat (file_pos (current_file s) + 4))
       (word_of_nat (length b)) (take 32 (drop 4 b)))"
proof -
  let ?p = "file_pos (current_file s)" and ?d = "file_data (current_file s)"
  have b: "b = take 80 b @ drop 80 b" "length (take 80 b) = 80" using assms(3) by simp_all
  obtain s1 where s1: "read_current 4 s = (Some (store32 (word_of_nat (length b))), s1)" "moved_to s s1 (?p + 4)"
    using read_known [OF assms(1,2), of 4] by auto
  note k1 = moved_to_keeps [OF s1(2)]
  have d1: "drop (?p + 4) ?d = take 80 b @ drop 80 b @ ys"
    using drop_append_length [OF assms(2), of 4] b(1) by (metis append.assoc length_store32)
  obtain s2 where s2: "read_current 80 s1 = (Some (take 80 b), s2)" "moved_to s1 s2 (?p + 4 + 80)"
    using read_known [OF k1(1) [OF assms(1)], of "take 80 b" "drop 80 b @ ys" 80] d1 k1 b(2) by auto
  note k2 = moved_to_keeps [OF s2(2)]
  have len: "unat (word_of_nat (length b) :: u32) = length b"
    using assms(4) by (simp add: unat_of_nat MAX_BLOCK_SIZE_def)
  have whole: "drop (?p + 4) ?d = b @ ys" using d1 b(1) by (metis append.assoc)
  then have "?p + 4 + length b \<le> length ?d" using length_from_drop [OF whole] assms(3) by fastforce
  then have small: "?p + 4 + length b < 2 ^ 32" using assms(5) by simp
  let ?to = "ftell (current_file s2) + (word_of_nat (length b) - 80)"
  have eq: "?to = word_of_nat (?p + 4 + length b)" using k2(2) by (simp add: ftell_def)
  have to: "unat ?to = ?p + 4 + length b" unfolding eq by (rule unat_word32_of_nat) (use small in simp)
  have s3: "moved_to s (seek_current ?to s2) (?p + 4 + length b)"
    using moved_to_trans [OF moved_to_trans [OF s1(2) s2(2)] moved_to_seek [OF k2(1) [OF k1(1) [OF assms(1)]]], of ?to]
    unfolding to .
  define s3 where "s3 = seek_current ?to s2"
  define h where "h = BlockHeader (Hash256 (sha256_spec (sha256_spec (take 80 b)))) (mBlockIndex s) (word_of_nat (?p + 4))
       (word_of_nat (length b)) (take 32 (drop 4 b))"
  have off: "ftell (current_file s1) = word_of_nat (?p + 4)" using k1(2) by (simp add: ftell_def)
  have prev: "take 32 (drop 4 (take 80 b)) = take 32 (drop 4 b)" by (simp add: drop_take)
  have "read_header bld s = Ok (True, s3\<lparr>mLastBlockHeader := h, mBlockHeaderSet := set_insert h (mBlockHeaderSet s3)\<rparr>)"
    using len assms(4)
    by (simp add: read_header_def s1(1) s2(1) Let_def off double_sha [OF b(2)] prev h_def s3_def del: of_nat_add)
  moreover have "lands s (s3\<lparr>mLastBlockHeader := h, mBlockHeaderSet := set_insert h (mBlockHeaderSet s3)\<rparr>) (?p + 4 + length b) h"
    unfolding s3_def by (rule moved_lands [OF s3])
  ultimately show ?thesis unfolding h_def by blast
qed

lemma found_frame:
  assumes "frame_ok (g, b)" "temp = take MAX_BLOCK_SIZE (frame (g, b) @ ys)"
  shows "find_magic temp 0 (length temp) = Ok (Some (length g))"
proof -
  have ok: "length g + 4 \<le> MAX_BLOCK_SIZE" "\<forall>j < length g. take 4 (drop j (g @ store32 MAGIC_ID)) \<noteq> store32 MAGIC_ID"
    using assms(1) by (simp_all add: frame_ok_def)
  have four: "take 4 (drop j temp) = take 4 (drop j (g @ store32 MAGIC_ID))" if "j \<le> length g" for j
    using that ok(1) unfolding assms(2) frame_def by (simp add: drop_take min_def)
  have len: "length g + 4 \<le> length temp" using ok(1) by (simp add: assms(2) frame_def)
  have none: "temp_word temp (0 + j) \<noteq> MAGIC_ID" if "j < length g" for j
    using that ok(2) four [of j] by (simp add: temp_word_magic magic_bytes)
  have "take 4 (drop (length g) temp) = store32 MAGIC_ID" using four [of "length g"] by simp
  then have hit: "temp_word temp (length g) = MAGIC_ID" using len by (simp add: temp_word_magic magic_bytes)
  obtain n where n: "length temp - length g = Suc n" using len by (cases "length temp - length g") auto
  have "find_magic temp 0 (length temp) = find_magic temp (length g) (length temp - length g)"
    using find_magic_none [of "length g" temp 0 "length temp"] none ok(1) len by simp
  also have "\<dots> = Ok (Some (length g))" using hit ok(1) by (simp add: n)
  finally show ?thesis .
qed

text \<open>One step inside of a file, and one step from the end of a file into the next.\<close>

lemma readBlockHeader_frame:
  assumes "has_file s" "drop (file_pos (current_file s)) (file_data (current_file s)) = frame x @ ys" "frame_ok x"
    "length (file_data (current_file s)) < 2 ^ 32"
  shows "\<exists>s'. readBlockHeader bld disk s = Ok (True, s') \<and>
    lands s s' (file_pos (current_file s) + length (frame x)) (header_at (mBlockIndex s) (file_pos (current_file s)) x)"
proof -
  let ?p = "file_pos (current_file s)" and ?d = "file_data (current_file s)"
  obtain g b where x: "x = (g, b)" by (cases x)
  have b: "80 \<le> length b" "length b < MAX_BLOCK_SIZE" using assms(3) by (simp_all add: x frame_ok_def)
  define first where "first = take 4 (frame x)"
  have first: "frame x = first @ drop 4 (frame x)" "length first = 4"
    by (simp_all only: first_def append_take_drop_id) (simp add: frame_def)
  obtain s1 where s1: "read_current 4 s = (Some first, s1)" "moved_to s s1 (?p + 4)"
    using read_known [OF assms(1), of first "drop 4 (frame x) @ ys" 4] assms(2) first by (metis append.assoc zero_less_numeral)
  note k1 = moved_to_keeps [OF s1(2)]
  have fp: "?p + length (frame x) \<le> length ?d" 
    by (rule length_from_drop [OF assms(2)]) (simp add: frame_def store32_def)
  then have small: "?p < 2 ^ 32" "?p + length g < 2 ^ 32" using assms(4) by (simp_all add: frame_def x)
  have tell: "unat (ftell (current_file s)) = ?p"
    unfolding ftell_def by (rule unat_word32_of_nat) (use small(1) in simp)
  \<comment> \<open>right behind the magic number in any case\<close>
  have "\<exists>s2. (if load_le first \<noteq> MAGIC_ID then scan_for_header bld disk (ftell (current_file s)) s1 else Ok (True, s1)) = Ok (True, s2) \<and>
      moved_to s s2 (?p + length g + 4)"
  proof (cases "load_le first = MAGIC_ID")
    case True
    then have "first = store32 MAGIC_ID" using first(2) by (simp add: load_magic magic_bytes)
    then have "take 4 (drop 0 (g @ store32 MAGIC_ID)) = store32 MAGIC_ID" by (simp add: first_def frame_def x)
    then have "g = []" using assms(3) unfolding x frame_ok_def by (metis fst_conv length_greater_0_conv)
    then show ?thesis using s1(2) True by simp
  next
    case False
    define s2 where "s2 = log_bc LogMissingHeader (seek_current (ftell (current_file s)) s1)"
    have m2: "moved_to s s2 ?p"
      using moved_to_trans [OF s1(2) moved_to_seek [OF k1(1) [OF assms(1)]], of "ftell (current_file s)"] tell
      by (simp add: s2_def)
    note k2 = moved_to_keeps [OF m2]
    define temp where "temp = take MAX_BLOCK_SIZE (frame (g, b) @ ys)"
    define f where "f = (current_file s2)\<lparr>file_pos := ?p + length temp\<rparr>"
    have fr: "fread_some MAX_BLOCK_SIZE (current_file s2) = (temp, f)"
      using k2 assms(2) by (simp add: fread_some_def Let_def f_def temp_def x)
    define s3 where "s3 = log_bc (LogSkipped (word_of_nat (length g))) (set_file (unat (mBlockIndex s2)) f s2)"
    have m3: "moved_to s s3 (?p + length temp)"
      using moved_to_trans [OF m2 moved_to_set_file [OF k2(1) [OF assms(1)], of f]] by (simp add: s3_def f_def)
    note k3 = moved_to_keeps [OF m3]
    define s4 where "s4 = seek_current (ftell (current_file s) + word_of_nat (length g)) s3"
    have to: "unat (ftell (current_file s) + word_of_nat (length g)) = ?p + length g"
      using unat_add_small [of "ftell (current_file s)" "length g"] small(2) tell by simp
    have m4: "moved_to s s4 (?p + length g)"
      using moved_to_trans [OF m3 moved_to_seek [OF k3(1) [OF assms(1)]], of "ftell (current_file s) + word_of_nat (length g)"] to
      by (simp add: s4_def)
    note k4 = moved_to_keeps [OF m4]
    have "drop (?p + length g) ?d = store32 MAGIC_ID @ store32 (word_of_nat (length b)) @ b @ ys"
      using drop_append_length [of ?p ?d g _ "length g"] assms(2) by (simp add: frame_def x)
    then obtain s5 where s5: "read_current 4 s4 = (Some (store32 MAGIC_ID), s5)" "moved_to s4 s5 (?p + length g + 4)"
      using read_known [OF k4(1) [OF assms(1)], of "store32 MAGIC_ID" "store32 (word_of_nat (length b)) @ b @ ys" 4] k4 by auto
    have "scan_for_header bld disk (ftell (current_file s)) s1 = Ok (True, s5)"
      using found_frame [OF assms(3) [unfolded x] temp_def]
      unfolding scan_for_header_def s2_def [symmetric] Let_def fr prod.case
      by (simp add: s3_def [symmetric] s4_def [symmetric] s5(1))
    then show ?thesis using False moved_to_trans [OF m4 s5(2)] by auto
  qed
  then obtain s2 where s2: "(if load_le first \<noteq> MAGIC_ID then scan_for_header bld disk (ftell (current_file s)) s1 else Ok (True, s1)) = Ok (True, s2)"
    "moved_to s s2 (?p + length g + 4)" by blast
  note k2 = moved_to_keeps [OF s2(2)]
  have "drop (?p + length g + 4) ?d = store32 (word_of_nat (length b)) @ b @ ys"
    using drop_append_length [of ?p ?d "g @ store32 MAGIC_ID" _ "length g + 4"] assms(2) by (simp add: frame_def x add.assoc)
  then obtain s3 where s3: "read_header bld s2 = Ok (True, s3)" "lands s2 s3 (?p + length g + 4 + 4 + length b)
    (BlockHeader (Hash256 (sha256_spec (sha256_spec (take 80 b)))) (mBlockIndex s2) (word_of_nat (?p + length g + 4 + 4))
       (word_of_nat (length b)) (take 32 (drop 4 b)))"
    using read_header_frame [OF k2(1) [OF assms(1)], of b ys bld] k2 b assms(4) by auto
  have pos: "?p + length g + 4 + 4 = ?p + length g + 8" "?p + length (frame (g, b)) = ?p + length g + 8 + length b"
    by (simp_all add: frame_def)
  have h: "lands s s3 (?p + length (frame x)) (header_at (mBlockIndex s) ?p x)"
    using moved_to_lands [OF s2(2) s3(2)] unfolding header_at_def pos x fst_conv snd_conv k2(4) .
  have "readBlockHeader bld disk s = Ok (True, s3)"
    using assms(1) s2(1) s3(1) by (simp add: readBlockHeader_def s1(1))
  with h show ?thesis by blast
qed

definition at_file :: "block_chain \<Rightarrow> nat \<Rightarrow> nat \<Rightarrow> bytes \<Rightarrow> bool" where
  "at_file s fi p d \<longleftrightarrow> mBlockIndex s = word_of_nat fi \<and> length (mBlockDataFiles s) = fi + 1 \<and>
     current_file s = \<lparr>file_data = d, file_pos = p\<rparr>"

text \<open>What a step adds: one header, nothing else that the scan looks at.\<close>

definition adds :: "block_chain \<Rightarrow> block_chain \<Rightarrow> block_header \<Rightarrow> bool" where
  "adds s s' h \<longleftrightarrow> mLastBlockHeader s' = h \<and> mBlockHeaderSet s' = set_insert h (mBlockHeaderSet s) \<and>
     mScanCount s' = mScanCount s \<and> mMaxBlocks s' = mMaxBlocks s"

lemma at_file_has_file: "at_file s fi p d \<Longrightarrow> fi + 1 < 2 ^ 32 \<Longrightarrow> has_file s"
  by (simp add: at_file_def unat_of_nat)

lemma step_inside:
  assumes "at_file s fi p d" "drop p d = frame x @ ys" "frame_ok x" "length d < 2 ^ 32" "fi + 1 < 2 ^ 32"
  shows "\<exists>s'. readBlockHeader bld disk s = Ok (True, s') \<and> at_file s' fi (p + length (frame x)) d \<and>
    adds s s' (header_at (word_of_nat fi) p x)"
  using readBlockHeader_frame [of s x ys bld disk] at_file_has_file [OF assms(1,5)] assms
  by (auto simp: at_file_def lands_def adds_def)

lemma read_at_end:
  assumes "at_file s fi (length d) d" "fi + 1 < 2 ^ 32"
  shows "\<exists>s'. read_current 4 s = (None, s') \<and> moved_to s s' (length d)"
  using assms(1) moved_to_set_file [OF at_file_has_file [OF assms], of "\<lparr>file_data = d, file_pos = length d\<rparr>"]
  by (simp add: read_current_def fread_def at_file_def)

lemma step_next_file:
  assumes "at_file s fi (length d) d" "fi + 2 < 2 ^ 32" "disk (word_of_nat (fi + 1)) = Some d'" "d' = frame x @ ys"
    "frame_ok x" "fst x = []" "length d' < 2 ^ 32"
  shows "\<exists>s'. readBlockHeader bld disk s = Ok (True, s') \<and> at_file s' (fi + 1) (length (frame x)) d' \<and>
    adds s s' (header_at (word_of_nat (fi + 1)) 0 x)"
proof -
  let ?i = "word_of_nat (fi + 1) :: u32" and ?b = "snd x"
  have hf: "has_file s" using at_file_has_file assms(1,2) by simp
  obtain s1 where s1: "read_current 4 s = (None, s1)" "moved_to s s1 (length d)"
    using read_at_end [OF assms(1)] assms(2) by auto
  define s2 where "s2 = snd (openBlock disk s1)"
  have len1: "length (mBlockDataFiles s1) = fi + 1" using s1(2) assms(1) by (simp add: moved_to_def at_file_def)
  have i: "unat ?i = fi + 1" by (rule unat_word32_of_nat) (use assms(2) in simp)
  have s2e: "s2 = log_bc (LogOpened ?i) (s1\<lparr>mBlockIndex := ?i, mFileLength := word_of_nat (length d'),
      mBlockDataFiles := mBlockDataFiles s1 @ [\<lparr>file_data = d', file_pos = 0\<rparr>]\<rparr>)" "fst (openBlock disk s1)"
    using assms(3) by (simp_all add: s2_def openBlock_def Let_def len1)
  have s2: "openBlock disk s1 = (True, s2)" "mBlockIndex s2 = ?i" "length (mBlockDataFiles s2) = fi + 2"
    "current_file s2 = \<lparr>file_data = d', file_pos = 0\<rparr>" "mLastBlockHeader s2 = mLastBlockHeader s"
    "mBlockHeaderSet s2 = mBlockHeaderSet s" "mScanCount s2 = mScanCount s" "mMaxBlocks s2 = mMaxBlocks s"
  proof -
    show "openBlock disk s1 = (True, s2)" using s2e(2) by (cases "openBlock disk s1") (simp add: s2_def)
    show "mBlockIndex s2 = ?i" "length (mBlockDataFiles s2) = fi + 2"
      "current_file s2 = \<lparr>file_data = d', file_pos = 0\<rparr>"
      using i len1 by (simp_all add: s2e(1) log_bc_def current_file_def nth_append)
    show "mLastBlockHeader s2 = mLastBlockHeader s" "mBlockHeaderSet s2 = mBlockHeaderSet s" "mScanCount s2 = mScanCount s"
      "mMaxBlocks s2 = mMaxBlocks s"
      using s1(2) by (simp_all add: s2e(1) log_bc_def moved_to_def)
  qed
  have hf2: "has_file s2" using s2(2,3) i by simp
  have parts: "d' = store32 MAGIC_ID @ store32 (word_of_nat (length ?b)) @ ?b @ ys" using assms(4,6) by (simp add: frame_def)
  obtain s3 where s3: "read_current 4 s2 = (Some (store32 MAGIC_ID), s3)" "moved_to s2 s3 4"
    using read_known [OF hf2, of "store32 MAGIC_ID" _ 4] s2(4) parts by auto
  note k3 = moved_to_keeps [OF s3(2)]
  have b: "80 \<le> length ?b" "length ?b < MAX_BLOCK_SIZE" using assms(5) by (simp_all add: frame_ok_def)
  have "drop 4 d' = store32 (word_of_nat (length ?b)) @ ?b @ ys" unfolding parts by simp
  then obtain s4 where s4: "read_header bld s3 = Ok (True, s4)" "lands s3 s4 (4 + 4 + length ?b)
    (BlockHeader (Hash256 (sha256_spec (sha256_spec (take 80 ?b)))) (mBlockIndex s3) (word_of_nat (4 + 4))
       (word_of_nat (length ?b)) (take 32 (drop 4 ?b)))"
    using read_header_frame [OF k3(1) [OF hf2], of ?b ys bld] k3 s2(4) b assms(7) by auto
  have "lands s2 s4 (length (frame x)) (header_at ?i 0 x)"
    using moved_to_lands [OF s3(2) s4(2)] assms(6) k3(4) s2(2) by (simp add: frame_def header_at_def)
  moreover have "readBlockHeader bld disk s = Ok (True, s4)"
    using hf s4(1) by (simp add: readBlockHeader_def s1(1) s2(1) s3(1))
  ultimately show ?thesis using s2 by (auto simp: lands_def at_file_def adds_def)
qed

lemma step_end:
  assumes "at_file s fi (length d) d" "fi + 1 < 2 ^ 32" "disk (word_of_nat (fi + 1)) = None"
  shows "\<exists>s'. readBlockHeader bld disk s = Ok (False, s') \<and> mLastBlockHeader s' = mLastBlockHeader s \<and>
    mBlockHeaderSet s' = mBlockHeaderSet s \<and> mScanCount s' = mScanCount s"
proof -
  obtain s1 where s1: "read_current 4 s = (None, s1)" "moved_to s s1 (length d)"
    using read_at_end [OF assms(1,2)] by auto
  have "length (mBlockDataFiles s1) = fi + 1" using s1(2) assms(1) by (simp add: moved_to_def at_file_def)
  then have "openBlock disk s1 = (False, log_bc (LogOpenFailed (word_of_nat (fi + 1))) (s1\<lparr>mBlockIndex := word_of_nat (fi + 1)\<rparr>))"
    using assms(3) by (simp add: openBlock_def Let_def)
  then have "readBlockHeader bld disk s =
      Ok (False, log_bc (LogOpenFailed (word_of_nat (fi + 1))) (s1\<lparr>mBlockIndex := word_of_nat (fi + 1)\<rparr>))"
    using at_file_has_file [OF assms(1,2)] by (simp add: readBlockHeader_def s1(1))
  then show ?thesis using s1(2) by (simp add: moved_to_def log_bc_def)
qed

section \<open>The whole scan\<close>

text \<open>The loop of a client: \<open>scanBlockChain\<close> until it says it is complete, \<open>n\<close> times at most.\<close>

fun scan_loop :: "nat \<Rightarrow> build \<Rightarrow> disk \<Rightarrow> u32 \<Rightarrow> block_chain \<Rightarrow> (u32 \<times> block_chain) option result" where
  "scan_loop 0 bld disk lst s = Ok None"
| "scan_loop (Suc n) bld disk lst s =
     bind_result (scanBlockChain bld disk lst s) (\<lambda>(fin, lst, s).
       if fin then Ok (Some (lst, s)) else scan_loop n bld disk lst s)"

fun headers_of :: "nat \<Rightarrow> nat \<Rightarrow> (bytes \<times> bytes) list \<Rightarrow> block_header list" where
  "headers_of fi p [] = []"
| "headers_of fi p (x # fs) = header_at (word_of_nat fi) p x # headers_of fi (p + length (frame x)) fs"

fun all_headers :: "nat \<Rightarrow> (bytes \<times> bytes) list list \<Rightarrow> block_header list" where
  "all_headers fi [] = []"
| "all_headers fi (f # fs) = headers_of fi 0 f @ all_headers (fi + 1) fs"

abbreviation file_of :: "(bytes \<times> bytes) list \<Rightarrow> bytes" where
  "file_of f \<equiv> concat (map frame f)"

text \<open>A file after the first: not empty, no gap at its start.\<close>

definition later_ok :: "(bytes \<times> bytes) list \<Rightarrow> bool" where
  "later_ok f \<longleftrightarrow> f \<noteq> [] \<and> fst (hd f) = [] \<and> (\<forall>x \<in> set f. frame_ok x) \<and> length (file_of f) < 2 ^ 32"

lemma scan_counts:
  assumes "readBlockHeader bld disk s = Ok (True, s1)" "adds s s1 h" "unat (mScanCount s) < unat (mMaxBlocks s)"
    "s2 = s1\<lparr>mScanCount := mScanCount s + 1\<rparr>"
  shows "scan_loop (Suc n) bld disk lst s = scan_loop n bld disk (mScanCount s) s2"
    "unat (mScanCount s2) = unat (mScanCount s) + 1"
    "mBlockHeaderSet s2 = set_insert h (mBlockHeaderSet s)" "mLastBlockHeader s2 = h" "mMaxBlocks s2 = mMaxBlocks s"
    "at_file s1 fi p d \<Longrightarrow> at_file s2 fi p d"
proof -
  have "unat (mMaxBlocks s) < 2 ^ 32" using unsigned_less [of "mMaxBlocks s"] by simp
  then show "unat (mScanCount s2) = unat (mScanCount s) + 1"
    using unat_add_small [of "mScanCount s" 1] assms(3,4) by simp
  have "mScanCount s < mMaxBlocks s" using assms(3) by (simp add: word_less_nat_alt)
  then show "scan_loop (Suc n) bld disk lst s = scan_loop n bld disk (mScanCount s) s2"
    using assms(1,2,4) by (simp add: scanBlockChain_def adds_def)
  show "mBlockHeaderSet s2 = set_insert h (mBlockHeaderSet s)" "mLastBlockHeader s2 = h" "mMaxBlocks s2 = mMaxBlocks s"
    using assms(2,4) by (simp_all add: adds_def)
  show "at_file s1 fi p d \<Longrightarrow> at_file s2 fi p d" using assms(4) by (auto simp: at_file_def current_file_def)
qed

lemma scan_inside:
  assumes "at_file s fi p d" "drop p d = file_of fs" "\<forall>x \<in> set fs. frame_ok x" "length d < 2 ^ 32"
    "fi + 1 < 2 ^ 32" "unat (mScanCount s) + length fs \<le> unat (mMaxBlocks s)"
  shows "\<exists>lst' s'. scan_loop (length fs + n) bld disk lst s = scan_loop n bld disk lst' s' \<and>
    at_file s' fi (p + length (file_of fs)) d \<and> mBlockHeaderSet s' = fold set_insert (headers_of fi p fs) (mBlockHeaderSet s) \<and>
    mLastBlockHeader s' = last (mLastBlockHeader s # headers_of fi p fs) \<and>
    unat (mScanCount s') = unat (mScanCount s) + length fs \<and> mMaxBlocks s' = mMaxBlocks s"
  using assms
proof (induction fs arbitrary: s p lst)
  case (Cons x fs)
  have d: "drop p d = frame x @ file_of fs" using Cons.prems(2) by simp
  obtain s1 where s1: "readBlockHeader bld disk s = Ok (True, s1)" "at_file s1 fi (p + length (frame x)) d"
    "adds s s1 (header_at (word_of_nat fi) p x)"
    using step_inside [OF Cons.prems(1) d _ Cons.prems(4,5), of bld disk] Cons.prems(3) by auto
  define s2 where "s2 = s1\<lparr>mScanCount := mScanCount s + 1\<rparr>"
  have "unat (mScanCount s) < unat (mMaxBlocks s)" using Cons.prems(6) by simp
  note c = scan_counts [OF s1(1,3) this s2_def]
  obtain lst' s' where "scan_loop (length fs + n) bld disk (mScanCount s) s2 = scan_loop n bld disk lst' s' \<and>
    at_file s' fi (p + length (frame x) + length (file_of fs)) d \<and>
    mBlockHeaderSet s' = fold set_insert (headers_of fi (p + length (frame x)) fs) (mBlockHeaderSet s2) \<and>
    mLastBlockHeader s' = last (mLastBlockHeader s2 # headers_of fi (p + length (frame x)) fs) \<and>
    unat (mScanCount s') = unat (mScanCount s2) + length fs \<and> mMaxBlocks s' = mMaxBlocks s2"
    using Cons.IH [OF c(6) [OF s1(2)], of "mScanCount s"] drop_append_length [OF d] Cons.prems c(2,5) by auto
  then show ?case using c(1) [of "length fs + n" lst] c(2-5)
    by (intro exI [of _ lst'] exI [of _ s']) (auto simp: add.assoc)
qed auto

lemma scan_rest:
  assumes "at_file s fi p d" "drop p d = file_of fs" "p \<le> length d" "\<forall>x \<in> set fs. frame_ok x" "length d < 2 ^ 32"
    "fi + length rest + 1 < 2 ^ 32" "\<forall>i < length rest. disk (word_of_nat (fi + 1 + i)) = Some (file_of (rest ! i))"
    "disk (word_of_nat (fi + 1 + length rest)) = None" "\<forall>f \<in> set rest. later_ok f"
    "unat (mScanCount s) + length (fs @ concat rest) \<le> unat (mMaxBlocks s)"
  shows "\<exists>lst' s'. scan_loop (Suc (length (fs @ concat rest))) bld disk lst s = Ok (Some (lst', s')) \<and>
    mBlockHeaderSet s' = fold set_insert (headers_of fi p fs @ all_headers (fi + 1) rest) (mBlockHeaderSet s) \<and>
    mLastBlockHeader s' = last (mLastBlockHeader s # headers_of fi p fs @ all_headers (fi + 1) rest) \<and>
    unat (mScanCount s') = unat (mScanCount s) + length (fs @ concat rest)"
  using assms
proof (induction rest arbitrary: s fi p d fs lst)
  case Nil
  obtain lst1 s1 where s1: "scan_loop (length fs + 1) bld disk lst s = scan_loop 1 bld disk lst1 s1"
    "at_file s1 fi (p + length (file_of fs)) d" "mBlockHeaderSet s1 = fold set_insert (headers_of fi p fs) (mBlockHeaderSet s)"
    "mLastBlockHeader s1 = last (mLastBlockHeader s # headers_of fi p fs)"
    "unat (mScanCount s1) = unat (mScanCount s) + length fs"
    using scan_inside [OF Nil.prems(1,2,4,5), where n = 1 and bld = bld and disk = disk and lst = lst] Nil.prems(6,10) by auto
  have "p + length (file_of fs) = length d" using Nil.prems(2,3) by (metis le_add_diff_inverse length_drop)
  then obtain s2 where "readBlockHeader bld disk s1 = Ok (False, s2) \<and> mLastBlockHeader s2 = mLastBlockHeader s1 \<and>
      mBlockHeaderSet s2 = mBlockHeaderSet s1 \<and> mScanCount s2 = mScanCount s1"
    using step_end [of s1 fi d disk bld] s1(2) Nil.prems(6,8) by auto
  then have "scan_loop 1 bld disk lst1 s1 = Ok (Some (lst1, s2)) \<and> mLastBlockHeader s2 = mLastBlockHeader s1 \<and>
      mBlockHeaderSet s2 = mBlockHeaderSet s1 \<and> mScanCount s2 = mScanCount s1"
    by (simp add: scanBlockChain_def)
  with s1 show ?case by auto
next
  case (Cons f rest)
  have f: "f \<noteq> []" "fst (hd f) = []" "\<forall>x \<in> set f. frame_ok x" "length (file_of f) < 2 ^ 32"
    using Cons.prems(9) by (simp_all add: later_ok_def)
  then obtain x f' where x: "f = x # f'" by (cases f) auto
  obtain lst1 s1 where s1: "scan_loop (length fs + Suc (Suc (length (f' @ concat rest)))) bld disk lst s =
      scan_loop (Suc (Suc (length (f' @ concat rest)))) bld disk lst1 s1"
    "at_file s1 fi (p + length (file_of fs)) d" "mBlockHeaderSet s1 = fold set_insert (headers_of fi p fs) (mBlockHeaderSet s)"
    "mLastBlockHeader s1 = last (mLastBlockHeader s # headers_of fi p fs)"
    "unat (mScanCount s1) = unat (mScanCount s) + length fs" "mMaxBlocks s1 = mMaxBlocks s"
    using scan_inside [OF Cons.prems(1,2,4,5), where n = "Suc (Suc (length (f' @ concat rest)))" and bld = bld and disk = disk
      and lst = lst] Cons.prems(6,10) by auto
  have e: "p + length (file_of fs) = length d" using Cons.prems(2,3) by (metis le_add_diff_inverse length_drop)
  have dk: "disk (word_of_nat (fi + 1)) = Some (file_of f)" using Cons.prems(7) [rule_format, of 0] by simp
  obtain s2 where s2: "readBlockHeader bld disk s1 = Ok (True, s2)" "at_file s2 (fi + 1) (length (frame x)) (file_of f)"
    "adds s1 s2 (header_at (word_of_nat (fi + 1)) 0 x)"
    using step_next_file [of s1 fi d disk "file_of f" x "file_of f'" bld] s1(2) e dk Cons.prems(6) f x by auto
  define s3 where "s3 = s2\<lparr>mScanCount := mScanCount s1 + 1\<rparr>"
  have "unat (mScanCount s1) < unat (mMaxBlocks s1)" using Cons.prems(10) s1(5,6) x by simp
  note c = scan_counts [OF s2(1,3) this s3_def]
  have later: "disk (word_of_nat (fi + 1 + 1 + i)) = Some (file_of (rest ! i))" if "i < length rest" for i
    using Cons.prems(7) [rule_format, of "Suc i"] that by simp
  obtain lst' s' where r: "scan_loop (Suc (length (f' @ concat rest))) bld disk (mScanCount s1) s3 = Ok (Some (lst', s')) \<and>
    mBlockHeaderSet s' = fold set_insert (headers_of (fi + 1) (length (frame x)) f' @ all_headers (fi + 1 + 1) rest) (mBlockHeaderSet s3) \<and>
    mLastBlockHeader s' = last (mLastBlockHeader s3 # headers_of (fi + 1) (length (frame x)) f' @ all_headers (fi + 1 + 1) rest) \<and>
    unat (mScanCount s') = unat (mScanCount s3) + length (f' @ concat rest)"
    using Cons.IH [OF c(6) [OF s2(2)], of f' "mScanCount s1"] later Cons.prems(6,8-10) f x s1(5,6) c(2,5) by auto
  have n: "Suc (length (fs @ concat (f # rest))) = length fs + Suc (Suc (length (f' @ concat rest)))" by (simp add: x)
  show ?case
    using r c s1 unfolding n by (auto simp: x)
qed

text \<open>
  C4: the scan finds every block. When the data files blk00000.dat, ... are sequences of frames (a gap without magic
  number, the magic number, the length and the block; no gap at the start of a file but the first) with at most as many
  blocks as the scan was asked for, then scanning a newly created reader until it is complete ends after one step
  per block and one more, without a fault in either build. Its header set
  holds the header of each block of each file in order, with its file, offset, length, hash and
  previous hash, a block whose hash came before left out; the last header is that of the last block.
\<close>

theorem scan_finds_all_blocks:
  assumes "BlockChainImpl bld disk maxBlocks u v buf tbuf prev g = Ok s0"
    "\<forall>i. disk i = (if unat i < length files then Some (file_of (files ! unat i)) else None)"
    "files = f # rest" "\<forall>x \<in> set f. frame_ok x" "length (file_of f) < 2 ^ 32" "\<forall>f \<in> set rest. later_ok f"
    "length files < 2 ^ 32" "length (concat files) \<le> unat maxBlocks"
  shows "\<exists>lst s. scan_loop (Suc (length (concat files))) bld disk 0 s0 = Ok (Some (lst, s)) \<and>
    mBlockHeaderSet s = fold set_insert (all_headers 0 files) [] \<and>
    mLastBlockHeader s = last (mLastBlockHeader s0 # all_headers 0 files) \<and>
    unat (mScanCount s) = length (concat files)"
proof -
  have dk: "disk (word_of_nat i) = (if i < length files then Some (file_of (files ! i)) else None)" if "i \<le> length files" for i
    using assms(2) assms(7) that by (simp add: unat_word32_of_nat)
  have "disk 0 = Some (file_of f)" using dk [of 0] assms(3) by simp
  then have s0: "at_file s0 0 0 (file_of f)" "mBlockHeaderSet s0 = []" "mScanCount s0 = 0" "mMaxBlocks s0 = maxBlocks"
    using assms(1) by (auto simp: BlockChainImpl_def bind_result_eq_Inr openBlock_def log_bc_def at_file_def current_file_def)
  have "\<exists>lst' s'. scan_loop (Suc (length (f @ concat rest))) bld disk 0 s0 = Ok (Some (lst', s')) \<and>
    mBlockHeaderSet s' = fold set_insert (headers_of 0 0 f @ all_headers (0 + 1) rest) (mBlockHeaderSet s0) \<and>
    mLastBlockHeader s' = last (mLastBlockHeader s0 # headers_of 0 0 f @ all_headers (0 + 1) rest) \<and>
    unat (mScanCount s') = unat (mScanCount s0) + length (f @ concat rest)"
  proof (rule scan_rest [OF s0(1)])
    show "\<forall>i < length rest. disk (word_of_nat (0 + 1 + i)) = Some (file_of (rest ! i))"
    proof (intro allI impI)
      fix i assume "i < length rest"
      then show "disk (word_of_nat (0 + 1 + i)) = Some (file_of (rest ! i))" using dk [of "Suc i"] assms(3) by simp
    qed
    show "disk (word_of_nat (0 + 1 + length rest)) = None" using dk [of "length files"] assms(3) by simp
  qed (use assms s0 in simp_all)
  then show ?thesis using s0 assms(3) by simp
qed

text \<open>Two files: a block, then a gap and a block; and a block.\<close>

definition sample_files :: "(bytes \<times> bytes) list list" where
  "sample_files = [[([], replicate 80 1), ([7, 0xF9, 0xBE], replicate 90 2)], [([], replicate 81 3)]]"

definition sample_disk :: disk where
  "sample_disk i = (if unat i < length sample_files then Some (file_of (sample_files ! unat i)) else None)"

theorem scan_finds_all_blocks_witness:
  "\<exists>s0 lst s. BlockChainImpl Debug sample_disk 3 (block_on []) (block_on []) [] [] [] no_globals = Ok s0 \<and>
    scan_loop 4 Debug sample_disk 0 s0 = Ok (Some (lst, s)) \<and>
    mBlockHeaderSet s = fold set_insert (all_headers 0 sample_files) [] \<and>
    mLastBlockHeader s = header_at 1 0 ([], replicate 81 3) \<and> unat (mScanCount s) = 3"
proof -
  obtain s0 where s0: "BlockChainImpl Debug sample_disk 3 (block_on []) (block_on []) [] [] [] no_globals = Ok s0"
    by (simp add: BlockChainImpl_state no_globals_def)
  have gap: "frame_ok ([7, 0xF9, 0xBE], replicate 90 2)"
    unfolding frame_ok_def magic_bytes by (simp add: MAX_BLOCK_SIZE_def numeral_3_eq_3 All_less_Suc)
  have sample_frames: "frame_ok ([], replicate 80 1)" "frame_ok ([], replicate 81 3)"
    by (simp_all add: frame_ok_def MAX_BLOCK_SIZE_def)
  have "\<exists>lst s. scan_loop (Suc (length (concat sample_files))) Debug sample_disk 0 s0 = Ok (Some (lst, s)) \<and>
    mBlockHeaderSet s = fold set_insert (all_headers 0 sample_files) [] \<and>
    mLastBlockHeader s = last (mLastBlockHeader s0 # all_headers 0 sample_files) \<and>
    unat (mScanCount s) = length (concat sample_files)"
    by (rule scan_finds_all_blocks [OF s0, where f = "hd sample_files" and rest = "tl sample_files"])
      (use gap in \<open>simp_all add: sample_files_def sample_disk_def sample_frames later_ok_def frame_def\<close>)
  then show ?thesis using s0 by (simp add: sample_files_def numeral_eq_Suc)
qed
end
