(* ===== verification/ChainBuild.thy ===== *)
theory ChainBuild
  imports ScanFiles
begin

text \<open>
  \<open>buildBlockChain\<close> of src/src/BlockChain.cpp: from the last header scanned back along the previous hashes to the first
  block, leaving orphans out. Two loops that follow hashes through the header set may run forever in
  principle, so they are partial functions: \<open>None\<close> is a loop that does not end.
\<close>

section \<open>The two loops\<close>

definition previous :: "block_header list \<Rightarrow> block_header \<Rightarrow> block_header option" where
  "previous S h = set_find (Hash256 (mPreviousBlockHash h)) S"

partial_function (option) count_loop :: "block_header list \<Rightarrow> block_header option \<Rightarrow> u32 \<Rightarrow> u32 option" where
  "count_loop S found blockCount =
     (case found of
        None \<Rightarrow> Some blockCount
      | Some h \<Rightarrow> count_loop S (previous S h) (blockCount + 1))"

partial_function (option) fill_loop ::
  "block_header list \<Rightarrow> block_header option \<Rightarrow> u32 \<Rightarrow> block_header list \<Rightarrow> block_header list result option" where
  "fill_loop S found index arr =
     (case found of
        None \<Rightarrow> Some (Ok arr)
      | Some h \<Rightarrow>
          if unat index < length arr then fill_loop S (previous S h) (index - 1) (arr[unat index := h])
          else Some (Fault OutOfBounds))"

text \<open>\<open>fresh\<close> is the default header that \<open>new BlockHeader[blockCount]\<close> fills the array with.\<close>

definition buildBlockChain :: "block_header \<Rightarrow> block_chain \<Rightarrow> (u32 \<times> block_chain) result" where
  "buildBlockChain fresh s =
     (if mScanCount s \<noteq> 0 then
        let S = mBlockHeaderSet s;
            btotal = word_of_nat (length S);
            s = log_bc (LogHeadersTotal btotal) s;
            found = set_find (hash256.truncate (mLastBlockHeader s)) S
        in case count_loop S found 0 of
             None \<Rightarrow> Fault Diverges
           | Some blockCount \<Rightarrow>
               let s = log_bc (LogBlocksFound blockCount (btotal - blockCount)) s;
                   s = log_bc (LogGathering blockCount) s
               in case fill_loop S found (blockCount - 1) (replicate (unat blockCount) fresh) of
                    None \<Rightarrow> Fault Diverges
                  | Some r \<Rightarrow> bind_result r (\<lambda>hs.
                      Ok (blockCount, s\<lparr>mBlockChainHeaders := hs, mBlockCount := blockCount, mScanCount := 0\<rparr>))
      else Ok (0, s))"

section \<open>Walks along previous hashes\<close>

text \<open>The header reached after \<open>n\<close> steps back, and the walk that ends at a header whose predecessor is unknown.\<close>

fun ancestor :: "block_header list \<Rightarrow> nat \<Rightarrow> block_header option \<Rightarrow> block_header option" where
  "ancestor S 0 found = found"
| "ancestor S (Suc n) found = (case ancestor S n found of None \<Rightarrow> None | Some h \<Rightarrow> previous S h)"

fun walk :: "block_header list \<Rightarrow> block_header option \<Rightarrow> block_header list \<Rightarrow> bool" where
  "walk S found [] \<longleftrightarrow> found = None"
| "walk S found (h # hs) \<longleftrightarrow> found = Some h \<and> walk S (previous S h) hs"

lemma ancestor_Suc: "ancestor S (Suc n) (Some h) = ancestor S n (previous S h)"
  by (induction n) auto

lemma ancestor_None [simp]: "ancestor S n None = None"
  by (induction n) auto

lemma walk_back: "walk S found hs \<Longrightarrow> i < length hs \<Longrightarrow> ancestor S i found = Some (hs ! i)"
  by (induction hs arbitrary: found i) (auto simp: ancestor_Suc less_Suc_eq_0_disj simp del: ancestor.simps(2))

lemma walk_end: "walk S found hs \<Longrightarrow> ancestor S (length hs) found = None"
proof (induction hs arbitrary: found)
  case (Cons h hs)
  then show ?case by (simp add: ancestor_Suc del: ancestor.simps(2))
qed simp

lemma walk_exists: "ancestor S n found = None \<Longrightarrow> \<exists>hs. walk S found hs \<and> length hs \<le> n"
proof (induction n arbitrary: found)
  case (Suc n)
  show ?case
  proof (cases found)
    case None
    then show ?thesis by (intro exI [of _ "[]"]) simp
  next
    case (Some h)
    then have "ancestor S n (previous S h) = None" using Suc.prems by (simp add: ancestor_Suc del: ancestor.simps(2))
    then obtain hs where "walk S (previous S h) hs" "length hs \<le> n" using Suc.IH by blast
    then show ?thesis using Some by (intro exI [of _ "h # hs"]) simp
  qed
qed auto

lemma walk_unique: "walk S found hs \<Longrightarrow> walk S found hs' \<Longrightarrow> hs = hs'"
proof (induction hs arbitrary: found hs')
  case Nil
  then show ?case by (cases hs') auto
next
  case (Cons h hs)
  then show ?case by (cases hs') auto
qed

lemma previous_in: "previous S h = Some h' \<Longrightarrow> h' \<in> set S \<and> hash256.truncate h' = Hash256 (mPreviousBlockHash h)"
  using set_find_SomeD [of "Hash256 (mPreviousBlockHash h)" S h'] by (simp add: previous_def)

lemma walk_in: "walk S found hs \<Longrightarrow> (\<And>h. found = Some h \<Longrightarrow> h \<in> set S) \<Longrightarrow> set hs \<subseteq> set S"
  by (induction hs arbitrary: found) (auto dest: previous_in)

text \<open>A header that comes back within a walk would make it infinite, so no header occurs twice.\<close>

lemma ancestor_add: "ancestor S (m + n) found = ancestor S n (ancestor S m found)"
proof (induction n)
  case (Suc n)
  then show ?case by simp
qed simp

lemma walk_distinct:
  assumes "walk S found hs"
  shows "distinct hs"
proof -
  have no: "hs ! i \<noteq> hs ! j" if "i < j" "j < length hs" for i j
  proof
    assume eq: "hs ! i = hs ! j"
    have "ancestor S i found = ancestor S j found" using walk_back [OF assms] that eq by simp
    then have "ancestor S (i + (length hs - j)) found = ancestor S (j + (length hs - j)) found" by (simp add: ancestor_add)
    moreover have "ancestor S (j + (length hs - j)) found = None" using walk_end [OF assms] that by simp
    moreover have "ancestor S (i + (length hs - j)) found \<noteq> None" using walk_back [OF assms, of "i + (length hs - j)"] that by simp
    ultimately show False by simp
  qed
  then show ?thesis by (metis distinct_conv_nth linorder_neq_iff)
qed

lemma walk_length:
  assumes "walk S found hs" "\<And>h. found = Some h \<Longrightarrow> h \<in> set S"
  shows "length hs \<le> length S"
  using card_mono [OF finite_set walk_in [OF assms]] distinct_card [OF walk_distinct [OF assms(1)]] card_length [of S]
  by simp

section \<open>The loops follow the walk\<close>

lemma count_walk: "walk S found hs \<Longrightarrow> count_loop S found n = Some (n + word_of_nat (length hs))"
proof (induction hs arbitrary: found n)
  case (Cons h hs)
  then show ?case by (simp add: count_loop.simps [of S "Some h"] add.assoc)
qed (simp add: count_loop.simps)

lemma count_diverges:
  assumes "\<And>n. ancestor S n found \<noteq> None"
  shows "count_loop S found c = None"
proof (rule ccontr)
  assume "count_loop S found c \<noteq> None"
  then obtain r where r: "count_loop S found c = Some r" by auto
  have "\<exists>n. ancestor S n found = None"
  proof (rule count_loop.raw_induct [where P = "\<lambda>S found c r. \<exists>n. ancestor S n found = None", OF _ r])
    fix f :: "block_header list \<Rightarrow> block_header option \<Rightarrow> u32 \<Rightarrow> u32 option" and S found c r
    assume IH: "\<And>S found c r. f S found c = Some r \<Longrightarrow> \<exists>n. ancestor S n found = None"
      and eq: "(case found of None \<Rightarrow> Some c | Some h \<Rightarrow> f S (previous S h) (c + 1)) = Some r"
    show "\<exists>n. ancestor S n found = None"
    proof (cases found)
      case None
      then show ?thesis by (intro exI [of _ 0]) simp
    next
      case (Some h)
      then obtain n where "ancestor S n (previous S h) = None" using IH eq by fastforce
      then show ?thesis using Some by (intro exI [of _ "Suc n"]) (simp add: ancestor_Suc del: ancestor.simps(2))
    qed
  qed
  with assms show False by blast
qed

lemma fill_walk:
  assumes "walk S found hs" "length hs \<le> length arr" "length arr < 2 ^ 32"
  shows "fill_loop S found (word_of_nat (length hs) - 1) arr = Some (Ok (rev hs @ drop (length hs) arr))"
  using assms
proof (induction hs arbitrary: found arr)
  case (Cons h hs)
  have i: "unat (word_of_nat (length (h # hs)) - 1 :: u32) = length hs"
    using Cons.prems(2,3) by (simp add: unat_word32_of_nat)
  have w: "walk S (previous S h) hs" using Cons.prems(1) by simp
  have "fill_loop S (previous S h) (word_of_nat (length hs) - 1) (arr[length hs := h])
      = Some (Ok (rev hs @ drop (length hs) (arr[length hs := h])))"
    using Cons.IH [OF w, of "arr[length hs := h]"] Cons.prems(2,3) by simp
  moreover have "drop (length hs) (arr[length hs := h]) = h # drop (Suc (length hs)) arr"
    using Cons.prems(2) by (simp add: drop_update_swap flip: Cons_nth_drop_Suc)
  ultimately show ?case
    using Cons.prems(1,2) i by (subst fill_loop.simps) simp
qed (simp add: fill_loop.simps)

section \<open>The chain that is built\<close>

text \<open>
  A chain of headers, oldest first: each holds the hash of the one before, all are in the set and different, and the
  predecessor of the oldest is not in the set.
\<close>

definition chain :: "block_header list \<Rightarrow> block_header list \<Rightarrow> bool" where
  "chain S hs \<longleftrightarrow> set hs \<subseteq> set S \<and> distinct hs \<and>
     (\<forall>i. Suc i < length hs \<longrightarrow> hash256.truncate (hs ! i) = Hash256 (mPreviousBlockHash (hs ! Suc i))) \<and>
     (hs \<noteq> [] \<longrightarrow> previous S (hs ! 0) = None)"

lemma walk_links: "walk S found hs \<Longrightarrow> Suc i < length hs \<Longrightarrow> previous S (hs ! i) = Some (hs ! Suc i)"
  using walk_back [of S found hs i] walk_back [of S found hs "Suc i"] by simp

lemma walk_chain:
  assumes "walk S found hs" "\<And>h. found = Some h \<Longrightarrow> h \<in> set S"
  shows "chain S (rev hs)"
  unfolding chain_def
proof (intro conjI allI impI)
  show "set (rev hs) \<subseteq> set S" using walk_in [OF assms] by simp
  show "distinct (rev hs)" using walk_distinct [OF assms(1)] by simp
next
  fix i assume i: "Suc i < length (rev hs)"
  define j where "j = length hs - Suc (Suc i)"
  have j: "Suc j < length hs" "rev hs ! i = hs ! Suc j" "rev hs ! Suc i = hs ! j"
    using i by (simp_all add: j_def rev_nth Suc_diff_Suc)
  then show "hash256.truncate (rev hs ! i) = Hash256 (mPreviousBlockHash (rev hs ! Suc i))"
    using previous_in [OF walk_links [OF assms(1) j(1)]] by simp
next
  assume ne: "rev hs \<noteq> []"
  then obtain n where n: "length hs = Suc n" by (cases hs) auto
  have "previous S (hs ! n) = None" using walk_end [OF assms(1)] walk_back [OF assms(1), of n] n by simp
  then show "previous S (rev hs ! 0) = None" using ne n by (simp add: rev_nth)
qed

lemma buildBlockChain_walk:
  assumes "mScanCount s \<noteq> 0" "set_find (hash256.truncate (mLastBlockHeader s)) (mBlockHeaderSet s) = Some h"
    "walk (mBlockHeaderSet s) (Some h) hs" "length (mBlockHeaderSet s) < 2 ^ 32"
  shows "\<exists>s'. buildBlockChain fresh s = Ok (word_of_nat (length hs), s') \<and> mBlockChainHeaders s' = rev hs \<and>
    mBlockCount s' = word_of_nat (length hs) \<and> unat (mBlockCount s') = length hs \<and> mScanCount s' = 0 \<and>
    mBlockHeaderSet s' = mBlockHeaderSet s \<and> mBlockDataFiles s' = mBlockDataFiles s"
proof -
  have "h \<in> set (mBlockHeaderSet s)" using set_find_SomeD [OF assms(2)] by simp
  then have len: "length hs < 2 ^ 32" using walk_length [OF assms(3)] assms(4) by simp
  then have u: "unat (word_of_nat (length hs) :: u32) = length hs" by (simp add: unat_word32_of_nat)
  have "fill_loop (mBlockHeaderSet s) (Some h) (word_of_nat (length hs) - 1) (replicate (length hs) fresh) = Some (Ok (rev hs))"
    using fill_walk [OF assms(3), of "replicate (length hs) fresh"] len by simp
  then show ?thesis
    using count_walk [OF assms(3), of 0] assms(1,2) u by (simp add: buildBlockChain_def Let_def log_bc_def)
qed

text \<open>
  C6: what \<open>buildBlockChain\<close> builds. After a scan that has counted a block (so that the last header is in the
  set, by the invariant of the scan), if the walk back from the last header
  ends, the call returns without a fault, and the array holds a chain: it ends in the header in the
  set that has the last hash scanned, each header's previous hash is the hash of the header before it,
  no header occurs twice, all of them were scanned, and the block before the first is not known. The count returned and
  stored is the length of the array, and the scan count is reset.
\<close>

theorem buildBlockChain_chain:
  assumes "set_find (hash256.truncate (mLastBlockHeader s)) (mBlockHeaderSet s) \<noteq> None" "mScanCount s \<noteq> 0"
    "length (mBlockHeaderSet s) < 2 ^ 32"
    "ancestor (mBlockHeaderSet s) n (set_find (hash256.truncate (mLastBlockHeader s)) (mBlockHeaderSet s)) = None"
  shows "\<exists>s'. buildBlockChain fresh s = Ok (mBlockCount s', s') \<and> chain (mBlockHeaderSet s) (mBlockChainHeaders s') \<and>
    mBlockChainHeaders s' \<noteq> [] \<and>
    hash256.truncate (last (mBlockChainHeaders s')) = hash256.truncate (mLastBlockHeader s) \<and>
    unat (mBlockCount s') = length (mBlockChainHeaders s') \<and> mScanCount s' = 0"
proof -
  obtain h where h: "set_find (hash256.truncate (mLastBlockHeader s)) (mBlockHeaderSet s) = Some h"
    using assms(1) by auto
  then obtain hs where hs: "walk (mBlockHeaderSet s) (Some h) hs" using walk_exists assms(4) by metis
  then have "hs \<noteq> []" "hd hs = h" by (cases hs; auto)+
  then show ?thesis
    using buildBlockChain_walk [OF assms(2) h hs assms(3), of fresh] walk_chain [OF hs] set_find_SomeD [OF h]
    by (auto simp: last_rev)
qed

text \<open>
  C7: termination of \<open>buildBlockChain\<close>. It runs forever exactly when a block was counted and the walk back from the
  last header is still inside of the set after as many steps as the set has headers, that is when the
  previous hashes run in a circle; otherwise it returns.
\<close>

theorem buildBlockChain_diverges:
  assumes "length (mBlockHeaderSet s) < 2 ^ 32"
  shows "buildBlockChain fresh s = Fault Diverges \<longleftrightarrow> mScanCount s \<noteq> 0 \<and>
    ancestor (mBlockHeaderSet s) (length (mBlockHeaderSet s))
      (set_find (hash256.truncate (mLastBlockHeader s)) (mBlockHeaderSet s)) \<noteq> None"
proof -
  let ?S = "mBlockHeaderSet s"
  let ?f = "set_find (hash256.truncate (mLastBlockHeader s)) ?S"
  have mem: "\<And>h. ?f = Some h \<Longrightarrow> h \<in> set ?S" using set_find_SomeD by blast
  show ?thesis
  proof (cases "\<exists>n. ancestor ?S n ?f = None")
    case True
    then obtain hs where hs: "walk ?S ?f hs" using walk_exists by blast
    have "ancestor ?S (length ?S) ?f = None"
      using walk_end [OF hs] walk_length [OF hs mem] ancestor_add [of ?S "length hs" "length ?S - length hs" ?f] by simp
    moreover have "buildBlockChain fresh s \<noteq> Fault Diverges"
    proof (cases ?f)
      case None
      then show ?thesis by (auto simp: buildBlockChain_def Let_def log_bc_def count_loop.simps fill_loop.simps)
    next
      case (Some h)
      show ?thesis
      proof (cases "mScanCount s = 0")
        case True
        then show ?thesis by (simp add: buildBlockChain_def)
      next
        case False
        then show ?thesis using buildBlockChain_walk [OF False Some _ assms, of hs fresh] hs Some by auto
      qed
    qed
    ultimately show ?thesis by simp
  next
    case False
    have never: "ancestor ?S n ?f \<noteq> None" for n using False by simp
    have "count_loop ?S ?f 0 = None" by (rule count_diverges) (rule never)
    then show ?thesis using False by (auto simp: buildBlockChain_def Let_def log_bc_def)
  qed
qed

text \<open>Three headers: a first block, its successor, and an orphan.\<close>

definition sample_headers :: "block_header list" where
  "sample_headers = [BlockHeader (Hash256 (replicate 32 1)) 0 8 80 (replicate 32 0),
     BlockHeader (Hash256 (replicate 32 3)) 0 96 80 (replicate 32 9),
     BlockHeader (Hash256 (replicate 32 2)) 0 184 80 (replicate 32 1)]"

definition sample_chain :: block_chain where
  "sample_chain = empty_chain\<lparr>mBlockHeaderSet := sample_headers, mLastBlockHeader := sample_headers ! 2, mScanCount := 3\<rparr>"

definition circle_chain :: block_chain where
  "circle_chain = empty_chain\<lparr>mBlockHeaderSet := [BlockHeader (Hash256 (replicate 32 1)) 0 8 80 (replicate 32 1)],
     mLastBlockHeader := BlockHeader (Hash256 (replicate 32 1)) 0 8 80 (replicate 32 1), mScanCount := 1\<rparr>"

lemma replicate_hash_eq [simp]: "Hash256 (replicate 32 a) = Hash256 (replicate 32 b) \<longleftrightarrow> a = b"
  by (simp add: Hash256_inj)

lemma sample_ancestors:
  "set_find (hash256.truncate (mLastBlockHeader sample_chain)) (mBlockHeaderSet sample_chain) = Some (sample_headers ! 2)"
  "previous sample_headers (sample_headers ! 2) = Some (sample_headers ! 0)"
  "previous sample_headers (sample_headers ! 0) = None"
  by (simp_all add: sample_chain_def sample_headers_def set_find_eq previous_def)

theorem buildBlockChain_chain_witness:
  "\<exists>s'. buildBlockChain (sample_headers ! 0) sample_chain = Ok (mBlockCount s', s') \<and>
    chain sample_headers (mBlockChainHeaders s') \<and> mBlockChainHeaders s' \<noteq> [] \<and>
    hash256.truncate (last (mBlockChainHeaders s')) = Hash256 (replicate 32 2) \<and>
    unat (mBlockCount s') = length (mBlockChainHeaders s') \<and> mScanCount s' = 0"
proof -
  have s: "mBlockHeaderSet sample_chain = sample_headers" "mScanCount sample_chain = 3"
    "hash256.truncate (mLastBlockHeader sample_chain) = Hash256 (replicate 32 2)"
    by (simp_all add: sample_chain_def sample_headers_def)
  have "ancestor (mBlockHeaderSet sample_chain) 2
      (set_find (hash256.truncate (mLastBlockHeader sample_chain)) (mBlockHeaderSet sample_chain)) = None"
    unfolding sample_ancestors(1)
    by (simp add: s numeral_2_eq_2 sample_ancestors(2,3) [unfolded numeral_2_eq_2])
  from buildBlockChain_chain [OF _ _ _ this, of "sample_headers ! 0"] show ?thesis
    unfolding sample_ancestors(1) by (simp add: s sample_headers_def)
qed

theorem buildBlockChain_diverges_witness: "buildBlockChain (sample_headers ! 0) circle_chain = Fault Diverges"
proof -
  let ?h = "BlockHeader (Hash256 (replicate 32 1)) 0 8 80 (replicate 32 1)"
  have s: "mBlockHeaderSet circle_chain = [?h]" "mScanCount circle_chain = 1" "mLastBlockHeader circle_chain = ?h"
    by (simp_all add: circle_chain_def)
  show ?thesis
    using buildBlockChain_diverges [of circle_chain "sample_headers ! 0"] by (simp add: s set_find_eq previous_def)
qed
end
