(* ===== verification/TextSearch.thy ===== *)
theory TextSearch
  imports BlockScan
begin

text \<open>
  The search for text of \<open>readBlock\<close> in src/src/BlockChain.cpp, and what it reports. The text report is the list of what
  is written to it; \<open>can_open\<close> says whether AsciiTextReport.txt can be created.
\<close>

section \<open>The search for text\<close>

definition isASCII :: "u8 \<Rightarrow> bool" where
  "isASCII c \<longleftrightarrow> (32 \<le>s c \<and> c <s 127) \<or> c = 13"

text \<open>
  The inner loop: characters from \<open>scan\<close> on are copied while they are text and before \<open>end_scan\<close>; a place outside
  of the buffer is a fault. The character is read before the bound is tested.
\<close>

function text_run :: "bytes \<Rightarrow> nat \<Rightarrow> nat \<Rightarrow> bytes \<Rightarrow> (nat \<times> bytes) result" where
  "text_run buf end_scan scan dest =
     (if scan < length buf then
        if isASCII (buf ! scan) \<and> scan < end_scan then text_run buf end_scan (scan + 1) (dest @ [buf ! scan])
        else Ok (scan, dest)
      else Fault OutOfBounds)"
  by pat_completeness auto
termination by (relation "measure (\<lambda>(buf, end_scan, scan, dest). length buf - scan)") auto

declare text_run.simps [simp del]

record text_state =
  textCount :: u32
  lineCount :: u32
  totalCount :: u32
  report :: "report_item list option"

definition text_found :: "bool \<Rightarrow> u32 \<Rightarrow> u32 \<Rightarrow> bytes \<Rightarrow> text_state \<Rightarrow> text_state" where
  "text_found can_open index time scratch t =
     (let count = word_of_nat (length scratch);
          rep = (if textCount t = 0 then
                   let rep = (if report t = None \<and> can_open then Some [] else report t)
                   in map_option (\<lambda>r. r @ [ReportBlock index time]) rep
                 else report t);
          t = t\<lparr>textCount := textCount t + 1\<rparr>
      in case rep of
           None \<Rightarrow> t\<lparr>report := None\<rparr>
         | Some r \<Rightarrow>
             let r = r @ [ReportText scratch];
                 line = lineCount t + count;
                 t = t\<lparr>totalCount := totalCount t + count\<rparr>
             in if line > 80 then t\<lparr>report := Some (r @ [ReportNewline]), lineCount := 0\<rparr>
                else t\<lparr>report := Some r, lineCount := line\<rparr>)"

lemma text_run_moves: "text_run buf end_scan scan dest = Ok (scan', run) \<Longrightarrow> scan \<le> scan' \<and> scan' < length buf"
  by (induction buf end_scan scan dest rule: text_run.induct)
    (subst (asm) (2) text_run.simps, auto split: if_splits)

function text_scan :: "bool \<Rightarrow> u32 \<Rightarrow> u32 \<Rightarrow> u32 \<Rightarrow> bytes \<Rightarrow> nat \<Rightarrow> nat \<Rightarrow> text_state \<Rightarrow> text_state result" where
  "text_scan can_open index time minimum buf end_scan scan t =
     (if scan < end_scan then
        case text_run buf end_scan scan [] of
          Inl e \<Rightarrow> Inl e
        | Inr (scan', run) \<Rightarrow>
            text_scan can_open index time minimum buf end_scan (scan' + 1)
              (if length run \<ge> unat minimum then text_found can_open index time run t else t)
      else Ok t)"
  by pat_completeness auto
termination
  by (relation "measure (\<lambda>(can_open, index, time, minimum, buf, end_scan, scan, t). length buf - scan)")
    (auto dest!: text_run_moves)

declare text_scan.simps [simp del]

definition search_text :: "bool \<Rightarrow> u32 \<Rightarrow> u32 \<Rightarrow> u32 \<Rightarrow> u32 \<Rightarrow> bytes \<Rightarrow> report_item list option \<Rightarrow> report_item list option result" where
  "search_text can_open index time len minimum blockData rep =
     bind_result (text_scan can_open index time minimum blockData (unat (len - minimum)) 0
         \<lparr>textCount = 0, lineCount = 0, totalCount = 0, report = rep\<rparr>) (\<lambda>t.
       Ok (if textCount t \<noteq> 0 then map_option (\<lambda>r. r @ [ReportEnd (totalCount t)]) (report t) else report t))"

section \<open>What the text search reports\<close>

text \<open>The reference: the maximal runs of text characters, cut at every other character.\<close>

function ascii_runs :: "bytes \<Rightarrow> bytes list" where
  "ascii_runs xs = (if xs = [] then [] else takeWhile isASCII xs # ascii_runs (drop (Suc (length (takeWhile isASCII xs))) xs))"
  by pat_completeness auto
termination by (relation "measure length") auto

declare ascii_runs.simps [simp del]

lemma text_run_spec:
  "scan \<le> e \<Longrightarrow> e < length buf \<Longrightarrow> text_run buf e scan dest =
     Ok (scan + length (takeWhile isASCII (drop scan (take e buf))), dest @ takeWhile isASCII (drop scan (take e buf)))"
proof (induction buf e scan dest rule: text_run.induct)
  case (1 buf e scan dest)
  show ?case
  proof (cases "scan < e")
    case False
    then show ?thesis using 1(2,3) by (subst text_run.simps) simp
  next
    case True
    then have d: "drop scan (take e buf) = buf ! scan # drop (scan + 1) (take e buf)"
      using 1(3) by (simp add: Cons_nth_drop_Suc [symmetric])
    show ?thesis
    proof (cases "isASCII (buf ! scan)")
      case True
      with \<open>scan < e\<close> 1 d show ?thesis by (subst text_run.simps) simp
    next
      case False
      with 1(2,3) d show ?thesis by (subst text_run.simps) simp
    qed
  qed
qed

lemma text_scan_spec:
  "e < length buf \<Longrightarrow> text_scan can_open index time minimum buf e scan t =
     Ok (fold (text_found can_open index time) (filter (\<lambda>r. unat minimum \<le> length r) (ascii_runs (drop scan (take e buf)))) t)"
proof (induction can_open index time minimum buf e scan t rule: text_scan.induct)
  case (1 can_open index time minimum buf e scan t)
  let ?run = "takeWhile isASCII (drop scan (take e buf))"
  show ?case
  proof (cases "scan < e")
    case False
    then show ?thesis using 1(2) by (subst text_scan.simps) (simp add: ascii_runs.simps)
  next
    case True
    then have run: "text_run buf e scan [] = Ok (scan + length ?run, ?run)" using text_run_spec 1(2) by simp
    have ne: "drop scan (take e buf) \<noteq> []" using True 1(2) by simp
    have "drop (Suc (length ?run)) (drop scan (take e buf)) = drop (scan + length ?run + 1) (take e buf)" by (simp add: add.commute)
    then show ?thesis
      using 1(1) [OF True run refl 1(2)] True ascii_runs.simps [of "drop scan (take e buf)"] ne
      by (subst text_scan.simps) (auto simp: run)
  qed
qed

text \<open>The same runs with their places.\<close>

function placed_runs :: "nat \<Rightarrow> bytes \<Rightarrow> (nat \<times> bytes) list" where
  "placed_runs i xs =
     (if xs = [] then []
      else let r = takeWhile isASCII xs in (i, r) # placed_runs (i + length r + 1) (drop (length r + 1) xs))"
  by pat_completeness auto
termination by (relation "measure (\<lambda>(i, xs). length xs)") auto

declare placed_runs.simps [simp del]

lemma placed_runs_le: "(j, r) \<in> set (placed_runs i xs) \<Longrightarrow> i \<le> j"
proof (induction i xs rule: placed_runs.induct)
  case (1 i xs)
  then show ?case by (subst (asm) placed_runs.simps) (fastforce simp: Let_def split: if_splits)
qed

lemma placed_runs_maximal:
  "(j, r) \<in> set (placed_runs i xs) \<Longrightarrow> \<exists>k. j = i + k \<and> k + length r \<le> length xs \<and> r = take (length r) (drop k xs) \<and>
     list_all isASCII r \<and> (k = 0 \<or> \<not> isASCII (xs ! (k - 1))) \<and> (k + length r < length xs \<longrightarrow> \<not> isASCII (xs ! (k + length r)))"
proof (induction i xs rule: placed_runs.induct)
  case (1 i xs)
  let ?r = "takeWhile isASCII xs"
  have xs: "xs \<noteq> []" using 1(2) by (auto simp: placed_runs.simps)
  have le: "length ?r \<le> length xs" by (rule length_takeWhile_le)
  show ?case
  proof (cases "(j, r) = (i, ?r)")
    case True
    then show ?thesis using le nth_length_takeWhile [of isASCII xs]
      by (intro exI [of _ 0]) (auto simp: list_all_iff takeWhile_eq_take [symmetric] dest: set_takeWhileD)
  next
    case False
    then have "(j, r) \<in> set (placed_runs (i + length ?r + 1) (drop (length ?r + 1) xs))"
      using 1(2) xs by (subst (asm) placed_runs.simps) (auto simp: Let_def)
    then obtain k where k: "j = i + length ?r + 1 + k" "k + length r \<le> length (drop (length ?r + 1) xs)"
      "r = take (length r) (drop k (drop (length ?r + 1) xs))" "list_all isASCII r"
      "k = 0 \<or> \<not> isASCII (drop (length ?r + 1) xs ! (k - 1))"
      "k + length r < length (drop (length ?r + 1) xs) \<longrightarrow> \<not> isASCII (drop (length ?r + 1) xs ! (k + length r))"
      using 1(1) [OF xs refl] by blast
    have short: "length ?r < length xs"
    proof (rule ccontr)
      assume "\<not> length ?r < length xs"
      then have "drop (length ?r + 1) xs = []" by simp
      with \<open>(j, r) \<in> set (placed_runs (i + length ?r + 1) (drop (length ?r + 1) xs))\<close> show False
        by (simp add: placed_runs.simps)
    qed
    have "\<not> isASCII (xs ! (length ?r + k))"
    proof (cases k)
      case 0
      then show ?thesis using nth_length_takeWhile [OF short] by simp
    next
      case (Suc m)
      then show ?thesis using k(2,5) short by (simp add: add.commute)
    qed
    then show ?thesis using k short
      by (intro exI [of _ "length ?r + 1 + k"]) (auto simp: ac_simps less_diff_conv)
  qed
qed

lemma takeWhile_of_take: "takeWhile P (take k xs) = take k (takeWhile P xs)"
proof (induction xs arbitrary: k)
  case (Cons x xs)
  then show ?case by (cases k) simp_all
qed simp

lemma ascii_runs_take:
  "ascii_runs (take k xs) = map (\<lambda>(j, r). take (i + k - j) r) (filter (\<lambda>(j, r). j < i + k) (placed_runs i xs))"
proof (induction i xs arbitrary: k rule: placed_runs.induct)
  case (1 i xs)
  let ?r = "takeWhile isASCII xs"
  have late: "filter (\<lambda>(j, r). j < i + k) (placed_runs m ys) = []" if "i + k \<le> m" for m ys
    using that by (auto simp: filter_empty_conv dest!: placed_runs_le)
  show ?case
  proof (cases "xs = [] \<or> k = 0")
    case True
    then show ?thesis using late [of i xs] by (auto simp: ascii_runs.simps [of "[]"] placed_runs.simps [of i "[]"])
  next
    case False
    note cut = takeWhile_of_take [of isASCII k xs]
    have rest: "ascii_runs (drop (Suc (length (take k ?r))) (take k xs)) =
        map (\<lambda>(j, r). take (i + k - j) r) (filter (\<lambda>(j, r). j < i + k) (placed_runs (i + length ?r + 1) (drop (length ?r + 1) xs)))"
    proof (cases "length ?r < k")
      case True
      have "drop (Suc (length ?r)) (take k xs) = take (k - Suc (length ?r)) (drop (length ?r + 1) xs)" by (simp add: drop_take)
      then show ?thesis using 1 [of ?r "k - Suc (length ?r)"] False True by simp
    next
      case False
      then show ?thesis using late [of "i + length ?r + 1"] by (simp add: ascii_runs.simps [of "[]"])
    qed
    have "ascii_runs (take k xs) = take k ?r # ascii_runs (drop (Suc (length (take k ?r))) (take k xs))"
      using False cut by (subst ascii_runs.simps) simp
    moreover have "placed_runs i xs = (i, ?r) # placed_runs (i + length ?r + 1) (drop (length ?r + 1) xs)"
      using False by (subst placed_runs.simps) (simp add: Let_def)
    ultimately show ?thesis using False rest by simp
  qed
qed

definition texts :: "report_item list option \<Rightarrow> bytes list" where
  "texts r = concat (map (\<lambda>i. case i of ReportText x \<Rightarrow> [x] | _ \<Rightarrow> []) (case r of None \<Rightarrow> [] | Some l \<Rightarrow> l))"

lemma text_found_open:
  assumes "textCount t = 0 \<and> can_open \<or> report t \<noteq> None"
  shows "texts (report (text_found can_open index time x t)) = texts (report t) @ [x]"
    "report (text_found can_open index time x t) \<noteq> None"
  using assms by (auto simp: text_found_def Let_def texts_def split: option.splits)

lemma text_found_fold:
  assumes "textCount t = 0 \<and> can_open \<or> report t \<noteq> None"
  shows "texts (report (fold (text_found can_open index time) xs t)) = texts (report t) @ xs"
  using assms
proof (induction xs arbitrary: t)
  case (Cons x xs)
  then show ?case using text_found_open [OF Cons.prems, of index time x] by simp
qed simp

text \<open>
  C20: the text search against its reference. Let the minimum length not be zero, the block be at least that long, and the report be open
  or possible to open. Then the texts added to the report are, in order, those maximal runs of text characters of the block that have the
  minimum length after they have been cut at the place \<open>minimum\<close> bytes before the end of the block: a run that begins behind that place is
  lost, and one that reaches it is cut there, and lost when what is left of it is too short.
\<close>

theorem search_text_reports:
  assumes "unat minimum \<le> unat len" "unat len \<le> length blockData" "minimum \<noteq> 0" "can_open \<or> rep \<noteq> None"
  shows "\<exists>rep'. search_text can_open index time len minimum blockData rep = Ok rep' \<and>
    texts rep' = texts rep @ filter (\<lambda>r. unat minimum \<le> length r)
      (map (\<lambda>(i, r). take (unat len - unat minimum - i) r)
        (filter (\<lambda>(i, r). i < unat len - unat minimum) (placed_runs 0 (take (unat len) blockData))))"
proof -
  let ?k = "unat len - unat minimum"
  let ?t = "\<lparr>textCount = 0, lineCount = 0, totalCount = 0, report = rep\<rparr>"
  let ?rs = "filter (\<lambda>r. unat minimum \<le> length r) (ascii_runs (take ?k blockData))"
  have "minimum \<le> len" using assms(1) by (simp add: word_le_nat_alt)
  then have e: "unat (len - minimum) = ?k" by (simp add: unat_sub)
  have "0 < unat minimum" using assms(3) by (simp add: unat_gt_0)
  then have lt: "?k < length blockData" using assms(1,2) by linarith
  have "take ?k blockData = take ?k (take (unat len) blockData)" by simp
  then have runs: "ascii_runs (take ?k blockData) = map (\<lambda>(i, r). take (?k - i) r)
      (filter (\<lambda>(i, r). i < ?k) (placed_runs 0 (take (unat len) blockData)))"
    using ascii_runs_take [of ?k "take (unat len) blockData" 0] by simp
  have "texts (report (fold (text_found can_open index time) ?rs ?t)) = texts rep @ ?rs"
    using text_found_fold [of ?t can_open index time ?rs] assms(4) by auto
  then show ?thesis
    using text_scan_spec [OF lt, of can_open index time minimum 0 ?t] unfolding runs [symmetric]
    by (auto simp: search_text_def e texts_def split: option.splits)
qed

theorem search_text_reports_witness:
  "\<exists>rep'. search_text True 5 8 8 2 [1, 65, 66, 2, 67, 68, 69, 70] None = Ok rep' \<and> texts rep' = [[65, 66], [67, 68]] \<and>
     placed_runs 0 [1, 65, 66, 2, 67, 68, 69, 70] = [(0, []), (1, [65, 66]), (4, [67, 68, 69, 70])]"
proof -
  have a: "isASCII 65" "isASCII 66" "isASCII 67" "isASCII 68" "isASCII 69" "isASCII 70" "\<not> isASCII 1" "\<not> isASCII 2"
    by (simp_all add: isASCII_def word_sless_alt word_sle_eq)
  then have "placed_runs 0 [1, 65, 66, 2, 67, 68, 69, 70] = [(0, []), (1, [65, 66]), (4, [67, 68, 69, 70])]"
    by (simp add: placed_runs.simps)
  with search_text_reports [of 2 8 "[1, 65, 66, 2, 67, 68, 69, 70]" True None 5 8] show ?thesis by (simp add: texts_def)
qed

lemma text_scan_overrun:
  "length buf < e \<Longrightarrow> scan \<le> length buf \<Longrightarrow> text_scan can_open index time minimum buf e scan t = Fault OutOfBounds"
proof (induction can_open index time minimum buf e scan t rule: text_scan.induct)
  case (1 can_open index time minimum buf e scan t)
  have lt: "scan < e" using 1(2,3) by simp
  have err: "text_run buf e scan dest = Inl f \<Longrightarrow> f = OutOfBounds" for scan dest f
    by (induction buf e scan dest rule: text_run.induct) (subst (asm) (2) text_run.simps, auto split: if_splits)
  show ?case
  proof (cases "text_run buf e scan []")
    case (Inl f)
    then show ?thesis using lt err by (subst text_scan.simps) simp
  next
    case (Inr r)
    obtain scan' run where r: "r = (scan', run)" by (cases r)
    have "scan' + 1 \<le> length buf" using text_run_moves Inr r by fastforce
    then show ?thesis using 1(1) [OF lt Inr r [symmetric] 1(2)] lt Inr r by (subst text_scan.simps) simp
  qed
qed

text \<open>
  A block shorter than the minimum text length is searched far past its buffer: the end of the search
  wraps around below zero, and the loop runs on until it reads outside of the buffer.
\<close>

theorem search_text_overrun:
  assumes "unat len < unat minimum" "length blockData + unat minimum < 2 ^ 32"
  shows "search_text can_open index time len minimum blockData rep = Fault OutOfBounds"
proof -
  have "unat (len - minimum) = 2 ^ 32 + unat len - unat minimum"
    using assms(1) by (simp add: unat_sub_if')
  then show ?thesis
    using text_scan_overrun [of blockData "unat (len - minimum)" 0] assms
    by (simp add: search_text_def)
qed

theorem search_text_overrun_witness: "search_text True 0 0 3 8 (replicate 100 65) None = Fault OutOfBounds"
  by (rule search_text_overrun) simp_all
end
