(* ===== verification/ChainRead.thy ===== *)
theory ChainRead
  imports ChainBuild TextSearch
begin

text \<open>
  Reading blocks and transactions once the chain is built: \<open>readBlock\<close>, \<open>processTransactions\<close>,
  \<open>readSingleTransaction\<close> of class \<open>BlockChainImpl\<close> in src/src/BlockChain.cpp.
\<close>

section \<open>Transactions\<close>

text \<open>The hash an input refers to lies in the block's memory.\<close>

definition input_hash :: "block_impl \<Rightarrow> block_input \<Rightarrow> hash256 result" where
  "input_hash b i =
     (if transactionHash i + 32 \<le> length (mBlockData b)
      then Ok (Hash256 (take 32 (drop (transactionHash i) (mBlockData b)))) else Fault OutOfBounds)"

definition add_transaction :: "block_transaction \<Rightarrow> block_chain \<Rightarrow> block_chain" where
  "add_transaction t s =
     (let txhash = Hash256 (computedTransactionHash t);
          f = FileLocation txhash (tx_fileIndex t) (tx_fileOffset t) (transactionLength t) (tx_transactionIndex t)
      in if set_find (hash256.truncate f) (mTransactionSet s) = None
         then s\<lparr>mTransactionSet := set_insert f (mTransactionSet s)\<rparr>
         else log_bc (LogDuplicateTransaction (computedTransactionHash t)) s)"

fun check_inputs :: "block_impl \<Rightarrow> file_location list \<Rightarrow> block_input list \<Rightarrow> unit result" where
  "check_inputs b S [] = Ok ()"
| "check_inputs b S (i # is) =
     (if transactionIndex i \<noteq> 0xFFFFFFFF then
        bind_result (input_hash b i) (\<lambda>h.
          if set_find h S = None then Fault ProcessExit else check_inputs b S is)
      else check_inputs b S is)"

fun check_transactions :: "block_impl \<Rightarrow> block_transaction list \<Rightarrow> block_chain \<Rightarrow> block_chain result" where
  "check_transactions b [] s = Ok s"
| "check_transactions b (t # ts) s =
     (let s = s\<lparr>mTotalInputCount := mTotalInputCount s + inputCount t,
                mTotalOutputCount := mTotalOutputCount s + outputCount t\<rparr>
      in bind_result (check_inputs b (mTransactionSet s) (inputs t)) (\<lambda>_. check_transactions b ts s))"

definition processTransactions :: "block_impl \<Rightarrow> block_chain \<Rightarrow> block_chain result" where
  "processTransactions b s =
     (let s = s\<lparr>mTotalTransactionCount := mTotalTransactionCount s + transactionCount b\<rparr>;
          ts = take (unat (transactionCount b)) (transactions b);
          s = fold add_transaction ts s
      in check_transactions b ts s)"

section \<open>Blocks\<close>

text \<open>
  \<open>fill_buffer\<close> is the effect of \<open>fread\<close> on a buffer: its first bytes are replaced, provided they fit.
\<close>

definition fill_buffer :: "bytes \<Rightarrow> bytes \<Rightarrow> bytes result" where
  "fill_buffer buf d = (if length d \<le> length buf then Ok (splice buf 0 d) else Fault OutOfBounds)"

definition readBlock_data :: "build \<Rightarrow> stack_memory \<Rightarrow> bool \<Rightarrow> u32 \<Rightarrow> block_impl \<Rightarrow> block_chain \<Rightarrow> bytes \<Rightarrow>
    (bool \<times> block_impl \<times> block_chain) result" where
  "readBlock_data bld stk can_open index block s blockData =
     (let txhash = computeSHA256 (computeSHA256 blockData 80) 32;
          block = block\<lparr>computedBlockHash := txhash\<rparr>
      in bind_result (processBlockData bld stk blockData (blockLength block) (mTransactionCount s) (block, bc_globals s))
           (\<lambda>((ret, count), block, g).
         let s = s\<lparr>mTransactionCount := count, bc_globals := g\<rparr>
         in bind_result
              (if mSearchForText s \<noteq> 0
               then search_text can_open index (timeStamp block) (blockLength block) (mSearchForText s) blockData (mTextReport s)
               else Ok (mTextReport s)) (\<lambda>rep.
            let s = s\<lparr>mTextReport := rep\<rparr>
            in bind_result (if ret then processTransactions block s else Ok s) (\<lambda>s. Ok (ret, block, s)))))"

definition readBlock_into :: "build \<Rightarrow> stack_memory \<Rightarrow> bool \<Rightarrow> u32 \<Rightarrow> block_impl \<Rightarrow> block_chain \<Rightarrow>
    (bool \<times> block_impl \<times> block_chain) result" where
  "readBlock_into bld stk can_open index block s =
     (if index \<ge> mBlockCount s then Ok (False, block, s)
      else if unat index < length (mBlockChainHeaders s) then
        let header = mBlockChainHeaders s ! unat index; fi = unat (mFileIndex header)
        in if fi < length (mBlockDataFiles s) then
             let fph = fseek (mFileOffset header) (mBlockDataFiles s ! fi);
                 s = s\<lparr>bc_globals := (bc_globals s)\<lparr>gBlockIndex := index\<rparr>\<rparr>;
                 block = block\<lparr>blockIndex := index, warning := False, blockLength := mBlockLength header, blockReward := 0,
                   totalInputCount := 0, totalOutputCount := 0, fileIndex := mFileIndex header,
                   fileOffset := mFileOffset header\<rparr>
             in bind_result
                  (if index < mBlockCount s - 2 then
                     if unat (index + 2) < length (mBlockChainHeaders s)
                     then Ok (block\<lparr>nextBlockHash := Some (mPreviousBlockHash (mBlockChainHeaders s ! unat (index + 2)))\<rparr>)
                     else Fault OutOfBounds
                   else Ok block) (\<lambda>block.
                let (r, fph) = fread (unat (blockLength block)) fph;
                    s = set_file fi fph s
                in case r of
                     None \<Rightarrow> Fault ProcessExit
                   | Some d \<Rightarrow>
                       bind_result (fill_buffer (mBlockDataBuffer s) d) (\<lambda>blockData.
                       bind_result (readBlock_data bld stk can_open index block (s\<lparr>mBlockDataBuffer := blockData\<rparr>) blockData)
                         (\<lambda>(ret, block, s).
                           Ok (ret, block\<lparr>warning := gIsWarning (bc_globals s)\<rparr>,
                               s\<lparr>bc_globals := (bc_globals s)\<lparr>gIsWarning := False\<rparr>\<rparr>))))
           else Fault OutOfBounds
      else Fault OutOfBounds)"

definition readBlock :: "build \<Rightarrow> stack_memory \<Rightarrow> bool \<Rightarrow> u32 \<Rightarrow> block_chain \<Rightarrow> (bool \<times> block_chain) result" where
  "readBlock bld stk can_open index s =
     bind_result (readBlock_into bld stk can_open index (mSingleReadBlock s) s) (\<lambda>(ok, block, s).
       Ok (ok, s\<lparr>mSingleReadBlock := block\<rparr>))"

definition setSearchTextLength :: "u32 \<Rightarrow> block_chain \<Rightarrow> block_chain" where
  "setSearchTextLength textLen s = s\<lparr>mSearchForText := textLen\<rparr>"

section \<open>Single transactions\<close>

definition processSingleTransaction :: "build \<Rightarrow> stack_memory \<Rightarrow> bytes \<Rightarrow> u32 \<Rightarrow> block_chain \<Rightarrow>
    (block_transaction option \<times> block_chain) result" where
  "processSingleTransaction bld stk transactionData len s =
     (if unat len < MAX_BLOCK_SIZE then
        let block = (mSingleTransactionBlock s)\<lparr>blockIndex := 0, blockReward := 0, totalInputCount := 0, totalOutputCount := 0,
              fileIndex := 0, fileOffset := 0\<rparr>
        in bind_result (processTransactionData bld stk transactionData len (block, bc_globals s)) (\<lambda>(t, block, g).
             Ok (Some t, s\<lparr>mSingleTransactionBlock := block, bc_globals := g\<rparr>))
      else Ok (None, s))"

text \<open>After the read, the entry gets its real place; then the file position is restored.\<close>

definition place_transaction :: "file_location \<Rightarrow> block_transaction \<Rightarrow> block_chain \<Rightarrow> block_transaction \<times> block_chain" where
  "place_transaction f t s =
     (let t = t\<lparr>tx_transactionIndex := fl_transactionIndex f, tx_fileIndex := fl_fileIndex f, tx_fileOffset := fl_fileOffset f\<rparr>;
          b = mSingleTransactionBlock s
      in (t, s\<lparr>mSingleTransactionBlock := b\<lparr>transactions := (transactions b)[0 := t]\<rparr>\<rparr>))"

definition readSingleTransaction :: "build \<Rightarrow> stack_memory \<Rightarrow> bytes \<Rightarrow> block_chain \<Rightarrow>
    (block_transaction option \<times> block_chain) result" where
  "readSingleTransaction bld stk txhash s =
     (case set_find (Hash256 txhash) (mTransactionSet s) of
        None \<Rightarrow> Ok (None, log_bc (LogUnknownTransaction txhash) s)
      | Some f \<Rightarrow>
          let fi = unat (fl_fileIndex f)
          in if fi < length (mBlockDataFiles s) \<and> unat (fl_fileLength f) < MAX_BLOCK_SIZE then
               let saveLocation = ftell (mBlockDataFiles s ! fi);
                   fph = fseek (fl_fileOffset f) (mBlockDataFiles s ! fi);
                   (r, fph) = fread (unat (fl_fileLength f)) fph;
                   s = set_file fi fph s
               in bind_result
                    (case r of
                       Some d \<Rightarrow>
                         bind_result (fill_buffer (mTransactionBlockBuffer s) d) (\<lambda>buf.
                         bind_result (processSingleTransaction bld stk buf (fl_fileLength f) (s\<lparr>mTransactionBlockBuffer := buf\<rparr>))
                           (\<lambda>(ret, s). case ret of
                              Some t \<Rightarrow> (case place_transaction f t s of (t, s) \<Rightarrow> Ok (Some t, s))
                            | None \<Rightarrow> Ok (None, s)))
                     | None \<Rightarrow> bind_result (c_assert bld False) (\<lambda>_. Ok (None, s)))
                    (\<lambda>(ret, s). Ok (ret, set_file fi (fseek saveLocation (mBlockDataFiles s ! fi)) s))
             else bind_result (c_assert bld False) (\<lambda>_. Ok (None, s)))"

section \<open>The index of transactions\<close>

definition location_of :: "block_transaction \<Rightarrow> file_location" where
  "location_of t = FileLocation (Hash256 (computedTransactionHash t)) (tx_fileIndex t) (tx_fileOffset t) (transactionLength t)
     (tx_transactionIndex t)"

lemma FileLocation_simps [simp]:
  "hash256.truncate (FileLocation k fi off len ti) = k" "fl_fileIndex (FileLocation k fi off len ti) = fi"
  "fl_fileOffset (FileLocation k fi off len ti) = off" "fl_fileLength (FileLocation k fi off len ti) = len"
  "fl_transactionIndex (FileLocation k fi off len ti) = ti"
  by (simp_all add: FileLocation_def hash256.defs file_location.defs)

text \<open>The states that differ in the transaction set, the totals and the globals only.\<close>

definition indexed :: "block_chain \<Rightarrow> block_chain \<Rightarrow> bool" where
  "indexed s s' \<longleftrightarrow> mBlockDataFiles s' = mBlockDataFiles s \<and> mBlockChainHeaders s' = mBlockChainHeaders s \<and>
     mBlockCount s' = mBlockCount s \<and> mTransactionCount s' = mTransactionCount s \<and>
     mTransactionBlockBuffer s' = mTransactionBlockBuffer s \<and> mSingleTransactionBlock s' = mSingleTransactionBlock s \<and>
     mBlockDataBuffer s' = mBlockDataBuffer s \<and> mTextReport s' = mTextReport s \<and>
     gIsWarning (bc_globals s') = gIsWarning (bc_globals s) \<and>
     gReportTransactionHash (bc_globals s') = gReportTransactionHash (bc_globals s)"

lemma indexed_trans: "indexed s t \<Longrightarrow> indexed t u \<Longrightarrow> indexed s u"
  by (simp add: indexed_def)

lemma add_transaction_set:
  "mTransactionSet (add_transaction t s) = set_insert (location_of t) (mTransactionSet s)"
  "indexed s (add_transaction t s)" "mTotalInputCount (add_transaction t s) = mTotalInputCount s"
  "mTotalOutputCount (add_transaction t s) = mTotalOutputCount s"
  "mTotalTransactionCount (add_transaction t s) = mTotalTransactionCount s"
  by (simp_all add: add_transaction_def Let_def location_of_def set_insert_def set_find_eq log_bc_def logMessage_def indexed_def)

lemma fold_transactions_set:
  "mTransactionSet (fold add_transaction ts s) = fold set_insert (map location_of ts) (mTransactionSet s) \<and>
   indexed s (fold add_transaction ts s) \<and> mTotalInputCount (fold add_transaction ts s) = mTotalInputCount s \<and>
   mTotalOutputCount (fold add_transaction ts s) = mTotalOutputCount s \<and>
   mTotalTransactionCount (fold add_transaction ts s) = mTotalTransactionCount s"
proof (induction ts arbitrary: s)
  case Nil
  then show ?case by (simp add: indexed_def)
next
  case (Cons t ts)
  show ?case using Cons [of "add_transaction t s"] add_transaction_set [where t = t and s = s] indexed_trans by simp
qed

text \<open>An input that is not a coinbase refers to a transaction of the set.\<close>

definition resolved :: "block_impl \<Rightarrow> file_location list \<Rightarrow> block_input \<Rightarrow> bool" where
  "resolved b S i \<longleftrightarrow> transactionIndex i = 0xFFFFFFFF \<or>
     set_find (Hash256 (take 32 (drop (transactionHash i) (mBlockData b)))) S \<noteq> None"

definition inputs_inside :: "block_impl \<Rightarrow> block_transaction \<Rightarrow> bool" where
  "inputs_inside b t \<longleftrightarrow> (\<forall>i \<in> set (inputs t). transactionHash i + 32 \<le> length (mBlockData b))"

lemma check_inputs_spec:
  "\<forall>i \<in> set is. transactionHash i + 32 \<le> length (mBlockData b) \<Longrightarrow>
     check_inputs b S is = (if \<forall>i \<in> set is. resolved b S i then Ok () else Fault ProcessExit)"
  by (induction "is") (auto simp: input_hash_def resolved_def)

lemma check_transactions_spec:
  assumes "\<forall>t \<in> set ts. inputs_inside b t"
  shows "check_transactions b ts s =
     (if \<forall>t \<in> set ts. \<forall>i \<in> set (inputs t). resolved b (mTransactionSet s) i
      then Ok (s\<lparr>mTotalInputCount := mTotalInputCount s + sum_list (map inputCount ts),
                 mTotalOutputCount := mTotalOutputCount s + sum_list (map outputCount ts)\<rparr>)
      else Fault ProcessExit)"
  using assms
proof (induction ts arbitrary: s)
  case (Cons t ts)
  then show ?case
    using check_inputs_spec [of "inputs t" b "mTransactionSet s"]
    by (auto simp: inputs_inside_def Let_def add.assoc)
qed simp

lemma processTransactions_spec:
  fixes b s
  defines "ts \<equiv> take (unat (transactionCount b)) (transactions b)"
  defines "S \<equiv> fold set_insert (map location_of ts) (mTransactionSet s)"
  assumes "\<forall>t \<in> set ts. inputs_inside b t"
  shows "if \<forall>t \<in> set ts. \<forall>i \<in> set (inputs t). resolved b S i
    then \<exists>s'. processTransactions b s = Ok s' \<and> mTransactionSet s' = S \<and> indexed s s' \<and>
      mTotalTransactionCount s' = mTotalTransactionCount s + transactionCount b \<and>
      mTotalInputCount s' = mTotalInputCount s + sum_list (map inputCount ts) \<and>
      mTotalOutputCount s' = mTotalOutputCount s + sum_list (map outputCount ts)
    else processTransactions b s = Fault ProcessExit"
proof -
  let ?s = "s\<lparr>mTotalTransactionCount := mTotalTransactionCount s + transactionCount b\<rparr>"
  have "indexed s ?s" by (simp add: indexed_def)
  then show ?thesis
    using fold_transactions_set [of ts ?s] check_transactions_spec [OF assms(3), of "fold add_transaction ts ?s"]
    by (auto simp: processTransactions_def ts_def [symmetric] S_def indexed_def)
qed

text \<open>
  C11: the index of transactions. \<open>processTransactions\<close> succeeds exactly when every input of the block that is not a
  coinbase refers to a transaction seen before or anywhere in the same block, and stops in \<open>exit\<close> otherwise. Then a hash is
  found in the index with the place it had before, or else the place of the first
  transaction of the block with that hash; the totals grow by the block's.
\<close>

theorem processTransactions_correct:
  fixes b s
  defines "ts \<equiv> take (unat (transactionCount b)) (transactions b)"
  assumes "\<forall>t \<in> set ts. inputs_inside b t"
  shows "(\<exists>s'. processTransactions b s = Ok s' \<and>
      (\<forall>k. set_find k (mTransactionSet s') = (case set_find k (mTransactionSet s) of Some f \<Rightarrow> Some f
         | None \<Rightarrow> find (\<lambda>f. hash256.truncate f = k) (map location_of ts))) \<and>
      (\<forall>t \<in> set ts. set_find (Hash256 (computedTransactionHash t)) (mTransactionSet s') \<noteq> None) \<and>
      (\<forall>t \<in> set ts. \<forall>i \<in> set (inputs t). resolved b (mTransactionSet s') i) \<and>
      mTotalTransactionCount s' = mTotalTransactionCount s + transactionCount b \<and>
      mTotalInputCount s' = mTotalInputCount s + sum_list (map inputCount ts) \<and>
      mTotalOutputCount s' = mTotalOutputCount s + sum_list (map outputCount ts)) \<or>
    (processTransactions b s = Fault ProcessExit \<and>
      (\<exists>t \<in> set ts. \<exists>i \<in> set (inputs t). transactionIndex i \<noteq> 0xFFFFFFFF \<and>
         (\<forall>t' \<in> set ts. Hash256 (computedTransactionHash t') \<noteq> Hash256 (take 32 (drop (transactionHash i) (mBlockData b)))) \<and>
         set_find (Hash256 (take 32 (drop (transactionHash i) (mBlockData b)))) (mTransactionSet s) = None))"
proof -
  let ?S = "fold set_insert (map location_of ts) (mTransactionSet s)"
  have look: "set_find k ?S = (case set_find k (mTransactionSet s) of Some f \<Rightarrow> Some f
         | None \<Rightarrow> find (\<lambda>f. hash256.truncate f = k) (map location_of ts))" for k :: hash256
    by (rule location_set.lookup_fold)
  have own: "set_find (Hash256 (computedTransactionHash t)) ?S \<noteq> None" if "t \<in> set ts" for t
    using that unfolding look by (auto simp: find_None_iff location_of_def simp del: not_None_eq split: option.split)
  note spec = processTransactions_spec [of b s, folded ts_def, OF assms(2)]
  show ?thesis
  proof (cases "\<forall>t \<in> set ts. \<forall>i \<in> set (inputs t). resolved b ?S i")
    case True
    with spec look own show ?thesis by (intro disjI1) auto
  next
    case False
    then obtain t i where ti: "t \<in> set ts" "i \<in> set (inputs t)" "transactionIndex i \<noteq> 0xFFFFFFFF"
      "set_find (Hash256 (take 32 (drop (transactionHash i) (mBlockData b)))) ?S = None"
      by (auto simp: resolved_def)
    have "Hash256 (computedTransactionHash t') \<noteq> Hash256 (take 32 (drop (transactionHash i) (mBlockData b)))" if "t' \<in> set ts" for t'
      using own [OF that] ti(4) by auto
    moreover have "set_find (Hash256 (take 32 (drop (transactionHash i) (mBlockData b)))) (mTransactionSet s) = None"
      using ti(4) unfolding look by (auto split: option.splits)
    ultimately show ?thesis using spec False ti by (intro disjI2) auto
  qed
qed

definition sample_block_impl :: block_impl where
  "sample_block_impl = (block_on (replicate 40 1))\<lparr>transactionCount := 1,
     transactions := [(tx_at (block_on []) 0 0 sample_tx)\<lparr>inputs := [], computedTransactionHash := replicate 32 4\<rparr>]\<rparr>"

theorem processTransactions_correct_witness:
  "\<exists>s'. processTransactions sample_block_impl empty_chain = Ok s' \<and>
     set_find (Hash256 (replicate 32 4)) (mTransactionSet s') \<noteq> None"
proof -
  have ts: "take (unat (transactionCount sample_block_impl)) (transactions sample_block_impl) =
      [(tx_at (block_on []) 0 0 sample_tx)\<lparr>inputs := [], computedTransactionHash := replicate 32 4\<rparr>]"
    by (simp add: sample_block_impl_def)
  show ?thesis
    using processTransactions_correct [of sample_block_impl empty_chain, unfolded ts] by (auto simp: inputs_inside_def)
qed
section \<open>Looking a transaction up\<close>

text \<open>What a look-up gives: the entry of the transaction read alone, with its place in the index.\<close>

definition single_entry :: "file_location \<Rightarrow> wire_tx \<Rightarrow> block_transaction" where
  "single_entry f tx = (tx_at ((block_on [])\<lparr>fileIndex := 0, fileOffset := 0\<rparr>) 0 0 tx)
     \<lparr>tx_transactionIndex := fl_transactionIndex f, tx_fileIndex := fl_fileIndex f, tx_fileOffset := fl_fileOffset f\<rparr>"

lemma processTransactionData_wire:
  assumes tx: "wt_ok tx" and stk: "length (stack_temp stk) = 256" and g: "\<not> gReportTransactionHash g"
    and b: "totalInputCount b = 0" "totalOutputCount b = 0" "fileIndex b = 0" "fileOffset b = 0" "transactions b \<noteq> []"
  shows "\<exists>b' g'. processTransactionData bld stk (ser_tx tx @ rest) (word_of_nat (length (ser_tx tx))) (b, g) =
      Ok (tx_at ((block_on [])\<lparr>fileIndex := 0, fileOffset := 0\<rparr>) 0 0 tx, b', g') \<and>
    length (transactions b') = length (transactions b) \<and> same_globals g g'"
proof -
  have l: "unat (word_of_nat (length (ser_tx tx)) :: u32) = length (ser_tx tx)"
    using tx by (intro unat_word_of_nat_small) (simp add: wt_ok_def)
  let ?b = "b\<lparr>mBlockData := ser_tx tx @ rest, mBlockRead := 0, mBlockEnd := length (ser_tx tx)\<rparr>"
  have "upcoming ?b (ser_tx tx)" by (simp add: upcoming_def)
  from readTransaction_wire [OF tx stk this g, of bld "transactions b ! 0" 0 0] tx b
  show ?thesis
    by (simp add: processTransactionData_def bind_state_def modify_def exit_if_def return_state_def l wt_ok_def
        tx_at_def Let_def same_globals_def adv_def)
qed

lemma drop_take_known: "take (length xs) (drop n ys) = xs \<Longrightarrow> length xs \<le> length ys - n"
  by (metis length_drop length_take min.cobounded1)

lemma fill_buffer_ok: "length d \<le> length buf \<Longrightarrow> fill_buffer buf d = Ok (d @ drop (length d) buf)"
  by (simp add: fill_buffer_def splice_def)

definition lies :: "bytes \<Rightarrow> bytes \<Rightarrow> nat \<Rightarrow> bool" where
  "lies xs d p \<longleftrightarrow> take (length xs) (drop p d) = xs"

text \<open>The index leads from the hash \<open>h\<close> to a place in the files where the wire form of \<open>tx\<close> lies.\<close>

definition serves :: "block_chain \<Rightarrow> bytes \<Rightarrow> file_location \<Rightarrow> wire_tx \<Rightarrow> bool" where
  "serves s h f tx \<longleftrightarrow> set_find (Hash256 h) (mTransactionSet s) = Some f \<and> unat (fl_fileIndex f) < length (mBlockDataFiles s) \<and>
     lies (ser_tx tx) (file_data (mBlockDataFiles s ! unat (fl_fileIndex f))) (unat (fl_fileOffset f)) \<and>
     file_pos (mBlockDataFiles s ! unat (fl_fileIndex f)) < 2 ^ 32 \<and> fl_fileLength f = word_of_nat (length (ser_tx tx)) \<and>
     length (ser_tx tx) < MAX_BLOCK_SIZE \<and> length (ser_tx tx) \<le> length (mTransactionBlockBuffer s) \<and> wt_ok tx"

text \<open>A look-up changes its own block and buffer only, and no file position.\<close>

definition looked_up :: "block_chain \<Rightarrow> block_chain \<Rightarrow> bool" where
  "looked_up s s' \<longleftrightarrow>
     (\<exists>buf b g. s' = s\<lparr>mTransactionBlockBuffer := buf, mSingleTransactionBlock := b, bc_globals := g\<rparr> \<and>
        length buf = length (mTransactionBlockBuffer s) \<and> transactions b \<noteq> [] \<and> same_globals (bc_globals s) g)"

lemma readSingleTransaction_wire:
  assumes f: "serves s h f tx" and stk: "length (stack_temp stk) = 256" and g: "\<not> gReportTransactionHash (bc_globals s)"
    and b: "transactions (mSingleTransactionBlock s) \<noteq> []"
  shows "\<exists>s'. readSingleTransaction bld stk h s = Ok (Some (single_entry f tx), s') \<and>
    transactions (mSingleTransactionBlock s') ! 0 = single_entry f tx \<and> looked_up s s'"
proof -
  have found: "set_find (Hash256 h) (mTransactionSet s) = Some f" "unat (fl_fileIndex f) < length (mBlockDataFiles s)"
    and data: "take (length (ser_tx tx)) (drop (unat (fl_fileOffset f)) (file_data (mBlockDataFiles s ! unat (fl_fileIndex f)))) = ser_tx tx"
    and len: "fl_fileLength f = word_of_nat (length (ser_tx tx))" "length (ser_tx tx) < MAX_BLOCK_SIZE"
      "length (ser_tx tx) \<le> length (mTransactionBlockBuffer s)"
    and tx: "wt_ok tx" and pos: "file_pos (mBlockDataFiles s ! unat (fl_fileIndex f)) < 2 ^ 32"
    using f by (simp_all add: serves_def lies_def)
  let ?fi = "unat (fl_fileIndex f)"
  let ?f = "mBlockDataFiles s ! ?fi"
  have l: "unat (word_of_nat (length (ser_tx tx)) :: u32) = length (ser_tx tx)"
    using tx by (intro unat_word_of_nat_small) (simp add: wt_ok_def)
  have pos': "unat (ftell ?f) = file_pos ?f" unfolding ftell_def by (rule unat_word32_of_nat) (use pos in simp)
  have ne: "0 < length (ser_tx tx)" by (simp add: ser_tx_def)
  have inside: "unat (fl_fileOffset f) + length (ser_tx tx) \<le> length (file_data ?f)"
    using drop_take_known [OF data] ne by linarith
  have r: "fread (length (ser_tx tx)) (fseek (fl_fileOffset f) ?f) =
      (Some (ser_tx tx), ?f\<lparr>file_pos := unat (fl_fileOffset f) + length (ser_tx tx)\<rparr>)"
    using inside data ne by (simp add: fread_def fseek_def)
  let ?b = "(mSingleTransactionBlock s)\<lparr>blockIndex := 0, blockReward := 0, totalInputCount := 0, totalOutputCount := 0,
              fileIndex := 0, fileOffset := 0\<rparr>"
  obtain b' g' where p: "processTransactionData bld stk (ser_tx tx @ drop (length (ser_tx tx)) (mTransactionBlockBuffer s))
      (word_of_nat (length (ser_tx tx))) (?b, bc_globals s) =
      Ok (tx_at ((block_on [])\<lparr>fileIndex := 0, fileOffset := 0\<rparr>) 0 0 tx, b', g')" "length (transactions b') = length (transactions ?b)"
    "same_globals (bc_globals s) g'"
    using processTransactionData_wire [OF tx stk g, of ?b bld "drop (length (ser_tx tx)) (mTransactionBlockBuffer s)"] b by auto
  have ne': "transactions b' \<noteq> []" using p(2) b by auto
  let ?buf = "ser_tx tx @ drop (length (ser_tx tx)) (mTransactionBlockBuffer s)"
  let ?b' = "b'\<lparr>transactions := (transactions b')[0 := single_entry f tx]\<rparr>"
  have "readSingleTransaction bld stk h s = Ok (Some (single_entry f tx),
      s\<lparr>mTransactionBlockBuffer := ?buf, mSingleTransactionBlock := ?b', bc_globals := g'\<rparr>)"
    using found len(2,3) p(1)
    by (simp add: readSingleTransaction_def Let_def len(1) l r [unfolded fseek_def] fill_buffer_ok processSingleTransaction_def place_transaction_def
        single_entry_def set_file_def fseek_def pos' list_update_overwrite del: unat_of_nat)
  moreover have "looked_up s (s\<lparr>mTransactionBlockBuffer := ?buf, mSingleTransactionBlock := ?b', bc_globals := g'\<rparr>)"
    unfolding looked_up_def
    by (intro exI [of _ ?buf] exI [of _ ?b'] exI [of _ g']) (use ne' p(3) len(3) in simp)
  ultimately show ?thesis using ne' by simp
qed

text \<open>
  Looking a transaction up. A hash in the index whose place holds the wire form of a standard transaction
  is looked up to exactly that transaction: version, inputs, outputs with their
  addresses, lock time, hash, and the place in the index; files, index and chain are as before, the file position included.
\<close>

theorem readSingleTransaction_roundtrip:
  assumes "serves s h f tx" "length (stack_temp stk) = 256" "\<not> gReportTransactionHash (bc_globals s)"
    and "transactions (mSingleTransactionBlock s) \<noteq> []"
  shows "\<exists>s'. readSingleTransaction bld stk h s = Ok (Some (single_entry f tx), s') \<and>
    transactions (mSingleTransactionBlock s') ! 0 = single_entry f tx \<and> looked_up s s'"
  using readSingleTransaction_wire [OF assms] .

definition sample_location :: file_location where
  "sample_location = FileLocation (Hash256 (replicate 32 4)) 0 3 119 8"

definition lookup_state :: block_chain where
  "lookup_state = empty_chain\<lparr>mTransactionSet := [sample_location],
     mBlockDataFiles := [\<lparr>file_data = [1, 2, 3] @ ser_tx sample_tx @ [4], file_pos = 7\<rparr>],
     mTransactionBlockBuffer := replicate 200 0, bc_globals := no_globals,
     mSingleTransactionBlock := (block_on [])\<lparr>transactions := [tx_at (block_on []) 0 0 sample_tx]\<rparr>\<rparr>"

theorem readSingleTransaction_roundtrip_witness:
  "\<exists>s'. readSingleTransaction Debug \<lparr>stack_key32 = 7, stack_temp = replicate 256 1\<rparr> (replicate 32 4) lookup_state =
      Ok (Some (single_entry sample_location sample_tx), s') \<and> mBlockDataFiles s' = mBlockDataFiles lookup_state"
proof -
  have "serves lookup_state (replicate 32 4) sample_location sample_tx"
    using sample_tx_ok by (simp add: serves_def lies_def lookup_state_def sample_location_def set_find_eq length_ser_sample limits)
  then show ?thesis
    using readSingleTransaction_roundtrip [where stk = "\<lparr>stack_key32 = 7, stack_temp = replicate 256 1\<rparr>" and bld = Debug]
    by (fastforce simp: lookup_state_def no_globals_def looked_up_def)
qed

section \<open>Where the parts of a block lie\<close>

lemma liesD: "lies xs d p \<Longrightarrow> xs \<noteq> [] \<Longrightarrow> p + length xs \<le> length d"
  using drop_take_known [of xs p d] by (cases xs) (simp_all add: lies_def)

lemma lies_append:
  assumes "lies (xs @ ys) d p"
  shows "lies xs d p" "lies ys d (p + length xs)"
proof -
  have *: "take (length xs + length ys) (drop p d) = xs @ ys" using assms by (simp add: lies_def)
  have "take (length xs) (drop p d) = take (length xs) (take (length xs + length ys) (drop p d))" by simp
  then show "lies xs d p" unfolding * by (simp add: lies_def)
  have "take (length ys) (drop (p + length xs) d) = drop (length xs) (take (length xs + length ys) (drop p d))"
    by (simp add: drop_take add.commute)
  then show "lies ys d (p + length xs)" unfolding * by (simp add: lies_def)
qed

definition input_matches :: "bytes \<Rightarrow> block_input \<Rightarrow> wire_input \<Rightarrow> bool" where
  "input_matches d i w \<longleftrightarrow> transactionHash i + 32 \<le> length d \<and> take 32 (drop (transactionHash i) d) = wi_hash w \<and>
     transactionIndex i = wi_index w"

lemma inputs_at_matches:
  "\<forall>i \<in> set is. wi_ok i \<Longrightarrow> lies (concat (map ser_input is)) d p \<Longrightarrow> list_all2 (input_matches d) (inputs_at p is) is"
proof (induction "is" arbitrary: p)
  case (Cons w ws)
  have l: "lies (ser_input w) d p" "lies (concat (map ser_input ws)) d (p + length (ser_input w))"
    using lies_append [of "ser_input w"] Cons.prems(2) by simp_all
  have h: "length (wi_hash w) = 32" using Cons.prems(1) by (simp add: wi_ok_def)
  then have "lies (wi_hash w) d p" "wi_hash w \<noteq> []" using lies_append(1) [OF l(1) [unfolded ser_input_def]] by auto
  with h have "input_matches d (input_at p w) w" using liesD [of "wi_hash w" d p]
    by (simp add: input_matches_def input_at_def lies_def)
  then show ?case using Cons.IH [OF _ l(2)] Cons.prems(1) by simp
qed simp

lemma tx_at_matches:
  assumes "wt_ok tx" "lies (ser_tx tx) d p"
  shows "list_all2 (input_matches d) (inputs (tx_at b p index tx)) (wt_inputs tx)"
proof -
  note l = lies_append(2) [OF assms(2) [unfolded ser_tx_def]]
  have "lies (concat (map ser_input (wt_inputs tx))) d (p + 4 + length (varint (length (wt_inputs tx))))"
    using lies_append(1) [OF lies_append(2) [OF l]] by simp
  then show ?thesis using inputs_at_matches assms(1) by (simp add: tx_at_def Let_def wt_ok_def)
qed

lemma txs_at_matches:
  "\<forall>t \<in> set ts. wt_ok t \<Longrightarrow> lies (concat (map ser_tx ts)) d p \<Longrightarrow>
     list_all2 (\<lambda>t w. list_all2 (input_matches d) (inputs t) (wt_inputs w)) (txs_at b p index ts) ts"
proof (induction ts arbitrary: p index)
  case (Cons t ts)
  have l: "lies (ser_tx t) d p" "lies (concat (map ser_tx ts)) d (p + length (ser_tx t))"
    using lies_append [of "ser_tx t"] Cons.prems(2) by simp_all
  show ?case using Cons.IH [OF _ l(2)] Cons.prems(1) tx_at_matches [OF _ l(1)] by simp
qed simp

definition txid :: "wire_tx \<Rightarrow> bytes" where
  "txid tx = sha256_spec (sha256_spec (ser_tx tx))"

text \<open>The place of the \<open>k\<close>th transaction of a block.\<close>

definition tx_place :: "u32 \<Rightarrow> u32 \<Rightarrow> u32 \<Rightarrow> wire_block \<Rightarrow> nat \<Rightarrow> file_location" where
  "tx_place fi off index w k = FileLocation (Hash256 (txid (wb_txs w ! k))) fi
     (off + word_of_nat (80 + length (varint (length (wb_txs w))) + length (concat (map ser_tx (take k (wb_txs w))))))
     (word_of_nat (length (ser_tx (wb_txs w ! k)))) (index + word_of_nat k)"

lemma txs_at_nth:
  "k < length ts \<Longrightarrow> txs_at b p index ts ! k =
     tx_at b (p + length (concat (map ser_tx (take k ts)))) (index + word_of_nat k) (ts ! k)"
proof (induction ts arbitrary: p index k)
  case (Cons t ts)
  then show ?case by (cases k) (simp_all add: add.assoc)
qed simp

lemma location_of_tx_at: "location_of (tx_at b p index tx) =
    FileLocation (Hash256 (txid tx)) (fileIndex b) (fileOffset b + word_of_nat p) (word_of_nat (length (ser_tx tx))) index"
  by (simp add: location_of_def tx_at_def Let_def txid_def)

lemma locations_nth:
  assumes "k < length (wb_txs w)"
  shows "map location_of (txs_at b (80 + length (varint (length (wb_txs w)))) index (wb_txs w)) ! k =
    tx_place (fileIndex b) (fileOffset b) index w k"
  using assms by (simp add: txs_at_nth location_of_tx_at tx_place_def)

definition txs_offset :: "wire_block \<Rightarrow> nat" where
  "txs_offset w = 80 + length (varint (length (wb_txs w)))"

lemma ser_block_lies:
  assumes "wb_ok w" "d = ser_block w @ rest"
  shows "lies (concat (map ser_tx (wb_txs w))) d (txs_offset w)" "lies (ser_block w) d 0"
  using assms by (simp_all add: wb_ok_def lies_def ser_block_def txs_offset_def)

lemma tx_lies:
  assumes "lies (concat (map ser_tx ts)) d p" "k < length ts"
  shows "lies (ser_tx (ts ! k)) d (p + length (concat (map ser_tx (take k ts))))"
proof -
  have "concat (map ser_tx ts) = concat (map ser_tx (take k ts)) @ ser_tx (ts ! k) @ concat (map ser_tx (drop (Suc k) ts))"
    using assms(2) by (metis id_take_nth_drop map_append concat_append list.map(2) concat.simps(2))
  then show ?thesis using assms(1) lies_append by metis
qed
section \<open>Reading a block\<close>

lemma list_all2_ball:
  assumes "list_all2 P xs ys" "\<And>x y. P x y \<Longrightarrow> Q x \<longleftrightarrow> R y"
  shows "(\<forall>x \<in> set xs. Q x) \<longleftrightarrow> (\<forall>y \<in> set ys. R y)"
  using assms(1) by (induction rule: list_all2_induct) (simp_all add: assms(2))

lemma locations_known:
  "set_find k (fold set_insert (map location_of ts) S) \<noteq> None \<longleftrightarrow>
     set_find k S \<noteq> None \<or> (\<exists>t \<in> set ts. Hash256 (computedTransactionHash t) = k)" for k :: hash256
  unfolding location_set.lookup_fold
  by (auto simp: find_None_iff location_of_def simp del: not_None_eq split: option.split)

lemma txs_at_hashes: "map computedTransactionHash (txs_at b p index ts) = map txid ts"
  by (induction ts arbitrary: p index) (simp_all add: tx_at_def Let_def txid_def)

text \<open>
  Every input of the block that is not a coinbase refers to a transaction of the index or of the block.
\<close>

definition inputs_known :: "file_location list \<Rightarrow> wire_block \<Rightarrow> bool" where
  "inputs_known S w \<longleftrightarrow> (\<forall>t \<in> set (wb_txs w). \<forall>i \<in> set (wt_inputs t). wi_index i = 0xFFFFFFFF \<or>
     set_find (Hash256 (wi_hash i)) S \<noteq> None \<or> (\<exists>t' \<in> set (wb_txs w). Hash256 (txid t') = Hash256 (wi_hash i)))"

definition tx_places :: "u32 \<Rightarrow> u32 \<Rightarrow> u32 \<Rightarrow> wire_block \<Rightarrow> file_location list" where
  "tx_places fi off index w = map (tx_place fi off index w) [0..<length (wb_txs w)]"

lemma tx_places_eq: "map location_of (txs_at b (txs_offset w) index (wb_txs w)) = tx_places (fileIndex b) (fileOffset b) index w"
  by (rule nth_equalityI) (simp_all add: txs_offset_def txs_at_nth location_of_tx_at tx_place_def tx_places_def)

lemma processTransactions_wire:
  assumes w: "wb_ok w" and b': "holds_block b index w b'" "mBlockData b' = ser_block w @ rest"
  shows "if inputs_known (mTransactionSet s) w
    then \<exists>s'. processTransactions b' s = Ok s' \<and> indexed s s' \<and>
      mTransactionSet s' = fold set_insert (tx_places (fileIndex b) (fileOffset b) index w) (mTransactionSet s)
    else processTransactions b' s = Fault ProcessExit"
proof -
  let ?ts = "txs_at b (txs_offset w) index (wb_txs w)"
  have n: "unat (transactionCount b') = length (wb_txs w)"
    using b' w by (simp add: holds_block_def wb_ok_def unat_word32_of_nat)
  have ts: "take (unat (transactionCount b')) (transactions b') = ?ts"
    unfolding n using b'(1) by (simp add: holds_block_def txs_offset_def)
  have m: "list_all2 (\<lambda>t w. list_all2 (input_matches (mBlockData b')) (inputs t) (wt_inputs w)) ?ts (wb_txs w)"
    using txs_at_matches ser_block_lies(1) [OF w b'(2)] w by (simp add: wb_ok_def)
  have ins: "\<forall>t \<in> set ?ts. inputs_inside b' t"
    using m unfolding inputs_inside_def list_all2_conv_all_nth by (force simp: in_set_conv_nth input_matches_def)
  let ?S = "fold set_insert (map location_of ?ts) (mTransactionSet s)"
  have own: "(\<exists>t \<in> set ?ts. Hash256 (computedTransactionHash t) = k) \<longleftrightarrow> (\<exists>t \<in> set (wb_txs w). Hash256 (txid t) = k)" for k
    using arg_cong [OF txs_at_hashes [of b "txs_offset w" index "wb_txs w"], of set] by (auto simp: image_iff set_eq_iff) metis+
  have "resolved b' ?S i \<longleftrightarrow> wi_index v = 0xFFFFFFFF \<or> set_find (Hash256 (wi_hash v)) (mTransactionSet s) \<noteq> None \<or>
      (\<exists>t' \<in> set (wb_txs w). Hash256 (txid t') = Hash256 (wi_hash v))" if "input_matches (mBlockData b') i v" for i v
    using that unfolding resolved_def locations_known own by (simp add: input_matches_def)
  then have "(\<forall>t \<in> set ?ts. \<forall>i \<in> set (inputs t). resolved b' ?S i) \<longleftrightarrow> inputs_known (mTransactionSet s) w"
    unfolding inputs_known_def by (intro list_all2_ball [OF m] list_all2_ball)
  then show ?thesis
    using processTransactions_spec [of b' s, unfolded ts, OF ins] tx_places_eq [of b w index] by auto
qed

definition block_ready :: "u32 \<Rightarrow> wire_block \<Rightarrow> block_chain \<Rightarrow> bool" where
  "block_ready index w s \<longleftrightarrow>
     (let h = mBlockChainHeaders s ! unat index
      in index < mBlockCount s \<and> 2 \<le> mBlockCount s \<and> unat (mBlockCount s) = length (mBlockChainHeaders s) \<and>
         unat (mFileIndex h) < length (mBlockDataFiles s) \<and>
         lies (ser_block w) (file_data (mBlockDataFiles s ! unat (mFileIndex h))) (unat (mFileOffset h)) \<and>
         mBlockLength h = word_of_nat (length (ser_block w)) \<and> wb_ok w \<and>
         length (ser_block w) \<le> length (mBlockDataBuffer s) \<and> length (wb_txs w) \<le> length (transactions (mSingleReadBlock s)) \<and>
         mSearchForText s = 0 \<and> \<not> gReportTransactionHash (bc_globals s))"

definition next_hash :: "u32 \<Rightarrow> block_chain \<Rightarrow> bytes option" where
  "next_hash index s =
     (if unat index + 2 < unat (mBlockCount s) then Some (mPreviousBlockHash (mBlockChainHeaders s ! (unat index + 2)))
      else nextBlockHash (mSingleReadBlock s))"

lemma next_hash_step:
  assumes "index < mBlockCount s" "2 \<le> mBlockCount s"
  shows "index < mBlockCount s - 2 \<longleftrightarrow> unat index + 2 < unat (mBlockCount s)"
    "unat index + 2 < unat (mBlockCount s) \<Longrightarrow> unat (index + 2) = unat index + 2"
proof -
  have "unat (mBlockCount s - 2) = unat (mBlockCount s) - 2" using assms(2) by (simp add: unat_sub word_le_nat_alt)
  then show "index < mBlockCount s - 2 \<longleftrightarrow> unat index + 2 < unat (mBlockCount s)"
    by (simp add: word_less_nat_alt less_diff_conv)
  show "unat index + 2 < unat (mBlockCount s) \<Longrightarrow> unat (index + 2) = unat index + 2"
    using unsigned_less [of "mBlockCount s", where ?'a = nat] by (simp add: unat_word_ariths)
qed

text \<open>The block object before its bytes are parsed.\<close>

definition prepared :: "u32 \<Rightarrow> block_chain \<Rightarrow> block_impl" where
  "prepared index s =
     (let h = mBlockChainHeaders s ! unat index
      in (mSingleReadBlock s)\<lparr>blockIndex := index, warning := False, blockLength := mBlockLength h, blockReward := 0,
           totalInputCount := 0, totalOutputCount := 0, fileIndex := mFileIndex h, fileOffset := mFileOffset h,
           nextBlockHash := next_hash index s\<rparr>)"

definition sha256d :: "bytes \<Rightarrow> bytes" where
  "sha256d m = sha256_spec (sha256_spec m)"

lemma computeSHA256_twice:
  "80 \<le> length m \<Longrightarrow> computeSHA256 (computeSHA256 m 80) 32 = sha256d (take 80 m)"
  by (simp add: computeSHA256_eq sha256d_def)

text \<open>What stays and what changes when a block is read.\<close>

definition block_read :: "u32 \<Rightarrow> wire_block \<Rightarrow> block_chain \<Rightarrow> block_chain \<Rightarrow> bool" where
  "block_read index w s s' \<longleftrightarrow>
     (let h = mBlockChainHeaders s ! unat index; b = mSingleReadBlock s'; fi = unat (mFileIndex h)
      in holds_block (prepared index s) (mTransactionCount s) w b \<and> lies (ser_block w) (mBlockData b) 0 \<and>
         computedBlockHash b = sha256d (take 80 (ser_block w)) \<and> blockIndex b = index \<and> blockLength b = mBlockLength h \<and>
         fileIndex b = mFileIndex h \<and> fileOffset b = mFileOffset h \<and> nextBlockHash b = next_hash index s \<and>
         mTransactionCount s' = mTransactionCount s + word_of_nat (length (wb_txs w)) \<and>
         mTransactionSet s' = fold set_insert (tx_places (mFileIndex h) (mFileOffset h) (mTransactionCount s) w) (mTransactionSet s) \<and>
         mBlockDataFiles s' = (mBlockDataFiles s)[fi := (mBlockDataFiles s ! fi)\<lparr>file_pos := unat (mFileOffset h) + length (ser_block w)\<rparr>] \<and>
         mBlockChainHeaders s' = mBlockChainHeaders s \<and> mBlockCount s' = mBlockCount s \<and>
         mSingleTransactionBlock s' = mSingleTransactionBlock s \<and> mTransactionBlockBuffer s' = mTransactionBlockBuffer s \<and>
         \<not> gReportTransactionHash (bc_globals s') \<and> \<not> gIsWarning (bc_globals s'))"

lemma readBlock_wire:
  assumes ready: "block_ready index w s" and stk: "length (stack_temp stk) = 256"
  shows "if inputs_known (mTransactionSet s) w
    then \<exists>s'. readBlock bld stk can_open index s = Ok (True, s') \<and> block_read index w s s'
    else readBlock bld stk can_open index s = Fault ProcessExit"
proof -
  define h where "h = mBlockChainHeaders s ! unat index"
  let ?fi = "unat (mFileIndex h)"
  let ?f = "mBlockDataFiles s ! ?fi"
  let ?len = "length (ser_block w)"
  have r: "index < mBlockCount s" "2 \<le> mBlockCount s" "unat (mBlockCount s) = length (mBlockChainHeaders s)"
    "?fi < length (mBlockDataFiles s)" "lies (ser_block w) (file_data ?f) (unat (mFileOffset h))"
    "mBlockLength h = word_of_nat ?len" "wb_ok w" "?len \<le> length (mBlockDataBuffer s)"
    "length (wb_txs w) \<le> length (transactions (mSingleReadBlock s))" "mSearchForText s = 0"
    "\<not> gReportTransactionHash (bc_globals s)"
    using ready by (simp_all add: block_ready_def Let_def h_def)
  have idx: "unat index < length (mBlockChainHeaders s)" using r(1,3) by (simp add: word_less_nat_alt)
  have nle: "mBlockCount s \<le> index \<longleftrightarrow> False" using r(1) by simp
  have l: "unat (mBlockLength h) = ?len" unfolding r(6) by (rule unat_word32_of_nat) (use r(7) in \<open>simp add: wb_ok_def\<close>)
  have len: "80 \<le> ?len" using r(7) by (simp add: wb_ok_def ser_block_def)
  have inside: "unat (mFileOffset h) + ?len \<le> length (file_data ?f)" using liesD [OF r(5)] len by fastforce
  have fr: "fread ?len (fseek (mFileOffset h) ?f) = (Some (ser_block w), ?f\<lparr>file_pos := unat (mFileOffset h) + ?len\<rparr>)"
    using inside r(5) len by (auto simp: fread_def fseek_def lies_def)
  let ?data = "ser_block w @ drop ?len (mBlockDataBuffer s)"
  define sa where "sa = (set_file ?fi (?f\<lparr>file_pos := unat (mFileOffset h) + ?len\<rparr>)
     (s\<lparr>bc_globals := (bc_globals s)\<lparr>gBlockIndex := index\<rparr>\<rparr>))\<lparr>mBlockDataBuffer := ?data\<rparr>"
  have step: "readBlock_into bld stk can_open index (mSingleReadBlock s) s =
     bind_result (readBlock_data bld stk can_open index (prepared index s) sa ?data)
       (\<lambda>(ret, block, s). Ok (ret, block\<lparr>warning := gIsWarning (bc_globals s)\<rparr>,
                               s\<lparr>bc_globals := (bc_globals s)\<lparr>gIsWarning := False\<rparr>\<rparr>))"
  proof (cases "unat index + 2 < unat (mBlockCount s)")
    case True
    then have "index < mBlockCount s - 2" "unat (index + 2) = unat index + 2" "unat index + 2 < length (mBlockChainHeaders s)"
      using next_hash_step [OF r(1,2)] r(3) by simp_all
    then show ?thesis
      using r(1,4,8) idx fr True
      by (simp add: readBlock_into_def Let_def h_def [symmetric] l fill_buffer_ok sa_def set_file_def prepared_def next_hash_def
          nle)
  next
    case False
    then have "\<not> index < mBlockCount s - 2" using next_hash_step [OF r(1,2)] by simp
    then show ?thesis
      using r(1,4,8) idx fr False
      by (simp add: readBlock_into_def Let_def h_def [symmetric] l fill_buffer_ok sa_def set_file_def prepared_def next_hash_def
          nle)
  qed
  have b0: "totalInputCount (prepared index s) = 0" "totalOutputCount (prepared index s) = 0"
    "length (wb_txs w) \<le> length (transactions (prepared index s))" "fileIndex (prepared index s) = mFileIndex h"
    "fileOffset (prepared index s) = mFileOffset h" "blockLength (prepared index s) = mBlockLength h"
    "blockIndex (prepared index s) = index" "nextBlockHash (prepared index s) = next_hash index s"
    using r(9) by (simp_all add: prepared_def Let_def h_def)
  let ?b0 = "(prepared index s)\<lparr>computedBlockHash := sha256d (take 80 (ser_block w))\<rparr>"
  have sa: "mTransactionCount sa = mTransactionCount s" "mSearchForText sa = 0" "\<not> gReportTransactionHash (bc_globals sa)"
    "mTransactionSet sa = mTransactionSet s"
    using r(10,11) by (simp_all add: sa_def set_file_def)
  obtain b' g' where p: "processBlockData bld stk ?data (word_of_nat ?len) (mTransactionCount s) (?b0, bc_globals sa) =
      Ok ((True, mTransactionCount s + word_of_nat (length (wb_txs w))), b', g')"
    and b': "holds_block ?b0 (mTransactionCount s) w b'" "mBlockData b' = ?data" "same_place ?b0 b'" "same_globals (bc_globals sa) g'"
    using processBlockData_wire [OF r(7) stk sa(3), of ?b0 bld "drop ?len (mBlockDataBuffer s)" "mTransactionCount s"] b0 by auto
  define sb where "sb = sa\<lparr>mTransactionCount := mTransactionCount s + word_of_nat (length (wb_txs w)), bc_globals := g'\<rparr>"
  have data: "readBlock_data bld stk can_open index (prepared index s) sa ?data =
      bind_result (processTransactions b' sb) (\<lambda>s. Ok (True, b', s))"
    using p len sa(1,2) by (simp add: readBlock_data_def computeSHA256_twice b0 r(6) sb_def)
  have tx: "txs_at ?b0 p i ts = txs_at (prepared index s) p i ts" for p i ts
    by (induction ts arbitrary: p i) (simp_all add: tx_at_def Let_def)
  have hold: "holds_block (prepared index s) (mTransactionCount s) w (b'\<lparr>warning := x\<rparr>)" for x
    using b'(1) by (simp add: holds_block_def tx)
  have g: "\<not> gReportTransactionHash g'" using b'(4) sa(3) by (simp add: same_globals_def)
  note into = step [unfolded data]
  note spec = processTransactions_wire [OF r(7) b'(1,2), of sb]
  show ?thesis
  proof (cases "inputs_known (mTransactionSet s) w")
    case False
    then show ?thesis using spec into by (simp add: readBlock_def sb_def sa(4))
  next
    case True
    then obtain s1 where s1: "processTransactions b' sb = Ok s1" "indexed sb s1"
      "mTransactionSet s1 = fold set_insert (tx_places (fileIndex ?b0) (fileOffset ?b0) (mTransactionCount s) w) (mTransactionSet sb)"
      using spec by (auto simp: sb_def sa(4))
    show ?thesis
      using True into s1 hold b'(3) g b0(4-8)
      by (simp add: readBlock_def block_read_def Let_def indexed_def same_place_def h_def [symmetric] sb_def sa_def set_file_def
          lies_def b'(2))
  qed
qed

text \<open>
  C8: reading a block of the chain. When the place a header gives holds the wire form of a block of standard transactions, and every
  input refers to a known transaction or one of the block, \<open>readBlock\<close> succeeds: its block object holds the block, its place and its
  double hash; each transaction enters the index at its place and the running transaction number grows. The hash of the next block is the
  previous hash of the header two places further, for all but the last two blocks; for these two the object keeps the hash it held
  before, although the last but one block has a next one and the last should have none. With an unknown input the program exits.
\<close>

theorem readBlock_roundtrip:
  assumes "block_ready index w s" "length (stack_temp stk) = 256"
  shows "if inputs_known (mTransactionSet s) w
    then \<exists>s'. readBlock bld stk can_open index s = Ok (True, s') \<and> block_read index w s s' \<and>
      nextBlockHash (mSingleReadBlock s') =
        (if unat index + 2 < unat (mBlockCount s) then Some (mPreviousBlockHash (mBlockChainHeaders s ! (unat index + 2)))
         else nextBlockHash (mSingleReadBlock s))
    else readBlock bld stk can_open index s = Fault ProcessExit"
  using readBlock_wire [OF assms, of bld can_open] by (auto simp: block_read_def Let_def next_hash_def split: if_split_asm)

definition coinbase_tx :: wire_tx where
  "coinbase_tx = \<lparr>wt_version = 1,
     wt_inputs = [\<lparr>wi_hash = replicate 32 0, wi_index = 0xFFFFFFFF, wi_script = [2, 3], wi_sequence = 5\<rparr>],
     wt_outputs = [(50, P2PKH (replicate 20 9)), (7, P2SH (replicate 20 8))], wt_lock = 0\<rparr>"

definition coinbase_block :: wire_block where
  "coinbase_block = \<lparr>wb_version = 1, wb_previous = replicate 32 5, wb_merkle = replicate 32 6, wb_time = 99,
     wb_bits = 3, wb_nonce = 4, wb_txs = [coinbase_tx]\<rparr>"

lemma length_coinbase: "length (ser_tx coinbase_tx) = 119" "length (ser_block coinbase_block) = 200"
  by (simp_all add: coinbase_block_def coinbase_tx_def ser_block_def ser_tx_def ser_input_def ser_output_def varint_def)

lemma coinbase_ok: "wt_ok coinbase_tx" "wb_ok coinbase_block"
  using length_coinbase
  by (simp_all add: wt_ok_def wb_ok_def wi_ok_def) (simp_all add: coinbase_block_def coinbase_tx_def wi_ok_def wt_ok_def length_coinbase(1) [unfolded coinbase_tx_def])

definition two_blocks :: block_chain where
  "two_blocks = empty_chain\<lparr>mBlockDataFiles := [\<lparr>file_data = [1, 2, 3] @ ser_block coinbase_block @ [4], file_pos = 7\<rparr>],
     mBlockChainHeaders := replicate 2 (BlockHeader (Hash256 (replicate 32 5)) 0 3 200 (replicate 32 0)), mBlockCount := 2,
     mBlockDataBuffer := replicate 300 0, mTransactionBlockBuffer := replicate 300 0, bc_globals := no_globals,
     mSearchForText := 0, mTransactionSet := [],
     mSingleReadBlock := (block_on [])\<lparr>transactions := replicate 3 (tx_at (block_on []) 0 0 sample_tx)\<rparr>,
     mSingleTransactionBlock := (block_on [])\<lparr>transactions := replicate 3 (tx_at (block_on []) 0 0 sample_tx)\<rparr>\<rparr>"

lemma two_blocks_ready: "block_ready 0 coinbase_block two_blocks" "inputs_known (mTransactionSet two_blocks) coinbase_block"
proof -
  show "block_ready 0 coinbase_block two_blocks" "inputs_known (mTransactionSet two_blocks) coinbase_block"
    using coinbase_ok length_coinbase
    by (simp_all add: block_ready_def two_blocks_def Let_def BlockHeader_def hash256.defs block_header.defs lies_def no_globals_def
        inputs_known_def) (simp_all add: coinbase_block_def coinbase_tx_def)
qed

definition three_blocks :: block_chain where
  "three_blocks = two_blocks\<lparr>mBlockChainHeaders := replicate 2 (BlockHeader (Hash256 (replicate 32 5)) 0 3 200 (replicate 32 0)) @
       [BlockHeader (Hash256 (replicate 32 7)) 0 3 200 (replicate 32 9)], mBlockCount := 3\<rparr>"

theorem readBlock_roundtrip_witness:
  "(\<exists>s'. readBlock Debug \<lparr>stack_key32 = 7, stack_temp = replicate 256 1\<rparr> True 0 three_blocks = Ok (True, s') \<and>
     block_read 0 coinbase_block three_blocks s' \<and> nextBlockHash (mSingleReadBlock s') = Some (replicate 32 9)) \<and>
   (\<exists>s'. readBlock Debug \<lparr>stack_key32 = 7, stack_temp = replicate 256 1\<rparr> True 0 two_blocks = Ok (True, s') \<and>
     block_read 0 coinbase_block two_blocks s' \<and> nextBlockHash (mSingleReadBlock s') = None)"
proof -
  have ready: "block_ready 0 coinbase_block three_blocks" "inputs_known (mTransactionSet three_blocks) coinbase_block"
    using two_blocks_ready
    by (simp_all add: three_blocks_def block_ready_def two_blocks_def Let_def BlockHeader_def hash256.defs block_header.defs nth_append)
  have nexts: "(if unat 0 + 2 < unat (mBlockCount three_blocks) then Some (mPreviousBlockHash (mBlockChainHeaders three_blocks ! (unat 0 + 2)))
      else nextBlockHash (mSingleReadBlock three_blocks)) = Some (replicate 32 9)"
    "(if unat 0 + 2 < unat (mBlockCount two_blocks) then Some (mPreviousBlockHash (mBlockChainHeaders two_blocks ! (unat 0 + 2)))
      else nextBlockHash (mSingleReadBlock two_blocks)) = None"
    by (simp_all add: three_blocks_def two_blocks_def BlockHeader_def hash256.defs block_header.defs nth_append block_on_def)
  show ?thesis
    using readBlock_roundtrip [OF ready(1), of "\<lparr>stack_key32 = 7, stack_temp = replicate 256 1\<rparr>" Debug True]
      readBlock_roundtrip [OF two_blocks_ready(1), of "\<lparr>stack_key32 = 7, stack_temp = replicate 256 1\<rparr>" Debug True]
    unfolding nexts if_P [OF ready(2)] if_P [OF two_blocks_ready(2)] by (simp add: numeral_eq_Suc)
qed

lemma find_nth_first:
  assumes "k < length xs" "P (xs ! k)" "\<forall>j < k. \<not> P (xs ! j)"
  shows "find P xs = Some (xs ! k)"
  using assms by (auto simp: find_Some_iff)

lemma tx_place_known:
  assumes "k < length (wb_txs w)" "set_find (Hash256 (txid (wb_txs w ! k))) S = None"
    "\<forall>j < k. Hash256 (txid (wb_txs w ! j)) \<noteq> Hash256 (txid (wb_txs w ! k))"
  shows "set_find (Hash256 (txid (wb_txs w ! k))) (fold set_insert (tx_places fi off index w) S) = Some (tx_place fi off index w k)"
proof -
  have "find (\<lambda>f. hash256.truncate f = Hash256 (txid (wb_txs w ! k))) (tx_places fi off index w) =
      Some (tx_places fi off index w ! k)"
    by (rule find_nth_first) (use assms in \<open>simp_all add: tx_places_def tx_place_def\<close>)
  then show ?thesis using assms unfolding location_set.lookup_fold by (simp add: tx_places_def)
qed

text \<open>After a block has been read the index leads to each of its transactions, and to those it led to before.\<close>

lemma block_read_serves:
  fixes index w s k
  defines "tx \<equiv> wb_txs w ! k"
  defines "h \<equiv> mBlockChainHeaders s ! unat index"
  assumes ready: "block_ready index w s" and read: "block_read index w s s'"
    and k: "k < length (wb_txs w)" "set_find (Hash256 (txid tx)) (mTransactionSet s) = None"
      "\<forall>j < k. Hash256 (txid (wb_txs w ! j)) \<noteq> Hash256 (txid tx)"
    and fits: "length (ser_tx tx) < MAX_BLOCK_SIZE" "length (ser_tx tx) \<le> length (mTransactionBlockBuffer s)"
      "unat (mFileOffset h) + length (ser_block w) < 2 ^ 32"
  shows "serves s' (txid tx) (tx_place (mFileIndex h) (mFileOffset h) (mTransactionCount s) w k) tx"
proof -
  let ?f = "tx_place (mFileIndex h) (mFileOffset h) (mTransactionCount s) w k"
  let ?fi = "unat (mFileIndex h)"
  have rd: "wb_ok w" "?fi < length (mBlockDataFiles s)"
    "lies (ser_block w) (file_data (mBlockDataFiles s ! ?fi)) (unat (mFileOffset h))"
    using ready(1) by (simp_all add: block_ready_def Let_def h_def)
  have st: "mTransactionSet s' = fold set_insert (tx_places (mFileIndex h) (mFileOffset h) (mTransactionCount s) w) (mTransactionSet s)"
    "mBlockDataFiles s' = (mBlockDataFiles s)[?fi := (mBlockDataFiles s ! ?fi)\<lparr>file_pos := unat (mFileOffset h) + length (ser_block w)\<rparr>]"
    "mTransactionBlockBuffer s' = mTransactionBlockBuffer s"
    using read by (simp_all add: block_read_def Let_def h_def)
  let ?o = "txs_offset w + length (concat (map ser_tx (take k (wb_txs w))))"
  have parts: "ser_block w = take (txs_offset w) (ser_block w) @ concat (map ser_tx (wb_txs w))" "txs_offset w \<le> length (ser_block w)"
    using rd(1) by (simp_all add: wb_ok_def ser_block_def txs_offset_def)
  have "lies (concat (map ser_tx (wb_txs w))) (file_data (mBlockDataFiles s ! ?fi)) (unat (mFileOffset h) + txs_offset w)"
    using rd(3) parts lies_append(2) [of "take (txs_offset w) (ser_block w)"] by (metis length_take min.absorb2)
  note lie = tx_lies [OF this k(1), folded tx_def]
  have "0 < length (ser_tx tx)" by (simp add: ser_tx_def)
  then have ne: "ser_tx tx \<noteq> []" by auto
  have "lies (ser_tx tx) (concat (map ser_tx (wb_txs w))) (length (concat (map ser_tx (take k (wb_txs w)))))"
    using tx_lies [of "wb_txs w" "concat (map ser_tx (wb_txs w))" 0 k] k(1) by (simp add: lies_def tx_def)
  from liesD [OF this ne] have o: "?o + length (ser_tx tx) \<le> length (ser_block w)"
    using arg_cong [OF parts(1), of length] parts(2) by simp
  have off: "unat (fl_fileOffset ?f) = unat (mFileOffset h) + ?o"
    unfolding tx_place_def FileLocation_simps txs_offset_def [symmetric]
    by (rule unat_add_small) (use o fits(3) in simp)
  have "set_find (Hash256 (txid tx)) (mTransactionSet s') = Some ?f"
    using tx_place_known k unfolding st(1) tx_def by blast
  moreover have "unat (fl_fileIndex ?f) = ?fi" "fl_fileLength ?f = word_of_nat (length (ser_tx tx))"
    by (simp_all add: tx_place_def tx_def)
  moreover have "wt_ok tx" using rd(1) k(1) by (simp add: wb_ok_def tx_def)
  ultimately show ?thesis
    unfolding serves_def using st(2,3) fits rd(2) lie off by (simp add: add.assoc)
qed

lemma block_read_serves_before:
  assumes "block_ready index w s" "block_read index w s s'" "serves s h f tx"
    "unat (mFileOffset (mBlockChainHeaders s ! unat index)) + length (ser_block w) < 2 ^ 32"
  shows "serves s' h f tx"
proof -
  let ?fi = "unat (mFileIndex (mBlockChainHeaders s ! unat index))" and ?g = "unat (fl_fileIndex f)"
  have st: "mTransactionSet s' = fold set_insert (tx_places (mFileIndex (mBlockChainHeaders s ! unat index))
      (mFileOffset (mBlockChainHeaders s ! unat index)) (mTransactionCount s) w) (mTransactionSet s)"
    "mTransactionBlockBuffer s' = mTransactionBlockBuffer s"
    "mBlockDataFiles s' = (mBlockDataFiles s)[?fi := (mBlockDataFiles s ! ?fi)
       \<lparr>file_pos := unat (mFileOffset (mBlockChainHeaders s ! unat index)) + length (ser_block w)\<rparr>]"
    using assms(2) by (simp_all add: block_read_def Let_def)
  have "file_data (mBlockDataFiles s' ! ?g) = file_data (mBlockDataFiles s ! ?g) \<and> file_pos (mBlockDataFiles s' ! ?g) < 2 ^ 32"
    using assms(3,4) by (cases "?fi = ?g") (simp_all add: st(3) serves_def)
  then show ?thesis using assms(3) unfolding serves_def st(1) location_set.lookup_fold by (simp add: st(2,3))
qed

text \<open>
  C9: from a block to its transactions. After \<open>readBlock\<close> has read a block, looking up the hash of any of its transactions
  (unless the hash was known before, or an earlier transaction of the block has it) finds that
  transaction: the bytes read back from the file at the indexed place parse to it, and the entry carries its
  place in the file and its running number.
\<close>

theorem transaction_lookup_after_readBlock:
  fixes index w s k
  defines "tx \<equiv> wb_txs w ! k"
  defines "h \<equiv> mBlockChainHeaders s ! unat index"
  assumes ready: "block_ready index w s" "inputs_known (mTransactionSet s) w" and stk: "length (stack_temp stk) = 256"
    and k: "k < length (wb_txs w)" "set_find (Hash256 (txid tx)) (mTransactionSet s) = None"
      "\<forall>j < k. Hash256 (txid (wb_txs w ! j)) \<noteq> Hash256 (txid tx)"
    and fits: "length (ser_tx tx) < MAX_BLOCK_SIZE" "length (ser_tx tx) \<le> length (mTransactionBlockBuffer s)"
      "transactions (mSingleTransactionBlock s) \<noteq> []" "unat (mFileOffset h) + length (ser_block w) < 2 ^ 32"
  shows "\<exists>s' s''. readBlock bld stk can_open index s = Ok (True, s') \<and>
    readSingleTransaction bld stk (txid tx) s' =
      Ok (Some (single_entry (tx_place (mFileIndex h) (mFileOffset h) (mTransactionCount s) w k) tx), s'') \<and>
    looked_up s' s''"
proof -
  obtain s' where s': "readBlock bld stk can_open index s = Ok (True, s')" "block_read index w s s'"
    using readBlock_wire [OF ready(1) stk, of bld can_open] ready(2) by auto
  have "serves s' (txid tx) (tx_place (mFileIndex h) (mFileOffset h) (mTransactionCount s) w k) tx"
    using block_read_serves [OF ready(1) s'(2)] k fits unfolding tx_def h_def by blast
  moreover have "transactions (mSingleTransactionBlock s') \<noteq> []" "\<not> gReportTransactionHash (bc_globals s')"
    using s'(2) fits(3) by (simp_all add: block_read_def Let_def)
  ultimately show ?thesis using readSingleTransaction_wire [OF _ stk] s'(1) by blast
qed

theorem transaction_lookup_after_readBlock_witness:
  "\<exists>s' s''. readBlock Debug \<lparr>stack_key32 = 7, stack_temp = replicate 256 1\<rparr> True 0 two_blocks = Ok (True, s') \<and>
     readSingleTransaction Debug \<lparr>stack_key32 = 7, stack_temp = replicate 256 1\<rparr> (txid coinbase_tx) s' =
       Ok (Some (single_entry (tx_place 0 3 (mTransactionCount two_blocks) coinbase_block 0) coinbase_tx), s'')"
proof -
  have w: "wb_txs coinbase_block ! 0 = coinbase_tx" "0 < length (wb_txs coinbase_block)" by (simp_all add: coinbase_block_def)
  have h: "mFileIndex (mBlockChainHeaders two_blocks ! unat 0) = 0" "mFileOffset (mBlockChainHeaders two_blocks ! unat 0) = 3"
    by (simp_all add: two_blocks_def BlockHeader_def hash256.defs block_header.defs)
  have p: "length (stack_temp \<lparr>stack_key32 = 7, stack_temp = replicate 256 1\<rparr>) = 256"
    "set_find (Hash256 (txid coinbase_tx)) (mTransactionSet two_blocks) = None"
    "length (ser_tx coinbase_tx) < MAX_BLOCK_SIZE" "length (ser_tx coinbase_tx) \<le> length (mTransactionBlockBuffer two_blocks)"
    "transactions (mSingleTransactionBlock two_blocks) \<noteq> []" "unat (3 :: u32) + length (ser_block coinbase_block) < 2 ^ 32"
    by (simp_all add: two_blocks_def length_coinbase limits set_find_eq)
  show ?thesis
    using transaction_lookup_after_readBlock [OF two_blocks_ready p(1) w(2), unfolded w(1) h, OF p(2) _ p(3-6), of Debug True]
    by blast
qed

text \<open>
  A chain of one block cannot be read: the test for a block after the next one compares with the block count less
  two, which wraps around, so a header two places further is addressed, outside of the array.
\<close>

theorem readBlock_only_block:
  assumes "mBlockCount s = 1" "length (mBlockChainHeaders s) = 1"
    "unat (mFileIndex (mBlockChainHeaders s ! 0)) < length (mBlockDataFiles s)"
  shows "readBlock bld stk can_open 0 s = Fault OutOfBounds"
proof -
  have "(0 :: u32) < - 1" by (simp add: word_neq_0_conv [symmetric])
  then show ?thesis using assms by (simp add: readBlock_def readBlock_into_def Let_def)
qed

theorem readBlock_only_block_witness:
  "readBlock Debug \<lparr>stack_key32 = 7, stack_temp = replicate 256 1\<rparr> True 0
     (two_blocks\<lparr>mBlockCount := 1, mBlockChainHeaders := [BlockHeader (Hash256 (replicate 32 5)) 0 3 200 (replicate 32 0)]\<rparr>) =
   Fault OutOfBounds"
  by (rule readBlock_only_block) (simp_all add: two_blocks_def BlockHeader_def hash256.defs block_header.defs)
end
