(* ===== verification/BlockPrint.thy ===== *)
theory BlockPrint
  imports ChainRead
begin

text \<open>
  Printing a block: \<open>printBlock\<close> of class \<open>BlockChainImpl\<close> in src/src/BlockChain.cpp. What it prints is a list of
  items; while it prints it looks up the transactions the inputs refer to. Then what is printed for a block that has been
  read, and that printing leaves the chain as it is.
\<close>

section \<open>The code\<close>

text \<open>
  What \<open>printBlock\<close> prints, in order. A number stands for its formatted text, a hash for its 64 hexadecimal digits.
\<close>

datatype print_item =
  PrintRule
| PrintBlockNumber u32
| PrintBlockHash bytes
| PrintPreviousHash bytes
| PrintNextHash bytes
| PrintMerkleRoot bytes
| PrintTransactions u32
| PrintTimestamp u32
| PrintBits u32
| PrintSize u32
| PrintVersion u32
| PrintNonce u32
| PrintReward u64
| PrintTransaction u32 u32 u32 u32 bytes
| PrintInput u32 u32 u32 bytes
| PrintLost u32 bytes
| PrintSpending bytes u64
| PrintNoKey
| PrintBadIndex
| PrintOutput u32 u64 u32
| PrintOutputKey bytes string
| PrintNoOutputKey

definition hash_bytes :: "block_impl \<Rightarrow> nat \<Rightarrow> bytes result" where
  "hash_bytes b p = (if p + 32 \<le> length (mBlockData b) then Ok (take 32 (drop p (mBlockData b))) else Fault OutOfBounds)"

definition print_input :: "build \<Rightarrow> stack_memory \<Rightarrow> block_impl \<Rightarrow> u32 \<Rightarrow> block_input \<Rightarrow> block_chain \<Rightarrow>
    (print_item list \<times> block_chain) result" where
  "print_input bld stk b i inp s =
     bind_result (hash_bytes b (transactionHash inp)) (\<lambda>h.
       let line = PrintInput i (responseScriptLength inp) (transactionIndex inp) h
       in if transactionIndex inp \<noteq> 0xFFFFFFFF then
            bind_result (readSingleTransaction bld stk h s) (\<lambda>(r, s).
              Ok (case r of
                    None \<Rightarrow> [line, PrintLost (transactionIndex inp) h]
                  | Some t \<Rightarrow>
                      if transactionIndex inp < outputCount t then
                        let out = outputs t ! unat (transactionIndex inp)
                        in if publicKey out ! 0 \<noteq> None then [line, PrintSpending (asciiAddress out) (output_value out)]
                           else [line, PrintNoKey]
                      else [line, PrintBadIndex], s))
          else Ok ([line], s))"

fun print_inputs :: "build \<Rightarrow> stack_memory \<Rightarrow> block_impl \<Rightarrow> nat \<Rightarrow> block_input list \<Rightarrow> block_chain \<Rightarrow>
    (print_item list \<times> block_chain) result" where
  "print_inputs bld stk b i [] s = Ok ([], s)"
| "print_inputs bld stk b i (inp # is) s =
     bind_result (print_input bld stk b (word_of_nat i) inp s) (\<lambda>(ls, s).
     bind_result (print_inputs bld stk b (i + 1) is s) (\<lambda>(ls', s). Ok (ls @ ls', s)))"

fun print_outputs :: "nat \<Rightarrow> block_output list \<Rightarrow> print_item list" where
  "print_outputs i [] = []"
| "print_outputs i (out # outs) =
     PrintOutput (word_of_nat i) (output_value out) (challengeScriptLength out) #
     (if publicKey out ! 0 \<noteq> None then PrintOutputKey (asciiAddress out) (keyTypeName out) else PrintNoOutputKey) #
     print_outputs (i + 1) outs"

fun print_transactions :: "build \<Rightarrow> stack_memory \<Rightarrow> block_impl \<Rightarrow> nat \<Rightarrow> block_transaction list \<Rightarrow> block_chain \<Rightarrow>
    (print_item list \<times> block_chain) result" where
  "print_transactions bld stk b i [] s = Ok ([], s)"
| "print_transactions bld stk b i (t # ts) s =
     bind_result (print_inputs bld stk b 0 (inputs t) s) (\<lambda>(ls, s).
     bind_result (print_transactions bld stk b (i + 1) ts s) (\<lambda>(ls', s).
       Ok (PrintTransaction (word_of_nat i) (inputCount t) (outputCount t) (transactionVersionNumber t) (computedTransactionHash t) #
           ls @ print_outputs 0 (outputs t) @ ls', s)))"

definition printBlock :: "build \<Rightarrow> stack_memory \<Rightarrow> block_impl \<Rightarrow> block_chain \<Rightarrow> (print_item list \<times> block_chain) result" where
  "printBlock bld stk b s =
     bind_result (hash_bytes b (previousBlockHash b)) (\<lambda>prev.
     bind_result (hash_bytes b (merkleRoot b)) (\<lambda>merkle.
     bind_result (print_transactions bld stk b 0 (take (unat (transactionCount b)) (transactions b)) s) (\<lambda>(ls, s).
       Ok ([PrintRule, PrintBlockNumber (blockIndex b), PrintBlockHash (computedBlockHash b), PrintPreviousHash prev] @
           (case nextBlockHash b of Some h \<Rightarrow> [PrintNextHash h] | None \<Rightarrow> []) @
           [PrintMerkleRoot merkle, PrintTransactions (transactionCount b), PrintTimestamp (timeStamp b), PrintBits (bits b),
            PrintSize (blockLength b), PrintVersion (blockFormatVersion b), PrintNonce (nonce b), PrintReward (blockReward b),
            PrintTransactions (transactionCount b)] @ ls @ [PrintRule], s))))"

section \<open>What is to be printed\<close>

text \<open>\<open>T\<close> gives the transaction a hash refers to.\<close>

definition std_text :: "std_script \<Rightarrow> bytes" where
  "std_text s = (if std_type s = KT_SCRIPT_HASH then cstr ''*SCRIPT_HASH*'' else []) @ address_text (std_address s)"

definition input_lines :: "(bytes \<Rightarrow> wire_tx) \<Rightarrow> nat \<Rightarrow> wire_input \<Rightarrow> print_item list" where
  "input_lines T i w =
     PrintInput (word_of_nat i) (word_of_nat (length (wi_script w))) (wi_index w) (wi_hash w) #
     (if wi_index w = 0xFFFFFFFF then []
      else if unat (wi_index w) < length (wt_outputs (T (wi_hash w)))
      then (case wt_outputs (T (wi_hash w)) ! unat (wi_index w) of (v, s) \<Rightarrow> [PrintSpending (std_text s) v])
      else [PrintBadIndex])"

fun inputs_lines :: "(bytes \<Rightarrow> wire_tx) \<Rightarrow> nat \<Rightarrow> wire_input list \<Rightarrow> print_item list" where
  "inputs_lines T i [] = []"
| "inputs_lines T i (w # ws) = input_lines T i w @ inputs_lines T (i + 1) ws"

fun outputs_lines :: "nat \<Rightarrow> (u64 \<times> std_script) list \<Rightarrow> print_item list" where
  "outputs_lines i [] = []"
| "outputs_lines i ((v, s) # xs) =
     PrintOutput (word_of_nat i) v (word_of_nat (length (script_bytes s))) #
     PrintOutputKey (std_text s) (getKeyType (std_type s)) # outputs_lines (i + 1) xs"

fun txs_lines :: "(bytes \<Rightarrow> wire_tx) \<Rightarrow> nat \<Rightarrow> wire_tx list \<Rightarrow> print_item list" where
  "txs_lines T i [] = []"
| "txs_lines T i (t # ts) =
     PrintTransaction (word_of_nat i) (word_of_nat (length (wt_inputs t))) (word_of_nat (length (wt_outputs t))) (wt_version t) (txid t) #
     inputs_lines T 0 (wt_inputs t) @ outputs_lines 0 (wt_outputs t) @ txs_lines T (i + 1) ts"

definition block_value :: "wire_block \<Rightarrow> u64" where
  "block_value w = sum_list (map (\<lambda>t. sum_list (map fst (wt_outputs t))) (wb_txs w))"

definition block_lines :: "(bytes \<Rightarrow> wire_tx) \<Rightarrow> u32 \<Rightarrow> bytes option \<Rightarrow> wire_block \<Rightarrow> print_item list" where
  "block_lines T index next_block w =
     [PrintRule, PrintBlockNumber index, PrintBlockHash (sha256d (take 80 (ser_block w))), PrintPreviousHash (wb_previous w)] @
     (case next_block of Some h \<Rightarrow> [PrintNextHash h] | None \<Rightarrow> []) @
     [PrintMerkleRoot (wb_merkle w), PrintTransactions (word_of_nat (length (wb_txs w))), PrintTimestamp (wb_time w),
      PrintBits (wb_bits w), PrintSize (word_of_nat (length (ser_block w))), PrintVersion (wb_version w), PrintNonce (wb_nonce w),
      PrintReward (block_value w), PrintTransactions (word_of_nat (length (wb_txs w)))] @
     txs_lines T 0 (wb_txs w) @ [PrintRule]"

section \<open>What is printed\<close>

lemma outputs_at_nth:
  "i < length xs \<Longrightarrow> \<exists>q. outputs_at p xs ! i = std_output q (fst (xs ! i)) (snd (xs ! i))"
proof (induction xs arbitrary: p i)
  case (Cons x xs)
  then show ?case by (cases i) auto
qed simp

lemma std_output_key: "publicKey (std_output q v s) ! 0 \<noteq> None" "asciiAddress (std_output q v s) = std_text s"
  "output_value (std_output q v s) = v" "challengeScriptLength (std_output q v s) = word_of_nat (length (script_bytes s))"
  "keyTypeName (std_output q v s) = getKeyType (std_type s)"
  by (simp_all add: std_output_def std_text_def)

lemma print_outputs_at: "print_outputs i (outputs_at p xs) = outputs_lines i xs"
  by (induction xs arbitrary: i p) (auto simp: std_output_key)

lemma looked_up_refl: "transactions (mSingleTransactionBlock s) \<noteq> [] \<Longrightarrow> looked_up s s"
  unfolding looked_up_def
  by (intro exI [of _ "mTransactionBlockBuffer s"] exI [of _ "mSingleTransactionBlock s"] exI [of _ "bc_globals s"])
    (simp add: same_globals_def)

lemma looked_up_trans: "looked_up s s' \<Longrightarrow> looked_up s' s'' \<Longrightarrow> looked_up s s''"
proof -
  assume "looked_up s s'" "looked_up s' s''"
  then obtain buf b g buf' b' g' where
    "s' = s\<lparr>mTransactionBlockBuffer := buf, mSingleTransactionBlock := b, bc_globals := g\<rparr>"
    "s'' = s'\<lparr>mTransactionBlockBuffer := buf', mSingleTransactionBlock := b', bc_globals := g'\<rparr>"
    "length buf = length (mTransactionBlockBuffer s)" "length buf' = length (mTransactionBlockBuffer s')"
    "transactions b' \<noteq> []" "same_globals (bc_globals s) g" "same_globals (bc_globals s') g'"
    unfolding looked_up_def by metis
  then show ?thesis unfolding looked_up_def
    by (intro exI [of _ buf'] exI [of _ b'] exI [of _ g']) (simp add: same_globals_def)
qed

lemma serves_looked_up: "looked_up s s' \<Longrightarrow> serves s' h f tx \<longleftrightarrow> serves s h f tx"
  by (auto simp: looked_up_def serves_def)

lemma looked_up_ready: "looked_up s s' \<Longrightarrow> transactions (mSingleTransactionBlock s') \<noteq> []"
  "looked_up s s' \<Longrightarrow> gReportTransactionHash (bc_globals s') = gReportTransactionHash (bc_globals s)"
  by (auto simp: looked_up_def same_globals_def)

text \<open>The state in which a block can be printed, and the inputs that can be looked up in it.\<close>

definition can_print :: "stack_memory \<Rightarrow> block_chain \<Rightarrow> bool" where
  "can_print stk s \<longleftrightarrow> length (stack_temp stk) = 256 \<and> \<not> gReportTransactionHash (bc_globals s) \<and>
     transactions (mSingleTransactionBlock s) \<noteq> []"

definition input_served :: "(bytes \<Rightarrow> wire_tx) \<Rightarrow> block_chain \<Rightarrow> wire_input \<Rightarrow> bool" where
  "input_served T s w \<longleftrightarrow> wi_index w = 0xFFFFFFFF \<or> (\<exists>f. serves s (wi_hash w) f (T (wi_hash w)))"

lemma served_looked_up: "looked_up s s' \<Longrightarrow> input_served T s' w \<longleftrightarrow> input_served T s w"
  by (simp add: input_served_def serves_looked_up)

lemma can_print_looked_up: "can_print stk s \<Longrightarrow> looked_up s s' \<Longrightarrow> can_print stk s'"
  using looked_up_ready by (auto simp: can_print_def)

lemma print_input_wire:
  assumes "can_print stk s" "wi_ok w" "lies (ser_input w) (mBlockData b) p" "input_served T s w"
  shows "\<exists>s'. print_input bld stk b (word_of_nat i) (input_at p w) s = Ok (input_lines T i w, s') \<and> looked_up s s'"
proof -
  have h: "length (wi_hash w) = 32" using assms(2) by (simp add: wi_ok_def)
  have "lies (wi_hash w) (mBlockData b) p" using lies_append(1) [OF assms(3) [unfolded ser_input_def]] .
  then have hash: "hash_bytes b p = Ok (wi_hash w)"
    using h liesD [of "wi_hash w" "mBlockData b" p] by (cases "wi_hash w") (auto simp: hash_bytes_def lies_def)
  show ?thesis
  proof (cases "wi_index w = 0xFFFFFFFF")
    case True
    then show ?thesis using looked_up_refl assms(1) by (simp add: print_input_def input_at_def hash input_lines_def Let_def can_print_def)
  next
    case False
    then obtain f where f: "serves s (wi_hash w) f (T (wi_hash w))" using assms(4) by (auto simp: input_served_def)
    let ?tx = "T (wi_hash w)"
    obtain s' where s': "readSingleTransaction bld stk (wi_hash w) s = Ok (Some (single_entry f ?tx), s')" "looked_up s s'"
      using readSingleTransaction_wire [OF f] assms(1) by (auto simp: can_print_def)
    have "length (wt_outputs ?tx) < 32768" using f by (simp add: serves_def wt_ok_def)
    then have "unat (word_of_nat (length (wt_outputs ?tx)) :: u32) = length (wt_outputs ?tx)" by (simp add: unat_word_of_nat_small)
    then have lt: "wi_index w < outputCount (single_entry f ?tx) \<longleftrightarrow> unat (wi_index w) < length (wt_outputs ?tx)"
      by (simp add: single_entry_def tx_at_def Let_def word_less_nat_alt)
    obtain q where q: "outputs (single_entry f ?tx) = outputs_at q (wt_outputs ?tx)" by (simp add: single_entry_def tx_at_def Let_def)
    show ?thesis
    proof (cases "unat (wi_index w) < length (wt_outputs ?tx)")
      case True
      then obtain q' where "outputs (single_entry f ?tx) ! unat (wi_index w) =
          std_output q' (fst (wt_outputs ?tx ! unat (wi_index w))) (snd (wt_outputs ?tx ! unat (wi_index w)))"
        using outputs_at_nth unfolding q by blast
      then show ?thesis using True False s' lt
        by (simp add: print_input_def input_at_def hash input_lines_def Let_def std_output_key split: prod.split)
    next
      case no: False
      then show ?thesis using False s' lt by (simp add: print_input_def input_at_def hash input_lines_def Let_def)
    qed
  qed
qed

lemma print_inputs_wire:
  assumes "can_print stk s" "\<forall>w \<in> set ws. wi_ok w" "lies (concat (map ser_input ws)) (mBlockData b) p"
    "\<forall>w \<in> set ws. input_served T s w"
  shows "\<exists>s'. print_inputs bld stk b i (inputs_at p ws) s = Ok (inputs_lines T i ws, s') \<and> looked_up s s'"
  using assms
proof (induction ws arbitrary: s i p)
  case Nil
  then show ?case using looked_up_refl by (simp add: can_print_def)
next
  case (Cons w ws)
  have l: "lies (ser_input w) (mBlockData b) p" "lies (concat (map ser_input ws)) (mBlockData b) (p + length (ser_input w))"
    using lies_append [of "ser_input w"] Cons.prems(3) by simp_all
  obtain s1 where s1: "print_input bld stk b (word_of_nat i) (input_at p w) s = Ok (input_lines T i w, s1)" "looked_up s s1"
    using print_input_wire [OF Cons.prems(1) _ l(1), of T bld i] Cons.prems(2,4) by auto
  then obtain s2 where s2: "print_inputs bld stk b (i + 1) (inputs_at (p + length (ser_input w)) ws) s1 = Ok (inputs_lines T (i + 1) ws, s2)"
    "looked_up s1 s2"
    using Cons.IH [OF can_print_looked_up [OF Cons.prems(1) s1(2)] _ l(2), of "i + 1"] Cons.prems(2,4) served_looked_up [OF s1(2)] by auto
  then show ?case using s1 looked_up_trans by fastforce
qed

lemma print_transactions_wire:
  assumes "can_print stk s" "\<forall>t \<in> set ts. wt_ok t" "lies (concat (map ser_tx ts)) (mBlockData b) p"
    "\<forall>t \<in> set ts. \<forall>w \<in> set (wt_inputs t). input_served T s w"
  shows "\<exists>s'. print_transactions bld stk b i (txs_at c p index ts) s = Ok (txs_lines T i ts, s') \<and> looked_up s s'"
  using assms
proof (induction ts arbitrary: s i p index)
  case Nil
  then show ?case using looked_up_refl by (simp add: can_print_def)
next
  case (Cons t ts)
  have l: "lies (ser_tx t) (mBlockData b) p" "lies (concat (map ser_tx ts)) (mBlockData b) (p + length (ser_tx t))"
    using lies_append [of "ser_tx t"] Cons.prems(3) by simp_all
  let ?p = "p + 4 + length (varint (length (wt_inputs t)))"
  have "lies (concat (map ser_input (wt_inputs t))) (mBlockData b) ?p"
    using lies_append(1) [OF lies_append(2) [OF lies_append(2) [OF l(1) [unfolded ser_tx_def]]]] by simp
  then obtain s1 where s1: "print_inputs bld stk b 0 (inputs_at ?p (wt_inputs t)) s = Ok (inputs_lines T 0 (wt_inputs t), s1)" "looked_up s s1"
    using print_inputs_wire [OF Cons.prems(1)] Cons.prems(2,4) by (metis list.set_intros(1) wt_ok_def)
  then obtain s2 where s2: "print_transactions bld stk b (i + 1) (txs_at c (p + length (ser_tx t)) (index + 1) ts) s1 = Ok (txs_lines T (i + 1) ts, s2)"
    "looked_up s1 s2"
    using Cons.IH [OF can_print_looked_up [OF Cons.prems(1) s1(2)] _ l(2), of "i + 1" "index + 1"] Cons.prems(2,4) served_looked_up [OF s1(2)] by auto
  have "looked_up s s2" by (rule looked_up_trans [OF s1(2) s2(2)])
  then show ?case using s1(1) s2(1) by (simp add: tx_at_def Let_def print_outputs_at txid_def)
qed

lemma printBlock_wire:
  assumes "can_print stk s'" "wb_ok w" "block_read index w s s'" "mBlockLength (mBlockChainHeaders s ! unat index) = word_of_nat (length (ser_block w))"
    "\<forall>t \<in> set (wb_txs w). \<forall>i \<in> set (wt_inputs t). input_served T s' i"
  shows "\<exists>s''. printBlock bld stk (mSingleReadBlock s') s' = Ok (block_lines T index (next_hash index s) w, s'') \<and> looked_up s' s''"
proof -
  let ?b = "mSingleReadBlock s'"
  have b: "holds_block (prepared index s) (mTransactionCount s) w ?b" "lies (ser_block w) (mBlockData ?b) 0"
    "computedBlockHash ?b = sha256d (take 80 (ser_block w))" "blockIndex ?b = index" "nextBlockHash ?b = next_hash index s"
    "blockLength ?b = word_of_nat (length (ser_block w))"
    using assms(3,4) by (simp_all add: block_read_def Let_def)
  have n: "unat (transactionCount ?b) = length (wb_txs w)"
    using b(1) assms(2) by (simp add: holds_block_def wb_ok_def unat_word32_of_nat)
  have inside: "hash_bytes ?b q = Ok h" if "take 32 (drop q (mBlockData ?b)) = h" "length h = 32" for q h
    using that drop_take_known [of h q "mBlockData ?b"] by (cases h) (auto simp: hash_bytes_def)
  have hashes: "hash_bytes ?b (previousBlockHash ?b) = Ok (wb_previous w)" "hash_bytes ?b (merkleRoot ?b) = Ok (wb_merkle w)"
    using b(1) assms(2) by (auto intro!: inside simp: holds_block_def wb_ok_def)
  have ts: "take (unat (transactionCount ?b)) (transactions ?b) = txs_at (prepared index s) (txs_offset w) (mTransactionCount s) (wb_txs w)"
    unfolding n using b(1) by (simp add: holds_block_def txs_offset_def)
  have "ser_block w = take (txs_offset w) (ser_block w) @ concat (map ser_tx (wb_txs w))" "txs_offset w \<le> length (ser_block w)"
    using assms(2) by (simp_all add: wb_ok_def ser_block_def txs_offset_def)
  then have "lies (concat (map ser_tx (wb_txs w))) (mBlockData ?b) (txs_offset w)"
    using b(2) lies_append(2) [of "take (txs_offset w) (ser_block w)" _ _ 0] by (metis length_take min.absorb2 add_0)
  then obtain s'' where "print_transactions bld stk ?b 0 (txs_at (prepared index s) (txs_offset w) (mTransactionCount s) (wb_txs w)) s' =
      Ok (txs_lines T 0 (wb_txs w), s'')" "looked_up s' s''"
    using print_transactions_wire [OF assms(1)] assms(2,5) by (metis wb_ok_def)
  moreover have "blockReward ?b = block_value w" using b(1) by (simp add: holds_block_def block_value_def prepared_def Let_def)
  moreover have "transactionCount ?b = word_of_nat (length (wb_txs w))" "timeStamp ?b = wb_time w" "bits ?b = wb_bits w"
    "nonce ?b = wb_nonce w" "blockFormatVersion ?b = wb_version w" using b(1) by (simp_all add: holds_block_def)
  ultimately show ?thesis
    unfolding printBlock_def ts using hashes b(3-6) by (simp add: block_lines_def)
qed

section \<open>Property\<close>

text \<open>Where the transaction an input refers to comes from: an earlier block, or the block itself.\<close>

definition input_source :: "(bytes \<Rightarrow> wire_tx) \<Rightarrow> wire_block \<Rightarrow> block_chain \<Rightarrow> wire_input \<Rightarrow> bool" where
  "input_source T w s i \<longleftrightarrow> wi_index i = 0xFFFFFFFF \<or> (\<exists>f. serves s (wi_hash i) f (T (wi_hash i))) \<or>
     (\<exists>k < length (wb_txs w). wi_hash i = txid (wb_txs w ! k) \<and> T (wi_hash i) = wb_txs w ! k \<and>
        set_find (Hash256 (wi_hash i)) (mTransactionSet s) = None \<and> (\<forall>j < k. Hash256 (txid (wb_txs w ! j)) \<noteq> Hash256 (wi_hash i)) \<and>
        length (ser_tx (wb_txs w ! k)) < MAX_BLOCK_SIZE \<and> length (ser_tx (wb_txs w ! k)) \<le> length (mTransactionBlockBuffer s))"

lemma input_source_known: "\<forall>t \<in> set (wb_txs w). \<forall>i \<in> set (wt_inputs t). input_source T w s i \<Longrightarrow> inputs_known (mTransactionSet s) w"
  unfolding inputs_known_def input_source_def serves_def by (metis nth_mem option.distinct(1))

lemma input_source_served:
  assumes "block_ready index w s" "block_read index w s s'" "input_source T w s i"
    "unat (mFileOffset (mBlockChainHeaders s ! unat index)) + length (ser_block w) < 2 ^ 32"
  shows "input_served T s' i"
  using assms(3) unfolding input_source_def
proof (elim disjE exE conjE)
  fix f assume "serves s (wi_hash i) f (T (wi_hash i))"
  then show ?thesis using block_read_serves_before [OF assms(1,2) _ assms(4)] by (auto simp: input_served_def)
next
  fix k assume k: "k < length (wb_txs w)" "wi_hash i = txid (wb_txs w ! k)" "T (wi_hash i) = wb_txs w ! k"
    "set_find (Hash256 (wi_hash i)) (mTransactionSet s) = None" "\<forall>j < k. Hash256 (txid (wb_txs w ! j)) \<noteq> Hash256 (wi_hash i)"
    "length (ser_tx (wb_txs w ! k)) < MAX_BLOCK_SIZE" "length (ser_tx (wb_txs w ! k)) \<le> length (mTransactionBlockBuffer s)"
  show ?thesis
    using block_read_serves [OF assms(1,2) k(1) _ _ k(6,7) assms(4)] k(2-5) by (auto simp: input_served_def)
qed (simp add: input_served_def)

text \<open>
  C10: a block that has been read is printed as it is. When each input that is not a coinbase refers to a transaction that is in the
  index or in the block itself, \<open>readBlock\<close> and then \<open>printBlock\<close> print the header, every transaction with its hash, for each
  input the address and the amount of the very output it spends (or that its index is invalid), and every output
  with its address; and printing changes nothing but the buffers of the look-ups, so the chain, its index and the
  positions of its files are as before.
\<close>

theorem printBlock_after_readBlock:
  assumes "block_ready index w s" "length (stack_temp stk) = 256" "transactions (mSingleTransactionBlock s) \<noteq> []"
    and "\<forall>t \<in> set (wb_txs w). \<forall>i \<in> set (wt_inputs t). input_source T w s i"
    and "unat (mFileOffset (mBlockChainHeaders s ! unat index)) + length (ser_block w) < 2 ^ 32"
  shows "\<exists>s' s''. readBlock bld stk can_open index s = Ok (True, s') \<and>
    printBlock bld stk (mSingleReadBlock s') s' = Ok (block_lines T index (next_hash index s) w, s'') \<and> looked_up s' s''"
proof -
  obtain s' where s': "readBlock bld stk can_open index s = Ok (True, s')" "block_read index w s s'"
    using readBlock_wire [OF assms(1,2), of bld can_open] input_source_known [OF assms(4)] by auto
  have w: "wb_ok w" "mBlockLength (mBlockChainHeaders s ! unat index) = word_of_nat (length (ser_block w))"
    using assms(1) by (simp_all add: block_ready_def Let_def)
  have "can_print stk s'" using s'(2) assms(2,3) by (simp add: can_print_def block_read_def Let_def)
  moreover have "\<forall>t \<in> set (wb_txs w). \<forall>i \<in> set (wt_inputs t). input_served T s' i"
    using input_source_served [OF assms(1) s'(2) _ assms(5)] assms(4) by blast
  ultimately show ?thesis using printBlock_wire [OF _ w(1) s'(2) w(2)] s'(1) by blast
qed

definition spend_tx :: wire_tx where
  "spend_tx = \<lparr>wt_version = 1,
     wt_inputs = [\<lparr>wi_hash = txid coinbase_tx, wi_index = 1, wi_script = [4], wi_sequence = 6\<rparr>],
     wt_outputs = [(5, P2PKH (replicate 20 3))], wt_lock = 0\<rparr>"

definition spend_block :: wire_block where
  "spend_block = coinbase_block\<lparr>wb_txs := [coinbase_tx, spend_tx]\<rparr>"

definition spend_chain :: block_chain where
  "spend_chain = two_blocks\<lparr>mBlockDataFiles := [\<lparr>file_data = [1, 2, 3] @ ser_block spend_block @ [4], file_pos = 7\<rparr>],
     mBlockChainHeaders := replicate 2 (BlockHeader (Hash256 (replicate 32 5)) 0 3 286 (replicate 32 0))\<rparr>"

lemma length_spend: "length (ser_tx spend_tx) = 86" "length (ser_block spend_block) = 286"
  by (simp_all add: spend_block_def spend_tx_def coinbase_block_def coinbase_tx_def ser_block_def ser_tx_def ser_input_def ser_output_def
      varint_def txid_def)

lemma spend_ok: "wt_ok spend_tx" "wb_ok spend_block"
proof -
  show tx: "wt_ok spend_tx" using length_spend(1) by (simp add: wt_ok_def) (simp add: spend_tx_def wi_ok_def txid_def)
  have "length (wt_inputs coinbase_tx) = 1" "length (wt_outputs coinbase_tx) = 2" "length (wt_inputs spend_tx) = 1"
    "length (wt_outputs spend_tx) = 1" by (simp_all add: coinbase_tx_def spend_tx_def)
  then show "wb_ok spend_block"
    using length_spend(2) tx coinbase_ok by (simp add: wb_ok_def) (simp add: spend_block_def coinbase_block_def)
qed

lemma spend_chain_ready: "block_ready 0 spend_block spend_chain"
  using spend_ok length_spend
  by (simp add: block_ready_def spend_chain_def two_blocks_def Let_def BlockHeader_def hash256.defs block_header.defs lies_def no_globals_def)
    (simp add: spend_block_def)

theorem printBlock_after_readBlock_witness:
  "\<exists>s' s''. readBlock Debug \<lparr>stack_key32 = 7, stack_temp = replicate 256 1\<rparr> True 0 spend_chain = Ok (True, s') \<and>
     printBlock Debug \<lparr>stack_key32 = 7, stack_temp = replicate 256 1\<rparr> (mSingleReadBlock s') s' =
       Ok (block_lines (\<lambda>_. coinbase_tx) 0 (next_hash 0 spend_chain) spend_block, s'') \<and>
     PrintSpending (std_text (P2SH (replicate 20 8))) 7 \<in> set (block_lines (\<lambda>_. coinbase_tx) 0 (next_hash 0 spend_chain) spend_block)"
proof -
  have "input_source (\<lambda>_. coinbase_tx) spend_block spend_chain i" if "t \<in> set (wb_txs spend_block)" "i \<in> set (wt_inputs t)" for t i
  proof (cases "wi_index i = 0xFFFFFFFF")
    case False
    then have "i \<in> set (wt_inputs spend_tx)" using that by (auto simp: spend_block_def coinbase_block_def coinbase_tx_def)
    then have "wi_hash i = txid (wb_txs spend_block ! 0)" by (simp add: spend_tx_def spend_block_def)
    moreover have "wb_txs spend_block ! 0 = coinbase_tx" "0 < length (wb_txs spend_block)" by (simp_all add: spend_block_def)
    ultimately show ?thesis using length_coinbase(1) unfolding input_source_def
      by (intro disjI2 exI [of _ 0]) (simp add: set_find_eq spend_chain_def two_blocks_def limits)
  qed (simp add: input_source_def)
  moreover have "transactions (mSingleTransactionBlock spend_chain) \<noteq> []"
    "unat (mFileOffset (mBlockChainHeaders spend_chain ! unat 0)) + length (ser_block spend_block) < 2 ^ 32"
    using length_spend(2) by (simp_all add: spend_chain_def two_blocks_def BlockHeader_def hash256.defs block_header.defs)
  moreover have "length (stack_temp \<lparr>stack_key32 = 7, stack_temp = replicate 256 1\<rparr>) = 256" by simp
  ultimately have "\<exists>s' s''. readBlock Debug \<lparr>stack_key32 = 7, stack_temp = replicate 256 1\<rparr> True 0 spend_chain = Ok (True, s') \<and>
     printBlock Debug \<lparr>stack_key32 = 7, stack_temp = replicate 256 1\<rparr> (mSingleReadBlock s') s' =
       Ok (block_lines (\<lambda>_. coinbase_tx) 0 (next_hash 0 spend_chain) spend_block, s'') \<and> looked_up s' s''"
    using printBlock_after_readBlock [OF spend_chain_ready] by blast
  moreover have "PrintSpending (std_text (P2SH (replicate 20 8))) 7 \<in> set (block_lines (\<lambda>_. coinbase_tx) 0 (next_hash 0 spend_chain) spend_block)"
    by (simp add: block_lines_def spend_block_def spend_tx_def input_lines_def) (simp add: coinbase_tx_def)
  ultimately show ?thesis by blast
qed
end
