(* ===== verification/KeyValue.thy ===== *)
theory KeyValue
  imports Prelude "HOL-Library.List_Lexorder" "HOL-Library.RBT"
begin

text \<open>
  Class \<open>KeyValueDatabaseImpl\<close> of src/src/KeyValueDatabase.cpp: iterating over the entries of a database whose keys start
  with a prefix. The database itself is LevelDB, whose iterator is a parameter: its operations are the record
  \<open>iterator_ops\<close>, and what src/include/leveldb/iterator.h promises about them is the locale \<open>leveldb\<close>. Keys
  are compared as byte strings.
\<close>

section \<open>The iterator of the database\<close>

record 'it iterator_ops =
  Seek :: "bytes \<Rightarrow> 'it"
  SeekToFirst :: "'it"
  Valid :: "'it \<Rightarrow> bool"
  it_key :: "'it \<Rightarrow> bytes"
  it_value :: "'it \<Rightarrow> bytes"
  Next :: "'it \<Rightarrow> 'it"

text \<open>
  The contract: the keys are in strictly ascending order, and an iterator in a state that the operations lead to (\<open>ok\<close>)
  stands before a suffix \<open>rest\<close> of the entries.
\<close>

locale leveldb =
  fixes ops :: "'it iterator_ops" and entries :: "(bytes \<times> bytes) list" and ok :: "'it \<Rightarrow> bool"
    and rest :: "'it \<Rightarrow> (bytes \<times> bytes) list"
  assumes keys_sorted: "sorted_wrt (<) (map fst entries)"
    and ok_Seek: "ok (Seek ops k)"
    and ok_SeekToFirst: "ok (SeekToFirst ops)"
    and ok_Next: "ok it \<Longrightarrow> rest it \<noteq> [] \<Longrightarrow> ok (Next ops it)"
    and rest_Seek: "rest (Seek ops k) = dropWhile (\<lambda>e. fst e < k) entries"
    and rest_SeekToFirst: "rest (SeekToFirst ops) = entries"
    and Valid_rest: "ok it \<Longrightarrow> Valid ops it \<longleftrightarrow> rest it \<noteq> []"
    and key_rest: "ok it \<Longrightarrow> rest it \<noteq> [] \<Longrightarrow> it_key ops it = fst (hd (rest it))"
    and value_rest: "ok it \<Longrightarrow> rest it \<noteq> [] \<Longrightarrow> it_value ops it = snd (hd (rest it))"
    and rest_Next: "ok it \<Longrightarrow> rest it \<noteq> [] \<Longrightarrow> rest (Next ops it) = tl (rest it)"

section \<open>The operations\<close>

record 'it key_value_database =
  mPrefix :: bytes
  mDatabase :: "'it iterator_ops option"
  mIterator :: "'it option"

text \<open>\<open>opened\<close> is what \<open>leveldb::DB::Open\<close> gives: a database, or none when the status is not ok.\<close>

definition KeyValueDatabaseImpl :: "'it iterator_ops option \<Rightarrow> 'it key_value_database" where
  "KeyValueDatabaseImpl opened = \<lparr>mPrefix = [], mDatabase = opened, mIterator = None\<rparr>"

definition isValid :: "'it key_value_database \<Rightarrow> bool" where
  "isValid db \<longleftrightarrow> mDatabase db \<noteq> None"

definition create_database :: "'it iterator_ops option \<Rightarrow> 'it key_value_database option" where
  "create_database opened = (let ret = KeyValueDatabaseImpl opened in if isValid ret then Some ret else None)"

text \<open>A null pointer as prefix is \<open>None\<close>; a C string is read up to its terminating zero.\<close>

definition c_string :: "bytes \<Rightarrow> bytes" where
  "c_string s = takeWhile (\<lambda>c. c \<noteq> 0) s"

definition kv_begin :: "bytes option \<Rightarrow> 'it key_value_database \<Rightarrow> bool \<times> 'it key_value_database" where
  "kv_begin prefix db =
     (case mDatabase db of
        None \<Rightarrow> (False, db)
      | Some ops \<Rightarrow>
          let p = (case prefix of Some s \<Rightarrow> c_string s | None \<Rightarrow> []);
              db = db\<lparr>mPrefix := p\<rparr>;
              it = (if p \<noteq> [] then Seek ops p else SeekToFirst ops)
          in if Valid ops it then (True, db\<lparr>mIterator := Some it\<rparr>) else (False, db\<lparr>mIterator := None\<rparr>))"

text \<open>\<open>strncmp(a, b, n) == 0\<close>.\<close>

definition strncmp_eq :: "bytes \<Rightarrow> bytes \<Rightarrow> nat \<Rightarrow> bool" where
  "strncmp_eq a b n \<longleftrightarrow> take n (c_string a @ [0]) = take n (c_string b @ [0])"

text \<open>The reference parameters are returned; they keep their values when there is no next entry.\<close>

definition kv_next :: "bytes \<Rightarrow> bytes \<Rightarrow> 'it key_value_database \<Rightarrow> (bool \<times> bytes \<times> bytes) \<times> 'it key_value_database" where
  "kv_next key value db =
     (case (mDatabase db, mIterator db) of
        (Some ops, Some it) \<Rightarrow>
          if Valid ops it then
            let key = it_key ops it; value = it_value ops it; it = Next ops it
            in if mPrefix db \<noteq> [] \<and> \<not> strncmp_eq (mPrefix db) key (length (mPrefix db))
               then ((False, key, value), db\<lparr>mIterator := None\<rparr>)
               else ((True, key, value), db\<lparr>mIterator := Some it\<rparr>)
          else ((False, key, value), db\<lparr>mIterator := None\<rparr>)
      | _ \<Rightarrow> ((False, key, value), db))"

section \<open>Prefixes in key order\<close>

definition has_prefix :: "bytes \<Rightarrow> bytes \<Rightarrow> bool" where
  "has_prefix p k \<longleftrightarrow> take (length p) k = p"

lemma has_prefix_Nil [simp]: "has_prefix [] k"
  by (simp add: has_prefix_def)

lemma has_prefix_Cons [simp]: "has_prefix (a # p) k \<longleftrightarrow> (\<exists>k'. k = a # k' \<and> has_prefix p k')"
  by (cases k) (auto simp: has_prefix_def)

lemma strncmp_prefix:
  "0 \<notin> set p \<Longrightarrow> strncmp_eq p k (length p) \<longleftrightarrow> has_prefix p k"
proof (induction p arbitrary: k)
  case (Cons a p)
  then show ?case by (cases k) (auto simp: strncmp_eq_def c_string_def)
qed (simp add: strncmp_eq_def)

lemma prefix_le: "has_prefix p k \<Longrightarrow> p \<le> k"
  by (induction p arbitrary: k) auto

lemma prefix_between: "p \<le> k \<Longrightarrow> k \<le> k' \<Longrightarrow> has_prefix p k' \<Longrightarrow> has_prefix p k"
proof (induction p arbitrary: k k')
  case (Cons a p)
  then show ?case by (cases k; cases k') auto
qed simp

text \<open>In a sorted list the keys with a prefix form the first part of what is not below the prefix.\<close>

lemma sorted_prefix_run:
  assumes "sorted_wrt (<) (map fst es)"
  shows "takeWhile (\<lambda>e. has_prefix p (fst e)) (dropWhile (\<lambda>e. fst e < p) es) = filter (\<lambda>e. has_prefix p (fst e)) es"
  using assms
proof (induction es)
  case (Cons e es)
  show ?case
  proof (cases "fst e < p")
    case True
    then have "\<not> has_prefix p (fst e)" using prefix_le by fastforce
    then show ?thesis using True Cons by simp
  next
    case False
    have ge: "\<forall>x \<in> set es. \<not> fst x < p" using Cons.prems False by (auto simp: not_less dest: less_le_trans le_less_trans less_imp_le)
    then have drop: "dropWhile (\<lambda>e. fst e < p) es = es" by (cases es) auto
    show ?thesis
    proof (cases "has_prefix p (fst e)")
      case True
      then show ?thesis using False Cons drop by simp
    next
      case no: False
      have "\<not> has_prefix p (fst x)" if "x \<in> set es" for x
      proof
        assume "has_prefix p (fst x)"
        moreover have "fst e \<le> fst x" using Cons.prems that by auto
        moreover have "p \<le> fst e" using False by (rule leI)
        ultimately show False using prefix_between no by blast
      qed
      then show ?thesis using False no by simp
    qed
  qed
qed simp

section \<open>What iterating yields\<close>

text \<open>The entries that calls of \<open>next\<close> return, one after the other, until it returns false.\<close>

fun kv_collect :: "nat \<Rightarrow> 'it key_value_database \<Rightarrow> (bytes \<times> bytes) list option" where
  "kv_collect 0 db = None"
| "kv_collect (Suc fuel) db =
     (case kv_next [] [] db of
        ((True, key, value), db) \<Rightarrow> map_option ((#) (key, value)) (kv_collect fuel db)
      | ((False, _), _) \<Rightarrow> Some [])"

text \<open>The entries that an iteration with the prefix \<open>p\<close> has still to return.\<close>

definition to_come :: "bytes \<Rightarrow> (bytes \<times> bytes) list \<Rightarrow> (bytes \<times> bytes) list" where
  "to_come p es = takeWhile (\<lambda>e. has_prefix p (fst e)) es"

context leveldb
begin

lemma next_step:
  assumes "mDatabase db = Some ops" "mIterator db = Some it" "ok it" "0 \<notin> set (mPrefix db)"
  shows "case to_come (mPrefix db) (rest it) of
      [] \<Rightarrow> \<exists>k v db'. kv_next key value db = ((False, k, v), db') \<and> mIterator db' = None
    | e # es \<Rightarrow> kv_next key value db = ((True, fst e, snd e), db\<lparr>mIterator := Some (Next ops it)\<rparr>) \<and>
        es = to_come (mPrefix db) (rest (Next ops it)) \<and> ok (Next ops it)"
proof (cases "rest it")
  case Nil
  then show ?thesis using assms by (simp add: to_come_def kv_next_def Valid_rest)
next
  case (Cons e es)
  then show ?thesis
    using assms key_rest [of it] value_rest [of it] rest_Next [of it] ok_Next [of it]
    by (auto simp: to_come_def kv_next_def Valid_rest strncmp_prefix Let_def)
qed

lemma collect:
  assumes "mDatabase db = Some ops" "mIterator db = Some it" "ok it" "0 \<notin> set (mPrefix db)" "length (to_come (mPrefix db) (rest it)) < fuel"
  shows "kv_collect fuel db = Some (to_come (mPrefix db) (rest it))"
  using assms
proof (induction fuel arbitrary: db it)
  case (Suc fuel)
  note step = next_step [OF Suc.prems(1-4), of "[]" "[]"]
  show ?case
  proof (cases "to_come (mPrefix db) (rest it)")
    case Nil
    then show ?thesis using step by auto
  next
    case (Cons e es)
    then have n: "kv_next [] [] db = ((True, fst e, snd e), db\<lparr>mIterator := Some (Next ops it)\<rparr>)"
      "es = to_come (mPrefix db) (rest (Next ops it))" "ok (Next ops it)" using step by simp_all
    have "kv_collect fuel (db\<lparr>mIterator := Some (Next ops it)\<rparr>) = Some es"
      using Suc.IH [of "db\<lparr>mIterator := Some (Next ops it)\<rparr>" "Next ops it"] Suc.prems Cons n(2,3) by simp
    then show ?thesis using n(1) Cons by simp
  qed
qed simp

lemma begin_rest:
  assumes "mDatabase db = Some ops" "0 \<notin> set p"
  obtains found db' where "kv_begin (Some p) db = (found, db')" "mDatabase db' = Some ops" "mPrefix db' = p"
    "found \<longleftrightarrow> mIterator db' \<noteq> None"
    "case mIterator db' of Some it \<Rightarrow> ok it \<and> to_come p (rest it) = filter (\<lambda>e. has_prefix p (fst e)) entries
     | None \<Rightarrow> filter (\<lambda>e. has_prefix p (fst e)) entries = []"
proof -
  have c: "c_string p = p" using assms(2) by (auto simp: c_string_def takeWhile_eq_all_conv)
  define it where "it = (if p \<noteq> [] then Seek ops p else SeekToFirst ops)"
  have okit: "ok it" by (simp add: it_def ok_Seek ok_SeekToFirst)
  have run: "to_come p (rest it) = filter (\<lambda>e. has_prefix p (fst e)) entries"
    using sorted_prefix_run [OF keys_sorted] by (simp add: it_def to_come_def rest_Seek rest_SeekToFirst)
  show thesis
  proof (cases "Valid ops it")
    case True
    show thesis
      by (rule that [of True "db\<lparr>mPrefix := p, mIterator := Some it\<rparr>"])
        (use assms True run okit in \<open>simp_all add: kv_begin_def c it_def Let_def\<close>)
  next
    case False
    then have "filter (\<lambda>e. has_prefix p (fst e)) entries = []" using run okit by (simp add: Valid_rest to_come_def)
    then show thesis
      by (intro that [of False "db\<lparr>mPrefix := p, mIterator := None\<rparr>"])
        (use assms False in \<open>simp_all add: kv_begin_def c it_def Let_def\<close>)
  qed
qed

end

text \<open>A database kept in memory, as a list or as a search tree: its iterators are the entries still to come.\<close>

definition list_ops :: "(bytes \<times> bytes) list \<Rightarrow> (bytes \<times> bytes) list iterator_ops" where
  "list_ops es = \<lparr>Seek = (\<lambda>k. dropWhile (\<lambda>e. fst e < k) es), SeekToFirst = es,
     Valid = (\<lambda>r. r \<noteq> []), it_key = (\<lambda>r. fst (hd r)), it_value = (\<lambda>r. snd (hd r)), Next = tl\<rparr>"

lemma list_ops_leveldb: "sorted_wrt (<) (map fst es) \<Longrightarrow> leveldb (list_ops es) es (\<lambda>r. True) (\<lambda>r. r)"
  by unfold_locales (simp_all add: list_ops_def)

definition snapshot_ops :: "(bytes, bytes) rbt \<Rightarrow> (bytes \<times> bytes) list iterator_ops" where
  "snapshot_ops t = list_ops (RBT.entries t)"

lemma sorted_keys: "sorted_wrt (<) (map fst (RBT.entries (t :: (bytes, bytes) rbt)))"
  using RBT.sorted_entries [of t] RBT.distinct_entries [of t] by (simp add: strict_sorted_iff)

interpretation snapshot: leveldb "snapshot_ops t" "RBT.entries t" "\<lambda>r. True" "\<lambda>r. r" for t
  unfolding snapshot_ops_def by (rule list_ops_leveldb [OF sorted_keys])

lemma kv_iteration_entries:
  assumes "leveldb ops entries ok rest" "0 \<notin> set p" "create_database (Some ops) = Some db" "kv_begin (Some p) db = (found, db')"
  shows "(if found then kv_collect (Suc (length entries)) db' else Some []) = Some (filter (\<lambda>e. has_prefix p (fst e)) entries)"
proof -
  have db: "mDatabase db = Some ops"
    using assms(3) by (auto simp: create_database_def KeyValueDatabaseImpl_def isValid_def Let_def)
  obtain found1 db1 where b: "kv_begin (Some p) db = (found1, db1)" "mDatabase db1 = Some ops" "mPrefix db1 = p"
    "found1 \<longleftrightarrow> mIterator db1 \<noteq> None"
    "case mIterator db1 of Some it \<Rightarrow> ok it \<and> to_come p (rest it) = filter (\<lambda>e. has_prefix p (fst e)) entries
     | None \<Rightarrow> filter (\<lambda>e. has_prefix p (fst e)) entries = []"
    by (rule leveldb.begin_rest [OF assms(1) db assms(2)])
  have len: "length (filter P entries) < Suc (length entries)" for P by (simp add: le_imp_less_Suc)
  show ?thesis
    using b assms(2,4) len leveldb.collect [OF assms(1) b(2), of _ "Suc (length entries)"]
    by (cases "mIterator db1") auto
qed

text \<open>
  C23: iterating with a prefix. Over any database that keeps the contract of LevelDB, \<open>begin\<close> with a prefix (that has no zero
  byte) and then \<open>next\<close> until it returns false yields exactly the entries whose keys start with the prefix, each once, in
  key order, after at most one call more than there are entries; when \<open>begin\<close> returns false there are none.
\<close>

theorem kv_iteration:
  assumes "leveldb ops entries ok rest" "0 \<notin> set p" "create_database (Some ops) = Some db" "kv_begin (Some p) db = (found, db')"
  shows "(if found then kv_collect (Suc (length entries)) db' else Some []) = Some (filter (\<lambda>e. has_prefix p (fst e)) entries)"
  by (rule kv_iteration_entries [OF assms])

theorem kv_iteration_witness:
  "kv_collect 4 (snd (kv_begin (Some [98]) (KeyValueDatabaseImpl (Some (snapshot_ops
      (RBT.bulkload [([97], [1]), ([98, 0], [2]), ([99], [3])])))))) = Some [([98, 0], [2])]"
proof -
  let ?t = "RBT.bulkload [([97], [1]), ([98, 0], [2]), ([99], [3])] :: (bytes, bytes) rbt"
  have e: "RBT.entries ?t = [([97], [1]), ([98, 0], [2]), ([99], [3])]" by code_simp
  have b: "kv_begin (Some [98]) (KeyValueDatabaseImpl (Some (snapshot_ops ?t))) =
      (True, snd (kv_begin (Some [98]) (KeyValueDatabaseImpl (Some (snapshot_ops ?t)))))"
    by (simp add: kv_begin_def KeyValueDatabaseImpl_def c_string_def snapshot_ops_def list_ops_def e)
  have n: "Suc (length (RBT.entries ?t)) = 4" by (simp add: e)
  have c: "create_database (Some (snapshot_ops ?t)) = Some (KeyValueDatabaseImpl (Some (snapshot_ops ?t)))" "0 \<notin> set [98 :: u8]"
    by (simp_all add: create_database_def isValid_def KeyValueDatabaseImpl_def)
  show ?thesis
    using kv_iteration [OF snapshot.leveldb_axioms [of ?t] c(2,1) b, unfolded n, unfolded e] by (simp del: kv_collect.simps)
qed
end
