(* ===== verification/BlockIndex.thy ===== *)
theory BlockIndex
  imports Prelude
begin

text \<open>
  Class \<open>CBlockIndex\<close> of src/include/CBlockIndex.h: the entry of the node's block index database, its custom
  variable-length integers and its parser; and the reader of protocol integers of src/include/varint.h. Memory is the list
  of the bytes that may be read from the pointer on; a returned pointer is the rest of that list.
\<close>

section \<open>Variable-length integers\<close>

text \<open>The loop of \<open>readVarint128\<close>, with the value accumulated so far.\<close>

fun varint128_loop :: "bytes \<Rightarrow> u64 \<Rightarrow> (u64 \<times> bytes) result" where
  "varint128_loop [] value = Fault OutOfBounds"
| "varint128_loop (byte # ret) value =
     (let value = push_bit 7 value OR ucast (byte AND 0x7F)
      in if byte AND 0x80 \<noteq> 0 then varint128_loop ret (value + 1) else Ok (value, ret))"

definition readVarint128 :: "bytes \<Rightarrow> (u64 \<times> bytes) result" where
  "readVarint128 data = varint128_loop data 0"

text \<open>A load of \<open>n\<close> bytes, and the reader of src/include/varint.h.\<close>

definition load :: "nat \<Rightarrow> bytes \<Rightarrow> bytes result" where
  "load n data = (if n \<le> length data then Ok (take n data) else Fault OutOfBounds)"

definition readVariableLengthInteger64 :: "bytes \<Rightarrow> (u64 \<times> bytes) result" where
  "readVariableLengthInteger64 data =
     bind_result (load 1 data) (\<lambda>b. let v8 = (load_le b :: u8) in
       if v8 < 0xFD then Ok (ucast v8, drop 1 data)
       else bind_result (load 2 data) (\<lambda>b. let v16 = (load_le b :: u16) in
         if v16 < 0xFFFF then Ok (ucast v16, drop 2 data)
         else bind_result (load 4 data) (\<lambda>b. let v32 = (load_le b :: u32) in
           if v32 < 0xFFFFFFFF then Ok (ucast v32, drop 4 data)
           else bind_result (load 8 data) (\<lambda>b. Ok (load_le b, drop 8 data)))))"

section \<open>The index entry\<close>

record block_index =
  mVersionNumber :: u64
  mBlockHeight :: u64
  mBlockStatus :: u64
  mTransactionCount :: u64
  mFileIndex :: u64
  mFileOffset :: u64
  mUndoOffset :: u64
  mBlockVersion :: u32
  mHashPrevious :: bytes
  mHashMerkleRoot :: bytes
  mTime :: u32
  mBits :: u32
  mNonce :: u32
  mBlockHash :: bytes

definition BLOCK_HAVE_DATA :: u64 where "BLOCK_HAVE_DATA = 8"
definition BLOCK_HAVE_UNDO :: u64 where "BLOCK_HAVE_UNDO = 16"
definition BLOCK_HAVE_MASK :: u64 where "BLOCK_HAVE_MASK = BLOCK_HAVE_DATA OR BLOCK_HAVE_UNDO"

text \<open>The constructor from the database key (less its prefix): 32 bytes are copied.\<close>

definition empty_index :: block_index where
  "empty_index = \<lparr>mVersionNumber = 0, mBlockHeight = 0, mBlockStatus = 0, mTransactionCount = 0, mFileIndex = 0,
     mFileOffset = 0, mUndoOffset = 0, mBlockVersion = 0, mHashPrevious = replicate 32 0, mHashMerkleRoot = replicate 32 0,
     mTime = 0, mBits = 0, mNonce = 0, mBlockHash = replicate 32 0\<rparr>"

definition CBlockIndex :: "bytes \<Rightarrow> block_index result" where
  "CBlockIndex blockHash = bind_result (load 32 blockHash) (\<lambda>h. Ok (empty_index\<lparr>mBlockHash := h\<rparr>))"

text \<open>The optional fields of an entry, and its fixed part.\<close>

definition read_positions :: "block_index \<Rightarrow> bytes \<Rightarrow> (block_index \<times> bytes) result" where
  "read_positions cb data =
     bind_result (if mBlockStatus cb AND BLOCK_HAVE_MASK \<noteq> 0
       then bind_result (readVarint128 data) (\<lambda>(v, data). Ok (cb\<lparr>mFileIndex := v\<rparr>, data)) else Ok (cb, data)) (\<lambda>(cb, data).
     bind_result (if mBlockStatus cb AND BLOCK_HAVE_DATA \<noteq> 0
       then bind_result (readVarint128 data) (\<lambda>(v, data). Ok (cb\<lparr>mFileOffset := v\<rparr>, data)) else Ok (cb, data)) (\<lambda>(cb, data).
     if mBlockStatus cb AND BLOCK_HAVE_UNDO \<noteq> 0
       then bind_result (readVarint128 data) (\<lambda>(v, data). Ok (cb\<lparr>mUndoOffset := v\<rparr>, data)) else Ok (cb, data)))"

definition read_block_header :: "block_index \<Rightarrow> bytes \<Rightarrow> (block_index \<times> bytes) result" where
  "read_block_header cb scan =
     bind_result (load 4 scan) (\<lambda>v. let scan = drop 4 scan in
     bind_result (load 32 scan) (\<lambda>p. let scan = drop 32 scan in
     bind_result (load 32 scan) (\<lambda>m. let scan = drop 32 scan in
     bind_result (load 4 scan) (\<lambda>t. let scan = drop 4 scan in
     bind_result (load 4 scan) (\<lambda>b. let scan = drop 4 scan in
     bind_result (load 4 scan) (\<lambda>n. let scan = drop 4 scan in
       Ok (cb\<lparr>mBlockVersion := load_le v, mHashPrevious := p, mHashMerkleRoot := m, mTime := load_le t, mBits := load_le b,
              mNonce := load_le n\<rparr>, scan)))))))"

definition readBlockIndex :: "build \<Rightarrow> bytes \<Rightarrow> nat \<Rightarrow> block_index \<Rightarrow> (block_index \<times> bytes) result" where
  "readBlockIndex bld start expectedSize cb =
     bind_result (readVarint128 start) (\<lambda>(v, data). let cb = cb\<lparr>mVersionNumber := v\<rparr> in
     bind_result (readVarint128 data) (\<lambda>(v, data). let cb = cb\<lparr>mBlockHeight := v\<rparr> in
     bind_result (readVarint128 data) (\<lambda>(v, data). let cb = cb\<lparr>mBlockStatus := v\<rparr> in
     bind_result (readVarint128 data) (\<lambda>(v, data). let cb = cb\<lparr>mTransactionCount := v\<rparr> in
     bind_result (read_positions cb data) (\<lambda>(cb, data).
     bind_result (read_block_header cb data) (\<lambda>(cb, scan).
     bind_result (c_assert bld (length start - length scan = expectedSize)) (\<lambda>_. Ok (cb, scan))))))))"

section \<open>The integers and their reference encoding\<close>

text \<open>
  The encoding of the node's database: seven bits per byte, most significant first, every byte but the last
  with its high bit set; one is subtracted at each step, so that no number has two encodings.
\<close>

function enc_high :: "nat \<Rightarrow> bytes" where
  "enc_high n = (if n < 128 then [] else enc_high (n div 128 - 1)) @ [word_of_nat (128 + n mod 128)]"
  by pat_completeness auto
termination by (relation "measure id") auto

declare enc_high.simps [simp del]

definition enc128 :: "nat \<Rightarrow> bytes" where
  "enc128 n = (if n < 128 then [] else enc_high (n div 128 - 1)) @ [word_of_nat (n mod 128)]"

lemma byte_facts:
  assumes "d < 128"
  shows "(word_of_nat d :: u8) AND 0x80 = 0" "(word_of_nat d :: u8) AND 0x7F = word_of_nat d"
    "(word_of_nat (128 + d) :: u8) AND 0x80 \<noteq> 0" "(word_of_nat (128 + d) :: u8) AND 0x7F = word_of_nat d"
proof -
  have "\<forall>d \<in> {0..<128}. (word_of_nat d :: u8) AND 0x80 = 0 \<and> (word_of_nat d :: u8) AND 0x7F = word_of_nat d \<and>
      (word_of_nat (128 + d) :: u8) AND 0x80 \<noteq> 0 \<and> (word_of_nat (128 + d) :: u8) AND 0x7F = word_of_nat d"
    by code_simp
  then show "(word_of_nat d :: u8) AND 0x80 = 0" "(word_of_nat d :: u8) AND 0x7F = word_of_nat d"
    "(word_of_nat (128 + d) :: u8) AND 0x80 \<noteq> 0" "(word_of_nat (128 + d) :: u8) AND 0x7F = word_of_nat d"
    using assms by auto
qed

lemma ucast_small: "d < 128 \<Longrightarrow> ucast (word_of_nat d :: u8) = (word_of_nat d :: u64)"
  by transfer (simp add: take_bit_eq_mod)

lemma shift_or:
  assumes "d < 128"
  shows "push_bit 7 (x :: u64) OR ucast (word_of_nat d :: u8) = 128 * x + word_of_nat d"
proof -
  note d = ucast_small [OF assms]
  have "take_bit 7 (word_of_nat d :: u64) = word_of_nat d" using assms by (simp add: take_bit_of_nat take_bit_nat_eq_self)
  then have "push_bit 7 x AND (word_of_nat d :: u64) = push_bit 7 x AND take_bit 7 (word_of_nat d)" by simp
  also have "\<dots> = 0" by (rule bit_word_eqI) (auto simp: bit_simps)
  finally have dis: "push_bit 7 x AND (word_of_nat d :: u64) = 0" .
  have "push_bit 7 x OR word_of_nat d = push_bit 7 x + word_of_nat d"
    using dis by (simp add: disjunctive_add_eq_or)
  then show ?thesis by (simp add: d push_bit_eq_mult mult.commute)
qed

lemma split_128: "128 * word_of_nat (n div 128) + word_of_nat (n mod 128) = (word_of_nat n :: u64)"
  using arg_cong [OF mult_div_mod_eq [of 128 n], of "word_of_nat :: nat \<Rightarrow> u64"]
  by (simp only: of_nat_add of_nat_mult of_nat_numeral)

lemma step_128:
  assumes "\<not> n < 128" "varint128_loop (enc_high (n div 128 - 1) @ ys) 0 = varint128_loop ys (word_of_nat (n div 128 - 1) + 1)"
  shows "varint128_loop (enc_high (n div 128 - Suc 0) @ ys) 0 = varint128_loop ys (word_of_nat (n div 128))"
proof -
  have "n div 128 = (n div 128 - 1) + 1" using assms(1) by simp
  then have "word_of_nat (n div 128 - 1) + 1 = (word_of_nat (n div 128) :: u64)" by (metis of_nat_1 of_nat_add)
  then show ?thesis using assms(2) by simp
qed

lemma varint128_high:
  "varint128_loop (enc_high n @ xs) 0 = varint128_loop xs (word_of_nat n + 1)"
proof (induction n arbitrary: xs rule: enc_high.induct)
  case (1 n)
  have lt: "n mod 128 < 128" by simp
  show ?case
  proof (cases "n < 128")
    case True
    then show ?thesis
      by (subst enc_high.simps) (simp add: byte_facts [OF True] ucast_small [OF True] Let_def del: of_nat_add)
  next
    case False
    then show ?thesis
      by (subst enc_high.simps)
        (simp add: step_128 [OF False 1 [OF False]] byte_facts [OF lt] shift_or [OF lt] split_128 Let_def del: of_nat_add)
  qed
qed

lemma readVarint128_enc: "readVarint128 (enc128 n @ xs) = Ok (word_of_nat n, xs)"
proof -
  have lt: "n mod 128 < 128" by simp
  show ?thesis
  proof (cases "n < 128")
    case True
    then show ?thesis
      by (simp add: enc128_def readVarint128_def byte_facts [OF True] ucast_small [OF True] Let_def del: of_nat_add)
  next
    case False
    then show ?thesis
      by (simp add: enc128_def readVarint128_def step_128 [OF False varint128_high] byte_facts [OF lt] shift_or [OF lt]
          split_128 Let_def del: of_nat_add)
  qed
qed

lemma byte_cases:
  obtains (low) d where "byte = (word_of_nat d :: u8)" "d < 128" | (high) d where "byte = word_of_nat (128 + d)" "d < 128"
proof (cases "unat byte < 128")
  case True
  then show thesis using low [of "unat byte"] by simp
next
  case False
  then have "byte = word_of_nat (128 + (unat byte - 128))" "unat byte - 128 < 128" using unat_u8_less [of byte] by (simp, linarith)
  then show thesis by (rule high)
qed

lemma varint128_loop_canonical:
  "varint128_loop data (word_of_nat m) = Ok (v, rest) \<Longrightarrow>
     \<exists>n. (if m = 0 then [] else enc_high (m - 1)) @ data = enc128 n @ rest \<and> v = word_of_nat n"
proof (induction data arbitrary: m)
  case (Cons byte data)
  have v: "128 * word_of_nat m + word_of_nat d = (word_of_nat (128 * m + d) :: u64)" for d by simp
  have q: "(128 * m + d) div 128 = m" "(128 * m + d) mod 128 = d" "128 * m + d < 128 \<longleftrightarrow> m = 0" if "d < 128" for d
    using that by auto
  show ?case
  proof (cases byte rule: byte_cases)
    case (low d)
    then have "v = word_of_nat (128 * m + d)" "rest = data"
      using Cons.prems by (simp_all add: byte_facts [OF low(2)] shift_or [OF low(2)] v Let_def del: of_nat_add of_nat_mult)
    then show ?thesis using q [OF low(2)] low(1) by (intro exI [of _ "128 * m + d"]) (simp add: enc128_def)
  next
    case (high d)
    have "word_of_nat (128 * m + d) + 1 = (word_of_nat (128 * m + d + 1) :: u64)" by simp
    then have "varint128_loop data (word_of_nat (128 * m + d + 1)) = Ok (v, rest)"
      using Cons.prems high by (simp add: byte_facts [OF high(2)] shift_or [OF high(2)] v add.commute [of 1] Let_def
          del: of_nat_add of_nat_mult)
    from Cons.IH [OF this] obtain n where n: "enc_high (128 * m + d) @ data = enc128 n @ rest" "v = word_of_nat n" by auto
    have "enc_high (128 * m + d) = (if m = 0 then [] else enc_high (m - 1)) @ [byte]"
      using q [OF high(2)] high(1) by (subst enc_high.simps) simp
    with n show ?thesis by auto
  qed
qed simp

text \<open>
  C21: the integers of the index database. The decoder \<open>readVarint128\<close> returns a value and a position exactly
  when the bytes before the position are the encoding of a number, and the value is that number, modulo two to the
  64th; hence it inverts the encoding, and no two encodings begin alike.
\<close>

theorem readVarint128_inverts:
  "readVarint128 data = Ok (v, rest) \<longleftrightarrow> (\<exists>n. data = enc128 n @ rest \<and> v = word_of_nat n)"
  using varint128_loop_canonical [of data 0] readVarint128_enc by (auto simp: readVarint128_def)

text \<open>
  The reader of src/include/varint.h returns one-byte integers as they are, but of a two-byte integer (prefix 0xFD, then
  the low and the high byte) it returns the prefix together with the low byte, and stops before the high byte.
\<close>

theorem readVariableLengthInteger64_prefix:
  assumes "d < 253" "l < 255"
  shows "readVariableLengthInteger64 (word_of_nat d # xs) = Ok (word_of_nat d, xs) \<and>
    readVariableLengthInteger64 (0xFD # word_of_nat l # h # xs) = Ok (word_of_nat (253 + 256 * l), h # xs)"
proof -
  have "(load_le [word_of_nat d] :: u8) = word_of_nat d" using assms(1) by (simp add: load_le_nat)
  moreover have "(word_of_nat d :: u8) < 0xFD" using assms(1) by (simp add: word_less_nat_alt unat_of_nat)
  moreover have "ucast (word_of_nat d :: u8) = (word_of_nat d :: u64)"
    using assms(1) by transfer (simp add: take_bit_eq_mod)
  ultimately have one: "readVariableLengthInteger64 (word_of_nat d # xs) = Ok (word_of_nat d, xs)"
    by (simp add: readVariableLengthInteger64_def load_def)
  have "le_nat [0xFD, word_of_nat l] = 253 + 256 * l" using assms(2) by simp
  then have l: "(load_le [0xFD, word_of_nat l] :: u16) = word_of_nat (253 + 256 * l)" by (simp only: load_le_nat)
  have "(word_of_nat (253 + 256 * l) :: u16) < 0xFFFF" using assms(2) by (simp add: word_less_nat_alt unat_of_nat del: of_nat_add of_nat_mult)
  moreover have "ucast (word_of_nat (253 + 256 * l) :: u16) = (word_of_nat (253 + 256 * l) :: u64)"
    using assms(2) by transfer (simp add: take_bit_eq_mod)
  moreover have "load 1 (0xFD # word_of_nat l # h # xs) = Ok [0xFD]"
    "load 2 (0xFD # word_of_nat l # h # xs) = Ok [0xFD, word_of_nat l]"
    by (simp_all add: load_def numeral_2_eq_2)
  moreover have "(load_le [0xFD] :: u8) = 0xFD" by (simp add: load_le_nat)
  ultimately have "readVariableLengthInteger64 (0xFD # word_of_nat l # h # xs) = Ok (word_of_nat (253 + 256 * l), h # xs)"
    using l by (simp add: readVariableLengthInteger64_def Let_def del: of_nat_add of_nat_mult word_of_nat_less_iff)
  with one show ?thesis by simp
qed

theorem readVariableLengthInteger64_prefix_witness:
  "readVariableLengthInteger64 [0xFD, 0x2C, 0x01] = Ok (0x2CFD, [0x01])"
  using readVariableLengthInteger64_prefix [of 0 "0x2C" "[]" 1] by simp

section \<open>The round trip of an entry\<close>

text \<open>An entry as the node writes it: the fields, the optional ones as the status says, and the block header.\<close>

definition ser_index :: "block_index \<Rightarrow> bytes" where
  "ser_index i = enc128 (unat (mVersionNumber i)) @ enc128 (unat (mBlockHeight i)) @ enc128 (unat (mBlockStatus i)) @
     enc128 (unat (mTransactionCount i)) @
     (if mBlockStatus i AND BLOCK_HAVE_MASK \<noteq> 0 then enc128 (unat (mFileIndex i)) else []) @
     (if mBlockStatus i AND BLOCK_HAVE_DATA \<noteq> 0 then enc128 (unat (mFileOffset i)) else []) @
     (if mBlockStatus i AND BLOCK_HAVE_UNDO \<noteq> 0 then enc128 (unat (mUndoOffset i)) else []) @
     store32 (mBlockVersion i) @ mHashPrevious i @ mHashMerkleRoot i @ store32 (mTime i) @ store32 (mBits i) @ store32 (mNonce i)"

definition index_ok :: "block_index \<Rightarrow> bool" where
  "index_ok i \<longleftrightarrow> length (mHashPrevious i) = 32 \<and> length (mHashMerkleRoot i) = 32 \<and> length (mBlockHash i) = 32 \<and>
     (mBlockStatus i AND BLOCK_HAVE_MASK = 0 \<longrightarrow> mFileIndex i = 0) \<and>
     (mBlockStatus i AND BLOCK_HAVE_DATA = 0 \<longrightarrow> mFileOffset i = 0) \<and>
     (mBlockStatus i AND BLOCK_HAVE_UNDO = 0 \<longrightarrow> mUndoOffset i = 0)"

lemma load_append: "length xs = n \<Longrightarrow> load n (xs @ ys) = Ok xs"
  by (simp add: load_def)

lemma readBlockIndex_wire:
  assumes "index_ok i"
  shows "bind_result (CBlockIndex (mBlockHash i @ zs))
      (readBlockIndex bld (ser_index i @ rest) (length (ser_index i))) = Ok (i, rest)"
proof -
  let ?cb = "empty_index\<lparr>mBlockHash := mBlockHash i, mVersionNumber := mVersionNumber i, mBlockHeight := mBlockHeight i,
    mBlockStatus := mBlockStatus i, mTransactionCount := mTransactionCount i\<rparr>"
  let ?pos = "(if mBlockStatus i AND BLOCK_HAVE_MASK \<noteq> 0 then enc128 (unat (mFileIndex i)) else []) @
     (if mBlockStatus i AND BLOCK_HAVE_DATA \<noteq> 0 then enc128 (unat (mFileOffset i)) else []) @
     (if mBlockStatus i AND BLOCK_HAVE_UNDO \<noteq> 0 then enc128 (unat (mUndoOffset i)) else [])"
  have pos: "read_positions ?cb (?pos @ xs) =
      Ok (?cb\<lparr>mFileIndex := mFileIndex i, mFileOffset := mFileOffset i, mUndoOffset := mUndoOffset i\<rparr>, xs)" for xs
    using assms by (simp add: read_positions_def readVarint128_enc index_ok_def empty_index_def)
  have hdr: "read_block_header cb (store32 (mBlockVersion i) @ mHashPrevious i @ mHashMerkleRoot i @ store32 (mTime i) @
      store32 (mBits i) @ store32 (mNonce i) @ xs) =
    Ok (cb\<lparr>mBlockVersion := mBlockVersion i, mHashPrevious := mHashPrevious i, mHashMerkleRoot := mHashMerkleRoot i,
           mTime := mTime i, mBits := mBits i, mNonce := mNonce i\<rparr>, xs)" for cb xs
    using assms by (simp add: read_block_header_def load_append index_ok_def Let_def)
  have "CBlockIndex (mBlockHash i @ zs) = Ok (empty_index\<lparr>mBlockHash := mBlockHash i\<rparr>)"
    using assms by (simp add: CBlockIndex_def load_append index_ok_def)
  then show ?thesis
    using pos hdr by (simp add: readBlockIndex_def ser_index_def readVarint128_enc empty_index_def)
qed

text \<open>
  C22: the round trip of an index entry. What the node writes for an entry (the format that the comment at the head of
  src/include/CBlockIndex.h quotes) is parsed back to exactly that entry, consumed completely, and the size check holds.
\<close>

theorem readBlockIndex_roundtrip:
  assumes "index_ok i"
  shows "bind_result (CBlockIndex (mBlockHash i @ zs))
    (readBlockIndex bld (ser_index i @ rest) (length (ser_index i))) = Ok (i, rest)"
  using readBlockIndex_wire [OF assms] .

definition sample_index :: block_index where
  "sample_index = \<lparr>mVersionNumber = 70015, mBlockHeight = 300, mBlockStatus = 13, mTransactionCount = 5, mFileIndex = 2,
     mFileOffset = 70000, mUndoOffset = 0, mBlockVersion = 1, mHashPrevious = replicate 32 7, mHashMerkleRoot = replicate 32 8,
     mTime = 1600000000, mBits = 9, mNonce = 10, mBlockHash = replicate 32 11\<rparr>"

theorem readBlockIndex_roundtrip_witness:
  "bind_result (CBlockIndex (mBlockHash sample_index @ [0]))
    (readBlockIndex Debug (ser_index sample_index @ [0]) (length (ser_index sample_index))) = Ok (sample_index, [0])"
  by (rule readBlockIndex_roundtrip)
    (simp add: index_ok_def sample_index_def BLOCK_HAVE_DATA_def BLOCK_HAVE_UNDO_def BLOCK_HAVE_MASK_def)
end
