(* ===== verification/BlockTime.thy ===== *)
theory BlockTime
  imports BlockIndex "HOL-Library.List_Lexorder"
begin

text \<open>
  \<open>getBlockTime\<close> and \<open>printTime\<close> of src/include/CBlockIndex.h: the date of a block as the text YYYY-MM-DD. The standard
  functions \<open>gmtime\<close> and \<open>snprintf\<close> are modelled for the times that 32 bits hold. The texts are ordered as the times are.
\<close>

section \<open>Dates\<close>

definition leap_year :: "nat \<Rightarrow> bool" where
  "leap_year y \<longleftrightarrow> 4 dvd y \<and> (\<not> 100 dvd y \<or> 400 dvd y)"

definition year_days :: "nat \<Rightarrow> nat" where
  "year_days y = (if leap_year y then 366 else 365)"

definition month_days :: "nat \<Rightarrow> nat list" where
  "month_days y = [31, if leap_year y then 29 else 28, 31, 30, 31, 30, 31, 31, 30, 31, 30, 31]"

text \<open>\<open>d\<close> days after the first of January of year \<open>y\<close>: the year and the day of that year; likewise for months.\<close>

function year_day :: "nat \<Rightarrow> nat \<Rightarrow> nat \<times> nat" where
  "year_day y d = (if d < year_days y then (y, d) else year_day (y + 1) (d - year_days y))"
  by pat_completeness auto
termination by (relation "measure snd") (auto simp: year_days_def)

declare year_day.simps [simp del]

fun month_day :: "nat list \<Rightarrow> nat \<Rightarrow> nat \<Rightarrow> nat \<times> nat" where
  "month_day [] m d = (m, d)"
| "month_day (l # ls) m d = (if d < l then (m, d) else month_day ls (m + 1) (d - l))"

text \<open>Year, month (from 1) and day (from 1) of a time in seconds since 1970: what \<open>gmtime\<close> computes.\<close>

definition date_of :: "nat \<Rightarrow> nat \<times> nat \<times> nat" where
  "date_of t = (case year_day 1970 (t div 86400) of (y, d) \<Rightarrow>
     case month_day (month_days y) 1 d of (m, d) \<Rightarrow> (y, m, d + 1))"

section \<open>The text of a date\<close>

text \<open>\<open>digits w n\<close>: the last \<open>w\<close> decimal digits of \<open>n\<close>, with leading zeros.\<close>

fun digits :: "nat \<Rightarrow> nat \<Rightarrow> bytes" where
  "digits 0 n = []"
| "digits (Suc w) n = digits w (n div 10) @ [word_of_nat (48 + n mod 10)]"

text \<open>
  The conversions \<open>%4d\<close> (padded with blanks) and \<open>%02d\<close> (padded with zeros) of a number.
\<close>

definition pad :: "u8 \<Rightarrow> nat \<Rightarrow> bytes \<Rightarrow> bytes" where
  "pad c w s = replicate (w - length s) c @ s"

definition date_text :: "nat \<times> nat \<times> nat \<Rightarrow> bytes" where
  "date_text = (\<lambda>(y, m, d). pad 32 4 (decimal y) @ [45] @ pad 48 2 (decimal m) @ [45] @ pad 48 2 (decimal d))"

definition getBlockTime :: "block_index \<Rightarrow> bytes" where
  "getBlockTime cb = date_text (date_of (unat (mTime cb)))"

section \<open>Printing an entry\<close>

text \<open>The conversions \<open>%d\<close>, \<open>%02X\<close> and \<open>%08X\<close>.\<close>

definition int_text :: "u32 \<Rightarrow> bytes" where
  "int_text w = (if 0 \<le>s w then decimal (unat w) else 45 # decimal (unat (- w)))"

definition hex_digit :: "nat \<Rightarrow> u8" where
  "hex_digit n = (if n < 10 then word_of_nat (48 + n) else word_of_nat (55 + n))"

fun hex_text :: "nat \<Rightarrow> nat \<Rightarrow> bytes" where
  "hex_text 0 n = []"
| "hex_text (Suc w) n = hex_text w (n div 16) @ [hex_digit (n mod 16)]"

definition printHash :: "bytes \<Rightarrow> bytes" where
  "printHash h = concat (map (\<lambda>i. hex_text 2 (unat (h ! (31 - i)))) [0..<32]) @ [10]"

definition printTime :: "u32 \<Rightarrow> bytes" where
  "printTime t = date_text (date_of (unat t)) @ [10]"

text \<open>Each line is its label and the text that follows it.\<close>

definition printInfo :: "block_index \<Rightarrow> (string \<times> bytes) list" where
  "printInfo i =
     [(''BlockHash       : '', printHash (mBlockHash i)),
      (''VersionNumber   : '', int_text (ucast (mVersionNumber i)) @ [10]),
      (''BlockHeight     : '', int_text (ucast (mBlockHeight i)) @ [10]),
      (''BlockStatus     : '', hex_text 8 (unat (ucast (mBlockStatus i) :: u32)) @ [10]),
      (''TransactionCount: '', int_text (ucast (mTransactionCount i)) @ [10]),
      (''FileIndex       : '', int_text (ucast (mFileIndex i)) @ [10]),
      (''FileOffset      : '', int_text (ucast (mFileOffset i)) @ [10]),
      (''UndoOffset      : '', int_text (ucast (mUndoOffset i)) @ [10]),
      (''BlockVersion    : '', int_text (mBlockVersion i) @ [10]),
      (''HashPrevious    : '', printHash (mHashPrevious i)),
      (''HashMerkleRoot  : '', printHash (mHashMerkleRoot i)),
      (''BlockTime       : '', printTime (mTime i)),
      (''Bits            : '', hex_text 8 (unat (mBits i)) @ [10]),
      (''Nonce           : '', hex_text 8 (unat (mNonce i)) @ [10])]"

section \<open>Dates and their texts in order\<close>

lemma length_digits [simp]: "length (digits w n) = w"
  by (induction w arbitrary: n) simp_all

lemma decimal_digits: "n < 10 \<Longrightarrow> decimal n = digits 1 n"
  "10 \<le> n \<Longrightarrow> decimal n = decimal (n div 10) @ digits 1 n"
  by (subst decimal.simps, simp)+

lemma decimal_digits_Suc: "n < 10 ^ Suc w \<Longrightarrow> w = 0 \<or> 10 ^ w \<le> n \<Longrightarrow> decimal n = digits (Suc w) n"
proof (induction w arbitrary: n)
  case (Suc w)
  have "(10 :: nat) \<le> 10 ^ Suc w" by simp
  then have "10 \<le> n" using Suc.prems(2) by linarith
  moreover have "n div 10 < 10 ^ Suc w" "w = 0 \<or> 10 ^ w \<le> n div 10" using Suc.prems by auto
  ultimately show ?case using Suc.IH [of "n div 10"] decimal_digits(2) [of n] by simp
qed (simp add: decimal_digits(1) del: digits.simps)

lemma pad_two: "n < 100 \<Longrightarrow> pad 48 2 (decimal n) = digits 2 n"
  using decimal_digits_Suc [of n 0] decimal_digits_Suc [of n 1] by (cases "n < 10") (simp_all add: pad_def numeral_2_eq_2)

lemma pad_four: "1000 \<le> n \<Longrightarrow> n < 10000 \<Longrightarrow> pad 32 4 (decimal n) = digits 4 n"
  using decimal_digits_Suc [of n 3] by (simp add: pad_def del: digits.simps)

lemma list_less_append: "length xs = length ys \<Longrightarrow> (xs @ us < ys @ vs) \<longleftrightarrow> xs < ys \<or> (xs = ys \<and> us < vs)"
  by (induction xs ys rule: list_induct2) auto

lemma digit_less: "a < 10 \<Longrightarrow> b < 10 \<Longrightarrow> (word_of_nat (48 + a) :: u8) < word_of_nat (48 + b) \<longleftrightarrow> a < b"
proof -
  assume "a < 10" "b < 10"
  then have "unat (word_of_nat (48 + a) :: u8) = 48 + a" "unat (word_of_nat (48 + b) :: u8) = 48 + b"
    by (simp_all only: unat_word_of_nat_u8) simp_all
  then show ?thesis unfolding word_less_nat_alt by simp
qed

lemma lex_ten: "r < 10 \<Longrightarrow> r' < 10 \<Longrightarrow> 10 * q + r < 10 * q' + r' \<longleftrightarrow> q < q' \<or> (q = q' \<and> r < r')" for q r q' r' :: nat
  by (cases q q' rule: linorder_cases) auto

lemma digits_less: "n < 10 ^ w \<Longrightarrow> n' < 10 ^ w \<Longrightarrow> digits w n < digits w n' \<longleftrightarrow> n < n'"
proof (induction w arbitrary: n n')
  case (Suc w)
  have d: "n div 10 < 10 ^ w" "n' div 10 < 10 ^ w" using Suc.prems by simp_all
  have "digits w (n div 10) = digits w (n' div 10) \<longleftrightarrow> n div 10 = n' div 10"
    using Suc.IH [OF d] Suc.IH [OF d(2,1)] by (metis less_irrefl linorder_neqE_nat)
  moreover have "n < n' \<longleftrightarrow> n div 10 < n' div 10 \<or> (n div 10 = n' div 10 \<and> n mod 10 < n' mod 10)"
    using lex_ten [of "n mod 10" "n' mod 10" "n div 10" "n' div 10"] by simp
  ultimately show ?case
    using Suc.IH [OF d] digit_less [of "n mod 10" "n' mod 10"] by (simp add: list_less_append del: of_nat_add)
qed simp

definition date_less :: "nat \<times> nat \<times> nat \<Rightarrow> nat \<times> nat \<times> nat \<Rightarrow> bool" where
  "date_less = (\<lambda>(y, m, d) (y', m', d'). y < y' \<or> (y = y' \<and> (m < m' \<or> (m = m' \<and> d < d'))))"

definition date_ok :: "nat \<times> nat \<times> nat \<Rightarrow> bool" where
  "date_ok = (\<lambda>(y, m, d). 1000 \<le> y \<and> y < 10000 \<and> m < 100 \<and> d < 100)"

lemma date_text_less: "date_ok a \<Longrightarrow> date_ok b \<Longrightarrow> date_text a < date_text b \<longleftrightarrow> date_less a b"
proof -
  assume ok: "date_ok a" "date_ok b"
  obtain y m d where a: "a = (y, m, d)" by (cases a)
  obtain y' m' d' where b: "b = (y', m', d')" by (cases b)
  have eq: "digits w n = digits w n' \<longleftrightarrow> n = n'" if "n < 10 ^ w" "n' < 10 ^ w" for w n n'
    using digits_less [OF that] digits_less [OF that(2,1)] by (metis less_irrefl linorder_neqE_nat)
  show ?thesis
    using ok unfolding a b date_ok_def
    by (auto simp: date_text_def date_less_def pad_two pad_four list_less_append digits_less eq)
qed

lemma year_day_ge: "y \<le> fst (year_day y d)"
  by (induction y d rule: year_day.induct) (subst year_day.simps, auto)

lemma year_day_lex:
  "d < d' \<Longrightarrow> case (year_day y d, year_day y d') of ((a, b), (a', b')) \<Rightarrow> a < a' \<or> (a = a' \<and> b < b')"
proof (induction y d arbitrary: d' rule: year_day.induct)
  case (1 y d)
  show ?case
  proof (cases "d < year_days y")
    case True
    then have "year_day y d = (y, d)" by (subst year_day.simps) simp
    then show ?thesis using year_day_ge [of "y + 1" "d' - year_days y"] 1(2)
      by (subst year_day.simps [of y d']) (auto split: prod.splits)
  next
    case False
    then have "year_day y d = year_day (y + 1) (d - year_days y)" "year_day y d' = year_day (y + 1) (d' - year_days y)"
      using 1(2) by (subst year_day.simps, simp)+
    then show ?thesis using 1(1) [OF False, of "d' - year_days y"] 1(2) False by auto
  qed
qed

lemma month_day_ge: "m \<le> fst (month_day ls m e)"
proof (induction ls arbitrary: m e)
  case (Cons l ls)
  have "m \<le> fst (month_day ls (m + 1) (e - l))" using Cons [of "m + 1" "e - l"] by linarith
  then show ?case by simp
qed simp

lemma month_day_lex:
  "d < d' \<Longrightarrow> case (month_day ls m d, month_day ls m d') of ((a, b), (a', b')) \<Rightarrow> a < a' \<or> (a = a' \<and> b < b')"
proof (induction ls arbitrary: m d d')
  case (Cons l ls)
  then show ?case
    using Cons.IH [of "d - l" "d' - l" "m + 1"] month_day_ge [of "m + 1" ls "d' - l"] by (auto split: prod.splits)
qed simp

lemma date_of_less:
  assumes "t div 86400 < t' div 86400"
  shows "date_less (date_of t) (date_of t')"
proof -
  obtain y d where a: "year_day 1970 (t div 86400) = (y, d)" by force
  obtain y' d' where b: "year_day 1970 (t' div 86400) = (y', d')" by force
  have "y < y' \<or> (y = y' \<and> d < d')" using year_day_lex [OF assms, of 1970] by (simp add: a b)
  then show ?thesis
    using month_day_lex [of d d' "month_days y" 1] by (auto simp: date_of_def a b date_less_def split: prod.splits)
qed

text \<open>The dates of 32-bit times lie in the years 1970 to 2106, so the texts keep their shape.\<close>

lemma year_day_bound: "d < 365 * k \<Longrightarrow> fst (year_day y d) < y + k \<and> snd (year_day y d) < 366"
proof (induction y d arbitrary: k rule: year_day.induct)
  case (1 y d)
  show ?case
  proof (cases "d < year_days y")
    case True
    moreover have "0 < k" using 1(2) by (cases k) simp_all
    ultimately show ?thesis by (subst (1 2) year_day.simps) (simp add: year_days_def split: if_splits)
  next
    case False
    then have "d - year_days y < 365 * (k - 1)" using 1(2) by (simp add: year_days_def diff_mult_distrib2 split: if_splits)
    moreover have "k \<noteq> 0" using 1(2) by (cases k) simp_all
    ultimately show ?thesis using 1(1) [OF False, of "k - 1"] False by (subst (1 2) year_day.simps) simp
  qed
qed

lemma month_day_bound: "fst (month_day ls m d) \<le> m + length ls"
proof (induction ls arbitrary: m d)
  case (Cons l ls)
  then show ?case using Cons [of "m + 1" "d - l"] by simp
qed simp

lemma length_month_days: "length (month_days y) = 12" "sum_list (month_days y) = year_days y" "\<forall>l \<in> set (month_days y). l \<le> 31"
  by (simp_all add: month_days_def year_days_def)

lemma month_day_day: "d < sum_list ls \<Longrightarrow> \<forall>l \<in> set ls. l \<le> b \<Longrightarrow> snd (month_day ls m d) < b"
proof (induction ls arbitrary: m d)
  case (Cons l ls)
  then show ?case using Cons.IH [of "d - l" "m + 1"] by auto
qed simp

lemma year_day_inside: "year_day y d = (a, b) \<Longrightarrow> b < year_days a"
  by (induction y d rule: year_day.induct) (subst (asm) (2) year_day.simps, auto split: if_splits)

lemma date_of_ok: "t < 2 ^ 32 \<Longrightarrow> date_ok (date_of t)"
proof -
  assume t: "t < 2 ^ 32"
  obtain y d where a: "year_day 1970 (t div 86400) = (y, d)" by force
  obtain m e where b: "month_day (month_days y) 1 d = (m, e)" by force
  have "t div 86400 < 365 * 137" using t by (simp add: div_less_iff_less_mult)
  from year_day_bound [OF this, of 1970] have "y < 2107" by (simp add: a)
  moreover have "1970 \<le> y" using year_day_ge [of 1970 "t div 86400"] by (simp add: a)
  moreover have "m \<le> 13" using month_day_bound [of "month_days y" 1 d, unfolded b length_month_days] by simp
  moreover have "e < 31"
    using month_day_day [of d "month_days y" 31 1, unfolded b length_month_days] year_day_inside [OF a] length_month_days(3) [of y] by simp
  ultimately show ?thesis by (simp add: date_of_def a b [unfolded One_nat_def] date_ok_def)
qed

text \<open>
  The days in order. The texts of two blocks' times are equal when they lie on the same day, and otherwise
  they are ordered as strings just as the times are.
\<close>

theorem block_time_order:
  "getBlockTime a < getBlockTime b \<longleftrightarrow> unat (mTime a) div 86400 < unat (mTime b) div 86400"
proof -
  have ok: "date_ok (date_of (unat (mTime x)))" for x using date_of_ok [of "unat (mTime x)"] unsigned_less [of "mTime x"] by simp
  have less: "getBlockTime x < getBlockTime y" if "unat (mTime x) div 86400 < unat (mTime y) div 86400" for x y
    using date_of_less [OF that] by (simp add: getBlockTime_def date_text_less ok)
  have eq: "getBlockTime x = getBlockTime y" if "unat (mTime x) div 86400 = unat (mTime y) div 86400" for x y
    using that by (simp add: getBlockTime_def date_of_def)
  show ?thesis
    using less [of a b] less [of b a] eq [of a b] by (metis linorder_neqE_nat less_asym less_irrefl)
qed
end
