(* ===== verification/Blocks.thy ===== *)
theory Blocks
  imports KeyValue BlockTime
begin

text \<open>
  Class \<open>BlocksImpl\<close> of src/src/blocks.cpp: all entries of the block index read from the database, by height, and the
  days they span. The C++ maps are search trees from the library: what counts is what a look-up
  finds, and for the days (a \<open>std::map\<close>) the order of the keys. Progress messages are left out.
\<close>

section \<open>The state\<close>

record block_day =
  mDayNumber :: u32
  mBlockTime :: u32
  mMinBlockHeight :: u64
  mMaxBlockHeight :: u64
  day_mTransactionCount :: u64
  mBlockCount :: u32

record blocks_impl =
  mDayCount :: u32
  impl_mBlockHeight :: u32
  mBlocks :: "(u32, block_index) rbt"
  mDays :: "(bytes, block_day) rbt"
  mDayIndex :: "(u32, bytes) rbt"

text \<open>The local variables of the constructor while it reads the entries.\<close>

record header_scan =
  blockCount :: u32
  blockLow :: u32
  blockHigh :: u32
  firstBlock :: bool

section \<open>Reading the entries\<close>

definition store_header :: "block_index \<Rightarrow> blocks_impl \<times> header_scan \<Rightarrow> blocks_impl \<times> header_scan" where
  "store_header cb = (\<lambda>(bl, l).
     let blockHeight = ucast (mBlockHeight cb);
         bl = bl\<lparr>mBlocks := RBT.insert blockHeight cb (mBlocks bl)\<rparr>;
         bl = (if blockHeight > impl_mBlockHeight bl then bl\<lparr>impl_mBlockHeight := blockHeight\<rparr> else bl);
         l = (if firstBlock l then l\<lparr>blockLow := blockHeight, blockHigh := blockHeight, firstBlock := False\<rparr>
              else if blockHeight < blockLow l then l\<lparr>blockLow := blockHeight\<rparr>
              else if blockHeight > blockHigh l then l\<lparr>blockHigh := blockHeight\<rparr>
              else l)
     in (bl, l))"

text \<open>Memory behind a string is its bytes and a terminating zero; the key's first byte is skipped.\<close>

definition add_header :: "build \<Rightarrow> bytes \<Rightarrow> bytes \<Rightarrow> blocks_impl \<times> header_scan \<Rightarrow> (blocks_impl \<times> header_scan) result" where
  "add_header bld key value st =
     bind_result (CBlockIndex (drop 1 (key @ [0]))) (\<lambda>cb.
     bind_result (readBlockIndex bld (value @ [0]) (length value) cb) (\<lambda>(cb, _).
     bind_result (case RBT.lookup (mBlocks (fst st)) (ucast (mBlockHeight cb)) of
         Some _ \<Rightarrow> bind_result (c_assert bld False) (\<lambda>_. Ok st)
       | None \<Rightarrow> Ok (store_header cb st)) (\<lambda>(bl, l).
       Ok (bl, l\<lparr>blockCount := blockCount l + 1\<rparr>))))"

partial_function (option) read_loop ::
  "build \<Rightarrow> 'it key_value_database \<Rightarrow> blocks_impl \<times> header_scan \<Rightarrow> (blocks_impl \<times> header_scan) result option" where
  "read_loop bld database st =
     (case kv_next [] [] database of
        ((ok, key, value), database) \<Rightarrow>
          if ok then case add_header bld key value st of
              Inl e \<Rightarrow> Some (Inl e)
            | Inr st \<Rightarrow> read_loop bld database st
          else Some (Ok st))"

section \<open>The days\<close>

definition new_day :: "block_index \<Rightarrow> block_day" where
  "new_day cb = \<lparr>mDayNumber = 0, mBlockTime = mTime cb, mMinBlockHeight = mBlockHeight cb, mMaxBlockHeight = mBlockHeight cb,
     day_mTransactionCount = mTransactionCount cb, mBlockCount = 1\<rparr>"

definition add_to_day :: "block_index \<Rightarrow> block_day \<Rightarrow> block_day" where
  "add_to_day cb bd =
     (let bd = (if mBlockHeight cb < mMinBlockHeight bd then bd\<lparr>mMinBlockHeight := mBlockHeight cb\<rparr> else bd);
          bd = (if mBlockHeight cb > mMaxBlockHeight bd then bd\<lparr>mMaxBlockHeight := mBlockHeight cb\<rparr> else bd)
      in bd\<lparr>day_mTransactionCount := day_mTransactionCount bd + mTransactionCount cb, mBlockCount := mBlockCount bd + 1\<rparr>)"

definition day_step :: "block_index \<Rightarrow> (bytes, block_day) rbt \<Rightarrow> (bytes, block_day) rbt" where
  "day_step cb days =
     (let blockTime = getBlockTime cb
      in case RBT.lookup days blockTime of
           None \<Rightarrow> RBT.insert blockTime (new_day cb) days
         | Some bd \<Rightarrow> RBT.insert blockTime (add_to_day cb bd) days)"

text \<open>The loop over the heights, \<open>for (i = low; i <= high; i++)\<close>: it does not end when \<open>high\<close> is the greatest 32-bit number.\<close>

partial_function (option) day_loop ::
  "(u32, block_index) rbt \<Rightarrow> u32 \<Rightarrow> u32 \<Rightarrow> (bytes, block_day) rbt \<Rightarrow> (bytes, block_day) rbt option" where
  "day_loop blocks i high days =
     (if i \<le> high then
        day_loop blocks (i + 1) high (case RBT.lookup blocks i of None \<Rightarrow> days | Some cb \<Rightarrow> day_step cb days)
      else Some days)"

definition number_day :: "bytes \<times> block_day \<Rightarrow> blocks_impl \<Rightarrow> blocks_impl" where
  "number_day = (\<lambda>(day, bd) bl.
     bl\<lparr>mDays := RBT.insert day (bd\<lparr>mDayNumber := mDayCount bl\<rparr>) (mDays bl),
        mDayIndex := RBT.insert (mDayCount bl) day (mDayIndex bl), mDayCount := mDayCount bl + 1\<rparr>)"

definition number_days :: "blocks_impl \<Rightarrow> blocks_impl" where
  "number_days bl = fold number_day (RBT.entries (mDays bl)) (bl\<lparr>mDayCount := 0\<rparr>)"

section \<open>The constructor and the queries\<close>

definition no_blocks :: blocks_impl where
  "no_blocks = \<lparr>mDayCount = 0, impl_mBlockHeight = 0, mBlocks = RBT.empty, mDays = RBT.empty, mDayIndex = RBT.empty\<rparr>"

definition BlocksImpl :: "build \<Rightarrow> 'it iterator_ops option \<Rightarrow> blocks_impl result" where
  "BlocksImpl bld opened =
     (case create_database opened of
        None \<Rightarrow> Ok no_blocks
      | Some database \<Rightarrow>
          let (ok, database) = kv_begin (Some [98]) database;
              l = \<lparr>blockCount = 0, blockLow = 0, blockHigh = 0, firstBlock = True\<rparr>
          in case (if ok then read_loop bld database (no_blocks, l) else Some (Ok (no_blocks, l))) of
               None \<Rightarrow> Fault Diverges
             | Some r \<Rightarrow> bind_result r (\<lambda>(bl, l).
                 bind_result (c_assert bld (blockLow l = 0)) (\<lambda>_.
                   case day_loop (mBlocks bl) (blockLow l) (blockHigh l) (mDays bl) of
                     None \<Rightarrow> Fault Diverges
                   | Some days \<Rightarrow> Ok (number_days (bl\<lparr>mDays := days\<rparr>)))))"

definition getDayCount :: "blocks_impl \<Rightarrow> u32" where
  "getDayCount = mDayCount"

definition getDay :: "blocks_impl \<Rightarrow> u32 \<Rightarrow> bytes option" where
  "getDay bl dayIndex = RBT.lookup (mDayIndex bl) dayIndex"

definition getBlockHeight :: "blocks_impl \<Rightarrow> u32" where
  "getBlockHeight = impl_mBlockHeight"

definition getBlockIndex :: "blocks_impl \<Rightarrow> u32 \<Rightarrow> block_index option" where
  "getBlockIndex bl blockHeight = RBT.lookup (mBlocks bl) blockHeight"

text \<open>The hexadecimal texts of the class.\<close>

definition getHex :: "u8 \<Rightarrow> u8" where
  "getHex c = (if c < 10 then 48 + c else 65 + (c - 10))"

definition getHex_string :: "bytes \<Rightarrow> bytes" where
  "getHex_string str = concat (map (\<lambda>c. [getHex (drop_bit 4 c), getHex (c AND 15)]) str)"

text \<open>
  The reverse reading leaves out the first byte (the prefix of a key). For an empty string the count less one wraps around, and
  the first access is outside of the string.
\<close>

definition getHexReverse :: "bytes \<Rightarrow> bytes result" where
  "getHexReverse str = (if str = [] then Fault OutOfBounds else Ok (getHex_string (rev (drop 1 str))))"
end
