(* ===== verification/BlocksLoaded.thy ===== *)
theory BlocksLoaded
  imports Blocks "HOL-Library.Multiset"
begin

text \<open>
  What an object of class \<open>BlocksImpl\<close> (src/src/blocks.cpp) holds after its construction: the loop over the database, the
  invariant of the entries read, the days, and the cases in which the constructor does not return.
\<close>

section \<open>The entries read\<close>

fun add_all :: "build \<Rightarrow> (bytes \<times> bytes) list \<Rightarrow> blocks_impl \<times> header_scan \<Rightarrow> (blocks_impl \<times> header_scan) result" where
  "add_all bld [] st = Ok st"
| "add_all bld ((key, value) # es) st = bind_result (add_header bld key value st) (add_all bld es)"

lemma add_all_append: "add_all bld (es @ es') st = bind_result (add_all bld es st) (add_all bld es')"
proof (induction es arbitrary: st)
  case (Cons e es)
  then show ?case by (cases e; cases "add_header bld (fst e) (snd e) st") simp_all
qed simp

context leveldb
begin

lemma read_loop_entries:
  assumes "mDatabase db = Some ops" "mIterator db = Some it" "ok it" "0 \<notin> set (mPrefix db)" "to_come (mPrefix db) (rest it) = es"
  shows "read_loop bld db st = Some (add_all bld es st)"
  using assms
proof (induction es arbitrary: db it st)
  case Nil
  then show ?case using next_step [OF Nil.prems(1-4), of "[]" "[]"] by (subst read_loop.simps) auto
next
  case (Cons e es)
  have n: "kv_next [] [] db = ((True, fst e, snd e), db\<lparr>mIterator := Some (Next ops it)\<rparr>)"
    "to_come (mPrefix db) (rest (Next ops it)) = es" "ok (Next ops it)"
    using next_step [OF Cons.prems(1-4), of "[]" "[]"] Cons.prems(5) by simp_all
  show ?case
    using n Cons.IH [of "db\<lparr>mIterator := Some (Next ops it)\<rparr>" "Next ops it"] Cons.prems
    by (subst read_loop.simps) (cases e, auto split: sum.split)
qed

end

definition height32 :: "block_index \<Rightarrow> u32" where
  "height32 i = ucast (mBlockHeight i)"

text \<open>The database entry of an index entry: the key is the letter b and the hash.\<close>

definition index_entry :: "block_index \<Rightarrow> bytes \<times> bytes" where
  "index_entry i = (98 # mBlockHash i, ser_index i)"

definition loaded :: "block_index list \<Rightarrow> blocks_impl \<times> header_scan \<Rightarrow> bool" where
  "loaded is = (\<lambda>(bl, l).
     (\<forall>h. RBT.lookup (mBlocks bl) h = find (\<lambda>i. height32 i = h) is) \<and>
     impl_mBlockHeight bl = Max (insert 0 (height32 ` set is)) \<and> (firstBlock l \<longleftrightarrow> is = []) \<and>
     (if is = [] then blockLow l = 0 \<and> blockHigh l = 0
      else blockLow l = Min (height32 ` set is) \<and> blockHigh l = Max (height32 ` set is)) \<and>
     blockCount l = word_of_nat (length is) \<and> mDays bl = RBT.empty \<and> mDayIndex bl = RBT.empty)"

lemma find_height_None: "find (\<lambda>i. height32 i = h) is = None \<longleftrightarrow> h \<notin> height32 ` set is"
  by (auto simp: find_None_iff)

lemma store_header_fields:
  fixes i
  defines "h \<equiv> height32 i"
  assumes "store_header i (bl, l) = (bl', l')" "blockLow l \<le> blockHigh l"
  shows "mBlocks bl' = RBT.insert h i (mBlocks bl)" "impl_mBlockHeight bl' = max (impl_mBlockHeight bl) h"
    "mDays bl' = mDays bl" "mDayIndex bl' = mDayIndex bl" "blockCount l' = blockCount l" "\<not> firstBlock l'"
    "blockLow l' = (if firstBlock l then h else min (blockLow l) h)"
    "blockHigh l' = (if firstBlock l then h else max (blockHigh l) h)"
  using assms(2,3) unfolding h_def
  by (auto simp: store_header_def Let_def height32_def [symmetric] max_def min_def split: if_splits)

lemma Min_le_Max: "finite A \<Longrightarrow> A \<noteq> {} \<Longrightarrow> Min A \<le> Max A"
  by (meson Max_ge Min_in)

lemma add_header_loaded:
  assumes "index_ok i" "loaded is st" "height32 i \<notin> height32 ` set is"
  shows "\<exists>st'. add_header bld (fst (index_entry i)) (snd (index_entry i)) st = Ok st' \<and> loaded (is @ [i]) st'"
proof -
  obtain bl l where st: "st = (bl, l)" by (cases st)
  obtain cb where cb: "CBlockIndex (mBlockHash i @ [0]) = Ok cb"
    "readBlockIndex bld (ser_index i @ [0]) (length (ser_index i)) cb = Ok (i, [0])"
    using readBlockIndex_wire [OF assms(1), of "[0]" bld "[0]"] by (auto simp: bind_result_eq_Inr)
  have none: "RBT.lookup (mBlocks bl) (ucast (mBlockHeight i)) = None"
    using assms(2,3) find_height_None by (simp add: loaded_def st height32_def)
  obtain bl' l' where st': "store_header i (bl, l) = (bl', l')" by (cases "store_header i (bl, l)")
  have "add_header bld (fst (index_entry i)) (snd (index_entry i)) st = Ok (bl', l'\<lparr>blockCount := blockCount l' + 1\<rparr>)"
    using cb none st' by (simp add: add_header_def index_entry_def st)
  moreover have "loaded (is @ [i]) (bl', l'\<lparr>blockCount := blockCount l' + 1\<rparr>)"
  proof -
    have le: "blockLow l \<le> blockHigh l"
      using assms(2) by (auto simp: loaded_def st split: if_splits intro!: Min_le_Max)
    note f = store_header_fields [OF st' le]
    have "RBT.lookup (mBlocks bl') h = find (\<lambda>i. height32 i = h) (is @ [i])" for h
      using assms(2) find_height_None [of "height32 i" "is", THEN iffD2, OF assms(3)]
      by (auto simp: f loaded_def st find_append split: option.split)
    moreover have "impl_mBlockHeight bl' = Max (insert 0 (height32 ` set (is @ [i])))"
      using assms(2) by (simp add: f loaded_def st insert_commute [of 0] max.commute)
    moreover have "blockLow l' = Min (height32 ` set (is @ [i])) \<and> blockHigh l' = Max (height32 ` set (is @ [i]))"
      using assms(2) by (auto simp: f loaded_def st max.commute min.commute split: if_splits)
    ultimately show ?thesis using assms(2) by (simp add: f loaded_def st add.commute)
  qed
  ultimately show ?thesis by blast
qed

lemma add_all_loaded:
  "\<forall>i \<in> set is. index_ok i \<Longrightarrow> distinct (map height32 is) \<Longrightarrow> loaded [] st \<Longrightarrow>
     \<exists>st'. add_all bld (map index_entry is) st = Ok st' \<and> loaded is st'"
proof (induction "is" rule: rev_induct)
  case (snoc i "is")
  then obtain st' where st': "add_all bld (map index_entry is) st = Ok st'" "loaded is st'" by auto
  from add_header_loaded [OF _ st'(2), of i bld] snoc.prems obtain st'' where
    "add_header bld (fst (index_entry i)) (snd (index_entry i)) st' = Ok st''" "loaded (is @ [i]) st''" by auto
  then show ?case using st'(1) by (cases "index_entry i") (auto simp: add_all_append)
qed simp
section \<open>The loop over the heights\<close>

lemma day_loop_ends:
  assumes "day_loop blocks i high days = Some r"
  shows "high \<noteq> 0xFFFFFFFF"
proof (rule day_loop.raw_induct [where P = "\<lambda>blocks i high days r. high \<noteq> 0xFFFFFFFF", OF _ assms])
  fix f :: "(u32, block_index) rbt \<Rightarrow> u32 \<Rightarrow> u32 \<Rightarrow> (bytes, block_day) rbt \<Rightarrow> (bytes, block_day) rbt option"
    and blocks i high days r
  assume IH: "\<And>blocks i high days r. f blocks i high days = Some r \<Longrightarrow> high \<noteq> 0xFFFFFFFF"
    and eq: "(if i \<le> high then f blocks (i + 1) high (case RBT.lookup blocks i of None \<Rightarrow> days | Some cb \<Rightarrow> day_step cb days)
      else Some days) = Some r"
  have "i \<le> 0xFFFFFFFF" using unsigned_less [of i, where ?'a = nat] by (simp add: word_le_nat_alt)
  then show "high \<noteq> 0xFFFFFFFF" using IH eq by (cases "i \<le> high") auto
qed

definition visit :: "(u32, block_index) rbt \<Rightarrow> u32 \<Rightarrow> (bytes, block_day) rbt \<Rightarrow> (bytes, block_day) rbt" where
  "visit blocks i days = (case RBT.lookup blocks i of None \<Rightarrow> days | Some cb \<Rightarrow> day_step cb days)"

lemma day_loop_fold:
  assumes "high \<noteq> 0xFFFFFFFF"
  shows "unat i \<le> unat high + 1 \<Longrightarrow>
    day_loop blocks i high days = Some (fold (visit blocks) (map word_of_nat [unat i ..< Suc (unat high)]) days)"
proof (induction "unat high + 1 - unat i" arbitrary: i days)
  case 0
  then have "\<not> i \<le> high" by (simp add: word_le_nat_alt)
  then show ?case using 0 by (subst day_loop.simps) simp
next
  case (Suc n)
  have "unat high < 0xFFFFFFFF"
    using assms unsigned_less [of high, where ?'a = nat] by (simp add: word_unat_eq_iff)
  then have u: "unat (i + 1) = unat i + 1" using Suc by (simp add: unat_word_ariths)
  have "i \<le> high" using Suc(2) by (simp add: word_le_nat_alt)
  moreover have "[unat i ..< Suc (unat high)] = unat i # [unat (i + 1) ..< Suc (unat high)]"
    using \<open>i \<le> high\<close> u by (simp add: word_le_nat_alt upt_rec)
  ultimately show ?case
    using Suc(1) [of "i + 1"] Suc(2,3) u by (subst day_loop.simps) (simp add: visit_def)
qed

lemma fold_visit: "fold (visit blocks) hs days = fold day_step (List.map_filter (RBT.lookup blocks) hs) days"
  by (induction hs arbitrary: days) (simp_all add: visit_def map_filter_simps split: option.split)

section \<open>What a day holds\<close>

definition summary :: "block_index list \<Rightarrow> block_day option" where
  "summary cbs = (case cbs of [] \<Rightarrow> None | cb # cs \<Rightarrow> Some (fold add_to_day cs (new_day cb)))"

lemma summary_snoc: "summary (cbs @ [cb]) = Some (case summary cbs of None \<Rightarrow> new_day cb | Some bd \<Rightarrow> add_to_day cb bd)"
  by (cases cbs) (simp_all add: summary_def)

lemma day_step_lookup:
  "RBT.lookup (day_step cb days) s =
     (if s = getBlockTime cb then Some (case RBT.lookup days s of None \<Rightarrow> new_day cb | Some bd \<Rightarrow> add_to_day cb bd)
      else RBT.lookup days s)"
  by (simp add: day_step_def Let_def split: option.split)

lemma fold_day_step:
  "RBT.lookup (fold day_step cbs RBT.empty) s = summary (filter (\<lambda>cb. getBlockTime cb = s) cbs)"
proof (induction cbs rule: rev_induct)
  case Nil
  then show ?case by (simp add: summary_def)
next
  case (snoc cb cbs)
  then show ?case by (cases "s = getBlockTime cb") (simp_all add: day_step_lookup summary_snoc)
qed

text \<open>A day describes its blocks: their number, the transactions, the least and the greatest height, the time of one.\<close>

definition describes_day :: "block_index list \<Rightarrow> block_day \<Rightarrow> bool" where
  "describes_day cbs bd \<longleftrightarrow> mBlockCount bd = word_of_nat (length cbs) \<and>
     day_mTransactionCount bd = sum_list (map mTransactionCount cbs) \<and>
     mMinBlockHeight bd = Min (mBlockHeight ` set cbs) \<and> mMaxBlockHeight bd = Max (mBlockHeight ` set cbs) \<and>
     mBlockTime bd \<in> mTime ` set cbs"

lemma add_to_day_fields:
  "mBlockCount (add_to_day cb bd) = mBlockCount bd + 1" "mBlockTime (add_to_day cb bd) = mBlockTime bd"
  "day_mTransactionCount (add_to_day cb bd) = day_mTransactionCount bd + mTransactionCount cb"
  "mMinBlockHeight (add_to_day cb bd) = min (mBlockHeight cb) (mMinBlockHeight bd)"
  "mMaxBlockHeight (add_to_day cb bd) = max (mBlockHeight cb) (mMaxBlockHeight bd)"
  "mDayNumber (add_to_day cb bd) = mDayNumber bd"
  by (auto simp: add_to_day_def Let_def min_def max_def)

lemma summary_describes: "cbs \<noteq> [] \<Longrightarrow> \<exists>bd. summary cbs = Some bd \<and> describes_day cbs bd"
proof (induction cbs rule: rev_nonempty_induct)
  case (single cb)
  then show ?case by (simp add: summary_def describes_day_def new_day_def)
next
  case (snoc cb cbs)
  then obtain bd where "summary cbs = Some bd" "describes_day cbs bd" by auto
  then show ?case using snoc.hyps by (simp add: summary_snoc describes_day_def add_to_day_fields add.commute)
qed

lemma describes_day_mset:
  assumes "mset cbs = mset cbs'"
  shows "describes_day cbs bd \<longleftrightarrow> describes_day cbs' bd"
proof -
  have "sum_list (map mTransactionCount cbs) = sum_list (map mTransactionCount cbs')"
    using arg_cong [OF assms, of "image_mset mTransactionCount"] by (metis mset_map sum_mset_sum_list)
  then show ?thesis using mset_eq_length [OF assms] mset_eq_setD [OF assms] by (simp add: describes_day_def)
qed

section \<open>The numbers of the days\<close>

definition numbered :: "(bytes \<times> block_day) list \<Rightarrow> blocks_impl \<Rightarrow> blocks_impl \<Rightarrow> bool" where
  "numbered es bl bl' \<longleftrightarrow> mDayCount bl' = word_of_nat (length es) \<and> mBlocks bl' = mBlocks bl \<and>
     impl_mBlockHeight bl' = impl_mBlockHeight bl \<and>
     (\<forall>k < length es. RBT.lookup (mDayIndex bl') (word_of_nat k) = Some (fst (es ! k)) \<and>
        RBT.lookup (mDays bl') (fst (es ! k)) = Some ((snd (es ! k))\<lparr>mDayNumber := word_of_nat k\<rparr>))"

lemma number_days_numbered:
  assumes "distinct (map fst es)" "length es < 2 ^ 32"
  shows "numbered es bl (fold number_day es (bl\<lparr>mDayCount := 0\<rparr>))"
  using assms
proof (induction es rule: rev_induct)
  case Nil
  then show ?case by (simp add: numbered_def)
next
  case (snoc e es)
  obtain day bd where e: "e = (day, bd)" by (cases e)
  have IH: "numbered es bl (fold number_day es (bl\<lparr>mDayCount := 0\<rparr>))" using snoc by simp
  have ne: "(word_of_nat k :: u32) \<noteq> word_of_nat (length es)" if "k < length es" for k
    using that snoc.prems(2) by (simp add: word_unat_eq_iff unat_word32_of_nat)
  have new: "day \<notin> fst ` set es" using snoc.prems(1) e by simp
  have day: "fst (es ! k) \<noteq> day" if "k < length es" for k
    using that new by (metis image_eqI nth_mem)
  show ?case
    using IH ne day unfolding numbered_def
    by (auto simp: number_day_def e nth_append less_Suc_eq add.commute)
qed
section \<open>The whole constructor\<close>

lemma find_height: "distinct (map height32 is) \<Longrightarrow> i \<in> set is \<Longrightarrow> find (\<lambda>j. height32 j = height32 i) is = Some i"
  by (induction "is") (auto simp: image_iff)

lemma map_filter_heights:
  "(\<And>h i. look h = Some i \<Longrightarrow> height32 i = h) \<Longrightarrow> map height32 (List.map_filter look hs) = filter (\<lambda>h. look h \<noteq> None) hs"
  by (induction hs) (auto simp: map_filter_simps simp del: not_None_eq split: option.split)

text \<open>Going through the heights in order meets every entry once.\<close>

lemma entries_by_height:
  assumes "distinct (map height32 is)" "\<forall>h. look h = find (\<lambda>i. height32 i = h) is" "\<forall>i \<in> set is. height32 i \<le> high"
  shows "mset (List.map_filter look (map word_of_nat [0 ..< Suc (unat high)])) = mset is"
proof -
  let ?hs = "map word_of_nat [0 ..< Suc (unat high)] :: u32 list"
  let ?B = "List.map_filter look ?hs"
  have sound: "look h = Some i \<Longrightarrow> height32 i = h \<and> i \<in> set is" for h i
    using assms(2) by (auto simp: find_Some_iff in_set_conv_nth)
  have hs: "set ?hs = {h. h \<le> high}"
  proof -
    have "h \<in> set ?hs" if "h \<le> high" for h
    proof -
      have "unat h \<in> set [0 ..< Suc (unat high)]" using that by (simp add: word_le_nat_alt less_Suc_eq_le del: upt_Suc)
      then show ?thesis unfolding list.set_map by (rule image_eqI [rotated]) simp
    qed
    moreover have "(word_of_nat k :: u32) \<le> high" if "k < Suc (unat high)" for k
      using that unsigned_less [of high, where ?'a = nat] by (simp add: word_le_nat_alt unat_word32_of_nat)
    ultimately show ?thesis by auto
  qed
  have "distinct ?hs"
    using unsigned_less [of high, where ?'a = nat] by (simp add: distinct_map inj_on_def word_unat_eq_iff unat_word32_of_nat del: upt_Suc)
  then have "distinct (map height32 ?B)"
    using map_filter_heights [of look ?hs] sound by simp
  moreover have "set ?B = set is"
  proof
    show "set ?B \<subseteq> set is" using sound by (auto simp: List.map_filter_def)
    show "set is \<subseteq> set ?B"
    proof
      fix i assume i: "i \<in> set is"
      then have "look (height32 i) = Some i" using assms(1,2) find_height by simp
      moreover have "height32 i \<in> set ?hs" using assms(3) i hs by simp
      ultimately show "i \<in> set ?B" by (force simp: List.map_filter_def image_iff)
    qed
  qed
  ultimately show ?thesis
    using assms(1) by (simp add: set_eq_iff_mset_eq_distinct [symmetric] distinct_map)
qed

lemma card_heights: "0xFFFFFFFF \<notin> (A :: u32 set) \<Longrightarrow> card A < 2 ^ 32"
proof -
  assume a: "0xFFFFFFFF \<notin> A"
  have "A \<subseteq> word_of_nat ` {..<4294967295}"
  proof
    fix h assume "h \<in> A"
    then have "h \<noteq> 0xFFFFFFFF" using a by auto
    then have "unat h < 4294967295" using unsigned_less [of h, where ?'a = nat] by (simp add: word_unat_eq_iff)
    then show "h \<in> word_of_nat ` {..<4294967295}" by (intro image_eqI [of _ _ "unat h"]) simp_all
  qed
  then have "card A \<le> card {..<4294967295 :: nat}"
    using surj_card_le [of "{..<4294967295 :: nat}" A word_of_nat] by simp
  then show ?thesis by simp
qed

text \<open>What the object holds: \<open>is\<close> are the index entries, \<open>days\<close> their days in order.\<close>

definition holds_index :: "block_index list \<Rightarrow> blocks_impl \<Rightarrow> bool" where
  "holds_index is bl \<longleftrightarrow>
     (let days = sorted_list_of_set (getBlockTime ` set is)
      in (\<forall>h. getBlockIndex bl h = find (\<lambda>i. height32 i = h) is) \<and>
         getBlockHeight bl = Max (height32 ` set is) \<and> getDayCount bl = word_of_nat (length days) \<and> length days < 2 ^ 32 \<and>
         (\<forall>k < length days. getDay bl (word_of_nat k) = Some (days ! k) \<and>
            (\<exists>bd. RBT.lookup (mDays bl) (days ! k) = Some bd \<and> mDayNumber bd = word_of_nat k \<and>
               describes_day (filter (\<lambda>i. getBlockTime i = days ! k) is) bd)))"

definition index_database :: "(bytes \<times> bytes) list \<Rightarrow> block_index list \<Rightarrow> bool" where
  "index_database entries is \<longleftrightarrow> filter (\<lambda>e. has_prefix [98] (fst e)) entries = map index_entry is \<and>
     (\<forall>i \<in> set is. index_ok i) \<and> distinct (map height32 is) \<and> 0 \<in> height32 ` set is"

lemma describes_numbered: "describes_day cbs (bd\<lparr>mDayNumber := n\<rparr>) \<longleftrightarrow> describes_day cbs bd"
  by (simp add: describes_day_def)

lemma days_of_blocks:
  assumes "loaded is (bl, l)" "is \<noteq> []" "distinct (map height32 is)" "0xFFFFFFFF \<notin> height32 ` set is"
  defines "B \<equiv> List.map_filter (RBT.lookup (mBlocks bl)) (map word_of_nat [0 ..< Suc (unat (blockHigh l))])"
  defines "t \<equiv> fold day_step B RBT.empty"
  shows "holds_index is (number_days (bl\<lparr>mDays := t\<rparr>))"
proof -
  let ?days = "sorted_list_of_set (getBlockTime ` set is)"
  have ld: "\<forall>h. RBT.lookup (mBlocks bl) h = find (\<lambda>i. height32 i = h) is" "blockHigh l = Max (height32 ` set is)"
    "impl_mBlockHeight bl = Max (insert 0 (height32 ` set is))"
    using assms(1,2) by (simp_all add: loaded_def)
  have B: "mset B = mset is"
    unfolding B_def using ld(1,2) by (intro entries_by_height assms(3)) simp_all
  have look: "RBT.lookup t s = summary (filter (\<lambda>i. getBlockTime i = s) B)" for s
    unfolding t_def by (rule fold_day_step)
  have fB: "mset (filter (\<lambda>i. getBlockTime i = s) B) = mset (filter (\<lambda>i. getBlockTime i = s) is)" for s
    by (simp add: B)
  have dom: "dom (RBT.lookup t) = getBlockTime ` set is"
  proof -
    have "RBT.lookup t s \<noteq> None \<longleftrightarrow> s \<in> getBlockTime ` set B" for s
      unfolding look by (cases "filter (\<lambda>i. getBlockTime i = s) B") (auto simp: summary_def filter_eq_Cons_iff filter_empty_conv)
    then show ?thesis using mset_eq_setD [OF B] by (auto simp: dom_def)
  qed
  have keys: "map fst (RBT.entries t) = ?days"
  proof -
    have "set (map fst (RBT.entries t)) = getBlockTime ` set is"
      using RBT.lookup_keys [of t] dom by (simp add: RBT.keys_def_alt)
    then show ?thesis
      using RBT.sorted_entries [of t] RBT.distinct_entries [of t] by (metis sorted_list_of_set.idem_if_sorted_distinct)
  qed
  let ?es = "RBT.entries t" and ?bl = "number_days (bl\<lparr>mDays := t\<rparr>)"
  have len: "length ?es = length ?days" using arg_cong [OF keys, of length] by simp
  have "card (getBlockTime ` set is) \<le> card (height32 ` set is)"
    using card_image_le [of "set is" getBlockTime] assms(3) by (simp add: distinct_map card_image)
  then have small: "length ?days < 2 ^ 32" using card_heights [OF assms(4)] by simp
  have num: "numbered ?es (bl\<lparr>mDays := t\<rparr>) ?bl"
    using number_days_numbered [of ?es "bl\<lparr>mDays := t\<rparr>"] RBT.distinct_entries [of t] small len by (simp add: number_days_def)
  have days: "getDay ?bl (word_of_nat k) = Some (?days ! k) \<and>
      (\<exists>bd. RBT.lookup (mDays ?bl) (?days ! k) = Some bd \<and> mDayNumber bd = word_of_nat k \<and>
         describes_day (filter (\<lambda>i. getBlockTime i = ?days ! k) is) bd)" if k: "k < length ?days" for k
  proof -
    have day: "fst (?es ! k) = ?days ! k" using k len by (metis keys nth_map)
    have "?es ! k \<in> set ?es" by (rule nth_mem) (use k len in simp)
    then have "(?days ! k, snd (?es ! k)) \<in> set ?es" by (metis day prod.collapse)
    then have "RBT.lookup t (?days ! k) = Some (snd (?es ! k))" by (simp add: RBT.lookup_in_tree)
    then have s: "summary (filter (\<lambda>i. getBlockTime i = ?days ! k) B) = Some (snd (?es ! k))" by (simp add: look)
    then have "filter (\<lambda>i. getBlockTime i = ?days ! k) B \<noteq> []" by (auto simp: summary_def)
    from summary_describes [OF this] s have "describes_day (filter (\<lambda>i. getBlockTime i = ?days ! k) B) (snd (?es ! k))" by simp
    then have "describes_day (filter (\<lambda>i. getBlockTime i = ?days ! k) is) ((snd (?es ! k))\<lparr>mDayNumber := word_of_nat k\<rparr>)"
      using describes_day_mset [OF fB, of "?days ! k"] by (simp only: describes_numbered)
    then show ?thesis using num k len day by (auto simp: numbered_def getDay_def)
  qed
  have "Max (insert 0 (height32 ` set is)) = Max (height32 ` set is)" using assms(2) by simp
  then show ?thesis
    using days num len small ld(1,3)
    by (simp add: holds_index_def Let_def getBlockIndex_def getBlockHeight_def getDayCount_def numbered_def)
qed

text \<open>Over a database with the contract the constructor reads the entries with the prefix b, in order.\<close>

definition start_scan :: header_scan where
  "start_scan = \<lparr>blockCount = 0, blockLow = 0, blockHigh = 0, firstBlock = True\<rparr>"

lemma BlocksImpl_entries:
  assumes "leveldb ops entries ok rest"
  shows "BlocksImpl bld (Some ops) =
    bind_result (add_all bld (filter (\<lambda>e. has_prefix [98] (fst e)) entries) (no_blocks, start_scan)) (\<lambda>(bl, l).
    bind_result (c_assert bld (blockLow l = 0)) (\<lambda>_.
      case day_loop (mBlocks bl) (blockLow l) (blockHigh l) (mDays bl) of
        None \<Rightarrow> Fault Diverges
      | Some days \<Rightarrow> Ok (number_days (bl\<lparr>mDays := days\<rparr>))))"
proof -
  obtain db where db: "create_database (Some ops) = Some db" "mDatabase db = Some ops"
    by (simp add: create_database_def KeyValueDatabaseImpl_def isValid_def)
  obtain found db' where b: "kv_begin (Some [98]) db = (found, db')" "mDatabase db' = Some ops" "mPrefix db' = [98]"
    "found \<longleftrightarrow> mIterator db' \<noteq> None"
    "case mIterator db' of Some it \<Rightarrow> ok it \<and> to_come [98] (rest it) = filter (\<lambda>e. has_prefix [98] (fst e)) entries
     | None \<Rightarrow> filter (\<lambda>e. has_prefix [98] (fst e)) entries = []"
    by (rule leveldb.begin_rest [OF assms db(2), of "[98]"]) simp_all
  have "(if found then read_loop bld db' (no_blocks, start_scan) else Some (Ok (no_blocks, start_scan))) =
    Some (add_all bld (filter (\<lambda>e. has_prefix [98] (fst e)) entries) (no_blocks, start_scan))"
  proof (cases "mIterator db'")
    case None
    then show ?thesis using b(4,5) by simp
  next
    case (Some it)
    then show ?thesis
      using leveldb.read_loop_entries [OF assms b(2) Some, of "filter (\<lambda>e. has_prefix [98] (fst e)) entries" bld] b(3-5) by simp
  qed
  then show ?thesis
    using db(1) b(1)
    by (simp add: BlocksImpl_def start_scan_def [symmetric] Let_def del: has_prefix_Cons split del: if_split)
qed

lemma loaded_start: "loaded [] (no_blocks, start_scan)"
  by (simp add: loaded_def no_blocks_def start_scan_def)

lemma BlocksImpl_loaded:
  assumes "leveldb ops entries ok rest" "index_database entries is"
  obtains bl l where "loaded is (bl, l)" "is \<noteq> []" "blockHigh l = Max (height32 ` set is)"
    "BlocksImpl bld (Some ops) = (case day_loop (mBlocks bl) 0 (blockHigh l) RBT.empty of
        None \<Rightarrow> Fault Diverges | Some days \<Rightarrow> Ok (number_days (bl\<lparr>mDays := days\<rparr>)))"
proof -
  have idx: "filter (\<lambda>e. has_prefix [98] (fst e)) entries = map index_entry is" "\<forall>i \<in> set is. index_ok i"
    "distinct (map height32 is)" "is \<noteq> []" "0 \<in> height32 ` set is"
    using assms(2) by (auto simp: index_database_def)
  from add_all_loaded [OF idx(2,3) loaded_start, of bld] obtain bl l where
    st: "add_all bld (map index_entry is) (no_blocks, start_scan) = Ok (bl, l)" "loaded is (bl, l)" by auto
  have l: "blockLow l = Min (height32 ` set is)" "blockHigh l = Max (height32 ` set is)" "mDays bl = RBT.empty"
    using st(2) idx(4) by (simp_all add: loaded_def)
  have "Min (height32 ` set is) \<le> 0" using idx(5) by (intro Min_le) simp_all
  then have "blockLow l = 0" using l(1) by simp
  then show thesis
    using that [OF st(2) idx(4) l(2)] BlocksImpl_entries [OF assms(1), of bld] st(1) idx(1) l(3) by simp
qed

lemma BlocksImpl_holds:
  assumes "leveldb ops entries ok rest" "index_database entries is" "0xFFFFFFFF \<notin> height32 ` set is"
  shows "\<exists>bl. BlocksImpl bld (Some ops) = Ok bl \<and> holds_index is bl"
proof -
  obtain bl l where l: "loaded is (bl, l)" "is \<noteq> []" "blockHigh l = Max (height32 ` set is)"
    and eq: "BlocksImpl bld (Some ops) = (case day_loop (mBlocks bl) 0 (blockHigh l) RBT.empty of
        None \<Rightarrow> Fault Diverges | Some days \<Rightarrow> Ok (number_days (bl\<lparr>mDays := days\<rparr>)))"
    by (rule BlocksImpl_loaded [OF assms(1,2)])
  have d: "distinct (map height32 is)" using assms(2) by (simp add: index_database_def)
  have "Max (height32 ` set is) \<in> height32 ` set is" using l(2) by (intro Max_in) simp_all
  then have "blockHigh l \<noteq> 0xFFFFFFFF" using l(3) assms(3) by auto
  from day_loop_fold [OF this, of 0 "mBlocks bl" RBT.empty]
  show ?thesis using days_of_blocks [OF l(1,2) d assms(3)] eq by (simp add: fold_visit del: upt_Suc)
qed

text \<open>
  C12: what the object holds after its construction. Over a database that keeps the contract of LevelDB and whose entries under
  the prefix b are well-formed index entries with pairwise different heights, one of them 0 and none of them the greatest
  32-bit number, the constructor returns; each height is looked up to its entry, the block height is the greatest;
  the days are the different dates of the blocks, numbered in ascending order, and each day
  holds the number of its blocks, their transactions, and their least and greatest height.
\<close>

theorem BlocksImpl_correct:
  assumes "leveldb ops entries ok rest" "index_database entries is" "0xFFFFFFFF \<notin> height32 ` set is"
  shows "\<exists>bl. BlocksImpl bld (Some ops) = Ok bl \<and> holds_index is bl"
  using BlocksImpl_holds [OF assms] .

text \<open>
  C30: the loop over the heights. On such a database the constructor runs forever exactly when some block has the greatest
  32-bit number as its height: then the loop's counter never exceeds the bound.
\<close>

theorem BlocksImpl_diverges:
  assumes "leveldb ops entries ok rest" "index_database entries is"
  shows "BlocksImpl bld (Some ops) = Fault Diverges \<longleftrightarrow> 0xFFFFFFFF \<in> height32 ` set is"
proof
  assume "BlocksImpl bld (Some ops) = Fault Diverges"
  then show "0xFFFFFFFF \<in> height32 ` set is" using BlocksImpl_holds [OF assms, of bld] by auto
next
  assume top: "0xFFFFFFFF \<in> height32 ` set is"
  obtain bl l where l: "loaded is (bl, l)" "is \<noteq> []" "blockHigh l = Max (height32 ` set is)"
    and eq: "BlocksImpl bld (Some ops) = (case day_loop (mBlocks bl) 0 (blockHigh l) RBT.empty of
        None \<Rightarrow> Fault Diverges | Some days \<Rightarrow> Ok (number_days (bl\<lparr>mDays := days\<rparr>)))"
    by (rule BlocksImpl_loaded [OF assms])
  have "h \<le> 0xFFFFFFFF" for h :: u32 using unsigned_less [of h, where ?'a = nat] by (simp add: word_le_nat_alt)
  then have "Max (height32 ` set is) = 0xFFFFFFFF" using top by (intro Max_eqI) simp_all
  then have "day_loop (mBlocks bl) 0 (blockHigh l) RBT.empty = None"
    using l(3) day_loop_ends by (cases "day_loop (mBlocks bl) 0 (blockHigh l) RBT.empty") auto
  then show "BlocksImpl bld (Some ops) = Fault Diverges" using eq by simp
qed

text \<open>
  Two entries with the same height (an abandoned block and its rival) stop a debug build in an assert, whatever
  else the database holds behind them.
\<close>

theorem BlocksImpl_same_height:
  assumes "leveldb ops entries ok rest" "filter (\<lambda>e. has_prefix [98] (fst e)) entries = map index_entry (is @ [i]) @ others"
    "\<forall>j \<in> set (is @ [i]). index_ok j" "distinct (map height32 is)" "height32 i \<in> height32 ` set is"
  shows "BlocksImpl Debug (Some ops) = Fault AssertFailure"
proof -
  from add_all_loaded [OF _ assms(4) loaded_start, of Debug] assms(3) obtain bl l where
    st: "add_all Debug (map index_entry is) (no_blocks, start_scan) = Ok (bl, l)" "loaded is (bl, l)" by auto
  have "RBT.lookup (mBlocks bl) (height32 i) \<noteq> None"
    using st(2) assms(5) find_height_None [of "height32 i" "is"] by (simp add: loaded_def)
  moreover obtain cb where "CBlockIndex (mBlockHash i @ [0]) = Ok cb"
    "readBlockIndex Debug (ser_index i @ [0]) (length (ser_index i)) cb = Ok (i, [0])"
    using readBlockIndex_wire [of i "[0]" Debug "[0]"] assms(3) by (auto simp: bind_result_eq_Inr)
  ultimately have "add_header Debug (98 # mBlockHash i) (ser_index i) (bl, l) = Fault AssertFailure"
    by (auto simp: add_header_def height32_def)
  then have "add_all Debug (map index_entry (is @ [i]) @ others) (no_blocks, start_scan) = Fault AssertFailure"
    using st(1) by (simp add: add_all_append index_entry_def)
  then show ?thesis using BlocksImpl_entries [OF assms(1), of Debug] assms(2) by simp
qed

section \<open>Sample databases\<close>

definition sample_entry :: "u8 \<Rightarrow> u64 \<Rightarrow> block_index" where
  "sample_entry hash height = sample_index\<lparr>mBlockHash := hash # replicate 31 0, mBlockHeight := height\<rparr>"

lemma sample_entry_facts:
  "index_ok (sample_entry hash height)" "height32 (sample_entry hash height) = ucast height"
  "fst (index_entry (sample_entry hash height)) = 98 # hash # replicate 31 0"
  by (simp_all add: sample_entry_def index_ok_def sample_index_def BLOCK_HAVE_DATA_def BLOCK_HAVE_UNDO_def BLOCK_HAVE_MASK_def
      height32_def index_entry_def)

definition sample_entries :: "u64 \<Rightarrow> (bytes \<times> bytes) list" where
  "sample_entries height = map index_entry [sample_entry 1 0, sample_entry 2 height] @ [([99], [])]"

lemma sample_leveldb: "leveldb (list_ops (sample_entries height)) (sample_entries height) (\<lambda>r. True) (\<lambda>r. r)"
  by (rule list_ops_leveldb) (simp add: sample_entries_def sample_entry_facts)

lemma sample_filter: "filter (\<lambda>e. has_prefix [98] (fst e)) (sample_entries height) =
    map index_entry [sample_entry 1 0, sample_entry 2 height]"
  by (simp add: sample_entries_def sample_entry_facts)

theorem BlocksImpl_correct_witness:
  "\<exists>bl. BlocksImpl Debug (Some (list_ops (sample_entries 1))) = Ok bl \<and> holds_index [sample_entry 1 0, sample_entry 2 1] bl"
  by (rule BlocksImpl_correct [OF sample_leveldb])
    (simp_all add: index_database_def sample_filter [simplified] sample_entry_facts)

theorem BlocksImpl_diverges_witness: "BlocksImpl Release (Some (list_ops (sample_entries 0xFFFFFFFF))) = Fault Diverges"
proof -
  have "index_database (sample_entries 0xFFFFFFFF) [sample_entry 1 0, sample_entry 2 0xFFFFFFFF]"
    by (simp add: index_database_def sample_filter [simplified] sample_entry_facts)
  from BlocksImpl_diverges [OF sample_leveldb this, of Release] show ?thesis by (simp add: sample_entry_facts)
qed

theorem BlocksImpl_same_height_witness: "BlocksImpl Debug (Some (list_ops (sample_entries 0))) = Fault AssertFailure"
  using BlocksImpl_same_height [OF sample_leveldb, of 0 "[sample_entry 1 0]" "sample_entry 2 0" "[]"]
  by (simp add: sample_filter [simplified] sample_entry_facts)
end
