(* ===== verification/CommandLine.thy ===== *)
theory CommandLine
  imports BlocksLoaded
begin

text \<open>
  Splitting a line into arguments (class \<open>GetArgs\<close> of src/include/GetArgs.h) and the commands (class \<open>CommandsImpl\<close> of
  src/src/Commands.cpp and \<open>ParseBlockImpl\<close> of src/src/ParseBlock.cpp). A C string is the list of its bytes before the
  terminating zero; what a command prints is a list of items.
\<close>

section \<open>Splitting a line\<close>

definition MAX_ARGS :: nat where "MAX_ARGS = 4096"
definition MAX_ARG_STRING :: nat where "MAX_ARG_STRING = 16384"

definition isWhiteSpace :: "u8 \<Rightarrow> bool" where
  "isWhiteSpace c \<longleftrightarrow> c = 32 \<or> c = 9"

definition skipSpaces :: "bytes \<Rightarrow> bytes" where
  "skipSpaces str = dropWhile isWhiteSpace str"

text \<open>
  The copying loops: characters go to \<open>mArgString\<close> from place \<open>dest\<close> on, while they satisfy \<open>P\<close> and before the place
  \<open>stop\<close>. The result is the copied text, the rest of the line, and the new place.
\<close>

fun copy_arg :: "(u8 \<Rightarrow> bool) \<Rightarrow> bytes \<Rightarrow> nat \<Rightarrow> bytes \<times> bytes \<times> nat" where
  "copy_arg P [] dest = ([], [], dest)"
| "copy_arg P (c # str) dest =
     (if P c \<and> dest < MAX_ARG_STRING - 1 then
        let (arg, str, dest) = copy_arg P str (dest + 1) in (c # arg, str, dest)
      else ([], c # str, dest))"

text \<open>A pointer to the next argument is stored, provided there is room for it.\<close>

definition push_arg :: "bytes list \<Rightarrow> bytes \<Rightarrow> bytes list result" where
  "push_arg argv arg = (if length argv < MAX_ARGS then Ok (argv @ [arg]) else Fault OutOfBounds)"

text \<open>One round of the main loop on a line that is not empty.\<close>

definition next_arg :: "bytes \<Rightarrow> nat \<Rightarrow> bytes list \<Rightarrow> (bytes \<times> nat \<times> bytes list) result" where
  "next_arg str dest argv =
     (if hd str = 34 then
        let str = tl str
        in bind_result
             (if str \<noteq> [] \<and> hd str = 34 then bind_result (push_arg argv []) (\<lambda>argv. Ok (str, dest, argv))
              else let (arg, str, dest) = copy_arg (\<lambda>c. c \<noteq> 34) str dest
                   in bind_result (push_arg argv arg) (\<lambda>argv. Ok (str, dest + 1, argv))) (\<lambda>(str, dest, argv).
           let str = (if str \<noteq> [] \<and> hd str = 34 then tl str else str) in Ok (skipSpaces str, dest, argv))
      else
        let (arg, str, dest) = copy_arg (\<lambda>c. \<not> isWhiteSpace c) str dest
        in bind_result (push_arg argv arg) (\<lambda>argv. Ok (skipSpaces str, dest + 1, argv)))"

lemma copy_arg_length: "copy_arg P str dest = (arg, str', dest') \<Longrightarrow> length str' \<le> length str"
  by (induction P str dest arbitrary: arg str' dest' rule: copy_arg.induct) (auto split: if_splits prod.splits)

lemma skipSpaces_length: "length (skipSpaces str) \<le> length str"
  by (simp add: skipSpaces_def length_dropWhile_le)

lemma next_arg_shorter:
  assumes "next_arg str dest argv = Ok (str', dest', argv')" "str \<noteq> []" "dest < MAX_ARG_STRING - 1"
  shows "length str' < length str"
proof (cases "hd str = 34")
  case True
  have tl: "length (tl str) < length str" using assms(2) by simp
  show ?thesis
  proof (cases "tl str \<noteq> [] \<and> hd (tl str) = 34")
    case empty: True
    then have "str' = skipSpaces (tl (tl str))" using assms(1) True by (auto simp: next_arg_def push_arg_def split: if_splits)
    then show ?thesis using skipSpaces_length [of "tl (tl str)"] tl by simp
  next
    case False
    obtain arg rest d where c: "copy_arg (\<lambda>c. c \<noteq> 34) (tl str) dest = (arg, rest, d)" by (metis prod_cases3)
    then have "str' = skipSpaces (if rest \<noteq> [] \<and> hd rest = 34 then tl rest else rest)"
      using assms(1) True False by (auto simp: next_arg_def push_arg_def Let_def split: if_splits)
    moreover have "length (if rest \<noteq> [] \<and> hd rest = 34 then tl rest else rest) \<le> length rest" by simp
    ultimately show ?thesis using skipSpaces_length copy_arg_length [OF c] tl by (metis le_less_trans order_trans)
  qed
next
  case False
  obtain arg rest d where c: "copy_arg (\<lambda>c. \<not> isWhiteSpace c) str dest = (arg, rest, d)" by (metis prod_cases3)
  then have str': "str' = skipSpaces rest" using assms(1) False by (auto simp: next_arg_def push_arg_def split: if_splits)
  obtain a s where str: "str = a # s" using assms(2) by (cases str) auto
  show ?thesis
  proof (cases "isWhiteSpace a")
    case True
    then have "rest = str" using c str by simp
    then show ?thesis using str' str True skipSpaces_length [of s] by (simp add: skipSpaces_def)
  next
    case False
    then have "length rest \<le> length s"
      using c str assms(3) copy_arg_length [of _ s "dest + 1"] by (auto split: prod.splits)
    then show ?thesis using str' str skipSpaces_length [of rest] by simp
  qed
qed

function args_loop :: "bytes \<Rightarrow> nat \<Rightarrow> bytes list \<Rightarrow> bytes list result" where
  "args_loop str dest argv =
     (if str \<noteq> [] \<and> dest < MAX_ARG_STRING - 1 then
        case next_arg str dest argv of
          Inl e \<Rightarrow> Inl e
        | Inr (str, dest, argv) \<Rightarrow> args_loop str dest argv
      else Ok argv)"
  by pat_completeness auto
termination
  by (relation "measure (\<lambda>(str, dest, argv). length str)") (auto dest: next_arg_shorter)

declare args_loop.simps [simp del]

definition getArgs :: "bytes option \<Rightarrow> bytes list result" where
  "getArgs str = (case str of None \<Rightarrow> Ok [] | Some s \<Rightarrow> args_loop (skipSpaces s) 0 [])"

section \<open>The commands\<close>

datatype CommandType = Help | Bye | Block | Last

datatype command_output =
  Helped
| Info "(string \<times> bytes) list"
| NotFound bytes
| InvalidHeight bytes
| Usage
| Unknown bytes

text \<open>
  \<open>atoi\<close>: white space, an optional sign, digits. The standard leaves open what happens when the number does not fit into an
  \<open>int\<close>; that value is the parameter \<open>overflow\<close>.
\<close>

definition is_space :: "u8 \<Rightarrow> bool" where
  "is_space c \<longleftrightarrow> c \<in> {32, 9, 10, 11, 12, 13}"

definition is_digit :: "u8 \<Rightarrow> bool" where
  "is_digit c \<longleftrightarrow> 48 \<le> c \<and> c \<le> 57"

definition digit_value :: "u8 \<Rightarrow> int" where
  "digit_value c = int (unat c) - 48"

definition digits_value :: "bytes \<Rightarrow> int" where
  "digits_value ds = foldl (\<lambda>v c. 10 * v + digit_value c) 0 ds"

definition atoi :: "(bytes \<Rightarrow> int) \<Rightarrow> bytes \<Rightarrow> int" where
  "atoi overflow str =
     (let s = dropWhile is_space str;
          neg = (s \<noteq> [] \<and> hd s = 45);
          s' = (if s \<noteq> [] \<and> (hd s = 45 \<or> hd s = 43) then tl s else s);
          v = digits_value (takeWhile is_digit s');
          v = (if neg then - v else v)
      in if - (2 ^ 31) \<le> v \<and> v < 2 ^ 31 then v else overflow str)"

definition parseBlock :: "block_index \<Rightarrow> command_output" where
  "parseBlock index = Info (printInfo index)"

record commands_impl =
  mCommands :: "(bytes \<times> CommandType) list"
  cmd_mBlocks :: blocks_impl
  mDataDir :: bytes
  mIndexDir :: bytes
  mBlocksDir :: bytes

text \<open>\<open>open_db\<close> opens the database in a directory. The commands are an association list: what counts is the look-up.\<close>

definition text_bytes :: "string \<Rightarrow> bytes" where
  "text_bytes s = map of_char s"

definition CommandsImpl :: "build \<Rightarrow> (bytes \<Rightarrow> 'it iterator_ops option) \<Rightarrow> bytes list \<Rightarrow> commands_impl result" where
  "CommandsImpl bld open_db argv =
     (let (data, index, blocks) =
            (if argv \<noteq> [] then (hd argv, hd argv @ text_bytes ''/blocks/index'', hd argv @ text_bytes ''/blocks'') else ([], [], []))
      in bind_result (BlocksImpl bld (open_db index)) (\<lambda>bl.
           Ok \<lparr>mCommands = [(text_bytes ''help'', Help), (text_bytes ''bye'', Bye), (text_bytes ''block'', Block)],
               cmd_mBlocks = bl, mDataDir = data, mIndexDir = index, mBlocksDir = blocks\<rparr>))"

definition getCommandType :: "commands_impl \<Rightarrow> bytes \<Rightarrow> CommandType" where
  "getCommandType c str = (case map_of (mCommands c) str of Some t \<Rightarrow> t | None \<Rightarrow> Last)"

definition processCommand :: "(bytes \<Rightarrow> int) \<Rightarrow> commands_impl \<Rightarrow> bytes list \<Rightarrow> bool \<times> command_output list" where
  "processCommand overflow c argv =
     (if argv = [] then (False, [])
      else case getCommandType c (hd argv) of
        Bye \<Rightarrow> (True, [])
      | Help \<Rightarrow> (False, [Helped])
      | Block \<Rightarrow>
          (if length argv \<ge> 2 then
             let block = atoi overflow (argv ! 1)
             in if block \<ge> 0 \<and> block < sint (getBlockHeight (cmd_mBlocks c)) then
                  case getBlockIndex (cmd_mBlocks c) (word_of_int block) of
                    Some cbi \<Rightarrow> (False, [parseBlock cbi])
                  | None \<Rightarrow> (False, [NotFound (argv ! 1)])
                else (False, [InvalidHeight (argv ! 1)])
           else (False, [Usage]))
      | Last \<Rightarrow> (False, [Unknown (hd argv)]))"

definition processInput :: "(bytes \<Rightarrow> int) \<Rightarrow> commands_impl \<Rightarrow> bytes option \<Rightarrow> (bool \<times> command_output list) result" where
  "processInput overflow c str = bind_result (getArgs str) (\<lambda>argv. Ok (processCommand overflow c argv))"

section \<open>What splitting a line yields\<close>

text \<open>The reference: a line is a sequence of arguments, quoted or plain, each followed by white space.\<close>

datatype token = Quoted bytes | Plain bytes

fun token_text :: "token \<Rightarrow> bytes" where
  "token_text (Quoted a) = 34 # a @ [34]"
| "token_text (Plain a) = a"

fun token_value :: "token \<Rightarrow> bytes" where
  "token_value (Quoted a) = a"
| "token_value (Plain a) = a"

text \<open>The room an argument takes with its terminating zero; an empty one is not copied.\<close>

fun token_size :: "token \<Rightarrow> nat" where
  "token_size (Quoted a) = (if a = [] then 0 else length a + 1)"
| "token_size (Plain a) = length a + 1"

fun token_ok :: "token \<Rightarrow> bool" where
  "token_ok (Quoted a) \<longleftrightarrow> 34 \<notin> set a"
| "token_ok (Plain a) \<longleftrightarrow> a \<noteq> [] \<and> hd a \<noteq> 34 \<and> (\<forall>c \<in> set a. \<not> isWhiteSpace c)"

definition white :: "bytes \<Rightarrow> bool" where
  "white sp \<longleftrightarrow> (\<forall>c \<in> set sp. isWhiteSpace c)"

fun spaced :: "(token \<times> bytes) list \<Rightarrow> bool" where
  "spaced [] \<longleftrightarrow> True"
| "spaced ((t, sp) # ts) \<longleftrightarrow> token_ok t \<and> white sp \<and> (sp \<noteq> [] \<or> ts = []) \<and> spaced ts"

definition line_text :: "(token \<times> bytes) list \<Rightarrow> bytes" where
  "line_text ts = concat (map (\<lambda>(t, sp). token_text t @ sp) ts)"

definition line_size :: "(token \<times> bytes) list \<Rightarrow> nat" where
  "line_size ts = sum_list (map (\<lambda>(t, sp). token_size t) ts)"

lemma copy_arg_run:
  "\<forall>c \<in> set a. P c \<Longrightarrow> rest = [] \<or> \<not> P (hd rest) \<Longrightarrow> dest + length a \<le> MAX_ARG_STRING - 1 \<Longrightarrow>
     copy_arg P (a @ rest) dest = (a, rest, dest + length a)"
proof (induction a arbitrary: dest)
  case Nil
  then show ?case by (cases rest) simp_all
qed simp

definition starts_plain :: "bytes \<Rightarrow> bool" where
  "starts_plain rest \<longleftrightarrow> rest = [] \<or> \<not> isWhiteSpace (hd rest)"

lemma skip_white: "white sp \<Longrightarrow> starts_plain rest \<Longrightarrow> skipSpaces (sp @ rest) = rest"
  by (induction sp) (auto simp: white_def skipSpaces_def starts_plain_def dropWhile_eq_self_iff)

lemma quote_no_space: "\<not> isWhiteSpace 34"
  by (simp add: isWhiteSpace_def)

lemma next_arg_token:
  assumes "token_ok t" "white sp" "starts_plain rest" "sp \<noteq> [] \<or> rest = []" "dest + token_size t \<le> MAX_ARG_STRING"
  shows "next_arg (token_text t @ sp @ rest) dest argv =
    bind_result (push_arg argv (token_value t)) (\<lambda>argv. Ok (rest, dest + token_size t, argv))"
proof (cases t)
  case (Quoted a)
  show ?thesis
  proof (cases "a = []")
    case True
    then show ?thesis using Quoted skip_white [OF assms(2,3)] by (cases "push_arg argv []") (simp_all add: next_arg_def)
  next
    case False
    have "copy_arg (\<lambda>c. c \<noteq> 34) (a @ 34 # sp @ rest) dest = (a, 34 # sp @ rest, dest + length a)"
      by (rule copy_arg_run) (use assms(1,5) Quoted False in auto)
    moreover have "hd (a @ 34 # sp @ rest) \<noteq> 34" using assms(1) Quoted False by (cases a) auto
    ultimately show ?thesis
      using Quoted False skip_white [OF assms(2,3)] by (cases "push_arg argv a") (simp_all add: next_arg_def)
  qed
next
  case (Plain a)
  have "sp @ rest = [] \<or> \<not> \<not> isWhiteSpace (hd (sp @ rest))" using assms(2,4) by (cases sp) (auto simp: white_def)
  then have "copy_arg (\<lambda>c. \<not> isWhiteSpace c) (a @ sp @ rest) dest = (a, sp @ rest, dest + length a)"
    using assms(1,5) Plain by (intro copy_arg_run) auto
  then show ?thesis
    using assms(1) Plain skip_white [OF assms(2,3)] by (cases "push_arg argv a") (simp_all add: next_arg_def)
qed

lemma line_starts_plain: "spaced ts \<Longrightarrow> starts_plain (line_text ts)"
proof (cases ts)
  case (Cons x ts')
  assume "spaced ts"
  obtain t sp where x: "x = (t, sp)" by (cases x)
  then have "token_ok t" using \<open>spaced ts\<close> Cons by simp
  then show ?thesis
    using Cons x quote_no_space by (cases t) (auto simp: line_text_def starts_plain_def)
qed (simp add: line_text_def starts_plain_def)

lemma args_loop_tokens:
  "spaced ts \<Longrightarrow> dest + line_size ts < MAX_ARG_STRING - 1 \<Longrightarrow>
     args_loop (line_text ts) dest argv =
       (if length argv + length ts \<le> MAX_ARGS \<or> ts = [] then Ok (argv @ map (token_value \<circ> fst) ts) else Fault OutOfBounds)"
proof (induction ts arbitrary: dest argv)
  case Nil
  then show ?case by (subst args_loop.simps) (simp add: line_text_def)
next
  case (Cons x ts)
  obtain t sp where x: "x = (t, sp)" by (cases x)
  have ok: "token_ok t" "white sp" "sp \<noteq> [] \<or> ts = []" "spaced ts" using Cons.prems(1) x by simp_all
  have txt_eq: "line_text (x # ts) = token_text t @ sp @ line_text ts" by (simp add: line_text_def x)
  have size: "line_size (x # ts) = token_size t + line_size ts" by (simp add: line_size_def x)
  have ne: "line_text (x # ts) \<noteq> []" using ok(1) by (cases t) (auto simp: txt_eq)
  have na: "next_arg (token_text t @ sp @ line_text ts) dest argv =
      bind_result (push_arg argv (token_value t)) (\<lambda>argv. Ok (line_text ts, dest + token_size t, argv))"
    using ok line_starts_plain Cons.prems(2) size by (intro next_arg_token) (auto simp: line_text_def)
  show ?case
  proof (cases "length argv < MAX_ARGS")
    case True
    then have "args_loop (line_text (x # ts)) dest argv = args_loop (line_text ts) (dest + token_size t) (argv @ [token_value t])"
      using na ne Cons.prems(2) by (subst args_loop.simps) (simp add: txt_eq push_arg_def)
    then show ?thesis
      using Cons.IH [OF ok(4), of "dest + token_size t" "argv @ [token_value t]"] Cons.prems(2) size True
      by (cases ts) (simp_all add: x)
  next
    case False
    then show ?thesis
      using na ne Cons.prems(2) by (subst args_loop.simps) (simp add: txt_eq push_arg_def)
  qed
qed
text \<open>
  C31: splitting a line. A line of plain and quoted arguments with white space between them, that
  fits into the argument buffer, is split into exactly these arguments, in order, as long as there are at most 4096; with
  more the pointers are stored past the end of their array.
\<close>

theorem getArgs_tokens:
  assumes "spaced ts" "line_size ts < MAX_ARG_STRING - 1" "white sp"
  shows "getArgs (Some (sp @ line_text ts)) =
    (if length ts \<le> MAX_ARGS then Ok (map (token_value \<circ> fst) ts) else Fault OutOfBounds)"
  using args_loop_tokens [OF assms(1), of 0 "[]"] assms(2) skip_white [OF assms(3) line_starts_plain [OF assms(1)]]
  by (auto simp: getArgs_def)

theorem getArgs_tokens_witness:
  "getArgs (Some [32, 97, 32, 34, 98, 32, 99, 34]) = Ok [[97], [98, 32, 99]]"
  using getArgs_tokens [of "[(Plain [97], [32]), (Quoted [98, 32, 99], [])]" "[32]"]
  by (simp add: line_size_def line_text_def white_def isWhiteSpace_def MAX_ARGS_def MAX_ARG_STRING_def)

section \<open>The block command\<close>

lemma digit_byte: "n < 10 \<Longrightarrow> unat (word_of_nat (48 + n) :: u8) = 48 + n"
  by (simp only: unat_word_of_nat_u8) simp

lemma digit_value_byte: "n < 10 \<Longrightarrow> digit_value (word_of_nat (48 + n)) = int n"
  unfolding digit_value_def by (simp only: digit_byte)

lemma decimal_value: "digits_value (decimal n) = int n"
proof (induction n rule: decimal.induct)
  case (1 n)
  show ?case
  proof (cases "n < 10")
    case True
    then show ?thesis by (subst decimal.simps) (simp add: digits_value_def digit_value_byte del: of_nat_add)
  next
    case False
    then have "digits_value (decimal (n div 10)) = int (n div 10)" by (rule 1)
    moreover have "digit_value (word_of_nat (48 + n mod 10)) = int (n mod 10)" by (rule digit_value_byte) simp
    moreover have "10 * int (n div 10) + int (n mod 10) = int n"
      by (metis mult_div_mod_eq of_nat_add of_nat_mult of_nat_numeral)
    ultimately show ?thesis using False by (subst decimal.simps) (simp add: digits_value_def del: of_nat_add)
  qed
qed

lemma decimal_is_digits: "\<forall>c \<in> set (decimal n). is_digit c"
proof (induction n rule: decimal.induct)
  case (1 n)
  have d: "is_digit (word_of_nat (48 + m))" if "m < 10" for m
    using digit_byte [OF that] that by (simp add: is_digit_def word_le_nat_alt del: of_nat_add)
  show ?case using 1 d by (subst decimal.simps) (auto simp del: of_nat_add)
qed

lemma decimal_not_Nil: "decimal n \<noteq> []"
  by (subst decimal.simps) simp

lemma digit_apart: "is_digit c \<Longrightarrow> \<not> is_space c \<and> \<not> isWhiteSpace c \<and> c \<noteq> 34 \<and> c \<noteq> 43 \<and> c \<noteq> 45"
  by (auto simp: is_digit_def is_space_def isWhiteSpace_def)

lemma hd_decimal: "is_digit (hd (decimal n))"
  using decimal_is_digits [of n] decimal_not_Nil [of n] by (simp add: list.set_sel(1))

lemma atoi_decimal: "n < 2 ^ 31 \<Longrightarrow> atoi overflow (decimal n) = int n"
proof -
  assume n: "n < 2 ^ 31"
  obtain c s where c: "decimal n = c # s" using decimal_not_Nil [of n] by (cases "decimal n") auto
  have "takeWhile is_digit (decimal n) = decimal n" using decimal_is_digits by (simp add: takeWhile_eq_all_conv)
  moreover have "dropWhile is_space (decimal n) = decimal n" "c \<noteq> 45" "c \<noteq> 43"
    using digit_apart [OF hd_decimal [of n]] c by simp_all
  ultimately show ?thesis using n decimal_value [of n] c by (simp add: atoi_def)
qed

definition block_line :: "nat \<Rightarrow> bytes" where
  "block_line n = text_bytes ''block '' @ decimal n"

lemma block_line_args: "n < 2 ^ 31 \<Longrightarrow> getArgs (Some (block_line n)) = Ok [text_bytes ''block'', decimal n]"
proof -
  assume n: "n < 2 ^ 31"
  let ?ts = "[(Plain (text_bytes ''block''), [32]), (Plain (decimal n), [])]"
  have len: "n < 10 ^ w \<Longrightarrow> 0 < w \<Longrightarrow> length (decimal n) \<le> w" for w n
  proof (induction w arbitrary: n)
    case (Suc w)
    show ?case
    proof (cases "n < 10")
      case True
      then show ?thesis by (subst decimal.simps) simp
    next
      case False
      moreover have "n div 10 < 10 ^ w" using Suc.prems by simp
      moreover have "0 < w" using False Suc.prems by (cases w) simp_all
      ultimately show ?thesis using Suc.IH [of "n div 10"] by (subst decimal.simps) simp
    qed
  qed simp
  have "spaced ?ts"
    using decimal_is_digits digit_apart decimal_not_Nil hd_decimal
    by (auto simp: white_def text_bytes_def isWhiteSpace_def)
  moreover have "line_size ?ts < MAX_ARG_STRING - 1"
    using len [of n 10] n by (simp add: line_size_def text_bytes_def MAX_ARG_STRING_def)
  moreover have "block_line n = [] @ line_text ?ts" by (simp add: block_line_def line_text_def text_bytes_def)
  ultimately show ?thesis
    using args_loop_tokens [of ?ts 0 "[]"] skip_white [of "[]" "line_text ?ts"] line_starts_plain [of ?ts]
    by (simp add: getArgs_def white_def MAX_ARGS_def)
qed

lemma sint_small: "w < 2 ^ 31 \<Longrightarrow> sint (w :: u32) = int (unat w)"
proof -
  assume "w < 2 ^ 31"
  then have "uint w < 2 ^ 31" by (simp add: word_less_def)
  moreover have "- (2 ^ 31) \<le> uint w" by (rule order_trans [of _ 0]) simp_all
  ultimately have "signed_take_bit 31 (uint w) = uint w" by (intro signed_take_bit_int_eq_self)
  then show ?thesis by (simp add: sint_uint)
qed

lemma processCommand_block:
  assumes "map_of (mCommands c) (text_bytes ''block'') = Some Block" "n < 2 ^ 31" "getBlockHeight (cmd_mBlocks c) < 2 ^ 31"
  shows "processCommand overflow c [text_bytes ''block'', decimal n] =
    (False, [if n < unat (getBlockHeight (cmd_mBlocks c)) then
               (case getBlockIndex (cmd_mBlocks c) (word_of_nat n) of
                  Some i \<Rightarrow> Info (printInfo i) | None \<Rightarrow> NotFound (decimal n))
             else InvalidHeight (decimal n)])"
proof -
  have "int n < sint (getBlockHeight (cmd_mBlocks c)) \<longleftrightarrow> n < unat (getBlockHeight (cmd_mBlocks c))"
    unfolding sint_small [OF assms(3)] by (simp only: of_nat_less_iff)
  then show ?thesis
    using assms(1) atoi_decimal [OF assms(2), of overflow]
    by (simp add: processCommand_def getCommandType_def parseBlock_def Let_def split: option.split)
qed

text \<open>
  C13: the block command, from the database to the answer. After a start on a database of index entries, the
  line "block n" prints the report of the entry with height n, when there is one and n is less
  than the greatest height; for the greatest height itself, and beyond it, it answers that the height is not valid.
\<close>

theorem block_command:
  assumes "leveldb ops entries ok rest" "index_database entries is" "\<forall>i \<in> set is. height32 i < 2 ^ 31"
    and "open_db (dir @ text_bytes ''/blocks/index'') = Some ops"
  shows "\<exists>c. CommandsImpl bld open_db (dir # options) = Ok c \<and>
    (\<forall>n < 2 ^ 31. processInput overflow c (Some (block_line n)) =
       Ok (False, [if n < unat (Max (height32 ` set is)) then
           (case find (\<lambda>i. height32 i = word_of_nat n) is of Some i \<Rightarrow> Info (printInfo i) | None \<Rightarrow> NotFound (decimal n))
         else InvalidHeight (decimal n)]))"
proof -
  have top: "0xFFFFFFFF \<notin> height32 ` set is" using assms(3) by auto
  obtain bl where bl: "BlocksImpl bld (Some ops) = Ok bl" "holds_index is bl"
    using BlocksImpl_holds [OF assms(1,2) top] by blast
  have "is \<noteq> []" using assms(2) by (auto simp: index_database_def)
  then have "Max (height32 ` set is) \<in> height32 ` set is" by (intro Max_in) simp_all
  then have small: "Max (height32 ` set is) < 2 ^ 31" using assms(3) by auto
  have q: "getBlockHeight bl = Max (height32 ` set is)" "getBlockIndex bl h = find (\<lambda>i. height32 i = h) is" for h
    using bl(2) by (simp_all add: holds_index_def Let_def)
  let ?c = "\<lparr>mCommands = [(text_bytes ''help'', Help), (text_bytes ''bye'', Bye), (text_bytes ''block'', Block)],
    cmd_mBlocks = bl, mDataDir = dir, mIndexDir = dir @ text_bytes ''/blocks/index'', mBlocksDir = dir @ text_bytes ''/blocks''\<rparr>"
  have "CommandsImpl bld open_db (dir # options) = Ok ?c"
    using assms(4) bl(1) by (simp add: CommandsImpl_def)
  moreover have "map_of (mCommands ?c) (text_bytes ''block'') = Some Block" by (simp add: text_bytes_def)
  ultimately show ?thesis
    using processCommand_block [of ?c _ overflow] small block_line_args by (simp add: processInput_def q)
qed

theorem block_command_witness:
  "\<exists>c. CommandsImpl Debug (\<lambda>dir. Some (list_ops (sample_entries 1))) [[120]] = Ok c \<and>
     processInput (\<lambda>_. 0) c (Some (block_line 0)) = Ok (False, [Info (printInfo (sample_entry 1 0))]) \<and>
     processInput (\<lambda>_. 0) c (Some (block_line 1)) = Ok (False, [InvalidHeight (decimal 1)])"
proof -
  let ?is = "[sample_entry 1 0, sample_entry 2 1]"
  have "index_database (sample_entries 1) ?is"
    by (simp add: index_database_def sample_filter [simplified] sample_entry_facts)
  moreover have "\<forall>i \<in> set ?is. height32 i < 2 ^ 31" by (simp add: sample_entry_facts)
  ultimately obtain c where c: "CommandsImpl Debug (\<lambda>dir. Some (list_ops (sample_entries 1))) [[120]] = Ok c"
    "\<forall>n < 2 ^ 31. processInput (\<lambda>_. 0) c (Some (block_line n)) =
       Ok (False, [if n < unat (Max (height32 ` set ?is)) then
           (case find (\<lambda>i. height32 i = word_of_nat n) ?is of Some i \<Rightarrow> Info (printInfo i) | None \<Rightarrow> NotFound (decimal n))
         else InvalidHeight (decimal n)])"
    using block_command [OF sample_leveldb, of 1 ?is "\<lambda>dir. Some (list_ops (sample_entries 1))" "[120]" Debug "[]" "\<lambda>_. 0"]
    by auto
  then show ?thesis using c(2) [rule_format, of 0] c(2) [rule_format, of 1] by (simp add: sample_entry_facts)
qed
section \<open>Lines from the console\<close>

text \<open>An argument takes at least two characters, unless it is the last, and no more room than characters.\<close>

lemma copy_arg_facts:
  "copy_arg P str dest = (arg, rest, dest') \<Longrightarrow>
     str = arg @ rest \<and> dest' = dest + length arg \<and> (rest = [] \<or> \<not> P (hd rest) \<or> MAX_ARG_STRING - 1 \<le> dest')"
  by (induction P str dest arbitrary: arg rest dest' rule: copy_arg.induct) (auto split: if_splits prod.splits)

lemma skipSpaces_shorter: "rest \<noteq> [] \<Longrightarrow> isWhiteSpace (hd rest) \<Longrightarrow> length (skipSpaces rest) < length rest"
  using skipSpaces_length [of "tl rest"] by (cases rest) (simp_all add: skipSpaces_def)

lemma starts_plain_skip: "starts_plain (skipSpaces s)"
  unfolding starts_plain_def skipSpaces_def using hd_dropWhile [of isWhiteSpace s] by blast

lemma next_arg_two:
  assumes "next_arg str dest argv = Ok (str', dest', argv')" "str \<noteq> []" "dest + length str < MAX_ARG_STRING - 1"
    and "starts_plain str"
  shows "length argv' = length argv + 1" "starts_plain str'"
    "str' = [] \<or> (length str' + 2 \<le> length str \<and> dest' + length str' \<le> dest + length str)"
proof -
  show "length argv' = length argv + 1"
    using assms(1) by (auto simp: next_arg_def push_arg_def Let_def bind_result_eq_Inr split: if_splits prod.splits)
  show "starts_plain str'"
    using assms(1) starts_plain_skip
    by (auto simp: next_arg_def push_arg_def Let_def bind_result_eq_Inr split: if_splits prod.splits)
  have len: "length str = length (tl str) + 1" using assms(2) by (cases str) simp_all
  show "str' = [] \<or> (length str' + 2 \<le> length str \<and> dest' + length str' \<le> dest + length str)"
  proof (cases "hd str = 34")
    case q: True
    show ?thesis
    proof (cases "tl str \<noteq> [] \<and> hd (tl str) = 34")
      case True
      then have "str' = skipSpaces (tl (tl str))" "dest' = dest"
        using assms(1) q by (auto simp: next_arg_def push_arg_def split: if_splits)
      then show ?thesis using skipSpaces_length [of "tl (tl str)"] len True by (cases "tl str") simp_all
    next
      case False
      obtain arg rest d where c: "copy_arg (\<lambda>c. c \<noteq> 34) (tl str) dest = (arg, rest, d)" by (metis prod_cases3)
      note f = copy_arg_facts [OF c]
      have s: "str' = skipSpaces (if rest \<noteq> [] \<and> hd rest = 34 then tl rest else rest)" "dest' = d + 1"
        using assms(1) q False c by (auto simp: next_arg_def push_arg_def Let_def split: if_splits)
      have l: "length str = 1 + length arg + length rest" using len f by simp
      show ?thesis
      proof (cases "rest = []")
        case True
        then show ?thesis using s by (simp add: skipSpaces_def)
      next
        case ne: False
        have "\<not> MAX_ARG_STRING - 1 \<le> d" using f assms(3) l by linarith
        then have "hd rest = 34" using f ne by auto
        then have "length str' \<le> length rest - 1" using s(1) ne skipSpaces_length [of "tl rest"] by simp
        moreover have "0 < length rest" using ne by simp
        ultimately show ?thesis using l s(2) f by linarith
      qed
    qed
  next
    case False
    obtain arg rest d where c: "copy_arg (\<lambda>c. \<not> isWhiteSpace c) str dest = (arg, rest, d)" by (metis prod_cases3)
    note f = copy_arg_facts [OF c]
    have s: "str' = skipSpaces rest" "dest' = d + 1"
      using assms(1) False c by (auto simp: next_arg_def push_arg_def split: if_splits)
    show ?thesis
    proof (cases "rest = []")
      case True
      then show ?thesis using s by (simp add: skipSpaces_def)
    next
      case ne: False
      have l: "length str = length arg + length rest" using f by simp
      then have "\<not> MAX_ARG_STRING - 1 \<le> d" using f assms(3) by linarith
      then have ws: "isWhiteSpace (hd rest)" using f ne by auto
      then have lt: "length str' < length rest" using s(1) skipSpaces_shorter [OF ne] by simp
      show ?thesis
      proof (cases "arg = []")
        case False
        then have "0 < length arg" by simp
        then show ?thesis using lt l s(2) f by linarith
      next
        case True
        then show ?thesis using f ws assms(2,4) by (simp add: starts_plain_def)
      qed
    qed
  qed
qed

lemma args_loop_short:
  "starts_plain str \<Longrightarrow> dest + length str < MAX_ARG_STRING - 1 \<Longrightarrow> 2 * length argv + length str \<le> 2 * MAX_ARGS \<Longrightarrow>
     \<exists>argv'. args_loop str dest argv = Ok argv'"
proof (induction str dest argv rule: args_loop.induct)
  case (1 str dest argv)
  show ?case
  proof (cases "str = []")
    case True
    then show ?thesis by (subst args_loop.simps) simp
  next
    case False
    have d: "dest < MAX_ARG_STRING - 1" using 1(3) by simp
    have room: "length argv < MAX_ARGS" using 1(4) False by (cases str) simp_all
    have "\<exists>r. next_arg str dest argv = Ok r"
      using room by (auto simp: next_arg_def push_arg_def Let_def split: prod.split)
    then obtain str' dest' argv' where r: "next_arg str dest argv = Ok (str', dest', argv')" by (metis prod_cases3)
    note two = next_arg_two [OF r False 1(3,2)]
    have "\<exists>argv''. args_loop str' dest' argv' = Ok argv''"
    proof (cases "str' = []")
      case True
      then show ?thesis by (subst args_loop.simps) simp
    next
      case ne: False
      with two(3) have le: "length str' + 2 \<le> length str" "dest' + length str' \<le> dest + length str" by simp_all
      show ?thesis
        by (rule 1(1) [OF _ r refl]) (use False d two(1,2) le 1(3,4) in simp_all)
    qed
    then show ?thesis using r False d by (subst args_loop.simps) simp
  qed
qed

text \<open>
  Lines from the console are split without a fault: a line of fewer than 8192 characters, the size of the input
  buffer, has at most as many arguments as there is room for, whatever the characters are.
\<close>

theorem getArgs_console_line:
  assumes "length s < 8192"
  shows "\<exists>argv. getArgs (Some s) = Ok argv"
proof -
  have "length (skipSpaces s) < 8192" using skipSpaces_length [of s] assms by simp
  then have "0 + length (skipSpaces s) < MAX_ARG_STRING - 1" "2 * length ([] :: bytes list) + length (skipSpaces s) \<le> 2 * MAX_ARGS"
    by (simp_all add: MAX_ARG_STRING_def MAX_ARGS_def)
  from args_loop_short [OF starts_plain_skip this] show ?thesis by (simp add: getArgs_def)
qed

theorem getArgs_console_line_witness: "\<exists>argv. getArgs (Some (replicate 4000 34)) = Ok argv"
  by (rule getArgs_console_line) simp
end
