(* ===== verification/InputLoop.thy ===== *)
theory InputLoop
  imports CommandLine
begin

text \<open>
  The two threads of the program: the reader thread of \<open>InputLineImpl\<close> (src/src/InputLine.cpp), the main loop (src/app/main.cpp)
  and the \<open>WakeupThreadImpl\<close> (src/src/WakupThread.cpp) between them, as a step relation on a shared state. Every
  access to shared data is a step of its own, and the threads interleave in any order. The standard input is the list
  of the bytes still to come.
\<close>

section \<open>Lines of the standard input\<close>

definition MAX_INPUT_BUF :: nat where "MAX_INPUT_BUF = 8192"

text \<open>
  What \<open>fgets\<close> reads: up to the first newline, at most one byte less than the buffer holds. The buffer is a C string, so a
  zero byte hides what follows it.
\<close>

definition fgets :: "bytes \<Rightarrow> bytes \<times> bytes" where
  "fgets s = (let n = min (MAX_INPUT_BUF - 1) (length (takeWhile (\<lambda>c. c \<noteq> 10) s) + 1) in (take n s, drop n s))"

section \<open>The threads\<close>

datatype reader_pc = TestExit | TestFlag | ClearBuffer | Read | TestRead bool | Wakeup | SetFlag | Stopped
datatype main_pc = Sleep | TestData | Copy | ClearFlag | Process | Finished

text \<open>
  What \<open>main\<close> does behind its loop: the destructor of the input object sets \<open>mExit\<close> and detaches the thread, the object is deleted, then
  the wake-up object is. (\<open>c->release()\<close> touches nothing the threads share.)
\<close>

datatype cleanup_pc = SetExit | DeleteInput | DeleteWakeup | Returned

record session =
  stdin_rest :: bytes
  mInputBuffer :: bytes
  mHaveNewData :: bool
  mExit :: bool
  mPendingWork :: bool
  reader :: reader_pc
  main :: main_pc
  cleanup :: cleanup_pc
  mResultBuffer :: bytes
  taken :: "bytes list"
  answers :: "command_output list"
  eof_message :: bool

definition session_start :: "bytes \<Rightarrow> session" where
  "session_start input = \<lparr>stdin_rest = input, mInputBuffer = [], mHaveNewData = False, mExit = False, mPendingWork = True,
     reader = TestExit, main = Sleep, cleanup = SetExit, mResultBuffer = [], taken = [], answers = [], eof_message = False\<rparr>"

text \<open>Which of the two objects are still there.\<close>

definition input_lives :: "session \<Rightarrow> bool" where
  "input_lives s \<longleftrightarrow> cleanup s \<in> {SetExit, DeleteInput}"

definition wakeup_lives :: "session \<Rightarrow> bool" where
  "wakeup_lives s \<longleftrightarrow> cleanup s \<noteq> Returned"

text \<open>
  \<open>wakeup\<close> and \<open>goToSleep\<close>. The wait ends when there is pending work, which it returns and resets, or when the time is over
  (\<open>timeout\<close>); a wake-up without work goes on waiting. No result means that the thread is still waiting.
\<close>

definition wakeup :: "session \<Rightarrow> session" where
  "wakeup s = s\<lparr>mPendingWork := True\<rparr>"

definition goToSleep :: "bool \<Rightarrow> session \<Rightarrow> (bool \<times> session) option" where
  "goToSleep timeout s =
     (if mPendingWork s \<or> timeout then Some (mPendingWork s, s\<lparr>mPendingWork := False\<rparr>) else None)"

text \<open>\<open>getInputLine\<close> copies the line and removes the newline at its end.\<close>

definition strip_newline :: "bytes \<Rightarrow> bytes" where
  "strip_newline l = (if l \<noteq> [] \<and> last l = 10 then butlast l else l)"

definition copy_line :: "session \<Rightarrow> session" where
  "copy_line s = s\<lparr>mResultBuffer := strip_newline (mInputBuffer s), taken := taken s @ [mInputBuffer s]\<rparr>"

declare wakeup_def [simp] goToSleep_def [simp] copy_line_def [simp]

text \<open>
  The body of the reader thread, one statement per step; the wait while the flag is set is a step back to its start. At the end of the
  input it says so on the console.
\<close>

definition reader_body :: "session \<Rightarrow> session option" where
  "reader_body s =
     (case reader s of
        TestExit \<Rightarrow> Some (s\<lparr>reader := if mExit s then Stopped else TestFlag\<rparr>)
      | TestFlag \<Rightarrow> Some (s\<lparr>reader := if mHaveNewData s then TestExit else ClearBuffer\<rparr>)
      | ClearBuffer \<Rightarrow> Some (s\<lparr>mInputBuffer := [], reader := Read\<rparr>)
      | Read \<Rightarrow>
          if stdin_rest s = [] then Some (s\<lparr>reader := TestRead False\<rparr>)
          else (case fgets (stdin_rest s) of (chunk, later) \<Rightarrow>
            Some (s\<lparr>mInputBuffer := c_string chunk, stdin_rest := later, reader := TestRead True\<rparr>))
      | TestRead ret \<Rightarrow>
          Some (s\<lparr>reader := if ret \<and> mInputBuffer s \<noteq> [] then Wakeup else if \<not> ret then Stopped else TestExit,
            eof_message := eof_message s \<or> \<not> ret\<rparr>)
      | Wakeup \<Rightarrow> Some (wakeup s\<lparr>reader := SetFlag\<rparr>)
      | SetFlag \<Rightarrow> Some (s\<lparr>mHaveNewData := True, reader := TestExit\<rparr>)
      | Stopped \<Rightarrow> None)"

text \<open>
  All that it reads and writes are members of the input object, but for \<open>mPendingWork\<close>, a member of the wake-up object. The thread is
  detached, and so it goes on after an object is deleted; its next access is then a use of freed memory.
\<close>

definition reader_step :: "session \<Rightarrow> session result option" where
  "reader_step s =
     (if reader s \<noteq> Stopped \<and> (\<not> input_lives s \<or> (reader s = Wakeup \<and> \<not> wakeup_lives s)) then Some (Fault UseAfterFree)
      else map_option Ok (reader_body s))"

lemma reader_stepD: "reader_step s = Some (Ok s') \<Longrightarrow> reader_body s = Some s'"
  by (auto simp: reader_step_def split: if_splits)

text \<open>
  The main loop, with the three accesses of \<open>getInputLine\<close> as steps: the test, the copy, and the reset of the flag. \<open>Finished\<close> is the
  end of the loop, where the objects are released.
\<close>

definition release_step :: "session \<Rightarrow> session option" where
  "release_step s =
     (case cleanup s of
        SetExit \<Rightarrow> Some (s\<lparr>mExit := True, cleanup := DeleteInput\<rparr>)
      | DeleteInput \<Rightarrow> Some (s\<lparr>cleanup := DeleteWakeup\<rparr>)
      | DeleteWakeup \<Rightarrow> Some (s\<lparr>cleanup := Returned\<rparr>)
      | Returned \<Rightarrow> None)"

definition main_step :: "(bytes \<Rightarrow> int) \<Rightarrow> commands_impl \<Rightarrow> bool \<Rightarrow> session \<Rightarrow> session result option" where
  "main_step overflow c timeout s =
     (case main s of
        Sleep \<Rightarrow> (case goToSleep timeout s of None \<Rightarrow> None | Some (_, s) \<Rightarrow> Some (Ok (s\<lparr>main := TestData\<rparr>)))
      | TestData \<Rightarrow> Some (Ok (s\<lparr>main := if mHaveNewData s then Copy else Sleep\<rparr>))
      | Copy \<Rightarrow> Some (Ok (copy_line s\<lparr>main := ClearFlag\<rparr>))
      | ClearFlag \<Rightarrow> Some (Ok (s\<lparr>mHaveNewData := False, main := Process\<rparr>))
      | Process \<Rightarrow> Some (bind_result (processInput overflow c (Some (mResultBuffer s))) (\<lambda>(isExit, out).
          Ok (s\<lparr>answers := answers s @ out, main := if isExit then Finished else Sleep\<rparr>)))
      | Finished \<Rightarrow> map_option Ok (release_step s))"

inductive step :: "(bytes \<Rightarrow> int) \<Rightarrow> commands_impl \<Rightarrow> session \<Rightarrow> session \<Rightarrow> bool" for overflow c where
  reader: "reader_step s = Some (Ok s') \<Longrightarrow> step overflow c s s'"
| main: "main_step overflow c timeout s = Some (Ok s') \<Longrightarrow> step overflow c s s'"

inductive reachable :: "(bytes \<Rightarrow> int) \<Rightarrow> commands_impl \<Rightarrow> bytes \<Rightarrow> session \<Rightarrow> bool" for overflow c input where
  init: "reachable overflow c input (session_start input)"
| step: "reachable overflow c input s \<Longrightarrow> step overflow c s s' \<Longrightarrow> reachable overflow c input s'"

inductive_cases stepE: "step overflow c s s'"

lemma step_cases [consumes 1, case_names reader main]:
  assumes "step overflow c s s'"
  obtains "reader_step s = Some (Ok s')" | timeout where "main_step overflow c timeout s = Some (Ok s')"
  using assms by (rule stepE)

section \<open>The lines in order\<close>

text \<open>The lines of an input: what one \<open>fgets\<close> after the other leaves in the buffer, but for empty strings.\<close>

lemma fgets_shorter: "s \<noteq> [] \<Longrightarrow> length (snd (fgets s)) < length s"
  by (cases s) (simp_all add: fgets_def Let_def MAX_INPUT_BUF_def)

function lines_of :: "bytes \<Rightarrow> bytes list" where
  "lines_of s = (if s = [] then [] else
     (let line = c_string (fst (fgets s)); later = lines_of (snd (fgets s)) in if line = [] then later else line # later))"
  by pat_completeness auto
termination by (relation "measure length") (simp_all add: fgets_shorter)

declare lines_of.simps [simp del]

definition in_flight :: "session \<Rightarrow> bytes list" where
  "in_flight s =
     (if mInputBuffer s \<noteq> [] \<and> (reader s \<in> {TestRead True, Wakeup, SetFlag} \<or> (mHaveNewData s \<and> main s \<noteq> ClearFlag))
      then [mInputBuffer s] else [])"

definition writing :: "session \<Rightarrow> bool" where
  "writing s \<longleftrightarrow> reader s \<in> {ClearBuffer, Read, TestRead True, TestRead False, Wakeup, SetFlag}"

definition taking :: "session \<Rightarrow> bool" where
  "taking s \<longleftrightarrow> main s \<in> {Copy, ClearFlag}"

definition flags_ok :: "session \<Rightarrow> bool" where
  "flags_ok s \<longleftrightarrow>
     (writing s \<longrightarrow> \<not> mHaveNewData s) \<and> (taking s \<longrightarrow> mHaveNewData s) \<and>
     (mHaveNewData s \<or> reader s \<in> {Wakeup, SetFlag} \<longrightarrow> mInputBuffer s \<noteq> []) \<and>
     (reader s \<in> {Read, TestRead False} \<longrightarrow> mInputBuffer s = []) \<and>
     length (mInputBuffer s) < MAX_INPUT_BUF \<and> length (mResultBuffer s) < MAX_INPUT_BUF"

definition lines_ok :: "bytes \<Rightarrow> session \<Rightarrow> bool" where
  "lines_ok input s \<longleftrightarrow> lines_of input = taken s @ in_flight s @ lines_of (stdin_rest s)"

lemma chunk_length: "length (c_string (fst (fgets s))) < MAX_INPUT_BUF"
proof -
  have "length (c_string (fst (fgets s))) \<le> length (fst (fgets s))" unfolding c_string_def by (rule length_takeWhile_le)
  also have "\<dots> < MAX_INPUT_BUF" by (simp add: fgets_def Let_def MAX_INPUT_BUF_def)
  finally show ?thesis .
qed

lemma reader_step_flags:
  assumes "flags_ok s" "reader_body s = Some s'"
  shows "flags_ok s'"
proof (cases "reader s")
  case Read
  show ?thesis
  proof (cases "stdin_rest s = []")
    case True
    then show ?thesis using assms Read by (auto simp: reader_body_def flags_ok_def writing_def taking_def)
  next
    case False
    obtain chunk later where f: "fgets (stdin_rest s) = (chunk, later)" by (cases "fgets (stdin_rest s)")
    then show ?thesis
      using assms Read False chunk_length [of "stdin_rest s"]
      by (auto simp: reader_body_def flags_ok_def writing_def taking_def)
  qed
qed (use assms in \<open>auto simp: reader_body_def flags_ok_def writing_def taking_def MAX_INPUT_BUF_def split: if_splits\<close>)

lemma main_stepE:
  assumes "main_step overflow c timeout s = Some (Ok s')"
  obtains (Sleep) "main s = Sleep" "s' = s\<lparr>mPendingWork := False, main := TestData\<rparr>"
  | (Data) "main s = TestData" "mHaveNewData s" "s' = s\<lparr>main := Copy\<rparr>"
  | (NoData) "main s = TestData" "\<not> mHaveNewData s" "s' = s\<lparr>main := Sleep\<rparr>"
  | (Copy) "main s = Copy"
      "s' = s\<lparr>mResultBuffer := strip_newline (mInputBuffer s), taken := taken s @ [mInputBuffer s], main := ClearFlag\<rparr>"
  | (ClearFlag) "main s = ClearFlag" "s' = s\<lparr>mHaveNewData := False, main := Process\<rparr>"
  | (Process) isExit out where "main s = Process" "processInput overflow c (Some (mResultBuffer s)) = Ok (isExit, out)"
      "s' = s\<lparr>answers := answers s @ out, main := if isExit then Finished else Sleep\<rparr>"
  | (SetExit) "main s = Finished" "cleanup s = SetExit" "s' = s\<lparr>mExit := True, cleanup := DeleteInput\<rparr>"
  | (Delete) d where "main s = Finished" "cleanup s \<noteq> SetExit" "s' = s\<lparr>cleanup := d\<rparr>" "d \<in> {DeleteWakeup, Returned}"
proof (cases "main s")
  case P: Process
  show thesis
  proof (cases "processInput overflow c (Some (mResultBuffer s))")
    case (Inl e)
    then show thesis using assms P by (simp add: main_step_def)
  next
    case (Inr r)
    then show thesis using assms P Process by (cases r) (simp add: main_step_def)
  qed
next
  case S: Sleep
  then show thesis using assms Sleep by (cases "mPendingWork s \<or> timeout") (simp_all add: main_step_def)
next
  case T: TestData
  then show thesis using assms Data NoData by (cases "mHaveNewData s") (simp_all add: main_step_def)
next
  case C: Copy
  then show thesis using assms Copy by (simp add: main_step_def)
next
  case C: ClearFlag
  then show thesis using assms ClearFlag by (simp add: main_step_def)
next
  case Finished
  then show thesis using assms SetExit Delete by (auto simp: main_step_def release_step_def split: cleanup_pc.splits)
qed

lemma strip_length: "length (strip_newline l) \<le> length l"
  by (simp add: strip_newline_def)

lemma main_step_flags:
  assumes "flags_ok s" "main_step overflow c timeout s = Some (Ok s')"
  shows "flags_ok s'"
  using assms(2)
proof (cases rule: main_stepE)
  case Copy
  then show ?thesis using assms(1) strip_length [of "mInputBuffer s"] by (auto simp: flags_ok_def writing_def taking_def)
qed (use assms(1) in \<open>auto simp: flags_ok_def writing_def taking_def\<close>)

lemma reader_step_lines:
  assumes "lines_ok input s" "flags_ok s" "reader_body s = Some s'"
  shows "lines_ok input s'"
proof (cases "reader s = Read \<and> stdin_rest s \<noteq> []")
  case True
  obtain chunk later where f: "fgets (stdin_rest s) = (chunk, later)" by (cases "fgets (stdin_rest s)")
  have s': "s' = s\<lparr>mInputBuffer := c_string chunk, stdin_rest := later, reader := TestRead True\<rparr>"
    using assms(3) True f by (simp add: reader_body_def)
  have "lines_of (stdin_rest s) = (if c_string chunk = [] then [] else [c_string chunk]) @ lines_of later"
    using True f by (subst lines_of.simps) (simp add: Let_def)
  moreover have "in_flight s = []" using assms(2) True by (auto simp: in_flight_def flags_ok_def)
  moreover have "in_flight s' = (if c_string chunk = [] then [] else [c_string chunk])" by (simp add: in_flight_def s')
  ultimately show ?thesis using assms(1) by (simp add: lines_ok_def s')
next
  case False
  then have "taken s' = taken s" "stdin_rest s' = stdin_rest s"
    using assms(3) by (auto simp: reader_body_def split: reader_pc.splits if_splits)
  moreover have "in_flight s' = in_flight s"
    using assms(2,3) False
    by (cases "reader s") (auto simp: reader_body_def in_flight_def flags_ok_def writing_def taking_def split: if_splits)
  ultimately show ?thesis using assms(1) by (simp add: lines_ok_def)
qed

lemma main_step_lines:
  assumes "lines_ok input s" "flags_ok s" "main_step overflow c timeout s = Some (Ok s')"
  shows "lines_ok input s'"
  using assms(3)
proof (cases rule: main_stepE)
  case Copy
  then have "mHaveNewData s" "\<not> writing s" "mInputBuffer s \<noteq> []" using assms(2) by (auto simp: flags_ok_def taking_def)
  then show ?thesis using assms(1) Copy by (simp add: lines_ok_def in_flight_def writing_def)
next
  case ClearFlag
  then have "\<not> writing s" using assms(2) by (auto simp: flags_ok_def taking_def)
  then show ?thesis using assms(1) ClearFlag by (simp add: lines_ok_def in_flight_def writing_def)
qed (use assms(1) in \<open>simp_all add: lines_ok_def in_flight_def\<close>)

lemma reachable_ok: "reachable overflow c input s \<Longrightarrow> flags_ok s \<and> lines_ok input s"
proof (induction rule: reachable.induct)
  case init
  then show ?case
    by (simp add: flags_ok_def lines_ok_def session_start_def writing_def taking_def in_flight_def MAX_INPUT_BUF_def)
next
  case (step s s')
  from step.hyps(2) step.IH show ?case
    by (cases rule: stepE) (blast intro: reader_step_flags main_step_flags reader_step_lines main_step_lines dest: reader_stepD)+
qed

section \<open>The answers, one line after the other\<close>

text \<open>The specification: one thread that answers the lines of the input in order, up to the first that asks to leave.\<close>

fun run_lines :: "(bytes \<Rightarrow> int) \<Rightarrow> commands_impl \<Rightarrow> bytes list \<Rightarrow> (command_output list \<times> bool) result" where
  "run_lines overflow c [] = Ok ([], False)"
| "run_lines overflow c (l # ls) =
     bind_result (processInput overflow c (Some (strip_newline l))) (\<lambda>(isExit, out).
       if isExit then Ok (out, True)
       else bind_result (run_lines overflow c ls) (\<lambda>(outs, isExit). Ok (out @ outs, isExit)))"

lemma run_lines_append:
  "run_lines overflow c ls = Ok (outs, False) \<Longrightarrow>
     run_lines overflow c (ls @ ls') = bind_result (run_lines overflow c ls') (\<lambda>(outs', isExit). Ok (outs @ outs', isExit))"
proof (induction ls arbitrary: outs)
  case Nil
  then show ?case by (cases "run_lines overflow c ls'") auto
next
  case (Cons l ls)
  obtain out where out: "processInput overflow c (Some (strip_newline l)) = Ok (False, out)"
    using Cons.prems by (auto simp: bind_result_eq_Inr split: if_splits)
  then obtain outs0 where outs0: "run_lines overflow c ls = Ok (outs0, False)" "outs = out @ outs0"
    using Cons.prems by (auto simp: bind_result_eq_Inr)
  then show ?case using Cons.IH [OF outs0(1)] out by (cases "run_lines overflow c ls'") auto
qed

lemma run_lines_exit:
  "run_lines overflow c ls = Ok (outs, True) \<Longrightarrow> run_lines overflow c (ls @ ls') = Ok (outs, True)"
proof (induction ls arbitrary: outs)
  case (Cons l ls)
  obtain isExit out where out: "processInput overflow c (Some (strip_newline l)) = Ok (isExit, out)"
    using Cons.prems by (auto simp: bind_result_eq_Inr)
  then show ?case using Cons.prems Cons.IH by (cases isExit) (auto simp: bind_result_eq_Inr)
qed simp

text \<open>The lines that have been answered: all that have been taken, but for the one that is being processed.\<close>

definition answered :: "session \<Rightarrow> bytes list" where
  "answered s = (if main s \<in> {ClearFlag, Process} then butlast (taken s) else taken s)"

definition answers_ok :: "(bytes \<Rightarrow> int) \<Rightarrow> commands_impl \<Rightarrow> session \<Rightarrow> bool" where
  "answers_ok overflow c s \<longleftrightarrow>
     run_lines overflow c (answered s) = Ok (answers s, main s = Finished) \<and>
     (main s \<in> {ClearFlag, Process} \<longrightarrow> taken s \<noteq> [] \<and> mResultBuffer s = strip_newline (last (taken s))) \<and>
     ((mExit s \<or> cleanup s \<noteq> SetExit) \<longrightarrow> main s = Finished)"

lemma reader_step_frame:
  assumes "reader_body s = Some s'"
  shows "main s' = main s" "taken s' = taken s" "answers s' = answers s" "mResultBuffer s' = mResultBuffer s"
    "mExit s' = mExit s" "cleanup s' = cleanup s"
  using assms by (auto simp: reader_body_def split: reader_pc.splits if_splits prod.splits)

lemma reader_step_answers:
  assumes "answers_ok overflow c s" "reader_body s = Some s'"
  shows "answers_ok overflow c s'"
  using assms(1) unfolding answers_ok_def answered_def reader_step_frame [OF assms(2)] .

lemma main_step_answers:
  assumes "answers_ok overflow c s" "main_step overflow c timeout s = Some (Ok s')"
  shows "answers_ok overflow c s'"
  using assms(2)
proof (cases rule: main_stepE)
  case (Process isExit out)
  have old: "run_lines overflow c (butlast (taken s)) = Ok (answers s, False)" "taken s \<noteq> []"
    "mResultBuffer s = strip_newline (last (taken s))" "\<not> mExit s" "cleanup s = SetExit"
    using assms(1) Process(1) by (simp_all add: answers_ok_def answered_def)
  have "run_lines overflow c [last (taken s)] = Ok (out, isExit)"
    using Process(2) old(3) by simp
  then have "run_lines overflow c (butlast (taken s) @ [last (taken s)]) = Ok (answers s @ out, isExit)"
    unfolding run_lines_append [OF old(1)] by simp
  then have "run_lines overflow c (taken s) = Ok (answers s @ out, isExit)" using old(2) by simp
  then show ?thesis using Process(3) old(4,5) by (simp add: answers_ok_def answered_def)
qed (use assms(1) in \<open>simp_all add: answers_ok_def answered_def\<close>)

lemma reachable_answers: "reachable overflow c input s \<Longrightarrow> answers_ok overflow c s"
proof (induction rule: reachable.induct)
  case init
  then show ?case by (simp add: answers_ok_def answered_def session_start_def)
next
  case (step s s')
  from step.hyps(2) step.IH show ?case
    by (cases rule: stepE) (blast intro: reader_step_answers main_step_answers dest: reader_stepD)+
qed

text \<open>No line faults: it is shorter than the input buffer.\<close>

lemma processInput_short:
  assumes "length l < MAX_INPUT_BUF"
  shows "\<exists>r. processInput overflow c (Some l) = Ok r"
proof -
  have "length (skipSpaces l) < 8192" using skipSpaces_length [of l] assms by (simp add: MAX_INPUT_BUF_def)
  then have "0 + length (skipSpaces l) < MAX_ARG_STRING - 1" "2 * length ([] :: bytes list) + length (skipSpaces l) \<le> 2 * MAX_ARGS"
    by (simp_all add: MAX_ARG_STRING_def MAX_ARGS_def)
  from args_loop_short [OF starts_plain_skip this] show ?thesis by (auto simp: processInput_def getArgs_def)
qed

lemma main_step_no_fault:
  assumes "flags_ok s" "main_step overflow c timeout s = Some r"
  shows "\<exists>s'. r = Ok s'"
proof (cases "main s")
  case Process
  have "length (mResultBuffer s) < MAX_INPUT_BUF" using assms(1) by (simp add: flags_ok_def)
  then obtain q where "processInput overflow c (Some (mResultBuffer s)) = Ok q" using processInput_short by blast
  then show ?thesis using assms(2) Process by (cases q) (auto simp: main_step_def)
qed (use assms(2) in \<open>auto simp: main_step_def split: if_splits\<close>)

section \<open>Every line is answered\<close>

text \<open>
  A run takes a step of one of the threads, or none, at every moment. It is fair when each thread gets its turn again and again,
  until it has stopped; the wait of the main loop ends after a second at the latest.
\<close>

definition session_run :: "(bytes \<Rightarrow> int) \<Rightarrow> commands_impl \<Rightarrow> bytes \<Rightarrow> (nat \<Rightarrow> session) \<Rightarrow> bool" where
  "session_run overflow c input \<sigma> \<longleftrightarrow>
     \<sigma> 0 = session_start input \<and> (\<forall>i. step overflow c (\<sigma> i) (\<sigma> (Suc i)) \<or> \<sigma> (Suc i) = \<sigma> i)"

definition fair :: "(bytes \<Rightarrow> int) \<Rightarrow> commands_impl \<Rightarrow> (nat \<Rightarrow> session) \<Rightarrow> bool" where
  "fair overflow c \<sigma> \<longleftrightarrow>
     (\<forall>i. \<exists>j\<ge>i. main (\<sigma> j) = Finished \<or> (\<exists>timeout. main_step overflow c timeout (\<sigma> j) = Some (Ok (\<sigma> (Suc j))))) \<and>
     (\<forall>i. \<exists>j\<ge>i. main (\<sigma> j) = Finished \<or> reader (\<sigma> j) = Stopped \<or> reader_step (\<sigma> j) = Some (Ok (\<sigma> (Suc j))))"

lemma run_reachable: "session_run overflow c input \<sigma> \<Longrightarrow> reachable overflow c input (\<sigma> i)"
  by (induction i) (auto simp: session_run_def intro: reachable.intros; metis reachable.step)+

text \<open>
  The work left until the next line is answered or the input is exhausted. While a line is in the buffer, or is being
  processed, the main thread reduces it, and otherwise the reader does; no step increases it.
\<close>

fun reader_left :: "reader_pc \<Rightarrow> nat" where
  "reader_left TestExit = 5"
| "reader_left TestFlag = 4"
| "reader_left ClearBuffer = 3"
| "reader_left Read = 2"
| "reader_left (TestRead ret) = (if ret then 14 else 1)"
| "reader_left Wakeup = 13"
| "reader_left SetFlag = 12"
| "reader_left Stopped = 0"

fun main_left :: "main_pc \<Rightarrow> nat" where
  "main_left Process = 6"
| "main_left Sleep = 5"
| "main_left TestData = 4"
| "main_left Copy = 3"
| "main_left ClearFlag = 2"
| "main_left Finished = 0"

definition left :: "session \<Rightarrow> nat" where
  "left s = 20 * length (stdin_rest s) +
     (if mHaveNewData s then 5 + main_left (main s) else reader_left (reader s) + (if main s = Process then 1 else 0))"

definition busy :: "session \<Rightarrow> bool" where
  "busy s \<longleftrightarrow> mHaveNewData s \<or> main s = Process"

definition idle :: "session \<Rightarrow> bool" where
  "idle s \<longleftrightarrow> main s = Finished \<or> (\<not> busy s \<and> reader s = Stopped)"

lemma main_left_small: "main_left m \<le> 6"
  by (cases m) simp_all

lemma reader_step_left:
  assumes "flags_ok s" "\<not> mExit s" "reader_body s = Some s'"
  shows "left s' \<le> left s" "\<not> busy s \<Longrightarrow> left s' < left s" "busy s \<Longrightarrow> busy s'"
proof -
  have "left s' \<le> left s \<and> (\<not> busy s \<longrightarrow> left s' < left s) \<and> (busy s \<longrightarrow> busy s')"
  proof (cases "reader s = Read \<and> stdin_rest s \<noteq> []")
    case True
    obtain chunk later where f: "fgets (stdin_rest s) = (chunk, later)" by (cases "fgets (stdin_rest s)")
    then have "length later < length (stdin_rest s)" using fgets_shorter [of "stdin_rest s"] True by simp
    moreover have "s' = s\<lparr>mInputBuffer := c_string chunk, stdin_rest := later, reader := TestRead True\<rparr>"
      using assms(3) True f by (simp add: reader_body_def)
    moreover have "\<not> mHaveNewData s" using True assms(1) by (auto simp: flags_ok_def writing_def)
    ultimately show ?thesis using True by (simp add: left_def busy_def)
  next
    case False
    then show ?thesis
      using assms main_left_small [of "main s"]
      by (cases "reader s"; cases "main s")
         (auto simp: reader_body_def left_def busy_def flags_ok_def writing_def taking_def split: if_splits)
  qed
  then show "left s' \<le> left s" "\<not> busy s \<Longrightarrow> left s' < left s" "busy s \<Longrightarrow> busy s'" by blast+
qed

lemma main_step_left:
  assumes "flags_ok s" "\<not> mExit s" "main_step overflow c timeout s = Some (Ok s')" "main s' \<noteq> Finished"
  shows "left s' \<le> left s" "busy s \<Longrightarrow> left s' < left s" "\<not> busy s \<Longrightarrow> \<not> busy s'"
proof -
  have "left s' \<le> left s \<and> (busy s \<longrightarrow> left s' < left s) \<and> (\<not> busy s \<longrightarrow> \<not> busy s')"
    using assms(3)
  proof (cases rule: main_stepE)
    case (Process isExit out)
    then show ?thesis using assms by (cases isExit) (auto simp: left_def busy_def)
  next
    case ClearFlag
    then have "mHaveNewData s" "reader s \<in> {TestExit, TestFlag, Stopped}"
      using assms(1) by (cases "reader s"; auto simp: flags_ok_def writing_def taking_def)+
    then show ?thesis using ClearFlag by (auto simp: left_def busy_def)
  qed (use assms(4) in \<open>auto simp: left_def busy_def\<close>)
  then show "left s' \<le> left s" "busy s \<Longrightarrow> left s' < left s" "\<not> busy s \<Longrightarrow> \<not> busy s'" by blast+
qed

definition eof_ok :: "session \<Rightarrow> bool" where
  "eof_ok s \<longleftrightarrow> (reader s = TestRead False \<longrightarrow> stdin_rest s = []) \<and> (reader s = Stopped \<longrightarrow> mExit s \<or> stdin_rest s = [])"

lemma reachable_eof: "reachable overflow c input s \<Longrightarrow> eof_ok s"
proof (induction rule: reachable.induct)
  case init
  then show ?case by (simp add: eof_ok_def session_start_def)
next
  case (step s s')
  show ?case
    using step.hyps(2)
  proof (cases rule: step_cases)
    case reader
    then show ?thesis using step.IH by (auto simp: reader_body_def eof_ok_def dest!: reader_stepD split: reader_pc.splits if_splits prod.splits)
  next
    case (main timeout)
    from main show ?thesis using step.IH by (cases rule: main_stepE) (auto simp: eof_ok_def)
  qed
qed

lemma step_left:
  assumes "reachable overflow c input s" "\<not> idle s" "step overflow c s s'"
  shows "idle s' \<or> left s' < left s \<or> (left s' = left s \<and> (busy s' \<longleftrightarrow> busy s))"
proof -
  have s: "flags_ok s" "\<not> mExit s"
    using reachable_ok [OF assms(1)] reachable_answers [OF assms(1)] assms(2) by (auto simp: answers_ok_def idle_def)
  show ?thesis
    using assms(3)
  proof (cases rule: step_cases)
    case reader
    show ?thesis using reader_step_left [OF s reader_stepD [OF reader]] by (cases "busy s") auto
  next
    case (main timeout)
    show ?thesis
    proof (cases "main s' = Finished")
      case True
      then show ?thesis by (simp add: idle_def)
    next
      case False
      show ?thesis using main_step_left [OF s main False] by (cases "busy s") auto
    qed
  qed
qed

lemma fair_run_idle:
  assumes "session_run overflow c input \<sigma>" "fair overflow c \<sigma>"
  shows "\<exists>i. idle (\<sigma> i)"
proof (rule ccontr)
  assume "\<not> ?thesis"
  then have never: "\<not> idle (\<sigma> i)" for i by blast
  note reach = run_reachable [OF assms(1)]
  have s: "flags_ok (\<sigma> i)" "\<not> mExit (\<sigma> i)" for i
    using reachable_ok [OF reach] reachable_answers [OF reach, of i] never [of i] by (auto simp: answers_ok_def idle_def)
  have least: "\<exists>i. True \<and> (\<forall>k. True \<longrightarrow> left (\<sigma> i) \<le> left (\<sigma> k))" by (rule ex_has_least_nat) simp
  then obtain i where i: "left (\<sigma> i) \<le> left (\<sigma> k)" for k by blast
  have same: "left (\<sigma> (i + k)) = left (\<sigma> i) \<and> (busy (\<sigma> (i + k)) \<longleftrightarrow> busy (\<sigma> i))" for k
  proof (induction k)
    case (Suc k)
    have "step overflow c (\<sigma> (i + k)) (\<sigma> (Suc (i + k))) \<or> \<sigma> (Suc (i + k)) = \<sigma> (i + k)"
      using assms(1) by (simp add: session_run_def)
    then show ?case
    proof
      assume st: "step overflow c (\<sigma> (i + k)) (\<sigma> (Suc (i + k)))"
      have "\<not> left (\<sigma> (Suc (i + k))) < left (\<sigma> (i + k))" using i [of "Suc (i + k)"] Suc.IH by linarith
      then show ?case using step_left [OF reach never st] never Suc.IH by simp
    qed (use Suc.IH in simp)
  qed simp
  show False
  proof (cases "busy (\<sigma> i)")
    case True
    obtain j timeout where j: "i \<le> j" "main_step overflow c timeout (\<sigma> j) = Some (Ok (\<sigma> (Suc j)))"
      using assms(2) never unfolding fair_def idle_def by blast
    then have "busy (\<sigma> j)" "left (\<sigma> j) = left (\<sigma> i)" using same [of "j - i"] True by simp_all
    moreover have "main (\<sigma> (Suc j)) \<noteq> Finished" using never [of "Suc j"] by (simp add: idle_def)
    ultimately show False using main_step_left(2) [OF s j(2)] i [of "Suc j"] by simp
  next
    case False
    obtain j where j: "i \<le> j" "main (\<sigma> j) = Finished \<or> reader (\<sigma> j) = Stopped \<or> reader_step (\<sigma> j) = Some (Ok (\<sigma> (Suc j)))"
      using assms(2) unfolding fair_def by blast
    then have b: "\<not> busy (\<sigma> j)" "left (\<sigma> j) = left (\<sigma> i)" using same [of "j - i"] False by simp_all
    then have "reader_body (\<sigma> j) = Some (\<sigma> (Suc j))" using j(2) never [of j] by (auto simp: idle_def dest: reader_stepD)
    then show False using reader_step_left(2) [OF s _ b(1)] b(2) i [of "Suc j"] by simp
  qed
qed

lemma idle_answered:
  assumes "reachable overflow c input s" "idle s"
  shows "run_lines overflow c (lines_of input) = Ok (answers s, main s = Finished)"
proof -
  have all: "flags_ok s" "lines_of input = taken s @ in_flight s @ lines_of (stdin_rest s)"
    "run_lines overflow c (answered s) = Ok (answers s, main s = Finished)" "mExit s \<longrightarrow> main s = Finished" "eof_ok s"
    using reachable_ok [OF assms(1)] reachable_answers [OF assms(1)] reachable_eof [OF assms(1)]
    by (simp_all add: lines_ok_def answers_ok_def)
  show ?thesis
  proof (cases "main s = Finished")
    case True
    then have "run_lines overflow c (taken s) = Ok (answers s, True)" using all(3) by (simp add: answered_def)
    from run_lines_exit [OF this] show ?thesis using True all(2) by simp
  next
    case False
    then have idle: "\<not> mHaveNewData s" "main s \<noteq> Process" "reader s = Stopped" using assms(2) by (auto simp: idle_def busy_def)
    then have "in_flight s = []" by (simp add: in_flight_def)
    moreover have "stdin_rest s = []" using all(4,5) False idle by (simp add: eof_ok_def)
    moreover have "main s \<noteq> ClearFlag" using all(1) idle by (auto simp: flags_ok_def taking_def)
    ultimately show ?thesis using all(2,3) idle False by (simp add: answered_def lines_of.simps [of "[]"])
  qed
qed

section \<open>Schedules\<close>

text \<open>A schedule says whose turn it is; a thread that cannot step lets its turn pass.\<close>

datatype turn = Reader | Main bool

definition take_turn :: "(bytes \<Rightarrow> int) \<Rightarrow> commands_impl \<Rightarrow> turn \<Rightarrow> session \<Rightarrow> session" where
  "take_turn overflow c t s =
     (case t of
        Reader \<Rightarrow> (case reader_step s of Some (Inr s') \<Rightarrow> s' | _ \<Rightarrow> s)
      | Main timeout \<Rightarrow> (case main_step overflow c timeout s of Some (Inr s') \<Rightarrow> s' | _ \<Rightarrow> s))"

lemma take_turn_step: "step overflow c s (take_turn overflow c t s) \<or> take_turn overflow c t s = s"
  by (auto simp: take_turn_def intro: step.intros split: turn.split option.split sum.split)

lemma reachable_turns: "reachable overflow c input s \<Longrightarrow> reachable overflow c input (fold (take_turn overflow c) ts s)"
proof (induction ts arbitrary: s)
  case (Cons t ts)
  have "reachable overflow c input (take_turn overflow c t s)"
    using take_turn_step [of overflow c s t] Cons.prems by (metis reachable.step)
  then show ?case by (simp add: Cons.IH)
qed simp

fun round_robin :: "(bytes \<Rightarrow> int) \<Rightarrow> commands_impl \<Rightarrow> bytes \<Rightarrow> nat \<Rightarrow> session" where
  "round_robin overflow c input 0 = session_start input"
| "round_robin overflow c input (Suc i) =
     take_turn overflow c (if even i then Main True else Reader) (round_robin overflow c input i)"

lemma round_robin_run: "session_run overflow c input (round_robin overflow c input)"
  using take_turn_step by (auto simp: session_run_def)

lemma main_step_timeout: "main s \<noteq> Finished \<Longrightarrow> \<exists>r. main_step overflow c True s = Some r"
  by (cases "main s") (simp_all add: main_step_def)

lemma reader_step_running: "reader s \<noteq> Stopped \<Longrightarrow> cleanup s = SetExit \<Longrightarrow> \<exists>s'. reader_step s = Some (Ok s')"
  by (cases "reader s") (simp_all add: reader_step_def reader_body_def input_lives_def wakeup_lives_def split: prod.split)

lemma round_robin_fair: "fair overflow c (round_robin overflow c input)"
proof -
  let ?s = "round_robin overflow c input"
  have main: "main (?s j) = Finished \<or> (\<exists>timeout. main_step overflow c timeout (?s j) = Some (Ok (?s (Suc j))))" if "even j" for j
  proof (cases "main (?s j) = Finished")
    case False
    obtain r where r: "main_step overflow c True (?s j) = Some r" using main_step_timeout [OF False] by blast
    have "flags_ok (?s j)" using reachable_ok [OF run_reachable [OF round_robin_run]] by blast
    then obtain s' where "r = Ok s'" using main_step_no_fault r by blast
    then have "main_step overflow c True (?s j) = Some (Ok (?s (Suc j)))" using r that by (simp add: take_turn_def)
    then show ?thesis by blast
  qed simp
  have reader: "main (?s j) = Finished \<or> reader (?s j) = Stopped \<or> reader_step (?s j) = Some (Ok (?s (Suc j)))" if "odd j" for j
  proof (cases "main (?s j) = Finished \<or> reader (?s j) = Stopped")
    case False
    have "answers_ok overflow c (?s j)" by (rule reachable_answers [OF run_reachable [OF round_robin_run]])
    then have "cleanup (?s j) = SetExit" using False by (auto simp: answers_ok_def)
    then show ?thesis using reader_step_running [of "?s j"] False that by (auto simp: take_turn_def)
  qed blast
  show ?thesis
    unfolding fair_def
  proof (intro conjI allI)
    fix i
    show "\<exists>j\<ge>i. main (?s j) = Finished \<or> (\<exists>timeout. main_step overflow c timeout (?s j) = Some (Ok (?s (Suc j))))"
      using main [of "2 * i"] by (intro exI [of _ "2 * i"]) simp
    show "\<exists>j\<ge>i. main (?s j) = Finished \<or> reader (?s j) = Stopped \<or> reader_step (?s j) = Some (Ok (?s (Suc j)))"
      using reader [of "2 * i + 1"] by (intro exI [of _ "2 * i + 1"]) simp
  qed
qed

section \<open>Properties of a session\<close>

text \<open>
  C16: the two threads and their one buffer. In every state that any interleaving of the threads can reach, the reader
  is not writing the input buffer while the main thread takes a line from it, although the reader never holds the lock;
  each line of the input has been taken, is in the buffer or is still to be read, exactly once and in order; the
  steps of the main thread never fault, whatever the input; and a step of the reader faults exactly when the input object has been
  deleted and the reader has not stopped, which happens only after the main thread has left its loop.
\<close>

theorem session_lines_in_order:
  assumes "reachable overflow c input s"
  shows "\<not> (writing s \<and> taking s) \<and> lines_of input = taken s @ in_flight s @ lines_of (stdin_rest s) \<and>
    main_step overflow c timeout s \<noteq> Some (Inl e) \<and>
    (reader_step s = Some (Inl f) \<longleftrightarrow> f = UseAfterFree \<and> \<not> input_lives s \<and> reader s \<noteq> Stopped) \<and>
    (\<not> input_lives s \<longrightarrow> main s = Finished)"
proof -
  have "\<not> input_lives s \<longrightarrow> main s = Finished" using reachable_answers [OF assms] by (auto simp: answers_ok_def input_lives_def)
  moreover have "\<not> wakeup_lives s \<longrightarrow> \<not> input_lives s" by (simp add: wakeup_lives_def input_lives_def)
  ultimately show ?thesis
    using reachable_ok [OF assms] main_step_no_fault [of s overflow c timeout]
    by (auto simp: flags_ok_def lines_ok_def reader_step_def)
qed

text \<open>A command processor with no blocks, and two lines, for the examples.\<close>

definition no_commands :: commands_impl where
  "no_commands = \<lparr>mCommands = [(text_bytes ''help'', Help), (text_bytes ''bye'', Bye), (text_bytes ''block'', Block)],
     cmd_mBlocks = no_blocks, mDataDir = [], mIndexDir = [], mBlocksDir = []\<rparr>"

definition two_lines :: bytes where
  "two_lines = text_bytes ''help'' @ [10] @ text_bytes ''bye'' @ [10]"

lemma lines_of_two: "lines_of two_lines = [text_bytes ''help'' @ [10], text_bytes ''bye'' @ [10]]"
  by code_simp

lemma words:
  "processInput (\<lambda>_. 0) no_commands (Some (text_bytes ''help'')) = Ok (False, [Helped])"
  "processInput (\<lambda>_. 0) no_commands (Some (text_bytes ''bye'')) = Ok (True, [])"
proof -
  have "getArgs (Some (text_bytes w)) = Ok [text_bytes w]" if "w = ''help'' \<or> w = ''bye''" for w
  proof -
    let ?ts = "[(Plain (text_bytes w), [])]"
    have "spaced ?ts" "line_size ?ts < MAX_ARG_STRING - 1"
      using that by (auto simp: white_def text_bytes_def isWhiteSpace_def line_size_def MAX_ARG_STRING_def)
    then show ?thesis
      using args_loop_tokens [of ?ts 0 "[]"] skip_white [of "[]" "line_text ?ts"] line_starts_plain [of ?ts]
      by (simp add: getArgs_def white_def MAX_ARGS_def line_text_def)
  qed
  moreover have "getCommandType no_commands (text_bytes ''help'') = Help" "getCommandType no_commands (text_bytes ''bye'') = Bye"
    by (simp_all add: getCommandType_def no_commands_def text_bytes_def)
  ultimately show "processInput (\<lambda>_. 0) no_commands (Some (text_bytes ''help'')) = Ok (False, [Helped])"
    "processInput (\<lambda>_. 0) no_commands (Some (text_bytes ''bye'')) = Ok (True, [])"
    by (simp_all add: processInput_def processCommand_def)
qed

lemma strip_line: "strip_newline (w @ [10]) = w"
  by (simp add: strip_newline_def)

lemma run_two_lines:
  "run_lines (\<lambda>_. 0) no_commands [text_bytes ''help'' @ [10], text_bytes ''bye'' @ [10]] = Ok ([Helped], True)"
  by (simp add: strip_line words)

text \<open>
  C15: the session refines a single thread. Whatever the interleaving, what has been printed is what one thread prints that
  processes the first lines of the input in order; the main thread has finished exactly when the last of these lines asked to
  leave.
\<close>

theorem session_answers_prefix:
  assumes "reachable overflow c input s"
  shows "\<exists>n. run_lines overflow c (take n (lines_of input)) = Ok (answers s, main s = Finished)"
proof -
  have "lines_of input = taken s @ in_flight s @ lines_of (stdin_rest s)"
    using reachable_ok [OF assms] by (simp add: lines_ok_def)
  moreover have "taken s = answered s @ (if main s \<in> {ClearFlag, Process} then [last (taken s)] else [])"
    using reachable_answers [OF assms] by (auto simp: answers_ok_def answered_def)
  ultimately have "take (length (answered s)) (lines_of input) = answered s" by (metis append.assoc append_eq_conv_conj)
  then show ?thesis using reachable_answers [OF assms] by (auto simp: answers_ok_def intro: exI [of _ "length (answered s)"])
qed

theorem session_answers_prefix_witness:
  "\<exists>n. run_lines (\<lambda>_. 0) no_commands (take n (lines_of two_lines)) =
     Ok (answers (round_robin (\<lambda>_. 0) no_commands two_lines 9), main (round_robin (\<lambda>_. 0) no_commands two_lines 9) = Finished)"
  by (rule session_answers_prefix [OF run_reachable [OF round_robin_run]])

text \<open>
  C14: every line is answered. In a run in which each thread gets its turn again and again, there comes a moment when all that a single
  thread would print for the whole input has been printed, and the main thread has finished if a line asked to
  leave. (If none does, it stays in its loop, although the reader stops at the end of the input.)
\<close>

theorem session_answers_all:
  assumes "session_run overflow c input \<sigma>" "fair overflow c \<sigma>"
  shows "\<exists>i. run_lines overflow c (lines_of input) = Ok (answers (\<sigma> i), main (\<sigma> i) = Finished)"
  using fair_run_idle [OF assms] idle_answered [OF run_reachable [OF assms(1)]] by blast

theorem session_answers_all_witness:
  "\<exists>i. answers (round_robin (\<lambda>_. 0) no_commands two_lines i) = [Helped] \<and>
     main (round_robin (\<lambda>_. 0) no_commands two_lines i) = Finished"
  using session_answers_all [OF round_robin_run round_robin_fair, of "\<lambda>_. 0" no_commands two_lines]
  unfolding lines_of_two run_two_lines by auto

text \<open>The main thread sleeps, and no number of steps of the reader ends its sleep before the time is over.\<close>

definition waits :: "(bytes \<Rightarrow> int) \<Rightarrow> commands_impl \<Rightarrow> session \<Rightarrow> bool" where
  "waits overflow c s \<longleftrightarrow> (\<forall>s'. (\<lambda>t t'. reader_step t = Some (Ok t'))\<^sup>*\<^sup>* s s' \<longrightarrow> main_step overflow c False s' = None)"

lemma waitsI:
  assumes "main s = Sleep" "\<not> mPendingWork s" "mHaveNewData s" "reader s = TestExit"
  shows "waits overflow c s"
proof -
  have "main s' = Sleep \<and> \<not> mPendingWork s' \<and> mHaveNewData s' \<and> reader s' \<in> {TestExit, TestFlag, Stopped}"
    if "(\<lambda>t t'. reader_step t = Some (Ok t'))\<^sup>*\<^sup>* s s'" for s'
    using that
  proof (induction rule: rtranclp_induct)
    case base
    then show ?case using assms by simp
  next
    case (step t t')
    then show ?case by (auto simp: reader_body_def dest!: reader_stepD split: if_splits)
  qed
  then show ?thesis by (simp add: waits_def main_step_def)
qed

definition early_wakeup :: "turn list" where
  "early_wakeup = [Main True, Main True, Reader, Reader, Reader, Reader, Reader, Reader, Main False, Main False, Reader]"

text \<open>
  The wake-up can come too early. The reader calls \<open>wakeup\<close> before it says that there is a line; if the main thread looks
  in between, it finds no line, has used up the signal and goes to sleep, and no step of the reader ends that
  sleep: the line waits until the time is over.
\<close>

theorem session_wakeup_lost:
  "\<exists>s. reachable overflow c two_lines s \<and> in_flight s = [text_bytes ''help'' @ [10]] \<and> mHaveNewData s \<and> waits overflow c s"
proof -
  have "c_string (fst (fgets two_lines)) = text_bytes ''help'' @ [10]" by code_simp
  then have start: "\<exists>chunk later. fgets two_lines = (chunk, later) \<and> c_string chunk = text_bytes ''help'' @ [10]"
    by (metis prod.collapse)
  let ?s = "fold (take_turn overflow c) early_wakeup (session_start two_lines)"
  obtain chunk later where f: "fgets two_lines = (chunk, later)" "c_string chunk = text_bytes ''help'' @ [10]"
    using start by blast
  have ne: "two_lines \<noteq> []" by (simp add: two_lines_def)
  note turn = take_turn_def main_step_def reader_step_def reader_body_def input_lives_def wakeup_lives_def
  have "fold (take_turn overflow c) (take 5 early_wakeup) (session_start two_lines) =
      (session_start two_lines)\<lparr>mPendingWork := False, reader := Read\<rparr>"
    by (simp add: early_wakeup_def turn session_start_def)
  moreover have "fold (take_turn overflow c) (drop 5 early_wakeup) ((session_start two_lines)\<lparr>mPendingWork := False, reader := Read\<rparr>) =
      (session_start two_lines)\<lparr>stdin_rest := later, mInputBuffer := text_bytes ''help'' @ [10], mHaveNewData := True, mPendingWork := False\<rparr>"
    by (simp add: early_wakeup_def turn session_start_def ne f)
  moreover have "?s = fold (take_turn overflow c) (drop 5 early_wakeup) (fold (take_turn overflow c) (take 5 early_wakeup) (session_start two_lines))"
    by (metis append_take_drop_id fold_append comp_apply)
  ultimately have "mHaveNewData ?s \<and> \<not> mPendingWork ?s \<and> main ?s = Sleep \<and> reader ?s = TestExit \<and>
      mInputBuffer ?s = text_bytes ''help'' @ [10]"
    by (simp add: session_start_def)
  moreover from this have "waits overflow c ?s" by (intro waitsI) simp_all
  moreover have "reachable overflow c two_lines ?s" by (rule reachable_turns [OF reachable.init])
  ultimately show ?thesis by (intro exI [of _ ?s]) (simp add: in_flight_def)
qed

definition early_release :: "turn list" where
  "early_release = replicate 7 Reader @ replicate 7 (Main True)"

text \<open>
  The detached reader uses the input object after the main thread has deleted it: there is a run in which the line \<open>bye\<close> ends the main loop,
  the objects are released, and the next step of the reader is a use of freed memory.
\<close>

theorem session_reader_after_release:
  "\<exists>s. reachable (\<lambda>_. 0) no_commands (text_bytes ''bye'' @ [10]) s \<and> main s = Finished \<and> reader_step s = Some (Fault UseAfterFree)"
proof -
  let ?in = "text_bytes ''bye'' @ [10]"
  have "c_string (fst (fgets ?in)) = ?in" by code_simp
  then obtain later where f: "fgets ?in = (?in, later) \<or> (\<exists>chunk. fgets ?in = (chunk, later) \<and> c_string chunk = ?in)"
    by (metis prod.collapse)
  then obtain chunk where f: "fgets ?in = (chunk, later)" "c_string chunk = ?in" using \<open>c_string (fst (fgets ?in)) = ?in\<close> by auto
  note turn = take_turn_def main_step_def reader_step_def reader_body_def input_lives_def wakeup_lives_def release_step_def
  let ?go = "fold (take_turn (\<lambda>_. 0) no_commands)"
  let ?read = "(session_start ?in)\<lparr>stdin_rest := later, mInputBuffer := ?in, mHaveNewData := True\<rparr>"
  have "?go (replicate 7 Reader) (session_start ?in) = ?read"
    by (simp add: numeral_eq_Suc turn session_start_def f)
  moreover have "main (?go (replicate 7 (Main True)) ?read) = Finished \<and> cleanup (?go (replicate 7 (Main True)) ?read) = DeleteWakeup \<and>
      reader (?go (replicate 7 (Main True)) ?read) = TestExit"
    by (simp add: numeral_eq_Suc turn session_start_def strip_line words)
  ultimately have "main (?go early_release (session_start ?in)) = Finished \<and> cleanup (?go early_release (session_start ?in)) = DeleteWakeup \<and>
      reader (?go early_release (session_start ?in)) = TestExit"
    by (simp add: early_release_def)
  moreover have "reachable (\<lambda>_. 0) no_commands ?in (?go early_release (session_start ?in))" by (rule reachable_turns [OF reachable.init])
  ultimately show ?thesis by (intro exI [of _ "?go early_release (session_start ?in)"]) (simp add: reader_step_def input_lives_def)
qed

theorem session_lines_in_order_witness:
  "(let s = round_robin (\<lambda>_. 0) no_commands two_lines 12 in
     lines_of two_lines = taken s @ in_flight s @ lines_of (stdin_rest s) \<and> main_step (\<lambda>_. 0) no_commands True s \<noteq> Some (Inl OutOfBounds) \<and>
     reader_step s \<noteq> Some (Inl OutOfBounds)) \<and>
   (\<exists>s. reachable (\<lambda>_. 0) no_commands (text_bytes ''bye'' @ [10]) s \<and> main s = Finished \<and> \<not> input_lives s \<and> reader s \<noteq> Stopped \<and>
     reader_step s = Some (Inl UseAfterFree))"
proof -
  obtain s where "reachable (\<lambda>_. 0) no_commands (text_bytes ''bye'' @ [10]) s" "main s = Finished" "reader_step s = Some (Fault UseAfterFree)"
    using session_reader_after_release by blast
  moreover from session_lines_in_order [OF this(1)] this(3) have "\<not> input_lives s" "reader s \<noteq> Stopped" by blast+
  ultimately show ?thesis
    using session_lines_in_order [OF run_reachable [OF round_robin_run], of "\<lambda>_. 0" no_commands two_lines 12 True OutOfBounds OutOfBounds]
    unfolding Let_def by blast
qed

end
