(* ===== verification/HeapSort.thy ===== *)
theory HeapSort
  imports Prelude "HOL-Library.Multiset" "HOL-Library.Signed_Division"
begin

text \<open>
  The in-place heap sort of src/include/HeapSort.h. The virtual method \<open>compare\<close> of the class is the parameter \<open>cmp\<close>; an
  array is a list, accesses outside of it and index computations that leave the 32-bit integers are faults.
\<close>

section \<open>The code\<close>

definition swap :: "nat \<Rightarrow> nat \<Rightarrow> 'a list \<Rightarrow> 'a list" where
  "swap i j arr = arr[i := arr ! j, j := arr ! i]"

text \<open>The greater one of the root and its children, the left one first.\<close>

definition swap_index :: "('a \<Rightarrow> 'a \<Rightarrow> int) \<Rightarrow> 'a list \<Rightarrow> nat \<Rightarrow> nat \<Rightarrow> nat" where
  "swap_index cmp arr root high =
     (let leftChild = root * 2 + 1; rightChild = leftChild + 1; swapIdx = root;
          swapIdx = (if cmp (arr ! swapIdx) (arr ! leftChild) < 0 then leftChild else swapIdx)
      in if rightChild \<le> high \<and> cmp (arr ! swapIdx) (arr ! rightChild) < 0 then rightChild else swapIdx)"

lemma swap_index_cases:
  "swap_index cmp arr root high \<in> {root, root * 2 + 1} \<or> (swap_index cmp arr root high = root * 2 + 2 \<and> root * 2 + 2 \<le> high)"
  by (simp add: swap_index_def Let_def)

text \<open>\<open>root * 2 + 1\<close> is computed before it is compared; on signed integers it must not overflow.\<close>

function shiftRight :: "('a \<Rightarrow> 'a \<Rightarrow> int) \<Rightarrow> 'a list \<Rightarrow> nat \<Rightarrow> nat \<Rightarrow> 'a list result" where
  "shiftRight cmp arr root high =
     (if int root * 2 + 1 \<ge> 2 ^ 31 then Fault Overflow
      else if root * 2 + 1 \<le> high then
        if high < length arr then
          let swapIdx = swap_index cmp arr root high
          in if swapIdx \<noteq> root then shiftRight cmp (swap root swapIdx arr) swapIdx high else Ok arr
        else Fault OutOfBounds
      else Ok arr)"
  by pat_completeness auto
termination
proof (relation "measure (\<lambda>(cmp, arr, root, high). high - root)")
  fix cmp :: "'a \<Rightarrow> 'a \<Rightarrow> int" and arr root high i
  assume "root * 2 + 1 \<le> high" "i = swap_index cmp arr root high" "i \<noteq> root"
  then show "((cmp, swap root i arr, i, high), cmp, arr, root, high) \<in> measure (\<lambda>(cmp, arr, root, high). high - root)"
    using swap_index_cases [of cmp arr root high] by auto
qed simp

declare shiftRight.simps [simp del]

text \<open>The division rounds towards zero, so \<open>midIdx\<close> is 0 for an array of one element and -1 for the empty one.\<close>

fun heapify_loop :: "('a \<Rightarrow> 'a \<Rightarrow> int) \<Rightarrow> nat \<Rightarrow> 'a list \<Rightarrow> nat \<Rightarrow> 'a list result" where
  "heapify_loop cmp 0 arr high = Ok arr"
| "heapify_loop cmp (Suc midIdx) arr high =
     bind_result (shiftRight cmp arr midIdx high) (\<lambda>arr. heapify_loop cmp midIdx arr high)"

definition heapify :: "('a \<Rightarrow> 'a \<Rightarrow> int) \<Rightarrow> 'a list \<Rightarrow> int \<Rightarrow> int \<Rightarrow> 'a list result" where
  "heapify cmp arr low high = heapify_loop cmp (nat ((high - low - 1) sdiv 2 + 1)) arr (nat high)"

fun sort_loop :: "('a \<Rightarrow> 'a \<Rightarrow> int) \<Rightarrow> nat \<Rightarrow> 'a list \<Rightarrow> 'a list result" where
  "sort_loop cmp 0 arr = Ok arr"
| "sort_loop cmp (Suc high) arr =
     (if Suc high < length arr then
        bind_result (shiftRight cmp (swap (Suc high) 0 arr) 0 high) (sort_loop cmp high)
      else Fault OutOfBounds)"

definition heapSort :: "('a \<Rightarrow> 'a \<Rightarrow> int) \<Rightarrow> 'a list \<Rightarrow> nat \<Rightarrow> 'a list result" where
  "heapSort cmp arr len =
     bind_result (heapify cmp arr 0 (int len - 1)) (\<lambda>arr. sort_loop cmp (len - 1) arr)"


section \<open>Heaps\<close>

definition leq :: "('a \<Rightarrow> 'a \<Rightarrow> int) \<Rightarrow> 'a \<Rightarrow> 'a \<Rightarrow> bool" where
  "leq cmp x y \<longleftrightarrow> \<not> cmp y x < 0"

text \<open>What a comparison has to satisfy: \<open>cmp x y < 0\<close> is a strict weak order.\<close>

definition weak_order :: "('a \<Rightarrow> 'a \<Rightarrow> int) \<Rightarrow> bool" where
  "weak_order cmp \<longleftrightarrow> (\<forall>x y. cmp x y < 0 \<longrightarrow> \<not> cmp y x < 0) \<and> transp (leq cmp)"

lemma leq_refl: "weak_order cmp \<Longrightarrow> leq cmp x x"
  unfolding weak_order_def leq_def by blast

lemma leq_total: "weak_order cmp \<Longrightarrow> \<not> leq cmp x y \<Longrightarrow> leq cmp y x"
  unfolding weak_order_def leq_def by blast

lemma leq_trans: "weak_order cmp \<Longrightarrow> leq cmp x y \<Longrightarrow> leq cmp y z \<Longrightarrow> leq cmp x z"
  unfolding weak_order_def by (blast dest: transpD)

definition parent :: "nat \<Rightarrow> nat" where
  "parent i = (i - 1) div 2"

text \<open>From place \<open>m\<close> on, no element before \<open>n\<close> is greater than its parent.\<close>

definition heap :: "('a \<Rightarrow> 'a \<Rightarrow> int) \<Rightarrow> nat \<Rightarrow> nat \<Rightarrow> 'a list \<Rightarrow> bool" where
  "heap cmp m n arr \<longleftrightarrow> (\<forall>i < n. 0 < i \<and> m \<le> parent i \<longrightarrow> leq cmp (arr ! i) (arr ! parent i))"

text \<open>The same but for the children of \<open>r\<close>, which are at most as great as the parent of \<open>r\<close>.\<close>

definition heap_except :: "('a \<Rightarrow> 'a \<Rightarrow> int) \<Rightarrow> nat \<Rightarrow> nat \<Rightarrow> nat \<Rightarrow> 'a list \<Rightarrow> bool" where
  "heap_except cmp r m n arr \<longleftrightarrow>
     (\<forall>i < n. 0 < i \<and> m \<le> parent i \<and> parent i \<noteq> r \<longrightarrow> leq cmp (arr ! i) (arr ! parent i)) \<and>
     (\<forall>i < n. 0 < i \<and> parent i = r \<and> 0 < r \<and> m \<le> parent r \<longrightarrow> leq cmp (arr ! i) (arr ! parent r))"

lemma parent_child [simp]: "parent (r * 2 + 1) = r" "parent (r * 2 + 2) = r" "parent (Suc (r * 2)) = r" "parent (Suc (Suc (r * 2))) = r"
  by (simp_all add: parent_def)

lemma child_of: "0 < i \<Longrightarrow> parent i = r \<longleftrightarrow> i = r * 2 + 1 \<or> i = r * 2 + 2"
  by (auto simp: parent_def)

lemma parent_less: "0 < i \<Longrightarrow> parent i < i"
  by (simp add: parent_def)

lemma swap_simps [simp]:
  "length (swap i j arr) = length arr"
  "i < length arr \<Longrightarrow> j < length arr \<Longrightarrow> k < length arr \<Longrightarrow>
     swap i j arr ! k = (if k = j then arr ! i else if k = i then arr ! j else arr ! k)"
  by (simp_all add: swap_def nth_list_update)

lemma mset_swap_at: "i < length arr \<Longrightarrow> j < length arr \<Longrightarrow> mset (swap i j arr) = mset arr"
  by (simp add: swap_def mset_swap)

section \<open>Moving an element down\<close>

lemma swap_index_greatest:
  assumes "weak_order cmp" "s = swap_index cmp arr root high"
  shows "leq cmp (arr ! root) (arr ! s)"
    "0 < i \<Longrightarrow> parent i = root \<Longrightarrow> i \<le> high \<Longrightarrow> leq cmp (arr ! i) (arr ! s)"
proof -
  let ?l = "root * 2 + 1" and ?r = "root * 2 + 2"
  define t where "t = (if cmp (arr ! root) (arr ! ?l) < 0 then ?l else root)"
  have s: "s = (if ?r \<le> high \<and> cmp (arr ! t) (arr ! ?r) < 0 then ?r else t)"
    by (simp add: assms(2) swap_index_def t_def Let_def)
  have t: "leq cmp (arr ! root) (arr ! t)" "leq cmp (arr ! ?l) (arr ! t)"
    using leq_refl [OF assms(1)] leq_total [OF assms(1)] by (auto simp: t_def leq_def)
  have ts: "leq cmp (arr ! t) (arr ! s)" "?r \<le> high \<Longrightarrow> leq cmp (arr ! ?r) (arr ! s)"
    using leq_refl [OF assms(1)] leq_total [OF assms(1)] by (auto simp: s leq_def)
  show "leq cmp (arr ! root) (arr ! s)" using leq_trans [OF assms(1) t(1) ts(1)] .
  show "leq cmp (arr ! i) (arr ! s)" if "0 < i" "parent i = root" "i \<le> high"
    using that child_of [of i root] leq_trans [OF assms(1) t(2) ts(1)] ts(2) by auto
qed

lemma heap_except_swap:
  assumes "weak_order cmp" "heap_except cmp root m (Suc high) arr" "s = swap_index cmp arr root high"
    and "s \<noteq> root" "root * 2 + 1 \<le> high" "high < length arr" "m \<le> root"
  shows "heap_except cmp s m (Suc high) (swap root s arr)"
proof -
  have s: "parent s = root" "0 < s" "s \<le> high" "root < s"
    using swap_index_cases [of cmp arr root high] assms(3-5) by auto
  note greatest = swap_index_greatest [OF assms(1,3)]
  have old: "leq cmp (arr ! i) (arr ! parent i)" if "i \<le> high" "0 < i" "m \<le> parent i" "parent i \<noteq> root" for i
    using assms(2) that by (simp add: heap_except_def)
  have above: "leq cmp (arr ! s) (arr ! parent root)" if "0 < root" "m \<le> parent root"
    using assms(2) that s by (simp add: heap_except_def)
  let ?a = "swap root s arr"
  have at: "?a ! i = (if i = s then arr ! root else if i = root then arr ! s else arr ! i)" if "i \<le> high" for i
    using that s assms(6) by simp
  have "leq cmp (?a ! i) (?a ! parent i)" if i: "i \<le> high" "0 < i" "m \<le> parent i" "parent i \<noteq> s" for i
  proof -
    have p: "parent i \<le> high" "parent i < i" using parent_less [OF i(2)] i(1) by simp_all
    consider "i = s" | "parent i = root" "i \<noteq> s" | "i = root" | "i \<noteq> root" "i \<noteq> s" "parent i \<noteq> root" by blast
    then show ?thesis
    proof cases
      case 1
      then show ?thesis using greatest(1) s at [OF i(1)] at [OF p(1)] by simp
    next
      case 2
      then show ?thesis using greatest(2) [OF i(2) _ i(1)] i(2) s at [OF i(1)] at [OF p(1)] p(2) by simp
    next
      case 3
      then show ?thesis using above i s at [OF i(1)] at [OF p(1)] p(2) by simp
    next
      case 4
      then show ?thesis using old i at [OF i(1)] at [OF p(1)] by simp
    qed
  qed
  moreover have "leq cmp (?a ! i) (?a ! parent s)" if i: "i \<le> high" "0 < i" "parent i = s" for i
  proof -
    have "i \<noteq> s" "i \<noteq> root" using parent_less [OF i(2)] i(3) s(4) by auto
    then show ?thesis using old [OF i(1,2)] i(3) s assms(4,7) at [OF i(1)] at [of root] by simp
  qed
  ultimately show ?thesis by (simp add: heap_except_def)
qed

lemma heap_except_done:
  assumes "heap_except cmp root m (Suc high) arr"
    and "\<And>i. 0 < i \<Longrightarrow> parent i = root \<Longrightarrow> i \<le> high \<Longrightarrow> leq cmp (arr ! i) (arr ! root)"
  shows "heap cmp m (Suc high) arr"
  using assms by (auto simp: heap_def heap_except_def)

definition moved :: "('a \<Rightarrow> 'a \<Rightarrow> int) \<Rightarrow> nat \<Rightarrow> nat \<Rightarrow> 'a list \<Rightarrow> 'a list \<Rightarrow> bool" where
  "moved cmp m high arr arr' \<longleftrightarrow>
     mset arr' = mset arr \<and> heap cmp m (Suc high) arr' \<and> (\<forall>i. high < i \<and> i < length arr \<longrightarrow> arr' ! i = arr ! i)"

lemma shiftRight_heap:
  "weak_order cmp \<Longrightarrow> heap_except cmp root m (Suc high) arr \<Longrightarrow> root \<le> high \<Longrightarrow> high < 2 ^ 30 \<Longrightarrow> high < length arr \<Longrightarrow> m \<le> root \<Longrightarrow>
    \<exists>arr'. shiftRight cmp arr root high = Ok arr' \<and> moved cmp m high arr arr'"
proof (induction cmp arr root high rule: shiftRight.induct)
  case (1 cmp arr root high)
  have small: "\<not> int root * 2 + 1 \<ge> 2 ^ 31" using 1(4,5) by simp
  let ?s = "swap_index cmp arr root high"
  note weak = 1(2)
  show ?case
  proof (cases "root * 2 + 1 \<le> high")
    case False
    then have "heap cmp m (Suc high) arr"
      using 1(3) child_of [of _ root] by (intro heap_except_done) (auto simp: parent_def)
    then show ?thesis using False small by (subst shiftRight.simps) (simp add: moved_def)
  next
    case le: True
    show ?thesis
    proof (cases "?s = root")
      case True
      then have "heap cmp m (Suc high) arr"
        using swap_index_greatest(2) [OF weak refl, of _ root high arr] by (intro heap_except_done [OF 1(3)]) simp
      then show ?thesis using True le small 1(6) by (subst shiftRight.simps) (simp add: moved_def Let_def)
    next
      case False
      have s: "?s \<le> high" "root < ?s" using swap_index_cases [of cmp arr root high] False le by auto
      have "heap_except cmp ?s m (Suc high) (swap root ?s arr)"
        by (rule heap_except_swap [OF weak 1(3) refl False le 1(6,7)])
      then obtain arr' where "shiftRight cmp (swap root ?s arr) ?s high = Ok arr'" "moved cmp m high (swap root ?s arr) arr'"
        using 1(1) [OF small le 1(6) refl False weak] s 1(5,6,7) by auto
      moreover from this(2) have "moved cmp m high arr arr'"
        using s 1(6) by (simp add: moved_def mset_swap_at)
      ultimately show ?thesis using False le small 1(6) by (subst shiftRight.simps) (simp add: Let_def)
    qed
  qed
qed

section \<open>Sorting\<close>

text \<open>The first \<open>n\<close> elements are permuted, the others stay.\<close>

definition permuted :: "nat \<Rightarrow> 'a list \<Rightarrow> 'a list \<Rightarrow> bool" where
  "permuted n arr arr' \<longleftrightarrow>
     length arr' = length arr \<and> mset (take n arr') = mset (take n arr) \<and> drop n arr' = drop n arr"

lemma permuted_refl: "permuted n arr arr"
  by (simp add: permuted_def)

lemma permuted_trans: "permuted n a b \<Longrightarrow> permuted n b c \<Longrightarrow> permuted n a c"
  by (simp add: permuted_def)

lemma permutedI:
  assumes "mset arr' = mset arr" "\<And>i. n \<le> i \<Longrightarrow> i < length arr \<Longrightarrow> arr' ! i = arr ! i"
  shows "permuted n arr arr'"
proof -
  have len: "length arr' = length arr" using assms(1) by (rule mset_eq_length)
  have rest: "drop n arr' = drop n arr" by (rule nth_equalityI) (simp_all add: len assms(2))
  have "mset (take n arr') + mset (drop n arr') = mset (take n arr) + mset (drop n arr)"
    using assms(1) by (metis append_take_drop_id mset_append)
  then show ?thesis using rest len by (simp add: permuted_def)
qed

lemma moved_permuted: "moved cmp m high arr arr' \<Longrightarrow> permuted (Suc high) arr arr'"
  by (rule permutedI) (simp_all add: moved_def)

lemma permuted_mono: "permuted n arr arr' \<Longrightarrow> n \<le> n' \<Longrightarrow> permuted n' arr arr'"
proof (rule permutedI)
  assume p: "permuted n arr arr'" "n \<le> n'"
  then have "mset (take n arr' @ drop n arr') = mset (take n arr @ drop n arr)" unfolding permuted_def mset_append by simp
  then show "mset arr' = mset arr" unfolding append_take_drop_id .
  fix i assume i: "n' \<le> i" "i < length arr"
  moreover have "length arr' = length arr" using p(1) by (simp add: permuted_def)
  ultimately have eq: "arr' ! i = drop n arr' ! (i - n)" "arr ! i = drop n arr ! (i - n)" using p(2) by simp_all
  show "arr' ! i = arr ! i" using p(1) unfolding eq permuted_def by (simp only:)
qed

lemma swap_permuted: "i < n \<Longrightarrow> j < n \<Longrightarrow> n \<le> length arr \<Longrightarrow> permuted n arr (swap i j arr)"
  by (rule permutedI) (simp_all add: mset_swap_at)

lemma permuted_from:
  assumes "permuted n arr arr'" "i < n" "n \<le> length arr"
  obtains k where "k < n" "arr' ! i = arr ! k"
proof -
  have "set (take n arr') = set (take n arr)" using assms(1) by (metis permuted_def set_mset_mset)
  moreover have "arr' ! i \<in> set (take n arr')"
    using assms by (auto simp: permuted_def in_set_conv_nth intro!: exI [of _ i])
  ultimately show ?thesis using that assms(3) by (auto simp: in_set_conv_nth)
qed

lemma heap_root:
  assumes "weak_order cmp" "heap cmp 0 n arr"
  shows "i < n \<Longrightarrow> leq cmp (arr ! i) (arr ! 0)"
proof (induction i rule: less_induct)
  case (less i)
  show ?case
  proof (cases "i = 0")
    case True
    then show ?thesis by (simp add: leq_refl [OF assms(1)])
  next
    case False
    then have "leq cmp (arr ! i) (arr ! parent i)" using assms(2) less.prems by (simp add: heap_def)
    moreover have "leq cmp (arr ! parent i) (arr ! 0)" using less.IH parent_less [of i] False less.prems by simp
    ultimately show ?thesis by (rule leq_trans [OF assms(1)])
  qed
qed

lemma heapify_loop_heap:
  assumes "weak_order cmp" "high < 2 ^ 30"
  shows "heap cmp k (Suc high) arr \<Longrightarrow> k \<le> Suc high \<Longrightarrow> high < length arr \<Longrightarrow>
    \<exists>arr'. heapify_loop cmp k arr high = Ok arr' \<and> heap cmp 0 (Suc high) arr' \<and> permuted (Suc high) arr arr'"
proof (induction k arbitrary: arr)
  case 0
  then show ?case by (simp add: permuted_refl)
next
  case (Suc k)
  have "heap_except cmp k k (Suc high) arr"
    using Suc.prems(1) parent_less [of k] by (auto simp: heap_def heap_except_def)
  then obtain b where b: "shiftRight cmp arr k high = Ok b" "moved cmp k high arr b"
    using shiftRight_heap [OF assms(1) _ _ assms(2)] Suc.prems by (meson Suc_le_mono le_refl)
  have p: "permuted (Suc high) arr b" by (rule moved_permuted [OF b(2)])
  then have "high < length b" using Suc.prems(3) by (simp add: permuted_def)
  moreover have "heap cmp k (Suc high) b" using b(2) by (simp add: moved_def)
  ultimately obtain arr' where "heapify_loop cmp k b high = Ok arr'" "heap cmp 0 (Suc high) arr'" "permuted (Suc high) b arr'"
    using Suc.IH Suc.prems(2) by auto
  then show ?case using b(1) permuted_trans [OF p] by auto
qed

lemma heapify_heap:
  assumes "weak_order cmp" "high < 2 ^ 30" "high < length arr"
  shows "\<exists>arr'. heapify cmp arr 0 (int high) = Ok arr' \<and> heap cmp 0 (Suc high) arr' \<and> permuted (Suc high) arr arr'"
proof -
  let ?k = "nat ((int high - 0 - 1) sdiv 2 + 1)"
  have k: "?k = (if high = 0 then 1 else (high - 1) div 2 + 1)"
    by (cases high) (simp_all add: signed_divide_int_def nat_add_distrib zdiv_int nat_div_distrib sgn_if)
  have "heap cmp ?k (Suc high) arr" unfolding k heap_def parent_def by auto
  moreover have "?k \<le> Suc high" unfolding k by auto
  ultimately show ?thesis using heapify_loop_heap [OF assms(1,2)] assms(3) by (simp add: heapify_def)
qed

text \<open>In an array the elements from \<open>high + 1\<close> on are in their final places.\<close>

definition placed :: "('a \<Rightarrow> 'a \<Rightarrow> int) \<Rightarrow> nat \<Rightarrow> nat \<Rightarrow> 'a list \<Rightarrow> bool" where
  "placed cmp high n arr \<longleftrightarrow> (\<forall>i j. i < j \<and> j < n \<and> high < j \<longrightarrow> leq cmp (arr ! i) (arr ! j))"

lemma sort_loop_sorted:
  assumes "weak_order cmp" "n \<le> length arr" "n \<le> 2 ^ 30"
  shows "high < n \<Longrightarrow> heap cmp 0 (Suc high) arr \<Longrightarrow> placed cmp high n arr \<Longrightarrow> n \<le> length arr \<Longrightarrow>
    \<exists>arr'. sort_loop cmp high arr = Ok arr' \<and> placed cmp 0 n arr' \<and> permuted n arr arr'"
proof (induction high arbitrary: arr)
  case 0
  then show ?case by (simp add: permuted_refl)
next
  case (Suc high)
  let ?b = "swap (Suc high) 0 arr"
  have "heap_except cmp 0 0 (Suc high) ?b"
  proof -
    have "leq cmp (?b ! i) (?b ! parent i)" if i: "i < Suc high" "0 < i" "parent i \<noteq> 0" for i
    proof -
      have "leq cmp (arr ! i) (arr ! parent i)" using Suc.prems(2) i by (simp add: heap_def)
      moreover have "arr \<noteq> []" using Suc.prems(1,4) by auto
      moreover from this have "?b ! i = arr ! i" "?b ! parent i = arr ! parent i"
        using Suc.prems(1,4) i parent_less [OF i(2)] by simp_all
      ultimately show ?thesis by simp
    qed
    then show ?thesis by (simp add: heap_except_def)
  qed
  then obtain c where c: "shiftRight cmp ?b 0 high = Ok c" "moved cmp 0 high ?b c"
    using shiftRight_heap [OF assms(1), of 0 0 high ?b] Suc.prems assms(3) by auto
  have p: "permuted n arr ?b" "permuted n ?b c" "permuted (Suc high) ?b c"
    using swap_permuted [of "Suc high" n 0 arr] moved_permuted [OF c(2)]
      permuted_mono [OF moved_permuted [OF c(2)], of n] Suc.prems by auto
  have len: "length c = length arr" using p by (simp add: permuted_def)
  have ne: "arr \<noteq> []" using Suc.prems(1,4) by auto
  have keep: "c ! i = ?b ! i" if "high < i" "i < length arr" for i using c(2) that by (simp add: moved_def)
  have "placed cmp high n c"
    unfolding placed_def
  proof (intro allI impI)
    fix i j assume ij: "i < j \<and> j < n \<and> high < j"
    have old: "leq cmp (arr ! k) (arr ! l)" if "k < l" "l < n" "Suc high < l" for k l
      using Suc.prems(3) that by (simp add: placed_def)
    obtain k where k: "k \<le> Suc high \<or> (k = i \<and> Suc high < i)" "c ! i = arr ! k" "k < j \<or> j = Suc high"
    proof (cases "i \<le> high")
      case True
      then obtain l where "l < Suc high" "c ! i = ?b ! l" using permuted_from [OF p(3), of i] Suc.prems by auto
      moreover have "Suc high < j \<or> j = Suc high" using ij by auto
      ultimately show ?thesis using that [of "if l = 0 then Suc high else l"] ij ne Suc.prems by (auto split: if_splits)
    next
      case False
      then show ?thesis using that [of "if i = Suc high then 0 else i"] keep [of i] ij ne Suc.prems by auto
    qed
    show "leq cmp (c ! i) (c ! j)"
    proof (cases "j = Suc high")
      case True
      then have "c ! j = arr ! 0" using keep [of j] ne Suc.prems by simp
      moreover have "k \<le> Suc high" using k(1) ij True by auto
      ultimately show ?thesis using heap_root [OF assms(1) Suc.prems(2), of k] k(2) by simp
    next
      case False
      then have "c ! j = arr ! j" using keep [of j] ij ne Suc.prems by simp
      then show ?thesis using old [of k j] k False ij by simp
    qed
  qed
  moreover have "heap cmp 0 (Suc high) c" using c(2) by (simp add: moved_def)
  ultimately obtain arr' where "sort_loop cmp high c = Ok arr'" "placed cmp 0 n arr'" "permuted n c arr'"
    using Suc.IH [of c] Suc.prems len by auto
  then show ?case using c(1) p Suc.prems permuted_trans by (metis bind_result_simps(2) order_less_le_trans sort_loop.simps(2))
qed

section \<open>The property\<close>

text \<open>An array is sorted when no element is greater than a later one.\<close>

lemma placed_sorted: "placed cmp 0 n arr \<Longrightarrow> n \<le> length arr \<Longrightarrow> sorted_wrt (leq cmp) (take n arr)"
  by (simp add: placed_def sorted_wrt_iff_nth_less)

text \<open>
  C34: heap sort. For every comparison that is a strict weak order and up to 2^30 elements the method ends without a fault; the
  elements before \<open>len\<close> are then in ascending order and are the ones that were there, and what lies behind them is
  untouched.
\<close>

theorem heapSort_sorts:
  assumes "weak_order cmp" "len \<le> length arr" "len \<le> 2 ^ 30"
  shows "\<exists>arr'. heapSort cmp arr len = Ok arr' \<and> sorted_wrt (leq cmp) (take len arr') \<and>
    mset (take len arr') = mset (take len arr) \<and> drop len arr' = drop len arr"
proof (cases len)
  case 0
  have "nat ((- 1 - 0 - 1 :: int) sdiv 2 + 1) = 0" by (simp add: signed_divide_int_def)
  then show ?thesis using 0 by (simp add: heapSort_def heapify_def)
next
  case (Suc high)
  obtain b where b: "heapify cmp arr 0 (int high) = Ok b" "heap cmp 0 (Suc high) b" "permuted len arr b"
    using heapify_heap [OF assms(1), of high arr] assms(2,3) Suc by auto
  have len: "len \<le> length b" using b(3) assms(2) by (simp add: permuted_def)
  have "placed cmp high len b" using Suc by (auto simp: placed_def)
  then obtain c where c: "sort_loop cmp high b = Ok c" "placed cmp 0 len c" "permuted len b c"
    using sort_loop_sorted [OF assms(1) len assms(3) _ b(2) _ len] Suc by auto
  have "permuted len arr c" by (rule permuted_trans [OF b(3) c(3)])
  moreover from this have "sorted_wrt (leq cmp) (take len c)" using c(2) assms(2) by (intro placed_sorted) (simp_all add: permuted_def)
  moreover have "heapSort cmp arr len = Ok c" using b(1) c(1) Suc by (simp add: heapSort_def)
  ultimately show ?thesis by (auto simp: permuted_def)
qed

theorem heapSort_sorts_witness:
  "sorted_wrt (leq (\<lambda>x y :: int. x - y)) (take 5 [1, 2, 3, 4, 5, 0]) \<and>
     heapSort (\<lambda>x y. x - y) [3, 1, 5, 2, 4, 0 :: int] 5 = Ok [1, 2, 3, 4, 5, 0]"
proof -
  have "weak_order (\<lambda>x y :: int. x - y)" by (auto simp: weak_order_def leq_def transp_def)
  moreover have r: "heapSort (\<lambda>x y. x - y) [3, 1, 5, 2, 4, 0 :: int] 5 = Ok [1, 2, 3, 4, 5, 0]" by code_simp
  ultimately show ?thesis using heapSort_sorts [of "\<lambda>x y :: int. x - y" 5 "[3, 1, 5, 2, 4, 0]"] by simp
qed
end
