(* ===== verification/CRCRegister.thy ===== *)
theory CRCRegister
  imports Prelude
begin

text \<open>
  Registers of 32-bit checksums in reflected bit order, for any generator polynomial \<open>g\<close>: the division bit by bit, the
  tables that do it byte by byte, and why errors are found. CRC32 and CRC32C use them for their polynomials.
\<close>

unbundle bit_operations_syntax

section \<open>Division by the polynomial\<close>

text \<open>One bit leaves the register; when it is set, the generator polynomial is added.\<close>

definition crc_bit :: "u32 \<Rightarrow> u32 \<Rightarrow> u32" where
  "crc_bit g c = (if bit c 0 then drop_bit 1 c XOR g else drop_bit 1 c)"

definition crc_byte :: "u32 \<Rightarrow> u32 \<Rightarrow> u8 \<Rightarrow> u32" where
  "crc_byte g c b = (crc_bit g ^^ 8) (c XOR ucast b)"

lemma crc_bit_xor: "crc_bit g (a XOR b) = crc_bit g a XOR crc_bit g b"
  by (rule bit_word_eqI) (auto simp: crc_bit_def bit_simps)

lemma crc_bits_xor: "(crc_bit g ^^ n) (a XOR b) = (crc_bit g ^^ n) a XOR (crc_bit g ^^ n) b"
  by (induction n) (simp_all add: crc_bit_xor)

lemma crc_bits_0: "(crc_bit g ^^ n) 0 = 0"
  by (induction n) (simp_all add: crc_bit_def)

lemma crc_bit_shifted:
  assumes "\<And>i. bit w i \<Longrightarrow> i + Suc n < 32"
  shows "crc_bit g (push_bit (Suc n) w) = push_bit n w"
proof -
  have "\<not> bit (push_bit (Suc n) w) 0" by (simp add: bit_push_bit_iff del: push_bit_Suc)
  moreover have "drop_bit 1 (push_bit (Suc n) w) = push_bit n w"
    using assms by (intro bit_word_eqI) (force simp: bit_simps simp del: push_bit_Suc dest: bit_imp_le_length)
  ultimately show ?thesis by (simp add: crc_bit_def del: push_bit_Suc)
qed

lemma crc_bits_shifted: "(\<And>i. bit w i \<Longrightarrow> i + n < 32) \<Longrightarrow> (crc_bit g ^^ n) (push_bit n w) = w"
proof (induction n)
  case (Suc n)
  have "(crc_bit g ^^ Suc n) (push_bit (Suc n) w) = (crc_bit g ^^ n) (push_bit n w)"
    unfolding funpow_Suc_right comp_apply using Suc.prems by (subst crc_bit_shifted) auto
  also have "\<dots> = w" using Suc.prems by (intro Suc.IH) fastforce
  finally show ?case .
qed simp

section \<open>The table\<close>

text \<open>Doubling: the second half of a table is the first one with the entry in the middle added.\<close>

definition crc_doubled :: "u32 list \<Rightarrow> u32 list" where
  "crc_doubled = foldl (\<lambda>t g. t @ map (\<lambda>w. g XOR w) t) [0]"

lemma two_power_xor: "i < 2 ^ k \<Longrightarrow> k < 32 \<Longrightarrow> word_of_nat (i + 2 ^ k) = (2 ^ k XOR word_of_nat i :: u32)"
proof -
  assume i: "i < 2 ^ k" "k < 32"
  have "\<not> bit i k" using i(1) by (simp add: bit_nat_iff bit_iff_odd)
  then have "(2 ^ k :: u32) AND word_of_nat i = 0" by (intro bit_word_eqI) (auto simp: bit_simps)
  then have "2 ^ k + word_of_nat i = (2 ^ k XOR word_of_nat i :: u32)" by (rule disjunctive_add_eq_xor)
  then show ?thesis by (simp add: add.commute)
qed

lemma crc_doubled_entries:
  fixes f :: "u32 \<Rightarrow> u32"
  assumes "\<And>a b. f (a XOR b) = f a XOR f b" "f 0 = 0"
  shows "k \<le> 32 \<Longrightarrow> crc_doubled (map (\<lambda>j. f (2 ^ j)) [0..<k]) = map (\<lambda>i. f (word_of_nat i)) [0..<2 ^ k]"
proof (induction k)
  case 0
  then show ?case by (simp add: crc_doubled_def assms(2))
next
  case (Suc k)
  have split: "[0..<2 ^ Suc k] = [0..<2 ^ k] @ map (\<lambda>i. i + 2 ^ k) [0..<2 ^ k]"
    unfolding map_add_upt power_Suc mult_2 by (rule upt_add_eq_append) simp
  have "f (2 ^ k) XOR f (word_of_nat i) = f (word_of_nat (i + 2 ^ k))" if "i < 2 ^ k" for i
    using Suc.prems that by (simp only: two_power_xor assms(1) Suc_le_eq)
  then have "map ((XOR) (f (2 ^ k))) (map (\<lambda>i. f (word_of_nat i)) [0..<2 ^ k]) =
      map (\<lambda>i. f (word_of_nat i)) (map (\<lambda>i. i + 2 ^ k) [0..<2 ^ k])"
    by (simp del: of_nat_add)
  then show ?case using Suc unfolding split map_append by (simp add: crc_doubled_def)
qed

lemma table_step:
  assumes "\<forall>i < 256. table ! i = (crc_bit g ^^ 8) (word_of_nat i)"
  shows "table ! unat ((crc XOR ucast b) AND 0xff) XOR drop_bit 8 crc = crc_byte g crc b"
proof -
  define x where "x = crc XOR ucast b"
  have low: "unat (x AND 0xff) < 256"
  proof -
    have "x AND 0xff = take_bit 8 x" by (simp add: take_bit_eq_mask mask_eq_exp_minus_1)
    then show ?thesis using take_bit_nat_less_exp [of 8 "unat x"] by (simp add: unsigned_take_bit_eq)
  qed
  have "x = take_bit 8 x XOR push_bit 8 (drop_bit 8 x)" by (rule bit_word_eqI) (auto simp: bit_simps)
  then have "x = (x AND 0xff) XOR push_bit 8 (drop_bit 8 x)" by (simp add: take_bit_eq_mask mask_eq_exp_minus_1)
  then have "crc_byte g crc b = (crc_bit g ^^ 8) (x AND 0xff) XOR (crc_bit g ^^ 8) (push_bit 8 (drop_bit 8 x))"
    unfolding crc_byte_def x_def [symmetric] by (metis crc_bits_xor)
  also have "(crc_bit g ^^ 8) (push_bit 8 (drop_bit 8 x)) = drop_bit 8 x"
    by (rule crc_bits_shifted) (auto simp: bit_simps dest: bit_imp_le_length)
  also have "drop_bit 8 x = drop_bit 8 crc" unfolding x_def by (rule bit_word_eqI) (auto simp: bit_simps dest: bit_imp_le_length)
  finally show ?thesis using assms low by (simp add: x_def)
qed

section \<open>Errors are found\<close>

text \<open>The generator has a constant term and the highest bit.\<close>

locale crc_generator =
  fixes g :: u32
  assumes highest: "bit g 31"

lemma xor_cancel: "a XOR c = b XOR c \<longleftrightarrow> a = (b :: u32)"
proof
  assume "a XOR c = b XOR c"
  then have "(a XOR c) XOR c = (b XOR c) XOR c" by (rule arg_cong)
  then show "a = b" by (simp only: xor.assoc xor_self_eq xor.right_neutral)
qed simp

text \<open>Up to four bytes enter the register at once, as the little-endian number they are.\<close>

lemma bit_load_le_length: "bit (load_le bs :: u32) i \<Longrightarrow> i < 8 * length bs"
proof (induction bs arbitrary: i)
  case (Cons b bs)
  show ?case
  proof (cases "i < 8")
    case False
    then have "i - 8 < 8 * length bs" using Cons by (intro Cons.IH) (simp add: bit_load_le_Cons del: load_le.simps(2))
    then show ?thesis by simp
  qed simp
qed simp

lemma load_le_Cons_xor: "load_le (b # bs) = (ucast b XOR push_bit 8 (load_le bs) :: u32)"
  by (rule bit_word_eqI) (auto simp: bit_load_le_Cons bit_simps simp del: load_le.simps(2) dest: bit_imp_le_length)

lemma crc_bytes_at_once:
  "length bs \<le> 4 \<Longrightarrow> foldl (crc_byte g) c bs = (crc_bit g ^^ (8 * length bs)) (c XOR load_le bs)"
proof (induction bs arbitrary: c)
  case (Cons b bs)
  have "(crc_bit g ^^ 8) (push_bit 8 (load_le bs)) = load_le bs"
    using Cons.prems bit_load_le_length [of bs] by (intro crc_bits_shifted) fastforce
  then have "crc_byte g c b XOR load_le bs = (crc_bit g ^^ 8) (c XOR load_le (b # bs))"
    unfolding load_le_Cons_xor crc_byte_def crc_bits_xor by (simp only: xor.assoc)
  moreover have "8 * length (b # bs) = 8 * length bs + 8" by simp
  moreover have "foldl (crc_byte g) c (b # bs) = (crc_bit g ^^ (8 * length bs)) (crc_byte g c b XOR load_le bs)" using Cons by simp
  ultimately show ?case by (simp only: funpow_add comp_apply)
qed simp

lemma load_le_inj: "length x = length y \<Longrightarrow> length x \<le> 4 \<Longrightarrow> (load_le x :: u32) = load_le y \<Longrightarrow> x = y"
proof -
  assume a: "length x = length y" "length x \<le> 4" "(load_le x :: u32) = load_le y"
  have "(256 :: nat) ^ length x \<le> 256 ^ 4" using a(2) by (intro power_increasing) simp_all
  then have "le_nat x = le_nat y" using a unat_load_le [of x, where ?'w = 32] unat_load_le [of y, where ?'w = 32] by simp
  then show "x = y" using a(1) by (metis to_le_le_nat)
qed

context crc_generator
begin

text \<open>So the register before a step can be recovered.\<close>

lemma crc_bit_inj: "crc_bit g a = crc_bit g b \<Longrightarrow> a = b"
proof -
  assume eq: "crc_bit g a = crc_bit g b"
  have top: "bit (crc_bit g w) 31 \<longleftrightarrow> bit w 0" for w
  proof -
    show ?thesis using highest by (auto simp: crc_bit_def bit_simps dest: bit_imp_le_length)
  qed
  have "bit a 0 \<longleftrightarrow> bit b 0" using eq top by metis
  then have "drop_bit 1 a = drop_bit 1 b" using eq by (simp add: crc_bit_def xor_cancel split: if_splits)
  then have "bit a (Suc n) \<longleftrightarrow> bit b (Suc n)" for n by (metis bit_drop_bit_eq comp_apply plus_1_eq_Suc)
  then have "bit a n \<longleftrightarrow> bit b n" for n using \<open>bit a 0 \<longleftrightarrow> bit b 0\<close> by (cases n) auto
  then show ?thesis by (intro bit_word_eqI) auto
qed

lemma crc_bits_inj: "(crc_bit g ^^ n) a = (crc_bit g ^^ n) b \<Longrightarrow> a = b"
  by (induction n) (auto dest: crc_bit_inj)

lemma crc_bytes_inj: "foldl (crc_byte g) a bs = foldl (crc_byte g) b bs \<Longrightarrow> a = b"
proof (induction bs arbitrary: a b)
  case (Cons x bs)
  then have "crc_byte g a x = crc_byte g b x" by simp
  then have "a XOR ucast x = b XOR ucast x" unfolding crc_byte_def by (rule crc_bits_inj)
  then have "a = b" unfolding xor_cancel .
  then show ?case .
qed simp

lemma differs:
  assumes "length x = length y" "length x \<le> 4" "x \<noteq> y"
  shows "foldl (crc_byte g) seed (a @ x @ b) \<noteq> foldl (crc_byte g) seed (a @ y @ b)"
proof
  assume "foldl (crc_byte g) seed (a @ x @ b) = foldl (crc_byte g) seed (a @ y @ b)"
  then have "foldl (crc_byte g) (foldl (crc_byte g) (foldl (crc_byte g) seed a) x) b =
      foldl (crc_byte g) (foldl (crc_byte g) (foldl (crc_byte g) seed a) y) b" by simp
  then have "foldl (crc_byte g) (foldl (crc_byte g) seed a) x = foldl (crc_byte g) (foldl (crc_byte g) seed a) y"
    by (rule crc_bytes_inj)
  then have "foldl (crc_byte g) seed a XOR load_le x = foldl (crc_byte g) seed a XOR load_le y"
    using assms(1,2) by (auto simp: crc_bytes_at_once dest: crc_bits_inj)
  then have "(load_le x :: u32) = load_le y" unfolding xor.commute [of "foldl (crc_byte g) seed a"] xor_cancel .
  then show False using load_le_inj assms by blast
qed

end

end
