(* ===== verification/RandomPool.thy ===== *)
theory RandomPool
  imports Prelude "HOL-Library.Multiset"
begin

text \<open>
  The pseudo-random numbers of src/include/rand.h: the generator \<open>Rand\<close> and the pool \<open>RandPool\<close>, from which every number is drawn once
  before any is drawn again. The state of the generator is the pattern of its 32-bit \<open>int\<close>; the product is computed in a \<open>long\<close>
  of 64 bits and cut off. (Where \<open>long\<close> has 32 bits, as on Windows, the signed product overflows; a compiler that lets it wrap around gives
  the same 32 bits.) Numbers between 0 and 1 (\<open>Ranf\<close>) are left out: they are floating point.
\<close>

unbundle bit_operations_syntax

section \<open>The code\<close>

definition rand_Get :: "u32 \<Rightarrow> u32 \<times> u32" where
  "rand_Get mCurrent =
     (let mCurrent = ucast (scast mCurrent * 214013 + 2531011 :: u64) in (mCurrent AND 0x7fffffff, mCurrent))"

record rand_pool =
  mRand :: u32
  mData :: "nat list"
  mSize :: nat
  mTop :: nat

definition RandPool :: "nat \<Rightarrow> u32 \<Rightarrow> rand_pool" where
  "RandPool n seed = \<lparr>mRand = seed, mData = [0..<n], mSize = n, mTop = n\<rparr>"

text \<open>The result is the number drawn and whether the pool was exhausted and filled again.\<close>

definition pool_Get :: "rand_pool \<Rightarrow> ((nat \<times> bool) \<times> rand_pool) result" where
  "pool_Get p =
     (let (shuffled, p) = (if mTop p = 0 then (True, p\<lparr>mTop := mSize p\<rparr>) else (False, p))
      in if mTop p = 0 then Fault DivisionByZero
         else
           let (r, cur) = rand_Get (mRand p); entry = unat r mod mTop p; top = mTop p - 1
           in if top < length (mData p) then
                let ret = mData p ! entry;
                    data = (mData p)[entry := mData p ! top];
                    data = data[top := ret]
                in Ok ((ret, shuffled), p\<lparr>mRand := cur, mData := data, mTop := top\<rparr>)
              else Fault OutOfBounds)"

fun draws :: "nat \<Rightarrow> rand_pool \<Rightarrow> ((nat \<times> bool) list \<times> rand_pool) result" where
  "draws 0 p = Ok ([], p)"
| "draws (Suc n) p =
     bind_result (pool_Get p) (\<lambda>(x, p). bind_result (draws n p) (\<lambda>(xs, p). Ok (x # xs, p)))"

section \<open>The pool\<close>

text \<open>The numbers of the pool are permuted; those from \<open>mTop\<close> on have been drawn since it was filled.\<close>

definition pool_ok :: "nat \<Rightarrow> rand_pool \<Rightarrow> bool" where
  "pool_ok n p \<longleftrightarrow> mSize p = n \<and> mTop p \<le> n \<and> mset (mData p) = mset [0..<n]"

definition drawn :: "rand_pool \<Rightarrow> nat list" where
  "drawn p = rev (drop (mTop p) (mData p))"

lemma pool_length: "pool_ok n p \<Longrightarrow> length (mData p) = n"
  by (metis pool_ok_def diff_zero length_upt size_mset)

lemma pool_Get_step:
  assumes "pool_ok n p" "0 < n"
  obtains x p' where "pool_Get p = Ok ((x, mTop p = 0), p')" "pool_ok n p'"
    "mTop p' = (if mTop p = 0 then n else mTop p) - 1" "drawn p' = (if mTop p = 0 then [] else drawn p) @ [x]"
proof -
  define t where "t = (if mTop p = 0 then n else mTop p)"
  have t: "0 < t" "t \<le> n" "t \<le> length (mData p)" using assms by (auto simp: t_def pool_ok_def pool_length)
  obtain r cur where r: "rand_Get (mRand p) = (r, cur)" by (cases "rand_Get (mRand p)")
  define e where "e = unat r mod t"
  have e: "e < t" using t(1) by (simp add: e_def)
  let ?d = "(mData p)[e := mData p ! (t - 1), t - 1 := mData p ! e]"
  let ?p = "p\<lparr>mRand := cur, mData := ?d, mTop := t - 1\<rparr>"
  have "pool_Get p = Ok ((mData p ! e, mTop p = 0), p\<lparr>mRand := cur, mData := ?d, mTop := t - 1\<rparr>)"
    using assms t r pool_length [OF assms(1)] less_le_trans [of "mTop p - 1" "mTop p" n]
    by (cases "mTop p = 0") (simp_all add: pool_Get_def t_def e_def pool_ok_def Let_def)
  moreover have "mset ?d = mset (mData p)" using e t by (intro mset_swap) simp_all
  then have "pool_ok n ?p" using assms(1) t by (simp add: pool_ok_def)
  moreover have "drop (t - 1) ?d = mData p ! e # drop t (mData p)"
  proof -
    have "drop (t - 1) ?d = ?d ! (t - 1) # drop (Suc (t - 1)) ?d" using t by (intro Cons_nth_drop_Suc [symmetric]) simp
    then show ?thesis using t e by simp
  qed
  moreover have "drop t (mData p) = (if mTop p = 0 then [] else drop (mTop p) (mData p))"
    using assms(1) by (simp add: t_def pool_length)
  ultimately show ?thesis by (intro that [of "mData p ! e" ?p]) (simp_all add: drawn_def t_def)
qed

text \<open>The numbers drawn are full decks and the part of the next one drawn so far.\<close>

definition dealt :: "nat \<Rightarrow> (nat \<times> bool) list \<Rightarrow> rand_pool \<Rightarrow> bool" where
  "dealt n xs p \<longleftrightarrow>
     pool_ok n p \<and> (xs = [] \<longrightarrow> mTop p = n) \<and> (xs \<noteq> [] \<longrightarrow> mTop p < n) \<and>
     map snd xs = map (\<lambda>i. 0 < i \<and> i mod n = 0) [0..<length xs] \<and>
     (\<exists>decks. map fst xs = concat decks @ drawn p \<and> (\<forall>d \<in> set decks. mset d = mset [0..<n]))"

lemma deck_lengths: "\<forall>d \<in> set decks. mset d = mset [0..<n] \<Longrightarrow> length (concat decks) = length decks * n"
proof (induction decks)
  case (Cons d decks)
  have "length d = n" using Cons.prems by (metis diff_zero length_upt list.set_intros(1) size_mset)
  then show ?case using Cons by simp
qed simp

lemma drawn_length: "pool_ok n p \<Longrightarrow> length (drawn p) = n - mTop p"
  by (simp add: drawn_def pool_length)

lemma dealt_step:
  assumes "dealt n xs p" "0 < n"
  obtains x p' where "pool_Get p = Ok (x, p')" "dealt n (xs @ [x]) p'"
proof -
  have p: "pool_ok n p" using assms(1) by (simp add: dealt_def)
  obtain decks where decks: "map fst xs = concat decks @ drawn p" "\<forall>d \<in> set decks. mset d = mset [0..<n]"
    using assms(1) by (auto simp: dealt_def)
  obtain x p' where x: "pool_Get p = Ok ((x, mTop p = 0), p')" "pool_ok n p'"
    "mTop p' = (if mTop p = 0 then n else mTop p) - 1" "drawn p' = (if mTop p = 0 then [] else drawn p) @ [x]"
    using pool_Get_step [OF p assms(2)] .
  have len: "length xs = length decks * n + (n - mTop p)"
    using arg_cong [OF decks(1), of length] deck_lengths [OF decks(2)] drawn_length [OF p] by simp
  have "mTop p = 0 \<longleftrightarrow> 0 < length xs \<and> length xs mod n = 0"
  proof (cases "xs = []")
    case True
    then show ?thesis using assms by (simp add: dealt_def)
  next
    case False
    then have "mTop p < n" using assms(1) by (simp add: dealt_def)
    moreover have "length xs mod n = (n - mTop p) mod n" unfolding len by simp
    ultimately show ?thesis using False by (cases "mTop p = 0") simp_all
  qed
  moreover have "\<exists>decks. map fst xs @ [x] = concat decks @ drawn p' \<and> (\<forall>d \<in> set decks. mset d = mset [0..<n])"
  proof (cases "mTop p = 0")
    case True
    then have "mset (drawn p) = mset [0..<n]" using p by (simp add: drawn_def pool_ok_def)
    then show ?thesis using decks x(4) True by (intro exI [of _ "decks @ [drawn p]"]) auto
  next
    case False
    then show ?thesis using decks x(4) by (intro exI [of _ decks]) simp
  qed
  moreover have "mTop p' < n" using x(3) p assms(2) by (auto simp: pool_ok_def)
  ultimately have "dealt n (xs @ [(x, mTop p = 0)]) p'" using assms(1) x(2) by (simp add: dealt_def)
  then show ?thesis using that x(1) by blast
qed

lemma draws_dealt: "dealt n ys p \<Longrightarrow> 0 < n \<Longrightarrow> \<exists>xs p'. draws k p = Ok (xs, p') \<and> length xs = k \<and> dealt n (ys @ xs) p'"
proof (induction k arbitrary: ys p)
  case (Suc k)
  obtain x p1 where x: "pool_Get p = Ok (x, p1)" "dealt n (ys @ [x]) p1" using dealt_step [OF Suc.prems] .
  obtain xs p' where "draws k p1 = Ok (xs, p')" "length xs = k" "dealt n ((ys @ [x]) @ xs) p'"
    using Suc.IH [OF x(2) Suc.prems(2)] by blast
  then show ?case using x(1) by (intro exI [of _ "x # xs"]) simp
qed simp

section \<open>Properties\<close>

text \<open>
  C36: the pool hands out decks. However many numbers are drawn from a pool that is not empty, and whatever the seed, they
  are one permutation of all numbers of the pool after the other, the last one possibly incomplete; the flag \<open>shuffled\<close> is set
  exactly when a new one begins. No access is outside of the array.
\<close>

theorem pool_draws_decks:
  assumes "0 < n"
  shows "\<exists>xs p decks rest. draws k (RandPool n seed) = Ok (xs, p) \<and> length xs = k \<and>
    map fst xs = concat decks @ rest \<and> (\<forall>d \<in> set decks. mset d = mset [0..<n]) \<and>
    distinct rest \<and> set rest \<subseteq> {..<n} \<and> map snd xs = map (\<lambda>i. 0 < i \<and> i mod n = 0) [0..<k]"
proof -
  have "dealt n [] (RandPool n seed)" unfolding dealt_def
    by (intro conjI exI [of _ "[]"]) (simp_all add: pool_ok_def RandPool_def drawn_def)
  then obtain xs p where xs: "draws k (RandPool n seed) = Ok (xs, p)" "length xs = k" "dealt n xs p"
    using draws_dealt [of n "[]" "RandPool n seed" k] assms by auto
  then have p: "mset (mData p) = mset [0..<n]" by (simp add: dealt_def pool_ok_def)
  then have "distinct (mData p)" "set (mData p) = {..<n}"
    using mset_eq_imp_distinct_iff [OF p] mset_eq_setD [OF p] by (simp_all add: atLeast0LessThan)
  then have "distinct (drawn p)" "set (drawn p) \<subseteq> {..<n}" using set_drop_subset [of "mTop p" "mData p"] by (auto simp: drawn_def)
  moreover obtain decks where "map fst xs = concat decks @ drawn p" "\<forall>d \<in> set decks. mset d = mset [0..<n]"
    "map snd xs = map (\<lambda>i. 0 < i \<and> i mod n = 0) [0..<k]"
    using xs(2,3) unfolding dealt_def by blast
  ultimately show ?thesis using xs(1,2) by blast
qed

theorem pool_draws_decks_witness:
  "\<exists>xs p decks rest. draws 7 (RandPool 3 42) = Ok (xs, p) \<and> map fst xs = concat decks @ rest \<and>
     (\<forall>d \<in> set decks. mset d = mset [0..<3]) \<and> map snd xs = [False, False, False, True, False, False, True]"
proof -
  have flags: "map (\<lambda>i. 0 < i \<and> i mod 3 = 0) [0..<7 :: nat] = [False, False, False, True, False, False, True]" by code_simp
  have "(0 :: nat) < 3" by simp
  from pool_draws_decks [OF this, of 7 42] obtain xs p decks rest where
    "draws 7 (RandPool 3 42) = Ok (xs, p) \<and> map fst xs = concat decks @ rest \<and>
       (\<forall>d \<in> set decks. mset d = mset [0..<3]) \<and> map snd xs = [False, False, False, True, False, False, True]"
    unfolding flags by (elim exE conjE) (rule that, intro conjI)
  then show ?thesis by (intro exI)
qed
end
