(* ===== verification/Formatting.thy ===== *)
theory Formatting
  imports BlockTime BitcoinAddress KeyValue
begin

text \<open>
  The texts of src/src/logging.cpp and src/src/sutil.cpp: numbers with commas, dates and times, hashes, and the log. A C string is the list
  of its bytes before the terminating zero. A formatted number lies in one of sixteen places that are used in turn; the place stands for
  the pointer that is returned.
\<close>

section \<open>Numbers with commas\<close>

definition MAXNUMERIC :: nat where "MAXNUMERIC = 32"
definition MAXFNUM :: nat where "MAXFNUM = 16"

record format_state =
  gFormat :: "bytes list"
  gIndex :: nat

text \<open>The copying loop: \<open>place\<close> is the number of characters still to come.\<close>

fun group_digits :: "bytes \<Rightarrow> bytes" where
  "group_digits [] = []"
| "group_digits (c # source) =
     c # (if source \<noteq> [] \<and> length source mod 3 = 0 then 44 # group_digits source else group_digits source)"

text \<open>The decimal text: \<open>itoa\<close> writes all of it, \<open>snprintf(scratch, 10, ...)\<close> at most nine characters.\<close>

definition number_text :: "bool \<Rightarrow> u32 \<Rightarrow> bytes" where
  "number_text msc number = (if msc then int_text number else take 9 (int_text number))"

definition store_format :: "bytes \<Rightarrow> format_state \<Rightarrow> (nat \<times> format_state) result" where
  "store_format txt st =
     (if length txt < MAXNUMERIC then
        Ok (gIndex st, st\<lparr>gFormat := (gFormat st)[gIndex st := txt],
                          gIndex := (if gIndex st + 1 = MAXFNUM then 0 else gIndex st + 1)\<rparr>)
      else Fault OutOfBounds)"

text \<open>\<open>formatNumber\<close> of logging.cpp sets a sign aside before it counts; the one of sutil.cpp counts it as a digit.\<close>

definition formatNumber :: "bool \<Rightarrow> u32 \<Rightarrow> format_state \<Rightarrow> (nat \<times> format_state) result" where
  "formatNumber msc number st =
     (let scratch = number_text msc number
      in store_format (if scratch \<noteq> [] \<and> hd scratch = 45 then 45 # group_digits (tl scratch) else group_digits scratch) st)"

definition sutil_formatNumber :: "bool \<Rightarrow> u32 \<Rightarrow> format_state \<Rightarrow> (nat \<times> format_state) result" where
  "sutil_formatNumber msc number st = store_format (group_digits (number_text msc number)) st"

section \<open>Dates, times and hashes\<close>

definition getDateString :: "u32 \<Rightarrow> bytes" where
  "getDateString t = date_text (date_of (unat t))"

definition clock_text :: "nat \<Rightarrow> bytes" where
  "clock_text s = pad 48 2 (decimal (s div 3600)) @ [58] @ pad 48 2 (decimal (s div 60 mod 60)) @ [58] @ pad 48 2 (decimal (s mod 60))"

definition getTimeString :: "u32 \<Rightarrow> bytes" where
  "getTimeString timeStamp =
     (if timeStamp = 0 then map of_char ''NEVER''
      else case date_of (unat timeStamp) of (y, m, d) \<Rightarrow>
        pad 48 2 (decimal m) @ [47] @ pad 48 2 (decimal d) @ [47] @ decimal y @ [32] @ clock_text (unat timeStamp mod 86400))"

text \<open>The conversion \<open>%02x\<close>, with lower-case letters.\<close>

definition hex_byte :: "u8 \<Rightarrow> bytes" where
  "hex_byte b = map (\<lambda>n. if n < 10 then word_of_nat (48 + n) else word_of_nat (87 + n)) [unat b div 16, unat b mod 16]"

definition reverse_hash_text :: "bytes option \<Rightarrow> bytes list" where
  "reverse_hash_text h = (case h of Some h \<Rightarrow> map (\<lambda>i. hex_byte (h ! (31 - i))) [0..<32] | None \<Rightarrow> [map of_char ''NULL HASH''])"

section \<open>The log\<close>

text \<open>The file is opened with the first message, and again with each one as long as that fails; \<open>can_open\<close> says whether it does.\<close>

record log_state =
  gLogFile :: "bytes option"
  console :: bytes

definition log_text :: "bool \<Rightarrow> bytes \<Rightarrow> log_state \<Rightarrow> log_state result" where
  "log_text can_open wbuff st =
     (if length wbuff < 2048 then
        let st = st\<lparr>console := console st @ wbuff\<rparr>;
            st = (if gLogFile st = None \<and> can_open then st\<lparr>gLogFile := Some []\<rparr> else st)
        in Ok (st\<lparr>gLogFile := map_option (\<lambda>f. f @ wbuff) (gLogFile st)\<rparr>)
      else Fault OutOfBounds)"

fun log_texts :: "bool \<Rightarrow> bytes list \<Rightarrow> log_state \<Rightarrow> log_state result" where
  "log_texts can_open [] st = Ok st"
| "log_texts can_open (t # ts) st = bind_result (log_text can_open t st) (log_texts can_open ts)"

definition printReverseHash :: "bool \<Rightarrow> bytes option \<Rightarrow> log_state \<Rightarrow> log_state result" where
  "printReverseHash can_open h st = log_texts can_open (reverse_hash_text h) st"

text \<open>\<open>temp\<close> is what the buffer of 512 bytes holds before the call.\<close>

definition getBitcoinAddressAscii :: "build \<Rightarrow> bytes \<Rightarrow> bytes \<Rightarrow> bytes result" where
  "getBitcoinAddressAscii bld temp address =
     bind_result (bitcoinAddressToAscii bld address temp 512) (\<lambda>(_, temp). Ok (c_string temp))"

definition logBitcoinAddress :: "build \<Rightarrow> bool \<Rightarrow> bytes \<Rightarrow> bytes \<Rightarrow> log_state \<Rightarrow> log_state result" where
  "logBitcoinAddress bld can_open temp address st =
     bind_result (getBitcoinAddressAscii bld temp address) (\<lambda>t. log_text can_open t st)"

section \<open>Commas stand between groups of three digits\<close>

text \<open>The reference: the thousands, a comma, and the last three digits.\<close>

function commas :: "nat \<Rightarrow> bytes" where
  "commas n = (if n < 1000 then decimal n else commas (n div 1000) @ [44] @ digits 3 (n mod 1000))"
  by pat_completeness auto
termination by (relation "measure id") simp_all

declare commas.simps [simp del]

lemma group_digits_append:
  "length ys mod 3 = 0 \<Longrightarrow> ys \<noteq> [] \<Longrightarrow> xs \<noteq> [] \<Longrightarrow>
     group_digits (xs @ ys) = group_digits xs @ [44] @ group_digits ys"
proof (induction xs)
  case (Cons x xs)
  then show ?case by (cases "xs = []") (auto simp: mod_add_right_eq [symmetric])
qed simp

lemma group_digits_short: "length xs \<le> 3 \<Longrightarrow> group_digits xs = xs"
proof (induction xs)
  case (Cons c xs)
  then have "length xs mod 3 = length xs" by simp
  then show ?case using Cons by simp
qed simp

lemma digits_mod: "digits w (n mod 10 ^ w) = digits w n"
proof (induction w arbitrary: n)
  case (Suc w)
  have m: "n mod 10 ^ Suc w = 10 * (n div 10 mod 10 ^ w) + n mod 10"
    unfolding power_Suc by (rule mod_mult2_eq)
  have "n mod 10 ^ Suc w div 10 = n div 10 mod 10 ^ w" "n mod 10 ^ Suc w mod 10 = n mod 10"
    unfolding m by (simp_all del: power_Suc)
  then show ?case using Suc [of "n div 10"] by (simp del: power_Suc)
qed simp

lemma decimal_thousands: "1000 \<le> n \<Longrightarrow> decimal n = decimal (n div 1000) @ digits 3 (n mod 1000)"
proof -
  assume n: "1000 \<le> n"
  have "decimal n = decimal (n div 10 div 10 div 10) @ digits 1 (n div 10 div 10) @ digits 1 (n div 10) @ digits 1 n"
    using n by (simp add: decimal_digits(2) [of n] decimal_digits(2) [of "n div 10"] decimal_digits(2) [of "n div 10 div 10"] del: digits.simps)
  moreover have "n div 10 div 10 div 10 = n div 1000" by (simp add: div_mult2_eq [symmetric])
  moreover have "digits 3 (n mod 1000) = digits 3 n" using digits_mod [of 3 n] by simp
  ultimately show ?thesis by (simp add: numeral_3_eq_3)
qed

lemma decimal_length_less: "n < 10 ^ Suc w \<Longrightarrow> length (decimal n) \<le> Suc w"
proof (induction w arbitrary: n)
  case (Suc w)
  show ?case
  proof (cases "n < 10")
    case False
    then have "decimal n = decimal (n div 10) @ digits 1 n" by (simp add: decimal_digits(2) del: digits.simps)
    moreover have "length (decimal (n div 10)) \<le> Suc w" using Suc.prems by (intro Suc.IH) simp
    ultimately show ?thesis by simp
  qed (simp add: decimal_digits(1) del: digits.simps)
qed (simp add: decimal_digits(1) del: digits.simps)

lemma decimal_nonempty [simp]: "decimal n \<noteq> []"
  by (subst decimal.simps) simp

lemma group_decimal: "group_digits (decimal n) = commas n"
proof (induction n rule: commas.induct)
  case (1 n)
  show ?case
  proof (cases "n < 1000")
    case True
    then have "length (decimal n) \<le> 3" using decimal_length_less [of n 2] by (simp add: numeral_3_eq_3)
    then show ?thesis using True by (subst commas.simps) (simp add: group_digits_short)
  next
    case False
    then have "group_digits (decimal n) = group_digits (decimal (n div 1000)) @ [44] @ group_digits (digits 3 (n mod 1000))"
      unfolding decimal_thousands [of n, OF leI [OF False]]
      by (intro group_digits_append) (simp_all only: length_digits decimal_nonempty length_0_conv [symmetric], simp_all)
    moreover have "group_digits (digits 3 (n mod 1000)) = digits 3 (n mod 1000)" by (rule group_digits_short) simp
    ultimately show ?thesis using False 1 by (subst commas.simps) simp
  qed
qed

lemma decimal_hd: "hd (decimal n) \<noteq> 45"
proof (induction n rule: decimal.induct)
  case (1 n)
  have "(word_of_nat (48 + n) :: u8) \<noteq> 45" if "n < 10"
  proof
    assume eq: "(word_of_nat (48 + n) :: u8) = 45"
    have "unat (word_of_nat (48 + n) :: u8) = 48 + n" using that by (simp add: unat_of_nat del: of_nat_add)
    then show False unfolding eq by simp
  qed
  then show ?case using 1 by (subst decimal.simps) (simp add: hd_append del: of_nat_add)
qed

lemma group_digits_length: "length (group_digits xs) \<le> 2 * length xs"
  by (induction xs) auto

section \<open>What formatNumber returns\<close>

text \<open>The text that is meant: a sign and the digits in groups of three.\<close>

definition formatted :: "u32 \<Rightarrow> bytes" where
  "formatted number = (if 0 \<le>s number then commas (unat number) else 45 # commas (unat (- number)))"

lemma formatNumber_stores:
  assumes "msc \<or> length (int_text number) \<le> 9" "length (int_text number) \<le> 11"
  shows "formatNumber msc number st = store_format (formatted number) st \<and> length (formatted number) < MAXNUMERIC"
proof -
  have plain: "number_text msc number = int_text number" using assms by (auto simp: number_text_def)
  have t: "(if int_text number \<noteq> [] \<and> hd (int_text number) = 45 then 45 # group_digits (tl (int_text number))
      else group_digits (int_text number)) = formatted number"
    by (simp add: int_text_def formatted_def group_decimal decimal_hd)
  have "length (formatted number) \<le> 2 * length (int_text number)"
    using group_digits_length [of "decimal (unat number)"] group_digits_length [of "decimal (unat (- number))"]
    by (auto simp: formatted_def int_text_def group_decimal)
  then show ?thesis using assms(2) by (simp add: formatNumber_def plain t MAXNUMERIC_def)
qed

lemma int_text_length: "length (int_text number) \<le> 11"
proof -
  have "length (decimal (unat w)) \<le> 10" for w :: u32
    using decimal_length_less [of "unat w" 9] unsigned_less [of w, where ?'a = nat] by simp
  then have "length (decimal (unat number)) \<le> 10" "length (decimal (unat (- number))) \<le> 10" by blast+
  then show ?thesis by (simp add: int_text_def)
qed

lemma unat_sint: "0 \<le> sint w \<Longrightarrow> unat (w :: u32) = nat (sint w)"
  "sint w < 0 \<Longrightarrow> unat (- w) = nat (- sint w)"
proof -
  have range: "- (2 ^ 31) \<le> sint w" "sint w < 2 ^ 31" using sint_ge [of w] sint_lt [of w] by simp_all
  have "uint w = sint w mod 2 ^ 32" "uint (- w) = (- sint w) mod 2 ^ 32"
    using uint_word_of_int [of "sint w", where 'a = 32] uint_word_of_int [of "- sint w", where 'a = 32] by simp_all
  then show "0 \<le> sint w \<Longrightarrow> unat w = nat (sint w)" "sint w < 0 \<Longrightarrow> unat (- w) = nat (- sint w)"
    using range by (simp_all only: unat_eq_nat_uint mod_pos_pos_trivial) simp_all
qed

lemma int_text_short:
  assumes "- (10 ^ 8) < sint number" "sint number < 10 ^ 9"
  shows "length (int_text number) \<le> 9"
proof (cases "0 \<le> sint number")
  case True
  then have "unat number < 10 ^ Suc 8" using assms(2) by (simp add: unat_sint(1))
  then show ?thesis using True decimal_length_less [of "unat number" 8] by (simp add: int_text_def word_sle_eq)
next
  case False
  then have "unat (- number) < 10 ^ Suc 7" using assms(1) by (simp add: unat_sint(2))
  then show ?thesis using False decimal_length_less [of "unat (- number)" 7] by (simp add: int_text_def word_sle_eq)
qed

fun format_all :: "bool \<Rightarrow> u32 list \<Rightarrow> format_state \<Rightarrow> (nat list \<times> format_state) result" where
  "format_all msc [] st = Ok ([], st)"
| "format_all msc (n # ns) st =
     bind_result (formatNumber msc n st) (\<lambda>(p, st). bind_result (format_all msc ns st) (\<lambda>(ps, st). Ok (p # ps, st)))"

lemma ring_next: "i < 16 \<Longrightarrow> (if i + 1 = MAXFNUM then 0 else i + 1) = (i + 1) mod (16 :: nat)"
  by (cases "i = 15") (simp_all add: MAXFNUM_def)

lemma ring_apart: "i < 16 \<Longrightarrow> k < 15 \<Longrightarrow> (i + 1 + k) mod 16 \<noteq> (i :: nat)"
proof (cases "i + 1 + k < 16")
  case False
  moreover assume "i < 16" "k < 15"
  ultimately have "i + 1 + k = (i + k - 15) + 16" "i + k - 15 < 16" by simp_all
  then have "(i + 1 + k) mod 16 = i + k - 15" by (metis mod_add_self2 mod_less)
  then show ?thesis using \<open>k < 15\<close> \<open>i + 1 + k = (i + k - 15) + 16\<close> by linarith
qed simp

lemma format_all_places:
  assumes "\<forall>n \<in> set ns. msc \<or> length (int_text n) \<le> 9" "length (gFormat st) = 16" "gIndex st < 16" "length ns \<le> 16"
  shows "\<exists>st'. format_all msc ns st = Ok (map (\<lambda>k. (gIndex st + k) mod 16) [0..<length ns], st') \<and>
    length (gFormat st') = 16 \<and> (\<forall>k < length ns. gFormat st' ! ((gIndex st + k) mod 16) = formatted (ns ! k)) \<and>
    (\<forall>i < 16. (\<forall>k < length ns. (gIndex st + k) mod 16 \<noteq> i) \<longrightarrow> gFormat st' ! i = gFormat st ! i)"
  using assms
proof (induction ns arbitrary: st)
  case (Cons n ns)
  let ?g = "gIndex st" and ?f = "formatted n"
  let ?s = "st\<lparr>gFormat := (gFormat st)[?g := ?f], gIndex := (?g + 1) mod 16\<rparr>"
  have one: "formatNumber msc n st = Ok (?g, ?s)"
    using formatNumber_stores [OF _ int_text_length, of msc n st] Cons.prems ring_next [of ?g] by (simp add: store_format_def)
  have "\<exists>st'. format_all msc ns ?s = Ok (map (\<lambda>k. (gIndex ?s + k) mod 16) [0..<length ns], st') \<and>
      length (gFormat st') = 16 \<and> (\<forall>k < length ns. gFormat st' ! ((gIndex ?s + k) mod 16) = formatted (ns ! k)) \<and>
      (\<forall>i < 16. (\<forall>k < length ns. (gIndex ?s + k) mod 16 \<noteq> i) \<longrightarrow> gFormat st' ! i = gFormat ?s ! i)"
    by (rule Cons.IH) (use Cons.prems in auto)
  moreover have idx: "(gIndex ?s + k) mod 16 = (?g + Suc k) mod 16" for k by (simp add: mod_add_left_eq)
  ultimately obtain st' where st': "format_all msc ns ?s = Ok (map (\<lambda>k. (?g + Suc k) mod 16) [0..<length ns], st')"
    "length (gFormat st') = 16" "\<forall>k < length ns. gFormat st' ! ((?g + Suc k) mod 16) = formatted (ns ! k)"
    "\<forall>i < 16. (\<forall>k < length ns. (?g + Suc k) mod 16 \<noteq> i) \<longrightarrow> gFormat st' ! i = gFormat ?s ! i"
    unfolding idx by blast
  have "\<forall>k < length ns. (?g + Suc k) mod 16 \<noteq> ?g" using ring_apart [of ?g] Cons.prems by simp
  then have first: "gFormat st' ! ?g = ?f" using st'(4) Cons.prems by simp
  have places: "map (\<lambda>k. (?g + k) mod 16) [0..<length (n # ns)] = ?g # map (\<lambda>k. (?g + Suc k) mod 16) [0..<length ns]"
    using Cons.prems(3) by (simp add: map_upt_Suc del: upt_Suc)
  have "gFormat st' ! ((?g + k) mod 16) = formatted ((n # ns) ! k)" if "k < length (n # ns)" for k
    using that first st'(3) Cons.prems(3) by (cases k) simp_all
  moreover have "gFormat st' ! i = gFormat st ! i" if i: "i < 16" "\<forall>k < length (n # ns). (?g + k) mod 16 \<noteq> i" for i
  proof -
    have "i \<noteq> ?g" using i(2) [rule_format, of 0] Cons.prems(3) by simp
    moreover have "(?g + Suc k) mod 16 \<noteq> i" if "k < length ns" for k using i(2) [rule_format, of "Suc k"] that by simp
    ultimately show ?thesis using st'(4) i(1) by simp
  qed
  ultimately show ?case
    using one st'(1,2) unfolding places by (intro exI [of _ st']) simp
qed simp

lemma digits_3:
  "digits 3 n = [word_of_nat (48 + n div 10 div 10 mod 10), word_of_nat (48 + n div 10 mod 10), word_of_nat (48 + n mod 10)]"
  by (simp add: numeral_3_eq_3)

text \<open>
  Numbers with commas. Up to sixteen numbers can be formatted for one message: none of the texts is overwritten by a later
  one, and each is the sign and the digits with a comma before every group of three from the right. On systems with
  \<open>snprintf\<close> this is so for numbers of at most nine characters.
\<close>

theorem formatNumber_texts:
  assumes "msc \<or> (\<forall>n \<in> set ns. - (10 ^ 8) < sint n \<and> sint n < 10 ^ 9)"
    and "length (gFormat st) = 16" "gIndex st < 16" "length ns \<le> 16"
  shows "\<exists>ps st'. format_all msc ns st = Ok (ps, st') \<and> map (\<lambda>p. gFormat st' ! p) ps = map formatted ns"
proof -
  have "\<forall>n \<in> set ns. msc \<or> length (int_text n) \<le> 9" using assms(1) int_text_short by blast
  then obtain st' where st': "format_all msc ns st = Ok (map (\<lambda>k. (gIndex st + k) mod 16) [0..<length ns], st')"
    "\<forall>k < length ns. gFormat st' ! ((gIndex st + k) mod 16) = formatted (ns ! k)"
    using format_all_places [OF _ assms(2-4)] by blast
  have "map (\<lambda>p. gFormat st' ! p) (map (\<lambda>k. (gIndex st + k) mod 16) [0..<length ns]) = map formatted ns"
    by (rule nth_equalityI) (use st'(2) in simp_all)
  then show ?thesis using st'(1) by blast
qed

theorem formatNumber_texts_witness:
  "\<exists>ps st'. format_all False [1234567, - 1234] \<lparr>gFormat = replicate 16 [], gIndex = 15\<rparr> = Ok (ps, st') \<and>
     map (\<lambda>p. gFormat st' ! p) ps = [map of_char ''1,234,567'', map of_char ''-1,234'']"
proof -
  have "map formatted [1234567, - 1234] = [[49, 44, 50, 51, 52, 44, 53, 54, 55], [45, 49, 44, 50, 51, 52]]"
  proof -
    have "commas 1234567 = [49, 44, 50, 51, 52, 44, 53, 54, 55]" "commas 1234 = [49, 44, 50, 51, 52]"
      by (simp_all add: commas.simps decimal.simps digits_3)
    then show ?thesis by (simp add: formatted_def word_sle_eq)
  qed
  also have "\<dots> = [map of_char ''1,234,567'', map of_char ''-1,234'']" by simp
  finally have "map formatted [1234567, - 1234] = [map of_char ''1,234,567'', map of_char ''-1,234'']" .
  moreover have "\<exists>ps st'. format_all False [1234567, - 1234] \<lparr>gFormat = replicate 16 [], gIndex = 15\<rparr> = Ok (ps, st') \<and>
      map (\<lambda>p. gFormat st' ! p) ps = map formatted [1234567, - 1234]"
    by (rule formatNumber_texts) simp_all
  ultimately show ?thesis by (simp only:)
qed

text \<open>
  Numbers of ten digits. With \<open>snprintf\<close> and its limit of ten characters, the last of them for the terminating zero, a number from
  1,000,000,000 on is shown without its last digit, as a tenth of its value.
\<close>

theorem formatNumber_truncates:
  assumes "10 ^ 9 \<le> sint number"
  shows "formatNumber False number st = store_format (commas (unat number div 10)) st"
proof -
  have n: "unat number = nat (sint number)" using assms by (intro unat_sint) simp
  have lt: "sint number < 2 ^ 31" using sint_lt [of number] by simp
  have big: "10 ^ 9 \<le> unat number" "unat number < 10 ^ Suc 9" using n assms lt by simp_all
  have "length (decimal (unat number div 10)) = 9"
    using decimal_digits_Suc [of "unat number div 10" 8] big by (simp del: digits.simps)
  moreover have "decimal (unat number) = decimal (unat number div 10) @ digits 1 (unat number)"
    using big(1) by (intro decimal_digits(2)) simp
  ultimately have "number_text False number = decimal (unat number div 10)"
    using assms by (simp add: number_text_def int_text_def word_sle_eq del: digits.simps)
  then show ?thesis by (simp add: formatNumber_def decimal_hd group_decimal)
qed

theorem formatNumber_truncates_witness:
  "formatNumber False 2100000000 \<lparr>gFormat = replicate 16 [], gIndex = 0\<rparr> =
     store_format (map of_char ''210,000,000'') \<lparr>gFormat = replicate 16 [], gIndex = 0\<rparr>"
proof -
  have "commas 210000000 = [50, 49, 48, 44, 48, 48, 48, 44, 48, 48, 48]" by (simp add: commas.simps decimal.simps digits_3)
  also have "\<dots> = map of_char ''210,000,000''" by simp
  finally show ?thesis using formatNumber_truncates [of 2100000000] by simp
qed

section \<open>Times\<close>

lemma digits_inj: "n < 10 ^ w \<Longrightarrow> n' < 10 ^ w \<Longrightarrow> digits w n = digits w n' \<Longrightarrow> n = n'"
  using digits_less [of n w n'] digits_less [of n' w n] by (metis less_irrefl linorder_neqE_nat)

lemma date_of_inj: "date_of t = date_of t' \<Longrightarrow> t div 86400 = t' div 86400"
proof (rule ccontr)
  assume eq: "date_of t = date_of t'" and "t div 86400 \<noteq> t' div 86400"
  then have "date_less (date_of t) (date_of t') \<or> date_less (date_of t') (date_of t)"
    using date_of_less by (meson linorder_neqE_nat)
  then show False unfolding eq by (simp add: date_less_def split: prod.splits)
qed

lemma clock_text_digits:
  "s < 86400 \<Longrightarrow> clock_text s = digits 2 (s div 3600) @ [58] @ digits 2 (s div 60 mod 60) @ [58] @ digits 2 (s mod 60)"
proof -
  assume "s < 86400"
  then have "s div 3600 < 100" by (simp add: div_less_iff_less_mult)
  moreover have "s div 60 mod 60 < 100" "s mod 60 < 100" by (simp_all add: less_trans [of _ 60])
  ultimately show ?thesis by (simp add: clock_text_def pad_two del: digits.simps)
qed

lemma clock_text_inj: "s < 86400 \<Longrightarrow> s' < 86400 \<Longrightarrow> clock_text s = clock_text s' \<Longrightarrow> s = s'"
proof -
  assume s: "s < 86400" "s' < 86400" and eq: "clock_text s = clock_text s'"
  have d: "digits 2 (s div 3600) = digits 2 (s' div 3600)" "digits 2 (s div 60 mod 60) = digits 2 (s' div 60 mod 60)"
    "digits 2 (s mod 60) = digits 2 (s' mod 60)"
    using eq unfolding clock_text_digits [OF s(1)] clock_text_digits [OF s(2)] by (simp_all add: append_eq_append_conv del: digits.simps)
  have "s div 3600 < 10 ^ 2" "s' div 3600 < 10 ^ 2" using s by (simp_all add: div_less_iff_less_mult)
  then have h: "s div 3600 = s' div 3600" using d(1) digits_inj by blast
  have lt: "n mod 60 < 10 ^ 2" for n :: nat by (simp add: less_trans [of _ 60])
  have m: "s div 60 mod 60 = s' div 60 mod 60" "s mod 60 = s' mod 60" using digits_inj [OF lt lt d(2)] digits_inj [OF lt lt d(3)] .
  have "n = 3600 * (n div 3600) + 60 * (n div 60 mod 60) + n mod 60" for n :: nat
  proof -
    have "n div 3600 = n div 60 div 60" by (simp add: div_mult2_eq [symmetric])
    moreover have "n = 60 * (n div 60) + n mod 60" "n div 60 = 60 * (n div 60 div 60) + n div 60 mod 60"
      by (simp_all only: mult_div_mod_eq)
    ultimately show ?thesis by linarith
  qed
  then show "s = s'" using h m by metis
qed

lemma time_text_digits:
  assumes "date_of t = (y, m, d)" "t < 2 ^ 32"
  shows "pad 48 2 (decimal m) @ [47] @ pad 48 2 (decimal d) @ [47] @ decimal y @ [32] @ c =
    digits 2 m @ [47] @ digits 2 d @ [47] @ digits 4 y @ [32] @ c" "m < 10 ^ 2" "d < 10 ^ 2" "y < 10 ^ 4"
proof -
  have ok: "1000 \<le> y" "y < 10000" "m < 100" "d < 100" using date_of_ok [OF assms(2)] assms(1) by (simp_all add: date_ok_def)
  have "decimal y = digits 4 y" using decimal_digits_Suc [of y 3] ok by (simp del: digits.simps)
  then show "pad 48 2 (decimal m) @ [47] @ pad 48 2 (decimal d) @ [47] @ decimal y @ [32] @ c =
    digits 2 m @ [47] @ digits 2 d @ [47] @ digits 4 y @ [32] @ c" using ok by (simp add: pad_two del: digits.simps)
  show "m < 10 ^ 2" "d < 10 ^ 2" "y < 10 ^ 4" using ok by simp_all
qed

lemma time_string_inj:
  assumes "getTimeString t = getTimeString t'" "t \<noteq> 0" "t' \<noteq> 0"
  shows "t = t'"
proof -
  have lt: "unat t < 2 ^ 32" "unat t' < 2 ^ 32"
    using unsigned_less [of t, where ?'a = nat] unsigned_less [of t', where ?'a = nat] by simp_all
  obtain y m d where a: "date_of (unat t) = (y, m, d)" by (cases "date_of (unat t)")
  obtain y' m' d' where b: "date_of (unat t') = (y', m', d')" by (cases "date_of (unat t')")
  note A = time_text_digits [OF a lt(1)] and B = time_text_digits [OF b lt(2)]
  have "digits 2 m @ [47] @ digits 2 d @ [47] @ digits 4 y @ [32] @ clock_text (unat t mod 86400) =
      digits 2 m' @ [47] @ digits 2 d' @ [47] @ digits 4 y' @ [32] @ clock_text (unat t' mod 86400)"
    using assms unfolding getTimeString_def a b by (simp add: A(1) B(1) del: digits.simps append_assoc append_Cons append_Nil)
  then have eq: "digits 2 m = digits 2 m'" "digits 2 d = digits 2 d'" "digits 4 y = digits 4 y'"
    "clock_text (unat t mod 86400) = clock_text (unat t' mod 86400)"
    by (simp_all add: append_eq_append_conv del: digits.simps)
  have "date_of (unat t) = date_of (unat t')"
    using digits_inj [OF A(2) B(2) eq(1)] digits_inj [OF A(3) B(3) eq(2)] digits_inj [OF A(4) B(4) eq(3)] a b by simp
  then have "unat t div 86400 = unat t' div 86400" by (rule date_of_inj)
  moreover have "unat t mod 86400 = unat t' mod 86400" using clock_text_inj [OF _ _ eq(4)] by simp
  ultimately have "unat t = unat t'" by (metis mult_div_mod_eq)
  then show ?thesis by (simp add: word_unat_eq_iff)
qed

text \<open>
  Texts of times. Different times have different texts, the time zero included, which is shown as NEVER.
\<close>

theorem getTimeString_injective: "inj getTimeString"
proof (rule injI)
  fix t t' :: u32 assume eq: "getTimeString t = getTimeString t'"
  have never: "getTimeString w \<noteq> getTimeString 0" if "w \<noteq> 0" for w
  proof
    assume w: "getTimeString w = getTimeString 0"
    obtain y m d where a: "date_of (unat w) = (y, m, d)" by (cases "date_of (unat w)")
    have "unat w < 2 ^ 32" using unsigned_less [of w, where ?'a = nat] by simp
    then have "getTimeString w = digits 2 m @ [47] @ digits 2 d @ [47] @ digits 4 y @ [32] @ clock_text (unat w mod 86400)"
      using that time_text_digits(1) [OF a] unfolding getTimeString_def a by (simp del: digits.simps append_assoc append_Cons append_Nil)
    then have "length (getTimeString w) > 5" by simp
    then show False unfolding w by (simp add: getTimeString_def)
  qed
  show "t = t'"
  proof (cases "t = 0 \<or> t' = 0")
    case True
    then show ?thesis using eq never by metis
  next
    case False
    then show ?thesis using time_string_inj [OF eq] by blast
  qed
qed
end
