(* ===== verification/InPlaceParser.thy ===== *)
theory InPlaceParser
  imports KeyValue
begin

text \<open>
  The in-place text parser of src/src/InParser.cpp and src/include/InParser.h. The text lies in a buffer that is a list of bytes with a
  zero at the end, and pointers into it are positions. The parser writes zeros over the separators, so an argument is a position
  whose text is read from the buffer when the callback gets it. Callbacks are functions on a state of their own. The blocks of memory
  that the data may lie in have identities: a block is never given out twice, freeing one that was freed is a fault, and so is a copy
  into one. The array of arguments is another block, which only the parser knows and which it frees once. Allocations that fail are
  left out, and so is a string to parse that lies in the parser's own buffer.
\<close>

section \<open>The parser\<close>

datatype SeparatorType = ST_DATA | ST_HARD | ST_SOFT | ST_EOS | ST_LINE_FEED

text \<open>
  What \<open>mData\<close> and \<open>mStringBuffer\<close> point to: nothing, a block that the parser allocated, or one of the caller's. \<open>mallocs\<close> counts the
  blocks that were allocated, and \<open>freed\<close> lists those that were freed.
\<close>

datatype pointer = Null | Own nat | Caller nat

record in_parser =
  mMyAlloc :: bool
  ip_mData :: pointer
  ip_text :: bytes
  mLen :: nat
  mHard :: "u8 \<Rightarrow> SeparatorType"
  mQuoteChar :: u8
  mMaxArgs :: nat
  mStringBuffer :: pointer
  mStringLen :: nat
  mallocs :: nat
  freed :: "pointer list"

definition Init :: in_parser where
  "Init = \<lparr>mMyAlloc = False, ip_mData = Null, ip_text = [], mLen = 0,
     mHard = (\<lambda>_. ST_DATA)(0 := ST_EOS, 32 := ST_SOFT, 9 := ST_SOFT, 13 := ST_LINE_FEED, 10 := ST_LINE_FEED),
     mQuoteChar = 34, mMaxArgs = 256, mStringBuffer = Own 0, mStringLen = 1024 * 4, mallocs = 1, freed = []\<rparr>"

definition SetHard :: "u8 \<Rightarrow> in_parser \<Rightarrow> in_parser" where
  "SetHard c p = p\<lparr>mHard := (mHard p)(c := ST_HARD)\<rparr>"

definition SetSoft :: "u8 \<Rightarrow> in_parser \<Rightarrow> in_parser" where
  "SetSoft c p = p\<lparr>mHard := (mHard p)(c := ST_SOFT)\<rparr>"

definition SetSoftLinefeeds :: "in_parser \<Rightarrow> in_parser" where
  "SetSoftLinefeeds p = p\<lparr>mHard := (mHard p)(10 := ST_SOFT, 13 := ST_SOFT)\<rparr>"

definition SetCommentSymbol :: "u8 \<Rightarrow> in_parser \<Rightarrow> in_parser" where
  "SetCommentSymbol c p = p\<lparr>mHard := (mHard p)(c := ST_EOS)\<rparr>"

definition ClearHardSeparator :: "u8 \<Rightarrow> in_parser \<Rightarrow> in_parser" where
  "ClearHardSeparator c p = p\<lparr>mHard := (mHard p)(c := ST_DATA)\<rparr>"

definition setLineFeed :: "u8 \<Rightarrow> in_parser \<Rightarrow> in_parser" where
  "setLineFeed c p = p\<lparr>mHard := (mHard p)(c := ST_LINE_FEED)\<rparr>"

definition SetQuoteChar :: "u8 \<Rightarrow> in_parser \<Rightarrow> in_parser" where
  "SetQuoteChar c p = p\<lparr>mQuoteChar := c\<rparr>"

definition DefaultSymbols :: "bool \<Rightarrow> in_parser \<Rightarrow> in_parser" where
  "DefaultSymbols useComment p =
     (let p = fold SetHard (map of_char '',()=[]{}'') p in if useComment then SetCommentSymbol 35 p else p)"

definition EOS :: "in_parser \<Rightarrow> u8 \<Rightarrow> bool" where
  "EOS p c \<longleftrightarrow> mHard p c = ST_EOS"

definition IsHard :: "in_parser \<Rightarrow> u8 \<Rightarrow> bool" where
  "IsHard p c \<longleftrightarrow> mHard p c = ST_HARD"

definition IsWhiteSpace :: "in_parser \<Rightarrow> u8 \<Rightarrow> bool" where
  "IsWhiteSpace p c \<longleftrightarrow> mHard p c = ST_SOFT"

definition IsHardSeparator :: "in_parser \<Rightarrow> u8 \<Rightarrow> bool" where
  "IsHardSeparator p c \<longleftrightarrow> mHard p c = ST_HARD"

definition isLineFeed :: "in_parser \<Rightarrow> u8 \<Rightarrow> bool" where
  "isLineFeed p c \<longleftrightarrow> mHard p c = ST_LINE_FEED"

definition IsNonSeparator :: "in_parser \<Rightarrow> u8 \<Rightarrow> bool" where
  "IsNonSeparator p c \<longleftrightarrow> \<not> IsHard p c \<and> \<not> IsWhiteSpace p c \<and> c \<noteq> 0"

section \<open>Where the data comes from\<close>

definition malloc_block :: "in_parser \<Rightarrow> pointer \<times> in_parser" where
  "malloc_block p = (Own (mallocs p), p\<lparr>mallocs := mallocs p + 1\<rparr>)"

definition free_block :: "pointer \<Rightarrow> in_parser \<Rightarrow> in_parser result" where
  "free_block q p =
     (if q = Null then Ok p
      else if q \<in> set (freed p) then Fault DoubleFree
      else Ok (p\<lparr>freed := q # freed p\<rparr>))"

text \<open>\<open>mData\<close> is freed when the parser believes to own it.\<close>

definition free_data :: "in_parser \<Rightarrow> in_parser result" where
  "free_data p = (if mMyAlloc p then free_block (ip_mData p) p else Ok p)"

text \<open>\<open>content\<close>: None when the file cannot be opened, otherwise its length and what reading it yields.\<close>

definition SetFile :: "(nat \<times> bytes option) option \<Rightarrow> in_parser \<Rightarrow> in_parser result" where
  "SetFile content p =
     bind_result (free_data p) (\<lambda>p.
       let p = p\<lparr>ip_mData := Null, ip_text := [], mLen := 0, mMyAlloc := False\<rparr>
       in case content of
            None \<Rightarrow> Ok p
          | Some (len, d) \<Rightarrow>
              let p = p\<lparr>mLen := len\<rparr>
              in if len = 0 then Ok p
                 else
                   let (q, p) = malloc_block p; p = p\<lparr>ip_mData := q\<rparr>
                   in case d of
                        None \<Rightarrow> bind_result (free_block q p) (\<lambda>p. Ok (p\<lparr>ip_mData := Null\<rparr>))
                      | Some d \<Rightarrow> Ok (p\<lparr>ip_text := d @ [0], mMyAlloc := True\<rparr>))"

definition SetSourceData :: "nat \<Rightarrow> bytes \<Rightarrow> nat \<Rightarrow> in_parser \<Rightarrow> in_parser" where
  "SetSourceData q data len p = p\<lparr>ip_mData := Caller q, ip_text := data, mLen := len, mMyAlloc := False\<rparr>"

definition SetSourceData_string :: "nat \<Rightarrow> bytes \<Rightarrow> in_parser \<Rightarrow> in_parser" where
  "SetSourceData_string q data p =
     p\<lparr>ip_mData := Caller q, ip_text := data, mLen := length (c_string data), mMyAlloc := False\<rparr>"

definition HasData :: "in_parser \<Rightarrow> bool" where
  "HasData p \<longleftrightarrow> ip_mData p \<noteq> Null"

definition setMyAlloc :: "bool \<Rightarrow> in_parser \<Rightarrow> in_parser" where
  "setMyAlloc state p = p\<lparr>mMyAlloc := state\<rparr>"

text \<open>A buffer that is too small is replaced.\<close>

definition grow_string :: "nat \<Rightarrow> in_parser \<Rightarrow> in_parser result" where
  "grow_string dataLen p =
     (if dataLen + 1 > mStringLen p then
        bind_result (free_block (mStringBuffer p) (p\<lparr>mStringLen := (dataLen + 1) * 2\<rparr>)) (\<lambda>p.
          let (q, p) = malloc_block p in Ok (p\<lparr>mStringBuffer := q\<rparr>))
      else Ok p)"

text \<open>
  The copy. When the parser owns its data it frees it, but does not say that it no longer owns it: \<open>mMyAlloc\<close> then belongs to the
  string buffer, which the parser frees on its own.
\<close>

definition setParseData :: "bytes \<Rightarrow> in_parser \<Rightarrow> in_parser result" where
  "setParseData data p =
     bind_result (grow_string (length data) p) (\<lambda>p.
     bind_result (free_data p) (\<lambda>p.
       if mStringBuffer p \<in> set (freed p) then Fault UseAfterFree
       else Ok (p\<lparr>ip_mData := mStringBuffer p, ip_text := data @ [0], mLen := length data\<rparr>)))"

text \<open>The destructor frees the string buffer and then the data it owns.\<close>

definition destroy :: "in_parser \<Rightarrow> in_parser result" where
  "destroy p = bind_result (free_block (mStringBuffer p) p) free_data"

section \<open>Arguments of a line\<close>

text \<open>An argument: a place in the buffer, or one of the parser's own strings of a single separator.\<close>

datatype argument = At nat | Hard u8

record scan =
  buf :: bytes
  foo :: nat
  argv :: "argument list"
  maxArgs :: nat

definition peek :: "scan \<Rightarrow> (u8 \<times> scan) result" where
  "peek s = (if foo s < length (buf s) then Ok (buf s ! foo s, s) else Fault OutOfBounds)"

definition step_foo :: "scan \<Rightarrow> (unit \<times> scan) result" where
  "step_foo s = Ok ((), s\<lparr>foo := foo s + 1\<rparr>)"

definition poke :: "u8 \<Rightarrow> scan \<Rightarrow> (unit \<times> scan) result" where
  "poke c s = (if foo s < length (buf s) then Ok ((), s\<lparr>buf := (buf s)[foo s := c]\<rparr>) else Fault OutOfBounds)"

text \<open>The array of arguments is doubled when it is full; then the argument is stored.\<close>

definition growArgs :: "scan \<Rightarrow> scan" where
  "growArgs s = (if length (argv s) \<ge> maxArgs s then s\<lparr>maxArgs := maxArgs s * 2\<rparr> else s)"

definition add_argument :: "argument \<Rightarrow> scan \<Rightarrow> (unit \<times> scan) result" where
  "add_argument a s =
     (let s = growArgs s
      in if length (argv s) < maxArgs s then Ok ((), s\<lparr>argv := argv s @ [a]\<rparr>) else Fault OutOfBounds)"

text \<open>The strings of single characters are found with a signed character as index.\<close>

definition hard_string :: "u8 \<Rightarrow> argument result" where
  "hard_string c = (if c < 128 then Ok (Hard c) else Fault OutOfBounds)"

definition add_hard_string :: "u8 \<Rightarrow> scan \<Rightarrow> (unit \<times> scan) result" where
  "add_hard_string c s = bind_result (hard_string c) (\<lambda>a. add_argument a s)"

function skip_while :: "(u8 \<Rightarrow> bool) \<Rightarrow> scan \<Rightarrow> (unit \<times> scan) result" where
  "skip_while P s =
     (if foo s < length (buf s) then
        if P (buf s ! foo s) then skip_while P (s\<lparr>foo := foo s + 1\<rparr>) else Ok ((), s)
      else Fault OutOfBounds)"
  by pat_completeness auto
termination by (relation "measure (\<lambda>(P, s). length (buf s) - foo s)") auto

declare skip_while.simps [simp del]

definition SkipSpaces :: "in_parser \<Rightarrow> scan \<Rightarrow> (unit \<times> scan) result" where
  "SkipSpaces p = skip_while (\<lambda>c. \<not> EOS p c \<and> IsWhiteSpace p c)"

lemma add_hard_string_measure:
  "add_hard_string c s = Ok ((), s') \<Longrightarrow> buf s' = buf s \<and> foo s' = foo s"
  by (auto simp: add_hard_string_def add_argument_def hard_string_def growArgs_def Let_def bind_result_eq_Inr split: if_splits)

function AddHard :: "in_parser \<Rightarrow> scan \<Rightarrow> (unit \<times> scan) result" where
  "AddHard p s =
     (if foo s < length (buf s) then
        if IsHard p (buf s ! foo s) then
          case add_hard_string (buf s ! foo s) s of
            Inl e \<Rightarrow> Inl e
          | Inr (_, s) \<Rightarrow> AddHard p (s\<lparr>foo := foo s + 1\<rparr>)
        else Ok ((), s)
      else Fault OutOfBounds)"
  by pat_completeness auto
termination
  by (relation "measure (\<lambda>(p, s). length (buf s) - foo s)") (auto dest: add_hard_string_measure)

declare AddHard.simps [simp del]

text \<open>The rest of an argument: up to a space or a separator, which becomes a zero, or to the end.\<close>

function argument_rest :: "in_parser \<Rightarrow> scan \<Rightarrow> (unit \<times> scan) result" where
  "argument_rest p s =
     (if foo s < length (buf s) then
        let c = buf s ! foo s
        in if EOS p c then Ok ((), s)
           else if IsWhiteSpace p c then bind_state (poke 0) (\<lambda>_. step_foo) s
           else if IsHard p c then bind_state (poke 0) (\<lambda>_. bind_state (add_hard_string c) (\<lambda>_. step_foo)) s
           else argument_rest p (s\<lparr>foo := foo s + 1\<rparr>)
      else Fault OutOfBounds)"
  by pat_completeness auto
termination by (relation "measure (\<lambda>(p, s). length (buf s) - foo s)") auto

declare argument_rest.simps [simp del]

text \<open>The two ways an argument is read: in quotes, or after separators.\<close>

definition quoted_argument :: "in_parser \<Rightarrow> scan \<Rightarrow> (unit \<times> scan) result" where
  "quoted_argument p =
     bind_state step_foo (\<lambda>_.
     bind_state (\<lambda>s. add_argument (At (foo s)) s) (\<lambda>_.
     bind_state (skip_while (\<lambda>c. \<not> EOS p c \<and> c \<noteq> mQuoteChar p)) (\<lambda>_.
     bind_state peek (\<lambda>c. if \<not> EOS p c then bind_state (poke 0) (\<lambda>_. step_foo) else return_state ()))))"

definition plain_argument :: "in_parser \<Rightarrow> scan \<Rightarrow> (unit \<times> scan) result" where
  "plain_argument p =
     bind_state (AddHard p) (\<lambda>_.
     bind_state peek (\<lambda>c.
       if IsNonSeparator p c then
         let quote = (c = mQuoteChar p)
         in bind_state (if quote then step_foo else return_state ()) (\<lambda>_.
            bind_state (\<lambda>s. add_argument (At (foo s)) s) (\<lambda>_.
            bind_state (if quote then
                bind_state (skip_while (\<lambda>c. c \<noteq> 0 \<and> c \<noteq> mQuoteChar p)) (\<lambda>_.
                bind_state peek (\<lambda>c. if c \<noteq> 0 then poke 32 else return_state ()))
              else return_state ()) (\<lambda>_. argument_rest p)))
       else return_state ()))"

text \<open>One round of the loop; the result says whether it ends there.\<close>

definition argument_round :: "in_parser \<Rightarrow> scan \<Rightarrow> (bool \<times> scan) result" where
  "argument_round p =
     bind_state (SkipSpaces p) (\<lambda>_.
     bind_state peek (\<lambda>c.
       if EOS p c then return_state True
       else bind_state (if c = mQuoteChar p then quoted_argument p else plain_argument p) (\<lambda>_. return_state False)))"

partial_function (option) argument_loop :: "in_parser \<Rightarrow> scan \<Rightarrow> scan result option" where
  "argument_loop p s =
     (case peek s of
        Inl e \<Rightarrow> Some (Inl e)
      | Inr (c, _) \<Rightarrow>
          if EOS p c then Some (Ok s)
          else case argument_round p s of
                 Inl e \<Rightarrow> Some (Inl e)
               | Inr (fin, s) \<Rightarrow> if fin then Some (Ok s) else argument_loop p s)"

definition GetArglist :: "in_parser \<Rightarrow> bytes \<Rightarrow> nat \<Rightarrow> scan result option" where
  "GetArglist p b line = argument_loop p \<lparr>buf = b, foo = line, argv = [], maxArgs = mMaxArgs p\<rparr>"

text \<open>
  The callback: a chance to take the raw line, and the arguments of a line. \<open>ProcessLine\<close> collects the arguments as
  \<open>GetArglist\<close> does, statement by statement.
\<close>

definition argument_text :: "bytes \<Rightarrow> argument \<Rightarrow> bytes" where
  "argument_text b a = (case a of At i \<Rightarrow> c_string (drop i b) | Hard c \<Rightarrow> c_string [c])"

record 'c callback =
  preParseLine :: "nat \<Rightarrow> bytes \<Rightarrow> 'c \<Rightarrow> bool \<times> 'c"
  ParseLine :: "nat \<Rightarrow> bytes list \<Rightarrow> 'c \<Rightarrow> u64 \<times> 'c"

definition ProcessLine ::
  "'c callback \<Rightarrow> nat \<Rightarrow> nat \<Rightarrow> in_parser \<times> bytes \<times> 'c \<Rightarrow> (u64 \<times> in_parser \<times> bytes \<times> 'c) result option" where
  "ProcessLine cb lineno line = (\<lambda>(p, b, c).
     case GetArglist p b line of
       None \<Rightarrow> None
     | Some (Inl e) \<Rightarrow> Some (Inl e)
     | Some (Inr s) \<Rightarrow>
         let (ret, c) = (if argv s \<noteq> [] then ParseLine cb lineno (map (argument_text (buf s)) (argv s)) c else (0, c))
         in Some (Ok (ret, p\<lparr>mMaxArgs := maxArgs s\<rparr>, buf s, c)))"

section \<open>All lines of a text\<close>

definition parse_line ::
  "'c callback \<Rightarrow> nat \<Rightarrow> nat \<Rightarrow> u64 \<Rightarrow> in_parser \<times> bytes \<times> 'c \<Rightarrow> (u64 \<times> in_parser \<times> bytes \<times> 'c) result option" where
  "parse_line cb lineno begin ret = (\<lambda>(p, b, c).
     let (snarfed, c) = preParseLine cb lineno (c_string (drop begin b)) c
     in if snarfed then Some (Ok (ret, p, b, c))
        else case ProcessLine cb lineno begin (p, b, c) of
               None \<Rightarrow> None
             | Some (Inl e) \<Rightarrow> Some (Inl e)
             | Some (Inr (v, st)) \<Rightarrow> Some (Ok (if v \<noteq> 0 then v else ret, st)))"

text \<open>The loop over the characters: \<open>pos\<close> and the beginning \<open>line\<close> of the current line.\<close>

partial_function (option) parse_loop ::
  "'c callback \<Rightarrow> nat \<Rightarrow> nat \<Rightarrow> nat \<Rightarrow> u64 \<Rightarrow> in_parser \<times> bytes \<times> 'c \<Rightarrow>
     (nat \<times> nat \<times> u64 \<times> in_parser \<times> bytes \<times> 'c) result option" where
  "parse_loop cb pos line lineno ret st =
     (case st of (p, b, c) \<Rightarrow>
        if pos < length b then
          if b ! pos = 0 then Some (Ok (line, lineno, ret, p, b, c))
          else if isLineFeed p (b ! pos) then
            let b = b[pos := 0]; lineno = lineno + 1
            in case (if b ! line \<noteq> 0 then parse_line cb lineno line ret (p, b, c) else Some (Ok (ret, p, b, c))) of
                 None \<Rightarrow> None
               | Some (Inl e) \<Rightarrow> Some (Inl e)
               | Some (Inr (ret, p, b, c)) \<Rightarrow>
                   if pos + 1 < length b then
                     let pos = (if b ! (pos + 1) = 10 then pos + 2 else pos + 1)
                     in parse_loop cb pos pos lineno ret (p, b, c)
                   else Some (Fault OutOfBounds)
          else parse_loop cb (pos + 1) line lineno ret (p, b, c)
        else Some (Fault OutOfBounds))"

definition Parse :: "'c callback \<Rightarrow> in_parser \<Rightarrow> 'c \<Rightarrow> (u64 \<times> in_parser \<times> 'c) result option" where
  "Parse cb p c =
     (if ip_mData p = Null then Some (Ok (0, p, c))
      else if ip_mData p \<in> set (freed p) then Some (Fault UseAfterFree)
      else case parse_loop cb 0 0 0 0 (p, ip_text p, c) of
             None \<Rightarrow> None
           | Some (Inl e) \<Rightarrow> Some (Inl e)
           | Some (Inr (line, lineno, ret, st)) \<Rightarrow>
               (case parse_line cb (lineno + 1) line ret st of
                  None \<Rightarrow> None
                | Some (Inl e) \<Rightarrow> Some (Inl e)
                | Some (Inr (ret, p, b, c)) \<Rightarrow> Some (Ok (ret, p\<lparr>ip_text := b\<rparr>, c))))"

definition Parse_string :: "'c callback \<Rightarrow> bytes \<Rightarrow> in_parser \<Rightarrow> 'c \<Rightarrow> (u64 \<times> in_parser \<times> 'c) result option" where
  "Parse_string cb str p c =
     (if length str \<noteq> 0 then
        case setParseData str p of
          Inl e \<Rightarrow> Some (Inl e)
        | Inr p \<Rightarrow> Parse cb p c
      else Some (Ok (0, p, c)))"

section \<open>The arguments that are meant\<close>

text \<open>The reference on lists of characters: spaces are skipped, quoted text and separators are arguments, and so are all other words.\<close>

definition data_char :: "in_parser \<Rightarrow> u8 \<Rightarrow> bool" where
  "data_char p c \<longleftrightarrow> \<not> IsWhiteSpace p c \<and> \<not> IsHard p c"

function tokens :: "in_parser \<Rightarrow> bytes \<Rightarrow> bytes list" where
  "tokens p [] = []"
| "tokens p (c # cs) =
     (if IsWhiteSpace p c then tokens p cs
      else if c = mQuoteChar p then
        (let w = takeWhile (\<lambda>c. c \<noteq> mQuoteChar p) cs in w # tokens p (drop (length w + 1) cs))
      else if IsHard p c then [c] # tokens p cs
      else (let w = c # takeWhile (data_char p) cs in w # tokens p (drop (length w) (c # cs))))"
  by pat_completeness auto
termination by (relation "measure (\<lambda>(p, s). length s)") auto

text \<open>The terminator ends a line, blanks are spaces, and the quote is an ordinary character; lines hold no character that ends them.\<close>

definition usual :: "in_parser \<Rightarrow> bool" where
  "usual p \<longleftrightarrow> EOS p 0 \<and> IsWhiteSpace p 32 \<and> \<not> EOS p (mQuoteChar p) \<and> data_char p (mQuoteChar p) \<and> 0 < mMaxArgs p"

definition line_ok :: "in_parser \<Rightarrow> bytes \<Rightarrow> bool" where
  "line_ok p s \<longleftrightarrow> (\<forall>c \<in> set s. \<not> EOS p c \<and> (IsHard p c \<longrightarrow> c < 128))"

lemma usual_zero: "usual p \<Longrightarrow> EOS p 0 \<and> \<not> IsWhiteSpace p 0 \<and> \<not> IsHard p 0 \<and> mQuoteChar p \<noteq> 0"
  by (auto simp: usual_def EOS_def IsWhiteSpace_def IsHard_def)

lemma line_ok_append [simp]: "line_ok p (a @ b) \<longleftrightarrow> line_ok p a \<and> line_ok p b"
  by (auto simp: line_ok_def)

lemma line_ok_no_zero: "usual p \<Longrightarrow> line_ok p s \<Longrightarrow> 0 \<notin> set s"
  by (auto simp: line_ok_def usual_def)

lemma white_not_hard: "IsWhiteSpace p c \<Longrightarrow> \<not> IsHard p c"
  by (simp add: IsWhiteSpace_def IsHard_def)

lemma tokens_white: "IsWhiteSpace p c \<Longrightarrow> tokens p (c # cs) = tokens p cs"
  by simp

lemma tokens_hard: "IsHard p c \<Longrightarrow> c \<noteq> mQuoteChar p \<Longrightarrow> tokens p (c # cs) = [c] # tokens p cs"
  by (simp add: IsHard_def IsWhiteSpace_def)

lemma tokens_word:
  assumes "data_char p c" "c \<noteq> mQuoteChar p"
  shows "tokens p (c # cs) = takeWhile (data_char p) (c # cs) # tokens p (dropWhile (data_char p) (c # cs))"
proof -
  have "drop (length (takeWhile (data_char p) cs)) cs = dropWhile (data_char p) cs"
    by (metis append_eq_conv_conj takeWhile_dropWhile_id)
  then show ?thesis using assms by (simp add: data_char_def Let_def)
qed

lemma tokens_quote:
  assumes "data_char p (mQuoteChar p)"
  shows "tokens p (mQuoteChar p # cs) =
    takeWhile (\<lambda>c. c \<noteq> mQuoteChar p) cs # tokens p (tl (dropWhile (\<lambda>c. c \<noteq> mQuoteChar p) cs))"
proof -
  have "drop (length (takeWhile (\<lambda>c. c \<noteq> mQuoteChar p) cs)) cs = dropWhile (\<lambda>c. c \<noteq> mQuoteChar p) cs"
    by (metis append_eq_conv_conj takeWhile_dropWhile_id)
  then have "drop (length (takeWhile (\<lambda>c. c \<noteq> mQuoteChar p) cs) + 1) cs = tl (dropWhile (\<lambda>c. c \<noteq> mQuoteChar p) cs)"
    by (simp add: drop_Suc) (metis tl_drop)
  then show ?thesis using assms by (simp add: data_char_def Let_def)
qed

declare tokens.simps(2) [simp del]

section \<open>Moving through a line\<close>

definition room :: "scan \<Rightarrow> bool" where
  "room S \<longleftrightarrow> length (argv S) \<le> maxArgs S \<and> 0 < maxArgs S"

text \<open>The state at the beginning of the text \<open>s\<close>, behind \<open>pre\<close>.\<close>

definition at :: "bytes \<Rightarrow> bytes \<Rightarrow> bytes \<Rightarrow> scan \<Rightarrow> bool" where
  "at pre s post S \<longleftrightarrow> buf S = pre @ s @ 0 # post \<and> foo S = length pre \<and> room S"

text \<open>
  From one state to another the text before \<open>b\<close> has become \<open>a\<close> and arguments were added. Their texts are \<open>ts\<close>, whatever the rest of
  the line becomes.
\<close>

definition moved :: "bytes \<Rightarrow> bytes \<Rightarrow> bytes \<Rightarrow> bytes \<Rightarrow> bytes list \<Rightarrow> scan \<Rightarrow> scan \<Rightarrow> bool" where
  "moved pre a b post ts S S' \<longleftrightarrow>
     at (pre @ a) b post S' \<and>
     (\<exists>B. argv S' = argv S @ B \<and> (\<forall>x. length x = length b \<longrightarrow> map (argument_text (pre @ a @ x @ 0 # post)) B = ts))"

lemma moved_at: "moved pre a b post ts S S' \<Longrightarrow> at (pre @ a) b post S'"
  by (simp add: moved_def)

lemma scan_moved_trans:
  assumes "moved pre a b post ts S S1" "moved (pre @ a) a' b' post ts' S1 S2" "length a' + length b' = length b"
  shows "moved pre (a @ a') b' post (ts @ ts') S S2"
proof -
  obtain B where B: "argv S1 = argv S @ B" "\<forall>x. length x = length b \<longrightarrow> map (argument_text (pre @ a @ x @ 0 # post)) B = ts"
    using assms(1) by (auto simp: moved_def)
  obtain B' where B': "argv S2 = argv S1 @ B'"
    "\<forall>x. length x = length b' \<longrightarrow> map (argument_text ((pre @ a) @ a' @ x @ 0 # post)) B' = ts'"
    using assms(2) by (auto simp: moved_def)
  have "map (argument_text (pre @ (a @ a') @ x @ 0 # post)) (B @ B') = ts @ ts'" if "length x = length b'" for x
    using B(2) [rule_format, of "a' @ x"] B'(2) [rule_format, of x] assms(3) that by simp
  then show ?thesis using B(1) B'(1) assms(2) by (simp add: moved_def)
qed

lemma c_string_stop: "0 \<notin> set w \<Longrightarrow> c_string (w @ 0 # x) = w"
  by (induction w) (auto simp: c_string_def)

lemma text_at: "0 \<notin> set w \<Longrightarrow> i = length pre \<Longrightarrow> argument_text (pre @ w @ 0 # x) (At i) = w"
  by (simp add: argument_text_def c_string_stop)

lemma text_hard: "usual p \<Longrightarrow> IsHard p c \<Longrightarrow> argument_text b (Hard c) = [c]"
  using usual_zero [of p] by (auto simp: argument_text_def c_string_def)

lemma add_argument_room:
  assumes "room S"
  obtains m where "add_argument a S = Ok ((), S\<lparr>argv := argv S @ [a], maxArgs := m\<rparr>)"
    "room (S\<lparr>argv := argv S @ [a], maxArgs := m\<rparr>)"
proof
  let ?m = "if length (argv S) \<ge> maxArgs S then maxArgs S * 2 else maxArgs S"
  show "add_argument a S = Ok ((), S\<lparr>argv := argv S @ [a], maxArgs := ?m\<rparr>)"
    "room (S\<lparr>argv := argv S @ [a], maxArgs := ?m\<rparr>)"
    using assms by (auto simp: add_argument_def growArgs_def room_def)
qed

lemma add_hard_room:
  assumes "room S" "c < 128"
  obtains m where "add_hard_string c S = Ok ((), S\<lparr>argv := argv S @ [Hard c], maxArgs := m\<rparr>)"
    "room (S\<lparr>argv := argv S @ [Hard c], maxArgs := m\<rparr>)"
  using add_argument_room [OF assms(1), of "Hard c"] assms(2) by (auto simp: add_hard_string_def hard_string_def)

lemma peek_at: "at pre s post S \<Longrightarrow> peek S = Ok (hd (s @ [0]), S)"
  by (cases s) (simp_all add: at_def peek_def nth_append)

lemma skip_while_run:
  assumes "\<forall>c \<in> set s. P c" "\<not> P c0"
  shows "buf S = pre @ s @ c0 # x \<Longrightarrow> foo S = length pre \<Longrightarrow> skip_while P S = Ok ((), S\<lparr>foo := length pre + length s\<rparr>)"
  using assms
proof (induction s arbitrary: pre S)
  case Nil
  then show ?case by (subst skip_while.simps) (simp add: nth_append)
next
  case (Cons c s)
  have "skip_while P (S\<lparr>foo := foo S + 1\<rparr>) = Ok ((), S\<lparr>foo := foo S + 1\<rparr>\<lparr>foo := length (pre @ [c]) + length s\<rparr>)"
    by (rule Cons.IH) (use Cons.prems in simp_all)
  then show ?case using Cons.prems by (subst skip_while.simps) (simp add: nth_append)
qed

text \<open>Skipping the characters that satisfy \<open>P\<close>.\<close>

lemma skip_moved:
  assumes "at pre s post S" "\<not> P 0" "u = takeWhile P s" "v = dropWhile P s"
  shows "skip_while P S = Ok ((), S\<lparr>foo := length pre + length u\<rparr>)" "moved pre u v post [] S (S\<lparr>foo := length pre + length u\<rparr>)"
proof -
  have s: "s = u @ v" using assms(3,4) by simp
  obtain c0 x where c0: "v @ 0 # post = c0 # x" "\<not> P c0"
  proof (cases v)
    case (Cons a l)
    then have "\<not> P a" using hd_dropWhile [of P s] assms(4) by (metis list.discI list.sel(1))
    then show ?thesis using that Cons by simp
  qed (use that assms(2) in simp)
  have "buf S = pre @ u @ c0 # x" "foo S = length pre" using assms(1) s c0(1) by (simp_all add: at_def)
  then show "skip_while P S = Ok ((), S\<lparr>foo := length pre + length u\<rparr>)"
    using assms(3) c0(2) by (intro skip_while_run) (auto dest: set_takeWhileD)
  show "moved pre u v post [] S (S\<lparr>foo := length pre + length u\<rparr>)"
    using assms(1) s by (simp add: moved_def at_def room_def)
qed

lemma poke_step:
  assumes "buf S = u @ c0 # x" "foo S = length u"
  shows "poke c S = Ok ((), S\<lparr>buf := u @ c # x\<rparr>)"
  using assms by (simp add: poke_def)

lemma peek_here: "buf S = u @ c0 # x \<Longrightarrow> foo S = length u \<Longrightarrow> peek S = Ok (c0, S)"
  by (simp add: peek_def)

lemma argument_rest_skip:
  assumes "\<forall>c \<in> set w. data_char p c \<and> \<not> EOS p c"
  shows "buf S = pre @ w @ x \<Longrightarrow> foo S = length pre \<Longrightarrow>
    argument_rest p S = argument_rest p (S\<lparr>foo := length pre + length w\<rparr>)"
  using assms
proof (induction w arbitrary: pre S)
  case (Cons c w)
  have "argument_rest p (S\<lparr>foo := foo S + 1\<rparr>) = argument_rest p (S\<lparr>foo := foo S + 1\<rparr>\<lparr>foo := length (pre @ [c]) + length w\<rparr>)"
    by (rule Cons.IH) (use Cons.prems in simp_all)
  moreover have "argument_rest p S = argument_rest p (S\<lparr>foo := foo S + 1\<rparr>)"
    using Cons.prems by (subst argument_rest.simps) (simp add: nth_append data_char_def Let_def)
  ultimately show ?case using Cons.prems by simp
next
  case Nil
  then show ?case by (cases S) simp
qed

text \<open>The end of an argument whose text \<open>w\<close> lies behind \<open>pre\<close>: the terminator, a space, or a separator.\<close>

lemma argument_rest_moved:
  assumes "usual p" "line_ok p (w @ v)" "buf S = pre @ w @ v @ 0 # post" "foo S = length pre + length w" "room S"
    and "argv S = A @ [At i]" "i = length pre" "v = [] \<or> \<not> data_char p (hd v)"
  obtains S' a b ts where "argument_rest p S = Ok ((), S')" "moved pre (w @ a) b post (w # ts) (S\<lparr>argv := A\<rparr>) S'"
    "length a + length b = length v" "tokens p v = ts @ tokens p b" "b = drop (length a) v"
    "v \<noteq> [] \<Longrightarrow> a \<noteq> []"
proof (cases v)
  case Nil
  have no0: "0 \<notin> set w" using assms(1,2) Nil line_ok_no_zero by simp
  have "argument_rest p S = Ok ((), S)" using assms(1,3,4) Nil usual_zero by (subst argument_rest.simps) (simp add: nth_append Let_def)
  moreover have "moved pre (w @ []) [] post [w] (S\<lparr>argv := A\<rparr>) S"
    using assms(3-7) Nil text_at [OF no0, of i pre post] by (auto simp: moved_def at_def)
  ultimately show ?thesis using Nil by (intro that [of S "[]" "[]" "[]"]) simp_all
next
  case (Cons c v')
  have no0: "0 \<notin> set w" and c: "\<not> EOS p c" "IsHard p c \<Longrightarrow> c < 128" using assms(1,2) Cons line_ok_no_zero by (auto simp: line_ok_def)
  have b: "buf S = (pre @ w) @ c # v' @ 0 # post" "foo S = length (pre @ w)" using assms(3,4) Cons by simp_all
  let ?S = "S\<lparr>buf := (pre @ w) @ 0 # v' @ 0 # post\<rparr>"
  have poke: "poke 0 S = Ok ((), ?S)" by (rule poke_step [OF b])
  have word: "argument_text (pre @ w @ 0 # x) (At i) = w" for x using text_at [OF no0] assms(7) by simp
  show ?thesis
  proof (cases "IsWhiteSpace p c")
    case True
    let ?S' = "?S\<lparr>foo := foo S + 1\<rparr>"
    have "argument_rest p S = Ok ((), ?S')"
      using True c b poke by (subst argument_rest.simps) (simp add: Let_def bind_state_def step_foo_def)
    moreover have "moved pre (w @ [0]) v' post [w] (S\<lparr>argv := A\<rparr>) ?S'"
      using b assms(5,6) word by (simp add: moved_def at_def room_def)
    moreover have "tokens p v = [] @ tokens p v'" using True Cons by (simp add: tokens_white)
    ultimately show ?thesis using Cons by (intro that [of ?S' "[0]" v' "[]"]) simp_all
  next
    case False
    then have hard: "IsHard p c" using assms(8) Cons by (simp add: data_char_def)
    then have q: "c \<noteq> mQuoteChar p" using assms(1) by (auto simp: usual_def data_char_def)
    have "room ?S" using assms(5) by (simp add: room_def)
    from add_hard_room [OF this c(2) [OF hard]] obtain m where m: "add_hard_string c ?S = Ok ((), ?S\<lparr>argv := argv S @ [Hard c], maxArgs := m\<rparr>)"
      "room (?S\<lparr>argv := argv S @ [Hard c], maxArgs := m\<rparr>)" by auto
    let ?S' = "?S\<lparr>argv := argv S @ [Hard c], maxArgs := m, foo := foo S + 1\<rparr>"
    have "argument_rest p S = Ok ((), ?S')"
      using False hard c b poke m by (subst argument_rest.simps) (simp add: Let_def bind_state_def step_foo_def)
    moreover have "moved pre (w @ [0]) v' post [w, [c]] (S\<lparr>argv := A\<rparr>) ?S'"
      using b assms(6) word m(2) text_hard [OF assms(1) hard] by (simp add: moved_def at_def room_def)
    moreover have "tokens p v = [[c]] @ tokens p v'" using hard q Cons by (simp add: tokens_hard)
    ultimately show ?thesis using Cons by (intro that [of ?S' "[0]" v' "[[c]]"]) simp_all
  qed
qed

text \<open>A word.\<close>

lemma word_moved:
  assumes "usual p" "line_ok p s" "at pre s post S" "w = takeWhile (data_char p) s" "v = dropWhile (data_char p) s"
  obtains S' a b ts where "bind_state (\<lambda>s. add_argument (At (foo s)) s) (\<lambda>_. argument_rest p) S = Ok ((), S')"
    "moved pre (w @ a) b post (w # ts) S S'" "length a + length b = length v" "tokens p v = ts @ tokens p b" "b = drop (length a) v"
proof -
  have s: "s = w @ v" using assms(4,5) by simp
  have st: "buf S = pre @ w @ v @ 0 # post" "foo S = length pre" "room S" using assms(3) s by (simp_all add: at_def)
  obtain m where m: "add_argument (At (foo S)) S = Ok ((), S\<lparr>argv := argv S @ [At (foo S)], maxArgs := m\<rparr>)"
    "room (S\<lparr>argv := argv S @ [At (foo S)], maxArgs := m\<rparr>)" using add_argument_room [OF st(3)] .
  let ?S = "S\<lparr>argv := argv S @ [At (foo S)], maxArgs := m\<rparr>"
  have data: "\<forall>c \<in> set w. data_char p c \<and> \<not> EOS p c"
    using assms(2) unfolding assms(4) line_ok_def by (blast dest: set_takeWhileD)
  have ok: "line_ok p (w @ v)" using assms(2) s by simp
  have run: "argument_rest p ?S = argument_rest p (?S\<lparr>foo := length pre + length w\<rparr>)"
    by (rule argument_rest_skip [OF data]) (use st in simp_all)
  have ends: "v = [] \<or> \<not> data_char p (hd v)" using hd_dropWhile [of "data_char p" s] assms(5) by blast
  obtain S' a b ts where r: "argument_rest p (?S\<lparr>foo := length pre + length w\<rparr>) = Ok ((), S')"
    "moved pre (w @ a) b post (w # ts) (?S\<lparr>foo := length pre + length w\<rparr>\<lparr>argv := argv S\<rparr>) S'"
    "length a + length b = length v" "tokens p v = ts @ tokens p b" "b = drop (length a) v"
    by (rule argument_rest_moved [OF assms(1) ok, of "?S\<lparr>foo := length pre + length w\<rparr>" pre post "argv S" "foo S"])
      (use st m(2) ends in \<open>simp_all add: room_def\<close>)
  have "moved pre (w @ a) b post (w # ts) S S'" using r(2) by (simp add: moved_def)
  then show ?thesis using that r(1,3,4,5) m(1) run by (simp add: bind_state_def)
qed

section \<open>One round\<close>

text \<open>A step that reads a part \<open>a\<close> of the text \<open>s\<close>, of at least \<open>k\<close> characters, and adds its arguments.\<close>

definition eaten :: "in_parser \<Rightarrow> bytes \<Rightarrow> bytes \<Rightarrow> bytes \<Rightarrow> nat \<Rightarrow> scan \<Rightarrow> scan \<Rightarrow> bool" where
  "eaten p pre s post k S S' \<longleftrightarrow>
     (\<exists>a b ts. moved pre a b post ts S S' \<and> length a + length b = length s \<and> b = drop (length a) s \<and> k \<le> length a \<and>
        tokens p s = ts @ tokens p b)"

lemma eatenI:
  "moved pre a b post ts S S' \<Longrightarrow> length a + length b = length s \<Longrightarrow> b = drop (length a) s \<Longrightarrow> k \<le> length a \<Longrightarrow>
     tokens p s = ts @ tokens p b \<Longrightarrow> eaten p pre s post k S S'"
  unfolding eaten_def by blast

lemma moved_eaten:
  assumes "moved pre a b post ts S S1" "length a + length b = length s" "b = drop (length a) s" "tokens p s = ts @ tokens p b"
    and "eaten p (pre @ a) b post k S1 S'"
  shows "eaten p pre s post (length a + k) S S'"
proof -
  obtain a' b' ts' where e: "moved (pre @ a) a' b' post ts' S1 S'" "length a' + length b' = length b" "b' = drop (length a') b"
    "k \<le> length a'" "tokens p b = ts' @ tokens p b'"
    using assms(5) by (auto simp: eaten_def)
  show ?thesis
    by (rule eatenI [OF scan_moved_trans [OF assms(1) e(1,2)]]) (use assms(2-4) e in \<open>simp_all add: add.commute\<close>)
qed

lemma add_at_moved:
  assumes "usual p" "at pre (q # cs) post S" "line_ok p cs"
    and "\<And>c. c \<in> set cs \<Longrightarrow> P c \<longleftrightarrow> c \<noteq> q" "\<not> P 0" "w = takeWhile (\<lambda>c. c \<noteq> q) cs" "v = dropWhile (\<lambda>c. c \<noteq> q) cs"
  obtains S1 where "bind_state step_foo (\<lambda>_. bind_state (\<lambda>s. add_argument (At (foo s)) s) (\<lambda>_. skip_while P)) S = Ok ((), S1)"
    "buf S1 = (pre @ [q]) @ w @ v @ 0 # post" "foo S1 = length (pre @ [q]) + length w" "room S1"
    "argv S1 = argv S @ [At (length (pre @ [q]))]" "0 \<notin> set w"
proof -
  let ?S = "S\<lparr>foo := foo S + 1\<rparr>"
  have st: "buf S = pre @ (q # cs) @ 0 # post" "foo S = length pre" "room ?S" using assms(2) by (simp_all add: at_def room_def)
  obtain m where m: "add_argument (At (foo ?S)) ?S = Ok ((), ?S\<lparr>argv := argv ?S @ [At (foo ?S)], maxArgs := m\<rparr>)"
    "room (?S\<lparr>argv := argv ?S @ [At (foo ?S)], maxArgs := m\<rparr>)" using add_argument_room [OF st(3)] .
  let ?S2 = "?S\<lparr>argv := argv ?S @ [At (foo ?S)], maxArgs := m\<rparr>"
  have at2: "at (pre @ [q]) cs post ?S2" using st m(2) by (simp add: at_def)
  have "takeWhile P cs = w" "dropWhile P cs = v"
    using assms(4,6,7) by (auto intro!: takeWhile_cong dropWhile_cong)
  then have sk: "skip_while P ?S2 = Ok ((), ?S2\<lparr>foo := length (pre @ [q]) + length w\<rparr>)"
    using skip_moved(1) [OF at2, of P "takeWhile P cs" "dropWhile P cs"] assms(5) by simp
  have "cs = w @ v" using assms(6,7) by simp
  moreover from this have "0 \<notin> set w" using line_ok_no_zero [OF assms(1,3)] by simp
  ultimately show ?thesis
    using st m sk by (intro that [of "?S2\<lparr>foo := length (pre @ [q]) + length w\<rparr>"]) (simp_all add: bind_state_def step_foo_def room_def)
qed

lemma bind_return: "bind_state (return_state x) f = f x"
  by (rule ext) (simp add: bind_state_def return_state_def)

lemma bind_three:
  "bind_state k (\<lambda>_. bind_state l (\<lambda>_. bind_state m r)) S = bind_state (bind_state k (\<lambda>_. bind_state l (\<lambda>_. m))) r S"
proof (cases "k S")
  case (Inr x)
  obtain a S1 where x: "x = (a, S1)" by (cases x)
  show ?thesis
  proof (cases "l S1")
    case (Inr y)
    then show ?thesis using \<open>k S = Inr x\<close> x by (cases y) (simp add: bind_state_def)
  qed (use Inr x in \<open>simp add: bind_state_def\<close>)
qed (simp add: bind_state_def)

lemma bind_two: "bind_state (bind_state k (\<lambda>_. l)) (\<lambda>_. r) = bind_state k (\<lambda>_. bind_state l (\<lambda>_. r))"
proof
  fix S
  show "bind_state (bind_state k (\<lambda>_. l)) (\<lambda>_. r) S = bind_state k (\<lambda>_. bind_state l (\<lambda>_. r)) S"
  proof (cases "k S")
    case (Inr x)
    then show ?thesis by (cases x) (simp add: bind_state_def)
  qed (simp add: bind_state_def)
qed

text \<open>A quoted argument at the beginning of a round, and one behind separators.\<close>

lemma quoted_eaten:
  assumes "usual p" "at pre (mQuoteChar p # cs) post S" "line_ok p cs"
  obtains S' where "quoted_argument p S = Ok ((), S')" "eaten p pre (mQuoteChar p # cs) post 1 S S'"
proof -
  let ?q = "mQuoteChar p"
  define w where "w = takeWhile (\<lambda>c. c \<noteq> ?q) cs"
  define v where "v = dropWhile (\<lambda>c. c \<noteq> ?q) cs"
  have cs: "cs = w @ v" by (simp add: w_def v_def)
  obtain S1 where S1: "bind_state step_foo (\<lambda>_. bind_state (\<lambda>s. add_argument (At (foo s)) s)
      (\<lambda>_. skip_while (\<lambda>c. \<not> EOS p c \<and> c \<noteq> ?q))) S = Ok ((), S1)"
    "buf S1 = (pre @ [?q]) @ w @ v @ 0 # post" "foo S1 = length (pre @ [?q]) + length w" "room S1"
    "argv S1 = argv S @ [At (length (pre @ [?q]))]" "0 \<notin> set w"
    by (rule add_at_moved [OF assms, of "\<lambda>c. \<not> EOS p c \<and> c \<noteq> ?q" w v]) (use assms(1,3) in \<open>auto simp: line_ok_def usual_def w_def v_def\<close>)
  have run: "quoted_argument p S = bind_state peek (\<lambda>c. if \<not> EOS p c then bind_state (poke 0) (\<lambda>_. step_foo) else return_state ()) S1"
    unfolding quoted_argument_def bind_three by (rule bind_state_Ok, rule S1(1))
  have tok: "tokens p (?q # cs) = w # tokens p (tl v)" using tokens_quote [of p cs] assms(1) by (simp add: w_def v_def usual_def)
  have word: "argument_text ((pre @ [?q]) @ w @ 0 # x) (At (length (pre @ [?q]))) = w" for x by (rule text_at [OF S1(6) refl])
  show ?thesis
  proof (cases v)
    case Nil
    have "quoted_argument p S = Ok ((), S1)"
      using S1(2,3) Nil usual_zero [OF assms(1)] unfolding run by (simp add: bind_state_def peek_def nth_append return_state_def)
    moreover have "moved pre (?q # w) [] post [w] S S1" using S1 Nil word by (simp add: moved_def at_def)
    then have "eaten p pre (?q # cs) post 1 S S1" by (rule eatenI) (use Nil cs tok in simp_all)
    ultimately show ?thesis by (rule that)
  next
    case (Cons c v')
    have c: "c = ?q" using Cons hd_dropWhile [of "\<lambda>c. c \<noteq> ?q" cs] by (metis list.discI list.sel(1) v_def)
    let ?S = "S1\<lparr>buf := ((pre @ [?q]) @ w) @ 0 # v' @ 0 # post\<rparr>"
    have b: "buf S1 = ((pre @ [?q]) @ w) @ c # v' @ 0 # post" "foo S1 = length ((pre @ [?q]) @ w)" using S1(2,3) Cons by simp_all
    have "peek S1 = Ok (c, S1)" by (rule peek_here [OF b])
    then have "quoted_argument p S = Ok ((), ?S\<lparr>foo := foo S1 + 1\<rparr>)"
      using poke_step [OF b] c assms(1) unfolding run by (simp add: bind_state_def step_foo_def usual_def)
    moreover have "moved pre (?q # w @ [0]) v' post [w] S (?S\<lparr>foo := foo S1 + 1\<rparr>)"
      using S1(4,5) b word by (simp add: moved_def at_def room_def)
    then have "eaten p pre (?q # cs) post 1 S (?S\<lparr>foo := foo S1 + 1\<rparr>)" by (rule eatenI) (use Cons cs tok in simp_all)
    ultimately show ?thesis by (rule that)
  qed
qed

lemma inner_quote_eaten:
  assumes "usual p" "at pre (mQuoteChar p # cs) post S" "line_ok p cs"
  obtains S' where "bind_state step_foo (\<lambda>_. bind_state (\<lambda>s. add_argument (At (foo s)) s) (\<lambda>_.
      bind_state (bind_state (skip_while (\<lambda>c. c \<noteq> 0 \<and> c \<noteq> mQuoteChar p)) (\<lambda>_.
        bind_state peek (\<lambda>c. if c \<noteq> 0 then poke 32 else return_state ()))) (\<lambda>_. argument_rest p))) S = Ok ((), S')"
    "eaten p pre (mQuoteChar p # cs) post 1 S S'"
proof -
  let ?q = "mQuoteChar p"
  define w where "w = takeWhile (\<lambda>c. c \<noteq> ?q) cs"
  define v where "v = dropWhile (\<lambda>c. c \<noteq> ?q) cs"
  have cs: "cs = w @ v" by (simp add: w_def v_def)
  have no0: "0 \<notin> set cs" by (rule line_ok_no_zero [OF assms(1,3)])
  obtain S1 where S1: "bind_state step_foo (\<lambda>_. bind_state (\<lambda>s. add_argument (At (foo s)) s)
      (\<lambda>_. skip_while (\<lambda>c. c \<noteq> 0 \<and> c \<noteq> ?q))) S = Ok ((), S1)"
    "buf S1 = (pre @ [?q]) @ w @ v @ 0 # post" "foo S1 = length (pre @ [?q]) + length w" "room S1"
    "argv S1 = argv S @ [At (length (pre @ [?q]))]" "0 \<notin> set w"
    by (rule add_at_moved [OF assms, of "\<lambda>c. c \<noteq> 0 \<and> c \<noteq> ?q" w v]) (use no0 in \<open>auto simp: w_def v_def\<close>)
  let ?r = "bind_state (bind_state peek (\<lambda>c. if c \<noteq> 0 then poke 32 else return_state ())) (\<lambda>_. argument_rest p)"
  have run: "bind_state step_foo (\<lambda>_. bind_state (\<lambda>s. add_argument (At (foo s)) s) (\<lambda>_.
      bind_state (bind_state (skip_while (\<lambda>c. c \<noteq> 0 \<and> c \<noteq> mQuoteChar p)) (\<lambda>_.
        bind_state peek (\<lambda>c. if c \<noteq> 0 then poke 32 else return_state ()))) (\<lambda>_. argument_rest p))) S = ?r S1"
    unfolding bind_two by (subst bind_three) (rule bind_state_Ok, rule S1(1))
  have tok: "tokens p (?q # cs) = w # tokens p (tl v)" using tokens_quote [of p cs] assms(1) by (simp add: w_def v_def usual_def)
  have okw: "line_ok p w" "line_ok p v" using assms(3) cs by simp_all
  define v1 where "v1 = (if v = [] then [] else 32 # tl v)"
  have b: "buf S1 = ((pre @ [?q]) @ w) @ v @ 0 # post" "foo S1 = length ((pre @ [?q]) @ w)" using S1(2,3) by simp_all
  let ?S2 = "S1\<lparr>buf := ((pre @ [?q]) @ w) @ v1 @ 0 # post\<rparr>"
  have r: "?r S1 = argument_rest p ?S2"
  proof (cases v)
    case Nil
    then have "peek S1 = Ok (0, S1)" using peek_here [of S1 "(pre @ [?q]) @ w" 0 post] b by simp
    moreover have "?S2 = S1" using b Nil by (simp add: v1_def)
    ultimately show ?thesis by (simp add: bind_state_def return_state_def)
  next
    case (Cons c v')
    have b': "buf S1 = ((pre @ [?q]) @ w) @ c # v' @ 0 # post" using b Cons by simp
    have "c \<noteq> 0" using no0 cs Cons by auto
    moreover have "peek S1 = Ok (c, S1)" by (rule peek_here [OF b' b(2)])
    moreover have "poke 32 S1 = Ok ((), ?S2)" using poke_step [OF b' b(2), of 32] Cons by (simp add: v1_def)
    ultimately show ?thesis by (simp add: bind_state_def)
  qed
  have "\<not> EOS p 32 \<and> \<not> IsHard p 32" using assms(1) by (simp add: usual_def EOS_def IsWhiteSpace_def IsHard_def)
  then have v1: "line_ok p v1" "v1 = [] \<or> \<not> data_char p (hd v1)" "length v1 = length v"
    using okw(2) assms(1) by (cases v; auto simp: v1_def line_ok_def data_char_def usual_def)+
  obtain S' a e ts where R: "argument_rest p ?S2 = Ok ((), S')"
    "moved (pre @ [?q]) (w @ a) e post (w # ts) (?S2\<lparr>argv := argv S\<rparr>) S'" "length a + length e = length v1"
    "tokens p v1 = ts @ tokens p e" "e = drop (length a) v1" "v1 \<noteq> [] \<Longrightarrow> a \<noteq> []"
    by (rule argument_rest_moved [OF assms(1), of w v1 ?S2 "pre @ [?q]" post "argv S" "length (pre @ [?q])"])
      (use S1(3-5) okw v1 in \<open>simp_all add: room_def\<close>)
  have "moved pre (?q # w @ a) e post (w # ts) S S'" using R(2) by (simp add: moved_def)
  moreover have "e = drop (length a) v"
  proof (cases v)
    case (Cons c v')
    then obtain n where "length a = Suc n" using R(6) by (cases a) (simp_all add: v1_def)
    then show ?thesis using R(5) Cons by (simp add: v1_def)
  qed (use R(5) in \<open>simp add: v1_def\<close>)
  moreover have "tokens p (tl v) = ts @ tokens p e" using R(4) assms(1) by (cases v) (simp_all add: v1_def usual_def tokens_white)
  ultimately have "eaten p pre (?q # cs) post 1 S S'" using R(3) v1(3) cs tok
    by (intro eatenI [of pre "?q # w @ a" e post "w # ts" S S']) simp_all
  then show ?thesis using that run r R(1) by simp
qed

lemma AddHard_moved:
  assumes "usual p"
  shows "at pre s post S \<Longrightarrow> line_ok p s \<Longrightarrow>
    \<exists>S'. AddHard p S = Ok ((), S') \<and>
      moved pre (takeWhile (IsHard p) s) (dropWhile (IsHard p) s) post (map (\<lambda>c. [c]) (takeWhile (IsHard p) s)) S S' \<and>
      tokens p s = map (\<lambda>c. [c]) (takeWhile (IsHard p) s) @ tokens p (dropWhile (IsHard p) s)"
proof (induction s arbitrary: pre S)
  case Nil
  have "AddHard p S = Ok ((), S)"
    using Nil.prems(1) usual_zero [OF assms] by (subst AddHard.simps) (simp add: at_def nth_append)
  moreover have "moved pre [] [] post [] S S" using Nil.prems(1) by (simp add: moved_def)
  ultimately show ?case by simp
next
  case (Cons c s)
  have st: "buf S = pre @ c # s @ 0 # post" "foo S = length pre" "room S" using Cons.prems(1) by (simp_all add: at_def)
  show ?case
  proof (cases "IsHard p c")
    case False
    then have "AddHard p S = Ok ((), S)" using st by (subst AddHard.simps) (simp add: nth_append)
    moreover have "moved pre [] (c # s) post [] S S" using Cons.prems(1) by (simp add: moved_def)
    ultimately show ?thesis using False by simp
  next
    case True
    have c: "c < 128" "c \<noteq> mQuoteChar p" "\<not> IsWhiteSpace p c"
      using Cons.prems(2) True assms white_not_hard by (auto simp: line_ok_def usual_def data_char_def)
    obtain m where m: "add_hard_string c S = Ok ((), S\<lparr>argv := argv S @ [Hard c], maxArgs := m\<rparr>)"
      "room (S\<lparr>argv := argv S @ [Hard c], maxArgs := m\<rparr>)" using add_hard_room [OF st(3) c(1)] .
    let ?S = "S\<lparr>argv := argv S @ [Hard c], maxArgs := m, foo := foo S + 1\<rparr>"
    have mv: "moved pre [c] s post [[c]] S ?S" using st m(2) text_hard [OF assms True] by (simp add: moved_def at_def room_def)
    have "line_ok p s" using Cons.prems(2) by (simp add: line_ok_def)
    from Cons.IH [OF moved_at [OF mv] this] obtain S' where S': "AddHard p ?S = Ok ((), S')"
      "moved (pre @ [c]) (takeWhile (IsHard p) s) (dropWhile (IsHard p) s) post (map (\<lambda>c. [c]) (takeWhile (IsHard p) s)) ?S S'"
      "tokens p s = map (\<lambda>c. [c]) (takeWhile (IsHard p) s) @ tokens p (dropWhile (IsHard p) s)" by blast
    have "length (takeWhile (IsHard p) s) + length (dropWhile (IsHard p) s) = length s"
      by (metis length_append takeWhile_dropWhile_id)
    from scan_moved_trans [OF mv S'(2) this]
    have "moved pre (c # takeWhile (IsHard p) s) (dropWhile (IsHard p) s) post ([c] # map (\<lambda>c. [c]) (takeWhile (IsHard p) s)) S S'"
      by simp
    moreover have "AddHard p S = AddHard p ?S" using st m(1) True by (subst AddHard.simps) (simp add: nth_append)
    ultimately show ?thesis using True c S'(1,3) by (simp add: tokens_hard)
  qed
qed

lemma word_eaten:
  assumes "usual p" "line_ok p s" "at pre s post S" "s \<noteq> []" "data_char p (hd s)" "hd s \<noteq> mQuoteChar p"
  obtains S' where "bind_state (\<lambda>s. add_argument (At (foo s)) s) (\<lambda>_. argument_rest p) S = Ok ((), S')" "eaten p pre s post 1 S S'"
proof -
  define w where "w = takeWhile (data_char p) s"
  define v where "v = dropWhile (data_char p) s"
  have s: "s = w @ v" by (simp add: w_def v_def)
  obtain S' a b ts where r: "bind_state (\<lambda>s. add_argument (At (foo s)) s) (\<lambda>_. argument_rest p) S = Ok ((), S')"
    "moved pre (w @ a) b post (w # ts) S S'" "length a + length b = length v" "tokens p v = ts @ tokens p b" "b = drop (length a) v"
    by (rule word_moved [OF assms(1-3) w_def v_def])
  obtain c cs where c: "s = c # cs" using assms(4) by (cases s) auto
  have w: "w \<noteq> []" using assms(5) c by (simp add: w_def)
  have tok: "tokens p s = w # tokens p v" using tokens_word [of p c cs] assms(5,6) c by (simp add: w_def v_def)
  have len: "length s = length w + length v" "drop (length w + n) s = drop n v" for n
    using arg_cong [OF s, of length] arg_cong [OF s, of "drop (length w + n)"] by simp_all
  have "eaten p pre s post 1 S S'"
    by (rule eatenI [OF r(2)]) (use r(3,4,5) w tok len in \<open>simp_all add: Suc_le_eq\<close>)
  then show ?thesis using that r(1) by blast
qed

lemma eaten_weaken: "eaten p pre s post k S S' \<Longrightarrow> l \<le> k \<Longrightarrow> eaten p pre s post l S S'"
  unfolding eaten_def by (meson le_trans)

lemma nonseparator: "usual p \<Longrightarrow> IsNonSeparator p c \<longleftrightarrow> data_char p c \<and> c \<noteq> 0"
  by (auto simp: IsNonSeparator_def data_char_def)

lemma plain_eaten:
  assumes "usual p" "line_ok p s" "at pre s post S" "s \<noteq> []" "hd s \<noteq> mQuoteChar p" "\<not> IsWhiteSpace p (hd s)"
  obtains S' where "plain_argument p S = Ok ((), S')" "eaten p pre s post 1 S S'"
proof -
  define hs where "hs = takeWhile (IsHard p) s"
  define v where "v = dropWhile (IsHard p) s"
  have s: "s = hs @ v" by (simp add: hs_def v_def)
  obtain S1 where S1: "AddHard p S = Ok ((), S1)" "moved pre hs v post (map (\<lambda>c. [c]) hs) S S1"
    "tokens p s = map (\<lambda>c. [c]) hs @ tokens p v"
    using AddHard_moved [OF assms(1,3,2)] unfolding hs_def v_def by blast
  have okv: "line_ok p v" using assms(2) s by simp
  have pk: "peek S1 = Ok (hd (v @ [0]), S1)" by (rule peek_at [OF moved_at [OF S1(2)]])
  have at1: "at (pre @ hs) v post S1" by (rule moved_at [OF S1(2)])
  have len: "length hs + length v = length s" "v = drop (length hs) s"
    using arg_cong [OF s, of length] arg_cong [OF s, of "drop (length hs)"] by simp_all
  have step: "eaten p pre s post (length hs + k) S S'" if "eaten p (pre @ hs) v post k S1 S'" for k S'
    by (rule moved_eaten [OF S1(2) len S1(3) that])
  have no0: "0 \<notin> set v" by (rule line_ok_no_zero [OF assms(1) okv])
  show ?thesis
  proof (cases "v \<noteq> [] \<and> data_char p (hd v)")
    case False
    then have "\<not> IsNonSeparator p (hd (v @ [0]))" using no0 nonseparator [OF assms(1)] by (cases v) auto
    then have "plain_argument p S = Ok ((), S1)" using S1(1) pk by (simp add: plain_argument_def bind_state_def return_state_def)
    moreover have "hs \<noteq> []"
    proof
      assume "hs = []"
      then have "s = v" using s by simp
      then have "\<not> IsHard p (hd s)" using assms(4) hd_dropWhile [of "IsHard p" s] v_def by metis
      then show False using False assms(4,6) \<open>s = v\<close> by (simp add: data_char_def)
    qed
    moreover have "eaten p (pre @ hs) v post 0 S1 S1" by (rule eatenI [of _ "[]" v _ "[]"]) (use at1 in \<open>simp_all add: moved_def\<close>)
    ultimately have "eaten p pre s post 1 S S1" using eaten_weaken [OF step [of 0 S1], of 1] by (cases hs) simp_all
    then show ?thesis using that \<open>plain_argument p S = Ok ((), S1)\<close> by blast
  next
    case True
    then obtain c v' where v: "v = c # v'" by (cases v) auto
    have ns: "IsNonSeparator p c" using True v no0 nonseparator [OF assms(1)] by simp
    show ?thesis
    proof (cases "c = mQuoteChar p")
      case q: True
      obtain S' where S': "bind_state step_foo (\<lambda>_. bind_state (\<lambda>s. add_argument (At (foo s)) s) (\<lambda>_.
          bind_state (bind_state (skip_while (\<lambda>c. c \<noteq> 0 \<and> c \<noteq> mQuoteChar p)) (\<lambda>_.
            bind_state peek (\<lambda>c. if c \<noteq> 0 then poke 32 else return_state ()))) (\<lambda>_. argument_rest p))) S1 = Ok ((), S')"
        "eaten p (pre @ hs) (mQuoteChar p # v') post 1 S1 S'"
        by (rule inner_quote_eaten [OF assms(1), of "pre @ hs" v' post S1]) (use at1 okv v q in \<open>auto simp: line_ok_def\<close>)
      have "plain_argument p S = Ok ((), S')"
        using S1(1) pk v q ns S'(1) by (simp add: plain_argument_def bind_state_Ok [where m = "AddHard p"] bind_state_Ok [where m = peek])
      moreover have "eaten p pre s post 1 S S'" using step [of 1 S'] S'(2) v q by (auto intro: eaten_weaken)
      ultimately show ?thesis by (rule that)
    next
      case q: False
      obtain S' where S': "bind_state (\<lambda>s. add_argument (At (foo s)) s) (\<lambda>_. argument_rest p) S1 = Ok ((), S')"
        "eaten p (pre @ hs) v post 1 S1 S'"
        by (rule word_eaten [OF assms(1) okv at1]) (use True v q in simp_all)
      have "plain_argument p S = Ok ((), S')"
        using S1(1) pk v q ns S'(1)
        by (simp add: plain_argument_def bind_state_Ok [where m = "AddHard p"] bind_state_Ok [where m = peek]
            bind_return)
      moreover have "eaten p pre s post 1 S S'" using step [OF S'(2)] by (rule eaten_weaken) simp
      ultimately show ?thesis by (rule that)
    qed
  qed
qed

lemma round_eaten:
  assumes "usual p" "line_ok p s" "at pre s post S" "s \<noteq> []"
  obtains fin S' where "argument_round p S = Ok (fin, S')" "eaten p pre s post 1 S S'" "fin \<Longrightarrow> eaten p pre s post (length s) S S'"
proof -
  let ?P = "\<lambda>c. \<not> EOS p c \<and> IsWhiteSpace p c"
  define sp where "sp = takeWhile ?P s"
  define v where "v = dropWhile ?P s"
  have s: "s = sp @ v" by (simp add: sp_def v_def)
  have len: "length sp + length v = length s" "v = drop (length sp) s"
    using arg_cong [OF s, of length] arg_cong [OF s, of "drop (length sp)"] by simp_all
  have okv: "line_ok p v" using assms(2) s by simp
  let ?S = "S\<lparr>foo := length pre + length sp\<rparr>"
  have P0: "\<not> ?P 0" using assms(1) by (simp add: usual_def)
  note skip = skip_moved [OF assms(3) P0 sp_def v_def]
  have sps: "SkipSpaces p S = Ok ((), ?S)" unfolding SkipSpaces_def by (rule skip(1))
  have at1: "at (pre @ sp) v post ?S" by (rule moved_at [OF skip(2)])
  have pk: "peek ?S = Ok (hd (v @ [0]), ?S)" by (rule peek_at [OF at1])
  have tok: "tokens p s = [] @ tokens p v"
  proof -
    have "\<forall>c \<in> set sp. IsWhiteSpace p c" unfolding sp_def by (blast dest: set_takeWhileD)
    then have "tokens p (sp @ v) = tokens p v" by (induction sp) (simp_all add: tokens_white)
    then show ?thesis using s by simp
  qed
  note more = moved_eaten [OF skip(2) len tok]
  show ?thesis
  proof (cases v)
    case Nil
    have e: "eaten p pre s post (length s) S ?S" by (rule eatenI [OF skip(2) len _ tok]) (use len Nil in simp)
    have "argument_round p S = Ok (True, ?S)"
      using sps pk Nil assms(1) by (simp add: argument_round_def bind_state_def return_state_def usual_def)
    moreover have "eaten p pre s post 1 S ?S" using e by (rule eaten_weaken) (use assms(4) in \<open>simp add: Suc_le_eq\<close>)
    ultimately show ?thesis using that [of True] e by blast
  next
    case (Cons c v')
    have c: "\<not> EOS p c" using okv Cons by (simp add: line_ok_def)
    have nw: "\<not> IsWhiteSpace p c" using hd_dropWhile [of ?P s] Cons v_def c by (metis (no_types, lifting) list.discI list.sel(1))
    obtain S' where S': "(if c = mQuoteChar p then quoted_argument p else plain_argument p) ?S = Ok ((), S')"
      "eaten p (pre @ sp) v post 1 ?S S'"
    proof (cases "c = mQuoteChar p")
      case True
      have "at (pre @ sp) (mQuoteChar p # v') post ?S" "line_ok p v'" using at1 okv Cons True by (simp_all add: line_ok_def)
      from quoted_eaten [OF assms(1) this] show ?thesis using that True Cons by auto
    next
      case False
      have "v \<noteq> []" "hd v \<noteq> mQuoteChar p" "\<not> IsWhiteSpace p (hd v)" using Cons False nw by simp_all
      from plain_eaten [OF assms(1) okv at1 this] show ?thesis using that False by auto
    qed
    have "argument_round p S = Ok (False, S')"
      using sps pk Cons c S'(1) by (simp add: argument_round_def bind_state_def return_state_def)
    moreover have "eaten p pre s post 1 S S'" using more [OF S'(2)] by (rule eaten_weaken) simp
    ultimately show ?thesis by (intro that [of False S']) simp_all
  qed
qed

section \<open>The whole line\<close>

lemma argument_loop_eaten:
  assumes "usual p"
  shows "line_ok p s \<Longrightarrow> at pre s post S \<Longrightarrow> \<exists>S'. argument_loop p S = Some (Ok S') \<and> eaten p pre s post (length s) S S'"
proof (induction "length s" arbitrary: s pre S rule: less_induct)
  case less
  have pk: "peek S = Ok (hd (s @ [0]), S)" by (rule peek_at [OF less.prems(2)])
  show ?case
  proof (cases "s = []")
    case True
    have "argument_loop p S = Some (Ok S)" using pk True assms by (subst argument_loop.simps) (simp add: usual_def)
    moreover have "eaten p pre s post (length s) S S"
      by (rule eatenI [of _ "[]" s _ "[]"]) (use less.prems(2) True in \<open>simp_all add: moved_def\<close>)
    ultimately show ?thesis by blast
  next
    case False
    obtain fin S1 where r: "argument_round p S = Ok (fin, S1)" "eaten p pre s post 1 S S1" "fin \<Longrightarrow> eaten p pre s post (length s) S S1"
      by (rule round_eaten [OF assms less.prems False]) blast
    have "\<not> EOS p (hd (s @ [0]))" using less.prems(1) False by (simp add: line_ok_def)
    then have loop: "argument_loop p S = (if fin then Some (Ok S1) else argument_loop p S1)"
      using pk r(1) by (subst argument_loop.simps) simp
    show ?thesis
    proof (cases fin)
      case True
      then show ?thesis using loop r(3) by auto
    next
      case nf: False
      obtain a b ts where e: "moved pre a b post ts S S1" "length a + length b = length s" "b = drop (length a) s"
        "1 \<le> length a" "tokens p s = ts @ tokens p b" using r(2) by (auto simp: eaten_def)
      have "length b < length s" using e(2,4) by linarith
      moreover have "line_ok p b" using less.prems(1) unfolding e(3) by (auto simp: line_ok_def dest: in_set_dropD)
      ultimately obtain S' where S': "argument_loop p S1 = Some (Ok S')" "eaten p (pre @ a) b post (length b) S1 S'"
        using less.hyps [of b "pre @ a" S1] moved_at [OF e(1)] by blast
      have "eaten p pre s post (length a + length b) S S'" by (rule moved_eaten [OF e(1-3,5) S'(2)])
      then show ?thesis using loop nf S'(1) e(2) by auto
    qed
  qed
qed

lemma arguments_of_line:
  assumes "usual p" "line_ok p s"
  obtains S s' where "GetArglist p (pre @ s @ 0 # post) (length pre) = Some (Ok S)" "buf S = pre @ s' @ 0 # post"
    "length s' = length s" "map (argument_text (buf S)) (argv S) = tokens p s" "0 < maxArgs S"
proof -
  let ?S = "\<lparr>buf = pre @ s @ 0 # post, foo = length pre, argv = [], maxArgs = mMaxArgs p\<rparr>"
  have "at pre s post ?S" using assms(1) by (simp add: at_def room_def usual_def)
  from argument_loop_eaten [OF assms this] obtain S where S: "argument_loop p ?S = Some (Ok S)" "eaten p pre s post (length s) ?S S"
    by blast
  obtain a b ts where e: "moved pre a b post ts ?S S" "length a + length b = length s" "length s \<le> length a" "tokens p s = ts @ tokens p b"
    using S(2) by (auto simp: eaten_def)
  from e(2,3) have "length b = 0" by linarith
  then have b: "b = []" by simp
  have "buf S = pre @ a @ 0 # post" "map (argument_text (pre @ a @ 0 # post)) (argv S) = ts" "0 < maxArgs S"
    using e(1) b by (auto simp: moved_def at_def room_def)
  then show ?thesis using that [of S a] S(1) e b by (simp add: GetArglist_def)
qed

section \<open>The whole text\<close>

text \<open>
  How the parser cuts a text, on lists: at line feeds, where a newline behind any of them is skipped. Every line but the last is left
  out when it is empty; the others go to the callback with their number and their arguments. (The reference is \<open>split_lines\<close> below.)
\<close>

function text_lines :: "in_parser \<Rightarrow> bytes \<Rightarrow> bytes list" where
  "text_lines p t =
     (case dropWhile (\<lambda>c. \<not> isLineFeed p c) t of
        [] \<Rightarrow> [t]
      | _ # r \<Rightarrow> takeWhile (\<lambda>c. \<not> isLineFeed p c) t # text_lines p (if r \<noteq> [] \<and> hd r = 10 then tl r else r))"
  by pat_completeness auto
termination
proof (relation "measure (\<lambda>(p, t). length t)")
  fix p and t :: bytes and c r
  assume "dropWhile (\<lambda>c. \<not> isLineFeed p c) t = c # r"
  then have "length (c # r) \<le> length t" using length_dropWhile_le [of "\<lambda>c. \<not> isLineFeed p c" t] by simp
  then show "((p, if r \<noteq> [] \<and> hd r = 10 then tl r else r), p, t) \<in> measure (\<lambda>(p, t). length t)"
    by (cases r) auto
qed simp

declare text_lines.simps [simp del]

definition line_meaning :: "in_parser \<Rightarrow> 'c callback \<Rightarrow> nat \<Rightarrow> bytes \<Rightarrow> u64 \<times> 'c \<Rightarrow> u64 \<times> 'c" where
  "line_meaning p cb lineno l = (\<lambda>(ret, c).
     let (snarfed, c) = preParseLine cb lineno l c
     in if snarfed \<or> tokens p l = [] then (ret, c)
        else let (v, c) = ParseLine cb lineno (tokens p l) c in (if v \<noteq> 0 then v else ret, c))"

fun text_meaning :: "in_parser \<Rightarrow> 'c callback \<Rightarrow> nat \<Rightarrow> bytes list \<Rightarrow> u64 \<times> 'c \<Rightarrow> u64 \<times> 'c" where
  "text_meaning p cb lineno [] rc = rc"
| "text_meaning p cb lineno [l] rc = line_meaning p cb (lineno + 1) l rc"
| "text_meaning p cb lineno (l # ls) rc =
     text_meaning p cb (lineno + 1) ls (if l = [] then rc else line_meaning p cb (lineno + 1) l rc)"

text \<open>Parsers that differ in the room for arguments only.\<close>

definition same_parser :: "in_parser \<Rightarrow> in_parser \<Rightarrow> bool" where
  "same_parser p p' \<longleftrightarrow> (\<exists>m > 0. p' = p\<lparr>mMaxArgs := m\<rparr>)"

lemma same_parser_chars:
  assumes "same_parser p p'"
  shows "EOS p' = EOS p" "IsHard p' = IsHard p" "IsWhiteSpace p' = IsWhiteSpace p" "isLineFeed p' = isLineFeed p"
    "data_char p' = data_char p" "mQuoteChar p' = mQuoteChar p" "line_ok p' s = line_ok p s"
  using assms by (auto simp: same_parser_def EOS_def IsHard_def IsWhiteSpace_def isLineFeed_def data_char_def line_ok_def fun_eq_iff)

lemma same_parser_usual: "same_parser p p' \<Longrightarrow> usual p \<Longrightarrow> usual p'"
  unfolding usual_def by (simp add: same_parser_chars) (auto simp: same_parser_def)

lemma same_parser_trans: "same_parser p p' \<Longrightarrow> same_parser p' p'' \<Longrightarrow> same_parser p p''"
  by (auto simp: same_parser_def)

lemma same_parser_tokens: "same_parser p p' \<Longrightarrow> tokens p' s = tokens p s"
proof (induction p s rule: tokens.induct)
  case (2 p c cs)
  note eq = same_parser_chars [OF 2(5)]
  show ?case
    unfolding tokens.simps(2) eq using 2 by (auto simp: Let_def simp del: One_nat_def)
qed simp

lemma parse_line_meaning:
  assumes "usual p0" "same_parser p0 p" "line_ok p0 s"
  obtains ret' p' s' c' where "parse_line cb n (length pre) ret (p, pre @ s @ 0 # post, c) = Some (Ok (ret', p', pre @ s' @ 0 # post, c'))"
    "line_meaning p0 cb n s (ret, c) = (ret', c')" "same_parser p0 p'" "length s' = length s"
proof -
  obtain snarfed c1 where pr: "preParseLine cb n s c = (snarfed, c1)" by (cases "preParseLine cb n s c")
  have line: "c_string (drop (length pre) (pre @ s @ 0 # post)) = s"
    using c_string_stop [OF line_ok_no_zero [OF assms(1,3)]] by simp
  show ?thesis
  proof (cases snarfed)
    case True
    then show ?thesis using pr line assms(2) by (intro that [of ret p s c1]) (simp_all add: parse_line_def line_meaning_def)
  next
    case False
    have "usual p" "line_ok p s" using same_parser_usual [OF assms(2,1)] same_parser_chars [OF assms(2)] assms(3) by simp_all
    then obtain S s' where S: "GetArglist p (pre @ s @ 0 # post) (length pre) = Some (Ok S)" "buf S = pre @ s' @ 0 # post"
      "length s' = length s" "map (argument_text (buf S)) (argv S) = tokens p s" "0 < maxArgs S"
      by (rule arguments_of_line)
    have tok: "map (argument_text (buf S)) (argv S) = tokens p0 s" using S(4) same_parser_tokens [OF assms(2)] by simp
    have same: "same_parser p0 (p\<lparr>mMaxArgs := maxArgs S\<rparr>)" using assms(2) S(5) by (auto simp: same_parser_def)
    show ?thesis
    proof (cases "tokens p0 s = []")
      case True
      then have "argv S = []" using tok by simp
      then show ?thesis
        using pr line False True S(1-3) same by (intro that [of ret "p\<lparr>mMaxArgs := maxArgs S\<rparr>" s' c1])
          (simp_all add: parse_line_def line_meaning_def ProcessLine_def)
    next
      case ne: False
      then have "argv S \<noteq> []" using tok by auto
      moreover obtain v c2 where "ParseLine cb n (tokens p0 s) c1 = (v, c2)" by (cases "ParseLine cb n (tokens p0 s) c1")
      ultimately show ?thesis
        using pr line False ne S(1-3) same tok by (intro that [of "if v \<noteq> 0 then v else ret" "p\<lparr>mMaxArgs := maxArgs S\<rparr>" s' c2])
          (simp_all add: parse_line_def line_meaning_def ProcessLine_def)
    qed
  qed
qed

lemma parse_loop_skip:
  assumes "\<forall>c \<in> set u. c \<noteq> 0 \<and> \<not> isLineFeed p c"
  shows "b = d @ u @ x \<Longrightarrow> parse_loop cb (length d) line n ret (p, b, c) = parse_loop cb (length d + length u) line n ret (p, b, c)"
  using assms
proof (induction u arbitrary: d)
  case (Cons a u)
  have "parse_loop cb (length d) line n ret (p, b, c) = parse_loop cb (length d + 1) line n ret (p, b, c)"
    using Cons.prems by (subst parse_loop.simps) (simp add: nth_append)
  also have "\<dots> = parse_loop cb (length (d @ [a]) + length u) line n ret (p, b, c)"
    using Cons.IH [of "d @ [a]"] Cons.prems by simp
  finally show ?case by simp
qed simp

lemma parse_loop_feed:
  assumes "pos < length b" "b ! pos \<noteq> 0" "isLineFeed p (b ! pos)"
    and "(if b[pos := 0] ! line \<noteq> 0 then parse_line cb (n + 1) line ret (p, b[pos := 0], c)
      else Some (Ok (ret, p, b[pos := 0], c))) = Some (Ok (ret1, p1, b1, c1))"
    and "pos + 1 < length b1" "(if b1 ! (pos + 1) = 10 then pos + 2 else pos + 1) = pos1"
  shows "parse_loop cb pos line n ret (p, b, c) = parse_loop cb pos1 pos1 (n + 1) ret1 (p1, b1, c1)"
  by (subst parse_loop.simps) (simp only: assms Let_def prod.case if_True if_False option.case sum.case)

lemma text_lines_nonempty: "text_lines p t \<noteq> []"
  by (subst text_lines.simps) (simp split: list.split)

lemma text_meaning_more:
  "ls \<noteq> [] \<Longrightarrow> text_meaning p cb n (l # ls) rc =
     text_meaning p cb (n + 1) ls (if l = [] then rc else line_meaning p cb (n + 1) l rc)"
  by (cases ls) simp_all

lemma parse_loop_meaning:
  assumes "usual p0"
  shows "line_ok p0 t \<Longrightarrow> same_parser p0 p \<Longrightarrow>
    \<exists>n' ret' p' c' d' l. parse_loop cb (length d) (length d) n ret (p, d @ t @ 0 # post, c) =
        Some (Ok (length d', n', ret', p', d' @ l @ 0 # post, c')) \<and>
      line_ok p0 l \<and> same_parser p0 p' \<and>
      text_meaning p0 cb n (text_lines p0 t) (ret, c) = line_meaning p0 cb (n' + 1) l (ret', c')"
proof (induction "length t" arbitrary: t d n ret p c rule: less_induct)
  case less
  define l where "l = takeWhile (\<lambda>c. \<not> isLineFeed p0 c) t"
  define v where "v = dropWhile (\<lambda>c. \<not> isLineFeed p0 c) t"
  have t: "t = l @ v" by (simp add: l_def v_def)
  have okl: "line_ok p0 l" and okv: "line_ok p0 v" using less.prems(1) t by simp_all
  note lf = same_parser_chars(4) [OF less.prems(2)]
  have "\<forall>c \<in> set l. c \<noteq> 0 \<and> \<not> isLineFeed p c"
    using line_ok_no_zero [OF assms okl] unfolding lf by (auto simp: l_def dest: set_takeWhileD)
  then have skip: "parse_loop cb (length d) (length d) n ret (p, d @ t @ 0 # post, c) =
      parse_loop cb (length d + length l) (length d) n ret (p, d @ t @ 0 # post, c)"
    by (rule parse_loop_skip [where x = "v @ 0 # post"]) (simp add: t)
  show ?case
  proof (cases v)
    case Nil
    have "parse_loop cb (length d + length l) (length d) n ret (p, d @ t @ 0 # post, c) =
        Some (Ok (length d, n, ret, p, d @ l @ 0 # post, c))"
      using Nil by (subst parse_loop.simps) (simp add: t nth_append)
    moreover have "text_lines p0 t = [l]"
    proof -
      have "dropWhile (\<lambda>c. \<not> isLineFeed p0 c) t = []" unfolding v_def [symmetric] by (rule Nil)
      moreover have "t = l" using t unfolding Nil by (simp only: append_Nil2)
      ultimately show ?thesis by (subst text_lines.simps) (simp only: list.case)
    qed
    ultimately show ?thesis using skip okl less.prems(2) by auto
  next
    case (Cons f r)
    let ?r = "if r \<noteq> [] \<and> hd r = 10 then tl r else r"
    let ?e = "if r \<noteq> [] \<and> hd r = 10 then [0, 10] else [0 :: u8]"
    have f: "isLineFeed p0 f" using Cons hd_dropWhile [of "\<lambda>c. \<not> isLineFeed p0 c" t] v_def
      by (metis (no_types, lifting) list.discI list.sel(1))
    then have f0: "f \<noteq> 0" using assms by (auto simp: isLineFeed_def usual_def EOS_def)
    have lines: "text_lines p0 t = l # text_lines p0 ?r" using Cons by (subst text_lines.simps) (simp add: v_def l_def)
    have okr: "line_ok p0 ?r" using okv Cons by (cases r) (auto simp: line_ok_def)
    have buf1: "d @ t @ 0 # post = d @ l @ f # r @ 0 # post" by (simp add: t Cons)
    have first: "(d @ l @ 0 # r @ 0 # post) ! length d \<noteq> 0 \<longleftrightarrow> l \<noteq> []"
      using line_ok_no_zero [OF assms okl] by (cases l) (auto simp: nth_append)
    obtain ret1 p1 l1 c1 where one: "(if (d @ l @ 0 # r @ 0 # post) ! length d \<noteq> 0
        then parse_line cb (n + 1) (length d) ret (p, d @ l @ 0 # r @ 0 # post, c) else Some (Ok (ret, p, d @ l @ 0 # r @ 0 # post, c))) =
        Some (Ok (ret1, p1, d @ l1 @ 0 # r @ 0 # post, c1))"
      "(if l = [] then (ret, c) else line_meaning p0 cb (n + 1) l (ret, c)) = (ret1, c1)" "same_parser p0 p1" "length l1 = length l"
    proof (cases "l = []")
      case True
      then show ?thesis using first less.prems(2) by (intro that [of ret p l c]) simp_all
    next
      case False
      obtain ret1 p1 l1 c1 where "parse_line cb (n + 1) (length d) ret (p, d @ l @ 0 # r @ 0 # post, c) =
          Some (Ok (ret1, p1, d @ l1 @ 0 # r @ 0 # post, c1))"
        "line_meaning p0 cb (n + 1) l (ret, c) = (ret1, c1)" "same_parser p0 p1" "length l1 = length l"
        by (rule parse_line_meaning [OF assms less.prems(2) okl])
      then show ?thesis using first False by (intro that [of ret1 p1 l1 c1]) simp_all
    qed
    let ?d = "d @ l1 @ ?e"
    have next_char: "(d @ l1 @ 0 # r @ 0 # post) ! (length d + length l + 1) = hd (r @ [0])"
      using one(4) by (cases r) (simp_all add: nth_append)
    have buf2: "d @ l1 @ 0 # r @ 0 # post = ?d @ ?r @ 0 # post" by (cases r) simp_all
    have pos: "(if (d @ l1 @ 0 # r @ 0 # post) ! (length d + length l + 1) = 10 then length d + length l + 2 else length d + length l + 1) = length ?d"
      unfolding next_char using one(4) by (cases r) simp_all
    have "parse_loop cb (length d + length l) (length d) n ret (p, d @ t @ 0 # post, c) =
        parse_loop cb (length ?d) (length ?d) (n + 1) ret1 (p1, ?d @ ?r @ 0 # post, c1)"
    proof -
      let ?b = "d @ l @ f # r @ 0 # post"
      have upd: "?b[length d + length l := 0] = d @ l @ 0 # r @ 0 # post" by (simp add: list_update_append)
      have here: "?b ! (length d + length l) = f" by (simp add: nth_append)
      have "parse_loop cb (length d + length l) (length d) n ret (p, ?b, c) =
          parse_loop cb (length ?d) (length ?d) (n + 1) ret1 (p1, d @ l1 @ 0 # r @ 0 # post, c1)"
        by (rule parse_loop_feed) (use f f0 one(1,4) pos in \<open>simp_all only: here upd lf, simp_all\<close>)
      then show ?thesis unfolding buf1 buf2 .
    qed
    moreover have "length ?r < length t" using Cons t by (cases r) auto
    note less.hyps [OF this okr one(3), of ?d "n + 1" ret1 c1]
    ultimately show ?thesis
      unfolding skip lines text_meaning_more [OF text_lines_nonempty] one(2) by simp
  qed
qed

lemma Parse_meaning:
  assumes "usual p" "ip_mData p \<noteq> Null" "ip_mData p \<notin> set (freed p)" "ip_text p = t @ 0 # post" "line_ok p t"
  shows "\<exists>ret p' c' b m. Parse cb p c = Some (Ok (ret, p', c')) \<and> text_meaning p cb 0 (text_lines p t) (0, c) = (ret, c') \<and>
    p' = p\<lparr>mMaxArgs := m, ip_text := b\<rparr>"
proof -
  have same: "same_parser p p"
    using assms(1) unfolding same_parser_def usual_def by (intro exI [of _ "mMaxArgs p"]) simp
  obtain n' ret1 p1 c1 d' l where loop: "parse_loop cb (length ([] :: bytes)) (length ([] :: bytes)) 0 0 (p, [] @ t @ 0 # post, c) =
      Some (Ok (length d', n', ret1, p1, d' @ l @ 0 # post, c1))" "line_ok p l" "same_parser p p1"
    "text_meaning p cb 0 (text_lines p t) (0, c) = line_meaning p cb (n' + 1) l (ret1, c1)"
    using parse_loop_meaning [OF assms(1,5) same, of cb "[]" 0 0 post c] by blast
  obtain ret' p' l' c' where last_line: "parse_line cb (n' + 1) (length d') ret1 (p1, d' @ l @ 0 # post, c1) = Some (Ok (ret', p', d' @ l' @ 0 # post, c'))"
    "line_meaning p cb (n' + 1) l (ret1, c1) = (ret', c')" "same_parser p p'" "length l' = length l"
    by (rule parse_line_meaning [OF assms(1) loop(3,2)])
  obtain m where "p' = p\<lparr>mMaxArgs := m\<rparr>" using last_line(3) by (auto simp: same_parser_def)
  then show ?thesis
    using loop(1,4) last_line(1,2) assms(2-4) by (simp add: Parse_def) blast
qed

section \<open>Lines\<close>

text \<open>
  What lines are, whatever the parser does: a text is split into lines with their terminators; a carriage return and a newline that
  follow each other are one terminator, and every other line feed is one.
\<close>

function split_lines :: "in_parser \<Rightarrow> bytes \<Rightarrow> (bytes \<times> bytes) list" where
  "split_lines p t =
     (let l = takeWhile (\<lambda>c. \<not> isLineFeed p c) t
      in case dropWhile (\<lambda>c. \<not> isLineFeed p c) t of
           [] \<Rightarrow> [(t, [])]
         | f # r \<Rightarrow>
             if f = 13 \<and> r \<noteq> [] \<and> hd r = 10 then (l, [13, 10]) # split_lines p (tl r)
             else (l, [f]) # split_lines p r)"
  by pat_completeness auto
termination
proof (relation "measure (\<lambda>(p, t). length t)")
  fix p t x f r
  assume d: "dropWhile (\<lambda>c. \<not> isLineFeed p c) t = f # r"
  have "length (dropWhile (\<lambda>c. \<not> isLineFeed p c) t) \<le> length t" by (rule length_dropWhile_le)
  then have "length r < length t" using d by simp
  then show "((p, tl r), p, t) \<in> measure (\<lambda>(p, t). length t)" "((p, r), p, t) \<in> measure (\<lambda>(p, t). length t)" by simp_all
qed simp

declare split_lines.simps [simp del]

lemma split_lines_none: "\<forall>c \<in> set t. \<not> isLineFeed p c \<Longrightarrow> split_lines p t = [(t, [])]"
  by (subst split_lines.simps) (simp add: Let_def dropWhile_eq_Nil_conv [THEN iffD2])

lemma split_lines_feed:
  assumes "\<forall>c \<in> set l. \<not> isLineFeed p c" "isLineFeed p f"
  shows "split_lines p (l @ f # r) =
    (if f = 13 \<and> r \<noteq> [] \<and> hd r = 10 then (l, [13, 10]) # split_lines p (tl r) else (l, [f]) # split_lines p r)"
  using assms by (subst split_lines.simps) (simp add: Let_def)



lemma first_line:
  obtains "\<forall>c \<in> set t. \<not> isLineFeed p c"
  | l f r where "t = l @ f # r" "\<forall>c \<in> set l. \<not> isLineFeed p c" "isLineFeed p f"
  using split_list_first_prop_iff [of t "isLineFeed p"] by blast

lemma split_lines_join: "concat (map (\<lambda>(l, e). l @ e) (split_lines p t)) = t"
proof (induction "length t" arbitrary: t rule: less_induct)
  case less
  show ?case
  proof (cases t p rule: first_line)
    case 1
    then show ?thesis by (simp add: split_lines_none)
  next
    case (2 l f r)
    then show ?thesis using less [of r] less [of "tl r"] by (cases r) (auto simp: split_lines_feed)
  qed
qed

lemma split_lines_parts:
  "(l, e) \<in> set (split_lines p t) \<Longrightarrow> (\<forall>c \<in> set l. \<not> isLineFeed p c) \<and> (e = [] \<or> e = [13, 10] \<or> (\<exists>f. isLineFeed p f \<and> e = [f]))"
proof (induction "length t" arbitrary: t rule: less_induct)
  case less
  show ?case
  proof (cases t p rule: first_line)
    case 1
    then show ?thesis using less.prems by (simp add: split_lines_none)
  next
    case (2 k f r)
    then show ?thesis using less.prems less.hyps [of r] less.hyps [of "tl r"] by (cases r) (auto simp: split_lines_feed split: if_splits)
  qed
qed









section \<open>Who frees what\<close>

text \<open>The buffer is alive, and so is the data, which is not the buffer when the parser owns it.\<close>

definition sound :: "in_parser \<Rightarrow> bool" where
  "sound p \<longleftrightarrow> mStringBuffer p \<notin> set (freed p) \<and> ip_mData p \<notin> set (freed p) \<and> Null \<notin> set (freed p) \<and>
     (mMyAlloc p \<longrightarrow> ip_mData p \<noteq> mStringBuffer p) \<and>
     (\<forall>i. Own i \<in> insert (mStringBuffer p) (insert (ip_mData p) (set (freed p))) \<longrightarrow> i < mallocs p)"

lemmas memory_defs = malloc_block_def free_block_def free_data_def grow_string_def bind_result_def

lemma sound_Init: "sound Init"
  by (simp add: sound_def Init_def)

lemma sound_SetFile: "sound p \<Longrightarrow> \<exists>p'. SetFile content p = Ok p' \<and> sound p'"
  by (auto simp: SetFile_def sound_def memory_defs Let_def split: option.splits)

lemma sound_setParseData: "sound p \<Longrightarrow> \<not> mMyAlloc p \<Longrightarrow> \<exists>p'. setParseData data p = Ok p' \<and> sound p' \<and> \<not> mMyAlloc p'"
  by (auto simp: setParseData_def sound_def memory_defs Let_def)

lemma sound_destroy: "sound p \<Longrightarrow> \<exists>p'. destroy p = Ok p'"
  by (auto simp: destroy_def sound_def memory_defs)

section \<open>Properties\<close>

text \<open>
  Arguments of a line. For every line without characters that end it, \<open>GetArglist\<close> returns, without an access outside of the
  buffer, and the arguments it points to are those of the reference, in order; the bytes before the line and from its terminator on are
  as they were. This holds for every choice of separators in which blanks are spaces and the quote is not a separator.
\<close>

theorem GetArglist_tokens:
  assumes "usual p" "line_ok p s"
  shows "\<exists>S s'. GetArglist p (pre @ s @ 0 # post) (length pre) = Some (Ok S) \<and> buf S = pre @ s' @ 0 # post \<and>
    length s' = length s \<and> map (argument_text (buf S)) (argv S) = tokens p s"
  using arguments_of_line [OF assms, of pre post] by metis

lemma usual_symbols: "usual (DefaultSymbols False Init)"
  by (simp add: usual_def DefaultSymbols_def SetHard_def Init_def EOS_def IsWhiteSpace_def IsHard_def data_char_def)

definition sample_line :: bytes where
  "sample_line = map of_char ''x = (''@ [34] @ map of_char ''a b'' @ [34] @ map of_char '') y''"

theorem GetArglist_tokens_witness:
  "\<exists>S. GetArglist (DefaultSymbols False Init) (sample_line @ [0]) 0 = Some (Ok S) \<and>
     map (argument_text (buf S)) (argv S) = map (map of_char) [''x'', ''='', ''('', ''a b'', '')'', ''y'']"
proof -
  have "line_ok (DefaultSymbols False Init) sample_line" by code_simp
  moreover have "tokens (DefaultSymbols False Init) sample_line = map (map of_char) [''x'', ''='', ''('', ''a b'', '')'', ''y'']"
    by code_simp
  ultimately show ?thesis using GetArglist_tokens [OF usual_symbols, of sample_line "[]" "[]"] by auto
qed


definition collect :: "(nat \<times> bytes list) list callback" where
  "collect = \<lparr>preParseLine = (\<lambda>n l c. (False, c)), ParseLine = (\<lambda>n args c. (of_nat n, c @ [(n, args)]))\<rparr>"



text \<open>
  C19: a parser that has loaded a file that is not empty and then parses a string keeps \<open>mMyAlloc\<close> for its string buffer. The string is
  parsed, but destroying the parser frees the buffer twice. Parsing another string frees it twice when the buffer is too small, and
  otherwise frees it and then copies the string into it; loading another file, or none, succeeds and frees the buffer, so that destroying
  the parser afterwards frees it again. Giving the parser data of the caller's makes it safe to destroy. (The string holds no character that
  ends a line early, so that it is parsed without a fault.)
\<close>

theorem Parse_string_frees_twice:
  assumes "file \<noteq> []" "str \<noteq> []" "line_ok Init str"
  shows "\<exists>p ret p' c'. SetFile (Some (length file, Some file)) Init = Ok p \<and> Parse_string cb str p c = Some (Ok (ret, p', c')) \<and>
    destroy p' = Fault DoubleFree \<and>
    (\<forall>data. setParseData data p' = Fault (if length data + 1 > mStringLen p' then DoubleFree else UseAfterFree)) \<and>
    (\<forall>content. \<exists>p''. SetFile content p' = Ok p'' \<and> destroy p'' = Fault DoubleFree) \<and>
    (\<forall>q data n. \<exists>p''. destroy (SetSourceData q data n p') = Ok p'')"
proof -
  let ?p = "Init\<lparr>ip_mData := Own 1, ip_text := file @ [0], mLen := length file, mMyAlloc := True, mallocs := 2\<rparr>"
  have p: "SetFile (Some (length file, Some file)) Init = Ok ?p"
    using assms(1) by (simp add: SetFile_def memory_defs Let_def Init_def)
  obtain q where q: "setParseData str ?p = Ok q" "mMyAlloc q" "mHard q = mHard Init" "mQuoteChar q = mQuoteChar Init"
    "mMaxArgs q = mMaxArgs Init" "ip_mData q = mStringBuffer q" "ip_text q = str @ 0 # []" "mStringBuffer q \<notin> set (freed q)"
    "\<exists>i < mallocs q. mStringBuffer q = Own i" "\<forall>i. Own i \<in> set (freed q) \<longrightarrow> i < mallocs q"
    by (rule that [of "case setParseData str ?p of Inr q \<Rightarrow> q"]) (auto simp: setParseData_def memory_defs Let_def Init_def)
  have "usual q" using q(3-5) by (simp add: usual_def EOS_def IsWhiteSpace_def IsHard_def data_char_def Init_def)
  moreover have "line_ok q str" using assms(3) q(3) by (simp add: line_ok_def EOS_def IsHard_def)
  moreover have "ip_mData q \<noteq> Null" "ip_mData q \<notin> set (freed q)" using q(6,8,9) by auto
  ultimately obtain ret p' c' b m where parsed: "Parse cb q c = Some (Ok (ret, p', c'))" "p' = q\<lparr>mMaxArgs := m, ip_text := b\<rparr>"
    using Parse_meaning [OF _ _ _ q(7), of cb c] by blast
  have owner: "mMyAlloc p'" "ip_mData p' = mStringBuffer p'" "mStringBuffer p' \<notin> set (freed p')" "mStringBuffer p' \<noteq> Null"
    "\<exists>i < mallocs p'. mStringBuffer p' = Own i" "Own (mallocs p') \<notin> set (freed p')"
    using parsed(2) q(2,6,8-10) by auto
  have "destroy p' = Fault DoubleFree" using owner by (simp add: destroy_def memory_defs)
  moreover have "setParseData data p' = Fault (if length data + 1 > mStringLen p' then DoubleFree else UseAfterFree)" for data
    using owner by (simp add: setParseData_def memory_defs Let_def)
  moreover have "\<exists>p''. SetFile content p' = Ok p'' \<and> destroy p'' = Fault DoubleFree" for content
  proof -
    have "\<exists>p''. SetFile content p' = Ok p'' \<and> mStringBuffer p'' = mStringBuffer p' \<and> mStringBuffer p' \<in> set (freed p'')"
      using owner by (cases content) (auto simp: SetFile_def memory_defs Let_def split: option.split)
    then obtain p'' where "SetFile content p' = Ok p''" "mStringBuffer p'' = mStringBuffer p'" "mStringBuffer p'' \<in> set (freed p'')"
      by auto
    moreover from this have "destroy p'' = Fault DoubleFree" using owner(4) by (simp add: destroy_def free_block_def bind_result_def)
    ultimately show ?thesis by blast
  qed
  moreover have "\<exists>p''. destroy (SetSourceData k data n p') = Ok p''" for k data n
    using owner by (simp add: SetSourceData_def destroy_def memory_defs)
  moreover have "Parse_string cb str ?p c = Some (Ok (ret, p', c'))"
    using assms(2) q(1) parsed(1) by (simp add: Parse_string_def)
  ultimately show ?thesis using p by blast
qed

theorem Parse_string_frees_twice_witness:
  "\<exists>p ret p' c'. SetFile (Some (3, Some [97, 98, 99])) Init = Ok p \<and> Parse_string collect [97, 32, 98] p [] = Some (Ok (ret, p', c')) \<and>
    destroy p' = Fault DoubleFree \<and> (\<forall>data. setParseData data p' = Fault (if length data + 1 > mStringLen p' then DoubleFree else UseAfterFree))"
proof -
  have "line_ok Init [97, 32, 98]" by code_simp
  then show ?thesis using Parse_string_frees_twice [of "[97, 98, 99]" "[97, 32, 98]" collect "[]"] by (fastforce simp: numeral_3_eq_3)
qed

end
