(* ===== verification/Platform.thy ===== *)
theory Platform
  imports KeyValue
begin

text \<open>
  The two text functions of src/src/wplatform.cpp, in the variant for Windows, which the file always selects: it defines
  \<open>CARB_PLATFORM_WINDOWS\<close> itself. A path is a buffer with a zero at its end. The call that asks the system for the path of the program is
  a parameter; the remaining functions of the file are calls of the system only.
\<close>

section \<open>The code\<close>

fun normalizePath :: "bytes \<Rightarrow> bytes result" where
  "normalizePath [] = Fault OutOfBounds"
| "normalizePath (c # pathName) =
     (if c = 0 then Ok (c # pathName)
      else bind_result (normalizePath pathName) (\<lambda>p. Ok ((if c = 47 then 92 else c) # p)))"

fun last_slash :: "bytes \<Rightarrow> nat \<Rightarrow> nat option \<Rightarrow> nat option result" where
  "last_slash [] scan lastSlash = Fault OutOfBounds"
| "last_slash (c # cs) scan lastSlash =
     (if c = 0 then Ok lastSlash else last_slash cs (scan + 1) (if c = 47 \<or> c = 92 then Some scan else lastSlash))"

text \<open>\<open>GetModuleFileNameA\<close> gets the size and fills the buffer.\<close>

definition getExePath :: "(nat \<Rightarrow> bytes \<Rightarrow> bytes) \<Rightarrow> bytes \<Rightarrow> nat \<Rightarrow> (bool \<times> bytes) result" where
  "getExePath GetModuleFileNameA pathName maxPathSize =
     (let pathName = GetModuleFileNameA maxPathSize pathName
      in bind_result (last_slash pathName 0 None) (\<lambda>lastSlash.
           Ok (True, case lastSlash of Some i \<Rightarrow> pathName[i := 0] | None \<Rightarrow> pathName)))"

section \<open>What they do\<close>

lemma normalizePath_text:
  "0 \<notin> set path \<Longrightarrow> normalizePath (path @ 0 # rest) = Ok (map (\<lambda>c. if c = 47 then 92 else c) path @ 0 # rest)"
  by (induction path) auto

lemma last_slash_text:
  assumes "0 \<notin> set path"
  shows "last_slash (path @ 0 # rest) n r =
    Ok (case find (\<lambda>i. path ! i \<in> {47, 92}) (rev [0..<length path]) of Some i \<Rightarrow> Some (n + i) | None \<Rightarrow> r)"
  using assms
proof (induction path arbitrary: n r)
  case (Cons c path)
  have idx: "rev [0..<length (c # path)] = map Suc (rev [0..<length path]) @ [0]"
    by (simp add: upt_conv_Cons map_Suc_upt [symmetric] rev_map del: upt_Suc map_Suc_upt)
  have step: "find P (map Suc xs @ [0]) = (case find (\<lambda>i. P (Suc i)) xs of Some i \<Rightarrow> Some (Suc i) | None \<Rightarrow> if P 0 then Some 0 else None)"
    for P and xs :: "nat list" by (induction xs) auto
  show ?case using Cons unfolding idx step by (auto split: option.split)
qed simp

text \<open>What remains of the path is the directory: all that stands before the last slash.\<close>

lemma getExePath_directory:
  assumes "f maxPathSize buf = dir @ slash # name @ 0 # rest" "slash \<in> {47, 92}" "0 \<notin> set (dir @ name)"
    "\<forall>c \<in> set name. c \<notin> {47, 92}"
  shows "\<exists>buf'. getExePath f buf maxPathSize = Ok (True, buf') \<and> c_string buf' = dir"
proof -
  let ?path = "dir @ slash # name" and ?P = "\<lambda>i. (dir @ slash # name) ! i \<in> {47, 92}"
  have "[0..<length ?path] = [0..<length dir] @ length dir # [Suc (length dir)..<length ?path]"
    using upt_add_eq_append [of 0 "length dir" "Suc (length name)"] upt_conv_Cons [of "length dir" "length ?path"]
    by (simp del: upt_Suc upt_conv_Cons)
  then have rev: "rev [0..<length ?path] = rev [Suc (length dir)..<length ?path] @ length dir # rev [0..<length dir]" by simp
  have none: "find ?P (rev [Suc (length dir)..<length ?path]) = None"
    using assms(4) by (auto simp: find_None_iff nth_append nth_Cons' in_set_conv_nth all_set_conv_all_nth)
  have "find ?P (rev [0..<length ?path]) = Some (length dir)"
    unfolding rev find_append using none assms(2) by (simp add: nth_append)
  moreover have "0 \<notin> set ?path" using assms(2,3) by auto
  ultimately have "last_slash (?path @ 0 # rest) 0 None = Ok (Some (length dir))"
    using last_slash_text [of ?path rest 0 None] by simp
  then have "getExePath f buf maxPathSize = Ok (True, dir @ 0 # name @ 0 # rest)"
    using assms(1) by (simp add: getExePath_def)
  moreover have "c_string (dir @ 0 # name @ 0 # rest) = dir"
    using assms(3) by (simp add: c_string_def takeWhile_append takeWhile_eq_all_conv)
  ultimately show ?thesis by blast
qed
end
