(* ===== verification/Coding.thy ===== *)
theory Coding
  imports Prelude
begin

text \<open>
  The integer codes of LevelDB, src/src/leveldb/util/coding.cc and coding.h: fixed-width little-endian integers, varints
  (seven bits a byte, the high bit set on every byte but the last) and length-prefixed strings. A pointer into a
  buffer is an offset; the reading functions look at the bytes from \<open>p\<close> up to \<open>limit\<close>, which lies in the buffer.
\<close>

section \<open>Writing\<close>

definition PutFixed32 :: "bytes \<Rightarrow> u32 \<Rightarrow> bytes" where
  "PutFixed32 dst value = dst @ store32 value"

definition PutFixed64 :: "bytes \<Rightarrow> u64 \<Rightarrow> bytes" where
  "PutFixed64 dst value = dst @ store64 value"

definition EncodeVarint32 :: "u32 \<Rightarrow> bytes" where
  "EncodeVarint32 v =
     (let B = 128 in
      if v < push_bit 7 1 then [ucast v]
      else if v < push_bit 14 1 then [ucast (v OR B), ucast (drop_bit 7 v)]
      else if v < push_bit 21 1 then [ucast (v OR B), ucast (drop_bit 7 v OR B), ucast (drop_bit 14 v)]
      else if v < push_bit 28 1 then
        [ucast (v OR B), ucast (drop_bit 7 v OR B), ucast (drop_bit 14 v OR B), ucast (drop_bit 21 v)]
      else [ucast (v OR B), ucast (drop_bit 7 v OR B), ucast (drop_bit 14 v OR B), ucast (drop_bit 21 v OR B), ucast (drop_bit 28 v)])"

definition PutVarint32 :: "bytes \<Rightarrow> u32 \<Rightarrow> bytes" where
  "PutVarint32 dst v = dst @ EncodeVarint32 v"

lemma drop_7_less: "128 \<le> v \<Longrightarrow> unat (drop_bit 7 v) < unat (v :: u64)"
proof -
  assume "128 \<le> v"
  then have "0 < unat v" by (simp add: word_le_nat_alt)
  then show ?thesis by (simp add: unat_drop_bit_eq drop_bit_eq_div [where 'a = nat])
qed

function EncodeVarint64 :: "u64 \<Rightarrow> bytes" where
  "EncodeVarint64 v =
     (if 128 \<le> v then ucast ((v AND (128 - 1)) OR 128) # EncodeVarint64 (drop_bit 7 v) else [ucast v])"
  by pat_completeness auto
termination by (relation "measure unat") (simp_all add: drop_7_less)

definition PutVarint64 :: "bytes \<Rightarrow> u64 \<Rightarrow> bytes" where
  "PutVarint64 dst v = dst @ EncodeVarint64 v"

definition PutLengthPrefixedSlice :: "bytes \<Rightarrow> bytes \<Rightarrow> bytes" where
  "PutLengthPrefixedSlice dst value = PutVarint32 dst (word_of_nat (length value)) @ value"

function VarintLength_loop :: "u64 \<Rightarrow> nat \<Rightarrow> nat" where
  "VarintLength_loop v len = (if 128 \<le> v then VarintLength_loop (drop_bit 7 v) (len + 1) else len)"
  by pat_completeness auto
termination by (relation "measure (\<lambda>(v, len). unat v)") (simp_all add: drop_7_less)

definition VarintLength :: "u64 \<Rightarrow> nat" where
  "VarintLength v = VarintLength_loop v 1"

declare EncodeVarint64.simps [simp del] VarintLength_loop.simps [simp del]

section \<open>Reading\<close>

definition DecodeFixed32 :: "bytes \<Rightarrow> nat \<Rightarrow> u32" where
  "DecodeFixed32 data p = load_le (take 4 (drop p data))"

definition DecodeFixed64 :: "bytes \<Rightarrow> nat \<Rightarrow> u64" where
  "DecodeFixed64 data p = load_le (take 8 (drop p data))"

text \<open>The loop of both varint readers: \<open>bound\<close> is the greatest shift, 28 or 63.\<close>

function GetVarint_loop :: "nat \<Rightarrow> bytes \<Rightarrow> nat \<Rightarrow> nat \<Rightarrow> nat \<Rightarrow> 'w::len word \<Rightarrow> ('w word \<times> nat) option" where
  "GetVarint_loop bound data p limit shift result =
     (if shift \<le> bound \<and> p < limit then
        let byte = ucast (data ! p) :: 'w word
        in if byte AND 128 \<noteq> 0
           then GetVarint_loop bound data (p + 1) limit (shift + 7) (result OR push_bit shift (byte AND 127))
           else Some (result OR push_bit shift byte, p + 1)
      else None)"
  by pat_completeness auto
termination by (relation "measure (\<lambda>(bound, data, p, limit, shift, result). limit - p)") auto

declare GetVarint_loop.simps [simp del]

definition GetVarint32PtrFallback :: "bytes \<Rightarrow> nat \<Rightarrow> nat \<Rightarrow> (u32 \<times> nat) option" where
  "GetVarint32PtrFallback data p limit = GetVarint_loop 28 data p limit 0 0"

definition GetVarint32Ptr :: "bytes \<Rightarrow> nat \<Rightarrow> nat \<Rightarrow> (u32 \<times> nat) option" where
  "GetVarint32Ptr data p limit =
     (if p < limit \<and> ucast (data ! p) AND 128 = (0 :: u32) then Some (ucast (data ! p), p + 1)
      else GetVarint32PtrFallback data p limit)"

definition GetVarint32 :: "bytes \<Rightarrow> (u32 \<times> bytes) option" where
  "GetVarint32 input =
     (case GetVarint32Ptr input 0 (length input) of None \<Rightarrow> None | Some (value, q) \<Rightarrow> Some (value, drop q input))"

definition GetVarint64Ptr :: "bytes \<Rightarrow> nat \<Rightarrow> nat \<Rightarrow> (u64 \<times> nat) option" where
  "GetVarint64Ptr data p limit = GetVarint_loop 63 data p limit 0 0"

definition GetVarint64 :: "bytes \<Rightarrow> (u64 \<times> bytes) option" where
  "GetVarint64 input =
     (case GetVarint64Ptr input 0 (length input) of None \<Rightarrow> None | Some (value, q) \<Rightarrow> Some (value, drop q input))"

definition GetLengthPrefixedSlicePtr :: "bytes \<Rightarrow> nat \<Rightarrow> nat \<Rightarrow> (bytes \<times> nat) option" where
  "GetLengthPrefixedSlicePtr data p limit =
     (case GetVarint32Ptr data p limit of
        None \<Rightarrow> None
      | Some (len, p) \<Rightarrow> if p + unat len > limit then None else Some (take (unat len) (drop p data), p + unat len))"

text \<open>The slice is advanced past the length also when the call fails after reading it.\<close>

definition GetLengthPrefixedSlice :: "bytes \<Rightarrow> bytes option \<times> bytes" where
  "GetLengthPrefixedSlice input =
     (case GetVarint32 input of
        None \<Rightarrow> (None, input)
      | Some (len, input) \<Rightarrow>
          if unat len \<le> length input then (Some (take (unat len) input), drop (unat len) input) else (None, input))"

section \<open>Varints as numbers\<close>

text \<open>The code of a number of any size, which both writers follow.\<close>

fun varint :: "nat \<Rightarrow> bytes" where
  "varint n = (if n < 128 then [word_of_nat n] else word_of_nat (n mod 128 + 128) # varint (n div 128))"

declare varint.simps [simp del]

lemma varint_less: "n < 128 \<Longrightarrow> varint n = [word_of_nat n]"
  by (simp add: varint.simps)

lemma varint_more: "128 \<le> n \<Longrightarrow> varint n = word_of_nat (n mod 128 + 128) # varint (n div 128)"
  by (subst varint.simps) simp

lemma varint_not_Nil [simp]: "varint n \<noteq> []"
  by (subst varint.simps) simp

lemma unat_drop_bit: "unat (drop_bit k v) = unat v div 2 ^ k"
  by (simp add: unat_drop_bit_eq drop_bit_eq_div [where 'a = nat])

lemma unat_and_127: "unat (v AND 127) = unat v mod 128" for v :: "'w::len word"
proof -
  have "v AND 127 = take_bit 7 v" by (simp add: take_bit_eq_mask mask_eq_exp_minus_1)
  then show ?thesis by (simp add: unsigned_take_bit_eq take_bit_eq_mod [where 'a = nat])
qed

lemma bit_128_nat: "bit (128 :: nat) n \<longleftrightarrow> n = 7"
proof -
  have "(128 :: nat) = push_bit 7 1" by (simp add: push_bit_eq_mult)
  then show ?thesis by (simp only: bit_push_bit_iff) (auto simp: bit_simps)
qed

lemma bit_128: "bit (128 :: 'w::len word) n \<longleftrightarrow> n = 7 \<and> n < LENGTH('w)"
proof -
  have "(128 :: 'w word) = push_bit 7 1" by simp
  then show ?thesis by (simp only: bit_push_bit_iff) (auto simp: bit_simps)
qed

lemma ucast_or_128:
  fixes v :: "'w::len word"
  assumes "8 \<le> LENGTH('w)"
  shows "(ucast (v OR 128) :: u8) = word_of_nat (unat v mod 128 + 128)"
proof -
  have and0: "(take_bit 7 x :: u8) AND 128 = 0" for x
    by (rule bit_word_eqI) (simp only: bit_and_iff bit_take_bit_iff bit_128, simp)
  have "(ucast (v OR 128) :: u8) = take_bit 7 (word_of_nat (unat v)) OR 128"
    using assms by (intro bit_word_eqI, simp only: bit_ucast_iff bit_or_iff bit_128) (auto simp: bit_simps bit_128 bit_128_nat)
  also have "\<dots> = take_bit 7 (word_of_nat (unat v)) + 128"
    using and0 [of "word_of_nat (unat v)"] by (simp add: disjunctive_add_eq_or)
  also have "take_bit 7 (word_of_nat (unat v)) = (word_of_nat (unat v mod 128) :: u8)"
    by (simp add: word_unat_eq_iff unsigned_take_bit_eq take_bit_eq_mod [where 'a = nat] unsigned_ucast_eq mod_mod_cancel)
  also have "\<dots> + 128 = word_of_nat (unat v mod 128 + 128)" by simp
  finally show ?thesis .
qed

lemma EncodeVarint64_varint: "EncodeVarint64 v = varint (unat v)"
proof (induction v rule: EncodeVarint64.induct)
  case (1 v)
  have cont: "ucast ((v AND 127) OR 128) = (word_of_nat (unat v mod 128 + 128) :: u8)"
    by (simp add: ucast_or_128 unat_and_127)
  have "unat (drop_bit 7 v) = unat v div 128" by (simp add: unat_drop_bit)
  with 1 cont show ?case
    by (subst EncodeVarint64.simps) (auto simp: word_le_nat_alt varint_less varint_more)
qed

lemma EncodeVarint32_varint: "EncodeVarint32 v = varint (unat v)"
proof -
  have dd: "unat v div 128 div 128 = unat v div 16384" "unat v div 16384 div 128 = unat v div 2097152"
    "unat v div 2097152 div 128 = unat v div 268435456" by (simp_all add: div_mult2_eq [symmetric])
  have small: "unat v < 4294967296" using unsigned_less [of v] by simp
  consider "unat v < 128" | "128 \<le> unat v" "unat v < 16384" | "16384 \<le> unat v" "unat v < 2097152"
    | "2097152 \<le> unat v" "unat v < 268435456" | "268435456 \<le> unat v" by linarith
  then show ?thesis
    using small
    by cases (simp_all add: EncodeVarint32_def Let_def word_less_nat_alt push_bit_eq_mult ucast_or_128 ucast_drop_bit_u8 unat_drop_bit
        varint_less varint_more dd)
qed


lemma VarintLength_loop_varint: "VarintLength_loop v len + 1 = len + length (varint (unat v))"
proof (induction v len rule: VarintLength_loop.induct)
  case (1 v len)
  then show ?case
    by (subst VarintLength_loop.simps) (auto simp: word_le_nat_alt varint_less varint_more unat_drop_bit)
qed

section \<open>Reading back\<close>

lemma take_limit:
  assumes "drop p (take limit data) = x # xs"
  shows "p < limit" "p < length data" "data ! p = x" "drop (Suc p) (take limit data) = xs"
proof -
  have p: "p < length (take limit data)"
    using assms by (metis drop_eq_Nil linorder_not_le list.distinct(1))
  then show "p < limit" "p < length data" by auto
  have "take limit data ! p # drop (Suc p) (take limit data) = x # xs"
    using assms Cons_nth_drop_Suc [OF p] by simp
  then show "data ! p = x" "drop (Suc p) (take limit data) = xs" using p by simp_all
qed

lemma or_push_bit_sum:
  fixes result :: "'w::len word"
  assumes "unat result < 2 ^ k"
  shows "result OR push_bit k byte = result + byte * 2 ^ k"
proof -
  have "take_bit k result = result"
    using assms by (simp add: word_unat_eq_iff unsigned_take_bit_eq take_bit_nat_eq_self)
  then have "\<not> bit result n" if "k \<le> n" for n
    using that by (metis bit_take_bit_iff linorder_not_le)
  then have "result AND push_bit k byte = 0"
    by (intro bit_word_eqI) (auto simp: bit_simps)
  then show ?thesis by (simp add: disjunctive_add_eq_or flip: push_bit_eq_mult)
qed

lemma and_128_word_of_nat:
  assumes "8 \<le> LENGTH('w::len)" "n < 256"
  shows "(word_of_nat n :: 'w word) AND 128 = 0 \<longleftrightarrow> n < 128"
    "(word_of_nat n :: 'w word) AND 127 = word_of_nat (n mod 128)"
proof -
  have n: "unat (word_of_nat n :: 'w word) = n"
    using assms power_increasing [of 8 "LENGTH('w)" "2 :: nat"] by (simp add: unat_of_nat)
  have "(word_of_nat n :: 'w word) AND 128 = 0 \<longleftrightarrow> \<not> bit (word_of_nat n :: 'w word) 7"
    using and_exp_eq_0_iff_not_bit [of "word_of_nat n :: 'w word" 7] by simp
  also have "\<dots> \<longleftrightarrow> \<not> bit n 7" using assms by (simp add: bit_of_nat_iff)
  moreover have "n div 128 = (if n < 128 then 0 else 1)" using assms(2) by (auto intro!: div_nat_eqI)
  then have "\<not> bit n 7 \<longleftrightarrow> n < 128" by (simp add: bit_iff_odd)
  ultimately show "(word_of_nat n :: 'w word) AND 128 = 0 \<longleftrightarrow> n < 128" by simp
  show "(word_of_nat n :: 'w word) AND 127 = word_of_nat (n mod 128)"
    using assms power_increasing [of 8 "LENGTH('w)" "2 :: nat"] by (simp add: word_unat_eq_iff unat_and_127 n unat_of_nat)
qed

lemma ucast_word_of_nat_u8:
  assumes "n < 256"
  shows "ucast (word_of_nat n :: u8) = (word_of_nat n :: 'w::len word)"
proof -
  have "ucast (word_of_nat n :: u8) = (word_of_nat (unat (word_of_nat n :: u8)) :: 'w word)"
    by (simp del: unat_word_of_nat_u8)
  then show ?thesis using assms by simp
qed

lemma unat_add_of_nat_le: "unat (a + word_of_nat m) \<le> unat a + m" for a :: "'w::len word"
proof -
  have "unat (a + word_of_nat m) \<le> unat a + unat (word_of_nat m :: 'w word)" by (simp add: unat_word_ariths)
  also have "\<dots> \<le> unat a + m" by (simp add: unat_of_nat)
  finally show ?thesis .
qed

lemma GetVarint_loop_varint:
  fixes result :: "'w::len word"
  assumes "drop p (take limit data) = varint n @ rest" "8 \<le> LENGTH('w)" "\<And>i. 7 * i < LENGTH('w) \<Longrightarrow> 7 * i \<le> bound"
    "7 * k < LENGTH('w)" "n * 2 ^ (7 * k) < 2 ^ LENGTH('w)" "unat result < 2 ^ (7 * k)"
  shows "GetVarint_loop bound data p limit (7 * k) result = Some (result + word_of_nat (n * 2 ^ (7 * k)), p + length (varint n))"
  using assms
proof (induction n arbitrary: p k result rule: varint.induct)
  case (1 n)
  show ?case
  proof (cases "n < 128")
    case True
    note here = take_limit [OF "1.prems"(1) [unfolded varint_less [OF True], simplified]]
    have b: "ucast (data ! p) = (word_of_nat n :: 'w word)" using True by (simp add: here(3) ucast_word_of_nat_u8)
    show ?thesis
      using here(1) True "1.prems"(2-) unfolding varint_less [OF True]
      by (subst GetVarint_loop.simps) (simp add: b and_128_word_of_nat or_push_bit_sum)
  next
    case False
    then have n: "128 \<le> n" by simp
    note here = take_limit [OF "1.prems"(1) [unfolded varint_more [OF n] append_Cons]]
    have b: "ucast (data ! p) = (word_of_nat (n mod 128 + 128) :: 'w word)"
      by (simp only: here(3), rule ucast_word_of_nat_u8) simp
    have low: "ucast (data ! p) AND (127 :: 'w word) = word_of_nat (n mod 128)"
      using "1.prems"(2) by (simp only: b) (subst and_128_word_of_nat(2), simp_all)
    have next_result: "result OR push_bit (7 * k) (ucast (data ! p) AND 127) = result + word_of_nat (n mod 128 * 2 ^ (7 * k))"
      using "1.prems"(6) by (subst or_push_bit_sum) (simp_all add: low)
    have cont: "ucast (data ! p) AND (128 :: 'w word) \<noteq> 0"
      using "1.prems"(2) by (simp only: b) (subst and_128_word_of_nat(1), simp_all)
    have "(2 :: nat) ^ (7 * Suc k) \<le> n * 2 ^ (7 * k)" using n by (simp add: power_add)
    then have "(2 :: nat) ^ (7 * Suc k) < 2 ^ LENGTH('w)" using "1.prems"(5) by (rule le_less_trans)
    then have k: "7 * Suc k < LENGTH('w)" by (simp only: power_strict_increasing_iff one_less_numeral_iff semiring_norm)
    have "n div 128 * 2 ^ (7 * Suc k) = n div 128 * 128 * 2 ^ (7 * k)" by (simp add: power_add)
    then have sum: "n mod 128 * 2 ^ (7 * k) + n div 128 * 2 ^ (7 * Suc k) = n * 2 ^ (7 * k)"
      by (metis add_mult_distrib mod_mult_div_eq mult.commute mod_div_mult_eq)
    have "unat (result + word_of_nat (n mod 128 * 2 ^ (7 * k))) \<le> unat result + n mod 128 * 2 ^ (7 * k)"
      by (rule unat_add_of_nat_le)
    also have "\<dots> < 2 ^ (7 * k) + n mod 128 * 2 ^ (7 * k)" using "1.prems"(6) by simp
    also have "\<dots> = Suc (n mod 128) * 2 ^ (7 * k)" by simp
    also have "\<dots> \<le> 128 * 2 ^ (7 * k)" by (intro mult_le_mono1) (simp add: Suc_le_eq)
    also have "\<dots> = 2 ^ (7 * Suc k)" by (simp add: power_add)
    finally have r: "unat (result + word_of_nat (n mod 128 * 2 ^ (7 * k))) < 2 ^ (7 * Suc k)" .
    have "n div 128 * 2 ^ (7 * Suc k) \<le> n * 2 ^ (7 * k)" using sum by linarith
    then have fits: "n div 128 * 2 ^ (7 * Suc k) < 2 ^ LENGTH('w)" using "1.prems"(5) by (rule le_less_trans)
    have "GetVarint_loop bound data (Suc p) limit (7 * Suc k) (result + word_of_nat (n mod 128 * 2 ^ (7 * k))) =
       Some (result + word_of_nat (n mod 128 * 2 ^ (7 * k)) + word_of_nat (n div 128 * 2 ^ (7 * Suc k)), Suc p + length (varint (n div 128)))"
      by (rule "1.IH" [OF False here(4) "1.prems"(2,3) k fits r])
    moreover have "word_of_nat (n mod 128 * 2 ^ (7 * k)) + word_of_nat (n div 128 * 2 ^ (7 * Suc k)) = (word_of_nat (n * 2 ^ (7 * k)) :: 'w word)"
      by (simp only: sum flip: of_nat_add)
    ultimately show ?thesis
      using here(1) "1.prems"(3,4) cont unfolding varint_more [OF n]
      by (subst GetVarint_loop.simps) (simp only: next_result Let_def, simp add: add.assoc add.commute [of 7])
  qed
qed

lemma GetVarint32PtrFallback_varint:
  assumes "drop p (take limit data) = varint n @ rest" "n < 2 ^ 32"
  shows "GetVarint32PtrFallback data p limit = Some (word_of_nat n, p + length (varint n))"
  using GetVarint_loop_varint [OF assms(1), where k = 0 and bound = 28 and result = "0 :: u32"] assms(2)
  by (simp add: GetVarint32PtrFallback_def)

lemma GetVarint64Ptr_varint:
  assumes "drop p (take limit data) = varint n @ rest" "n < 2 ^ 64"
  shows "GetVarint64Ptr data p limit = Some (word_of_nat n, p + length (varint n))"
  using GetVarint_loop_varint [OF assms(1), where k = 0 and bound = 63 and result = "0 :: u64"] assms(2)
  by (simp add: GetVarint64Ptr_def)

text \<open>The first byte alone is only a shortcut.\<close>

lemma GetVarint32Ptr_fallback: "GetVarint32Ptr data p limit = GetVarint32PtrFallback data p limit"
  by (auto simp: GetVarint32Ptr_def GetVarint32PtrFallback_def Let_def GetVarint_loop.simps [of 28 data p limit 0])

lemma GetVarint_loop_inside:
  "GetVarint_loop bound data p limit shift result = Some (v, q) \<Longrightarrow> p < q \<and> q \<le> limit"
proof (induction bound data p limit shift result rule: GetVarint_loop.induct)
  case (1 bound data p limit shift result)
  show ?case
  proof (cases "shift \<le> bound \<and> p < limit")
    case True
    note eq = "1.prems" [unfolded GetVarint_loop.simps [of bound data p limit shift result] Let_def if_P [OF True]]
    show ?thesis
    proof (cases "ucast (data ! p) AND (128 :: 'a word) \<noteq> 0")
      case more: True
      from "1.IH" [OF True refl more] eq more True show ?thesis by fastforce
    next
      case False
      then show ?thesis using eq True by auto
    qed
  next
    case False
    then have "GetVarint_loop bound data p limit shift result = None"
      by (subst GetVarint_loop.simps) (simp only: if_False)
    then show ?thesis using "1.prems" by simp
  qed
qed

lemma GetVarint32Ptr_inside: "GetVarint32Ptr data p limit = Some (v, q) \<Longrightarrow> p < q \<and> q \<le> limit"
  unfolding GetVarint32Ptr_fallback GetVarint32PtrFallback_def by (rule GetVarint_loop_inside)

lemma GetVarint_append: "GetVarint32 (varint n @ rest) = Some (word_of_nat n, rest)" if "n < 2 ^ 32"
  using GetVarint32PtrFallback_varint [of 0 _ "varint n @ rest" n rest, OF _ that]
  by (simp add: GetVarint32_def GetVarint32Ptr_fallback)

lemma GetVarint64_append: "GetVarint64 (varint n @ rest) = Some (word_of_nat n, rest)" if "n < 2 ^ 64"
  using GetVarint64Ptr_varint [of 0 _ "varint n @ rest" n rest, OF _ that]
  by (simp add: GetVarint64_def)

lemma unat_less_32: "unat (v :: u32) < 2 ^ 32"
  using unsigned_less [of v] by simp

lemma unat_less_64: "unat (v :: u64) < 2 ^ 64"
  using unsigned_less [of v] by simp

text \<open>A code that is cut short is refused.\<close>

lemma GetVarint_loop_cut:
  "drop p (take limit data) = take k (varint n) \<Longrightarrow> k < length (varint n) \<Longrightarrow> 8 \<le> LENGTH('w) \<Longrightarrow> limit \<le> length data \<Longrightarrow>
     GetVarint_loop bound data p limit shift (result :: 'w::len word) = None"
proof (induction n arbitrary: p k shift result rule: varint.induct)
  case (1 n)
  show ?case
  proof (cases "k = 0")
    case True
    then have "\<not> p < limit" using "1.prems"(1,4) by simp
    then show ?thesis by (subst GetVarint_loop.simps) simp
  next
    case False
    then obtain k' where k: "k = Suc k'" by (cases k) auto
    then have n: "128 \<le> n" using "1.prems"(2) varint_less [of n] by (cases "n < 128") auto
    have cut: "drop p (take limit data) = word_of_nat (n mod 128 + 128) # take k' (varint (n div 128))"
      using "1.prems"(1) k varint_more [OF n] by simp
    note here = take_limit [OF cut]
    have cont: "ucast (data ! p) AND (128 :: 'w word) \<noteq> 0"
      using "1.prems"(3) by (simp only: here(3), subst ucast_word_of_nat_u8) (simp, subst and_128_word_of_nat(1), simp_all)
    have "GetVarint_loop bound data (p + 1) limit s r = None" for s and r :: "'w word"
      using "1.IH" [OF _ _ _ "1.prems"(3,4), of "Suc p" k' s r] here(4) n "1.prems"(2) k varint_more [OF n] by simp
    then show ?thesis using cont by (subst GetVarint_loop.simps) (simp add: Let_def)
  qed
qed

text \<open>
  C24: varints. Both writers write the same code (the 32-bit one without a loop), of as many bytes as \<open>VarintLength\<close>
  says, and both readers read back the number and stop right behind it.
\<close>

theorem varint_roundtrip:
  "GetVarint32 (PutVarint32 [] v @ rest) = Some (v, rest) \<and> GetVarint64 (PutVarint64 [] w @ rest) = Some (w, rest) \<and>
   PutVarint32 dst v = PutVarint64 dst (ucast v) \<and> length (PutVarint64 dst w) = length dst + VarintLength w"
proof -
  have "take_bit 64 (unat v) = unat v" using unat_less_32 [of v] by (simp add: take_bit_nat_eq_self)
  then show ?thesis
    using VarintLength_loop_varint [of w 1] GetVarint_append [of "unat v" rest, OF unat_less_32]
      GetVarint64_append [of "unat w" rest, OF unat_less_64]
    by (simp add: PutVarint32_def PutVarint64_def EncodeVarint32_varint EncodeVarint64_varint VarintLength_def unsigned_ucast_eq)
qed

lemma length_prefixed_roundtrip:
  assumes "length value < 2 ^ 32"
  shows "GetLengthPrefixedSlice (PutLengthPrefixedSlice [] value @ rest) = (Some value, rest)"
  using assms
  by (simp add: GetLengthPrefixedSlice_def PutLengthPrefixedSlice_def PutVarint32_def EncodeVarint32_varint GetVarint_append
      unat_word32_of_nat)

lemma fixed_roundtrip:
  "DecodeFixed32 (PutFixed32 dst v @ rest) (length dst) = v" "DecodeFixed64 (PutFixed64 dst w @ rest) (length dst) = w"
  by (simp_all add: DecodeFixed32_def PutFixed32_def DecodeFixed64_def PutFixed64_def)

end
