(* ===== verification/Comparator.thy ===== *)
theory Comparator
  imports Prelude "HOL-Library.List_Lexorder"
begin

text \<open>
  The order of the keys in LevelDB: \<open>Slice::compare\<close> of src/include/leveldb/slice.h and the bytewise comparator of
  src/src/leveldb/util/comparator.cc, with the two functions that shorten keys. What the table code relies on is the
  locale \<open>key_order\<close>, the contract in src/include/leveldb/comparator.h.
\<close>

section \<open>The contract\<close>

locale key_order =
  fixes cmp :: "bytes \<Rightarrow> bytes \<Rightarrow> int" and key_ok :: "bytes \<Rightarrow> bool"
  assumes cmp_eq: "key_ok a \<Longrightarrow> key_ok b \<Longrightarrow> cmp a b = 0 \<longleftrightarrow> a = b"
    and cmp_flip: "key_ok a \<Longrightarrow> key_ok b \<Longrightarrow> 0 < cmp a b \<longleftrightarrow> cmp b a < 0"
    and cmp_trans: "key_ok a \<Longrightarrow> key_ok b \<Longrightarrow> key_ok c \<Longrightarrow> cmp a b < 0 \<Longrightarrow> cmp b c < 0 \<Longrightarrow> cmp a c < 0"

text \<open>
  Entries in ascending order of their keys; and the number of the first entry whose key is not below a target, the
  number of entries when there is none.
\<close>

definition ascending :: "(bytes \<Rightarrow> bytes \<Rightarrow> int) \<Rightarrow> (bytes \<Rightarrow> bool) \<Rightarrow> (bytes \<times> bytes) list \<Rightarrow> bool" where
  "ascending cmp key_ok es \<longleftrightarrow> sorted_wrt (\<lambda>a b. cmp a b < 0) (map fst es) \<and> (\<forall>e \<in> set es. key_ok (fst e))"

definition seek_position :: "(bytes \<Rightarrow> bytes \<Rightarrow> int) \<Rightarrow> bytes \<Rightarrow> (bytes \<times> bytes) list \<Rightarrow> nat" where
  "seek_position cmp target es = length (takeWhile (\<lambda>e. cmp (fst e) target < 0) es)"

lemma seek_position_le: "seek_position cmp target es \<le> length es"
  by (simp add: seek_position_def length_takeWhile_le)

lemma seek_position_eq:
  assumes "\<And>j. j < i \<Longrightarrow> cmp (fst (es ! j)) target < 0" "i < length es \<Longrightarrow> \<not> cmp (fst (es ! i)) target < 0" "i \<le> length es"
  shows "seek_position cmp target es = i"
  using takeWhile_eq_take_P_nth [of i es "\<lambda>e. cmp (fst e) target < 0"] assms by (simp add: seek_position_def)

lemma below_seek_position: "i < seek_position cmp target es \<Longrightarrow> cmp (fst (es ! i)) target < 0"
  unfolding seek_position_def by (metis nth_mem set_takeWhileD takeWhile_nth)

lemma at_seek_position: "seek_position cmp target es < length es \<Longrightarrow> \<not> cmp (fst (es ! seek_position cmp target es)) target < 0"
  unfolding seek_position_def by (rule nth_length_takeWhile)

context key_order
begin

lemma cmp_irrefl: "key_ok a \<Longrightarrow> cmp a a = 0"
  by (simp add: cmp_eq)

lemma cmp_not_less:
  assumes "key_ok a" "key_ok b"
  shows "\<not> cmp a b < 0 \<longleftrightarrow> a = b \<or> cmp b a < 0"
  unfolding not_less_iff_gr_or_eq cmp_flip [OF assms] cmp_eq [OF assms] by blast

lemma ascending_nth:
  assumes "ascending cmp key_ok es" "i < length es"
  shows "key_ok (fst (es ! i))" "j < i \<Longrightarrow> cmp (fst (es ! j)) (fst (es ! i)) < 0"
  using assms sorted_wrt_nth_less [of "\<lambda>a b. cmp a b < 0" "map fst es" j i] by (auto simp: ascending_def)

text \<open>In an ascending list the keys below a target form the first part.\<close>

lemma below_target:
  assumes "ascending cmp key_ok es" "key_ok t" "i < j" "j < length es" "cmp (fst (es ! j)) t < 0"
  shows "cmp (fst (es ! i)) t < 0"
  using assms ascending_nth [OF assms(1)] by (meson cmp_trans less_trans)

lemma below_iff:
  assumes "ascending cmp key_ok es" "key_ok t" "i < length es"
  shows "cmp (fst (es ! i)) t < 0 \<longleftrightarrow> i < seek_position cmp t es"
proof
  assume below: "cmp (fst (es ! i)) t < 0"
  show "i < seek_position cmp t es"
  proof (rule ccontr)
    let ?p = "seek_position cmp t es"
    assume "\<not> i < ?p"
    then have "?p < length es" "?p = i \<or> ?p < i" using assms(3) by auto
    then have "cmp (fst (es ! ?p)) t < 0" using below below_target [OF assms(1,2) _ assms(3) below, of ?p] by auto
    then show False using at_seek_position [OF \<open>?p < length es\<close>] by simp
  qed
qed (rule below_seek_position)

end

section \<open>Bytes\<close>

fun memcmp :: "bytes \<Rightarrow> bytes \<Rightarrow> nat \<Rightarrow> int" where
  "memcmp (x # a) (y # b) (Suc n) = (if x = y then memcmp a b n else if x < y then -1 else 1)"
| "memcmp _ _ _ = 0"

definition Slice_compare :: "bytes \<Rightarrow> bytes \<Rightarrow> int" where
  "Slice_compare a b =
     (let min_len = (if length a < length b then length a else length b); r = memcmp a b min_len
      in if r = 0 then if length a < length b then -1 else if length a > length b then 1 else r else r)"

lemma Slice_compare_simps [simp]:
  "Slice_compare [] [] = 0" "Slice_compare (x # a) [] = 1" "Slice_compare [] (y # b) = -1"
  "Slice_compare (x # a) (y # b) = (if x = y then Slice_compare a b else if x < y then -1 else 1)"
  by (simp_all add: Slice_compare_def Let_def)

lemma Slice_compare_less: "Slice_compare a b < 0 \<longleftrightarrow> a < b"
proof (induction a arbitrary: b)
  case Nil
  then show ?case by (cases b) simp_all
next
  case (Cons x a)
  then show ?case by (cases b) auto
qed

lemma Slice_compare_eq: "Slice_compare a b = 0 \<longleftrightarrow> a = b"
proof (induction a arbitrary: b)
  case Nil
  then show ?case by (cases b) simp_all
next
  case (Cons x a)
  then show ?case by (cases b) auto
qed

lemma Slice_compare_flip: "Slice_compare a b = - Slice_compare b a"
proof (induction a arbitrary: b)
  case Nil
  then show ?case by (cases b) simp_all
next
  case (Cons x a)
  then show ?case by (cases b) auto
qed

interpretation bytewise: key_order Slice_compare "\<lambda>_. True"
proof
  show "0 < Slice_compare a b \<longleftrightarrow> Slice_compare b a < 0" for a b using Slice_compare_flip [of a b] by linarith
qed (auto simp: Slice_compare_less Slice_compare_eq)

section \<open>Shorter keys\<close>

function diff_loop :: "bytes \<Rightarrow> bytes \<Rightarrow> nat \<Rightarrow> nat \<Rightarrow> nat" where
  "diff_loop start limit min_length diff_index =
     (if diff_index < min_length \<and> start ! diff_index = limit ! diff_index
      then diff_loop start limit min_length (diff_index + 1) else diff_index)"
  by pat_completeness auto
termination by (relation "measure (\<lambda>(start, limit, min_length, diff_index). min_length - diff_index)") auto

declare diff_loop.simps [simp del]

definition FindShortestSeparator :: "build \<Rightarrow> bytes \<Rightarrow> bytes \<Rightarrow> bytes result" where
  "FindShortestSeparator b start limit =
     (let min_length = min (length start) (length limit); diff_index = diff_loop start limit min_length 0
      in if diff_index \<ge> min_length then Ok start
         else
           let diff_byte = start ! diff_index
           in if diff_byte < 255 \<and> unat diff_byte + 1 < unat (limit ! diff_index)
              then let start = take (diff_index + 1) (start[diff_index := start ! diff_index + 1])
                   in bind_result (c_assert b (Slice_compare start limit < 0)) (\<lambda>_. Ok start)
              else Ok start)"

fun successor_loop :: "bytes \<Rightarrow> nat list \<Rightarrow> bytes" where
  "successor_loop key [] = key"
| "successor_loop key (i # is) =
     (let byte = key ! i in if byte \<noteq> 255 then take (i + 1) (key[i := byte + 1]) else successor_loop key is)"

definition FindShortSuccessor :: "bytes \<Rightarrow> bytes" where
  "FindShortSuccessor key = successor_loop key [0..<length key]"

text \<open>The number of bytes two strings have in common at their start.\<close>

fun common :: "'a list \<Rightarrow> 'a list \<Rightarrow> nat" where
  "common (x # xs) (y # ys) = (if x = y then Suc (common xs ys) else 0)"
| "common _ _ = 0"

lemma common_le: "common xs ys \<le> length xs" "common xs ys \<le> length ys"
  by (induction xs ys rule: common.induct) auto

lemma common_take: "k \<le> common xs ys \<Longrightarrow> take k xs = take k ys"
  by (induction xs ys arbitrary: k rule: common.induct) (auto simp: take_Cons' split: if_splits)

lemma common_nth: "i < common xs ys \<Longrightarrow> xs ! i = ys ! i"
  using common_take [of "Suc i" xs ys] common_le [of xs ys] by (metis Suc_leI lessI nth_take)

lemma common_differ: "common xs ys < min (length xs) (length ys) \<Longrightarrow> xs ! common xs ys \<noteq> ys ! common xs ys"
  by (induction xs ys rule: common.induct) auto

lemma diff_loop_common:
  "i \<le> common start limit \<Longrightarrow> diff_loop start limit (min (length start) (length limit)) i = common start limit"
proof (induction "common start limit - i" arbitrary: i)
  case 0
  then have "i = common start limit" by simp
  then show ?case using common_differ [of start limit] by (subst diff_loop.simps) auto
next
  case (Suc k)
  then have "i < common start limit" by simp
  then have "diff_loop start limit (min (length start) (length limit)) (i + 1) = common start limit"
    "start ! i = limit ! i" "i < min (length start) (length limit)"
    using Suc common_nth [of i start limit] common_le [of start limit] by auto
  then show ?case by (subst diff_loop.simps) simp
qed

lemma less_at: "i < length xs \<Longrightarrow> i < length ys \<Longrightarrow> take i xs = take i ys \<Longrightarrow> xs ! i < ys ! i \<Longrightarrow> xs < (ys :: bytes)"
proof (induction i arbitrary: xs ys)
  case 0
  then show ?case by (cases xs; cases ys) auto
next
  case (Suc i)
  then show ?case by (cases xs; cases ys) auto
qed

lemma common_mismatch:
  assumes "common start limit < min (length start) (length limit)" "start < (limit :: bytes)"
  shows "start ! common start limit < limit ! common start limit"
proof (rule ccontr)
  let ?i = "common start limit"
  assume "\<not> start ! ?i < limit ! ?i"
  with common_differ [OF assms(1)] have "limit ! ?i < start ! ?i" by simp
  then have "limit < start"
    using assms(1) common_take [of ?i start limit] by (intro less_at [of ?i]) auto
  with assms(2) show False by simp
qed

text \<open>
  The string that \<open>FindShortestSeparator\<close> makes of \<open>start\<close> is not below \<open>start\<close>, below \<open>limit\<close> and no
  longer than \<open>start\<close>; the \<open>assert\<close> in it never fails.
\<close>

lemma separator_between:
  assumes "start < limit"
  shows "\<exists>s. FindShortestSeparator b start limit = Ok s \<and> start \<le> s \<and> s < limit \<and> length s \<le> length start"
proof -
  define i where "i = common start limit"
  let ?s = "take (i + 1) (start[i := start ! i + 1])"
  have loop: "diff_loop start limit (min (length start) (length limit)) 0 = i"
    by (simp add: diff_loop_common i_def)
  show ?thesis
  proof (cases "i < min (length start) (length limit) \<and> start ! i < 255 \<and> unat (start ! i) + 1 < unat (limit ! i)")
    case True
    then have i: "i < length start" "i < length limit" by auto
    have s: "?s = take i start @ [start ! i + 1]" using i by (simp add: take_Suc_update)
    have up: "start ! i < start ! i + 1" "start ! i + 1 < limit ! i"
      using True by (auto simp: word_less_nat_alt unat_word_ariths)
    have "start < ?s" unfolding s using i up by (intro less_at [of i]) (simp_all add: nth_append)
    moreover have "?s < limit"
      unfolding s using i up common_take [of i start limit] by (intro less_at [of i]) (simp_all add: nth_append i_def)
    moreover have "FindShortestSeparator b start limit = Ok ?s"
      using True \<open>?s < limit\<close> up by (simp add: FindShortestSeparator_def loop Let_def Slice_compare_less flip: not_less)
    ultimately show ?thesis using i by auto
  next
    case False
    then have "FindShortestSeparator b start limit = Ok start"
      by (auto simp: FindShortestSeparator_def loop Let_def)
    then show ?thesis using assms by simp
  qed
qed

lemma successor_loop_above: "\<forall>i \<in> set is. i < length key \<Longrightarrow> key \<le> successor_loop key is"
proof (induction "is")
  case (Cons i "is")
  show ?case
  proof (cases "key ! i = 255")
    case False
    have s: "take (i + 1) (key[i := key ! i + 1]) = take i key @ [key ! i + 1]" using Cons.prems by (simp add: take_Suc_update)
    have "unat (key ! i) \<noteq> 255" using False by (simp add: word_unat_eq_iff)
    then have "unat (key ! i) < 255" using unat_u8_le [of "key ! i"] by linarith
    then have "key ! i < key ! i + 1" by (auto simp: word_less_nat_alt unat_word_ariths)
    then have "key < take i key @ [key ! i + 1]"
      using Cons.prems by (intro less_at [of i]) (simp_all add: nth_append)
    then show ?thesis using False s by simp
  qed (use Cons in simp)
qed simp

lemma successor_loop_length: "length (successor_loop key is) \<le> length key"
  by (induction key "is" rule: successor_loop.induct) (auto simp: Let_def)

lemma FindShortSuccessor_length: "length (FindShortSuccessor key) \<le> length key"
  unfolding FindShortSuccessor_def by (rule successor_loop_length)

lemma FindShortSuccessor_above: "key \<le> FindShortSuccessor key"
  unfolding FindShortSuccessor_def by (rule successor_loop_above) simp

text \<open>What a table relies on besides the order: keys between two keys, and keys above a key, that are not longer.\<close>

locale comparator = key_order cmp key_ok
  for cmp :: "bytes \<Rightarrow> bytes \<Rightarrow> int" and key_ok :: "bytes \<Rightarrow> bool" +
  fixes separator :: "build \<Rightarrow> bytes \<Rightarrow> bytes \<Rightarrow> bytes result" and successor :: "build \<Rightarrow> bytes \<Rightarrow> bytes result"
  assumes separator_ok: "key_ok x \<Longrightarrow> key_ok y \<Longrightarrow> cmp x y < 0 \<Longrightarrow>
      \<exists>s. separator b x y = Ok s \<and> key_ok s \<and> (s = x \<or> cmp x s < 0) \<and> cmp s y < 0 \<and> length s \<le> length x"
    and successor_ok: "key_ok x \<Longrightarrow> \<exists>s. successor b x = Ok s \<and> key_ok s \<and> (s = x \<or> cmp x s < 0) \<and> length s \<le> length x"

interpretation bytewise_comparator: comparator Slice_compare "\<lambda>_. True" FindShortestSeparator "\<lambda>_ key. Ok (FindShortSuccessor key)"
proof (unfold_locales, goal_cases)
  case (1 x y b)
  then show ?case using separator_between [of x y b] by (auto simp: Slice_compare_less le_less)
next
  case (2 x b)
  then show ?case using FindShortSuccessor_above [of x] FindShortSuccessor_length [of x] by (auto simp: Slice_compare_less le_less)
qed

end
