(* ===== verification/BlockBuilder.thy ===== *)
theory BlockBuilder
  imports Coding Comparator
begin

text \<open>
  Class \<open>BlockBuilder\<close> of src/src/leveldb/table/block_builder.cc: a block of sorted entries whose keys are stored without
  the bytes they share with the key before, with restart points where a whole key is stored, and the offsets of those at
  the end. The second half gives the format of a block without the builder, and shows that the builder writes it.
\<close>

section \<open>The builder\<close>

record options =
  block_restart_interval :: int
  opt_comparator :: "bytes \<Rightarrow> bytes \<Rightarrow> int"

record block_builder =
  buffer :: bytes
  restarts :: "u32 list"
  counter :: int
  finished :: bool
  last_key :: bytes

definition BlockBuilder :: "build \<Rightarrow> 'z options_scheme \<Rightarrow> block_builder result" where
  "BlockBuilder b opts =
     bind_result (c_assert b (block_restart_interval opts \<ge> 1)) (\<lambda>_.
       Ok \<lparr>buffer = [], restarts = [0], counter = 0, finished = False, last_key = []\<rparr>)"

definition BlockBuilder_Reset :: "block_builder \<Rightarrow> block_builder" where
  "BlockBuilder_Reset s = s\<lparr>buffer := [], restarts := [] @ [0], counter := 0, finished := False, last_key := []\<rparr>"

definition CurrentSizeEstimate :: "block_builder \<Rightarrow> nat" where
  "CurrentSizeEstimate s = length (buffer s) + length (restarts s) * 4 + 4"

function share_loop :: "bytes \<Rightarrow> bytes \<Rightarrow> nat \<Rightarrow> nat \<Rightarrow> nat" where
  "share_loop last_key_piece key min_length shared =
     (if shared < min_length \<and> last_key_piece ! shared = key ! shared
      then share_loop last_key_piece key min_length (shared + 1) else shared)"
  by pat_completeness auto
termination by (relation "measure (\<lambda>(last_key_piece, key, min_length, shared). min_length - shared)") auto

declare share_loop.simps [simp del]

definition BlockBuilder_Add :: "build \<Rightarrow> 'z options_scheme \<Rightarrow> bytes \<Rightarrow> bytes \<Rightarrow> block_builder \<Rightarrow> block_builder result" where
  "BlockBuilder_Add b opts key val s =
     bind_result (c_assert b (\<not> finished s)) (\<lambda>_.
     bind_result (c_assert b (counter s \<le> block_restart_interval opts)) (\<lambda>_.
     bind_result (c_assert b (buffer s = [] \<or> opt_comparator opts key (last_key s) > 0)) (\<lambda>_.
       let (shared, s) =
             (if counter s < block_restart_interval opts
              then (share_loop (last_key s) key (min (length (last_key s)) (length key)) 0, s)
              else (0, s\<lparr>restarts := restarts s @ [word_of_nat (length (buffer s))], counter := 0\<rparr>));
           non_shared = length key - shared;
           buf = PutVarint32 (buffer s) (word_of_nat shared);
           buf = PutVarint32 buf (word_of_nat non_shared);
           buf = PutVarint32 buf (word_of_nat (length val));
           buf = buf @ take non_shared (drop shared key);
           buf = buf @ val;
           last = take shared (last_key s) @ take non_shared (drop shared key)
       in bind_result (c_assert b (last = key)) (\<lambda>_. Ok (s\<lparr>buffer := buf, last_key := last, counter := counter s + 1\<rparr>)))))"

definition BlockBuilder_Finish :: "block_builder \<Rightarrow> bytes \<times> block_builder" where
  "BlockBuilder_Finish s =
     (let buf = fold (\<lambda>r buf. PutFixed32 buf r) (restarts s) (buffer s);
          buf = PutFixed32 buf (word_of_nat (length (restarts s)))
      in (buf, s\<lparr>buffer := buf, finished := True\<rparr>))"

text \<open>A block of some entries, as a table writer makes it.\<close>

fun add_all :: "build \<Rightarrow> 'z options_scheme \<Rightarrow> (bytes \<times> bytes) list \<Rightarrow> block_builder \<Rightarrow> block_builder result" where
  "add_all b opts [] s = Ok s"
| "add_all b opts (e # es) s = bind_result (BlockBuilder_Add b opts (fst e) (snd e) s) (add_all b opts es)"

definition build_block :: "build \<Rightarrow> 'z options_scheme \<Rightarrow> (bytes \<times> bytes) list \<Rightarrow> bytes result" where
  "build_block b opts es =
     bind_result (BlockBuilder b opts) (\<lambda>s. bind_result (add_all b opts es s) (\<lambda>s. Ok (fst (BlockBuilder_Finish s))))"

section \<open>The format\<close>

text \<open>
  An entry whose key shares its first \<open>sh\<close> bytes with the key before; the entries one after the other; where the
  entry with number \<open>i\<close> begins.
\<close>

definition entry_code :: "nat \<Rightarrow> bytes \<times> bytes \<Rightarrow> bytes" where
  "entry_code sh e = varint sh @ varint (length (fst e) - sh) @ varint (length (snd e)) @ drop sh (fst e) @ snd e"

definition layout :: "nat list \<Rightarrow> (bytes \<times> bytes) list \<Rightarrow> bytes" where
  "layout shs es = concat (map2 entry_code shs es)"

definition entry_offset :: "nat list \<Rightarrow> (bytes \<times> bytes) list \<Rightarrow> nat \<Rightarrow> nat" where
  "entry_offset shs es i = length (layout (take i shs) (take i es))"

text \<open>
  What a reader relies on: how many bytes are shared (\<open>shs\<close>) agrees with the keys, and the restart points (\<open>rs\<close>, numbers of
  entries) begin with the first entry, ascend, and are entries that share nothing.
\<close>

definition shares :: "nat list \<Rightarrow> (bytes \<times> bytes) list \<Rightarrow> bool" where
  "shares shs es \<longleftrightarrow> length shs = length es \<and>
     (\<forall>i < length es. shs ! i \<le> length (fst (es ! i)) \<and>
        (if i = 0 then shs ! i = 0
         else shs ! i \<le> length (fst (es ! (i - 1))) \<and> take (shs ! i) (fst (es ! (i - 1))) = take (shs ! i) (fst (es ! i))))"

definition restart_entries :: "nat list \<Rightarrow> nat list \<Rightarrow> bool" where
  "restart_entries shs rs \<longleftrightarrow> rs \<noteq> [] \<and> hd rs = 0 \<and> sorted_wrt (<) rs \<and>
     (\<forall>r \<in> set rs. r = 0 \<or> r < length shs \<and> shs ! r = 0)"

definition block_image :: "nat list \<Rightarrow> (bytes \<times> bytes) list \<Rightarrow> nat list \<Rightarrow> bytes \<Rightarrow> bool" where
  "block_image shs es rs data \<longleftrightarrow> shares shs es \<and> restart_entries shs rs \<and> length data < 2 ^ 32 \<and>
     data = layout shs es @ concat (map (\<lambda>r. store32 (word_of_nat (entry_offset shs es r))) rs) @ store32 (word_of_nat (length rs))"

lemma layout_append:
  "length shs = length es \<Longrightarrow> layout (shs @ [sh]) (es @ [e]) = layout shs es @ entry_code sh e"
  by (simp add: layout_def)

lemma entry_offset_append:
  "i \<le> length es \<Longrightarrow> length shs = length es \<Longrightarrow> entry_offset (shs @ [sh]) (es @ [e]) i = entry_offset shs es i"
  by (simp add: entry_offset_def)

lemma entry_offset_length: "length shs = length es \<Longrightarrow> entry_offset shs es (length es) = length (layout shs es)"
  by (simp add: entry_offset_def)

lemma length_entry_code: "3 \<le> length (entry_code sh e)"
proof -
  have "1 \<le> length (varint n)" for n using varint_not_Nil [of n] by (cases "varint n") simp_all
  from this [of sh] this [of "length (fst e) - sh"] this [of "length (snd e)"] show ?thesis by (simp add: entry_code_def)
qed

section \<open>The builder writes the format\<close>

lemma share_loop_common: "share_loop xs ys (min (length xs) (length ys)) 0 = common xs ys"
proof -
  have "share_loop xs ys m i = diff_loop xs ys m i" for m i
    by (induction xs ys m i rule: share_loop.induct) (subst share_loop.simps, subst diff_loop.simps, simp)
  then show ?thesis by (simp add: diff_loop_common)
qed

text \<open>The builder after adding \<open>es\<close>.\<close>

definition built :: "'z options_scheme \<Rightarrow> nat list \<Rightarrow> (bytes \<times> bytes) list \<Rightarrow> nat list \<Rightarrow> block_builder \<Rightarrow> bool" where
  "built opts shs es rs s \<longleftrightarrow> shares shs es \<and> restart_entries shs rs \<and> \<not> finished s \<and>
     buffer s = layout shs es \<and> restarts s = map (\<lambda>r. word_of_nat (entry_offset shs es r)) rs \<and>
     last_key s = (if es = [] then [] else fst (last es)) \<and> length (last_key s) \<le> length (buffer s) \<and>
     counter s = int (length es - last rs) \<and> counter s \<le> block_restart_interval opts"

lemma shares_append:
  assumes "shares shs es" "sh \<le> length (fst e)"
    "if es = [] then sh = 0 else sh \<le> length (fst (last es)) \<and> take sh (fst (last es)) = take sh (fst e)"
  shows "shares (shs @ [sh]) (es @ [e])"
  using assms
  by (auto simp: shares_def nth_append less_Suc_eq last_conv_nth split: if_splits)

lemma restart_entries_append:
  "restart_entries shs rs \<Longrightarrow> restart_entries (shs @ [sh]) rs"
  "restart_entries shs rs \<Longrightarrow> shs \<noteq> [] \<Longrightarrow> restart_entries (shs @ [0]) (rs @ [length shs])"
  by (auto simp: restart_entries_def nth_append sorted_wrt_append)

lemma restart_entries_less: "restart_entries shs rs \<Longrightarrow> shs \<noteq> [] \<Longrightarrow> r \<in> set rs \<Longrightarrow> r < length shs"
  by (auto simp: restart_entries_def)

text \<open>Adding an entry.\<close>

lemma encode_small: "n < 2 ^ 32 \<Longrightarrow> EncodeVarint32 (word_of_nat n) = varint n"
  by (simp add: EncodeVarint32_varint unat_word32_of_nat)

lemma Add_built:
  assumes built: "built opts shs es rs s" and interval: "1 \<le> block_restart_interval opts"
    and above: "es \<noteq> [] \<Longrightarrow> 0 < opt_comparator opts (fst e) (fst (last es))"
    and fits: "\<And>s'. BlockBuilder_Add Release opts (fst e) (snd e) s = Ok s' \<Longrightarrow> length (buffer s') < 2 ^ 32"
  shows "\<exists>s' sh rs'. (\<forall>b. BlockBuilder_Add b opts (fst e) (snd e) s = Ok s') \<and> built opts (shs @ [sh]) (es @ [e]) rs' s'"
proof -
  obtain k v where e: "e = (k, v)" by (cases e)
  define again where "again \<longleftrightarrow> counter s < block_restart_interval opts"
  define sh where "sh = (if again then common (last_key s) k else 0)"
  define rs' where "rs' = (if again then rs else rs @ [length shs])"
  define s1 where "s1 = (if again then s else s\<lparr>restarts := restarts s @ [word_of_nat (length (buffer s))], counter := 0\<rparr>)"
  define buf where "buf = buffer s @ EncodeVarint32 (word_of_nat sh) @ EncodeVarint32 (word_of_nat (length k - sh)) @
    EncodeVarint32 (word_of_nat (length v)) @ drop sh k @ v"
  define s' where "s' = s1\<lparr>buffer := buf, last_key := k, counter := counter s1 + 1\<rparr>"
  note B = built [unfolded built_def]
  have len: "length shs = length es" using B by (simp add: shares_def)
  have sh: "sh \<le> length (last_key s)" "sh \<le> length k" "take sh (last_key s) = take sh k"
    using common_le [of "last_key s" k] common_take [of sh "last_key s" k] by (auto simp: sh_def)
  have last_k: "take sh (last_key s) @ drop sh k = k" by (simp add: sh(3))
  have old: "buffer s = [] \<or> 0 < opt_comparator opts k (last_key s)"
    using B above by (cases "es = []") (auto simp: e layout_def)
  have guards: "\<not> finished s" "counter s \<le> block_restart_interval opts" using B by simp_all
  have add: "BlockBuilder_Add b opts k v s = Ok s'" for b
    using guards old last_k
    by (cases again) (simp_all add: BlockBuilder_Add_def share_loop_common PutVarint32_def s'_def buf_def sh_def s1_def again_def Let_def)
  have "length buf < 2 ^ 32" using fits [of s'] add by (simp add: e s'_def)
  then have small: "sh < 2 ^ 32" "length k - sh < 2 ^ 32" "length v < 2 ^ 32" and k: "length k \<le> length buf"
    using B sh by (auto simp: buf_def)
  have buf: "buf = layout (shs @ [sh]) (es @ [e])"
    using B len by (simp add: buf_def layout_append entry_code_def e encode_small [OF small(1)] encode_small [OF small(2)] encode_small [OF small(3)])
  have nonempty: "again" if "es = []" using B that interval by (simp add: again_def)
  have r: "r \<le> length es" if "r \<in> set rs" for r using B len that by (auto simp: restart_entries_def)
  have "rs \<noteq> []" using B by (simp add: restart_entries_def)
  then have "last rs \<le> length es" using r last_in_set by blast
  then have cnt: "counter s' = int (length (es @ [e]) - last rs')" "counter s' \<le> block_restart_interval opts"
    using B interval len by (auto simp: s'_def s1_def rs'_def again_def)
  have "shares (shs @ [sh]) (es @ [e])"
    using B sh by (intro shares_append) (auto simp: e split: if_splits)
  moreover have "restart_entries (shs @ [sh]) rs'"
  proof (cases again)
    case True
    then show ?thesis using B restart_entries_append(1) by (simp add: rs'_def)
  next
    case False
    then have "shs \<noteq> []" using nonempty len by auto
    then show ?thesis using False B restart_entries_append(2) by (simp add: rs'_def sh_def)
  qed
  moreover have "restarts s' = map (\<lambda>r. word_of_nat (entry_offset (shs @ [sh]) (es @ [e]) r)) rs'"
    using B len r by (auto simp: s'_def s1_def rs'_def entry_offset_append entry_offset_length)
  ultimately have "built opts (shs @ [sh]) (es @ [e]) rs' s'"
    using B k cnt unfolding built_def by (simp add: e s'_def s1_def buf [symmetric, unfolded e])
  then show ?thesis using add e by auto
qed

lemma Add_Release: "\<exists>s'. BlockBuilder_Add Release opts k v s = Ok s' \<and> length (buffer s) \<le> length (buffer s')"
  by (simp add: BlockBuilder_Add_def PutVarint32_def split: prod.split)

lemma add_all_Release: "\<exists>s'. add_all Release opts es s = Ok s' \<and> length (buffer s) \<le> length (buffer s')"
proof (induction es arbitrary: s)
  case (Cons e es)
  obtain s1 where s1: "BlockBuilder_Add Release opts (fst e) (snd e) s = Ok s1" "length (buffer s) \<le> length (buffer s1)"
    using Add_Release by blast
  from Cons [of s1] s1 show ?case by auto
qed simp

lemma add_all_built:
  assumes "built opts shs es0 rs s" "1 \<le> block_restart_interval opts"
    "sorted_wrt (\<lambda>a b. 0 < opt_comparator opts b a) (map fst (es0 @ es))"
    "add_all Release opts es s = Ok s'" "length (buffer s') < 2 ^ 32"
  shows "(\<forall>b. add_all b opts es s = Ok s') \<and> (\<exists>shs rs. built opts shs (es0 @ es) rs s')"
  using assms
proof (induction es arbitrary: shs es0 rs s)
  case (Cons e es)
  obtain s1 where s1: "BlockBuilder_Add Release opts (fst e) (snd e) s = Ok s1" "add_all Release opts es s1 = Ok s'"
    using Cons.prems(4) by (auto simp: bind_result_eq_Inr)
  then have fits: "length (buffer s1) < 2 ^ 32"
    using add_all_Release [of opts es s1] Cons.prems(5) by auto
  have above: "es0 \<noteq> [] \<Longrightarrow> 0 < opt_comparator opts (fst e) (fst (last es0))"
    using Cons.prems(3) by (auto simp: sorted_wrt_append last_in_set)
  obtain sh rs1 where a: "\<forall>b. BlockBuilder_Add b opts (fst e) (snd e) s = Ok s1" "built opts (shs @ [sh]) (es0 @ [e]) rs1 s1"
    using Add_built [OF Cons.prems(1,2) above] s1 fits by fastforce
  from Cons.IH [OF a(2) Cons.prems(2) _ s1(2) Cons.prems(5)] Cons.prems(3) a(1)
  show ?case by simp
qed auto

lemma put_restarts: "fold (\<lambda>r buf. PutFixed32 buf r) rs buf = buf @ concat (map store32 rs)"
  by (induction rs arbitrary: buf) (simp_all add: PutFixed32_def)

lemma build_block_image:
  assumes "1 \<le> block_restart_interval opts" "sorted_wrt (\<lambda>a b. 0 < opt_comparator opts b a) (map fst es)"
    "build_block Release opts es = Ok data" "length data < 2 ^ 32"
  shows "(\<forall>b. build_block b opts es = Ok data) \<and> (\<exists>shs rs. block_image shs es rs data)"
proof -
  let ?s0 = "\<lparr>buffer = [], restarts = [0], counter = 0, finished = False, last_key = []\<rparr>"
  have s0: "BlockBuilder b opts = Ok ?s0" for b using assms(1) by (simp add: BlockBuilder_def)
  obtain s where s: "add_all Release opts es ?s0 = Ok s" "data = fst (BlockBuilder_Finish s)"
    using assms(3) by (auto simp: build_block_def s0 bind_result_eq_Inr)
  have d: "data = buffer s @ concat (map store32 (restarts s)) @ store32 (word_of_nat (length (restarts s)))"
    using s(2) by (simp add: BlockBuilder_Finish_def put_restarts Let_def) (simp add: PutFixed32_def)
  have "built opts [] [] [0] ?s0"
    using assms(1) by (simp add: built_def shares_def restart_entries_def layout_def entry_offset_def)
  from add_all_built [OF this assms(1) _ s(1)] assms(2,4) d
  obtain shs rs where b: "\<forall>b. add_all b opts es ?s0 = Ok s" "built opts shs es rs s" by auto
  have "block_image shs es rs data"
    using b(2) assms(4) d by (simp add: built_def block_image_def comp_def)
  then show ?thesis using b(1) s(2) by (auto simp: build_block_def s0)
qed

end
