(* ===== verification/Iterators.thy ===== *)
theory Iterators
  imports Comparator
begin

text \<open>
  The interface of all iterators, class \<open>Iterator\<close> of src/include/leveldb/iterator.h, as a record of operations, its
  contract as the locale \<open>sorted_iterator\<close>, the empty iterator of table/iterator.cc, and the caching wrapper of
  table/iterator_wrapper.h, which keeps the contract.
\<close>

section \<open>The interface\<close>

text \<open>\<open>Status\<close> of src/include/leveldb/status.h: the code and the message of an error.\<close>

datatype status = OK | NotFound string | Corruption string | NotSupported string | InvalidArgument string | IOError string

record 'i iter_ops =
  op_Valid :: "'i \<Rightarrow> bool"
  op_key :: "'i \<Rightarrow> bytes result"
  op_value :: "'i \<Rightarrow> bytes result"
  op_status :: "'i \<Rightarrow> status"
  op_Next :: "'i \<Rightarrow> 'i result"
  op_Prev :: "'i \<Rightarrow> 'i result"
  op_Seek :: "bytes \<Rightarrow> 'i \<Rightarrow> 'i result"
  op_SeekToFirst :: "'i \<Rightarrow> 'i result"
  op_SeekToLast :: "'i \<Rightarrow> 'i result"

text \<open>
  The contract: \<open>on es p it\<close> says that \<open>it\<close> runs over the entries \<open>es\<close>, which are in ascending order, and stands on the one
  with number \<open>p\<close>; behind the last entry, and before the first, \<open>p\<close> is the number of entries and the iterator is not valid.
\<close>

locale sorted_iterator = key_order cmp key_ok
  for cmp :: "bytes \<Rightarrow> bytes \<Rightarrow> int" and key_ok :: "bytes \<Rightarrow> bool" +
  fixes ops :: "'i iter_ops" and on :: "(bytes \<times> bytes) list \<Rightarrow> nat \<Rightarrow> 'i \<Rightarrow> bool"
  assumes on_entries: "on es p it \<Longrightarrow> ascending cmp key_ok es \<and> p \<le> length es"
    and on_Valid: "on es p it \<Longrightarrow> op_Valid ops it \<longleftrightarrow> p < length es"
    and on_key: "on es p it \<Longrightarrow> p < length es \<Longrightarrow> op_key ops it = Ok (fst (es ! p))"
    and on_value: "on es p it \<Longrightarrow> p < length es \<Longrightarrow> op_value ops it = Ok (snd (es ! p))"
    and on_status: "on es p it \<Longrightarrow> op_status ops it = OK"
    and on_Next: "on es p it \<Longrightarrow> p < length es \<Longrightarrow> \<exists>it'. op_Next ops it = Ok it' \<and> on es (Suc p) it'"
    and on_Prev: "on es p it \<Longrightarrow> p < length es \<Longrightarrow> \<exists>it'. op_Prev ops it = Ok it' \<and> on es (if p = 0 then length es else p - 1) it'"
    and on_Seek: "on es p it \<Longrightarrow> key_ok target \<Longrightarrow> \<exists>it'. op_Seek ops target it = Ok it' \<and> on es (seek_position cmp target es) it'"
    and on_SeekToFirst: "on es p it \<Longrightarrow> \<exists>it'. op_SeekToFirst ops it = Ok it' \<and> on es 0 it'"
    and on_SeekToLast: "on es p it \<Longrightarrow> \<exists>it'. op_SeekToLast ops it = Ok it' \<and> on es (length es - 1) it'"

text \<open>What a client reads, to the end or to the beginning.\<close>

fun read_forward :: "nat \<Rightarrow> 'i iter_ops \<Rightarrow> 'i \<Rightarrow> (bytes \<times> bytes) list result" where
  "read_forward 0 ops it = Fault Diverges"
| "read_forward (Suc fuel) ops it =
     (if op_Valid ops it then
        bind_result (op_key ops it) (\<lambda>key. bind_result (op_value ops it) (\<lambda>val. bind_result (op_Next ops it) (\<lambda>it.
          bind_result (read_forward fuel ops it) (\<lambda>es. Ok ((key, val) # es)))))
      else Ok [])"

fun read_backward :: "nat \<Rightarrow> 'i iter_ops \<Rightarrow> 'i \<Rightarrow> (bytes \<times> bytes) list result" where
  "read_backward 0 ops it = Fault Diverges"
| "read_backward (Suc fuel) ops it =
     (if op_Valid ops it then
        bind_result (op_key ops it) (\<lambda>key. bind_result (op_value ops it) (\<lambda>val. bind_result (op_Prev ops it) (\<lambda>it.
          bind_result (read_backward fuel ops it) (\<lambda>es. Ok ((key, val) # es)))))
      else Ok [])"

context sorted_iterator
begin

lemma read_forward_on: "on es p it \<Longrightarrow> length es < fuel + p \<Longrightarrow> read_forward fuel ops it = Ok (drop p es)"
proof (induction fuel arbitrary: p it)
  case 0
  then show ?case using on_entries [OF "0.prems"(1)] by simp
next
  case (Suc fuel)
  show ?case
  proof (cases "p < length es")
    case True
    obtain it' where "op_Next ops it = Ok it'" "on es (Suc p) it'" using on_Next [OF Suc.prems(1) True] by blast
    then show ?thesis
      using Suc.IH [of "Suc p" it'] Suc.prems True on_Valid on_key on_value by (simp add: Cons_nth_drop_Suc)
  next
    case False
    then show ?thesis using on_Valid [OF Suc.prems(1)] by simp
  qed
qed

lemma read_backward_on:
  "on es p it \<Longrightarrow> p < length es \<Longrightarrow> Suc p < fuel \<Longrightarrow> read_backward fuel ops it = Ok (rev (take (Suc p) es))"
proof (induction fuel arbitrary: p it)
  case (Suc fuel)
  obtain it' where it': "op_Prev ops it = Ok it'" "on es (if p = 0 then length es else p - 1) it'"
    using on_Prev [OF Suc.prems(1,2)] by blast
  have "read_backward fuel ops it' = Ok (rev (take p es))"
  proof (cases p)
    case 0
    then have "\<not> op_Valid ops it'" using it'(2) on_Valid [OF it'(2)] by simp
    moreover obtain f where "fuel = Suc f" using Suc.prems(3) by (cases fuel) auto
    ultimately show ?thesis using 0 by simp
  next
    case (Suc q)
    then show ?thesis using Suc.IH [of q it'] it'(2) Suc.prems by simp
  qed
  then show ?case
    using Suc.prems it'(1) on_Valid [OF Suc.prems(1)] on_key [OF Suc.prems(1)] on_value [OF Suc.prems(1)]
    by (simp add: take_Suc_conv_app_nth)
qed simp

end

section \<open>The empty iterator\<close>

definition empty_ops :: "build \<Rightarrow> status iter_ops" where
  "empty_ops b =
     \<lparr>op_Valid = (\<lambda>s. False), op_key = (\<lambda>s. bind_result (c_assert b False) (\<lambda>_. Ok [])),
      op_value = (\<lambda>s. bind_result (c_assert b False) (\<lambda>_. Ok [])), op_status = (\<lambda>s. s),
      op_Next = (\<lambda>s. bind_result (c_assert b False) (\<lambda>_. Ok s)), op_Prev = (\<lambda>s. bind_result (c_assert b False) (\<lambda>_. Ok s)),
      op_Seek = (\<lambda>target s. Ok s), op_SeekToFirst = (\<lambda>s. Ok s), op_SeekToLast = (\<lambda>s. Ok s)\<rparr>"

interpretation empty_iterator: sorted_iterator Slice_compare "\<lambda>_. True" "empty_ops b" "\<lambda>es p s. es = [] \<and> p = 0 \<and> s = OK" for b
  by unfold_locales (simp_all add: empty_ops_def ascending_def seek_position_def)

section \<open>The wrapper\<close>

record 'i wrapper =
  w_iter :: "'i option"
  w_valid :: bool
  w_key :: bytes

definition no_wrapper :: "'i wrapper" where
  "no_wrapper = \<lparr>w_iter = None, w_valid = False, w_key = []\<rparr>"

definition wrapper_Update :: "'i iter_ops \<Rightarrow> 'i \<Rightarrow> 'i wrapper \<Rightarrow> 'i wrapper result" where
  "wrapper_Update ops it w =
     (let w = w\<lparr>w_iter := Some it, w_valid := op_Valid ops it\<rparr>
      in if w_valid w then bind_result (op_key ops it) (\<lambda>k. Ok (w\<lparr>w_key := k\<rparr>)) else Ok w)"

definition wrapper_Set :: "'i iter_ops \<Rightarrow> 'i option \<Rightarrow> 'i wrapper \<Rightarrow> 'i wrapper result" where
  "wrapper_Set ops iter w =
     (case iter of None \<Rightarrow> Ok (w\<lparr>w_iter := None, w_valid := False\<rparr>) | Some it \<Rightarrow> wrapper_Update ops it w)"

definition wrapper_key :: "build \<Rightarrow> 'i wrapper \<Rightarrow> bytes result" where
  "wrapper_key b w = bind_result (c_assert b (w_valid w)) (\<lambda>_. Ok (w_key w))"

text \<open>A method of the iterator inside; without one the call goes through a null pointer.\<close>

definition wrapper_value :: "build \<Rightarrow> 'i iter_ops \<Rightarrow> 'i wrapper \<Rightarrow> bytes result" where
  "wrapper_value b ops w =
     bind_result (c_assert b (w_valid w)) (\<lambda>_. case w_iter w of None \<Rightarrow> Fault OutOfBounds | Some it \<Rightarrow> op_value ops it)"

definition wrapper_call :: "build \<Rightarrow> 'i iter_ops \<Rightarrow> ('i \<Rightarrow> 'i result) \<Rightarrow> 'i wrapper \<Rightarrow> 'i wrapper result" where
  "wrapper_call b ops f w =
     bind_result (c_assert b (w_iter w \<noteq> None)) (\<lambda>_.
       case w_iter w of None \<Rightarrow> Fault OutOfBounds | Some it \<Rightarrow> bind_result (f it) (\<lambda>it. wrapper_Update ops it w))"

definition wrapper_ops :: "build \<Rightarrow> 'i iter_ops \<Rightarrow> 'i wrapper iter_ops" where
  "wrapper_ops b ops =
     \<lparr>op_Valid = w_valid, op_key = wrapper_key b, op_value = wrapper_value b ops,
      op_status = (\<lambda>w. case w_iter w of None \<Rightarrow> OK | Some it \<Rightarrow> op_status ops it),
      op_Next = wrapper_call b ops (op_Next ops), op_Prev = wrapper_call b ops (op_Prev ops),
      op_Seek = (\<lambda>target. wrapper_call b ops (op_Seek ops target)), op_SeekToFirst = wrapper_call b ops (op_SeekToFirst ops),
      op_SeekToLast = wrapper_call b ops (op_SeekToLast ops)\<rparr>"

definition wrapped :: "((bytes \<times> bytes) list \<Rightarrow> nat \<Rightarrow> 'i \<Rightarrow> bool) \<Rightarrow> (bytes \<times> bytes) list \<Rightarrow> nat \<Rightarrow> 'i wrapper \<Rightarrow> bool" where
  "wrapped on es p w \<longleftrightarrow> (\<exists>it. w_iter w = Some it \<and> on es p it) \<and> (w_valid w \<longleftrightarrow> p < length es) \<and>
     (p < length es \<longrightarrow> w_key w = fst (es ! p))"

context sorted_iterator
begin

lemma Update_wrapped: "on es p it \<Longrightarrow> \<exists>w'. wrapper_Update ops it w = Ok w' \<and> wrapped on es p w'"
  using on_Valid [of es p it] on_key [of es p it] by (auto simp: wrapper_Update_def wrapped_def Let_def)

lemma call_wrapped:
  assumes "wrapped on es p w" "\<And>it. on es p it \<Longrightarrow> \<exists>it'. f it = Ok it' \<and> on es q it'"
  shows "\<exists>w'. wrapper_call b ops f w = Ok w' \<and> wrapped on es q w'"
proof -
  obtain it where it: "w_iter w = Some it" "on es p it" using assms(1) by (auto simp: wrapped_def)
  obtain it' where "f it = Ok it'" "on es q it'" using assms(2) [OF it(2)] by blast
  then show ?thesis using it(1) Update_wrapped [of es q it' w] by (simp add: wrapper_call_def)
qed

lemma wrapper_contract: "sorted_iterator cmp key_ok (wrapper_ops b ops) (wrapped on)"
proof (unfold_locales, goal_cases)
  case (1 es p w)
  then show ?case by (auto simp: wrapped_def dest: on_entries)
next
  case (2 es p w)
  then show ?case by (simp add: wrapped_def wrapper_ops_def)
next
  case (3 es p w)
  then show ?case by (simp add: wrapped_def wrapper_ops_def wrapper_key_def)
next
  case (4 es p w)
  then show ?case by (auto simp: wrapped_def wrapper_ops_def wrapper_value_def on_value)
next
  case (5 es p w)
  then show ?case by (auto simp: wrapped_def wrapper_ops_def on_status)
next
  case (6 es p w)
  then show ?case by (simp add: wrapper_ops_def call_wrapped on_Next)
next
  case (7 es p w)
  then show ?case using call_wrapped [OF 7(1) on_Prev [OF _ 7(2)]] by (simp add: wrapper_ops_def)
next
  case (8 es p w target)
  then show ?case using call_wrapped [OF 8(1) on_Seek] by (simp add: wrapper_ops_def)
next
  case (9 es p w)
  then show ?case using call_wrapped [OF 9 on_SeekToFirst] by (simp add: wrapper_ops_def)
next
  case (10 es p w)
  then show ?case using call_wrapped [OF 10 on_SeekToLast] by (simp add: wrapper_ops_def)
qed

end

end
