(* ===== verification/TableBlock.thy ===== *)
theory TableBlock
  imports BlockBuilder Iterators
begin

text \<open>
  Classes \<open>Block\<close> and \<open>Block::Iter\<close> of src/src/leveldb/table/block.cc: reading the
  entries of a block. A pointer into the block is an offset from \<open>data_\<close>; a read outside of the block is a fault.
\<close>

section \<open>The block\<close>

record block =
  block_data :: bytes
  block_size :: nat
  restart_offset :: u32

definition NumRestarts :: "bytes \<Rightarrow> nat \<Rightarrow> u32" where
  "NumRestarts data len = DecodeFixed32 data (len - 4)"

text \<open>\<open>restart_offset_\<close> is not set, and not read either, when the size is set to zero.\<close>

definition Block :: "bytes \<Rightarrow> block" where
  "Block contents =
     (let len = length contents
      in if len < 4 then \<lparr>block_data = contents, block_size = 0, restart_offset = 0\<rparr>
         else
           let max_restarts_allowed = (len - 4) div 4
           in if unat (NumRestarts contents len) > max_restarts_allowed
              then \<lparr>block_data = contents, block_size = 0, restart_offset = 0\<rparr>
              else \<lparr>block_data = contents, block_size = len,
                    restart_offset = word_of_nat (len - unat (1 + NumRestarts contents len) * 4)\<rparr>)"

definition DecodeEntry :: "bytes \<Rightarrow> nat \<Rightarrow> nat \<Rightarrow> (u32 \<times> u32 \<times> u32 \<times> nat) option" where
  "DecodeEntry data p limit =
     (if limit < p + 3 then None
      else
        let shared = ucast (data ! p) :: u32; non_shared = ucast (data ! (p + 1)) :: u32; value_length = ucast (data ! (p + 2)) :: u32;
            decoded =
              (if shared OR non_shared OR value_length < 128 then Some (shared, non_shared, value_length, p + 3)
               else case GetVarint32Ptr data p limit of
                      None \<Rightarrow> None
                    | Some (shared, p) \<Rightarrow>
                        (case GetVarint32Ptr data p limit of
                           None \<Rightarrow> None
                         | Some (non_shared, p) \<Rightarrow>
                             (case GetVarint32Ptr data p limit of
                                None \<Rightarrow> None
                              | Some (value_length, p) \<Rightarrow> Some (shared, non_shared, value_length, p))))
        in case decoded of
             None \<Rightarrow> None
           | Some (shared, non_shared, value_length, p) \<Rightarrow>
               if word_of_nat (limit - p) < non_shared + value_length then None
               else Some (shared, non_shared, value_length, p))"

section \<open>The iterator\<close>

text \<open>\<open>value_\<close> is \<open>None\<close> while it does not point into the block: before the first read and after \<open>clear\<close>.\<close>

record block_iter =
  iter_comparator :: "bytes \<Rightarrow> bytes \<Rightarrow> int"
  iter_data :: bytes
  iter_restarts :: u32
  num_restarts :: u32
  current :: u32
  restart_index :: u32
  iter_key :: bytes
  value_slice :: "(nat \<times> u32) option"
  iter_status :: status

definition Block_Iter :: "build \<Rightarrow> (bytes \<Rightarrow> bytes \<Rightarrow> int) \<Rightarrow> bytes \<Rightarrow> u32 \<Rightarrow> u32 \<Rightarrow> block_iter result" where
  "Block_Iter b cmp data off num =
     bind_result (c_assert b (num > 0)) (\<lambda>_.
       Ok \<lparr>iter_comparator = cmp, iter_data = data, iter_restarts = off, num_restarts = num, current = off,
           restart_index = num, iter_key = [], value_slice = None, iter_status = OK\<rparr>)"

definition read_bytes :: "bytes \<Rightarrow> nat \<Rightarrow> nat \<Rightarrow> bytes result" where
  "read_bytes data p n = (if p + n \<le> length data then Ok (take n (drop p data)) else Fault OutOfBounds)"

definition NextEntryOffset :: "block_iter \<Rightarrow> u32 result" where
  "NextEntryOffset it = (case value_slice it of None \<Rightarrow> Fault OutOfBounds | Some (p, len) \<Rightarrow> Ok (word_of_nat p + len))"

definition GetRestartPoint :: "build \<Rightarrow> block_iter \<Rightarrow> u32 \<Rightarrow> u32 result" where
  "GetRestartPoint b it index =
     bind_result (c_assert b (index < num_restarts it)) (\<lambda>_.
       let p = unat (iter_restarts it) + unat index * 4
       in if p + 4 \<le> length (iter_data it) then Ok (DecodeFixed32 (iter_data it) p) else Fault OutOfBounds)"

definition SeekToRestartPoint :: "build \<Rightarrow> u32 \<Rightarrow> block_iter \<Rightarrow> block_iter result" where
  "SeekToRestartPoint b index it =
     (let it = it\<lparr>iter_key := [], restart_index := index\<rparr>
      in bind_result (GetRestartPoint b it index) (\<lambda>offset. Ok (it\<lparr>value_slice := Some (unat offset, 0)\<rparr>)))"

definition CorruptionError :: "block_iter \<Rightarrow> block_iter" where
  "CorruptionError it = it\<lparr>current := iter_restarts it, restart_index := num_restarts it,
     iter_status := Corruption ''bad entry in block'', iter_key := [], value_slice := None\<rparr>"

lemma unat_Suc_less: "x < (n :: u32) \<Longrightarrow> unat (x + 1) = unat x + 1"
  using unat_less_32 [of n] by (auto simp: word_less_nat_alt unat_word_ariths)

lemma unat_pred: "x \<noteq> (0 :: u32) \<Longrightarrow> unat (x - 1) = unat x - 1"
  by (simp add: unat_sub_if_size word_le_nat_alt unat_gt_0 Suc_le_eq)

lemma restart_distance: "x < (n :: u32) \<Longrightarrow> unat (n - (x + 1)) < unat (n - x)"
  using unat_Suc_less [of x n] by (simp add: unat_sub_if_size word_less_nat_alt word_le_nat_alt)

function advance_restart :: "build \<Rightarrow> block_iter \<Rightarrow> u32 \<Rightarrow> u32 result" where
  "advance_restart b it ri =
     (if ri + 1 < num_restarts it then
        (case GetRestartPoint b it (ri + 1) of
           Inl e \<Rightarrow> Inl e
         | Inr offset \<Rightarrow> if offset < current it then advance_restart b it (ri + 1) else Ok ri)
      else Ok ri)"
  by pat_completeness auto
termination by (relation "measure (\<lambda>(b, it, ri). unat (num_restarts it - (ri + 1)))") (auto simp only: in_measure case_prod_conv wf_measure dest: restart_distance)

declare advance_restart.simps [simp del]

definition ParseNextKey :: "build \<Rightarrow> block_iter \<Rightarrow> (bool \<times> block_iter) result" where
  "ParseNextKey b it =
     bind_result (NextEntryOffset it) (\<lambda>offset.
       let it = it\<lparr>current := offset\<rparr>; p = unat offset; limit = unat (iter_restarts it)
       in if p \<ge> limit then Ok (False, it\<lparr>current := iter_restarts it, restart_index := num_restarts it\<rparr>)
          else case DecodeEntry (iter_data it) p limit of
                 None \<Rightarrow> Ok (False, CorruptionError it)
               | Some (shared, non_shared, value_length, p) \<Rightarrow>
                   if length (iter_key it) < unat shared then Ok (False, CorruptionError it)
                   else bind_result (read_bytes (iter_data it) p (unat non_shared)) (\<lambda>delta.
                     let it = it\<lparr>iter_key := take (unat shared) (iter_key it) @ delta,
                                 value_slice := Some (p + unat non_shared, value_length)\<rparr>
                     in bind_result (advance_restart b it (restart_index it)) (\<lambda>ri.
                          Ok (True, it\<lparr>restart_index := ri\<rparr>))))"

definition Iter_Valid :: "block_iter \<Rightarrow> bool" where
  "Iter_Valid it \<longleftrightarrow> current it < iter_restarts it"

definition Iter_key :: "build \<Rightarrow> block_iter \<Rightarrow> bytes result" where
  "Iter_key b it = bind_result (c_assert b (Iter_Valid it)) (\<lambda>_. Ok (iter_key it))"

text \<open>The value with its bytes read, as the client does.\<close>

definition Iter_value :: "build \<Rightarrow> block_iter \<Rightarrow> bytes result" where
  "Iter_value b it =
     bind_result (c_assert b (Iter_Valid it)) (\<lambda>_.
       case value_slice it of None \<Rightarrow> Ok [] | Some (p, len) \<Rightarrow> read_bytes (iter_data it) p (unat len))"

definition Iter_Next :: "build \<Rightarrow> block_iter \<Rightarrow> block_iter result" where
  "Iter_Next b it = bind_result (c_assert b (Iter_Valid it)) (\<lambda>_. bind_result (ParseNextKey b it) (\<lambda>(_, it). Ok it))"

text \<open>
  The loops that call \<open>ParseNextKey\<close> take an amount of fuel; \<open>Suc (unat restarts_)\<close> is always enough, as every call
  moves on by at least one byte.
\<close>

fun scan_until :: "nat \<Rightarrow> build \<Rightarrow> u32 \<Rightarrow> block_iter \<Rightarrow> block_iter result" where
  "scan_until 0 b bound it = Fault Diverges"
| "scan_until (Suc fuel) b bound it =
     bind_result (ParseNextKey b it) (\<lambda>(more, it).
       if more then bind_result (NextEntryOffset it) (\<lambda>offset. if offset < bound then scan_until fuel b bound it else Ok it)
       else Ok it)"

function prev_restart :: "build \<Rightarrow> block_iter \<Rightarrow> u32 \<Rightarrow> u32 \<Rightarrow> u32 option result" where
  "prev_restart b it original ri =
     (case GetRestartPoint b it ri of
        Inl e \<Rightarrow> Inl e
      | Inr offset \<Rightarrow>
          if offset \<ge> original then if ri = 0 then Ok None else prev_restart b it original (ri - 1) else Ok (Some ri))"
  by pat_completeness auto
termination by (relation "measure (\<lambda>(b, it, original, ri). unat ri)") (auto simp: unat_pred unat_gt_0)

declare prev_restart.simps [simp del]

definition Iter_Prev :: "build \<Rightarrow> block_iter \<Rightarrow> block_iter result" where
  "Iter_Prev b it =
     bind_result (c_assert b (Iter_Valid it)) (\<lambda>_.
       let original = current it
       in bind_result (prev_restart b it original (restart_index it)) (\<lambda>found.
            case found of
              None \<Rightarrow> Ok (it\<lparr>current := iter_restarts it, restart_index := num_restarts it\<rparr>)
            | Some ri \<Rightarrow>
                bind_result (SeekToRestartPoint b ri it) (scan_until (Suc (unat (iter_restarts it))) b original)))"

text \<open>The binary search; \<open>None\<close> is the return after \<open>CorruptionError\<close>.\<close>

fun seek_left :: "nat \<Rightarrow> build \<Rightarrow> block_iter \<Rightarrow> bytes \<Rightarrow> u32 \<Rightarrow> u32 \<Rightarrow> u32 option result" where
  "seek_left 0 b it target left right = Fault Diverges"
| "seek_left (Suc fuel) b it target left right =
     (if left < right then
        let mid = (left + right + 1) div 2
        in bind_result (GetRestartPoint b it mid) (\<lambda>region_offset.
             case DecodeEntry (iter_data it) (unat region_offset) (unat (iter_restarts it)) of
               None \<Rightarrow> Ok None
             | Some (shared, non_shared, value_length, key_ptr) \<Rightarrow>
                 if shared \<noteq> 0 then Ok None
                 else bind_result (read_bytes (iter_data it) key_ptr (unat non_shared)) (\<lambda>mid_key.
                   if iter_comparator it mid_key target < 0 then seek_left fuel b it target mid right
                   else seek_left fuel b it target left (mid - 1)))
      else Ok (Some left))"

fun seek_linear :: "nat \<Rightarrow> build \<Rightarrow> bytes \<Rightarrow> block_iter \<Rightarrow> block_iter result" where
  "seek_linear 0 b target it = Fault Diverges"
| "seek_linear (Suc fuel) b target it =
     bind_result (ParseNextKey b it) (\<lambda>(more, it).
       if \<not> more then Ok it
       else if iter_comparator it (iter_key it) target \<ge> 0 then Ok it
       else seek_linear fuel b target it)"

definition Iter_Seek :: "build \<Rightarrow> bytes \<Rightarrow> block_iter \<Rightarrow> block_iter result" where
  "Iter_Seek b target it =
     bind_result (seek_left (Suc (unat (num_restarts it))) b it target 0 (num_restarts it - 1)) (\<lambda>found.
       case found of
         None \<Rightarrow> Ok (CorruptionError it)
       | Some left \<Rightarrow>
           bind_result (SeekToRestartPoint b left it) (seek_linear (Suc (unat (iter_restarts it))) b target))"

definition Iter_SeekToFirst :: "build \<Rightarrow> block_iter \<Rightarrow> block_iter result" where
  "Iter_SeekToFirst b it =
     bind_result (SeekToRestartPoint b 0 it) (\<lambda>it. bind_result (ParseNextKey b it) (\<lambda>(_, it). Ok it))"

definition Iter_SeekToLast :: "build \<Rightarrow> block_iter \<Rightarrow> block_iter result" where
  "Iter_SeekToLast b it =
     bind_result (SeekToRestartPoint b (num_restarts it - 1) it) (scan_until (Suc (unat (iter_restarts it))) b (iter_restarts it))"

datatype block_iterator = EmptyIterator status | Iter block_iter

definition NewIterator :: "build \<Rightarrow> (bytes \<Rightarrow> bytes \<Rightarrow> int) \<Rightarrow> block \<Rightarrow> block_iterator result" where
  "NewIterator b cmp blk =
     (if block_size blk < 4 then Ok (EmptyIterator (Corruption ''bad block contents''))
      else
        let num = NumRestarts (block_data blk) (block_size blk)
        in if num = 0 then Ok (EmptyIterator OK)
           else bind_result (Block_Iter b cmp (block_data blk) (restart_offset blk) num) (\<lambda>it. Ok (Iter it)))"

text \<open>The methods, dispatched over the two classes.\<close>

fun on_iter :: "(status \<Rightarrow> status result) \<Rightarrow> (block_iter \<Rightarrow> block_iter result) \<Rightarrow> block_iterator \<Rightarrow> block_iterator result" where
  "on_iter f g (EmptyIterator s) = bind_result (f s) (\<lambda>s. Ok (EmptyIterator s))"
| "on_iter f g (Iter it) = bind_result (g it) (\<lambda>it. Ok (Iter it))"

definition block_ops :: "build \<Rightarrow> block_iterator iter_ops" where
  "block_ops b =
     \<lparr>op_Valid = case_block_iterator (op_Valid (empty_ops b)) Iter_Valid,
      op_key = case_block_iterator (op_key (empty_ops b)) (Iter_key b),
      op_value = case_block_iterator (op_value (empty_ops b)) (Iter_value b),
      op_status = case_block_iterator (op_status (empty_ops b)) iter_status,
      op_Next = on_iter (op_Next (empty_ops b)) (Iter_Next b),
      op_Prev = on_iter (op_Prev (empty_ops b)) (Iter_Prev b),
      op_Seek = (\<lambda>target. on_iter (op_Seek (empty_ops b) target) (Iter_Seek b target)),
      op_SeekToFirst = on_iter (op_SeekToFirst (empty_ops b)) (Iter_SeekToFirst b),
      op_SeekToLast = on_iter (op_SeekToLast (empty_ops b)) (Iter_SeekToLast b)\<rparr>"

end
