(* ===== verification/BlockSafety.thy ===== *)
theory BlockSafety
  imports TableBlock
begin

text \<open>
  The iterator of a block over any bytes at all: no loop of it runs forever, and what a corrupted block can still do.
\<close>

section \<open>The states a client reaches\<close>

text \<open>\<open>Next\<close> and \<open>Prev\<close> are called on valid iterators only, as src/include/leveldb/iterator.h asks.\<close>

inductive reached :: "build \<Rightarrow> (bytes \<Rightarrow> bytes \<Rightarrow> int) \<Rightarrow> bytes \<Rightarrow> block_iter \<Rightarrow> bool"
  for b cmp contents where
  reached_new: "NewIterator b cmp (Block contents) = Ok (Iter it) \<Longrightarrow> reached b cmp contents it"
| reached_Seek: "reached b cmp contents it \<Longrightarrow> Iter_Seek b target it = Ok it' \<Longrightarrow> reached b cmp contents it'"
| reached_SeekToFirst: "reached b cmp contents it \<Longrightarrow> Iter_SeekToFirst b it = Ok it' \<Longrightarrow> reached b cmp contents it'"
| reached_SeekToLast: "reached b cmp contents it \<Longrightarrow> Iter_SeekToLast b it = Ok it' \<Longrightarrow> reached b cmp contents it'"
| reached_Next: "reached b cmp contents it \<Longrightarrow> Iter_Valid it \<Longrightarrow> Iter_Next b it = Ok it' \<Longrightarrow> reached b cmp contents it'"
| reached_Prev: "reached b cmp contents it \<Longrightarrow> Iter_Valid it \<Longrightarrow> Iter_Prev b it = Ok it' \<Longrightarrow> reached b cmp contents it'"

text \<open>What no operation changes.\<close>

definition same_block :: "block_iter \<Rightarrow> block_iter \<Rightarrow> bool" where
  "same_block it it' \<longleftrightarrow> iter_comparator it' = iter_comparator it \<and> iter_data it' = iter_data it \<and>
     iter_restarts it' = iter_restarts it \<and> num_restarts it' = num_restarts it"

lemma same_block_refl [simp]: "same_block it it"
  by (simp add: same_block_def)

lemma same_block_trans: "same_block it it1 \<Longrightarrow> same_block it1 it2 \<Longrightarrow> same_block it it2"
  by (simp add: same_block_def)

lemma same_block_update [simp]:
  "same_block it (it1\<lparr>current := c\<rparr>) = same_block it it1" "same_block it (it1\<lparr>restart_index := ri\<rparr>) = same_block it it1"
  "same_block it (it1\<lparr>iter_key := k\<rparr>) = same_block it it1" "same_block it (it1\<lparr>value_slice := v\<rparr>) = same_block it it1"
  "same_block it (CorruptionError it1) = same_block it it1"
  by (simp_all add: same_block_def CorruptionError_def)

lemma same_SeekToRestartPoint: "SeekToRestartPoint b ri it = Ok it' \<Longrightarrow> same_block it it'"
  by (auto simp: SeekToRestartPoint_def bind_result_eq_Inr Let_def)

lemma same_ParseNextKey: "ParseNextKey b it = Ok (m, it') \<Longrightarrow> same_block it it'"
  by (auto simp: ParseNextKey_def bind_result_eq_Inr Let_def split: if_splits option.splits)

lemma same_scan_until: "scan_until fuel b bound it = Ok it' \<Longrightarrow> same_block it it'"
  by (induction fuel arbitrary: it)
    (auto simp: bind_result_eq_Inr split: if_splits dest!: same_ParseNextKey intro: same_block_trans)

lemma same_seek_linear: "seek_linear fuel b target it = Ok it' \<Longrightarrow> same_block it it'"
  by (induction fuel arbitrary: it)
    (auto simp: bind_result_eq_Inr split: if_splits dest!: same_ParseNextKey intro: same_block_trans)

lemma same_operations:
  "Iter_Seek b target it = Ok it' \<Longrightarrow> same_block it it'"
  "Iter_SeekToFirst b it = Ok it' \<Longrightarrow> same_block it it'"
  "Iter_SeekToLast b it = Ok it' \<Longrightarrow> same_block it it'"
  "Iter_Next b it = Ok it' \<Longrightarrow> same_block it it'"
  "Iter_Prev b it = Ok it' \<Longrightarrow> same_block it it'"
  by (auto simp: Iter_Seek_def Iter_SeekToFirst_def Iter_SeekToLast_def Iter_Next_def Iter_Prev_def bind_result_eq_Inr Let_def
      simp del: scan_until.simps seek_linear.simps split: option.splits
      dest!: same_ParseNextKey same_SeekToRestartPoint same_scan_until same_seek_linear intro: same_block_trans)

lemma reached_same:
  assumes "reached b cmp contents it"
  obtains it0 where "NewIterator b cmp (Block contents) = Ok (Iter it0)" "same_block it0 it"
proof -
  have "\<exists>it0. NewIterator b cmp (Block contents) = Ok (Iter it0) \<and> same_block it0 it"
    using assms by induction (blast intro: same_block_refl same_block_trans dest: same_operations)+
  then show thesis using that by blast
qed

section \<open>No loop runs forever\<close>

lemma DecodeEntry_inside:
  assumes "DecodeEntry data p limit = Some (shared, non_shared, value_length, q)" "limit < 2 ^ 32"
  shows "p < q \<and> q \<le> limit \<and> unat (non_shared + value_length) \<le> limit - q"
proof -
  have q: "p < q \<and> q \<le> limit" and w: "\<not> word_of_nat (limit - q) < non_shared + value_length"
    using assms(1) by (auto simp: DecodeEntry_def Let_def split: if_splits option.splits prod.splits dest!: GetVarint32Ptr_inside)
  have "unat (word_of_nat (limit - q) :: u32) = limit - q" using assms(2) by (intro unat_word32_of_nat) simp
  then show ?thesis using q w by (simp add: word_less_nat_alt)
qed

text \<open>Every successful call of \<open>ParseNextKey\<close> moves the end of the entry forward, within the entries.\<close>

lemma Parse_progress:
  assumes "ParseNextKey b it = Ok (True, it')" "NextEntryOffset it = Ok offset"
  obtains offset' where "NextEntryOffset it' = Ok offset'" "unat offset < unat offset'" "unat offset' \<le> unat (iter_restarts it)"
proof -
  obtain shared non_shared value_length q where d: "DecodeEntry (iter_data it) (unat offset) (unat (iter_restarts it)) =
      Some (shared, non_shared, value_length, q)" "value_slice it' = Some (q + unat non_shared, value_length)"
    using assms by (auto simp: ParseNextKey_def bind_result_eq_Inr Let_def split: if_splits option.splits prod.splits)
  have lim: "unat (iter_restarts it) < 2 ^ 32" by (rule unat_less_32)
  note i = DecodeEntry_inside [OF d(1) lim]
  have n: "NextEntryOffset it' = Ok (word_of_nat q + (non_shared + value_length))"
    by (simp add: NextEntryOffset_def d(2) add.assoc)
  have "unat (word_of_nat q :: u32) = q" using i lim by (intro unat_word32_of_nat) simp
  then have "unat (word_of_nat q + (non_shared + value_length)) = q + unat (non_shared + value_length)"
    using i lim by (subst unat_word_ariths(1)) (simp, rule mod_less, linarith)
  then show thesis using that [OF n] i by linarith
qed

text \<open>\<open>ends\<close>: whatever else happens, no loop runs out of fuel.\<close>

definition ends :: "'a result \<Rightarrow> bool" where
  "ends r \<longleftrightarrow> r \<noteq> Fault Diverges"

named_theorems ends_intros "parts of operations that end"

lemma ends_simps [simp]: "ends (Ok x)" "ends (Fault OutOfBounds)" "\<not> ends (Fault Diverges)" "ends (c_assert b c)"
  "ends (read_bytes data p n)"
  by (simp_all add: ends_def c_assert_def read_bytes_def)

declare ends_simps(1,2,4,5) [ends_intros]

lemma ends_bind [ends_intros]: "ends m \<Longrightarrow> (\<And>x. m = Ok x \<Longrightarrow> ends (f x)) \<Longrightarrow> ends (bind_result m f)"
  by (cases m) (simp_all add: ends_def)

lemma ends_if [ends_intros]: "(c \<Longrightarrow> ends r) \<Longrightarrow> (\<not> c \<Longrightarrow> ends s) \<Longrightarrow> ends (if c then r else s)"
  by simp

lemma ends_option [ends_intros]:
  "(opt = None \<Longrightarrow> ends r) \<Longrightarrow> (\<And>x. opt = Some x \<Longrightarrow> ends (f x)) \<Longrightarrow> ends (case opt of None \<Rightarrow> r | Some x \<Rightarrow> f x)"
  by (cases opt) simp_all

lemma ends_prod [ends_intros]: "(\<And>x y. p = (x, y) \<Longrightarrow> ends (f x y)) \<Longrightarrow> ends (case p of (x, y) \<Rightarrow> f x y)"
  by (cases p) simp

lemma ends_GetRestartPoint [ends_intros]: "ends (GetRestartPoint b it ri)"
  unfolding GetRestartPoint_def Let_def by (intro ends_intros)

lemma ends_advance_restart [ends_intros]: "ends (advance_restart b it ri)"
proof (induction b it ri rule: advance_restart.induct)
  case (1 b it ri)
  then show ?case
    using ends_GetRestartPoint [of b it "ri + 1"]
    by (cases "GetRestartPoint b it (ri + 1)") (auto simp: advance_restart.simps [of b it ri] ends_def)
qed

lemma ends_NextEntryOffset [ends_intros]: "ends (NextEntryOffset it)"
  unfolding NextEntryOffset_def by (intro ends_intros)

lemma ends_ParseNextKey [ends_intros]: "ends (ParseNextKey b it)"
  unfolding ParseNextKey_def Let_def by (intro ends_intros)

lemma ends_SeekToRestartPoint [ends_intros]: "ends (SeekToRestartPoint b ri it)"
  unfolding SeekToRestartPoint_def Let_def by (intro ends_intros)

lemma ends_prev_restart [ends_intros]: "ends (prev_restart b it original ri)"
proof (induction b it original ri rule: prev_restart.induct)
  case (1 b it original ri)
  then show ?case
    using ends_GetRestartPoint [of b it ri]
    by (cases "GetRestartPoint b it ri") (auto simp: prev_restart.simps [of b it original ri] ends_def)
qed

text \<open>Both loops over \<open>ParseNextKey\<close>: what is left of the entries bounds the number of rounds.\<close>

definition enough_fuel :: "nat \<Rightarrow> block_iter \<Rightarrow> bool" where
  "enough_fuel fuel it \<longleftrightarrow> 0 < fuel \<and> (\<forall>offset. NextEntryOffset it = Ok offset \<longrightarrow> unat (iter_restarts it) < fuel + unat offset)"

lemma enough_fuel_next:
  assumes "enough_fuel (Suc fuel) it" "ParseNextKey b it = Ok (True, it1)"
  shows "enough_fuel fuel it1"
proof -
  obtain offset where o: "NextEntryOffset it = Ok offset" using assms(2) by (auto simp: ParseNextKey_def bind_result_eq_Inr)
  obtain offset' where o': "NextEntryOffset it1 = Ok offset'" "unat offset < unat offset'" "unat offset' \<le> unat (iter_restarts it)"
    by (rule Parse_progress [OF assms(2) o])
  have "iter_restarts it1 = iter_restarts it" using same_ParseNextKey [OF assms(2)] by (simp add: same_block_def)
  then show ?thesis using assms(1) o o' by (auto simp: enough_fuel_def)
qed

lemma ends_scan_until: "enough_fuel fuel it \<Longrightarrow> ends (scan_until fuel b bound it)"
proof (induction fuel arbitrary: it)
  case (Suc fuel)
  show ?case
    unfolding scan_until.simps by (intro ends_intros Suc.IH) (use enough_fuel_next [OF Suc.prems] in simp)
qed (simp add: enough_fuel_def)

lemma ends_seek_linear: "enough_fuel fuel it \<Longrightarrow> ends (seek_linear fuel b target it)"
proof (induction fuel arbitrary: it)
  case (Suc fuel)
  show ?case
    unfolding seek_linear.simps by (intro ends_intros Suc.IH) (use enough_fuel_next [OF Suc.prems] in simp)
qed (simp add: enough_fuel_def)

lemma enough_fuel_restarts: "SeekToRestartPoint b ri it = Ok it1 \<Longrightarrow> enough_fuel (Suc (unat (iter_restarts it))) it1"
  using same_SeekToRestartPoint [of b ri it it1] by (simp add: enough_fuel_def same_block_def)

text \<open>The binary search halves the distance, as long as the sum of two indices does not wrap.\<close>

lemma ends_seek_left:
  assumes "unat right < 2 ^ 31 - 1" "unat right - unat left < fuel" "unat left \<le> unat right"
  shows "ends (seek_left fuel b it target left right)"
  using assms
proof (induction fuel arbitrary: left right)
  case (Suc fuel)
  define mid where "mid = (left + right + 1) div 2"
  have rec: "ends (seek_left fuel b it target mid right)" "ends (seek_left fuel b it target left (mid - 1))"
    if "left < right"
  proof -
    have lr: "unat left < unat right" using that by (simp add: word_less_nat_alt)
    have "unat (left + right + 1) = unat left + unat right + 1"
      using Suc.prems(1,3) by (simp add: unat_word_ariths)
    then have "unat mid = (unat left + unat right + 1) div 2" by (simp add: mid_def unat_div)
    then have mid: "unat left < unat mid" "unat mid \<le> unat right" using lr by linarith+
    have "mid \<noteq> 0" using mid(1) by auto
    then have m1: "unat (mid - 1) = unat mid - 1" by (rule unat_pred)
    show "ends (seek_left fuel b it target mid right)" using Suc.prems mid by (intro Suc.IH) linarith+
    show "ends (seek_left fuel b it target left (mid - 1))" using Suc.prems mid m1 by (intro Suc.IH) linarith+
  qed
  show ?case
    unfolding seek_left.simps Let_def mid_def [symmetric] by (intro ends_intros rec)
qed simp

lemma NewIterator_bounds:
  assumes "NewIterator b cmp (Block contents) = Ok (Iter it)" "length contents < 2 ^ 32"
  shows "unat (num_restarts it) < 2 ^ 30" "num_restarts it \<noteq> 0"
  using assms by (auto simp: NewIterator_def Block_def Block_Iter_def bind_result_eq_Inr Let_def split: if_splits)

text \<open>
  C26: the iterator ends on any bytes. Whatever a block of less than 4 GB contains, in every state a client brings its
  iterator to, every operation returns or stops at a fault: none runs forever, corrupted lengths and restart points included.
\<close>

theorem iterator_ends:
  assumes "reached b cmp contents it" "length contents < 2 ^ 32"
  shows "Fault Diverges \<notin> {Iter_Seek b target it, Iter_SeekToFirst b it, Iter_SeekToLast b it, Iter_Next b it, Iter_Prev b it}"
proof -
  obtain it0 where it0: "NewIterator b cmp (Block contents) = Ok (Iter it0)" "same_block it0 it" by (rule reached_same [OF assms(1)])
  have n: "unat (num_restarts it) < 2 ^ 30" "num_restarts it \<noteq> 0"
    using NewIterator_bounds [OF it0(1) assms(2)] it0(2) by (simp_all add: same_block_def)
  have left: "ends (seek_left (Suc (unat (num_restarts it))) b it target 0 (num_restarts it - 1))"
    using n by (intro ends_seek_left) (simp_all add: unat_pred)
  have "ends (Iter_Seek b target it)" unfolding Iter_Seek_def
    by (intro ends_intros left ends_seek_linear enough_fuel_restarts)
  moreover have "ends (Iter_SeekToFirst b it)" unfolding Iter_SeekToFirst_def by (intro ends_intros)
  moreover have "ends (Iter_SeekToLast b it)" unfolding Iter_SeekToLast_def
    by (intro ends_intros ends_scan_until enough_fuel_restarts)
  moreover have "ends (Iter_Next b it)" unfolding Iter_Next_def by (intro ends_intros)
  moreover have "ends (Iter_Prev b it)" unfolding Iter_Prev_def Let_def
    by (intro ends_intros ends_scan_until enough_fuel_restarts)
  ultimately show ?thesis by (auto simp: ends_def)
qed

text \<open>A corrupted block of sixteen bytes: the length of a value reaches far behind its end.\<close>

definition corrupted :: bytes where
  "corrupted = [0, 1, 255, 255, 255, 255, 15, 107, 0, 0, 0, 0, 1, 0, 0, 0]"

theorem iterator_ends_witness:
  "case NewIterator Debug Slice_compare (Block corrupted) of Ok (Iter it) \<Rightarrow> Iter_Next Debug it \<noteq> Fault Diverges | _ \<Rightarrow> False"
proof -
  have "case NewIterator Debug Slice_compare (Block corrupted) of Ok (Iter it) \<Rightarrow> True | _ \<Rightarrow> False" by code_simp
  then obtain it where it: "NewIterator Debug Slice_compare (Block corrupted) = Ok (Iter it)"
    by (auto split: sum.splits block_iterator.splits)
  have "length corrupted < 2 ^ 32" by (simp add: corrupted_def)
  from iterator_ends [OF reached_new [OF it] this, of "[]"] show ?thesis using it by auto
qed

end
