(* ===== verification/TableFormat.thy ===== *)
theory TableFormat
  imports Iterators CRC32C
begin

text \<open>
  The format of a table file, src/src/leveldb/table/format.cc and format.h: handles of blocks, the footer, and reading a block
  with its trailer. Reading from a file, compression and the addresses of buffers are parameters.
\<close>

section \<open>Parameters\<close>

text \<open>
  A file read at random: \<open>Read(offset, n)\<close> gives a status and the bytes that were read. The functions of port/port_stdcxx.h
  around Snappy: with \<open>HAVE_SNAPPY=0\<close> all of them fail. \<open>env\<close> collects them, with the addresses that buffers get.
\<close>

type_synonym random_file = "u64 \<Rightarrow> nat \<Rightarrow> status \<times> bytes"

record snappy =
  Snappy_Compress :: "bytes \<Rightarrow> bytes option"
  Snappy_GetUncompressedLength :: "bytes \<Rightarrow> nat option"
  Snappy_Uncompress :: "bytes \<Rightarrow> bytes option"

locale compressor =
  fixes snappy :: snappy
  assumes uncompress: "Snappy_Compress snappy raw = Some z \<Longrightarrow>
    Snappy_GetUncompressedLength snappy z = Some (length raw) \<and> Snappy_Uncompress snappy z = Some raw"

definition no_snappy :: snappy where
  "no_snappy = \<lparr>Snappy_Compress = (\<lambda>_. None), Snappy_GetUncompressedLength = (\<lambda>_. None), Snappy_Uncompress = (\<lambda>_. None)\<rparr>"

interpretation no_snappy: compressor no_snappy
  by unfold_locales (simp add: no_snappy_def)

record env =
  env_snappy :: snappy
  address :: "bytes \<Rightarrow> nat"

section \<open>Handles and the footer\<close>

record block_handle =
  bh_offset :: u64
  bh_size :: u64

definition BlockHandle :: block_handle where
  "BlockHandle = \<lparr>bh_offset = NOT 0, bh_size = NOT 0\<rparr>"

definition BlockHandle_EncodeTo :: "build \<Rightarrow> block_handle \<Rightarrow> bytes \<Rightarrow> bytes result" where
  "BlockHandle_EncodeTo b h dst =
     bind_result (c_assert b (bh_offset h \<noteq> NOT 0)) (\<lambda>_.
     bind_result (c_assert b (bh_size h \<noteq> NOT 0)) (\<lambda>_.
       let dst = PutVarint64 dst (bh_offset h);
           dst = PutVarint64 dst (bh_size h)
       in Ok dst))"

definition BlockHandle_DecodeFrom :: "bytes \<Rightarrow> block_handle \<Rightarrow> status \<times> block_handle \<times> bytes" where
  "BlockHandle_DecodeFrom input h =
     (case GetVarint64 input of
        None \<Rightarrow> (Corruption ''bad block handle'', h, input)
      | Some (v, input) \<Rightarrow>
          let h = h\<lparr>bh_offset := v\<rparr>
          in case GetVarint64 input of
               None \<Rightarrow> (Corruption ''bad block handle'', h, input)
             | Some (v, input) \<Rightarrow> (OK, h\<lparr>bh_size := v\<rparr>, input))"

definition kMaxEncodedLength :: nat where
  "kMaxEncodedLength = 10 + 10"

definition kEncodedLength :: nat where
  "kEncodedLength = 2 * kMaxEncodedLength + 8"

definition kTableMagicNumber :: u64 where
  "kTableMagicNumber = 0xdb4775248b80fb57"

definition kBlockTrailerSize :: nat where
  "kBlockTrailerSize = 5"

record footer =
  metaindex_handle :: block_handle
  index_handle :: block_handle

text \<open>\<open>resize\<close> makes the whole string 40 bytes long, which is the place of the padding when the string was empty before.\<close>

definition Footer_EncodeTo :: "build \<Rightarrow> footer \<Rightarrow> bytes \<Rightarrow> bytes result" where
  "Footer_EncodeTo b f dst =
     (let original_size = length dst
      in bind_result (BlockHandle_EncodeTo b (metaindex_handle f) dst) (\<lambda>dst.
         bind_result (BlockHandle_EncodeTo b (index_handle f) dst) (\<lambda>dst.
           let dst = take (2 * kMaxEncodedLength) (dst @ replicate (2 * kMaxEncodedLength - length dst) 0);
               dst = PutFixed32 dst (ucast (kTableMagicNumber AND 0xffffffff));
               dst = PutFixed32 dst (ucast (drop_bit 32 kTableMagicNumber))
           in bind_result (c_assert b (length dst = original_size + kEncodedLength)) (\<lambda>_. Ok dst))))"

text \<open>Less than 48 bytes of input: the magic number is read behind them.\<close>

definition Footer_DecodeFrom :: "bytes \<Rightarrow> (status \<times> footer \<times> bytes) result" where
  "Footer_DecodeFrom input =
     (let magic_ptr = kEncodedLength - 8; none = \<lparr>metaindex_handle = BlockHandle, index_handle = BlockHandle\<rparr>
      in if length input < kEncodedLength then Fault OutOfBounds
         else
           let magic_lo = DecodeFixed32 input magic_ptr;
               magic_hi = DecodeFixed32 input (magic_ptr + 4);
               magic = push_bit 32 (ucast magic_hi) OR ucast magic_lo :: u64
           in if magic \<noteq> kTableMagicNumber then Ok (Corruption ''not an sstable (bad magic number)'', none, input)
              else case BlockHandle_DecodeFrom input BlockHandle of
                (s1, meta, rest) \<Rightarrow>
                  if s1 \<noteq> OK then Ok (s1, none\<lparr>metaindex_handle := meta\<rparr>, rest)
                  else case BlockHandle_DecodeFrom rest BlockHandle of
                    (s2, index, rest) \<Rightarrow>
                      Ok (s2, \<lparr>metaindex_handle = meta, index_handle = index\<rparr>,
                        if s2 = OK then drop (magic_ptr + 8) input else rest))"

section \<open>Reading a block\<close>

text \<open>
  The size is a number of type \<open>size_t\<close>, and the sum with the size of the trailer wraps round. A place behind the bytes
  that were read is outside of the buffer.
\<close>

definition ReadBlock :: "env \<Rightarrow> random_file \<Rightarrow> bool \<Rightarrow> block_handle \<Rightarrow> (status \<times> bytes) result" where
  "ReadBlock e file verify_checksums handle =
     (let n = unat (bh_size handle);
          total = unat (bh_size handle + word_of_nat kBlockTrailerSize);
          (s, contents) = file (bh_offset handle) total
      in if s \<noteq> OK then Ok (s, [])
         else if length contents \<noteq> total then Ok (Corruption ''truncated block read'', [])
         else if length contents \<le> n then Fault OutOfBounds
         else if verify_checksums \<and> length contents < n + kBlockTrailerSize then Fault OutOfBounds
         else if verify_checksums \<and>
           crc32c_Value (address e contents) (take (n + 1) contents) \<noteq> Unmask (DecodeFixed32 contents (n + 1))
         then Ok (Corruption ''block checksum mismatch'', [])
         else if contents ! n = 0 then Ok (OK, take n contents)
         else if contents ! n = 1 then
           let data = take n contents
           in case Snappy_GetUncompressedLength (env_snappy e) data of
                None \<Rightarrow> Ok (Corruption ''corrupted compressed block contents'', [])
              | Some ulength \<Rightarrow>
                  (case Snappy_Uncompress (env_snappy e) data of
                     None \<Rightarrow> Ok (Corruption ''corrupted compressed block contents'', [])
                   | Some ubuf \<Rightarrow> Ok (OK, take ulength ubuf))
         else Ok (Corruption ''bad block type'', []))"

section \<open>Round trips\<close>

lemma EncodeVarint64_small: "length (EncodeVarint64 v) \<le> 10"
proof -
  have "length (varint n) \<le> Suc k" if "n < 128 ^ Suc k" for n k
    using that
  proof (induction k arbitrary: n)
    case (Suc k)
    then show ?case by (cases "n < 128") (simp_all add: varint_less varint_more less_mult_imp_div_less)
  qed (simp add: varint_less)
  moreover have "unat v < 128 ^ Suc 9" using unat_less_64 [of v] by (rule less_le_trans) simp
  ultimately show ?thesis using EncodeVarint64_varint [of v] by fastforce
qed

lemma GetVarint64_Encode: "GetVarint64 (EncodeVarint64 v @ rest) = Some (v, rest)"
  using GetVarint64_append [of "unat v" rest, OF unat_less_64] by (simp add: EncodeVarint64_varint)

definition handle_code :: "block_handle \<Rightarrow> bytes" where
  "handle_code h = EncodeVarint64 (bh_offset h) @ EncodeVarint64 (bh_size h)"

definition handle_set :: "block_handle \<Rightarrow> bool" where
  "handle_set h \<longleftrightarrow> bh_offset h \<noteq> NOT 0 \<and> bh_size h \<noteq> NOT 0"

lemma EncodeTo_code: "handle_set h \<Longrightarrow> BlockHandle_EncodeTo b h dst = Ok (dst @ handle_code h)"
  by (simp add: BlockHandle_EncodeTo_def handle_set_def handle_code_def PutVarint64_def Let_def)

lemma DecodeFrom_code: "BlockHandle_DecodeFrom (handle_code h @ rest) h0 = (OK, h, rest)"
  by (simp add: BlockHandle_DecodeFrom_def handle_code_def GetVarint64_Encode Let_def)

lemma length_handle_code: "length (handle_code h) \<le> 20"
  using EncodeVarint64_small [of "bh_offset h"] EncodeVarint64_small [of "bh_size h"] by (simp add: handle_code_def)

lemma handle_code_inj: "handle_code h = handle_code h' \<Longrightarrow> h = h'"
  using DecodeFrom_code [of h "[]" BlockHandle] DecodeFrom_code [of h' "[]" BlockHandle] by simp

definition footer_code :: "footer \<Rightarrow> bytes" where
  "footer_code f =
     (let hs = handle_code (metaindex_handle f) @ handle_code (index_handle f)
      in hs @ replicate (40 - length hs) 0 @ store32 (ucast kTableMagicNumber) @ store32 (ucast (drop_bit 32 kTableMagicNumber)))"

lemma length_footer_code: "length (footer_code f) = 48"
  using length_handle_code [of "metaindex_handle f"] length_handle_code [of "index_handle f"] by (simp add: footer_code_def Let_def)

lemma Footer_EncodeTo_code:
  assumes "handle_set (metaindex_handle f)" "handle_set (index_handle f)"
  shows "Footer_EncodeTo b f [] = Ok (footer_code f)"
proof -
  have "(ucast (kTableMagicNumber AND 0xffffffff) :: u32) = ucast kTableMagicNumber"
    by (simp add: kTableMagicNumber_def)
  then show ?thesis
    using assms length_handle_code [of "metaindex_handle f"] length_handle_code [of "index_handle f"] length_footer_code [of f]
    by (simp add: Footer_EncodeTo_def EncodeTo_code footer_code_def Let_def PutFixed32_def kMaxEncodedLength_def kEncodedLength_def)
qed

lemma Footer_DecodeFrom_code: "Footer_DecodeFrom (footer_code f) = Ok (OK, f, [])"
proof -
  let ?hs = "handle_code (metaindex_handle f) @ handle_code (index_handle f)"
  have "length ?hs \<le> 40" using length_handle_code [of "metaindex_handle f"] length_handle_code [of "index_handle f"] by simp
  then have magic: "DecodeFixed32 (footer_code f) 40 = ucast kTableMagicNumber"
    "DecodeFixed32 (footer_code f) 44 = ucast (drop_bit 32 kTableMagicNumber)"
    by (simp_all add: DecodeFixed32_def footer_code_def Let_def)
  have "push_bit 32 (ucast (ucast (drop_bit 32 kTableMagicNumber) :: u32)) OR ucast (ucast kTableMagicNumber :: u32) = kTableMagicNumber"
    by (simp add: kTableMagicNumber_def)
  moreover have "\<exists>rest. footer_code f = handle_code (metaindex_handle f) @ handle_code (index_handle f) @ rest"
    by (simp add: footer_code_def Let_def)
  ultimately show ?thesis
    using magic length_footer_code [of f]
    by (auto simp: Footer_DecodeFrom_def Let_def kEncodedLength_def kMaxEncodedLength_def DecodeFrom_code)
qed

text \<open>A file in which what was written can be read.\<close>

locale readable_file =
  fixes rfile :: random_file and contents :: bytes
  assumes read_contents: "rfile off n = (OK, take n (drop (unat off) contents))"

definition memory_file :: "bytes \<Rightarrow> random_file" where
  "memory_file contents off n = (OK, take n (drop (unat off) contents))"

interpretation memory_file: readable_file "memory_file contents" contents
  by unfold_locales (simp add: memory_file_def)

definition trailer_of :: "u8 \<Rightarrow> bytes \<Rightarrow> bytes" where
  "trailer_of type data = type # store32 (Mask (crc32c_spec 0 (data @ [type])))"

definition handle_at :: "nat \<Rightarrow> bytes \<Rightarrow> block_handle" where
  "handle_at off data = \<lparr>bh_offset = word_of_nat off, bh_size = word_of_nat (length data)\<rparr>"

context readable_file
begin

lemma ReadBlock_stored:
  assumes "contents = pre @ data @ trailer_of type data @ post" "length contents < 2 ^ 63"
    and kind: "type = 0 \<and> raw = data \<or> type = 1 \<and> compressor (env_snappy e) \<and> Snappy_Compress (env_snappy e) raw = Some data"
  shows "ReadBlock e rfile verify (handle_at (length pre) data) = Ok (OK, raw)"
proof -
  let ?n = "length data"
  have size: "length pre + ?n + 5 \<le> length contents" using assms(1) by (simp add: trailer_of_def)
  then have n: "unat (word_of_nat ?n :: u64) = ?n" "unat (word_of_nat ?n + 5 :: u64) = ?n + 5" "unat (word_of_nat (length pre) :: u64) = length pre"
    using assms(2) unat_word_of_nat_small [of "?n + 5", where ?'w = 64] unat_word_of_nat_small [of ?n, where ?'w = 64]
      unat_word_of_nat_small [of "length pre", where ?'w = 64] by simp_all
  let ?stored = "data @ trailer_of type data"
  have len: "length ?stored = ?n + 5" by (simp add: trailer_of_def)
  have read: "rfile (word_of_nat (length pre)) (?n + 5) = (OK, ?stored)"
    using assms(1) len by (simp add: read_contents n)
  have crc: "DecodeFixed32 ?stored (?n + 1) = Mask (crc32c_spec 0 (data @ [type]))"
    by (simp add: DecodeFixed32_def trailer_of_def)
  have sum: "crc32c_Value a (take (?n + 1) ?stored) = crc32c_spec 0 (data @ [type])" for a
    by (simp add: crc32c_Value_def Extend_spec trailer_of_def)
  have at: "?stored ! ?n = type" "take ?n ?stored = data" by (simp_all add: trailer_of_def nth_append)
  have "ReadBlock e rfile verify (handle_at (length pre) data) =
     (if type = 0 then Ok (OK, data)
      else if type = 1 then
        (case Snappy_GetUncompressedLength (env_snappy e) data of
           None \<Rightarrow> Ok (Corruption ''corrupted compressed block contents'', [])
         | Some ulength \<Rightarrow> (case Snappy_Uncompress (env_snappy e) data of
             None \<Rightarrow> Ok (Corruption ''corrupted compressed block contents'', [])
           | Some ubuf \<Rightarrow> Ok (OK, take ulength ubuf)))
      else Ok (Corruption ''bad block type'', []))"
    unfolding ReadBlock_def Let_def handle_at_def block_handle.simps kBlockTrailerSize_def of_nat_numeral n(2) read prod.case crc sum n(1) at len
    by (simp add: Unmask_Mask)
  then show ?thesis using kind compressor.uncompress [of "env_snappy e" raw data] by auto
qed

end

end
