(* ===== verification/BloomFilter.thy ===== *)
theory BloomFilter
  imports Coding
begin

text \<open>
  Filters over sets of keys: the interface of src/include/leveldb/filter_policy.h as the locale \<open>filter_policy\<close>, the hash
  function of src/src/leveldb/util/hash.cc, and the bloom filter of util/bloom.cc, which keeps the promise.
\<close>

section \<open>The interface\<close>

text \<open>A policy appends the filter of a list of keys to a string, and looks a key up in a filter.\<close>

record policy =
  policy_Name :: bytes
  policy_CreateFilter :: "bytes list \<Rightarrow> bytes \<Rightarrow> bytes"
  policy_KeyMayMatch :: "bytes \<Rightarrow> bytes \<Rightarrow> bool result"

locale filter_policy =
  fixes policy :: policy
  assumes create_appends: "policy_CreateFilter policy keys dst = dst @ policy_CreateFilter policy keys []"
    and created_matches: "key \<in> set keys \<Longrightarrow> policy_KeyMayMatch policy key (policy_CreateFilter policy keys []) = Ok True"
    and created_answers: "\<exists>answer. policy_KeyMayMatch policy key (policy_CreateFilter policy keys []) = Ok answer"

section \<open>The hash function\<close>

fun hash_words :: "bytes \<Rightarrow> u32 \<Rightarrow> u32 \<times> bytes" where
  "hash_words (a # b # c # d # data) h =
     (let w = DecodeFixed32 (a # b # c # d # data) 0;
          h = h + w;
          h = h * 0xc6a4a793;
          h = h XOR drop_bit 16 h
      in hash_words data h)"
| "hash_words data h = (h, data)"

definition Hash :: "bytes \<Rightarrow> u32 \<Rightarrow> u32" where
  "Hash data seed =
     (let m = 0xc6a4a793; r = 24;
          (h, data) = hash_words data (seed XOR (word_of_nat (length data) * m));
          h = (if length data = 3 then h + push_bit 16 (ucast (data ! 2)) else h);
          h = (if length data \<in> {2, 3} then h + push_bit 8 (ucast (data ! 1)) else h)
      in if length data \<in> {1, 2, 3} then
           let h = h + ucast (data ! 0);
               h = h * m
           in h XOR drop_bit r h
         else h)"

section \<open>The bloom filter\<close>

definition BloomHash :: "bytes \<Rightarrow> u32" where
  "BloomHash key = Hash key 0xbc9f1d34"

record bloom =
  bits_per_key :: nat
  k_probes :: nat

text \<open>
  The factor 0.69 is a floating-point number; up to 43 the products are far enough from an integer for the truncation to be
  exact, and from 44 on the count is cut to 30.
\<close>

definition BloomFilterPolicy :: "nat \<Rightarrow> bloom" where
  "BloomFilterPolicy bpk =
     (let k = bpk * 69 div 100;
          k = (if k < 1 then 1 else k);
          k = (if k > 30 then 30 else k)
      in \<lparr>bits_per_key = bpk, k_probes = k\<rparr>)"

definition rotate_17 :: "u32 \<Rightarrow> u32" where
  "rotate_17 h = drop_bit 17 h OR push_bit 15 h"

text \<open>The positions of the probes: \<open>h % bits\<close>, \<open>(h + delta) % bits\<close> and so on.\<close>

fun set_probes :: "nat \<Rightarrow> nat \<Rightarrow> nat \<Rightarrow> u32 \<Rightarrow> u32 \<Rightarrow> bytes \<Rightarrow> bytes" where
  "set_probes init_size bits 0 h delta dst = dst"
| "set_probes init_size bits (Suc n) h delta dst =
     (let bitpos = unat h mod bits;
          i = init_size + bitpos div 8
      in set_probes init_size bits n (h + delta) delta (dst[i := dst ! i OR push_bit (bitpos mod 8) 1]))"

definition add_key :: "bloom \<Rightarrow> nat \<Rightarrow> nat \<Rightarrow> bytes \<Rightarrow> bytes \<Rightarrow> bytes" where
  "add_key bf init_size bits key dst =
     (let h = BloomHash key; delta = rotate_17 h in set_probes init_size bits (k_probes bf) h delta dst)"

definition bloom_CreateFilter :: "bloom \<Rightarrow> bytes list \<Rightarrow> bytes \<Rightarrow> bytes" where
  "bloom_CreateFilter bf keys dst =
     (let bits = length keys * bits_per_key bf;
          bits = (if bits < 64 then 64 else bits);
          bytes = (bits + 7) div 8;
          bits = bytes * 8;
          init_size = length dst;
          dst = dst @ replicate bytes 0;
          dst = dst @ [word_of_nat (k_probes bf)]
      in fold (add_key bf init_size bits) keys dst)"

fun test_probes :: "bytes \<Rightarrow> nat \<Rightarrow> nat \<Rightarrow> u32 \<Rightarrow> u32 \<Rightarrow> bool" where
  "test_probes array bits 0 h delta = True"
| "test_probes array bits (Suc n) h delta =
     (let bitpos = unat h mod bits
      in if array ! (bitpos div 8) AND push_bit (bitpos mod 8) 1 = 0 then False
         else test_probes array bits n (h + delta) delta)"

text \<open>As a number of type \<open>char\<close> the last byte may be negative; converted to \<open>size_t\<close> it is greater than 30 as well.\<close>

definition bloom_KeyMayMatch :: "bytes \<Rightarrow> bytes \<Rightarrow> bool" where
  "bloom_KeyMayMatch key array =
     (let len = length array
      in if len < 2 then False
         else
           let bits = (len - 1) * 8;
               k = unat (array ! (len - 1))
           in if k > 30 then True
              else let h = BloomHash key; delta = rotate_17 h in test_probes array bits k h delta)"

definition bloom_policy :: "nat \<Rightarrow> policy" where
  "bloom_policy bpk =
     \<lparr>policy_Name = map of_char ''leveldb.BuiltinBloomFilter2'',
      policy_CreateFilter = bloom_CreateFilter (BloomFilterPolicy bpk),
      policy_KeyMayMatch = (\<lambda>key filter. Ok (bloom_KeyMayMatch key filter))\<rparr>"

section \<open>No key is missed\<close>

text \<open>Bits are only set, and only inside the array of the filter.\<close>

definition grown :: "nat \<Rightarrow> nat \<Rightarrow> bytes \<Rightarrow> bytes \<Rightarrow> bool" where
  "grown init bytes dst dst' \<longleftrightarrow> length dst' = length dst \<and> (\<forall>i. i < init \<or> init + bytes \<le> i \<longrightarrow> dst' ! i = dst ! i) \<and>
     (\<forall>i n. bit (dst ! i) n \<longrightarrow> bit (dst' ! i) n)"

lemma grown_refl [simp]: "grown init bytes dst dst"
  by (simp add: grown_def)

lemma grown_trans: "grown init bytes a b \<Longrightarrow> grown init bytes b c \<Longrightarrow> grown init bytes a c"
  by (simp add: grown_def)

lemma grown_set:
  assumes "j < bytes"
  shows "grown init bytes dst (dst[init + j := dst ! (init + j) OR w])"
  using assms by (cases "init + j < length dst") (auto simp: grown_def nth_list_update bit_or_iff list_update_beyond)

lemma test_probes_grown:
  assumes "test_probes (take bytes (drop init dst) @ rest) (bytes * 8) n h delta" "grown init bytes dst dst'"
    "init + bytes \<le> length dst" "0 < bytes"
  shows "test_probes (take bytes (drop init dst') @ rest) (bytes * 8) n h delta"
  using assms(1)
proof (induction n arbitrary: h)
  case (Suc n)
  let ?pos = "unat h mod (bytes * 8)"
  have pos: "?pos div 8 < bytes" using assms(4) by (simp add: less_mult_imp_div_less)
  have "(take bytes (drop init x) @ rest) ! (?pos div 8) = x ! (init + ?pos div 8)" if "length x = length dst" for x
    using pos assms(3) that by (simp add: nth_append)
  moreover have "length dst' = length dst" using assms(2) by (simp add: grown_def)
  moreover have "dst' ! i AND push_bit k 1 \<noteq> 0" if "dst ! i AND push_bit k 1 \<noteq> 0" for i k
    using that assms(2) by (simp add: push_bit_eq_mult and_exp_eq_0_iff_not_bit grown_def)
  ultimately show ?case using Suc by (simp add: Let_def split: if_splits)
qed simp

lemma set_probes_test:
  assumes "init + bytes \<le> length dst" "0 < bytes"
  shows "grown init bytes dst (set_probes init (bytes * 8) n h delta dst) \<and>
    test_probes (take bytes (drop init (set_probes init (bytes * 8) n h delta dst)) @ rest) (bytes * 8) n h delta"
  using assms(1)
proof (induction n arbitrary: h dst)
  case (Suc n)
  let ?pos = "unat h mod (bytes * 8)"
  let ?dst = "dst[init + ?pos div 8 := dst ! (init + ?pos div 8) OR push_bit (?pos mod 8) 1]"
  let ?fin = "set_probes init (bytes * 8) n (h + delta) delta ?dst"
  have pos: "?pos div 8 < bytes" using assms(2) by (simp add: less_mult_imp_div_less)
  have first: "grown init bytes dst ?dst" by (rule grown_set [OF pos])
  have later: "grown init bytes ?dst ?fin" "test_probes (take bytes (drop init ?fin) @ rest) (bytes * 8) n (h + delta) delta"
    using Suc.IH [of ?dst "h + delta"] Suc.prems by simp_all
  have "bit (?dst ! (init + ?pos div 8)) (?pos mod 8)" using pos Suc.prems by (simp add: bit_simps)
  then have "bit (?fin ! (init + ?pos div 8)) (?pos mod 8)" using later(1) unfolding grown_def by blast
  moreover have "length ?fin = length dst" using first later(1) by (simp add: grown_def)
  ultimately have "(take bytes (drop init ?fin) @ rest) ! (?pos div 8) AND push_bit (?pos mod 8) 1 \<noteq> 0"
    using pos Suc.prems by (simp add: nth_append push_bit_eq_mult and_exp_eq_0_iff_not_bit)
  then show ?case using grown_trans [OF first later(1)] later(2) by (simp add: Let_def)
qed simp

lemma add_all_keys:
  assumes "init + bytes \<le> length dst" "0 < bytes"
  shows "grown init bytes dst (fold (add_key bf init (bytes * 8)) keys dst) \<and>
    (\<forall>key \<in> set keys. test_probes (take bytes (drop init (fold (add_key bf init (bytes * 8)) keys dst)) @ rest) (bytes * 8)
      (k_probes bf) (BloomHash key) (rotate_17 (BloomHash key)))"
  using assms(1)
proof (induction keys arbitrary: dst)
  case (Cons key keys)
  let ?dst = "add_key bf init (bytes * 8) key dst"
  note here = set_probes_test [OF Cons.prems assms(2), of "k_probes bf" "BloomHash key" "rotate_17 (BloomHash key)" rest]
  have "init + bytes \<le> length ?dst" using here Cons.prems by (simp add: add_key_def Let_def grown_def)
  note later = Cons.IH [OF this]
  show ?case
    using here later grown_trans [of init bytes dst ?dst]
      test_probes_grown [of bytes init ?dst rest "k_probes bf" "BloomHash key" "rotate_17 (BloomHash key)"]
      \<open>init + bytes \<le> length ?dst\<close> assms(2)
    by (simp add: add_key_def Let_def)
qed simp

lemma set_probes_append:
  assumes "init = length pre + i" "0 < bytes" "i + bytes \<le> length dst"
  shows "set_probes init (bytes * 8) n h delta (pre @ dst) = pre @ set_probes i (bytes * 8) n h delta dst"
  using assms(3)
proof (induction n arbitrary: h dst)
  case (Suc n)
  then show ?case using assms(1) by (simp add: Let_def nth_append list_update_append)
qed simp

lemma length_set_probes: "length (set_probes init bits n h delta dst) = length dst"
  by (induction n arbitrary: h dst) (simp_all add: Let_def)

lemma fold_append:
  assumes "0 < bytes" "bytes \<le> length dst"
  shows "fold (add_key bf (length pre) (bytes * 8)) keys (pre @ dst) = pre @ fold (add_key bf 0 (bytes * 8)) keys dst"
  using assms(2)
proof (induction keys arbitrary: dst)
  case (Cons key keys)
  then show ?case
    using set_probes_append [of "length pre" pre 0 bytes dst] assms(1)
    by (simp add: add_key_def Let_def length_set_probes)
qed simp

definition filter_bytes :: "bloom \<Rightarrow> bytes list \<Rightarrow> nat" where
  "filter_bytes bf keys = (max 64 (length keys * bits_per_key bf) + 7) div 8"

lemma filter_bytes_pos: "8 \<le> filter_bytes bf keys"
  by (simp add: filter_bytes_def)

lemma CreateFilter_fold:
  "bloom_CreateFilter bf keys dst = fold (add_key bf (length dst) (filter_bytes bf keys * 8)) keys
     (dst @ (replicate (filter_bytes bf keys) 0 @ [word_of_nat (k_probes bf)]))"
proof -
  have "(if n < 64 then 64 else n) = max 64 n" for n :: nat by simp
  then show ?thesis by (simp add: bloom_CreateFilter_def Let_def filter_bytes_def)
qed

lemma k_probes_le: "k_probes (BloomFilterPolicy n) \<le> 30"
  by (simp add: BloomFilterPolicy_def Let_def)

lemma bloom_filter_policy: "filter_policy (bloom_policy n)"
proof (unfold_locales, goal_cases)
  case (1 keys dst)
  show ?case
    using fold_append [of "filter_bytes (BloomFilterPolicy n) keys" _ "BloomFilterPolicy n" dst keys] filter_bytes_pos [of "BloomFilterPolicy n" keys]
    by (simp add: bloom_policy_def CreateFilter_fold)
next
  case (2 key keys)
  let ?bf = "BloomFilterPolicy n"
  let ?bytes = "filter_bytes ?bf keys" and ?start = "replicate (filter_bytes ?bf keys) 0 @ [word_of_nat (k_probes ?bf)]"
  let ?array = "fold (add_key ?bf 0 (?bytes * 8)) keys ?start"
  have pos: "0 < ?bytes" using filter_bytes_pos [of ?bf keys] by simp
  have all: "grown 0 ?bytes ?start ?array"
    "test_probes (take ?bytes ?array @ drop ?bytes ?array) (?bytes * 8) (k_probes ?bf) (BloomHash key) (rotate_17 (BloomHash key))"
    using add_all_keys [of 0 ?bytes ?start ?bf keys "drop ?bytes ?array"] pos 2 by simp_all
  have "length ?array = Suc ?bytes" "?array ! ?bytes = word_of_nat (k_probes ?bf)"
    using all(1) by (simp_all add: grown_def nth_append)
  moreover have "unat (word_of_nat (k_probes ?bf) :: u8) = k_probes ?bf" using k_probes_le [of n] by (simp add: unat_of_nat)
  ultimately show ?case
    using all(2) pos k_probes_le [of n] by (simp add: bloom_policy_def CreateFilter_fold bloom_KeyMayMatch_def Let_def)
next
  case (3 key keys)
  show ?case by (simp add: bloom_policy_def)
qed

interpretation bloom: filter_policy "bloom_policy n" for n
  by (rule bloom_filter_policy)

end
