(* ===== verification/FilterBlock.thy ===== *)
theory FilterBlock
  imports BloomFilter
begin

text \<open>
  The block of filters in a table, src/src/leveldb/table/filter_block.cc: one filter for the keys of the data blocks that
  begin in each stretch of two kilobytes of the file.
\<close>

section \<open>The builder\<close>

definition kFilterBaseLg :: nat where
  "kFilterBaseLg = 11"

definition kFilterBase :: nat where
  "kFilterBase = 2 ^ kFilterBaseLg"

record filter_builder =
  fb_policy :: policy
  fb_keys :: bytes
  fb_start :: "nat list"
  fb_result :: bytes
  filter_offsets :: "u32 list"

definition FilterBlockBuilder :: "policy \<Rightarrow> filter_builder" where
  "FilterBlockBuilder policy = \<lparr>fb_policy = policy, fb_keys = [], fb_start = [], fb_result = [], filter_offsets = []\<rparr>"

definition GenerateFilter :: "filter_builder \<Rightarrow> filter_builder" where
  "GenerateFilter s =
     (let num_keys = length (fb_start s)
      in if num_keys = 0 then s\<lparr>filter_offsets := filter_offsets s @ [word_of_nat (length (fb_result s))]\<rparr>
         else
           let start = fb_start s @ [length (fb_keys s)];
               tmp_keys = map (\<lambda>i. take (start ! (i + 1) - start ! i) (drop (start ! i) (fb_keys s))) [0..<num_keys];
               s = s\<lparr>filter_offsets := filter_offsets s @ [word_of_nat (length (fb_result s))]\<rparr>;
               s = s\<lparr>fb_result := policy_CreateFilter (fb_policy s) tmp_keys (fb_result s)\<rparr>
           in s\<lparr>fb_keys := [], fb_start := []\<rparr>)"

lemma filter_offsets_Generate [simp]: "length (filter_offsets (GenerateFilter s)) = Suc (length (filter_offsets s))"
  by (simp add: GenerateFilter_def Let_def)

function start_loop :: "nat \<Rightarrow> filter_builder \<Rightarrow> filter_builder" where
  "start_loop filter_index s =
     (if filter_index > length (filter_offsets s) then start_loop filter_index (GenerateFilter s) else s)"
  by pat_completeness auto
termination by (relation "measure (\<lambda>(filter_index, s). filter_index - length (filter_offsets s))") auto

declare start_loop.simps [simp del]

definition StartBlock :: "build \<Rightarrow> u64 \<Rightarrow> filter_builder \<Rightarrow> filter_builder result" where
  "StartBlock b block_offset s =
     (let filter_index = unat block_offset div kFilterBase
      in bind_result (c_assert b (filter_index \<ge> length (filter_offsets s))) (\<lambda>_. Ok (start_loop filter_index s)))"

definition AddKey :: "bytes \<Rightarrow> filter_builder \<Rightarrow> filter_builder" where
  "AddKey key s = s\<lparr>fb_start := fb_start s @ [length (fb_keys s)], fb_keys := fb_keys s @ key\<rparr>"

definition FilterBlockBuilder_Finish :: "filter_builder \<Rightarrow> bytes \<times> filter_builder" where
  "FilterBlockBuilder_Finish s =
     (let s = (if fb_start s \<noteq> [] then GenerateFilter s else s);
          array_offset = word_of_nat (length (fb_result s));
          s = s\<lparr>fb_result := fold (\<lambda>offset buf. PutFixed32 buf offset) (filter_offsets s) (fb_result s)\<rparr>;
          s = s\<lparr>fb_result := PutFixed32 (fb_result s) array_offset\<rparr>;
          s = s\<lparr>fb_result := fb_result s @ [word_of_nat kFilterBaseLg]\<rparr>
      in (fb_result s, s))"

section \<open>The reader\<close>

record filter_reader =
  fr_policy :: policy
  fr_data :: bytes
  fr_offset :: nat
  fr_num :: nat
  base_lg :: nat

text \<open>A signed \<open>char\<close> converted to \<open>size_t\<close>.\<close>

definition char_size :: "u8 \<Rightarrow> nat" where
  "char_size c = (if c < 128 then unat c else 2 ^ 64 - 256 + unat c)"

definition FilterBlockReader :: "policy \<Rightarrow> bytes \<Rightarrow> filter_reader" where
  "FilterBlockReader policy contents =
     (let r = \<lparr>fr_policy = policy, fr_data = [], fr_offset = 0, fr_num = 0, base_lg = 0\<rparr>;
          n = length contents
      in if n < 5 then r
         else
           let r = r\<lparr>base_lg := char_size (contents ! (n - 1))\<rparr>;
               last_word = unat (DecodeFixed32 contents (n - 5))
           in if last_word > n - 5 then r
              else r\<lparr>fr_data := contents, fr_offset := last_word, fr_num := (n - 5 - last_word) div 4\<rparr>)"

definition FilterBlock_KeyMayMatch :: "u64 \<Rightarrow> bytes \<Rightarrow> filter_reader \<Rightarrow> bool result" where
  "FilterBlock_KeyMayMatch block_offset key r =
     (if base_lg r \<ge> 64 then Fault Overflow
      else
        let index = unat (drop_bit (base_lg r) block_offset)
        in if index < fr_num r then
             let start = unat (DecodeFixed32 (fr_data r) (fr_offset r + index * 4));
                 limit = unat (DecodeFixed32 (fr_data r) (fr_offset r + index * 4 + 4))
             in if start \<le> limit \<and> limit \<le> fr_offset r then
                  policy_KeyMayMatch (fr_policy r) key (take (limit - start) (drop start (fr_data r)))
                else if start = limit then Ok False
                else Ok True
           else Ok True)"

section \<open>What the builder holds\<close>

text \<open>The keys of each filter that is done (\<open>groups\<close>), and those of the next one (\<open>pending\<close>).\<close>

definition filter_of :: "policy \<Rightarrow> bytes list \<Rightarrow> bytes" where
  "filter_of policy keys = (if keys = [] then [] else policy_CreateFilter policy keys [])"

definition filters_before :: "policy \<Rightarrow> bytes list list \<Rightarrow> nat \<Rightarrow> bytes" where
  "filters_before policy groups i = concat (map (filter_of policy) (take i groups))"

definition holds_filters :: "policy \<Rightarrow> bytes list list \<Rightarrow> bytes list \<Rightarrow> filter_builder \<Rightarrow> bool" where
  "holds_filters policy groups pending s \<longleftrightarrow> fb_policy s = policy \<and> fb_keys s = concat pending \<and>
     fb_start s = map (\<lambda>i. length (concat (take i pending))) [0..<length pending] \<and>
     fb_result s = filters_before policy groups (length groups) \<and>
     filter_offsets s = map (\<lambda>i. word_of_nat (length (filters_before policy groups i))) [0..<length groups]"

lemma filters_before_append: "i \<le> length groups \<Longrightarrow> filters_before policy (groups @ rest) i = filters_before policy groups i"
  by (simp add: filters_before_def)

lemma filters_before_Suc: "i < length groups \<Longrightarrow> filters_before policy groups (Suc i) = filters_before policy groups i @ filter_of policy (groups ! i)"
  by (simp add: filters_before_def take_Suc_conv_app_nth)

lemma filters_before_mono: "i \<le> j \<Longrightarrow> length (filters_before policy groups i) \<le> length (filters_before policy groups j)"
proof (induction j rule: dec_induct)
  case (step j)
  then show ?case by (cases "j < length groups") (simp_all add: filters_before_Suc, simp add: filters_before_def)
qed simp

lemma holds_new: "holds_filters policy [] [] (FilterBlockBuilder policy)"
  by (simp add: holds_filters_def FilterBlockBuilder_def filters_before_def)

lemma holds_AddKey: "holds_filters policy groups pending s \<Longrightarrow> holds_filters policy groups (pending @ [key]) (AddKey key s)"
  by (simp add: holds_filters_def AddKey_def)

lemma piece_of_concat:
  "i < length xss \<Longrightarrow> take (length (concat (take (Suc i) xss)) - length (concat (take i xss))) (drop (length (concat (take i xss))) (concat xss)) = xss ! i"
proof -
  assume i: "i < length xss"
  have "concat xss = concat (take i xss) @ xss ! i @ concat (drop (Suc i) xss)"
    using i by (metis concat.simps(2) concat_append id_take_nth_drop)
  then show ?thesis using i by (simp add: take_Suc_conv_app_nth)
qed

context filter_policy
begin

lemma holds_Generate:
  assumes "holds_filters policy groups pending s"
  shows "holds_filters policy (groups @ [pending]) [] (GenerateFilter s)"
proof -
  let ?start = "fb_start s @ [length (fb_keys s)]"
  have at: "?start ! i = length (concat (take i pending))" if "i \<le> length pending" for i
    using assms that by (auto simp: holds_filters_def nth_append)
  have pieces: "map (\<lambda>i. take (?start ! (i + 1) - ?start ! i) (drop (?start ! i) (fb_keys s))) [0..<length pending] = pending"
  proof (rule map_upt_eqI)
    fix i assume "i < length pending"
    moreover have "fb_keys s = concat pending" using assms by (simp add: holds_filters_def)
    ultimately show "pending ! i = take (?start ! (0 + i + 1) - ?start ! (0 + i)) (drop (?start ! (0 + i)) (fb_keys s))"
      using piece_of_concat [of i pending] at [of i] at [of "Suc i"] by simp
  qed simp
  have create: "policy_CreateFilter policy pending dst = dst @ policy_CreateFilter policy pending []" for dst
    by (rule create_appends)
  have offsets: "map (\<lambda>i. word_of_nat (length (filters_before policy groups i))) [0..<length groups] @
      [word_of_nat (length (filters_before policy groups (length groups)))] =
    map (\<lambda>i. word_of_nat (length (filters_before policy (groups @ [pending]) i)) :: u32) [0..<length (groups @ [pending])]"
    by (simp add: filters_before_append)
  have all: "filters_before policy (groups @ [pending]) (length (groups @ [pending])) =
      filters_before policy groups (length groups) @ filter_of policy pending"
    by (simp add: filters_before_def)
  show ?thesis
  proof (cases "pending = []")
    case True
    then show ?thesis using assms offsets all by (simp add: holds_filters_def GenerateFilter_def filter_of_def)
  next
    case False
    have p: "fb_policy s = policy" "length (fb_start s) = length pending" using assms by (simp_all add: holds_filters_def)
    show ?thesis
      using assms False offsets all create [of "filters_before policy groups (length groups)"]
      unfolding GenerateFilter_def Let_def p pieces by (simp add: holds_filters_def filter_of_def p)
  qed
qed

text \<open>Starting a block generates the filters before it.\<close>

lemma holds_start_loop:
  assumes "holds_filters policy groups pending s" "length groups \<le> i"
  shows "holds_filters policy
    (if length groups < i then groups @ [pending] @ replicate (i - length groups - 1) [] else groups)
    (if length groups < i then [] else pending) (start_loop i s)"
  using assms
proof (induction i s arbitrary: groups pending rule: start_loop.induct)
  case (1 i s)
  have n: "length (filter_offsets s) = length groups" using 1(2) by (simp add: holds_filters_def)
  show ?case
  proof (cases "length groups < i")
    case True
    have "holds_filters policy (groups @ [pending]) [] (GenerateFilter s)" by (rule holds_Generate [OF 1(2)])
    moreover have "length (filter_offsets s) < i" "length (groups @ [pending]) \<le> i" using True n by simp_all
    ultimately have ih: "holds_filters policy
        (if Suc (length groups) < i then (groups @ [pending]) @ [[]] @ replicate (i - Suc (length groups) - 1) [] else groups @ [pending])
        (if Suc (length groups) < i then [] else []) (start_loop i (GenerateFilter s))"
      using 1(1) [of "groups @ [pending]" "[]"] by (cases "Suc (length groups) < i") simp_all
    have groups: "(if Suc (length groups) < i then (groups @ [pending]) @ [[]] @ replicate (i - Suc (length groups) - 1) [] else groups @ [pending]) =
        groups @ [pending] @ replicate (i - length groups - 1) []"
    proof (cases "Suc (length groups) < i")
      case True
      then have "i - length groups - 1 = Suc (i - Suc (length groups) - 1)" by simp
      then show ?thesis using True by (simp only: if_True replicate_Suc) simp
    next
      case False
      then show ?thesis using \<open>length groups < i\<close> by simp
    qed
    have "start_loop i s = start_loop i (GenerateFilter s)"
      by (subst start_loop.simps [of i s]) (simp only: n True if_True)
    then show ?thesis using ih True unfolding groups by simp
  next
    case False
    then have "start_loop i s = s" by (subst start_loop.simps) (simp only: n if_False)
    then show ?thesis using False 1(2) by simp
  qed
qed

text \<open>Looking a key up in the finished block.\<close>

lemma put_offsets: "fold (\<lambda>offset buf. PutFixed32 buf offset) os buf = buf @ concat (map store32 os)"
  by (induction os arbitrary: buf) (simp_all add: PutFixed32_def)

lemma take_drop_offsets:
  "i < length os \<Longrightarrow> take 4 (drop (4 * i) (concat (map store32 os) @ rest)) = store32 (os ! i)"
proof (induction os arbitrary: i)
  case (Cons o1 os)
  then show ?case by (cases i) simp_all
qed simp

lemma Finish_image:
  assumes "holds_filters policy groups pending s" "FilterBlockBuilder_Finish s = (data, s')"
  obtains groups' offsets where "groups' = (if pending = [] then groups else groups @ [pending])"
    "offsets = map (\<lambda>i. word_of_nat (length (filters_before policy groups' i)) :: u32) [0..<Suc (length groups')]"
    "data = filters_before policy groups' (length groups') @ concat (map store32 offsets) @ [11]"
proof -
  define groups' where "groups' = (if pending = [] then groups else groups @ [pending])"
  define t where "t = (if fb_start s \<noteq> [] then GenerateFilter s else s)"
  have "fb_start s = [] \<longleftrightarrow> pending = []" using assms(1) by (simp add: holds_filters_def)
  then have t: "holds_filters policy groups' [] t"
    using assms(1) holds_Generate [OF assms(1)] by (cases "pending = []") (simp_all add: t_def groups'_def)
  have "data = fb_result t @ concat (map store32 (filter_offsets t)) @ store32 (word_of_nat (length (fb_result t))) @ [11]"
    using assms(2) unfolding FilterBlockBuilder_Finish_def Let_def t_def [symmetric] put_offsets
    by (auto simp: PutFixed32_def kFilterBaseLg_def)
  then show thesis using t that [OF groups'_def refl] by (simp add: holds_filters_def)
qed

text \<open>A lookup asks the policy for the filter of the keys that were added for the offset, when there are any.\<close>

lemma KeyMayMatch_group:
  assumes "holds_filters policy groups pending s" "FilterBlockBuilder_Finish s = (data, s')" "length data < 2 ^ 32"
    and found: "i < length groups \<and> keys = groups ! i \<or> i = length groups \<and> keys = pending" and some: "keys \<noteq> []"
    and i: "i = unat block_offset div kFilterBase"
  shows "FilterBlock_KeyMayMatch block_offset key (FilterBlockReader policy data) =
    policy_KeyMayMatch policy key (policy_CreateFilter policy keys [])"
proof -
  obtain groups' offsets where g: "groups' = (if pending = [] then groups else groups @ [pending])"
    "offsets = map (\<lambda>i. word_of_nat (length (filters_before policy groups' i)) :: u32) [0..<Suc (length groups')]"
    "data = filters_before policy groups' (length groups') @ concat (map store32 offsets) @ [11]"
    by (rule Finish_image [OF assms(1,2)])
  let ?n = "length groups'" and ?filters = "filters_before policy groups' (length groups')"
  have key: "i < ?n" "groups' ! i = keys" using found some g(1) by (auto simp: nth_append)
  have "length (concat (map store32 offsets)) = 4 * length offsets" using length_concat_store32 [of "\<lambda>x. x" offsets] by simp
  then have size: "length data = length ?filters + 4 * Suc ?n + 1" unfolding g(3) by (simp add: g(2) del: upt_Suc)
  have at: "DecodeFixed32 data (length ?filters + 4 * j) = word_of_nat (length (filters_before policy groups' j))" if "j \<le> ?n" for j
    using take_drop_offsets [of j offsets "[11]"] that g(2,3) by (simp add: DecodeFixed32_def nth_append del: upt_Suc)
  have small: "unat (word_of_nat (length (filters_before policy groups' j)) :: u32) = length (filters_before policy groups' j)" if "j \<le> ?n" for j
    using filters_before_mono [OF that, of policy groups'] size assms(3) by (intro unat_word32_of_nat) simp
  let ?r = "FilterBlockReader policy data"
  have last: "data ! (length data - 1) = 11" using g(3) by (simp add: nth_append)
  have word: "unat (DecodeFixed32 data (length data - 5)) = length ?filters" using at [of ?n] small [of ?n] size by simp
  have r: "?r = \<lparr>fr_policy = policy, fr_data = data, fr_offset = length ?filters, fr_num = ?n, base_lg = 11\<rparr>"
    using size word last by (simp add: FilterBlockReader_def Let_def char_size_def)
  have index: "unat (drop_bit 11 block_offset) = i"
    using i by (simp add: unat_drop_bit kFilterBase_def kFilterBaseLg_def)
  have filter: "take (length (filters_before policy groups' (Suc i)) - length (filters_before policy groups' i))
      (drop (length (filters_before policy groups' i)) data) = policy_CreateFilter policy keys []"
  proof -
    have "filters_before policy groups' (Suc i) = filters_before policy groups' i @ filter_of policy (groups' ! i)"
      using key(1) by (rule filters_before_Suc)
    moreover have "\<exists>tl. ?filters = filters_before policy groups' (Suc i) @ tl"
    proof -
      have "groups' = take (Suc i) groups' @ drop (Suc i) groups'" by simp
      then have "?filters = filters_before policy groups' (Suc i) @ concat (map (filter_of policy) (drop (Suc i) groups'))"
        unfolding filters_before_def by (metis concat_append map_append take_all_iff le_refl)
      then show ?thesis ..
    qed
    ultimately show ?thesis using g(3) key(2) some by (auto simp: filter_of_def)
  qed
  have mono: "length (filters_before policy groups' i) \<le> length (filters_before policy groups' (Suc i))"
    "length (filters_before policy groups' (Suc i)) \<le> length ?filters"
    using key(1) by (simp_all add: filters_before_mono Suc_leI)
  have "DecodeFixed32 data (length ?filters + i * 4) = word_of_nat (length (filters_before policy groups' i))"
    "DecodeFixed32 data (length ?filters + i * 4 + 4) = word_of_nat (length (filters_before policy groups' (Suc i)))"
    using at [of i] at [of "Suc i"] key(1) by (simp_all add: algebra_simps)
  then show ?thesis
    using mono key small [of i] small [of "Suc i"]
    by (simp add: r FilterBlock_KeyMayMatch_def Let_def index filter)
qed

end

end
