(* ===== verification/TableBuilder.thy ===== *)
theory TableBuilder
  imports TableFormat FilterBlock BlockBuilder TableBlock
begin

text \<open>
  Writing a table file, src/src/leveldb/table/table_builder.cc: data blocks, an index entry for each of them once the next key is
  known, the filters, the metaindex and index blocks and the footer.
\<close>

section \<open>The builder\<close>

datatype compression_type = kNoCompression | kSnappyCompression

definition compression_byte :: "compression_type \<Rightarrow> u8" where
  "compression_byte c = (case c of kNoCompression \<Rightarrow> 0 | kSnappyCompression \<Rightarrow> 1)"

text \<open>
  The options of src/include/leveldb/options.h that tables use, with the functions of the comparator. The block cache is a function
  from keys to blocks.
\<close>

record table_options = options +
  opt_separator :: "build \<Rightarrow> bytes \<Rightarrow> bytes \<Rightarrow> bytes result"
  opt_successor :: "build \<Rightarrow> bytes \<Rightarrow> bytes result"
  block_size :: nat
  compression :: compression_type
  paranoid_checks :: bool
  opt_policy :: "policy option"
  block_cache :: "(bytes \<Rightarrow> block option) option"

record 'f writable =
  wf_Append :: "bytes \<Rightarrow> 'f \<Rightarrow> status \<times> 'f"
  wf_Flush :: "'f \<Rightarrow> status \<times> 'f"

record 'f table_builder =
  tb_options :: table_options
  index_block_options :: table_options
  tb_file :: 'f
  tb_offset :: u64
  tb_status :: status
  data_block :: block_builder
  index_block :: block_builder
  tb_last_key :: bytes
  num_entries :: nat
  tb_closed :: bool
  filter_block :: "filter_builder option"
  pending_index_entry :: bool
  pending_handle :: block_handle

definition TableBuilder :: "build \<Rightarrow> table_options \<Rightarrow> 'f \<Rightarrow> 'f table_builder result" where
  "TableBuilder b opts f =
     bind_result (BlockBuilder b opts) (\<lambda>data. bind_result (BlockBuilder b opts) (\<lambda>index.
       let r = \<lparr>tb_options = opts, index_block_options = opts\<lparr>block_restart_interval := 1\<rparr>, tb_file = f, tb_offset = 0,
                tb_status = OK, data_block = data, index_block = index, tb_last_key = [], num_entries = 0, tb_closed = False,
                filter_block = map_option FilterBlockBuilder (opt_policy opts), pending_index_entry = False,
                pending_handle = BlockHandle\<rparr>
       in case filter_block r of
            None \<Rightarrow> Ok r
          | Some fb \<Rightarrow> bind_result (StartBlock b 0 fb) (\<lambda>fb. Ok (r\<lparr>filter_block := Some fb\<rparr>))))"

text \<open>Comparators are the same when their functions are; this is decided outside.\<close>

definition ChangeOptions :: "bool \<Rightarrow> table_options \<Rightarrow> 'f table_builder \<Rightarrow> status \<times> 'f table_builder" where
  "ChangeOptions same_comparator opts r =
     (if \<not> same_comparator then (InvalidArgument ''changing comparator while building table'', r)
      else (OK, r\<lparr>tb_options := opts, index_block_options := opts\<lparr>block_restart_interval := 1\<rparr>\<rparr>))"

definition tb_ok :: "'f table_builder \<Rightarrow> bool" where
  "tb_ok r \<longleftrightarrow> tb_status r = OK"

definition WriteRawBlock :: "env \<Rightarrow> 'f writable \<Rightarrow> bytes \<Rightarrow> compression_type \<Rightarrow> 'f table_builder \<Rightarrow> block_handle \<times> 'f table_builder" where
  "WriteRawBlock e w block_contents ctype r =
     (let handle = \<lparr>bh_offset = tb_offset r, bh_size = word_of_nat (length block_contents)\<rparr>;
          (s, f) = wf_Append w block_contents (tb_file r);
          r = r\<lparr>tb_status := s, tb_file := f\<rparr>
      in if s = OK then
           let trailer = [compression_byte ctype];
               crc = crc32c_Value (address e block_contents) block_contents;
               crc = Extend (address e trailer) crc trailer;
               trailer = trailer @ store32 (Mask crc);
               (s, f) = wf_Append w trailer (tb_file r);
               r = r\<lparr>tb_status := s, tb_file := f\<rparr>
           in (handle, if s = OK then r\<lparr>tb_offset := tb_offset r + word_of_nat (length block_contents + kBlockTrailerSize)\<rparr> else r)
         else (handle, r))"

definition WriteBlock :: "build \<Rightarrow> env \<Rightarrow> 'f writable \<Rightarrow> block_builder \<Rightarrow> 'f table_builder \<Rightarrow>
    (block_builder \<times> block_handle \<times> 'f table_builder) result" where
  "WriteBlock b e w block r =
     bind_result (c_assert b (tb_ok r)) (\<lambda>_.
       let (raw, block) = BlockBuilder_Finish block;
           (block_contents, ctype) =
             (case compression (tb_options r) of
                kNoCompression \<Rightarrow> (raw, kNoCompression)
              | kSnappyCompression \<Rightarrow>
                  (case Snappy_Compress (env_snappy e) raw of
                     Some compressed \<Rightarrow>
                       if length compressed < length raw - length raw div 8 then (compressed, kSnappyCompression)
                       else (raw, kNoCompression)
                   | None \<Rightarrow> (raw, kNoCompression)));
           (handle, r) = WriteRawBlock e w block_contents ctype r
       in Ok (BlockBuilder_Reset block, handle, r))"

definition tb_Flush :: "build \<Rightarrow> env \<Rightarrow> 'f writable \<Rightarrow> 'f table_builder \<Rightarrow> 'f table_builder result" where
  "tb_Flush b e w r =
     bind_result (c_assert b (\<not> tb_closed r)) (\<lambda>_.
       if \<not> tb_ok r then Ok r
       else if buffer (data_block r) = [] then Ok r
       else bind_result (c_assert b (\<not> pending_index_entry r)) (\<lambda>_.
         bind_result (WriteBlock b e w (data_block r) r) (\<lambda>(block, handle, r).
           let r = r\<lparr>data_block := block, pending_handle := handle\<rparr>;
               r = (if tb_ok r then
                      let r = r\<lparr>pending_index_entry := True\<rparr>; (s, f) = wf_Flush w (tb_file r)
                      in r\<lparr>tb_status := s, tb_file := f\<rparr>
                    else r)
           in case filter_block r of
                None \<Rightarrow> Ok r
              | Some fb \<Rightarrow> bind_result (StartBlock b (tb_offset r) fb) (\<lambda>fb. Ok (r\<lparr>filter_block := Some fb\<rparr>)))))"

text \<open>The entry of the index for a finished block, with a key that \<open>key\<close> computes from the last one of the block.\<close>

definition add_index_entry :: "build \<Rightarrow> (bytes \<Rightarrow> bytes result) \<Rightarrow> 'f table_builder \<Rightarrow> 'f table_builder result" where
  "add_index_entry b key r =
     bind_result (key (tb_last_key r)) (\<lambda>last.
       let r = r\<lparr>tb_last_key := last\<rparr>
       in bind_result (BlockHandle_EncodeTo b (pending_handle r) []) (\<lambda>handle_encoding.
          bind_result (BlockBuilder_Add b (index_block_options r) (tb_last_key r) handle_encoding (index_block r)) (\<lambda>index.
            Ok (r\<lparr>index_block := index, pending_index_entry := False\<rparr>))))"

definition tb_Add :: "build \<Rightarrow> env \<Rightarrow> 'f writable \<Rightarrow> bytes \<Rightarrow> bytes \<Rightarrow> 'f table_builder \<Rightarrow> 'f table_builder result" where
  "tb_Add b e w key val r =
     bind_result (c_assert b (\<not> tb_closed r)) (\<lambda>_.
       if \<not> tb_ok r then Ok r
       else
         bind_result (if num_entries r > 0 then c_assert b (opt_comparator (tb_options r) key (tb_last_key r) > 0) else Ok ()) (\<lambda>_.
         bind_result
           (if pending_index_entry r then
              bind_result (c_assert b (buffer (data_block r) = [])) (\<lambda>_.
                add_index_entry b (\<lambda>last. opt_separator (tb_options r) b last key) r)
            else Ok r) (\<lambda>r.
         let r = r\<lparr>filter_block := map_option (AddKey key) (filter_block r)\<rparr>;
             r = r\<lparr>tb_last_key := key\<rparr>;
             r = r\<lparr>num_entries := num_entries r + 1\<rparr>
         in bind_result (BlockBuilder_Add b (tb_options r) key val (data_block r)) (\<lambda>data.
              let r = r\<lparr>data_block := data\<rparr>;
                  estimated_block_size = CurrentSizeEstimate (data_block r)
              in if estimated_block_size \<ge> block_size (tb_options r) then tb_Flush b e w r else Ok r))))"

text \<open>The parts of \<open>Finish\<close>, each of them skipped after an error.\<close>

definition write_filter :: "env \<Rightarrow> 'f writable \<Rightarrow> 'f table_builder \<Rightarrow> block_handle \<times> 'f table_builder" where
  "write_filter e w r =
     (case filter_block r of
        Some fb \<Rightarrow>
          if tb_ok r then
            let (contents, fb) = FilterBlockBuilder_Finish fb; (handle, r) = WriteRawBlock e w contents kNoCompression r
            in (handle, r\<lparr>filter_block := Some fb\<rparr>)
          else (BlockHandle, r)
      | None \<Rightarrow> (BlockHandle, r))"

definition filter_key :: "policy \<Rightarrow> bytes" where
  "filter_key policy = map of_char ''filter.'' @ policy_Name policy"

definition write_metaindex :: "build \<Rightarrow> env \<Rightarrow> 'f writable \<Rightarrow> block_handle \<Rightarrow> 'f table_builder \<Rightarrow> (block_handle \<times> 'f table_builder) result" where
  "write_metaindex b e w filter_block_handle r =
     (if tb_ok r then
        bind_result (BlockBuilder b (tb_options r)) (\<lambda>meta_index_block.
        bind_result
          (case (filter_block r, opt_policy (tb_options r)) of
             (Some fb, Some policy) \<Rightarrow>
               bind_result (BlockHandle_EncodeTo b filter_block_handle []) (\<lambda>handle_encoding.
                 BlockBuilder_Add b (tb_options r) (filter_key policy) handle_encoding meta_index_block)
           | (Some fb, None) \<Rightarrow> Fault OutOfBounds
           | _ \<Rightarrow> Ok meta_index_block) (\<lambda>meta_index_block.
        bind_result (WriteBlock b e w meta_index_block r) (\<lambda>(_, handle, r). Ok (handle, r))))
      else Ok (BlockHandle, r))"

definition write_index :: "build \<Rightarrow> env \<Rightarrow> 'f writable \<Rightarrow> 'f table_builder \<Rightarrow> (block_handle \<times> 'f table_builder) result" where
  "write_index b e w r =
     (if tb_ok r then
        bind_result (if pending_index_entry r then add_index_entry b (opt_successor (tb_options r) b) r else Ok r) (\<lambda>r.
        bind_result (WriteBlock b e w (index_block r) r) (\<lambda>(block, handle, r). Ok (handle, r\<lparr>index_block := block\<rparr>)))
      else Ok (BlockHandle, r))"

definition tb_Finish :: "build \<Rightarrow> env \<Rightarrow> 'f writable \<Rightarrow> 'f table_builder \<Rightarrow> (status \<times> 'f table_builder) result" where
  "tb_Finish b e w r =
     bind_result (tb_Flush b e w r) (\<lambda>r.
     bind_result (c_assert b (\<not> tb_closed r)) (\<lambda>_.
       let r = r\<lparr>tb_closed := True\<rparr>;
           (filter_block_handle, r) = write_filter e w r
       in bind_result (write_metaindex b e w filter_block_handle r) (\<lambda>(metaindex_block_handle, r).
          bind_result (write_index b e w r) (\<lambda>(index_block_handle, r).
            if tb_ok r then
              bind_result (Footer_EncodeTo b \<lparr>metaindex_handle = metaindex_block_handle, index_handle = index_block_handle\<rparr> [])
                (\<lambda>footer_encoding.
                  let (s, f) = wf_Append w footer_encoding (tb_file r);
                      r = r\<lparr>tb_status := s, tb_file := f\<rparr>;
                      r = (if tb_ok r then r\<lparr>tb_offset := tb_offset r + word_of_nat (length footer_encoding)\<rparr> else r)
                  in Ok (tb_status r, r))
            else Ok (tb_status r, r)))))"

definition tb_Abandon :: "build \<Rightarrow> 'f table_builder \<Rightarrow> 'f table_builder result" where
  "tb_Abandon b r = bind_result (c_assert b (\<not> tb_closed r)) (\<lambda>_. Ok (r\<lparr>tb_closed := True\<rparr>))"

definition NumEntries :: "'f table_builder \<Rightarrow> nat" where
  "NumEntries r = num_entries r"

definition FileSize :: "'f table_builder \<Rightarrow> u64" where
  "FileSize r = tb_offset r"

text \<open>A whole table.\<close>

fun tb_add_all :: "build \<Rightarrow> env \<Rightarrow> 'f writable \<Rightarrow> (bytes \<times> bytes) list \<Rightarrow> 'f table_builder \<Rightarrow> 'f table_builder result" where
  "tb_add_all b e w [] r = Ok r"
| "tb_add_all b e w (x # es) r = bind_result (tb_Add b e w (fst x) (snd x) r) (tb_add_all b e w es)"

definition build_table :: "build \<Rightarrow> env \<Rightarrow> 'f writable \<Rightarrow> table_options \<Rightarrow> (bytes \<times> bytes) list \<Rightarrow> 'f \<Rightarrow> (status \<times> 'f table_builder) result" where
  "build_table b e w opts es f =
     bind_result (TableBuilder b opts f) (\<lambda>r. bind_result (tb_add_all b e w es r) (tb_Finish b e w))"

section \<open>The file\<close>

locale writable_file =
  fixes w :: "'f writable" and written :: "'f \<Rightarrow> bytes"
  assumes append_file: "\<exists>f'. wf_Append w data f = (OK, f') \<and> written f' = written f @ data"
    and flush_file: "\<exists>f'. wf_Flush w f = (OK, f') \<and> written f' = written f"

definition memory_writable :: "bytes writable" where
  "memory_writable = \<lparr>wf_Append = (\<lambda>data f. (OK, f @ data)), wf_Flush = (\<lambda>f. (OK, f))\<rparr>"

interpretation memory_writable: writable_file memory_writable "\<lambda>f. f"
  by unfold_locales (simp_all add: memory_writable_def)

end
