(* ===== verification/TwoLevel.thy ===== *)
theory TwoLevel
  imports Iterators
begin

text \<open>
  Class \<open>TwoLevelIterator\<close> of src/src/leveldb/table/two_level_iterator.cc: an index iterator whose values are handles of
  blocks, and an iterator over the block of the current handle. Both are iterators in their wrappers; that they keep the
  contract makes the whole keep it.
\<close>

section \<open>The iterator\<close>

text \<open>The function that opens a block returns a null pointer (\<open>None\<close>) or an iterator.\<close>

record ('i, 'd) two_level =
  block_function :: "bytes \<Rightarrow> 'd option result"
  tl_status :: status
  index_iter :: "'i wrapper"
  data_iter :: "'d wrapper"
  data_block_handle :: bytes

definition TwoLevelIterator :: "'i iter_ops \<Rightarrow> 'i \<Rightarrow> (bytes \<Rightarrow> 'd option result) \<Rightarrow> ('i, 'd) two_level result" where
  "TwoLevelIterator iops it bf =
     bind_result (wrapper_Set iops (Some it) no_wrapper) (\<lambda>w.
       Ok \<lparr>block_function = bf, tl_status = OK, index_iter = w, data_iter = no_wrapper, data_block_handle = []\<rparr>)"

definition on_index :: "('i wrapper \<Rightarrow> 'i wrapper result) \<Rightarrow> ('i, 'd) two_level \<Rightarrow> ('i, 'd) two_level result" where
  "on_index f t = bind_result (f (index_iter t)) (\<lambda>w. Ok (t\<lparr>index_iter := w\<rparr>))"

definition on_data :: "('d wrapper \<Rightarrow> 'd wrapper result) \<Rightarrow> ('i, 'd) two_level \<Rightarrow> ('i, 'd) two_level result" where
  "on_data f t = bind_result (f (data_iter t)) (\<lambda>w. Ok (t\<lparr>data_iter := w\<rparr>))"

definition SaveError :: "status \<Rightarrow> ('i, 'd) two_level \<Rightarrow> ('i, 'd) two_level" where
  "SaveError s t = (if tl_status t = OK \<and> s \<noteq> OK then t\<lparr>tl_status := s\<rparr> else t)"

definition SetDataIterator :: "'d iter_ops \<Rightarrow> 'd option \<Rightarrow> ('i, 'd) two_level \<Rightarrow> ('i, 'd) two_level result" where
  "SetDataIterator dops iter t =
     (let t = (case w_iter (data_iter t) of None \<Rightarrow> t | Some it \<Rightarrow> SaveError (op_status dops it) t)
      in on_data (wrapper_Set dops iter) t)"

definition InitDataBlock :: "build \<Rightarrow> 'i iter_ops \<Rightarrow> 'd iter_ops \<Rightarrow> ('i, 'd) two_level \<Rightarrow> ('i, 'd) two_level result" where
  "InitDataBlock b iops dops t =
     (if \<not> w_valid (index_iter t) then SetDataIterator dops None t
      else bind_result (op_value (wrapper_ops b iops) (index_iter t)) (\<lambda>handle.
        if w_iter (data_iter t) \<noteq> None \<and> Slice_compare handle (data_block_handle t) = 0 then Ok t
        else bind_result (block_function t handle) (\<lambda>iter. SetDataIterator dops iter (t\<lparr>data_block_handle := handle\<rparr>))))"

text \<open>The loops over blocks without entries take fuel; more than the number of blocks and one is enough.\<close>

fun SkipEmptyDataBlocksForward :: "nat \<Rightarrow> build \<Rightarrow> 'i iter_ops \<Rightarrow> 'd iter_ops \<Rightarrow> ('i, 'd) two_level \<Rightarrow> ('i, 'd) two_level result" where
  "SkipEmptyDataBlocksForward 0 b iops dops t = Fault Diverges"
| "SkipEmptyDataBlocksForward (Suc fuel) b iops dops t =
     (if w_iter (data_iter t) = None \<or> \<not> w_valid (data_iter t) then
        if \<not> w_valid (index_iter t) then SetDataIterator dops None t
        else bind_result (on_index (op_Next (wrapper_ops b iops)) t) (\<lambda>t.
          bind_result (InitDataBlock b iops dops t) (\<lambda>t.
          bind_result (if w_iter (data_iter t) \<noteq> None then on_data (op_SeekToFirst (wrapper_ops b dops)) t else Ok t)
            (SkipEmptyDataBlocksForward fuel b iops dops)))
      else Ok t)"

fun SkipEmptyDataBlocksBackward :: "nat \<Rightarrow> build \<Rightarrow> 'i iter_ops \<Rightarrow> 'd iter_ops \<Rightarrow> ('i, 'd) two_level \<Rightarrow> ('i, 'd) two_level result" where
  "SkipEmptyDataBlocksBackward 0 b iops dops t = Fault Diverges"
| "SkipEmptyDataBlocksBackward (Suc fuel) b iops dops t =
     (if w_iter (data_iter t) = None \<or> \<not> w_valid (data_iter t) then
        if \<not> w_valid (index_iter t) then SetDataIterator dops None t
        else bind_result (on_index (op_Prev (wrapper_ops b iops)) t) (\<lambda>t.
          bind_result (InitDataBlock b iops dops t) (\<lambda>t.
          bind_result (if w_iter (data_iter t) \<noteq> None then on_data (op_SeekToLast (wrapper_ops b dops)) t else Ok t)
            (SkipEmptyDataBlocksBackward fuel b iops dops)))
      else Ok t)"

text \<open>\<open>Seek\<close>, \<open>SeekToFirst\<close> and \<open>SeekToLast\<close>: the index, then the block, then past the blocks without entries.\<close>

definition tl_Seek :: "nat \<Rightarrow> build \<Rightarrow> 'i iter_ops \<Rightarrow> 'd iter_ops \<Rightarrow> bytes \<Rightarrow> ('i, 'd) two_level \<Rightarrow> ('i, 'd) two_level result" where
  "tl_Seek fuel b iops dops target t =
     bind_result (on_index (op_Seek (wrapper_ops b iops) target) t) (\<lambda>t.
     bind_result (InitDataBlock b iops dops t) (\<lambda>t.
     bind_result (if w_iter (data_iter t) \<noteq> None then on_data (op_Seek (wrapper_ops b dops) target) t else Ok t)
       (SkipEmptyDataBlocksForward fuel b iops dops)))"

definition tl_SeekToFirst :: "nat \<Rightarrow> build \<Rightarrow> 'i iter_ops \<Rightarrow> 'd iter_ops \<Rightarrow> ('i, 'd) two_level \<Rightarrow> ('i, 'd) two_level result" where
  "tl_SeekToFirst fuel b iops dops t =
     bind_result (on_index (op_SeekToFirst (wrapper_ops b iops)) t) (\<lambda>t.
     bind_result (InitDataBlock b iops dops t) (\<lambda>t.
     bind_result (if w_iter (data_iter t) \<noteq> None then on_data (op_SeekToFirst (wrapper_ops b dops)) t else Ok t)
       (SkipEmptyDataBlocksForward fuel b iops dops)))"

definition tl_SeekToLast :: "nat \<Rightarrow> build \<Rightarrow> 'i iter_ops \<Rightarrow> 'd iter_ops \<Rightarrow> ('i, 'd) two_level \<Rightarrow> ('i, 'd) two_level result" where
  "tl_SeekToLast fuel b iops dops t =
     bind_result (on_index (op_SeekToLast (wrapper_ops b iops)) t) (\<lambda>t.
     bind_result (InitDataBlock b iops dops t) (\<lambda>t.
     bind_result (if w_iter (data_iter t) \<noteq> None then on_data (op_SeekToLast (wrapper_ops b dops)) t else Ok t)
       (SkipEmptyDataBlocksBackward fuel b iops dops)))"

definition tl_Next :: "nat \<Rightarrow> build \<Rightarrow> 'i iter_ops \<Rightarrow> 'd iter_ops \<Rightarrow> ('i, 'd) two_level \<Rightarrow> ('i, 'd) two_level result" where
  "tl_Next fuel b iops dops t =
     bind_result (c_assert b (w_valid (data_iter t))) (\<lambda>_.
     bind_result (on_data (op_Next (wrapper_ops b dops)) t) (SkipEmptyDataBlocksForward fuel b iops dops))"

definition tl_Prev :: "nat \<Rightarrow> build \<Rightarrow> 'i iter_ops \<Rightarrow> 'd iter_ops \<Rightarrow> ('i, 'd) two_level \<Rightarrow> ('i, 'd) two_level result" where
  "tl_Prev fuel b iops dops t =
     bind_result (c_assert b (w_valid (data_iter t))) (\<lambda>_.
     bind_result (on_data (op_Prev (wrapper_ops b dops)) t) (SkipEmptyDataBlocksBackward fuel b iops dops))"

definition tl_get_status :: "'i iter_ops \<Rightarrow> 'd iter_ops \<Rightarrow> ('i, 'd) two_level \<Rightarrow> status" where
  "tl_get_status iops dops t =
     (let index_status = (case w_iter (index_iter t) of None \<Rightarrow> OK | Some it \<Rightarrow> op_status iops it)
      in if index_status \<noteq> OK then index_status
         else case w_iter (data_iter t) of
                Some it \<Rightarrow> if op_status dops it \<noteq> OK then op_status dops it else tl_status t
              | None \<Rightarrow> tl_status t)"

definition two_level_ops :: "nat \<Rightarrow> build \<Rightarrow> 'i iter_ops \<Rightarrow> 'd iter_ops \<Rightarrow> ('i, 'd) two_level iter_ops" where
  "two_level_ops fuel b iops dops =
     \<lparr>op_Valid = (\<lambda>t. w_valid (data_iter t)),
      op_key = (\<lambda>t. bind_result (c_assert b (w_valid (data_iter t))) (\<lambda>_. wrapper_key b (data_iter t))),
      op_value = (\<lambda>t. bind_result (c_assert b (w_valid (data_iter t))) (\<lambda>_. wrapper_value b dops (data_iter t))),
      op_status = tl_get_status iops dops,
      op_Next = tl_Next fuel b iops dops, op_Prev = tl_Prev fuel b iops dops, op_Seek = tl_Seek fuel b iops dops,
      op_SeekToFirst = tl_SeekToFirst fuel b iops dops, op_SeekToLast = tl_SeekToLast fuel b iops dops\<rparr>"

section \<open>A table\<close>

text \<open>
  The shape of a table: the index has one entry for each block; its key is not below the keys of the block and below those
  of all later blocks; the handles differ, and each of them opens its block.
\<close>

definition table_shape :: "(bytes \<Rightarrow> bytes \<Rightarrow> int) \<Rightarrow> (bytes \<Rightarrow> bool) \<Rightarrow> ((bytes \<times> bytes) list \<Rightarrow> nat \<Rightarrow> 'd \<Rightarrow> bool) \<Rightarrow>
    (bytes \<times> bytes) list \<Rightarrow> (bytes \<times> bytes) list list \<Rightarrow> (bytes \<Rightarrow> 'd option result) \<Rightarrow> bool" where
  "table_shape cmp key_ok dat index blocks bf \<longleftrightarrow> length blocks = length index \<and> ascending cmp key_ok index \<and>
     ascending cmp key_ok (concat blocks) \<and> distinct (map snd index) \<and>
     (\<forall>j < length index. (\<exists>d q. bf (snd (index ! j)) = Ok (Some d) \<and> dat (blocks ! j) q d) \<and>
        (\<forall>e \<in> set (blocks ! j). \<not> cmp (fst (index ! j)) (fst e) < 0) \<and>
        (\<forall>i < j. \<forall>e \<in> set (blocks ! j). cmp (fst (index ! i)) (fst e) < 0))"

text \<open>Where the block with number \<open>j\<close> begins.\<close>

definition block_start :: "'a list list \<Rightarrow> nat \<Rightarrow> nat" where
  "block_start blocks j = length (concat (take j blocks))"

lemma block_start_0 [simp]: "block_start blocks 0 = 0"
  by (simp add: block_start_def)

lemma block_start_Suc: "j < length blocks \<Longrightarrow> block_start blocks (Suc j) = block_start blocks j + length (blocks ! j)"
  by (simp add: block_start_def take_Suc_conv_app_nth)

lemma block_start_length: "length blocks \<le> j \<Longrightarrow> block_start blocks j = length (concat blocks)"
  by (simp add: block_start_def)

lemma block_start_mono: "i \<le> j \<Longrightarrow> block_start blocks i \<le> block_start blocks j"
proof (induction j rule: dec_induct)
  case (step k)
  then show ?case by (cases "k < length blocks") (simp_all add: block_start_Suc block_start_length)
qed simp

lemma block_start_le: "block_start blocks j \<le> length (concat blocks)"
  using block_start_mono [of j "max j (length blocks)" blocks] block_start_length [of blocks "max j (length blocks)"] by simp

lemma nth_concat_block: "j < length blocks \<Longrightarrow> q < length (blocks ! j) \<Longrightarrow> concat blocks ! (block_start blocks j + q) = blocks ! j ! q"
proof -
  assume a: "j < length blocks" "q < length (blocks ! j)"
  then have "concat blocks = concat (take j blocks) @ blocks ! j @ concat (drop (Suc j) blocks)"
    by (metis concat.simps(2) concat_append id_take_nth_drop)
  then show ?thesis using a by (simp add: block_start_def nth_append)
qed

lemma block_position_less: "j < length blocks \<Longrightarrow> q < length (blocks ! j) \<Longrightarrow> block_start blocks j + q < length (concat blocks)"
  using block_start_le [of blocks "Suc j"] by (simp add: block_start_Suc)

lemma block_of_position:
  assumes "p < length (concat blocks)"
  obtains j q where "j < length blocks" "q < length (blocks ! j)" "p = block_start blocks j + q"
proof -
  have "\<exists>j q. j < length blocks \<and> q < length (blocks ! j) \<and> p = block_start blocks j + q"
    using assms
  proof (induction blocks arbitrary: p)
    case (Cons x xs)
    show ?case
    proof (cases "p < length x")
      case True
      then show ?thesis by (intro exI [of _ 0] exI [of _ p]) simp
    next
      case False
      then have "p - length x < length (concat xs)" using Cons.prems by simp
      from Cons.IH [OF this] obtain j q where "j < length xs" "q < length (xs ! j)" "p - length x = block_start xs j + q"
        by blast
      then show ?thesis using False by (intro exI [of _ "Suc j"] exI [of _ q]) (auto simp: block_start_def)
    qed
  qed simp
  then show thesis using that by blast
qed

section \<open>The contract\<close>

text \<open>Where the two iterators stand when the whole stands on the entry with number \<open>p\<close>.\<close>

definition data_on :: "((bytes \<times> bytes) list \<Rightarrow> nat \<Rightarrow> 'd \<Rightarrow> bool) \<Rightarrow> (bytes \<times> bytes) list \<Rightarrow> (bytes \<times> bytes) list list \<Rightarrow>
    nat \<Rightarrow> nat \<Rightarrow> ('i, 'd) two_level \<Rightarrow> bool" where
  "data_on dat index blocks j q t \<longleftrightarrow> j < length index \<and> wrapped dat (blocks ! j) q (data_iter t) \<and>
     data_block_handle t = snd (index ! j)"

definition no_data :: "('i, 'd) two_level \<Rightarrow> bool" where
  "no_data t \<longleftrightarrow> w_iter (data_iter t) = None \<and> \<not> w_valid (data_iter t)"

definition tl_image :: "nat \<Rightarrow> (bytes \<Rightarrow> bytes \<Rightarrow> int) \<Rightarrow> (bytes \<Rightarrow> bool) \<Rightarrow> ((bytes \<times> bytes) list \<Rightarrow> nat \<Rightarrow> 'd \<Rightarrow> bool) \<Rightarrow>
    (bytes \<times> bytes) list \<Rightarrow> (bytes \<times> bytes) list list \<Rightarrow> ('i, 'd) two_level \<Rightarrow> bool" where
  "tl_image fuel cmp key_ok dat index blocks t \<longleftrightarrow> table_shape cmp key_ok dat index blocks (block_function t) \<and> tl_status t = OK \<and>
     Suc (length index) < fuel"

definition tl_stands :: "((bytes \<times> bytes) list \<Rightarrow> nat \<Rightarrow> 'i \<Rightarrow> bool) \<Rightarrow> ((bytes \<times> bytes) list \<Rightarrow> nat \<Rightarrow> 'd \<Rightarrow> bool) \<Rightarrow>
    (bytes \<times> bytes) list \<Rightarrow> (bytes \<times> bytes) list list \<Rightarrow> nat \<Rightarrow> ('i, 'd) two_level \<Rightarrow> bool" where
  "tl_stands iat dat index blocks p t \<longleftrightarrow>
     (if p < length (concat blocks)
      then \<exists>j q. wrapped iat index j (index_iter t) \<and> data_on dat index blocks j q t \<and> q < length (blocks ! j) \<and> p = block_start blocks j + q
      else p = length (concat blocks) \<and> no_data t \<and> (\<exists>j. wrapped iat index j (index_iter t)))"

definition tl_on :: "nat \<Rightarrow> (bytes \<Rightarrow> bytes \<Rightarrow> int) \<Rightarrow> (bytes \<Rightarrow> bool) \<Rightarrow> ((bytes \<times> bytes) list \<Rightarrow> nat \<Rightarrow> 'i \<Rightarrow> bool) \<Rightarrow>
    ((bytes \<times> bytes) list \<Rightarrow> nat \<Rightarrow> 'd \<Rightarrow> bool) \<Rightarrow> (bytes \<times> bytes) list \<Rightarrow> nat \<Rightarrow> ('i, 'd) two_level \<Rightarrow> bool" where
  "tl_on fuel cmp key_ok iat dat es p t \<longleftrightarrow> (\<exists>index blocks. es = concat blocks \<and>
     tl_image fuel cmp key_ok dat index blocks t \<and> tl_stands iat dat index blocks p t)"

locale two_level_tables =
  index: sorted_iterator cmp key_ok iops iat + data: sorted_iterator cmp key_ok dops dat
  for cmp :: "bytes \<Rightarrow> bytes \<Rightarrow> int" and key_ok :: "bytes \<Rightarrow> bool"
    and iops :: "'i iter_ops" and iat :: "(bytes \<times> bytes) list \<Rightarrow> nat \<Rightarrow> 'i \<Rightarrow> bool"
    and dops :: "'d iter_ops" and dat :: "(bytes \<times> bytes) list \<Rightarrow> nat \<Rightarrow> 'd \<Rightarrow> bool"

sublocale two_level_tables \<subseteq> wi: sorted_iterator cmp key_ok "wrapper_ops b iops" "wrapped iat" for b
  by (rule index.wrapper_contract)

sublocale two_level_tables \<subseteq> wd: sorted_iterator cmp key_ok "wrapper_ops b dops" "wrapped dat" for b
  by (rule data.wrapper_contract)

context two_level_tables
begin

text \<open>Setting the block's iterator when the one before is in order.\<close>

lemma Set_none:
  assumes "no_data t \<or> data_on dat index blocks j q t"
  shows "\<exists>t'. SetDataIterator dops None t = Ok t' \<and> no_data t' \<and> index_iter t' = index_iter t \<and>
    block_function t' = block_function t \<and> tl_status t' = tl_status t"
  using assms data.on_status
  by (auto simp: SetDataIterator_def no_data_def data_on_def wrapped_def on_data_def wrapper_Set_def SaveError_def split: option.split)

lemma Set_some:
  assumes "no_data t \<or> (\<exists>h. data_on dat index blocks j q (t\<lparr>data_block_handle := h\<rparr>))" "dat es p d"
  shows "\<exists>t'. SetDataIterator dops (Some d) t = Ok t' \<and> wrapped dat es p (data_iter t') \<and> index_iter t' = index_iter t \<and>
    block_function t' = block_function t \<and> tl_status t' = tl_status t \<and> data_block_handle t' = data_block_handle t"
proof -
  have "(case w_iter (data_iter t) of None \<Rightarrow> t | Some it \<Rightarrow> SaveError (op_status dops it) t) = t"
    using assms(1) data.on_status by (auto simp: no_data_def data_on_def wrapped_def SaveError_def split: option.split)
  moreover obtain w where "wrapper_Update dops d (data_iter t) = Ok w" "wrapped dat es p w"
    using data.Update_wrapped [OF assms(2)] by blast
  ultimately show ?thesis by (simp add: SetDataIterator_def on_data_def wrapper_Set_def)
qed

lemma InitDataBlock_on:
  assumes "tl_image fuel cmp key_ok dat index blocks t" "wrapped iat index j (index_iter t)"
    "no_data t \<or> data_on dat index blocks i q t"
  shows "\<exists>t'. InitDataBlock b iops dops t = Ok t' \<and> tl_image fuel cmp key_ok dat index blocks t' \<and> index_iter t' = index_iter t \<and>
    (if j < length index then \<exists>q. data_on dat index blocks j q t' else no_data t')"
proof (cases "j < length index")
  case False
  then have "\<not> w_valid (index_iter t)" using assms(2) by (simp add: wrapped_def)
  then show ?thesis using Set_none [OF assms(3)] assms(1) False by (auto simp: InitDataBlock_def tl_image_def)
next
  case True
  have shape: "table_shape cmp key_ok dat index blocks (block_function t)" using assms(1) by (simp add: tl_image_def)
  have v: "w_valid (index_iter t)" using assms(2) True by (simp add: wrapped_def)
  have val: "op_value (wrapper_ops b iops) (index_iter t) = Ok (snd (index ! j))" by (rule wi.on_value [OF assms(2) True])
  show ?thesis
  proof (cases "w_iter (data_iter t) \<noteq> None \<and> snd (index ! j) = data_block_handle t")
    case same: True
    then have d: "data_on dat index blocks i q t" using assms(3) by (auto simp: no_data_def)
    then have "snd (index ! j) = snd (index ! i)" "i < length index" using same by (simp_all add: data_on_def)
    moreover have "distinct (map snd index)" using shape by (simp add: table_shape_def)
    ultimately have "i = j" using True by (simp add: distinct_conv_nth) (metis)
    then show ?thesis using d same v val True assms(1) by (auto simp: InitDataBlock_def Slice_compare_eq)
  next
    case False
    obtain d q' where d: "block_function t (snd (index ! j)) = Ok (Some d)" "dat (blocks ! j) q' d"
      using shape True by (auto simp: table_shape_def)
    have "no_data (t\<lparr>data_block_handle := snd (index ! j)\<rparr>) \<or>
        (\<exists>h. data_on dat index blocks i q (t\<lparr>data_block_handle := snd (index ! j)\<rparr>\<lparr>data_block_handle := h\<rparr>))"
      using assms(3) by (auto simp: no_data_def data_on_def)
    from Set_some [OF this d(2)] obtain t' where "SetDataIterator dops (Some d) (t\<lparr>data_block_handle := snd (index ! j)\<rparr>) = Ok t'"
      "wrapped dat (blocks ! j) q' (data_iter t')" "index_iter t' = index_iter t" "block_function t' = block_function t"
      "tl_status t' = tl_status t" "data_block_handle t' = snd (index ! j)"
      by auto
    then show ?thesis
      using False v val d(1) True assms(1) by (auto simp: InitDataBlock_def Slice_compare_eq data_on_def tl_image_def)
  qed
qed

text \<open>Opening the block of the index entry \<open>j\<close> and positioning its iterator.\<close>

lemma enter_block:
  assumes "tl_image fuel cmp key_ok dat index blocks t" "wrapped iat index j (index_iter t)"
    "no_data t \<or> data_on dat index blocks i q t"
    and f: "\<forall>q w. wrapped dat (blocks ! j) q w \<longrightarrow> (\<exists>w'. f w = Ok w' \<and> wrapped dat (blocks ! j) r w')"
  shows "\<exists>t'. bind_result (InitDataBlock b iops dops t)
      (\<lambda>t. bind_result (if w_iter (data_iter t) \<noteq> None then on_data f t else Ok t) g) = g t' \<and>
    tl_image fuel cmp key_ok dat index blocks t' \<and> index_iter t' = index_iter t \<and>
    (if j < length index then data_on dat index blocks j r t' else no_data t')"
proof -
  obtain t1 where t1: "InitDataBlock b iops dops t = Ok t1" "tl_image fuel cmp key_ok dat index blocks t1" "index_iter t1 = index_iter t"
    "if j < length index then \<exists>q. data_on dat index blocks j q t1 else no_data t1"
    using InitDataBlock_on [OF assms(1-3)] by blast
  show ?thesis
  proof (cases "j < length index")
    case False
    then show ?thesis using t1 by (auto simp: no_data_def)
  next
    case True
    then obtain q' where d: "data_on dat index blocks j q' t1" using t1(4) by auto
    then obtain w' where w': "f (data_iter t1) = Ok w'" "wrapped dat (blocks ! j) r w'" using f by (auto simp: data_on_def)
    have "w_iter (data_iter t1) \<noteq> None" using d by (auto simp: data_on_def wrapped_def)
    then have "(if w_iter (data_iter t1) \<noteq> None then on_data f t1 else Ok t1) = Ok (t1\<lparr>data_iter := w'\<rparr>)"
      using w'(1) by (simp add: on_data_def)
    then show ?thesis using t1 d w'(2) True by (auto simp: data_on_def tl_image_def)
  qed
qed

lemma data_on_valid:
  "data_on dat index blocks j q t \<Longrightarrow> w_iter (data_iter t) \<noteq> None \<and> (w_valid (data_iter t) \<longleftrightarrow> q < length (blocks ! j)) \<and> q \<le> length (blocks ! j)"
  using wd.on_entries by (auto simp: data_on_def wrapped_def dest: data.on_entries)

lemma index_step:
  assumes "tl_image fuel cmp key_ok dat index blocks t" "wrapped iat index j (index_iter t)" "\<exists>w'. f (index_iter t) = Ok w' \<and> wrapped iat index i w'"
  shows "\<exists>t'. on_index f t = Ok t' \<and> tl_image fuel cmp key_ok dat index blocks t' \<and> wrapped iat index i (index_iter t') \<and>
    data_iter t' = data_iter t \<and> data_block_handle t' = data_block_handle t"
  using assms by (auto simp: on_index_def tl_image_def)

lemma skip_end:
  assumes "tl_image fuel cmp key_ok dat index blocks t" "wrapped iat index (length index) (index_iter t)" "no_data t"
  shows "\<exists>t'. SetDataIterator dops None t = Ok t' \<and> tl_image fuel cmp key_ok dat index blocks t' \<and>
    tl_stands iat dat index blocks (length (concat blocks)) t'"
  using Set_none [of t] assms by (fastforce simp: tl_image_def tl_stands_def)

lemma blocks_length: "tl_image fuel cmp key_ok dat index blocks t \<Longrightarrow> length blocks = length index"
  by (simp add: tl_image_def table_shape_def)

lemma data_on_same:
  "data_iter t' = data_iter t \<Longrightarrow> data_block_handle t' = data_block_handle t \<Longrightarrow>
     data_on dat index blocks j q t' = data_on dat index blocks j q t"
  by (simp add: data_on_def)

lemma stands_here:
  assumes "tl_image fuel cmp key_ok dat index blocks t" "wrapped iat index j (index_iter t)" "data_on dat index blocks j q t" "q < length (blocks ! j)"
  shows "tl_stands iat dat index blocks (block_start blocks j + q) t"
proof -
  have "j < length blocks" using assms(3) blocks_length [OF assms(1)] by (simp add: data_on_def)
  then have "block_start blocks j + q < length (concat blocks)" using assms(4) by (rule block_position_less)
  then show ?thesis using assms by (auto simp: tl_stands_def)
qed

lemma skip_forward:
  assumes "tl_image fuel cmp key_ok dat index blocks t" "wrapped iat index j (index_iter t)"
    "if j < length index then data_on dat index blocks j q t else no_data t" "length index < rounds + j"
  shows "\<exists>t'. SkipEmptyDataBlocksForward rounds b iops dops t = Ok t' \<and> tl_image fuel cmp key_ok dat index blocks t' \<and>
    tl_stands iat dat index blocks (if j < length index then block_start blocks j + q else length (concat blocks)) t'"
  using assms
proof (induction rounds arbitrary: t j q)
  case 0
  then show ?case using wi.on_entries [OF "0.prems"(2)] by simp
next
  case (Suc rounds)
  have j_le: "j \<le> length index" using wi.on_entries [OF Suc.prems(2)] by simp
  show ?case
  proof (cases "j < length index")
    case False
    then have j: "j = length index" using j_le by simp
    have "\<not> w_valid (index_iter t)" "no_data t" using Suc.prems(2,3) j by (simp_all add: wrapped_def)
    then show ?thesis using skip_end [OF Suc.prems(1)] Suc.prems(2) j by (auto simp: no_data_def)
  next
    case True
    then have d: "data_on dat index blocks j q t" using Suc.prems(3) by simp
    note v = data_on_valid [OF d]
    show ?thesis
    proof (cases "q < length (blocks ! j)")
      case here: True
      then show ?thesis using v True Suc.prems(1) stands_here [OF Suc.prems(1,2) d here] by auto
    next
      case False
      then have q: "q = length (blocks ! j)" using v by simp
      have "w_valid (index_iter t)" using Suc.prems(2) True by (simp add: wrapped_def)
      moreover obtain t1 where t1: "on_index (op_Next (wrapper_ops b iops)) t = Ok t1" "tl_image fuel cmp key_ok dat index blocks t1"
        "wrapped iat index (Suc j) (index_iter t1)" "data_iter t1 = data_iter t" "data_block_handle t1 = data_block_handle t"
        using index_step [where f = "op_Next (wrapper_ops b iops)", OF Suc.prems(1,2) wi.on_Next [OF Suc.prems(2) True]] by blast
      moreover have d1: "no_data t1 \<or> data_on dat index blocks j q t1" using d data_on_same [OF t1(4,5)] by simp
      moreover have g: "\<forall>q w. wrapped dat (blocks ! Suc j) q w \<longrightarrow> (\<exists>w'. op_SeekToFirst (wrapper_ops b dops) w = Ok w' \<and> wrapped dat (blocks ! Suc j) 0 w')"
    using wd.on_SeekToFirst by blast
      moreover obtain t2 where t2: "bind_result (InitDataBlock b iops dops t1) (\<lambda>t. bind_result
          (if w_iter (data_iter t) \<noteq> None then on_data (op_SeekToFirst (wrapper_ops b dops)) t else Ok t)
          (SkipEmptyDataBlocksForward rounds b iops dops)) = SkipEmptyDataBlocksForward rounds b iops dops t2"
        "tl_image fuel cmp key_ok dat index blocks t2" "index_iter t2 = index_iter t1"
        "if Suc j < length index then data_on dat index blocks (Suc j) 0 t2 else no_data t2"
        using enter_block [where r = 0 and f = "op_SeekToFirst (wrapper_ops b dops)", OF t1(2,3) d1 g] by blast
      ultimately have step: "SkipEmptyDataBlocksForward (Suc rounds) b iops dops t = SkipEmptyDataBlocksForward rounds b iops dops t2"
        using v False by simp
      have "block_start blocks (Suc j) = block_start blocks j + q"
        using True blocks_length [OF Suc.prems(1)] q by (simp add: block_start_Suc)
      moreover have "length (concat blocks) = block_start blocks j + q" if "\<not> Suc j < length index"
        using that block_start_length [of blocks "Suc j"] blocks_length [OF Suc.prems(1)] calculation by simp
      ultimately show ?thesis
        unfolding step using Suc.IH [OF t2(2) _ t2(4)] t1(3) t2(3) True Suc.prems(4) by (auto split: if_splits)
    qed
  qed
qed

lemma last_position:
  fixes s n e :: nat
  shows "(if n - 1 < n then s + (n - 1) else if s = 0 then e else s - 1) = (if s + n = 0 then e else s + n - 1)"
  by (cases n) simp_all

lemma skip_backward:
  assumes "tl_image fuel cmp key_ok dat index blocks t" "wrapped iat index j (index_iter t)"
    "data_on dat index blocks j q t" "Suc j < rounds"
  shows "\<exists>t'. SkipEmptyDataBlocksBackward rounds b iops dops t = Ok t' \<and> tl_image fuel cmp key_ok dat index blocks t' \<and>
    tl_stands iat dat index blocks
      (if q < length (blocks ! j) then block_start blocks j + q
       else if block_start blocks j = 0 then length (concat blocks) else block_start blocks j - 1) t'"
  using assms
proof (induction rounds arbitrary: t j q)
  case (Suc rounds)
  note v = data_on_valid [OF Suc.prems(3)]
  have j: "j < length index" using Suc.prems(3) by (simp add: data_on_def)
  show ?case
  proof (cases "q < length (blocks ! j)")
    case here: True
    then show ?thesis using v Suc.prems(1) stands_here [OF Suc.prems(1-3) here] by auto
  next
    case False
    then have q: "q = length (blocks ! j)" using v by simp
    let ?i = "if j = 0 then length index else j - 1"
    let ?r = "length (blocks ! ?i) - 1"
    have iv: "w_valid (index_iter t)" using Suc.prems(2) j by (simp add: wrapped_def)
    obtain t1 where t1: "on_index (op_Prev (wrapper_ops b iops)) t = Ok t1" "tl_image fuel cmp key_ok dat index blocks t1"
      "wrapped iat index ?i (index_iter t1)" "data_iter t1 = data_iter t" "data_block_handle t1 = data_block_handle t"
      using index_step [where f = "op_Prev (wrapper_ops b iops)", OF Suc.prems(1,2) wi.on_Prev [OF Suc.prems(2) j]] by blast
    have d1: "no_data t1 \<or> data_on dat index blocks j q t1" using Suc.prems(3) data_on_same [OF t1(4,5)] by simp
    have g: "\<forall>q w. wrapped dat (blocks ! ?i) q w \<longrightarrow> (\<exists>w'. op_SeekToLast (wrapper_ops b dops) w = Ok w' \<and> wrapped dat (blocks ! ?i) ?r w')"
    using wd.on_SeekToLast by blast
    obtain t2 where t2: "bind_result (InitDataBlock b iops dops t1) (\<lambda>t. bind_result
        (if w_iter (data_iter t) \<noteq> None then on_data (op_SeekToLast (wrapper_ops b dops)) t else Ok t)
        (SkipEmptyDataBlocksBackward rounds b iops dops)) = SkipEmptyDataBlocksBackward rounds b iops dops t2"
      "tl_image fuel cmp key_ok dat index blocks t2" "index_iter t2 = index_iter t1"
      "if ?i < length index then data_on dat index blocks ?i ?r t2 else no_data t2"
      using enter_block [where r = ?r and f = "op_SeekToLast (wrapper_ops b dops)", OF t1(2,3) d1 g] by blast
    have step: "SkipEmptyDataBlocksBackward (Suc rounds) b iops dops t = SkipEmptyDataBlocksBackward rounds b iops dops t2"
      using v False iv t1(1) t2(1) by simp
    show ?thesis
    proof (cases "j = 0")
      case True
      obtain k where k: "rounds = Suc k" using Suc.prems(4) by (cases rounds) auto
      have w: "wrapped iat index (length index) (index_iter t2)" "no_data t2" using t1(3) t2(3,4) True by simp_all
      then have "\<not> w_valid (index_iter t2)" by (simp add: wrapped_def)
      then have "SkipEmptyDataBlocksBackward rounds b iops dops t2 = SetDataIterator dops None t2"
        using w(2) by (simp add: k no_data_def)
      then show ?thesis using skip_end [OF t2(2) w] True False step by simp
    next
      case pos: False
      then have i: "?i = j - 1" "j - 1 < length index" using j by auto
      have "Suc (j - 1) < rounds" using pos Suc.prems(4) by simp
      moreover have "wrapped iat index (j - 1) (index_iter t2)" using t1(3) t2(3) pos by simp
      moreover have "data_on dat index blocks (j - 1) (length (blocks ! (j - 1)) - 1) t2" using t2(4) i by (simp only: if_True)
      ultimately have "\<exists>t'. SkipEmptyDataBlocksBackward rounds b iops dops t2 = Ok t' \<and> tl_image fuel cmp key_ok dat index blocks t' \<and>
          tl_stands iat dat index blocks
            (if length (blocks ! (j - 1)) - 1 < length (blocks ! (j - 1)) then block_start blocks (j - 1) + (length (blocks ! (j - 1)) - 1)
             else if block_start blocks (j - 1) = 0 then length (concat blocks) else block_start blocks (j - 1) - 1) t'"
        using Suc.IH [OF t2(2)] by blast
      moreover have start: "block_start blocks (j - 1) + length (blocks ! (j - 1)) = block_start blocks j"
        using block_start_Suc [of "j - 1" blocks] pos j blocks_length [OF Suc.prems(1)] by simp
      ultimately show ?thesis unfolding step last_position start using False by (simp only: if_False)
    qed
  qed
qed simp

text \<open>The first entry not below a target lies in the block of the first index entry not below it.\<close>

lemma seek_position_concat:
  assumes shape: "table_shape cmp key_ok dat index blocks bf" and target: "key_ok target"
  defines "j \<equiv> seek_position cmp target index"
  shows "seek_position cmp target (concat blocks) =
    (if j < length index then block_start blocks j + seek_position cmp target (blocks ! j) else length (concat blocks))"
proof -
  have len: "length blocks = length index" and asc: "ascending cmp key_ok index" "ascending cmp key_ok (concat blocks)"
    using shape by (simp_all add: table_shape_def)
  have ok: "key_ok (fst (concat blocks ! p))" if "p < length (concat blocks)" for p
    using index.ascending_nth(1) [OF asc(2) that] .
  have early: "cmp (fst (concat blocks ! p)) target < 0"
    if i: "i < j" "i < length index" "q < length (blocks ! i)" "p = block_start blocks i + q" for i q p
  proof -
    have e: "concat blocks ! p = blocks ! i ! q" using nth_concat_block [of i blocks q] i len by simp
    have p: "p < length (concat blocks)" using block_position_less [of i blocks q] i len by simp
    have "\<not> cmp (fst (index ! i)) (fst (blocks ! i ! q)) < 0" using shape i by (auto simp: table_shape_def)
    moreover have idx: "key_ok (fst (index ! i))" using index.ascending_nth(1) [OF asc(1) i(2)] .
    moreover have key: "key_ok (fst (blocks ! i ! q))" using ok [OF p] e by simp
    ultimately have "fst (index ! i) = fst (blocks ! i ! q) \<or> cmp (fst (blocks ! i ! q)) (fst (index ! i)) < 0"
      using index.cmp_not_less by blast
    moreover have "cmp (fst (index ! i)) target < 0" using below_seek_position i(1) by (simp add: j_def)
    ultimately show ?thesis using index.cmp_trans [OF key idx target] e by auto
  qed
  show ?thesis
  proof (cases "j < length index")
    case False
    have all: "cmp (fst (concat blocks ! p)) target < 0" if lt: "p < length (concat blocks)" for p
    proof -
      obtain i q where i: "i < length blocks" "q < length (blocks ! i)" "p = block_start blocks i + q"
        by (rule block_of_position [OF lt])
      then show ?thesis using early [of i q p] False len by simp
    qed
    have "seek_position cmp target (concat blocks) = length (concat blocks)"
      by (rule seek_position_eq) (use all in auto)
    then show ?thesis using False by simp
  next
    case True
    let ?r = "seek_position cmp target (blocks ! j)"
    have r: "?r \<le> length (blocks ! j)" by (rule seek_position_le)
    have jb: "j < length blocks" using True len by simp
    have le: "block_start blocks j + ?r \<le> length (concat blocks)"
      using r block_start_le [of blocks "Suc j"] block_start_Suc [OF jb] by simp
    have "seek_position cmp target (concat blocks) = block_start blocks j + ?r"
    proof (rule seek_position_eq [OF _ _ le])
      fix p assume p: "p < block_start blocks j + ?r"
      then have lt: "p < length (concat blocks)" using le by simp
      obtain i q where i: "i < length blocks" "q < length (blocks ! i)" "p = block_start blocks i + q"
        by (rule block_of_position [OF lt])
      show "cmp (fst (concat blocks ! p)) target < 0"
      proof (cases "i < j")
        case True
        then show ?thesis using early [of i q p] i len by simp
      next
        case False
        have "i = j"
        proof (rule ccontr)
          assume "i \<noteq> j"
          then have "block_start blocks (Suc j) \<le> block_start blocks i" using False by (intro block_start_mono) simp
          then show False using p i(3) r block_start_Suc [OF jb] by simp
        qed
        then have "q < ?r" using p i(3) by simp
        then show ?thesis using below_seek_position [of q cmp target "blocks ! j"] nth_concat_block [OF i(1,2)] i(3) \<open>i = j\<close> by simp
      qed
    next
      assume p: "block_start blocks j + ?r < length (concat blocks)"
      obtain i q where i: "i < length blocks" "q < length (blocks ! i)" "block_start blocks j + ?r = block_start blocks i + q"
        by (rule block_of_position [OF p])
      have ji: "j \<le> i"
      proof (rule ccontr)
        assume "\<not> j \<le> i"
        then have "block_start blocks (Suc i) \<le> block_start blocks j" by (intro block_start_mono) simp
        then show False using i block_start_Suc [OF i(1)] by simp
      qed
      have e: "concat blocks ! (block_start blocks j + ?r) = blocks ! i ! q" using nth_concat_block [OF i(1,2)] i(3) by simp
      show "\<not> cmp (fst (concat blocks ! (block_start blocks j + ?r))) target < 0"
      proof (cases "i = j")
        case True
        then have "q = ?r" using i(3) by simp
        then show ?thesis using at_seek_position [of cmp target "blocks ! j"] i(2) e True by simp
      next
        case False
        then have "cmp (fst (index ! j)) (fst (blocks ! i ! q)) < 0" using shape i ji len by (auto simp: table_shape_def)
        moreover have "\<not> cmp (fst (index ! j)) target < 0" using at_seek_position True by (simp add: j_def)
        moreover have "key_ok (fst (index ! j))" "key_ok (fst (blocks ! i ! q))"
          using index.ascending_nth(1) [OF asc(1) True] ok [OF p] e by simp_all
        ultimately show ?thesis using index.cmp_trans [of "fst (index ! j)" "fst (blocks ! i ! q)" target] target e by auto
      qed
    qed
    then show ?thesis using True by simp
  qed
qed

text \<open>What the operations start from.\<close>

lemma tl_standsE:
  assumes "tl_stands iat dat index blocks p t"
  obtains j i q where "wrapped iat index j (index_iter t)" "no_data t \<or> data_on dat index blocks i q t"
  using assms by (auto simp: tl_stands_def split: if_splits)

lemma positioned:
  assumes "tl_image fuel cmp key_ok dat index blocks t" "tl_stands iat dat index blocks p t"
    and f: "\<forall>j w. wrapped iat index j w \<longrightarrow> (\<exists>w'. f w = Ok w' \<and> wrapped iat index i w')"
    and g: "\<forall>q w. wrapped dat (blocks ! i) q w \<longrightarrow> (\<exists>w'. g w = Ok w' \<and> wrapped dat (blocks ! i) r w')"
  shows "\<exists>t'. bind_result (on_index f t) (\<lambda>t. bind_result (InitDataBlock b iops dops t)
      (\<lambda>t. bind_result (if w_iter (data_iter t) \<noteq> None then on_data g t else Ok t) h)) = h t' \<and>
    tl_image fuel cmp key_ok dat index blocks t' \<and> wrapped iat index i (index_iter t') \<and>
    (if i < length index then data_on dat index blocks i r t' else no_data t')"
proof -
  obtain j i0 q0 where j: "wrapped iat index j (index_iter t)" "no_data t \<or> data_on dat index blocks i0 q0 t"
    by (rule tl_standsE [OF assms(2)])
  obtain t1 where t1: "on_index f t = Ok t1" "tl_image fuel cmp key_ok dat index blocks t1" "wrapped iat index i (index_iter t1)"
    "data_iter t1 = data_iter t" "data_block_handle t1 = data_block_handle t"
    using index_step [where f = f, OF assms(1) j(1) f [rule_format, OF j(1)]] by blast
  have "no_data t1 \<or> data_on dat index blocks i0 q0 t1" using j(2) t1(4,5) by (simp add: no_data_def data_on_def)
  then obtain t2 where t2: "bind_result (InitDataBlock b iops dops t1)
      (\<lambda>t. bind_result (if w_iter (data_iter t) \<noteq> None then on_data g t else Ok t) h) = h t2"
    "tl_image fuel cmp key_ok dat index blocks t2" "index_iter t2 = index_iter t1"
    "if i < length index then data_on dat index blocks i r t2 else no_data t2"
    using enter_block [where r = r and f = g and g = h and b = b, OF t1(2,3) _ g] by blast
  show ?thesis
    by (intro exI [of _ t2] conjI t2(2,4)) (simp_all add: t1(1,3) t2(1,3) del: not_None_eq)
qed

lemma tl_onI:
  "tl_image fuel cmp key_ok dat index blocks t \<Longrightarrow> tl_stands iat dat index blocks p t \<Longrightarrow> tl_on fuel cmp key_ok iat dat (concat blocks) p t"
  unfolding tl_on_def by blast

lemma tl_Seek_on:
  assumes "tl_on fuel cmp key_ok iat dat es p t" "key_ok target"
  shows "\<exists>t'. tl_Seek fuel b iops dops target t = Ok t' \<and> tl_on fuel cmp key_ok iat dat es (seek_position cmp target es) t'"
proof -
  obtain index blocks where t: "es = concat blocks" "tl_image fuel cmp key_ok dat index blocks t" "tl_stands iat dat index blocks p t"
    using assms(1) by (auto simp: tl_on_def)
  let ?j = "seek_position cmp target index"
  have f: "\<forall>j w. wrapped iat index j w \<longrightarrow> (\<exists>w'. op_Seek (wrapper_ops b iops) target w = Ok w' \<and> wrapped iat index ?j w')"
    using wi.on_Seek [OF _ assms(2)] by blast
  have g: "\<forall>q w. wrapped dat (blocks ! ?j) q w \<longrightarrow> (\<exists>w'. op_Seek (wrapper_ops b dops) target w = Ok w' \<and> wrapped dat (blocks ! ?j) (seek_position cmp target (blocks ! ?j)) w')"
    using wd.on_Seek [OF _ assms(2)] by blast
  obtain t1 where t1: "tl_Seek fuel b iops dops target t = SkipEmptyDataBlocksForward fuel b iops dops t1"
    "tl_image fuel cmp key_ok dat index blocks t1" "wrapped iat index ?j (index_iter t1)"
    "if ?j < length index then data_on dat index blocks ?j (seek_position cmp target (blocks ! ?j)) t1 else no_data t1"
    using positioned [where f = "op_Seek (wrapper_ops b iops) target" and g = "op_Seek (wrapper_ops b dops) target"
        and h = "SkipEmptyDataBlocksForward fuel b iops dops" and b = b, OF t(2,3) f g]
    unfolding tl_Seek_def by blast
  have "length index < fuel + ?j" using t(2) by (simp add: tl_image_def)
  then obtain t2 where t2: "SkipEmptyDataBlocksForward fuel b iops dops t1 = Ok t2" "tl_image fuel cmp key_ok dat index blocks t2"
    "tl_stands iat dat index blocks (if ?j < length index then block_start blocks ?j + seek_position cmp target (blocks ! ?j)
       else length (concat blocks)) t2"
    using skip_forward [OF t1(2,3,4)] by blast
  have "seek_position cmp target (concat blocks) = (if ?j < length index
      then block_start blocks ?j + seek_position cmp target (blocks ! ?j) else length (concat blocks))"
    by (rule seek_position_concat [OF _ assms(2), of _ _ "block_function t"]) (use t(2) in \<open>simp add: tl_image_def\<close>)
  then show ?thesis using t(1) t1(1) t2(1) tl_onI [OF t2(2)] t2(3) by simp
qed

lemma tl_SeekToFirst_on:
  assumes "tl_on fuel cmp key_ok iat dat es p t"
  shows "\<exists>t'. tl_SeekToFirst fuel b iops dops t = Ok t' \<and> tl_on fuel cmp key_ok iat dat es 0 t'"
proof -
  obtain index blocks where t: "es = concat blocks" "tl_image fuel cmp key_ok dat index blocks t" "tl_stands iat dat index blocks p t"
    using assms(1) by (auto simp: tl_on_def)
  have f: "\<forall>j w. wrapped iat index j w \<longrightarrow> (\<exists>w'. op_SeekToFirst (wrapper_ops b iops) w = Ok w' \<and> wrapped iat index 0 w')"
    using wi.on_SeekToFirst by blast
  have g: "\<forall>q w. wrapped dat (blocks ! 0) q w \<longrightarrow> (\<exists>w'. op_SeekToFirst (wrapper_ops b dops) w = Ok w' \<and> wrapped dat (blocks ! 0) 0 w')"
    using wd.on_SeekToFirst by blast
  obtain t1 where t1: "tl_SeekToFirst fuel b iops dops t = SkipEmptyDataBlocksForward fuel b iops dops t1"
    "tl_image fuel cmp key_ok dat index blocks t1" "wrapped iat index 0 (index_iter t1)"
    "if 0 < length index then data_on dat index blocks 0 0 t1 else no_data t1"
    using positioned [where f = "op_SeekToFirst (wrapper_ops b iops)" and g = "op_SeekToFirst (wrapper_ops b dops)"
        and h = "SkipEmptyDataBlocksForward fuel b iops dops" and b = b, OF t(2,3) f g]
    unfolding tl_SeekToFirst_def by blast
  have fuel: "length index < fuel + 0" using t(2) by (simp add: tl_image_def)
  have "(if 0 < length index then block_start blocks 0 + 0 else length (concat blocks)) = 0"
    using blocks_length [OF t(2)] by (cases "index = []") auto
  then show ?thesis using skip_forward [OF t1(2,3,4) fuel, of b] t(1) t1(1) tl_onI by auto
qed

lemma tl_SeekToLast_on:
  assumes "tl_on fuel cmp key_ok iat dat es p t"
  shows "\<exists>t'. tl_SeekToLast fuel b iops dops t = Ok t' \<and> tl_on fuel cmp key_ok iat dat es (length es - 1) t'"
proof -
  obtain index blocks where t: "es = concat blocks" "tl_image fuel cmp key_ok dat index blocks t" "tl_stands iat dat index blocks p t"
    using assms(1) by (auto simp: tl_on_def)
  let ?j = "length index - 1" and ?r = "length (blocks ! (length index - 1)) - 1"
  have f: "\<forall>j w. wrapped iat index j w \<longrightarrow> (\<exists>w'. op_SeekToLast (wrapper_ops b iops) w = Ok w' \<and> wrapped iat index ?j w')"
    using wi.on_SeekToLast by blast
  have g: "\<forall>q w. wrapped dat (blocks ! ?j) q w \<longrightarrow> (\<exists>w'. op_SeekToLast (wrapper_ops b dops) w = Ok w' \<and> wrapped dat (blocks ! ?j) ?r w')"
    using wd.on_SeekToLast by blast
  obtain t1 where t1: "tl_SeekToLast fuel b iops dops t = SkipEmptyDataBlocksBackward fuel b iops dops t1"
    "tl_image fuel cmp key_ok dat index blocks t1" "wrapped iat index ?j (index_iter t1)"
    "if ?j < length index then data_on dat index blocks ?j ?r t1 else no_data t1"
    using positioned [where f = "op_SeekToLast (wrapper_ops b iops)" and g = "op_SeekToLast (wrapper_ops b dops)"
        and h = "SkipEmptyDataBlocksBackward fuel b iops dops" and b = b, OF t(2,3) f g]
    unfolding tl_SeekToLast_def by blast
  note len = blocks_length [OF t(2)]
  have fuel: "Suc (length index) < fuel" using t(2) by (simp add: tl_image_def)
  show ?thesis
  proof (cases "index = []")
    case True
    then have e: "wrapped iat index (length index) (index_iter t1)" "no_data t1" "blocks = []" using t1(3,4) len by simp_all
    obtain k where k: "fuel = Suc k" using fuel by (cases fuel) auto
    have "\<not> w_valid (index_iter t1)" using e(1) by (simp add: wrapped_def)
    then have "SkipEmptyDataBlocksBackward fuel b iops dops t1 = SetDataIterator dops None t1" using e(2) by (simp add: k no_data_def)
    then obtain t' where "tl_SeekToLast fuel b iops dops t = Ok t'" "tl_image fuel cmp key_ok dat index blocks t'"
      "tl_stands iat dat index blocks (length (concat blocks)) t'"
      using skip_end [OF t1(2) e(1,2)] t1(1) by auto
    then show ?thesis using t(1) e(3) tl_onI [of fuel index blocks t' "length (concat blocks)"] by simp
  next
    case False
    then have j: "?j < length index" by simp
    then have d: "data_on dat index blocks ?j ?r t1" using t1(4) by simp
    have "Suc ?j < fuel" using fuel by simp
    from skip_backward [OF t1(2,3) d this]
    have "\<exists>t'. SkipEmptyDataBlocksBackward fuel b iops dops t1 = Ok t' \<and> tl_image fuel cmp key_ok dat index blocks t' \<and>
      tl_stands iat dat index blocks
        (if ?r < length (blocks ! ?j) then block_start blocks ?j + ?r
         else if block_start blocks ?j = 0 then length (concat blocks) else block_start blocks ?j - 1) t'" .
    moreover have start: "block_start blocks ?j + length (blocks ! ?j) = length (concat blocks)"
      using block_start_Suc [of ?j blocks] block_start_length [of blocks "Suc ?j"] j len False by simp
    ultimately obtain t' where t': "SkipEmptyDataBlocksBackward fuel b iops dops t1 = Ok t'" "tl_image fuel cmp key_ok dat index blocks t'"
      "tl_stands iat dat index blocks (if length es = 0 then length es else length es - 1) t'"
      unfolding last_position start t(1) by blast
    moreover have "(if length es = 0 then length es else length es - 1) = length es - 1" by simp
    ultimately show ?thesis using t1(1) tl_onI [OF t'(2)] t(1) by simp
  qed
qed

text \<open>The parts of a position.\<close>

lemma tl_onE:
  assumes "tl_on fuel cmp key_ok iat dat es p t" "p < length es"
  obtains index blocks j q where "es = concat blocks" "tl_image fuel cmp key_ok dat index blocks t" "wrapped iat index j (index_iter t)"
    "data_on dat index blocks j q t" "q < length (blocks ! j)" "p = block_start blocks j + q" "j < length index"
proof -
  obtain index blocks where t: "es = concat blocks" "tl_image fuel cmp key_ok dat index blocks t" "tl_stands iat dat index blocks p t"
    using assms(1) by (auto simp: tl_on_def)
  have "p < length (concat blocks)" using assms(2) t(1) by simp
  then obtain j q where j: "wrapped iat index j (index_iter t)" "data_on dat index blocks j q t" "q < length (blocks ! j)"
    "p = block_start blocks j + q"
    using t(3) unfolding tl_stands_def by auto
  moreover from j(2) have "j < length index" by (simp add: data_on_def)
  ultimately show thesis by (rule that [OF t(1,2)])
qed

lemma data_step:
  assumes "tl_image fuel cmp key_ok dat index blocks t" "data_on dat index blocks j q t" "\<exists>w'. f (data_iter t) = Ok w' \<and> wrapped dat (blocks ! j) r w'"
  shows "\<exists>t'. on_data f t = Ok t' \<and> tl_image fuel cmp key_ok dat index blocks t' \<and> index_iter t' = index_iter t \<and> data_on dat index blocks j r t'"
  using assms by (auto simp: on_data_def tl_image_def data_on_def)

lemma tl_Next_on:
  assumes "tl_on fuel cmp key_ok iat dat es p t" "p < length es"
  shows "\<exists>t'. tl_Next fuel b iops dops t = Ok t' \<and> tl_on fuel cmp key_ok iat dat es (Suc p) t'"
proof -
  obtain index blocks j q where t: "es = concat blocks" "tl_image fuel cmp key_ok dat index blocks t" "wrapped iat index j (index_iter t)"
    "data_on dat index blocks j q t" "q < length (blocks ! j)" "p = block_start blocks j + q" "j < length index"
    by (rule tl_onE [OF assms])
  have w: "wrapped dat (blocks ! j) q (data_iter t)" using t(4) by (simp add: data_on_def)
  obtain t1 where t1: "on_data (op_Next (wrapper_ops b dops)) t = Ok t1" "tl_image fuel cmp key_ok dat index blocks t1"
    "index_iter t1 = index_iter t" "data_on dat index blocks j (Suc q) t1"
    using data_step [where f = "op_Next (wrapper_ops b dops)", OF t(2,4) wd.on_Next [OF w t(5)]] by blast
  have pos: "wrapped iat index j (index_iter t1)" "if j < length index then data_on dat index blocks j (Suc q) t1 else no_data t1"
    "length index < fuel + j"
    using t(2,3,7) t1(3,4) by (simp_all add: tl_image_def)
  have "w_valid (data_iter t)" using w t(5) by (simp add: wrapped_def)
  then show ?thesis
    using skip_forward [OF t1(2) pos, of b] t(1,6,7) t1(1) by (auto simp: tl_Next_def intro: tl_onI)
qed

lemma tl_Prev_on:
  assumes "tl_on fuel cmp key_ok iat dat es p t" "p < length es"
  shows "\<exists>t'. tl_Prev fuel b iops dops t = Ok t' \<and> tl_on fuel cmp key_ok iat dat es (if p = 0 then length es else p - 1) t'"
proof -
  obtain index blocks j q where t: "es = concat blocks" "tl_image fuel cmp key_ok dat index blocks t" "wrapped iat index j (index_iter t)"
    "data_on dat index blocks j q t" "q < length (blocks ! j)" "p = block_start blocks j + q" "j < length index"
    by (rule tl_onE [OF assms])
  have w: "wrapped dat (blocks ! j) q (data_iter t)" using t(4) by (simp add: data_on_def)
  let ?r = "if q = 0 then length (blocks ! j) else q - 1"
  obtain t1 where t1: "on_data (op_Prev (wrapper_ops b dops)) t = Ok t1" "tl_image fuel cmp key_ok dat index blocks t1"
    "index_iter t1 = index_iter t" "data_on dat index blocks j ?r t1"
    using data_step [where f = "op_Prev (wrapper_ops b dops)", OF t(2,4) wd.on_Prev [OF w t(5)]] by blast
  have pos: "wrapped iat index j (index_iter t1)" "Suc j < fuel" using t(2,3,7) t1(3) by (simp_all add: tl_image_def)
  have "w_valid (data_iter t)" using w t(5) by (simp add: wrapped_def)
  moreover have "(if ?r < length (blocks ! j) then block_start blocks j + ?r
      else if block_start blocks j = 0 then length (concat blocks) else block_start blocks j - 1) = (if p = 0 then length es else p - 1)"
    using t(1,5,6) by auto
  ultimately show ?thesis
    using skip_backward [OF t1(2) pos(1) t1(4) pos(2), of b] t(1) t1(1) by (auto simp: tl_Prev_def intro: tl_onI)
qed

lemma two_level_contract: "sorted_iterator cmp key_ok (two_level_ops fuel b iops dops) (tl_on fuel cmp key_ok iat dat)"
proof (unfold_locales, goal_cases)
  case (1 es p t)
  then show ?case by (auto simp: tl_on_def tl_stands_def tl_image_def table_shape_def split: if_splits)
next
  case (2 es p t)
  show ?case
  proof (cases "p < length es")
    case True
    then show ?thesis using 2 by (auto elim!: tl_onE simp: two_level_ops_def data_on_def wrapped_def)
  next
    case False
    then show ?thesis using 2 by (auto simp: two_level_ops_def tl_on_def tl_stands_def no_data_def)
  qed
next
  case (3 es p t)
  obtain index blocks j q where t: "es = concat blocks" "tl_image fuel cmp key_ok dat index blocks t" "wrapped iat index j (index_iter t)"
    "data_on dat index blocks j q t" "q < length (blocks ! j)" "p = block_start blocks j + q" "j < length index"
    by (rule tl_onE [OF 3])
  have w: "wrapped dat (blocks ! j) q (data_iter t)" using t(4) by (simp add: data_on_def)
  have "es ! p = blocks ! j ! q" using nth_concat_block [OF _ t(5)] blocks_length [OF t(2)] t(1,6,7) by simp
  moreover have "w_valid (data_iter t)" using w t(5) by (simp add: wrapped_def)
  ultimately show ?case using wd.on_key [OF w t(5), of b] by (simp add: two_level_ops_def wrapper_ops_def)
next
  case (4 es p t)
  obtain index blocks j q where t: "es = concat blocks" "tl_image fuel cmp key_ok dat index blocks t" "wrapped iat index j (index_iter t)"
    "data_on dat index blocks j q t" "q < length (blocks ! j)" "p = block_start blocks j + q" "j < length index"
    by (rule tl_onE [OF 4])
  have w: "wrapped dat (blocks ! j) q (data_iter t)" using t(4) by (simp add: data_on_def)
  have "es ! p = blocks ! j ! q" using nth_concat_block [OF _ t(5)] blocks_length [OF t(2)] t(1,6,7) by simp
  moreover have "w_valid (data_iter t)" using w t(5) by (simp add: wrapped_def)
  ultimately show ?case using wd.on_value [OF w t(5), of b] by (simp add: two_level_ops_def wrapper_ops_def)
next
  case (5 es p t)
  then obtain index blocks where t: "tl_image fuel cmp key_ok dat index blocks t" "tl_stands iat dat index blocks p t" by (auto simp: tl_on_def)
  obtain j i q where "wrapped iat index j (index_iter t)" "no_data t \<or> data_on dat index blocks i q t" by (rule tl_standsE [OF t(2)])
  then show ?case
    using t(1) index.on_status data.on_status
    by (auto simp: two_level_ops_def tl_get_status_def wrapped_def no_data_def data_on_def tl_image_def split: option.split)
next
  case (6 es p t)
  then show ?case using tl_Next_on by (simp add: two_level_ops_def)
next
  case (7 es p t)
  then show ?case using tl_Prev_on [of fuel es p t b] by (simp add: two_level_ops_def)
next
  case (8 es p t target)
  then show ?case using tl_Seek_on by (simp add: two_level_ops_def)
next
  case (9 es p t)
  then show ?case using tl_SeekToFirst_on by (simp add: two_level_ops_def)
next
  case (10 es p t)
  then show ?case using tl_SeekToLast_on by (simp add: two_level_ops_def)
qed

text \<open>A new iterator stands behind the last entry.\<close>

lemma TwoLevelIterator_on:
  assumes "table_shape cmp key_ok dat index blocks bf" "iat index j it" "Suc (length index) < fuel"
  shows "\<exists>t. TwoLevelIterator iops it bf = Ok t \<and> tl_on fuel cmp key_ok iat dat (concat blocks) (length (concat blocks)) t"
proof -
  obtain w where w: "wrapper_Set iops (Some it) no_wrapper = Ok w" "wrapped iat index j w"
    using index.Update_wrapped [OF assms(2)] by (auto simp: wrapper_Set_def)
  then show ?thesis
    using assms by (auto simp: TwoLevelIterator_def tl_on_def tl_image_def tl_stands_def no_data_def no_wrapper_def)
qed

end

sublocale two_level_tables \<subseteq> table: sorted_iterator cmp key_ok "two_level_ops fuel b iops dops" "tl_on fuel cmp key_ok iat dat" for fuel b
  by (rule two_level_contract)

end
