(* ===== verification/TableReader.thy ===== *)
theory TableReader
  imports TableBuilder TwoLevel
begin

text \<open>Reading a table file, src/src/leveldb/table/table.cc: opening it, its filters, iterators over it and looking a key up.\<close>

section \<open>Opening\<close>

record table =
  t_options :: table_options
  t_file :: random_file
  t_cache_id :: u64
  t_filter :: "filter_reader option"
  t_metaindex :: block_handle
  t_index_block :: block

definition ReadFilter :: "env \<Rightarrow> policy \<Rightarrow> bytes \<Rightarrow> table \<Rightarrow> table result" where
  "ReadFilter e policy filter_handle_value t =
     (case BlockHandle_DecodeFrom filter_handle_value BlockHandle of
        (s, filter_handle, _) \<Rightarrow>
          if s \<noteq> OK then Ok t
          else bind_result (ReadBlock e (t_file t) (paranoid_checks (t_options t)) filter_handle) (\<lambda>(s, data).
            if s \<noteq> OK then Ok t else Ok (t\<lparr>t_filter := Some (FilterBlockReader policy data)\<rparr>)))"

definition ReadMeta :: "build \<Rightarrow> env \<Rightarrow> footer \<Rightarrow> table \<Rightarrow> table result" where
  "ReadMeta b e f t =
     (case opt_policy (t_options t) of
        None \<Rightarrow> Ok t
      | Some policy \<Rightarrow>
          bind_result (ReadBlock e (t_file t) (paranoid_checks (t_options t)) (metaindex_handle f)) (\<lambda>(s, contents).
            if s \<noteq> OK then Ok t
            else
              let key = filter_key policy
              in bind_result (NewIterator b Slice_compare (Block contents)) (\<lambda>iter.
                 bind_result (op_Seek (block_ops b) key iter) (\<lambda>iter.
                   if op_Valid (block_ops b) iter then
                     bind_result (op_key (block_ops b) iter) (\<lambda>k.
                       if k = key then bind_result (op_value (block_ops b) iter) (\<lambda>v. ReadFilter e policy v t)
                       else Ok t)
                   else Ok t))))"

text \<open>\<open>cache_id\<close> is the number that the block cache, if there is one, gives to the table.\<close>

definition Table_Open :: "build \<Rightarrow> env \<Rightarrow> table_options \<Rightarrow> random_file \<Rightarrow> u64 \<Rightarrow> u64 \<Rightarrow> (status \<times> table option) result" where
  "Table_Open b e opts rfile file_size cache_id =
     (if unat file_size < kEncodedLength then Ok (Corruption ''file is too short to be an sstable'', None)
      else case rfile (file_size - word_of_nat kEncodedLength) kEncodedLength of
        (s, footer_input) \<Rightarrow>
          if s \<noteq> OK then Ok (s, None)
          else bind_result (Footer_DecodeFrom footer_input) (\<lambda>(s, f, _).
            if s \<noteq> OK then Ok (s, None)
            else bind_result (ReadBlock e rfile (paranoid_checks opts) (index_handle f)) (\<lambda>(s, index_block_contents).
              if s = OK then
                let t = \<lparr>t_options = opts, t_file = rfile, t_cache_id = (if block_cache opts \<noteq> None then cache_id else 0),
                         t_filter = None, t_metaindex = metaindex_handle f, t_index_block = Block index_block_contents\<rparr>
                in bind_result (ReadMeta b e f t) (\<lambda>t. Ok (OK, Some t))
              else Ok (s, None))))"

section \<open>Iterators\<close>

text \<open>Which block an index entry stands for; what a lookup finds in the cache is used instead of the file. The cache is a lookup
  function: what \<open>Insert\<close> adds to it later is not modelled, and the theorems hold for every cache that holds blocks as they are read.\<close>

definition find_block :: "env \<Rightarrow> table \<Rightarrow> bool \<Rightarrow> bytes \<Rightarrow> (status \<times> block) result" where
  "find_block e t verify_checksums index_value =
     (let none = Block []
      in case BlockHandle_DecodeFrom index_value BlockHandle of
        (s, handle, _) \<Rightarrow>
          if s \<noteq> OK then Ok (s, none)
          else
            let read = bind_result (ReadBlock e (t_file t) verify_checksums handle) (\<lambda>(s, contents).
                  Ok (s, if s = OK then Block contents else none))
            in case block_cache (t_options t) of
                 Some lookup \<Rightarrow>
                   let key = store64 (t_cache_id t) @ store64 (bh_offset handle)
                   in (case lookup key of Some block \<Rightarrow> Ok (OK, block) | None \<Rightarrow> read)
               | None \<Rightarrow> read)"

definition BlockReader :: "build \<Rightarrow> env \<Rightarrow> table \<Rightarrow> bool \<Rightarrow> bytes \<Rightarrow> block_iterator result" where
  "BlockReader b e t verify_checksums index_value =
     bind_result (find_block e t verify_checksums index_value) (\<lambda>(s, block).
       if s = OK then NewIterator b (opt_comparator (t_options t)) block else Ok (EmptyIterator s))"

type_synonym table_iterator = "(block_iterator, block_iterator) two_level"

definition Table_NewIterator :: "build \<Rightarrow> env \<Rightarrow> bool \<Rightarrow> table \<Rightarrow> table_iterator result" where
  "Table_NewIterator b e verify_checksums t =
     bind_result (NewIterator b (opt_comparator (t_options t)) (t_index_block t)) (\<lambda>index_iter.
       TwoLevelIterator (block_ops b) index_iter
         (\<lambda>index_value. bind_result (BlockReader b e t verify_checksums index_value) (\<lambda>it. Ok (Some it))))"

text \<open>The entry that is handed to \<open>saver\<close>, if any, and the status.\<close>

definition InternalGet :: "build \<Rightarrow> env \<Rightarrow> bool \<Rightarrow> bytes \<Rightarrow> table \<Rightarrow> ((bytes \<times> bytes) option \<times> status) result" where
  "InternalGet b e verify_checksums k t =
     bind_result (NewIterator b (opt_comparator (t_options t)) (t_index_block t)) (\<lambda>iiter.
     bind_result (op_Seek (block_ops b) k iiter) (\<lambda>iiter.
       if op_Valid (block_ops b) iiter then
         bind_result (op_value (block_ops b) iiter) (\<lambda>handle_value.
         bind_result
           (case t_filter t of
              None \<Rightarrow> Ok True
            | Some fr \<Rightarrow>
                (case BlockHandle_DecodeFrom handle_value BlockHandle of
                   (s, handle, _) \<Rightarrow> if s = OK then FilterBlock_KeyMayMatch (bh_offset handle) k fr else Ok True)) (\<lambda>may_match.
           if \<not> may_match then Ok (None, op_status (block_ops b) iiter)
           else
             bind_result (BlockReader b e t verify_checksums handle_value) (\<lambda>block_iter.
             bind_result (op_Seek (block_ops b) k block_iter) (\<lambda>block_iter.
             bind_result
               (if op_Valid (block_ops b) block_iter then
                  bind_result (op_key (block_ops b) block_iter) (\<lambda>key.
                  bind_result (op_value (block_ops b) block_iter) (\<lambda>val. Ok (Some (key, val))))
                else Ok None) (\<lambda>found.
               let s = op_status (block_ops b) block_iter
               in Ok (found, if s = OK then op_status (block_ops b) iiter else s))))))
       else Ok (None, op_status (block_ops b) iiter)))"

definition ApproximateOffsetOf :: "build \<Rightarrow> bytes \<Rightarrow> table \<Rightarrow> u64 result" where
  "ApproximateOffsetOf b key t =
     bind_result (NewIterator b (opt_comparator (t_options t)) (t_index_block t)) (\<lambda>index_iter.
     bind_result (op_Seek (block_ops b) key index_iter) (\<lambda>index_iter.
       if op_Valid (block_ops b) index_iter then
         bind_result (op_value (block_ops b) index_iter) (\<lambda>input.
           case BlockHandle_DecodeFrom input BlockHandle of
             (s, handle, _) \<Rightarrow> Ok (if s = OK then bh_offset handle else bh_offset (t_metaindex t)))
       else Ok (bh_offset (t_metaindex t))))"

end
