(* ===== verification/TableWriting.thy ===== *)
theory TableWriting
  imports TableReader
begin

text \<open>
  What a table builder writes: whatever the block size, the compression and the filter policy, the file is the sequence of the
  blocks of the entries, each with its index entry, followed by the filters, the metaindex, the index and the footer.
\<close>

section \<open>Sizes\<close>

lemma length_EncodeVarint32: "length (EncodeVarint32 v) \<le> 5"
  by (simp add: EncodeVarint32_def Let_def)

text \<open>Bytes of a block in the making, with its restart points.\<close>

definition builder_size :: "block_builder \<Rightarrow> nat" where
  "builder_size s = length (buffer s) + 4 * length (restarts s)"

lemma length_PutVarint32: "length (PutVarint32 buf v) \<le> length buf + 5"
  using length_EncodeVarint32 [of v] by (simp add: PutVarint32_def)

lemma Add_size:
  assumes "BlockBuilder_Add b opts k v s = Ok s'"
  shows "builder_size s' \<le> builder_size s + 19 + length k + length v"
proof -
  have "\<exists>x y z m. buffer s' = PutVarint32 (PutVarint32 (PutVarint32 (buffer s) x) y) z @ drop m k @ v \<and>
      length (restarts s') \<le> length (restarts s) + 1"
  proof (cases "counter s < block_restart_interval opts")
    case True
    with assms show ?thesis by (simp add: BlockBuilder_Add_def Let_def bind_result_eq_Inr) (auto intro!: exI)
  next
    case False
    with assms show ?thesis
      by (intro exI [of _ 0] exI [of _ "word_of_nat (length k)"] exI [of _ "word_of_nat (length v)"])
        (auto simp: BlockBuilder_Add_def Let_def bind_result_eq_Inr)
  qed
  then obtain x y z m where r: "buffer s' = PutVarint32 (PutVarint32 (PutVarint32 (buffer s) x) y) z @ drop m k @ v"
    "length (restarts s') \<le> length (restarts s) + 1" by blast
  have "length (drop m k) \<le> length k" by simp
  then show ?thesis
    using r(2) length_PutVarint32 [of "buffer s" x] length_PutVarint32 [of "PutVarint32 (buffer s) x" y]
      length_PutVarint32 [of "PutVarint32 (PutVarint32 (buffer s) x) y" z]
    unfolding builder_size_def r(1) length_append by linarith
qed

lemma Finish_size: "BlockBuilder_Finish s = (raw, s') \<Longrightarrow> length raw = builder_size s + 4"
  unfolding BlockBuilder_Finish_def Let_def put_restarts
  by (auto simp: PutFixed32_def builder_size_def length_concat_store32 [of "\<lambda>x. x", simplified])

definition data_weight :: "(bytes \<times> bytes) list \<Rightarrow> nat" where
  "data_weight es = (\<Sum>e\<leftarrow>es. 32 + length (fst e) + length (snd e))"

definition index_weight :: "(bytes \<times> bytes) list \<Rightarrow> nat" where
  "index_weight es = (\<Sum>e\<leftarrow>es. 39 + length (fst e))"

lemma weight_simps [simp]:
  "data_weight [] = 0" "data_weight (e # es) = 32 + length (fst e) + length (snd e) + data_weight es"
  "data_weight (es @ es') = data_weight es + data_weight es'"
  "index_weight [] = 0" "index_weight (e # es) = 39 + length (fst e) + index_weight es"
  "index_weight (es @ es') = index_weight es + index_weight es'"
  by (simp_all add: data_weight_def index_weight_def)

section \<open>Blocks in the file\<close>

text \<open>Entries, type byte and stored bytes of a block; where blocks lie when they are written one after the other.\<close>

type_synonym placed = "(bytes \<times> bytes) list \<times> u8 \<times> bytes"

definition placed_bytes :: "placed \<Rightarrow> bytes" where
  "placed_bytes p = (case p of (es, ty, data) \<Rightarrow> data @ trailer_of ty data)"

definition placed_at :: "placed list \<Rightarrow> nat \<Rightarrow> nat" where
  "placed_at bs j = length (concat (map placed_bytes (take j bs)))"

definition placed_handle :: "placed list \<Rightarrow> nat \<Rightarrow> block_handle" where
  "placed_handle bs j = handle_at (placed_at bs j) (snd (snd (bs ! j)))"

definition stored_as :: "env \<Rightarrow> bytes \<Rightarrow> u8 \<Rightarrow> bytes \<Rightarrow> bool" where
  "stored_as e raw ty data \<longleftrightarrow> (ty = 0 \<and> raw = data \<or> ty = 1 \<and> Snappy_Compress (env_snappy e) raw = Some data) \<and> length data \<le> length raw"

definition holds_entries :: "env \<Rightarrow> placed \<Rightarrow> bool" where
  "holds_entries e p \<longleftrightarrow> (case p of (es, ty, data) \<Rightarrow> \<exists>raw shs rs. block_image shs es rs raw \<and> stored_as e raw ty data)"

lemma length_trailer_of [simp]: "length (trailer_of ty data) = 5"
  by (simp add: trailer_of_def)

lemma placed_at_append: "j \<le> length bs \<Longrightarrow> placed_at (bs @ bs') j = placed_at bs j"
  by (simp add: placed_at_def)

lemma placed_handle_append: "j < length bs \<Longrightarrow> placed_handle (bs @ bs') j = placed_handle bs j"
  by (simp add: placed_handle_def placed_at_append nth_append)

lemma fresh_builder: "1 \<le> block_restart_interval opts \<Longrightarrow> built opts [] [] [0] (BlockBuilder_Reset s)"
  by (simp add: built_def BlockBuilder_Reset_def shares_def restart_entries_def layout_def entry_offset_def)

lemma Reset_size [simp]: "builder_size (BlockBuilder_Reset s) = 4" "buffer (BlockBuilder_Reset s) = []"
  by (simp_all add: builder_size_def BlockBuilder_Reset_def)

lemma Finish_image_of:
  assumes "built opts shs es rs s" "BlockBuilder_Finish s = (raw, s')" "length raw < 2 ^ 32"
  shows "block_image shs es rs raw"
proof -
  have "raw = buffer s @ concat (map store32 (restarts s)) @ store32 (word_of_nat (length (restarts s)))"
    using assms(2) unfolding BlockBuilder_Finish_def Let_def put_restarts by (auto simp: PutFixed32_def)
  then show ?thesis using assms(1,3) by (simp add: built_def block_image_def comp_def)
qed

lemma nth_in_drop: "k \<le> i \<Longrightarrow> i < length xs \<Longrightarrow> xs ! i \<in> set (drop k xs)"
  unfolding in_set_conv_nth by (intro exI [of _ "i - k"]) simp

section \<open>Writing\<close>

text \<open>
  What the options have to be for a table: a comparator with its laws, a compressor that can be undone, and a filter policy that
  keeps its promise with filters of limited size.
\<close>

locale table_setting =
  comparator "opt_comparator opts" key_ok "opt_separator opts" "opt_successor opts" + compressor "env_snappy e"
  for opts :: table_options and key_ok :: "bytes \<Rightarrow> bool" and e :: env +
  fixes per_key :: nat
  assumes interval: "1 \<le> block_restart_interval opts"
    and policies: "opt_policy opts = Some policy \<Longrightarrow> filter_policy policy"
    and filter_size: "opt_policy opts = Some policy \<Longrightarrow> length (policy_CreateFilter policy keys []) \<le> per_key * Suc (length keys)"
begin

text \<open>The index: an entry for each block, whose key is not below those of the block and below all that follow.\<close>

definition index_ok :: "placed list \<Rightarrow> (bytes \<times> bytes) list \<Rightarrow> (bytes \<times> bytes) list \<Rightarrow> bool" where
  "index_ok bs idx cur \<longleftrightarrow> ascending (opt_comparator opts) key_ok idx \<and> length idx \<le> length bs \<and>
     (\<forall>j < length idx. snd (idx ! j) = handle_code (placed_handle bs j) \<and>
        (\<forall>x \<in> set (fst (bs ! j)). \<not> opt_comparator opts (fst (idx ! j)) (fst x) < 0) \<and>
        (\<forall>x \<in> set (concat (map fst (drop (Suc j) bs)) @ cur). opt_comparator opts (fst (idx ! j)) (fst x) < 0))"

text \<open>The keys of a block are in the filter for its offset.\<close>

definition covered :: "placed list \<Rightarrow> bytes list list \<Rightarrow> bytes list \<Rightarrow> bool" where
  "covered bs groups pending \<longleftrightarrow> (\<forall>j < length bs. \<forall>x \<in> set (fst (bs ! j)).
     let i = placed_at bs j div kFilterBase in
     i < length groups \<and> fst x \<in> set (groups ! i) \<or> i = length groups \<and> fst x \<in> set pending)"

lemma ascending_last:
  assumes "ascending (opt_comparator opts) key_ok es" "x \<in> set es"
  shows "x = last es \<or> opt_comparator opts (fst x) (fst (last es)) < 0"
proof -
  obtain i where i: "i < length es" "x = es ! i" using assms(2) by (auto simp: in_set_conv_nth)
  have "es \<noteq> []" using assms(2) by auto
  then have last: "last es = es ! (length es - 1)" by (rule last_conv_nth)
  show ?thesis
  proof (cases "i = length es - 1")
    case False
    then have "opt_comparator opts (fst (es ! i)) (fst (es ! (length es - 1))) < 0"
      using i(1) by (intro ascending_nth(2) [OF assms(1)]) auto
    then show ?thesis using i(2) last by simp
  qed (use i last in simp)
qed

end

locale table_writer =
  table_setting opts key_ok e per_key + writable_file w written
  for opts :: table_options and key_ok :: "bytes \<Rightarrow> bool" and e :: env and per_key :: nat
    and w :: "'f writable" and written :: "'f \<Rightarrow> bytes"
begin

lemma WriteRawBlock_writes:
  "\<exists>f'. WriteRawBlock e w data ctype r =
      (\<lparr>bh_offset = tb_offset r, bh_size = word_of_nat (length data)\<rparr>,
       r\<lparr>tb_status := OK, tb_file := f', tb_offset := tb_offset r + word_of_nat (length data + 5)\<rparr>) \<and>
    written f' = written (tb_file r) @ data @ trailer_of (compression_byte ctype) data"
proof -
  obtain f1 where f1: "wf_Append w data (tb_file r) = (OK, f1)" "written f1 = written (tb_file r) @ data"
    using append_file by blast
  let ?trailer = "[compression_byte ctype] @ store32 (Mask (Extend (address e [compression_byte ctype]) (crc32c_Value (address e data) data) [compression_byte ctype]))"
  obtain f2 where f2: "wf_Append w ?trailer f1 = (OK, f2)" "written f2 = written f1 @ ?trailer"
    using append_file by blast
  have "?trailer = trailer_of (compression_byte ctype) data"
    unfolding trailer_of_def crc32c_Value_def Extend_append [where ?a3.0 = 0] by (simp add: Extend_spec)
  then show ?thesis
    using f1 f2 by (intro exI [of _ f2]) (simp add: WriteRawBlock_def Let_def kBlockTrailerSize_def)
qed

lemma WriteBlock_writes:
  assumes "built os shs es rs s" "builder_size s + 4 < 2 ^ 32" "tb_ok r"
  shows "\<exists>ty data f'. WriteBlock b e w s r =
      Ok (BlockBuilder_Reset s, \<lparr>bh_offset = tb_offset r, bh_size = word_of_nat (length data)\<rparr>,
          r\<lparr>tb_status := OK, tb_file := f', tb_offset := tb_offset r + word_of_nat (length data + 5)\<rparr>) \<and>
    written f' = written (tb_file r) @ placed_bytes (es, ty, data) \<and> holds_entries e (es, ty, data) \<and> length data \<le> builder_size s + 4"
proof -
  obtain raw s' where fin: "BlockBuilder_Finish s = (raw, s')" by fastforce
  have len: "length raw = builder_size s + 4" by (rule Finish_size [OF fin])
  have image: "block_image shs es rs raw" using Finish_image_of [OF assms(1) fin] len assms(2) by simp
  have reset: "BlockBuilder_Reset s' = BlockBuilder_Reset s"
    using fin by (auto simp: BlockBuilder_Finish_def BlockBuilder_Reset_def Let_def)
  define choice where "choice = (case compression (tb_options r) of
      kNoCompression \<Rightarrow> (raw, kNoCompression)
    | kSnappyCompression \<Rightarrow>
        (case Snappy_Compress (env_snappy e) raw of
           Some compressed \<Rightarrow>
             if length compressed < length raw - length raw div 8 then (compressed, kSnappyCompression) else (raw, kNoCompression)
         | None \<Rightarrow> (raw, kNoCompression)))"
  obtain data ctype where c: "choice = (data, ctype)" by (cases choice)
  have st: "stored_as e raw (compression_byte ctype) data"
    using c by (auto simp: choice_def stored_as_def compression_byte_def split: compression_type.splits option.splits if_splits)
  obtain f' where f': "WriteRawBlock e w data ctype r =
      (\<lparr>bh_offset = tb_offset r, bh_size = word_of_nat (length data)\<rparr>,
       r\<lparr>tb_status := OK, tb_file := f', tb_offset := tb_offset r + word_of_nat (length data + 5)\<rparr>)"
    "written f' = written (tb_file r) @ data @ trailer_of (compression_byte ctype) data"
    using WriteRawBlock_writes by blast
  have "WriteBlock b e w s r = Ok (BlockBuilder_Reset s, \<lparr>bh_offset = tb_offset r, bh_size = word_of_nat (length data)\<rparr>,
      r\<lparr>tb_status := OK, tb_file := f', tb_offset := tb_offset r + word_of_nat (length data + 5)\<rparr>)"
    using assms(3) unfolding WriteBlock_def by (simp add: fin Let_def c [unfolded choice_def] f'(1) reset)
  moreover have "holds_entries e (es, compression_byte ctype, data)" unfolding holds_entries_def prod.case using st image by blast
  moreover have "length data \<le> builder_size s + 4" using st len by (simp add: stored_as_def)
  ultimately show ?thesis
    using f'(2) by (intro exI [of _ "compression_byte ctype"] exI [of _ data] exI [of _ f']) (simp add: placed_bytes_def)
qed

text \<open>What holds while entries are added: blocks \<open>bs\<close> are written, \<open>cur\<close> are the entries of the block in the making.\<close>

definition W_base :: "'f table_builder \<Rightarrow> bool" where
  "W_base r \<longleftrightarrow> tb_options r = opts \<and> index_block_options r = opts\<lparr>block_restart_interval := 1\<rparr> \<and> tb_status r = OK"

definition W_file :: "placed list \<Rightarrow> 'f table_builder \<Rightarrow> bool" where
  "W_file bs r \<longleftrightarrow> written (tb_file r) = concat (map placed_bytes bs) \<and> tb_offset r = word_of_nat (length (written (tb_file r))) \<and>
     length (written (tb_file r)) \<le> data_weight (concat (map fst bs)) \<and> (\<forall>p \<in> set bs. holds_entries e p \<and> fst p \<noteq> [])"

definition W_data :: "(bytes \<times> bytes) list \<Rightarrow> 'f table_builder \<Rightarrow> bool" where
  "W_data cur r \<longleftrightarrow> (\<exists>shs rs. built opts shs cur rs (data_block r)) \<and>
     builder_size (data_block r) + 13 * length cur \<le> 4 + data_weight cur"

definition W_index :: "placed list \<Rightarrow> (bytes \<times> bytes) list \<Rightarrow> (bytes \<times> bytes) list \<Rightarrow> 'f table_builder \<Rightarrow> bool" where
  "W_index bs idx cur r \<longleftrightarrow> index_ok bs idx cur \<and>
     (\<exists>shs rs. built (opts\<lparr>block_restart_interval := 1\<rparr>) shs idx rs (index_block r)) \<and>
     builder_size (index_block r) \<le> 4 + index_weight (concat (map fst (take (length idx) bs))) \<and>
     length bs = length idx + (if pending_index_entry r then 1 else 0) \<and>
     (pending_index_entry r \<longrightarrow> cur = [] \<and> pending_handle r = placed_handle bs (length idx))"

definition W_keys :: "placed list \<Rightarrow> (bytes \<times> bytes) list \<Rightarrow> 'f table_builder \<Rightarrow> bool" where
  "W_keys bs cur r \<longleftrightarrow> (let all = concat (map fst bs) @ cur
     in ascending (opt_comparator opts) key_ok all \<and> num_entries r = length all \<and> (all \<noteq> [] \<longrightarrow> tb_last_key r = fst (last all)))"

definition W_filter :: "placed list \<Rightarrow> (bytes \<times> bytes) list \<Rightarrow> 'f table_builder \<Rightarrow> bool" where
  "W_filter bs cur r \<longleftrightarrow>
     (case opt_policy opts of
        None \<Rightarrow> filter_block r = None
      | Some policy \<Rightarrow> \<exists>s groups pending. filter_block r = Some s \<and> holds_filters policy groups pending s \<and>
          length groups = placed_at bs (length bs) div kFilterBase \<and> covered bs groups pending \<and> fst ` set cur \<subseteq> set pending \<and>
          length (concat groups) + length pending = length (concat (map fst bs) @ cur))"

definition writing :: "placed list \<Rightarrow> (bytes \<times> bytes) list \<Rightarrow> (bytes \<times> bytes) list \<Rightarrow> 'f table_builder \<Rightarrow> bool" where
  "writing bs idx cur r \<longleftrightarrow> W_base r \<and> \<not> tb_closed r \<and> W_file bs r \<and> W_data cur r \<and> W_index bs idx cur r \<and> W_keys bs cur r \<and> W_filter bs cur r"

text \<open>Writing the block in the making.\<close>

lemma start_filters:
  assumes "opt_policy opts = Some policy" "holds_filters policy groups pending s" "length groups = placed_at bs (length bs) div kFilterBase"
    "covered bs groups pending" "fst ` set (fst p) \<subseteq> set pending" "placed_at (bs @ [p]) (Suc (length bs)) < 2 ^ 64"
  shows "\<exists>s' groups' pending'. StartBlock b (word_of_nat (placed_at (bs @ [p]) (Suc (length bs)))) s = Ok s' \<and>
    holds_filters policy groups' pending' s' \<and> length groups' = placed_at (bs @ [p]) (Suc (length bs)) div kFilterBase \<and>
    covered (bs @ [p]) groups' pending' \<and> length (concat groups') + length pending' = length (concat groups) + length pending"
proof -
  let ?L = "placed_at (bs @ [p]) (Suc (length bs))"
  let ?i = "?L div kFilterBase"
  have u: "unat (word_of_nat ?L :: u64) = ?L" using assms(6) by (intro unat_word_of_nat_small) simp
  have grow: "placed_at bs (length bs) \<le> ?L" by (simp add: placed_at_def)
  then have le: "length groups \<le> ?i" using assms(3) by (simp add: div_le_mono)
  have n: "length (filter_offsets s) = length groups" using assms(2) by (simp add: holds_filters_def)
  define groups' where "groups' = (if length groups < ?i then groups @ [pending] @ replicate (?i - length groups - 1) [] else groups)"
  define pending' where "pending' = (if length groups < ?i then [] else pending)"
  have fp: "filter_policy policy" by (rule policies [OF assms(1)])
  have h: "holds_filters policy groups' pending' (start_loop ?i s)"
    using filter_policy.holds_start_loop [OF fp assms(2) le] by (simp add: groups'_def pending'_def)
  have len: "length groups' = ?i" using le by (auto simp: groups'_def)
  have count: "length (concat groups') + length pending' = length (concat groups) + length pending"
    by (simp add: groups'_def pending'_def map_replicate_const sum_list_replicate length_concat)
  have keep: "i < length groups' \<and> k \<in> set (groups' ! i) \<or> i = length groups' \<and> k \<in> set pending'"
    if "i < length groups \<and> k \<in> set (groups ! i) \<or> i = length groups \<and> k \<in> set pending" for i k
    using that le by (auto simp: groups'_def pending'_def nth_append)
  have "covered (bs @ [p]) groups' pending'"
    unfolding covered_def
  proof (intro allI impI ballI)
    fix j x assume j: "j < length (bs @ [p])" and x: "x \<in> set (fst ((bs @ [p]) ! j))"
    have "placed_at bs j div kFilterBase < length groups \<and> fst x \<in> set (groups ! (placed_at bs j div kFilterBase)) \<or>
        placed_at bs j div kFilterBase = length groups \<and> fst x \<in> set pending"
    proof (cases "j < length bs")
      case True
      then show ?thesis using assms(4) x by (simp add: covered_def Let_def nth_append)
    next
      case False
      then have "j = length bs" using j by simp
      then show ?thesis using x assms(3,5) by (auto simp: nth_append)
    qed
    from keep [OF this] show "let i = placed_at (bs @ [p]) j div kFilterBase in
        i < length groups' \<and> fst x \<in> set (groups' ! i) \<or> i = length groups' \<and> fst x \<in> set pending'"
      using j by (simp add: placed_at_append less_Suc_eq_le)
  qed
  then show ?thesis using h len le u n count
    by (intro exI [of _ "start_loop ?i s"] exI [of _ groups'] exI [of _ pending']) (simp add: StartBlock_def)
qed

lemma Flush_writes:
  assumes "writing bs idx cur r" "data_weight (concat (map fst bs) @ cur) < 2 ^ 32" "\<not> pending_index_entry r"
  shows "\<exists>bs' r'. tb_Flush b e w r = Ok r' \<and> writing bs' idx [] r' \<and> (pending_index_entry r' \<longleftrightarrow> cur \<noteq> []) \<and>
    concat (map fst bs') = concat (map fst bs) @ cur"
proof (cases "cur = []")
  case True
  then have "buffer (data_block r) = []" using assms(1) by (auto simp: writing_def W_data_def built_def layout_def)
  then show ?thesis
    using assms True by (intro exI [of _ bs] exI [of _ r]) (simp add: tb_Flush_def tb_ok_def writing_def W_base_def)
next
  case False
  have W: "W_base r" "\<not> tb_closed r" "W_file bs r" "W_data cur r" "W_index bs idx cur r" "W_keys bs cur r" "W_filter bs cur r"
    using assms(1) by (simp_all add: writing_def)
  obtain shs rs where built: "built opts shs cur rs (data_block r)" using W(4) by (auto simp: W_data_def)
  have full: "buffer (data_block r) \<noteq> []"
    using built False length_entry_code [of "hd shs" "hd cur"] by (cases shs; cases cur) (auto simp: built_def layout_def shares_def)
  have ok: "tb_ok r" using W(1) by (simp add: W_base_def tb_ok_def)
  have size: "builder_size (data_block r) + 4 < 2 ^ 32" "builder_size (data_block r) + 9 \<le> data_weight cur"
    using W(4) assms(2) False by (cases cur; auto simp: W_data_def)+
  obtain ty data f' where wb: "WriteBlock b e w (data_block r) r =
      Ok (BlockBuilder_Reset (data_block r), \<lparr>bh_offset = tb_offset r, bh_size = word_of_nat (length data)\<rparr>,
          r\<lparr>tb_status := OK, tb_file := f', tb_offset := tb_offset r + word_of_nat (length data + 5)\<rparr>)"
    "written f' = written (tb_file r) @ placed_bytes (cur, ty, data)" "holds_entries e (cur, ty, data)"
    "length data \<le> builder_size (data_block r) + 4"
    using WriteBlock_writes [OF built size(1) ok] by blast
  obtain f2 where f2: "wf_Flush w f' = (OK, f2)" "written f2 = written f'" using flush_file by blast
  let ?p = "(cur, ty, data)"
  let ?bs = "bs @ [?p]"
  let ?L = "placed_at ?bs (Suc (length bs))"
  have L: "?L = length (written f2)" using W(3) wb(2) f2(2) by (simp add: placed_at_def W_file_def)
  have "length (written (tb_file r)) \<le> data_weight (concat (map fst bs))" using W(3) unfolding W_file_def by (elim conjE)
  then have bound: "length (written f2) \<le> data_weight (concat (map fst ?bs))"
    using wb(2,4) f2(2) size(2) by (simp add: placed_bytes_def)
  then have L64: "?L < 2 ^ 64" using assms(2) L by simp
  have off: "tb_offset r + word_of_nat (length data + 5) = word_of_nat ?L"
    using W(3) L wb(2) f2(2) by (simp add: W_file_def placed_bytes_def algebra_simps)
  have handle: "\<lparr>bh_offset = tb_offset r, bh_size = word_of_nat (length data)\<rparr> = placed_handle ?bs (length bs)"
    using W(3) by (simp add: placed_handle_def handle_at_def W_file_def placed_at_def)
  define r1 where "r1 = r\<lparr>tb_status := OK, tb_file := f2, tb_offset := word_of_nat ?L, data_block := BlockBuilder_Reset (data_block r),
    pending_handle := placed_handle ?bs (length bs), pending_index_entry := True\<rparr>"
  obtain r2 where r2: "tb_Flush b e w r = Ok r2" "\<exists>fb. r2 = r1\<lparr>filter_block := fb\<rparr>" "W_filter ?bs [] r2"
  proof (cases "opt_policy opts")
    case None
    then have fb: "filter_block r = None" using W(7) by (simp add: W_filter_def)
    have "tb_Flush b e w r = Ok r1"
      using W(2) ok full assms(3) unfolding tb_Flush_def
      by (simp add: wb(1) fb Let_def tb_ok_def f2(1) r1_def off [unfolded of_nat_add of_nat_numeral] handle [simplified])
    moreover have "\<exists>fb. r1 = r1\<lparr>filter_block := fb\<rparr>" by (rule exI [of _ "filter_block r1"]) simp
    ultimately show thesis using that [of r1] None fb by (simp add: W_filter_def r1_def)
  next
    case (Some policy)
    obtain s groups pending where fs: "filter_block r = Some s" "holds_filters policy groups pending s"
      "length groups = placed_at bs (length bs) div kFilterBase" "covered bs groups pending" "fst ` set cur \<subseteq> set pending"
      "length (concat groups) + length pending = length (concat (map fst bs) @ cur)"
      using W(7) Some by (auto simp: W_filter_def)
    obtain s' groups' pending' where s': "StartBlock b (word_of_nat ?L) s = Ok s'" "holds_filters policy groups' pending' s'"
      "length groups' = ?L div kFilterBase" "covered ?bs groups' pending'"
      "length (concat groups') + length pending' = length (concat groups) + length pending"
      using start_filters [OF Some fs(2-4), of ?p b] fs(5) L64 by auto
    have "tb_Flush b e w r = Ok (r1\<lparr>filter_block := Some s'\<rparr>)"
      using W(2) ok full assms(3) unfolding tb_Flush_def
      by (simp add: wb(1) fs(1) Let_def tb_ok_def f2(1) r1_def off [unfolded of_nat_add of_nat_numeral] handle [simplified] s'(1))
    then show thesis using that [of "r1\<lparr>filter_block := Some s'\<rparr>"] Some s'(2-5) fs(6) by (auto simp: W_filter_def)
  qed
  obtain fb where r2': "r2 = r1\<lparr>filter_block := fb\<rparr>" using r2(2) by blast
  have "index_ok ?bs idx []"
    using W(5) by (auto simp: W_index_def index_ok_def placed_handle_append nth_append)
  moreover have "take (length idx) ?bs = take (length idx) bs" using W(5) by (simp add: W_index_def)
  ultimately have "W_index ?bs idx [] r2" using W(5) assms(3) by (auto simp: W_index_def r2' r1_def)
  moreover have "W_file ?bs r2"
    using W(3) wb(2,3) f2(2) bound L False by (simp add: W_file_def r2' r1_def)
  moreover have "W_data [] r2" using fresh_builder [OF interval] by (auto simp: W_data_def r2' r1_def)
  moreover have "W_keys ?bs [] r2" using W(6) by (simp add: W_keys_def r2' r1_def)
  ultimately have "writing ?bs idx [] r2" using W(1,2) r2(3) by (simp add: writing_def W_base_def r2' r1_def)
  then show ?thesis using r2(1) False by (intro exI [of _ ?bs] exI [of _ r2]) (simp add: r2' r1_def)
qed

end

end
