(* ===== verification/TableEntries.thy ===== *)
theory TableEntries
  imports TableWriting
begin

text \<open>
  Adding entries to a table builder and finishing it: the invariant of TableWriting is kept by every \<open>Add\<close>, and the finished file
  is its blocks, the filters, the metaindex, the index and the footer.
\<close>

lemma placed_at_Suc: "j < length bs \<Longrightarrow> placed_at bs (Suc j) = placed_at bs j + length (snd (snd (bs ! j))) + 5"
  by (simp add: placed_at_def take_Suc_conv_app_nth placed_bytes_def split: prod.splits)

lemma small_not_max: "n < 2 ^ 32 \<Longrightarrow> (word_of_nat n :: u64) \<noteq> - 1"
  by (auto simp: word_unat_eq_iff unat_word_of_nat_small unsigned_minus_1_eq_mask mask_eq_exp_minus_1)

lemma handle_at_set: "off < 2 ^ 32 \<Longrightarrow> length data < 2 ^ 32 \<Longrightarrow> handle_set (handle_at off data)"
  by (simp add: handle_set_def handle_at_def small_not_max)

context table_writer begin

text \<open>The index entry of the last block, once a key for it is known.\<close>

lemma add_index_entry_writes:
  assumes W: "W_base r" "W_index bs idx [] r" "pending_index_entry r" "W_keys bs [] r"
    and blocks: "\<forall>p \<in> set bs. fst p \<noteq> []" and small: "index_weight (concat (map fst bs)) + 4 < 2 ^ 32" "data_weight (concat (map fst bs)) < 2 ^ 32"
    and place: "placed_at bs (length bs) \<le> data_weight (concat (map fst bs))"
    and key: "key (tb_last_key r) = Ok s" "key_ok s" "s = tb_last_key r \<or> opt_comparator opts (tb_last_key r) s < 0" "length s \<le> length (tb_last_key r)"
  shows "\<exists>index. add_index_entry b key r = Ok (r\<lparr>tb_last_key := s, index_block := index, pending_index_entry := False\<rparr>) \<and>
    W_index bs (idx @ [(s, handle_code (placed_handle bs (length idx)))]) [] (r\<lparr>tb_last_key := s, index_block := index, pending_index_entry := False\<rparr>)"
proof -
  let ?cmp = "opt_comparator opts" and ?j = "length idx" and ?iopts = "opts\<lparr>block_restart_interval := 1\<rparr>"
  let ?x = "(s, handle_code (placed_handle bs ?j))"
  have len: "length bs = Suc ?j" and ph: "pending_handle r = placed_handle bs ?j" and iok: "index_ok bs idx []"
    and isize: "builder_size (index_block r) \<le> 4 + index_weight (concat (map fst (take ?j bs)))"
    using W(2,3) by (auto simp: W_index_def)
  obtain shs rs where built: "built ?iopts shs idx rs (index_block r)" using W(2) by (auto simp: W_index_def)
  define es where "es = fst (bs ! ?j)"
  have es: "es \<noteq> []" using blocks len by (simp add: es_def)
  have split: "bs = take ?j bs @ [bs ! ?j]" using len by (metis lessI take_Suc_conv_app_nth take_all_iff order_refl)
  have all: "concat (map fst bs) = concat (map fst (take ?j bs)) @ es" by (subst split) (simp add: es_def)
  have asc: "ascending ?cmp key_ok (concat (map fst bs))" and last: "tb_last_key r = fst (last es)"
    using W(4) es all by (auto simp: W_keys_def Let_def)
  have okx: "key_ok (fst x)" if "x \<in> set (concat (map fst bs))" for x using asc that by (auto simp: ascending_def)
  have last_in: "last es \<in> set (concat (map fst bs))" using all es by simp
  have le_last: "x = last es \<or> ?cmp (fst x) (fst (last es)) < 0" if "x \<in> set es" for x
    using asc all that by (intro ascending_last) (simp add: ascending_def sorted_wrt_append)
  have above: "\<not> ?cmp s (fst x) < 0" if "x \<in> set es" for x
  proof
    assume below: "?cmp s (fst x) < 0"
    have k: "key_ok (fst x)" "key_ok (fst (last es))" using okx that all last_in by auto
    have "?cmp (fst (last es)) (fst x) < 0" using key(3) below k key(2) cmp_trans [of "fst (last es)" s "fst x"] last by auto
    then show False using le_last [OF that] cmp_trans [of "fst x" "fst (last es)" "fst x"] k cmp_irrefl by auto
  qed
  have before: "?cmp (fst (idx ! j)) s < 0" if "j < ?j" for j
  proof -
    have in_later: "last es \<in> set (concat (map fst (drop (Suc j) bs)))"
    proof -
      have "bs ! ?j \<in> set (drop (Suc j) bs)" using that len by (intro nth_in_drop) simp_all
      then show ?thesis using last_in_set [OF es] by (auto simp: es_def)
    qed
    have "\<forall>x \<in> set (concat (map fst (drop (Suc j) bs)) @ []). ?cmp (fst (idx ! j)) (fst x) < 0"
      using iok that unfolding index_ok_def by blast
    from this [unfolded append_Nil2, THEN bspec, OF in_later] have lt: "?cmp (fst (idx ! j)) (fst (last es)) < 0" .
    have "key_ok (fst (idx ! j))" using iok that by (auto simp: index_ok_def ascending_def)
    then show ?thesis using lt key(2,3) last cmp_trans [of "fst (idx ! j)" "fst (last es)" s] okx [OF last_in] by auto
  qed
  have all_before: "?cmp (fst x) s < 0" if "x \<in> set idx" for x
    using before that unfolding in_set_conv_nth by blast
  have "placed_at bs (length bs) = placed_at bs ?j + length (snd (snd (bs ! ?j))) + 5"
    using len placed_at_Suc [of ?j bs] by simp
  then have set: "handle_set (placed_handle bs ?j)"
    unfolding placed_handle_def using place small(2) by (intro handle_at_set) linarith+
  have weight: "39 + length s \<le> index_weight es"
  proof -
    have "index_weight es = index_weight (butlast es) + index_weight [last es]" by (metis append_butlast_last_id es weight_simps(6))
    then show ?thesis using key(4) last by simp
  qed
  have fits: "length (buffer s') < 2 ^ 32" if "BlockBuilder_Add Release ?iopts (fst ?x) (snd ?x) (index_block r) = Ok s'" for s'
    using Add_size [OF that] weight isize length_handle_code [of "placed_handle bs ?j"] small(1) all by (simp add: builder_size_def)
  have asc_idx: "ascending ?cmp key_ok idx" using iok by (simp add: index_ok_def)
  have last_idx: "0 < ?cmp s (fst (last idx))" if "idx \<noteq> []"
    using before [of "?j - 1"] that asc_idx key(2) cmp_flip [of s "fst (last idx)"] by (simp add: last_conv_nth ascending_def)
  obtain index sh rs' where index: "\<forall>b. BlockBuilder_Add b ?iopts s (snd ?x) (index_block r) = Ok index" "built ?iopts (shs @ [sh]) (idx @ [?x]) rs' index"
    using Add_built [OF built, of ?x] fits last_idx by auto
  have size: "builder_size index \<le> 4 + index_weight (concat (map fst (take (Suc ?j) bs)))"
    using Add_size [OF index(1) [rule_format]] weight isize length_handle_code [of "placed_handle bs ?j"] all len by simp
  have "index_ok bs (idx @ [?x]) []"
    unfolding index_ok_def
  proof (intro conjI allI impI)
    show "ascending ?cmp key_ok (idx @ [?x])"
      using asc_idx all_before key(2) by (simp add: ascending_def sorted_wrt_append)
    show "length (idx @ [?x]) \<le> length bs" using len by simp
    fix j assume "j < length (idx @ [?x])"
    then consider "j < ?j" | "j = ?j" by fastforce
    note j = this
    show "snd ((idx @ [?x]) ! j) = handle_code (placed_handle bs j)"
      using j iok by cases (simp_all add: index_ok_def nth_append)
    show "\<forall>x \<in> set (fst (bs ! j)). \<not> ?cmp (fst ((idx @ [?x]) ! j)) (fst x) < 0"
      using j iok above by cases (simp_all add: index_ok_def nth_append es_def)
    show "\<forall>x \<in> set (concat (map fst (drop (Suc j) bs)) @ []). ?cmp (fst ((idx @ [?x]) ! j)) (fst x) < 0"
      using j iok len by cases (auto simp: index_ok_def nth_append)
  qed
  then have "W_index bs (idx @ [?x]) [] (r\<lparr>tb_last_key := s, index_block := index, pending_index_entry := False\<rparr>)"
    using index(2) size len by (auto simp: W_index_def)
  moreover have "add_index_entry b key r = Ok (r\<lparr>tb_last_key := s, index_block := index, pending_index_entry := False\<rparr>)"
    using W(1) index(1) by (simp add: add_index_entry_def key(1) ph EncodeTo_code [OF set] W_base_def Let_def)
  ultimately show ?thesis by blast
qed

text \<open>Between two calls of \<open>Add\<close>: the entries added so far are those of the blocks and the current ones.\<close>

definition filling :: "(bytes \<times> bytes) list \<Rightarrow> placed list \<Rightarrow> (bytes \<times> bytes) list \<Rightarrow> (bytes \<times> bytes) list \<Rightarrow> 'f table_builder \<Rightarrow> bool" where
  "filling es bs idx cur r \<longleftrightarrow> writing bs idx cur r \<and> concat (map fst bs) @ cur = es \<and> (cur = [] \<longrightarrow> bs \<noteq> [] \<longrightarrow> pending_index_entry r)"

lemma ascending_snoc:
  "ascending (opt_comparator opts) key_ok (es @ [x]) \<longleftrightarrow> ascending (opt_comparator opts) key_ok es \<and> key_ok (fst x) \<and>
     (\<forall>y \<in> set es. opt_comparator opts (fst y) (fst x) < 0)"
  by (auto simp: ascending_def sorted_wrt_append)

lemma ascending_key_ok: "ascending (opt_comparator opts) key_ok es \<Longrightarrow> y \<in> set es \<Longrightarrow> key_ok (fst y)"
  by (simp add: ascending_def)

lemma index_before_new:
  assumes "writing bs idx cur r" "ascending (opt_comparator opts) key_ok (concat (map fst bs) @ cur @ [x])"
    and "j < length idx" "Suc j < length bs \<or> cur \<noteq> []"
  shows "opt_comparator opts (fst (idx ! j)) (fst x) < 0"
proof -
  let ?later = "concat (map fst (drop (Suc j) bs)) @ cur"
  have iok: "index_ok bs idx cur" and blocks: "\<forall>p \<in> set bs. fst p \<noteq> []"
    using assms(1) by (auto simp: writing_def W_index_def W_file_def)
  have "?later \<noteq> []"
  proof (cases "cur = []")
    case True
    then have "bs ! Suc j \<in> set (drop (Suc j) bs)" using assms(4) by (intro nth_in_drop) simp_all
    moreover have "fst (bs ! Suc j) \<noteq> []" using assms(4) True blocks by simp
    ultimately show ?thesis by fastforce
  qed simp
  then obtain y where y: "y \<in> set ?later" by (meson last_in_set)
  then have below: "opt_comparator opts (fst (idx ! j)) (fst y) < 0" using iok assms(3) unfolding index_ok_def by blast
  have mem: "y \<in> set (concat (map fst bs) @ cur)" using y by (auto dest: in_set_dropD)
  have asc: "ascending (opt_comparator opts) key_ok ((concat (map fst bs) @ cur) @ [x])" using assms(2) by simp
  then have x: "opt_comparator opts (fst y) (fst x) < 0" "key_ok (fst x)" using mem unfolding ascending_snoc by blast+
  have "key_ok (fst y)" using asc mem by (auto simp: ascending_def)
  moreover have "key_ok (fst (idx ! j))" using iok assms(3) by (auto simp: index_ok_def ascending_def)
  ultimately show ?thesis using below x cmp_trans by blast
qed

lemma index_step:
  assumes fill: "filling es bs idx cur r" and asc: "ascending (opt_comparator opts) key_ok (es @ [x])"
    and small: "index_weight es + 4 < 2 ^ 32" "data_weight es < 2 ^ 32"
  shows "\<exists>idx' last index.
    (if pending_index_entry r then
       bind_result (c_assert b (buffer (data_block r) = [])) (\<lambda>_. add_index_entry b (\<lambda>last. opt_separator (tb_options r) b last (fst x)) r)
     else Ok r) = Ok (r\<lparr>tb_last_key := last, index_block := index, pending_index_entry := False\<rparr>) \<and>
    W_index bs idx' (cur @ [x]) (r\<lparr>tb_last_key := last, index_block := index, pending_index_entry := False\<rparr>)"
proof -
  have W: "writing bs idx cur r" "W_base r" "W_file bs r" "W_data cur r" "W_index bs idx cur r" "W_keys bs cur r"
    and es: "es = concat (map fst bs) @ cur"
    using fill by (auto simp: filling_def writing_def)
  note new = index_before_new [OF W(1), of x]
  have asc': "ascending (opt_comparator opts) key_ok (concat (map fst bs) @ cur @ [x])" using asc es by simp
  have extend: "index_ok bs idx' (cur @ [x])" if "index_ok bs idx' cur" "\<forall>j < length idx'. opt_comparator opts (fst (idx' ! j)) (fst x) < 0" for idx'
    using that by (auto simp: index_ok_def)
  show ?thesis
  proof (cases "pending_index_entry r")
    case False
    then have len: "length bs = length idx" and later: "bs = [] \<or> cur \<noteq> []" using W(5) fill by (auto simp: W_index_def filling_def)
    have "index_ok bs idx (cur @ [x])"
      using later len by (intro extend allI impI new [OF asc']) (use W(5) in \<open>auto simp: W_index_def\<close>)
    then have "W_index bs idx (cur @ [x]) (r\<lparr>tb_last_key := tb_last_key r, index_block := index_block r, pending_index_entry := False\<rparr>)"
      using W(5) False by (auto simp: W_index_def)
    moreover have "r = r\<lparr>tb_last_key := tb_last_key r, index_block := index_block r, pending_index_entry := False\<rparr>" using False by simp
    ultimately show ?thesis using False by (intro exI [of _ idx] exI [of _ "tb_last_key r"] exI [of _ "index_block r"]) simp
  next
    case True
    then have cur: "cur = []" and len: "length bs = Suc (length idx)" using W(5) by (auto simp: W_index_def)
    have ne: "es \<noteq> []" "bs \<noteq> []" using W(3) len es cur by (cases bs; auto simp: W_file_def)+
    have last: "tb_last_key r = fst (last es)" using W(6) ne(1) unfolding W_keys_def Let_def es [symmetric] by blast
    have keys: "key_ok (fst (last es))" "key_ok (fst x)" "opt_comparator opts (fst (last es)) (fst x) < 0"
      using asc ascending_key_ok [of es "List.last es"] last_in_set [OF ne(1)] unfolding ascending_snoc by blast+
    obtain s where s: "opt_separator opts b (tb_last_key r) (fst x) = Ok s" "key_ok s" "s = tb_last_key r \<or> opt_comparator opts (tb_last_key r) s < 0"
      "opt_comparator opts s (fst x) < 0" "length s \<le> length (tb_last_key r)"
      using separator_ok [OF keys, of b] last by auto
    have stored: "\<forall>p \<in> set bs. fst p \<noteq> []" "placed_at bs (length bs) \<le> data_weight (concat (map fst bs))"
      using W(3) by (auto simp: W_file_def placed_at_def)
    let ?idx = "idx @ [(s, handle_code (placed_handle bs (length idx)))]"
    obtain index where index: "add_index_entry b (\<lambda>last. opt_separator opts b last (fst x)) r =
        Ok (r\<lparr>tb_last_key := s, index_block := index, pending_index_entry := False\<rparr>)"
      "W_index bs ?idx [] (r\<lparr>tb_last_key := s, index_block := index, pending_index_entry := False\<rparr>)"
      using add_index_entry_writes [where key = "\<lambda>last. opt_separator opts b last (fst x)" and s = s and b = b, OF W(2) W(5) [unfolded cur] True W(6) [unfolded cur] stored(1) _ _ stored(2) s(1-3,5)] small es cur by auto
    have "opt_comparator opts (fst (?idx ! j)) (fst x) < 0" if "j < length ?idx" for j
    proof (cases "j = length idx")
      case True
      then show ?thesis using s(4) by simp
    next
      case False
      then show ?thesis using that new [OF asc', of j] len by (simp add: nth_append)
    qed
    then have "index_ok bs ?idx (cur @ [x])" using index(2) cur by (intro extend) (auto simp: W_index_def)
    then have "W_index bs ?idx (cur @ [x]) (r\<lparr>tb_last_key := s, index_block := index, pending_index_entry := False\<rparr>)"
      using index(2) by (auto simp: W_index_def)
    moreover have "buffer (data_block r) = []" using W(4) cur by (auto simp: W_data_def built_def layout_def)
    moreover have "tb_options r = opts" using W(2) by (simp add: W_base_def)
    ultimately show ?thesis using True index(1) by (intro exI [of _ ?idx] exI [of _ s] exI [of _ index]) simp
  qed
qed

lemma Add_writes:
  assumes fill: "filling es bs idx cur r" and asc: "ascending (opt_comparator opts) key_ok (es @ [x])"
    and small: "index_weight es + 4 < 2 ^ 32" "data_weight (es @ [x]) < 2 ^ 32"
  shows "\<exists>bs' idx' cur' r'. tb_Add b e w (fst x) (snd x) r = Ok r' \<and> filling (es @ [x]) bs' idx' cur' r'"
proof -
  have W: "W_base r" "\<not> tb_closed r" "W_file bs r" "W_data cur r" "W_index bs idx cur r" "W_keys bs cur r" "W_filter bs cur r"
    and es: "concat (map fst bs) @ cur = es"
    using fill by (auto simp: filling_def writing_def)
  obtain idx' last index where step: "(if pending_index_entry r then
       bind_result (c_assert b (buffer (data_block r) = [])) (\<lambda>_. add_index_entry b (\<lambda>last. opt_separator (tb_options r) b last (fst x)) r)
     else Ok r) = Ok (r\<lparr>tb_last_key := last, index_block := index, pending_index_entry := False\<rparr>)"
    "W_index bs idx' (cur @ [x]) (r\<lparr>tb_last_key := last, index_block := index, pending_index_entry := False\<rparr>)"
    using index_step [OF fill asc small(1)] small(2) by fastforce
  obtain shs rs where built: "built opts shs cur rs (data_block r)" and dsize: "builder_size (data_block r) + 13 * length cur \<le> 4 + data_weight cur"
    using W(4) by (auto simp: W_data_def)
  have weight: "data_weight cur \<le> data_weight es" using es [symmetric] by simp
  have above: "0 < opt_comparator opts (fst x) (fst (List.last ys))" if "ys \<noteq> []" "set ys \<subseteq> set es" for ys
  proof -
    have "List.last ys \<in> set es" using that last_in_set by blast
    then show ?thesis using asc ascending_key_ok [of es "List.last ys"] cmp_flip unfolding ascending_snoc by blast
  qed
  have "cur \<noteq> [] \<Longrightarrow> 0 < opt_comparator opts (fst x) (fst (List.last cur))" using es by (intro above) auto
  then obtain data sh rs' where data: "\<forall>b. BlockBuilder_Add b opts (fst x) (snd x) (data_block r) = Ok data" "built opts (shs @ [sh]) (cur @ [x]) rs' data"
    using Add_built [OF built interval, of x] Add_size [of Release opts "fst x" "snd x" "data_block r"] dsize small(2) weight
    by (fastforce simp: builder_size_def)
  have dsize': "builder_size data + 13 * length (cur @ [x]) \<le> 4 + data_weight (cur @ [x])"
    using Add_size [OF data(1) [rule_format]] dsize by simp
  define r1 where "r1 = r\<lparr>index_block := index, pending_index_entry := False,
    filter_block := map_option (AddKey (fst x)) (filter_block r), tb_last_key := fst x, num_entries := num_entries r + 1, data_block := data\<rparr>"
  have order: "num_entries r > 0 \<Longrightarrow> opt_comparator opts (fst x) (tb_last_key r) > 0"
    using W(6) es above [of es] by (auto simp: W_keys_def Let_def)
  have add: "tb_Add b e w (fst x) (snd x) r = (if CurrentSizeEstimate data \<ge> block_size opts then tb_Flush b e w r1 else Ok r1)"
    using W(1,2) order step(1) data(1)
    by (simp add: tb_Add_def W_base_def tb_ok_def Let_def r1_def)
  have "W_filter bs (cur @ [x]) r1"
  proof (cases "opt_policy opts")
    case None
    then show ?thesis using W(7) by (simp add: W_filter_def r1_def)
  next
    case (Some policy)
    obtain s groups pending where fs: "filter_block r = Some s" "holds_filters policy groups pending s"
      "length groups = placed_at bs (length bs) div kFilterBase" "covered bs groups pending" "fst ` set cur \<subseteq> set pending"
      "length (concat groups) + length pending = length (concat (map fst bs) @ cur)"
      using W(7) Some by (auto simp: W_filter_def)
    have "covered bs groups (pending @ [fst x])" using fs(4) unfolding covered_def Let_def set_append by blast
    moreover have "fst ` set (cur @ [x]) \<subseteq> set (pending @ [fst x])" using fs(5) by auto
    ultimately have "\<exists>s groups pending. filter_block r1 = Some s \<and> holds_filters policy groups pending s \<and>
        length groups = placed_at bs (length bs) div kFilterBase \<and> covered bs groups pending \<and> fst ` set (cur @ [x]) \<subseteq> set pending \<and>
        length (concat groups) + length pending = length (concat (map fst bs) @ cur @ [x])"
      using fs(1,3,6) holds_AddKey [OF fs(2), of "fst x"]
      by (intro exI [of _ "AddKey (fst x) s"] exI [of _ groups] exI [of _ "pending @ [fst x]"]) (simp add: r1_def)
    then show ?thesis by (simp add: W_filter_def Some)
  qed
  moreover have "W_keys bs (cur @ [x]) r1"
    using W(6) asc unfolding W_keys_def Let_def es append_assoc [symmetric] by (simp add: r1_def)
  moreover have "W_index bs idx' (cur @ [x]) r1" using step(2) by (auto simp: W_index_def r1_def)
  moreover have "W_data (cur @ [x]) r1" using data(2) dsize' by (auto simp: W_data_def r1_def)
  moreover have "W_base r1 \<longleftrightarrow> W_base r" "tb_closed r1 \<longleftrightarrow> tb_closed r" "W_file bs r1 \<longleftrightarrow> W_file bs r"
    by (simp_all add: W_base_def W_file_def r1_def)
  ultimately have w1: "writing bs idx' (cur @ [x]) r1" using W(1-3) by (simp add: writing_def)
  have all: "concat (map fst bs) @ cur @ [x] = es @ [x]" using es by simp
  show ?thesis
  proof (cases "CurrentSizeEstimate data \<ge> block_size opts")
    case False
    then show ?thesis using add w1 all by (intro exI [of _ bs] exI [of _ idx'] exI [of _ "cur @ [x]"] exI [of _ r1]) (simp add: filling_def)
  next
    case True
    obtain bs' r' where "tb_Flush b e w r1 = Ok r'" "writing bs' idx' [] r'" "pending_index_entry r'" "concat (map fst bs') = concat (map fst bs) @ cur @ [x]"
      using Flush_writes [OF w1, of b] small(2) all by (auto simp: r1_def)
    then show ?thesis using add True all by (intro exI [of _ bs'] exI [of _ idx'] exI [of _ "[]"] exI [of _ r']) (simp add: filling_def)
  qed
qed

lemma add_all_writes:
  assumes "filling es bs idx cur r" "ascending (opt_comparator opts) key_ok (es @ xs)"
    "index_weight (es @ xs) + 4 < 2 ^ 32" "data_weight (es @ xs) < 2 ^ 32"
  shows "\<exists>bs' idx' cur' r'. tb_add_all b e w xs r = Ok r' \<and> filling (es @ xs) bs' idx' cur' r'"
  using assms
proof (induction xs arbitrary: es bs idx cur r)
  case (Cons x xs)
  have "ascending (opt_comparator opts) key_ok (es @ [x])" using Cons.prems(2) by (auto simp: ascending_def sorted_wrt_append)
  then obtain bs1 idx1 cur1 r1 where step: "tb_Add b e w (fst x) (snd x) r = Ok r1" "filling (es @ [x]) bs1 idx1 cur1 r1"
    using Add_writes [OF Cons.prems(1), of x b] Cons.prems(3,4) by auto
  then show ?case using Cons.IH [OF step(2)] Cons.prems(2-4) by auto
qed auto

lemma new_builder:
  assumes "written f = []"
  shows "\<exists>r. TableBuilder b opts f = Ok r \<and> filling [] [] [] [] r"
proof -
  have bb: "BlockBuilder b (opts :: table_options) = Ok (BlockBuilder_Reset s)" for s
    using interval by (simp add: BlockBuilder_def BlockBuilder_Reset_def)
  obtain s0 :: block_builder where True by blast
  define r where "r = \<lparr>tb_options = opts, index_block_options = opts\<lparr>block_restart_interval := 1\<rparr>, tb_file = f, tb_offset = 0,
    tb_status = OK, data_block = BlockBuilder_Reset s0, index_block = BlockBuilder_Reset s0, tb_last_key = [], num_entries = 0, tb_closed = False,
    filter_block = map_option FilterBlockBuilder (opt_policy opts), pending_index_entry = False, pending_handle = BlockHandle\<rparr>"
  have start: "StartBlock b 0 (FilterBlockBuilder policy) = Ok (FilterBlockBuilder policy)" for policy
    by (simp add: StartBlock_def FilterBlockBuilder_def start_loop.simps [of 0])
  have "TableBuilder b opts f = Ok r"
    unfolding TableBuilder_def bb [of s0] by (cases "opt_policy opts") (simp_all add: r_def Let_def start)
  moreover have "filling [] [] [] [] r"
    using assms interval fresh_builder [of opts s0] fresh_builder [of "opts\<lparr>block_restart_interval := 1\<rparr>" s0] holds_new
    by (auto simp: filling_def writing_def W_base_def W_file_def W_data_def W_index_def index_ok_def W_keys_def W_filter_def
        ascending_def placed_at_def covered_def r_def split: option.split)
  ultimately show ?thesis by blast
qed

end

end
