(* ===== verification/InternalKeys.thy ===== *)
theory InternalKeys
  imports Coding Comparator
begin

text \<open>
  The keys that LevelDB stores, src/src/leveldb/db/dbformat.h and dbformat.cc: a user key and a tag of eight bytes with the
  number and the kind of the write. The user keys are compared bytewise, as \<open>leveldb::Options\<close> has it.
\<close>

datatype value_type = kTypeDeletion | kTypeValue

definition type_byte :: "value_type \<Rightarrow> u64" where
  "type_byte t = (case t of kTypeDeletion \<Rightarrow> 0 | kTypeValue \<Rightarrow> 1)"

definition kValueTypeForSeek :: value_type where
  "kValueTypeForSeek = kTypeValue"

definition kMaxSequenceNumber :: u64 where
  "kMaxSequenceNumber = push_bit 56 1 - 1"

record parsed_key =
  user_key :: bytes
  sequence :: u64
  key_type :: value_type

definition PackSequenceAndType :: "build \<Rightarrow> u64 \<Rightarrow> value_type \<Rightarrow> u64 result" where
  "PackSequenceAndType b seq t =
     bind_result (c_assert b (seq \<le> kMaxSequenceNumber)) (\<lambda>_.
     bind_result (c_assert b (type_byte t \<le> type_byte kValueTypeForSeek)) (\<lambda>_. Ok (push_bit 8 seq OR type_byte t)))"

definition AppendInternalKey :: "build \<Rightarrow> bytes \<Rightarrow> parsed_key \<Rightarrow> bytes result" where
  "AppendInternalKey b res key =
     bind_result (PackSequenceAndType b (sequence key) (key_type key)) (\<lambda>tag. Ok (PutFixed64 (res @ user_key key) tag))"

text \<open>The tag of a key of at least eight bytes.\<close>

definition key_tag :: "bytes \<Rightarrow> u64" where
  "key_tag k = DecodeFixed64 k (length k - 8)"

definition ParseInternalKey :: "bytes \<Rightarrow> parsed_key option" where
  "ParseInternalKey internal_key =
     (let n = length internal_key
      in if n < 8 then None
         else
           let num = key_tag internal_key; c = num AND 0xff
           in if c \<le> type_byte kTypeValue
              then Some \<lparr>user_key = take (n - 8) internal_key, sequence = drop_bit 8 num,
                key_type = (if c = 0 then kTypeDeletion else kTypeValue)\<rparr>
              else None)"

text \<open>An \<open>assert\<close> asks for eight bytes; \<open>internal_key_ok\<close> is its condition.\<close>

definition internal_key_ok :: "bytes \<Rightarrow> bool" where
  "internal_key_ok k \<longleftrightarrow> 8 \<le> length k"

definition ExtractUserKey :: "bytes \<Rightarrow> bytes" where
  "ExtractUserKey internal_key = take (length internal_key - 8) internal_key"

definition InternalKey_Compare :: "bytes \<Rightarrow> bytes \<Rightarrow> int" where
  "InternalKey_Compare akey bkey =
     (let r = Slice_compare (ExtractUserKey akey) (ExtractUserKey bkey)
      in if r = 0 then
           let anum = key_tag akey; bnum = key_tag bkey
           in if anum > bnum then -1 else if anum < bnum then 1 else r
         else r)"

definition InternalKey_FindShortestSeparator :: "build \<Rightarrow> bytes \<Rightarrow> bytes \<Rightarrow> bytes result" where
  "InternalKey_FindShortestSeparator b start limit =
     (let user_start = ExtractUserKey start; user_limit = ExtractUserKey limit
      in bind_result (FindShortestSeparator b user_start user_limit) (\<lambda>tmp.
           if length tmp < length user_start \<and> Slice_compare user_start tmp < 0 then
             bind_result (PackSequenceAndType b kMaxSequenceNumber kValueTypeForSeek) (\<lambda>tag.
               let tmp = PutFixed64 tmp tag
               in bind_result (c_assert b (InternalKey_Compare start tmp < 0)) (\<lambda>_.
                  bind_result (c_assert b (InternalKey_Compare tmp limit < 0)) (\<lambda>_. Ok tmp)))
           else Ok start))"

definition InternalKey_FindShortSuccessor :: "build \<Rightarrow> bytes \<Rightarrow> bytes result" where
  "InternalKey_FindShortSuccessor b key =
     (let user_key = ExtractUserKey key; tmp = FindShortSuccessor user_key
      in if length tmp < length user_key \<and> Slice_compare user_key tmp < 0 then
           bind_result (PackSequenceAndType b kMaxSequenceNumber kValueTypeForSeek) (\<lambda>tag.
             let tmp = PutFixed64 tmp tag
             in bind_result (c_assert b (InternalKey_Compare key tmp < 0)) (\<lambda>_. Ok tmp))
         else Ok key)"

text \<open>\<open>LookupKey\<close>: the bytes from \<open>start_\<close> to \<open>end_\<close>, and where \<open>kstart_\<close> is in them.\<close>

definition LookupKey :: "build \<Rightarrow> bytes \<Rightarrow> u64 \<Rightarrow> (bytes \<times> nat) result" where
  "LookupKey b ukey s =
     (let usize = length ukey; dst = EncodeVarint32 (word_of_nat (usize + 8)); kstart = length dst
      in bind_result (PackSequenceAndType b s kValueTypeForSeek) (\<lambda>tag. Ok (dst @ ukey @ store64 tag, kstart)))"

definition memtable_key :: "bytes \<times> nat \<Rightarrow> bytes" where
  "memtable_key = (\<lambda>(space, kstart). space)"

definition internal_key :: "bytes \<times> nat \<Rightarrow> bytes" where
  "internal_key = (\<lambda>(space, kstart). drop kstart space)"

definition lookup_user_key :: "bytes \<times> nat \<Rightarrow> bytes" where
  "lookup_user_key = (\<lambda>(space, kstart). take (length space - kstart - 8) (drop kstart space))"

section \<open>Parts of a key\<close>

lemma key_parts: "internal_key_ok k \<Longrightarrow> ExtractUserKey k @ store64 (key_tag k) = k"
  by (simp add: internal_key_ok_def ExtractUserKey_def key_tag_def DecodeFixed64_def store64_load)

lemma key_of_parts [simp]:
  "ExtractUserKey (u @ store64 t) = u" "key_tag (u @ store64 t) = t" "internal_key_ok (u @ store64 t)"
  by (simp_all add: internal_key_ok_def ExtractUserKey_def key_tag_def DecodeFixed64_def)

lemma key_eq_parts:
  "internal_key_ok a \<Longrightarrow> internal_key_ok b \<Longrightarrow> a = b \<longleftrightarrow> ExtractUserKey a = ExtractUserKey b \<and> key_tag a = key_tag b"
  by (metis key_parts)

lemma InternalKey_Compare_eq:
  "InternalKey_Compare a b =
     (if ExtractUserKey a = ExtractUserKey b then if key_tag b < key_tag a then -1 else if key_tag a < key_tag b then 1 else 0
      else Slice_compare (ExtractUserKey a) (ExtractUserKey b))"
  by (simp add: InternalKey_Compare_def Let_def Slice_compare_eq)

lemma InternalKey_less:
  "InternalKey_Compare a b < 0 \<longleftrightarrow>
     ExtractUserKey a < ExtractUserKey b \<or> ExtractUserKey a = ExtractUserKey b \<and> key_tag b < key_tag a"
  by (cases "ExtractUserKey a = ExtractUserKey b") (simp_all add: InternalKey_Compare_eq Slice_compare_less)

lemma InternalKey_eq: "InternalKey_Compare a b = 0 \<longleftrightarrow> ExtractUserKey a = ExtractUserKey b \<and> key_tag a = key_tag b"
  by (cases "ExtractUserKey a = ExtractUserKey b") (auto simp: InternalKey_Compare_eq Slice_compare_eq)

lemma InternalKey_greater: "0 < InternalKey_Compare a b \<longleftrightarrow> InternalKey_Compare b a < 0"
proof (cases "ExtractUserKey a = ExtractUserKey b")
  case True
  then show ?thesis by (simp add: InternalKey_Compare_eq) (auto dest: less_not_sym)
next
  case False
  then show ?thesis
    using Slice_compare_flip [of "ExtractUserKey a" "ExtractUserKey b"] by (simp add: InternalKey_Compare_eq)
qed

interpretation internal_keys: key_order InternalKey_Compare internal_key_ok
proof (unfold_locales, goal_cases)
  case (1 a b)
  then show ?case by (simp add: InternalKey_eq key_eq_parts)
next
  case (2 a b)
  show ?case by (rule InternalKey_greater)
next
  case (3 a b c)
  then show ?case unfolding InternalKey_less by (metis less_trans)
qed

lemma bit_type_byte: "bit (type_byte t) n \<longleftrightarrow> n = 0 \<and> t = kTypeValue"
  by (cases t) (auto simp: type_byte_def bit_1_iff)

lemma low_byte: "(w :: u64) AND 0xff = take_bit 8 w"
  by (simp add: take_bit_eq_mask mask_eq_exp_minus_1)

lemma tag_pack:
  assumes "seq \<le> kMaxSequenceNumber"
  shows "(push_bit 8 seq OR type_byte t) AND 0xff = type_byte t" "drop_bit 8 (push_bit 8 seq OR type_byte t) = seq"
proof -
  show "(push_bit 8 seq OR type_byte t) AND 0xff = type_byte t"
    unfolding low_byte by (rule bit_word_eqI) (auto simp: bit_take_bit_iff bit_or_iff bit_push_bit_iff bit_type_byte)
  have "unat seq < 2 ^ 56" using assms by (simp add: kMaxSequenceNumber_def word_le_nat_alt)
  then have "take_bit 56 seq = seq" by (simp add: word_unat_eq_iff unsigned_take_bit_eq take_bit_nat_eq_self)
  then have "\<not> bit seq n" if "56 \<le> n" for n using that by (metis bit_take_bit_iff linorder_not_le)
  then have "8 + n < 64" if "bit seq n" for n using that linorder_not_le [of 56 n] by fastforce
  then show "drop_bit 8 (push_bit 8 seq OR type_byte t) = seq"
    by (intro bit_word_eqI) (auto simp: bit_drop_bit_eq bit_or_iff bit_push_bit_iff bit_type_byte)
qed

lemma pack_ok: "seq \<le> kMaxSequenceNumber \<Longrightarrow> PackSequenceAndType b seq t = Ok (push_bit 8 seq OR type_byte t)"
  by (cases t) (simp_all add: PackSequenceAndType_def kValueTypeForSeek_def type_byte_def)

lemma ParseInternalKey_parts:
  "ParseInternalKey (u @ store64 (push_bit 8 seq OR type_byte t)) = Some \<lparr>user_key = u, sequence = seq, key_type = t\<rparr>"
  if "seq \<le> kMaxSequenceNumber"
  using tag_pack [OF that, of t]
  by (cases t) (simp_all add: ParseInternalKey_def Let_def type_byte_def ExtractUserKey_def [symmetric])

lemma internal_key_roundtrip:
  assumes "sequence k \<le> kMaxSequenceNumber"
  shows "\<exists>i. AppendInternalKey b [] k = Ok i \<and> ParseInternalKey i = Some k \<and> ExtractUserKey i = user_key k"
  using assms by (simp add: AppendInternalKey_def pack_ok PutFixed64_def ParseInternalKey_parts)

lemma lookup_key_parts:
  assumes "s \<le> kMaxSequenceNumber" "length ukey + 8 < 2 ^ 32"
  shows "\<exists>k. LookupKey b ukey s = Ok k \<and> lookup_user_key k = ukey \<and>
    ParseInternalKey (internal_key k) = Some \<lparr>user_key = ukey, sequence = s, key_type = kTypeValue\<rparr> \<and>
    GetLengthPrefixedSlice (memtable_key k) = (Some (internal_key k), [])"
proof -
  let ?i = "ukey @ store64 (push_bit 8 s OR type_byte kTypeValue)"
  define n where "n = length ukey + 8"
  have n: "length ?i = n" "n < 2 ^ 32" "length ukey = n - 8" using assms(2) by (simp_all add: n_def)
  have "EncodeVarint32 (word_of_nat n) = varint n" using n(2) by (simp add: EncodeVarint32_varint unat_word32_of_nat)
  then have "LookupKey b ukey s = Ok (varint n @ ?i, length (varint n))"
    using assms(1) unfolding LookupKey_def Let_def n_def [symmetric] by (simp add: pack_ok kValueTypeForSeek_def)
  moreover have "GetVarint32 (varint n @ ?i) = Some (word_of_nat n, ?i)"
    by (rule GetVarint_append [OF n(2)])
  moreover have "unat (word_of_nat n :: u32) = n" using n(2) by (simp add: unat_word32_of_nat)
  moreover note n(1) ParseInternalKey_parts [OF assms(1), of ukey kTypeValue]
  ultimately show ?thesis
    by (auto simp: lookup_user_key_def internal_key_def memtable_key_def GetLengthPrefixedSlice_def n(3))
qed

section \<open>Shorter internal keys\<close>

lemma separator_same: "FindShortestSeparator b u u = Ok u"
proof -
  have "common u u = length u" by (induction u) simp_all
  then show ?thesis using diff_loop_common [of 0 u u] by (simp add: FindShortestSeparator_def Let_def)
qed

text \<open>The separator lies between the two keys; no \<open>assert\<close> on the way fails.\<close>

lemma internal_separator:
  assumes "internal_key_ok start" "internal_key_ok limit" "InternalKey_Compare start limit < 0"
  shows "\<exists>s. InternalKey_FindShortestSeparator b start limit = Ok s \<and> internal_key_ok s \<and>
    (s = start \<or> InternalKey_Compare start s < 0) \<and> InternalKey_Compare s limit < 0 \<and> length s \<le> length start"
proof (cases "ExtractUserKey start = ExtractUserKey limit")
  case True
  then show ?thesis
    using assms(1,3) by (simp add: InternalKey_FindShortestSeparator_def separator_same)
next
  case False
  then have "ExtractUserKey start < ExtractUserKey limit" using assms(3) by (simp add: InternalKey_less)
  from separator_between [OF this, of b] obtain s where s: "FindShortestSeparator b (ExtractUserKey start) (ExtractUserKey limit) = Ok s"
    "ExtractUserKey start \<le> s" "s < ExtractUserKey limit" by blast
  show ?thesis
  proof (cases "length s < length (ExtractUserKey start) \<and> Slice_compare (ExtractUserKey start) s < 0")
    case True
    then have "ExtractUserKey start < s" by (simp add: Slice_compare_less)
    moreover have "length s + 8 \<le> length start" using True [THEN conjunct1] by (simp add: ExtractUserKey_def)
    ultimately show ?thesis
      using True s by (simp add: InternalKey_FindShortestSeparator_def pack_ok PutFixed64_def InternalKey_less)
  next
    case shorter: False
    then have "InternalKey_FindShortestSeparator b start limit = Ok start"
      unfolding InternalKey_FindShortestSeparator_def Let_def s(1) bind_result_simps by (simp only: if_False)
    then show ?thesis using assms by blast
  qed
qed

lemma internal_successor:
  assumes "internal_key_ok key"
  shows "\<exists>s. InternalKey_FindShortSuccessor b key = Ok s \<and> internal_key_ok s \<and> (s = key \<or> InternalKey_Compare key s < 0) \<and> length s \<le> length key"
proof (cases "length (FindShortSuccessor (ExtractUserKey key)) < length (ExtractUserKey key) \<and>
    Slice_compare (ExtractUserKey key) (FindShortSuccessor (ExtractUserKey key)) < 0")
  case True
  then have "ExtractUserKey key < FindShortSuccessor (ExtractUserKey key)" by (simp add: Slice_compare_less)
  moreover have "length (FindShortSuccessor (ExtractUserKey key)) + 8 \<le> length key"
    using True [THEN conjunct1] by (simp add: ExtractUserKey_def)
  ultimately show ?thesis
    using True by (simp add: InternalKey_FindShortSuccessor_def pack_ok PutFixed64_def InternalKey_less)
next
  case False
  then have "InternalKey_FindShortSuccessor b key = Ok key"
    unfolding InternalKey_FindShortSuccessor_def Let_def by (simp only: if_False)
  then show ?thesis using assms by blast
qed


interpretation internal_comparator: comparator InternalKey_Compare internal_key_ok
    InternalKey_FindShortestSeparator InternalKey_FindShortSuccessor
  by unfold_locales (simp_all add: internal_separator internal_successor)

end
