(* ===== verification/TableContents.thy ===== *)
theory TableContents
  imports TableEntries InternalKeys
begin

text \<open>Finishing a table: what the file holds in the end, \<open>table_contents\<close>, and that \<open>build_table\<close> writes it.\<close>

text \<open>A bound of the size of the file: at most \<open>per_key\<close> bytes of filter for each key and as much for each filter.\<close>

definition table_weight :: "table_options \<Rightarrow> nat \<Rightarrow> (bytes \<times> bytes) list \<Rightarrow> nat" where
  "table_weight opts per_key es = data_weight es + index_weight es + 2 * per_key * length es + data_weight es div 512 +
     (case opt_policy opts of None \<Rightarrow> 0 | Some policy \<Rightarrow> length (policy_Name policy)) + 256"

context table_setting begin

lemma filters_size:
  assumes "opt_policy opts = Some policy"
  shows "length (concat (map (filter_of policy) groups)) \<le> 2 * per_key * length (concat groups)"
proof (induction groups)
  case (Cons g groups)
  have "length (filter_of policy g) \<le> 2 * per_key * length g"
  proof (cases "g = []")
    case False
    then have "Suc (length g) \<le> 2 * length g" by (cases g) simp_all
    then have "per_key * Suc (length g) \<le> per_key * (2 * length g)" by (rule mult_le_mono2)
    then have "length (policy_CreateFilter policy g []) \<le> per_key * (2 * length g)"
      by (rule order_trans [OF filter_size [OF assms]])
    then show ?thesis using False by (simp add: filter_of_def algebra_simps)
  qed (simp add: filter_of_def)
  then show ?case using Cons.IH by (simp add: algebra_simps)
qed simp

lemma filter_block_size:
  assumes "opt_policy opts = Some policy" "holds_filters policy groups pending s" "FilterBlockBuilder_Finish s = (data, s')"
  shows "length data \<le> 2 * per_key * (length (concat groups) + length pending) + 4 * length groups + 9"
proof -
  obtain groups' offsets where g: "groups' = (if pending = [] then groups else groups @ [pending])"
    "offsets = map (\<lambda>i. word_of_nat (length (filters_before policy groups' i)) :: u32) [0..<Suc (length groups')]"
    "data = filters_before policy groups' (length groups') @ concat (map store32 offsets) @ [11]"
    by (rule filter_policy.Finish_image [OF policies [OF assms(1)] assms(2,3)])
  have "length data = length (filters_before policy groups' (length groups')) + 4 * Suc (length groups') + 1"
    using length_concat_store32 [of "\<lambda>x. x" offsets] unfolding g(3) by (simp add: g(2) del: upt_Suc)
  moreover have "length (filters_before policy groups' (length groups')) \<le> 2 * per_key * length (concat groups')"
    using filters_size [OF assms(1), of groups'] by (simp add: filters_before_def)
  moreover have "length (concat groups') = length (concat groups) + length pending" "length groups' \<le> length groups + 1"
    by (simp_all add: g(1))
  ultimately show ?thesis by simp
qed

text \<open>The file: data blocks, the filters if there is a policy, metaindex, index, footer.\<close>

definition stored_filters :: "policy \<Rightarrow> placed list \<Rightarrow> bytes \<Rightarrow> bool" where
  "stored_filters policy bs data \<longleftrightarrow>
     (\<exists>s groups pending s'. holds_filters policy groups pending s \<and> FilterBlockBuilder_Finish s = (data, s') \<and> covered bs groups pending)"

definition meta_ok :: "placed list \<Rightarrow> placed list \<Rightarrow> placed \<Rightarrow> bool" where
  "meta_ok bs filters meta \<longleftrightarrow> holds_entries e meta \<and>
     (case opt_policy opts of
        None \<Rightarrow> filters = [] \<and> fst meta = []
      | Some policy \<Rightarrow> \<exists>data. filters = [([], 0, data)] \<and> stored_filters policy bs data \<and>
          fst meta = [(filter_key policy, handle_code (placed_handle (bs @ filters) (length bs)))])"

definition table_contents :: "(bytes \<times> bytes) list \<Rightarrow> placed list \<Rightarrow> placed list \<Rightarrow> placed \<Rightarrow> placed \<Rightarrow> bytes \<Rightarrow> bool" where
  "table_contents es bs filters meta index contents \<longleftrightarrow>
     concat (map fst bs) = es \<and> (\<forall>p \<in> set bs. holds_entries e p \<and> fst p \<noteq> []) \<and>
     meta_ok bs filters meta \<and>
     holds_entries e index \<and> length (fst index) = length bs \<and> index_ok bs (fst index) [] \<and>
     (let ps = bs @ filters @ [meta, index]
      in contents = concat (map placed_bytes ps) @
           footer_code \<lparr>metaindex_handle = placed_handle ps (length ps - 2), index_handle = placed_handle ps (length ps - 1)\<rparr>)"

end

context table_writer begin

definition F_file :: "placed list \<Rightarrow> 'f table_builder \<Rightarrow> bool" where
  "F_file ps r \<longleftrightarrow> W_base r \<and> written (tb_file r) = concat (map placed_bytes ps) \<and> tb_offset r = word_of_nat (length (written (tb_file r)))"

lemma raw_appended:
  assumes "F_file ps r"
  shows "\<exists>f' off. WriteRawBlock e w data kNoCompression r =
      (placed_handle (ps @ [([], 0, data)]) (length ps), r\<lparr>tb_status := OK, tb_file := f', tb_offset := off\<rparr>) \<and>
    F_file (ps @ [([], 0, data)]) (r\<lparr>tb_status := OK, tb_file := f', tb_offset := off\<rparr>)"
proof -
  obtain f' where f': "WriteRawBlock e w data kNoCompression r =
      (\<lparr>bh_offset = tb_offset r, bh_size = word_of_nat (length data)\<rparr>,
       r\<lparr>tb_status := OK, tb_file := f', tb_offset := tb_offset r + word_of_nat (length data + 5)\<rparr>)"
    "written f' = written (tb_file r) @ data @ trailer_of (compression_byte kNoCompression) data"
    using WriteRawBlock_writes by blast
  show ?thesis
    using assms f'(2) unfolding f'(1)
    by (intro exI [of _ f'] exI [of _ "tb_offset r + word_of_nat (length data + 5)"])
      (simp add: F_file_def W_base_def placed_handle_def handle_at_def placed_at_def placed_bytes_def compression_byte_def algebra_simps)
qed

lemma block_appended:
  assumes "F_file ps r" "built os shs es rs s" "builder_size s + 4 < 2 ^ 32"
  shows "\<exists>p f' off. WriteBlock b e w s r =
      Ok (BlockBuilder_Reset s, placed_handle (ps @ [p]) (length ps), r\<lparr>tb_status := OK, tb_file := f', tb_offset := off\<rparr>) \<and>
    F_file (ps @ [p]) (r\<lparr>tb_status := OK, tb_file := f', tb_offset := off\<rparr>) \<and> fst p = es \<and> holds_entries e p \<and>
    length (placed_bytes p) \<le> builder_size s + 9"
proof -
  have ok: "tb_ok r" using assms(1) by (simp add: F_file_def W_base_def tb_ok_def)
  obtain ty data f' where wb: "WriteBlock b e w s r =
      Ok (BlockBuilder_Reset s, \<lparr>bh_offset = tb_offset r, bh_size = word_of_nat (length data)\<rparr>,
          r\<lparr>tb_status := OK, tb_file := f', tb_offset := tb_offset r + word_of_nat (length data + 5)\<rparr>)"
    "written f' = written (tb_file r) @ placed_bytes (es, ty, data)" "holds_entries e (es, ty, data)" "length data \<le> builder_size s + 4"
    using WriteBlock_writes [OF assms(2,3) ok] by blast
  show ?thesis
    using assms(1) wb(2-4) unfolding wb(1)
    by (intro exI [of _ "(es, ty, data)"] exI [of _ f'] exI [of _ "tb_offset r + word_of_nat (length data + 5)"])
      (simp add: F_file_def W_base_def placed_handle_def handle_at_def placed_at_def placed_bytes_def algebra_simps)
qed

text \<open>\<open>Finish\<close> begins with the last block.\<close>

lemma last_block:
  assumes "filling es bs idx cur r" "data_weight es < 2 ^ 32"
  shows "\<exists>bs' r'. tb_Flush b e w r = Ok r' \<and> writing bs' idx [] r' \<and> concat (map fst bs') = es \<and> (pending_index_entry r' \<longleftrightarrow> bs' \<noteq> [])"
proof (cases "pending_index_entry r")
  case True
  then have "cur = []" "bs \<noteq> []" "buffer (data_block r) = []" "tb_ok r" "\<not> tb_closed r"
    using assms(1) by (auto simp: filling_def writing_def W_index_def W_data_def built_def layout_def W_base_def tb_ok_def)
  then show ?thesis
    using assms(1) True by (intro exI [of _ bs] exI [of _ r]) (simp add: tb_Flush_def filling_def)
next
  case False
  have fill: "writing bs idx cur r" "concat (map fst bs) @ cur = es" "cur = [] \<Longrightarrow> bs = []" using assms(1) False by (auto simp: filling_def)
  obtain bs' r' where flush: "tb_Flush b e w r = Ok r'" "writing bs' idx [] r'" "pending_index_entry r' \<longleftrightarrow> cur \<noteq> []"
    "concat (map fst bs') = concat (map fst bs) @ cur"
    using Flush_writes [OF fill(1) _ False, of b] assms(2) fill(2) by auto
  have "\<forall>p \<in> set bs'. fst p \<noteq> []" using flush(2) by (auto simp: writing_def W_file_def)
  then have "bs' = [] \<longleftrightarrow> concat (map fst bs') = []" by (cases bs') auto
  then show ?thesis using flush fill(2,3) by (intro exI [of _ bs'] exI [of _ r']) auto
qed

text \<open>The filters, which leave everything else as it is.\<close>

lemma filters_written:
  assumes W: "W_base r" "W_file bs r" "W_filter bs [] r" and es: "concat (map fst bs) = es"
  shows "\<exists>filters r'. write_filter e w r = (if opt_policy opts = None then BlockHandle else placed_handle (bs @ filters) (length bs), r') \<and>
    F_file (bs @ filters) r' \<and> (\<exists>f' off fb. r' = r\<lparr>tb_file := f', tb_offset := off, filter_block := fb\<rparr> \<and> (fb = None \<longleftrightarrow> opt_policy opts = None)) \<and>
    (case opt_policy opts of
       None \<Rightarrow> filters = []
     | Some policy \<Rightarrow> \<exists>data. filters = [([], 0, data)] \<and> stored_filters policy bs data \<and>
         length data \<le> 2 * per_key * length es + data_weight es div 512 + 9)"
proof (cases "opt_policy opts")
  case None
  have "filter_block r = None" using W(3) None by (simp add: W_filter_def)
  moreover from this have "r = r\<lparr>tb_file := tb_file r, tb_offset := tb_offset r, filter_block := None\<rparr>" by simp
  moreover have "F_file bs r" using W(1,2) by (simp add: F_file_def W_file_def)
  ultimately show ?thesis
    using None by (intro exI [of _ "[]"] exI [of _ r]) (fastforce simp: write_filter_def)
next
  case (Some policy)
  have base: "W_base r" "tb_status r = OK" using W(1) by (simp_all add: W_base_def)
  obtain s groups pending where fs: "filter_block r = Some s" "holds_filters policy groups pending s"
    "length groups = placed_at bs (length bs) div kFilterBase" "covered bs groups pending"
    "length (concat groups) + length pending = length es"
    using W(3) Some es by (auto simp: W_filter_def)
  obtain data s' where fin: "FilterBlockBuilder_Finish s = (data, s')" by fastforce
  have "F_file bs r" using W(1,2) by (simp add: F_file_def W_file_def)
  then obtain f' off where raw: "WriteRawBlock e w data kNoCompression r =
      (placed_handle (bs @ [([], 0, data)]) (length bs), r\<lparr>tb_status := OK, tb_file := f', tb_offset := off\<rparr>)"
    "F_file (bs @ [([], 0, data)]) (r\<lparr>tb_status := OK, tb_file := f', tb_offset := off\<rparr>)"
    using raw_appended by blast
  let ?r = "r\<lparr>tb_file := f', tb_offset := off, filter_block := Some s'\<rparr>"
  have "write_filter e w r = (placed_handle (bs @ [([], 0, data)]) (length bs), ?r)"
    using base by (simp add: write_filter_def fs(1) fin raw(1) Let_def tb_ok_def)
  moreover have "F_file (bs @ [([], 0, data)]) ?r" using raw(2) base by (simp add: F_file_def W_base_def)
  moreover have "stored_filters policy bs data" unfolding stored_filters_def using fs(2,4) fin by blast
  moreover have "length data \<le> 2 * per_key * length es + data_weight es div 512 + 9"
  proof -
    have "placed_at bs (length bs) \<le> data_weight es" using W(2) es by (auto simp: W_file_def placed_at_def)
    then have "length groups \<le> data_weight es div 2048" using fs(3) by (simp add: kFilterBase_def kFilterBaseLg_def div_le_mono)
    then show ?thesis using filter_block_size [OF Some fs(2) fin] fs(5) by simp
  qed
  ultimately show ?thesis
    using Some by (intro exI [of _ "[([], 0, data)]"] exI [of _ ?r]) fastforce
qed

lemma metaindex_written:
  assumes F: "F_file ps r" and fb: "filter_block r = None \<longleftrightarrow> opt_policy opts = None"
    and h: "opt_policy opts \<noteq> None \<Longrightarrow> handle_set h" and small: "table_weight opts per_key es < 2 ^ 32"
  shows "\<exists>p f' off. write_metaindex b e w h r =
      Ok (placed_handle (ps @ [p]) (length ps), r\<lparr>tb_status := OK, tb_file := f', tb_offset := off\<rparr>) \<and>
    F_file (ps @ [p]) (r\<lparr>tb_status := OK, tb_file := f', tb_offset := off\<rparr>) \<and> holds_entries e p \<and>
    fst p = (case opt_policy opts of None \<Rightarrow> [] | Some policy \<Rightarrow> [(filter_key policy, handle_code h)]) \<and>
    length (placed_bytes p) \<le> 59 + (case opt_policy opts of None \<Rightarrow> 0 | Some policy \<Rightarrow> length (policy_Name policy))"
proof -
  have base: "tb_options r = opts" "tb_ok r" using F by (simp_all add: F_file_def W_base_def tb_ok_def)
  define s0 where "s0 = \<lparr>buffer = [], restarts = [0], counter = 0, finished = False, last_key = []\<rparr>"
  have s0: "BlockBuilder b opts = Ok s0" "built opts [] [] [0] s0" "builder_size s0 = 4"
    using interval fresh_builder [of opts s0] Reset_size(1) [of s0] by (simp_all add: s0_def BlockBuilder_def BlockBuilder_Reset_def)
  have "\<exists>m shs rs. (case (filter_block r, opt_policy opts) of
       (Some fb, Some policy) \<Rightarrow>
         bind_result (BlockHandle_EncodeTo b h []) (\<lambda>handle_encoding. BlockBuilder_Add b opts (filter_key policy) handle_encoding s0)
     | (Some fb, None) \<Rightarrow> Fault OutOfBounds
     | _ \<Rightarrow> Ok s0) = Ok m \<and>
     built opts shs (case opt_policy opts of None \<Rightarrow> [] | Some policy \<Rightarrow> [(filter_key policy, handle_code h)]) rs m \<and>
     builder_size m \<le> 50 + (case opt_policy opts of None \<Rightarrow> 0 | Some policy \<Rightarrow> length (policy_Name policy))"
  proof (cases "opt_policy opts")
    case None
    then show ?thesis using fb s0(2,3) by (intro exI [of _ s0] exI [of _ "[]"] exI [of _ "[0]"]) simp
  next
    case (Some policy)
    have code: "length (handle_code h) \<le> 20" by (rule length_handle_code)
    have key: "length (filter_key policy) = 7 + length (policy_Name policy)" by (simp add: filter_key_def)
    have size: "builder_size m \<le> 50 + length (policy_Name policy)" if "BlockBuilder_Add b' opts (filter_key policy) (handle_code h) s0 = Ok m" for b' m
      using Add_size [OF that] code key s0(3) by simp
    have name: "length (policy_Name policy) + 256 < 2 ^ 32" using small Some by (simp add: table_weight_def)
    have fits: "length (buffer m) < 2 ^ 32" if "BlockBuilder_Add Release opts (fst (filter_key policy, handle_code h)) (snd (filter_key policy, handle_code h)) s0 = Ok m" for m
      using size [of Release m] that name by (simp add: builder_size_def)
    obtain m sh rs' where m: "\<forall>b. BlockBuilder_Add b opts (filter_key policy) (handle_code h) s0 = Ok m"
      "built opts ([] @ [sh]) ([] @ [(filter_key policy, handle_code h)]) rs' m"
      using Add_built [OF s0(2) interval, where e = "(filter_key policy, handle_code h)"] fits by auto
    obtain x where x: "filter_block r = Some x" using fb Some by auto
    show ?thesis
      using m size [OF m(1) [rule_format]] EncodeTo_code [of h b "[]"] h Some
      by (intro exI [of _ m] exI [of _ "[sh]"] exI [of _ rs']) (simp add: x)
  qed
  then obtain m shs rs where m: "(case (filter_block r, opt_policy opts) of
       (Some fb, Some policy) \<Rightarrow>
         bind_result (BlockHandle_EncodeTo b h []) (\<lambda>handle_encoding. BlockBuilder_Add b opts (filter_key policy) handle_encoding s0)
     | (Some fb, None) \<Rightarrow> Fault OutOfBounds
     | _ \<Rightarrow> Ok s0) = Ok m"
    "built opts shs (case opt_policy opts of None \<Rightarrow> [] | Some policy \<Rightarrow> [(filter_key policy, handle_code h)]) rs m"
    "builder_size m \<le> 50 + (case opt_policy opts of None \<Rightarrow> 0 | Some policy \<Rightarrow> length (policy_Name policy))"
    by blast
  have "builder_size m + 4 < 2 ^ 32" using m(3) small by (simp add: table_weight_def split: option.splits)
  from block_appended [OF F m(2) this, of b] m(3) show ?thesis
    unfolding write_metaindex_def base(1) s0(1) bind_result_simps m(1) using base(2) by fastforce
qed

lemma index_written:
  assumes F: "F_file ps r" and W: "W_index bs idx [] r" "W_keys bs [] r" and pending: "pending_index_entry r \<longleftrightarrow> bs \<noteq> []"
    and blocks: "\<forall>p \<in> set bs. fst p \<noteq> []" "placed_at bs (length bs) \<le> data_weight (concat (map fst bs))"
    and small: "table_weight opts per_key (concat (map fst bs)) < 2 ^ 32"
  shows "\<exists>p r'. write_index b e w r = Ok (placed_handle (ps @ [p]) (length ps), r') \<and> F_file (ps @ [p]) r' \<and>
    holds_entries e p \<and> length (fst p) = length bs \<and> index_ok bs (fst p) [] \<and>
    length (placed_bytes p) \<le> 13 + index_weight (concat (map fst bs))"
proof -
  let ?es = "concat (map fst bs)"
  have base: "W_base r" "tb_options r = opts" "tb_ok r" using F by (simp_all add: F_file_def W_base_def tb_ok_def)
  have weight: "index_weight ?es + 256 < 2 ^ 32" "data_weight ?es < 2 ^ 32" using small by (simp_all add: table_weight_def)
  have "\<exists>idx' r1. (if pending_index_entry r then add_index_entry b (opt_successor opts b) r else Ok r) = Ok r1 \<and>
    W_index bs idx' [] r1 \<and> length idx' = length bs \<and> F_file ps r1"
  proof (cases "bs = []")
    case True
    then have "length idx = length bs" "\<not> pending_index_entry r" using pending W(1) by (auto simp: W_index_def)
    then show ?thesis using W(1) F by (intro exI [of _ idx] exI [of _ r]) simp
  next
    case False
    then have p: "pending_index_entry r" using pending by simp
    have es: "?es \<noteq> []" using False blocks(1) by (cases bs) simp_all
    have "ascending (opt_comparator opts) key_ok ?es" "tb_last_key r = fst (last ?es)"
      using W(2) es unfolding W_keys_def Let_def append_Nil2 by blast+
    then have "key_ok (tb_last_key r)" using ascending_key_ok last_in_set [OF es] by metis
    then obtain k where k: "opt_successor opts b (tb_last_key r) = Ok k" "key_ok k"
      "k = tb_last_key r \<or> opt_comparator opts (tb_last_key r) k < 0" "length k \<le> length (tb_last_key r)"
      using successor_ok [of "tb_last_key r" b] by blast
    have "index_weight ?es + 4 < 2 ^ 32" using weight(1) by simp
    from add_index_entry_writes [where key = "opt_successor opts b" and s = k and b = b, OF base(1) W(1) p W(2) blocks(1) this weight(2) blocks(2) k]
    obtain index where index: "add_index_entry b (opt_successor opts b) r = Ok (r\<lparr>tb_last_key := k, index_block := index, pending_index_entry := False\<rparr>)"
      "W_index bs (idx @ [(k, handle_code (placed_handle bs (length idx)))]) [] (r\<lparr>tb_last_key := k, index_block := index, pending_index_entry := False\<rparr>)"
      by blast
    have "F_file ps (r\<lparr>tb_last_key := k, index_block := index, pending_index_entry := False\<rparr>)"
      using F by (simp add: F_file_def W_base_def)
    then show ?thesis using index p W(1) by (intro exI conjI) (auto simp: W_index_def)
  qed
  then obtain idx' r1 where r1: "(if pending_index_entry r then add_index_entry b (opt_successor opts b) r else Ok r) = Ok r1"
    "W_index bs idx' [] r1" "length idx' = length bs" "F_file ps r1" by blast
  obtain shs rs where built: "built (opts\<lparr>block_restart_interval := 1\<rparr>) shs idx' rs (index_block r1)" using r1(2) by (auto simp: W_index_def)
  have size: "builder_size (index_block r1) \<le> 4 + index_weight ?es" using r1(2,3) by (simp add: W_index_def)
  then have "builder_size (index_block r1) + 4 < 2 ^ 32" using weight(1) by simp
  from block_appended [OF r1(4) built this, of b]
  obtain p f' off where p: "WriteBlock b e w (index_block r1) r1 =
      Ok (BlockBuilder_Reset (index_block r1), placed_handle (ps @ [p]) (length ps), r1\<lparr>tb_status := OK, tb_file := f', tb_offset := off\<rparr>)"
    "F_file (ps @ [p]) (r1\<lparr>tb_status := OK, tb_file := f', tb_offset := off\<rparr>)" "fst p = idx'" "holds_entries e p"
    "length (placed_bytes p) \<le> builder_size (index_block r1) + 9" by blast
  have "F_file (ps @ [p]) (r1\<lparr>tb_status := OK, tb_file := f', tb_offset := off, index_block := BlockBuilder_Reset (index_block r1)\<rparr>)"
    using p(2) by (simp add: F_file_def W_base_def)
  moreover have "index_ok bs idx' []" using r1(2) by (simp add: W_index_def)
  ultimately show ?thesis
    using p(3-5) r1(3) size base(3) unfolding write_index_def base(2) r1(1)
    by (intro exI [of _ p] exI) (simp add: p(1))
qed

lemma length_placed_bytes: "length (placed_bytes p) = length (snd (snd p)) + 5"
  by (simp add: placed_bytes_def split: prod.split)

lemma placed_handle_set:
  assumes "j < length ps" "length (concat (map placed_bytes ps)) < 2 ^ 32"
  shows "handle_set (placed_handle ps j)"
proof -
  have "placed_at ps (Suc j) \<le> length (concat (map placed_bytes ps))"
    unfolding placed_at_def by (subst (2) append_take_drop_id [of "Suc j" ps, symmetric]) (simp del: append_take_drop_id)
  then have "placed_at ps j + length (snd (snd (ps ! j))) + 5 < 2 ^ 32" using assms placed_at_Suc [OF assms(1)] by simp
  then show ?thesis unfolding placed_handle_def by (intro handle_at_set) simp_all
qed

lemma Finish_writes:
  assumes fill: "filling es bs idx cur r" and small: "table_weight opts per_key es < 2 ^ 32"
  shows "\<exists>bs filters meta index r'. tb_Finish b e w r = Ok (OK, r') \<and> table_contents es bs filters meta index (written (tb_file r')) \<and>
    length (written (tb_file r')) < 2 ^ 32 \<and> FileSize r' = word_of_nat (length (written (tb_file r')))"
proof -
  have "data_weight es < 2 ^ 32" using small by (simp add: table_weight_def)
  from last_block [OF fill this] obtain bs r1 where r1: "tb_Flush b e w r = Ok r1" "writing bs idx [] r1" "concat (map fst bs) = es"
    "pending_index_entry r1 \<longleftrightarrow> bs \<noteq> []" by blast
  have blocks: "\<forall>p \<in> set bs. holds_entries e p \<and> fst p \<noteq> []" "placed_at bs (length bs) \<le> data_weight es"
    using r1(2,3) by (auto simp: writing_def W_file_def placed_at_def)
  define r2 where "r2 = r1\<lparr>tb_closed := True\<rparr>"
  obtain filters r3 where r3: "write_filter e w r2 = (if opt_policy opts = None then BlockHandle else placed_handle (bs @ filters) (length bs), r3)"
    "F_file (bs @ filters) r3" "\<exists>f' off fb. r3 = r2\<lparr>tb_file := f', tb_offset := off, filter_block := fb\<rparr> \<and> (fb = None \<longleftrightarrow> opt_policy opts = None)"
    "case opt_policy opts of
       None \<Rightarrow> filters = []
     | Some policy \<Rightarrow> \<exists>data. filters = [([], 0, data)] \<and> stored_filters policy bs data \<and>
         length data \<le> 2 * per_key * length es + data_weight es div 512 + 9"
  proof -
    have "W_base r2 \<longleftrightarrow> W_base r1" "W_file bs r2 \<longleftrightarrow> W_file bs r1" by (simp_all add: W_base_def W_file_def r2_def)
    moreover have "W_filter bs [] r2 \<longleftrightarrow> W_filter bs [] r1" unfolding W_filter_def r2_def by (cases "opt_policy opts") simp_all
    ultimately have "W_base r2" "W_file bs r2" "W_filter bs [] r2" using r1(2) by (simp_all add: writing_def)
    from filters_written [OF this r1(3)] show thesis by (elim exE conjE) (rule that, assumption+, intro exI conjI, assumption+)
  qed
  have fsize: "length (concat (map placed_bytes filters)) \<le> 2 * per_key * length es + data_weight es div 512 + 14"
    using r3(4) by (auto simp: length_placed_bytes split: option.splits)
  have isize: "length (concat (map placed_bytes (bs @ filters))) + 242 + index_weight es < 2 ^ 32"
    using fsize blocks(2) small by (simp add: table_weight_def placed_at_def)
  let ?h = "if opt_policy opts = None then BlockHandle else placed_handle (bs @ filters) (length bs)"
  have h: "handle_set ?h" if "opt_policy opts \<noteq> None"
    using that isize r3(4) by (auto intro!: placed_handle_set)
  have fb: "filter_block r3 = None \<longleftrightarrow> opt_policy opts = None" using r3(3) by auto
  obtain meta f4 o4 where r4: "write_metaindex b e w ?h r3 =
      Ok (placed_handle (bs @ filters @ [meta]) (length (bs @ filters)), r3\<lparr>tb_status := OK, tb_file := f4, tb_offset := o4\<rparr>)"
    "F_file (bs @ filters @ [meta]) (r3\<lparr>tb_status := OK, tb_file := f4, tb_offset := o4\<rparr>)" "holds_entries e meta"
    "fst meta = (case opt_policy opts of None \<Rightarrow> [] | Some policy \<Rightarrow> [(filter_key policy, handle_code ?h)])"
    "length (placed_bytes meta) \<le> 59 + (case opt_policy opts of None \<Rightarrow> 0 | Some policy \<Rightarrow> length (policy_Name policy))"
    using metaindex_written [OF r3(2) fb h small, of b] by auto
  let ?r4 = "r3\<lparr>tb_status := OK, tb_file := f4, tb_offset := o4\<rparr>"
  have W4: "W_index bs idx [] ?r4" "W_keys bs [] ?r4" "pending_index_entry ?r4 \<longleftrightarrow> bs \<noteq> []"
  proof -
    obtain f' off fb where r3': "r3 = r1\<lparr>tb_closed := True, tb_file := f', tb_offset := off, filter_block := fb\<rparr>"
      using r3(3) by (auto simp: r2_def)
    have "W_index bs idx [] ?r4 \<longleftrightarrow> W_index bs idx [] r1" "W_keys bs [] ?r4 \<longleftrightarrow> W_keys bs [] r1" "pending_index_entry ?r4 \<longleftrightarrow> pending_index_entry r1"
      by (simp_all add: W_index_def W_keys_def r3')
    then show "W_index bs idx [] ?r4" "W_keys bs [] ?r4" "pending_index_entry ?r4 \<longleftrightarrow> bs \<noteq> []"
      using r1(2,4) by (simp_all add: writing_def)
  qed
  obtain index r5 where r5: "write_index b e w ?r4 = Ok (placed_handle ((bs @ filters @ [meta]) @ [index]) (length (bs @ filters @ [meta])), r5)"
    "F_file ((bs @ filters @ [meta]) @ [index]) r5" "holds_entries e index" "length (fst index) = length bs" "index_ok bs (fst index) []"
    "length (placed_bytes index) \<le> 13 + index_weight es"
    using index_written [OF r4(2) W4, of b] blocks small r1(3) by auto
  let ?ps = "bs @ filters @ [meta, index]"
  let ?footer = "\<lparr>metaindex_handle = placed_handle ?ps (length ?ps - 2), index_handle = placed_handle ?ps (length ?ps - 1)\<rparr>"
  have total: "length (concat (map placed_bytes ?ps)) + 48 < 2 ^ 32"
    using fsize blocks(2) r4(5) r5(6) small by (simp add: table_weight_def placed_at_def split: option.splits)
  have "handle_set (metaindex_handle ?footer)" "handle_set (index_handle ?footer)"
    using total by (simp_all only: footer.simps, (intro placed_handle_set; simp)+)
  note footer = Footer_EncodeTo_code [OF this, of b]
  obtain f6 where f6: "wf_Append w (footer_code ?footer) (tb_file r5) = (OK, f6)" "written f6 = written (tb_file r5) @ footer_code ?footer"
    using append_file by blast
  have handles: "placed_handle (bs @ filters @ [meta]) (length (bs @ filters)) = metaindex_handle ?footer"
    "placed_handle ((bs @ filters @ [meta]) @ [index]) (length (bs @ filters @ [meta])) = index_handle ?footer"
    using placed_handle_append [of "length (bs @ filters)" "bs @ filters @ [meta]" "[index]"] by simp_all
  define r6 where "r6 = r5\<lparr>tb_status := OK, tb_file := f6, tb_offset := tb_offset r5 + word_of_nat (length (footer_code ?footer))\<rparr>"
  have open1: "\<not> tb_closed r1" "tb_ok r5" using r1(2) r5(2) by (simp_all add: writing_def F_file_def W_base_def tb_ok_def)
  have "tb_Finish b e w r = Ok (OK, r6)"
    unfolding tb_Finish_def r1(1) bind_result_simps
    using open1 footer f6(1) handles
    by (simp add: Let_def r2_def [symmetric] r3(1) r4(1) r5(1) tb_ok_def r6_def)
  moreover have "table_contents es bs filters meta index (written (tb_file r6))"
    unfolding table_contents_def
  proof (intro conjI)
    show "meta_ok bs filters meta"
      using r3(4) r4(3,4) by (auto simp: meta_ok_def split: option.splits)
    show "let ps = ?ps in written (tb_file r6) = concat (map placed_bytes ps) @
        footer_code \<lparr>metaindex_handle = placed_handle ps (length ps - 2), index_handle = placed_handle ps (length ps - 1)\<rparr>"
      using f6(2) r5(2) by (simp add: r6_def F_file_def)
  qed (use r1(3) blocks r5(3-5) in simp_all)
  moreover have "length (written (tb_file r6)) < 2 ^ 32" "FileSize r6 = word_of_nat (length (written (tb_file r6)))"
    using total r5(2) f6(2) length_footer_code [of ?footer] by (simp_all add: r6_def F_file_def FileSize_def)
  ultimately show ?thesis by blast
qed

lemma build_table_writes:
  assumes "ascending (opt_comparator opts) key_ok es" "table_weight opts per_key es < 2 ^ 32" "written f = []"
  shows "\<exists>bs filters meta index r. build_table b e w opts es f = Ok (OK, r) \<and> table_contents es bs filters meta index (written (tb_file r)) \<and>
    length (written (tb_file r)) < 2 ^ 32 \<and> FileSize r = word_of_nat (length (written (tb_file r)))"
proof -
  obtain r0 where r0: "TableBuilder b opts f = Ok r0" "filling [] [] [] [] r0" using new_builder [OF assms(3)] by blast
  have "index_weight es + 4 < 2 ^ 32" "data_weight es < 2 ^ 32" using assms(2) by (simp_all add: table_weight_def)
  then obtain bs idx cur r1 where r1: "tb_add_all b e w es r0 = Ok r1" "filling es bs idx cur r1"
    using add_all_writes [OF r0(2), of es b] assms(1) by auto
  show ?thesis using Finish_writes [OF r1(2) assms(2), of b] by (simp add: build_table_def r0(1) r1(1))
qed

end

section \<open>Settings\<close>

text \<open>The options as the constructor of src/include/leveldb/options.h and util/options.cc leaves them.\<close>

definition Options :: table_options where
  "Options = \<lparr>block_restart_interval = 16, opt_comparator = Slice_compare, opt_separator = FindShortestSeparator,
     opt_successor = (\<lambda>_ key. Ok (FindShortSuccessor key)), block_size = 4 * 1024, compression = kSnappyCompression,
     paranoid_checks = False, opt_policy = None, block_cache = None\<rparr>"

text \<open>Tables of a database of plain keys, with the filter of util/bloom.cc; and tables of internal keys.\<close>

lemma length_add_keys: "length (fold (add_key bf init bits) keys dst) = length dst"
  by (induction keys arbitrary: dst) (simp_all add: add_key_def Let_def length_set_probes)

lemma bloom_size: "length (policy_CreateFilter (bloom_policy n) keys []) \<le> (n + 9) * Suc (length keys)"
proof -
  have "(max 64 (length keys * n) + 7) div 8 \<le> 8 + length keys * n" by simp
  then show ?thesis
    by (simp add: bloom_policy_def CreateFilter_fold length_add_keys filter_bytes_def BloomFilterPolicy_def Let_def algebra_simps)
qed

interpretation bloom_table: table_writer "Options\<lparr>opt_policy := Some (bloom_policy n)\<rparr>" "\<lambda>_. True" "\<lparr>env_snappy = no_snappy, address = a\<rparr>" "n + 9"
    memory_writable "\<lambda>f. f" for n a
proof -
  show "table_writer (Options\<lparr>opt_policy := Some (bloom_policy n)\<rparr>) (\<lambda>_. True) \<lparr>env_snappy = no_snappy, address = a\<rparr> (n + 9) memory_writable (\<lambda>f. f)"
    using bytewise_comparator.comparator_axioms no_snappy.compressor_axioms memory_writable.writable_file_axioms bloom.filter_policy_axioms bloom_size
    by (auto simp: Options_def intro!: table_writer.intro table_setting.intro table_setting_axioms.intro)
qed

interpretation internal_table: table_writer
    "Options\<lparr>opt_comparator := InternalKey_Compare, opt_separator := InternalKey_FindShortestSeparator, opt_successor := InternalKey_FindShortSuccessor\<rparr>"
    internal_key_ok "\<lparr>env_snappy = no_snappy, address = a\<rparr>" 0 memory_writable "\<lambda>f. f" for a
proof -
  show "table_writer (Options\<lparr>opt_comparator := InternalKey_Compare, opt_separator := InternalKey_FindShortestSeparator, opt_successor := InternalKey_FindShortSuccessor\<rparr>)
      internal_key_ok \<lparr>env_snappy = no_snappy, address = a\<rparr> 0 memory_writable (\<lambda>f. f)"
    using internal_comparator.comparator_axioms no_snappy.compressor_axioms memory_writable.writable_file_axioms
    by (auto simp: Options_def intro!: table_writer.intro table_setting.intro table_setting_axioms.intro)
qed

end
