(* ===== verification/BlockIteration.thy ===== *)
theory BlockIteration
  imports TableBlock
begin

text \<open>
  What the iterator of a block does on a block in the format: every operation of \<open>Block::Iter\<close> moves between the entries
  as the format lists them, without a fault, also with \<open>assert\<close> on.
\<close>

section \<open>Where the entries are\<close>

lemma entry_offset_0 [simp]: "entry_offset shs es 0 = 0"
  by (simp add: entry_offset_def layout_def)

lemma entry_offset_Suc:
  assumes "length shs = length es" "i < length es"
  shows "entry_offset shs es (Suc i) = entry_offset shs es i + length (entry_code (shs ! i) (es ! i))"
  using assms layout_append [of "take i shs" "take i es"] by (simp add: entry_offset_def take_Suc_conv_app_nth)

lemma entry_offset_mono:
  assumes "length shs = length es" "i \<le> j" "j \<le> length es"
  shows "entry_offset shs es i \<le> entry_offset shs es j"
  using assms(2,3)
proof (induction j rule: dec_induct)
  case (step k)
  then show ?case using entry_offset_Suc [OF assms(1), of k] by simp
qed simp

lemma entry_offset_less_iff:
  assumes "length shs = length es" "i \<le> length es" "j \<le> length es"
  shows "entry_offset shs es i < entry_offset shs es j \<longleftrightarrow> i < j"
proof
  assume "entry_offset shs es i < entry_offset shs es j"
  then show "i < j" using entry_offset_mono [OF assms(1), of j i] assms(2) by (cases "i < j") auto
next
  assume ij: "i < j"
  then have "entry_offset shs es i + 3 \<le> entry_offset shs es (Suc i)"
    using entry_offset_Suc [OF assms(1), of i] assms(3) length_entry_code by simp
  also have "\<dots> \<le> entry_offset shs es j" using entry_offset_mono [OF assms(1), of "Suc i" j] ij assms(3) by simp
  finally show "entry_offset shs es i < entry_offset shs es j" by simp
qed

lemma layout_split: "length xs = length ys \<Longrightarrow> layout (xs @ xs') (ys @ ys') = layout xs ys @ layout xs' ys'"
  by (simp add: layout_def)

lemma drop_layout:
  assumes "length shs = length es" "i < length es"
  shows "drop (entry_offset shs es i) (layout shs es) = entry_code (shs ! i) (es ! i) @ layout (drop (Suc i) shs) (drop (Suc i) es)"
proof -
  have "layout shs es = layout (take i shs) (take i es) @ layout (drop i shs) (drop i es)"
    using assms layout_split [of "take i shs" "take i es" "drop i shs" "drop i es"] by simp
  moreover have "drop i shs = shs ! i # drop (Suc i) shs" "drop i es = es ! i # drop (Suc i) es"
    using assms by (simp_all add: Cons_nth_drop_Suc)
  ultimately show ?thesis by (simp add: entry_offset_def layout_def)
qed

text \<open>The first byte of a varint tells whether it is the only one.\<close>

lemma varint_first:
  obtains xs where "varint n = word_of_nat n # xs" "n < 128" "xs = []"
  | y xs where "varint n = y # xs" "128 \<le> unat y" "128 \<le> n"
proof (cases "n < 128")
  case True
  then show ?thesis using that(1) by (simp add: varint_less)
next
  case False
  have "n mod 128 < 128" by simp
  then have "(n mod 128 + 128) mod 256 = n mod 128 + 128" by (intro mod_less) linarith
  then have "unat (word_of_nat (n mod 128 + 128) :: u8) = n mod 128 + 128" by (simp only: unat_word_of_nat_u8)
  then show ?thesis using that(2) [of "word_of_nat (n mod 128 + 128)" "varint (n div 128)"] False varint_more [of n] by linarith
qed

lemma less_128_bits: "m < 128 \<longleftrightarrow> (\<forall>n. bit (m :: nat) n \<longrightarrow> n < 7)"
  using take_bit_nat_eq_self_iff [of 7 m] by (auto simp: bit_eq_iff [of "take_bit 7 m"] bit_take_bit_iff)

lemma or_less_128: "a OR b OR c < (128 :: u32) \<longleftrightarrow> a < 128 \<and> b < 128 \<and> c < 128"
  by (auto simp: word_less_nat_alt less_128_bits unsigned_or_eq bit_or_iff)

lemma word_of_nat_less_iff: "m < 2 ^ 32 \<Longrightarrow> n < 2 ^ 32 \<Longrightarrow> (word_of_nat m :: u32) < word_of_nat n \<longleftrightarrow> m < n"
  by (simp add: word_less_nat_alt unat_word32_of_nat)

lemma drop_varint:
  assumes "drop p (take limit data) = varint n @ rest"
  shows "drop (p + length (varint n)) (take limit data) = rest"
proof -
  have "drop (p + length (varint n)) (take limit data) = drop (length (varint n)) (drop p (take limit data))"
    by (simp add: add.commute)
  then show ?thesis by (simp add: assms)
qed

lemma GetVarint32Ptr_varint:
  "drop p (take limit data) = varint n @ rest \<Longrightarrow> n < 2 ^ 32 \<Longrightarrow>
     GetVarint32Ptr data p limit = Some (word_of_nat n, p + length (varint n))"
  by (simp add: GetVarint32Ptr_fallback GetVarint32PtrFallback_varint)

lemma small_first:
  assumes "drop p (take limit data) = varint n @ rest" "ucast (data ! p) < (128 :: u32)"
  shows "length (varint n) = 1" "ucast (data ! p) = (word_of_nat n :: u32)"
proof -
  have "unat (data ! p) < 2 ^ 32" by (rule less_trans [OF unat_u8_less]) simp
  then have small: "unat (data ! p) < 128"
    using assms(2) by (simp add: word_less_nat_alt unsigned_ucast_eq take_bit_nat_eq_self)
  have "length (varint n) = 1 \<and> ucast (data ! p) = (word_of_nat n :: u32)"
  proof (rule varint_first [of n])
    fix xs assume v: "varint n = word_of_nat n # xs" "n < 128" "xs = []"
    have "data ! p = word_of_nat n" using take_limit(3) [OF assms(1) [unfolded v(1) append_Cons]] .
    then show ?thesis using v by (simp add: ucast_word_of_nat_u8)
  next
    fix y xs assume v: "varint n = y # xs" "128 \<le> unat y"
    then show ?thesis using take_limit(3) [OF assms(1) [unfolded v(1) append_Cons]] small by simp
  qed
  then show "length (varint n) = 1" "ucast (data ! p) = (word_of_nat n :: u32)" by auto
qed

lemma DecodeEntry_code:
  assumes code: "drop p (take limit data) = varint a @ varint c @ varint d @ rest"
    and a: "a < 2 ^ 32" and cd: "c + d \<le> length rest" and limit: "limit \<le> length data" "limit < 2 ^ 32"
  shows "DecodeEntry data p limit =
    Some (word_of_nat a, word_of_nat c, word_of_nat d, p + length (varint a) + length (varint c) + length (varint d))"
proof -
  have "length (drop p (take limit data)) = limit - p" using limit by simp
  then have len: "limit - p = length (varint a) + length (varint c) + length (varint d) + length rest" unfolding code by simp
  have pos: "1 \<le> length (varint m)" for m using varint_not_Nil [of m] by (cases "varint m") simp_all
  have three: "\<not> limit < p + 3" using len pos [of a] pos [of c] pos [of d] by linarith
  have small: "c < 2 ^ 32" "d < 2 ^ 32" using cd len limit by linarith+
  define q where "q = p + length (varint a) + length (varint c) + length (varint d)"
  note code2 = drop_varint [OF code]
  note code3 = drop_varint [OF code2]
  have g: "GetVarint32Ptr data p limit = Some (word_of_nat a, p + length (varint a))"
    "GetVarint32Ptr data (p + length (varint a)) limit = Some (word_of_nat c, p + length (varint a) + length (varint c))"
    "GetVarint32Ptr data (p + length (varint a) + length (varint c)) limit = Some (word_of_nat d, q)"
    unfolding q_def using code code2 code3 a small by (auto intro: GetVarint32Ptr_varint)
  have room: "\<not> word_of_nat (limit - q) < (word_of_nat c + word_of_nat d :: u32)"
    using len cd limit word_of_nat_less_iff [of "limit - q" "c + d"] by (simp add: q_def)
  show ?thesis
  proof (cases "ucast (data ! p) OR ucast (data ! (p + 1)) OR ucast (data ! (p + 2)) < (128 :: u32)")
    case True
    note bytes = True [unfolded or_less_128]
    have f1: "length (varint a) = 1" "ucast (data ! p) = (word_of_nat a :: u32)"
      using small_first [OF code] bytes by auto
    have f2: "length (varint c) = 1" "ucast (data ! (p + 1)) = (word_of_nat c :: u32)"
      using small_first [OF code2 [unfolded f1]] bytes by auto
    have f3: "length (varint d) = 1" "ucast (data ! (p + 2)) = (word_of_nat d :: u32)"
      using small_first [OF code3 [unfolded f1 f2]] bytes by auto
    have "p + 3 = q" by (simp add: q_def f1 f2 f3)
    then show ?thesis
      using True three room unfolding q_def [symmetric] DecodeEntry_def Let_def f1(2) f2(2) f3(2) by simp
  next
    case False
    then show ?thesis
      using three room g unfolding q_def [symmetric] DecodeEntry_def Let_def by simp
  qed
qed

section \<open>Blocks in the format\<close>

lemma take_drop_store32:
  "take 4 (drop (4 * j) (concat (map (\<lambda>r. store32 (f r)) rs) @ zs)) = store32 (f (rs ! j))" if "j < length rs"
  using that
proof (induction rs arbitrary: j)
  case (Cons r rs)
  then show ?case by (cases j) simp_all
qed simp

lemma image_sizes:
  assumes "block_image shs es rs data"
  shows "length shs = length es" "length data = length (layout shs es) + 4 * length rs + 4" "length data < 2 ^ 32"
    "take (length (layout shs es)) data = layout shs es" "0 < length rs"
  using assms by (auto simp: block_image_def shares_def restart_entries_def length_concat_store32)

lemma image_restart:
  assumes "block_image shs es rs data" "j < length rs"
  shows "DecodeFixed32 data (length (layout shs es) + 4 * j) = word_of_nat (entry_offset shs es (rs ! j))"
proof -
  have "drop (length (layout shs es) + 4 * j) data = drop (4 * j) (concat (map (\<lambda>r. store32 (word_of_nat (entry_offset shs es r))) rs) @
      store32 (word_of_nat (length rs)))"
    using assms(1) by (simp add: block_image_def)
  then show ?thesis by (simp only: DecodeFixed32_def take_drop_store32 [OF assms(2)] load_store32)
qed

lemma image_NumRestarts:
  assumes "block_image shs es rs data"
  shows "NumRestarts data (length data) = word_of_nat (length rs)"
proof -
  have "drop (length data - 4) data = store32 (word_of_nat (length rs))"
    using assms by (simp add: block_image_def length_concat_store32)
  then show ?thesis by (simp add: NumRestarts_def DecodeFixed32_def)
qed

lemma image_restart_entry:
  assumes "block_image shs es rs data" "j < length rs"
  shows "rs ! j \<le> length es" "es \<noteq> [] \<Longrightarrow> rs ! j < length es \<and> shs ! (rs ! j) = 0"
proof -
  have r: "rs ! j = 0 \<or> rs ! j < length es \<and> shs ! (rs ! j) = 0"
    using assms(1) nth_mem [OF assms(2)] unfolding block_image_def restart_entries_def shares_def by fastforce
  then show "rs ! j \<le> length es" by auto
  assume "es \<noteq> []"
  moreover from this have "shs ! 0 = 0"
    using assms(1) unfolding block_image_def shares_def by (metis length_greater_0_conv)
  ultimately show "rs ! j < length es \<and> shs ! (rs ! j) = 0" using r by auto
qed

lemma image_first: "block_image shs es rs data \<Longrightarrow> rs ! 0 = 0"
  by (auto simp: block_image_def restart_entries_def hd_conv_nth)

lemma image_offset:
  assumes "block_image shs es rs data" "i \<le> length es"
  shows "entry_offset shs es i \<le> length (layout shs es)" "entry_offset shs es i < 2 ^ 32"
    "i < length es \<Longrightarrow> entry_offset shs es i < length (layout shs es)"
  using assms entry_offset_mono [of shs es i "length es"] entry_offset_less_iff [of shs es i "length es"] image_sizes [OF assms(1)]
  by (simp_all add: entry_offset_length)

text \<open>Decoding the entry with number \<open>i\<close>: the bytes of the key that are stored and the place of the value.\<close>

lemma image_entry:
  assumes image: "block_image shs es rs data" and i: "i < length es"
  obtains p where
    "DecodeEntry data (entry_offset shs es i) (length (layout shs es)) = Some (word_of_nat (shs ! i),
       word_of_nat (length (fst (es ! i)) - shs ! i), word_of_nat (length (snd (es ! i))), p)"
    "read_bytes data p (length (fst (es ! i)) - shs ! i) = Ok (drop (shs ! i) (fst (es ! i)))"
    "read_bytes data (p + (length (fst (es ! i)) - shs ! i)) (length (snd (es ! i))) = Ok (snd (es ! i))"
    "p + (length (fst (es ! i)) - shs ! i) + length (snd (es ! i)) = entry_offset shs es (Suc i)"
    "shs ! i < 2 ^ 32" "length (fst (es ! i)) - shs ! i < 2 ^ 32" "length (snd (es ! i)) < 2 ^ 32"
proof -
  let ?D = "length (layout shs es)" and ?sh = "shs ! i" and ?k = "fst (es ! i)" and ?v = "snd (es ! i)" and ?o = "entry_offset shs es i"
  note S = image_sizes [OF image]
  define rest where "rest = layout (drop (Suc i) shs) (drop (Suc i) es)"
  define p where "p = ?o + length (varint ?sh) + length (varint (length ?k - ?sh)) + length (varint (length ?v))"
  have code: "drop ?o (take ?D data) = varint ?sh @ varint (length ?k - ?sh) @ varint (length ?v) @ drop ?sh ?k @ ?v @ rest"
    using drop_layout [OF S(1) i] by (simp add: S(4) entry_code_def rest_def)
  have D: "?D \<le> length data" "?D < 2 ^ 32" using S(2,3) by simp_all
  have sh: "?sh \<le> length ?k" using image i by (simp add: block_image_def shares_def)
  have key: "length (fst (es ! j)) \<le> entry_offset shs es (Suc j)" if "j < length es" for j
    using that
  proof (induction j)
    case 0
    have "shs ! 0 = 0" using image 0 unfolding block_image_def shares_def by metis
    then show ?case using entry_offset_Suc [OF S(1) 0] by (simp add: entry_code_def)
  next
    case (Suc j)
    have "shs ! Suc j \<le> length (fst (es ! j))"
      using image Suc.prems unfolding block_image_def shares_def by (metis diff_Suc_1 old.nat.distinct(2))
    then show ?case using Suc entry_offset_Suc [OF S(1) Suc.prems] by (simp add: entry_code_def)
  qed
  have off: "entry_offset shs es (Suc i) = p + (length ?k - ?sh) + length ?v"
    using entry_offset_Suc [OF S(1) i] by (simp add: p_def entry_code_def)
  have le: "entry_offset shs es (Suc i) \<le> ?D" using image_offset(1) [OF image, of "Suc i"] i by simp
  have small: "?sh < 2 ^ 32" "length ?k - ?sh < 2 ^ 32" "length ?v < 2 ^ 32"
    using key [OF i] le D sh off by linarith+
  have "drop p (take ?D data) = drop ?sh ?k @ ?v @ rest"
    using drop_varint [OF drop_varint [OF drop_varint [OF code]]] by (simp add: p_def)
  then have tail: "drop p data = drop ?sh ?k @ ?v @ rest @ drop ?D data"
  proof -
    assume t: "drop p (take ?D data) = drop ?sh ?k @ ?v @ rest"
    have "drop p data = drop p (take ?D data @ drop ?D data)" by simp
    also have "\<dots> = drop p (take ?D data) @ drop ?D data" using off le D by (simp only: drop_append) simp
    finally show ?thesis using t by simp
  qed
  have room: "p + (length ?k - ?sh) + length ?v \<le> length data" using off le D by simp
  show thesis
  proof (rule that [of p])
    show "DecodeEntry data ?o ?D = Some (word_of_nat ?sh, word_of_nat (length ?k - ?sh), word_of_nat (length ?v), p)"
      unfolding p_def by (rule DecodeEntry_code [OF code small(1) _ D]) simp
    show "read_bytes data p (length ?k - ?sh) = Ok (drop ?sh ?k)"
      using room by (simp add: read_bytes_def tail)
    show "read_bytes data (p + (length ?k - ?sh)) (length ?v) = Ok ?v"
      using room tail by (simp add: read_bytes_def add.commute [of p] flip: drop_drop)
  qed (use off small in simp_all)
qed

section \<open>Where the iterator stands\<close>

definition reads :: "(bytes \<Rightarrow> bytes \<Rightarrow> int) \<Rightarrow> nat list \<Rightarrow> (bytes \<times> bytes) list \<Rightarrow> nat list \<Rightarrow> block_iter \<Rightarrow> bool" where
  "reads cmp shs es rs it \<longleftrightarrow> block_image shs es rs (iter_data it) \<and> iter_comparator it = cmp \<and>
     iter_status it = OK \<and> iter_restarts it = word_of_nat (length (layout shs es)) \<and> num_restarts it = word_of_nat (length rs)"

text \<open>
  \<open>before\<close>: the next call of \<open>ParseNextKey\<close> finds the entry with number \<open>i\<close> (or the end). \<open>stands\<close>: the entry with number
  \<open>i\<close> is the current one (or there is none any more).
\<close>

definition in_restart :: "nat list \<Rightarrow> nat \<Rightarrow> u32 \<Rightarrow> bool" where
  "in_restart rs i ri \<longleftrightarrow> unat ri < length rs \<and> rs ! unat ri \<le> i"

definition before :: "nat list \<Rightarrow> (bytes \<times> bytes) list \<Rightarrow> nat list \<Rightarrow> nat \<Rightarrow> block_iter \<Rightarrow> bool" where
  "before shs es rs i it \<longleftrightarrow> i \<le> length es \<and> NextEntryOffset it = Ok (word_of_nat (entry_offset shs es i)) \<and>
     (i < length es \<longrightarrow> shs ! i \<le> length (iter_key it) \<and> take (shs ! i) (iter_key it) = take (shs ! i) (fst (es ! i))) \<and>
     in_restart rs i (restart_index it)"

definition stands :: "nat list \<Rightarrow> (bytes \<times> bytes) list \<Rightarrow> nat list \<Rightarrow> nat \<Rightarrow> block_iter \<Rightarrow> bool" where
  "stands shs es rs i it \<longleftrightarrow> i \<le> length es \<and>
     (if i < length es
      then current it = word_of_nat (entry_offset shs es i) \<and> iter_key it = fst (es ! i) \<and>
        NextEntryOffset it = Ok (word_of_nat (entry_offset shs es (Suc i))) \<and>
        (\<exists>p. value_slice it = Some (p, word_of_nat (length (snd (es ! i)))) \<and>
           read_bytes (iter_data it) p (length (snd (es ! i))) = Ok (snd (es ! i))) \<and>
        length (snd (es ! i)) < 2 ^ 32 \<and> in_restart rs i (restart_index it)
      else current it = iter_restarts it \<and> restart_index it = num_restarts it)"

lemma numeral_pow32: "(2 :: nat) ^ 32 = 4294967296"
  by simp

lemma reads_update [simp]:
  "reads cmp shs es rs (it\<lparr>current := c\<rparr>) = reads cmp shs es rs it"
  "reads cmp shs es rs (it\<lparr>restart_index := ri\<rparr>) = reads cmp shs es rs it"
  "reads cmp shs es rs (it\<lparr>iter_key := k\<rparr>) = reads cmp shs es rs it"
  "reads cmp shs es rs (it\<lparr>value_slice := v\<rparr>) = reads cmp shs es rs it"
  by (simp_all add: reads_def)

lemma reads_image: "reads cmp shs es rs it \<Longrightarrow> block_image shs es rs (iter_data it)"
  by (simp add: reads_def)

lemma reads_sizes:
  assumes "reads cmp shs es rs it"
  shows "unat (iter_restarts it) = length (layout shs es)" "unat (num_restarts it) = length rs"
  using assms image_sizes [OF reads_image [OF assms]] by (simp_all add: reads_def unat_word32_of_nat)

lemma unat_offset:
  assumes "reads cmp shs es rs it" "i \<le> length es"
  shows "unat (word_of_nat (entry_offset shs es i) :: u32) = entry_offset shs es i"
  using image_offset(2) [OF reads_image [OF assms(1)] assms(2)] by (simp add: unat_word32_of_nat)

lemma offset_less_iff:
  assumes "reads cmp shs es rs it" "i \<le> length es" "j \<le> length es"
  shows "(word_of_nat (entry_offset shs es i) :: u32) < word_of_nat (entry_offset shs es j) \<longleftrightarrow> i < j"
  using unat_offset [OF assms(1,2)] unat_offset [OF assms(1,3)] image_sizes(1) [OF reads_image [OF assms(1)]] assms(2,3)
  by (simp add: word_less_nat_alt entry_offset_less_iff)

lemma GetRestartPoint_reads:
  assumes "reads cmp shs es rs it" "unat ri < length rs"
  shows "GetRestartPoint b it ri = Ok (word_of_nat (entry_offset shs es (rs ! unat ri)))"
proof -
  note S = image_sizes [OF reads_image [OF assms(1)]] and Z = reads_sizes [OF assms(1)]
  have "ri < num_restarts it" using assms(2) Z by (simp add: word_less_nat_alt)
  moreover have "unat (iter_restarts it) + unat ri * 4 + 4 \<le> length (iter_data it)" using S(2) Z assms(2) by simp
  ultimately show ?thesis
    using image_restart [OF reads_image [OF assms(1)] assms(2)] Z by (simp add: GetRestartPoint_def mult.commute Let_def)
qed

lemma advance_restart_reads:
  assumes "reads cmp shs es rs it" "i < length es" "current it = word_of_nat (entry_offset shs es i)" "in_restart rs i ri"
  shows "\<exists>ri'. advance_restart b it ri = Ok ri' \<and> in_restart rs i ri'"
  using assms
proof (induction b it ri rule: advance_restart.induct)
  case (1 b it ri)
  note Z = reads_sizes [OF "1.prems"(1)]
  show ?case
  proof (cases "ri + 1 < num_restarts it")
    case True
    have ri: "unat (ri + 1) = unat ri + 1"
      using "1.prems"(4) image_sizes [OF reads_image [OF "1.prems"(1)]] by (simp add: in_restart_def unat_word_ariths)
    then have lt: "unat (ri + 1) < length rs" using True Z by (simp add: word_less_nat_alt)
    note g = GetRestartPoint_reads [OF "1.prems"(1) lt, of b]
    have le: "rs ! unat (ri + 1) \<le> length es" by (rule image_restart_entry(1) [OF reads_image [OF "1.prems"(1)] lt])
    show ?thesis
    proof (cases "(word_of_nat (entry_offset shs es (rs ! unat (ri + 1))) :: u32) < current it")
      case less: True
      then have "rs ! unat (ri + 1) < i"
        using offset_less_iff [OF "1.prems"(1) le, of i] "1.prems"(2,3) by simp
      then have "in_restart rs i (ri + 1)" using lt by (simp add: in_restart_def)
      from "1.IH" [OF True g less "1.prems"(1-3) this]
      show ?thesis using True g less by (simp add: advance_restart.simps [of b it ri])
    next
      case False
      then show ?thesis using True g "1.prems"(4) by (simp add: advance_restart.simps [of b it ri])
    qed
  next
    case False
    then show ?thesis using "1.prems"(4) by (simp add: advance_restart.simps [of b it ri])
  qed
qed

section \<open>The operations\<close>

lemma Parse_entry:
  assumes "reads cmp shs es rs it" "before shs es rs i it" "i < length es"
  shows "\<exists>it'. ParseNextKey b it = Ok (True, it') \<and> reads cmp shs es rs it' \<and> stands shs es rs i it'"
proof -
  let ?o = "entry_offset shs es i" and ?sh = "shs ! i" and ?k = "fst (es ! i)" and ?v = "snd (es ! i)"
  note image = reads_image [OF assms(1)] and Z = reads_sizes [OF assms(1)]
  obtain p where p: "DecodeEntry (iter_data it) ?o (length (layout shs es)) =
      Some (word_of_nat ?sh, word_of_nat (length ?k - ?sh), word_of_nat (length ?v), p)"
    "read_bytes (iter_data it) p (length ?k - ?sh) = Ok (drop ?sh ?k)"
    "read_bytes (iter_data it) (p + (length ?k - ?sh)) (length ?v) = Ok ?v"
    "p + (length ?k - ?sh) + length ?v = entry_offset shs es (Suc i)"
    "?sh < 2 ^ 32" "length ?k - ?sh < 2 ^ 32" "length ?v < 2 ^ 32"
    by (rule image_entry [OF image assms(3)])
  have w: "unat (word_of_nat ?o :: u32) = ?o" using unat_offset [OF assms(1), of i] assms(3) by simp
  have B: "NextEntryOffset it = Ok (word_of_nat ?o)" "?sh \<le> length (iter_key it)" "take ?sh (iter_key it) @ drop ?sh ?k = ?k"
    "in_restart rs i (restart_index it)"
    using assms(2,3) by (simp_all add: before_def)
  have more: "\<not> length (layout shs es) \<le> ?o" using image_offset(3) [OF image, of i] assms(3) by simp
  define it1 where "it1 = it\<lparr>current := word_of_nat ?o, iter_key := ?k,
    value_slice := Some (p + (length ?k - ?sh), word_of_nat (length ?v))\<rparr>"
  have r1: "reads cmp shs es rs it1" "current it1 = word_of_nat ?o" "restart_index it1 = restart_index it"
    using assms(1) by (simp_all add: it1_def)
  obtain ri where ri: "advance_restart b it1 (restart_index it) = Ok ri" "in_restart rs i ri"
    using advance_restart_reads [OF r1(1) assms(3) r1(2) B(4)] by blast
  have small: "unat (word_of_nat ?sh :: u32) = ?sh" "unat (word_of_nat (length ?k - ?sh) :: u32) = length ?k - ?sh"
    using p(5,6) by (simp_all only: unat_word32_of_nat numeral_pow32)
  have "ParseNextKey b it = Ok (True, it1\<lparr>restart_index := ri\<rparr>)"
    unfolding ParseNextKey_def B(1) bind_result_simps Let_def
    using more B(2,3) ri(1)
    by (simp add: w Z p(1) small p(2) it1_def del: of_nat_diff)
  moreover have "NextEntryOffset (it1\<lparr>restart_index := ri\<rparr>) = Ok (word_of_nat (entry_offset shs es (Suc i)))"
    by (simp add: NextEntryOffset_def it1_def flip: p(4) of_nat_add)
  ultimately show ?thesis
    using r1 ri(2) p(3,7) assms(3) by (auto simp: stands_def it1_def)
qed

lemma Parse_end:
  assumes "reads cmp shs es rs it" "before shs es rs (length es) it"
  shows "\<exists>it'. ParseNextKey b it = Ok (False, it') \<and> reads cmp shs es rs it' \<and> stands shs es rs (length es) it'"
  using assms reads_sizes [OF assms(1)] unat_offset [OF assms(1), of "length es"] image_sizes [OF reads_image [OF assms(1)]]
  by (simp add: before_def ParseNextKey_def Let_def entry_offset_length stands_def)

lemma stands_before:
  assumes "reads cmp shs es rs it" "stands shs es rs i it" "i < length es"
  shows "before shs es rs (Suc i) it"
proof -
  have "Suc i < length es \<Longrightarrow> shs ! Suc i \<le> length (fst (es ! i)) \<and> take (shs ! Suc i) (fst (es ! i)) = take (shs ! Suc i) (fst (es ! Suc i))"
    using reads_image [OF assms(1)] unfolding block_image_def shares_def by (metis diff_Suc_1 old.nat.distinct(2))
  then show ?thesis using assms(2,3) by (auto simp: stands_def before_def in_restart_def)
qed

lemma SeekToRestartPoint_reads:
  assumes "reads cmp shs es rs it" "unat ri < length rs"
  shows "\<exists>it'. SeekToRestartPoint b ri it = Ok it' \<and> reads cmp shs es rs it' \<and> before shs es rs (rs ! unat ri) it'"
proof -
  have "reads cmp shs es rs (it\<lparr>iter_key := [], restart_index := ri\<rparr>)" using assms(1) by simp
  note g = GetRestartPoint_reads [OF this assms(2)]
  note le = image_restart_entry [OF reads_image [OF assms(1)] assms(2)]
  show ?thesis
    using assms g le unat_offset [OF assms(1) le(1)]
    by (cases "es = []") (auto simp: SeekToRestartPoint_def before_def in_restart_def NextEntryOffset_def)
qed

lemma Iter_Valid_stands:
  assumes "reads cmp shs es rs it" "stands shs es rs i it"
  shows "Iter_Valid it \<longleftrightarrow> i < length es"
  using assms offset_less_iff [OF assms(1), of i "length es"] image_sizes(1) [OF reads_image [OF assms(1)]]
  by (auto simp: Iter_Valid_def stands_def reads_def entry_offset_length)

lemma Iter_key_stands:
  assumes "reads cmp shs es rs it" "stands shs es rs i it" "i < length es"
  shows "Iter_key b it = Ok (fst (es ! i))" "Iter_value b it = Ok (snd (es ! i))"
  using Iter_Valid_stands [OF assms(1,2)] assms(2,3)
  by (auto simp: Iter_key_def Iter_value_def stands_def unat_word32_of_nat)

lemma Iter_Next_stands:
  assumes "reads cmp shs es rs it" "stands shs es rs i it" "i < length es"
  shows "\<exists>it'. Iter_Next b it = Ok it' \<and> reads cmp shs es rs it' \<and> stands shs es rs (Suc i) it'"
proof -
  note before = stands_before [OF assms]
  have "\<exists>more it'. ParseNextKey b it = Ok (more, it') \<and> reads cmp shs es rs it' \<and> stands shs es rs (Suc i) it'"
  proof (cases "Suc i < length es")
    case True
    then show ?thesis using Parse_entry [OF assms(1) before] by blast
  next
    case False
    then have "Suc i = length es" using assms(3) by simp
    then show ?thesis using Parse_end [OF assms(1)] before by metis
  qed
  then show ?thesis using Iter_Valid_stands [OF assms(1,2)] assms(3) by (auto simp: Iter_Next_def)
qed

text \<open>The loop of \<open>Prev\<close> and \<open>SeekToLast\<close>: up to the entry that ends at the bound.\<close>

lemma scan_until_reads:
  assumes "reads cmp shs es rs it" "before shs es rs i it" "i < j" "j \<le> length es" "length (layout shs es) < fuel + entry_offset shs es i"
  shows "\<exists>it'. scan_until fuel b (word_of_nat (entry_offset shs es j)) it = Ok it' \<and> reads cmp shs es rs it' \<and> stands shs es rs (j - 1) it'"
  using assms
proof (induction fuel arbitrary: i it)
  case 0
  then show ?case using image_offset(1) [OF reads_image [OF "0.prems"(1)], of i] by simp
next
  case (Suc fuel)
  obtain it1 where it1: "ParseNextKey b it = Ok (True, it1)" "reads cmp shs es rs it1" "stands shs es rs i it1"
    using Parse_entry [OF Suc.prems(1,2)] Suc.prems(3,4) by auto
  have i: "i < length es" using Suc.prems(3,4) by simp
  have off: "NextEntryOffset it1 = Ok (word_of_nat (entry_offset shs es (Suc i)))" using it1(3) i by (simp add: stands_def)
  have lt: "(word_of_nat (entry_offset shs es (Suc i)) :: u32) < word_of_nat (entry_offset shs es j) \<longleftrightarrow> Suc i < j"
    using offset_less_iff [OF it1(2), of "Suc i" j] i Suc.prems(4) by simp
  show ?case
  proof (cases "Suc i < j")
    case True
    have "entry_offset shs es i < entry_offset shs es (Suc i)"
      using entry_offset_less_iff [of shs es i "Suc i"] image_sizes(1) [OF reads_image [OF it1(2)]] i by simp
    then have "length (layout shs es) < fuel + entry_offset shs es (Suc i)" using Suc.prems(5) by simp
    from Suc.IH [OF it1(2) stands_before [OF it1(2,3) i] True Suc.prems(4) this]
    show ?thesis using True it1(1) off lt by simp
  next
    case False
    then have "i = j - 1" using Suc.prems(3) by simp
    then show ?thesis using False it1 off lt by simp
  qed
qed

lemma Iter_SeekToFirst_reads:
  assumes "reads cmp shs es rs it"
  shows "\<exists>it'. Iter_SeekToFirst b it = Ok it' \<and> reads cmp shs es rs it' \<and> stands shs es rs 0 it'"
proof -
  note image = reads_image [OF assms]
  have "unat (0 :: u32) < length rs" using image_sizes(5) [OF image] by simp
  from SeekToRestartPoint_reads [OF assms this]
  obtain it1 where it1: "SeekToRestartPoint b 0 it = Ok it1" "reads cmp shs es rs it1" "before shs es rs 0 it1"
    by (auto simp: image_first [OF image])
  show ?thesis
    using Parse_entry [OF it1(2,3), of b] Parse_end [OF it1(2), of b] it1 by (cases "es = []") (auto simp: Iter_SeekToFirst_def)
qed

lemma Iter_SeekToLast_reads:
  assumes "reads cmp shs es rs it"
  shows "\<exists>it'. Iter_SeekToLast b it = Ok it' \<and> reads cmp shs es rs it' \<and> stands shs es rs (length es - 1) it'"
proof -
  note image = reads_image [OF assms] and Z = reads_sizes [OF assms]
  note S = image_sizes [OF image]
  have "num_restarts it \<noteq> 0" using Z(2) S(5) by auto
  then have ri: "unat (num_restarts it - 1) < length rs" using Z(2) S(5) by (simp add: unat_pred)
  obtain it1 where it1: "SeekToRestartPoint b (num_restarts it - 1) it = Ok it1" "reads cmp shs es rs it1"
    "before shs es rs (rs ! unat (num_restarts it - 1)) it1"
    using SeekToRestartPoint_reads [OF assms ri] by blast
  have fuel: "length (layout shs es) < Suc (unat (iter_restarts it)) + entry_offset shs es (rs ! unat (num_restarts it - 1))"
    using Z(1) by simp
  show ?thesis
  proof (cases "es = []")
    case True
    then have "before shs es rs (length es) it1" using it1(3) image_restart_entry(1) [OF image ri] by simp
    then show ?thesis using Parse_end [OF it1(2), of b] it1(1) True by (auto simp: Iter_SeekToLast_def)
  next
    case False
    have e: "iter_restarts it = word_of_nat (entry_offset shs es (length es))"
      using assms S(1) by (simp add: reads_def entry_offset_length)
    have "\<exists>it'. scan_until (Suc (unat (iter_restarts it))) b (word_of_nat (entry_offset shs es (length es))) it1 = Ok it' \<and>
        reads cmp shs es rs it' \<and> stands shs es rs (length es - 1) it'"
      using image_restart_entry(2) [OF image ri False] by (intro scan_until_reads [OF it1(2,3) _ _ fuel]) simp_all
    then show ?thesis by (simp add: Iter_SeekToLast_def it1(1) e [symmetric] del: scan_until.simps)
  qed
qed

lemma prev_restart_reads:
  assumes "reads cmp shs es rs it" "i < length es" "in_restart rs i ri"
  shows "\<exists>found. prev_restart b it (word_of_nat (entry_offset shs es i)) ri = Ok found \<and>
    (case found of None \<Rightarrow> i = 0 | Some ri' \<Rightarrow> unat ri' < length rs \<and> rs ! unat ri' < i)"
  using assms
proof (induction "unat ri" arbitrary: ri)
  case 0
  then have ri: "ri = 0" "unat ri < length rs" by (simp_all add: in_restart_def unat_eq_0)
  have "(0 :: u32) < word_of_nat (entry_offset shs es i) \<longleftrightarrow> 0 < i"
    using offset_less_iff [OF "0.prems"(1), of 0 i] "0.prems"(2) by simp
  then have "prev_restart b it (word_of_nat (entry_offset shs es i)) ri = Ok (if i = 0 then None else Some 0)"
    using GetRestartPoint_reads [OF "0.prems"(1) ri(2), of b] image_first [OF reads_image [OF "0.prems"(1)]] ri(1)
    by (subst prev_restart.simps) (simp add: not_less [symmetric])
  then show ?case using ri image_first [OF reads_image [OF "0.prems"(1)]] by (simp split: option.split)
next
  case (Suc k)
  have ri: "unat ri < length rs" "rs ! unat ri \<le> i" "ri \<noteq> 0" using Suc by (auto simp: in_restart_def)
  then have pred: "unat (ri - 1) = k" using Suc.hyps(2) by (simp add: unat_pred)
  have lt: "(word_of_nat (entry_offset shs es (rs ! unat ri)) :: u32) < word_of_nat (entry_offset shs es i) \<longleftrightarrow> rs ! unat ri < i"
    using offset_less_iff [OF Suc.prems(1), of "rs ! unat ri" i] ri(2) Suc.prems(2) by simp
  have "sorted_wrt (<) rs" using reads_image [OF Suc.prems(1)] by (simp add: block_image_def restart_entries_def)
  then have "rs ! k < rs ! unat ri" using ri(1) Suc.hyps(2) sorted_wrt_nth_less [of "(<)" rs k "unat ri"] by simp
  then have "in_restart rs i (ri - 1)" using ri Suc.hyps(2) pred by (simp add: in_restart_def)
  from Suc.hyps(1) [OF pred [symmetric] Suc.prems(1,2) this]
  show ?case
    using GetRestartPoint_reads [OF Suc.prems(1) ri(1), of b] lt ri
    by (cases "rs ! unat ri < i") (simp_all add: prev_restart.simps [of b it _ ri] not_less [symmetric])
qed

lemma Iter_Prev_stands:
  assumes "reads cmp shs es rs it" "stands shs es rs i it" "i < length es"
  shows "\<exists>it'. Iter_Prev b it = Ok it' \<and> reads cmp shs es rs it' \<and> stands shs es rs (if i = 0 then length es else i - 1) it'"
proof -
  have valid: "Iter_Valid it" using Iter_Valid_stands [OF assms(1,2)] assms(3) by simp
  have c: "current it = word_of_nat (entry_offset shs es i)" "in_restart rs i (restart_index it)"
    using assms(2,3) by (simp_all add: stands_def)
  obtain found where found: "prev_restart b it (current it) (restart_index it) = Ok found"
    "case found of None \<Rightarrow> i = 0 | Some ri' \<Rightarrow> unat ri' < length rs \<and> rs ! unat ri' < i"
    using prev_restart_reads [OF assms(1,3) c(2), of b] c(1) by auto
  show ?thesis
  proof (cases found)
    case None
    then show ?thesis
      using found assms valid by (auto simp: Iter_Prev_def stands_def)
  next
    case (Some ri)
    then have ri: "unat ri < length rs" "rs ! unat ri < i" using found(2) by simp_all
    obtain it1 where it1: "SeekToRestartPoint b ri it = Ok it1" "reads cmp shs es rs it1" "before shs es rs (rs ! unat ri) it1"
      using SeekToRestartPoint_reads [OF assms(1) ri(1)] by blast
    have "length (layout shs es) < Suc (unat (iter_restarts it)) + entry_offset shs es (rs ! unat ri)"
      using reads_sizes(1) [OF assms(1)] by simp
    from scan_until_reads [OF it1(2,3) ri(2) less_imp_le [OF assms(3)] this]
    show ?thesis using found(1) valid it1(1) Some ri(2) c(1) by (simp add: Iter_Prev_def del: scan_until.simps)
  qed
qed

section \<open>Seek\<close>

lemma seek_linear_reads:
  assumes "reads cmp shs es rs it" "before shs es rs i it" "\<And>j. j < i \<Longrightarrow> cmp (fst (es ! j)) target < 0"
    "length (layout shs es) < fuel + entry_offset shs es i"
  shows "\<exists>it'. seek_linear fuel b target it = Ok it' \<and> reads cmp shs es rs it' \<and>
    stands shs es rs (seek_position cmp target es) it'"
  using assms
proof (induction fuel arbitrary: i it)
  case 0
  then have "i \<le> length es" by (simp add: before_def)
  then show ?case using image_offset(1) [OF reads_image [OF "0.prems"(1)], of i] "0.prems"(4) by simp
next
  case (Suc fuel)
  have le: "i \<le> length es" using Suc.prems(2) by (simp add: before_def)
  show ?case
  proof (cases "i < length es")
    case False
    then have i: "i = length es" using le by simp
    then have "seek_position cmp target es = length es" using Suc.prems(3) by (intro seek_position_eq) auto
    then show ?thesis using Parse_end [OF Suc.prems(1), of b] Suc.prems(2) i by auto
  next
    case True
    obtain it1 where it1: "ParseNextKey b it = Ok (True, it1)" "reads cmp shs es rs it1" "stands shs es rs i it1"
      using Parse_entry [OF Suc.prems(1,2) True] by blast
    have k: "iter_key it1 = fst (es ! i)" "iter_comparator it1 = cmp" using it1(2,3) True by (simp_all add: stands_def reads_def)
    show ?thesis
    proof (cases "cmp (fst (es ! i)) target < 0")
      case below: True
      have all: "cmp (fst (es ! j)) target < 0" if "j < Suc i" for j using that below Suc.prems(3) by (auto simp: less_Suc_eq)
      have "entry_offset shs es i < entry_offset shs es (Suc i)"
        using entry_offset_less_iff [of shs es i "Suc i"] image_sizes(1) [OF reads_image [OF it1(2)]] True by simp
      then have "length (layout shs es) < fuel + entry_offset shs es (Suc i)" using Suc.prems(4) by simp
      from Suc.IH [OF it1(2) stands_before [OF it1(2,3) True] all this]
      show ?thesis using it1(1) k below by simp
    next
      case False
      then have "seek_position cmp target es = i" using Suc.prems(3) le by (intro seek_position_eq)
      then show ?thesis using it1 k False by simp
    qed
  qed
qed

lemma seek_left_reads:
  assumes "reads cmp shs es rs it" "unat right < length rs" "unat left \<le> unat right" "unat right - unat left < fuel"
    "left = 0 \<or> cmp (fst (es ! (rs ! unat left))) target < 0"
  shows "\<exists>l. seek_left fuel b it target left right = Ok (Some l) \<and> unat l < length rs \<and>
    (l = 0 \<or> cmp (fst (es ! (rs ! unat l))) target < 0)"
  using assms
proof (induction fuel arbitrary: left right)
  case (Suc fuel)
  note image = reads_image [OF Suc.prems(1)] and Z = reads_sizes [OF Suc.prems(1)]
  note S = image_sizes [OF image]
  show ?case
  proof (cases "left < right")
    case True
    define mid where "mid = (left + right + 1) div 2"
    have lr: "unat left < unat right" using True by (simp add: word_less_nat_alt)
    have "unat (left + right + 1) = unat left + unat right + 1"
      using S(2,3) Suc.prems(2,3) by (simp add: unat_word_ariths)
    then have "unat mid = (unat left + unat right + 1) div 2" by (simp add: mid_def unat_div)
    then have mid: "unat left < unat mid" "unat mid \<le> unat right" using lr by linarith+
    then have ml: "unat mid < length rs" using Suc.prems(2) by simp
    have "sorted_wrt (<) rs" using image by (simp add: block_image_def restart_entries_def)
    then have "0 < rs ! unat mid"
      using mid(1) ml image_first [OF image] sorted_wrt_nth_less [of "(<)" rs 0 "unat mid"] by simp
    then have "es \<noteq> []" using image_restart_entry(1) [OF image ml] by auto
    then have r: "rs ! unat mid < length es" "shs ! (rs ! unat mid) = 0" using image_restart_entry(2) [OF image ml] by auto
    let ?e = "es ! (rs ! unat mid)"
    obtain p where p: "DecodeEntry (iter_data it) (entry_offset shs es (rs ! unat mid)) (length (layout shs es)) =
        Some (0, word_of_nat (length (fst ?e)), word_of_nat (length (snd ?e)), p)"
      "read_bytes (iter_data it) p (length (fst ?e)) = Ok (fst ?e)" "length (fst ?e) < 2 ^ 32"
      by (rule image_entry [OF image r(1)]) (simp add: r(2))
    have u: "unat (word_of_nat (length (fst ?e)) :: u32) = length (fst ?e)" using p(3) by (simp add: unat_word32_of_nat)
    have c: "iter_comparator it = cmp" using Suc.prems(1) by (simp add: reads_def)
    have w: "unat (word_of_nat (entry_offset shs es (rs ! unat mid)) :: u32) = entry_offset shs es (rs ! unat mid)"
      using unat_offset [OF Suc.prems(1)] r(1) by simp
    have step: "seek_left (Suc fuel) b it target left right =
        (if cmp (fst ?e) target < 0 then seek_left fuel b it target mid right else seek_left fuel b it target left (mid - 1))"
      using True GetRestartPoint_reads [OF Suc.prems(1) ml, of b] p
      by (simp add: mid_def [symmetric] Let_def w Z u c)
    show ?thesis
    proof (cases "cmp (fst ?e) target < 0")
      case below: True
      have "\<exists>l. seek_left fuel b it target mid right = Ok (Some l) \<and> unat l < length rs \<and>
          (l = 0 \<or> cmp (fst (es ! (rs ! unat l))) target < 0)"
        using Suc.prems(4) mid below by (intro Suc.IH [OF Suc.prems(1,2)]) auto
      then show ?thesis unfolding step using below by simp
    next
      case False
      have "mid \<noteq> 0" using mid(1) by auto
      then have m1: "unat (mid - 1) = unat mid - 1" by (rule unat_pred)
      have "\<exists>l. seek_left fuel b it target left (mid - 1) = Ok (Some l) \<and> unat l < length rs \<and>
          (l = 0 \<or> cmp (fst (es ! (rs ! unat l))) target < 0)"
        using Suc.prems(4,5) mid ml m1 by (intro Suc.IH [OF Suc.prems(1)]) auto
      then show ?thesis unfolding step using False by simp
    qed
  next
    case False
    then show ?thesis using Suc.prems by simp
  qed
qed simp

lemma Iter_Seek_reads:
  assumes "key_order cmp key_ok" "ascending cmp key_ok es" "reads cmp shs es rs it" "key_ok target"
  shows "\<exists>it'. Iter_Seek b target it = Ok it' \<and> reads cmp shs es rs it' \<and> stands shs es rs (seek_position cmp target es) it'"
proof -
  note image = reads_image [OF assms(3)] and Z = reads_sizes [OF assms(3)]
  have num: "num_restarts it \<noteq> 0" using Z(2) image_sizes(5) [OF image] by auto
  obtain l where l: "seek_left (Suc (unat (num_restarts it))) b it target 0 (num_restarts it - 1) = Ok (Some l)"
    "unat l < length rs" "l = 0 \<or> cmp (fst (es ! (rs ! unat l))) target < 0"
    using seek_left_reads [OF assms(3), of "num_restarts it - 1" 0 "Suc (unat (num_restarts it))" target b] Z(2) image_sizes(5) [OF image]
    by (auto simp: unat_pred [OF num])
  obtain it1 where it1: "SeekToRestartPoint b l it = Ok it1" "reads cmp shs es rs it1" "before shs es rs (rs ! unat l) it1"
    using SeekToRestartPoint_reads [OF assms(3) l(2)] by blast
  have below: "cmp (fst (es ! j)) target < 0" if j: "j < rs ! unat l" for j
  proof -
    have "l \<noteq> 0" using j image_first [OF image] by auto
    then have "cmp (fst (es ! (rs ! unat l))) target < 0" using l(3) by simp
    moreover have "rs ! unat l < length es"
      using image_restart_entry [OF image l(2)] j by (cases "es = []") auto
    ultimately show ?thesis
      using key_order.below_target [OF assms(1,2,4) j] j by simp
  qed
  have "length (layout shs es) < Suc (unat (iter_restarts it)) + entry_offset shs es (rs ! unat l)" using Z(1) by simp
  from seek_linear_reads [OF it1(2,3) below this]
  show ?thesis using l(1) it1(1) by (simp add: Iter_Seek_def del: seek_left.simps seek_linear.simps)
qed

lemma NewIterator_image:
  assumes "block_image shs es rs data"
  shows "\<exists>it. NewIterator b cmp (Block data) = Ok (Iter it) \<and> reads cmp shs es rs it \<and> stands shs es rs (length es) it"
proof -
  note S = image_sizes [OF assms]
  have n: "NumRestarts data (length data) = word_of_nat (length rs)" by (rule image_NumRestarts [OF assms])
  have u: "unat (word_of_nat (length rs) :: u32) = length rs" using S(2,3) by (simp add: unat_word32_of_nat)
  have "unat (1 + word_of_nat (length rs) :: u32) = Suc (length rs)"
    using S(2,3) unat_word32_of_nat [of "Suc (length rs)"] by simp
  then have b: "Block data = \<lparr>block_data = data, block_size = length data, restart_offset = word_of_nat (length (layout shs es))\<rparr>"
  proof -
    assume one: "unat (1 + word_of_nat (length rs) :: u32) = Suc (length rs)"
    have "length rs \<le> (length data - 4) div 4" "\<not> length data < 4" "length data - Suc (length rs) * 4 = length (layout shs es)"
      using S(2) by simp_all
    then show ?thesis by (simp only: Block_def n u one Let_def not_less [symmetric] if_False not_le if_True simp_thms)
  qed
  have "(0 :: u32) < word_of_nat (length rs)" using u S(5) by (simp add: word_less_nat_alt)
  then have "word_of_nat (length rs) \<noteq> (0 :: u32)" "c_assert b ((0 :: u32) < word_of_nat (length rs)) = Ok ()" by auto
  moreover have "\<not> length data < 4" using S(2) by simp
  ultimately show ?thesis
    using assms by (simp only: NewIterator_def b block.simps n Let_def Block_Iter_def if_False bind_result_simps) (auto simp: reads_def stands_def)
qed

section \<open>The contract of iterators\<close>

definition block_on :: "(bytes \<Rightarrow> bytes \<Rightarrow> int) \<Rightarrow> (bytes \<Rightarrow> bool) \<Rightarrow> (bytes \<times> bytes) list \<Rightarrow> nat \<Rightarrow> block_iterator \<Rightarrow> bool" where
  "block_on cmp key_ok es p bi \<longleftrightarrow> ascending cmp key_ok es \<and>
     (\<exists>it shs rs. bi = Iter it \<and> reads cmp shs es rs it \<and> stands shs es rs p it)"

lemma block_onE:
  assumes "block_on cmp key_ok es p bi"
  obtains it shs rs where "bi = Iter it" "reads cmp shs es rs it" "stands shs es rs p it" "ascending cmp key_ok es"
  using assms by (auto simp: block_on_def)

lemma on_iter_block:
  assumes "reads cmp shs es rs it" "ascending cmp key_ok es" "\<exists>it'. g it = Ok it' \<and> reads cmp shs es rs it' \<and> stands shs es rs q it'"
  shows "\<exists>bi'. on_iter f g (Iter it) = Ok bi' \<and> block_on cmp key_ok es q bi'"
proof -
  obtain it' where "g it = Ok it'" "reads cmp shs es rs it'" "stands shs es rs q it'" using assms(3) by blast
  then show ?thesis using assms(2) unfolding block_on_def by (intro exI [of _ "Iter it'"]) auto
qed

lemma block_contract:
  assumes "key_order cmp key_ok"
  shows "sorted_iterator cmp key_ok (block_ops b) (block_on cmp key_ok)"
proof (rule sorted_iterator.intro [OF assms], unfold_locales, goal_cases)
  case (1 es p bi)
  then show ?case by (auto simp: block_on_def stands_def)
next
  case (2 es p bi)
  then show ?case by (auto elim!: block_onE simp: block_ops_def Iter_Valid_stands)
next
  case (3 es p bi)
  then show ?case by (auto elim!: block_onE simp: block_ops_def Iter_key_stands)
next
  case (4 es p bi)
  then show ?case by (auto elim!: block_onE simp: block_ops_def Iter_key_stands)
next
  case (5 es p bi)
  then show ?case by (auto elim!: block_onE simp: block_ops_def reads_def)
next
  case (6 es p bi)
  obtain it shs rs where it: "bi = Iter it" "reads cmp shs es rs it" "stands shs es rs p it" "ascending cmp key_ok es"
    by (rule block_onE [OF 6(1)])
  from on_iter_block [where g = "Iter_Next b", OF it(2,4) Iter_Next_stands [OF it(2,3) 6(2)]] show ?case by (simp add: block_ops_def it(1))
next
  case (7 es p bi)
  obtain it shs rs where it: "bi = Iter it" "reads cmp shs es rs it" "stands shs es rs p it" "ascending cmp key_ok es"
    by (rule block_onE [OF 7(1)])
  from on_iter_block [where g = "Iter_Prev b", OF it(2,4) Iter_Prev_stands [OF it(2,3) 7(2)]] show ?case by (simp add: block_ops_def it(1))
next
  case (8 es p bi target)
  obtain it shs rs where it: "bi = Iter it" "reads cmp shs es rs it" "stands shs es rs p it" "ascending cmp key_ok es"
    by (rule block_onE [OF 8(1)])
  from on_iter_block [where g = "Iter_Seek b target", OF it(2,4) Iter_Seek_reads [OF assms it(4,2) 8(2)]] show ?case by (simp add: block_ops_def it(1))
next
  case (9 es p bi)
  obtain it shs rs where it: "bi = Iter it" "reads cmp shs es rs it" "stands shs es rs p it" "ascending cmp key_ok es"
    by (rule block_onE [OF 9])
  from on_iter_block [where g = "Iter_SeekToFirst b", OF it(2,4) Iter_SeekToFirst_reads [OF it(2)]] show ?case by (simp add: block_ops_def it(1))
next
  case (10 es p bi)
  obtain it shs rs where it: "bi = Iter it" "reads cmp shs es rs it" "stands shs es rs p it" "ascending cmp key_ok es"
    by (rule block_onE [OF 10])
  from on_iter_block [where g = "Iter_SeekToLast b", OF it(2,4) Iter_SeekToLast_reads [OF it(2)]] show ?case by (simp add: block_ops_def it(1))
qed

interpretation bytewise_block: sorted_iterator Slice_compare "\<lambda>_. True" "block_ops b" "block_on Slice_compare (\<lambda>_. True)" for b
  by (rule block_contract) (rule bytewise.key_order_axioms)

text \<open>A block that was built is read by an iterator that keeps the contract; it begins behind the last entry.\<close>

lemma block_iterator_new:
  assumes "1 \<le> block_restart_interval opts" "key_order (opt_comparator opts) key_ok" "ascending (opt_comparator opts) key_ok es"
    "build_block Release opts es = Ok data" "length data < 2 ^ 32"
  shows "(\<forall>b. build_block b opts es = Ok data) \<and>
    (\<exists>bi. NewIterator b (opt_comparator opts) (Block data) = Ok bi \<and> block_on (opt_comparator opts) key_ok es (length es) bi)"
proof -
  have "sorted_wrt (\<lambda>a c. 0 < opt_comparator opts c a) (map fst es)"
  proof (rule sorted_wrt_mono_rel)
    show "sorted_wrt (\<lambda>a b. opt_comparator opts a b < 0) (map fst es)" using assms(3) by (simp add: ascending_def)
    show "0 < opt_comparator opts y x" if "x \<in> set (map fst es)" "y \<in> set (map fst es)" "opt_comparator opts x y < 0" for x y
      using that assms(3) key_order.cmp_flip [OF assms(2), of y x] by (auto simp: ascending_def)
  qed
  from build_block_image [OF assms(1) this assms(4,5)]
  obtain shs rs where b: "\<forall>b. build_block b opts es = Ok data" "block_image shs es rs data" by blast
  obtain it where "NewIterator b (opt_comparator opts) (Block data) = Ok (Iter it)" "reads (opt_comparator opts) shs es rs it"
    "stands shs es rs (length es) it"
    using NewIterator_image [OF b(2)] by blast
  then show ?thesis using b(1) assms(3) by (auto simp: block_on_def)
qed

text \<open>What a client reads from the block, for any order of the keys.\<close>

definition open_block :: "build \<Rightarrow> 'z options_scheme \<Rightarrow> bytes \<Rightarrow> (block_iterator \<Rightarrow> block_iterator result) \<Rightarrow> block_iterator result" where
  "open_block b opts data position = bind_result (NewIterator b (opt_comparator opts) (Block data)) position"

lemma block_read:
  assumes "1 \<le> block_restart_interval opts" "key_order (opt_comparator opts) key_ok" "ascending (opt_comparator opts) key_ok es"
    "build_block Release opts es = Ok data" "length data < 2 ^ 32" "length es < fuel"
  shows "bind_result (open_block b opts data (op_SeekToFirst (block_ops b))) (read_forward fuel (block_ops b)) = Ok es"
    "es \<noteq> [] \<Longrightarrow> bind_result (open_block b opts data (op_SeekToLast (block_ops b))) (read_backward fuel (block_ops b)) = Ok (rev es)"
    "key_ok target \<Longrightarrow> bind_result (open_block b opts data (op_Seek (block_ops b) target)) (read_forward fuel (block_ops b)) =
       Ok (dropWhile (\<lambda>e. opt_comparator opts (fst e) target < 0) es)"
proof -
  note contract = block_contract [OF assms(2)]
  obtain bi where bi: "NewIterator b (opt_comparator opts) (Block data) = Ok bi" "block_on (opt_comparator opts) key_ok es (length es) bi"
    using block_iterator_new [OF assms(1-5), of b] by blast
  obtain b1 where b1: "op_SeekToFirst (block_ops b) bi = Ok b1" "block_on (opt_comparator opts) key_ok es 0 b1"
    using sorted_iterator.on_SeekToFirst [OF contract bi(2)] by blast
  show "bind_result (open_block b opts data (op_SeekToFirst (block_ops b))) (read_forward fuel (block_ops b)) = Ok es"
    using sorted_iterator.read_forward_on [OF contract b1(2), of fuel b] assms(6) by (simp add: open_block_def bi(1) b1(1))
  show "bind_result (open_block b opts data (op_SeekToLast (block_ops b))) (read_backward fuel (block_ops b)) = Ok (rev es)" if "es \<noteq> []"
  proof -
    obtain b2 where b2: "op_SeekToLast (block_ops b) bi = Ok b2" "block_on (opt_comparator opts) key_ok es (length es - 1) b2"
      using sorted_iterator.on_SeekToLast [OF contract bi(2)] by blast
    show ?thesis
      using sorted_iterator.read_backward_on [OF contract b2(2), of fuel b] assms(6) that by (simp add: open_block_def bi(1) b2(1))
  qed
  show "bind_result (open_block b opts data (op_Seek (block_ops b) target)) (read_forward fuel (block_ops b)) =
       Ok (dropWhile (\<lambda>e. opt_comparator opts (fst e) target < 0) es)" if target: "key_ok target"
  proof -
    obtain b3 where b3: "op_Seek (block_ops b) target bi = Ok b3"
      "block_on (opt_comparator opts) key_ok es (seek_position (opt_comparator opts) target es) b3"
      using sorted_iterator.on_Seek [OF contract bi(2) target] by blast
    show ?thesis
      using sorted_iterator.read_forward_on [OF contract b3(2), of fuel b] assms(6)
      by (simp add: open_block_def bi(1) b3(1) seek_position_def dropWhile_eq_drop)
  qed
qed

text \<open>
  C25: a block gives back what was put into it. When a block builder takes entries in ascending order (of any comparator
  that is an order) and the bytes stay below 4 GB, an iterator over the finished bytes reads exactly these entries: all of
  them forward from \<open>SeekToFirst\<close>, all of them in reverse back from \<open>SeekToLast\<close>, and from \<open>Seek\<close> those not below the target;
  whatever the number of entries between restart points, with prefix compression, and in both builds.
\<close>

theorem block_roundtrip:
  assumes "1 \<le> block_restart_interval opts" "key_order (opt_comparator opts) key_ok" "ascending (opt_comparator opts) key_ok es" "es \<noteq> []"
    "build_block Release opts es = Ok data" "length data < 2 ^ 32" "key_ok target"
  shows "bind_result (open_block b opts data (op_SeekToFirst (block_ops b))) (read_forward (Suc (length es)) (block_ops b)) = Ok es \<and>
    bind_result (open_block b opts data (op_SeekToLast (block_ops b))) (read_backward (Suc (length es)) (block_ops b)) = Ok (rev es) \<and>
    bind_result (open_block b opts data (op_Seek (block_ops b) target)) (read_forward (Suc (length es)) (block_ops b)) =
      Ok (dropWhile (\<lambda>e. opt_comparator opts (fst e) target < 0) es)"
  using block_read [OF assms(1-3,5,6) lessI] assms(4,7) by blast

lemma small_block:
  "build_block Release \<lparr>block_restart_interval = 2, opt_comparator = Slice_compare\<rparr>
     [([97], [1, 2]), ([97, 98], [3]), ([97, 98, 99], []), ([98], [5])] =
   Ok [0, 1, 2, 97, 1, 2, 1, 1, 1, 98, 3, 0, 3, 0, 97, 98, 99, 0, 1, 1, 98, 5, 0, 0, 0, 0, 11, 0, 0, 0, 2, 0, 0, 0]"
  by code_simp

theorem block_roundtrip_witness:
  "bind_result (open_block Release \<lparr>block_restart_interval = 2, opt_comparator = Slice_compare\<rparr>
      [0, 1, 2, 97, 1, 2, 1, 1, 1, 98, 3, 0, 3, 0, 97, 98, 99, 0, 1, 1, 98, 5, 0, 0, 0, 0, 11, 0, 0, 0, 2, 0, 0, 0]
      (op_Seek (block_ops Release) [97, 98])) (read_forward 5 (block_ops Release)) =
    Ok [([97, 98], [3]), ([97, 98, 99], []), ([98], [5])]"
proof -
  have "bind_result (open_block Release \<lparr>block_restart_interval = 2, opt_comparator = Slice_compare\<rparr>
      [0, 1, 2, 97, 1, 2, 1, 1, 1, 98, 3, 0, 3, 0, 97, 98, 99, 0, 1, 1, 98, 5, 0, 0, 0, 0, 11, 0, 0, 0, 2, 0, 0, 0]
      (op_Seek (block_ops Release) [97, 98]))
      (read_forward (Suc (length [([97 :: u8], [1, 2 :: u8]), ([97, 98], [3]), ([97, 98, 99], []), ([98], [5])])) (block_ops Release)) =
    Ok (dropWhile (\<lambda>e. Slice_compare (fst e) [97, 98] < 0) [([97], [1, 2]), ([97, 98], [3]), ([97, 98, 99], []), ([98], [5])])"
    using block_roundtrip [where key_ok = "\<lambda>_. True" and target = "[97, 98]" and b = Release, OF _ _ _ _ small_block]
      bytewise.key_order_axioms by (simp add: ascending_def del: read_forward.simps)
  then show ?thesis by (simp add: numeral_eq_Suc del: read_forward.simps)
qed

end
