(* ===== verification/TableIteration.thy ===== *)
theory TableIteration
  imports TwoLevel BlockIteration InternalKeys
begin

text \<open>
  Iterators over the blocks of tables: the iterator of a block keeps the contract for internal keys too, and with it the
  two-level iterator whose index is a block and whose data are blocks, for both orders of keys.
\<close>

interpretation internal_block: sorted_iterator InternalKey_Compare internal_key_ok "block_ops b" "block_on InternalKey_Compare internal_key_ok" for b
  by (rule block_contract) (rule internal_keys.key_order_axioms)

interpretation bytewise_tables: two_level_tables Slice_compare "\<lambda>_. True"
    "block_ops b" "block_on Slice_compare (\<lambda>_. True)" "block_ops b" "block_on Slice_compare (\<lambda>_. True)" for b
  by (intro two_level_tables.intro bytewise_block.sorted_iterator_axioms)

interpretation internal_tables: two_level_tables InternalKey_Compare internal_key_ok
    "block_ops b" "block_on InternalKey_Compare internal_key_ok" "block_ops b" "block_on InternalKey_Compare internal_key_ok" for b
  by (intro two_level_tables.intro internal_block.sorted_iterator_axioms)

end
