(* ===== verification/TableReading.thy ===== *)
theory TableReading
  imports TableContents TableIteration
begin

text \<open>
  Reading a table file that was written: opening it, iterating over it and looking a key up give back its entries, whatever
  the blocks, the compression, the filters and the checks that are asked for.
\<close>

lemma NewIterator_on:
  assumes "block_image shs es rs raw" "ascending cmp key_ok es"
  shows "\<exists>bi. NewIterator b cmp (Block raw) = Ok bi \<and> block_on cmp key_ok es (length es) bi"
proof -
  obtain it where "NewIterator b cmp (Block raw) = Ok (Iter it)" "reads cmp shs es rs it" "stands shs es rs (length es) it"
    using NewIterator_image [OF assms(1)] by blast
  then show ?thesis using assms(2) by (auto simp: block_on_def)
qed

lemma ascending_concat: "ascending cmp key_ok (concat xss) \<Longrightarrow> xs \<in> set xss \<Longrightarrow> ascending cmp key_ok xs"
proof (induction xss)
  case (Cons ys xss)
  then have "ascending cmp key_ok ys" "ascending cmp key_ok (concat xss)" by (auto simp: ascending_def sorted_wrt_append)
  then show ?case using Cons by auto
qed simp

lemma nth_in_second: "length xs \<le> i \<Longrightarrow> i < length (xs @ ys) \<Longrightarrow> (xs @ ys) ! i \<in> set ys"
  by (simp add: nth_append)

lemma placed_at_less: "i < j \<Longrightarrow> j \<le> length ps \<Longrightarrow> placed_at ps i < placed_at ps j"
proof (induction j)
  case (Suc j)
  then show ?case using placed_at_Suc [of j ps] by (cases "i = j") auto
qed simp

lemma placed_at_total: "j \<le> length ps \<Longrightarrow> placed_at ps j \<le> length (concat (map placed_bytes ps))"
  using placed_at_less [of j "length ps" ps] by (cases "j = length ps") (auto simp: placed_at_def)

text \<open>
  The file can be read, and what the block cache, if there is one, holds under the number of the table and the place of a block is the
  block that is read there: \<open>BlockReader\<close> is the only one to insert, and it inserts what it has read.
\<close>

locale table_reader =
  table_setting opts key_ok e per_key + readable_file rfile contents
  for opts :: table_options and key_ok :: "bytes \<Rightarrow> bool" and e :: env and per_key :: nat
    and rfile :: random_file and contents :: bytes +
  fixes cache_id :: u64
  assumes cached_blocks: "block_cache opts = Some lookup \<Longrightarrow> lookup (store64 cache_id @ store64 (bh_offset h)) = Some blk \<Longrightarrow>
    ReadBlock e rfile verify h = Ok (OK, raw) \<Longrightarrow> blk = Block raw"
begin

lemma read_placed:
  assumes "contents = concat (map placed_bytes ps) @ rest" "length contents < 2 ^ 32" "j < length ps"
    and "ps ! j = (es, ty, data)" "stored_as e raw ty data"
  shows "ReadBlock e rfile verify (placed_handle ps j) = Ok (OK, raw)"
proof -
  have "ps = take j ps @ (es, ty, data) # drop (Suc j) ps" using id_take_nth_drop [OF assms(3)] assms(4) by simp
  from arg_cong [OF this, of "\<lambda>ps. concat (map placed_bytes ps)"]
  have "concat (map placed_bytes ps) = concat (map placed_bytes (take j ps)) @ (data @ trailer_of ty data) @ concat (map placed_bytes (drop (Suc j) ps))"
    by (simp only: map_append list.map concat_append concat.simps placed_bytes_def prod.case)
  then have "contents = concat (map placed_bytes (take j ps)) @ data @ trailer_of ty data @ (concat (map placed_bytes (drop (Suc j) ps)) @ rest)"
    using assms(1) by simp
  from ReadBlock_stored [OF this, of raw e verify] show ?thesis
    using assms(2,4,5) compressor_axioms by (simp add: placed_handle_def placed_at_def stored_as_def)
qed

lemma read_entries:
  assumes "contents = concat (map placed_bytes ps) @ rest" "length contents < 2 ^ 32" "j < length ps" "holds_entries e (ps ! j)"
  shows "\<exists>raw shs rs. ReadBlock e rfile verify (placed_handle ps j) = Ok (OK, raw) \<and> block_image shs (fst (ps ! j)) rs raw"
proof -
  obtain es ty data where p: "ps ! j = (es, ty, data)" by (cases "ps ! j")
  then obtain raw shs rs where "block_image shs es rs raw" "stored_as e raw ty data" using assms(4) by (auto simp: holds_entries_def)
  then show ?thesis using read_placed [OF assms(1-3) p] p by auto
qed

definition opened :: "placed list \<Rightarrow> (bytes \<times> bytes) list \<Rightarrow> table \<Rightarrow> bool" where
  "opened bs idx t \<longleftrightarrow> t_options t = opts \<and> t_file t = rfile \<and> (block_cache opts \<noteq> None \<longrightarrow> t_cache_id t = cache_id) \<and>
     (\<exists>raw shs rs. t_index_block t = Block raw \<and> block_image shs idx rs raw) \<and>
     (case opt_policy opts of
        None \<Rightarrow> t_filter t = None
      | Some policy \<Rightarrow> \<exists>data. t_filter t = Some (FilterBlockReader policy data) \<and> stored_filters policy bs data \<and> length data < 2 ^ 32)"

lemma ReadMeta_reads:
  assumes "table_contents es bs filters meta index contents" "length contents < 2 ^ 32"
    and "metaindex_handle f = placed_handle (bs @ filters @ [meta, index]) (length (bs @ filters))"
    and t: "t_options t = opts" "t_file t = rfile" "t_filter t = None"
  shows "\<exists>fr. ReadMeta b e f t = Ok (t\<lparr>t_filter := fr\<rparr>) \<and>
    (case opt_policy opts of
       None \<Rightarrow> fr = None
     | Some policy \<Rightarrow> \<exists>data. fr = Some (FilterBlockReader policy data) \<and> stored_filters policy bs data \<and> length data < 2 ^ 32)"
proof (cases "opt_policy opts")
  case None
  have "t = t\<lparr>t_filter := None\<rparr>" using t(3) by simp
  then show ?thesis using None t(1) by (intro exI [of _ None]) (simp add: ReadMeta_def)
next
  case (Some policy)
  let ?ps = "bs @ filters @ [meta, index]"
  obtain data where d: "filters = [([], 0, data)]" "stored_filters policy bs data"
    "fst meta = [(filter_key policy, handle_code (placed_handle (bs @ filters) (length bs)))]" "holds_entries e meta"
    using assms(1) Some by (auto simp: table_contents_def meta_ok_def)
  have fh: "placed_handle (bs @ filters) (length bs) = placed_handle ?ps (length bs)"
    using placed_handle_append [of "length bs" "bs @ filters" "[meta, index]"] d(1) by simp
  obtain rest where contents: "contents = concat (map placed_bytes ?ps) @ rest" using assms(1) by (auto simp: table_contents_def Let_def)
  have at: "?ps ! length (bs @ filters) = meta" "?ps ! length bs = ([], 0, data)" using d(1) by (simp_all add: nth_append)
  obtain raw shs rs where raw: "ReadBlock e rfile (paranoid_checks opts) (placed_handle ?ps (length (bs @ filters))) = Ok (OK, raw)"
    "block_image shs (fst meta) rs raw"
    using read_entries [OF contents assms(2), of "length (bs @ filters)" "paranoid_checks opts"] at(1) d(4) by auto
  have fdata: "ReadBlock e rfile (paranoid_checks opts) (placed_handle ?ps (length bs)) = Ok (OK, data)"
    using read_placed [OF contents assms(2) _ at(2), of data] by (simp add: stored_as_def)
  have "length data \<le> length contents" using contents d(1) by (simp add: placed_bytes_def)
  then have small: "length data < 2 ^ 32" using assms(2) by simp
  have "ascending Slice_compare (\<lambda>_. True) (fst meta)" by (simp add: d(3) ascending_def)
  from NewIterator_on [OF raw(2) this] obtain bi where bi: "NewIterator b Slice_compare (Block raw) = Ok bi"
    "block_on Slice_compare (\<lambda>_. True) (fst meta) (length (fst meta)) bi" by blast
  obtain bi' where seek: "op_Seek (block_ops b) (filter_key policy) bi = Ok bi'"
    "block_on Slice_compare (\<lambda>_. True) (fst meta) (seek_position Slice_compare (filter_key policy) (fst meta)) bi'"
    using bytewise_block.on_Seek [OF bi(2)] by blast
  have "seek_position Slice_compare (filter_key policy) (fst meta) = 0"
    using bytewise.cmp_eq [of "filter_key policy" "filter_key policy"] by (simp add: seek_position_def d(3))
  then have on: "block_on Slice_compare (\<lambda>_. True) (fst meta) 0 bi'" using seek(2) by simp
  have it: "op_Valid (block_ops b) bi'" "op_key (block_ops b) bi' = Ok (filter_key policy)"
    "op_value (block_ops b) bi' = Ok (handle_code (placed_handle ?ps (length bs)))"
    using bytewise_block.on_Valid [OF on] bytewise_block.on_key [OF on] bytewise_block.on_value [OF on] d(3) fh by simp_all
  have "ReadFilter e policy (handle_code (placed_handle ?ps (length bs))) t = Ok (t\<lparr>t_filter := Some (FilterBlockReader policy data)\<rparr>)"
    using DecodeFrom_code [of "placed_handle ?ps (length bs)" "[]" BlockHandle] fdata t by (simp add: ReadFilter_def)
  then have "ReadMeta b e f t = Ok (t\<lparr>t_filter := Some (FilterBlockReader policy data)\<rparr>)"
    using Some t raw(1) bi(1) seek(1) it by (simp add: ReadMeta_def assms(3) Let_def)
  then show ?thesis using Some d(2) small by auto
qed

lemma Open_reads:
  assumes "table_contents es bs filters meta index contents" "length contents < 2 ^ 32"
  shows "\<exists>t. Table_Open b e opts rfile (word_of_nat (length contents)) cache_id = Ok (OK, Some t) \<and> opened bs (fst index) t"
proof -
  let ?ps = "bs @ filters @ [meta, index]"
  let ?footer = "\<lparr>metaindex_handle = placed_handle ?ps (length ?ps - 2), index_handle = placed_handle ?ps (length ?ps - 1)\<rparr>"
  have contents: "contents = concat (map placed_bytes ?ps) @ footer_code ?footer" using assms(1) by (simp add: table_contents_def Let_def)
  let ?n = "length (concat (map placed_bytes ?ps))"
  have len: "length contents = ?n + 48" using contents length_footer_code [of ?footer] by simp
  have size: "unat (word_of_nat (length contents) :: u64) = length contents" using assms(2) by (intro unat_word_of_nat_small) simp
  have "(word_of_nat (length contents) - word_of_nat kEncodedLength :: u64) = word_of_nat ?n"
    unfolding len kEncodedLength_def kMaxEncodedLength_def by simp
  moreover have "unat (word_of_nat ?n :: u64) = ?n" using assms(2) len by (intro unat_word_of_nat_small) simp
  ultimately have tail: "rfile (word_of_nat (length contents) - word_of_nat kEncodedLength) kEncodedLength = (OK, footer_code ?footer)"
    using contents length_footer_code [of ?footer] by (simp add: read_contents kEncodedLength_def kMaxEncodedLength_def)
  have enough: "\<not> length contents < kEncodedLength" using len by (simp add: kEncodedLength_def kMaxEncodedLength_def)
  obtain raw shs rs where raw: "ReadBlock e rfile (paranoid_checks opts) (index_handle ?footer) = Ok (OK, raw)" "block_image shs (fst index) rs raw"
    using read_entries [OF contents assms(2), of "length ?ps - 1" "paranoid_checks opts"] assms(1) by (auto simp: table_contents_def nth_append)
  let ?t = "\<lparr>t_options = opts, t_file = rfile, t_cache_id = (if block_cache opts \<noteq> None then cache_id else 0),
    t_filter = None, t_metaindex = metaindex_handle ?footer, t_index_block = Block raw\<rparr>"
  obtain fr where meta: "ReadMeta b e ?footer ?t = Ok (?t\<lparr>t_filter := fr\<rparr>)"
    "case opt_policy opts of
       None \<Rightarrow> fr = None
     | Some policy \<Rightarrow> \<exists>data. fr = Some (FilterBlockReader policy data) \<and> stored_filters policy bs data \<and> length data < 2 ^ 32"
    using ReadMeta_reads [OF assms, of ?footer ?t b] by auto
  have "Table_Open b e opts rfile (word_of_nat (length contents)) cache_id = Ok (OK, Some (?t\<lparr>t_filter := fr\<rparr>))"
    unfolding Table_Open_def size using enough tail Footer_DecodeFrom_code [of ?footer] raw(1) meta(1) by (simp add: Let_def)
  moreover have "opened bs (fst index) (?t\<lparr>t_filter := fr\<rparr>)" using raw(2) meta(2) by (auto simp: opened_def split: option.splits)
  ultimately show ?thesis by blast
qed

text \<open>The block behind an index entry, and the table as the two-level iterator needs it.\<close>

lemma BlockReader_reads:
  assumes "table_contents es bs filters meta index contents" "length contents < 2 ^ 32"
    and "ascending (opt_comparator opts) key_ok es" "opened bs (fst index) t" "j < length bs"
  shows "\<exists>bi. BlockReader b e t verify (snd (fst index ! j)) = Ok bi \<and> block_on (opt_comparator opts) key_ok (fst (bs ! j)) (length (fst (bs ! j))) bi"
proof -
  let ?ps = "bs @ filters @ [meta, index]"
  obtain rest where contents: "contents = concat (map placed_bytes ?ps) @ rest" using assms(1) by (auto simp: table_contents_def Let_def)
  have "snd (fst index ! j) = handle_code (placed_handle bs j)" using assms(1,5) by (simp add: table_contents_def index_ok_def)
  then have code: "snd (fst index ! j) = handle_code (placed_handle ?ps j) @ []" using placed_handle_append [OF assms(5)] by simp
  have j: "j < length ?ps" "?ps ! j = bs ! j" using assms(5) by (simp_all add: nth_append)
  have "holds_entries e (bs ! j)" using assms(1,5) by (simp add: table_contents_def)
  then obtain raw shs rs where raw: "ReadBlock e rfile verify (placed_handle ?ps j) = Ok (OK, raw)" "block_image shs (fst (bs ! j)) rs raw"
    using read_entries [OF contents assms(2) j(1), of verify] j(2) by auto
  have "ascending (opt_comparator opts) key_ok (fst (bs ! j))"
  proof (rule ascending_concat)
    show "ascending (opt_comparator opts) key_ok (concat (map fst bs))" using assms(1,3) by (simp add: table_contents_def)
    show "fst (bs ! j) \<in> set (map fst bs)" using assms(5) by simp
  qed
  from NewIterator_on [OF raw(2) this] obtain bi where bi: "NewIterator b (opt_comparator opts) (Block raw) = Ok bi"
    "block_on (opt_comparator opts) key_ok (fst (bs ! j)) (length (fst (bs ! j))) bi" by blast
  have "find_block e t verify (snd (fst index ! j)) = Ok (OK, Block raw)"
  proof -
    have t: "t_file t = rfile" "t_options t = opts" "block_cache opts \<noteq> None \<longrightarrow> t_cache_id t = cache_id" using assms(4) by (simp_all add: opened_def)
    show ?thesis
    proof (cases "block_cache opts")
      case None
      then show ?thesis using raw(1) by (simp add: code [simplified] find_block_def DecodeFrom_code [of _ "[]", simplified] t Let_def)
    next
      case (Some lookup)
      then show ?thesis
        using raw(1) cached_blocks [OF Some _ raw(1)] t(3)
        by (auto simp: code [simplified] find_block_def DecodeFrom_code [of _ "[]", simplified] t(1,2) Let_def split: option.split)
    qed
  qed
  then show ?thesis using bi assms(4) by (simp add: BlockReader_def opened_def)
qed

lemma handles_distinct:
  assumes "table_contents es bs filters meta index contents" "length contents < 2 ^ 32"
  shows "distinct (map snd (fst index))"
proof -
  have idx: "length (fst index) = length bs" "\<And>j. j < length bs \<Longrightarrow> snd (fst index ! j) = handle_code (placed_handle bs j)"
    using assms(1) by (auto simp: table_contents_def index_ok_def)
  have "length (concat (map placed_bytes bs)) \<le> length contents" using assms(1) by (simp add: table_contents_def Let_def)
  then have small: "placed_at bs j < 2 ^ 64" if "j \<le> length bs" for j using placed_at_total [OF that] assms(2) by simp
  have "placed_handle bs i \<noteq> placed_handle bs j" if "i < j" "j < length bs" for i j
    using placed_at_less [OF that(1), of bs] that small [of i] small [of j] unat_word_of_nat_small [of "placed_at bs i", where ?'w = 64]
      unat_word_of_nat_small [of "placed_at bs j", where ?'w = 64]
    by (auto simp: placed_handle_def handle_at_def)
  then have "handle_code (placed_handle bs i) \<noteq> handle_code (placed_handle bs j)" if "i < length bs" "j < length bs" "i \<noteq> j" for i j
    using that handle_code_inj by (metis nat_neq_iff)
  then show ?thesis using idx by (simp add: distinct_conv_nth)
qed

lemma opened_shape:
  assumes "table_contents es bs filters meta index contents" "length contents < 2 ^ 32"
    and "ascending (opt_comparator opts) key_ok es" "opened bs (fst index) t"
  shows "table_shape (opt_comparator opts) key_ok (block_on (opt_comparator opts) key_ok) (fst index) (map fst bs)
    (\<lambda>v. bind_result (BlockReader b e t verify v) (\<lambda>it. Ok (Some it)))"
proof -
  have T: "concat (map fst bs) = es" "length (fst index) = length bs" "index_ok bs (fst index) []"
    using assms(1) by (simp_all add: table_contents_def)
  have later: "opt_comparator opts (fst (fst index ! i)) (fst x) < 0" if "i < j" "j < length bs" "x \<in> set (fst (bs ! j))" for i j x
  proof -
    have "bs ! j \<in> set (drop (Suc i) bs)" using that by (intro nth_in_drop) simp_all
    then have "x \<in> set (concat (map fst (drop (Suc i) bs)) @ [])" using that(3) by auto
    moreover have "i < length (fst index)" using that T(2) by simp
    ultimately show ?thesis using T(3) unfolding index_ok_def by blast
  qed
  have block: "\<exists>d q. bind_result (BlockReader b e t verify (snd (fst index ! j))) (\<lambda>it. Ok (Some it)) = Ok (Some d) \<and>
      block_on (opt_comparator opts) key_ok (map fst bs ! j) q d" if j: "j < length (fst index)" for j
    using BlockReader_reads [OF assms, of j b verify] j T(2) by auto
  have above: "\<not> opt_comparator opts (fst (fst index ! j)) (fst x) < 0" if "j < length (fst index)" "x \<in> set (map fst bs ! j)" for j x
    using T(2,3) that unfolding index_ok_def by simp
  show ?thesis
    unfolding table_shape_def
    using T handles_distinct [OF assms(1,2)] assms(3) block above later by (simp add: index_ok_def)
qed

lemma index_on:
  assumes "table_contents es bs filters meta index contents" "opened bs (fst index) t"
  shows "\<exists>bi. NewIterator b (opt_comparator opts) (t_index_block t) = Ok bi \<and>
    block_on (opt_comparator opts) key_ok (fst index) (length (fst index)) bi"
proof -
  obtain raw shs rs where "t_index_block t = Block raw" "block_image shs (fst index) rs raw" using assms(2) by (auto simp: opened_def)
  moreover have "ascending (opt_comparator opts) key_ok (fst index)" using assms(1) by (simp add: table_contents_def index_ok_def)
  ultimately show ?thesis using NewIterator_on by simp
qed

lemma tables: "two_level_tables (opt_comparator opts) key_ok (block_ops b) (block_on (opt_comparator opts) key_ok)
    (block_ops b) (block_on (opt_comparator opts) key_ok)"
  by (intro two_level_tables.intro block_contract key_order_axioms)

lemma NewIterator_reads:
  assumes "table_contents es bs filters meta index contents" "length contents < 2 ^ 32"
    and "ascending (opt_comparator opts) key_ok es" "opened bs (fst index) t" "Suc (length es) < fuel"
  shows "\<exists>it. Table_NewIterator b e verify t = Ok it \<and>
    tl_on fuel (opt_comparator opts) key_ok (block_on (opt_comparator opts) key_ok) (block_on (opt_comparator opts) key_ok) es (length es) it"
proof -
  have T: "concat (map fst bs) = es" "length (fst index) = length bs" "\<forall>p \<in> set bs. fst p \<noteq> []" "t_options t = opts"
    using assms(1,4) by (simp_all add: table_contents_def opened_def)
  have "length bs \<le> length (concat (map fst bs))" using T(3)
  proof (induction bs)
    case (Cons p bs)
    then show ?case by (cases "fst p") auto
  qed simp
  then have fuel: "Suc (length (fst index)) < fuel" using assms(5) T(1,2) by simp
  obtain bi where bi: "NewIterator b (opt_comparator opts) (t_index_block t) = Ok bi"
    "block_on (opt_comparator opts) key_ok (fst index) (length (fst index)) bi"
    using index_on [OF assms(1,4)] by blast
  show ?thesis
    using two_level_tables.TwoLevelIterator_on [OF tables opened_shape [OF assms(1-4)] bi(2) fuel, of b b verify] T(1,4)
    by (simp add: Table_NewIterator_def bi(1))
qed

text \<open>Looking a key up: the filter never hides an entry, and what is found is the first entry not below the key.\<close>

lemma filter_answers:
  assumes "table_contents es bs filters meta index contents" "length contents < 2 ^ 32" "opt_policy opts = Some policy"
    and stored: "stored_filters policy bs data" "length data < 2 ^ 32" and j: "j < length bs"
  shows "\<exists>a. FilterBlock_KeyMayMatch (bh_offset (placed_handle bs j)) k (FilterBlockReader policy data) = Ok a \<and> (k \<in> fst ` set (fst (bs ! j)) \<longrightarrow> a)"
proof -
  obtain s groups pending s' where h: "holds_filters policy groups pending s" "FilterBlockBuilder_Finish s = (data, s')" "covered bs groups pending"
    using stored(1) by (auto simp: stored_filters_def)
  let ?i = "placed_at bs j div kFilterBase"
  define keys where "keys = (if ?i < length groups then groups ! ?i else pending)"
  have all: "(?i < length groups \<and> keys = groups ! ?i \<or> ?i = length groups \<and> keys = pending) \<and> fst x \<in> set keys" if "x \<in> set (fst (bs ! j))" for x
    using h(3) j that by (auto simp: covered_def Let_def keys_def)
  have "fst (bs ! j) \<noteq> []" using assms(1) j by (simp add: table_contents_def)
  then have "hd (fst (bs ! j)) \<in> set (fst (bs ! j))" by simp
  from all [OF this] have group: "?i < length groups \<and> keys = groups ! ?i \<or> ?i = length groups \<and> keys = pending" "keys \<noteq> []" by auto
  have "length (concat (map placed_bytes bs)) \<le> length contents" using assms(1) by (simp add: table_contents_def Let_def)
  then have "placed_at bs j < 2 ^ 64" using placed_at_total [of j bs] j assms(2) by simp
  then have "?i = unat (bh_offset (placed_handle bs j)) div kFilterBase"
    by (simp add: placed_handle_def handle_at_def unat_word_of_nat_small)
  from filter_policy.KeyMayMatch_group [OF policies [OF assms(3)] h(1,2) stored(2) group this, of k]
  have "FilterBlock_KeyMayMatch (bh_offset (placed_handle bs j)) k (FilterBlockReader policy data) =
      policy_KeyMayMatch policy k (policy_CreateFilter policy keys [])" .
  moreover have "policy_KeyMayMatch policy k (policy_CreateFilter policy keys []) = Ok True" if "k \<in> fst ` set (fst (bs ! j))"
    using all that filter_policy.created_matches [OF policies [OF assms(3)]] by blast
  moreover obtain a where "policy_KeyMayMatch policy k (policy_CreateFilter policy keys []) = Ok a"
    using filter_policy.created_answers [OF policies [OF assms(3)]] by blast
  ultimately show ?thesis by auto
qed

lemma InternalGet_finds:
  assumes T: "table_contents es bs filters meta index contents" "length contents < 2 ^ 32"
    and asc: "ascending (opt_comparator opts) key_ok es" and t: "opened bs (fst index) t" and k: "key_ok k"
  shows "\<exists>found. InternalGet b e verify k t = Ok (found, OK) \<and>
    (\<forall>x. found = Some x \<longrightarrow> seek_position (opt_comparator opts) k es < length es \<and> x = es ! seek_position (opt_comparator opts) k es) \<and>
    (\<forall>v. (k, v) \<in> set es \<longrightarrow> found = Some (k, v))"
proof -
  let ?cmp = "opt_comparator opts" and ?on = "block_on (opt_comparator opts) key_ok"
  note blocks = sorted_iterator.on_Seek [OF block_contract [OF key_order_axioms], of _ _ _ k b]
    sorted_iterator.on_Valid [OF block_contract [OF key_order_axioms], of _ _ _ b]
    sorted_iterator.on_key [OF block_contract [OF key_order_axioms], of _ _ _ b]
    sorted_iterator.on_value [OF block_contract [OF key_order_axioms], of _ _ _ b]
    sorted_iterator.on_status [OF block_contract [OF key_order_axioms], of _ _ _ b]
  have shape: "table_shape ?cmp key_ok ?on (fst index) (map fst bs) (\<lambda>v. bind_result (BlockReader b e t verify v) (\<lambda>it. Ok (Some it)))"
    by (rule opened_shape [OF T asc t])
  have len: "length (fst index) = length bs" and es: "concat (map fst bs) = es" and opts: "t_options t = opts"
    using T(1) t by (simp_all add: table_contents_def opened_def)
  define j where "j = seek_position ?cmp k (fst index)"
  have pos: "seek_position ?cmp k es = (if j < length bs then block_start (map fst bs) j + seek_position ?cmp k (fst (bs ! j)) else length es)"
    using two_level_tables.seek_position_concat [OF tables shape k] len es by (simp add: j_def)
  obtain it where it: "NewIterator b ?cmp (t_index_block t) = Ok it" "?on (fst index) (length (fst index)) it"
    using index_on [OF T(1) t] by blast
  obtain it' where seek: "op_Seek (block_ops b) k it = Ok it'" "?on (fst index) j it'" using blocks(1) [OF it(2) k] by (auto simp: j_def)
  have present: "seek_position ?cmp k es < length es \<and> es ! seek_position ?cmp k es = (k, v)" if "(k, v) \<in> set es" for v
  proof -
    obtain p where p: "p < length es" "es ! p = (k, v)" using \<open>(k, v) \<in> set es\<close> unfolding in_set_conv_nth by blast
    have "seek_position ?cmp k es = p"
      using p ascending_nth(2) [OF asc p(1)] cmp_irrefl [OF k] by (intro seek_position_eq) simp_all
    then show ?thesis using p by simp
  qed
  show ?thesis
  proof (cases "j < length bs")
    case False
    then have "\<not> op_Valid (block_ops b) it'" using blocks(2) [OF seek(2)] len by simp
    then have "InternalGet b e verify k t = Ok (None, OK)"
      using blocks(5) [OF seek(2)] by (simp add: InternalGet_def opts it(1) seek(1))
    moreover have "(k, v) \<notin> set es" for v using present [of v] pos False by auto
    ultimately show ?thesis by simp
  next
    case True
    then have j: "j < length (fst index)" using len by simp
    let ?v = "handle_code (placed_handle bs j)"
    have index: "op_Valid (block_ops b) it'" "op_value (block_ops b) it' = Ok ?v" "op_status (block_ops b) it' = OK"
      using blocks(2,4,5) [OF seek(2)] j T(1) by (simp_all add: table_contents_def index_ok_def)
    obtain bi where bi: "BlockReader b e t verify ?v = Ok bi" "?on (fst (bs ! j)) (length (fst (bs ! j))) bi"
      using BlockReader_reads [OF T asc t True, of b verify] T(1) j by (auto simp: table_contents_def index_ok_def)
    let ?q = "seek_position ?cmp k (fst (bs ! j))"
    obtain bi' where bi': "op_Seek (block_ops b) k bi = Ok bi'" "?on (fst (bs ! j)) ?q bi'" using blocks(1) [OF bi(2) k] by blast
    define found where "found = (if ?q < length (fst (bs ! j)) then Some (fst (bs ! j) ! ?q) else None)"
    have here: "op_Valid (block_ops b) bi' \<longleftrightarrow> ?q < length (fst (bs ! j))" "op_status (block_ops b) bi' = OK"
      "?q < length (fst (bs ! j)) \<Longrightarrow> op_key (block_ops b) bi' = Ok (fst (fst (bs ! j) ! ?q)) \<and> op_value (block_ops b) bi' = Ok (snd (fst (bs ! j) ! ?q))"
      using blocks(2-5) [OF bi'(2)] by simp_all
    have at: "?q < length (fst (bs ! j)) \<Longrightarrow> seek_position ?cmp k es < length es \<and> fst (bs ! j) ! ?q = es ! seek_position ?cmp k es"
      using pos True nth_concat_block [of j "map fst bs" ?q] block_position_less [of j "map fst bs" ?q] es by simp
    have inside: "?q < length (fst (bs ! j))" if "(k, v) \<in> set es" for v
    proof (rule ccontr)
      assume "\<not> ?q < length (fst (bs ! j))"
      then have "?q = length (fst (bs ! j))" using seek_position_le [of ?cmp k "fst (bs ! j)"] by simp
      then have p: "seek_position ?cmp k es = length (concat (map fst (take (Suc j) bs)))"
        using pos True block_start_Suc [of j "map fst bs"] by (simp add: block_start_def take_map)
      have "es = concat (map fst (take (Suc j) bs)) @ concat (map fst (drop (Suc j) bs))"
        unfolding es [symmetric] by (simp flip: concat_append map_append)
      then have "es ! seek_position ?cmp k es \<in> set (concat (map fst (drop (Suc j) bs)) @ [])"
        using nth_in_second [of "concat (map fst (take (Suc j) bs))" "seek_position ?cmp k es" "concat (map fst (drop (Suc j) bs))"] present [OF that] p
        by (simp only: append_Nil2 order_refl)
      then have "?cmp (fst (fst index ! j)) (fst (es ! seek_position ?cmp k es)) < 0"
        using T(1) j unfolding table_contents_def index_ok_def by blast
      then show False using at_seek_position [of ?cmp k "fst index"] j present [OF that] by (simp add: j_def)
    qed
    obtain a where a: "(case t_filter t of None \<Rightarrow> Ok True
        | Some fr \<Rightarrow> (case BlockHandle_DecodeFrom ?v BlockHandle of
            (s, handle, _) \<Rightarrow> if s = OK then FilterBlock_KeyMayMatch (bh_offset handle) k fr else Ok True)) = Ok a"
      "k \<in> fst ` set (fst (bs ! j)) \<Longrightarrow> a"
    proof (cases "opt_policy opts")
      case None
      then show thesis using that [of True] t by (simp add: opened_def)
    next
      case (Some policy)
      then obtain data where d: "t_filter t = Some (FilterBlockReader policy data)" "stored_filters policy bs data" "length data < 2 ^ 32"
        using t by (auto simp: opened_def)
      from filter_answers [OF T Some d(2,3) True, of k] show thesis
        using that d(1) DecodeFrom_code [of "placed_handle bs j" "[]"] by auto
    qed
    have "InternalGet b e verify k t = Ok (if a then found else None, OK)"
      unfolding InternalGet_def opts using index here
      by (simp add: it(1) seek(1) a(1) bi(1) bi'(1) found_def Let_def)
    moreover have "a \<and> found = Some (k, v)" if "(k, v) \<in> set es" for v
    proof -
      have "fst (bs ! j) ! ?q = (k, v)" using inside [OF that] at present [OF that] by simp
      then have "k \<in> fst ` set (fst (bs ! j))" using inside [OF that] by (metis fst_conv image_eqI nth_mem)
      then show ?thesis using a(2) inside [OF that] at present [OF that] by (simp add: found_def)
    qed
    ultimately show ?thesis using at by (auto simp: found_def)
  qed
qed

end

section \<open>What a client reads\<close>

definition table_ops :: "build \<Rightarrow> nat \<Rightarrow> table_iterator iter_ops" where
  "table_ops b fuel = two_level_ops fuel b (block_ops b) (block_ops b)"

definition scan_table :: "build \<Rightarrow> env \<Rightarrow> bool \<Rightarrow> nat \<Rightarrow> table \<Rightarrow> (bytes \<times> bytes) list result" where
  "scan_table b e verify fuel t =
     bind_result (Table_NewIterator b e verify t) (\<lambda>it. bind_result (op_SeekToFirst (table_ops b fuel) it) (read_forward fuel (table_ops b fuel)))"

definition scan_back :: "build \<Rightarrow> env \<Rightarrow> bool \<Rightarrow> nat \<Rightarrow> table \<Rightarrow> (bytes \<times> bytes) list result" where
  "scan_back b e verify fuel t =
     bind_result (Table_NewIterator b e verify t) (\<lambda>it. bind_result (op_SeekToLast (table_ops b fuel) it) (read_backward fuel (table_ops b fuel)))"

definition scan_from :: "build \<Rightarrow> env \<Rightarrow> bool \<Rightarrow> nat \<Rightarrow> bytes \<Rightarrow> table \<Rightarrow> (bytes \<times> bytes) list result" where
  "scan_from b e verify fuel target t =
     bind_result (Table_NewIterator b e verify t) (\<lambda>it. bind_result (op_Seek (table_ops b fuel) target it) (read_forward fuel (table_ops b fuel)))"

context table_reader begin

lemma scans:
  assumes "table_contents es bs filters meta index contents" "length contents < 2 ^ 32"
    and "ascending (opt_comparator opts) key_ok es" "opened bs (fst index) t" "Suc (length es) < fuel"
  shows "scan_table b e verify fuel t = Ok es" "scan_back b e verify fuel t = Ok (rev es)"
    "key_ok target \<Longrightarrow> scan_from b e verify fuel target t = Ok (dropWhile (\<lambda>e. opt_comparator opts (fst e) target < 0) es)"
proof -
  let ?ops = "table_ops b fuel"
  let ?on = "tl_on fuel (opt_comparator opts) key_ok (block_on (opt_comparator opts) key_ok) (block_on (opt_comparator opts) key_ok)"
  have contract: "sorted_iterator (opt_comparator opts) key_ok ?ops ?on"
    unfolding table_ops_def by (rule two_level_tables.two_level_contract [OF tables])
  obtain it where it: "Table_NewIterator b e verify t = Ok it" "?on es (length es) it" using NewIterator_reads [OF assms] by blast
  obtain it1 where "op_SeekToFirst ?ops it = Ok it1" "?on es 0 it1" using sorted_iterator.on_SeekToFirst [OF contract it(2)] by blast
  then show "scan_table b e verify fuel t = Ok es"
    using sorted_iterator.read_forward_on [OF contract, of es 0 it1 fuel] assms(5) by (simp add: scan_table_def it(1))
  obtain it2 where it2: "op_SeekToLast ?ops it = Ok it2" "?on es (length es - 1) it2" using sorted_iterator.on_SeekToLast [OF contract it(2)] by blast
  have "read_backward fuel ?ops it2 = Ok (rev es)"
  proof (cases "es = []")
    case True
    then have "\<not> op_Valid ?ops it2" using sorted_iterator.on_Valid [OF contract it2(2)] by simp
    then show ?thesis using True assms(5) by (cases fuel) simp_all
  next
    case False
    then show ?thesis using sorted_iterator.read_backward_on [OF contract it2(2), of fuel] assms(5) by simp
  qed
  then show "scan_back b e verify fuel t = Ok (rev es)" by (simp add: scan_back_def it(1) it2(1))
  show "scan_from b e verify fuel target t = Ok (dropWhile (\<lambda>e. opt_comparator opts (fst e) target < 0) es)" if target: "key_ok target"
  proof -
    obtain it3 where "op_Seek ?ops target it = Ok it3" "?on es (seek_position (opt_comparator opts) target es) it3"
      using sorted_iterator.on_Seek [OF contract it(2) target] by blast
    then show ?thesis
      using sorted_iterator.read_forward_on [OF contract, of es "seek_position (opt_comparator opts) target es" it3 fuel] assms(5)
      by (simp add: scan_from_def it(1) seek_position_def dropWhile_eq_drop)
  qed
qed

lemma table_read:
  assumes "table_contents es bs filters meta index contents" "length contents < 2 ^ 32" "ascending (opt_comparator opts) key_ok es"
  shows "\<exists>t. Table_Open b e opts rfile (word_of_nat (length contents)) cache_id = Ok (OK, Some t) \<and>
        scan_table b e verify (length es + 2) t = Ok es \<and> scan_back b e verify (length es + 2) t = Ok (rev es) \<and>
        (\<forall>k. key_ok k \<longrightarrow>
          scan_from b e verify (length es + 2) k t = Ok (dropWhile (\<lambda>x. opt_comparator opts (fst x) k < 0) es) \<and>
          (\<exists>found. InternalGet b e verify k t = Ok (found, OK) \<and>
            (\<forall>x. found = Some x \<longrightarrow> seek_position (opt_comparator opts) k es < length es \<and> x = es ! seek_position (opt_comparator opts) k es) \<and>
            (\<forall>v. (k, v) \<in> set es \<longrightarrow> found = Some (k, v))))"
proof -
  obtain t where t: "Table_Open b e opts rfile (word_of_nat (length contents)) cache_id = Ok (OK, Some t)" "opened bs (fst index) t"
    using Open_reads [OF assms(1,2)] by blast
  have "Suc (length es) < length es + 2" by simp
  from scans [OF assms t(2) this] InternalGet_finds [OF assms t(2)] t(1) show ?thesis
    by (intro exI [of _ t] conjI allI impI) simp_all
qed

end

interpretation bloom_reader: table_reader "Options\<lparr>opt_policy := Some (bloom_policy n)\<rparr>" "\<lambda>_. True" "\<lparr>env_snappy = no_snappy, address = a\<rparr>" "n + 9"
    "memory_file contents" contents cache_id for n a contents cache_id
  by (intro table_reader.intro bloom_table.table_setting_axioms memory_file.readable_file_axioms table_reader_axioms.intro) (simp add: Options_def)

interpretation internal_reader: table_reader
    "Options\<lparr>opt_comparator := InternalKey_Compare, opt_separator := InternalKey_FindShortestSeparator, opt_successor := InternalKey_FindShortSuccessor\<rparr>"
    internal_key_ok "\<lparr>env_snappy = no_snappy, address = a\<rparr>" 0 "memory_file contents" contents cache_id for a contents cache_id
  by (intro table_reader.intro internal_table.table_setting_axioms memory_file.readable_file_axioms table_reader_axioms.intro) (simp add: Options_def)

section \<open>The round trip\<close>

text \<open>
  C27: a table file gives back what was put into it. For any comparator with its laws, any block size, restart interval and
  compression, with or without filters: when entries in ascending order are added to a table builder and the file stays below 4 GB, building
  succeeds, and every file object with these contents can be opened as a table; whether checksums are verified or not, its iterator
  reads exactly the entries, forward, backward and from any target, and a lookup with any key finds at most the first entry not below
  it, and never misses an entry that is there, filters and shortened index keys notwithstanding. A block cache, if there is one, may hold blocks of the table, as they are in
  the file. In both builds, and without a fault.
\<close>

theorem table_roundtrip:
  assumes "table_writer opts key_ok e per_key w written" "ascending (opt_comparator opts) key_ok es"
    and "table_weight opts per_key es < 2 ^ 32" "written f = []"
  shows "\<exists>r. build_table b e w opts es f = Ok (OK, r) \<and>
    (\<forall>rfile cache_id verify. table_reader opts key_ok e per_key rfile (written (tb_file r)) cache_id \<longrightarrow>
      (\<exists>t. Table_Open b e opts rfile (FileSize r) cache_id = Ok (OK, Some t) \<and>
        scan_table b e verify (length es + 2) t = Ok es \<and> scan_back b e verify (length es + 2) t = Ok (rev es) \<and>
        (\<forall>k. key_ok k \<longrightarrow>
          scan_from b e verify (length es + 2) k t = Ok (dropWhile (\<lambda>x. opt_comparator opts (fst x) k < 0) es) \<and>
          (\<exists>found. InternalGet b e verify k t = Ok (found, OK) \<and>
            (\<forall>x. found = Some x \<longrightarrow> seek_position (opt_comparator opts) k es < length es \<and> x = es ! seek_position (opt_comparator opts) k es) \<and>
            (\<forall>v. (k, v) \<in> set es \<longrightarrow> found = Some (k, v))))))"
proof -
  obtain bs filters meta index r where r: "build_table b e w opts es f = Ok (OK, r)"
    "table_setting.table_contents opts key_ok e es bs filters meta index (written (tb_file r))"
    "length (written (tb_file r)) < 2 ^ 32" "FileSize r = word_of_nat (length (written (tb_file r)))"
    using table_writer.build_table_writes [OF assms, of b] by blast
  show ?thesis
    unfolding r(4) [symmetric]
    by (intro exI [of _ r] conjI allI impI r(1)) (rule table_reader.table_read [OF _ r(2,3) assms(2), folded r(4)])
qed

theorem table_roundtrip_witness:
  "\<exists>r t. build_table Debug \<lparr>env_snappy = no_snappy, address = length\<rparr> memory_writable (Options\<lparr>opt_policy := Some (bloom_policy 10)\<rparr>)
      [([97], [1, 2]), ([98], [3])] [] = Ok (OK, r) \<and>
    Table_Open Debug \<lparr>env_snappy = no_snappy, address = length\<rparr> (Options\<lparr>opt_policy := Some (bloom_policy 10)\<rparr>) (memory_file (tb_file r))
      (FileSize r) 7 = Ok (OK, Some t) \<and>
    InternalGet Debug \<lparr>env_snappy = no_snappy, address = length\<rparr> True [98] t = Ok (Some ([98], [3]), OK)"
proof -
  let ?opts = "Options\<lparr>opt_policy := Some (bloom_policy 10)\<rparr>" and ?e = "\<lparr>env_snappy = no_snappy, address = length\<rparr>"
    and ?es = "[([97], [1, 2]), ([98], [3])] :: (bytes \<times> bytes) list"
  have asc: "ascending (opt_comparator ?opts) (\<lambda>_. True) ?es" by (simp add: Options_def ascending_def Slice_compare_def)
  have weight: "table_weight ?opts (10 + 9) ?es < 2 ^ 32" by (simp add: table_weight_def bloom_policy_def)
  obtain r where r: "build_table Debug ?e memory_writable ?opts ?es [] = Ok (OK, r)"
    "\<forall>rfile cache_id verify. table_reader ?opts (\<lambda>_. True) ?e (10 + 9) rfile (tb_file r) cache_id \<longrightarrow>
      (\<exists>t. Table_Open Debug ?e ?opts rfile (FileSize r) cache_id = Ok (OK, Some t) \<and>
        (\<forall>k. \<exists>found. InternalGet Debug ?e verify k t = Ok (found, OK) \<and> (\<forall>v. (k, v) \<in> set ?es \<longrightarrow> found = Some (k, v))))"
    using table_roundtrip [where f = "[]" and b = Debug, OF bloom_table.table_writer_axioms asc weight refl] by meson
  obtain t where t: "Table_Open Debug ?e ?opts (memory_file (tb_file r)) (FileSize r) 7 = Ok (OK, Some t)"
    "\<forall>k. \<exists>found. InternalGet Debug ?e True k t = Ok (found, OK) \<and> (\<forall>v. (k, v) \<in> set ?es \<longrightarrow> found = Some (k, v))"
    using r(2) [rule_format, OF bloom_reader.table_reader_axioms, of 7 True] by blast
  have "InternalGet Debug ?e True [98] t = Ok (Some ([98], [3]), OK)" using t(2) [rule_format, of "[98]"] by auto
  then show ?thesis using r(1) t(1) by blast
qed

end
