(* ===== verification/DBIterator.thy ===== *)
theory DBIterator
  imports Iterators InternalKeys
begin

text \<open>
  The iterator that clients of a database get, src/src/leveldb/db/db_iter.cc: it runs over internal keys and shows the newest write of
  each user key that is not newer than a given number, if it is not a deletion. With it the random numbers of
  src/src/leveldb/util/random.h, which decide when a read is reported to the database.
\<close>

section \<open>Random numbers\<close>

definition Random :: "u32 \<Rightarrow> u32" where
  "Random s = (let seed = s AND 0x7fffffff in if seed = 0 \<or> seed = 2147483647 then 1 else seed)"

definition Random_Next :: "u32 \<Rightarrow> u32" where
  "Random_Next seed =
     (let M = 2147483647; A = 16807;
          product = ucast seed * A :: u64;
          seed = ucast (drop_bit 31 product + (product AND M))
      in if seed > 2147483647 then seed - 2147483647 else seed)"

text \<open>The new state is also the number drawn.\<close>

definition Uniform :: "u32 \<Rightarrow> u32 \<Rightarrow> u32 \<times> u32" where
  "Uniform n seed = (let seed = Random_Next seed in (seed mod n, seed))"

definition OneIn :: "u32 \<Rightarrow> u32 \<Rightarrow> bool \<times> u32" where
  "OneIn n seed = (let seed = Random_Next seed in (seed mod n = 0, seed))"

definition Skewed :: "u32 \<Rightarrow> u32 \<Rightarrow> u32 \<times> u32" where
  "Skewed max_log seed = (let (n, seed) = Uniform (max_log + 1) seed in Uniform (push_bit (unat n) 1) seed)"

section \<open>The iterator\<close>

datatype direction = kForward | kReverse

text \<open>
  \<open>samples\<close> are the keys reported with \<open>RecordReadSample\<close>. Capacities of strings, by which memory is given back early, are not part of the
  model. The parameter of \<open>FindNextUserEntry\<close> that points to a string points to \<open>saved_key_\<close> in every call.
\<close>

record 'i db_iter =
  inner :: 'i
  sequence_limit :: u64
  db_status :: status
  saved_key :: bytes
  saved_value :: bytes
  direction :: direction
  db_valid :: bool
  rnd :: u32
  bytes_until_read_sampling :: nat
  samples :: "bytes list"

definition kReadBytesPeriod :: u32 where
  "kReadBytesPeriod = 1048576"

definition RandomCompactionPeriod :: "u32 \<Rightarrow> nat \<times> u32" where
  "RandomCompactionPeriod seed = (let (n, seed) = Uniform (2 * kReadBytesPeriod) seed in (unat n, seed))"

definition NewDBIterator :: "'i \<Rightarrow> u64 \<Rightarrow> u32 \<Rightarrow> 'i db_iter" where
  "NewDBIterator internal_iter seq seed =
     (let (period, seed) = RandomCompactionPeriod (Random seed)
      in \<lparr>inner = internal_iter, sequence_limit = seq, db_status = OK, saved_key = [], saved_value = [], direction = kForward,
          db_valid = False, rnd = seed, bytes_until_read_sampling = period, samples = []\<rparr>)"

fun sample_loop :: "nat \<Rightarrow> nat \<Rightarrow> bytes \<Rightarrow> 'i db_iter \<Rightarrow> 'i db_iter result" where
  "sample_loop 0 bytes_read k it = Fault Diverges"
| "sample_loop (Suc fuel) bytes_read k it =
     (if bytes_until_read_sampling it < bytes_read then
        let (period, seed) = RandomCompactionPeriod (rnd it)
        in sample_loop fuel bytes_read k
             (it\<lparr>rnd := seed, bytes_until_read_sampling := bytes_until_read_sampling it + period, samples := samples it @ [k]\<rparr>)
      else Ok it)"

text \<open>The fuel is enough: no two draws in a row are zero.\<close>

definition db_ParseKey :: "build \<Rightarrow> 'i iter_ops \<Rightarrow> 'i db_iter \<Rightarrow> (parsed_key option \<times> 'i db_iter) result" where
  "db_ParseKey b ops it =
     bind_result (op_key ops (inner it)) (\<lambda>k. bind_result (op_value ops (inner it)) (\<lambda>v.
       let bytes_read = length k + length v
       in bind_result (sample_loop (2 * bytes_read + 1) bytes_read k it) (\<lambda>it.
          bind_result (c_assert b (bytes_until_read_sampling it \<ge> bytes_read)) (\<lambda>_.
            let it = it\<lparr>bytes_until_read_sampling := bytes_until_read_sampling it - bytes_read\<rparr>
            in case ParseInternalKey k of
                 None \<Rightarrow> Ok (None, it\<lparr>db_status := Corruption ''corrupted internal key in DBIter''\<rparr>)
               | Some ikey \<Rightarrow> Ok (Some ikey, it)))))"

text \<open>\<open>ExtractUserKey\<close> with its \<open>assert\<close>; without it the length of a shorter key wraps round.\<close>

definition user_key_of :: "build \<Rightarrow> bytes \<Rightarrow> bytes result" where
  "user_key_of b k = bind_result (c_assert b (length k \<ge> 8)) (\<lambda>_. if length k < 8 then Fault OutOfBounds else Ok (ExtractUserKey k))"

fun find_next :: "nat \<Rightarrow> build \<Rightarrow> 'i iter_ops \<Rightarrow> bool \<Rightarrow> 'i db_iter \<Rightarrow> 'i db_iter result" where
  "find_next 0 b ops skipping it = Fault Diverges"
| "find_next (Suc fuel) b ops skipping it =
     bind_result (db_ParseKey b ops it) (\<lambda>(ikey, it).
       let (acceptable, skipping, it) =
             (case ikey of
                Some k \<Rightarrow>
                  if sequence k \<le> sequence_limit it then
                    (case key_type k of
                       kTypeDeletion \<Rightarrow> (False, True, it\<lparr>saved_key := user_key k\<rparr>)
                     | kTypeValue \<Rightarrow>
                         if skipping \<and> Slice_compare (user_key k) (saved_key it) \<le> 0 then (False, skipping, it)
                         else (True, skipping, it\<lparr>db_valid := True, saved_key := []\<rparr>))
                  else (False, skipping, it)
              | None \<Rightarrow> (False, skipping, it))
       in if acceptable then Ok it
          else bind_result (op_Next ops (inner it)) (\<lambda>i.
                 let it = it\<lparr>inner := i\<rparr>
                 in if op_Valid ops (inner it) then find_next fuel b ops skipping it
                    else Ok (it\<lparr>saved_key := [], db_valid := False\<rparr>)))"

definition FindNextUserEntry :: "nat \<Rightarrow> build \<Rightarrow> 'i iter_ops \<Rightarrow> bool \<Rightarrow> 'i db_iter \<Rightarrow> 'i db_iter result" where
  "FindNextUserEntry fuel b ops skipping it =
     bind_result (c_assert b (op_Valid ops (inner it))) (\<lambda>_.
     bind_result (c_assert b (direction it = kForward)) (\<lambda>_. find_next fuel b ops skipping it))"

definition db_Next :: "nat \<Rightarrow> build \<Rightarrow> 'i iter_ops \<Rightarrow> 'i db_iter \<Rightarrow> 'i db_iter result" where
  "db_Next fuel b ops it =
     bind_result (c_assert b (db_valid it)) (\<lambda>_.
       if direction it = kReverse then
         let it = it\<lparr>direction := kForward\<rparr>
         in bind_result (if \<not> op_Valid ops (inner it) then op_SeekToFirst ops (inner it) else op_Next ops (inner it)) (\<lambda>i.
              let it = it\<lparr>inner := i\<rparr>
              in if \<not> op_Valid ops (inner it) then Ok (it\<lparr>db_valid := False, saved_key := []\<rparr>)
                 else FindNextUserEntry fuel b ops True it)
       else bind_result (op_key ops (inner it)) (\<lambda>k. bind_result (user_key_of b k) (\<lambda>u.
              FindNextUserEntry fuel b ops True (it\<lparr>saved_key := u\<rparr>))))"

text \<open>The kind of the last write that was looked at, and the iterator.\<close>

fun find_prev :: "nat \<Rightarrow> build \<Rightarrow> 'i iter_ops \<Rightarrow> value_type \<Rightarrow> 'i db_iter \<Rightarrow> (value_type \<times> 'i db_iter) result" where
  "find_prev 0 b ops value_type it = Fault Diverges"
| "find_prev (Suc fuel) b ops value_type it =
     bind_result (db_ParseKey b ops it) (\<lambda>(ikey, it).
     bind_result
       (case ikey of
          Some k \<Rightarrow>
            if sequence k \<le> sequence_limit it then
              if value_type \<noteq> kTypeDeletion \<and> Slice_compare (user_key k) (saved_key it) < 0 then Ok (True, value_type, it)
              else if key_type k = kTypeDeletion then Ok (False, key_type k, it\<lparr>saved_key := [], saved_value := []\<rparr>)
              else bind_result (op_value ops (inner it)) (\<lambda>raw_value. bind_result (op_key ops (inner it)) (\<lambda>ik.
                     bind_result (user_key_of b ik) (\<lambda>u. Ok (False, key_type k, it\<lparr>saved_key := u, saved_value := raw_value\<rparr>))))
            else Ok (False, value_type, it)
        | None \<Rightarrow> Ok (False, value_type, it)) (\<lambda>(break, value_type, it).
       if break then Ok (value_type, it)
       else bind_result (op_Prev ops (inner it)) (\<lambda>i.
              let it = it\<lparr>inner := i\<rparr>
              in if op_Valid ops (inner it) then find_prev fuel b ops value_type it else Ok (value_type, it))))"

definition FindPrevUserEntry :: "nat \<Rightarrow> build \<Rightarrow> 'i iter_ops \<Rightarrow> 'i db_iter \<Rightarrow> 'i db_iter result" where
  "FindPrevUserEntry fuel b ops it =
     bind_result (c_assert b (direction it = kReverse)) (\<lambda>_.
     bind_result (if op_Valid ops (inner it) then find_prev fuel b ops kTypeDeletion it else Ok (kTypeDeletion, it)) (\<lambda>(value_type, it).
       Ok (if value_type = kTypeDeletion
           then it\<lparr>db_valid := False, saved_key := [], saved_value := [], direction := kForward\<rparr>
           else it\<lparr>db_valid := True\<rparr>)))"

text \<open>Back over the entries of the current key; the result says whether there is one before them.\<close>

fun back_over :: "nat \<Rightarrow> build \<Rightarrow> 'i iter_ops \<Rightarrow> 'i db_iter \<Rightarrow> (bool \<times> 'i db_iter) result" where
  "back_over 0 b ops it = Fault Diverges"
| "back_over (Suc fuel) b ops it =
     bind_result (op_Prev ops (inner it)) (\<lambda>i.
       let it = it\<lparr>inner := i\<rparr>
       in if \<not> op_Valid ops (inner it) then Ok (False, it\<lparr>db_valid := False, saved_key := [], saved_value := []\<rparr>)
          else bind_result (op_key ops (inner it)) (\<lambda>k. bind_result (user_key_of b k) (\<lambda>u.
                 if Slice_compare u (saved_key it) < 0 then Ok (True, it) else back_over fuel b ops it)))"

definition db_Prev :: "nat \<Rightarrow> build \<Rightarrow> 'i iter_ops \<Rightarrow> 'i db_iter \<Rightarrow> 'i db_iter result" where
  "db_Prev fuel b ops it =
     bind_result (c_assert b (db_valid it)) (\<lambda>_.
       if direction it = kForward then
         bind_result (c_assert b (op_Valid ops (inner it))) (\<lambda>_.
         bind_result (op_key ops (inner it)) (\<lambda>k. bind_result (user_key_of b k) (\<lambda>u.
         bind_result (back_over fuel b ops (it\<lparr>saved_key := u\<rparr>)) (\<lambda>(found, it).
           if found then FindPrevUserEntry fuel b ops (it\<lparr>direction := kReverse\<rparr>) else Ok it))))
       else FindPrevUserEntry fuel b ops it)"

definition db_Seek :: "nat \<Rightarrow> build \<Rightarrow> 'i iter_ops \<Rightarrow> bytes \<Rightarrow> 'i db_iter \<Rightarrow> 'i db_iter result" where
  "db_Seek fuel b ops target it =
     (let it = it\<lparr>direction := kForward, saved_value := [], saved_key := []\<rparr>
      in bind_result (AppendInternalKey b (saved_key it)
             \<lparr>user_key = target, sequence = sequence_limit it, key_type = kValueTypeForSeek\<rparr>) (\<lambda>ik.
           let it = it\<lparr>saved_key := ik\<rparr>
           in bind_result (op_Seek ops (saved_key it) (inner it)) (\<lambda>i.
                let it = it\<lparr>inner := i\<rparr>
                in if op_Valid ops (inner it) then FindNextUserEntry fuel b ops False it else Ok (it\<lparr>db_valid := False\<rparr>))))"

definition db_SeekToFirst :: "nat \<Rightarrow> build \<Rightarrow> 'i iter_ops \<Rightarrow> 'i db_iter \<Rightarrow> 'i db_iter result" where
  "db_SeekToFirst fuel b ops it =
     (let it = it\<lparr>direction := kForward, saved_value := []\<rparr>
      in bind_result (op_SeekToFirst ops (inner it)) (\<lambda>i.
           let it = it\<lparr>inner := i\<rparr>
           in if op_Valid ops (inner it) then FindNextUserEntry fuel b ops False it else Ok (it\<lparr>db_valid := False\<rparr>)))"

definition db_SeekToLast :: "nat \<Rightarrow> build \<Rightarrow> 'i iter_ops \<Rightarrow> 'i db_iter \<Rightarrow> 'i db_iter result" where
  "db_SeekToLast fuel b ops it =
     (let it = it\<lparr>direction := kReverse, saved_value := []\<rparr>
      in bind_result (op_SeekToLast ops (inner it)) (\<lambda>i. FindPrevUserEntry fuel b ops (it\<lparr>inner := i\<rparr>)))"

definition db_iter_ops :: "nat \<Rightarrow> build \<Rightarrow> 'i iter_ops \<Rightarrow> 'i db_iter iter_ops" where
  "db_iter_ops fuel b ops =
     \<lparr>op_Valid = db_valid,
      op_key = (\<lambda>it. bind_result (c_assert b (db_valid it)) (\<lambda>_.
        if direction it = kForward then bind_result (op_key ops (inner it)) (user_key_of b) else Ok (saved_key it))),
      op_value = (\<lambda>it. bind_result (c_assert b (db_valid it)) (\<lambda>_.
        if direction it = kForward then op_value ops (inner it) else Ok (saved_value it))),
      op_status = (\<lambda>it. if db_status it = OK then op_status ops (inner it) else db_status it),
      op_Next = db_Next fuel b ops, op_Prev = db_Prev fuel b ops, op_Seek = db_Seek fuel b ops,
      op_SeekToFirst = db_SeekToFirst fuel b ops, op_SeekToLast = db_SeekToLast fuel b ops\<rparr>"

section \<open>The random numbers\<close>

definition seed_ok :: "u32 \<Rightarrow> bool" where
  "seed_ok s \<longleftrightarrow> 1 \<le> unat s \<and> unat s < 2147483647"

lemma Random_ok: "seed_ok (Random s)"
proof -
  let ?s = "s AND 0x7fffffff"
  have "?s = take_bit 31 s" by (simp add: take_bit_eq_mask mask_eq_exp_minus_1)
  then have "unat ?s < 2 ^ 31" using take_bit_nat_less_exp [of 31 "unat s"] by (simp add: unsigned_take_bit_eq)
  moreover have "?s \<noteq> 0 \<Longrightarrow> 1 \<le> unat ?s" by (simp add: unat_gt_0 Suc_le_eq)
  moreover have "?s \<noteq> 2147483647 \<Longrightarrow> unat ?s \<noteq> 2147483647" by (auto simp: word_unat_eq_iff)
  ultimately show ?thesis by (auto simp: Random_def Let_def seed_ok_def)
qed

lemma coprime_M: "coprime (2147483647 :: nat) 16807" "coprime (2147483647 :: nat) (2 ^ 21)"
proof -
  show "coprime (2147483647 :: nat) 16807"
    unfolding coprime_iff_gcd_eq_1
    using gcd_red_nat [of 2147483647 16807] gcd_red_nat [of 16807 2836] gcd_red_nat [of 2836 2627] gcd_red_nat [of 2627 209] gcd_red_nat [of 209 119]
      gcd_red_nat [of 119 90] gcd_red_nat [of 90 29] gcd_red_nat [of 29 3] gcd_red_nat [of 3 2]
    by simp
  have "coprime (2147483647 :: nat) 2" by simp
  then show "coprime (2147483647 :: nat) (2 ^ 21)" by (rule coprime_power_right_iff [THEN iffD2, OF disjI1])
qed

text \<open>The shift computes the remainder of the division by \<open>2 ^ 31 - 1\<close>.\<close>

lemma mersenne_mod:
  fixes p :: nat
  assumes "p div 2 ^ 31 < 2147483647"
  defines "r \<equiv> p div 2 ^ 31 + p mod 2 ^ 31"
  shows "p mod 2147483647 = (if r > 2147483647 then r - 2147483647 else if r = 2147483647 then 0 else r)"
proof -
  have "p = r + 2147483647 * (p div 2 ^ 31)" unfolding r_def using div_mult_mod_eq [of p "2 ^ 31"] by simp
  then have eq: "p mod 2147483647 = r mod 2147483647" by (metis mod_mult_self2)
  have "p mod 2 ^ 31 < 2 ^ 31" by simp
  then have "r < 2 * 2147483647" using assms(1) by (simp add: r_def)
  then show ?thesis unfolding eq by (auto simp: mod_if [of r] mod_if [of "r - 2147483647"])
qed

lemma seed_mod_nonzero:
  assumes "seed_ok seed"
  shows "unat seed * 16807 mod 2147483647 \<noteq> 0"
proof
  assume "unat seed * 16807 mod 2147483647 = 0"
  then have "2147483647 dvd unat seed * 16807" by (simp add: mod_eq_0_iff_dvd)
  then have "2147483647 dvd unat seed" using coprime_M(1) coprime_dvd_mult_left_iff by blast
  then show False using assms by (auto simp: seed_ok_def dest: dvd_imp_le)
qed

lemma Random_Next_mod:
  assumes "seed_ok seed"
  shows "unat (Random_Next seed) = unat seed * 16807 mod 2147483647"
proof -
  let ?p = "unat seed * 16807"
  define product where "product = (ucast seed * 16807 :: u64)"
  define r where "r = ?p div 2 ^ 31 + ?p mod 2 ^ 31"
  have p: "?p < 2147483647 * 16807" using assms by (simp add: seed_ok_def)
  have "unat (ucast seed :: u64) = unat seed"
    using assms by (simp add: unsigned_ucast_eq take_bit_nat_eq_self seed_ok_def)
  then have up: "unat product = ?p"
    using p unfolding product_def by (simp add: unat_word_ariths)
  have "?p div 2 ^ 31 < 16807" using p by (simp add: less_mult_imp_div_less)
  have small: "r < 2 ^ 32" using \<open>?p div 2 ^ 31 < 16807\<close> mod_less_divisor [of "2 ^ 31" ?p] by (simp add: r_def)
  have "product AND 2147483647 = take_bit 31 product" by (simp add: take_bit_eq_mask mask_eq_exp_minus_1)
  then have parts: "unat (drop_bit 31 product) = ?p div 2 ^ 31" "unat (product AND 2147483647) = ?p mod 2 ^ 31"
    using up by (simp_all add: drop_bit_eq_div take_bit_eq_mod unat_div unat_mod)
  have "unat (drop_bit 31 product + (product AND 2147483647)) = r"
    using small by (simp add: unat_word_ariths parts r_def)
  then have sum: "unat (ucast (drop_bit 31 product + (product AND 2147483647)) :: u32) = r"
    using small by (simp add: unsigned_ucast_eq take_bit_nat_eq_self)
  note nz = seed_mod_nonzero [OF assms]
  have mod: "?p mod 2147483647 = (if r > 2147483647 then r - 2147483647 else if r = 2147483647 then 0 else r)"
    using mersenne_mod [of ?p] \<open>?p div 2 ^ 31 < 16807\<close> by (simp add: r_def)
  let ?n = "ucast (drop_bit 31 product + (product AND 2147483647)) :: u32"
  have "?n > 2147483647 \<longleftrightarrow> r > 2147483647" using sum by (simp add: word_less_nat_alt)
  moreover have "unat (?n - 2147483647) = r - 2147483647" if "r > 2147483647"
    using that sum by (subst unat_sub) (simp_all add: word_le_nat_alt)
  ultimately have "unat (Random_Next seed) = (if r > 2147483647 then r - 2147483647 else r)"
    using sum by (simp add: Random_Next_def Let_def product_def [symmetric])
  then show ?thesis using mod nz by (auto split: if_splits)
qed

lemma Random_Next_ok: "seed_ok seed \<Longrightarrow> seed_ok (Random_Next seed)"
  using seed_mod_nonzero [of seed] Random_Next_mod [of seed] by (simp add: seed_ok_def Suc_le_eq)

text \<open>Of two draws in a row one is not zero.\<close>

lemma two_draws:
  assumes "seed_ok s" "unat (Random_Next s) mod 2 ^ 21 = 0"
  shows "unat (Random_Next (Random_Next s)) mod 2 ^ 21 \<noteq> 0"
proof
  assume zero: "unat (Random_Next (Random_Next s)) mod 2 ^ 21 = 0"
  let ?s1 = "unat (Random_Next s)" and ?s2 = "unat (Random_Next (Random_Next s))"
  have ok: "seed_ok (Random_Next s)" "seed_ok (Random_Next (Random_Next s))" using assms(1) by (simp_all add: Random_Next_ok)
  obtain k k' where k: "?s1 = 2 ^ 21 * k" "?s2 = 2 ^ 21 * k'" using assms(2) zero by (auto simp: mod_eq_0_iff_dvd dvd_def)
  have range: "1 \<le> k" "k < 1024" "k' < 1024" using ok k by (auto simp: seed_ok_def)
  have "?s2 = ?s1 * 16807 mod 2147483647" by (rule Random_Next_mod [OF ok(1)])
  then have "2147483647 dvd ?s1 * 16807 - ?s2" by (metis dvd_minus_mod)
  then have "2147483647 dvd 2 ^ 21 * (k * 16807 - k')" unfolding k by (simp add: algebra_simps diff_mult_distrib2)
  then have "2147483647 dvd k * 16807 - k'" using coprime_M(2) coprime_dvd_mult_right_iff by blast
  then show False using range by (auto dest: dvd_imp_le)
qed

section \<open>Sampling reads\<close>

text \<open>What sampling and parsing a key change.\<close>

definition same_but_samples :: "'i db_iter \<Rightarrow> 'i db_iter \<Rightarrow> bool" where
  "same_but_samples it it' \<longleftrightarrow> inner it' = inner it \<and> sequence_limit it' = sequence_limit it \<and> db_status it' = db_status it \<and>
     saved_key it' = saved_key it \<and> saved_value it' = saved_value it \<and> direction it' = direction it \<and> db_valid it' = db_valid it \<and>
     seed_ok (rnd it')"

lemma sample_step: "seed_ok r \<Longrightarrow> same_but_samples (it\<lparr>rnd := r, bytes_until_read_sampling := n, samples := l\<rparr>) it' \<Longrightarrow> same_but_samples it it'"
  by (auto simp: same_but_samples_def)

lemma sample_loop_ends:
  assumes "seed_ok (rnd it)" "2 * (bytes_read - bytes_until_read_sampling it) < fuel"
  shows "\<exists>it'. sample_loop fuel bytes_read k it = Ok it' \<and> same_but_samples it it' \<and> bytes_read \<le> bytes_until_read_sampling it'"
  using assms
proof (induction "bytes_read - bytes_until_read_sampling it" arbitrary: it fuel rule: less_induct)
  case less
  obtain f where f: "fuel = Suc f" using less.prems(2) by (cases fuel) auto
  show ?case
  proof (cases "bytes_until_read_sampling it < bytes_read")
    case False
    have "same_but_samples it it" using less.prems(1) by (simp add: same_but_samples_def)
    then show ?thesis using False f by simp
  next
    case True
    let ?s1 = "Random_Next (rnd it)" and ?d = "\<lambda>s. unat s mod 2097152"
    have period: "RandomCompactionPeriod s = (?d (Random_Next s), Random_Next s)" for s
      by (simp add: RandomCompactionPeriod_def Uniform_def Let_def kReadBytesPeriod_def unat_mod)
    have ok: "seed_ok ?s1" using less.prems(1) by (rule Random_Next_ok)
    define it1 where "it1 = it\<lparr>rnd := ?s1, bytes_until_read_sampling := bytes_until_read_sampling it + ?d ?s1, samples := samples it @ [k]\<rparr>"
    have step: "sample_loop fuel bytes_read k it = sample_loop f bytes_read k it1" using True by (simp add: f period it1_def)
    have undo: "same_but_samples it1 it' \<Longrightarrow> same_but_samples it it'" for it' unfolding it1_def by (rule sample_step [OF ok])
    have rnd1: "seed_ok (rnd it1)" using ok by (simp add: it1_def)
    show ?thesis
    proof (cases "?d ?s1 = 0")
      case False
      then have "bytes_read - bytes_until_read_sampling it1 < bytes_read - bytes_until_read_sampling it" using True by (simp add: it1_def)
      moreover from this have "2 * (bytes_read - bytes_until_read_sampling it1) < f" using less.prems(2) f by simp
      ultimately show ?thesis using less.hyps [OF _ rnd1] undo step by metis
    next
      case zero: True
      then have "?d (Random_Next ?s1) \<noteq> 0" using two_draws [OF less.prems(1)] by simp
      let ?s2 = "Random_Next ?s1"
      have ok2: "seed_ok ?s2" using ok by (rule Random_Next_ok)
      define it2 where "it2 = it1\<lparr>rnd := ?s2, bytes_until_read_sampling := bytes_until_read_sampling it1 + ?d ?s2, samples := samples it1 @ [k]\<rparr>"
      obtain g where g: "f = Suc g" using less.prems(2) f True by (cases f) auto
      have here: "bytes_until_read_sampling it1 = bytes_until_read_sampling it" "rnd it1 = ?s1" using zero by (simp_all add: it1_def)
      have step2: "sample_loop f bytes_read k it1 = sample_loop g bytes_read k it2" using True by (simp add: g period it2_def here)
      have undo2: "same_but_samples it2 it' \<Longrightarrow> same_but_samples it1 it'" for it' unfolding it2_def by (rule sample_step [OF ok2])
      have rnd2: "seed_ok (rnd it2)" using ok2 by (simp add: it2_def)
      have "bytes_read - bytes_until_read_sampling it2 < bytes_read - bytes_until_read_sampling it"
        using True \<open>?d (Random_Next ?s1) \<noteq> 0\<close> by (simp add: it2_def here)
      moreover from this have "2 * (bytes_read - bytes_until_read_sampling it2) < g" using less.prems(2) f g by simp
      ultimately show ?thesis using less.hyps [OF _ rnd2] undo undo2 step step2 by metis
    qed
  qed
qed

lemma ParseKey_samples:
  assumes "op_key ops (inner it) = Ok k" "op_value ops (inner it) = Ok v" "ParseInternalKey k = Some ikey" "seed_ok (rnd it)"
  shows "\<exists>it'. db_ParseKey b ops it = Ok (Some ikey, it') \<and> same_but_samples it it'"
proof -
  let ?n = "length k + length v"
  obtain it1 where it1: "sample_loop (2 * ?n + 1) ?n k it = Ok it1" "same_but_samples it it1" "?n \<le> bytes_until_read_sampling it1"
  proof -
    have "2 * (?n - bytes_until_read_sampling it) < 2 * ?n + 1" by simp
    from sample_loop_ends [OF assms(4) this] show thesis using that by blast
  qed
  have "same_but_samples it (it1\<lparr>bytes_until_read_sampling := bytes_until_read_sampling it1 - ?n\<rparr>)"
    using it1(2) by (simp add: same_but_samples_def)
  then show ?thesis using it1(1,3) assms(1-3) by (simp add: db_ParseKey_def Let_def del: sample_loop.simps)
qed

end
