(* ===== verification/DBView.thy ===== *)
theory DBView
  imports DBIterator
begin

text \<open>
  What the iterator of a database shows, the view of a sequence number on a list of internal keys in ascending order, and the states
  that the iterator and its searches can be in.
\<close>

section \<open>The view\<close>

text \<open>Parts of the entry with number \<open>i\<close>: its user key, whether its number is in reach, whether it is a value.\<close>

definition ukey :: "(bytes \<times> bytes) list \<Rightarrow> nat \<Rightarrow> bytes" where
  "ukey es i = ExtractUserKey (fst (es ! i))"

definition seen :: "u64 \<Rightarrow> (bytes \<times> bytes) list \<Rightarrow> nat \<Rightarrow> bool" where
  "seen s es i \<longleftrightarrow> drop_bit 8 (key_tag (fst (es ! i))) \<le> s"

definition is_value :: "(bytes \<times> bytes) list \<Rightarrow> nat \<Rightarrow> bool" where
  "is_value es i \<longleftrightarrow> key_tag (fst (es ! i)) AND 0xff \<noteq> 0"

text \<open>An entry is shown when it is a value in reach and no entry of the same key in reach comes before it, which would be newer.\<close>

definition shown :: "u64 \<Rightarrow> (bytes \<times> bytes) list \<Rightarrow> nat \<Rightarrow> bool" where
  "shown s es i \<longleftrightarrow> i < length es \<and> seen s es i \<and> is_value es i \<and> (\<forall>j < i. ukey es j = ukey es i \<longrightarrow> \<not> seen s es j)"

definition user_view :: "u64 \<Rightarrow> (bytes \<times> bytes) list \<Rightarrow> (bytes \<times> bytes) list" where
  "user_view s es = map (\<lambda>i. (ukey es i, snd (es ! i))) (filter (shown s es) [0..<length es])"

definition parses :: "(bytes \<times> bytes) list \<Rightarrow> bool" where
  "parses es \<longleftrightarrow> (\<forall>e \<in> set es. ParseInternalKey (fst e) \<noteq> None)"

lemma parses_nth:
  assumes "parses es" "i < length es"
  shows "\<exists>t. ParseInternalKey (fst (es ! i)) = Some \<lparr>user_key = ukey es i, sequence = t, key_type = (if is_value es i then kTypeValue else kTypeDeletion)\<rparr> \<and>
      (t \<le> s \<longleftrightarrow> seen s es i)"
    "8 \<le> length (fst (es ! i))"
proof -
  have "ParseInternalKey (fst (es ! i)) \<noteq> None" using assms by (simp add: parses_def)
  then show "\<exists>t. ParseInternalKey (fst (es ! i)) = Some \<lparr>user_key = ukey es i, sequence = t, key_type = (if is_value es i then kTypeValue else kTypeDeletion)\<rparr> \<and>
      (t \<le> s \<longleftrightarrow> seen s es i)" "8 \<le> length (fst (es ! i))"
    by (auto simp: ParseInternalKey_def Let_def ukey_def seen_def is_value_def ExtractUserKey_def split: if_splits)
qed

abbreviation internal_order :: "(bytes \<times> bytes) list \<Rightarrow> bool" where
  "internal_order \<equiv> ascending InternalKey_Compare internal_key_ok"

lemma ukey_mono: "internal_order es \<Longrightarrow> i \<le> j \<Longrightarrow> j < length es \<Longrightarrow> ukey es i \<le> ukey es j"
  using internal_keys.ascending_nth(2) [of es j i] by (cases "i = j") (auto simp: ukey_def InternalKey_less)

lemma shown_less: "internal_order es \<Longrightarrow> seen s es i \<Longrightarrow> i < j \<Longrightarrow> shown s es j \<Longrightarrow> ukey es i < ukey es j"
  using ukey_mono [of es i j] by (auto simp: shown_def le_less)

text \<open>How many entries are shown before a position.\<close>

definition rank :: "u64 \<Rightarrow> (bytes \<times> bytes) list \<Rightarrow> nat \<Rightarrow> nat" where
  "rank s es m = length (filter (shown s es) [0..<m])"

lemma rank_Suc: "rank s es (Suc m) = rank s es m + (if shown s es m then 1 else 0)"
  by (simp add: rank_def)

lemma rank_0 [simp]: "rank s es 0 = 0"
  by (simp add: rank_def)

lemma rank_length: "rank s es (length es) = length (user_view s es)"
  by (simp add: rank_def user_view_def)

lemma rank_same: "a \<le> b \<Longrightarrow> (\<And>j. a \<le> j \<Longrightarrow> j < b \<Longrightarrow> \<not> shown s es j) \<Longrightarrow> rank s es b = rank s es a"
proof (induction b rule: dec_induct)
  case (step n)
  then show ?case by (simp add: rank_Suc)
qed simp

lemma rank_nth:
  assumes "shown s es m"
  shows "rank s es m < length (user_view s es)" "user_view s es ! rank s es m = (ukey es m, snd (es ! m))"
proof -
  have "m < length es" using assms by (simp add: shown_def)
  then have "[0..<length es] = [0..<m] @ m # [Suc m..<length es]" by (metis less_imp_add_positive less_imp_le upt_add_eq_append upt_conv_Cons le0 add.commute)
  then have "user_view s es = map (\<lambda>i. (ukey es i, snd (es ! i))) (filter (shown s es) [0..<m] @ m # filter (shown s es) [Suc m..<length es])"
    using assms by (simp add: user_view_def)
  then show "rank s es m < length (user_view s es)" "user_view s es ! rank s es m = (ukey es m, snd (es ! m))"
    by (simp_all add: rank_def nth_append)
qed

lemma rank_inv:
  assumes "p < rank s es m"
  obtains i where "i < m" "shown s es i" "p = rank s es i"
proof -
  have "\<exists>i < m. shown s es i \<and> p = rank s es i"
    using assms
  proof (induction m)
    case (Suc m)
    show ?case
    proof (cases "p < rank s es m")
      case True
      then show ?thesis using Suc.IH less_Suc_eq by blast
    next
      case False
      then have "shown s es m" "p = rank s es m" using Suc.prems by (auto simp: rank_Suc split: if_splits)
      then show ?thesis by blast
    qed
  qed simp
  then show thesis using that by blast
qed

lemma rank_less: "shown s es i \<Longrightarrow> i < j \<Longrightarrow> rank s es i < rank s es j"
proof -
  assume a: "shown s es i" "i < j"
  have "rank s es (Suc i) \<le> rank s es j" using a(2) unfolding rank_def by (metis Suc_leI filter_append le_add1 le_add_diff_inverse length_append upt_add_eq_append zero_le)
  then show ?thesis using a(1) by (simp add: rank_Suc)
qed

lemma user_view_ascending:
  assumes "internal_order es"
  shows "ascending Slice_compare (\<lambda>_. True) (user_view s es)"
proof -
  have "fst (user_view s es ! p) < fst (user_view s es ! q)" if pq: "p < q" "q < length (user_view s es)" for p q
  proof -
    obtain j where j: "shown s es j" "q = rank s es j" using pq(2) unfolding rank_length [symmetric] by (rule rank_inv)
    obtain i where i: "i < j" "shown s es i" "p = rank s es i" using pq(1) unfolding j(2) by (rule rank_inv)
    then show ?thesis
      using rank_nth(2) [OF j(1)] rank_nth(2) [OF i(2)] j shown_less [OF assms, of s i j] by (simp add: shown_def)
  qed
  then show ?thesis by (simp add: ascending_def sorted_wrt_iff_nth_less Slice_compare_less)
qed

text \<open>The first entry that is shown and not below a target.\<close>

lemma view_seek:
  assumes "internal_order es" "m \<le> length es" "m < length es \<Longrightarrow> shown s es m \<and> target \<le> ukey es m"
    and "\<And>j. j < m \<Longrightarrow> shown s es j \<Longrightarrow> ukey es j < target"
  shows "seek_position Slice_compare target (user_view s es) = rank s es m"
proof (rule seek_position_eq)
  fix p assume "p < rank s es m"
  then obtain i where "i < m" "shown s es i" "p = rank s es i" by (rule rank_inv)
  then show "Slice_compare (fst (user_view s es ! p)) target < 0" using assms(4) rank_nth(2) by (simp add: Slice_compare_less)
next
  assume p: "rank s es m < length (user_view s es)"
  then have "m < length es" using assms(2) rank_length [of s es] by (cases "m = length es") auto
  then show "\<not> Slice_compare (fst (user_view s es ! rank s es m)) target < 0"
    using assms(3) rank_nth(2) by (auto simp: Slice_compare_less)
next
  show "rank s es m \<le> length (user_view s es)"
    using assms(2,3) rank_nth(1) [of s es m] rank_length [of s es] by (cases "m = length es") auto
qed

text \<open>
  The view in terms of the writes: a key has a value when the newest write of it in reach puts that value.
\<close>

definition latest :: "u64 \<Rightarrow> (bytes \<times> bytes) list \<Rightarrow> bytes \<Rightarrow> bytes \<Rightarrow> bool" where
  "latest s es k v \<longleftrightarrow> (\<exists>x \<in> set es. snd x = v \<and> (\<exists>t. ParseInternalKey (fst x) = Some \<lparr>user_key = k, sequence = t, key_type = kTypeValue\<rparr> \<and> t \<le> s \<and>
     (\<forall>y \<in> set es. \<forall>t' c. ParseInternalKey (fst y) = Some \<lparr>user_key = k, sequence = t', key_type = c\<rparr> \<longrightarrow> t' \<le> s \<longrightarrow> t' \<le> t)))"

lemma parse_entry:
  assumes "parses es" "i < length es"
  shows "ParseInternalKey (fst (es ! i)) = Some \<lparr>user_key = ukey es i, sequence = drop_bit 8 (key_tag (fst (es ! i))),
      key_type = (if is_value es i then kTypeValue else kTypeDeletion)\<rparr>"
    "unat (key_tag (fst (es ! i))) = 256 * unat (drop_bit 8 (key_tag (fst (es ! i)))) + (if is_value es i then 1 else 0)"
proof -
  let ?t = "key_tag (fst (es ! i))"
  have "ParseInternalKey (fst (es ! i)) \<noteq> None" using assms by (simp add: parses_def)
  then have p: "8 \<le> length (fst (es ! i))" "?t AND 0xff \<le> 1" by (auto simp: ParseInternalKey_def Let_def type_byte_def split: if_splits)
  then show "ParseInternalKey (fst (es ! i)) = Some \<lparr>user_key = ukey es i, sequence = drop_bit 8 ?t,
      key_type = (if is_value es i then kTypeValue else kTypeDeletion)\<rparr>"
    by (auto simp: ParseInternalKey_def Let_def type_byte_def ukey_def ExtractUserKey_def is_value_def)
  have "unat ?t = 256 * unat (drop_bit 8 ?t) + unat (?t AND 0xff)"
    by (simp add: low_byte drop_bit_eq_div take_bit_eq_mod unat_div unat_mod)
  moreover have "unat (?t AND 0xff) = (if is_value es i then 1 else 0)"
  proof -
    have "unat (?t AND 0xff) \<le> 1" using p(2) by (simp add: word_le_nat_alt)
    moreover have "?t AND 0xff \<noteq> 0 \<longleftrightarrow> unat (?t AND 0xff) \<noteq> 0" by (simp add: unat_eq_zero)
    ultimately show ?thesis unfolding is_value_def by auto
  qed
  ultimately show "unat ?t = 256 * unat (drop_bit 8 ?t) + (if is_value es i then 1 else 0)" by simp
qed

lemma bex_nth: "(\<exists>x \<in> set xs. P x) \<longleftrightarrow> (\<exists>i < length xs. P (xs ! i))"
  by (metis in_set_conv_nth)

lemma same_key_order:
  assumes "internal_order es" "parses es" "i < j" "j < length es" "ukey es i = ukey es j"
  shows "drop_bit 8 (key_tag (fst (es ! j))) \<le> drop_bit 8 (key_tag (fst (es ! i)))"
    "is_value es j \<Longrightarrow> drop_bit 8 (key_tag (fst (es ! j))) < drop_bit 8 (key_tag (fst (es ! i)))"
proof -
  have "key_tag (fst (es ! j)) < key_tag (fst (es ! i))"
    using internal_keys.ascending_nth(2) [OF assms(1,4,3)] assms(5) by (auto simp: InternalKey_less ukey_def)
  then have "unat (key_tag (fst (es ! j))) < unat (key_tag (fst (es ! i)))" by (simp add: word_less_nat_alt)
  then show "drop_bit 8 (key_tag (fst (es ! j))) \<le> drop_bit 8 (key_tag (fst (es ! i)))"
    "is_value es j \<Longrightarrow> drop_bit 8 (key_tag (fst (es ! j))) < drop_bit 8 (key_tag (fst (es ! i)))"
    using parse_entry(2) [OF assms(2), of i] parse_entry(2) [OF assms(2), of j] assms(3,4)
    by (auto simp: word_le_nat_alt word_less_nat_alt split: if_splits)
qed

lemma user_view_latest:
  assumes "internal_order es" "parses es"
  shows "(k, v) \<in> set (user_view s es) \<longleftrightarrow> latest s es k v"
proof -
  let ?seq = "\<lambda>i. drop_bit 8 (key_tag (fst (es ! i)))"
  have "latest s es k v \<longleftrightarrow> (\<exists>i < length es. snd (es ! i) = v \<and> ukey es i = k \<and> is_value es i \<and> seen s es i \<and>
      (\<forall>j < length es. ukey es j = k \<longrightarrow> seen s es j \<longrightarrow> ?seq j \<le> ?seq i))"
    unfolding latest_def seen_def all_set_conv_all_nth bex_nth
    by (rule iff_exI) (auto simp: parse_entry(1) [OF assms(2)] split: if_splits)
  also have "\<dots> \<longleftrightarrow> (\<exists>i < length es. snd (es ! i) = v \<and> ukey es i = k \<and> shown s es i)"
  proof (rule iff_exI, goal_cases)
    case (1 i)
    have "(\<forall>j < length es. ukey es j = k \<longrightarrow> seen s es j \<longrightarrow> ?seq j \<le> ?seq i) \<longleftrightarrow> (\<forall>j < i. ukey es j = k \<longrightarrow> \<not> seen s es j)"
      if i: "i < length es" "ukey es i = k" "is_value es i"
    proof
      assume all: "\<forall>j < length es. ukey es j = k \<longrightarrow> seen s es j \<longrightarrow> ?seq j \<le> ?seq i"
      show "\<forall>j < i. ukey es j = k \<longrightarrow> \<not> seen s es j"
      proof (intro allI impI notI)
        fix j assume j: "j < i" "ukey es j = k" "seen s es j"
        then have "?seq j \<le> ?seq i" using all i(1) by simp
        moreover have "?seq i < ?seq j" using same_key_order(2) [OF assms j(1) i(1)] i(2,3) j(2) by simp
        ultimately show False by simp
      qed
    next
      assume none: "\<forall>j < i. ukey es j = k \<longrightarrow> \<not> seen s es j"
      show "\<forall>j < length es. ukey es j = k \<longrightarrow> seen s es j \<longrightarrow> ?seq j \<le> ?seq i"
      proof (intro allI impI)
        fix j assume j: "j < length es" "ukey es j = k" "seen s es j"
        then have "j = i \<or> i < j" using none by (cases j i rule: linorder_cases) auto
        then show "?seq j \<le> ?seq i" using same_key_order(1) [OF assms, of i j] i(2) j(1,2) by auto
      qed
    qed
    then show ?case by (cases "i < length es") (auto simp: shown_def)
  qed
  also have "\<dots> \<longleftrightarrow> (k, v) \<in> set (user_view s es)" by (auto simp: user_view_def)
  finally show ?thesis by simp
qed

section \<open>States\<close>

text \<open>
  What always holds; standing on entry \<open>m\<close> while moving forward; and while moving backward, when the inner iterator is on the last
  entry in reach before those of the key.
\<close>

definition db_base :: "((bytes \<times> bytes) list \<Rightarrow> nat \<Rightarrow> 'i \<Rightarrow> bool) \<Rightarrow> (bytes \<times> bytes) list \<Rightarrow> 'i db_iter \<Rightarrow> bool" where
  "db_base on es it \<longleftrightarrow> parses es \<and> internal_order es \<and> sequence_limit it \<le> kMaxSequenceNumber \<and> db_status it = OK \<and> seed_ok (rnd it) \<and>
     (\<exists>q. on es q (inner it))"

definition db_forward :: "((bytes \<times> bytes) list \<Rightarrow> nat \<Rightarrow> 'i \<Rightarrow> bool) \<Rightarrow> (bytes \<times> bytes) list \<Rightarrow> nat \<Rightarrow> 'i db_iter \<Rightarrow> bool" where
  "db_forward on es m it \<longleftrightarrow> direction it = kForward \<and> on es m (inner it)"

definition stops_at :: "u64 \<Rightarrow> (bytes \<times> bytes) list \<Rightarrow> nat \<Rightarrow> nat \<Rightarrow> bool" where
  "stops_at s es m q \<longleftrightarrow> (if q < length es then q < m \<and> seen s es q \<and> ukey es q < ukey es m \<and> (\<forall>j. q < j \<longrightarrow> j < m \<longrightarrow> \<not> seen s es j)
     else q = length es \<and> (\<forall>j < m. \<not> seen s es j))"

definition db_reverse :: "((bytes \<times> bytes) list \<Rightarrow> nat \<Rightarrow> 'i \<Rightarrow> bool) \<Rightarrow> (bytes \<times> bytes) list \<Rightarrow> nat \<Rightarrow> 'i db_iter \<Rightarrow> bool" where
  "db_reverse on es m it \<longleftrightarrow> direction it = kReverse \<and> saved_key it = ukey es m \<and> saved_value it = snd (es ! m) \<and>
     (\<exists>q. on es q (inner it) \<and> stops_at (sequence_limit it) es m q)"

definition db_on :: "nat \<Rightarrow> ((bytes \<times> bytes) list \<Rightarrow> nat \<Rightarrow> 'i \<Rightarrow> bool) \<Rightarrow> (bytes \<times> bytes) list \<Rightarrow> nat \<Rightarrow> 'i db_iter \<Rightarrow> bool" where
  "db_on fuel on view p it \<longleftrightarrow> (\<exists>es. length es < fuel \<and> view = user_view (sequence_limit it) es \<and> db_base on es it \<and>
     (if p < length view
      then \<exists>m. shown (sequence_limit it) es m \<and> p = rank (sequence_limit it) es m \<and> db_valid it \<and> (db_forward on es m it \<or> db_reverse on es m it)
      else p = length view \<and> \<not> db_valid it))"

lemma Slice_compare_le: "Slice_compare a b \<le> 0 \<longleftrightarrow> a \<le> b"
  using Slice_compare_less [of a b] Slice_compare_eq [of a b] by (auto simp: le_less)

section \<open>States of a search\<close>

text \<open>
  Searching forward from entry \<open>i\<close>: entries in reach before it have keys that are skipped, or are below all that follow, and
  those in reach from \<open>i\<close> on are not below the key to skip.
\<close>

definition next_ready :: "((bytes \<times> bytes) list \<Rightarrow> nat \<Rightarrow> 'i \<Rightarrow> bool) \<Rightarrow> (bytes \<times> bytes) list \<Rightarrow> nat \<Rightarrow> bool \<Rightarrow> 'i db_iter \<Rightarrow> bool" where
  "next_ready on es i skipping it \<longleftrightarrow> db_base on es it \<and> direction it = kForward \<and> on es i (inner it) \<and> i < length es \<and>
     (\<forall>j < i. seen (sequence_limit it) es j \<longrightarrow>
        (if skipping then ukey es j \<le> saved_key it else \<forall>k. i \<le> k \<longrightarrow> k < length es \<longrightarrow> ukey es j < ukey es k)) \<and>
     (skipping \<longrightarrow> (\<forall>j. i \<le> j \<longrightarrow> j < length es \<longrightarrow> seen (sequence_limit it) es j \<longrightarrow> saved_key it \<le> ukey es j))"

definition wanted :: "(bytes \<times> bytes) list \<Rightarrow> bool \<Rightarrow> 'i db_iter \<Rightarrow> nat \<Rightarrow> bool" where
  "wanted es skipping it j \<longleftrightarrow> shown (sequence_limit it) es j \<and> (skipping \<longrightarrow> saved_key it < ukey es j)"

definition found_next :: "((bytes \<times> bytes) list \<Rightarrow> nat \<Rightarrow> 'i \<Rightarrow> bool) \<Rightarrow> (bytes \<times> bytes) list \<Rightarrow> nat \<Rightarrow> bool \<Rightarrow> 'i db_iter \<Rightarrow> 'i db_iter \<Rightarrow> bool" where
  "found_next on es i skipping it it' \<longleftrightarrow> db_base on es it' \<and> sequence_limit it' = sequence_limit it \<and>
     (\<exists>m \<ge> i. m \<le> length es \<and> (\<forall>j. i \<le> j \<longrightarrow> j < m \<longrightarrow> \<not> wanted es skipping it j) \<and>
        (if m < length es then wanted es skipping it m \<and> db_valid it' \<and> db_forward on es m it' else \<not> db_valid it'))"

text \<open>
  Searching backward from entry \<open>last\<close>: entries from \<open>low\<close> on have been looked at; the candidate is the lowest of them in reach, when
  it is a value, and no other of them is shown.
\<close>

definition candidate :: "(bytes \<times> bytes) list \<Rightarrow> nat \<Rightarrow> nat \<Rightarrow> value_type \<Rightarrow> 'i db_iter \<Rightarrow> nat \<Rightarrow> bool" where
  "candidate es q0 low vt it c \<longleftrightarrow>
     (if vt = kTypeValue
      then low \<le> c \<and> c \<le> q0 \<and> c < length es \<and> seen (sequence_limit it) es c \<and> is_value es c \<and> saved_key it = ukey es c \<and> saved_value it = snd (es ! c) \<and>
        (\<forall>j. low \<le> j \<longrightarrow> j < c \<longrightarrow> \<not> seen (sequence_limit it) es j) \<and> (\<forall>j. low \<le> j \<longrightarrow> j \<le> q0 \<longrightarrow> shown (sequence_limit it) es j \<longrightarrow> j = c)
      else \<forall>j. low \<le> j \<longrightarrow> j \<le> q0 \<longrightarrow> \<not> shown (sequence_limit it) es j)"

definition found_prev :: "((bytes \<times> bytes) list \<Rightarrow> nat \<Rightarrow> 'i \<Rightarrow> bool) \<Rightarrow> (bytes \<times> bytes) list \<Rightarrow> nat \<Rightarrow> u64 \<Rightarrow> value_type \<Rightarrow> 'i db_iter \<Rightarrow> bool" where
  "found_prev on es q0 s vt it' \<longleftrightarrow> db_base on es it' \<and> sequence_limit it' = s \<and> direction it' = kReverse \<and>
     (if vt = kTypeValue then \<exists>m \<le> q0. shown s es m \<and> (\<forall>j. m < j \<longrightarrow> j \<le> q0 \<longrightarrow> \<not> shown s es j) \<and> db_reverse on es m it'
      else \<forall>j \<le> q0. \<not> shown s es j)"

end
