(* ===== verification/DBSearch.thy ===== *)
theory DBSearch
  imports DBView
begin

text \<open>
  The loops of \<open>FindNextUserEntry\<close> and \<open>FindPrevUserEntry\<close> over any iterator on internal keys that keeps the contract of iterators: they
  end, no assertion fails, and they stand on the next and the previous entry of the view.
\<close>

locale internal_iterator = sorted_iterator InternalKey_Compare internal_key_ok ops on
  for ops :: "'i iter_ops" and on :: "(bytes \<times> bytes) list \<Rightarrow> nat \<Rightarrow> 'i \<Rightarrow> bool"
begin

lemma ParseKey_at:
  assumes "db_base on es it" "on es i (inner it)" "i < length es"
  shows "\<exists>t it'. db_ParseKey b ops it =
      Ok (Some \<lparr>user_key = ukey es i, sequence = t, key_type = (if is_value es i then kTypeValue else kTypeDeletion)\<rparr>, it') \<and>
    (t \<le> sequence_limit it \<longleftrightarrow> seen (sequence_limit it) es i) \<and> same_but_samples it it' \<and> db_base on es it'"
proof -
  have base: "parses es" "seed_ok (rnd it)" using assms(1) by (simp_all add: db_base_def)
  obtain t where t: "ParseInternalKey (fst (es ! i)) =
      Some \<lparr>user_key = ukey es i, sequence = t, key_type = (if is_value es i then kTypeValue else kTypeDeletion)\<rparr>"
    "t \<le> sequence_limit it \<longleftrightarrow> seen (sequence_limit it) es i"
    using parses_nth(1) [OF base(1) assms(3)] by blast
  obtain it' where it': "db_ParseKey b ops it =
      Ok (Some \<lparr>user_key = ukey es i, sequence = t, key_type = (if is_value es i then kTypeValue else kTypeDeletion)\<rparr>, it')" "same_but_samples it it'"
    using ParseKey_samples [OF on_key [OF assms(2,3)] on_value [OF assms(2,3)] t(1) base(2)] by blast
  moreover have "db_base on es it'" using assms(1) it'(2) by (simp add: db_base_def same_but_samples_def)
  ultimately show ?thesis using t(2) by blast
qed

lemma found_later:
  assumes "found_next on es (Suc i) skipping' it1 it'" "sequence_limit it1 = sequence_limit it" "\<not> wanted es skipping it i"
    and "\<And>j. i < j \<Longrightarrow> wanted es skipping' it1 j \<longleftrightarrow> wanted es skipping it j"
  shows "found_next on es i skipping it it'"
proof -
  obtain m where m: "Suc i \<le> m" "m \<le> length es" "\<And>j. Suc i \<le> j \<Longrightarrow> j < m \<Longrightarrow> \<not> wanted es skipping' it1 j"
    "if m < length es then wanted es skipping' it1 m \<and> db_valid it' \<and> db_forward on es m it' else \<not> db_valid it'"
    using assms(1) by (auto simp: found_next_def)
  have "\<not> wanted es skipping it j" if "i \<le> j" "j < m" for j
    using that assms(3,4) m(3) by (cases "j = i") auto
  moreover have "wanted es skipping' it1 m \<longleftrightarrow> wanted es skipping it m" using assms(4) m(1) by simp
  ultimately show ?thesis
    using assms(1,2) m(1,2,4) unfolding found_next_def by (intro conjI exI [of _ m]) auto
qed

lemma find_next_on: "next_ready on es i skipping it \<Longrightarrow> length es - i < fuel \<Longrightarrow>
  \<exists>it'. find_next fuel b ops skipping it = Ok it' \<and> found_next on es i skipping it it'"
proof (induction fuel arbitrary: i skipping it)
  case (Suc fuel)
  let ?s = "sequence_limit it"
  have R: "db_base on es it" "direction it = kForward" "on es i (inner it)" "i < length es" "internal_order es"
    using Suc.prems(1) by (auto simp: next_ready_def db_base_def)
  obtain t it1 where p: "db_ParseKey b ops it =
      Ok (Some \<lparr>user_key = ukey es i, sequence = t, key_type = (if is_value es i then kTypeValue else kTypeDeletion)\<rparr>, it1)"
    "t \<le> ?s \<longleftrightarrow> seen ?s es i" "same_but_samples it it1" "db_base on es it1"
    using ParseKey_at [OF R(1,3,4)] by blast
  have same: "inner it1 = inner it" "sequence_limit it1 = ?s" "saved_key it1 = saved_key it" "direction it1 = kForward"
    using p(3) R(2) by (simp_all add: same_but_samples_def)
  obtain i' where i': "op_Next ops (inner it) = Ok i'" "on es (Suc i) i'" using on_Next [OF R(3,4)] by blast
  have valid: "op_Valid ops i' \<longleftrightarrow> Suc i < length es" by (rule on_Valid [OF i'(2)])
  text \<open>What happens when the entry is not the one.\<close>
  have go_on: "\<exists>it'. (if op_Valid ops (inner (it2\<lparr>inner := i'\<rparr>)) then find_next fuel b ops skipping' (it2\<lparr>inner := i'\<rparr>)
          else Ok (it2\<lparr>inner := i', saved_key := [], db_valid := False\<rparr>)) = Ok it' \<and> found_next on es i skipping it it'"
    if ready: "Suc i < length es \<Longrightarrow> next_ready on es (Suc i) skipping' (it2\<lparr>inner := i'\<rparr>)" and base2: "db_base on es (it2\<lparr>inner := i'\<rparr>)"
      and limit: "sequence_limit it2 = ?s" and unwanted: "\<not> wanted es skipping it i"
      and later: "\<And>j. i < j \<Longrightarrow> wanted es skipping' (it2\<lparr>inner := i'\<rparr>) j \<longleftrightarrow> wanted es skipping it j" for skipping' it2
  proof (cases "Suc i < length es")
    case True
    then obtain it' where it': "find_next fuel b ops skipping' (it2\<lparr>inner := i'\<rparr>) = Ok it'" "found_next on es (Suc i) skipping' (it2\<lparr>inner := i'\<rparr>) it'"
      using Suc.IH [OF ready] Suc.prems(2) by fastforce
    then show ?thesis using found_later [OF it'(2) _ unwanted later] limit True valid by auto
  next
    case False
    then have "found_next on es i skipping it (it2\<lparr>inner := i', saved_key := [], db_valid := False\<rparr>)"
      using base2 limit unwanted R(4) unfolding found_next_def by (intro conjI exI [of _ "Suc i"]) (auto simp: db_base_def le_less_Suc_eq)
    then show ?thesis using False valid by simp
  qed
  have before: "(if skipping then ukey es j \<le> saved_key it else \<forall>k. i \<le> k \<longrightarrow> k < length es \<longrightarrow> ukey es j < ukey es k)" if "j < i" "seen ?s es j" for j
    using Suc.prems(1) that by (simp add: next_ready_def)
  have ahead: "saved_key it \<le> ukey es j" if "skipping" "i \<le> j" "j < length es" "seen ?s es j" for j
    using Suc.prems(1) that by (simp add: next_ready_def)
  have base1: "db_base on es (it1\<lparr>inner := i'\<rparr>)"
    using p(4) i'(2) by (auto simp: db_base_def)
  consider (unseen) "\<not> seen ?s es i" | (deletion) "seen ?s es i" "\<not> is_value es i"
    | (hidden) "seen ?s es i" "is_value es i" "skipping" "ukey es i \<le> saved_key it"
    | (hit) "seen ?s es i" "is_value es i" "skipping \<Longrightarrow> saved_key it < ukey es i"
    by fastforce
  then show ?case
  proof cases
    case unseen
    have "next_ready on es (Suc i) skipping (it1\<lparr>inner := i'\<rparr>)" if "Suc i < length es"
      using base1 unseen that same i'(2) before ahead by (auto simp: next_ready_def less_Suc_eq)
    moreover have "\<not> wanted es skipping it i" using unseen by (simp add: wanted_def shown_def)
    ultimately show ?thesis
      using go_on [of skipping it1] base1 same p(2) unseen i'(1) by (simp add: p(1) wanted_def Let_def)
  next
    case deletion
    let ?it = "it1\<lparr>saved_key := ukey es i, inner := i'\<rparr>"
    have base2: "db_base on es ?it" using p(4) i'(2) by (auto simp: db_base_def)
    have "next_ready on es (Suc i) True ?it" if "Suc i < length es"
      using base2 that same i'(2) ukey_mono [OF R(5)] R(4) by (auto simp: next_ready_def)
    moreover have "\<not> wanted es skipping it i" using deletion by (simp add: wanted_def shown_def)
    moreover have "wanted es True ?it j \<longleftrightarrow> wanted es skipping it j" if "i < j" for j
      using shown_less [OF R(5) deletion(1) that] ahead [of i] R(4) deletion(1) same by (auto simp: wanted_def dest: le_less_trans)
    ultimately show ?thesis
      using go_on [of True "it1\<lparr>saved_key := ukey es i\<rparr>"] base2 same p(2) deletion i'(1) by (simp add: p(1) Let_def)
  next
    case hidden
    have "next_ready on es (Suc i) True (it1\<lparr>inner := i'\<rparr>)" if "Suc i < length es"
      using base1 hidden that same i'(2) before ahead by (auto simp: next_ready_def less_Suc_eq)
    moreover have "\<not> wanted es skipping it i" using hidden by (simp add: wanted_def not_less)
    moreover have "wanted es True (it1\<lparr>inner := i'\<rparr>) j \<longleftrightarrow> wanted es skipping it j" for j
      using hidden(3) same by (simp add: wanted_def)
    moreover have "Slice_compare (ukey es i) (saved_key it) \<le> 0" using hidden(4) by (simp add: Slice_compare_le)
    ultimately show ?thesis
      using go_on [of True it1] base1 same p(2) hidden i'(1) by (simp add: p(1) Let_def)
  next
    case hit
    have "\<not> seen ?s es j" if "j < i" "ukey es j = ukey es i" for j
      using before [of j] that hit(3) R(4) by (cases "seen ?s es j") (auto split: if_splits)
    then have "wanted es skipping it i" using hit R(4) by (simp add: wanted_def shown_def)
    moreover have "\<not> (skipping \<and> Slice_compare (ukey es i) (saved_key it) \<le> 0)"
      using hit(3) by (auto simp: Slice_compare_le)
    moreover have "db_base on es (it1\<lparr>db_valid := True, saved_key := []\<rparr>)" using p(4) by (simp add: db_base_def)
    ultimately have "found_next on es i skipping it (it1\<lparr>db_valid := True, saved_key := []\<rparr>)"
      using same R(3,4) unfolding found_next_def by (intro conjI exI [of _ i]) (auto simp: db_forward_def)
    then show ?thesis
      using p(2) hit same \<open>\<not> (skipping \<and> Slice_compare (ukey es i) (saved_key it) \<le> 0)\<close> by (cases skipping) (simp_all add: p(1))
  qed
qed simp

lemma candidate_found:
  assumes "candidate es q0 low vt it c" "db_base on es it" "direction it = kReverse" "on es q (inner it)"
    and stop: "vt = kTypeValue \<Longrightarrow> stops_at (sequence_limit it) es c q"
    and start: "vt \<noteq> kTypeValue \<Longrightarrow> low = 0"
    and low: "\<And>j. vt = kTypeValue \<Longrightarrow> j < low \<Longrightarrow> ukey es j = ukey es c \<Longrightarrow> \<not> seen (sequence_limit it) es j"
  shows "found_prev on es q0 (sequence_limit it) vt it"
proof (cases "vt = kTypeValue")
  case True
  let ?s = "sequence_limit it"
  have c: "low \<le> c" "c \<le> q0" "c < length es" "seen ?s es c" "is_value es c" "saved_key it = ukey es c" "saved_value it = snd (es ! c)"
    "\<And>j. low \<le> j \<Longrightarrow> j < c \<Longrightarrow> \<not> seen ?s es j" "\<And>j. low \<le> j \<Longrightarrow> j \<le> q0 \<Longrightarrow> shown ?s es j \<Longrightarrow> j = c"
    using assms(1) True by (auto simp: candidate_def)
  have "\<not> seen ?s es j" if "j < c" "ukey es j = ukey es c" for j
    using that c(8) low [OF True] by (cases "j < low") auto
  then have "shown ?s es c" using c(3-5) by (simp add: shown_def)
  moreover have "\<not> shown ?s es j" if "c < j" "j \<le> q0" for j using c(9) [of j] c(1) that by auto
  moreover have "db_reverse on es c it" using assms(3,4) c(6,7) stop [OF True] by (auto simp: db_reverse_def)
  ultimately show ?thesis using assms(2,3) c(2) True by (auto simp: found_prev_def)
next
  case False
  then show ?thesis using assms(1-3) start by (auto simp: found_prev_def candidate_def)
qed

lemma find_prev_on: "candidate es q0 (Suc q) vt it c \<Longrightarrow> db_base on es it \<Longrightarrow> direction it = kReverse \<Longrightarrow> on es q (inner it) \<Longrightarrow>
  q < length es \<Longrightarrow> q \<le> q0 \<Longrightarrow> q < fuel \<Longrightarrow>
  \<exists>vt' it'. find_prev fuel b ops vt it = Ok (vt', it') \<and> found_prev on es q0 (sequence_limit it) vt' it'"
proof (induction fuel arbitrary: q vt it c)
  case (Suc fuel)
  let ?s = "sequence_limit it"
  have order: "internal_order es" using Suc.prems(2) by (simp add: db_base_def)
  obtain t it1 where p: "db_ParseKey b ops it =
      Ok (Some \<lparr>user_key = ukey es q, sequence = t, key_type = (if is_value es q then kTypeValue else kTypeDeletion)\<rparr>, it1)"
    "t \<le> ?s \<longleftrightarrow> seen ?s es q" "same_but_samples it it1" "db_base on es it1"
    using ParseKey_at [OF Suc.prems(2,4,5)] by blast
  have same: "inner it1 = inner it" "sequence_limit it1 = ?s" "saved_key it1 = saved_key it" "saved_value it1 = saved_value it" "direction it1 = kReverse"
    using p(3) Suc.prems(3) by (simp_all add: same_but_samples_def)
  obtain i' where i': "op_Prev ops (inner it) = Ok i'" "on es (if q = 0 then length es else q - 1) i'" using on_Prev [OF Suc.prems(4,5)] by blast
  have valid: "op_Valid ops i' \<longleftrightarrow> q \<noteq> 0" using on_Valid [OF i'(2)] Suc.prems(5) by auto
  have go_on: "\<exists>vt' it'. (if op_Valid ops (inner (it2\<lparr>inner := i'\<rparr>)) then find_prev fuel b ops vt2 (it2\<lparr>inner := i'\<rparr>) else Ok (vt2, it2\<lparr>inner := i'\<rparr>)) = Ok (vt', it') \<and>
      found_prev on es q0 ?s vt' it'"
    if cand: "candidate es q0 q vt2 it2 c2" and base2: "db_base on es it2" and same2: "direction it2 = kReverse" "sequence_limit it2 = ?s" for vt2 it2 c2
  proof -
    let ?it = "it2\<lparr>inner := i'\<rparr>"
    have base3: "db_base on es ?it" using base2 i'(2) by (auto simp: db_base_def)
    have cand3: "candidate es q0 q vt2 ?it c2" using cand by (simp add: candidate_def)
    show ?thesis
    proof (cases "q = 0")
      case True
      have "found_prev on es q0 (sequence_limit ?it) vt2 ?it"
        using cand3 True i'(2) same2 by (intro candidate_found [OF cand3 base3]) (auto simp: stops_at_def candidate_def)
      then show ?thesis using True valid same2 by simp
    next
      case False
      then have "Suc (q - 1) = q" "q - 1 < length es" "q - 1 \<le> q0" "q - 1 < fuel" using Suc.prems(5-7) by auto
      then obtain vt' it' where "find_prev fuel b ops vt2 ?it = Ok (vt', it')" "found_prev on es q0 (sequence_limit ?it) vt' it'"
        using Suc.IH [of "q - 1" vt2 ?it c2] cand3 base3 same2 i'(2) False by auto
      then show ?thesis using False valid same2 by simp
    qed
  qed
  have no_other: "\<not> shown ?s es j" if "q < j" "j \<le> q0" "seen ?s es q" "vt = kTypeValue \<Longrightarrow> \<not> ukey es q < saved_key it" for j
  proof (cases "vt = kTypeValue")
    case True
    show ?thesis
    proof
      assume j: "shown ?s es j"
      then have "j = c" "saved_key it = ukey es c" using Suc.prems(1) that(1,2) True by (auto simp: candidate_def)
      then show False using shown_less [OF order that(3,1) j] that(4) True by simp
    qed
  next
    case False
    then show ?thesis using Suc.prems(1) that(1,2) by (simp add: candidate_def)
  qed
  have from_q: "q \<le> j \<longleftrightarrow> j = q \<or> q < j" for j by auto
  consider (unseen) "\<not> seen ?s es q" | (stop) "seen ?s es q" "vt = kTypeValue" "ukey es q < saved_key it"
    | (deletion) "seen ?s es q" "vt = kTypeValue \<Longrightarrow> \<not> ukey es q < saved_key it" "\<not> is_value es q"
    | (hit) "seen ?s es q" "vt = kTypeValue \<Longrightarrow> \<not> ukey es q < saved_key it" "is_value es q"
    by fastforce
  then show ?case
  proof cases
    case unseen
    have "candidate es q0 q vt it1 c"
      using Suc.prems(1) unseen same from_q by (simp add: candidate_def shown_def split: if_splits)
    then show ?thesis
      using go_on [of vt it1] p(2,4) same unseen i'(1) by (simp add: p(1) Let_def)
  next
    case stop
    have "candidate es q0 (Suc q) vt it1 c" using Suc.prems(1) same by (simp add: candidate_def)
    then have "found_prev on es q0 (sequence_limit it1) vt it1"
    proof (rule candidate_found [OF _ p(4) same(5), where q = q])
      have c: "saved_key it = ukey es c" "Suc q \<le> c" "\<And>j. Suc q \<le> j \<Longrightarrow> j < c \<Longrightarrow> \<not> seen ?s es j"
        using Suc.prems(1) stop(2) by (simp_all add: candidate_def)
      show "on es q (inner it1)" using Suc.prems(4) same by simp
      show "stops_at (sequence_limit it1) es c q" if "vt = kTypeValue"
        using c stop Suc.prems(5) same by (simp add: stops_at_def)
      show "Suc q = 0" if "vt \<noteq> kTypeValue" using that stop by simp
      show "\<not> seen (sequence_limit it1) es j" if "j < Suc q" "ukey es j = ukey es c" for j
        using that ukey_mono [OF order, of j q] Suc.prems(5) stop(3) c(1) by auto
    qed
    then show ?thesis using stop p(2) same by (simp add: p(1) Slice_compare_less)
  next
    case deletion
    have "candidate es q0 q kTypeDeletion (it1\<lparr>saved_key := [], saved_value := []\<rparr>) q"
      using no_other [OF _ _ deletion(1,2)] deletion(3) same from_q by (auto simp: candidate_def shown_def [of _ _ q])
    moreover have "db_base on es (it1\<lparr>saved_key := [], saved_value := []\<rparr>)" using p(4) by (simp add: db_base_def)
    ultimately show ?thesis
      using go_on [of kTypeDeletion "it1\<lparr>saved_key := [], saved_value := []\<rparr>"] deletion p(2) same i'(1)
      by (cases vt) (simp_all add: p(1) Let_def Slice_compare_less)
  next
    case hit
    let ?it = "it1\<lparr>saved_key := ukey es q, saved_value := snd (es ! q)\<rparr>"
    have "candidate es q0 q kTypeValue ?it q"
      using no_other [OF _ _ hit(1,2)] hit same Suc.prems(5,6) from_q by (auto simp: candidate_def)
    moreover have "db_base on es ?it" using p(4) by (simp add: db_base_def)
    moreover have "user_key_of b (fst (es ! q)) = Ok (ukey es q)"
      using parses_nth(2) [of es q] Suc.prems(2,5) by (simp add: user_key_of_def ukey_def db_base_def)
    ultimately show ?thesis
      using go_on [of kTypeValue ?it] hit p(2) same i'(1) on_key [OF Suc.prems(4,5)] on_value [OF Suc.prems(4,5)]
      by (cases vt) (simp_all add: p(1) Let_def Slice_compare_less)
  qed
qed simp

end

end
