(* ===== verification/Cursor.thy ===== *)
theory Cursor
  imports Iterators
begin

text \<open>
  What a client of an iterator sees, whatever it calls and in whatever order, against a list of entries and a position in it.
\<close>

datatype call = CallNext | CallPrev | CallSeek bytes | CallSeekToFirst | CallSeekToLast

text \<open>\<open>Next\<close> and \<open>Prev\<close> are called on valid iterators only, as src/include/leveldb/iterator.h asks.\<close>

fun call_op :: "'i iter_ops \<Rightarrow> call \<Rightarrow> 'i \<Rightarrow> 'i result" where
  "call_op ops CallNext it = (if op_Valid ops it then op_Next ops it else Ok it)"
| "call_op ops CallPrev it = (if op_Valid ops it then op_Prev ops it else Ok it)"
| "call_op ops (CallSeek target) it = op_Seek ops target it"
| "call_op ops CallSeekToFirst it = op_SeekToFirst ops it"
| "call_op ops CallSeekToLast it = op_SeekToLast ops it"

definition observe :: "'i iter_ops \<Rightarrow> 'i \<Rightarrow> (bytes \<times> bytes) option result" where
  "observe ops it =
     (if op_Valid ops it then bind_result (op_key ops it) (\<lambda>k. bind_result (op_value ops it) (\<lambda>v. Ok (Some (k, v)))) else Ok None)"

text \<open>What is at the iterator after each call, and the status at the end.\<close>

fun client :: "'i iter_ops \<Rightarrow> call list \<Rightarrow> 'i \<Rightarrow> ((bytes \<times> bytes) option list \<times> status) result" where
  "client ops [] it = Ok ([], op_status ops it)"
| "client ops (c # cs) it =
     bind_result (call_op ops c it) (\<lambda>it. bind_result (observe ops it) (\<lambda>e. bind_result (client ops cs it) (\<lambda>(es, st). Ok (e # es, st))))"

text \<open>The same for a position in a list; the length of the list stands for no position.\<close>

fun move :: "(bytes \<Rightarrow> bytes \<Rightarrow> int) \<Rightarrow> (bytes \<times> bytes) list \<Rightarrow> call \<Rightarrow> nat \<Rightarrow> nat" where
  "move cmp es CallNext p = (if p < length es then Suc p else p)"
| "move cmp es CallPrev p = (if p < length es then if p = 0 then length es else p - 1 else p)"
| "move cmp es (CallSeek target) p = seek_position cmp target es"
| "move cmp es CallSeekToFirst p = 0"
| "move cmp es CallSeekToLast p = length es - 1"

fun cursor :: "(bytes \<Rightarrow> bytes \<Rightarrow> int) \<Rightarrow> (bytes \<times> bytes) list \<Rightarrow> call list \<Rightarrow> nat \<Rightarrow> (bytes \<times> bytes) option list" where
  "cursor cmp es [] p = []"
| "cursor cmp es (c # cs) p = (let p = move cmp es c p in (if p < length es then Some (es ! p) else None) # cursor cmp es cs p)"

definition call_ok :: "(bytes \<Rightarrow> bool) \<Rightarrow> call \<Rightarrow> bool" where
  "call_ok key_ok c \<longleftrightarrow> (case c of CallSeek target \<Rightarrow> key_ok target | _ \<Rightarrow> True)"

context sorted_iterator
begin

lemma call_on:
  assumes "on es p it" "call_ok key_ok c"
  shows "\<exists>it'. call_op ops c it = Ok it' \<and> on es (move cmp es c p) it'"
  using assms on_Valid [OF assms(1)] on_Next [OF assms(1)] on_Prev [OF assms(1)] on_Seek [OF assms(1)] on_SeekToFirst [OF assms(1)]
    on_SeekToLast [OF assms(1)]
  by (cases c) (auto simp: call_ok_def)

lemma observe_on: "on es p it \<Longrightarrow> observe ops it = Ok (if p < length es then Some (es ! p) else None)"
  using on_Valid [of es p it] on_key [of es p it] on_value [of es p it] by (simp add: observe_def)

lemma client_on: "on es p it \<Longrightarrow> \<forall>c \<in> set cs. call_ok key_ok c \<Longrightarrow> client ops cs it = Ok (cursor cmp es cs p, OK)"
proof (induction cs arbitrary: p it)
  case Nil
  then show ?case by (simp add: on_status)
next
  case (Cons c cs)
  obtain it' where "call_op ops c it = Ok it'" "on es (move cmp es c p) it'" using call_on [OF Cons.prems(1), of c] Cons.prems(2) by auto
  then show ?case using Cons.IH [of "move cmp es c p" it'] Cons.prems(2) observe_on by (simp add: Let_def)
qed

text \<open>A state belongs to one position only.\<close>

lemma on_unique:
  assumes "on es p it" "on es q it"
  shows "p = q"
proof (cases "p < length es")
  case True
  then have q: "q < length es" using on_Valid [OF assms(1)] on_Valid [OF assms(2)] by simp
  have asc: "ascending cmp key_ok es" using on_entries [OF assms(1)] by simp
  have "fst (es ! p) = fst (es ! q)" using on_key [OF assms(1) True] on_key [OF assms(2) q] by simp
  then have "\<not> cmp (fst (es ! p)) (fst (es ! q)) < 0" "\<not> cmp (fst (es ! q)) (fst (es ! p)) < 0"
    using cmp_irrefl [OF ascending_nth(1) [OF asc True]] by simp_all
  then show ?thesis using ascending_nth(2) [OF asc q] ascending_nth(2) [OF asc True] by (cases p q rule: linorder_cases) auto
next
  case False
  then show ?thesis using on_entries [OF assms(1)] on_entries [OF assms(2)] on_Valid [OF assms(1)] on_Valid [OF assms(2)] by auto
qed

end

end
