(* ===== verification/DBOperations.thy ===== *)
theory DBOperations
  imports DBSearch Cursor TableIteration
begin

text \<open>
  The iterator of a database keeps the contract of iterators: over internal keys in ascending order, from any iterator that
  keeps the contract itself, it shows the view of its sequence number.
\<close>

context internal_iterator
begin

lemma found_next_on:
  assumes "found_next on es i skipping it it'" "length es < fuel"
  obtains m where "i \<le> m" "m \<le> length es" "\<And>j. i \<le> j \<Longrightarrow> j < m \<Longrightarrow> \<not> wanted es skipping it j"
    "m < length es \<Longrightarrow> wanted es skipping it m"
    "db_on fuel on (user_view (sequence_limit it) es) (rank (sequence_limit it) es m) it'"
proof -
  let ?s = "sequence_limit it"
  obtain m where m: "i \<le> m" "m \<le> length es" "\<And>j. i \<le> j \<Longrightarrow> j < m \<Longrightarrow> \<not> wanted es skipping it j"
    "if m < length es then wanted es skipping it m \<and> db_valid it' \<and> db_forward on es m it' else \<not> db_valid it'"
    using assms(1) by (auto simp: found_next_def)
  have base: "db_base on es it'" "sequence_limit it' = ?s" using assms(1) by (auto simp: found_next_def)
  have "db_on fuel on (user_view ?s es) (rank ?s es m) it'"
  proof (cases "m < length es")
    case True
    then have "shown ?s es m" using m(4) by (simp add: wanted_def)
    then have "rank ?s es m < length (user_view ?s es)" by (rule rank_nth(1))
    then show ?thesis using base m(4) True \<open>shown ?s es m\<close> assms(2) unfolding db_on_def by (intro exI [of _ es]) auto
  next
    case False
    then have "m = length es" using m(2) by simp
    then have "rank ?s es m = length (user_view ?s es)" by (simp add: rank_length)
    then show ?thesis using base m(4) False assms(2) unfolding db_on_def by (intro exI [of _ es]) auto
  qed
  then show thesis using m that by (auto split: if_splits)
qed

lemma FindNext_ready:
  assumes "next_ready on es i skipping it" "length es < fuel"
  obtains it' where "FindNextUserEntry fuel b ops skipping it = Ok it'" "found_next on es i skipping it it'"
proof -
  have "on es i (inner it)" "i < length es" "direction it = kForward" using assms(1) by (simp_all add: next_ready_def)
  moreover have "length es - i < fuel" using assms(2) by simp
  ultimately show thesis
    using find_next_on [OF assms(1), of fuel b] on_Valid [of es i "inner it"] that by (auto simp: FindNextUserEntry_def)
qed

lemma Next_from:
  assumes "next_ready on es i True it" "saved_key it = ukey es m" "shown (sequence_limit it) es m" "i \<le> m" "length es < fuel"
    and between: "\<And>j. i \<le> j \<Longrightarrow> j < m \<Longrightarrow> \<not> shown (sequence_limit it) es j \<or> ukey es j \<le> ukey es m"
  shows "\<exists>it'. FindNextUserEntry fuel b ops True it = Ok it' \<and>
    db_on fuel on (user_view (sequence_limit it) es) (Suc (rank (sequence_limit it) es m)) it'"
proof -
  let ?s = "sequence_limit it"
  have order: "internal_order es" using assms(1) by (simp add: next_ready_def db_base_def)
  obtain it' where it': "FindNextUserEntry fuel b ops True it = Ok it'" "found_next on es i True it it'"
    using FindNext_ready [OF assms(1,5)] by blast
  obtain n where n: "i \<le> n" "n \<le> length es" "\<And>j. i \<le> j \<Longrightarrow> j < n \<Longrightarrow> \<not> wanted es True it j" "n < length es \<Longrightarrow> wanted es True it n"
    "db_on fuel on (user_view ?s es) (rank ?s es n) it'"
    using found_next_on [OF it'(2) assms(5)] by blast
  have m: "m < length es" "seen ?s es m" using assms(3) by (simp_all add: shown_def)
  have "m < n"
  proof (rule ccontr)
    assume "\<not> m < n"
    then have "wanted es True it n" using n(4) m(1) by simp
    then have "ukey es m < ukey es n" "shown ?s es n" using assms(2) by (simp_all add: wanted_def)
    then show False using ukey_mono [OF order, of n m] \<open>\<not> m < n\<close> m(1) by auto
  qed
  have "\<not> shown ?s es j" if "m < j" "j < n" for j
    using n(3) [of j] that assms(2,4) shown_less [OF order m(2) that(1)] by (auto simp: wanted_def)
  then have "rank ?s es n = rank ?s es (Suc m)" using \<open>m < n\<close> by (intro rank_same) auto
  then show ?thesis using it'(1) n(5) assms(3) by (simp add: rank_Suc)
qed

lemma db_onE:
  assumes "db_on fuel on view p it" "p < length view"
  obtains es m where "length es < fuel" "view = user_view (sequence_limit it) es" "db_base on es it" "shown (sequence_limit it) es m"
    "p = rank (sequence_limit it) es m" "db_valid it" "db_forward on es m it \<or> db_reverse on es m it"
  using assms by (auto simp: db_on_def)

lemma user_key_at: "db_base on es it \<Longrightarrow> m < length es \<Longrightarrow> user_key_of b (fst (es ! m)) = Ok (ukey es m)"
  using parses_nth(2) [of es m] by (simp add: user_key_of_def ukey_def db_base_def)

lemma db_Next_on:
  assumes "db_on fuel on view p it" "p < length view"
  shows "\<exists>it'. db_Next fuel b ops it = Ok it' \<and> db_on fuel on view (Suc p) it'"
proof -
  let ?s = "sequence_limit it"
  obtain es m where D: "length es < fuel" "view = user_view ?s es" "db_base on es it" "shown ?s es m" "p = rank ?s es m" "db_valid it"
    "db_forward on es m it \<or> db_reverse on es m it"
    using assms by (rule db_onE)
  have m: "m < length es" "seen ?s es m" using D(4) by (simp_all add: shown_def)
  have order: "internal_order es" using D(3) by (simp add: db_base_def)
  note mono = ukey_mono [OF order]
  show ?thesis
  proof (cases "direction it")
    case kForward
    then have at: "on es m (inner it)" using D(7) by (auto simp: db_forward_def db_reverse_def)
    let ?it = "it\<lparr>saved_key := ukey es m\<rparr>"
    have "next_ready on es m True ?it" using D(3) kForward at m mono by (auto simp: next_ready_def db_base_def)
    from Next_from [OF this _ _ _ D(1), of m b] show ?thesis
      using D(2,4-6) kForward on_key [OF at m(1)] user_key_at [OF D(3) m(1), of b] by (simp add: db_Next_def)
  next
    case kReverse
    then obtain q where q: "on es q (inner it)" "stops_at ?s es m q" and keys: "saved_key it = ukey es m"
      using D(7) by (auto simp: db_forward_def db_reverse_def)
    obtain i0 i' where i': "(if \<not> op_Valid ops (inner it) then op_SeekToFirst ops (inner it) else op_Next ops (inner it)) = Ok i'" "on es i0 i'"
      "i0 = (if q < length es then Suc q else 0)"
    proof (cases "q < length es")
      case True
      then show thesis using that on_Next [OF q(1)] on_Valid [OF q(1)] by auto
    next
      case False
      then show thesis using that on_SeekToFirst [OF q(1)] on_Valid [OF q(1)] by auto
    qed
    have i0: "i0 \<le> m" "\<And>j. i0 \<le> j \<Longrightarrow> j < m \<Longrightarrow> \<not> seen ?s es j" "\<And>j. j < i0 \<Longrightarrow> ukey es j \<le> ukey es m"
      using q(2) i'(3) mono m(1) by (auto simp: stops_at_def split: if_splits)
    let ?it = "it\<lparr>direction := kForward, inner := i'\<rparr>"
    have "next_ready on es i0 True ?it"
      using D(3) i'(2) m i0 keys mono by (auto simp: next_ready_def db_base_def) (metis not_less)
    from Next_from [OF this _ _ _ D(1), of m b] obtain it' where it': "FindNextUserEntry fuel b ops True ?it = Ok it'"
      "db_on fuel on (user_view ?s es) (Suc (rank ?s es m)) it'"
      using D(4) keys i0 by (auto simp: shown_def)
    have "op_Valid ops i'" using on_Valid [OF i'(2)] i0(1) m(1) by simp
    then have "db_Next fuel b ops it = Ok it'"
      using i'(1) it'(1) D(6) kReverse by (cases "op_Valid ops (inner it)") (simp_all add: db_Next_def Let_def)
    then show ?thesis using it'(2) D(2,5) by simp
  qed
qed

text \<open>Backward: what is shown below the limit decides.\<close>

lemma FindPrev_on:
  assumes "db_base on es it" "direction it = kReverse" "on es q (inner it)" "length es < fuel"
    and r: "rank (sequence_limit it) es (if q < length es then Suc q else 0) = r"
  shows "\<exists>it'. FindPrevUserEntry fuel b ops it = Ok it' \<and>
    db_on fuel on (user_view (sequence_limit it) es) (if r = 0 then length (user_view (sequence_limit it) es) else r - 1) it'"
proof -
  let ?s = "sequence_limit it" and ?lim = "if q < length es then Suc q else 0"
  have "\<exists>vt it1. (if op_Valid ops (inner it) then find_prev fuel b ops kTypeDeletion it else Ok (kTypeDeletion, it)) = Ok (vt, it1) \<and>
      db_base on es it1 \<and> sequence_limit it1 = ?s \<and>
      (if vt = kTypeValue then \<exists>m < ?lim. shown ?s es m \<and> (\<forall>j. m < j \<longrightarrow> j < ?lim \<longrightarrow> \<not> shown ?s es j) \<and> db_reverse on es m it1
       else \<forall>j < ?lim. \<not> shown ?s es j)" (is ?found)
  proof (cases "q < length es")
    case True
    have c: "candidate es q (Suc q) kTypeDeletion it q" by (simp add: candidate_def)
    have "q < fuel" using True assms(4) by simp
    from find_prev_on [OF c assms(1-3) True order_refl this, of b] obtain vt it1
      where "find_prev fuel b ops kTypeDeletion it = Ok (vt, it1)" "found_prev on es q ?s vt it1" by blast
    then show ?thesis using True on_Valid [OF assms(3)] by (simp add: found_prev_def less_Suc_eq_le split: if_splits)
  next
    case False
    then show ?thesis using assms(1) on_Valid [OF assms(3)] by simp
  qed
  from this obtain vt it1 where f: "(if op_Valid ops (inner it) then find_prev fuel b ops kTypeDeletion it else Ok (kTypeDeletion, it)) = Ok (vt, it1)"
    "db_base on es it1" "sequence_limit it1 = ?s"
    "if vt = kTypeValue then \<exists>m < ?lim. shown ?s es m \<and> (\<forall>j. m < j \<longrightarrow> j < ?lim \<longrightarrow> \<not> shown ?s es j) \<and> db_reverse on es m it1
       else \<forall>j < ?lim. \<not> shown ?s es j" by blast
  show ?thesis
  proof (cases vt)
    case kTypeValue
    then obtain m where m: "m < ?lim" "shown ?s es m" "\<And>j. m < j \<Longrightarrow> j < ?lim \<Longrightarrow> \<not> shown ?s es j" "db_reverse on es m it1"
      using f(4) by auto
    have "rank ?s es ?lim = rank ?s es (Suc m)" using m(1,3) by (intro rank_same) auto
    then have "r = Suc (rank ?s es m)" using m(2) r by (simp add: rank_Suc)
    have "db_on fuel on (user_view ?s es) (rank ?s es m) (it1\<lparr>db_valid := True\<rparr>)"
      using assms(4) f(2,3) m(2,4) rank_nth(1) [OF m(2)] unfolding db_on_def
      by (intro exI [of _ es]) (auto simp: db_base_def db_reverse_def)
    then show ?thesis using \<open>r = Suc (rank ?s es m)\<close> f(1) assms(2) kTypeValue by (simp add: FindPrevUserEntry_def)
  next
    case kTypeDeletion
    then have "rank ?s es ?lim = rank ?s es 0" using f(4) by (intro rank_same) auto
    then have "r = 0" using r by simp
    have "db_on fuel on (user_view ?s es) (length (user_view ?s es))
        (it1\<lparr>db_valid := False, saved_key := [], saved_value := [], direction := kForward\<rparr>)"
      using assms(4) f(2,3) unfolding db_on_def by (intro exI [of _ es]) (auto simp: db_base_def)
    then show ?thesis using \<open>r = 0\<close> f(1) assms(2) kTypeDeletion by (simp add: FindPrevUserEntry_def)
  qed
qed

lemma back_over_on:
  assumes "internal_order es" "parses es"
  shows "on es i (inner it) \<Longrightarrow> saved_key it = u \<Longrightarrow> i < length es \<Longrightarrow> i < fuel \<Longrightarrow>
    \<exists>found i'. (if found then \<exists>q < i. on es q i' \<and> ukey es q < u \<and> (\<forall>j. q < j \<longrightarrow> j < i \<longrightarrow> u \<le> ukey es j)
        else on es (length es) i' \<and> (\<forall>j < i. u \<le> ukey es j)) \<and>
      back_over fuel b ops it = Ok (found, if found then it\<lparr>inner := i'\<rparr> else it\<lparr>inner := i', db_valid := False, saved_key := [], saved_value := []\<rparr>)"
proof (induction fuel arbitrary: i it)
  case (Suc fuel)
  obtain i1 where i1: "op_Prev ops (inner it) = Ok i1" "on es (if i = 0 then length es else i - 1) i1" using on_Prev [OF Suc.prems(1,3)] by blast
  show ?case
  proof (cases i)
    case 0
    then have "\<not> op_Valid ops i1" using on_Valid [OF i1(2)] by simp
    then show ?thesis using 0 i1 by (intro exI [of _ False] exI [of _ i1]) simp
  next
    case (Suc q)
    have q: "on es q i1" "q < length es" "op_Valid ops i1" using Suc i1(2) Suc.prems(3) on_Valid [OF i1(2)] by auto
    have key: "op_key ops i1 = Ok (fst (es ! q))" "user_key_of b (fst (es ! q)) = Ok (ukey es q)"
      using on_key [OF q(1,2)] parses_nth(2) [OF assms(2) q(2)] by (simp_all add: user_key_of_def ukey_def)
    show ?thesis
    proof (cases "ukey es q < u")
      case True
      then show ?thesis
        using Suc q i1(1) key by (intro exI [of _ True] exI [of _ i1]) (auto simp: Let_def Slice_compare_less Suc.prems(2))
    next
      case False
      let ?it = "it\<lparr>inner := i1\<rparr>"
      have step: "back_over (Suc fuel) b ops it = back_over fuel b ops ?it"
        using q(3) i1(1) key False by (simp add: Let_def Slice_compare_less Suc.prems(2))
      obtain found i' where f: "if found then \<exists>q' < q. on es q' i' \<and> ukey es q' < u \<and> (\<forall>j. q' < j \<longrightarrow> j < q \<longrightarrow> u \<le> ukey es j)
          else on es (length es) i' \<and> (\<forall>j < q. u \<le> ukey es j)"
        "back_over fuel b ops ?it = Ok (found, if found then ?it\<lparr>inner := i'\<rparr> else ?it\<lparr>inner := i', db_valid := False, saved_key := [], saved_value := []\<rparr>)"
        using Suc.IH [of q ?it] q Suc Suc.prems(2,4) by auto
      show ?thesis
      proof (cases found)
        case True
        then obtain q' where "q' < q" "on es q' i'" "ukey es q' < u" "\<And>j. q' < j \<Longrightarrow> j < q \<Longrightarrow> u \<le> ukey es j"
          using f(1) by auto
        moreover have "u \<le> ukey es q" using False by simp
        ultimately show ?thesis
          using True f(2) step Suc by (intro exI [of _ True] exI [of _ i']) (auto simp: less_Suc_eq)
      next
        case no: False
        then show ?thesis
          using f step Suc False by (intro exI [of _ False] exI [of _ i']) (auto simp: less_Suc_eq)
      qed
    qed
  qed
qed simp

lemma db_Prev_on:
  assumes "db_on fuel on view p it" "p < length view"
  shows "\<exists>it'. db_Prev fuel b ops it = Ok it' \<and> db_on fuel on view (if p = 0 then length view else p - 1) it'"
proof -
  let ?s = "sequence_limit it"
  obtain es m where D: "length es < fuel" "view = user_view ?s es" "db_base on es it" "shown ?s es m" "p = rank ?s es m" "db_valid it"
    "db_forward on es m it \<or> db_reverse on es m it"
    using assms by (rule db_onE)
  have m: "m < length es" "\<And>j. j < m \<Longrightarrow> ukey es j = ukey es m \<Longrightarrow> \<not> seen ?s es j" using D(4) by (simp_all add: shown_def)
  have base: "internal_order es" "parses es" using D(3) by (simp_all add: db_base_def)
  have unseen: "\<not> shown ?s es j" if "\<not> seen ?s es j" for j using that by (simp add: shown_def)
  have same_key: "\<not> shown ?s es j" if "j < m" "ukey es m \<le> ukey es j" for j
    using that m ukey_mono [OF base(1), of j m] unseen by auto
  show ?thesis
  proof (cases "direction it")
    case kReverse
    then obtain q where q: "on es q (inner it)" "stops_at ?s es m q" using D(7) by (auto simp: db_forward_def db_reverse_def)
    let ?lim = "if q < length es then Suc q else 0"
    have "rank ?s es m = rank ?s es ?lim"
      using q(2) unseen by (intro rank_same) (auto simp: stops_at_def split: if_splits)
    then have "rank ?s es ?lim = p" using D(5) by simp
    from FindPrev_on [OF D(3) kReverse q(1) D(1) this, of b] show ?thesis using D(2,6) kReverse by (cases "p = 0") (simp_all add: db_Prev_def)
  next
    case kForward
    then have at: "on es m (inner it)" using D(7) by (auto simp: db_forward_def db_reverse_def)
    let ?it = "it\<lparr>saved_key := ukey es m\<rparr>"
    obtain found i' where f: "if found then \<exists>q < m. on es q i' \<and> ukey es q < ukey es m \<and> (\<forall>j. q < j \<longrightarrow> j < m \<longrightarrow> ukey es m \<le> ukey es j)
        else on es (length es) i' \<and> (\<forall>j < m. ukey es m \<le> ukey es j)"
      "back_over fuel b ops ?it =
        Ok (found, if found then ?it\<lparr>inner := i'\<rparr> else ?it\<lparr>inner := i', db_valid := False, saved_key := [], saved_value := []\<rparr>)"
      using back_over_on [OF base, of m ?it "ukey es m" fuel b] at m(1) D(1) by auto
    have start: "db_Prev fuel b ops it =
        (if found then FindPrevUserEntry fuel b ops (?it\<lparr>inner := i', direction := kReverse\<rparr>)
         else Ok (?it\<lparr>inner := i', db_valid := False, saved_key := [], saved_value := []\<rparr>))"
      using D(6) kForward on_Valid [OF at] on_key [OF at m(1)] user_key_at [OF D(3) m(1), of b] m(1) f(2) by (simp add: db_Prev_def)
    show ?thesis
    proof (cases found)
      case True
      then obtain q where q: "q < m" "on es q i'" "\<And>j. q < j \<Longrightarrow> j < m \<Longrightarrow> ukey es m \<le> ukey es j" using f(1) by auto
      let ?r = "?it\<lparr>inner := i', direction := kReverse\<rparr>"
      have r: "db_base on es ?r" "direction ?r = kReverse" "on es q (inner ?r)" using D(3) q(2) by (auto simp: db_base_def)
      have "rank ?s es m = rank ?s es (Suc q)" using q(1,3) same_key by (intro rank_same) auto
      then have "rank (sequence_limit ?r) es (if q < length es then Suc q else 0) = p" using D(5) q(1) m(1) by simp
      from FindPrev_on [OF r D(1) this, of b] show ?thesis
        unfolding start using True D(2) by (cases "p = 0") simp_all
    next
      case False
      then have q: "on es (length es) i'" "\<And>j. j < m \<Longrightarrow> ukey es m \<le> ukey es j" using f(1) by auto
      have "rank ?s es m = rank ?s es 0" using q(2) same_key by (intro rank_same) auto
      moreover have "db_on fuel on view (length view) (?it\<lparr>inner := i', db_valid := False, saved_key := [], saved_value := []\<rparr>)"
        using D(1-3) q(1) unfolding db_on_def by (intro exI [of _ es]) (auto simp: db_base_def)
      ultimately show ?thesis using False start D(5) by simp
    qed
  qed
qed

text \<open>A search from a place where nothing shown lies before, which ends behind the last entry when there is none.\<close>

lemma db_position:
  assumes "db_base on es it" "direction it = kForward" "on es i (inner it)" "i \<le> length es" "length es < fuel"
    and "\<And>j k. j < i \<Longrightarrow> seen (sequence_limit it) es j \<Longrightarrow> i \<le> k \<Longrightarrow> k < length es \<Longrightarrow> ukey es j < ukey es k"
  shows "\<exists>it' m. (if op_Valid ops (inner it) then FindNextUserEntry fuel b ops False it else Ok (it\<lparr>db_valid := False\<rparr>)) = Ok it' \<and>
    i \<le> m \<and> m \<le> length es \<and> (\<forall>j. i \<le> j \<longrightarrow> j < m \<longrightarrow> \<not> shown (sequence_limit it) es j) \<and>
    (m < length es \<longrightarrow> shown (sequence_limit it) es m) \<and>
    db_on fuel on (user_view (sequence_limit it) es) (rank (sequence_limit it) es m) it'"
proof (cases "i < length es")
  case True
  then have "next_ready on es i False it" using assms by (auto simp: next_ready_def)
  from FindNext_ready [OF this assms(5)] obtain it' where it': "FindNextUserEntry fuel b ops False it = Ok it'" "found_next on es i False it it'"
    by blast
  from found_next_on [OF it'(2) assms(5)] obtain m where "i \<le> m" "m \<le> length es" "\<And>j. i \<le> j \<Longrightarrow> j < m \<Longrightarrow> \<not> wanted es False it j"
    "m < length es \<Longrightarrow> wanted es False it m" "db_on fuel on (user_view (sequence_limit it) es) (rank (sequence_limit it) es m) it'"
    by blast
  then show ?thesis using it'(1) True on_Valid [OF assms(3)] by (intro exI [of _ it'] exI [of _ m]) (simp add: wanted_def)
next
  case False
  then have "i = length es" using assms(4) by simp
  moreover have "db_on fuel on (user_view (sequence_limit it) es) (length (user_view (sequence_limit it) es)) (it\<lparr>db_valid := False\<rparr>)"
    using assms(1,5) unfolding db_on_def by (intro exI [of _ es]) (auto simp: db_base_def)
  ultimately show ?thesis
    using on_Valid [OF assms(3)] by (intro exI [of _ "it\<lparr>db_valid := False\<rparr>"] exI [of _ i]) (simp add: rank_length)
qed

lemma db_on_base:
  assumes "db_on fuel on view p it"
  obtains es q where "length es < fuel" "view = user_view (sequence_limit it) es" "db_base on es it" "on es q (inner it)"
  using assms by (auto simp: db_on_def db_base_def)

lemma db_SeekToFirst_on:
  assumes "db_on fuel on view p it"
  shows "\<exists>it'. db_SeekToFirst fuel b ops it = Ok it' \<and> db_on fuel on view 0 it'"
proof -
  obtain es q where D: "length es < fuel" "view = user_view (sequence_limit it) es" "db_base on es it" "on es q (inner it)"
    using assms by (rule db_on_base)
  obtain i' where i': "op_SeekToFirst ops (inner it) = Ok i'" "on es 0 i'" using on_SeekToFirst [OF D(4)] by blast
  let ?it = "it\<lparr>direction := kForward, saved_value := [], inner := i'\<rparr>"
  have base: "db_base on es ?it" using D(3) i'(2) by (auto simp: db_base_def)
  obtain it' m where m: "(if op_Valid ops (inner ?it) then FindNextUserEntry fuel b ops False ?it else Ok (?it\<lparr>db_valid := False\<rparr>)) = Ok it'"
    "\<And>j. j < m \<Longrightarrow> \<not> shown (sequence_limit it) es j" "db_on fuel on (user_view (sequence_limit it) es) (rank (sequence_limit it) es m) it'"
    using db_position [OF base _ _ _ D(1), of 0 b] i'(2) by auto
  have "rank (sequence_limit it) es m = rank (sequence_limit it) es 0" using m(2) by (intro rank_same) auto
  then show ?thesis using m(1,3) i'(1) D(2) by (simp add: db_SeekToFirst_def Let_def)
qed

lemma db_SeekToLast_on:
  assumes "db_on fuel on view p it"
  shows "\<exists>it'. db_SeekToLast fuel b ops it = Ok it' \<and> db_on fuel on view (length view - 1) it'"
proof -
  obtain es q where D: "length es < fuel" "view = user_view (sequence_limit it) es" "db_base on es it" "on es q (inner it)"
    using assms by (rule db_on_base)
  obtain i' where i': "op_SeekToLast ops (inner it) = Ok i'" "on es (length es - 1) i'" using on_SeekToLast [OF D(4)] by blast
  let ?it = "it\<lparr>direction := kReverse, saved_value := [], inner := i'\<rparr>"
  have base: "db_base on es ?it" using D(3) i'(2) by (auto simp: db_base_def)
  have "rank (sequence_limit ?it) es (if length es - 1 < length es then Suc (length es - 1) else 0) = length view"
    using D(2) by (cases es) (simp_all add: rank_length [symmetric])
  from FindPrev_on [OF base _ _ D(1) this, of b] show ?thesis
    using i' D(2) by (cases "view = []") (simp_all add: db_SeekToLast_def Let_def)
qed

lemma seek_tag:
  assumes "seen s es i" "parses es" "i < length es" "s \<le> kMaxSequenceNumber"
  shows "key_tag (fst (es ! i)) \<le> push_bit 8 s OR type_byte kValueTypeForSeek"
proof -
  let ?t = "key_tag (fst (es ! i))" and ?u = "push_bit 8 s OR type_byte kValueTypeForSeek"
  have nat: "unat w = 256 * unat (drop_bit 8 w) + unat (w AND 0xff)" for w :: u64
    by (simp add: low_byte drop_bit_eq_div take_bit_eq_mod unat_div unat_mod)
  have "ParseInternalKey (fst (es ! i)) \<noteq> None" using assms(2,3) by (simp add: parses_def)
  then have "?t AND 0xff \<le> 1" by (auto simp: ParseInternalKey_def Let_def type_byte_def split: if_splits)
  then have low: "unat (?t AND 0xff) \<le> 1" by (simp add: word_le_nat_alt)
  have high: "unat (drop_bit 8 ?t) \<le> unat s" using assms(1) by (simp add: seen_def word_le_nat_alt)
  have "unat (type_byte kTypeValue) = 1" by (simp add: type_byte_def)
  then have "unat ?u = 256 * unat s + 1"
    using nat [of ?u] tag_pack [OF assms(4), of kValueTypeForSeek] by (simp add: kValueTypeForSeek_def)
  then show ?thesis using nat [of ?t] low high by (simp add: word_le_nat_alt)
qed

lemma db_Seek_on:
  assumes "db_on fuel on view p it"
  shows "\<exists>it'. db_Seek fuel b ops target it = Ok it' \<and> db_on fuel on view (seek_position Slice_compare target view) it'"
proof -
  let ?s = "sequence_limit it"
  obtain es q where D: "length es < fuel" "view = user_view ?s es" "db_base on es it" "on es q (inner it)"
    using assms by (rule db_on_base)
  have base: "internal_order es" "parses es" "?s \<le> kMaxSequenceNumber" using D(3) by (simp_all add: db_base_def)
  define tag where "tag = push_bit 8 ?s OR type_byte kValueTypeForSeek"
  define k where "k = target @ store64 tag"
  have k: "AppendInternalKey b [] \<lparr>user_key = target, sequence = ?s, key_type = kValueTypeForSeek\<rparr> = Ok k" "internal_key_ok k"
    using base(3) by (simp_all add: AppendInternalKey_def pack_ok PutFixed64_def k_def tag_def)
  define i where "i = seek_position InternalKey_Compare k es"
  obtain i' where i': "op_Seek ops k (inner it) = Ok i'" "on es i i'" using on_Seek [OF D(4) k(2)] by (auto simp: i_def)
  have i_le: "i \<le> length es" using on_entries [OF i'(2)] by simp
  have below: "ukey es j < target" if "j < i" "seen ?s es j" for j
  proof -
    have "InternalKey_Compare (fst (es ! j)) k < 0" using that(1) by (simp add: i_def below_seek_position)
    moreover have "key_tag (fst (es ! j)) \<le> tag" unfolding tag_def using seek_tag [OF that(2) base(2) _ base(3)] that(1) i_le by simp
    ultimately show ?thesis by (auto simp: InternalKey_less k_def ukey_def)
  qed
  have above: "target \<le> ukey es j" if "i \<le> j" "j < length es" for j
  proof -
    have "\<not> InternalKey_Compare (fst (es ! i)) k < 0" using that at_seek_position [of InternalKey_Compare k es] by (simp add: i_def)
    then have "target \<le> ukey es i" by (auto simp: InternalKey_less k_def ukey_def)
    then show ?thesis using ukey_mono [OF base(1) that] by simp
  qed
  let ?it = "it\<lparr>direction := kForward, saved_value := [], saved_key := k, inner := i'\<rparr>"
  have base2: "db_base on es ?it" using D(3) i'(2) by (auto simp: db_base_def)
  have "ukey es j < ukey es j'" if "j < i" "seen ?s es j" "i \<le> j'" "j' < length es" for j j'
    using below [OF that(1,2)] above [OF that(3,4)] by simp
  then obtain it' m where m: "(if op_Valid ops (inner ?it) then FindNextUserEntry fuel b ops False ?it else Ok (?it\<lparr>db_valid := False\<rparr>)) = Ok it'"
    "i \<le> m" "m \<le> length es" "\<And>j. i \<le> j \<Longrightarrow> j < m \<Longrightarrow> \<not> shown ?s es j" "m < length es \<Longrightarrow> shown ?s es m"
    "db_on fuel on (user_view ?s es) (rank ?s es m) it'"
    using db_position [OF base2 _ _ i_le D(1), of b] i'(2) by auto
  have "seek_position Slice_compare target view = rank ?s es m"
    unfolding D(2)
  proof (rule view_seek [OF base(1) m(3)])
    show "shown ?s es m \<and> target \<le> ukey es m" if "m < length es" using that m(2,5) above by simp
    show "ukey es j < target" if "j < m" "shown ?s es j" for j
      using that m(4) [of j] below [of j] by (cases "j < i") (auto simp: shown_def)
  qed
  then show ?thesis using m(1,6) i'(1) k(1) D(2) by (cases "op_Valid ops i'") (simp_all add: db_Seek_def Let_def)
qed

lemma db_key_on:
  assumes "db_on fuel on view p it" "p < length view"
  shows "op_key (db_iter_ops fuel b ops) it = Ok (fst (view ! p))" "op_value (db_iter_ops fuel b ops) it = Ok (snd (view ! p))"
proof -
  obtain es m where D: "view = user_view (sequence_limit it) es" "db_base on es it" "shown (sequence_limit it) es m"
    "p = rank (sequence_limit it) es m" "db_valid it" "db_forward on es m it \<or> db_reverse on es m it"
    using assms by (rule db_onE)
  have m: "m < length es" using D(3) by (simp add: shown_def)
  have at: "view ! p = (ukey es m, snd (es ! m))" using rank_nth(2) [OF D(3)] D(1,4) by simp
  have forward: "op_key ops (inner it) = Ok (fst (es ! m))" "op_value ops (inner it) = Ok (snd (es ! m))" if "db_forward on es m it"
    using that on_key [OF _ m] on_value [OF _ m] by (simp_all add: db_forward_def)
  show "op_key (db_iter_ops fuel b ops) it = Ok (fst (view ! p))" "op_value (db_iter_ops fuel b ops) it = Ok (snd (view ! p))"
    unfolding at using D(5,6) forward user_key_at [OF D(2) m, of b] by (auto simp: db_iter_ops_def db_forward_def db_reverse_def)
qed

sublocale db: sorted_iterator Slice_compare "\<lambda>_. True" "db_iter_ops fuel b ops" "db_on fuel on" for fuel b
proof (unfold_locales, goal_cases)
  case (1 es p it)
  obtain es' where "es = user_view (sequence_limit it) es'" "db_base on es' it" using 1 by (rule db_on_base)
  then show ?case using 1 user_view_ascending [of es'] by (auto simp: db_on_def db_base_def split: if_splits)
next
  case (2 es p it)
  then show ?case by (auto simp: db_on_def db_iter_ops_def split: if_splits)
next
  case (3 es p it)
  then show ?case by (rule db_key_on(1))
next
  case (4 es p it)
  then show ?case by (rule db_key_on(2))
next
  case (5 es p it)
  obtain es' q where "db_base on es' it" "on es' q (inner it)" using 5 by (rule db_on_base)
  then show ?case by (simp add: db_iter_ops_def db_base_def on_status)
next
  case (6 es p it)
  then show ?case using db_Next_on [of fuel es p it b] by (simp add: db_iter_ops_def)
next
  case (7 es p it)
  then show ?case using db_Prev_on [of fuel es p it b] by (simp add: db_iter_ops_def)
next
  case (8 es p it target)
  then show ?case using db_Seek_on [of fuel es p it b target] by (simp add: db_iter_ops_def)
next
  case (9 es p it)
  then show ?case using db_SeekToFirst_on [of fuel es p it b] by (simp add: db_iter_ops_def)
next
  case (10 es p it)
  then show ?case using db_SeekToLast_on [of fuel es p it b] by (simp add: db_iter_ops_def)
qed

lemma db_client: "db_on fuel on view p it \<Longrightarrow> client (db_iter_ops fuel b ops) calls it = Ok (cursor Slice_compare view calls p, OK)"
  using db.client_on [of fuel view p it calls b] by (simp add: call_ok_def split: call.split)

text \<open>A new iterator is not valid and on no entry.\<close>

lemma NewDBIterator_on:
  assumes "on es p i" "parses es" "s \<le> kMaxSequenceNumber" "length es < fuel"
  shows "db_on fuel on (user_view s es) (length (user_view s es)) (NewDBIterator i s seed)"
proof -
  obtain period seed' where "RandomCompactionPeriod (Random seed) = (period, seed')" "seed_ok seed'"
    using Random_Next_ok [OF Random_ok] by (simp add: RandomCompactionPeriod_def Uniform_def Let_def)
  then show ?thesis
    using assms on_entries [OF assms(1)] unfolding db_on_def
    by (intro exI [of _ es]) (auto simp: NewDBIterator_def db_base_def)
qed

end

text \<open>Over a block and over a table of internal keys.\<close>

interpretation block_db: internal_iterator "block_ops b" "block_on InternalKey_Compare internal_key_ok" for b
  by (intro internal_iterator.intro internal_block.sorted_iterator_axioms)

interpretation table_db: internal_iterator "two_level_ops fuel b (block_ops b) (block_ops b)"
    "tl_on fuel InternalKey_Compare internal_key_ok (block_on InternalKey_Compare internal_key_ok) (block_on InternalKey_Compare internal_key_ok)"
    for fuel b
  by (intro internal_iterator.intro internal_tables.table.sorted_iterator_axioms)

section \<open>What a client sees\<close>

lemma any_call: "call_ok (\<lambda>_. True) c"
  by (cases c) (simp_all add: call_ok_def)

text \<open>
  C28: the iterator of a database shows a consistent view. Over any iterator on internal keys that keeps the contract of iterators, and
  for any sequence number in range: the entries shown are in ascending order of the user keys, and are exactly the keys whose newest
  write with a number not above the given one is a value, with that value; and whatever calls a client makes, in whatever order
  (\<open>Next\<close> and \<open>Prev\<close> on valid iterators, changes of direction included), it sees after each call what a cursor in the list of these
  entries shows, with status ok, without a failing assertion, and every search ends.
\<close>

theorem database_iterator:
  assumes "internal_iterator ops on" "on es p i" "parses es" "s \<le> kMaxSequenceNumber"
  shows "ascending Slice_compare (\<lambda>_. True) (user_view s es) \<and> (\<forall>k v. (k, v) \<in> set (user_view s es) \<longleftrightarrow> latest s es k v) \<and>
    client (db_iter_ops (Suc (length es)) b ops) calls (NewDBIterator i s seed) =
      Ok (cursor Slice_compare (user_view s es) calls (length (user_view s es)), OK)"
proof (intro conjI allI)
  have "internal_order es"
    using sorted_iterator.on_entries [OF internal_iterator.axioms [OF assms(1)] assms(2)] by simp
  then show "ascending Slice_compare (\<lambda>_. True) (user_view s es)" by (rule user_view_ascending)
  show "(k, v) \<in> set (user_view s es) \<longleftrightarrow> latest s es k v" for k v
    by (rule user_view_latest [OF \<open>internal_order es\<close> assms(3)])
  show "client (db_iter_ops (Suc (length es)) b ops) calls (NewDBIterator i s seed) =
      Ok (cursor Slice_compare (user_view s es) calls (length (user_view s es)), OK)"
    using internal_iterator.db_client [OF assms(1)] internal_iterator.NewDBIterator_on [OF assms lessI] by blast
qed

definition sample_writes :: "(bytes \<times> bytes) list" where
  "sample_writes = [([97, 0, 5, 0, 0, 0, 0, 0, 0], []), ([97, 1, 3, 0, 0, 0, 0, 0, 0], [1]), ([98, 1, 4, 0, 0, 0, 0, 0, 0], [2]),
     ([98, 1, 2, 0, 0, 0, 0, 0, 0], [3]), ([99, 0, 1, 0, 0, 0, 0, 0, 0], [])]"

abbreviation sample_options :: "unit options_scheme" where
  "sample_options \<equiv> \<lparr>block_restart_interval = 16, opt_comparator = InternalKey_Compare\<rparr>"

lemma sample_block:
  "build_block Release sample_options sample_writes =
    Ok [0, 9, 0, 97, 0, 5, 0, 0, 0, 0, 0, 0, 1, 8, 1, 1, 3, 0, 0, 0, 0, 0, 0, 1, 0, 9, 1, 98, 1, 4, 0, 0, 0, 0, 0, 0, 2,
      2, 7, 1, 2, 0, 0, 0, 0, 0, 0, 3, 0, 9, 0, 99, 0, 1, 0, 0, 0, 0, 0, 0, 0, 0, 0, 0, 1, 0, 0, 0]"
  unfolding sample_writes_def by code_simp

lemma sample_writes_facts:
  "ascending InternalKey_Compare internal_key_ok sample_writes" "parses sample_writes"
  "user_view 4 sample_writes = [([97], [1]), ([98], [2])]" "length sample_writes = 5"
  by code_simp+

theorem database_iterator_witness:
  "\<exists>data i. build_block Release sample_options sample_writes = Ok data \<and> NewIterator Debug InternalKey_Compare (Block data) = Ok i \<and>
    client (db_iter_ops 6 Debug (block_ops Debug)) [CallSeekToLast, CallPrev, CallNext, CallNext] (NewDBIterator i 4 301) =
      Ok ([Some ([98], [2]), Some ([97], [1]), Some ([98], [2]), None], OK)"
proof -
  obtain data where data: "build_block Release sample_options sample_writes = Ok data" "length data < 2 ^ 32"
    using sample_block by simp
  obtain i where i: "NewIterator Debug InternalKey_Compare (Block data) = Ok i"
    "block_on InternalKey_Compare internal_key_ok sample_writes (length sample_writes) i"
    using block_iterator_new [OF _ _ _ data, of internal_key_ok Debug] internal_keys.key_order_axioms sample_writes_facts(1) by auto
  have "(4 :: u64) \<le> kMaxSequenceNumber" by code_simp
  from database_iterator [OF block_db.internal_iterator_axioms [of Debug] i(2) sample_writes_facts(2) this, of Debug
      "[CallSeekToLast, CallPrev, CallNext, CallNext]" 301]
  have "client (db_iter_ops 6 Debug (block_ops Debug)) [CallSeekToLast, CallPrev, CallNext, CallNext] (NewDBIterator i 4 301) =
      Ok ([Some ([98], [2]), Some ([97], [1]), Some ([98], [2]), None], OK)"
    by (simp add: sample_writes_facts(3,4) numeral_eq_Suc del: client.simps)
  then show ?thesis using data(1) i(1) by blast
qed

end
