(* ===== verification/Spec2Isabelle.thy ===== *)
theory Spec2Isabelle
  imports BlockTypes BlockPrint InputLoop HeapSort CRC32 RandomPool Formatting InPlaceParser Platform BlockSafety TableReading DBOperations
begin

text \<open>
  A verification development of bitcoinstats, a C++ program that reads the data of a Bitcoin node: its block index, a LevelDB
  database, and its block files.

  \<^bold>\<open>The program.\<close> \<open>main\<close> (src/app/main.cpp) starts a thread that reads lines from the console, waits for its wake-up signal and hands
  every line to the commands. These load the block index from the database, answer for each height, and show what the parser
  finds. The block files are read by \<open>BlockChainImpl\<close>: it scans them for block headers, builds the chain back from the last header, reads
  blocks with the parser \<open>BlockImpl\<close>, indexes their transactions and prints them. The parser turns output scripts into addresses, with
  SHA-256, RIPEMD-160 and Base58. Beside these there are utilities: text formatting, a text parser, a heap sort, a checksum, random
  numbers and paths.

  \<^bold>\<open>Conventions.\<close> C integers are words of their width, except where a variable only counts or indexes within a bound that is
  proved or checked; sizes and positions in a buffer are natural numbers. A byte array is the list of its bytes. A pointer into a buffer
  is a position or the rest of the list. Everything that can go wrong is a value of type \<open>fault\<close> (Prelude): a failed assert, \<open>exit\<close>, an access
  outside of an array, a loop that does not end, signed overflow, division by zero, memory freed twice or used after that. Functions of the code
  return \<open>fault + 'a\<close>, functions that change an object also return the object. The parameter \<open>build\<close> says whether asserts are compiled in.
  Loops are recursive functions on the data or on a count; those that need not end are \<open>partial_function (option)\<close> and have \<open>None\<close> as value
  when they run forever (\<open>count_loop\<close>, \<open>day_loop\<close>, \<open>argument_loop\<close>, \<open>parse_loop\<close>); it is proved when they end. Only the loops of LevelDB's
  iterators take fuel, and running out of it is the fault \<open>Diverges\<close>; it is proved that the fuel given is enough.
  Memory that is read without having been written is an argument (\<open>stack_memory\<close>, \<open>garbage\<close>).

  \<^bold>\<open>Theories and the code they model.\<close>
  \<^item> Prelude: results, state passing with faults, arrays, little-endian numbers; the locale \<open>block_hash\<close> of hash functions that
    absorb a message block by block.
  \<^item> SHA256 (src/src/SHA256.cpp), RIPEMD160 (src/src/RIPEMD160.cpp): the contexts, compression, update and finish; the results are those of
    the standards on the whole message, whatever was in the uninitialised memory. Both interpret \<open>block_hash\<close>.
  \<^item> BigNumber and Base58 (src/src/Base58.cpp): big integers in byte buffers with all their operations, and the coder; encoding is
    the positional system, decoding inverts it. The loop over digits is proved for the locale \<open>base58_source\<close>, which the big integers interpret.
  \<^item> BitcoinAddress (src/src/BitcoinAddress.cpp): addresses from keys and their texts, in both directions.
  \<^item> BlockReader (class \<open>BlockImpl\<close> of src/src/BlockChain.cpp, classes of src/include/BlockChain.h): the parser, one reader per method; from the
    wire form of a block of standard transactions it yields exactly that block. ReaderSafety: on any bytes the debug build stays inside
    its memory or stops. BlockTypes: on any bytes a block that the debug build accepts is well formed; rules of a weakest precondition for
    each method.
  \<^item> BlockScan, ScanFiles, ChainBuild, TextSearch, ChainRead, BlockPrint (class \<open>BlockChainImpl\<close>): the scan of the files, its result on
    well-formed files and its invariant on any; the chain; the text search, and what it misses at the end of a block; reading blocks and transactions and their index; printing. The
    hash sets are the locale \<open>hash_set\<close>, interpreted for headers and for places of transactions.
  \<^item> BlockIndex and BlockTime (src/include/CBlockIndex.h, src/include/varint.h): the entry of the block index, its variable-length
    integers, the date of a block.
  \<^item> KeyValue (src/src/KeyValueDatabase.cpp): iteration over the keys with a prefix. The iterator of LevelDB is the locale \<open>leveldb\<close>,
    with the promises of src/include/leveldb/iterator.h.
  \<^item> LevelDB, in src/src/leveldb. Coding (util/coding.cc): integers and slices. Comparator (util/comparator.cc, slice.h) and InternalKeys
    (db/dbformat.cc): the orders of keys, both interpretations of the locale \<open>key_order\<close>. Iterators (iterator.h, table/iterator_wrapper.h):
    the contract of all iterators, locale \<open>sorted_iterator\<close>. BlockBuilder, TableBlock (table/block_builder.cc, table/block.cc): blocks and
    their iterator; BlockIteration: it keeps the contract on every block that was built, BlockSafety: it ends on any bytes. TwoLevel
    (table/two_level_iterator.cc): an index and its blocks keep the contract together; TableIteration: the interpretations.
    CRC32C (util/crc32c.cc): the checksum; BloomFilter (util/bloom.cc, util/hash.cc) and FilterBlock (table/filter_block.cc): filters over
    keys, with the contract \<open>filter_policy\<close>. TableFormat, TableBuilder, TableReader (table/format.cc, table/table_builder.cc,
    table/table.cc): files of tables, written, opened, iterated and searched, over the contracts \<open>writable_file\<close>, \<open>readable_file\<close> and
    \<open>compressor\<close> (Snappy). TableWriting and TableEntries: the invariant of the builder in the locale
    \<open>table_writer\<close>, and that every \<open>Add\<close> keeps it; TableContents: what the finished file holds; TableReading: in the locale
    \<open>table_reader\<close>, what opening, iterating and looking up make of it.
    DBIterator (db/db_iter.cc, util/random.h): the iterator of a database. Cursor: what a client of an iterator sees; DBView: the view
    of a sequence number; DBSearch and DBOperations: in the locale \<open>internal_iterator\<close>, extending \<open>sorted_iterator\<close>, the loops end and the
    database's iterator keeps the contract on the view.
  \<^item> Blocks, BlocksLoaded (src/src/blocks.cpp): loading the index, days and their statistics; proved inside the locale \<open>leveldb\<close> and for the
    interpretation.
  \<^item> CommandLine (src/include/GetArgs.h, src/src/Commands.cpp, src/src/ParseBlock.cpp): splitting a line and executing it.
  \<^item> InputLoop (src/src/InputLine.cpp, src/src/WakupThread.cpp, src/app/main.cpp): the two threads as a step relation, each access to
    shared data one step, up to the release of the objects at the end of \<open>main\<close>; safety by rule induction, progress under fairness, and the
    use of the deleted input object by the detached reader.
  \<^item> HeapSort (src/include/HeapSort.h), CRCRegister and CRC32 (src/src/CRC32.cpp), RandomPool (src/include/rand.h), Formatting (src/src/logging.cpp,
    src/src/sutil.cpp), InPlaceParser (src/src/InParser.cpp), Platform (src/src/wplatform.cpp): the utilities, each with its reference. The reference of
    the text parser is a splitting into lines of its own, with the numbers the code gives them; its blocks of memory have identities, so
    that a double free is a result.

  \<^bold>\<open>Kinds of results.\<close> References and round trips for everything that encodes or decodes; refinement for the loaded index, the session and
  the text parser; invariants of the scan and of the session; memory safety and well-formedness of the parser on arbitrary bytes; exact
  conditions for loops that do not end; bounds of arrays with the inputs that exceed them. Where the code does not do what it means to do, the
  behaviour itself is the theorem.

  \<^bold>\<open>Bounds.\<close> The parser is proved safe when 64 bytes follow the block in memory, which is what keys of multi-signature scripts may read
  past its end. Messages for the hash functions are shorter than 2^32 bytes, the type of their length. Heap sort takes up to 2^30
  elements, so that \<open>root * 2 + 1\<close> stays an \<open>int\<close>. Blocks and files lie below 2^32 bytes, the type of the file offsets.

  \<^bold>\<open>Not modelled.\<close> Floating point: \<open>computeStandardDeviation\<close> (src/include/StandardDeviation.h), \<open>Ranf\<close>, \<open>randomRange\<close>, and the conversion
  of amounts when they are printed, which stay numbers in the list of items. Clocks, sleeping and memory statistics
  (src/include/ScopedTime.h, most of src/src/wplatform.cpp) are calls of the system. src/include/FileInterface.h only
  declares functions. Destructors that only close files and free memory are left out, and allocations are taken to succeed, except where
  ownership matters (InPlaceParser). Of the third-party code, the parts of LevelDB named above are modelled (its block cache as
  a lookup function); the rest of it, Snappy and RapidJSON are not.
\<close>

end
